(* ===== verification/Types.thy ===== *)
theory Types
  imports Prelude
begin

section \<open>Variables and packed literals (\<open>src/types.rs\<close>)\<close>

text \<open>
  A variable is a \<open>u32\<close> index; a literal packs a variable and a sign into one \<open>u32\<close>, the
  sign in the low bit. The lemmas show that the packing is a bijection for every variable
  that \<open>Var::new\<close> accepts, that negation by exclusive or is an involution that keeps the
  variable, that the watch-list index of a literal is twice the variable plus the sign, and
  that the DIMACS conversion round-trips.
\<close>

subsection \<open>Definitions\<close>

definition MAX_VARIABLES :: nat where
  "MAX_VARIABLES = u32_max div 2 + 1"

datatype var = Var (var_raw: u32)

datatype lit = Lit (lit_raw: u32)

definition var_new :: "u32 \<Rightarrow> var option" where
  \<comment> \<open>\<open>None\<close> is the failed assertion.\<close>
  "var_new index = (if index \<le> drop_bit 1 (-1) then Some (Var index) else None)"

definition var_index :: "var \<Rightarrow> nat" where
  "var_index v = unat (var_raw v)"

definition lit_positive :: "var \<Rightarrow> lit" where
  "lit_positive v = Lit (push_bit 1 (var_raw v))"

definition lit_negative :: "var \<Rightarrow> lit" where
  "lit_negative v = Lit (push_bit 1 (var_raw v) OR 1)"

definition lit_new :: "var \<Rightarrow> bool \<Rightarrow> lit" where
  "lit_new v positive = (if positive then lit_positive v else lit_negative v)"

definition lit_var :: "lit \<Rightarrow> var" where
  "lit_var l = Var (drop_bit 1 (lit_raw l))"

definition is_positive :: "lit \<Rightarrow> bool" where
  "is_positive l \<longleftrightarrow> lit_raw l AND 1 = 0"

definition lit_index :: "lit \<Rightarrow> nat" where
  "lit_index l = unat (lit_raw l)"

definition lit_not :: "lit \<Rightarrow> lit" where
  "lit_not l = Lit (lit_raw l XOR 1)"

text \<open>An \<open>i64\<close> is an integer here; the code's input ranges over the 64-bit integers.\<close>

definition from_dimacs :: "int \<Rightarrow> lit option" where
  "from_dimacs value =
     (if value = 0 \<or> nat \<bar>value\<bar> > MAX_VARIABLES then None
      else if nat \<bar>value\<bar> - 1 < 2 ^ 32
           then map_option (\<lambda>v. lit_new v (value > 0)) (var_new (of_nat (nat \<bar>value\<bar> - 1)))
           else None)"

definition to_dimacs :: "lit \<Rightarrow> int" where
  "to_dimacs l =
     (let variable = int (unat (var_raw (lit_var l))) + 1
      in if is_positive l then variable else - variable)"

text \<open>The derived order on \<open>Var\<close> and \<open>Lit\<close> is the order of the packed integers.\<close>

instantiation var :: linorder
begin

definition less_eq_var :: "var \<Rightarrow> var \<Rightarrow> bool" where
  "less_eq_var v w \<longleftrightarrow> var_raw v \<le> var_raw w"

definition less_var :: "var \<Rightarrow> var \<Rightarrow> bool" where
  "less_var v w \<longleftrightarrow> var_raw v < var_raw w"

instance
  by standard (auto simp: less_eq_var_def less_var_def var.expand)

end

instantiation lit :: linorder
begin

definition less_eq_lit :: "lit \<Rightarrow> lit \<Rightarrow> bool" where
  "less_eq_lit k l \<longleftrightarrow> lit_raw k \<le> lit_raw l"

definition less_lit :: "lit \<Rightarrow> lit \<Rightarrow> bool" where
  "less_lit k l \<longleftrightarrow> lit_raw k < lit_raw l"

instance
  by standard (auto simp: less_eq_lit_def less_lit_def lit.expand)

end

subsection \<open>The packing\<close>

definition var_ok :: "var \<Rightarrow> bool" where
  "var_ok v \<longleftrightarrow> var_index v < MAX_VARIABLES"

lemma MAX_VARIABLES_eq: "MAX_VARIABLES = 2 ^ 31"
  by (simp add: MAX_VARIABLES_def)

lemma var_new_Some_iff: "var_new i = Some v \<longleftrightarrow> v = Var i \<and> unat i < 2 ^ 31"
proof -
  have "(drop_bit 1 (-1) :: u32) = 0x7FFFFFFF"
    by code_simp
  then show ?thesis
    by (auto simp: var_new_def word_le_nat_alt)
qed

lemma var_index_eq_iff: "var_index v = var_index w \<longleftrightarrow> v = w"
  by (cases v; cases w) (simp add: var_index_def word_unat_eq_iff)

lemma lit_index_eq_iff: "lit_index k = lit_index l \<longleftrightarrow> k = l"
  by (cases k; cases l) (simp add: lit_index_def word_unat_eq_iff)

lemma unat_and_one: "unat (w AND 1 :: u32) = unat w mod 2"
  by (simp add: and_one_eq unat_mod)

lemma var_index_lit_var: "var_index (lit_var l) = lit_index l div 2"
  by (simp add: var_index_def lit_var_def lit_index_def drop_bit_Suc unat_div)

lemma is_positive_iff_even: "is_positive l \<longleftrightarrow> even (lit_index l)"
  unfolding is_positive_def lit_index_def
  by (metis even_iff_mod_2_eq_zero unat_and_one unat_eq_0)

lemma unat_u32_less: "unat (w :: u32) < 2 ^ 32"
proof -
  have "unat w < 2 ^ LENGTH(32)" by (rule unsigned_less)
  then show ?thesis by simp
qed

lemma lit_index_less: "lit_index l < 2 ^ 32"
  unfolding lit_index_def by (rule unat_u32_less)

lemma lit_var_ok [simp]: "var_ok (lit_var l)"
  using lit_index_less [of l] by (simp add: var_ok_def var_index_lit_var MAX_VARIABLES_eq)

lemma lit_index_decomp:
  "lit_index l = 2 * var_index (lit_var l) + (if is_positive l then 0 else 1)"
  by (simp add: var_index_lit_var is_positive_iff_even odd_iff_mod_2_eq_one [symmetric])

lemma unat_push_bit_1:
  "unat (w :: u32) < 2 ^ 31 \<Longrightarrow> unat (w * 2) = 2 * unat w"
  by (simp add: unat_word_ariths)

lemma lit_index_new:
  assumes "var_ok v"
  shows "lit_index (lit_new v p) = 2 * var_index v + (if p then 0 else 1)"
proof -
  have b: "unat (var_raw v) < 2 ^ 31"
    using assms by (simp add: var_ok_def var_index_def MAX_VARIABLES_eq)
  have "var_raw v * 2 OR 1 = var_raw v * 2 + 1"
    by (simp add: or_one_eq)
  moreover have "unat (var_raw v * 2 + 1) = 2 * unat (var_raw v) + 1"
    using b by (simp add: unat_word_ariths)
  ultimately show ?thesis
    using b unat_push_bit_1 [OF b] by (simp add: lit_index_def lit_new_def lit_positive_def
        lit_negative_def var_index_def push_bit_eq_mult)
qed

lemma lit_var_new [lit_simps, simp]: "var_ok v \<Longrightarrow> lit_var (lit_new v p) = v"
  by (simp add: var_index_eq_iff [symmetric] var_index_lit_var lit_index_new)

lemma is_positive_new [lit_simps, simp]: "var_ok v \<Longrightarrow> is_positive (lit_new v p) = p"
  by (simp add: is_positive_iff_even lit_index_new)

lemma lit_new_var_positive [lit_simps, simp]: "lit_new (lit_var l) (is_positive l) = l"
  by (simp add: lit_index_eq_iff [symmetric] lit_index_new lit_index_decomp [of l])

lemma lit_eq_iff: "k = l \<longleftrightarrow> lit_var k = lit_var l \<and> is_positive k = is_positive l"
proof
  assume "lit_var k = lit_var l \<and> is_positive k = is_positive l"
  then have "lit_new (lit_var k) (is_positive k) = lit_new (lit_var l) (is_positive l)"
    by simp
  then show "k = l"
    by simp
qed simp

subsection \<open>Negation\<close>

lemma unat_xor_one: "unat (w XOR 1 :: u32) = (if even (unat w) then unat w + 1 else unat w - 1)"
proof -
  have e: "even w \<longleftrightarrow> even (unat w)"
    by (metis even_iff_mod_2_eq_zero even_word_def even_word_iff unat_and_one unat_eq_0)
  show ?thesis
  proof (cases "even w")
    case True
    then have "even (unat w)" using e by simp
    then have "unat w + 1 < 2 ^ 32"
      using unat_u32_less [of w] by (simp, presburger)
    with True e show ?thesis
      by (simp add: xor_one_eq unat_word_ariths)
  next
    case False
    then have "w \<noteq> 0" by auto
    with False e show ?thesis
      by (simp add: xor_one_eq unat_minus_one)
  qed
qed

lemma lit_index_not:
  "lit_index (lit_not l) = (if is_positive l then lit_index l + 1 else lit_index l - 1)"
  by (simp add: lit_index_def lit_not_def unat_xor_one is_positive_iff_even)

lemma lit_var_not [lit_simps, simp]: "lit_var (lit_not l) = lit_var l"
proof -
  have "odd n \<Longrightarrow> (n - 1) div 2 = n div 2" for n :: nat
    by (auto elim!: oddE)
  then show ?thesis
    by (cases "is_positive l")
      (auto simp: var_index_eq_iff [symmetric] var_index_lit_var lit_index_not is_positive_iff_even)
qed

lemma is_positive_not [lit_simps, simp]: "is_positive (lit_not l) \<longleftrightarrow> \<not> is_positive l"
proof (cases "even (lit_index l)")
  case True
  then show ?thesis
    by (simp add: is_positive_iff_even lit_index_not)
next
  case False
  then have "lit_index l \<noteq> 0" by (metis even_zero)
  with False show ?thesis
    by (simp add: is_positive_iff_even lit_index_not)
qed

lemma lit_not_not [lit_simps, simp]: "lit_not (lit_not l) = l"
  by (simp add: lit_eq_iff [of _ l])

lemma lit_not_neq [lit_simps, simp]: "lit_not l \<noteq> l" "l \<noteq> lit_not l"
  by (metis is_positive_not)+

lemma lit_not_eq_iff [lit_simps, simp]: "lit_not k = lit_not l \<longleftrightarrow> k = l"
  by (metis lit_not_not)

lemma lit_var_eq_iff: "lit_var k = lit_var l \<longleftrightarrow> k = l \<or> k = lit_not l"
  by (auto simp: lit_eq_iff)

lemma lit_not_new [lit_simps, simp]: "var_ok v \<Longrightarrow> lit_not (lit_new v p) = lit_new v (\<not> p)"
  by (simp add: lit_eq_iff)

subsection \<open>DIMACS numbers\<close>

lemma to_dimacs_bounds:
  "to_dimacs l \<noteq> 0 \<and> \<bar>to_dimacs l\<bar> = int (var_index (lit_var l)) + 1
   \<and> \<bar>to_dimacs l\<bar> \<le> int MAX_VARIABLES"
  using lit_var_ok [of l]
  by (auto simp: to_dimacs_def var_index_def [symmetric] var_ok_def Let_def simp del: of_nat_unat)

lemma to_dimacs_pos_iff: "0 < to_dimacs l \<longleftrightarrow> is_positive l"
  by (simp add: to_dimacs_def Let_def del: of_nat_unat)

lemma from_dimacs_Some_iff:
  "from_dimacs x = Some l \<longleftrightarrow>
     x \<noteq> 0 \<and> nat \<bar>x\<bar> \<le> MAX_VARIABLES \<and> var_index (lit_var l) = nat \<bar>x\<bar> - 1 \<and> is_positive l = (x > 0)"
proof (cases "x \<noteq> 0 \<and> nat \<bar>x\<bar> \<le> MAX_VARIABLES")
  case True
  let ?i = "nat \<bar>x\<bar> - 1"
  have i: "?i < 2 ^ 31" "unat (of_nat ?i :: u32) = ?i"
    using True by (auto simp: MAX_VARIABLES_eq unat_of_nat)
  then have ok: "var_ok (Var (of_nat ?i))" and idx: "var_index (Var (of_nat ?i)) = ?i"
    by (simp_all add: var_ok_def var_index_def MAX_VARIABLES_eq)
  have "from_dimacs x = Some (lit_new (Var (of_nat ?i)) (x > 0))"
    using True i var_new_Some_iff [of "of_nat ?i" "Var (of_nat ?i)"]
    by (auto simp: from_dimacs_def)
  with True ok idx show ?thesis
    by (auto simp: lit_eq_iff var_index_eq_iff [symmetric])
qed (auto simp: from_dimacs_def)

text \<open>
  C36: the DIMACS numbers and the packed literals correspond one to one: a number is accepted
  exactly when it is the number of a literal, and that literal is the one it is read as.
\<close>

theorem dimacs_literals_inverse: "from_dimacs x = Some l \<longleftrightarrow> x = to_dimacs l"
proof
  assume "from_dimacs x = Some l"
  then have x: "x \<noteq> 0" "var_index (lit_var l) = nat \<bar>x\<bar> - 1" "is_positive l = (x > 0)"
    by (simp_all add: from_dimacs_Some_iff)
  have "\<bar>to_dimacs l\<bar> = \<bar>x\<bar>" using to_dimacs_bounds [of l] x by simp
  then show "x = to_dimacs l" using to_dimacs_pos_iff [of l] x by linarith
next
  assume "x = to_dimacs l"
  then show "from_dimacs x = Some l"
    using to_dimacs_bounds [of l] to_dimacs_pos_iff [of l] by (auto simp: from_dimacs_Some_iff)
qed

end
