(* ===== verification/Dimacs.thy ===== *)
theory Dimacs
  imports Types
begin

section \<open>The DIMACS parser (\<open>src/dimacs.rs\<close>)\<close>

text \<open>
  The lexer state, one function per method of \<open>Lexer\<close>, the number parsers and \<open>parse\<close>
  itself. The input is a list of bytes (\<open>string\<close>). The loops are recursive functions whose
  termination measure is the number of bytes left. Every error return is a \<open>Parse_Error\<close>
  with the line and column the code reports; \<open>Capacity_Overflow\<close> is the panic of
  \<open>Vec::with_capacity\<close>, which the code calls with the declared clause count.
\<close>

subsection \<open>Data\<close>

record formula =
  variable_count :: nat
  clauses :: "lit list list"

datatype message =
  ExpectedHeader | ExpectedCnf | ExpectedVariableCount | ExpectedClauseCount
| InvalidNonnegative string | DoesNotFit string | VariableCountExceedsLimit
| TooManyClauses nat | LiteralOutOfRange int nat | LiteralExceedsPackedRange
| ExpectedInteger | IntegerOutOfRange | MissingTerminator | ClauseCountMismatch nat nat

datatype parse_failure =
  Parse_Error (err_line: nat) (err_column: nat) (err_message: message)
| Capacity_Overflow

record token =
  tk_bytes :: string
  tk_line :: nat
  tk_column :: nat

record lexer =
  lx_input :: string
  lx_position :: nat
  lx_line :: nat
  lx_line_start :: nat

definition error_at :: "token \<Rightarrow> message \<Rightarrow> parse_failure" where
  "error_at t m = Parse_Error (tk_line t) (tk_column t) m"

definition error_eof :: "lexer \<Rightarrow> message \<Rightarrow> parse_failure" where
  "error_eof lx m = Parse_Error (lx_line lx) (lx_position lx - lx_line_start lx + 1) m"

subsection \<open>Lexer\<close>

definition newline :: char where "newline = CHR 0x0A"

definition is_ascii_whitespace :: "char \<Rightarrow> bool" where
  "is_ascii_whitespace c \<longleftrightarrow>
     c = CHR 0x20 \<or> c = CHR 0x09 \<or> c = newline \<or> c = CHR 0x0C \<or> c = CHR 0x0D"

definition is_ascii_digit :: "char \<Rightarrow> bool" where
  "is_ascii_digit c \<longleftrightarrow> 48 \<le> (of_char c :: nat) \<and> (of_char c :: nat) \<le> 57"

definition digit_value :: "char \<Rightarrow> nat" where
  "digit_value c = of_char c - 48"

definition lexer_new :: "string \<Rightarrow> lexer" where
  "lexer_new s = \<lparr>lx_input = s, lx_position = 0, lx_line = 1, lx_line_start = 0\<rparr>"

function skip_ascii_whitespace :: "lexer \<Rightarrow> lexer" where
  "skip_ascii_whitespace lx =
     (if lx_position lx < length (lx_input lx) \<and>
         is_ascii_whitespace (lx_input lx ! lx_position lx)
      then skip_ascii_whitespace
             ((if lx_input lx ! lx_position lx = newline
               then lx\<lparr>lx_line := lx_line lx + 1, lx_line_start := lx_position lx + 1\<rparr>
               else lx)\<lparr>lx_position := lx_position lx + 1\<rparr>)
      else lx)"
  by pat_completeness auto
termination
  by (relation "measure (\<lambda>lx. length (lx_input lx) - lx_position lx)") auto

function skip_to_next_line :: "lexer \<Rightarrow> lexer" where
  "skip_to_next_line lx =
     (if lx_position lx < length (lx_input lx)
      then (if lx_input lx ! lx_position lx = newline
            then lx\<lparr>lx_position := lx_position lx + 1, lx_line := lx_line lx + 1,
                    lx_line_start := lx_position lx + 1\<rparr>
            else skip_to_next_line (lx\<lparr>lx_position := lx_position lx + 1\<rparr>))
      else lx)"
  by pat_completeness auto
termination
  by (relation "measure (\<lambda>lx. length (lx_input lx) - lx_position lx)") auto

function token_end :: "string \<Rightarrow> nat \<Rightarrow> nat" where
  "token_end s p =
     (if p < length s \<and> \<not> is_ascii_whitespace (s ! p) then token_end s (p + 1) else p)"
  by pat_completeness auto
termination
  by (relation "measure (\<lambda>(s, p). length s - p)") auto

declare skip_ascii_whitespace.simps [simp del] skip_to_next_line.simps [simp del]
  token_end.simps [simp del]

lemma skip_ascii_whitespace_progress:
  "lx_input (skip_ascii_whitespace lx) = lx_input lx
   \<and> lx_position lx \<le> lx_position (skip_ascii_whitespace lx)
   \<and> (lx_position lx \<le> length (lx_input lx) \<longrightarrow>
      lx_position (skip_ascii_whitespace lx) \<le> length (lx_input lx))"
  by (induction lx rule: skip_ascii_whitespace.induct)
    (subst (1 2 3) skip_ascii_whitespace.simps, auto split: if_splits)

lemma skip_ascii_whitespace_stops:
  "lx_position (skip_ascii_whitespace lx) < length (lx_input lx) \<Longrightarrow>
   \<not> is_ascii_whitespace (lx_input lx ! lx_position (skip_ascii_whitespace lx))"
  by (induction lx rule: skip_ascii_whitespace.induct)
    (subst (asm) (3) skip_ascii_whitespace.simps, subst skip_ascii_whitespace.simps,
      auto split: if_splits)

lemma skip_to_next_line_progress:
  "lx_input (skip_to_next_line lx) = lx_input lx
   \<and> lx_position lx \<le> lx_position (skip_to_next_line lx)
   \<and> (lx_position lx \<le> length (lx_input lx) \<longrightarrow>
      lx_position (skip_to_next_line lx) \<le> length (lx_input lx))"
  by (induction lx rule: skip_to_next_line.induct)
    (subst (1 2 3) skip_to_next_line.simps, auto)

lemma token_end_bounds:
  "p \<le> token_end s p \<and> (p \<le> length s \<longrightarrow> token_end s p \<le> length s)
   \<and> (p < length s \<and> \<not> is_ascii_whitespace (s ! p) \<longrightarrow> p < token_end s p)"
  by (induction s p rule: token_end.induct)
    (subst (1 2 3) token_end.simps, auto)

text \<open>
  One token: whitespace is skipped, then the bytes up to the next whitespace are taken. A
  token \<open>c\<close>, or one that starts a line with \<open>c\<close>, is a comment to the end of the line; a token
  that starts a line with a percent sign ends the input. The position never exceeds the
  length of the input, so \<open>\<le>\<close> in the end test is the \<open>==\<close> of the code.
\<close>

function next_token :: "lexer \<Rightarrow> token option \<times> lexer" where
  "next_token lx0 =
     (let lx = skip_ascii_whitespace lx0; start = lx_position lx
      in if length (lx_input lx) \<le> start then (None, lx)
         else
           let line = lx_line lx; column = start - lx_line_start lx + 1;
               stop = token_end (lx_input lx) start;
               lx1 = lx\<lparr>lx_position := stop\<rparr>;
               bytes = take (stop - start) (drop start (lx_input lx))
           in if bytes = ''c'' \<or> (column = 1 \<and> bytes ! 0 = CHR ''c'')
              then next_token (skip_to_next_line lx1)
              else if column = 1 \<and> bytes ! 0 = CHR ''%''
              then (None, lx1\<lparr>lx_position := length (lx_input lx1)\<rparr>)
              else (Some \<lparr>tk_bytes = bytes, tk_line = line, tk_column = column\<rparr>, lx1))"
  by pat_completeness auto
termination
proof (relation "measure (\<lambda>lx. length (lx_input lx) - lx_position lx)", goal_cases)
  case (2 lx0 lx start line column stop lx1 bytes)
  have a: "lx_position lx0 \<le> start" "lx_input lx = lx_input lx0"
    using skip_ascii_whitespace_progress [of lx0] 2(1,2) by auto
  have "\<not> is_ascii_whitespace (lx_input lx ! start)"
    using skip_ascii_whitespace_stops [of lx0] 2(1-3) a by auto
  then have "start < stop"
    using token_end_bounds [of start "lx_input lx"] 2(3,6) by auto
  moreover have "stop \<le> length (lx_input lx)"
    using token_end_bounds [of start "lx_input lx"] 2(3,6) by auto
  ultimately show ?case
    using a skip_to_next_line_progress [of lx1] 2 by auto
qed simp

declare next_token.simps [simp del]

lemma next_token_progress:
  "lx_input (snd (next_token lx)) = lx_input lx
   \<and> lx_position lx \<le> lx_position (snd (next_token lx))
   \<and> (fst (next_token lx) \<noteq> None \<longrightarrow>
        lx_position lx < lx_position (snd (next_token lx))
        \<and> lx_position (snd (next_token lx)) \<le> length (lx_input lx))"
proof (induction lx rule: next_token.induct)
  case (1 lx0)
  let ?lx = "skip_ascii_whitespace lx0"
  let ?start = "lx_position ?lx"
  let ?stop = "token_end (lx_input ?lx) ?start"
  let ?lx1 = "?lx\<lparr>lx_position := ?stop\<rparr>"
  note p = skip_ascii_whitespace_progress [of lx0]
  show ?case
  proof (cases "length (lx_input ?lx) \<le> ?start")
    case True
    then show ?thesis
      using p by (subst (1 2 3 4 5) next_token.simps) (simp add: Let_def)
  next
    case False
    then have "\<not> is_ascii_whitespace (lx_input ?lx ! ?start)"
      using skip_ascii_whitespace_stops [of lx0] p by auto
    then have stop: "?start < ?stop" "?stop \<le> length (lx_input ?lx)"
      using token_end_bounds [of ?start "lx_input ?lx"] False by auto
    note q = skip_to_next_line_progress [of ?lx1]
    from "1.IH" [OF refl refl False refl refl refl refl refl] False p q stop show ?thesis
      by (subst (1 2 3 4 5) next_token.simps) (auto simp: Let_def)
  qed
qed

lemma next_token_SomeD:
  assumes "next_token lx = (Some t, lx')"
  shows "lx_input lx' = lx_input lx" and "lx_position lx < lx_position lx'"
    and "lx_position lx' \<le> length (lx_input lx)"
  using next_token_progress [of lx] assms by auto

subsection \<open>Numbers\<close>

fun parse_u64_digits :: "string \<Rightarrow> nat \<Rightarrow> unit + nat" where
  "parse_u64_digits [] value = Inr value"
| "parse_u64_digits (byte # rest) value =
     (if \<not> is_ascii_digit byte then Inl ()
      else case checked_mul64 value 10 of None \<Rightarrow> Inl ()
           | Some current \<Rightarrow>
               (case checked_add64 current (digit_value byte) of None \<Rightarrow> Inl ()
                | Some v \<Rightarrow> parse_u64_digits rest v))"

definition parse_u64 :: "string \<Rightarrow> unit + nat" where
  "parse_u64 bytes = (if bytes = [] then Inl () else parse_u64_digits bytes 0)"

text \<open>\<open>usize\<close> has 64 bits.\<close>

definition parse_usize :: "token \<Rightarrow> string \<Rightarrow> parse_failure + nat" where
  "parse_usize t description =
     bindE (map_err (\<lambda>_. error_at t (InvalidNonnegative description)) (parse_u64 (tk_bytes t)))
       (\<lambda>value. if value < 2 ^ 64 then Inr value
                else Inl (error_at t (DoesNotFit description)))"

fun sign_and_digits :: "string \<Rightarrow> bool \<times> string" where
  "sign_and_digits [] = (False, [])"
| "sign_and_digits (b # rest) =
     (if b = CHR ''-'' then (True, rest) else if b = CHR ''+'' then (False, rest)
      else (False, b # rest))"

definition i64_max :: nat where "i64_max = 2 ^ 63 - 1"

definition parse_i64 :: "token \<Rightarrow> parse_failure + int" where
  "parse_i64 t =
     (let (negative, digits) = sign_and_digits (tk_bytes t)
      in bindE (map_err (\<lambda>_. error_at t ExpectedInteger) (parse_u64 digits))
           (\<lambda>magnitude.
              if negative
              then (if magnitude = i64_max + 1 then Inr (- (2 ^ 63))
                    else if magnitude \<le> i64_max then Inr (- int magnitude)
                    else Inl (error_at t IntegerOutOfRange))
              else (if magnitude \<le> i64_max then Inr (int magnitude)
                    else Inl (error_at t IntegerOutOfRange))))"

subsection \<open>The parser\<close>

definition next_required :: "lexer \<Rightarrow> message \<Rightarrow> parse_failure + token \<times> lexer" where
  "next_required lx m =
     (case next_token lx of (None, lx') \<Rightarrow> Inl (error_eof lx' m) | (Some t, lx') \<Rightarrow> Inr (t, lx'))"

definition expect_token :: "token \<Rightarrow> string \<Rightarrow> message \<Rightarrow> parse_failure + unit" where
  "expect_token t expected m = (if tk_bytes t = expected then Inr () else Inl (error_at t m))"

text \<open>The elements are vectors of 24 bytes; an allocation is at most \<open>isize::MAX\<close> bytes.\<close>

definition vec_capacity_ok :: "nat \<Rightarrow> bool" where
  "vec_capacity_ok n \<longleftrightarrow> n * 24 \<le> i64_max"

function parse_clauses ::
  "lexer \<Rightarrow> nat \<Rightarrow> nat \<Rightarrow> lit list list \<Rightarrow> lit list \<Rightarrow>
   parse_failure + lexer \<times> lit list list \<times> lit list" where
  "parse_clauses lx vc ec cs clause =
     (case next_token lx of
        (None, lx') \<Rightarrow> Inr (lx', cs, clause)
      | (Some t, lx') \<Rightarrow>
          (case parse_i64 t of
             Inl e \<Rightarrow> Inl e
           | Inr value \<Rightarrow>
               if value = 0
               then (if length (cs @ [clause]) > ec
                     then Inl (error_at t (TooManyClauses ec))
                     else parse_clauses lx' vc ec (cs @ [clause]) [])
               else if nat \<bar>value\<bar> = 0 \<or> nat \<bar>value\<bar> > vc
               then Inl (error_at t (LiteralOutOfRange value vc))
               else (case from_dimacs value of
                       None \<Rightarrow> Inl (error_at t LiteralExceedsPackedRange)
                     | Some l \<Rightarrow> parse_clauses lx' vc ec cs (clause @ [l]))))"
  by pat_completeness auto
termination
proof (relation "measure (\<lambda>(lx, _). length (lx_input lx) - lx_position lx)", goal_cases)
  case (2 lx vc ec cs clause opt lx' t v)
  then show ?case using next_token_SomeD [of lx t lx'] by simp
next
  case (3 lx vc ec cs clause opt lx' t v l)
  then show ?case using next_token_SomeD [of lx t lx'] by simp
qed simp

declare parse_clauses.simps [simp del]

definition parse :: "string \<Rightarrow> parse_failure + formula" where
  "parse bytes =
     bindE (next_required (lexer_new bytes) ExpectedHeader) (\<lambda>(problem, lx1).
     bindE (expect_token problem ''p'' ExpectedHeader) (\<lambda>_.
     bindE (next_required lx1 ExpectedCnf) (\<lambda>(fmt, lx2).
     bindE (expect_token fmt ''cnf'' ExpectedCnf) (\<lambda>_.
     bindE (next_required lx2 ExpectedVariableCount) (\<lambda>(variables_token, lx3).
     bindE (parse_usize variables_token ''variable count'') (\<lambda>vc.
     if vc > MAX_VARIABLES then Inl (error_at variables_token VariableCountExceedsLimit)
     else
     bindE (next_required lx3 ExpectedClauseCount) (\<lambda>(clauses_token, lx4).
     bindE (parse_usize clauses_token ''clause count'') (\<lambda>ec.
     if \<not> vec_capacity_ok ec then Inl Capacity_Overflow
     else
     bindE (parse_clauses lx4 vc ec [] []) (\<lambda>(lx5, cs, clause).
     if clause \<noteq> [] then Inl (error_eof lx5 MissingTerminator)
     else if length cs \<noteq> ec then Inl (error_eof lx5 (ClauseCountMismatch ec (length cs)))
     else Inr \<lparr>variable_count = vc, clauses = cs\<rparr>)))))))))"

subsection \<open>What the number parsers accept\<close>

definition decimal_value :: "string \<Rightarrow> nat" where
  "decimal_value ds = foldl (\<lambda>v c. 10 * v + digit_value c) 0 ds"

lemma foldl_decimal_ge: "v \<le> foldl (\<lambda>v c. 10 * v + digit_value c) v ds"
proof (induction ds arbitrary: v)
  case (Cons d ds)
  have "v \<le> 10 * v + digit_value d" by simp
  also have "\<dots> \<le> foldl (\<lambda>v c. 10 * v + digit_value c) (10 * v + digit_value d) ds"
    by (rule Cons.IH)
  finally show ?case by simp
qed simp

lemma parse_u64_digits_iff:
  "v < 2 ^ 64 \<Longrightarrow>
   parse_u64_digits ds v = Inr n \<longleftrightarrow>
     list_all is_ascii_digit ds \<and> n = foldl (\<lambda>v c. 10 * v + digit_value c) v ds \<and> n < 2 ^ 64"
proof (induction ds arbitrary: v)
  case (Cons d ds)
  show ?case
  proof (cases "10 * v + digit_value d < 2 ^ 64")
    case True
    with Cons.IH [OF True] show ?thesis
      by (auto simp: checked_mul64_def checked_add64_def mult.commute)
  next
    case False
    then have "\<not> foldl (\<lambda>v c. 10 * v + digit_value c) (10 * v + digit_value d) ds < 2 ^ 64"
      using foldl_decimal_ge [of "10 * v + digit_value d" ds] by linarith
    with False show ?thesis
      by (auto simp: checked_mul64_def checked_add64_def mult.commute)
  qed
qed auto

lemma parse_u64_iff:
  "parse_u64 bs = Inr n \<longleftrightarrow>
     bs \<noteq> [] \<and> list_all is_ascii_digit bs \<and> n = decimal_value bs \<and> n < 2 ^ 64"
  using parse_u64_digits_iff [of 0 bs n] by (simp add: parse_u64_def decimal_value_def)

lemma parse_i64_iff:
  "parse_i64 t = Inr v \<longleftrightarrow>
     (let (negative, ds) = sign_and_digits (tk_bytes t)
      in ds \<noteq> [] \<and> list_all is_ascii_digit ds
         \<and> v = (if negative then - int (decimal_value ds) else int (decimal_value ds))
         \<and> - (2 ^ 63) \<le> v \<and> v < 2 ^ 63)"
proof -
  obtain negative ds where sd: "sign_and_digits (tk_bytes t) = (negative, ds)"
    by fastforce
  show ?thesis
  proof (cases "parse_u64 ds")
    case (Inl u)
    then have "\<not> (ds \<noteq> [] \<and> list_all is_ascii_digit ds \<and> decimal_value ds < 2 ^ 64)"
      by (metis Inl_Inr_False parse_u64_iff)
    with Inl sd show ?thesis
      by (auto simp: parse_i64_def)
  next
    case (Inr n)
    then have "ds \<noteq> []" "list_all is_ascii_digit ds" "n = decimal_value ds" "n < 2 ^ 64"
      by (simp_all add: parse_u64_iff)
    with Inr sd show ?thesis
      by (auto simp: parse_i64_def i64_max_def)
  qed
qed

subsection \<open>Accepted formulas are well formed\<close>

definition lit_in_range :: "nat \<Rightarrow> lit \<Rightarrow> bool" where
  "lit_in_range n l \<longleftrightarrow> var_index (lit_var l) < n"

definition wf_formula :: "formula \<Rightarrow> bool" where
  "wf_formula f \<longleftrightarrow> variable_count f \<le> MAX_VARIABLES
     \<and> list_all (list_all (lit_in_range (variable_count f))) (clauses f)"

lemma parse_clauses_in_range:
  assumes "parse_clauses lx vc ec cs clause = Inr (lx', cs', clause')"
    and "list_all (list_all (lit_in_range vc)) cs" and "list_all (lit_in_range vc) clause"
  shows "list_all (list_all (lit_in_range vc)) cs' \<and> list_all (lit_in_range vc) clause'"
  using assms
proof (induction lx vc ec cs clause rule: parse_clauses.induct)
  case (1 lx vc ec cs clause)
  obtain topt lx1 where nt: "next_token lx = (topt, lx1)" by fastforce
  show ?case
  proof (cases topt)
    case None
    with "1.prems" nt show ?thesis by (simp add: parse_clauses.simps [of lx])
  next
    case (Some t)
    obtain v where v: "parse_i64 t = Inr v"
      using "1.prems"(1) nt Some by (cases "parse_i64 t") (auto simp: parse_clauses.simps [of lx])
    show ?thesis
    proof (cases "v = 0")
      case True
      have "parse_clauses lx1 vc ec (cs @ [clause]) [] = Inr (lx', cs', clause')"
        using "1.prems"(1) nt Some v True
        by (simp add: parse_clauses.simps [of lx] split: if_splits)
      from "1.IH"(1) [OF nt [symmetric] Some v True _ this] "1.prems" nt Some v True show ?thesis
        by (auto simp: parse_clauses.simps [of lx] split: if_splits)
    next
      case False
      then have nb: "\<not> (nat \<bar>v\<bar> = 0 \<or> vc < nat \<bar>v\<bar>)"
        using "1.prems"(1) nt Some v by (simp add: parse_clauses.simps [of lx] split: if_splits)
      obtain l where l: "from_dimacs v = Some l"
        using "1.prems"(1) nt Some v False nb
        by (cases "from_dimacs v") (auto simp: parse_clauses.simps [of lx])
      have "lit_in_range vc l"
        using l nb by (auto simp: from_dimacs_Some_iff lit_in_range_def)
      with "1.IH"(2) [OF nt [symmetric] Some v False nb l] "1.prems" nt Some v False nb l
      show ?thesis
        by (simp add: parse_clauses.simps [of lx])
    qed
  qed
qed

subsection \<open>Properties\<close>

lemma next_required_Inr_iff: "next_required lx m = Inr (t, lx') \<longleftrightarrow> next_token lx = (Some t, lx')"
  by (simp add: next_required_def split: prod.split option.split)

lemma parse_Inr:
  assumes "parse s = Inr f"
  obtains lx4 lx5 where "parse_clauses lx4 (variable_count f) (length (clauses f)) [] []
      = Inr (lx5, clauses f, [])"
    and "variable_count f \<le> MAX_VARIABLES" and "vec_capacity_ok (length (clauses f))"
  using assms
  by (auto simp: parse_def bindE_Inr_iff split: if_splits)

lemmas lexer_evaluation = lexer_new_def next_token.simps skip_ascii_whitespace.simps token_end.simps
  skip_to_next_line.simps newline_def is_ascii_whitespace_def is_ascii_digit_def digit_value_def
  Let_def

lemmas parser_evaluation = parse_def next_required_def expect_token_def parse_clauses.simps
  parse_usize_def parse_u64_def parse_i64_def i64_max_def checked_mul64_def checked_add64_def
  vec_capacity_ok_def MAX_VARIABLES_eq

text \<open>
  C31: A formula that the DIMACS parser accepts is well formed: the declared variable count is
  within the packed range and every literal of every clause names a declared variable.
\<close>

theorem parse_wf: "parse s = Inr f \<Longrightarrow> wf_formula f"
  by (erule parse_Inr) (auto simp: wf_formula_def dest: parse_clauses_in_range)

theorem parse_wf_witness:
  "wf_formula \<lparr>variable_count = 2, clauses = [[Lit 0, Lit 3], []]\<rparr>"
proof -
  have e: "from_dimacs 1 = Some (Lit 0)" "from_dimacs (- 2) = Some (Lit 3)"
    by (simp_all add: from_dimacs_Some_iff MAX_VARIABLES_eq var_index_lit_var lit_index_def
        is_positive_iff_even)
  have "parse ''p cnf 2 2 1 -2 0 0'' = Inr \<lparr>variable_count = 2, clauses = [[Lit 0, Lit 3], []]\<rparr>"
    using e by (simp add: lexer_evaluation parser_evaluation)
  then show ?thesis by (rule parse_wf)
qed


text \<open>
  The number parser is exact: a token is read as the integer it denotes precisely when it
  is an optional sign and decimal digits whose value fits \<open>i64\<close>; every other token is an error.
\<close>

theorem parse_i64_exact:
  "parse_i64 t = Inr v \<longleftrightarrow>
     (let (negative, digits) = sign_and_digits (tk_bytes t)
      in digits \<noteq> [] \<and> list_all is_ascii_digit digits
         \<and> v = (if negative then - int (decimal_value digits) else int (decimal_value digits))
         \<and> - (2 ^ 63) \<le> v \<and> v < 2 ^ 63)"
  by (cases "sign_and_digits (tk_bytes t)") (auto simp: parse_i64_iff)

end
