(* ===== verification/Proof_Writer.thy ===== *)
theory Proof_Writer
  imports Dimacs
begin

section \<open>The DRAT proof writer (\<open>src/proof.rs\<close>)\<close>

text \<open>
  The buffered writer of DRAT proof steps. The destination is a \<open>Write\<close> object chosen by the
  caller, so its \<open>write_all\<close> and \<open>flush\<close> are parameters of the definitions: each returns the
  error message, if there is one, and the destination after the call. The lemmas show that
  the integer formatter prints the decimal numeral that the DIMACS parser reads back, that
  the text of a clause line is a DIMACS clause, and what the writer does after an error.
\<close>

subsection \<open>Formatting integers\<close>

definition digit_char :: "nat \<Rightarrow> char" where
  "digit_char d = char_of (48 + d)"

function push_digits :: "string \<Rightarrow> nat \<Rightarrow> string" where
  "push_digits output magnitude =
     (if magnitude div 10 = 0 then output @ [digit_char (magnitude mod 10)]
      else push_digits (output @ [digit_char (magnitude mod 10)]) (magnitude div 10))"
  by pat_completeness auto
termination
  by (relation "measure snd") auto

declare push_digits.simps [simp del]

definition push_i64 :: "string \<Rightarrow> int \<Rightarrow> string" where
  "push_i64 output v =
     (let negative = v < 0;
          magnitude = nat \<bar>v\<bar>;
          output1 = (if negative then output @ ''-'' else output);
          start = length output1;
          output2 = push_digits output1 magnitude
      in take start output2 @ rev (drop start output2))"

subsection \<open>The writer\<close>

record 'w drat_writer =
  dw_output :: "'w option"
  dw_line :: string
  dw_error :: "string option"

definition drat_disabled :: "'w drat_writer" where
  "drat_disabled = \<lparr>dw_output = None, dw_line = [], dw_error = None\<rparr>"

definition drat_enable :: "'w \<Rightarrow> 'w drat_writer \<Rightarrow> 'w drat_writer" where
  "drat_enable w d = d\<lparr>dw_output := Some w, dw_error := None\<rparr>"

fun push_literals :: "string \<Rightarrow> lit list \<Rightarrow> string" where
  "push_literals line [] = line"
| "push_literals line (l # ls) = push_literals (push_i64 line (to_dimacs l) @ '' '') ls"

definition write_step ::
  "('w \<Rightarrow> string \<Rightarrow> string option \<times> 'w) \<Rightarrow> string \<Rightarrow> lit list \<Rightarrow> 'w drat_writer \<Rightarrow> 'w drat_writer"
where
  "write_step write_all prefix clause d =
     (case dw_output d of
        None \<Rightarrow> d
      | Some w \<Rightarrow>
          if dw_error d \<noteq> None then d
          else
            let line = push_literals prefix clause @ ''0'' @ [newline];
                (err, w') = write_all w line
            in d\<lparr>dw_line := line, dw_output := Some w',
                 dw_error := (case err of None \<Rightarrow> dw_error d | Some e \<Rightarrow> Some e)\<rparr>)"

definition drat_add_clause ::
  "('w \<Rightarrow> string \<Rightarrow> string option \<times> 'w) \<Rightarrow> lit list \<Rightarrow> 'w drat_writer \<Rightarrow> 'w drat_writer" where
  "drat_add_clause write_all clause d = write_step write_all [] clause d"

definition drat_delete_clause ::
  "('w \<Rightarrow> string \<Rightarrow> string option \<times> 'w) \<Rightarrow> lit list \<Rightarrow> 'w drat_writer \<Rightarrow> 'w drat_writer" where
  "drat_delete_clause write_all clause d = write_step write_all ''d '' clause d"

definition drat_finish ::
  "('w \<Rightarrow> string option \<times> 'w) \<Rightarrow> 'w drat_writer \<Rightarrow> 'w drat_writer" where
  "drat_finish flush d =
     (if dw_error d \<noteq> None then d
      else case dw_output d of
             None \<Rightarrow> d
           | Some w \<Rightarrow>
               let (err, w') = flush w
               in d\<lparr>dw_output := Some w',
                    dw_error := (case err of None \<Rightarrow> dw_error d | Some e \<Rightarrow> Some e)\<rparr>)"

subsection \<open>The numerals\<close>

fun decimal :: "nat \<Rightarrow> string" where
  "decimal n = (if n < 10 then [digit_char n] else decimal (n div 10) @ [digit_char (n mod 10)])"

declare decimal.simps [simp del]

lemma push_digits_decimal: "push_digits out n = out @ rev (decimal n)"
proof (induction out n rule: push_digits.induct)
  case (1 out n)
  show ?case
  proof (cases "n div 10 = 0")
    case True
    then have "n < 10" by simp
    then show ?thesis
      by (simp add: push_digits.simps [of out n] decimal.simps [of n])
  next
    case False
    then have "\<not> n < 10" by simp
    with False "1.IH" show ?thesis
      by (simp add: push_digits.simps [of out n] decimal.simps [of n])
  qed
qed

lemma push_i64_decimal:
  "push_i64 output v = output @ (if v < 0 then ''-'' else []) @ decimal (nat \<bar>v\<bar>)"
  by (simp add: push_i64_def push_digits_decimal Let_def)

lemma digit_char_ok:
  "d < 10 \<Longrightarrow> is_ascii_digit (digit_char d) \<and> digit_value (digit_char d) = d"
  by (simp add: digit_char_def is_ascii_digit_def digit_value_def)

lemma decimal_nonempty [simp]: "decimal n \<noteq> []"
  by (subst decimal.simps) simp

lemma decimal_digits: "list_all is_ascii_digit (decimal n)"
  by (induction n rule: decimal.induct) (subst decimal.simps, auto simp: digit_char_ok)

lemma decimal_value_decimal: "decimal_value (decimal n) = n"
proof (induction n rule: decimal.induct)
  case (1 n)
  then show ?case
    by (subst decimal.simps) (auto simp: decimal_value_def digit_char_ok)
qed

lemma digit_not_special:
  assumes "is_ascii_digit c"
  shows "c \<noteq> CHR ''-''" "c \<noteq> CHR ''+''" "c \<noteq> CHR ''c''" "c \<noteq> CHR ''%''"
    "\<not> is_ascii_whitespace c"
proof -
  have "48 \<le> (of_char c :: nat)" "(of_char c :: nat) \<le> 57"
    using assms by (simp_all add: is_ascii_digit_def)
  then show "c \<noteq> CHR ''-''" "c \<noteq> CHR ''+''" "c \<noteq> CHR ''c''" "c \<noteq> CHR ''%''"
    "\<not> is_ascii_whitespace c"
    by (auto simp: is_ascii_whitespace_def newline_def)
qed

lemma sign_and_digits_decimal:
  "sign_and_digits (decimal n) = (False, decimal n)"
proof -
  obtain c cs where d: "decimal n = c # cs" by (cases "decimal n") auto
  then have "is_ascii_digit c" using decimal_digits [of n] by simp
  then show ?thesis using digit_not_special [of c] d by simp
qed

text \<open>The parser reads back what the formatter printed.\<close>

lemma parse_i64_push_i64:
  assumes "- (2 ^ 63) \<le> v" and "v < 2 ^ 63" and "tk_bytes t = push_i64 [] v"
  shows "parse_i64 t = Inr v"
proof (cases "v < 0")
  case True
  then show ?thesis
    using assms by (simp add: parse_i64_iff push_i64_decimal decimal_digits decimal_value_decimal)
next
  case False
  then show ?thesis
    using assms
    by (simp add: parse_i64_iff push_i64_decimal decimal_digits decimal_value_decimal
        sign_and_digits_decimal)
qed

subsection \<open>Lexing printed text\<close>

text \<open>The lexer stands at the text \<open>r\<close>.\<close>

definition lexer_at :: "lexer \<Rightarrow> string \<Rightarrow> bool" where
  "lexer_at lx r \<longleftrightarrow> lx_position lx \<le> length (lx_input lx) \<and> drop (lx_position lx) (lx_input lx) = r"

definition token_text :: "string \<Rightarrow> bool" where
  "token_text w \<longleftrightarrow> w \<noteq> [] \<and> list_all (\<lambda>c. \<not> is_ascii_whitespace c) w
     \<and> hd w \<noteq> CHR ''c'' \<and> hd w \<noteq> CHR ''%''"

definition stops :: "string \<Rightarrow> bool" where
  "stops r \<longleftrightarrow> r = [] \<or> is_ascii_whitespace (hd r)"

lemma lexer_at_Cons:
  "lexer_at lx (c # r) \<longleftrightarrow> lx_position lx < length (lx_input lx)
     \<and> lx_input lx ! lx_position lx = c \<and> drop (Suc (lx_position lx)) (lx_input lx) = r"
  by (cases "lx_position lx < length (lx_input lx)")
    (auto simp: lexer_at_def simp flip: Cons_nth_drop_Suc)

lemma lexer_at_Nil: "lexer_at lx [] \<longleftrightarrow> lx_position lx = length (lx_input lx)"
  by (auto simp: lexer_at_def)

lemma skip_ascii_whitespace_at:
  "lexer_at lx (ws @ r) \<Longrightarrow> list_all is_ascii_whitespace ws \<Longrightarrow>
   r = [] \<or> \<not> is_ascii_whitespace (hd r) \<Longrightarrow> lexer_at (skip_ascii_whitespace lx) r"
proof (induction ws arbitrary: lx)
  case Nil
  have "\<not> (lx_position lx < length (lx_input lx) \<and>
           is_ascii_whitespace (lx_input lx ! lx_position lx))"
    using Nil.prems by (cases r) (auto simp: lexer_at_Cons lexer_at_Nil)
  then have "skip_ascii_whitespace lx = lx"
    by (subst skip_ascii_whitespace.simps) (rule if_not_P)
  with Nil.prems show ?case by simp
next
  case (Cons c ws)
  let ?lx1 = "(if lx_input lx ! lx_position lx = newline
       then lx\<lparr>lx_line := lx_line lx + 1, lx_line_start := lx_position lx + 1\<rparr>
       else lx)\<lparr>lx_position := lx_position lx + 1\<rparr>"
  have c: "lx_position lx < length (lx_input lx)" "lx_input lx ! lx_position lx = c"
    "drop (Suc (lx_position lx)) (lx_input lx) = ws @ r"
    using Cons.prems(1) by (auto simp: lexer_at_Cons)
  then have "lexer_at ?lx1 (ws @ r)"
    by (auto simp: lexer_at_def)
  moreover have "skip_ascii_whitespace lx = skip_ascii_whitespace ?lx1"
    using c Cons.prems(2) by (subst skip_ascii_whitespace.simps) auto
  ultimately show ?case
    using Cons.IH [of ?lx1] Cons.prems by simp
qed

lemma token_end_at:
  "p \<le> length s \<Longrightarrow> drop p s = w @ r \<Longrightarrow> list_all (\<lambda>c. \<not> is_ascii_whitespace c) w \<Longrightarrow> stops r \<Longrightarrow>
   token_end s p = p + length w"
proof (induction w arbitrary: p)
  case Nil
  then have "\<not> (p < length s \<and> \<not> is_ascii_whitespace (s ! p))"
    using hd_drop_conv_nth [of p s] by (cases "p = length s") (auto simp: stops_def)
  then show ?case by (subst token_end.simps) auto
next
  case (Cons c w)
  then have p: "p < length s" "s ! p = c" "drop (Suc p) s = w @ r"
    by (cases "p < length s"; auto simp flip: Cons_nth_drop_Suc)+
  with Cons.IH [of "Suc p"] Cons.prems show ?case
    by (subst token_end.simps) auto
qed

lemma next_token_at_column:
  assumes "lexer_at lx (ws @ w @ r)" and "list_all is_ascii_whitespace ws"
    and "w \<noteq> []" "list_all (\<lambda>c. \<not> is_ascii_whitespace c) w" "w \<noteq> ''c''"
    and "hd w = CHR ''c'' \<or> hd w = CHR ''%'' \<Longrightarrow>
         lx_line_start (skip_ascii_whitespace lx) < lx_position (skip_ascii_whitespace lx)"
    and "stops r"
  shows "\<exists>t lx'. next_token lx = (Some t, lx') \<and> tk_bytes t = w \<and> lexer_at lx' r
           \<and> lx' = (skip_ascii_whitespace lx)
                \<lparr>lx_position := lx_position (skip_ascii_whitespace lx) + length w\<rparr>"
proof -
  let ?lx = "skip_ascii_whitespace lx"
  obtain c w' where w: "w = c # w'" "\<not> is_ascii_whitespace c"
    using assms(3,4) by (cases w) auto
  have at: "lexer_at ?lx (w @ r)"
    using skip_ascii_whitespace_at [OF assms(1,2)] w by simp
  then have e: "token_end (lx_input ?lx) (lx_position ?lx) = lx_position ?lx + length w"
    using token_end_at [of "lx_position ?lx" "lx_input ?lx" w r] assms(4,7)
    by (auto simp: lexer_at_def)
  have pos: "lx_position ?lx < length (lx_input ?lx)"
    using at w by (simp add: lexer_at_Cons)
  have bytes: "take (length w) (drop (lx_position ?lx) (lx_input ?lx)) = w"
    using at by (simp add: lexer_at_def)
  have "length w \<le> length (lx_input ?lx) - lx_position ?lx"
    using bytes by (metis length_drop length_take min.cobounded1)
  moreover have "drop (lx_position ?lx + length w) (lx_input ?lx) = r"
    using at by (metis add.commute append_eq_conv_conj drop_drop lexer_at_def)
  ultimately have "lexer_at (?lx\<lparr>lx_position := lx_position ?lx + length w\<rparr>) r"
    using pos by (simp add: lexer_at_def)
  with e pos bytes w assms(5,6) show ?thesis
    by (subst next_token.simps) (auto simp: Let_def)
qed

lemma next_token_at:
  assumes "lexer_at lx (ws @ w @ r)" and "list_all is_ascii_whitespace ws"
    and "token_text w" and "stops r"
  shows "\<exists>t lx'. next_token lx = (Some t, lx') \<and> tk_bytes t = w \<and> lexer_at lx' r"
  using next_token_at_column [of lx ws w r] assms
  by (cases "w = ''c''") (auto simp: token_text_def)

lemma next_token_end:
  assumes "lexer_at lx ws" and "list_all is_ascii_whitespace ws"
  shows "\<exists>lx'. next_token lx = (None, lx')"
proof -
  have "lexer_at (skip_ascii_whitespace lx) []"
    using skip_ascii_whitespace_at [of lx ws "[]"] assms by simp
  then show ?thesis
    by (subst next_token.simps) (simp add: Let_def lexer_at_def)
qed

subsection \<open>Printed clauses parse back\<close>

lemma push_literals_eq:
  "push_literals line ls = line @ concat (map (\<lambda>l. push_i64 [] (to_dimacs l) @ '' '') ls)"
  by (induction ls arbitrary: line) (simp_all add: push_i64_decimal)

lemma token_text_push_i64: "token_text (push_i64 [] v)"
proof -
  have d: "list_all (\<lambda>c. \<not> is_ascii_whitespace c) (decimal n)" for n
    using decimal_digits [of n] digit_not_special(5) by (auto simp: list_all_iff)
  obtain c cs where c: "decimal (nat \<bar>v\<bar>) = c # cs" by (cases "decimal (nat \<bar>v\<bar>)") auto
  then have "is_ascii_digit c" using decimal_digits [of "nat \<bar>v\<bar>"] by simp
  then show ?thesis
    using d [of "nat \<bar>v\<bar>"] c digit_not_special [of c]
    by (auto simp: token_text_def push_i64_decimal is_ascii_whitespace_def newline_def)
qed

lemma to_dimacs_i64: "- (2 ^ 63) \<le> to_dimacs l \<and> to_dimacs l < 2 ^ 63"
  using to_dimacs_bounds [of l] by (auto simp: MAX_VARIABLES_eq)

lemma from_to_dimacs: "from_dimacs (to_dimacs l) = Some l"
  using to_dimacs_bounds [of l] to_dimacs_pos_iff [of l] by (auto simp: from_dimacs_Some_iff)

lemma ws_space [simp]: "is_ascii_whitespace (CHR '' '')" "is_ascii_whitespace newline"
  by (simp_all add: is_ascii_whitespace_def)

lemma parse_clauses_literal:
  assumes at: "lexer_at lx (ws @ push_i64 [] (to_dimacs l) @ CHR '' '' # r)"
    and ws: "list_all is_ascii_whitespace ws" and "lit_in_range vc l"
  shows "\<exists>lx'. lexer_at lx' (CHR '' '' # r) \<and>
           parse_clauses lx vc ec cs clause = parse_clauses lx' vc ec cs (clause @ [l])"
proof -
  obtain t lx' where t: "next_token lx = (Some t, lx')" "tk_bytes t = push_i64 [] (to_dimacs l)"
    and lx': "lexer_at lx' (CHR '' '' # r)"
    using next_token_at [OF at ws token_text_push_i64] by (auto simp: stops_def)
  have p: "parse_i64 t = Inr (to_dimacs l)"
    using parse_i64_push_i64 [of "to_dimacs l" t] to_dimacs_i64 [of l] t(2) by simp
  have "\<not> (nat \<bar>to_dimacs l\<bar> = 0 \<or> vc < nat \<bar>to_dimacs l\<bar>)"
    using assms(3) to_dimacs_bounds [of l] by (auto simp: lit_in_range_def)
  then have "parse_clauses lx vc ec cs clause = parse_clauses lx' vc ec cs (clause @ [l])"
    using t p to_dimacs_bounds [of l] by (simp add: parse_clauses.simps [of lx] from_to_dimacs)
  with lx' show ?thesis by blast
qed

lemma parse_clauses_literals:
  "lexer_at lx (ws @ push_literals [] ls @ r) \<Longrightarrow> list_all is_ascii_whitespace ws \<Longrightarrow>
   list_all (lit_in_range vc) ls \<Longrightarrow>
   \<exists>lx' ws'. list_all is_ascii_whitespace ws' \<and> lexer_at lx' (ws' @ r) \<and>
     parse_clauses lx vc ec cs clause = parse_clauses lx' vc ec cs (clause @ ls)"
proof (induction ls arbitrary: lx ws clause)
  case Nil
  then show ?case by auto
next
  case (Cons l ls)
  let ?r = "push_literals [] ls @ r"
  have at: "lexer_at lx (ws @ push_i64 [] (to_dimacs l) @ CHR '' '' # ?r)"
    using Cons.prems(1) by (simp add: push_literals_eq)
  obtain lx1 where lx1: "lexer_at lx1 ('' '' @ ?r)"
    "parse_clauses lx vc ec cs clause = parse_clauses lx1 vc ec cs (clause @ [l])"
    using parse_clauses_literal [OF at Cons.prems(2), of vc ec cs clause] Cons.prems(3) by auto
  from Cons.IH [OF lx1(1), of "clause @ [l]"] Cons.prems(3) lx1(2) show ?case
    by simp
qed

definition clause_line :: "lit list \<Rightarrow> string" where
  \<comment> \<open>The line \<open>write_step\<close> prints for an added clause.\<close>
  "clause_line c = push_literals [] c @ ''0'' @ [newline]"

lemma digit_char_0: "digit_char 0 = CHR ''0''"
  by code_simp

lemma parse_clauses_line:
  assumes at: "lexer_at lx (ws @ clause_line c @ r)" and ws: "list_all is_ascii_whitespace ws"
    and c: "list_all (lit_in_range vc) c" and ec: "length cs < ec"
  shows "\<exists>lx'. lexer_at lx' (newline # r) \<and>
           parse_clauses lx vc ec cs [] = parse_clauses lx' vc ec (cs @ [c]) []"
proof -
  obtain lx1 ws1 where 1: "list_all is_ascii_whitespace ws1"
    "lexer_at lx1 (ws1 @ ''0'' @ newline # r)"
    "parse_clauses lx vc ec cs [] = parse_clauses lx1 vc ec cs c"
    using parse_clauses_literals [of lx ws c "''0'' @ newline # r" vc ec cs "[]"] at ws c
    by (auto simp: clause_line_def)
  have "token_text ''0''"
    by (simp add: token_text_def is_ascii_whitespace_def newline_def)
  then obtain t lx2 where t: "next_token lx1 = (Some t, lx2)" "tk_bytes t = ''0''"
    and lx2: "lexer_at lx2 (newline # r)"
    using next_token_at [OF 1(2,1)] by (auto simp: stops_def)
  have "parse_i64 t = Inr 0"
    using parse_i64_push_i64 [of 0 t] t(2)
    by (simp add: push_i64_decimal decimal.simps [of 0] digit_char_0)
  with t ec have "parse_clauses lx1 vc ec cs c = parse_clauses lx2 vc ec (cs @ [c]) []"
    by (simp add: parse_clauses.simps [of lx1])
  with 1(3) lx2 show ?thesis by auto
qed

lemma parse_clauses_lines:
  "lexer_at lx (newline # concat (map clause_line ds)) \<Longrightarrow>
   list_all (list_all (lit_in_range vc)) ds \<Longrightarrow> length cs + length ds \<le> ec \<Longrightarrow>
   \<exists>lx'. parse_clauses lx vc ec cs [] = Inr (lx', cs @ ds, [])"
proof (induction ds arbitrary: lx cs)
  case Nil
  obtain lx' where "next_token lx = (None, lx')"
    using next_token_end [of lx "[newline]"] Nil.prems(1) by auto
  then show ?case by (simp add: parse_clauses.simps [of lx])
next
  case (Cons d ds)
  obtain lx1 where "lexer_at lx1 (newline # concat (map clause_line ds))"
    "parse_clauses lx vc ec cs [] = parse_clauses lx1 vc ec (cs @ [d]) []"
    using parse_clauses_line [of lx "[newline]" d "concat (map clause_line ds)" vc cs ec]
      Cons.prems by auto
  with Cons.IH [of lx1 "cs @ [d]"] Cons.prems(2,3) show ?case by simp
qed

subsection \<open>The whole text\<close>

text \<open>The DIMACS text of a formula, its clause lines as the proof writer prints them.\<close>

definition dimacs_text :: "formula \<Rightarrow> string" where
  "dimacs_text f = ''p cnf '' @ decimal (variable_count f) @ '' '' @ decimal (length (clauses f))
     @ [newline] @ concat (map clause_line (clauses f))"

lemma token_text_decimal: "token_text (decimal n)"
  using token_text_push_i64 [of "int n"] by (simp add: push_i64_decimal)

lemma parse_usize_decimal:
  "tk_bytes t = decimal n \<Longrightarrow> n < 2 ^ 64 \<Longrightarrow> parse_usize t d = Inr n"
proof -
  assume t: "tk_bytes t = decimal n" and n: "n < 2 ^ 64"
  have "parse_u64 (decimal n) = Inr n"
    using n by (simp add: parse_u64_iff decimal_digits decimal_value_decimal)
  with t n show ?thesis by (simp add: parse_usize_def)
qed

lemma lex_header:
  fixes r :: string
  shows "\<exists>t1 t2 lx1 lx2. next_token (lexer_new (''p cnf '' @ r)) = (Some t1, lx1)
    \<and> tk_bytes t1 = ''p'' \<and> next_token lx1 = (Some t2, lx2) \<and> tk_bytes t2 = ''cnf''
    \<and> lexer_at lx2 ('' '' @ r)"
proof -
  let ?lx = "lexer_new (''p cnf '' @ r)"
  have s0: "skip_ascii_whitespace ?lx = ?lx"
    by (subst skip_ascii_whitespace.simps)
      (simp add: lexer_new_def is_ascii_whitespace_def newline_def)
  obtain t1 lx1 where t1: "next_token ?lx = (Some t1, lx1)" "tk_bytes t1 = ''p''"
    and at1: "lexer_at lx1 ('' cnf '' @ r)" and lx1: "lx1 = ?lx\<lparr>lx_position := 1\<rparr>"
    using next_token_at_column [of ?lx "[]" "''p''" "'' cnf '' @ r"] s0
    by (auto simp: lexer_at_def lexer_new_def is_ascii_whitespace_def newline_def stops_def)
  have s1: "skip_ascii_whitespace lx1 = ?lx\<lparr>lx_position := 2\<rparr>"
    unfolding lx1
    by (subst skip_ascii_whitespace.simps, subst skip_ascii_whitespace.simps)
      (simp add: lexer_new_def is_ascii_whitespace_def newline_def)
  obtain t2 lx2 where "next_token lx1 = (Some t2, lx2)" "tk_bytes t2 = ''cnf''"
    "lexer_at lx2 ('' '' @ r)"
    using next_token_at_column [of lx1 "'' ''" "''cnf''" "'' '' @ r"] at1 s1
    by (auto simp: lexer_new_def is_ascii_whitespace_def newline_def stops_def)
  with t1 show ?thesis by blast
qed

lemma parse_dimacs_text:
  assumes wf: "wf_formula f" and cap: "vec_capacity_ok (length (clauses f))"
  shows "parse (dimacs_text f) = Inr f"
proof -
  let ?lines = "concat (map clause_line (clauses f))"
  let ?r2 = "decimal (length (clauses f)) @ newline # ?lines"
  let ?r1 = "decimal (variable_count f) @ CHR '' '' # ?r2"
  have vc: "variable_count f \<le> MAX_VARIABLES" "list_all (list_all (lit_in_range (variable_count f))) (clauses f)"
    using wf by (simp_all add: wf_formula_def)
  have dt: "dimacs_text f = ''p cnf '' @ ?r1"
    by (simp add: dimacs_text_def)
  obtain t1 t2 lx1 lx2 where h: "next_token (lexer_new (dimacs_text f)) = (Some t1, lx1)"
    "tk_bytes t1 = ''p''" "next_token lx1 = (Some t2, lx2)" "tk_bytes t2 = ''cnf''"
    "lexer_at lx2 ('' '' @ ?r1)"
    unfolding dt using lex_header [of ?r1] by blast
  obtain t3 lx3 where t3: "next_token lx2 = (Some t3, lx3)" "tk_bytes t3 = decimal (variable_count f)"
    "lexer_at lx3 ('' '' @ ?r2)"
    using next_token_at [OF h(5) _ token_text_decimal] by (auto simp: stops_def)
  obtain t4 lx4 where t4: "next_token lx3 = (Some t4, lx4)" "tk_bytes t4 = decimal (length (clauses f))"
    "lexer_at lx4 (newline # ?lines)"
    using next_token_at [OF t3(3) _ token_text_decimal] by (auto simp: stops_def)
  obtain lx5 where "parse_clauses lx4 (variable_count f) (length (clauses f)) [] []
      = Inr (lx5, clauses f, [])"
    using parse_clauses_lines [OF t4(3) vc(2), of "[]"] by auto
  moreover have "length (clauses f) < 2 ^ 64" "variable_count f < 2 ^ 64"
    using cap vc(1) by (simp_all add: vec_capacity_ok_def i64_max_def MAX_VARIABLES_eq)
  ultimately show ?thesis
    using h t3 t4 cap vc(1)
    by (simp add: parse_def next_required_def expect_token_def parse_usize_decimal)
qed

subsection \<open>The destination as an interface\<close>

text \<open>
  What the writer relies on: a successful \<open>write_all\<close> appends the bytes to the contents, a
  successful \<open>flush\<close> leaves them. A failed call may leave anything behind.
\<close>

locale proof_sink =
  fixes write_all :: "'w \<Rightarrow> string \<Rightarrow> string option \<times> 'w"
    and flush :: "'w \<Rightarrow> string option \<times> 'w"
    and contents :: "'w \<Rightarrow> string"
  assumes write_ok: "write_all w bs = (None, w') \<Longrightarrow> contents w' = contents w @ bs"
    and flush_ok: "flush w = (None, w') \<Longrightarrow> contents w' = contents w"

datatype drat_step = AddStep "lit list" | DeleteStep "lit list"

fun step_text :: "drat_step \<Rightarrow> string" where
  "step_text (AddStep c) = clause_line c"
| "step_text (DeleteStep c) = ''d '' @ clause_line c"

fun drat_run ::
  "('w \<Rightarrow> string \<Rightarrow> string option \<times> 'w) \<Rightarrow> drat_step list \<Rightarrow> 'w drat_writer \<Rightarrow> 'w drat_writer" where
  "drat_run write_all [] d = d"
| "drat_run write_all (AddStep c # steps) d = drat_run write_all steps (drat_add_clause write_all c d)"
| "drat_run write_all (DeleteStep c # steps) d =
     drat_run write_all steps (drat_delete_clause write_all c d)"

definition drat_writes ::
  "('w \<Rightarrow> string \<Rightarrow> string option \<times> 'w) \<Rightarrow> ('w \<Rightarrow> string option \<times> 'w) \<Rightarrow> drat_step list \<Rightarrow>
   'w drat_writer \<Rightarrow> 'w drat_writer" where
  "drat_writes write_all flush steps d = drat_finish flush (drat_run write_all steps d)"

lemma write_step_failed: "dw_error d \<noteq> None \<Longrightarrow> write_step write_all prefix c d = d"
  by (simp add: write_step_def split: option.split)

lemma drat_run_failed: "dw_error d \<noteq> None \<Longrightarrow> drat_run write_all steps d = d"
  by (induction write_all steps d rule: drat_run.induct)
    (simp_all add: drat_add_clause_def drat_delete_clause_def write_step_failed)

lemma drat_run_disabled: "dw_output d = None \<Longrightarrow> drat_run write_all steps d = d"
  by (induction write_all steps d rule: drat_run.induct)
    (simp_all add: drat_add_clause_def drat_delete_clause_def write_step_def)

lemma push_literals_prefix: "push_literals p c @ [CHR ''0'', newline] = p @ clause_line c"
  by (simp add: clause_line_def push_literals_eq [of p] push_literals_eq [of "[]"])

context proof_sink
begin

lemma write_step_text:
  assumes "dw_output d = Some w" and "dw_error (write_step write_all p c d) = None"
  shows "\<exists>w'. dw_output (write_step write_all p c d) = Some w' \<and>
           contents w' = contents w @ p @ clause_line c \<and> dw_error d = None"
proof -
  have e: "dw_error d = None"
    using assms by (cases "dw_error d") (auto simp: write_step_failed)
  obtain err w' where w: "write_all w (p @ clause_line c) = (err, w')" by fastforce
  then have "err = None"
    using assms e by (cases err) (auto simp: write_step_def push_literals_prefix Let_def)
  with w assms(1) e write_ok [of w "p @ clause_line c" w'] show ?thesis
    by (auto simp: write_step_def push_literals_prefix Let_def)
qed

lemma run_text:
  "dw_output d = Some w \<Longrightarrow> dw_error (drat_run write_all steps d) = None \<Longrightarrow>
   \<exists>w'. dw_output (drat_run write_all steps d) = Some w' \<and>
     contents w' = contents w @ concat (map step_text steps)"
proof (induction steps arbitrary: d w)
  case (Cons s steps)
  define p c where "p = (case s of AddStep _ \<Rightarrow> [] | DeleteStep _ \<Rightarrow> ''d '')"
    and "c = (case s of AddStep c \<Rightarrow> c | DeleteStep c \<Rightarrow> c)"
  let ?d = "write_step write_all p c d"
  have r: "drat_run write_all (s # steps) d = drat_run write_all steps ?d"
    and t: "step_text s = p @ clause_line c"
    by (cases s; simp add: p_def c_def drat_add_clause_def drat_delete_clause_def)+
  then have "dw_error ?d = None"
    using Cons.prems(2) drat_run_failed [of ?d write_all steps] by (cases "dw_error ?d") auto
  then obtain w1 where "dw_output ?d = Some w1" "contents w1 = contents w @ step_text s"
    using write_step_text [OF Cons.prems(1)] t by auto
  with Cons.IH [of ?d w1] Cons.prems(2) r show ?case by auto
qed simp

lemma writes_text:
  assumes "dw_output d = Some w" and "dw_error (drat_writes write_all flush steps d) = None"
  shows "\<exists>w'. dw_output (drat_writes write_all flush steps d) = Some w' \<and>
           contents w' = contents w @ concat (map step_text steps)"
proof -
  let ?d = "drat_run write_all steps d"
  have "dw_error ?d = None"
    using assms(2) by (auto simp: drat_writes_def drat_finish_def split: if_splits)
  then obtain w1 where w1: "dw_output ?d = Some w1"
    "contents w1 = contents w @ concat (map step_text steps)"
    using run_text [OF assms(1)] by auto
  obtain err w' where f: "flush w1 = (err, w')" by fastforce
  then have "err = None"
    using assms(2) w1 \<open>dw_error ?d = None\<close>
    by (cases err) (auto simp: drat_writes_def drat_finish_def)
  with f w1 \<open>dw_error ?d = None\<close> flush_ok [of w1 w'] show ?thesis
    by (simp add: drat_writes_def drat_finish_def)
qed

end

text \<open>
  The destination that the SMT proof exporter passes to the solver: a shared byte buffer
  whose lock may be poisoned (\<open>SharedBuffer\<close> in \<open>src/smt/proof.rs\<close>).
\<close>

record shared_buffer =
  sb_poisoned :: bool
  sb_bytes :: string

definition sb_write_all :: "shared_buffer \<Rightarrow> string \<Rightarrow> string option \<times> shared_buffer" where
  "sb_write_all b bs =
     (if bs = [] then (None, b)
      else if sb_poisoned b then (Some ''Boolean proof buffer lock was poisoned'', b)
      else (None, b\<lparr>sb_bytes := sb_bytes b @ bs\<rparr>))"

definition sb_flush :: "shared_buffer \<Rightarrow> string option \<times> shared_buffer" where
  "sb_flush b = (None, b)"

interpretation sb: proof_sink sb_write_all sb_flush sb_bytes
  by unfold_locales (auto simp: sb_write_all_def sb_flush_def split: if_splits)

subsection \<open>Properties\<close>

text \<open>
  C32: The text that the proof writer's formatting gives for a formula (a problem line, then
  each clause as the writer prints an addition step) is parsed back to the formula itself.
\<close>

theorem dimacs_roundtrip:
  "wf_formula f \<Longrightarrow> vec_capacity_ok (length (clauses f)) \<Longrightarrow> parse (dimacs_text f) = Inr f"
  by (rule parse_dimacs_text)

theorem dimacs_roundtrip_witness:
  "parse (dimacs_text \<lparr>variable_count = 2, clauses = [[Lit 0, Lit 3], []]\<rparr>)
    = Inr \<lparr>variable_count = 2, clauses = [[Lit 0, Lit 3], []]\<rparr>"
  by (rule dimacs_roundtrip)
    (simp_all add: wf_formula_def MAX_VARIABLES_eq lit_in_range_def var_index_lit_var lit_index_def
      vec_capacity_ok_def i64_max_def)

text \<open>
  C33: When the whole run of proof steps into the shared buffer ends without an error, the
  buffer holds its old contents followed by exactly the lines of the steps, in order.
\<close>

theorem drat_text_faithful:
  "dw_output d = Some w \<Longrightarrow> dw_error (drat_writes sb_write_all sb_flush steps d) = None \<Longrightarrow>
   \<exists>w'. dw_output (drat_writes sb_write_all sb_flush steps d) = Some w' \<and>
     sb_bytes w' = sb_bytes w @ concat (map step_text steps)"
  by (rule sb.writes_text)

theorem drat_text_faithful_witness:
  "\<exists>w'. dw_output (drat_writes sb_write_all sb_flush [AddStep [Lit 2], DeleteStep [Lit 3, Lit 4]]
          (drat_enable \<lparr>sb_poisoned = False, sb_bytes = []\<rparr> drat_disabled)) = Some w' \<and>
     sb_bytes w' = [] @ concat (map step_text [AddStep [Lit 2], DeleteStep [Lit 3, Lit 4]])"
proof -
  let ?d = "drat_enable \<lparr>sb_poisoned = False, sb_bytes = []\<rparr> drat_disabled"
  have "dw_output ?d = Some \<lparr>sb_poisoned = False, sb_bytes = []\<rparr>"
    by (simp add: drat_enable_def)
  from drat_text_faithful [OF this, of "[AddStep [Lit 2], DeleteStep [Lit 3, Lit 4]]"]
  show ?thesis
    by (simp add: drat_writes_def drat_add_clause_def drat_delete_clause_def write_step_def Let_def
        drat_enable_def drat_disabled_def sb_write_all_def drat_finish_def sb_flush_def)
qed

text \<open>
  After the first error of the destination the writer is inert: whatever steps follow,
  nothing more is written and the first error is kept, through \<open>finish\<close> as well.
\<close>

theorem drat_error_sticky:
  "dw_error d \<noteq> None \<Longrightarrow> drat_writes write_all flush steps d = d"
  by (simp add: drat_writes_def drat_run_failed drat_finish_def)

theorem drat_error_sticky_witness:
  "drat_writes sb_write_all sb_flush [AddStep [Lit 2]]
     \<lparr>dw_output = Some \<lparr>sb_poisoned = True, sb_bytes = []\<rparr>, dw_line = [], dw_error = Some ''poisoned''\<rparr>
   = \<lparr>dw_output = Some \<lparr>sb_poisoned = True, sb_bytes = []\<rparr>, dw_line = [], dw_error = Some ''poisoned''\<rparr>"
  by (rule drat_error_sticky) simp

end
