(* ===== verification/Var_Order.thy ===== *)
theory Var_Order
  imports Types
begin

section \<open>The branching heap (\<open>VarOrder\<close> in \<open>src/solver.rs\<close>)\<close>

text \<open>
  An array heap of variables with an index of positions, ordered by activity (an \<open>f64\<close>
  compared with \<open>total_cmp\<close>, so any linear order here) and then by variable. The lemmas show
  that every operation keeps the position index and the heap order, which variables it adds
  or removes, and that \<open>pop_max\<close> returns the best one.
\<close>

subsection \<open>Definitions\<close>

record var_order =
  vo_heap :: "var list"
  vo_positions :: "nat list"

definition NO_POSITION :: nat where "NO_POSITION = u64_max"

definition higher_priority :: "var \<Rightarrow> var \<Rightarrow> 'a::linorder list \<Rightarrow> bool" where
  "higher_priority left right activity =
     (if activity ! var_index left > activity ! var_index right then True
      else if activity ! var_index left < activity ! var_index right then False
      else left < right)"

definition vo_empty :: var_order where
  "vo_empty = \<lparr>vo_heap = [], vo_positions = []\<rparr>"

text \<open>The exchange of two heap slots that both sift loops perform.\<close>

definition vo_exchange :: "nat \<Rightarrow> nat \<Rightarrow> var_order \<Rightarrow> var_order" where
  "vo_exchange p q h =
     (let heap = list_swap (vo_heap h) p q
      in \<lparr>vo_heap = heap,
          vo_positions = (vo_positions h)[var_index (heap ! p) := p, var_index (heap ! q) := q]\<rparr>)"

function sift_up :: "nat \<Rightarrow> 'a::linorder list \<Rightarrow> var_order \<Rightarrow> var_order" where
  "sift_up position activity h =
     (if 0 < position
      then if \<not> higher_priority (vo_heap h ! position) (vo_heap h ! ((position - 1) div 2)) activity
           then h
           else sift_up ((position - 1) div 2) activity
                  (vo_exchange position ((position - 1) div 2) h)
      else h)"
  by pat_completeness auto
termination
  by (relation "measure fst") auto

definition best_child :: "nat \<Rightarrow> 'a::linorder list \<Rightarrow> var list \<Rightarrow> nat" where
  "best_child position activity heap =
     (let left = position * 2 + 1; right = left + 1
      in if right < length heap \<and> higher_priority (heap ! right) (heap ! left) activity
         then right else left)"

lemma length_vo_exchange [simp]:
  "length (vo_heap (vo_exchange p q h)) = length (vo_heap h)"
  "length (vo_positions (vo_exchange p q h)) = length (vo_positions h)"
  by (simp_all add: vo_exchange_def Let_def)

lemma best_child_bounds:
  "position * 2 + 1 < length heap \<Longrightarrow>
   position < best_child position activity heap \<and> best_child position activity heap < length heap"
  by (simp add: best_child_def Let_def)

function sift_down :: "nat \<Rightarrow> 'a::linorder list \<Rightarrow> var_order \<Rightarrow> var_order" where
  "sift_down position activity h =
     (if length (vo_heap h) \<le> position * 2 + 1 then h
      else if \<not> higher_priority (vo_heap h ! best_child position activity (vo_heap h))
                 (vo_heap h ! position) activity
      then h
      else sift_down (best_child position activity (vo_heap h)) activity
             (vo_exchange position (best_child position activity (vo_heap h)) h))"
  by pat_completeness auto
termination
proof (relation "measure (\<lambda>(p, _, h). length (vo_heap h) - p)", goal_cases)
  case (2 position activity h)
  then show ?case
    using best_child_bounds [of position "vo_heap h" activity]
    by simp (metis diff_less_mono2 less_trans)
qed simp

declare sift_up.simps [simp del] sift_down.simps [simp del]

definition vo_insert :: "var \<Rightarrow> 'a::linorder list \<Rightarrow> var_order \<Rightarrow> var_order" where
  "vo_insert v activity h =
     (if vo_positions h ! var_index v \<noteq> NO_POSITION then h
      else let position = length (vo_heap h)
           in sift_up position activity
                \<lparr>vo_heap = vo_heap h @ [v],
                 vo_positions = (vo_positions h)[var_index v := position]\<rparr>)"

definition vo_grow :: "nat \<Rightarrow> nat \<Rightarrow> 'a::linorder list \<Rightarrow> var_order \<Rightarrow> var_order" where
  "vo_grow old_count new_count activity h =
     fold (\<lambda>index. vo_insert (Var (of_nat index)) activity) [old_count..<new_count]
       (h\<lparr>vo_positions := resize new_count NO_POSITION (vo_positions h)\<rparr>)"

definition vo_increase :: "var \<Rightarrow> 'a::linorder list \<Rightarrow> var_order \<Rightarrow> var_order" where
  "vo_increase v activity h =
     (let position = vo_positions h ! var_index v
      in if position \<noteq> NO_POSITION then sift_up position activity h else h)"

definition vo_update :: "var \<Rightarrow> 'a::linorder \<Rightarrow> 'a list \<Rightarrow> var_order \<Rightarrow> var_order" where
  "vo_update v old_activity activity h =
     (let position = vo_positions h ! var_index v
      in if position = NO_POSITION then h
         else if activity ! var_index v > old_activity then sift_up position activity h
         else if activity ! var_index v < old_activity then sift_down position activity h
         else h)"

definition pop_max :: "'a::linorder list \<Rightarrow> var_order \<Rightarrow> var option \<times> var_order" where
  "pop_max activity h =
     (case vo_heap h of
        [] \<Rightarrow> (None, h)
      | maximum # _ \<Rightarrow>
          let heap = butlast (vo_heap h);
              positions = (vo_positions h)[var_index maximum := NO_POSITION]
          in if heap = [] then (Some maximum, \<lparr>vo_heap = heap, vo_positions = positions\<rparr>)
             else (Some maximum,
                   sift_down 0 activity
                     \<lparr>vo_heap = heap[0 := last (vo_heap h)],
                      vo_positions = positions[var_index (last (vo_heap h)) := 0]\<rparr>))"

lemma length_sift_up [simp]: "length (vo_heap (sift_up p activity h)) = length (vo_heap h)"
  by (induction p activity h rule: sift_up.induct) (subst sift_up.simps, simp)

lemma length_sift_down [simp]: "length (vo_heap (sift_down p activity h)) = length (vo_heap h)"
  by (induction p activity h rule: sift_down.induct) (subst sift_down.simps, simp)

lemma pop_max_eq_None_iff: "fst (pop_max activity h) = None \<longleftrightarrow> vo_heap h = []"
  by (auto simp: pop_max_def Let_def split: list.splits)

lemma pop_max_length:
  "pop_max activity h = (Some v, h') \<Longrightarrow> length (vo_heap h) = Suc (length (vo_heap h'))"
  by (auto simp: pop_max_def Let_def split: list.splits if_splits)

text \<open>The unassigned value of the \<open>i8\<close> assignment array is 0.\<close>

function peek_max :: "int list \<Rightarrow> 'a::linorder list \<Rightarrow> var_order \<Rightarrow> var option \<times> var_order" where
  "peek_max assignments activity h =
     (case vo_heap h of
        [] \<Rightarrow> (None, h)
      | maximum # _ \<Rightarrow>
          if assignments ! var_index maximum = 0 then (Some maximum, h)
          else peek_max assignments activity (snd (pop_max activity h)))"
  by pat_completeness auto
termination
proof (relation "measure (\<lambda>(_, _, h). length (vo_heap h))", goal_cases)
  case (2 assignments activity h m rest)
  then have "fst (pop_max activity h) \<noteq> None"
    by (simp add: pop_max_eq_None_iff)
  then obtain v h' where "pop_max activity h = (Some v, h')"
    by (cases "pop_max activity h") auto
  then show ?case using pop_max_length by fastforce
qed simp

function pick_unassigned ::
  "int list \<Rightarrow> 'a::linorder list \<Rightarrow> var_order \<Rightarrow> var option \<times> var_order" where
  \<comment> \<open>The default loop of \<open>pick_branch_literal\<close>.\<close>
  "pick_unassigned assignments activity h =
     (case pop_max activity h of
        (None, h') \<Rightarrow> (None, h')
      | (Some v, h') \<Rightarrow>
          if assignments ! var_index v = 0 then (Some v, h')
          else pick_unassigned assignments activity h')"
  by pat_completeness auto
termination
  by (relation "measure (\<lambda>(_, _, h). length (vo_heap h))") (auto dest!: pop_max_length [OF sym])

declare peek_max.simps [simp del] pick_unassigned.simps [simp del]

subsection \<open>The priority order\<close>

lemma higher_priority_asym: "higher_priority v w a \<Longrightarrow> \<not> higher_priority w v a"
  by (auto simp: higher_priority_def split: if_splits)

lemma higher_priority_irrefl [simp]: "\<not> higher_priority v v a"
  by (simp add: higher_priority_def)

lemma higher_priority_trans:
  "higher_priority u v a \<Longrightarrow> higher_priority v w a \<Longrightarrow> higher_priority u w a"
  by (auto simp: higher_priority_def split: if_splits)

lemma higher_priority_total: "v \<noteq> w \<Longrightarrow> higher_priority v w a \<or> higher_priority w v a"
  by (auto simp: higher_priority_def)

lemma not_higher_priority_trans:
  "\<not> higher_priority u v a \<Longrightarrow> \<not> higher_priority v w a \<Longrightarrow> \<not> higher_priority u w a"
  by (metis higher_priority_total higher_priority_trans)

subsection \<open>The heap order\<close>

abbreviation parent :: "nat \<Rightarrow> nat" where
  "parent i \<equiv> (i - 1) div 2"

lemma parent_less: "0 < i \<Longrightarrow> parent i < i"
  by auto

lemma parent_eq_iff: "0 < i \<Longrightarrow> parent i = p \<longleftrightarrow> i = p * 2 + 1 \<or> i = p * 2 + 2"
  by auto

definition heap_ordered :: "'a::linorder list \<Rightarrow> var list \<Rightarrow> bool" where
  "heap_ordered a hs \<longleftrightarrow>
     (\<forall>i < length hs. 0 < i \<longrightarrow> \<not> higher_priority (hs ! i) (hs ! parent i) a)"

definition ordered_but_up :: "'a::linorder list \<Rightarrow> var list \<Rightarrow> nat \<Rightarrow> bool" where
  \<comment> \<open>Only the slot \<open>p\<close> may be better than its parent.\<close>
  "ordered_but_up a hs p \<longleftrightarrow>
     (\<forall>i < length hs. 0 < i \<and> i \<noteq> p \<longrightarrow> \<not> higher_priority (hs ! i) (hs ! parent i) a)
     \<and> (\<forall>i < length hs. 0 < i \<and> 0 < p \<and> parent i = p \<longrightarrow>
          \<not> higher_priority (hs ! i) (hs ! parent p) a)"

definition ordered_but_down :: "'a::linorder list \<Rightarrow> var list \<Rightarrow> nat \<Rightarrow> bool" where
  \<comment> \<open>Only the children of \<open>p\<close> may be better than \<open>p\<close>.\<close>
  "ordered_but_down a hs p \<longleftrightarrow>
     (\<forall>i < length hs. 0 < i \<and> parent i \<noteq> p \<longrightarrow> \<not> higher_priority (hs ! i) (hs ! parent i) a)
     \<and> (\<forall>i < length hs. 0 < i \<and> 0 < p \<and> parent i = p \<longrightarrow>
          \<not> higher_priority (hs ! i) (hs ! parent p) a)"

lemma vo_heap_exchange [simp]: "vo_heap (vo_exchange p q h) = list_swap (vo_heap h) p q"
  by (simp add: vo_exchange_def Let_def)

lemma exchange_up:
  assumes o: "ordered_but_up a hs p" and p: "0 < p" "p < length hs"
    and b: "higher_priority (hs ! p) (hs ! parent p) a"
  shows "ordered_but_up a (list_swap hs p (parent p)) (parent p)"
proof -
  let ?q = "parent p"
  let ?hs = "list_swap hs p ?q"
  have q: "?q < p" "?q < length hs" using p parent_less [of p] by auto
  have nth: "?hs ! i = (if i = p then hs ! ?q else if i = ?q then hs ! p else hs ! i)"
    if "i < length hs" for i
    using that p q by (simp add: nth_list_swap)
  have 1: "\<not> higher_priority (?hs ! i) (?hs ! parent i) a"
    if i: "i < length hs" "0 < i" "i \<noteq> ?q" for i
  proof -
    have pi: "parent i < i" using i by (simp add: parent_less)
    consider (self) "i = p" | (child) "i \<noteq> p" "parent i = p" | (sibling) "i \<noteq> p" "parent i = ?q"
      | (other) "i \<noteq> p" "parent i \<noteq> p" "parent i \<noteq> ?q" by blast
    then show ?thesis
    proof cases
      case self
      then show ?thesis using b p q nth [of p] nth [of ?q] higher_priority_asym by simp
    next
      case child
      then have "\<not> higher_priority (hs ! i) (hs ! ?q) a"
        using o i p by (auto simp: ordered_but_up_def)
      moreover have "?hs ! i = hs ! i"
        using nth [OF i(1)] child i pi q by auto
      moreover have "?hs ! parent i = hs ! ?q"
        using nth [OF p(2)] child(2) by simp
      ultimately show ?thesis by simp
    next
      case sibling
      then have "\<not> higher_priority (hs ! i) (hs ! ?q) a"
        using o i by (auto simp: ordered_but_up_def)
      then have "\<not> higher_priority (hs ! i) (hs ! p) a"
        using b higher_priority_trans by blast
      moreover have "?hs ! i = hs ! i" using nth [of i] i sibling(1) by simp
      moreover have "?hs ! parent i = hs ! p" using nth [of ?q] q sibling(2) by simp
      ultimately show ?thesis by simp
    next
      case other
      then have "\<not> higher_priority (hs ! i) (hs ! parent i) a"
        using o i by (auto simp: ordered_but_up_def)
      with other i pi show ?thesis using nth [of i] nth [of "parent i"] by simp
    qed
  qed
  have 2: "\<not> higher_priority (?hs ! i) (?hs ! parent ?q) a"
    if i: "i < length hs" "0 < i" "0 < ?q" "parent i = ?q" for i
  proof -
    have qq: "\<not> higher_priority (hs ! ?q) (hs ! parent ?q) a"
      using o q i(3) by (auto simp: ordered_but_up_def)
    have g: "?hs ! parent ?q = hs ! parent ?q"
      using nth [of "parent ?q"] parent_less [OF i(3)] q by auto
    show ?thesis
    proof (cases "i = p")
      case True
      then show ?thesis using g qq nth [of p] p by simp
    next
      case False
      then have "\<not> higher_priority (hs ! i) (hs ! ?q) a"
        using o i by (auto simp: ordered_but_up_def)
      with qq have "\<not> higher_priority (hs ! i) (hs ! parent ?q) a"
        using not_higher_priority_trans by blast
      moreover have "?hs ! i = hs ! i"
        using nth [of i] i False parent_less [OF i(2)] by auto
      ultimately show ?thesis using g by simp
    qed
  qed
  show ?thesis
    unfolding ordered_but_up_def using 1 2 by simp
qed

lemma sift_up_ordered:
  "p < length (vo_heap h) \<Longrightarrow> ordered_but_up a (vo_heap h) p \<Longrightarrow>
   heap_ordered a (vo_heap (sift_up p a h))"
proof (induction p a h rule: sift_up.induct)
  case (1 p a h)
  show ?case
  proof (cases "0 < p \<and> higher_priority (vo_heap h ! p) (vo_heap h ! parent p) a")
    case True
    then have "heap_ordered a (vo_heap (sift_up (parent p) a (vo_exchange p (parent p) h)))"
      using "1.IH" "1.prems" exchange_up [of a "vo_heap h" p] parent_less [of p] by auto
    with True show ?thesis by (subst sift_up.simps) simp
  next
    case False
    then have "heap_ordered a (vo_heap h)"
      using "1.prems" by (auto simp: heap_ordered_def ordered_but_up_def)
    with False show ?thesis by (subst sift_up.simps) auto
  qed
qed

lemma best_child_parent:
  "p * 2 + 1 < length hs \<Longrightarrow> parent (best_child p a hs) = p \<and> 0 < best_child p a hs"
  by (simp add: best_child_def Let_def)

lemma best_child_best:
  "i < length hs \<Longrightarrow> 0 < i \<Longrightarrow> parent i = p \<Longrightarrow> \<not> higher_priority (hs ! i) (hs ! best_child p a hs) a"
  by (subst (asm) parent_eq_iff) (auto simp: best_child_def Let_def dest: higher_priority_asym)

lemma exchange_down:
  assumes o: "ordered_but_down a hs p" and p: "p * 2 + 1 < length hs"
    and b: "higher_priority (hs ! best_child p a hs) (hs ! p) a"
  shows "ordered_but_down a (list_swap hs p (best_child p a hs)) (best_child p a hs)"
proof -
  let ?c = "best_child p a hs"
  let ?hs = "list_swap hs p ?c"
  have c: "p < ?c" "?c < length hs" "parent ?c = p" "0 < ?c"
    using best_child_bounds [OF p] best_child_parent [OF p] by auto
  have nth: "?hs ! i = (if i = p then hs ! ?c else if i = ?c then hs ! p else hs ! i)"
    if "i < length hs" for i
    using that c by (simp add: nth_list_swap)
  have 1: "\<not> higher_priority (?hs ! i) (?hs ! parent i) a"
    if i: "i < length hs" "0 < i" "parent i \<noteq> ?c" for i
  proof -
    have pi: "parent i < i" using i by (simp add: parent_less)
    consider (self) "i = p" | (best) "i = ?c" | (child) "i \<noteq> p" "i \<noteq> ?c" "parent i = p"
      | (other) "i \<noteq> p" "i \<noteq> ?c" "parent i \<noteq> p" by blast
    then show ?thesis
    proof cases
      case self
      then have "\<not> higher_priority (hs ! ?c) (hs ! parent p) a"
        using o c i by (auto simp: ordered_but_down_def)
      with self i pi c nth [of p] nth [of "parent p"] show ?thesis by auto
    next
      case best
      then show ?thesis
        using b c nth [of ?c] nth [of p] by (simp add: higher_priority_asym)
    next
      case child
      then have "\<not> higher_priority (hs ! i) (hs ! ?c) a"
        using best_child_best [of i hs p a] i by simp
      with child i c nth [of i] nth [of p] show ?thesis by simp
    next
      case other
      then have "\<not> higher_priority (hs ! i) (hs ! parent i) a"
        using o i by (auto simp: ordered_but_down_def)
      with other i pi nth [of i] nth [of "parent i"] show ?thesis by simp
    qed
  qed
  have 2: "\<not> higher_priority (?hs ! i) (?hs ! parent ?c) a"
    if i: "i < length hs" "0 < i" "parent i = ?c" for i
  proof -
    have "i \<noteq> ?c" "i \<noteq> p" using parent_less [OF i(2)] i(3) c by auto
    moreover have "\<not> higher_priority (hs ! i) (hs ! ?c) a"
      using o i c by (auto simp: ordered_but_down_def)
    ultimately show ?thesis using i c nth [of i] nth [of p] by simp
  qed
  show ?thesis
    unfolding ordered_but_down_def using 1 2 by simp
qed

lemma sift_down_ordered:
  "ordered_but_down a (vo_heap h) p \<Longrightarrow> heap_ordered a (vo_heap (sift_down p a h))"
proof (induction p a h rule: sift_down.induct)
  case (1 p a h)
  let ?c = "best_child p a (vo_heap h)"
  show ?case
  proof (cases "p * 2 + 1 < length (vo_heap h) \<and> higher_priority (vo_heap h ! ?c) (vo_heap h ! p) a")
    case True
    then have "heap_ordered a (vo_heap (sift_down ?c a (vo_exchange p ?c h)))"
      using "1.IH" "1.prems" exchange_down [of a "vo_heap h" p] by auto
    with True show ?thesis by (subst sift_down.simps) simp
  next
    case False
    have "\<not> higher_priority (vo_heap h ! i) (vo_heap h ! parent i) a"
      if i: "i < length (vo_heap h)" "0 < i" for i
    proof (cases "parent i = p")
      case True
      then have "p * 2 + 1 < length (vo_heap h)" using i by (auto simp: parent_eq_iff)
      with False have "\<not> higher_priority (vo_heap h ! ?c) (vo_heap h ! p) a" by simp
      moreover have "\<not> higher_priority (vo_heap h ! i) (vo_heap h ! ?c) a"
        using best_child_best i True by blast
      ultimately show ?thesis using True not_higher_priority_trans by blast
    next
      case False
      then show ?thesis using "1.prems" i by (auto simp: ordered_but_down_def)
    qed
    then have "heap_ordered a (vo_heap h)" by (simp add: heap_ordered_def)
    with False show ?thesis by (subst sift_down.simps) auto
  qed
qed

lemma heap_root_best:
  assumes "heap_ordered a hs" and "i < length hs"
  shows "\<not> higher_priority (hs ! i) (hs ! 0) a"
  using assms(2)
proof (induction i rule: less_induct)
  case (less i)
  show ?case
  proof (cases "i = 0")
    case False
    then have "\<not> higher_priority (hs ! i) (hs ! parent i) a"
      using assms(1) less.prems by (auto simp: heap_ordered_def)
    moreover have "\<not> higher_priority (hs ! parent i) (hs ! 0) a"
      using less.IH [of "parent i"] less.prems False parent_less [of i] by auto
    ultimately show ?thesis using not_higher_priority_trans by blast
  qed simp
qed

subsection \<open>The position index\<close>

definition slots_ok :: "var_order \<Rightarrow> bool" where
  "slots_ok h \<longleftrightarrow> length (vo_positions h) \<le> MAX_VARIABLES
     \<and> (\<forall>i < length (vo_heap h). var_index (vo_heap h ! i) < length (vo_positions h)
          \<and> vo_positions h ! var_index (vo_heap h ! i) = i)
     \<and> (\<forall>k < length (vo_positions h). vo_positions h ! k \<noteq> NO_POSITION \<longrightarrow>
          vo_positions h ! k < length (vo_heap h)
          \<and> var_index (vo_heap h ! (vo_positions h ! k)) = k)"

definition vo_inv :: "'a::linorder list \<Rightarrow> var_order \<Rightarrow> bool" where
  "vo_inv a h \<longleftrightarrow> slots_ok h \<and> heap_ordered a (vo_heap h)"

definition vo_vars :: "var_order \<Rightarrow> var set" where
  "vo_vars h = set (vo_heap h)"

lemma slots_okD:
  assumes "slots_ok h" and "i < length (vo_heap h)"
  shows "var_index (vo_heap h ! i) < length (vo_positions h)"
    and "vo_positions h ! var_index (vo_heap h ! i) = i"
  using assms by (auto simp: slots_ok_def)

lemma slots_ok_distinct: "slots_ok h \<Longrightarrow> distinct (vo_heap h)"
  by (metis distinct_conv_nth slots_okD(2))

lemma slots_ok_length: "slots_ok h \<Longrightarrow> length (vo_heap h) \<le> length (vo_positions h)"
proof -
  assume s: "slots_ok h"
  have "inj_on var_index (set (vo_heap h))"
    by (simp add: inj_on_def var_index_eq_iff)
  then have "card (var_index ` set (vo_heap h)) = length (vo_heap h)"
    using slots_ok_distinct [OF s] by (simp add: card_image distinct_card)
  moreover have "var_index ` set (vo_heap h) \<subseteq> {..< length (vo_positions h)}"
    using s by (auto simp: in_set_conv_nth slots_okD(1))
  ultimately show ?thesis
    by (metis card_lessThan card_mono finite_lessThan)
qed

lemma NO_POSITION_big: "slots_ok h \<Longrightarrow> length (vo_heap h) < NO_POSITION"
proof -
  assume "slots_ok h"
  then have "length (vo_heap h) \<le> MAX_VARIABLES"
    using slots_ok_length by (fastforce simp: slots_ok_def)
  then show ?thesis by (simp add: MAX_VARIABLES_eq NO_POSITION_def)
qed

lemma member_iff_position:
  assumes "slots_ok h" and "var_index v < length (vo_positions h)"
  shows "v \<in> vo_vars h \<longleftrightarrow> vo_positions h ! var_index v \<noteq> NO_POSITION"
proof
  assume "v \<in> vo_vars h"
  then obtain i where "i < length (vo_heap h)" "vo_heap h ! i = v"
    by (auto simp: vo_vars_def in_set_conv_nth)
  then show "vo_positions h ! var_index v \<noteq> NO_POSITION"
    using slots_okD(2) [OF assms(1)] NO_POSITION_big [OF assms(1)] by fastforce
next
  assume "vo_positions h ! var_index v \<noteq> NO_POSITION"
  then have "vo_positions h ! var_index v < length (vo_heap h)"
    "vo_heap h ! (vo_positions h ! var_index v) = v"
    using assms by (auto simp: slots_ok_def var_index_eq_iff)
  then show "v \<in> vo_vars h"
    by (metis nth_mem vo_vars_def)
qed

lemma member_position:
  assumes "slots_ok h" and "v \<in> vo_vars h"
  shows "vo_positions h ! var_index v < length (vo_heap h)"
    and "vo_heap h ! (vo_positions h ! var_index v) = v"
    and "var_index v < length (vo_positions h)"
proof -
  obtain i where "i < length (vo_heap h)" "vo_heap h ! i = v"
    using assms(2) by (auto simp: vo_vars_def in_set_conv_nth)
  then show "vo_positions h ! var_index v < length (vo_heap h)"
    "vo_heap h ! (vo_positions h ! var_index v) = v" "var_index v < length (vo_positions h)"
    using slots_okD [OF assms(1)] by auto
qed

lemma exchange_slots:
  assumes s: "slots_ok h" and pq: "p < length (vo_heap h)" "q < length (vo_heap h)" "p \<noteq> q"
  shows "slots_ok (vo_exchange p q h)"
proof -
  let ?hs = "vo_heap h" and ?ps = "vo_positions h"
  let ?ps' = "?ps[var_index (?hs ! q) := p, var_index (?hs ! p) := q]"
  have e: "vo_exchange p q h = \<lparr>vo_heap = list_swap ?hs p q, vo_positions = ?ps'\<rparr>"
    using pq by (simp add: vo_exchange_def Let_def nth_list_swap)
  have ne: "var_index (?hs ! q) \<noteq> var_index (?hs ! p)"
    using slots_okD(2) [OF s] pq by metis
  have nth: "list_swap ?hs p q ! i = (if i = p then ?hs ! q else if i = q then ?hs ! p else ?hs ! i)"
    if "i < length ?hs" for i
    using that pq by (simp add: nth_list_swap)
  have ps': "?ps' ! k = (if k = var_index (?hs ! p) then q else if k = var_index (?hs ! q) then p
      else ?ps ! k)" if "k < length ?ps" for k
    using that by (auto simp: nth_list_update)
  have 1: "var_index (list_swap ?hs p q ! i) < length ?ps \<and> ?ps' ! var_index (list_swap ?hs p q ! i) = i"
    if i: "i < length ?hs" for i
  proof -
    have "var_index (?hs ! i) \<noteq> var_index (?hs ! p)" if "i \<noteq> p"
      using slots_okD(2) [OF s] pq(1) i that by metis
    moreover have "var_index (?hs ! i) \<noteq> var_index (?hs ! q)" if "i \<noteq> q"
      using slots_okD(2) [OF s] pq(2) i that by metis
    ultimately show ?thesis
      using nth [OF i] ps' slots_okD [OF s] pq i ne by auto
  qed
  have 2: "?ps' ! k < length ?hs \<and> var_index (list_swap ?hs p q ! (?ps' ! k)) = k"
    if k: "k < length ?ps" "?ps' ! k \<noteq> NO_POSITION" for k
  proof (cases "k = var_index (?hs ! p) \<or> k = var_index (?hs ! q)")
    case True
    then show ?thesis using ps' [OF k(1)] nth pq ne by auto
  next
    case False
    then have "?ps ! k < length ?hs" "var_index (?hs ! (?ps ! k)) = k"
      using s k ps' [OF k(1)] by (auto simp: slots_ok_def)
    with False show ?thesis using ps' [OF k(1)] nth by auto
  qed
  show ?thesis
    using 1 2 s by (simp add: slots_ok_def e)
qed

lemma sift_up_slots:
  "slots_ok h \<Longrightarrow> p < length (vo_heap h) \<Longrightarrow>
   slots_ok (sift_up p a h) \<and> vo_vars (sift_up p a h) = vo_vars h
   \<and> length (vo_positions (sift_up p a h)) = length (vo_positions h)"
proof (induction p a h rule: sift_up.induct)
  case (1 p a h)
  show ?case
  proof (cases "0 < p \<and> higher_priority (vo_heap h ! p) (vo_heap h ! parent p) a")
    case True
    then have "slots_ok (vo_exchange p (parent p) h)"
      using "1.prems" parent_less [of p] by (intro exchange_slots) auto
    then show ?thesis
      using "1.IH" "1.prems" True parent_less [of p]
      by (subst (1 2 3) sift_up.simps) (simp add: vo_vars_def)
  next
    case False
    then have "sift_up p a h = h" by (subst sift_up.simps) auto
    with "1.prems" show ?thesis by simp
  qed
qed

lemma sift_down_slots:
  "slots_ok h \<Longrightarrow>
   slots_ok (sift_down p a h) \<and> vo_vars (sift_down p a h) = vo_vars h
   \<and> length (vo_positions (sift_down p a h)) = length (vo_positions h)"
proof (induction p a h rule: sift_down.induct)
  case (1 p a h)
  let ?c = "best_child p a (vo_heap h)"
  show ?case
  proof (cases "p * 2 + 1 < length (vo_heap h) \<and> higher_priority (vo_heap h ! ?c) (vo_heap h ! p) a")
    case True
    then have c: "p < ?c" "?c < length (vo_heap h)"
      using best_child_bounds [of p "vo_heap h" a] by auto
    then have "slots_ok (vo_exchange p ?c h)"
      using "1.prems" by (intro exchange_slots) auto
    then show ?thesis
      using "1.IH" True c
      by (subst (1 2 3) sift_down.simps) (simp add: vo_vars_def)
  next
    case False
    then have "sift_down p a h = h" by (subst sift_down.simps) auto
    with "1.prems" show ?thesis by simp
  qed
qed

subsection \<open>The operations keep the invariant\<close>

lemma vo_inv_empty [wf_intros]: "vo_inv a vo_empty"
  by (simp add: vo_inv_def vo_empty_def slots_ok_def heap_ordered_def)

lemma nth_append_parent:
  "i < length hs \<Longrightarrow> 0 < i \<Longrightarrow> (hs @ [v]) ! parent i = hs ! parent i"
  using parent_less [of i] by (auto simp: nth_append)

lemma vo_insert_slots:
  assumes s: "slots_ok h" and v: "var_index v < length (vo_positions h)"
  shows "slots_ok (vo_insert v a h) \<and> vo_vars (vo_insert v a h) = insert v (vo_vars h)
         \<and> length (vo_positions (vo_insert v a h)) = length (vo_positions h)"
proof (cases "vo_positions h ! var_index v = NO_POSITION")
  case False
  then show ?thesis
    using s v member_iff_position [of h v] by (auto simp: vo_insert_def)
next
  case True
  let ?n = "length (vo_heap h)"
  let ?h = "\<lparr>vo_heap = vo_heap h @ [v], vo_positions = (vo_positions h)[var_index v := ?n]\<rparr>"
  have new: "v \<notin> vo_vars h"
    using member_iff_position [OF s v] True by simp
  have nv: "var_index (vo_heap h ! j) \<noteq> var_index v" if "j < ?n" for j
    using new that by (auto simp: vo_vars_def var_index_eq_iff)
  have "vo_heap h ! (vo_positions h ! k) = (vo_heap h @ [v]) ! (vo_positions h ! k)"
    if "k < length (vo_positions h)" "vo_positions h ! k \<noteq> NO_POSITION" for k
    using s that by (auto simp: slots_ok_def nth_append)
  then have s': "slots_ok ?h"
    using s v
    by (auto simp: slots_ok_def nth_append nth_list_update less_Suc_eq nv nv [symmetric])
  with sift_up_slots [OF s', of ?n a] True show ?thesis
    by (simp add: vo_insert_def vo_vars_def Let_def)
qed

lemma vo_insert_inv [wf_intros]:
  assumes i: "vo_inv a h" and v: "var_index v < length (vo_positions h)"
  shows "vo_inv a (vo_insert v a h) \<and> vo_vars (vo_insert v a h) = insert v (vo_vars h)
         \<and> length (vo_positions (vo_insert v a h)) = length (vo_positions h)"
proof -
  have s: "slots_ok h" and o: "heap_ordered a (vo_heap h)"
    using i by (simp_all add: vo_inv_def)
  have "heap_ordered a (vo_heap (vo_insert v a h))"
  proof (cases "vo_positions h ! var_index v = NO_POSITION")
    case False
    with o show ?thesis by (simp add: vo_insert_def)
  next
    case True
    let ?n = "length (vo_heap h)"
    let ?h = "\<lparr>vo_heap = vo_heap h @ [v], vo_positions = (vo_positions h)[var_index v := ?n]\<rparr>"
    have "ordered_but_up a (vo_heap ?h) ?n"
      unfolding ordered_but_up_def
    proof (intro conjI allI impI)
      fix j assume "j < length (vo_heap ?h)" "0 < j \<and> j \<noteq> ?n"
      then have j: "j < ?n" "0 < j" by auto
      then show "\<not> higher_priority (vo_heap ?h ! j) (vo_heap ?h ! parent j) a"
        using o nth_append_parent [of j "vo_heap h" v] by (simp add: heap_ordered_def nth_append)
    next
      fix j assume "j < length (vo_heap ?h)" "0 < j \<and> 0 < ?n \<and> parent j = ?n"
      then have False using parent_less [of j] by auto
      then show "\<not> higher_priority (vo_heap ?h ! j) (vo_heap ?h ! parent ?n) a" ..
    qed
    then have "heap_ordered a (vo_heap (sift_up ?n a ?h))"
      by (intro sift_up_ordered) auto
    with True show ?thesis by (simp add: vo_insert_def Let_def)
  qed
  with vo_insert_slots [OF s v, of a] show ?thesis by (simp add: vo_inv_def)
qed

lemma last_conv_slot: "hs \<noteq> [] \<Longrightarrow> last hs = hs ! (length hs - 1)"
  by (simp add: last_conv_nth)

lemma pop_max_slots:
  assumes s: "slots_ok h" and p: "pop_max a h = (Some v, h')"
  shows "v \<in> vo_vars h" and "vo_vars h' = vo_vars h - {v}" and "slots_ok h'"
    and "length (vo_positions h') = length (vo_positions h)"
proof -
  obtain rest where hs: "vo_heap h = v # rest"
    using p by (auto simp: pop_max_def Let_def split: list.splits if_splits)
  have d: "distinct (v # rest)" using slots_ok_distinct [OF s] hs by simp
  have v0: "vo_positions h ! var_index v = 0" "var_index v < length (vo_positions h)"
    using slots_okD [OF s, of 0] hs by auto
  show "v \<in> vo_vars h" by (simp add: vo_vars_def hs)
  let ?ps = "(vo_positions h)[var_index v := NO_POSITION]"
  show "vo_vars h' = vo_vars h - {v}" "slots_ok h'" "length (vo_positions h') = length (vo_positions h)"
  proof (atomize (full), cases "rest = []")
    case True
    then have h': "h' = \<lparr>vo_heap = [], vo_positions = ?ps\<rparr>"
      using p hs by (simp add: pop_max_def Let_def)
    have "?ps ! k = NO_POSITION" if "k < length (vo_positions h)" for k
      using s that hs True by (cases "k = var_index v") (auto simp: slots_ok_def nth_list_update)
    with s True show "vo_vars h' = vo_vars h - {v} \<and> slots_ok h'
        \<and> length (vo_positions h') = length (vo_positions h)"
      by (auto simp: h' vo_vars_def hs slots_ok_def)
  next
    case False
    let ?w = "last rest" and ?n = "length rest"
    let ?hs = "(v # butlast rest)[0 := ?w]"
    let ?h = "\<lparr>vo_heap = ?hs, vo_positions = ?ps[var_index ?w := 0]\<rparr>"
    have h': "h' = sift_down 0 a ?h"
      using p hs False by (simp add: pop_max_def Let_def)
    have nth: "?hs ! j = (if j = 0 then ?w else vo_heap h ! j)" if "j < ?n" for j
      using that hs False by (cases j) (auto simp: nth_butlast)
    have w: "?w = vo_heap h ! ?n"
      using hs False by (simp add: last_conv_nth)
    have ne: "var_index ?w \<noteq> var_index v"
      using d False by (auto simp: var_index_eq_iff)
    have s': "slots_ok ?h"
      unfolding slots_ok_def
    proof (intro conjI allI impI)
      show "length (vo_positions ?h) \<le> MAX_VARIABLES" using s by (simp add: slots_ok_def)
    next
      fix j assume "j < length (vo_heap ?h)"
      then have j: "j < ?n" using False by simp
      have lt: "var_index (vo_heap h ! k) < length (vo_positions h) \<and>
          vo_positions h ! var_index (vo_heap h ! k) = k" if "k \<le> ?n" for k
        using slots_okD [OF s, of k] hs that by simp
      show "var_index (vo_heap ?h ! j) < length (vo_positions ?h)"
        using nth [OF j] lt [of j] lt [of ?n] j w by auto
      show "vo_positions ?h ! var_index (vo_heap ?h ! j) = j"
      proof (cases "j = 0")
        case True
        then show ?thesis using nth [OF j] lt [of ?n] w by simp
      next
        case nz: False
        have "var_index (vo_heap h ! j) \<noteq> var_index ?w" "var_index (vo_heap h ! j) \<noteq> var_index v"
          using lt [of j] lt [of ?n] lt [of 0] nz j w hs by fastforce+
        then show ?thesis using nth [OF j] lt [of j] nz j by simp
      qed
    next
      fix k assume k: "k < length (vo_positions ?h)" "vo_positions ?h ! k \<noteq> NO_POSITION"
      have "vo_positions ?h ! k < ?n \<and> var_index (?hs ! (vo_positions ?h ! k)) = k"
      proof (cases "k = var_index ?w")
        case True
        then show ?thesis using nth [of 0] False k by simp
      next
        case nw: False
        then have nv: "k \<noteq> var_index v" and eq: "vo_positions ?h ! k = vo_positions h ! k"
          using k v0(2) by (auto simp: nth_list_update split: if_splits)
        then have p: "vo_positions h ! k < length (vo_heap h)"
          "var_index (vo_heap h ! (vo_positions h ! k)) = k"
          using s k by (auto simp: slots_ok_def)
        have "vo_positions h ! k \<noteq> ?n" using p(2) nw w by auto
        moreover have "vo_positions h ! k \<noteq> 0" using p(2) nv hs by (cases "vo_positions h ! k") auto
        ultimately show ?thesis using nth [of "vo_positions h ! k"] p hs eq by simp
      qed
      then show "vo_positions ?h ! k < length (vo_heap ?h)"
        "var_index (vo_heap ?h ! (vo_positions ?h ! k)) = k"
        using False by simp_all
    qed
    have "set ?hs = set rest"
      using False by (metis append_butlast_last_id list_update_code(2) rotate1.simps(2) set_rotate1
          insert_is_Un list.simps(15) set_append sup_commute list.set(1))
    then show "vo_vars h' = vo_vars h - {v} \<and> slots_ok h'
        \<and> length (vo_positions h') = length (vo_positions h)"
      using sift_down_slots [OF s', of 0 a] d
      by (auto simp: h' vo_vars_def hs)
  qed
qed

lemma pop_max_Some:
  assumes i: "vo_inv a h" and p: "pop_max a h = (Some v, h')"
  shows "v \<in> vo_vars h" and "vo_vars h' = vo_vars h - {v}" and "vo_inv a h'"
    and "\<forall>w \<in> vo_vars h. \<not> higher_priority w v a"
    and "length (vo_positions h') = length (vo_positions h)"
proof -
  have s: "slots_ok h" and o: "heap_ordered a (vo_heap h)"
    using i by (simp_all add: vo_inv_def)
  note slots = pop_max_slots [OF s p]
  obtain rest where hs: "vo_heap h = v # rest"
    using p by (auto simp: pop_max_def Let_def split: list.splits if_splits)
  show "\<forall>w \<in> vo_vars h. \<not> higher_priority w v a"
  proof
    fix w assume "w \<in> vo_vars h"
    then obtain j where "j < length (vo_heap h)" "vo_heap h ! j = w"
      by (auto simp: vo_vars_def in_set_conv_nth)
    then show "\<not> higher_priority w v a"
      using heap_root_best [OF o, of j] hs by simp
  qed
  let ?ps = "(vo_positions h)[var_index v := NO_POSITION]"
  have "heap_ordered a (vo_heap h')"
  proof (cases "rest = []")
    case True
    then show ?thesis using p hs by (auto simp: pop_max_def Let_def heap_ordered_def)
  next
    case False
    let ?w = "last rest" and ?n = "length rest"
    let ?hs = "(v # butlast rest)[0 := ?w]"
    let ?h = "\<lparr>vo_heap = ?hs, vo_positions = ?ps[var_index ?w := 0]\<rparr>"
    have h': "h' = sift_down 0 a ?h"
      using p hs False by (simp add: pop_max_def Let_def)
    have nth: "?hs ! j = (if j = 0 then ?w else vo_heap h ! j)" if "j < ?n" for j
      using that hs False by (cases j) (auto simp: nth_butlast)
    have "ordered_but_down a ?hs 0"
      unfolding ordered_but_down_def
    proof (intro conjI allI impI)
      fix j assume "j < length ?hs" "0 < j \<and> parent j \<noteq> 0"
      then have j: "j < ?n" "0 < j" "parent j < ?n" "parent j \<noteq> 0"
        using False parent_less [of j] by auto
      have "j < length (vo_heap h)" using j hs by simp
      then have "\<not> higher_priority (vo_heap h ! j) (vo_heap h ! parent j) a"
        using o j(2) unfolding heap_ordered_def by blast
      then show "\<not> higher_priority (?hs ! j) (?hs ! parent j) a"
        using j unfolding nth [OF j(1)] nth [OF j(3)] by simp
    qed simp
    then show ?thesis
      unfolding h' by (intro sift_down_ordered) simp
  qed
  with slots show "v \<in> vo_vars h" "vo_vars h' = vo_vars h - {v}" "vo_inv a h'"
    "length (vo_positions h') = length (vo_positions h)"
    by (simp_all add: vo_inv_def)
qed

lemma pop_max_None: "pop_max a h = (None, h') \<Longrightarrow> vo_vars h = {} \<and> h' = h"
  by (auto simp: pop_max_def Let_def vo_vars_def split: list.splits if_splits)

text \<open>A changed activity moves one variable up or down.\<close>

lemma higher_priority_update_other:
  "u \<noteq> v \<Longrightarrow> w \<noteq> v \<Longrightarrow> higher_priority u w (a[var_index v := x]) = higher_priority u w a"
  by (simp add: higher_priority_def var_index_eq_iff)

lemma higher_priority_raise:
  assumes "var_index v < length a" and "a ! var_index v \<le> x" and "u \<noteq> v"
    and "\<not> higher_priority u v a"
  shows "\<not> higher_priority u v (a[var_index v := x])"
  using assms by (auto simp: higher_priority_def var_index_eq_iff split: if_splits)

lemma higher_priority_lower:
  assumes "var_index v < length a" and "x \<le> a ! var_index v" and "u \<noteq> v"
    and "\<not> higher_priority v u a"
  shows "\<not> higher_priority v u (a[var_index v := x])"
  using assms by (auto simp: higher_priority_def var_index_eq_iff split: if_splits)

lemma heap_skip_parent:
  assumes "heap_ordered a hs" and "i < length hs" and "0 < i" and "0 < parent i"
  shows "\<not> higher_priority (hs ! i) (hs ! parent (parent i)) a"
  using assms parent_less [of i] not_higher_priority_trans [of "hs ! i" "hs ! parent i" a]
  by (auto simp: heap_ordered_def)

lemma raise_ordered:
  assumes o: "heap_ordered a hs" and d: "distinct hs" and p: "p < length hs"
    and len: "var_index (hs ! p) < length a" and x: "a ! var_index (hs ! p) \<le> x"
  shows "ordered_but_up (a[var_index (hs ! p) := x]) hs p"
proof -
  have other: "hs ! i \<noteq> hs ! p" if "i < length hs" "i \<noteq> p" for i
    using d p that by (simp add: nth_eq_iff_index_eq)
  show ?thesis
    unfolding ordered_but_up_def
  proof (intro conjI allI impI)
    fix i assume i: "i < length hs" "0 < i \<and> i \<noteq> p"
    then have par: "parent i < length hs" and ni: "\<not> higher_priority (hs ! i) (hs ! parent i) a"
      using o parent_less [of i] by (auto simp: heap_ordered_def)
    show "\<not> higher_priority (hs ! i) (hs ! parent i) (a[var_index (hs ! p) := x])"
    proof (cases "parent i = p")
      case True
      then show ?thesis
        using higher_priority_raise [OF len x other [OF i(1)]] ni i(2) by simp
    next
      case False
      then show ?thesis
        using ni i by (simp add: higher_priority_update_other [OF other other] par)
    qed
  next
    fix i assume i: "i < length hs" "0 < i \<and> 0 < p \<and> parent i = p"
    then have "i \<noteq> p" "parent p \<noteq> p" "parent p < length hs"
      using parent_less [of i] parent_less [of p] p by auto
    then show "\<not> higher_priority (hs ! i) (hs ! parent p) (a[var_index (hs ! p) := x])"
      using heap_skip_parent [OF o i(1)] i by (simp add: higher_priority_update_other [OF other other])
  qed
qed

lemma lower_ordered:
  assumes o: "heap_ordered a hs" and d: "distinct hs" and p: "p < length hs"
    and len: "var_index (hs ! p) < length a" and x: "x \<le> a ! var_index (hs ! p)"
  shows "ordered_but_down (a[var_index (hs ! p) := x]) hs p"
proof -
  have other: "hs ! i \<noteq> hs ! p" if "i < length hs" "i \<noteq> p" for i
    using d p that by (simp add: nth_eq_iff_index_eq)
  show ?thesis
    unfolding ordered_but_down_def
  proof (intro conjI allI impI)
    fix i assume i: "i < length hs" "0 < i \<and> parent i \<noteq> p"
    then have par: "parent i < length hs" and ni: "\<not> higher_priority (hs ! i) (hs ! parent i) a"
      using o parent_less [of i] by (auto simp: heap_ordered_def)
    show "\<not> higher_priority (hs ! i) (hs ! parent i) (a[var_index (hs ! p) := x])"
    proof (cases "i = p")
      case True
      then show ?thesis
        using higher_priority_lower [OF len x other [OF par]] ni i(2) by simp
    next
      case False
      then show ?thesis
        using ni i by (simp add: higher_priority_update_other [OF other other] par)
    qed
  next
    fix i assume i: "i < length hs" "0 < i \<and> 0 < p \<and> parent i = p"
    then have "i \<noteq> p" "parent p \<noteq> p" "parent p < length hs"
      using parent_less [of i] parent_less [of p] p by auto
    then show "\<not> higher_priority (hs ! i) (hs ! parent p) (a[var_index (hs ! p) := x])"
      using heap_skip_parent [OF o i(1)] i by (simp add: higher_priority_update_other [OF other other])
  qed
qed

lemma heap_ordered_absent:
  assumes "heap_ordered a hs" and "v \<notin> set hs"
  shows "heap_ordered (a[var_index v := x]) hs"
proof -
  have ne: "hs ! i \<noteq> v" if "i < length hs" for i
    using assms(2) that by (metis nth_mem)
  show ?thesis
    unfolding heap_ordered_def
  proof (intro allI impI)
    fix i assume i: "i < length hs" "0 < i"
    then have "parent i < length hs" using parent_less [of i] by simp
    then show "\<not> higher_priority (hs ! i) (hs ! parent i) (a[var_index v := x])"
      using assms(1) i by (simp add: heap_ordered_def higher_priority_update_other [OF ne ne])
  qed
qed

lemma vo_update_inv [wf_intros]:
  assumes i: "vo_inv a h" and v: "var_index v < length (vo_positions h)" "var_index v < length a"
  shows "vo_inv (a[var_index v := x]) (vo_update v (a ! var_index v) (a[var_index v := x]) h)
    \<and> vo_vars (vo_update v (a ! var_index v) (a[var_index v := x]) h) = vo_vars h"
proof -
  let ?a = "a[var_index v := x]" and ?p = "vo_positions h ! var_index v"
  have s: "slots_ok h" and o: "heap_ordered a (vo_heap h)"
    using i by (simp_all add: vo_inv_def)
  show ?thesis
  proof (cases "v \<in> vo_vars h")
    case False
    then have "?p = NO_POSITION" using member_iff_position [OF s v(1)] by simp
    with False s o show ?thesis
      by (simp add: vo_update_def vo_inv_def vo_vars_def heap_ordered_absent)
  next
    case True
    note m = member_position [OF s True]
    have ne: "?p \<noteq> NO_POSITION" using member_iff_position [OF s v(1)] True by simp
    consider (up) "a ! var_index v < x" | (down) "x < a ! var_index v" | (same) "x = a ! var_index v"
      by fastforce
    then show ?thesis
    proof cases
      case up
      then have "ordered_but_up ?a (vo_heap h) ?p"
        using raise_ordered [OF o slots_ok_distinct [OF s] m(1), of x] m v by simp
      moreover have "vo_update v (a ! var_index v) ?a h = sift_up ?p ?a h"
        using up ne v(2) by (simp add: vo_update_def Let_def)
      ultimately show ?thesis
        using sift_up_slots [OF s m(1), of ?a] sift_up_ordered [OF m(1), of ?a]
        by (simp add: vo_inv_def)
    next
      case down
      then have "ordered_but_down ?a (vo_heap h) ?p"
        using lower_ordered [OF o slots_ok_distinct [OF s] m(1), of x] m v by simp
      moreover have "vo_update v (a ! var_index v) ?a h = sift_down ?p ?a h"
        using down ne v(2) by (simp add: vo_update_def Let_def)
      ultimately show ?thesis
        using sift_down_slots [OF s, of ?p ?a] sift_down_ordered [of ?a h ?p]
        by (simp add: vo_inv_def)
    next
      case same
      then have "?a = a" using v(2) by simp
      moreover from this have "vo_update v (a ! var_index v) ?a h = h"
        using same by (simp add: vo_update_def Let_def)
      ultimately show ?thesis using i by simp
    qed
  qed
qed

lemma vo_increase_slots:
  assumes s: "slots_ok h" and v: "var_index v < length (vo_positions h)"
  shows "slots_ok (vo_increase v a h) \<and> vo_vars (vo_increase v a h) = vo_vars h
    \<and> length (vo_positions (vo_increase v a h)) = length (vo_positions h)"
  using sift_up_slots [OF s, of "vo_positions h ! var_index v" a] s v
  by (auto simp: vo_increase_def Let_def slots_ok_def)

lemma vo_increase_inv [wf_intros]:
  assumes i: "vo_inv a h" and v: "var_index v < length (vo_positions h)" "var_index v < length a"
    and x: "a ! var_index v \<le> x"
  shows "vo_inv (a[var_index v := x]) (vo_increase v (a[var_index v := x]) h)
    \<and> vo_vars (vo_increase v (a[var_index v := x]) h) = vo_vars h"
proof -
  let ?a = "a[var_index v := x]" and ?p = "vo_positions h ! var_index v"
  have s: "slots_ok h" and o: "heap_ordered a (vo_heap h)"
    using i by (simp_all add: vo_inv_def)
  show ?thesis
  proof (cases "v \<in> vo_vars h")
    case False
    then have "?p = NO_POSITION" using member_iff_position [OF s v(1)] by simp
    with False s o show ?thesis
      by (simp add: vo_increase_def vo_inv_def vo_vars_def heap_ordered_absent)
  next
    case True
    note m = member_position [OF s True]
    have "?p \<noteq> NO_POSITION" using member_iff_position [OF s v(1)] True by simp
    moreover have "ordered_but_up ?a (vo_heap h) ?p"
      using raise_ordered [OF o slots_ok_distinct [OF s] m(1), of x] m v x by simp
    moreover have "vo_increase v ?a h = sift_up ?p ?a h"
      using calculation(1) by (simp add: vo_increase_def Let_def)
    ultimately show ?thesis
      using sift_up_slots [OF s m(1), of ?a] sift_up_ordered [OF m(1), of ?a]
      by (simp add: vo_inv_def)
  qed
qed

lemma vo_grow_inv [wf_intros]:
  assumes i: "vo_inv a h" and n: "length (vo_positions h) \<le> new" "new \<le> MAX_VARIABLES"
  shows "vo_inv a (vo_grow (length (vo_positions h)) new a h)
    \<and> vo_vars (vo_grow (length (vo_positions h)) new a h)
        = vo_vars h \<union> {v. length (vo_positions h) \<le> var_index v \<and> var_index v < new}
    \<and> length (vo_positions (vo_grow (length (vo_positions h)) new a h)) = new"
proof -
  let ?old = "length (vo_positions h)"
  let ?h0 = "h\<lparr>vo_positions := resize new NO_POSITION (vo_positions h)\<rparr>"
  have i0: "vo_inv a ?h0"
    using i n by (auto simp: vo_inv_def slots_ok_def nth_resize)
  have idx: "var_index (Var (of_nat k)) = k" if "k < new" for k
    using that n(2) by (simp add: var_index_def MAX_VARIABLES_eq unat_of_nat)
  have "?old \<le> m \<Longrightarrow> m \<le> new \<Longrightarrow>
      vo_inv a (fold (\<lambda>k. vo_insert (Var (of_nat k)) a) [?old..<m] ?h0)
      \<and> vo_vars (fold (\<lambda>k. vo_insert (Var (of_nat k)) a) [?old..<m] ?h0)
          = vo_vars h \<union> {v. ?old \<le> var_index v \<and> var_index v < m}
      \<and> length (vo_positions (fold (\<lambda>k. vo_insert (Var (of_nat k)) a) [?old..<m] ?h0)) = new" for m
  proof (induction m)
    case 0
    then show ?case using i0 by (simp add: vo_vars_def)
  next
    case (Suc m)
    show ?case
    proof (cases "?old \<le> m")
      case False
      then have e: "[?old..<Suc m] = []" "{v. ?old \<le> var_index v \<and> var_index v < Suc m} = {}"
        using Suc.prems by auto
      show ?thesis unfolding e using i0 by (simp add: vo_vars_def)
    next
      case True
      let ?h = "fold (\<lambda>k. vo_insert (Var (of_nat k)) a) [?old..<m] ?h0"
      have IH: "vo_inv a ?h" "vo_vars ?h = vo_vars h \<union> {v. ?old \<le> var_index v \<and> var_index v < m}"
        "length (vo_positions ?h) = new"
        using Suc.IH True Suc.prems by auto
      have m: "var_index (Var (of_nat m)) = m" using idx Suc.prems by simp
      have "{v. ?old \<le> var_index v \<and> var_index v < Suc m}
          = insert (Var (of_nat m)) {v. ?old \<le> var_index v \<and> var_index v < m}"
        using True m by (auto simp: less_Suc_eq var_index_eq_iff [symmetric])
      with vo_insert_inv [OF IH(1), of "Var (of_nat m)"] IH m Suc.prems True show ?thesis
        by simp
    qed
  qed
  from this [of new] n show ?thesis by (simp add: vo_grow_def)
qed

lemma vo_grow_slots:
  assumes i: "slots_ok h" and n: "length (vo_positions h) \<le> new" "new \<le> MAX_VARIABLES"
  shows "slots_ok (vo_grow (length (vo_positions h)) new a h)
    \<and> vo_vars (vo_grow (length (vo_positions h)) new a h)
        = vo_vars h \<union> {v. length (vo_positions h) \<le> var_index v \<and> var_index v < new}
    \<and> length (vo_positions (vo_grow (length (vo_positions h)) new a h)) = new"
proof -
  let ?old = "length (vo_positions h)"
  let ?h0 = "h\<lparr>vo_positions := resize new NO_POSITION (vo_positions h)\<rparr>"
  have i0: "slots_ok ?h0"
    using i n by (auto simp: slots_ok_def nth_resize)
  have idx: "var_index (Var (of_nat k)) = k" if "k < new" for k
    using that n(2) by (simp add: var_index_def MAX_VARIABLES_eq unat_of_nat)
  have "?old \<le> m \<Longrightarrow> m \<le> new \<Longrightarrow>
      slots_ok (fold (\<lambda>k. vo_insert (Var (of_nat k)) a) [?old..<m] ?h0)
      \<and> vo_vars (fold (\<lambda>k. vo_insert (Var (of_nat k)) a) [?old..<m] ?h0)
          = vo_vars h \<union> {v. ?old \<le> var_index v \<and> var_index v < m}
      \<and> length (vo_positions (fold (\<lambda>k. vo_insert (Var (of_nat k)) a) [?old..<m] ?h0)) = new" for m
  proof (induction m)
    case 0
    then show ?case using i0 by (simp add: vo_vars_def)
  next
    case (Suc m)
    show ?case
    proof (cases "?old \<le> m")
      case False
      then have e: "[?old..<Suc m] = []" "{v. ?old \<le> var_index v \<and> var_index v < Suc m} = {}"
        using Suc.prems by auto
      show ?thesis unfolding e using i0 by (simp add: vo_vars_def)
    next
      case True
      let ?h = "fold (\<lambda>k. vo_insert (Var (of_nat k)) a) [?old..<m] ?h0"
      have IH: "slots_ok ?h" "vo_vars ?h = vo_vars h \<union> {v. ?old \<le> var_index v \<and> var_index v < m}"
        "length (vo_positions ?h) = new"
        using Suc.IH True Suc.prems by auto
      have m: "var_index (Var (of_nat m)) = m" using idx Suc.prems by simp
      have "{v. ?old \<le> var_index v \<and> var_index v < Suc m}
          = insert (Var (of_nat m)) {v. ?old \<le> var_index v \<and> var_index v < m}"
        using True m by (auto simp: less_Suc_eq var_index_eq_iff [symmetric])
      with vo_insert_slots [OF IH(1), of "Var (of_nat m)" a] IH m Suc.prems True show ?thesis
        by simp
    qed
  qed
  from this [of new] n show ?thesis by (simp add: vo_grow_def)
qed

subsection \<open>The queue as an interface\<close>

text \<open>
  The search asks the heap for the best variable and drops the assigned ones. The loop is
  verified against this contract: \<open>pop\<close> removes a best element of the queue.
\<close>

locale variable_queue =
  fixes pop :: "'q \<Rightarrow> var option \<times> 'q"
    and elems :: "'q \<Rightarrow> var set"
    and queue_ok :: "'q \<Rightarrow> bool"
    and better :: "var \<Rightarrow> var \<Rightarrow> bool"
  assumes elems_finite: "queue_ok q \<Longrightarrow> finite (elems q)"
    and pop_empty: "queue_ok q \<Longrightarrow> pop q = (None, q') \<Longrightarrow> elems q = {} \<and> q' = q"
    and pop_best: "queue_ok q \<Longrightarrow> pop q = (Some v, q') \<Longrightarrow>
      v \<in> elems q \<and> elems q' = elems q - {v} \<and> queue_ok q' \<and> (\<forall>w \<in> elems q. \<not> better w v)"
begin

lemma pick_loop:
  assumes loop: "\<And>q. pick q = (case pop q of (None, q') \<Rightarrow> (None, q')
      | (Some v, q') \<Rightarrow> if free v then (Some v, q') else pick q')"
    and "queue_ok q" and "pick q = (r, q')"
  shows "queue_ok q' \<and>
    (case r of
       None \<Rightarrow> elems q' = {} \<and> (\<forall>v \<in> elems q. \<not> free v)
     | Some v \<Rightarrow> v \<in> elems q \<and> free v \<and> (\<forall>w \<in> elems q. free w \<longrightarrow> \<not> better w v)
         \<and> v \<notin> elems q' \<and> elems q' \<subseteq> elems q \<and> (\<forall>w \<in> elems q - elems q'. w = v \<or> \<not> free w))"
  using assms(2,3)
proof (induction "card (elems q)" arbitrary: q rule: less_induct)
  case less
  obtain p q1 where p: "pop q = (p, q1)" by fastforce
  show ?case
  proof (cases p)
    case None
    then show ?thesis
      using pop_empty [OF less.prems(1)] p less.prems loop [of q] by auto
  next
    case (Some v)
    have b: "v \<in> elems q" "elems q1 = elems q - {v}" "queue_ok q1" "\<forall>w \<in> elems q. \<not> better w v"
      using pop_best [OF less.prems(1)] p Some by auto
    show ?thesis
    proof (cases "free v")
      case True
      then show ?thesis using b p Some less.prems(2) loop [of q] by auto
    next
      case False
      have "card (elems q1) < card (elems q)"
        unfolding b(2) by (rule card_Diff1_less [OF elems_finite [OF less.prems(1)] b(1)])
      moreover have "pick q1 = (r, q')"
        using less.prems(2) loop [of q] p Some False by simp
      ultimately show ?thesis
        using less.hyps [of q1] b False by (auto split: option.splits)
    qed
  qed
qed

end

interpretation branching_heap:
  variable_queue "pop_max a" vo_vars "vo_inv a" "\<lambda>v w. higher_priority v w a"
  for a :: "'a::linorder list"
proof (unfold_locales, goal_cases)
  case (1 q)
  show ?case by (simp add: vo_vars_def)
next
  case (2 q q')
  then show ?case using pop_max_None by blast
next
  case (3 q v q')
  then show ?case using pop_max_Some [of a q v q'] by blast
qed

text \<open>
  After a rescaling the order of the heap may be stale, but its position index never is: the
  loop still finds an unassigned variable whenever the queue holds one.
\<close>

interpretation branching_slots:
  variable_queue "pop_max a" vo_vars slots_ok "\<lambda>v w. False"
  for a :: "'a::linorder list"
proof (unfold_locales, goal_cases)
  case (1 q)
  show ?case by (simp add: vo_vars_def)
next
  case (2 q q')
  then show ?case using pop_max_None by blast
next
  case (3 q v q')
  then show ?case using pop_max_slots [of q a v q'] by blast
qed

lemma pick_unassigned_slots:
  assumes "slots_ok h" and "pick_unassigned asg a h = (r, h')"
  shows "slots_ok h' \<and> length (vo_positions h') = length (vo_positions h) \<and>
    (case r of
       None \<Rightarrow> vo_vars h' = {} \<and> (\<forall>v \<in> vo_vars h. asg ! var_index v \<noteq> 0)
     | Some v \<Rightarrow> v \<in> vo_vars h \<and> asg ! var_index v = 0
         \<and> (\<forall>w \<in> vo_vars h - vo_vars h'. w = v \<or> asg ! var_index w \<noteq> 0))"
proof -
  have "length (vo_positions h') = length (vo_positions h)"
    using assms
  proof (induction asg a h rule: pick_unassigned.induct)
    case (1 asg a h)
    obtain p h1 where p: "pop_max a h = (p, h1)" by fastforce
    show ?case
    proof (cases p)
      case None
      with "1.prems" p show ?thesis
        using pop_max_None [of a h h1] by (simp add: pick_unassigned.simps [of asg a h])
    next
      case (Some v)
      with pop_max_slots [OF "1.prems"(1), of a v h1] "1.IH" [of "Some v" h1 v] "1.prems" p show ?thesis
        by (auto simp: pick_unassigned.simps [of asg a h] split: if_splits)
    qed
  qed
  moreover have "slots_ok h' \<and>
    (case r of
       None \<Rightarrow> vo_vars h' = {} \<and> (\<forall>v \<in> vo_vars h. \<not> asg ! var_index v = 0)
     | Some v \<Rightarrow> v \<in> vo_vars h \<and> asg ! var_index v = 0
         \<and> (\<forall>w \<in> vo_vars h. asg ! var_index w = 0 \<longrightarrow> \<not> False)
         \<and> v \<notin> vo_vars h' \<and> vo_vars h' \<subseteq> vo_vars h
         \<and> (\<forall>w \<in> vo_vars h - vo_vars h'. w = v \<or> \<not> asg ! var_index w = 0))"
    using assms
    by (intro branching_slots.pick_loop [where pick = "pick_unassigned asg a"
        and free = "\<lambda>v. asg ! var_index v = 0"])
      (simp_all add: pick_unassigned.simps [of asg a])
  ultimately show ?thesis by (cases r) auto
qed

lemmas vo_operation_inv = vo_inv_empty vo_insert_inv vo_update_inv vo_increase_inv vo_grow_inv
  pop_max_Some(3)

subsection \<open>Properties\<close>

lemmas heap_evaluation = vo_grow_def vo_insert_def vo_empty_def pop_max_def sift_up.simps
  sift_down.simps best_child_def vo_exchange_def list_swap_def resize_def higher_priority_def
  var_index_def less_var_def NO_POSITION_def Let_def vo_vars_def

text \<open>
  C37: \<open>pop_max\<close> on a heap that satisfies the invariant returns a variable of the queue that no
  other one outranks, removes exactly that variable, and keeps the heap and its position
  index consistent.
\<close>

theorem pop_max_best:
  "vo_inv a h \<Longrightarrow> pop_max a h = (Some v, h') \<Longrightarrow>
   v \<in> vo_vars h \<and> (\<forall>w \<in> vo_vars h. w = v \<or> higher_priority v w a)
   \<and> vo_vars h' = vo_vars h - {v} \<and> vo_inv a h'"
  using pop_max_Some [of a h v h'] higher_priority_total by blast

theorem pop_max_best_witness:
  "Var 1 \<in> vo_vars (vo_grow 0 2 [5, 9 :: int] vo_empty)
   \<and> vo_inv [5, 9 :: int] (snd (pop_max [5, 9 :: int] (vo_grow 0 2 [5, 9 :: int] vo_empty)))"
proof -
  let ?a = "[5, 9 :: int]" and ?h = "vo_grow 0 2 [5, 9 :: int] vo_empty"
  have "vo_inv ?a ?h"
    using vo_grow_inv [OF vo_inv_empty, of 2 ?a] by (simp add: vo_empty_def MAX_VARIABLES_eq)
  moreover have "fst (pop_max ?a ?h) = Some (Var 1)"
    by (simp add: heap_evaluation upt_conv_Cons)
  then have "pop_max ?a ?h = (Some (Var 1), snd (pop_max ?a ?h))"
    by (metis prod.collapse)
  ultimately show ?thesis using pop_max_best [of ?a ?h "Var 1"] by blast
qed

text \<open>
  The default decision loop returns the best unassigned variable of the queue, and drops
  only assigned variables; when it returns none, every queued variable was assigned.
\<close>

theorem pick_unassigned_best:
  assumes "vo_inv a h" and "pick_unassigned asg a h = (r, h')"
  shows "vo_inv a h' \<and>
    (case r of
       None \<Rightarrow> vo_vars h' = {} \<and> (\<forall>v \<in> vo_vars h. asg ! var_index v \<noteq> 0)
     | Some v \<Rightarrow> v \<in> vo_vars h \<and> asg ! var_index v = 0
         \<and> (\<forall>w \<in> vo_vars h. asg ! var_index w = 0 \<longrightarrow> \<not> higher_priority w v a)
         \<and> v \<notin> vo_vars h' \<and> vo_vars h' \<subseteq> vo_vars h
         \<and> (\<forall>w \<in> vo_vars h - vo_vars h'. w = v \<or> \<not> asg ! var_index w = 0))"
  using assms
  by (rule branching_heap.pick_loop [where pick = "pick_unassigned asg a"
        and free = "\<lambda>v. asg ! var_index v = 0", rotated])
    (simp add: pick_unassigned.simps [of asg a])

theorem pick_unassigned_best_witness:
  "\<exists>v. fst (pick_unassigned [1, 0] [5, 9 :: int] (vo_grow 0 2 [5, 9 :: int] vo_empty)) = Some v
     \<and> [1, 0 :: int] ! var_index v = 0"
proof -
  let ?a = "[5, 9 :: int]" and ?h = "vo_grow 0 2 [5, 9 :: int] vo_empty"
  have "vo_inv ?a ?h"
    using vo_grow_inv [OF vo_inv_empty, of 2 ?a] by (simp add: vo_empty_def MAX_VARIABLES_eq)
  moreover have "fst (pick_unassigned [1, 0] ?a ?h) = Some (Var 1)"
    by (simp add: heap_evaluation pick_unassigned.simps upt_conv_Cons)
  then obtain h' where h': "pick_unassigned [1, 0] ?a ?h = (Some (Var 1), h')"
    by (metis prod.collapse)
  ultimately have "[1, 0 :: int] ! var_index (Var 1) = 0"
    using pick_unassigned_best [of ?a ?h "[1, 0]" "Some (Var 1)" h'] by simp
  with h' show ?thesis by simp
qed

text \<open>
  A changed activity is followed by one sift in the right direction: after \<open>update\<close> the
  heap order holds for the new activities and the queued variables are the same.
\<close>

theorem vo_update_restores:
  "vo_inv a h \<Longrightarrow> var_index v < length (vo_positions h) \<Longrightarrow> var_index v < length a \<Longrightarrow>
   vo_inv (a[var_index v := x]) (vo_update v (a ! var_index v) (a[var_index v := x]) h)
   \<and> vo_vars (vo_update v (a ! var_index v) (a[var_index v := x]) h) = vo_vars h"
  using vo_update_inv [of a h v x] by simp

theorem vo_update_restores_witness:
  "vo_inv [5, 9, 1 :: int] (vo_update (Var 2) 7 [5, 9, 1 :: int] (vo_grow 0 3 [5, 9, 7 :: int] vo_empty))"
proof -
  let ?a = "[5, 9, 7 :: int]" and ?h = "vo_grow 0 3 [5, 9, 7 :: int] vo_empty"
  have "vo_inv ?a ?h" "length (vo_positions ?h) = 3"
    using vo_grow_inv [OF vo_inv_empty, of 3 ?a] by (simp_all add: vo_empty_def MAX_VARIABLES_eq)
  moreover have "var_index (Var 2) = 2" by (simp add: var_index_def)
  ultimately show ?thesis using vo_update_restores [of ?a ?h "Var 2" 1] by simp
qed

end
