(* ===== verification/Vmtf_Order.thy ===== *)
theory Vmtf_Order
  imports Types
begin

section \<open>The move-to-front queue (\<open>VmtfOrder\<close> in \<open>src/solver.rs\<close>)\<close>

text \<open>
  A doubly linked list of all variables in an array of links, with a time stamp per variable
  and a search position. The loops of the code follow the links; they carry as fuel the
  number of links, which the invariant shows to be enough because every variable is on the
  list once. The lemmas show that every operation keeps the list and the stamps, and that
  \<open>pick\<close> finds the unassigned variable that was moved to the front last.
\<close>

subsection \<open>Definitions\<close>

definition DISCONNECTED :: nat where "DISCONNECTED = u64_max"

record vmtf_link =
  lk_previous :: nat
  lk_next :: nat
  lk_stamp :: nat

record vmtf_order =
  vm_links :: "vmtf_link list"
  vm_first :: nat
  vm_last :: nat
  vm_search :: nat
  vm_stamp :: nat

definition vmtf_default :: vmtf_order where
  "vmtf_default = \<lparr>vm_links = [], vm_first = DISCONNECTED, vm_last = DISCONNECTED,
     vm_search = DISCONNECTED, vm_stamp = 0\<rparr>"

fun renumber :: "nat \<Rightarrow> nat \<Rightarrow> vmtf_order \<Rightarrow> vmtf_order" where
  "renumber 0 current q = q"
| "renumber (Suc fuel) current q =
     (if current = DISCONNECTED then q
      else renumber fuel (lk_next (vm_links q ! current))
             (q\<lparr>vm_stamp := vm_stamp q + 1,
                vm_links := (vm_links q)[current := (vm_links q ! current)\<lparr>lk_stamp := vm_stamp q + 1\<rparr>]\<rparr>))"

definition advance_stamp :: "vmtf_order \<Rightarrow> vmtf_order" where
  "advance_stamp q =
     (let q1 = (if vm_stamp q = u64_max
                then renumber (length (vm_links q)) (vm_first q) (q\<lparr>vm_stamp := 0\<rparr>)
                else q)
      in q1\<lparr>vm_stamp := vm_stamp q1 + 1\<rparr>)"

definition vmtf_append :: "nat \<Rightarrow> vmtf_order \<Rightarrow> vmtf_order" where
  "vmtf_append index q0 =
     (let q = advance_stamp q0;
          previous = vm_last q;
          links = vm_links q @ [\<lparr>lk_previous = previous, lk_next = DISCONNECTED, lk_stamp = vm_stamp q\<rparr>]
      in (if previous = DISCONNECTED
          then q\<lparr>vm_links := links, vm_first := index\<rparr>
          else q\<lparr>vm_links := links[previous := (links ! previous)\<lparr>lk_next := index\<rparr>]\<rparr>)
         \<lparr>vm_last := index, vm_search := index\<rparr>)"

definition vmtf_grow :: "nat \<Rightarrow> nat \<Rightarrow> vmtf_order \<Rightarrow> vmtf_order" where
  "vmtf_grow old_count new_count q = fold vmtf_append [old_count..<new_count] q"

text \<open>\<open>move_to_front\<close> unlinks the variable and links it again behind the last one.\<close>

definition vmtf_unlink :: "nat \<Rightarrow> int list \<Rightarrow> vmtf_order \<Rightarrow> vmtf_order" where
  "vmtf_unlink index assignments q =
     (let previous = lk_previous (vm_links q ! index);
          next = lk_next (vm_links q ! index);
          q1 = (if vm_search q = index \<and> assignments ! index \<noteq> 0
                then q\<lparr>vm_search := (if previous \<noteq> DISCONNECTED then previous else next)\<rparr>
                else q);
          q2 = (if previous = DISCONNECTED then q1\<lparr>vm_first := next\<rparr>
                else q1\<lparr>vm_links := (vm_links q1)
                       [previous := (vm_links q1 ! previous)\<lparr>lk_next := next\<rparr>]\<rparr>)
      in if next \<noteq> DISCONNECTED
         then q2\<lparr>vm_links := (vm_links q2)
                [next := (vm_links q2 ! next)\<lparr>lk_previous := previous\<rparr>]\<rparr>
         else q2)"

definition vmtf_link_last :: "nat \<Rightarrow> vmtf_order \<Rightarrow> vmtf_order" where
  "vmtf_link_last index q0 =
     (let q = advance_stamp q0;
          links = (vm_links q)[index := \<lparr>lk_previous = vm_last q, lk_next = DISCONNECTED,
                                         lk_stamp = vm_stamp q\<rparr>]
      in q\<lparr>vm_links := links[vm_last q := (links ! vm_last q)\<lparr>lk_next := index\<rparr>],
           vm_last := index\<rparr>)"

definition move_to_front :: "var \<Rightarrow> int list \<Rightarrow> vmtf_order \<Rightarrow> vmtf_order" where
  "move_to_front v assignments q =
     (let index = var_index v
      in if index = vm_last q
         then (if assignments ! index = 0 then q\<lparr>vm_search := index\<rparr> else q)
         else let q' = vmtf_link_last index (vmtf_unlink index assignments q)
              in if assignments ! index = 0 then q'\<lparr>vm_search := index\<rparr> else q')"

text \<open>The stamps of distinct variables differ, so the unstable sort of the code is a stable one.\<close>

definition bump_analyzed :: "var list \<Rightarrow> int list \<Rightarrow> vmtf_order \<Rightarrow> vmtf_order" where
  "bump_analyzed variables assignments q =
     fold (\<lambda>v. move_to_front v assignments)
       (sort_key (\<lambda>v. lk_stamp (vm_links q ! var_index v)) variables) q"

definition vmtf_unassign :: "var \<Rightarrow> vmtf_order \<Rightarrow> vmtf_order" where
  "vmtf_unassign v q =
     (let index = var_index v
      in if vm_search q = DISCONNECTED
            \<or> lk_stamp (vm_links q ! index) > lk_stamp (vm_links q ! vm_search q)
         then q\<lparr>vm_search := index\<rparr> else q)"

fun search_back :: "nat \<Rightarrow> int list \<Rightarrow> vmtf_order \<Rightarrow> vmtf_order" where
  "search_back 0 assignments q = q"
| "search_back (Suc fuel) assignments q =
     (if vm_search q \<noteq> DISCONNECTED \<and> assignments ! vm_search q \<noteq> 0
      then search_back fuel assignments
             (q\<lparr>vm_search := lk_previous (vm_links q ! vm_search q)\<rparr>)
      else q)"

definition reset_search :: "int list \<Rightarrow> vmtf_order \<Rightarrow> vmtf_order" where
  "reset_search assignments q =
     search_back (length (vm_links q)) assignments (q\<lparr>vm_search := vm_last q\<rparr>)"

definition vmtf_pick :: "int list \<Rightarrow> vmtf_order \<Rightarrow> var option \<times> vmtf_order" where
  "vmtf_pick assignments q =
     (let q' = search_back (length (vm_links q)) assignments q
      in if vm_search q' = DISCONNECTED then (None, q')
         else (Some (Var (of_nat (vm_search q'))), q'))"

subsection \<open>The list that the links describe\<close>

fun chain :: "vmtf_link list \<Rightarrow> nat \<Rightarrow> nat list \<Rightarrow> nat \<Rightarrow> bool" where
  "chain links p [] n = True"
| "chain links p (x # xs) n \<longleftrightarrow>
     lk_previous (links ! x) = p \<and> lk_next (links ! x) = (case xs of [] \<Rightarrow> n | y # _ \<Rightarrow> y)
     \<and> chain links x xs n"

abbreviation first_of :: "nat list \<Rightarrow> nat \<Rightarrow> nat" where
  "first_of xs n \<equiv> (case xs of [] \<Rightarrow> n | y # _ \<Rightarrow> y)"

abbreviation last_of :: "nat \<Rightarrow> nat list \<Rightarrow> nat" where
  "last_of p xs \<equiv> (if xs = [] then p else last xs)"

abbreviation stamp_of :: "vmtf_link list \<Rightarrow> nat \<Rightarrow> nat" where
  "stamp_of links x \<equiv> lk_stamp (links ! x)"

definition list_ok :: "nat list \<Rightarrow> vmtf_order \<Rightarrow> bool" where
  "list_ok ord q \<longleftrightarrow>
     distinct ord \<and> set ord \<subseteq> {..<length (vm_links q)} \<and> length (vm_links q) < DISCONNECTED
     \<and> chain (vm_links q) DISCONNECTED ord DISCONNECTED
     \<and> vm_first q = first_of ord DISCONNECTED \<and> vm_last q = last_of DISCONNECTED ord
     \<and> sorted_wrt (<) (map (stamp_of (vm_links q)) ord)
     \<and> (\<forall>x \<in> set ord. stamp_of (vm_links q) x \<le> vm_stamp q) \<and> vm_stamp q \<le> u64_max"

definition vmtf_inv :: "nat list \<Rightarrow> vmtf_order \<Rightarrow> bool" where
  "vmtf_inv ord q \<longleftrightarrow> list_ok ord q \<and> set ord = {..<length (vm_links q)}
     \<and> (vm_search q = DISCONNECTED \<or> vm_search q \<in> set ord)"

lemma distinct_split_eq:
  "distinct (xs @ x # ys) \<Longrightarrow> xs @ x # ys = as @ x # bs \<Longrightarrow> as = xs \<and> bs = ys"
proof -
  assume d: "distinct (xs @ x # ys)" and e: "xs @ x # ys = as @ x # bs"
  have "x \<notin> set xs" "x \<notin> set ys" using d by auto
  with append_Cons_eq_iff [of x xs ys as bs] e show ?thesis by simp
qed

lemma chain_append:
  "chain links p (xs @ ys) n \<longleftrightarrow> chain links p xs (first_of ys n) \<and> chain links (last_of p xs) ys n"
  by (induction xs arbitrary: p) (auto split: list.splits)

lemma chain_cong:
  "(\<And>x. x \<in> set xs \<Longrightarrow> lk_previous (links ! x) = lk_previous (links' ! x)
      \<and> lk_next (links ! x) = lk_next (links' ! x)) \<Longrightarrow>
   chain links p xs n = chain links' p xs n"
  by (induction xs arbitrary: p) auto

lemma chain_set_back:
  assumes "chain links p xs n" "distinct xs" "set xs \<subseteq> {..<length links}" "xs \<noteq> []"
  shows "chain (links[last xs := (links ! last xs)\<lparr>lk_next := m\<rparr>]) p xs m"
  using assms
proof (induction xs arbitrary: p)
  case (Cons x xs)
  show ?case
  proof (cases xs)
    case Nil
    with Cons show ?thesis by simp
  next
    case (Cons y ys)
    have "last xs \<noteq> x" "xs \<noteq> []" using Cons.prems(2) \<open>xs = y # ys\<close> by (metis distinct.simps(2) last_in_set list.discI)+
    then have "(links[last xs := l]) ! x = links ! x" for l by simp
    moreover have "last (x # xs) = last xs" using \<open>xs \<noteq> []\<close> by simp
    ultimately show ?thesis
      using Cons.prems Cons.IH [of x] Cons by (simp del: last.simps)
  qed
qed simp

lemma chain_set_front:
  assumes "chain links p xs n" "distinct xs" "set xs \<subseteq> {..<length links}" "xs \<noteq> []"
  shows "chain (links[hd xs := (links ! hd xs)\<lparr>lk_previous := m\<rparr>]) m xs n"
proof (cases xs)
  case (Cons x ys)
  with assms have "chain (links[x := (links ! x)\<lparr>lk_previous := m\<rparr>]) x ys n = chain links x ys n"
    by (intro chain_cong) (auto simp: nth_list_update)
  with Cons assms show ?thesis by simp
qed (use assms in simp)

lemma chain_update_other:
  "x \<notin> set xs \<Longrightarrow> chain (links[x := l]) p xs n = chain links p xs n"
  by (rule chain_cong) (metis nth_list_update_neq)

lemma chain_append_links:
  "set xs \<subseteq> {..<length links} \<Longrightarrow> chain (links @ l) p xs n = chain links p xs n"
  by (rule chain_cong) (auto simp: nth_append)

lemma renumber_chain:
  "chain (vm_links q) p ord DISCONNECTED \<Longrightarrow> distinct ord \<Longrightarrow> set ord \<subseteq> {..<length (vm_links q)} \<Longrightarrow>
   length (vm_links q) < DISCONNECTED \<Longrightarrow> length ord \<le> fuel \<Longrightarrow>
   (let q' = renumber fuel (first_of ord DISCONNECTED) q
    in length (vm_links q') = length (vm_links q)
       \<and> (\<forall>x. lk_previous (vm_links q' ! x) = lk_previous (vm_links q ! x)
              \<and> lk_next (vm_links q' ! x) = lk_next (vm_links q ! x))
       \<and> (\<forall>x. x \<notin> set ord \<longrightarrow> vm_links q' ! x = vm_links q ! x)
       \<and> map (stamp_of (vm_links q')) ord = [vm_stamp q + 1..<vm_stamp q + 1 + length ord]
       \<and> vm_stamp q' = vm_stamp q + length ord
       \<and> vm_first q' = vm_first q \<and> vm_last q' = vm_last q \<and> vm_search q' = vm_search q)"
proof (induction ord arbitrary: p q fuel)
  case Nil
  then show ?case by (cases fuel) simp_all
next
  case (Cons x xs)
  obtain fuel' where fuel: "fuel = Suc fuel'" using Cons.prems(5) by (cases fuel) auto
  have x: "x < length (vm_links q)" "x \<noteq> DISCONNECTED" using Cons.prems by auto
  let ?q = "q\<lparr>vm_stamp := vm_stamp q + 1,
      vm_links := (vm_links q)[x := (vm_links q ! x)\<lparr>lk_stamp := vm_stamp q + 1\<rparr>]\<rparr>"
  have same: "lk_previous (vm_links ?q ! y) = lk_previous (vm_links q ! y)
      \<and> lk_next (vm_links ?q ! y) = lk_next (vm_links q ! y)" for y
    using x by (cases "y = x") auto
  have c: "chain (vm_links ?q) x xs DISCONNECTED"
    using Cons.prems(1) chain_cong [of xs "vm_links ?q" "vm_links q"] same by simp
  have step: "renumber fuel (first_of (x # xs) DISCONNECTED) q = renumber fuel' (first_of xs DISCONNECTED) ?q"
    using Cons.prems(1) x fuel by simp
  note IH = Cons.IH [OF c, of fuel', unfolded Let_def]
  have "x \<notin> set xs" using Cons.prems by simp
  then have "vm_links (renumber fuel' (first_of xs DISCONNECTED) ?q) ! x = vm_links ?q ! x"
    using IH Cons.prems fuel by simp
  then have st: "stamp_of (vm_links (renumber fuel' (first_of xs DISCONNECTED) ?q)) x = vm_stamp q + 1"
    using x by simp
  show ?case
    unfolding Let_def step
    using IH Cons.prems fuel st same by (auto simp: upt_conv_Cons nth_list_update)
qed

lemma advance_stamp_ok:
  assumes "list_ok ord q"
  shows "list_ok ord (advance_stamp q)"
    and "\<forall>x \<in> set ord. stamp_of (vm_links (advance_stamp q)) x < vm_stamp (advance_stamp q)"
    and "vm_search (advance_stamp q) = vm_search q"
    and "length (vm_links (advance_stamp q)) = length (vm_links q)"
    and "\<forall>x. lk_previous (vm_links (advance_stamp q) ! x) = lk_previous (vm_links q ! x)
      \<and> lk_next (vm_links (advance_stamp q) ! x) = lk_next (vm_links q ! x)"
proof -
  have len: "length ord \<le> length (vm_links q)"
    using assms distinct_card [of ord] card_mono [of "{..<length (vm_links q)}" "set ord"]
    by (simp add: list_ok_def)
  let ?q0 = "q\<lparr>vm_stamp := 0\<rparr>"
  let ?r = "renumber (length (vm_links q)) (vm_first q) ?q0"
  have r: "length (vm_links ?r) = length (vm_links q)"
    "\<forall>x. lk_previous (vm_links ?r ! x) = lk_previous (vm_links q ! x)
              \<and> lk_next (vm_links ?r ! x) = lk_next (vm_links q ! x)"
    "map (stamp_of (vm_links ?r)) ord = [1..<1 + length ord]"
    "vm_stamp ?r = length ord"
    "vm_first ?r = vm_first q" "vm_last ?r = vm_last q" "vm_search ?r = vm_search q"
    using renumber_chain [of ?q0 DISCONNECTED ord "length (vm_links q)"] assms len
    by (auto simp: list_ok_def Let_def)
  have s: "sorted_wrt (<) (map (stamp_of (vm_links ?r)) ord)"
    unfolding r(3) by (rule sorted_wrt_upt)
  have b: "stamp_of (vm_links ?r) x \<le> length ord" if "x \<in> set ord" for x
  proof -
    have "stamp_of (vm_links ?r) x \<in> set (map (stamp_of (vm_links ?r)) ord)" using that by simp
    then show ?thesis unfolding r(3) by auto
  qed
  have c: "chain (vm_links ?r) DISCONNECTED ord DISCONNECTED"
    using assms r(2) chain_cong [of ord "vm_links ?r" "vm_links q"] by (simp add: list_ok_def)
  have n: "length ord < u64_max" using assms len by (simp add: list_ok_def DISCONNECTED_def)
  have k: "length (vm_links (advance_stamp q)) = length (vm_links q)
      \<and> vm_search (advance_stamp q) = vm_search q
      \<and> (\<forall>x. lk_previous (vm_links (advance_stamp q) ! x) = lk_previous (vm_links q ! x)
      \<and> lk_next (vm_links (advance_stamp q) ! x) = lk_next (vm_links q ! x))"
    using r(1,2,7) unfolding advance_stamp_def Let_def by simp
  have main: "list_ok ord (advance_stamp q)
      \<and> (\<forall>x \<in> set ord. stamp_of (vm_links (advance_stamp q)) x < vm_stamp (advance_stamp q))"
  proof (cases "vm_stamp q = u64_max")
    case True
    then have "advance_stamp q = ?r\<lparr>vm_stamp := length ord + 1\<rparr>"
      unfolding advance_stamp_def Let_def using r(4) by simp
    then show ?thesis
      using assms s b c r(1,5,6,7) n by (auto simp: list_ok_def less_Suc_eq_le le_SucI)
  next
    case False
    then have "advance_stamp q = q\<lparr>vm_stamp := vm_stamp q + 1\<rparr>"
      unfolding advance_stamp_def Let_def by simp
    then show ?thesis
      using assms False by (auto simp: list_ok_def less_Suc_eq_le le_SucI)
  qed
  from main show "list_ok ord (advance_stamp q)"
    and "\<forall>x \<in> set ord. stamp_of (vm_links (advance_stamp q)) x < vm_stamp (advance_stamp q)"
    by simp_all
  from k show "vm_search (advance_stamp q) = vm_search q"
    and "length (vm_links (advance_stamp q)) = length (vm_links q)"
    and "\<forall>x. lk_previous (vm_links (advance_stamp q) ! x) = lk_previous (vm_links q ! x)
      \<and> lk_next (vm_links (advance_stamp q) ! x) = lk_next (vm_links q ! x)"
    by simp_all
qed

lemma advance_stamp_inv:
  assumes "vmtf_inv ord q"
  shows "vmtf_inv ord (advance_stamp q)"
  using assms advance_stamp_ok(1,3,4) [of ord q] unfolding vmtf_inv_def by metis

lemma list_ok_search [simp]: "list_ok ord (q\<lparr>vm_search := z\<rparr>) = list_ok ord q"
  by (simp add: list_ok_def)

lemma vmtf_inv_ok: "vmtf_inv ord q \<Longrightarrow> list_ok ord q"
  by (simp add: vmtf_inv_def)

lemmas vmtf_inv_defs = vmtf_inv_def list_ok_def

definition search_ok :: "int list \<Rightarrow> nat list \<Rightarrow> vmtf_order \<Rightarrow> bool" where
  "search_ok assignments ord q \<longleftrightarrow>
     (if vm_search q = DISCONNECTED then \<forall>x \<in> set ord. assignments ! x \<noteq> 0
      else \<exists>xs ys. ord = xs @ vm_search q # ys \<and> (\<forall>y \<in> set ys. assignments ! y \<noteq> 0))"

lemma vmtf_inv_defsault: "vmtf_inv [] vmtf_default"
  by (simp add: vmtf_inv_defs vmtf_default_def DISCONNECTED_def)

lemma vmtf_inv_default: "vmtf_inv [] vmtf_default"
  by (simp add: vmtf_inv_defs vmtf_default_def DISCONNECTED_def)

lemma list_ok_not_disconnected: "list_ok ord q \<Longrightarrow> x \<in> set ord \<Longrightarrow> x \<noteq> DISCONNECTED"
  by (auto simp: list_ok_def)

lemmas vmtf_inv_not_disconnected = list_ok_not_disconnected [OF vmtf_inv_ok]

lemma vmtf_append_inv:
  assumes i: "vmtf_inv ord q" and n: "Suc (length ord) < DISCONNECTED"
  shows "vmtf_inv (ord @ [length ord]) (vmtf_append (length ord) q)"
    and "vm_search (vmtf_append (length ord) q) = length ord"
    and "length (vm_links (vmtf_append (length ord) q)) = Suc (length (vm_links q))"
proof -
  let ?q = "advance_stamp q"
  note a = advance_stamp_inv [OF i] advance_stamp_ok(2-5) [OF vmtf_inv_ok [OF i]]
  have len: "length (vm_links ?q) = length ord"
    using a(1) distinct_card [of ord] by (simp add: vmtf_inv_defs)
  let ?l = "\<lparr>lk_previous = vm_last ?q, lk_next = DISCONNECTED, lk_stamp = vm_stamp ?q\<rparr>"
  let ?L = "vm_links ?q @ [?l]"
  show "vm_search (vmtf_append (length ord) q) = length ord"
    by (simp add: vmtf_append_def Let_def)
  show "length (vm_links (vmtf_append (length ord) q)) = Suc (length (vm_links q))"
    using a(4) by (simp add: vmtf_append_def Let_def)
  show "vmtf_inv (ord @ [length ord]) (vmtf_append (length ord) q)"
  proof (cases "ord = []")
    case True
    then show ?thesis
      using a(1) len n by (simp add: vmtf_append_def vmtf_inv_defs Let_def lessThan_Suc)
  next
    case False
    have last: "last ord < length ord" "last ord \<noteq> DISCONNECTED" "vm_last ?q = last ord"
      using a(1) False vmtf_inv_not_disconnected [OF a(1), of "last ord"] last_in_set [OF False] len
      by (auto simp: vmtf_inv_defs)
    let ?L' = "?L[last ord := (?L ! last ord)\<lparr>lk_next := length ord\<rparr>]"
    have q': "vmtf_append (length ord) q
        = ?q\<lparr>vm_links := ?L', vm_last := length ord, vm_search := length ord\<rparr>"
      using last by (simp add: vmtf_append_def Let_def)
    have set: "set ord = {..<length ord}" using a(1) len by (simp add: vmtf_inv_defs)
    have "chain ?L DISCONNECTED ord DISCONNECTED"
      using a(1) set len by (subst chain_append_links) (auto simp: vmtf_inv_defs)
    then have c: "chain ?L' DISCONNECTED ord (length ord)"
      using a(1) set len False by (intro chain_set_back) (auto simp: vmtf_inv_defs)
    have st: "stamp_of ?L' x = stamp_of (vm_links ?q) x" if "x \<in> set ord" for x
      using that set len last by (cases "x = last ord") (auto simp: nth_append)
    have new: "?L' ! length ord = ?l"
      using last len by (simp add: nth_append)
    have m: "map (stamp_of ?L') ord = map (stamp_of (vm_links ?q)) ord"
      using st by simp
    have "sorted_wrt (<) (map (stamp_of ?L') ord)"
      unfolding m using a(1) by (simp add: vmtf_inv_defs)
    then have sorted: "sorted_wrt (<) (map (stamp_of ?L') (ord @ [length ord]))"
      using a(2) new st by (simp add: sorted_wrt_append)
    have "chain ?L' DISCONNECTED (ord @ [length ord]) DISCONNECTED"
      using c new last False by (simp add: chain_append)
    then show ?thesis
      unfolding q' using a(1,2) sorted st new False n set len
      by (auto simp: vmtf_inv_defs lessThan_Suc less_imp_le split: list.split)
  qed
qed

lemma vmtf_grow_inv:
  assumes "vmtf_inv [0..<length (vm_links q)] q" "length (vm_links q) \<le> new" "new < DISCONNECTED"
  shows "vmtf_inv [0..<new] (vmtf_grow (length (vm_links q)) new q)"
  using assms(2,3)
proof (induction new)
  case 0
  with assms(1) show ?case by (simp add: vmtf_grow_def)
next
  case (Suc m)
  show ?case
  proof (cases "length (vm_links q) \<le> m")
    case True
    then have "vmtf_inv [0..<m] (vmtf_grow (length (vm_links q)) m q)"
      using Suc by simp
    from vmtf_append_inv(1) [OF this] Suc.prems True show ?thesis
      by (simp add: vmtf_grow_def)
  next
    case False
    then have "length (vm_links q) = Suc m" using Suc.prems by simp
    with assms(1) show ?thesis by (simp add: vmtf_grow_def)
  qed
qed

lemma vmtf_inv_split:
  assumes i: "vmtf_inv (xs @ x # ys) q"
  shows "lk_previous (vm_links q ! x) = last_of DISCONNECTED xs"
    and "lk_next (vm_links q ! x) = first_of ys DISCONNECTED"
    and "x < length (vm_links q)"
proof -
  have c: "chain (vm_links q) DISCONNECTED (xs @ x # ys) DISCONNECTED"
    using i unfolding vmtf_inv_def list_ok_def by blast
  from c show "lk_previous (vm_links q ! x) = last_of DISCONNECTED xs"
    unfolding chain_append by (simp only: chain.simps)
  from c show "lk_next (vm_links q ! x) = first_of ys DISCONNECTED"
    unfolding chain_append by (simp only: chain.simps)
  have "set (xs @ x # ys) = {..<length (vm_links q)}"
    using i unfolding vmtf_inv_def list_ok_def by blast
  moreover have "x \<in> set (xs @ x # ys)" by simp
  ultimately show "x < length (vm_links q)" by blast
qed

definition bridged :: "nat list \<Rightarrow> nat list \<Rightarrow> vmtf_link list \<Rightarrow> vmtf_link list" where
  "bridged xs ys L =
     (let L1 = (if xs = [] then L else L[last xs := (L ! last xs)\<lparr>lk_next := first_of ys DISCONNECTED\<rparr>])
      in if ys = [] then L1 else L1[hd ys := (L1 ! hd ys)\<lparr>lk_previous := last_of DISCONNECTED xs\<rparr>])"

lemma length_bridged [simp]: "length (bridged xs ys L) = length L"
  by (simp add: bridged_def Let_def)

lemma stamp_bridged [simp]:
  "lk_stamp (bridged xs ys L ! z) = lk_stamp (L ! z)"
proof -
  have u: "lk_stamp (L[k := (L ! k)\<lparr>lk_next := m\<rparr>] ! z) = lk_stamp (L ! z)" for L :: "vmtf_link list" and k m
    by (cases "k < length L"; cases "k = z") (auto simp: list_update_beyond not_less)
  have v: "lk_stamp (L[k := (L ! k)\<lparr>lk_previous := m\<rparr>] ! z) = lk_stamp (L ! z)" for L :: "vmtf_link list" and k m
    by (cases "k < length L"; cases "k = z") (auto simp: list_update_beyond not_less)
  show ?thesis by (simp add: bridged_def Let_def u v)
qed

lemma chain_bridged:
  assumes c: "chain L DISCONNECTED (xs @ x # ys) DISCONNECTED"
    and d: "distinct (xs @ x # ys)" "set (xs @ x # ys) \<subseteq> {..<length L}"
  shows "chain (bridged xs ys L) DISCONNECTED (xs @ ys) DISCONNECTED"
proof -
  let ?L1 = "if xs = [] then L else L[last xs := (L ! last xs)\<lparr>lk_next := first_of ys DISCONNECTED\<rparr>]"
  have cx: "chain L DISCONNECTED xs x" and cy: "chain L x ys DISCONNECTED"
    using c by (simp_all add: chain_append)
  have "last xs \<notin> set ys" if "xs \<noteq> []"
    using d(1) last_in_set [OF that] by auto
  then have c1: "chain ?L1 DISCONNECTED xs (first_of ys DISCONNECTED)" "chain ?L1 x ys DISCONNECTED"
    using chain_set_back [OF cx, of "first_of ys DISCONNECTED"] d cx cy
    by (auto simp: chain_update_other)
  show ?thesis
  proof (cases "ys = []")
    case True
    with c1 show ?thesis by (cases "xs = []") (auto simp: bridged_def)
  next
    case False
    let ?p = "last_of DISCONNECTED xs"
    let ?L2 = "?L1[hd ys := (?L1 ! hd ys)\<lparr>lk_previous := ?p\<rparr>]"
    have "chain ?L2 ?p ys DISCONNECTED"
      using d False by (intro chain_set_front [OF c1(2)]) auto
    moreover have "chain ?L2 DISCONNECTED xs (first_of ys DISCONNECTED)"
      using c1(1) hd_in_set [OF False] d(1) by (subst chain_update_other) auto
    ultimately have "chain ?L2 DISCONNECTED (xs @ ys) DISCONNECTED"
      by (simp add: chain_append)
    with False show ?thesis by (simp add: bridged_def Let_def)
  qed
qed

lemma move_to_front_last:
  assumes i: "vmtf_inv (xs @ [x]) q" and x: "x = var_index v"
    and ok: "search_ok assignments (xs @ [x]) q"
  shows "vmtf_inv (xs @ [x]) (move_to_front v assignments q)
    \<and> search_ok assignments (xs @ [x]) (move_to_front v assignments q)"
proof -
  have l: "vm_last q = x" using i by (simp add: vmtf_inv_defs)
  have nd: "x \<noteq> DISCONNECTED" using vmtf_inv_not_disconnected [OF i] by simp
  have r: "move_to_front v assignments q = (if assignments ! x = 0 then q\<lparr>vm_search := x\<rparr> else q)"
    using l x by (simp add: move_to_front_def)
  have xs: "x \<in> set (xs @ [x])" by simp
  have "search_ok assignments (xs @ [x]) (q\<lparr>vm_search := x\<rparr>)"
    using nd by (simp add: search_ok_def) (rule exI [of _ xs], rule exI [of _ "[]"], simp)
  moreover have "vmtf_inv (xs @ [x]) (q\<lparr>vm_search := x\<rparr>)"
    using i xs unfolding vmtf_inv_def by auto
  ultimately show ?thesis
    using i ok by (simp add: r)
qed

lemma set_search_last:
  fixes q :: vmtf_order
  shows "vm_search q = s \<Longrightarrow>
    (if c then q\<lparr>vm_links := L, vm_last := z\<rparr>\<lparr>vm_search := z\<rparr> else q\<lparr>vm_links := L, vm_last := z\<rparr>)
    = q\<lparr>vm_links := L, vm_last := z, vm_search := (if c then z else s)\<rparr>"
  by (cases q) auto

lemma move_to_front_middle:
  assumes i: "vmtf_inv (xs @ x # ys) q" and x: "x = var_index v" and ys: "ys \<noteq> []"
  shows "vmtf_inv (xs @ ys @ [x]) (move_to_front v assignments q)
    \<and> vm_search (move_to_front v assignments q) =
        (if assignments ! x = 0 then x
         else if vm_search q = x then (if xs = [] then hd ys else last xs) else vm_search q)"
proof -
  note p = vmtf_inv_split [OF i]
  let ?ord = "xs @ x # ys"
  let ?search = "if vm_search q = x \<and> assignments ! x \<noteq> 0
      then (if xs = [] then hd ys else last xs) else vm_search q"
  have set: "set ?ord = {..<length (vm_links q)}" and d: "distinct ?ord"
    and c: "chain (vm_links q) DISCONNECTED ?ord DISCONNECTED"
    and last: "vm_last q = last ys" and first: "vm_first q = first_of ?ord DISCONNECTED"
    and stamps: "\<forall>z \<in> set ?ord. stamp_of (vm_links q) z \<le> vm_stamp q"
  proof -
    have lo: "list_ok ?ord q" and st: "set ?ord = {..<length (vm_links q)}"
      using i unfolding vmtf_inv_def by blast+
    show "set ?ord = {..<length (vm_links q)}" by (rule st)
    show "distinct ?ord" using lo unfolding list_ok_def by blast
    show "chain (vm_links q) DISCONNECTED ?ord DISCONNECTED" "vm_first q = first_of ?ord DISCONNECTED"
      "\<forall>z \<in> set ?ord. stamp_of (vm_links q) z \<le> vm_stamp q"
      using lo unfolding list_ok_def by blast+
    show "vm_last q = last ys" using lo ys by (simp add: list_ok_def)
  qed
  have nd: "z \<noteq> DISCONNECTED" if "z \<in> set ?ord" for z
    using vmtf_inv_not_disconnected [OF i that] .
  have lx: "last xs \<noteq> DISCONNECTED" if "xs \<noteq> []" using nd last_in_set [OF that] by simp
  have hy: "hd ys \<noteq> DISCONNECTED" using nd hd_in_set [OF ys] by simp
  let ?q3 = "q\<lparr>vm_search := ?search, vm_first := first_of (xs @ ys) DISCONNECTED,
      vm_links := bridged xs ys (vm_links q)\<rparr>"
  have "list_ok (xs @ ys) ?q3"
  proof -
    have "chain (bridged xs ys (vm_links q)) DISCONNECTED (xs @ ys) DISCONNECTED"
      using d set by (intro chain_bridged [OF c]) auto
    moreover have "sorted_wrt (<) (map (stamp_of (bridged xs ys (vm_links q))) (xs @ ys))"
      using i by (simp add: vmtf_inv_defs sorted_wrt_append)
    moreover have "vm_last q = last_of DISCONNECTED (xs @ ys)" using last ys by simp
    moreover have "distinct (xs @ ys)" "set (xs @ ys) \<subseteq> {..<length (vm_links q)}"
      using d set by auto
    moreover have "\<forall>z \<in> set (xs @ ys). stamp_of (vm_links q) z \<le> vm_stamp q" "vm_stamp q \<le> u64_max"
      "length (vm_links q) < DISCONNECTED"
      using i by (auto simp: vmtf_inv_defs)
    ultimately show ?thesis
      unfolding list_ok_def by simp
  qed
  note a = advance_stamp_ok [OF this]
  let ?q4 = "advance_stamp ?q3"
  have q4: "vm_last ?q4 = last ys" "last ys \<noteq> x" "last ys < length (vm_links ?q4)" "x < length (vm_links ?q4)"
    using a(1,4) d ys last_in_set [OF ys] set by (auto simp: list_ok_def)
  let ?l = "\<lparr>lk_previous = last ys, lk_next = DISCONNECTED, lk_stamp = vm_stamp ?q4\<rparr>"
  let ?L5 = "(vm_links ?q4)[x := ?l]"
  let ?L6 = "?L5[last ys := (?L5 ! last ys)\<lparr>lk_next := x\<rparr>]"
  have r: "move_to_front v assignments q = ?q4\<lparr>vm_links := ?L6, vm_last := x,
      vm_search := (if assignments ! x = 0 then x else ?search)\<rparr>"
  proof -
    have n: "x \<noteq> vm_last q" using last d ys last_in_set [OF ys] by auto
    have fy: "first_of ys DISCONNECTED = hd ys" using ys by (cases ys) simp_all
    have u: "vmtf_unlink x assignments q = ?q3"
    proof (cases xs)
      case Nil
      then show ?thesis
        using hy ys fy first by (simp add: vmtf_unlink_def p bridged_def Let_def)
    next
      case (Cons z zs)
      then show ?thesis
        using hy ys fy first lx by (simp add: vmtf_unlink_def p bridged_def Let_def del: last.simps)
    qed
    have a3: "vm_search ?q4 = ?search" using a(3) by simp
    show ?thesis
      unfolding move_to_front_def Let_def x [symmetric] u vmtf_link_last_def q4(1) if_not_P [OF n]
      by (rule set_search_last [OF a3])
  qed
  have c4: "chain (vm_links ?q4) DISCONNECTED (xs @ ys) DISCONNECTED" "distinct (xs @ ys)"
    "set (xs @ ys) \<subseteq> {..<length (vm_links ?q4)}"
    using a(1) by (simp_all add: list_ok_def)
  have "chain ?L5 DISCONNECTED (xs @ ys) DISCONNECTED"
    using c4(1) d by (subst chain_update_other) auto
  from chain_set_back [OF this c4(2), of x]
  have c6: "chain ?L6 DISCONNECTED (xs @ ys) x"
    using c4(3) ys by simp
  have l6: "?L6 ! x = ?l" using q4 by simp
  have cf: "chain ?L6 DISCONNECTED (xs @ ys @ [x]) DISCONNECTED"
    using c6 l6 ys chain_append [of ?L6 DISCONNECTED "xs @ ys" "[x]" DISCONNECTED] by simp
  have st: "stamp_of ?L6 z = stamp_of (vm_links ?q4) z" if "z \<in> set (xs @ ys)" for z
    using that d q4 by (cases "z = last ys") (auto simp: nth_list_update)
  have m: "map (stamp_of ?L6) (xs @ ys) = map (stamp_of (vm_links ?q4)) (xs @ ys)"
    using st by simp
  have "sorted_wrt (<) (map (stamp_of ?L6) (xs @ ys))"
    unfolding m using a(1) by (simp add: list_ok_def)
  then have sorted: "sorted_wrt (<) (map (stamp_of ?L6) (xs @ ys @ [x]))"
    using a(2) st l6 by (auto simp: sorted_wrt_append)
  have sl: "\<forall>z \<in> set (xs @ ys @ [x]). stamp_of ?L6 z \<le> vm_stamp ?q4"
    using a(2) st l6 by (auto intro: less_imp_le)
  have "list_ok (xs @ ys @ [x]) (move_to_front v assignments q)"
  proof -
    have f: "vm_first ?q4 = first_of (xs @ ys @ [x]) DISCONNECTED" "vm_stamp ?q4 \<le> u64_max"
      "length (vm_links ?q4) < DISCONNECTED"
    proof -
      have "first_of (xs @ ys @ [x]) DISCONNECTED = first_of (xs @ ys) DISCONNECTED"
        using ys by (cases xs; cases ys) simp_all
      moreover have "vm_first ?q4 = first_of (xs @ ys) DISCONNECTED"
        using a(1) unfolding list_ok_def by blast
      ultimately show "vm_first ?q4 = first_of (xs @ ys @ [x]) DISCONNECTED" by (simp only:)
      show "vm_stamp ?q4 \<le> u64_max" "length (vm_links ?q4) < DISCONNECTED"
        using a(1) unfolding list_ok_def by blast+
    qed
    have "distinct (xs @ ys @ [x])" "set (xs @ ys @ [x]) \<subseteq> {..<length ?L6}"
      using d c4 q4(4) by auto
    then show ?thesis
      unfolding r list_ok_def using cf sorted sl f by (simp only: vmtf_order.simps length_list_update) simp
  qed
  moreover have e1: "vm_search (move_to_front v assignments q) = (if assignments ! x = 0 then x else ?search)"
    unfolding r by simp
  moreover have "?search = DISCONNECTED \<or> ?search \<in> set (xs @ ys @ [x])"
    using i ys last_in_set [of xs] by (auto simp: vmtf_inv_defs)
  then have "vm_search (move_to_front v assignments q) = DISCONNECTED
      \<or> vm_search (move_to_front v assignments q) \<in> set (xs @ ys @ [x])"
    unfolding e1 by (cases "assignments ! x = 0") simp_all
  moreover have "length (vm_links (move_to_front v assignments q)) = length (vm_links q)"
    unfolding r using a(4) by simp
  moreover have "set (xs @ ys @ [x]) = {..<length (vm_links q)}"
    using set by auto
  ultimately have "vmtf_inv (xs @ ys @ [x]) (move_to_front v assignments q)"
    unfolding vmtf_inv_def by metis
  moreover have "vm_search (move_to_front v assignments q) =
        (if assignments ! x = 0 then x
         else if vm_search q = x then (if xs = [] then hd ys else last xs) else vm_search q)"
    unfolding e1 by (cases "assignments ! x = 0"; cases "vm_search q = x") simp_all
  ultimately show ?thesis by blast
qed

lemma move_to_front_inv:
  assumes i: "vmtf_inv (xs @ x # ys) q" and x: "x = var_index v"
    and ok: "search_ok assignments (xs @ x # ys) q"
  shows "vmtf_inv (xs @ ys @ [x]) (move_to_front v assignments q)
    \<and> search_ok assignments (xs @ ys @ [x]) (move_to_front v assignments q)"
proof (cases "ys = []")
  case True
  with move_to_front_last [of xs x q v] i x ok show ?thesis by simp
next
  case False
  note m = move_to_front_middle [OF i x False]
  let ?ord = "xs @ x # ys" and ?q = "move_to_front v assignments q"
  have nd: "z \<noteq> DISCONNECTED" if "z \<in> set ?ord" for z
    using vmtf_inv_not_disconnected [OF i that] .
  have d: "distinct ?ord" using i unfolding vmtf_inv_def list_ok_def by blast
  have "search_ok assignments (xs @ ys @ [x]) ?q"
  proof (cases "assignments ! x = 0")
    case True
    then show ?thesis
      using m nd by (simp add: search_ok_def) (rule exI [of _ "xs @ ys"], rule exI [of _ "[]"], simp)
  next
    case a: False
    show ?thesis
    proof (cases "vm_search q = x")
      case True
      then obtain as bs where s: "?ord = as @ x # bs" "\<forall>y \<in> set bs. assignments ! y \<noteq> 0"
        using ok nd by (auto simp: search_ok_def)
      then have "as = xs \<and> bs = ys" using distinct_split_eq [OF d] by blast
      then have ys: "\<forall>y \<in> set ys. assignments ! y \<noteq> 0" using s by simp
      show ?thesis
      proof (cases "xs = []")
        case xs: True
        obtain y zs where yz: "ys = y # zs" using False by (cases ys) auto
        have "[] @ ys @ [x] = [] @ y # (zs @ [x]) \<and> (\<forall>y \<in> set (zs @ [x]). assignments ! y \<noteq> 0)"
          using ys a yz by simp
        then show ?thesis
          using m a True xs yz nd [of y] unfolding search_ok_def by (simp, blast)
      next
        case xs: False
        have "xs @ ys @ [x] = butlast xs @ last xs # (ys @ [x])
            \<and> (\<forall>y \<in> set (ys @ [x]). assignments ! y \<noteq> 0)"
          using ys a xs by (simp add: append_eq_append_conv2)
        then show ?thesis
          using m a True xs nd [of "last xs"] unfolding search_ok_def by (simp, blast)
      qed
    next
      case nx: False
      show ?thesis
      proof (cases "vm_search q = DISCONNECTED")
        case True
        with m a nx ok show ?thesis by (auto simp: search_ok_def)
      next
        case sd: False
        let ?s = "vm_search q"
        obtain as bs where s: "?ord = as @ ?s # bs" "\<forall>y \<in> set bs. assignments ! y \<noteq> 0"
          using ok sd by (auto simp: search_ok_def)
        have "?s \<in> set xs \<or> ?s \<in> set ys"
          using arg_cong [OF s(1), of set] nx by auto
        then obtain cs ds where "xs @ ys = cs @ ?s # ds" "set ds \<subseteq> set bs"
        proof
          assume "?s \<in> set xs"
          then obtain cs es where "xs = cs @ ?s # es" by (meson split_list)
          moreover from this s(1) d have "bs = es @ x # ys"
            using distinct_split_eq [of cs ?s "es @ x # ys" as bs] by simp
          ultimately show thesis by (intro that [of cs "es @ ys"]) auto
        next
          assume "?s \<in> set ys"
          then obtain cs es where "ys = cs @ ?s # es" by (meson split_list)
          moreover from this s(1) d have "bs = es"
            using distinct_split_eq [of "xs @ x # cs" ?s es as bs] by simp
          ultimately show thesis by (intro that [of "xs @ cs" es]) auto
        qed
        then have "xs @ ys @ [x] = cs @ ?s # (ds @ [x]) \<and> (\<forall>y \<in> set (ds @ [x]). assignments ! y \<noteq> 0)"
          using s(2) a by auto
        then show ?thesis
          using m a nx sd unfolding search_ok_def by (simp, blast)
      qed
    qed
  qed
  with m show ?thesis by simp
qed

lemma stamp_less_iff:
  assumes "vmtf_inv (xs @ x # ys) q" and "y \<in> set (xs @ x # ys)"
  shows "lk_stamp (vm_links q ! x) < lk_stamp (vm_links q ! y) \<longleftrightarrow> y \<in> set ys"
proof -
  have s: "sorted_wrt (<) (map (stamp_of (vm_links q)) (xs @ x # ys))"
    using assms(1) unfolding vmtf_inv_def list_ok_def by blast
  then have "\<forall>z \<in> set xs. stamp_of (vm_links q) z < stamp_of (vm_links q) x"
    "\<forall>z \<in> set ys. stamp_of (vm_links q) x < stamp_of (vm_links q) z"
    by (simp_all add: sorted_wrt_append)
  with assms(2) show ?thesis by (auto dest: less_asym)
qed

lemma vmtf_unassign_ok:
  assumes i: "vmtf_inv ord q" and ok: "search_ok assignments ord q" and v: "var_index v \<in> set ord"
  shows "vmtf_inv ord (vmtf_unassign v q)"
    and "search_ok (assignments[var_index v := 0]) ord (vmtf_unassign v q)"
proof -
  let ?x = "var_index v" and ?s = "vm_search q"
  have nd: "?x \<noteq> DISCONNECTED" using vmtf_inv_not_disconnected [OF i v] .
  have "vmtf_inv ord (q\<lparr>vm_search := ?x\<rparr>)"
    using i v by (simp add: vmtf_inv_def)
  with i show "vmtf_inv ord (vmtf_unassign v q)"
    by (simp add: vmtf_unassign_def Let_def)
  obtain as bs where x: "ord = as @ ?x # bs" using v by (meson split_list)
  have d: "distinct ord" using i unfolding vmtf_inv_def list_ok_def by blast
  have keep: "assignments[?x := 0] ! y = assignments ! y" if "y \<noteq> ?x" for y
    using that by simp
  show "search_ok (assignments[var_index v := 0]) ord (vmtf_unassign v q)"
  proof (cases "?s = DISCONNECTED")
    case True
    then have "\<forall>y \<in> set bs. assignments[?x := 0] ! y \<noteq> 0"
      using ok x d keep by (metis Un_iff append_Cons distinct.simps(2) distinct_append list.set_intros(2) search_ok_def set_append)
    with True x nd show ?thesis
      unfolding search_ok_def vmtf_unassign_def Let_def by (simp, blast)
  next
    case False
    then obtain xs ys where s: "ord = xs @ ?s # ys" "\<forall>y \<in> set ys. assignments ! y \<noteq> 0"
      using ok by (auto simp: search_ok_def)
    have st: "lk_stamp (vm_links q ! ?s) < lk_stamp (vm_links q ! ?x) \<longleftrightarrow> ?x \<in> set ys"
      using stamp_less_iff [of xs ?s ys q ?x] i v s(1) by simp
    show ?thesis
    proof (cases "?x \<in> set ys")
      case True
      then obtain cs es where y: "ys = cs @ ?x # es" by (meson split_list)
      then have "bs = es"
        using x s(1) d distinct_split_eq [of "xs @ ?s # cs" ?x es as bs] by simp
      then have "\<forall>y \<in> set bs. assignments[?x := 0] ! y \<noteq> 0"
        using s(2) y d x keep by (metis Un_iff append_Cons distinct.simps(2) distinct_append list.set_intros(2) set_append)
      with True x nd st show ?thesis
        unfolding search_ok_def vmtf_unassign_def Let_def by (simp, blast)
    next
      case nin: False
      then have "\<forall>y \<in> set ys. assignments[?x := 0] ! y \<noteq> 0"
        using s(2) keep by metis
      with s nin st False show ?thesis
        unfolding search_ok_def vmtf_unassign_def Let_def by (simp, blast)
    qed
  qed
qed

lemma search_back_ok:
  assumes "vmtf_inv ord q" and "search_ok assignments ord q"
    and "vm_search q = DISCONNECTED \<or> (\<exists>xs ys. ord = xs @ vm_search q # ys \<and> length xs < fuel)"
  shows "vmtf_inv ord (search_back fuel assignments q) \<and> search_ok assignments ord (search_back fuel assignments q)
    \<and> vm_links (search_back fuel assignments q) = vm_links q
    \<and> (vm_search (search_back fuel assignments q) = DISCONNECTED
       \<or> vm_search (search_back fuel assignments q) \<in> set ord
          \<and> assignments ! vm_search (search_back fuel assignments q) = 0)"
  using assms
proof (induction fuel assignments q rule: search_back.induct)
  case (1 assignments q)
  then show ?case by auto
next
  case (2 fuel assignments q)
  show ?case
  proof (cases "vm_search q \<noteq> DISCONNECTED \<and> assignments ! vm_search q \<noteq> 0")
    case False
    with 2 show ?thesis by (auto simp: vmtf_inv_def)
  next
    case True
    then obtain xs ys where s: "ord = xs @ vm_search q # ys" "length xs < Suc fuel"
      using "2.prems"(3) by auto
    have d: "distinct ord" using "2.prems"(1) unfolding vmtf_inv_def list_ok_def by blast
    have ys: "\<forall>y \<in> set ys. assignments ! y \<noteq> 0"
    proof -
      obtain as bs where a: "ord = as @ vm_search q # bs" "\<forall>y \<in> set bs. assignments ! y \<noteq> 0"
        using "2.prems"(2) True by (auto simp: search_ok_def)
      then have "bs = ys" using distinct_split_eq [of xs "vm_search q" ys as bs] s(1) d by simp
      with a show ?thesis by simp
    qed
    let ?p = "last_of DISCONNECTED xs"
    let ?q = "q\<lparr>vm_search := ?p\<rparr>"
    have p: "lk_previous (vm_links q ! vm_search q) = ?p"
      using vmtf_inv_split(1) "2.prems"(1) s(1) by metis
    have mem: "last xs \<in> set ord" if "xs \<noteq> []"
      using last_in_set [OF that] s(1) by (metis Un_iff set_append)
    have i: "vmtf_inv ord ?q"
      using "2.prems"(1) mem unfolding vmtf_inv_def by (cases "xs = []") simp_all
    have xs: "xs = butlast xs @ [last xs]" if "xs \<noteq> []" using that by simp
    have pd: "?p = DISCONNECTED \<longleftrightarrow> xs = []"
    proof (cases "xs = []")
      case False
      then have "last xs \<in> set ord" by (rule mem)
      then have "last xs \<noteq> DISCONNECTED" by (rule vmtf_inv_not_disconnected [OF i])
      with False show ?thesis by presburger
    qed presburger
    have split: "ord = butlast xs @ last xs # (vm_search q # ys)" if "xs \<noteq> []"
      using s(1) xs [OF that] by (metis append.assoc append_Cons append_Nil)
    have ok: "search_ok assignments ord ?q"
    proof (cases "xs = []")
      case True
      then show ?thesis using s ys \<open>vm_search q \<noteq> DISCONNECTED \<and> _\<close> pd by (simp add: search_ok_def)
    next
      case ne: False
      have "\<forall>y \<in> set (vm_search q # ys). assignments ! y \<noteq> 0" using ys True by simp
      with ne pd split [OF ne] show ?thesis
        unfolding search_ok_def by (simp, blast)
    qed
    have "vm_search ?q = DISCONNECTED
        \<or> (\<exists>xs' ys'. ord = xs' @ vm_search ?q # ys' \<and> length xs' < fuel)"
    proof (cases "xs = []")
      case False
      then have "length (butlast xs) < fuel" using s(2) by (cases xs) auto
      with split [OF False] False show ?thesis by (simp, blast)
    qed (simp add: pd)
    from "2.IH" [OF True] i ok this True p show ?thesis by simp
  qed
qed

lemma search_fuel:
  assumes i: "vmtf_inv ord q" and ok: "search_ok assignments ord q"
  shows "vm_search q = DISCONNECTED
    \<or> (\<exists>xs ys. ord = xs @ vm_search q # ys \<and> length xs < length (vm_links q))"
proof -
  have "length ord = length (vm_links q)"
    using i distinct_card [of ord] unfolding vmtf_inv_def list_ok_def by simp
  moreover have "length xs < length ord" if "ord = xs @ vm_search q # ys" for xs ys
    using arg_cong [OF that, of length] by simp
  ultimately show ?thesis using ok unfolding search_ok_def by metis
qed

lemma fold_move_to_front:
  "vmtf_inv ord q \<Longrightarrow> search_ok assignments ord q \<Longrightarrow> distinct vs \<Longrightarrow> var_index ` set vs \<subseteq> set ord \<Longrightarrow>
   vmtf_inv (filter (\<lambda>x. x \<notin> var_index ` set vs) ord @ map var_index vs)
     (fold (\<lambda>v. move_to_front v assignments) vs q)
   \<and> search_ok assignments (filter (\<lambda>x. x \<notin> var_index ` set vs) ord @ map var_index vs)
     (fold (\<lambda>v. move_to_front v assignments) vs q)"
proof (induction vs arbitrary: ord q)
  case (Cons v vs)
  let ?x = "var_index v"
  obtain xs ys where o: "ord = xs @ ?x # ys"
    using Cons.prems(4) by (meson image_subset_iff list.set_intros(1) split_list)
  have d: "distinct ord" using Cons.prems(1) unfolding vmtf_inv_def list_ok_def by blast
  have r: "xs @ ys @ [?x] = filter (\<lambda>x. x \<noteq> ?x) ord @ [?x]"
  proof -
    have "filter (\<lambda>x. x \<noteq> ?x) xs = xs" "filter (\<lambda>x. x \<noteq> ?x) ys = ys"
      using d o by (auto intro: filter_True)
    with o show ?thesis by simp
  qed
  have m: "vmtf_inv (xs @ ys @ [?x]) (move_to_front v assignments q)
    \<and> search_ok assignments (xs @ ys @ [?x]) (move_to_front v assignments q)"
    using move_to_front_inv Cons.prems(1,2) o by blast
  have nin: "?x \<notin> var_index ` set vs"
    using Cons.prems(3) by (auto simp: var_index_eq_iff)
  have "filter (\<lambda>x. x \<notin> var_index ` set vs) (xs @ ys @ [?x]) @ map var_index vs
      = filter (\<lambda>x. x \<notin> var_index ` set (v # vs)) ord @ map var_index (v # vs)"
    unfolding r using nin by (simp add: conj_commute)
  moreover have "var_index ` set vs \<subseteq> set (xs @ ys @ [?x])"
    using Cons.prems(4) o by auto
  ultimately show ?case
    using Cons.IH [of "xs @ ys @ [?x]" "move_to_front v assignments q"] m Cons.prems(3) by simp
qed simp

subsection \<open>Properties\<close>

text \<open>
  C38: After a conflict the analyzed variables stand at the end of the queue, in their old
  relative order, behind all others; the links, the stamps and the search position are
  consistent with that order.
\<close>

theorem bump_analyzed_order:
  assumes "vmtf_inv ord q" and "search_ok assignments ord q"
    and "distinct vs" and "var_index ` set vs \<subseteq> set ord"
  shows "\<exists>ws. set ws = set vs \<and> sorted_wrt (\<lambda>v w. lk_stamp (vm_links q ! var_index v) \<le> lk_stamp (vm_links q ! var_index w)) ws
    \<and> vmtf_inv (filter (\<lambda>x. x \<notin> var_index ` set vs) ord @ map var_index ws) (bump_analyzed vs assignments q)
    \<and> search_ok assignments (filter (\<lambda>x. x \<notin> var_index ` set vs) ord @ map var_index ws)
        (bump_analyzed vs assignments q)"
proof -
  let ?ws = "sort_key (\<lambda>v. lk_stamp (vm_links q ! var_index v)) vs"
  have "sorted_wrt (\<lambda>v w. lk_stamp (vm_links q ! var_index v) \<le> lk_stamp (vm_links q ! var_index w)) ?ws"
    using sorted_sort_key [of "\<lambda>v. lk_stamp (vm_links q ! var_index v)" vs]
    by (simp add: sorted_wrt_map)
  moreover have "distinct ?ws" "set ?ws = set vs" using assms(3) by simp_all
  ultimately show ?thesis
    using fold_move_to_front [OF assms(1,2), of ?ws] assms(4)
    unfolding bump_analyzed_def by (intro exI [of _ ?ws]) simp
qed

theorem bump_analyzed_order_witness:
  "\<exists>ord. vmtf_inv ord (bump_analyzed [Var 0] [0, 1] (vmtf_grow 0 2 vmtf_default))"
proof -
  let ?q = "vmtf_grow 0 2 vmtf_default"
  have "vmtf_inv [0..<2] ?q"
    using vmtf_grow_inv [of vmtf_default 2] vmtf_inv_default
    by (simp add: vmtf_default_def DISCONNECTED_def)
  moreover have "vm_search ?q = 1"
    by (simp add: vmtf_grow_def vmtf_append_def upt_conv_Cons Let_def)
  then have "search_ok [0, 1] [0..<2] ?q"
    by (simp add: search_ok_def upt_conv_Cons DISCONNECTED_def) (rule exI [of _ "[0]"], rule exI [of _ "[]"], simp)
  ultimately show ?thesis
    using bump_analyzed_order [of "[0..<2]" ?q "[0, 1]" "[Var 0]"]
    by (auto simp: var_index_def)
qed

text \<open>
  \<open>pick\<close> returns the unassigned variable that stands last in the queue, and returns none
  only when every variable is assigned; the search position stays consistent.
\<close>

theorem vmtf_pick_latest:
  assumes "vmtf_inv ord q" and "search_ok assignments ord q" and "length ord \<le> MAX_VARIABLES"
    and "vmtf_pick assignments q = (r, q')"
  shows "vmtf_inv ord q' \<and> search_ok assignments ord q' \<and>
    (case r of
       None \<Rightarrow> \<forall>x \<in> set ord. assignments ! x \<noteq> 0
     | Some v \<Rightarrow> assignments ! var_index v = 0
         \<and> (\<exists>xs ys. ord = xs @ var_index v # ys \<and> (\<forall>y \<in> set ys. assignments ! y \<noteq> 0)))"
proof -
  let ?q = "search_back (length (vm_links q)) assignments q"
  note s = search_back_ok [OF assms(1,2) search_fuel [OF assms(1,2)]]
  have q': "q' = ?q" "r = (if vm_search ?q = DISCONNECTED then None else Some (Var (of_nat (vm_search ?q))))"
    using assms(4) by (auto simp: vmtf_pick_def Let_def split: if_splits)
  show ?thesis
  proof (cases "vm_search ?q = DISCONNECTED")
    case True
    with s q' show ?thesis by (simp add: search_ok_def)
  next
    case False
    have "length ord = length (vm_links q)"
      using assms(1) distinct_card [of ord] unfolding vmtf_inv_def list_ok_def by simp
    then have "vm_search ?q < MAX_VARIABLES"
      using s False assms(1,3) unfolding vmtf_inv_def by auto
    then have "var_index (Var (of_nat (vm_search ?q))) = vm_search ?q"
      by (simp add: var_index_def MAX_VARIABLES_eq unat_of_nat)
    with s q' False show ?thesis by (simp add: search_ok_def)
  qed
qed

theorem vmtf_pick_latest_witness:
  "\<exists>v. fst (vmtf_pick [1, 0] (vmtf_grow 0 2 vmtf_default)) = Some v \<and> [1, 0 :: int] ! var_index v = 0"
proof -
  let ?q = "vmtf_grow 0 2 vmtf_default"
  have i: "vmtf_inv [0..<2] ?q"
    using vmtf_grow_inv [of vmtf_default 2] vmtf_inv_default
    by (simp add: vmtf_default_def DISCONNECTED_def)
  have s: "vm_search ?q = 1"
    by (simp add: vmtf_grow_def vmtf_append_def upt_conv_Cons Let_def)
  then have ok: "search_ok [1, 0] [0..<2] ?q"
    by (simp add: search_ok_def upt_conv_Cons DISCONNECTED_def) (rule exI [of _ "[0]"], rule exI [of _ "[]"], simp)
  obtain r q' where p: "vmtf_pick [1, 0] ?q = (r, q')" by fastforce
  from vmtf_pick_latest [OF i ok _ this] show ?thesis
    by (cases r) (auto simp: MAX_VARIABLES_eq p dest!: bspec [of _ _ "1 :: nat"])
qed

end
