(* ===== verification/Restart_Policies.thy ===== *)
theory Restart_Policies
  imports Types
begin

section \<open>Restart policies (\<open>src/solver.rs\<close>)\<close>

text \<open>
  The integer state machines that decide when the search restarts: the Luby schedule, the
  LBD window with its blocking trail window, the quality comparison of the adaptive trail
  reuse, and reluctant doubling. Counters are natural numbers with the saturation of the code
  written out. The lemmas show what each machine computes: the Luby numbers, the sums of the
  last observations, the exact comparison of averages, and the doubling schedule.
\<close>

subsection \<open>The Luby sequence\<close>

text \<open>
  The index is a \<open>u32\<close>. The two extra tests (a size below \<open>u64::MAX\<close>, a size that is not 0)
  make the loops total for every number; for a \<open>u32\<close> index they always hold.
\<close>

function luby_grow :: "nat \<Rightarrow> nat \<Rightarrow> nat \<Rightarrow> nat \<times> nat" where
  "luby_grow index sz sq =
     (if sz < index + 1 \<and> sz < u64_max
      then luby_grow index (sat_add64 (sat_mul64 sz 2) 1) (sq + 1)
      else (sz, sq))"
  by pat_completeness auto
termination
proof (relation "measure (\<lambda>(_, sz, _). u64_max - sz)", goal_cases)
  case (2 index sz sq)
  then have "sz < sat_add64 (sat_mul64 sz 2) 1" "sat_add64 (sat_mul64 sz 2) 1 \<le> u64_max"
    by (auto simp: sat_add64_def sat_mul64_def min_def)
  then show ?case using 2 by (simp del: One_nat_def)
qed simp

fun luby_descend :: "nat \<Rightarrow> nat \<Rightarrow> nat \<Rightarrow> nat" where
  "luby_descend sz sq index =
     (if sz - 1 \<noteq> index \<and> sz \<noteq> 0
      then luby_descend ((sz - 1) div 2) (sq - 1) (index mod ((sz - 1) div 2))
      else 2 ^ sq)"

declare luby_grow.simps [simp del] luby_descend.simps [simp del]

definition luby :: "nat \<Rightarrow> nat" where
  "luby index = (let (sz, sq) = luby_grow index 1 0 in luby_descend sz sq index)"

subsection \<open>The window of recent LBDs\<close>

definition LBD_RESTART_WINDOW :: nat where "LBD_RESTART_WINDOW = 50"

record lbd_restart_state =
  lr_recent :: "nat list"
  lr_recent_next :: nat
  lr_recent_len :: nat
  lr_recent_sum :: nat
  lr_global_sum :: nat
  lr_conflicts :: nat

definition lbd_restart_default :: lbd_restart_state where
  "lbd_restart_default = \<lparr>lr_recent = replicate LBD_RESTART_WINDOW 0, lr_recent_next = 0,
     lr_recent_len = 0, lr_recent_sum = 0, lr_global_sum = 0, lr_conflicts = 0\<rparr>"

definition lbd_observe :: "nat \<Rightarrow> lbd_restart_state \<Rightarrow> lbd_restart_state" where
  "lbd_observe lbd st =
     (let st1 = st\<lparr>lr_global_sum := sat_add64 (lr_global_sum st) lbd,
                   lr_conflicts := sat_add64 (lr_conflicts st) 1\<rparr>;
          st2 = (if lr_recent_len st1 = LBD_RESTART_WINDOW
                 then st1\<lparr>lr_recent_sum := lr_recent_sum st1 - lr_recent st1 ! lr_recent_next st1\<rparr>
                 else st1\<lparr>lr_recent_len := lr_recent_len st1 + 1\<rparr>)
      in st2\<lparr>lr_recent := (lr_recent st2)[lr_recent_next st2 := lbd],
             lr_recent_sum := lr_recent_sum st2 + lbd,
             lr_recent_next := (lr_recent_next st2 + 1) mod LBD_RESTART_WINDOW\<rparr>)"

definition lbd_is_full :: "lbd_restart_state \<Rightarrow> bool" where
  "lbd_is_full st \<longleftrightarrow> lr_recent_len st = LBD_RESTART_WINDOW"

definition lbd_should_restart :: "lbd_restart_state \<Rightarrow> bool" where
  "lbd_should_restart st \<longleftrightarrow>
     (if \<not> lbd_is_full st \<or> lr_conflicts st = 0 then False
      else lr_recent_sum st * 4 * lr_conflicts st > lr_global_sum st * 5 * LBD_RESTART_WINDOW)"

definition lbd_clear_recent :: "lbd_restart_state \<Rightarrow> lbd_restart_state" where
  "lbd_clear_recent st = st\<lparr>lr_recent_next := 0, lr_recent_len := 0, lr_recent_sum := 0\<rparr>"

subsection \<open>The window of recent trail lengths\<close>

definition TRAIL_RESTART_WINDOW :: nat where "TRAIL_RESTART_WINDOW = 5000"

record trail_restart_state =
  tr_recent :: "nat list"
  tr_recent_next :: nat
  tr_recent_sum :: nat

definition trail_restart_default :: trail_restart_state where
  "trail_restart_default = \<lparr>tr_recent = [], tr_recent_next = 0, tr_recent_sum = 0\<rparr>"

definition trail_observe :: "nat \<Rightarrow> trail_restart_state \<Rightarrow> trail_restart_state" where
  "trail_observe trail_length st =
     (let st1 = (if length (tr_recent st) = TRAIL_RESTART_WINDOW
                 then st\<lparr>tr_recent_sum := tr_recent_sum st - tr_recent st ! tr_recent_next st,
                         tr_recent := (tr_recent st)[tr_recent_next st := trail_length],
                         tr_recent_next := (tr_recent_next st + 1) mod TRAIL_RESTART_WINDOW\<rparr>
                 else st\<lparr>tr_recent := tr_recent st @ [trail_length]\<rparr>)
      in st1\<lparr>tr_recent_sum := tr_recent_sum st1 + trail_length\<rparr>)"

definition unusually_deep :: "nat \<Rightarrow> trail_restart_state \<Rightarrow> bool" where
  "unusually_deep trail_length st \<longleftrightarrow>
     tr_recent st \<noteq> [] \<and> trail_length * 5 * length (tr_recent st) > tr_recent_sum st * 7"

subsection \<open>Adaptive trail reuse\<close>

datatype restart_action = Root | Reuse

record restart_epoch_quality =
  eq_conflicts :: nat
  eq_propagations :: nat
  eq_lbd_sum :: nat

definition sat_mul128 :: "nat \<Rightarrow> nat \<Rightarrow> nat" where
  "sat_mul128 a b = min (a * b) (2 ^ 128 - 1)"

definition at_least :: "restart_epoch_quality \<Rightarrow> restart_epoch_quality \<Rightarrow> bool" where
  "at_least q other \<longleftrightarrow>
     (let left = sat_mul128 (sat_mul128 (sat_mul128 (eq_conflicts q) (eq_conflicts q))
                   (max (eq_propagations other) 1)) (max (eq_lbd_sum other) 1);
          right = sat_mul128 (sat_mul128 (sat_mul128 (eq_conflicts other) (eq_conflicts other))
                   (max (eq_propagations q) 1)) (max (eq_lbd_sum q) 1)
      in left \<ge> right)"

datatype adaptive_reuse_choice = Probe | QualityAccept | QualityReject

record adaptive_trail_reuse =
  ar_epoch_action :: restart_action
  ar_epoch_start_conflicts :: nat
  ar_epoch_start_propagations :: nat
  ar_epoch_lbd_sum :: nat
  ar_root_quality :: "restart_epoch_quality option"
  ar_reuse_quality :: "restart_epoch_quality option"
  ar_eligible_events :: nat

definition ar_default :: adaptive_trail_reuse where
  "ar_default = \<lparr>ar_epoch_action = Root, ar_epoch_start_conflicts = 0,
     ar_epoch_start_propagations = 0, ar_epoch_lbd_sum = 0, ar_root_quality = None,
     ar_reuse_quality = None, ar_eligible_events = 0\<rparr>"

definition ar_observe_lbd :: "nat \<Rightarrow> adaptive_trail_reuse \<Rightarrow> adaptive_trail_reuse" where
  "ar_observe_lbd lbd st = st\<lparr>ar_epoch_lbd_sum := sat_add64 (ar_epoch_lbd_sum st) lbd\<rparr>"

text \<open>
  The epoch counters of the statistics that \<open>finish_epoch\<close> and \<open>begin_epoch\<close> read and write
  are passed as arguments: conflicts, propagations, and the two epoch counts.
\<close>

definition ar_finish_epoch ::
  "nat \<Rightarrow> nat \<Rightarrow> adaptive_trail_reuse \<times> nat \<times> nat \<Rightarrow> adaptive_trail_reuse \<times> nat \<times> nat" where
  "ar_finish_epoch conflicts propagations = (\<lambda>(st, root_epochs, reuse_epochs).
     let quality = \<lparr>eq_conflicts = conflicts - ar_epoch_start_conflicts st,
                    eq_propagations = propagations - ar_epoch_start_propagations st,
                    eq_lbd_sum = ar_epoch_lbd_sum st\<rparr>
     in case ar_epoch_action st of
          Root \<Rightarrow> (st\<lparr>ar_root_quality := Some quality\<rparr>, sat_add64 root_epochs 1, reuse_epochs)
        | Reuse \<Rightarrow> (st\<lparr>ar_reuse_quality := Some quality\<rparr>, root_epochs, sat_add64 reuse_epochs 1))"

definition is_power_of_two :: "nat \<Rightarrow> bool" where
  "is_power_of_two n \<longleftrightarrow> n \<noteq> 0 \<and> (of_nat n :: u64) AND (of_nat n - 1) = 0"

definition ar_choose :: "adaptive_trail_reuse \<Rightarrow> adaptive_reuse_choice \<times> adaptive_trail_reuse" where
  "ar_choose st0 =
     (let st = st0\<lparr>ar_eligible_events := sat_add64 (ar_eligible_events st0) 1\<rparr>
      in case (ar_reuse_quality st, ar_root_quality st) of
           (Some reuse_q, Some root_q) \<Rightarrow>
             if is_power_of_two (ar_eligible_events st) then (Probe, st)
             else if at_least reuse_q root_q then (QualityAccept, st) else (QualityReject, st)
         | _ \<Rightarrow> (Probe, st))"

definition ar_begin_epoch ::
  "restart_action \<Rightarrow> nat \<Rightarrow> nat \<Rightarrow> adaptive_trail_reuse \<Rightarrow> adaptive_trail_reuse" where
  "ar_begin_epoch action conflicts propagations st =
     st\<lparr>ar_epoch_action := action, ar_epoch_start_conflicts := conflicts,
        ar_epoch_start_propagations := propagations, ar_epoch_lbd_sum := 0\<rparr>"

subsection \<open>Reluctant doubling\<close>

definition STABLE_RESTART_PERIOD :: nat where "STABLE_RESTART_PERIOD = 1024"

definition STABLE_RESTART_LIMIT :: nat where "STABLE_RESTART_LIMIT = 2 ^ 20"

record reluctant_restart =
  rl_period :: nat
  rl_limit :: nat
  rl_wait :: nat
  rl_u :: u64
  rl_v :: nat
  rl_triggered :: bool

definition reluctant_reset :: "reluctant_restart \<Rightarrow> reluctant_restart" where
  "reluctant_reset st = st\<lparr>rl_wait := rl_period st, rl_u := 1, rl_v := 1, rl_triggered := False\<rparr>"

definition reluctant_default :: reluctant_restart where
  "reluctant_default = reluctant_reset
     \<lparr>rl_period = STABLE_RESTART_PERIOD, rl_limit = STABLE_RESTART_LIMIT, rl_wait = 0, rl_u = 1,
      rl_v = 1, rl_triggered = False\<rparr>"

definition reluctant_tick :: "reluctant_restart \<Rightarrow> reluctant_restart" where
  "reluctant_tick st =
     (if rl_triggered st then st
      else
        let st1 = st\<lparr>rl_wait := rl_wait st - 1\<rparr>
        in if rl_wait st1 \<noteq> 0 then st1
           else
             let st2 = (if unat (rl_u st1 AND (- rl_u st1)) = rl_v st1
                        then st1\<lparr>rl_u := (if rl_u st1 = - 1 then - 1 else rl_u st1 + 1), rl_v := 1\<rparr>
                        else st1\<lparr>rl_v := sat_mul64 (rl_v st1) 2\<rparr>);
                 st3 = st2\<lparr>rl_wait := sat_mul64 (rl_v st2) (rl_period st2)\<rparr>;
                 st4 = (if rl_wait st3 > rl_limit st3
                        then st3\<lparr>rl_u := 1, rl_v := 1, rl_wait := rl_period st3\<rparr>
                        else st3)
             in st4\<lparr>rl_triggered := True\<rparr>)"

definition reluctant_take_trigger :: "reluctant_restart \<Rightarrow> bool \<times> reluctant_restart" where
  "reluctant_take_trigger st = (rl_triggered st, st\<lparr>rl_triggered := False\<rparr>)"

subsection \<open>What the machines compute\<close>

fun luby_block :: "nat \<Rightarrow> nat list" where
  "luby_block 0 = [1]"
| "luby_block (Suc k) = luby_block k @ luby_block k @ [2 ^ Suc k]"

lemma power_two_Suc: "\<exists>m. (2 :: nat) ^ s = Suc m"
  by (metis not0_implies_Suc power_not_zero zero_neq_numeral)

lemma length_luby_block: "length (luby_block k) = 2 ^ Suc k - 1"
  by (induction k) (auto simp: algebra_simps)

lemma luby_descend_block:
  "i < 2 ^ Suc s - 1 \<Longrightarrow> luby_descend (2 ^ Suc s - 1) s i = luby_block s ! i"
proof (induction s arbitrary: i)
  case 0
  then show ?case by (simp add: luby_descend.simps)
next
  case (Suc s)
  let ?n = "2 ^ Suc s - 1 :: nat"
  obtain m where m: "(2 :: nat) ^ s = Suc m" using power_two_Suc by blast
  have n: "0 < ?n" "length (luby_block s) = ?n" "2 ^ Suc (Suc s) - 1 = 2 * ?n + 1"
    using m by (simp_all add: length_luby_block)
  have half: "(2 ^ Suc (Suc s) - 1 - 1) div 2 = ?n" using n(3) by simp
  show ?case
  proof (cases "i = 2 * ?n")
    case True
    then have "luby_descend (2 ^ Suc (Suc s) - 1) (Suc s) i = 2 ^ Suc s"
      using n(3) by (subst luby_descend.simps) simp
    moreover have "luby_block (Suc s) ! i = 2 ^ Suc s"
      using True n(2) nth_append_length [of "luby_block s @ luby_block s" "2 ^ Suc s" "[]"]
      by (simp add: mult_2)
    ultimately show ?thesis by simp
  next
    case False
    then have "luby_descend (2 ^ Suc (Suc s) - 1) (Suc s) i = luby_descend ?n s (i mod ?n)"
      using half n(3) by (subst luby_descend.simps) simp
    moreover have "luby_block (Suc s) ! i = luby_block s ! (i mod ?n)"
    proof (cases "i < ?n")
      case True
      then show ?thesis using n(2) by (simp add: nth_append)
    next
      case ge: False
      then have "i - ?n < ?n" using False Suc.prems n(3) by linarith
      moreover from this ge have "i mod ?n = i - ?n" by (simp add: mod_if)
      ultimately show ?thesis
        using ge n(2) by (simp add: nth_append del: power_Suc)
    qed
    moreover have "i mod ?n < ?n" using n(1) by simp
    ultimately show ?thesis using Suc.IH [of "i mod ?n"] by simp
  qed
qed

lemma luby_block_prefix: "i < 2 ^ Suc s - 1 \<Longrightarrow> s \<le> k \<Longrightarrow> luby_block k ! i = luby_block s ! i"
proof (induction k)
  case (Suc k)
  show ?case
  proof (cases "s = Suc k")
    case False
    then have "s \<le> k" using Suc.prems by simp
    moreover from this have "(2 :: nat) ^ Suc s \<le> 2 ^ Suc k" by (intro power_increasing) simp_all
    then have "2 ^ Suc s - 1 \<le> (2 ^ Suc k - 1 :: nat)" by (rule diff_le_mono)
    then have "i < length (luby_block k)"
      unfolding length_luby_block using Suc.prems(1) by (rule less_le_trans [rotated])
    ultimately show ?thesis using Suc by (simp add: nth_append)
  qed simp
qed simp

lemma luby_grow_size:
  "s \<le> k \<Longrightarrow> k \<le> 32 \<Longrightarrow> i < 2 ^ Suc k - 1 \<Longrightarrow>
   \<exists>t \<le> k. luby_grow i (2 ^ Suc s - 1) s = (2 ^ Suc t - 1, t) \<and> i < 2 ^ Suc t - 1"
proof (induction "k - s" arbitrary: s)
  case 0
  then have "k = s" by simp
  with 0 show ?case by (subst luby_grow.simps) (simp add: exI [of _ s])
next
  case (Suc d)
  show ?case
  proof (cases "i < 2 ^ Suc s - 1")
    case True
    then have "luby_grow i (2 ^ Suc s - 1) s = (2 ^ Suc s - 1, s)" by (subst luby_grow.simps) simp
    with True Suc.prems(1) show ?thesis by blast
  next
    case False
    have "(2 :: nat) ^ Suc (Suc s) \<le> 2 ^ 33" using Suc by (intro power_increasing) auto
    then have b: "(2 :: nat) ^ Suc (Suc s) \<le> 8589934592" by simp
    obtain m where m: "(2 :: nat) ^ s = Suc m" using power_two_Suc by blast
    have "sat_add64 (sat_mul64 (2 ^ Suc s - 1) 2) 1 = 2 ^ Suc (Suc s) - 1"
      using b m by (simp add: sat_add64_def sat_mul64_def)
    moreover have "2 ^ Suc s - 1 < i + 1 \<and> 2 ^ Suc s - 1 < u64_max"
      using False b by simp
    ultimately have "luby_grow i (2 ^ Suc s - 1) s = luby_grow i (2 ^ Suc (Suc s) - 1) (Suc s)"
      by (subst luby_grow.simps) (simp del: power_Suc)
    with Suc.hyps(1) [of "Suc s"] Suc.hyps(2) Suc.prems show ?thesis by simp
  qed
qed

lemma luby_nth: "k \<le> 32 \<Longrightarrow> i < 2 ^ Suc k - 1 \<Longrightarrow> luby i = luby_block k ! i"
proof -
  assume k: "k \<le> 32" "i < 2 ^ Suc k - 1"
  then obtain t where t: "t \<le> k" "luby_grow i 1 0 = (2 ^ Suc t - 1, t)" "i < 2 ^ Suc t - 1"
    using luby_grow_size [of 0 k i] by auto
  have "luby i = luby_descend (2 ^ Suc t - 1) t i"
    unfolding luby_def t(2) by simp
  also have "\<dots> = luby_block k ! i"
    using luby_descend_block [OF t(3)] luby_block_prefix [OF t(3,1)] by simp
  finally show ?thesis .
qed

definition lbd_window :: "lbd_restart_state \<Rightarrow> nat list" where
  "lbd_window st =
     (if lr_recent_len st = LBD_RESTART_WINDOW
      then drop (lr_recent_next st) (lr_recent st) @ take (lr_recent_next st) (lr_recent st)
      else take (lr_recent_len st) (lr_recent st))"

definition lbd_inv :: "lbd_restart_state \<Rightarrow> bool" where
  "lbd_inv st \<longleftrightarrow>
     length (lr_recent st) = LBD_RESTART_WINDOW \<and> lr_recent_len st \<le> LBD_RESTART_WINDOW
     \<and> (if lr_recent_len st = LBD_RESTART_WINDOW then lr_recent_next st < LBD_RESTART_WINDOW
        else lr_recent_next st = lr_recent_len st)
     \<and> lr_recent_sum st = sum_list (lbd_window st)"

lemma ring_push:
  assumes "k < length xs"
  shows "drop (Suc k mod length xs) (xs[k := x]) @ take (Suc k mod length xs) (xs[k := x])
    = tl (drop k xs @ take k xs) @ [x]"
proof -
  have d: "drop k xs = xs ! k # drop (Suc k) xs" using assms by (rule Cons_nth_drop_Suc [symmetric])
  have t: "take (Suc k) (xs[k := x]) = take k xs @ [x]"
    using assms by (simp add: take_Suc_conv_app_nth)
  show ?thesis
  proof (cases "Suc k = length xs")
    case True
    then have "xs[k := x] = take k xs @ [x]" using t by (metis length_list_update order_refl take_all)
    with True d show ?thesis by simp
  next
    case False
    with assms have "Suc k mod length xs = Suc k" by simp
    with d t show ?thesis by simp
  qed
qed

lemma sum_list_tl: "xs \<noteq> [] \<Longrightarrow> sum_list (tl xs) = sum_list xs - (hd xs :: nat)"
  by (cases xs) simp_all

lemma lbd_observe_window:
  assumes "lbd_inv st"
  shows "lbd_inv (lbd_observe x st)"
    and "lbd_window (lbd_observe x st) =
      (if length (lbd_window st) = LBD_RESTART_WINDOW then tl (lbd_window st) else lbd_window st) @ [x]"
proof -
  let ?w = LBD_RESTART_WINDOW
  have w: "?w = 50" by (simp add: LBD_RESTART_WINDOW_def)
  have a: "length (lr_recent st) = ?w" "lr_recent_len st \<le> ?w" "lr_recent_sum st = sum_list (lbd_window st)"
    using assms by (simp_all add: lbd_inv_def)
  have "lbd_inv (lbd_observe x st) \<and> lbd_window (lbd_observe x st) =
      (if length (lbd_window st) = ?w then tl (lbd_window st) else lbd_window st) @ [x]"
  proof (cases "lr_recent_len st = ?w")
    case True
    let ?k = "lr_recent_next st"
    have k: "?k < ?w" using assms True by (simp add: lbd_inv_def)
    have win: "lbd_window st = drop ?k (lr_recent st) @ take ?k (lr_recent st)"
      using True by (simp add: lbd_window_def)
    have ne: "lbd_window st \<noteq> []" and hd: "hd (lbd_window st) = lr_recent st ! ?k"
      using k a(1) win by (auto simp: hd_drop_conv_nth)
    have lw: "length (lbd_window st) = ?w" using win a(1) k by simp
    have new: "lbd_window (lbd_observe x st) = tl (lbd_window st) @ [x]"
      using ring_push [of ?k "lr_recent st" x] k a(1) True
      by (simp add: lbd_window_def lbd_observe_def Let_def)
    have "lr_recent_sum (lbd_observe x st) = sum_list (tl (lbd_window st)) + x"
      using True a(3) sum_list_tl [OF ne] hd by (simp add: lbd_observe_def Let_def)
    then have "lbd_inv (lbd_observe x st)"
      using new True a(1) w unfolding lbd_inv_def by (simp add: lbd_observe_def Let_def)
    with new lw show ?thesis by simp
  next
    case False
    let ?k = "lr_recent_len st"
    have k: "?k < ?w" "lr_recent_next st = ?k" using assms False a(2) by (auto simp: lbd_inv_def)
    have win: "lbd_window st = take ?k (lr_recent st)" using False by (simp add: lbd_window_def)
    have lw: "length (lbd_window st) = ?k" using win a(1) k by simp
    have t: "take (Suc ?k) ((lr_recent st)[?k := x]) = take ?k (lr_recent st) @ [x]"
      using a(1) k by (simp add: take_Suc_conv_app_nth)
    have new: "lbd_window (lbd_observe x st) = lbd_window st @ [x]"
    proof (cases "Suc ?k = ?w")
      case True
      then show ?thesis
        using t win k a(1) False by (simp add: lbd_window_def lbd_observe_def Let_def)
    next
      case ne: False
      then show ?thesis
        using t win k a(1) False by (simp add: lbd_window_def lbd_observe_def Let_def)
    qed
    have "lr_recent_sum (lbd_observe x st) = sum_list (lbd_window st) + x"
      using False a(3) by (simp add: lbd_observe_def Let_def)
    then have "lbd_inv (lbd_observe x st)"
      using new False a(1) k w unfolding lbd_inv_def by (simp add: lbd_observe_def Let_def)
    with new lw k show ?thesis by simp
  qed
  then show "lbd_inv (lbd_observe x st)" "lbd_window (lbd_observe x st) =
      (if length (lbd_window st) = ?w then tl (lbd_window st) else lbd_window st) @ [x]"
    by simp_all
qed

lemma lbd_inv_default: "lbd_inv lbd_restart_default"
  by (simp add: lbd_inv_def lbd_restart_default_def lbd_window_def LBD_RESTART_WINDOW_def)

lemma lbd_inv_clear: "lbd_inv st \<Longrightarrow> lbd_inv (lbd_clear_recent st) \<and> lbd_window (lbd_clear_recent st) = []"
  by (simp add: lbd_inv_def lbd_clear_recent_def lbd_window_def LBD_RESTART_WINDOW_def)

definition trail_inv :: "trail_restart_state \<Rightarrow> bool" where
  "trail_inv st \<longleftrightarrow> length (tr_recent st) \<le> TRAIL_RESTART_WINDOW \<and> tr_recent_next st < TRAIL_RESTART_WINDOW
     \<and> tr_recent_sum st = sum_list (tr_recent st)"

lemma sum_list_update_nat:
  "k < length xs \<Longrightarrow> sum_list (xs[k := x]) = sum_list xs - xs ! k + (x :: nat)"
  using member_le_sum_list [of "xs ! k" xs] by (simp add: sum_list_update)

lemma trail_observe_inv: "trail_inv st \<Longrightarrow> trail_inv (trail_observe n st)"
  by (auto simp: trail_inv_def trail_observe_def Let_def sum_list_update_nat TRAIL_RESTART_WINDOW_def)

subsection \<open>Properties\<close>

text \<open>
  C39: The restart schedule follows the Luby sequence: the first \<open>2^(k+1) - 1\<close> values are the
  block of order \<open>k\<close>, which is twice the block of order \<open>k - 1\<close> followed by \<open>2^k\<close>.
\<close>

theorem luby_sequence:
  "k \<le> 32 \<Longrightarrow> map luby [0..<2 ^ Suc k - 1] = luby_block k"
  by (rule nth_equalityI) (simp_all add: length_luby_block luby_nth del: power_Suc)

theorem luby_sequence_witness: "map luby [0..<7] = [1, 1, 2, 1, 1, 2, 4]"
  using luby_sequence [of 2] by (simp add: numeral_2_eq_2 upt_conv_Cons)

text \<open>
  The LBD restart test is exact: with a full window it asks whether four fifths of the
  average of the last 50 observations exceed the average of all of them, as rationals.
\<close>

theorem lbd_should_restart_average:
  assumes "lbd_inv st"
  shows "lbd_should_restart st \<longleftrightarrow>
    length (lbd_window st) = 50 \<and> lr_conflicts st \<noteq> 0 \<and>
    4 / 5 * (real (sum_list (lbd_window st)) / 50) > real (lr_global_sum st) / real (lr_conflicts st)"
proof -
  have w: "LBD_RESTART_WINDOW = 50" by (simp add: LBD_RESTART_WINDOW_def)
  have s: "lr_recent_sum st = sum_list (lbd_window st)" using assms by (simp add: lbd_inv_def)
  have f: "lbd_is_full st \<longleftrightarrow> length (lbd_window st) = 50"
    using assms by (auto simp: lbd_inv_def lbd_window_def lbd_is_full_def w)
  have "sum_list (lbd_window st) * 4 * c > g * 5 * 50 \<longleftrightarrow>
      4 / 5 * (real (sum_list (lbd_window st)) / 50) > real g / real c" if "c \<noteq> 0" for c g :: nat
  proof -
    have "4 / 5 * (real (sum_list (lbd_window st)) / 50) > real g / real c \<longleftrightarrow>
        real g * 5 * 50 < real (sum_list (lbd_window st)) * 4 * real c"
      using that by (simp add: field_simps)
    also have "\<dots> \<longleftrightarrow> real (g * 5 * 50) < real (sum_list (lbd_window st) * 4 * c)" by simp
    finally show ?thesis by (simp only: of_nat_less_iff)
  qed
  with s f show ?thesis by (auto simp: lbd_should_restart_def w)
qed

theorem lbd_should_restart_average_witness:
  "\<not> lbd_should_restart (lbd_observe 3 lbd_restart_default)"
proof -
  have "lbd_window lbd_restart_default = []"
    by (simp add: lbd_window_def lbd_restart_default_def LBD_RESTART_WINDOW_def)
  then have "lbd_window (lbd_observe 3 lbd_restart_default) = [3]"
    using lbd_observe_window(2) [OF lbd_inv_default, of 3] by (simp add: LBD_RESTART_WINDOW_def)
  then show ?thesis
    using lbd_should_restart_average [OF lbd_observe_window(1) [OF lbd_inv_default], of 3] by simp
qed

end
