(* ===== verification/Clause_Ref.thy ===== *)
theory Clause_Ref
  imports Types
begin

section \<open>Packed clause references and watches (\<open>src/solver.rs\<close>)\<close>

text \<open>
  A clause reference is a nonzero \<open>u32\<close> that packs a 31-bit index and a bit for the binary
  clause store; a watch is a \<open>u64\<close> that packs a reference and a blocking literal. The
  constructors panic outside their range, which is \<open>None\<close> here. The lemmas show that packing
  loses nothing. The solver model uses the unpacked view \<open>cref\<close> of a reference.
\<close>

datatype clause_ref = ClauseRef (cr_raw: u32)

definition BINARY_BIT :: u32 where "BINARY_BIT = push_bit 31 1"

definition INDEX_MASK :: u32 where "INDEX_MASK = BINARY_BIT - 1"

definition cr_new :: "nat \<Rightarrow> bool \<Rightarrow> clause_ref option" where
  "cr_new index binary =
     (if index \<ge> 2 ^ 32 then None
      else let i = (of_nat index :: u32)
           in if \<not> i < INDEX_MASK then None
              else let packed = i OR (if binary then BINARY_BIT else 0)
                   in if packed + 1 = 0 then None else Some (ClauseRef (packed + 1)))"

definition cr_from_packed :: "u32 \<Rightarrow> clause_ref option" where
  "cr_from_packed packed = (if packed = - 1 then None else Some (ClauseRef (packed + 1)))"

definition cr_packed :: "clause_ref \<Rightarrow> u32" where
  "cr_packed r = cr_raw r - 1"

definition cr_index :: "clause_ref \<Rightarrow> nat" where
  "cr_index r = unat (cr_packed r AND INDEX_MASK)"

definition cr_is_binary :: "clause_ref \<Rightarrow> bool" where
  "cr_is_binary r \<longleftrightarrow> cr_packed r AND BINARY_BIT \<noteq> 0"

datatype packed_watch = PackedWatch (pw_raw: u64)

definition pw_new :: "clause_ref \<Rightarrow> lit \<Rightarrow> packed_watch" where
  "pw_new r blocker =
     PackedWatch (push_bit 32 (ucast (cr_packed r)) OR ucast (lit_raw blocker))"

definition pw_clause :: "packed_watch \<Rightarrow> clause_ref option" where
  "pw_clause w = cr_from_packed (ucast (drop_bit 32 (pw_raw w)))"

definition pw_blocker :: "packed_watch \<Rightarrow> lit" where
  "pw_blocker w = Lit (ucast (pw_raw w))"

text \<open>The unpacked view that the solver model uses.\<close>

datatype cref = Long nat | Binary nat

definition cref_of :: "clause_ref \<Rightarrow> cref" where
  "cref_of r = (if cr_is_binary r then Binary (cr_index r) else Long (cr_index r))"

fun cref_is_binary :: "cref \<Rightarrow> bool" where
  "cref_is_binary (Long _) = False"
| "cref_is_binary (Binary _) = True"

fun cref_index :: "cref \<Rightarrow> nat" where
  "cref_index (Long i) = i"
| "cref_index (Binary i) = i"

datatype watch = Watch (w_clause: cref) (w_blocker: lit)

subsection \<open>Packing loses nothing\<close>

lemma mask_values: "BINARY_BIT = 2147483648" "INDEX_MASK = 2147483647"
  by (simp_all add: BINARY_BIT_def INDEX_MASK_def)

lemma INDEX_MASK_mask: "INDEX_MASK = mask 31"
  by (simp add: mask_values mask_eq_exp_minus_1)

lemma and_INDEX_MASK:
  assumes "unat (i :: u32) < 2 ^ 31"
  shows "i AND INDEX_MASK = i"
proof -
  have "unat (take_bit 31 i) = unat i"
    using assms by (simp add: unsigned_take_bit_eq take_bit_nat_eq_self)
  then have "take_bit 31 i = i" by (simp add: word_unat_eq_iff)
  then show ?thesis by (simp add: INDEX_MASK_mask take_bit_eq_mask)
qed

lemma cr_new_Some:
  assumes "cr_new i b = Some r"
  shows "i < 2 ^ 31 - 1" and "cr_index r = i" and "cr_is_binary r = b"
proof -
  let ?i = "of_nat i :: u32"
  let ?p = "?i OR (if b then BINARY_BIT else 0)"
  have n: "i < 2 ^ 32" "?i < INDEX_MASK" and r: "r = ClauseRef (?p + 1)"
    using assms by (auto simp: cr_new_def Let_def split: if_splits)
  have u: "unat ?i = i" using n(1) by (simp add: unat_of_nat)
  with n(2) show lt: "i < 2 ^ 31 - 1"
    by (simp add: word_less_nat_alt mask_values)
  have "cr_packed r = ?p" using r by (simp add: cr_packed_def)
  moreover have im: "?i AND INDEX_MASK = ?i"
    using lt u by (intro and_INDEX_MASK) simp
  moreover have bm: "BINARY_BIT AND INDEX_MASK = 0" by (simp add: mask_values)
  moreover have ib: "?i AND BINARY_BIT = 0"
  proof -
    have "INDEX_MASK AND BINARY_BIT = 0" by (simp add: mask_values)
    then show ?thesis using im by (metis and.assoc and_zero_eq)
  qed
  ultimately show "cr_index r = i" "cr_is_binary r = b"
    using u by (simp_all add: cr_index_def cr_is_binary_def bit.conj_disj_distrib2 mask_values)
qed

lemma cr_new_iff: "(\<exists>r. cr_new i b = Some r) \<longleftrightarrow> i < 2 ^ 31 - 1"
proof
  assume "i < 2 ^ 31 - 1"
  then have n: "i < 2 ^ 32" "unat (of_nat i :: u32) = i" "(of_nat i :: u32) < INDEX_MASK"
    by (simp_all add: unat_of_nat word_less_nat_alt mask_values)
  have "(of_nat i :: u32) OR (if b then BINARY_BIT else 0) \<noteq> - 1"
  proof
    assume e: "(of_nat i :: u32) OR (if b then BINARY_BIT else 0) = - 1"
    have "INDEX_MASK AND (of_nat i OR (if b then BINARY_BIT else 0)) = INDEX_MASK AND of_nat i"
      by (simp add: bit.conj_disj_distrib mask_values)
    then have "INDEX_MASK = INDEX_MASK AND (of_nat i :: u32)" using e by simp
    also have "\<dots> = of_nat i"
      using and_INDEX_MASK [of "of_nat i"] n(2) \<open>i < 2 ^ 31 - 1\<close> by (simp add: and.commute)
    finally show False using n(3) by simp
  qed
  then have "((of_nat i :: u32) OR (if b then BINARY_BIT else 0)) + 1 \<noteq> 0"
    using eq_neg_iff_add_eq_0 [of "(of_nat i :: u32) OR (if b then BINARY_BIT else 0)" 1] by blast
  with n show "\<exists>r. cr_new i b = Some r"
    unfolding cr_new_def Let_def by (simp only: not_le if_False) simp
qed (use cr_new_Some in blast)

lemma cr_from_packed_packed: "cr_raw r \<noteq> 0 \<Longrightarrow> cr_from_packed (cr_packed r) = Some r"
  by (cases r) (auto simp: cr_from_packed_def cr_packed_def diff_eq_eq)

lemma pw_new_blocker: "pw_blocker (pw_new r b) = b"
proof -
  have "ucast (push_bit 32 (ucast (cr_packed r)) OR ucast (lit_raw b) :: u64) = lit_raw b"
    by (rule bit_word_eqI) (auto simp: bit_simps dest: bit_imp_le_length)
  then show ?thesis by (simp add: pw_blocker_def pw_new_def)
qed

lemma pw_new_clause: "cr_raw r \<noteq> 0 \<Longrightarrow> pw_clause (pw_new r b) = Some r"
proof -
  have "ucast (drop_bit 32 (push_bit 32 (ucast (cr_packed r)) OR ucast (lit_raw b) :: u64)) = cr_packed r"
    by (rule bit_word_eqI) (auto simp: bit_simps dest: bit_imp_le_length)
  then show "cr_raw r \<noteq> 0 \<Longrightarrow> ?thesis"
    by (simp add: pw_clause_def pw_new_def cr_from_packed_packed)
qed

subsection \<open>The packed layout\<close>

text \<open>
  a clause reference can be packed exactly when the index is below \<open>2^31 - 1\<close>, and then the
  index, the binary flag and, beside a blocker in a 64-bit watch, the reference itself are read
  back unchanged.
\<close>

theorem packed_watch_roundtrip:
  "(cr_new i b \<noteq> None) = (i < 2 ^ 31 - 1)
   \<and> (case cr_new i b of
        None \<Rightarrow> True
      | Some r \<Rightarrow> cr_index r = i \<and> cr_is_binary r = b \<and> pw_clause (pw_new r l) = Some r \<and> pw_blocker (pw_new r l) = l)"
proof (cases "cr_new i b")
  case None
  then show ?thesis using cr_new_iff [of i b] by simp
next
  case (Some r)
  have "cr_raw r \<noteq> 0" using Some by (auto simp: cr_new_def Let_def split: if_splits)
  then show ?thesis using Some cr_new_Some [OF Some] cr_new_iff [of i b] by (simp add: pw_new_clause pw_new_blocker)
qed

end
