(* ===== verification/Solver_State.thy ===== *)
theory Solver_State
  imports Clause_Ref Var_Order Vmtf_Order Restart_Policies Proof_Writer
begin

section \<open>The state of the solver (\<open>struct Solver\<close> in \<open>src/solver.rs\<close>)\<close>

text \<open>
  The state of the search with the default search strategy and clause management, and the
  operations on clauses, assignments and activities that the search is made of.

  Configuration: \<open>solver_config\<close> holds the switches of \<open>SolverConfig\<close> that the modelled code
  reads. The other switches have their default values: the EVSIDS strategy, LBD-free clause
  management, no trail reuse, no rephasing, and none of the preprocessing passes, so the
  branches they guard and the fields only they use are absent.
  Statistics: the counters that steer the search, and decisions and restarts.
  Floating point: \<open>'f\<close> stands for \<open>f64\<close> with the order of \<open>total_cmp\<close>; the operations come in
  a record \<open>float_ops\<close>, so every theorem holds whatever the rounding.
  Interruption: another thread may set the flag at any time. The value that the \<open>k\<close>-th load
  of the flag returns is \<open>s_interrupt s k\<close>, an arbitrary function.
  Memory: allocations succeed; \<open>try_reserve\<close> failures are not modelled.
\<close>

subsection \<open>Data\<close>

datatype restart_policy = Luby | Lbd

record solver_config =
  minimize_learned_clauses :: bool
  binary_fast_path :: bool
  restart_policy :: restart_policy
  block_lbd_restarts :: bool
  chronological_backtracking :: bool

definition default_config :: solver_config where
  "default_config = \<lparr>minimize_learned_clauses = True, binary_fast_path = True,
     restart_policy = Luby, block_lbd_restarts = True, chronological_backtracking = True\<rparr>"

record 'f float_ops =
  fl_zero :: 'f
  fl_one :: 'f
  fl_of_nat :: "nat \<Rightarrow> 'f"
  fl_literal :: "rat \<Rightarrow> 'f"
  fl_add :: "'f \<Rightarrow> 'f \<Rightarrow> 'f"
  fl_sub :: "'f \<Rightarrow> 'f \<Rightarrow> 'f"
  fl_mul :: "'f \<Rightarrow> 'f \<Rightarrow> 'f"
  fl_div :: "'f \<Rightarrow> 'f \<Rightarrow> 'f"
  fl_gt :: "'f \<Rightarrow> 'f \<Rightarrow> bool"
  fl_log10 :: "'f \<Rightarrow> 'f"
  fl_sqrt :: "'f \<Rightarrow> 'f"
  fl_floor_nat :: "'f \<Rightarrow> nat"

record 'f clause =
  cl_start :: nat
  cl_length :: nat
  cl_activity :: 'f
  cl_lbd :: nat
  cl_learned :: bool
  cl_deleted :: bool
  cl_used :: nat

datatype unknown_reason =
  Interrupted | ConflictLimit | PropagationLimit | IncompleteTheory | ModelValidationFailure

datatype solve_result = Sat (model_values: "bool list") | Unsat | Unknown unknown_reason

record solve_limits =
  limit_conflicts :: "nat option"
  limit_propagations :: "nat option"

datatype proof_clause_kind = FormulaClause | EncodingClause | TheoryClause | AdministrativeClause

datatype incremental_error =
  IrreversiblePreprocessing | VariableLimit | ResourceExhausted | ScopeUnderflow

record solver_stats =
  st_decisions :: nat
  st_propagations :: nat
  st_conflicts :: nat
  st_restarts :: nat
  st_reductions :: nat

record 'f solver =
  s_config :: solver_config
  s_proof :: "drat_step list"
  s_variable_count :: nat
  s_clauses :: "'f clause list"
  s_arena :: "lit list"
  s_binaries :: "(lit \<times> lit) list"
  s_binary_flags :: "u8 list"
  s_binary_activity_index :: "nat list"
  s_binary_activity :: "'f list"
  s_watches :: "watch list list"
  s_assignments :: "int list"
  s_levels :: "nat list"
  s_reasons :: "cref option list"
  s_phase :: "bool list"
  s_trail :: "lit list"
  s_trail_limits :: "nat list"
  s_head :: nat
  s_activity :: "'f list"
  s_variable_increment :: 'f
  s_usage_scores :: "nat list"
  s_order :: var_order
  s_vmtf :: vmtf_order
  s_seen :: "bool list"
  s_level_marks :: "nat list"
  s_level_mark :: nat
  s_consistent :: bool
  s_started :: bool
  s_scope_selectors :: "lit list"
  s_interrupt :: "nat \<Rightarrow> bool"
  s_polls :: nat
  s_limits :: solve_limits
  s_start_conflicts :: nat
  s_start_propagations :: nat
  s_control_active :: bool
  s_stop_reason :: "unknown_reason option"
  s_cached_assumptions :: "lit list"
  s_cached_result :: "solve_result option"
  s_failed :: "lit list"
  s_original_count :: nat
  s_proof_input :: "(proof_clause_kind \<times> lit list) list option"
  s_stats :: solver_stats
  s_since_restart :: nat
  s_restart_index :: nat
  s_restart_limit :: nat
  s_lbd_restart :: lbd_restart_state
  s_trail_restart :: trail_restart_state
  s_next_reduction :: nat
  s_active_learned :: nat

definition RESTART_BASE :: nat where "RESTART_BASE = 100"
definition LBD_FREE_FIRST_REDUCTION :: nat where "LBD_FREE_FIRST_REDUCTION = 1000"
definition LBD_FREE_REDUCTION_BASE :: nat where "LBD_FREE_REDUCTION_BASE = 1000"
definition LBD_FREE_DECAY_INTERVAL :: nat where "LBD_FREE_DECAY_INTERVAL = 2048"
definition CHRONO_LEVEL_LIMIT :: nat where "CHRONO_LEVEL_LIMIT = 100"
definition BLOCKING_RESTART_MIN_CONFLICTS :: nat where "BLOCKING_RESTART_MIN_CONFLICTS = 10000"
definition MAX_CLAUSE_USAGE :: nat where "MAX_CLAUSE_USAGE = 3"
definition BINARY_LEARNED :: u8 where "BINARY_LEARNED = 1"
definition BINARY_DELETED :: u8 where "BINARY_DELETED = 2"
definition NO_BINARY_ACTIVITY :: nat where "NO_BINARY_ACTIVITY = u32_max"

definition solver_with_config :: "'f float_ops \<Rightarrow> solver_config \<Rightarrow> (nat \<Rightarrow> bool) \<Rightarrow> 'f solver" where
  "solver_with_config F config interrupt =
     \<lparr>s_config = config, s_proof = [], s_variable_count = 0, s_clauses = [], s_arena = [],
      s_binaries = [], s_binary_flags = [], s_binary_activity_index = [], s_binary_activity = [],
      s_watches = [], s_assignments = [], s_levels = [], s_reasons = [], s_phase = [],
      s_trail = [], s_trail_limits = [], s_head = 0, s_activity = [],
      s_variable_increment = fl_one F, s_usage_scores = [], s_order = vo_empty,
      s_vmtf = vmtf_default, s_seen = [], s_level_marks = [], s_level_mark = 0,
      s_consistent = True, s_started = False, s_scope_selectors = [], s_interrupt = interrupt,
      s_polls = 0, s_limits = \<lparr>limit_conflicts = None, limit_propagations = None\<rparr>,
      s_start_conflicts = 0, s_start_propagations = 0, s_control_active = False,
      s_stop_reason = None, s_cached_assumptions = [], s_cached_result = None, s_failed = [],
      s_original_count = 0, s_proof_input = None,
      s_stats = \<lparr>st_decisions = 0, st_propagations = 0, st_conflicts = 0, st_restarts = 0,
                 st_reductions = 0\<rparr>,
      s_since_restart = 0, s_restart_index = 0, s_restart_limit = RESTART_BASE,
      s_lbd_restart = lbd_restart_default, s_trail_restart = trail_restart_default,
      s_next_reduction = LBD_FREE_FIRST_REDUCTION, s_active_learned = 0\<rparr>"

subsection \<open>Values\<close>

definition value_of :: "int list \<Rightarrow> lit \<Rightarrow> int" where
  "value_of assignments l =
     (let v = assignments ! var_index (lit_var l) in if is_positive l then v else - v)"

definition literal_value :: "'f solver \<Rightarrow> lit \<Rightarrow> int" where
  "literal_value s l = value_of (s_assignments s) l"

definition decision_level :: "'f solver \<Rightarrow> nat" where
  "decision_level s = length (s_trail_limits s)"

definition level_of :: "'f solver \<Rightarrow> lit \<Rightarrow> nat" where
  "level_of s l = s_levels s ! var_index (lit_var l)"

definition reason_of :: "'f solver \<Rightarrow> lit \<Rightarrow> cref option" where
  "reason_of s l = s_reasons s ! var_index (lit_var l)"

subsection \<open>Clauses\<close>

definition clause_original :: "'f float_ops \<Rightarrow> nat \<Rightarrow> nat \<Rightarrow> 'f clause" where
  "clause_original F start len =
     \<lparr>cl_start = start, cl_length = len, cl_activity = fl_zero F, cl_lbd = 0, cl_learned = False,
      cl_deleted = False, cl_used = 0\<rparr>"

definition clause_learnt :: "'f float_ops \<Rightarrow> nat \<Rightarrow> nat \<Rightarrow> nat \<Rightarrow> 'f clause" where
  "clause_learnt F start len lbd =
     \<lparr>cl_start = start, cl_length = len, cl_activity = fl_zero F, cl_lbd = lbd, cl_learned = True,
      cl_deleted = False, cl_used = MAX_CLAUSE_USAGE\<rparr>"

fun clause_deleted :: "'f solver \<Rightarrow> cref \<Rightarrow> bool" where
  "clause_deleted s (Binary i) \<longleftrightarrow> s_binary_flags s ! i AND BINARY_DELETED \<noteq> 0"
| "clause_deleted s (Long i) \<longleftrightarrow> cl_deleted (s_clauses s ! i)"

fun clause_learned :: "'f solver \<Rightarrow> cref \<Rightarrow> bool" where
  "clause_learned s (Binary i) \<longleftrightarrow> s_binary_flags s ! i AND BINARY_LEARNED \<noteq> 0"
| "clause_learned s (Long i) \<longleftrightarrow> cl_learned (s_clauses s ! i)"

definition slice :: "'a list \<Rightarrow> nat \<Rightarrow> nat \<Rightarrow> 'a list" where
  "slice xs start len = take len (drop start xs)"

fun clause_literals :: "'f solver \<Rightarrow> cref \<Rightarrow> lit list" where
  "clause_literals s (Binary i) = [fst (s_binaries s ! i), snd (s_binaries s ! i)]"
| "clause_literals s (Long i) =
     slice (s_arena s) (cl_start (s_clauses s ! i)) (cl_length (s_clauses s ! i))"

definition allocate_clause ::
  "'f float_ops \<Rightarrow> lit list \<Rightarrow> nat \<Rightarrow> bool \<Rightarrow> 'f solver \<Rightarrow> cref \<times> 'f solver" where
  "allocate_clause F literals lbd learned s =
     (if length literals = 2
      then (Binary (length (s_binaries s)),
            s\<lparr>s_binaries := s_binaries s @ [(literals ! 0, literals ! 1)],
              s_binary_activity_index := s_binary_activity_index s @
                [if learned then length (s_binary_activity s) else NO_BINARY_ACTIVITY],
              s_binary_activity :=
                (if learned then s_binary_activity s @ [fl_zero F] else s_binary_activity s),
              s_binary_flags := s_binary_flags s @ [if learned then BINARY_LEARNED else 0]\<rparr>)
      else
        let start = length (s_arena s); len = length literals
        in (Long (length (s_clauses s)),
            s\<lparr>s_arena := s_arena s @ literals,
              s_clauses := s_clauses s @
                [if learned then clause_learnt F start len lbd else clause_original F start len],
              s_usage_scores := s_usage_scores s @ [if learned then 1 else 0]\<rparr>))"

definition push_watch :: "lit \<Rightarrow> watch \<Rightarrow> 'f solver \<Rightarrow> 'f solver" where
  "push_watch l w s =
     s\<lparr>s_watches := (s_watches s)[lit_index l := s_watches s ! lit_index l @ [w]]\<rparr>"

definition attach_clause :: "cref \<Rightarrow> 'f solver \<Rightarrow> 'f solver" where
  "attach_clause c s =
     (let first = clause_literals s c ! 0; second = clause_literals s c ! 1
      in push_watch second (Watch c first) (push_watch first (Watch c second) s))"

definition bump_clause_usage :: "cref \<Rightarrow> 'f solver \<Rightarrow> 'f solver" where
  "bump_clause_usage c s =
     (if cref_is_binary c \<or> \<not> clause_learned s c \<or> clause_deleted s c then s
      else s\<lparr>s_usage_scores := (s_usage_scores s)
              [cref_index c := min (s_usage_scores s ! cref_index c + 1) u32_max]\<rparr>)"

definition mark_clause_deleted :: "cref \<Rightarrow> 'f solver \<Rightarrow> 'f solver" where
  "mark_clause_deleted c s =
     (let s1 = s\<lparr>s_proof := s_proof s @ [DeleteStep (clause_literals s c)]\<rparr>; i = cref_index c
      in if cref_is_binary c
         then s1\<lparr>s_binary_flags := (s_binary_flags s)[i := s_binary_flags s ! i OR BINARY_DELETED]\<rparr>
         else s1\<lparr>s_clauses := (s_clauses s)[i := (s_clauses s ! i)\<lparr>cl_deleted := True\<rparr>]\<rparr>)"

subsection \<open>Assignments\<close>

definition enqueue_internal :: "bool \<Rightarrow> lit \<Rightarrow> cref option \<Rightarrow> 'f solver \<Rightarrow> bool \<times> 'f solver" where
  "enqueue_internal save_phase l reason s =
     (let i = var_index (lit_var l)
      in if literal_value s l = 1 then (True, s)
         else if literal_value s l = - 1 then (False, s)
         else (True,
           s\<lparr>s_assignments := (s_assignments s)[i := (if is_positive l then 1 else - 1)],
             s_levels := (s_levels s)[i := decision_level s],
             s_reasons := (s_reasons s)[i := reason],
             s_phase := (if save_phase then (s_phase s)[i := is_positive l] else s_phase s),
             s_trail := s_trail s @ [l]\<rparr>))"

definition enqueue :: "lit \<Rightarrow> cref option \<Rightarrow> 'f solver \<Rightarrow> bool \<times> 'f solver" where
  "enqueue l reason s = enqueue_internal True l reason s"

definition new_level :: "'f solver \<Rightarrow> 'f solver" where
  "new_level s = s\<lparr>s_trail_limits := s_trail_limits s @ [length (s_trail s)]\<rparr>"

definition unassign :: "lit \<Rightarrow> 'f::linorder solver \<Rightarrow> 'f solver" where
  "unassign l s =
     (let i = var_index (lit_var l)
      in s\<lparr>s_assignments := (s_assignments s)[i := 0],
           s_reasons := (s_reasons s)[i := None],
           s_levels := (s_levels s)[i := 0],
           s_order := vo_insert (lit_var l) (s_activity s) (s_order s),
           s_vmtf := vmtf_unassign (lit_var l) (s_vmtf s)\<rparr>)"

definition cancel_until :: "nat \<Rightarrow> 'f::linorder solver \<Rightarrow> 'f solver" where
  "cancel_until level s =
     (if decision_level s \<le> level then s
      else
        let target = s_trail_limits s ! level;
            s1 = fold unassign (rev (drop target (s_trail s))) s
        in s1\<lparr>s_trail := take target (s_trail s),
              s_trail_limits := take level (s_trail_limits s),
              s_head := min (s_head s) target\<rparr>)"

definition pick_branch_literal :: "'f::linorder solver \<Rightarrow> lit option \<times> 'f solver" where
  "pick_branch_literal s =
     (case pick_unassigned (s_assignments s) (s_activity s) (s_order s) of
        (None, h) \<Rightarrow> (None, s\<lparr>s_order := h\<rparr>)
      | (Some v, h) \<Rightarrow> (Some (lit_new v (s_phase s ! var_index v)), s\<lparr>s_order := h\<rparr>))"

subsection \<open>Activities\<close>

definition bump_variable_activity :: "'f::linorder float_ops \<Rightarrow> var \<Rightarrow> 'f solver \<Rightarrow> 'f solver" where
  "bump_variable_activity F v s =
     (let i = var_index v;
          bumped = (s_activity s)[i := fl_add F (s_activity s ! i) (s_variable_increment s)];
          rescale = fl_gt F (bumped ! i) (fl_literal F (10 ^ 100));
          scale = (\<lambda>x. fl_mul F x (fl_literal F (1 / 10 ^ 100)));
          activity = (if rescale then map scale bumped else bumped)
      in s\<lparr>s_activity := activity,
           s_variable_increment :=
             (if rescale then scale (s_variable_increment s) else s_variable_increment s),
           s_order := vo_increase v activity (s_order s)\<rparr>)"

definition decay_activities :: "'f float_ops \<Rightarrow> 'f solver \<Rightarrow> 'f solver" where
  "decay_activities F s =
     s\<lparr>s_variable_increment := fl_div F (s_variable_increment s) (fl_literal F (95 / 100))\<rparr>"

definition decay_clause_usage_scores :: "'f solver \<Rightarrow> 'f solver" where
  "decay_clause_usage_scores s =
     s\<lparr>s_usage_scores :=
         fold (\<lambda>i scores.
             if \<not> cl_learned (s_clauses s ! i) \<or> cl_deleted (s_clauses s ! i) then scores
             else if scores ! i > 0 then scores[i := scores ! i - 1] else scores)
           [0..<length (s_clauses s)] (s_usage_scores s)\<rparr>"

definition should_decay_clause_usage :: "nat \<Rightarrow> bool" where
  "should_decay_clause_usage conflicts \<longleftrightarrow> conflicts > 0 \<and> conflicts mod LBD_FREE_DECAY_INTERVAL = 0"

subsection \<open>Reduction of the clause database\<close>

definition locked_clauses :: "'f solver \<Rightarrow> bool list" where
  "locked_clauses s =
     fold (\<lambda>r locked. case r of Some (Long i) \<Rightarrow> locked[i := True] | _ \<Rightarrow> locked)
       (s_reasons s) (replicate (length (s_clauses s)) False)"

definition lbd_free_deletion_fraction :: "'f float_ops \<Rightarrow> nat \<Rightarrow> 'f" where
  "lbd_free_deletion_fraction F reduction =
     fl_sub F (fl_literal F (90 / 100))
       (fl_div F (fl_literal F (40 / 100)) (fl_log10 F (fl_of_nat F (sat_add64 reduction 9))))"

definition lbd_free_reduction_interval :: "'f float_ops \<Rightarrow> nat \<Rightarrow> nat" where
  "lbd_free_reduction_interval F reduction =
     fl_floor_nat F (fl_mul F (fl_of_nat F LBD_FREE_REDUCTION_BASE) (fl_sqrt F (fl_of_nat F reduction)))"

definition reduction_candidates :: "'f solver \<Rightarrow> nat list" where
  "reduction_candidates s =
     (let locked = locked_clauses s
      in filter (\<lambda>i. cl_learned (s_clauses s ! i) \<and> \<not> cl_deleted (s_clauses s ! i) \<and> \<not> locked ! i
                     \<and> \<not> s_usage_scores s ! i > 0) [0..<length (s_clauses s)])"

text \<open>
  The candidates are in ascending order, so the sort by descending length with ties by
  ascending reference is the stable sort by descending length.
\<close>

definition reduce_database :: "'f float_ops \<Rightarrow> 'f solver \<Rightarrow> 'f solver" where
  "reduce_database F s =
     (let candidates = rev (sort_key (\<lambda>i. cl_length (s_clauses s ! i)) (rev (reduction_candidates s)));
          reduction = sat_add64 (st_reductions (s_stats s)) 1;
          deletion_count = fl_floor_nat F
            (fl_mul F (lbd_free_deletion_fraction F reduction) (fl_of_nat F (length candidates)));
          s1 = fold (\<lambda>i s. (mark_clause_deleted (Long i) s)
                       \<lparr>s_active_learned := s_active_learned s - 1\<rparr>)
                 (take deletion_count candidates) s
      in s1\<lparr>s_stats := (s_stats s1)\<lparr>st_reductions := reduction\<rparr>\<rparr>)"

end
