(* ===== verification/Solver_Search.thy ===== *)
theory Solver_Search
  imports Solver_State
begin

section \<open>The search of the solver (\<open>src/solver.rs\<close>)\<close>

text \<open>
  Unit propagation over two watched literals, conflict analysis with learned clause
  minimisation, restarts, database reduction, and one iteration of the search loop; then the
  search itself, the incremental interface around it, and the solve call. \<open>None\<close> as the result
  of a partial operation stands for a panic of the code.
\<close>

subsection \<open>Stopping\<close>

definition begin_search_control :: "solve_limits \<Rightarrow> 'f solver \<Rightarrow> 'f solver" where
  "begin_search_control limits s =
     s\<lparr>s_limits := limits, s_start_conflicts := st_conflicts (s_stats s),
       s_start_propagations := st_propagations (s_stats s), s_stop_reason := None,
       s_control_active := True\<rparr>"

definition limit_reached :: "nat option \<Rightarrow> nat \<Rightarrow> nat \<Rightarrow> bool" where
  "limit_reached limit now start = (case limit of None \<Rightarrow> False | Some n \<Rightarrow> now - start \<ge> n)"

definition poll_search_stop :: "'f solver \<Rightarrow> unknown_reason option \<times> 'f solver" where
  "poll_search_stop s =
     (if \<not> s_control_active s then (None, s)
      else case s_stop_reason s of Some r \<Rightarrow> (Some r, s)
      | None \<Rightarrow>
          let reason =
            (if s_interrupt s (s_polls s) then Some Interrupted
             else if limit_reached (limit_conflicts (s_limits s)) (st_conflicts (s_stats s))
                       (s_start_conflicts s)
             then Some ConflictLimit
             else if limit_reached (limit_propagations (s_limits s))
                       (st_propagations (s_stats s)) (s_start_propagations s)
             then Some PropagationLimit
             else None)
          in (reason, s\<lparr>s_polls := s_polls s + 1, s_stop_reason := reason\<rparr>))"

subsection \<open>Propagation\<close>

text \<open>
  One watch of the list of \<open>falsified\<close>, with phases saved. The result is the watch that stays
  in the list, if any, and the conflicting clause, if any.
\<close>

definition swap_first_two :: "lit \<Rightarrow> lit list \<Rightarrow> lit list" where
  "swap_first_two falsified lits = (if lits ! 0 = falsified then list_swap lits 0 1 else lits)"

definition write_literals :: "cref \<Rightarrow> lit list \<Rightarrow> 'f solver \<Rightarrow> 'f solver" where
  "write_literals c lits s =
     (case c of
        Binary i \<Rightarrow> s\<lparr>s_binaries := (s_binaries s)[i := (lits ! 0, lits ! 1)]\<rparr>
      | Long i \<Rightarrow>
          let start = cl_start (s_clauses s ! i)
          in s\<lparr>s_arena := take start (s_arena s) @ lits @ drop (start + length lits) (s_arena s)\<rparr>)"

definition find_replacement :: "int list \<Rightarrow> lit list \<Rightarrow> nat option" where
  "find_replacement assignments lits =
     List.find (\<lambda>j. value_of assignments (lits ! j) \<noteq> - 1) [2..<length lits]"

definition visit_binary_fast :: "watch \<Rightarrow> 'f solver \<Rightarrow> watch option \<times> cref option \<times> 'f solver" where
  "visit_binary_fast w s =
     (let c = w_clause w; blocker = w_blocker w
      in if literal_value s blocker = 1 then (Some w, None, s)
         else if literal_value s blocker = - 1 then (Some w, Some c, s)
         else (Some w, None, snd (enqueue blocker (Some c) s)))"

definition visit_binary_slow ::
  "lit \<Rightarrow> watch \<Rightarrow> 'f solver \<Rightarrow> watch option \<times> cref option \<times> 'f solver" where
  "visit_binary_slow falsified w s =
     (let c = w_clause w;
          lits = swap_first_two falsified (clause_literals s c);
          s1 = write_literals c lits s;
          other = lits ! 0
      in if literal_value s1 other = - 1 then (Some (Watch c other), Some c, s1)
         else (Some (Watch c other), None, snd (enqueue other (Some c) s1)))"

definition visit_long ::
  "lit \<Rightarrow> watch \<Rightarrow> 'f solver \<Rightarrow> watch option \<times> cref option \<times> 'f solver" where
  "visit_long falsified w s =
     (let c = w_clause w;
          lits = swap_first_two falsified (clause_literals s c);
          s1 = write_literals c lits s;
          other = lits ! 0
      in if literal_value s1 other = 1 then (Some (Watch c other), None, s1)
         else case find_replacement (s_assignments s1) lits of
           Some j \<Rightarrow>
             let lits' = list_swap lits 1 j
             in (None, None, push_watch (lits' ! 1) (Watch c other) (write_literals c lits' s1))
         | None \<Rightarrow>
             if literal_value s1 other = - 1 then (Some (Watch c other), Some c, s1)
             else (Some (Watch c other), None,
                   snd (enqueue other (Some c) (bump_clause_usage c s1))))"

definition visit_watch ::
  "lit \<Rightarrow> watch \<Rightarrow> 'f solver \<Rightarrow> watch option \<times> cref option \<times> 'f solver" where
  "visit_watch falsified w s =
     (let c = w_clause w
      in if clause_deleted s c then (None, None, s)
         else if cref_is_binary c \<and> binary_fast_path (s_config s) then visit_binary_fast w s
         else if literal_value s (w_blocker w) = 1 then (Some w, None, s)
         else if cref_is_binary c then visit_binary_slow falsified w s
         else visit_long falsified w s)"

text \<open>
  The scan of the watch list of a falsified literal: \<open>kept\<close> is \<open>pending[..retained]\<close> and the
  third argument \<open>pending[read..]\<close>; a conflict keeps the unscanned rest.
\<close>

fun scan_watches ::
  "lit \<Rightarrow> watch list \<Rightarrow> watch list \<Rightarrow> 'f solver \<Rightarrow> cref option \<times> watch list \<times> 'f solver" where
  "scan_watches falsified kept [] s = (None, kept, s)"
| "scan_watches falsified kept (w # rest) s =
     (case visit_watch falsified w s of
        (k, conflict, s') \<Rightarrow>
          case conflict of
            Some c \<Rightarrow> (Some c, kept @ (case k of None \<Rightarrow> [] | Some w' \<Rightarrow> [w']) @ rest, s')
          | None \<Rightarrow> scan_watches falsified (kept @ (case k of None \<Rightarrow> [] | Some w' \<Rightarrow> [w'])) rest s')"

definition propagate_literal :: "'f solver \<Rightarrow> cref option \<times> 'f solver" where
  "propagate_literal s =
     (let falsified = lit_not (s_trail s ! s_head s);
          i = lit_index falsified;
          pending = s_watches s ! i;
          s1 = s\<lparr>s_head := s_head s + 1,
                 s_stats := (s_stats s)\<lparr>st_propagations := st_propagations (s_stats s) + 1\<rparr>,
                 s_watches := (s_watches s)[i := []]\<rparr>
      in case scan_watches falsified [] pending s1 of
           (conflict, kept, s2) \<Rightarrow> (conflict, s2\<lparr>s_watches := (s_watches s2)[i := kept]\<rparr>))"

text \<open>Every variable is on the trail at most once, so one round per variable is enough fuel.\<close>

fun propagate_fuel :: "nat \<Rightarrow> 'f solver \<Rightarrow> cref option \<times> 'f solver" where
  "propagate_fuel 0 s = (None, s)"
| "propagate_fuel (Suc fuel) s =
     (if s_head s < length (s_trail s)
      then (case poll_search_stop s of
              (Some _, s') \<Rightarrow> (None, s')
            | (None, s') \<Rightarrow>
                (case propagate_literal s' of
                   (Some c, s'') \<Rightarrow> (Some c, s'')
                 | (None, s'') \<Rightarrow> propagate_fuel fuel s''))
      else (None, s))"

definition propagate :: "'f solver \<Rightarrow> cref option \<times> 'f solver" where
  "propagate s = propagate_fuel (length (s_assignments s)) s"

subsection \<open>Literal block distance\<close>

definition next_level_mark :: "'f solver \<Rightarrow> 'f solver" where
  "next_level_mark s =
     (let mark = (s_level_mark s + 1) mod 2 ^ 32;
          marks = (if mark = 0 then replicate (length (s_level_marks s)) 0 else s_level_marks s);
          required = length (s_trail_limits s) + 1
      in s\<lparr>s_level_mark := (if mark = 0 then 1 else mark),
           s_level_marks := (if length marks < required then resize required 0 marks else marks)\<rparr>)"

definition mark_level :: "nat \<Rightarrow> nat list \<Rightarrow> nat list \<times> nat \<Rightarrow> lit \<Rightarrow> nat list \<times> nat" where
  "mark_level mark levels = (\<lambda>(marks, count) l.
     let level = levels ! var_index (lit_var l)
     in if marks ! level \<noteq> mark then (marks[level := mark], min (count + 1) u32_max)
        else (marks, count))"

definition literal_block_distance :: "lit list \<Rightarrow> 'f solver \<Rightarrow> nat \<times> 'f solver" where
  "literal_block_distance lits s =
     (let s1 = next_level_mark s;
          (marks, count) = foldl (mark_level (s_level_mark s1) (s_levels s1)) (s_level_marks s1, 0) lits
      in (count, s1\<lparr>s_level_marks := marks\<rparr>))"

subsection \<open>Learned clause minimisation\<close>

definition abstract_level :: "nat \<Rightarrow> u32" where
  "abstract_level level = push_bit (unat ((of_nat level :: u32) AND 31)) 1"

text \<open>
  The literals of one reason: a literal at level 0 or already seen is skipped, one that may be
  redundant is marked and pushed, any other one ends the attempt (\<open>None\<close>). The argument is the
  triple of the marks, the touched variables and the stack.
\<close>

fun redundant_reason ::
  "'f solver \<Rightarrow> u32 \<Rightarrow> var \<Rightarrow> lit list \<Rightarrow> bool list \<times> var list \<times> lit list \<Rightarrow>
   (bool list \<times> var list) + (bool list \<times> var list \<times> lit list)" where
  "redundant_reason s levels v [] acc = Inr acc"
| "redundant_reason s levels v (l # ls) (seen, touched, stack) =
     (let i = var_index (lit_var l); level = s_levels s ! i
      in if lit_var l = v then redundant_reason s levels v ls (seen, touched, stack)
         else if level = 0 \<or> seen ! i then redundant_reason s levels v ls (seen, touched, stack)
         else if s_reasons s ! i \<noteq> None \<and> levels AND abstract_level level \<noteq> 0
         then redundant_reason s levels v ls (seen[i := True], touched @ [lit_var l], stack @ [l])
         else Inl (seen, touched))"

definition unmark :: "var list \<Rightarrow> bool list \<Rightarrow> bool list" where
  "unmark vs seen = fold (\<lambda>v seen. seen[var_index v := False]) vs seen"

text \<open>
  Every round of the depth-first search pops one literal, and every pushed literal was marked,
  so one round more than there are variables is enough fuel.
\<close>

fun redundant_loop ::
  "nat \<Rightarrow> 'f solver \<Rightarrow> u32 \<Rightarrow> nat \<Rightarrow> bool list \<times> var list \<times> lit list \<Rightarrow>
   (bool \<times> bool list \<times> var list) option" where
  "redundant_loop 0 s levels touched_before (seen, touched, stack) = None"
| "redundant_loop (Suc fuel) s levels touched_before (seen, touched, stack) =
     (if stack = [] then Some (True, seen, touched)
      else
        case reason_of s (last stack) of
          None \<Rightarrow> None
        | Some r \<Rightarrow>
            (case redundant_reason s levels (lit_var (last stack)) (clause_literals s r)
                    (seen, touched, butlast stack) of
               Inl (seen', touched') \<Rightarrow>
                 Some (False, unmark (rev (drop touched_before touched')) seen', take touched_before touched')
             | Inr acc \<Rightarrow> redundant_loop fuel s levels touched_before acc))"

definition literal_redundant ::
  "'f solver \<Rightarrow> u32 \<Rightarrow> lit \<Rightarrow> bool list \<times> var list \<Rightarrow> (bool \<times> bool list \<times> var list) option" where
  "literal_redundant s levels l = (\<lambda>(seen, touched).
     redundant_loop (length seen + 2) s levels (length touched) (seen, touched, [l]))"

fun minimize_tail ::
  "'f solver \<Rightarrow> u32 \<Rightarrow> lit list \<Rightarrow> lit list \<Rightarrow> bool list \<times> var list \<Rightarrow>
   (lit list \<times> bool list \<times> var list) option" where
  "minimize_tail s levels kept [] (seen, touched) = Some (kept, seen, touched)"
| "minimize_tail s levels kept (l # ls) (seen, touched) =
     (if reason_of s l \<noteq> None
      then (case literal_redundant s levels l (seen, touched) of
              None \<Rightarrow> None
            | Some (redundant, seen', touched') \<Rightarrow>
                minimize_tail s levels (if redundant then kept else kept @ [l]) ls (seen', touched'))
      else minimize_tail s levels (kept @ [l]) ls (seen, touched))"

definition minimize_learned_clause ::
  "'f solver \<Rightarrow> lit list \<Rightarrow> var list \<Rightarrow> (lit list \<times> var list \<times> 'f solver) option" where
  "minimize_learned_clause s learned touched =
     (let levels = fold (\<lambda>l acc. acc OR abstract_level (level_of s l)) (tl learned) 0
      in case minimize_tail s levels [hd learned] (tl learned) (s_seen s, touched) of
           None \<Rightarrow> None
         | Some (learned', seen, touched') \<Rightarrow> Some (learned', touched', s\<lparr>s_seen := seen\<rparr>))"

subsection \<open>Conflict analysis\<close>

record 'f analysis =
  an_solver :: "'f solver"
  an_learned :: "lit list"
  an_touched :: "var list"
  an_path_count :: nat

fun analyze_literals ::
  "'f::linorder float_ops \<Rightarrow> var option \<Rightarrow> nat \<Rightarrow> lit list \<Rightarrow> 'f analysis \<Rightarrow> 'f analysis" where
  "analyze_literals F resolved current [] a = a"
| "analyze_literals F resolved current (l # ls) a =
     (let v = lit_var l; i = var_index v; s = an_solver a
      in if resolved = Some v then analyze_literals F resolved current ls a
         else if \<not> s_seen s ! i \<and> s_levels s ! i > 0
         then
           let s' = bump_variable_activity F v (s\<lparr>s_seen := (s_seen s)[i := True]\<rparr>);
               a' = a\<lparr>an_solver := s', an_touched := an_touched a @ [v]\<rparr>
           in analyze_literals F resolved current ls
                (if s_levels s ! i = current
                 then a'\<lparr>an_path_count := an_path_count a + 1\<rparr>
                 else a'\<lparr>an_learned := an_learned a @ [l]\<rparr>)
         else analyze_literals F resolved current ls a)"

fun find_pivot :: "bool list \<Rightarrow> lit list \<Rightarrow> nat \<Rightarrow> nat option" where
  "find_pivot seen trail 0 = None"
| "find_pivot seen trail (Suc i) =
     (if seen ! var_index (lit_var (trail ! i)) then Some i else find_pivot seen trail i)"

lemma find_pivot_less: "find_pivot seen trail n = Some i \<Longrightarrow> i < n"
  by (induction n) (auto split: if_splits intro: less_SucI)

text \<open>The resolution loop, down to the first unique implication point.\<close>

function analyze_loop ::
  "'f::linorder float_ops \<Rightarrow> nat \<Rightarrow> var option \<Rightarrow> cref \<Rightarrow> nat \<Rightarrow> 'f analysis \<Rightarrow> 'f analysis option" where
  "analyze_loop F current resolved c index a =
     (let a1 = analyze_literals F resolved current (clause_literals (an_solver a) c)
                 (a\<lparr>an_solver := bump_clause_usage c (an_solver a)\<rparr>);
          s = an_solver a1
      in case find_pivot (s_seen s) (s_trail s) index of
           None \<Rightarrow> None
         | Some i \<Rightarrow>
             let pivot = s_trail s ! i; v = lit_var pivot;
                 a2 = a1\<lparr>an_solver := s\<lparr>s_seen := (s_seen s)[var_index v := False]\<rparr>,
                         an_path_count := an_path_count a1 - 1\<rparr>
             in if an_path_count a2 = 0
                then Some (a2\<lparr>an_learned := (an_learned a2)[0 := lit_not pivot]\<rparr>)
                else (case s_reasons s ! var_index v of
                        None \<Rightarrow> None
                      | Some r \<Rightarrow> analyze_loop F current (Some v) r i a2))"
  by pat_completeness auto
termination
  by (relation "measure (\<lambda>(_, _, _, _, index, _). index)") (auto dest: find_pivot_less)

declare analyze_loop.simps [simp del]

definition highest_level_index :: "'f solver \<Rightarrow> lit list \<Rightarrow> nat" where
  "highest_level_index s learned =
     fold (\<lambda>i highest. if level_of s (learned ! i) > level_of s (learned ! highest) then i else highest)
       [2..<length learned] 1"

definition analyze ::
  "'f::linorder float_ops \<Rightarrow> cref \<Rightarrow> 'f solver \<Rightarrow> (lit list \<times> nat \<times> nat \<times> 'f solver) option" where
  "analyze F conflict s0 =
     (case analyze_loop F (decision_level s0) None conflict (length (s_trail s0))
             \<lparr>an_solver = s0, an_learned = [lit_positive (Var 0)], an_touched = [], an_path_count = 0\<rparr> of
        None \<Rightarrow> None
      | Some a \<Rightarrow>
          (case (if minimize_learned_clauses (s_config (an_solver a)) \<and> length (an_learned a) > 1
                 then minimize_learned_clause (an_solver a) (an_learned a) (an_touched a)
                 else Some (an_learned a, an_touched a, an_solver a)) of
             None \<Rightarrow> None
           | Some (learned, touched, s1) \<Rightarrow>
               let (lbd, s2) = literal_block_distance learned s1;
                   s3 = s2\<lparr>s_seen := unmark touched (s_seen s2)\<rparr>
               in if length learned = 1 then Some (learned, 0, lbd, s3)
                  else
                    let learned' = list_swap learned 1 (highest_level_index s3 learned)
                    in Some (learned', level_of s3 (learned' ! 1), lbd, s3)))"

definition determine_backtrack_level :: "nat \<Rightarrow> nat \<Rightarrow> 'f solver \<Rightarrow> nat" where
  "determine_backtrack_level jump_level learned_length s =
     (if \<not> chronological_backtracking (s_config s) \<or> learned_length = 1 then jump_level
      else
        let chronological_level = decision_level s - 1;
            preserved_levels = chronological_level - jump_level
        in if preserved_levels \<le> CHRONO_LEVEL_LIMIT then jump_level else chronological_level)"

subsection \<open>Restarts\<close>

definition should_restart :: "'f solver \<Rightarrow> bool" where
  "should_restart s =
     (case restart_policy (s_config s) of
        Luby \<Rightarrow> s_since_restart s \<ge> s_restart_limit s
      | Lbd \<Rightarrow> lbd_should_restart (s_lbd_restart s))"

definition restart :: "'f::linorder solver \<Rightarrow> 'f solver" where
  "restart s0 =
     (let s = cancel_until 0 s0;
          s1 = s\<lparr>s_stats := (s_stats s)\<lparr>st_restarts := st_restarts (s_stats s) + 1\<rparr>,
                 s_since_restart := 0\<rparr>
      in case restart_policy (s_config s1) of
           Luby \<Rightarrow>
             let i = min (s_restart_index s1 + 1) u32_max
             in s1\<lparr>s_restart_index := i, s_restart_limit := sat_mul64 RESTART_BASE (luby i)\<rparr>
         | Lbd \<Rightarrow> s1\<lparr>s_lbd_restart := lbd_clear_recent (s_lbd_restart s1)\<rparr>)"

subsection \<open>One iteration of the search\<close>

definition observe_trail :: "'f solver \<Rightarrow> 'f solver" where
  "observe_trail s =
     (if restart_policy (s_config s) = Lbd
      then
        let len = length (s_trail s); tr = trail_observe len (s_trail_restart s)
        in s\<lparr>s_trail_restart := tr,
             s_lbd_restart :=
               (if block_lbd_restarts (s_config s)
                   \<and> st_conflicts (s_stats s) > BLOCKING_RESTART_MIN_CONFLICTS
                   \<and> lbd_is_full (s_lbd_restart s) \<and> unusually_deep len tr
                then lbd_clear_recent (s_lbd_restart s) else s_lbd_restart s)\<rparr>
      else s)"

definition observe_lbd :: "nat \<Rightarrow> 'f solver \<Rightarrow> 'f solver" where
  "observe_lbd lbd s =
     (if restart_policy (s_config s) = Lbd
      then s\<lparr>s_lbd_restart := lbd_observe lbd (s_lbd_restart s)\<rparr> else s)"

definition add_learned ::
  "'f::linorder float_ops \<Rightarrow> lit list \<Rightarrow> nat \<Rightarrow> 'f solver \<Rightarrow> 'f solver" where
  "add_learned F learned lbd s =
     (if length learned = 1 then snd (enqueue (learned ! 0) None s)
      else
        let asserting = learned ! 0;
            (c, s1) = allocate_clause F learned lbd True s;
            s2 = attach_clause c s1;
            s3 = s2\<lparr>s_active_learned := s_active_learned s2 + 1\<rparr>
        in snd (enqueue asserting (Some c) s3))"

definition maintain_database :: "'f::linorder float_ops \<Rightarrow> 'f solver \<Rightarrow> 'f solver" where
  "maintain_database F s =
     (if st_conflicts (s_stats s) \<ge> s_next_reduction s
      then
        let s1 = reduce_database F s
        in s1\<lparr>s_next_reduction := sat_add64 (st_conflicts (s_stats s1))
                (lbd_free_reduction_interval F (st_reductions (s_stats s1)))\<rparr>
      else s)"

definition count_conflict :: "'f solver \<Rightarrow> 'f solver" where
  "count_conflict s =
     (let n = st_conflicts (s_stats s) + 1;
          s1 = s\<lparr>s_stats := (s_stats s)\<lparr>st_conflicts := n\<rparr>\<rparr>;
          s2 = (if should_decay_clause_usage n then decay_clause_usage_scores s1 else s1)
      in s2\<lparr>s_since_restart := s_since_restart s2 + 1\<rparr>)"

text \<open>The conflict branch above level 0: analyse, learn, backtrack, maintain, restart.\<close>

definition resolve_conflict ::
  "'f::linorder float_ops \<Rightarrow> cref \<Rightarrow> 'f solver \<Rightarrow> 'f solver option" where
  "resolve_conflict F conflict s =
     (case analyze F conflict (observe_trail s) of
        None \<Rightarrow> None
      | Some (learned, jump_level, lbd, s1) \<Rightarrow>
          let s2 = observe_lbd lbd s1;
              s3 = s2\<lparr>s_proof := s_proof s2 @ [AddStep learned]\<rparr>;
              s4 = cancel_until (determine_backtrack_level jump_level (length learned) s3) s3;
              s5 = decay_activities F (add_learned F learned lbd s4);
              s6 = maintain_database F s5
          in Some (if should_restart s6 \<and> decision_level s6 > 0 then restart s6 else s6))"

text \<open>
  The final conflict analysis: the assumptions that together contradict the clauses. The
  index runs from the end of the trail down to the first assumption.
\<close>

definition mark_antecedents :: "'f solver \<Rightarrow> var \<Rightarrow> lit list \<Rightarrow> bool list \<Rightarrow> bool list" where
  "mark_antecedents s v lits seen =
     fold (\<lambda>l seen. if lit_var l \<noteq> v \<and> level_of s l > 0
                    then seen[var_index (lit_var l) := True] else seen) lits seen"

fun failed_loop :: "'f solver \<Rightarrow> lit list \<Rightarrow> bool list \<times> lit list \<Rightarrow> bool list \<times> lit list" where
  "failed_loop s [] acc = acc"
| "failed_loop s (assigned # rest) (seen, conflict) =
     (let v = lit_var assigned
      in if \<not> seen ! var_index v then failed_loop s rest (seen, conflict)
         else
           let seen1 = seen[var_index v := False]
           in case reason_of s assigned of
                Some r \<Rightarrow> failed_loop s rest (mark_antecedents s v (clause_literals s r) seen1, conflict)
              | None \<Rightarrow> failed_loop s rest (seen1, conflict @ [lit_not assigned]))"

definition analyze_failed_assumption ::
  "lit \<Rightarrow> lit list \<Rightarrow> 'f solver \<Rightarrow> lit list \<times> 'f solver" where
  "analyze_failed_assumption failed assumptions s =
     (let i = var_index (lit_var failed);
          seen0 = (s_seen s)[i := True];
          (seen, conflict) =
            (if decision_level s > 0
             then failed_loop s (rev (drop (s_trail_limits s ! 0) (s_trail s))) (seen0, [lit_not failed])
             else (seen0, [lit_not failed]));
          core = fold (\<lambda>a acc. if lit_not a \<in> set conflict \<and> a \<notin> set acc then acc @ [a] else acc)
                   assumptions []
      in (core, s\<lparr>s_seen := seen[i := False]\<rparr>))"

definition search_decide ::
  "lit list \<Rightarrow> 'f::linorder solver \<Rightarrow> (solve_result + unit) \<times> 'f solver" where
  "search_decide assumptions s =
     (if decision_level s < length assumptions
      then
        let a = assumptions ! decision_level s
        in if literal_value s a = 1 then (Inr (), new_level s)
           else if literal_value s a = - 1
           then let (core, s1) = analyze_failed_assumption a assumptions s
                in (Inl Unsat, s1\<lparr>s_failed := core\<rparr>)
           else (Inr (), snd (enqueue_internal False a None (new_level s)))
      else
        case pick_branch_literal s of
          (Some d, s1) \<Rightarrow>
            let s2 = new_level s1;
                s3 = s2\<lparr>s_stats := (s_stats s2)\<lparr>st_decisions := st_decisions (s_stats s2) + 1\<rparr>\<rparr>
            in (Inr (), snd (enqueue d None s3))
        | (None, s1) \<Rightarrow>
            (Inl (Sat (take (s_variable_count s1) (map (\<lambda>v. v = 1) (s_assignments s1)))), s1))"

definition search_step ::
  "'f::linorder float_ops \<Rightarrow> lit list \<Rightarrow> 'f solver \<Rightarrow> ((solve_result + unit) \<times> 'f solver) option" where
  "search_step F assumptions s0 =
     (case poll_search_stop s0 of
        (Some r, s) \<Rightarrow> Some (Inl (Unknown r), s)
      | (None, s) \<Rightarrow>
          case propagate s of
            (conflict, s1) \<Rightarrow>
              (case poll_search_stop s1 of
                 (Some r, s2) \<Rightarrow> Some (Inl (Unknown r), s2)
               | (None, s2) \<Rightarrow>
                   (case conflict of
                      Some c \<Rightarrow>
                        let s3 = count_conflict s2
                        in if decision_level s3 = 0
                           then Some (Inl Unsat, s3\<lparr>s_consistent := False\<rparr>)
                           else map_option (Pair (Inr ())) (resolve_conflict F c s3)
                    | None \<Rightarrow> Some (search_decide assumptions s2))))"

partial_function (option) search ::
  "'f::linorder float_ops \<Rightarrow> lit list \<Rightarrow> 'f solver \<Rightarrow> (solve_result \<times> 'f solver) option" where
  "search F assumptions s =
     (case search_step F assumptions s of
        None \<Rightarrow> None
      | Some (Inl r, s') \<Rightarrow> Some (r, s')
      | Some (Inr _, s') \<Rightarrow> search F assumptions s')"

declare search.simps [code]

subsection \<open>The incremental interface\<close>

definition grow_variables :: "'f::linorder float_ops \<Rightarrow> nat \<Rightarrow> 'f solver \<Rightarrow> 'f solver" where
  "grow_variables F n s =
     (let old = length (s_assignments s); activity = resize n (fl_zero F) (s_activity s)
      in if n \<le> old then s
         else s\<lparr>s_assignments := resize n 0 (s_assignments s),
                s_levels := resize n 0 (s_levels s),
                s_reasons := resize n None (s_reasons s),
                s_phase := resize n True (s_phase s),
                s_activity := activity,
                s_seen := resize n False (s_seen s),
                s_watches := resize (n * 2) [] (s_watches s),
                s_order := vo_grow old n activity (s_order s),
                s_vmtf := vmtf_grow old n (s_vmtf s)\<rparr>)"

definition prepare_incremental_mutation :: "'f::linorder solver \<Rightarrow> 'f solver" where
  "prepare_incremental_mutation s =
     (if s_started s then cancel_until 0 s else s)
       \<lparr>s_cached_result := None, s_cached_assumptions := [], s_failed := []\<rparr>"

definition try_reserve_variables ::
  "'f::linorder float_ops \<Rightarrow> nat \<Rightarrow> 'f solver \<Rightarrow> (incremental_error + unit) \<times> 'f solver" where
  "try_reserve_variables F n s =
     (if n \<le> s_variable_count s then (Inr (), s)
      else if n > MAX_VARIABLES then (Inl VariableLimit, s)
      else (Inr (), grow_variables F n ((prepare_incremental_mutation s)\<lparr>s_variable_count := n\<rparr>)))"

definition new_variable ::
  "'f::linorder float_ops \<Rightarrow> 'f solver \<Rightarrow> (incremental_error + var) \<times> 'f solver" where
  "new_variable F s =
     (if s_variable_count s = MAX_VARIABLES then (Inl VariableLimit, s)
      else
        let v = Var (of_nat (s_variable_count s))
        in case try_reserve_variables F (s_variable_count s + 1) s of
             (Inl e, s') \<Rightarrow> (Inl e, s')
           | (Inr _, s') \<Rightarrow> (Inr v, s'))"

text \<open>
  The in-place removal of duplicates of the sorted literals; two literals of one variable make
  the clause a tautology (\<open>None\<close>).
\<close>

fun dedup_literals :: "lit list \<Rightarrow> lit list \<Rightarrow> lit list option" where
  "dedup_literals kept [] = Some kept"
| "dedup_literals kept (l # ls) =
     (if kept \<noteq> [] \<and> last kept = l then dedup_literals kept ls
      else if kept \<noteq> [] \<and> lit_var (last kept) = lit_var l then None
      else dedup_literals (kept @ [l]) ls)"

definition grow_for_literals ::
  "'f::linorder float_ops \<Rightarrow> lit list \<Rightarrow> 'f solver \<Rightarrow> 'f solver" where
  "grow_for_literals F lits s =
     (if lits = [] then s
      else
        let required = Max (set (map (\<lambda>l. var_index (lit_var l)) lits)) + 1
        in if required > s_variable_count s
           then grow_variables F required (s\<lparr>s_variable_count := required\<rparr>)
           else s)"

text \<open>
  Adding a clause once search has started: at level 0, after propagation. The second sort of
  the code only separates unassigned literals from the others; the order within the two groups
  is left open by \<open>sort_unstable_by_key\<close>, and the stable one is taken here.
\<close>

definition add_started ::
  "'f::linorder float_ops \<Rightarrow> lit list \<Rightarrow> 'f solver \<Rightarrow> bool \<times> 'f solver" where
  "add_started F normalized s =
     (if \<not> s_consistent s then (False, s)
      else
        case propagate s of
          (Some _, s1) \<Rightarrow> (False, s1\<lparr>s_consistent := False\<rparr>)
        | (None, s1) \<Rightarrow>
            if list_ex (\<lambda>l. literal_value s1 l = 1) normalized then (True, s1)
            else
              let sorted = sort_key (\<lambda>l. if literal_value s1 l = 0 then 0 else (1 :: nat)) normalized;
                  unassigned = length (takeWhile (\<lambda>l. literal_value s1 l = 0) sorted)
              in if unassigned = 0 then (False, s1\<lparr>s_consistent := False\<rparr>)
                 else
                   let s2 =
                     (if length sorted = 1 then snd (enqueue (sorted ! 0) None s1)
                      else
                        let (c, s') = allocate_clause F sorted 0 False s1; s'' = attach_clause c s'
                        in if unassigned = 1 then snd (enqueue (sorted ! 0) (Some c) s'') else s'')
                   in case propagate s2 of
                        (Some _, s3) \<Rightarrow> (False, s3\<lparr>s_consistent := False\<rparr>)
                      | (None, s3) \<Rightarrow> (s_consistent s3, s3))"

definition add_fresh ::
  "'f::linorder float_ops \<Rightarrow> lit list \<Rightarrow> 'f solver \<Rightarrow> bool \<times> 'f solver" where
  "add_fresh F normalized s =
     (let s1 =
        (if length normalized = 0 then s\<lparr>s_consistent := False\<rparr>
         else if length normalized = 1
         then (case enqueue (normalized ! 0) None s of
                 (True, s') \<Rightarrow> s' | (False, s') \<Rightarrow> s'\<lparr>s_consistent := False\<rparr>)
         else (case allocate_clause F normalized 0 False s of (c, s') \<Rightarrow> attach_clause c s'))
      in (s_consistent s1, s1))"

definition add_clause_internal ::
  "'f::linorder float_ops \<Rightarrow> lit list \<Rightarrow> bool \<Rightarrow> bool \<Rightarrow> proof_clause_kind \<Rightarrow> 'f solver \<Rightarrow> bool \<times> 'f solver"
where
  "add_clause_internal F literals guard counted kind s0 =
     (let s1 = prepare_incremental_mutation s0;
          s2 = (if counted then s1\<lparr>s_original_count := s_original_count s1 + 1\<rparr> else s1);
          guarded = (if guard \<and> s_scope_selectors s2 \<noteq> []
                     then literals @ [lit_not (last (s_scope_selectors s2))] else literals);
          s3 = grow_for_literals F guarded s2
      in case dedup_literals [] (sort_key lit_index guarded) of
           None \<Rightarrow> (s_consistent s3, s3)
         | Some normalized \<Rightarrow>
             let s4 = s3\<lparr>s_proof_input :=
                        map_option (\<lambda>p. p @ [(kind, normalized)]) (s_proof_input s3)\<rparr>
             in if s_started s4 then add_started F normalized s4 else add_fresh F normalized s4)"

definition try_add_clause :: "'f::linorder float_ops \<Rightarrow> lit list \<Rightarrow> 'f solver \<Rightarrow> bool \<times> 'f solver" where
  "try_add_clause F literals s = add_clause_internal F literals True True FormulaClause s"

definition add_encoding_clause :: "'f::linorder float_ops \<Rightarrow> lit list \<Rightarrow> 'f solver \<Rightarrow> bool \<times> 'f solver" where
  "add_encoding_clause F literals s = add_clause_internal F literals False False EncodingClause s"

definition add_theory_clause :: "'f::linorder float_ops \<Rightarrow> lit list \<Rightarrow> 'f solver \<Rightarrow> bool \<times> 'f solver" where
  "add_theory_clause F literals s = add_clause_internal F literals False False TheoryClause s"

definition push_levels ::
  "'f::linorder float_ops \<Rightarrow> nat \<Rightarrow> 'f solver \<Rightarrow> (incremental_error + unit) \<times> 'f solver" where
  "push_levels F levels s =
     (if levels = 0 then (Inr (), s)
      else if s_variable_count s + levels > MAX_VARIABLES then (Inl VariableLimit, s)
      else
        let old = s_variable_count s; n = old + levels;
            s1 = grow_variables F n ((prepare_incremental_mutation s)\<lparr>s_variable_count := n\<rparr>)
        in (Inr (), s1\<lparr>s_scope_selectors := s_scope_selectors s1 @
                         map (\<lambda>i. lit_positive (Var (of_nat i))) [old..<n]\<rparr>))"

fun pop_selectors :: "'f::linorder float_ops \<Rightarrow> nat \<Rightarrow> 'f solver \<Rightarrow> 'f solver" where
  "pop_selectors F 0 s = s"
| "pop_selectors F (Suc n) s =
     (let selector = last (s_scope_selectors s);
          s1 = s\<lparr>s_scope_selectors := butlast (s_scope_selectors s)\<rparr>
      in pop_selectors F n
           (snd (add_clause_internal F [lit_not selector] False False AdministrativeClause s1)))"

definition pop_levels ::
  "'f::linorder float_ops \<Rightarrow> nat \<Rightarrow> 'f solver \<Rightarrow> (incremental_error + unit) \<times> 'f solver" where
  "pop_levels F levels s =
     (if levels > length (s_scope_selectors s) then (Inl ScopeUnderflow, s)
      else if levels = 0 then (Inr (), s)
      else (Inr (), pop_selectors F levels (prepare_incremental_mutation s)))"

text \<open>
  The solve call. \<open>None\<close> is the panic on an unknown assumption variable, or a search that does
  not end.
\<close>

definition finish_query ::
  "lit list \<Rightarrow> lit list \<Rightarrow> solve_result \<Rightarrow> 'f::linorder solver \<Rightarrow> solve_result \<times> 'f solver" where
  "finish_query assumptions query result s0 =
     (let s1 = (if result = Unsat \<and> \<not> s_consistent s0
                then s0\<lparr>s_proof := s_proof s0 @ [AddStep []]\<rparr> else s0);
          unknown = (case result of Unknown _ \<Rightarrow> True | _ \<Rightarrow> False);
          s2 = (if (result = Unsat \<and> s_consistent s1) \<or> unknown then cancel_until 0 s1 else s1);
          s3 = (if result = Unsat \<and> s_consistent s2
                then s2\<lparr>s_failed := filter (\<lambda>l. l \<in> set assumptions) (s_failed s2)\<rparr>
                else if unknown then s2\<lparr>s_failed := []\<rparr> else s2)
      in (result,
          if unknown then s3\<lparr>s_cached_assumptions := [], s_cached_result := None\<rparr>
          else s3\<lparr>s_cached_assumptions := query, s_cached_result := Some result\<rparr>))"

definition solve_assuming_with_limits ::
  "'f::linorder float_ops \<Rightarrow> lit list \<Rightarrow> solve_limits \<Rightarrow> 'f solver \<Rightarrow> (solve_result \<times> 'f solver) option"
where
  "solve_assuming_with_limits F assumptions limits s =
     (let query = s_scope_selectors s @ assumptions
      in if \<not> list_all (\<lambda>l. var_index (lit_var l) < s_variable_count s) assumptions then None
         else if s_cached_assumptions s = query \<and> s_cached_result s \<noteq> None
         then Some (the (s_cached_result s), s)
         else
           let s1 = (if s_started s then cancel_until 0 s else s\<lparr>s_started := True\<rparr>);
               s2 = s1\<lparr>s_failed := []\<rparr>;
               (root_conflict, s3) =
                 (if \<not> s_consistent s2 then (True, s2)
                  else case propagate s2 of (c, s') \<Rightarrow> (c \<noteq> None, s'))
           in if root_conflict
              then Some (finish_query assumptions query Unsat (s3\<lparr>s_consistent := False\<rparr>))
              else
                let stop = s_interrupt s3 (s_polls s3); s4 = s3\<lparr>s_polls := s_polls s3 + 1\<rparr>
                in if stop then Some (finish_query assumptions query (Unknown Interrupted) s4)
                   else
                     case search F query (begin_search_control limits s4) of
                       None \<Rightarrow> None
                     | Some (result, s5) \<Rightarrow>
                         Some (finish_query assumptions query result (s5\<lparr>s_control_active := False\<rparr>)))"

end
