(* ===== verification/Solver_Inv.thy ===== *)
theory Solver_Inv
  imports Solver_Search
begin

section \<open>The invariant of the solver\<close>

text \<open>
  What holds of the solver state between operations, relative to the set \<open>G\<close> of the clauses
  added so far. The invariant has parts for the array shapes, the clause database, the trail,
  the reasons, the watch lists, the decision queue, and the meaning of clauses and trail. The
  lemmas of this theory show which parts the elementary operations keep.
\<close>

subsection \<open>Meaning of clauses\<close>

type_synonym valuation = "var \<Rightarrow> bool"

definition lit_true :: "valuation \<Rightarrow> lit \<Rightarrow> bool" where
  "lit_true \<sigma> l \<longleftrightarrow> \<sigma> (lit_var l) = is_positive l"

definition clause_true :: "valuation \<Rightarrow> lit list \<Rightarrow> bool" where
  "clause_true \<sigma> c \<longleftrightarrow> (\<exists>l \<in> set c. lit_true \<sigma> l)"

definition models :: "valuation \<Rightarrow> lit list set \<Rightarrow> bool" where
  "models \<sigma> G \<longleftrightarrow> (\<forall>c \<in> G. clause_true \<sigma> c)"

definition entails :: "lit list set \<Rightarrow> lit list \<Rightarrow> bool" where
  "entails G c \<longleftrightarrow> (\<forall>\<sigma>. models \<sigma> G \<longrightarrow> clause_true \<sigma> c)"

lemma lit_true_not [simp]: "lit_true \<sigma> (lit_not l) \<longleftrightarrow> \<not> lit_true \<sigma> l"
  by (auto simp: lit_true_def)

lemma entails_set_eq: "set c = set d \<Longrightarrow> entails G c = entails G d"
  by (simp add: entails_def clause_true_def)

lemma entails_member: "c \<in> G \<Longrightarrow> entails G c"
  by (simp add: entails_def models_def)

lemma entails_mono: "G \<subseteq> H \<Longrightarrow> entails G c \<Longrightarrow> entails H c"
  by (auto simp: entails_def models_def)

lemma entails_weaken: "entails G c \<Longrightarrow> set c \<subseteq> set d \<Longrightarrow> entails G d"
  by (auto simp: entails_def clause_true_def)

subsection \<open>Views of the state\<close>

definition nvars :: "'f solver \<Rightarrow> nat" where
  "nvars s = length (s_assignments s)"

definition lit_ok :: "'f solver \<Rightarrow> lit \<Rightarrow> bool" where
  "lit_ok s l \<longleftrightarrow> var_index (lit_var l) < nvars s"

fun valid :: "'f solver \<Rightarrow> cref \<Rightarrow> bool" where
  "valid s (Binary i) \<longleftrightarrow> i < length (s_binaries s)"
| "valid s (Long i) \<longleftrightarrow> i < length (s_clauses s)"

definition live :: "'f solver \<Rightarrow> cref \<Rightarrow> bool" where
  "live s c \<longleftrightarrow> valid s c \<and> \<not> clause_deleted s c"

definition lit_t :: "'f solver \<Rightarrow> lit \<Rightarrow> bool" where
  "lit_t s l \<longleftrightarrow> l \<in> set (s_trail s)"

definition lit_f :: "'f solver \<Rightarrow> lit \<Rightarrow> bool" where
  "lit_f s l \<longleftrightarrow> lit_not l \<in> set (s_trail s)"

text \<open>The clause database, as far as the meaning of clauses goes.\<close>

definition same_db :: "'f solver \<Rightarrow> 'f solver \<Rightarrow> bool" where
  "same_db s s' \<longleftrightarrow> s_clauses s' = s_clauses s \<and> s_arena s' = s_arena s \<and> s_binaries s' = s_binaries s
     \<and> s_binary_flags s' = s_binary_flags s"

lemma same_db_literals: "same_db s s' \<Longrightarrow> clause_literals s' c = clause_literals s c"
  by (cases c) (simp_all add: same_db_def)

lemma same_db_deleted: "same_db s s' \<Longrightarrow> clause_deleted s' c = clause_deleted s c"
  by (cases c) (simp_all add: same_db_def)

lemma same_db_learned: "same_db s s' \<Longrightarrow> clause_learned s' c = clause_learned s c"
  by (cases c) (simp_all add: same_db_def)

lemma same_db_valid: "same_db s s' \<Longrightarrow> valid s' c = valid s c"
  by (cases c) (simp_all add: same_db_def)

lemma same_db_live: "same_db s s' \<Longrightarrow> live s' c = live s c"
  by (simp add: live_def same_db_valid same_db_deleted)

lemmas same_db_simps = same_db_literals same_db_deleted same_db_learned same_db_valid same_db_live

subsection \<open>The parts of the invariant\<close>

definition shape_ok :: "'f solver \<Rightarrow> bool" where
  "shape_ok s \<longleftrightarrow>
     nvars s \<le> MAX_VARIABLES \<and> s_variable_count s = nvars s
     \<and> length (s_levels s) = nvars s \<and> length (s_reasons s) = nvars s
     \<and> length (s_phase s) = nvars s \<and> length (s_activity s) = nvars s
     \<and> length (s_seen s) = nvars s \<and> length (s_watches s) = 2 * nvars s
     \<and> length (s_binary_flags s) = length (s_binaries s)
     \<and> length (s_usage_scores s) = length (s_clauses s)"

definition queue_inv :: "'f solver \<Rightarrow> bool" where
  "queue_inv s \<longleftrightarrow>
     slots_ok (s_order s) \<and> length (vo_positions (s_order s)) = nvars s
     \<and> (\<forall>v. var_index v < nvars s \<and> s_assignments s ! var_index v = 0 \<longrightarrow> v \<in> vo_vars (s_order s))"

text \<open>Long clauses occupy disjoint ranges of the arena, in the order of their references.\<close>

definition arena_ok :: "'f solver \<Rightarrow> bool" where
  "arena_ok s \<longleftrightarrow>
     (\<forall>i < length (s_clauses s).
        cl_start (s_clauses s ! i) + cl_length (s_clauses s ! i) \<le> length (s_arena s)
        \<and> (\<forall>j < length (s_clauses s). i < j \<longrightarrow>
             cl_start (s_clauses s ! i) + cl_length (s_clauses s ! i) \<le> cl_start (s_clauses s ! j)))"

definition clauses_ok :: "'f solver \<Rightarrow> bool" where
  "clauses_ok s \<longleftrightarrow>
     (\<forall>c. valid s c \<longrightarrow> 2 \<le> length (clause_literals s c)
        \<and> distinct (map lit_var (clause_literals s c))
        \<and> (\<forall>l \<in> set (clause_literals s c). lit_ok s l))"

definition trail_ok :: "'f solver \<Rightarrow> bool" where
  "trail_ok s \<longleftrightarrow>
     distinct (map lit_var (s_trail s))
     \<and> (\<forall>l \<in> set (s_trail s). lit_ok s l)
     \<and> (\<forall>l. lit_ok s l \<longrightarrow> literal_value s l = (if lit_t s l then 1 else if lit_f s l then - 1 else 0))
     \<and> sorted (s_trail_limits s) \<and> (\<forall>n \<in> set (s_trail_limits s). n \<le> s_head s)
     \<and> s_head s \<le> length (s_trail s)
     \<and> (\<forall>i < length (s_trail s).
          level_of s (s_trail s ! i) = length (filter (\<lambda>n. n \<le> i) (s_trail_limits s)))"

definition reasons_ok :: "'f solver \<Rightarrow> bool" where
  "reasons_ok s \<longleftrightarrow>
     (\<forall>i < length (s_trail s).
        case reason_of s (s_trail s ! i) of
          Some c \<Rightarrow> live s c \<and> s_trail s ! i \<in> set (clause_literals s c)
            \<and> (\<forall>l \<in> set (clause_literals s c). l \<noteq> s_trail s ! i \<longrightarrow> lit_not l \<in> set (take i (s_trail s)))
        | None \<Rightarrow> i \<in> set (s_trail_limits s) \<or> (\<forall>n \<in> set (s_trail_limits s). i < n))"

text \<open>The literals of level 0.\<close>

definition root_literals :: "'f solver \<Rightarrow> lit set" where
  "root_literals s = {l \<in> set (s_trail s). level_of s l = 0}"

definition meaning_ok :: "lit list set \<Rightarrow> 'f solver \<Rightarrow> bool" where
  "meaning_ok G s \<longleftrightarrow>
     (\<forall>c. valid s c \<longrightarrow> entails G (clause_literals s c))
     \<and> (\<forall>l \<in> root_literals s. entails G [l])
     \<and> (\<not> s_consistent s \<longrightarrow> entails G [])
     \<and> (\<forall>c. AddStep c \<in> set (s_proof s) \<longrightarrow> entails G c)"

text \<open>Every clause that was added is a tautology, true at level 0, or still in the database.\<close>

definition covered :: "'f solver \<Rightarrow> lit list \<Rightarrow> bool" where
  "covered s d \<longleftrightarrow>
     (\<exists>l \<in> set d. lit_not l \<in> set d) \<or> (\<exists>l \<in> set d. l \<in> root_literals s)
     \<or> (\<exists>c. live s c \<and> \<not> clause_learned s c \<and> set (clause_literals s c) = set d)"

definition coverage_ok :: "lit list set \<Rightarrow> 'f solver \<Rightarrow> bool" where
  "coverage_ok G s \<longleftrightarrow> (s_consistent s \<longrightarrow> (\<forall>d \<in> G. covered s d)) \<and> (\<forall>d \<in> G. \<forall>l \<in> set d. lit_ok s l)"

definition watches_of :: "'f solver \<Rightarrow> lit \<Rightarrow> watch list" where
  "watches_of s l = s_watches s ! lit_index l"

definition occurrences :: "cref \<Rightarrow> watch list \<Rightarrow> nat" where
  "occurrences c ws = length (filter (\<lambda>w. w_clause w = c) ws)"

definition watch_ok :: "'f solver \<Rightarrow> lit \<Rightarrow> watch \<Rightarrow> bool" where
  "watch_ok s l w \<longleftrightarrow>
     valid s (w_clause w) \<and>
     (\<not> clause_deleted s (w_clause w) \<longrightarrow>
        w_blocker w \<in> set (clause_literals s (w_clause w))
        \<and> (cref_is_binary (w_clause w) \<longrightarrow> set (clause_literals s (w_clause w)) = {l, w_blocker w}
             \<and> w_blocker w \<noteq> l))"

definition watches_ok :: "'f solver \<Rightarrow> bool" where
  "watches_ok s \<longleftrightarrow>
     (\<forall>l. lit_ok s l \<longrightarrow>
        (\<forall>w \<in> set (watches_of s l). watch_ok s l w)
        \<and> (\<forall>c. live s c \<longrightarrow> occurrences c (watches_of s l)
              = (if l \<in> set (take 2 (clause_literals s c)) then 1 else 0)))"

text \<open>
  The semantic watch invariant, for the first \<open>k\<close> literals of the trail: a live clause both
  of whose watched literals they falsify has a true literal, and not at a higher level than
  both of them; and a live clause one of whose watched literals they falsify at level 0 has a
  literal that is true at level 0. (After a chronological backtrack a clause may have one false
  watched literal and no true literal, so the usual invariant holds only at level 0.)
\<close>

definition both_done :: "nat \<Rightarrow> 'f solver \<Rightarrow> cref \<Rightarrow> bool" where
  "both_done k s c \<longleftrightarrow>
     ((\<forall>l \<in> set (take 2 (clause_literals s c)). lit_not l \<in> set (take k (s_trail s))) \<longrightarrow>
      (\<exists>t \<in> set (clause_literals s c). lit_t s t
         \<and> (\<exists>l \<in> set (take 2 (clause_literals s c)). level_of s t \<le> level_of s l)))"

definition root_done :: "nat \<Rightarrow> 'f solver \<Rightarrow> cref \<Rightarrow> bool" where
  "root_done k s c \<longleftrightarrow>
     (\<forall>l \<in> set (take 2 (clause_literals s c)). lit_not l \<in> set (take k (s_trail s)) \<longrightarrow> level_of s l = 0 \<longrightarrow>
        (\<exists>t \<in> set (clause_literals s c). t \<in> root_literals s))"

text \<open>
  With exemptions: the clauses of \<open>X\<close> need not satisfy the first part, and when there are any
  the second part is not required at all.
\<close>

definition watch_but :: "cref set \<Rightarrow> nat \<Rightarrow> 'f solver \<Rightarrow> cref \<Rightarrow> bool" where
  "watch_but X k s c \<longleftrightarrow> (c \<notin> X \<longrightarrow> both_done k s c) \<and> (X = {} \<longrightarrow> root_done k s c)"

abbreviation watch_done :: "nat \<Rightarrow> 'f solver \<Rightarrow> cref \<Rightarrow> bool" where
  "watch_done \<equiv> watch_but {}"

definition watch_sem :: "nat \<Rightarrow> 'f solver \<Rightarrow> bool" where
  "watch_sem k s \<longleftrightarrow> (\<forall>c. live s c \<longrightarrow> watch_done k s c)"

lemmas watch_done_defs = watch_but_def both_done_def root_done_def

definition seen_clear :: "'f solver \<Rightarrow> bool" where
  "seen_clear s \<longleftrightarrow> (\<forall>i < nvars s. \<not> s_seen s ! i)"

definition selectors_ok :: "'f solver \<Rightarrow> bool" where
  "selectors_ok s \<longleftrightarrow> (\<forall>l \<in> set (s_scope_selectors s). lit_ok s l)"

text \<open>All parts but the watch lists, which a scan takes apart.\<close>

definition base_ok :: "lit list set \<Rightarrow> 'f solver \<Rightarrow> bool" where
  "base_ok G s \<longleftrightarrow> shape_ok s \<and> queue_inv s \<and> arena_ok s \<and> clauses_ok s \<and> trail_ok s \<and> reasons_ok s
     \<and> meaning_ok G s \<and> coverage_ok G s \<and> selectors_ok s"

text \<open>The invariant without the coverage of the added clauses.\<close>

definition db_ok :: "lit list set \<Rightarrow> 'f solver \<Rightarrow> bool" where
  "db_ok G s \<longleftrightarrow> shape_ok s \<and> queue_inv s \<and> arena_ok s \<and> clauses_ok s \<and> trail_ok s \<and> reasons_ok s
     \<and> meaning_ok G s \<and> selectors_ok s"

lemma base_ok_split: "base_ok G s \<longleftrightarrow> db_ok G s \<and> coverage_ok G s"
  by (auto simp: base_ok_def db_ok_def)

lemma db_ok_mono: "db_ok G s \<Longrightarrow> G \<subseteq> H \<Longrightarrow> db_ok H s"
  unfolding db_ok_def meaning_ok_def using entails_mono by blast

subsection \<open>Elementary facts\<close>

lemma value_of_not: "value_of a (lit_not l) = - value_of a l"
  by (simp add: value_of_def Let_def)

lemma lit_ok_not [simp]: "lit_ok s (lit_not l) = lit_ok s l"
  by (simp add: lit_ok_def)

lemma lit_t_not [simp]: "lit_t s (lit_not l) = lit_f s l" "lit_f s (lit_not l) = lit_t s l"
  by (simp_all add: lit_t_def lit_f_def)

lemma trail_not_both:
  assumes "trail_ok s" "l \<in> set (s_trail s)" shows "lit_not l \<notin> set (s_trail s)"
proof
  assume n: "lit_not l \<in> set (s_trail s)"
  obtain i where i: "i < length (s_trail s)" "s_trail s ! i = l"
    using assms(2) by (meson in_set_conv_nth)
  obtain j where j: "j < length (s_trail s)" "s_trail s ! j = lit_not l"
    using n by (meson in_set_conv_nth)
  have "map lit_var (s_trail s) ! i = map lit_var (s_trail s) ! j"
    using i j by simp
  moreover have "distinct (map lit_var (s_trail s))" using assms(1) by (simp add: trail_ok_def)
  ultimately have "i = j"
    using i j nth_eq_iff_index_eq [of "map lit_var (s_trail s)" i j] by simp
  then show False using i j by simp
qed

lemma lit_t_f: "trail_ok s \<Longrightarrow> \<not> (lit_t s l \<and> lit_f s l)"
  using trail_not_both by (auto simp: lit_t_def lit_f_def)

lemma literal_value_iff:
  assumes "trail_ok s" "lit_ok s l"
  shows "literal_value s l = 1 \<longleftrightarrow> lit_t s l" "literal_value s l = - 1 \<longleftrightarrow> lit_f s l"
    "literal_value s l = 0 \<longleftrightarrow> \<not> lit_t s l \<and> \<not> lit_f s l"
  using assms lit_t_f [OF assms(1), of l] by (auto simp: trail_ok_def)

lemma level_cases:
  assumes "trail_ok s" and "l \<in> set (s_trail s)"
  obtains i where "i < length (s_trail s)" "s_trail s ! i = l"
    "level_of s l = length (filter (\<lambda>n. n \<le> i) (s_trail_limits s))"
  using assms by (auto simp: trail_ok_def in_set_conv_nth)

lemma level_of_not [simp]: "level_of s (lit_not l) = level_of s l"
  by (simp add: level_of_def)

lemma reason_of_not [simp]: "reason_of s (lit_not l) = reason_of s l"
  by (simp add: reason_of_def)

lemma level_le_decision: "trail_ok s \<Longrightarrow> l \<in> set (s_trail s) \<Longrightarrow> level_of s l \<le> decision_level s"
  by (erule (1) level_cases) (simp add: decision_level_def)

text \<open>Levels do not decrease along the trail, and the literals from the head on are at the top.\<close>

lemma level_mono:
  assumes "trail_ok s" "i \<le> j" "j < length (s_trail s)"
  shows "level_of s (s_trail s ! i) \<le> level_of s (s_trail s ! j)"
proof -
  have "length (filter (\<lambda>n. n \<le> i) xs) \<le> length (filter (\<lambda>n. n \<le> j) xs)" for xs :: "nat list"
    using assms(2) by (induction xs) auto
  with assms show ?thesis by (simp add: trail_ok_def)
qed

lemma level_top:
  assumes "trail_ok s" "\<forall>n \<in> set (s_trail_limits s). n \<le> i" "i < length (s_trail s)"
  shows "level_of s (s_trail s ! i) = decision_level s"
proof -
  have "filter (\<lambda>n. n \<le> i) (s_trail_limits s) = s_trail_limits s"
    using assms(2) by (simp add: filter_id_conv)
  with assms show ?thesis by (simp add: trail_ok_def decision_level_def)
qed

lemma clauses_okD:
  assumes "clauses_ok s" "valid s c"
  shows "2 \<le> length (clause_literals s c)" "distinct (map lit_var (clause_literals s c))"
    "l \<in> set (clause_literals s c) \<Longrightarrow> lit_ok s l"
  using assms by (auto simp: clauses_ok_def)

lemma take_two: "2 \<le> length xs \<Longrightarrow> take 2 xs = [xs ! 0, xs ! 1]"
  by (cases xs; cases "tl xs") (auto simp: numeral_2_eq_2)

lemma first_two:
  assumes "clauses_ok s" "valid s c"
  shows "set (take 2 (clause_literals s c)) = {clause_literals s c ! 0, clause_literals s c ! 1}"
    "clause_literals s c ! 0 \<noteq> clause_literals s c ! 1"
    "clause_literals s c ! 0 \<in> set (clause_literals s c)" "clause_literals s c ! 1 \<in> set (clause_literals s c)"
proof -
  note l = clauses_okD [OF assms]
  show "set (take 2 (clause_literals s c)) = {clause_literals s c ! 0, clause_literals s c ! 1}"
    using take_two [OF l(1)] by simp
  show "clause_literals s c ! 0 \<in> set (clause_literals s c)" "clause_literals s c ! 1 \<in> set (clause_literals s c)"
    using l(1) by (auto intro!: nth_mem)
  have "distinct (clause_literals s c)" using l(2) by (simp add: distinct_map)
  then show "clause_literals s c ! 0 \<noteq> clause_literals s c ! 1"
  proof -
    have "0 < length (clause_literals s c)" "1 < length (clause_literals s c)"
      using l(1) by linarith+
    with \<open>distinct (clause_literals s c)\<close> show ?thesis
      using nth_eq_iff_index_eq [of "clause_literals s c" 0 1] by linarith
  qed
qed

subsection \<open>Changes that the invariant does not see\<close>

text \<open>Two states that agree on every field the invariant mentions.\<close>

definition frame_eq :: "'f solver \<Rightarrow> 'f solver \<Rightarrow> bool" where
  "frame_eq s s' \<longleftrightarrow> same_db s s' \<and> s_watches s' = s_watches s \<and> s_assignments s' = s_assignments s
     \<and> s_levels s' = s_levels s \<and> s_reasons s' = s_reasons s \<and> s_trail s' = s_trail s
     \<and> s_trail_limits s' = s_trail_limits s \<and> s_head s' = s_head s
     \<and> s_variable_count s' = s_variable_count s \<and> length (s_phase s') = length (s_phase s)
     \<and> length (s_activity s') = length (s_activity s) \<and> length (s_seen s') = length (s_seen s)
     \<and> length (s_usage_scores s') = length (s_usage_scores s)
     \<and> slots_ok (s_order s') = slots_ok (s_order s) \<and> vo_vars (s_order s') = vo_vars (s_order s)
     \<and> length (vo_positions (s_order s')) = length (vo_positions (s_order s))
     \<and> s_consistent s' = s_consistent s \<and> set (s_proof s') = set (s_proof s)
     \<and> s_scope_selectors s' = s_scope_selectors s"

lemma frame_eq_simps:
  assumes "frame_eq s s'"
  shows "clause_literals s' = clause_literals s" "clause_deleted s' = clause_deleted s"
    "clause_learned s' = clause_learned s" "valid s' = valid s" "live s' = live s" "nvars s' = nvars s"
    "lit_ok s' = lit_ok s" "lit_t s' = lit_t s" "lit_f s' = lit_f s"
    "literal_value s' = literal_value s" "level_of s' = level_of s" "reason_of s' = reason_of s"
    "decision_level s' = decision_level s" "root_literals s' = root_literals s"
    "watches_of s' = watches_of s"
proof -
  have d: "same_db s s'" using assms by (simp add: frame_eq_def)
  show "clause_literals s' = clause_literals s" "clause_deleted s' = clause_deleted s"
    "clause_learned s' = clause_learned s" "valid s' = valid s" "live s' = live s"
    using same_db_simps [OF d] by (intro ext; simp)+
  show "nvars s' = nvars s" "lit_ok s' = lit_ok s" "lit_t s' = lit_t s" "lit_f s' = lit_f s"
    "literal_value s' = literal_value s" "level_of s' = level_of s" "reason_of s' = reason_of s"
    "decision_level s' = decision_level s" "root_literals s' = root_literals s"
    "watches_of s' = watches_of s"
    using assms
    by (auto simp: frame_eq_def nvars_def lit_ok_def lit_t_def lit_f_def literal_value_def level_of_def
        reason_of_def decision_level_def root_literals_def watches_of_def fun_eq_iff)
qed

lemma frame_eq_inv:
  assumes f: "frame_eq s s'"
  shows "base_ok G s' = base_ok G s" "watches_ok s' = watches_ok s" "watch_sem k s' = watch_sem k s"
proof -
  note e = frame_eq_simps [OF f]
  have g: "s_arena s' = s_arena s" "s_clauses s' = s_clauses s" "s_binaries s' = s_binaries s"
    "s_binary_flags s' = s_binary_flags s"
    using f by (simp_all add: frame_eq_def same_db_def)
  have h: "s_watches s' = s_watches s" "s_assignments s' = s_assignments s" "s_trail s' = s_trail s"
    "s_trail_limits s' = s_trail_limits s" "s_head s' = s_head s"
    "s_variable_count s' = s_variable_count s" "s_consistent s' = s_consistent s"
    "set (s_proof s') = set (s_proof s)" "s_scope_selectors s' = s_scope_selectors s"
    "length (s_phase s') = length (s_phase s)" "s_levels s' = s_levels s" "s_reasons s' = s_reasons s"
    "length (s_activity s') = length (s_activity s)" "length (s_seen s') = length (s_seen s)"
    "length (s_usage_scores s') = length (s_usage_scores s)" "slots_ok (s_order s') = slots_ok (s_order s)"
    "vo_vars (s_order s') = vo_vars (s_order s)"
    "length (vo_positions (s_order s')) = length (vo_positions (s_order s))"
    using f by (simp_all add: frame_eq_def)
  have "shape_ok s' = shape_ok s" unfolding shape_ok_def e g h ..
  moreover have "queue_inv s' = queue_inv s" unfolding queue_inv_def e g h ..
  moreover have "arena_ok s' = arena_ok s" unfolding arena_ok_def e g ..
  moreover have "clauses_ok s' = clauses_ok s" unfolding clauses_ok_def e ..
  moreover have "trail_ok s' = trail_ok s" unfolding trail_ok_def e h ..
  moreover have "reasons_ok s' = reasons_ok s" unfolding reasons_ok_def e h ..
  moreover have "meaning_ok G s' = meaning_ok G s" unfolding meaning_ok_def e h ..
  moreover have "coverage_ok G s' = coverage_ok G s"
    unfolding coverage_ok_def covered_def e h ..
  moreover have "selectors_ok s' = selectors_ok s" unfolding selectors_ok_def e h ..
  ultimately show "base_ok G s' = base_ok G s" by (simp add: base_ok_def)
  show "watches_ok s' = watches_ok s" unfolding watches_ok_def watch_ok_def e ..
  show "watch_sem k s' = watch_sem k s" unfolding watch_sem_def watch_done_defs e h ..
qed

lemma frame_eq_refl [simp]: "frame_eq s s"
  by (simp add: frame_eq_def same_db_def)

lemma frame_eq_trans: "frame_eq s t \<Longrightarrow> frame_eq t u \<Longrightarrow> frame_eq s u"
  by (simp add: frame_eq_def same_db_def)

lemma frame_poll: "frame_eq s (snd (poll_search_stop s))"
  by (auto simp: poll_search_stop_def Let_def frame_eq_def same_db_def split: option.split)

lemma frame_usage: "frame_eq s (bump_clause_usage c s)"
  by (simp add: bump_clause_usage_def frame_eq_def same_db_def)

lemma frame_decay_activities: "frame_eq s (decay_activities F s)"
  by (simp add: decay_activities_def frame_eq_def same_db_def)

lemma frame_decay_usage: "frame_eq s (decay_clause_usage_scores s)"
proof -
  have "length (fold (\<lambda>i scores. if P i then scores
      else if scores ! i > 0 then scores[i := scores ! i - 1] else scores) xs ys) = length ys"
    for P and xs :: "nat list" and ys :: "nat list"
    by (induction xs arbitrary: ys) auto
  then show ?thesis by (simp add: decay_clause_usage_scores_def frame_eq_def same_db_def)
qed

lemma frame_bump_variable:
  assumes "queue_inv s" "var_index v < nvars s"
  shows "frame_eq s (bump_variable_activity F v s)"
  using vo_increase_slots [of "s_order s" v] assms
  by (auto simp: bump_variable_activity_def Let_def frame_eq_def same_db_def queue_inv_def)

lemma frame_lbd: "frame_eq s (snd (literal_block_distance c s))"
  by (simp add: literal_block_distance_def next_level_mark_def Let_def frame_eq_def same_db_def
      split: prod.split)

subsection \<open>Enqueue\<close>

lemma enqueue_unassigned:
  assumes "literal_value s l = 0"
  shows "enqueue_internal b l r s = (True,
    s\<lparr>s_assignments := (s_assignments s)[var_index (lit_var l) := (if is_positive l then 1 else - 1)],
      s_levels := (s_levels s)[var_index (lit_var l) := decision_level s],
      s_reasons := (s_reasons s)[var_index (lit_var l) := r],
      s_phase := (if b then (s_phase s)[var_index (lit_var l) := is_positive l] else s_phase s),
      s_trail := s_trail s @ [l]\<rparr>)"
  using assms by (simp add: enqueue_internal_def Let_def)

text \<open>The condition under which a literal may be enqueued with a reason.\<close>

definition reason_fits :: "'f solver \<Rightarrow> lit \<Rightarrow> cref option \<Rightarrow> bool" where
  "reason_fits s l r \<longleftrightarrow>
     (case r of
        Some c \<Rightarrow> live s c \<and> l \<in> set (clause_literals s c)
          \<and> (\<forall>k \<in> set (clause_literals s c). k \<noteq> l \<longrightarrow> lit_f s k)
      | None \<Rightarrow> s_trail_limits s = [] \<or> length (s_trail s) \<in> set (s_trail_limits s))"

definition enqueued :: "bool \<Rightarrow> lit \<Rightarrow> cref option \<Rightarrow> 'f solver \<Rightarrow> 'f solver" where
  "enqueued b l r s = snd (enqueue_internal b l r s)"

lemma enqueued_fields:
  assumes "literal_value s l = 0" "shape_ok s" "lit_ok s l"
  shows "s_trail (enqueued b l r s) = s_trail s @ [l]"
    "s_trail_limits (enqueued b l r s) = s_trail_limits s" "s_head (enqueued b l r s) = s_head s"
    "same_db s (enqueued b l r s)" "nvars (enqueued b l r s) = nvars s"
    "s_watches (enqueued b l r s) = s_watches s" "s_order (enqueued b l r s) = s_order s"
    "s_consistent (enqueued b l r s) = s_consistent s" "s_proof (enqueued b l r s) = s_proof s"
    "s_scope_selectors (enqueued b l r s) = s_scope_selectors s"
    "literal_value (enqueued b l r s) k
      = (if lit_var k = lit_var l then (if k = l then 1 else - 1) else literal_value s k)"
    "level_of (enqueued b l r s) k = (if lit_var k = lit_var l then decision_level s else level_of s k)"
    "reason_of (enqueued b l r s) k = (if lit_var k = lit_var l then r else reason_of s k)"
    "shape_ok (enqueued b l r s)" "lit_ok (enqueued b l r s) = lit_ok s"
    "decision_level (enqueued b l r s) = decision_level s"
    "s_seen (enqueued b l r s) = s_seen s" "s_config (enqueued b l r s) = s_config s"
proof -
  let ?i = "var_index (lit_var l)"
  note e = enqueue_unassigned [OF assms(1), of b r]
  have i: "?i < length (s_assignments s)" "?i < length (s_levels s)" "?i < length (s_reasons s)"
    using assms(2,3) by (simp_all add: shape_ok_def lit_ok_def nvars_def)
  show "s_trail (enqueued b l r s) = s_trail s @ [l]"
    "s_trail_limits (enqueued b l r s) = s_trail_limits s" "s_head (enqueued b l r s) = s_head s"
    "same_db s (enqueued b l r s)" "nvars (enqueued b l r s) = nvars s"
    "s_watches (enqueued b l r s) = s_watches s" "s_order (enqueued b l r s) = s_order s"
    "s_consistent (enqueued b l r s) = s_consistent s" "s_proof (enqueued b l r s) = s_proof s"
    "s_scope_selectors (enqueued b l r s) = s_scope_selectors s"
    "lit_ok (enqueued b l r s) = lit_ok s" "decision_level (enqueued b l r s) = decision_level s"
    "s_seen (enqueued b l r s) = s_seen s" "s_config (enqueued b l r s) = s_config s"
    by (simp_all add: enqueued_def e same_db_def nvars_def lit_ok_def fun_eq_iff decision_level_def)
  show "shape_ok (enqueued b l r s)"
    using assms(2) by (simp add: enqueued_def e shape_ok_def nvars_def)
  show "literal_value (enqueued b l r s) k
      = (if lit_var k = lit_var l then (if k = l then 1 else - 1) else literal_value s k)"
    using i by (auto simp: enqueued_def e literal_value_def value_of_def Let_def nth_list_update
        var_index_eq_iff lit_eq_iff)
  show "level_of (enqueued b l r s) k = (if lit_var k = lit_var l then decision_level s else level_of s k)"
    using i by (simp add: enqueued_def e level_of_def var_index_eq_iff)
  show "reason_of (enqueued b l r s) k = (if lit_var k = lit_var l then r else reason_of s k)"
    using i by (simp add: enqueued_def e reason_of_def var_index_eq_iff)
qed

lemma not_var_in_trail:
  assumes "trail_ok s" "lit_ok s l" "literal_value s l = 0" "k \<in> set (s_trail s)"
  shows "lit_var k \<noteq> lit_var l"
  using literal_value_iff(3) [OF assms(1,2)] assms(3,4)
  by (auto simp: lit_t_def lit_f_def lit_var_eq_iff)

lemma enqueued_trail_ok:
  assumes t: "trail_ok s" and sh: "shape_ok s" and l: "lit_ok s l" "literal_value s l = 0"
  shows "trail_ok (enqueued b l r s)"
proof -
  note f = enqueued_fields [OF l(2) sh l(1), of b r]
  have nv: "lit_var k \<noteq> lit_var l" if "k \<in> set (s_trail s)" for k
    using not_var_in_trail [OF t l that] .
  have "level_of (enqueued b l r s) ((s_trail s @ [l]) ! i)
      = length (filter (\<lambda>n. n \<le> i) (s_trail_limits s))" if i: "i < Suc (length (s_trail s))" for i
  proof (cases "i < length (s_trail s)")
    case True
    then have "lit_var (s_trail s ! i) \<noteq> lit_var l" using nv by simp
    with True t show ?thesis by (simp add: f nth_append trail_ok_def)
  next
    case False
    then have [simp]: "i = length (s_trail s)" using i by simp
    have "\<forall>n \<in> set (s_trail_limits s). n \<le> length (s_trail s)"
      using t by (auto simp: trail_ok_def)
    then have "filter (\<lambda>n. n \<le> i) (s_trail_limits s) = s_trail_limits s"
      by (simp add: filter_id_conv)
    then show ?thesis by (simp add: f decision_level_def)
  qed
  moreover have "literal_value (enqueued b l r s) k = (if lit_t (enqueued b l r s) k then 1
      else if lit_f (enqueued b l r s) k then - 1 else 0)" if k: "lit_ok s k" for k
  proof (cases "lit_var k = lit_var l")
    case True
    then have "k = l \<or> k = lit_not l" by (simp add: lit_var_eq_iff)
    moreover have "k \<notin> set (s_trail s)" "lit_not k \<notin> set (s_trail s)"
      using nv [of k] nv [of "lit_not k"] True by auto
    ultimately show ?thesis by (auto simp: f lit_t_def lit_f_def)
  next
    case False
    then have "k \<noteq> l" "lit_not k \<noteq> l" by auto
    with False t k show ?thesis by (simp add: f lit_t_def lit_f_def trail_ok_def)
  qed
  moreover have "lit_var l \<notin> lit_var ` set (s_trail s)" using nv by force
  ultimately show ?thesis
    using t l(1) unfolding trail_ok_def f by (auto simp: le_SucI)
qed

lemma enqueued_reasons_ok:
  assumes r: "reasons_ok s" and t: "trail_ok s" and sh: "shape_ok s"
    and l: "lit_ok s l" "literal_value s l = 0" and fits: "reason_fits s l r"
  shows "reasons_ok (enqueued b l r s)"
  unfolding reasons_ok_def
proof (intro allI impI)
  note f = enqueued_fields [OF l(2) sh l(1), of b r]
  note db = same_db_simps [OF f(4)]
  fix i assume "i < length (s_trail (enqueued b l r s))"
  then have i: "i < Suc (length (s_trail s))" by (simp add: f)
  show "case reason_of (enqueued b l r s) (s_trail (enqueued b l r s) ! i) of
          None \<Rightarrow> i \<in> set (s_trail_limits (enqueued b l r s))
            \<or> (\<forall>n \<in> set (s_trail_limits (enqueued b l r s)). i < n)
        | Some c \<Rightarrow> live (enqueued b l r s) c
            \<and> s_trail (enqueued b l r s) ! i \<in> set (clause_literals (enqueued b l r s) c)
            \<and> (\<forall>k \<in> set (clause_literals (enqueued b l r s) c). k \<noteq> s_trail (enqueued b l r s) ! i \<longrightarrow>
                lit_not k \<in> set (take i (s_trail (enqueued b l r s))))"
  proof (cases "i < length (s_trail s)")
    case True
    then have "lit_var (s_trail s ! i) \<noteq> lit_var l" using not_var_in_trail [OF t l] by simp
    with True r show ?thesis
      by (auto simp: f db reasons_ok_def nth_append split: option.split)
  next
    case False
    then have [simp]: "i = length (s_trail s)" using i by simp
    from fits show ?thesis
      unfolding f db by (cases r) (auto simp: reason_fits_def lit_f_def)
  qed
qed

lemma enqueued_root:
  assumes t: "trail_ok s" "shape_ok s" and l: "lit_ok s l" "literal_value s l = 0"
  shows "root_literals (enqueued p l r s) = root_literals s \<union> (if decision_level s = 0 then {l} else {})"
  using not_var_in_trail [OF t(1) l] enqueued_fields(1,12) [OF l(2) t(2) l(1)] by (auto simp: root_literals_def)

lemma enqueued_coverage:
  assumes t: "trail_ok s" "shape_ok s" and l: "lit_ok s l" "literal_value s l = 0" and c: "coverage_ok H s"
  shows "coverage_ok H (enqueued p l r s)"
proof -
  note f = enqueued_fields [OF l(2) t(2) l(1), of p r]
  show ?thesis
    using c unfolding coverage_ok_def covered_def enqueued_root [OF t l] f same_db_simps [OF f(4)] by blast
qed

lemma enqueued_db_ok:
  assumes b: "db_ok G s" and l: "lit_ok s l" "literal_value s l = 0" and fits: "reason_fits s l r"
    and root: "decision_level s = 0 \<longrightarrow> entails G [l]"
  shows "db_ok G (enqueued p l r s)"
proof -
  have parts: "shape_ok s" "queue_inv s" "arena_ok s" "clauses_ok s" "trail_ok s" "reasons_ok s"
    "meaning_ok G s" "selectors_ok s"
    using b by (simp_all add: db_ok_def)
  note f = enqueued_fields [OF l(2) parts(1) l(1), of p r]
  note db = same_db_simps [OF f(4)]
  have nv: "lit_var k \<noteq> lit_var l" if "k \<in> set (s_trail s)" for k
    using not_var_in_trail [OF parts(5) l that] .
  note root_lits = enqueued_root [OF parts(5,1) l, of p r]
  have asg: "s_assignments (enqueued p l r s) ! var_index v = 0 \<Longrightarrow> s_assignments s ! var_index v = 0"
    if "var_index v < nvars s" for v
    using l that by (cases "v = lit_var l")
      (auto simp: enqueued_def enqueue_unassigned nvars_def lit_ok_def var_index_eq_iff split: if_splits)
  have "queue_inv (enqueued p l r s)"
    using parts(2) asg unfolding queue_inv_def f by blast
  moreover have "arena_ok (enqueued p l r s)"
    using parts(3) f(4) by (simp add: arena_ok_def same_db_def)
  moreover have "clauses_ok (enqueued p l r s)"
    using parts(4) unfolding clauses_ok_def f db .
  moreover have "meaning_ok G (enqueued p l r s)"
    using parts(7) root unfolding meaning_ok_def root_lits f db by auto
  moreover have "selectors_ok (enqueued p l r s)"
    using parts(8) unfolding selectors_ok_def f .
  ultimately show ?thesis
    using f(14) enqueued_trail_ok [OF parts(5,1) l] enqueued_reasons_ok [OF parts(6,5,1) l fits]
    by (simp add: db_ok_def)
qed

lemma enqueued_base_ok:
  assumes b: "base_ok G s" and l: "lit_ok s l" "literal_value s l = 0" and fits: "reason_fits s l r"
    and root: "decision_level s = 0 \<longrightarrow> entails G [l]"
  shows "base_ok G (enqueued p l r s)"
  using b enqueued_db_ok [OF _ l fits root] enqueued_coverage [OF _ _ l] by (simp add: base_ok_split db_ok_def)

lemma enqueued_watches_ok:
  assumes "watches_ok s" "shape_ok s" "lit_ok s l" "literal_value s l = 0"
  shows "watches_ok (enqueued p l r s)"
proof -
  note f = enqueued_fields [OF assms(4,2,3), of p r]
  show ?thesis
    using assms(1) unfolding watches_ok_def watch_ok_def watches_of_def f same_db_simps [OF f(4)] .
qed

lemma enqueued_done:
  assumes w: "watch_but X k s c" and t: "trail_ok s" "shape_ok s" and l: "lit_ok s l" "literal_value s l = 0"
    and k: "k \<le> length (s_trail s)"
  shows "watch_but X k (enqueued p l r s) c"
proof -
  note f = enqueued_fields [OF l(2) t(2) l(1), of p r]
  note db = same_db_simps [OF f(4)]
  have nv: "lit_var m \<noteq> lit_var l" if "lit_not m \<in> set (take k (s_trail s))" for m
    using not_var_in_trail [OF t(1) l, of "lit_not m"] that by (auto dest: in_set_takeD)
  have "both_done k (enqueued p l r s) c" if x: "c \<notin> X"
    unfolding both_done_def
  proof
    assume "\<forall>m \<in> set (take 2 (clause_literals (enqueued p l r s) c)).
         lit_not m \<in> set (take k (s_trail (enqueued p l r s)))"
    then have f2: "lit_not m \<in> set (take k (s_trail s))" if "m \<in> set (take 2 (clause_literals s c))" for m
      using that k by (simp add: f db)
    then obtain x m where x: "x \<in> set (clause_literals s c)" "lit_t s x"
      "m \<in> set (take 2 (clause_literals s c))" "level_of s x \<le> level_of s m"
      using w x by (auto simp: watch_but_def both_done_def)
    have "lit_var m \<noteq> lit_var l" "lit_var x \<noteq> lit_var l"
      using nv [OF f2 [OF x(3)]] not_var_in_trail [OF t(1) l, of x] x(2) by (auto simp: lit_t_def)
    with x show "\<exists>x \<in> set (clause_literals (enqueued p l r s) c). lit_t (enqueued p l r s) x
        \<and> (\<exists>m \<in> set (take 2 (clause_literals (enqueued p l r s) c)).
            level_of (enqueued p l r s) x \<le> level_of (enqueued p l r s) m)"
      unfolding db f lit_t_def by (intro bexI [of _ x]) auto
  qed
  moreover have "root_done k (enqueued p l r s) c" if x: "X = {}"
    unfolding root_done_def db
  proof (intro ballI impI)
    fix m assume m: "m \<in> set (take 2 (clause_literals s c))"
      "lit_not m \<in> set (take k (s_trail (enqueued p l r s)))" "level_of (enqueued p l r s) m = 0"
    then have mk: "lit_not m \<in> set (take k (s_trail s))" using k by (simp add: f)
    then have "level_of s m = 0" using m(3) nv [OF mk] by (simp add: f)
    then show "\<exists>t \<in> set (clause_literals s c). t \<in> root_literals (enqueued p l r s)"
      using w x m(1) mk enqueued_root [OF t l, of p r] unfolding watch_but_def root_done_def by blast
  qed
  ultimately show ?thesis by (simp add: watch_but_def)
qed

lemma enqueued_watch_sem:
  assumes w: "watch_sem k s" and t: "trail_ok s" "shape_ok s" and l: "lit_ok s l" "literal_value s l = 0"
    and k: "k \<le> length (s_trail s)"
  shows "watch_sem k (enqueued p l r s)"
  using w enqueued_done [OF _ t l k] same_db_live [OF enqueued_fields(4) [OF l(2) t(2) l(1)]]
  by (auto simp: watch_sem_def)

subsection \<open>New levels and backtracking\<close>

lemma new_level_trail_ok:
  assumes t: "trail_ok s" and h: "s_head s = length (s_trail s)"
  shows "trail_ok (new_level s)"
proof -
  have v: "literal_value (new_level s) = literal_value s" "lit_ok (new_level s) = lit_ok s"
    "lit_t (new_level s) = lit_t s" "lit_f (new_level s) = lit_f s" "level_of (new_level s) = level_of s"
    by (auto simp: new_level_def literal_value_def lit_ok_def nvars_def lit_t_def lit_f_def level_of_def
        fun_eq_iff)
  have "filter (\<lambda>n. n \<le> i) (s_trail_limits s @ [length (s_trail s)]) = filter (\<lambda>n. n \<le> i) (s_trail_limits s)"
    if "i < length (s_trail s)" for i
    using that by simp
  with t h show ?thesis
    unfolding trail_ok_def v by (auto simp: new_level_def sorted_append)
qed

lemma new_level_base_ok:
  assumes b: "base_ok G s" and h: "s_head s = length (s_trail s)"
  shows "base_ok G (new_level s)"
proof -
  have d: "same_db s (new_level s)" by (simp add: new_level_def same_db_def)
  note db = same_db_simps [OF d]
  have v: "literal_value (new_level s) = literal_value s" "lit_ok (new_level s) = lit_ok s"
    "level_of (new_level s) = level_of s" "reason_of (new_level s) = reason_of s"
    "nvars (new_level s) = nvars s" "s_trail (new_level s) = s_trail s"
    "root_literals (new_level s) = root_literals s"
    by (auto simp: new_level_def literal_value_def lit_ok_def nvars_def level_of_def reason_of_def
        fun_eq_iff root_literals_def)
  have "reasons_ok (new_level s)"
    unfolding reasons_ok_def
  proof (intro allI impI)
    fix i assume "i < length (s_trail (new_level s))"
    then have i: "i < length (s_trail s)" by (simp add: v)
    with b have "case reason_of s (s_trail s ! i) of
          Some c \<Rightarrow> live s c \<and> s_trail s ! i \<in> set (clause_literals s c)
            \<and> (\<forall>l \<in> set (clause_literals s c). l \<noteq> s_trail s ! i \<longrightarrow> lit_not l \<in> set (take i (s_trail s)))
        | None \<Rightarrow> i \<in> set (s_trail_limits s) \<or> (\<forall>n \<in> set (s_trail_limits s). i < n)"
      by (simp add: base_ok_def reasons_ok_def)
    with i show "case reason_of (new_level s) (s_trail (new_level s) ! i) of
          Some c \<Rightarrow> live (new_level s) c \<and> s_trail (new_level s) ! i \<in> set (clause_literals (new_level s) c)
            \<and> (\<forall>l \<in> set (clause_literals (new_level s) c). l \<noteq> s_trail (new_level s) ! i \<longrightarrow>
                lit_not l \<in> set (take i (s_trail (new_level s))))
        | None \<Rightarrow> i \<in> set (s_trail_limits (new_level s)) \<or> (\<forall>n \<in> set (s_trail_limits (new_level s)). i < n)"
      unfolding v db by (cases "reason_of s (s_trail s ! i)") (auto simp: new_level_def)
  qed
  moreover have "shape_ok (new_level s)" "queue_inv (new_level s)" "arena_ok (new_level s)"
    "selectors_ok (new_level s)"
    using b by (simp_all add: base_ok_def shape_ok_def queue_inv_def arena_ok_def selectors_ok_def v)
      (simp_all add: new_level_def)
  moreover have "clauses_ok (new_level s)"
    using b unfolding base_ok_def clauses_ok_def db v by blast
  moreover have "meaning_ok G (new_level s)"
    using b unfolding base_ok_def meaning_ok_def db v by (simp add: new_level_def)
  moreover have "coverage_ok G (new_level s)"
    using b unfolding base_ok_def coverage_ok_def covered_def db v by (simp add: new_level_def)
  ultimately show ?thesis
    using b new_level_trail_ok [OF _ h] by (simp add: base_ok_def)
qed

lemma new_level_watches:
  "watches_ok (new_level s) = watches_ok s" "watch_sem k (new_level s) = watch_sem k s"
proof -
  have d: "same_db s (new_level s)" by (simp add: new_level_def same_db_def)
  note db = same_db_simps [OF d]
  have v: "lit_ok (new_level s) = lit_ok s" "watches_of (new_level s) = watches_of s"
    "lit_t (new_level s) = lit_t s" "level_of (new_level s) = level_of s" "s_trail (new_level s) = s_trail s"
    "root_literals (new_level s) = root_literals s"
    by (auto simp: new_level_def lit_ok_def nvars_def watches_of_def lit_t_def level_of_def root_literals_def fun_eq_iff)
  show "watches_ok (new_level s) = watches_ok s" unfolding watches_ok_def watch_ok_def v db ..
  show "watch_sem k (new_level s) = watch_sem k s" unfolding watch_sem_def watch_done_defs v db ..
qed

end
