(* ===== verification/Solver_Backtrack.thy ===== *)
theory Solver_Backtrack
  imports Solver_Inv
begin

section \<open>Backtracking keeps the invariant\<close>

text \<open>
  \<open>cancel_until\<close> forgets the literals of the levels above the target level. The lemmas show
  that every part of the invariant survives, the semantic watch invariant included, and that
  the literals of level 0 stay.
\<close>

definition vars_of :: "lit list \<Rightarrow> nat set" where
  "vars_of ls = (\<lambda>l. var_index (lit_var l)) ` set ls"

lemma fold_unassign_frame:
  "\<exists>a l r h q. fold unassign ls s
    = s\<lparr>s_assignments := a, s_levels := l, s_reasons := r, s_order := h, s_vmtf := q\<rparr>"
proof (induction ls arbitrary: s)
  case Nil
  have "s = s\<lparr>s_assignments := s_assignments s, s_levels := s_levels s, s_reasons := s_reasons s,
      s_order := s_order s, s_vmtf := s_vmtf s\<rparr>" by simp
  then show ?case unfolding fold_simps id_apply by metis
next
  case (Cons x xs)
  obtain a l r h q where e: "unassign x s
      = s\<lparr>s_assignments := a, s_levels := l, s_reasons := r, s_order := h, s_vmtf := q\<rparr>"
  proof -
    have "unassign x s = s\<lparr>s_assignments := s_assignments (unassign x s), s_levels := s_levels (unassign x s),
        s_reasons := s_reasons (unassign x s), s_order := s_order (unassign x s), s_vmtf := s_vmtf (unassign x s)\<rparr>"
      unfolding unassign_def Let_def by (rule solver.equality) simp_all
    then show ?thesis by (rule that)
  qed
  obtain a' l' r' h' q' where e': "fold unassign xs (unassign x s) = (unassign x s)
      \<lparr>s_assignments := a', s_levels := l', s_reasons := r', s_order := h', s_vmtf := q'\<rparr>"
    using Cons.IH [of "unassign x s"] by blast
  have "fold unassign (x # xs) s
      = s\<lparr>s_assignments := a', s_levels := l', s_reasons := r', s_order := h', s_vmtf := q'\<rparr>"
    unfolding fold_simps e' unfolding e by simp
  then show ?case by (intro exI)
qed

lemma fold_unassign:
  assumes "slots_ok (s_order s)" "length (vo_positions (s_order s)) = nvars s"
    "length (s_levels s) = nvars s" "length (s_reasons s) = nvars s" "\<forall>l \<in> set ls. lit_ok s l"
  shows "nvars (fold unassign ls s) = nvars s \<and> length (s_levels (fold unassign ls s)) = nvars s
    \<and> length (s_reasons (fold unassign ls s)) = nvars s
    \<and> (\<forall>i < nvars s. s_assignments (fold unassign ls s) ! i = (if i \<in> vars_of ls then 0 else s_assignments s ! i)
         \<and> s_levels (fold unassign ls s) ! i = (if i \<in> vars_of ls then 0 else s_levels s ! i)
         \<and> s_reasons (fold unassign ls s) ! i = (if i \<in> vars_of ls then None else s_reasons s ! i))
    \<and> slots_ok (s_order (fold unassign ls s)) \<and> length (vo_positions (s_order (fold unassign ls s))) = nvars s
    \<and> vo_vars (s_order (fold unassign ls s)) = vo_vars (s_order s) \<union> lit_var ` set ls"
  using assms
proof (induction ls arbitrary: s)
  case Nil
  then show ?case by (simp add: vars_of_def)
next
  case (Cons x xs)
  let ?i = "var_index (lit_var x)" and ?s = "unassign x s"
  have i: "?i < nvars s" using Cons.prems by (simp add: lit_ok_def)
  have u: "nvars ?s = nvars s" "length (s_levels ?s) = nvars s" "length (s_reasons ?s) = nvars s"
    "lit_ok ?s = lit_ok s"
    using Cons.prems by (simp_all add: unassign_def Let_def nvars_def lit_ok_def fun_eq_iff)
  have o: "slots_ok (s_order ?s)" "vo_vars (s_order ?s) = insert (lit_var x) (vo_vars (s_order s))"
    "length (vo_positions (s_order ?s)) = nvars s"
    using vo_insert_slots [of "s_order s" "lit_var x" "s_activity s"] Cons.prems i
    by (simp_all add: unassign_def Let_def)
  have a: "\<forall>j < nvars s. s_assignments ?s ! j = (if j = ?i then 0 else s_assignments s ! j)
      \<and> s_levels ?s ! j = (if j = ?i then 0 else s_levels s ! j)
      \<and> s_reasons ?s ! j = (if j = ?i then None else s_reasons s ! j)"
    using Cons.prems i by (simp add: unassign_def Let_def nvars_def nth_list_update)
  show ?case
    using Cons.IH [of ?s] u o a Cons.prems by (auto simp: vars_of_def)
qed

lemma sorted_filter_take:
  assumes "sorted (xs :: nat list)" "k < length xs" "i < xs ! k"
  shows "filter (\<lambda>n. n \<le> i) (take k xs) = filter (\<lambda>n. n \<le> i) xs"
proof -
  have "xs ! k \<le> n" if "n \<in> set (drop k xs)" for n
    using assms(1,2) that by (auto simp: in_set_conv_nth sorted_iff_nth_mono)
  then have "filter (\<lambda>n. n \<le> i) (drop k xs) = []"
    using assms(3) by (fastforce simp: filter_empty_conv)
  then show ?thesis
    by (metis append_Nil2 append_take_drop_id filter_append)
qed

lemma sorted_filter_bound:
  assumes "sorted (xs :: nat list)" "k < length xs" "xs ! k \<le> i"
  shows "k < length (filter (\<lambda>n. n \<le> i) xs)"
proof -
  have "n \<le> i" if "n \<in> set (take (Suc k) xs)" for n
  proof -
    obtain j where "j < Suc k" "xs ! j = n" using \<open>n \<in> set (take (Suc k) xs)\<close> assms(2)
      by (auto simp: in_set_conv_nth)
    then have "n \<le> xs ! k" using assms by (auto simp: sorted_iff_nth_mono)
    then show ?thesis using assms(3) by simp
  qed
  then have "filter (\<lambda>n. n \<le> i) (take (Suc k) xs) = take (Suc k) xs" by (simp add: filter_id_conv)
  moreover have "length (filter (\<lambda>n. n \<le> i) (take (Suc k) xs)) \<le> length (filter (\<lambda>n. n \<le> i) xs)"
    by (metis append_take_drop_id filter_append length_append le_add1)
  ultimately show ?thesis using assms(2) by simp
qed

lemma cancel_noop: "decision_level s \<le> k \<Longrightarrow> cancel_until k s = s"
  by (simp add: cancel_until_def)

lemma cancel_fields:
  assumes b: "base_ok G s" and k: "k < decision_level s"
  defines "m \<equiv> s_trail_limits s ! k"
  defines "s' \<equiv> cancel_until k s"
  shows "s_trail s' = take m (s_trail s)" "s_trail_limits s' = take k (s_trail_limits s)" "s_head s' = m"
    "m \<le> s_head s" "same_db s s'" "nvars s' = nvars s" "lit_ok s' = lit_ok s"
    "s_watches s' = s_watches s" "s_consistent s' = s_consistent s" "s_proof s' = s_proof s"
    "s_scope_selectors s' = s_scope_selectors s" "shape_ok s'" "queue_inv s'"
    "\<And>l. lit_ok s l \<Longrightarrow> literal_value s' l = (if var_index (lit_var l) \<in> vars_of (drop m (s_trail s)) then 0 else literal_value s l)"
    "\<And>l. l \<in> set (take m (s_trail s)) \<Longrightarrow> level_of s' l = level_of s l \<and> reason_of s' l = reason_of s l"
    "s_seen s' = s_seen s" "s_config s' = s_config s" "s_started s' = s_started s"
    "s_control_active s' = s_control_active s" "s_proof_input s' = s_proof_input s"
    "s_stats s' = s_stats s" "s_variable_count s' = s_variable_count s"
proof -
  have parts: "shape_ok s" "queue_inv s" "trail_ok s" using b by (simp_all add: base_ok_def)
  let ?ls = "rev (drop m (s_trail s))"
  have kl: "k < length (s_trail_limits s)" using k by (simp add: decision_level_def)
  then show mh: "m \<le> s_head s" using parts(3) by (simp add: trail_ok_def m_def)
  have lo: "\<forall>l \<in> set ?ls. lit_ok s l"
    using parts(3) by (auto simp: trail_ok_def dest: in_set_dropD)
  have v: "vars_of ?ls = vars_of (drop m (s_trail s))" by (simp add: vars_of_def)
  have pre: "slots_ok (s_order s)" "length (vo_positions (s_order s)) = nvars s"
    "length (s_levels s) = nvars s" "length (s_reasons s) = nvars s"
    using parts(1,2) by (simp_all add: shape_ok_def queue_inv_def)
  note u = fold_unassign [OF pre lo]
  have u_ex: "\<exists>a l r h q. fold unassign ?ls s
      = s\<lparr>s_assignments := a, s_levels := l, s_reasons := r, s_order := h, s_vmtf := q\<rparr>"
    by (rule fold_unassign_frame)
  obtain a l r h q where x: "fold unassign ?ls s
      = s\<lparr>s_assignments := a, s_levels := l, s_reasons := r, s_order := h, s_vmtf := q\<rparr>"
    using u_ex by blast
  have s': "s' = s\<lparr>s_assignments := a, s_levels := l, s_reasons := r, s_order := h, s_vmtf := q,
      s_trail := take m (s_trail s), s_trail_limits := take k (s_trail_limits s), s_head := min (s_head s) m\<rparr>"
    using k unfolding s'_def cancel_until_def m_def Let_def by (simp add: x [unfolded m_def])
  have len: "length a = nvars s" "length l = nvars s" "length r = nvars s"
    and vals: "\<And>i. i < nvars s \<Longrightarrow> a ! i = (if i \<in> vars_of (drop m (s_trail s)) then 0 else s_assignments s ! i)
         \<and> l ! i = (if i \<in> vars_of (drop m (s_trail s)) then 0 else s_levels s ! i)
         \<and> r ! i = (if i \<in> vars_of (drop m (s_trail s)) then None else s_reasons s ! i)"
    and o: "slots_ok h" "length (vo_positions h) = nvars s"
      "vo_vars h = vo_vars (s_order s) \<union> lit_var ` set (drop m (s_trail s))"
    using u unfolding x v by (simp_all add: nvars_def)
  show "s_trail s' = take m (s_trail s)" "s_trail_limits s' = take k (s_trail_limits s)"
    "s_head s' = m" "same_db s s'" "nvars s' = nvars s" "lit_ok s' = lit_ok s"
    "s_watches s' = s_watches s" "s_consistent s' = s_consistent s" "s_proof s' = s_proof s"
    "s_scope_selectors s' = s_scope_selectors s" "s_seen s' = s_seen s" "s_config s' = s_config s"
    "s_started s' = s_started s" "s_control_active s' = s_control_active s"
    "s_proof_input s' = s_proof_input s" "s_stats s' = s_stats s" "s_variable_count s' = s_variable_count s"
    using mh len by (simp_all add: s' same_db_def nvars_def lit_ok_def fun_eq_iff)
  show "shape_ok s'" using parts(1) len by (simp add: s' shape_ok_def nvars_def)
  show "queue_inv s'"
    unfolding queue_inv_def
  proof (intro conjI allI impI)
    show "slots_ok (s_order s')" "length (vo_positions (s_order s')) = nvars s'"
      using o len by (simp_all add: s' nvars_def)
    fix w assume w: "var_index w < nvars s' \<and> s_assignments s' ! var_index w = 0"
    then have "a ! var_index w = 0" "var_index w < nvars s" using len by (simp_all add: s' nvars_def)
    then show "w \<in> vo_vars (s_order s')"
      using vals [of "var_index w"] parts(2) o(3)
      by (auto simp: s' queue_inv_def vars_of_def var_index_eq_iff split: if_splits)
  qed
  show "literal_value s' l = (if var_index (lit_var l) \<in> vars_of (drop m (s_trail s)) then 0 else literal_value s l)"
    if "lit_ok s l" for l
    using vals [of "var_index (lit_var l)"] that
    by (simp add: s' literal_value_def value_of_def lit_ok_def Let_def)
  show "level_of s' l = level_of s l \<and> reason_of s' l = reason_of s l" if l: "l \<in> set (take m (s_trail s))" for l
  proof -
    have "distinct (map lit_var (take m (s_trail s) @ drop m (s_trail s)))"
      using parts(3) by (simp add: trail_ok_def)
    then have "lit_var l \<notin> lit_var ` set (drop m (s_trail s))"
      using l unfolding map_append distinct_append by auto
    then have "var_index (lit_var l) \<notin> vars_of (drop m (s_trail s))"
      by (auto simp: vars_of_def var_index_eq_iff)
    moreover have "lit_ok s l" using l parts(3) by (auto simp: trail_ok_def dest: in_set_takeD)
    ultimately show ?thesis
      using vals [of "var_index (lit_var l)"] by (simp add: s' level_of_def reason_of_def lit_ok_def)
  qed
qed

lemma cancel_trail_ok:
  assumes b: "base_ok G s" and k: "k < decision_level s"
  shows "trail_ok (cancel_until k s)"
proof -
  note f = cancel_fields [OF b k]
  let ?m = "s_trail_limits s ! k" and ?T = "take (s_trail_limits s ! k) (s_trail s)"
    and ?D = "drop (s_trail_limits s ! k) (s_trail s)" and ?s = "cancel_until k s"
  have t: "trail_ok s" using b by (simp add: base_ok_def)
  have kl: "k < length (s_trail_limits s)" using k by (simp add: decision_level_def)
  have d: "distinct (map lit_var (?T @ ?D))" using t by (simp add: trail_ok_def)
  have mono: "n \<le> ?m" if "n \<in> set (take k (s_trail_limits s))" for n
    using that t kl by (auto simp: trail_ok_def in_set_conv_nth sorted_iff_nth_mono)
  have val: "literal_value ?s l = (if lit_t ?s l then 1 else if lit_f ?s l then - 1 else 0)"
    if l: "lit_ok s l" for l
  proof (cases "var_index (lit_var l) \<in> vars_of ?D")
    case True
    then have "lit_var l \<in> lit_var ` set ?D" by (auto simp: vars_of_def var_index_eq_iff)
    moreover have "lit_var ` set ?T \<inter> lit_var ` set ?D = {}" using d unfolding map_append distinct_append by simp
    ultimately have "lit_var l \<notin> lit_var ` set ?T" by blast
    then have "l \<notin> set ?T" "lit_not l \<notin> set ?T" by (blast, metis image_eqI lit_var_not)
    then show ?thesis using f(14) [OF l] True by (simp add: lit_t_def lit_f_def f)
  next
    case False
    then have "l \<notin> set ?D" "lit_not l \<notin> set ?D" unfolding vars_of_def by (blast, metis image_eqI lit_var_not)
    moreover have "set (s_trail s) = set ?T \<union> set ?D" by (metis append_take_drop_id set_append)
    ultimately show ?thesis
      using f(14) [OF l] False t l by (simp add: lit_t_def lit_f_def f trail_ok_def)
  qed
  have lev: "level_of ?s (?T ! i) = length (filter (\<lambda>n. n \<le> i) (take k (s_trail_limits s)))"
    if i: "i < length ?T" for i
  proof -
    have "sorted (s_trail_limits s)" using t by (simp add: trail_ok_def)
    from sorted_filter_take [OF this kl, of i] i
    have "filter (\<lambda>n. n \<le> i) (take k (s_trail_limits s)) = filter (\<lambda>n. n \<le> i) (s_trail_limits s)" by simp
    moreover have "level_of ?s (?T ! i) = level_of s (?T ! i)" using f(15) [of "?T ! i"] i by (metis nth_mem)
    ultimately show ?thesis using t i by (simp add: trail_ok_def)
  qed
  show ?thesis
    unfolding trail_ok_def f
  proof (intro conjI)
    show "distinct (map lit_var ?T)" using d unfolding map_append distinct_append by blast
    show "\<forall>l \<in> set ?T. lit_ok s l" using t by (auto simp: trail_ok_def dest: in_set_takeD)
    show "sorted (take k (s_trail_limits s))" using t by (simp add: trail_ok_def sorted_wrt_take)
    show "\<forall>n \<in> set (take k (s_trail_limits s)). n \<le> ?m" using mono by blast
    have "?m \<le> length (s_trail s)" using f(4) t unfolding trail_ok_def by linarith
    then show "?m \<le> length ?T" by simp
  qed (use val lev in auto)
qed

lemma cancel_root:
  assumes b: "base_ok G s" and k: "k < decision_level s"
  shows "root_literals (cancel_until k s) = root_literals s"
proof -
  note f = cancel_fields [OF b k]
  have t: "trail_ok s" using b by (simp add: base_ok_def)
  have kl: "k < length (s_trail_limits s)" using k by (simp add: decision_level_def)
  have "l \<in> set (take (s_trail_limits s ! k) (s_trail s))" if "l \<in> set (s_trail s)" "level_of s l = 0" for l
  proof -
    obtain i where i: "i < length (s_trail s)" "s_trail s ! i = l"
      "level_of s l = length (filter (\<lambda>n. n \<le> i) (s_trail_limits s))"
      using level_cases [OF t \<open>l \<in> set (s_trail s)\<close>] by blast
    have srt: "sorted (s_trail_limits s)" using t by (simp add: trail_ok_def)
    have "i < s_trail_limits s ! k"
      using sorted_filter_bound [OF srt kl, of i] i that by (cases "i < s_trail_limits s ! k") simp_all
    then show ?thesis using i by (auto simp: in_set_conv_nth)
  qed
  then show ?thesis
    using f(15) by (auto simp: root_literals_def f dest: in_set_takeD)
qed

lemma cancel_base_ok:
  assumes b: "base_ok G s"
  shows "base_ok G (cancel_until k s)"
proof (cases "k < decision_level s")
  case False
  with b show ?thesis by (simp add: cancel_noop)
next
  case k: True
  note f = cancel_fields [OF b k]
  note db = same_db_simps [OF f(5)]
  note root = cancel_root [OF b k]
  let ?s = "cancel_until k s" and ?m = "s_trail_limits s ! k"
  have kl: "k < length (s_trail_limits s)" using k by (simp add: decision_level_def)
  have "reasons_ok ?s"
    unfolding reasons_ok_def
  proof (intro allI impI)
    fix i assume "i < length (s_trail ?s)"
    then have i: "i < ?m" "i < length (s_trail s)" by (simp_all add: f)
    then have mem: "s_trail s ! i \<in> set (take ?m (s_trail s))" by (auto simp: in_set_conv_nth)
    have r: "case reason_of s (s_trail s ! i) of
          Some c \<Rightarrow> live s c \<and> s_trail s ! i \<in> set (clause_literals s c)
            \<and> (\<forall>l \<in> set (clause_literals s c). l \<noteq> s_trail s ! i \<longrightarrow> lit_not l \<in> set (take i (s_trail s)))
        | None \<Rightarrow> i \<in> set (s_trail_limits s) \<or> (\<forall>n \<in> set (s_trail_limits s). i < n)"
      using b i by (simp add: base_ok_def reasons_ok_def)
    have tk: "take i (take ?m (s_trail s)) = take i (s_trail s)" using i by simp
    have srt: "sorted (s_trail_limits s)" using b by (simp add: base_ok_def trail_ok_def)
    have lim: "i \<in> set (take k (s_trail_limits s)) \<or> (\<forall>n \<in> set (take k (s_trail_limits s)). i < n)"
      if "i \<in> set (s_trail_limits s) \<or> (\<forall>n \<in> set (s_trail_limits s). i < n)"
    proof -
      have "i \<in> set (take k (s_trail_limits s))" if im: "i \<in> set (s_trail_limits s)"
      proof -
        obtain j where j: "j < length (s_trail_limits s)" "s_trail_limits s ! j = i"
          using im by (meson in_set_conv_nth)
        have "j < k"
        proof (rule ccontr)
          assume "\<not> j < k"
          then have "?m \<le> s_trail_limits s ! j" using sorted_nth_mono [OF srt, of k j] j by simp
          then show False using i j by simp
        qed
        then show ?thesis using j by (auto simp: in_set_conv_nth intro!: exI [of _ j])
      qed
      with that show ?thesis by (auto dest: in_set_takeD)
    qed
    show "case reason_of ?s (s_trail ?s ! i) of
          Some c \<Rightarrow> live ?s c \<and> s_trail ?s ! i \<in> set (clause_literals ?s c)
            \<and> (\<forall>l \<in> set (clause_literals ?s c). l \<noteq> s_trail ?s ! i \<longrightarrow> lit_not l \<in> set (take i (s_trail ?s)))
        | None \<Rightarrow> i \<in> set (s_trail_limits ?s) \<or> (\<forall>n \<in> set (s_trail_limits ?s). i < n)"
    proof -
      have e: "s_trail ?s ! i = s_trail s ! i" "reason_of ?s (s_trail s ! i) = reason_of s (s_trail s ! i)"
        using f(15) [OF mem] i by (simp_all add: f)
      have e2: "take ?m (s_trail s) ! i = s_trail s ! i" using i by simp
      show ?thesis
        unfolding db f(1,2) tk e2 e(2) using r lim by (cases "reason_of s (s_trail s ! i)") simp_all
    qed
  qed
  moreover have "arena_ok ?s" using b f(5) by (simp add: base_ok_def arena_ok_def same_db_def)
  moreover have "clauses_ok ?s" using b unfolding base_ok_def clauses_ok_def db f by blast
  moreover have "meaning_ok G ?s" using b unfolding base_ok_def meaning_ok_def db f root by blast
  moreover have "coverage_ok G ?s" using b unfolding base_ok_def coverage_ok_def covered_def db f root by blast
  moreover have "selectors_ok ?s" using b unfolding base_ok_def selectors_ok_def f by blast
  ultimately show ?thesis
    using f(12,13) cancel_trail_ok [OF b k] by (simp add: base_ok_def)
qed

lemma cancel_watches_ok:
  assumes b: "base_ok G s" and w: "watches_ok s"
  shows "watches_ok (cancel_until k s)"
proof (cases "k < decision_level s")
  case k: True
  note f = cancel_fields [OF b k]
  show ?thesis using w unfolding watches_ok_def watch_ok_def watches_of_def same_db_simps [OF f(5)] f .
qed (use w in \<open>simp add: cancel_noop\<close>)

lemma cancel_watch_sem:
  assumes b: "base_ok G s" and w: "watch_sem j s" and k: "k < decision_level s"
    and j: "s_trail_limits s ! k \<le> j"
  shows "watch_sem (s_head (cancel_until k s)) (cancel_until k s)"
  unfolding watch_sem_def watch_but_def [of "{}"]
proof (intro allI impI conjI)
  note f = cancel_fields [OF b k]
  note db = same_db_simps [OF f(5)]
  have t: "trail_ok s" using b by (simp add: base_ok_def)
  have kl: "k < length (s_trail_limits s)" using k by (simp add: decision_level_def)
  have srt: "sorted (s_trail_limits s)" using t by (simp add: trail_ok_def)
  let ?m = "s_trail_limits s ! k" and ?s = "cancel_until k s"
  have sub: "set (take ?m (s_trail s)) \<subseteq> set (take j (s_trail s))"
    using j by (rule set_take_subset_set_take)
  fix c assume c: "live ?s c"
  have wd: "watch_done j s c" using w c by (simp add: watch_sem_def db)
  show "both_done (s_head ?s) ?s c"
    unfolding both_done_def
  proof
  assume "\<forall>l \<in> set (take 2 (clause_literals ?s c)). lit_not l \<in> set (take (s_head ?s) (s_trail ?s))"
  then have in_m: "lit_not l \<in> set (take ?m (s_trail s))" if "l \<in> set (take 2 (clause_literals s c))" for l
    using that by (simp add: f db)
  then have "lit_not l \<in> set (take j (s_trail s))" if "l \<in> set (take 2 (clause_literals s c))" for l
    using that sub by blast
  then obtain x l where x: "x \<in> set (clause_literals s c)" "lit_t s x"
    "l \<in> set (take 2 (clause_literals s c))" "level_of s x \<le> level_of s l"
    using wd by (auto simp: watch_but_def both_done_def)
  have "lit_not l \<in> set (take ?m (s_trail s))" using in_m x(3) by blast
  then obtain p where p: "p < ?m" "p < length (s_trail s)" "s_trail s ! p = lit_not l"
    by (auto simp: in_set_conv_nth)
  obtain q where q: "q < length (s_trail s)" "s_trail s ! q = x"
    "level_of s x = length (filter (\<lambda>n. n \<le> q) (s_trail_limits s))"
    using level_cases [OF t] x(2) unfolding lit_t_def by blast
  have "length (filter (\<lambda>n. n \<le> p) (s_trail_limits s)) \<le> k"
  proof -
    have "filter (\<lambda>n. n \<le> p) (take k (s_trail_limits s)) = filter (\<lambda>n. n \<le> p) (s_trail_limits s)"
      using sorted_filter_take [OF _ kl p(1)] t by (simp add: trail_ok_def)
    then show ?thesis by (metis length_filter_le length_take min.cobounded2 order_trans)
  qed
  moreover have "level_of s l = length (filter (\<lambda>n. n \<le> p) (s_trail_limits s))"
  proof -
    have "level_of s (s_trail s ! p) = length (filter (\<lambda>n. n \<le> p) (s_trail_limits s))"
      using t p(2) by (simp add: trail_ok_def)
    then show ?thesis unfolding p(3) by simp
  qed
  ultimately have "level_of s x \<le> k" using x(4) by simp
  then have "q < ?m"
    using sorted_filter_bound [OF srt kl, of q] q(3) by (cases "q < ?m") simp_all
  then have xm: "x \<in> set (take ?m (s_trail s))" using q by (auto simp: in_set_conv_nth)
  have "level_of ?s x = level_of s x" using f(15) [OF xm] by simp
  moreover have "level_of ?s l = level_of s l"
    using f(15) [OF in_m [OF x(3)]] by simp
  ultimately show "\<exists>t \<in> set (clause_literals ?s c). lit_t ?s t
      \<and> (\<exists>l \<in> set (take 2 (clause_literals ?s c)). level_of ?s t \<le> level_of ?s l)"
    unfolding db lit_t_def f using x(1,3,4) xm by metis
qed
  show "root_done (s_head ?s) ?s c"
    unfolding root_done_def db cancel_root [OF b k]
  proof (intro ballI impI)
    fix l assume l: "l \<in> set (take 2 (clause_literals s c))" "lit_not l \<in> set (take (s_head ?s) (s_trail ?s))"
      "level_of ?s l = 0"
    then have lm: "lit_not l \<in> set (take ?m (s_trail s))" by (simp add: f)
    then have "level_of s l = 0" using f(15) [OF lm] l(3) by simp
    then show "\<exists>t \<in> set (clause_literals s c). t \<in> root_literals s"
      using wd l(1) lm sub unfolding watch_but_def root_done_def by blast
  qed
qed

end
