(* ===== verification/Solver_Propagate.thy ===== *)
theory Solver_Propagate
  imports Solver_Backtrack
begin

section \<open>Propagation keeps the invariant and finds every conflict\<close>

text \<open>
  The scan of the watch list of one falsified literal reorders clauses, moves watches and
  enqueues implied literals. The scan invariant says how the invariant looks in the middle of a
  scan; from it follows that \<open>propagate\<close> keeps the invariant, that it ends with every literal
  of the trail processed (unless it was told to stop), and that a conflict it returns is a
  clause of the database that is false under the trail.
\<close>

subsection \<open>Reordering the literals of a clause\<close>

definition rearranged :: "'f solver \<Rightarrow> 'f solver \<Rightarrow> bool" where
  "rearranged s s' \<longleftrightarrow>
     (\<exists>a b. s' = s\<lparr>s_arena := a, s_binaries := b\<rparr> \<and> length a = length (s_arena s)
        \<and> length b = length (s_binaries s))
     \<and> (\<forall>c. valid s c \<longrightarrow> mset (clause_literals s' c) = mset (clause_literals s c))"

lemma rearranged_fields:
  assumes "rearranged s s'"
  shows "s_clauses s' = s_clauses s" "s_binary_flags s' = s_binary_flags s" "s_watches s' = s_watches s"
    "s_assignments s' = s_assignments s" "s_levels s' = s_levels s" "s_reasons s' = s_reasons s"
    "s_trail s' = s_trail s" "s_trail_limits s' = s_trail_limits s" "s_head s' = s_head s"
    "s_config s' = s_config s" "length (s_arena s') = length (s_arena s)"
    "length (s_binaries s') = length (s_binaries s)"
    "clause_deleted s' = clause_deleted s" "clause_learned s' = clause_learned s" "valid s' = valid s"
    "live s' = live s" "nvars s' = nvars s" "lit_ok s' = lit_ok s" "lit_t s' = lit_t s"
    "lit_f s' = lit_f s" "literal_value s' = literal_value s" "level_of s' = level_of s"
    "reason_of s' = reason_of s" "decision_level s' = decision_level s"
    "root_literals s' = root_literals s" "watches_of s' = watches_of s"
proof -
  obtain a b where s': "s' = s\<lparr>s_arena := a, s_binaries := b\<rparr>"
    and l: "length a = length (s_arena s)" "length b = length (s_binaries s)"
    using assms by (auto simp: rearranged_def)
  show "s_clauses s' = s_clauses s" "s_binary_flags s' = s_binary_flags s" "s_watches s' = s_watches s"
    "s_assignments s' = s_assignments s" "s_levels s' = s_levels s" "s_reasons s' = s_reasons s"
    "s_trail s' = s_trail s" "s_trail_limits s' = s_trail_limits s" "s_head s' = s_head s"
    "s_config s' = s_config s" "length (s_arena s') = length (s_arena s)"
    "length (s_binaries s') = length (s_binaries s)"
    "nvars s' = nvars s" "lit_ok s' = lit_ok s" "lit_t s' = lit_t s"
    "lit_f s' = lit_f s" "literal_value s' = literal_value s" "level_of s' = level_of s"
    "reason_of s' = reason_of s" "decision_level s' = decision_level s"
    "root_literals s' = root_literals s" "watches_of s' = watches_of s"
    using l by (auto simp: s' nvars_def lit_ok_def lit_t_def lit_f_def literal_value_def level_of_def
        reason_of_def decision_level_def root_literals_def watches_of_def fun_eq_iff)
  have d: "clause_deleted s' c = clause_deleted s c" "clause_learned s' c = clause_learned s c"
    "valid s' c = valid s c" for c
    using l by (cases c; simp add: s')+
  then show "clause_deleted s' = clause_deleted s" "clause_learned s' = clause_learned s"
    "valid s' = valid s" "live s' = live s"
    by (auto simp: fun_eq_iff live_def)
qed

lemma rearranged_literals:
  assumes "rearranged s s'" "valid s c"
  shows "set (clause_literals s' c) = set (clause_literals s c)"
    "length (clause_literals s' c) = length (clause_literals s c)"
    "distinct (map lit_var (clause_literals s' c)) = distinct (map lit_var (clause_literals s c))"
proof -
  have m: "mset (clause_literals s' c) = mset (clause_literals s c)"
    using assms by (simp add: rearranged_def)
  then show "set (clause_literals s' c) = set (clause_literals s c)"
    "length (clause_literals s' c) = length (clause_literals s c)"
    by (auto dest: mset_eq_setD mset_eq_length)
  have "mset (map lit_var (clause_literals s' c)) = mset (map lit_var (clause_literals s c))"
    using m by simp
  then show "distinct (map lit_var (clause_literals s' c)) = distinct (map lit_var (clause_literals s c))"
    by (rule mset_eq_imp_distinct_iff)
qed

lemma reasons_okD:
  assumes "reasons_ok s" "i < length (s_trail s)" "reason_of s (s_trail s ! i) = Some c"
  shows "live s c" "s_trail s ! i \<in> set (clause_literals s c)"
    "k \<in> set (clause_literals s c) \<Longrightarrow> k \<noteq> s_trail s ! i \<Longrightarrow> lit_not k \<in> set (take i (s_trail s))"
  using assms by (force simp: reasons_ok_def)+

lemma liveD: "live s c \<Longrightarrow> valid s c"
  by (simp add: live_def)

lemma rearranged_base_ok:
  assumes r: "rearranged s s'" and b: "base_ok G s"
  shows "base_ok G s'"
proof -
  note f = rearranged_fields [OF r]
  note ls = rearranged_literals [OF r]
  obtain x y where s': "s' = s\<lparr>s_arena := x, s_binaries := y\<rparr>" using r by (auto simp: rearranged_def)
  have parts: "shape_ok s" "queue_inv s" "arena_ok s" "clauses_ok s" "trail_ok s" "reasons_ok s"
    "meaning_ok G s" "coverage_ok G s" "selectors_ok s"
    using b by (simp_all add: base_ok_def)
  have g: "s_variable_count s' = s_variable_count s" "s_phase s' = s_phase s" "s_activity s' = s_activity s"
    "s_seen s' = s_seen s" "s_usage_scores s' = s_usage_scores s" "s_order s' = s_order s"
    "s_consistent s' = s_consistent s" "s_proof s' = s_proof s" "s_scope_selectors s' = s_scope_selectors s"
    by (simp_all add: s')
  have "shape_ok s'" using parts(1) unfolding shape_ok_def f g .
  moreover have "queue_inv s'" using parts(2) unfolding queue_inv_def f g .
  moreover have "arena_ok s'" using parts(3) unfolding arena_ok_def f .
  moreover have "clauses_ok s'" using parts(4) ls unfolding clauses_ok_def f by simp
  moreover have "trail_ok s'" using parts(5) unfolding trail_ok_def f .
  moreover have "reasons_ok s'"
    unfolding reasons_ok_def f
  proof (intro allI impI)
    fix i assume i: "i < length (s_trail s)"
    with parts(6) have q: "case reason_of s (s_trail s ! i) of
          Some c \<Rightarrow> live s c \<and> s_trail s ! i \<in> set (clause_literals s c)
            \<and> (\<forall>l \<in> set (clause_literals s c). l \<noteq> s_trail s ! i \<longrightarrow> lit_not l \<in> set (take i (s_trail s)))
        | None \<Rightarrow> i \<in> set (s_trail_limits s) \<or> (\<forall>n \<in> set (s_trail_limits s). i < n)"
      by (simp add: reasons_ok_def)
    show "case reason_of s (s_trail s ! i) of
          None \<Rightarrow> i \<in> set (s_trail_limits s) \<or> (\<forall>n \<in> set (s_trail_limits s). i < n)
        | Some c \<Rightarrow> live s c \<and> s_trail s ! i \<in> set (clause_literals s' c)
            \<and> (\<forall>l \<in> set (clause_literals s' c). l \<noteq> s_trail s ! i \<longrightarrow> lit_not l \<in> set (take i (s_trail s)))"
    proof (cases "reason_of s (s_trail s ! i)")
      case (Some c)
      then have "live s c" using q by simp
      from ls(1) [OF liveD [OF this]] show ?thesis using q Some by simp
    qed (use q in simp)
  qed
  moreover have "meaning_ok G s'"
    using parts(7) entails_set_eq [OF ls(1)] unfolding meaning_ok_def f g by blast
  moreover have "covered s d \<Longrightarrow> covered s' d" for d
    unfolding covered_def f using ls(1) liveD by metis
  then have "coverage_ok G s'" using parts(8) unfolding coverage_ok_def f g by blast
  moreover have "selectors_ok s'" using parts(9) unfolding selectors_ok_def f g .
  ultimately show ?thesis by (simp add: base_ok_def)
qed

lemma nth_splice:
  assumes "start + length ys \<le> length xs" "k < length xs"
  shows "(take start xs @ ys @ drop (start + length ys) xs) ! k
    = (if start \<le> k \<and> k < start + length ys then ys ! (k - start) else xs ! k)"
  using assms by (auto simp: nth_append)

lemma length_splice:
  "start + length ys \<le> length xs \<Longrightarrow> length (take start xs @ ys @ drop (start + length ys) xs) = length xs"
  by simp

lemma slice_splice_same:
  assumes "start + length ys \<le> length xs"
  shows "slice (take start xs @ ys @ drop (start + length ys) xs) start (length ys) = ys"
  using assms by (simp add: slice_def)

lemma slice_splice_other:
  assumes "start + length ys \<le> length xs" "b + n \<le> length xs" "b + n \<le> start \<or> start + length ys \<le> b"
  shows "slice (take start xs @ ys @ drop (start + length ys) xs) b n = slice xs b n"
proof (rule nth_equalityI)
  show "length (slice (take start xs @ ys @ drop (start + length ys) xs) b n) = length (slice xs b n)"
    by (simp only: slice_def length_take length_drop length_splice [OF assms(1)])
  fix i assume "i < length (slice (take start xs @ ys @ drop (start + length ys) xs) b n)"
  then have i: "i < n" by (simp only: slice_def length_take min_less_iff_conj)
  then have e: "(take start xs @ ys @ drop (start + length ys) xs) ! (b + i) = xs ! (b + i)"
    using assms nth_splice [OF assms(1), of "b + i"] by auto
  then show "slice (take start xs @ ys @ drop (start + length ys) xs) b n ! i = slice xs b n ! i"
  proof -
    have sl: "slice zs b n ! i = zs ! (b + i)" if "b + n \<le> length zs" for zs :: "'a list"
      using that i by (simp add: slice_def)
    have "b + n \<le> length (take start xs @ ys @ drop (start + length ys) xs)"
      using assms(2) length_splice [OF assms(1)] by simp
    from sl [OF this] sl [OF assms(2)] e show ?thesis by metis
  qed
qed

lemma write_literals_other:
  assumes "arena_ok s" "valid s c" "valid s d" "d \<noteq> c" "length ls = length (clause_literals s c)"
  shows "clause_literals (write_literals c ls s) d = clause_literals s d"
proof (cases c)
  case (Binary i)
  with assms show ?thesis by (cases d) (auto simp: write_literals_def)
next
  case c: (Long i)
  let ?C = "s_clauses s"
  have i: "i < length ?C" "cl_start (?C ! i) + cl_length (?C ! i) \<le> length (s_arena s)"
    using assms c by (simp_all add: arena_ok_def)
  then have len: "length ls = cl_length (?C ! i)" using assms(5) by (simp add: c slice_def)
  show ?thesis
  proof (cases d)
    case (Binary j)
    then show ?thesis by (simp add: c write_literals_def Let_def)
  next
    case d: (Long j)
    then have j: "j < length ?C" "j \<noteq> i" "cl_start (?C ! j) + cl_length (?C ! j) \<le> length (s_arena s)"
      using assms c by (simp_all add: arena_ok_def)
    have "cl_start (?C ! j) + cl_length (?C ! j) \<le> cl_start (?C ! i)
        \<or> cl_start (?C ! i) + length ls \<le> cl_start (?C ! j)"
      using assms(1) i j len by (cases "i < j") (auto simp: arena_ok_def)
    then show ?thesis
      using slice_splice_other [of "cl_start (?C ! i)" ls "s_arena s"] i j len
      by (simp add: c d write_literals_def Let_def)
  qed
qed

lemma write_literals_same:
  assumes "arena_ok s" "valid s c" "length ls = length (clause_literals s c)"
  shows "clause_literals (write_literals c ls s) c = ls"
proof (cases c)
  case (Binary i)
  with assms have "length ls = 2" "i < length (s_binaries s)" by simp_all
  then show ?thesis
    using take_two [of ls] by (simp add: Binary write_literals_def)
next
  case (Long i)
  then have "cl_start (s_clauses s ! i) + cl_length (s_clauses s ! i) \<le> length (s_arena s)"
    using assms by (simp add: arena_ok_def)
  moreover from this have "length ls = cl_length (s_clauses s ! i)" using assms(3) by (simp add: Long slice_def)
  ultimately show ?thesis
    using slice_splice_same [of "cl_start (s_clauses s ! i)" ls "s_arena s"]
    by (simp add: Long write_literals_def Let_def)
qed

lemma write_literals_rearranged:
  assumes "arena_ok s" "valid s c" "mset ls = mset (clause_literals s c)"
  shows "rearranged s (write_literals c ls s)"
proof -
  have l: "length ls = length (clause_literals s c)" using assms(3) by (rule mset_eq_length)
  have "\<exists>a b. write_literals c ls s = s\<lparr>s_arena := a, s_binaries := b\<rparr> \<and> length a = length (s_arena s)
        \<and> length b = length (s_binaries s)"
  proof (cases c)
    case (Binary i)
    have "write_literals c ls s = s\<lparr>s_arena := s_arena s, s_binaries := (s_binaries s)[i := (ls ! 0, ls ! 1)]\<rparr>"
      by (simp add: Binary write_literals_def)
    then show ?thesis by (metis length_list_update)
  next
    case (Long i)
    let ?st = "cl_start (s_clauses s ! i)"
    have "?st + cl_length (s_clauses s ! i) \<le> length (s_arena s)"
      using assms Long by (simp add: arena_ok_def)
    then have "?st + length ls \<le> length (s_arena s)" using l by (simp add: Long slice_def)
    moreover have "write_literals c ls s = s\<lparr>s_arena := take ?st (s_arena s) @ ls
        @ drop (?st + length ls) (s_arena s), s_binaries := s_binaries s\<rparr>"
      by (simp add: Long write_literals_def Let_def)
    ultimately show ?thesis using length_splice by blast
  qed
  moreover have "mset (clause_literals (write_literals c ls s) d) = mset (clause_literals s d)"
    if "valid s d" for d
    using that assms write_literals_other [OF assms(1,2) that _ l] write_literals_same [OF assms(1,2) l]
    by (cases "d = c") simp_all
  ultimately show ?thesis by (simp add: rearranged_def)
qed

subsection \<open>The watch list of one literal\<close>

definition list_fits :: "'f solver \<Rightarrow> lit \<Rightarrow> watch list \<Rightarrow> bool" where
  "list_fits s l ws \<longleftrightarrow>
     (\<forall>w \<in> set ws. watch_ok s l w)
     \<and> (\<forall>c. live s c \<longrightarrow> occurrences c ws = (if l \<in> set (take 2 (clause_literals s c)) then 1 else 0))"

lemma watches_ok_list: "watches_ok s \<longleftrightarrow> (\<forall>l. lit_ok s l \<longrightarrow> list_fits s l (watches_of s l))"
  by (simp add: watches_ok_def list_fits_def)

lemma occurrences_append [simp]: "occurrences c (xs @ ys) = occurrences c xs + occurrences c ys"
  by (simp add: occurrences_def)

lemma occurrences_Cons [simp]:
  "occurrences c (w # ws) = (if w_clause w = c then 1 else 0) + occurrences c ws"
  "occurrences c [] = 0"
  by (simp_all add: occurrences_def)

lemma occurrences_0: "occurrences c ws = 0 \<longleftrightarrow> c \<notin> w_clause ` set ws"
  by (auto simp: occurrences_def filter_empty_conv)

text \<open>A visited clause that has a true literal, or a clause that does not watch the new literal.\<close>

lemma root_done_step:
  assumes k: "trail_ok s" "h < length (s_trail s)" "s_trail s ! h = lit_not f"
    and d: "root_done h s c" and t: "decision_level s = 0 \<Longrightarrow> f \<in> set (take 2 (clause_literals s c)) \<Longrightarrow>
      \<exists>t \<in> set (clause_literals s c). lit_t s t" and f: "level_of s f = decision_level s"
  shows "root_done (Suc h) s c"
  unfolding root_done_def
proof (intro ballI impI)
  fix l assume l: "l \<in> set (take 2 (clause_literals s c))" "lit_not l \<in> set (take (Suc h) (s_trail s))" "level_of s l = 0"
  have "take (Suc h) (s_trail s) = take h (s_trail s) @ [lit_not f]"
    using k(2,3) by (simp add: take_Suc_conv_app_nth)
  then consider "lit_not l \<in> set (take h (s_trail s))" | "l = f" using l(2) by auto
  then show "\<exists>t \<in> set (clause_literals s c). t \<in> root_literals s"
  proof cases
    case 1
    then show ?thesis using d l unfolding root_done_def by blast
  next
    case 2
    then have z: "decision_level s = 0" using f l(3) by simp
    then obtain t where "t \<in> set (clause_literals s c)" "lit_t s t" using t l(1) 2 by blast
    moreover from this(2) have "level_of s t = 0" using level_le_decision [OF k(1), of t] z by (simp add: lit_t_def)
    ultimately show ?thesis by (auto simp: root_literals_def lit_t_def)
  qed
qed

lemma watch_but_true:
  assumes "trail_ok s" "t \<in> set (clause_literals s c)" "lit_t s t"
    "f \<in> set (take 2 (clause_literals s c))" "level_of s f = decision_level s"
    and h: "h < length (s_trail s)" "s_trail s ! h = lit_not f" "watch_but X h s c"
  shows "watch_but X (Suc h) s c"
proof -
  have "both_done (Suc h) s c"
    unfolding both_done_def
    using assms(2-5) level_le_decision [OF assms(1), of t] unfolding lit_t_def by metis
  moreover have "root_done (Suc h) s c" if "X = {}"
    using h(3) assms(2,3,5) that by (intro root_done_step [OF assms(1) h(1,2)]) (auto simp: watch_but_def)
  ultimately show ?thesis by (simp add: watch_but_def)
qed

lemma watch_but_unwatched:
  assumes "trail_ok s" "h < length (s_trail s)" "s_trail s ! h = lit_not f" "level_of s f = decision_level s"
    and f: "f \<notin> set (take 2 (clause_literals s c))" and d: "watch_but X h s c"
  shows "watch_but X (Suc h) s c"
proof -
  have "take (Suc h) (s_trail s) = take h (s_trail s) @ [lit_not f]"
    using assms(2,3) by (simp add: take_Suc_conv_app_nth)
  then have "both_done (Suc h) s c" if "c \<notin> X" using d f that unfolding watch_but_def both_done_def by auto
  moreover have "root_done (Suc h) s c" if "X = {}"
    using d f assms(4) that by (intro root_done_step [OF assms(1-3)]) (auto simp: watch_but_def)
  ultimately show ?thesis by (simp add: watch_but_def)
qed

lemma frame_list: "frame_eq s s' \<Longrightarrow> list_fits s' = list_fits s" "frame_eq s s' \<Longrightarrow> watch_but X k s' = watch_but X k s"
proof -
  assume f: "frame_eq s s'"
  note e = frame_eq_simps [OF f]
  have t: "s_trail s' = s_trail s" using f by (simp add: frame_eq_def)
  show "list_fits s' = list_fits s" "watch_but X k s' = watch_but X k s"
    by (intro ext, simp only: list_fits_def watch_ok_def watch_done_defs e t)+
qed

lemma rearranged_list:
  assumes r: "rearranged s s'" and fits: "list_fits s l ws"
    and same: "\<And>c. live s c \<Longrightarrow> set (take 2 (clause_literals s' c)) = set (take 2 (clause_literals s c))"
  shows "list_fits s' l ws"
  using fits same rearranged_literals(1) [OF r]
  unfolding list_fits_def watch_ok_def rearranged_fields [OF r] by (auto simp: liveD)

lemma rearranged_done:
  assumes r: "rearranged s s'" and d: "watch_but X k s c" and c: "live s c"
    and same: "set (take 2 (clause_literals s' c)) = set (take 2 (clause_literals s c))"
  shows "watch_but X k s' c"
  using d rearranged_literals(1) [OF r liveD [OF c]]
  unfolding watch_done_defs rearranged_fields [OF r] same by simp

lemma enqueued_list:
  assumes "list_fits s k ws" "shape_ok s" "lit_ok s l" "literal_value s l = 0"
  shows "list_fits (enqueued p l r s) k ws"
proof -
  note f = enqueued_fields [OF assms(4,2,3), of p r]
  show ?thesis using assms(1) unfolding list_fits_def watch_ok_def same_db_simps [OF f(4)] .
qed

subsection \<open>The scan invariant\<close>

text \<open>
  In the middle of the scan for the literal \<open>f\<close>, the falsified one at trail position \<open>h\<close>: the
  list of \<open>f\<close> is \<open>kept @ rest\<close>, and the clauses of \<open>rest\<close> have not been visited yet.
\<close>

definition scan_core :: "cref set \<Rightarrow> lit list set \<Rightarrow> lit \<Rightarrow> nat \<Rightarrow> watch list \<Rightarrow> 'f solver \<Rightarrow> bool" where
  "scan_core X G f h ws s \<longleftrightarrow>
     base_ok G s \<and> h < length (s_trail s) \<and> s_trail s ! h = lit_not f
     \<and> (\<forall>n \<in> set (s_trail_limits s). n \<le> h)
     \<and> (\<forall>l. lit_ok s l \<longrightarrow> l \<noteq> f \<longrightarrow> list_fits s l (watches_of s l))
     \<and> list_fits s f ws \<and> (\<forall>c. live s c \<longrightarrow> watch_but X h s c)"

definition scan_inv :: "cref set \<Rightarrow> lit list set \<Rightarrow> lit \<Rightarrow> nat \<Rightarrow> watch list \<Rightarrow> watch list \<Rightarrow> 'f solver \<Rightarrow> bool" where
  "scan_inv X G f h kept rest s \<longleftrightarrow>
     scan_core X G f h (kept @ rest) s
     \<and> (\<forall>c. live s c \<longrightarrow> c \<notin> w_clause ` set rest \<longrightarrow> watch_but X (Suc h) s c)"

text \<open>A clause of the database that is false under the trail, in which \<open>f\<close> is watched.\<close>

definition falsified :: "lit \<Rightarrow> cref \<Rightarrow> 'f solver \<Rightarrow> bool" where
  "falsified f c s \<longleftrightarrow>
     live s c \<and> f \<in> set (take 2 (clause_literals s c)) \<and> (\<forall>l \<in> set (clause_literals s c). lit_f s l)"

text \<open>What the scan leaves alone.\<close>

definition scan_view where
  "scan_view s = ((s_config s, s_proof s, s_variable_count s, s_clauses s, s_binary_flags s, length (s_binaries s)),
     (s_trail_limits s, s_head s, s_order s, s_activity s, s_seen s, s_consistent s, s_started s),
     (s_scope_selectors s, s_interrupt s, s_polls s, s_limits s, s_start_conflicts s, s_control_active s),
     (s_stop_reason s, s_failed s, s_proof_input s, s_stats s, nvars s))"

text \<open>Every literal without a reason was there before, without a reason.\<close>

definition no_decision :: "'f solver \<Rightarrow> 'f solver \<Rightarrow> bool" where
  "no_decision s s' \<longleftrightarrow>
     (\<forall>t \<in> set (s_trail s'). reason_of s' t = None \<longrightarrow> t \<in> set (s_trail s) \<and> reason_of s t = None)"

lemma no_decision_same: "s_trail s' = s_trail s \<Longrightarrow> s_reasons s' = s_reasons s \<Longrightarrow> no_decision s s'"
  by (simp add: no_decision_def reason_of_def)

definition scan_frame :: "'f solver \<Rightarrow> 'f solver \<Rightarrow> bool" where
  "scan_frame s s' \<longleftrightarrow> scan_view s' = scan_view s \<and> (\<exists>ys. s_trail s' = s_trail s @ ys) \<and> no_decision s s'
     \<and> (\<forall>c. valid s c \<longrightarrow> set (clause_literals s' c) = set (clause_literals s c))"

lemma scan_frame_refl [simp]: "scan_frame s s"
  by (simp add: scan_frame_def no_decision_def)

lemma scan_frame_valid: "scan_frame s s' \<Longrightarrow> valid s' c = valid s c"
  by (cases c) (simp_all add: scan_frame_def scan_view_def)

lemma scan_frame_trans:
  assumes "scan_frame s t" "scan_frame t u" shows "scan_frame s u"
proof -
  have "no_decision s u" using assms by (simp add: scan_frame_def no_decision_def)
  then show ?thesis
    using assms(2) scan_frame_valid [OF assms(1)] assms(1) unfolding scan_frame_def by (metis append_assoc)
qed

lemma scan_frame_rearranged: "rearranged s s' \<Longrightarrow> scan_frame s s'"
  using rearranged_literals(1) [of s s'] rearranged_fields(17) [of s s']
  by (auto simp: rearranged_def scan_frame_def scan_view_def no_decision_def reason_of_def)

lemma same_db_scan_frame:
  assumes "same_db s s'" "scan_view s' = scan_view s" "\<exists>ys. s_trail s' = s_trail s @ ys" "no_decision s s'"
  shows "scan_frame s s'"
  using assms same_db_literals [OF assms(1)] by (simp add: scan_frame_def)

lemma scan_frame_push: "scan_frame s (push_watch l w s)"
  by (rule same_db_scan_frame) (simp_all add: push_watch_def same_db_def scan_view_def nvars_def no_decision_def reason_of_def)

lemma scan_frame_usage: "scan_frame s (bump_clause_usage c s)"
  by (rule same_db_scan_frame) (simp_all add: bump_clause_usage_def same_db_def scan_view_def nvars_def no_decision_def reason_of_def)

lemma scan_frame_enqueued:
  assumes "literal_value s l = 0" "shape_ok s" "lit_ok s l" shows "scan_frame s (enqueued p l (Some c) s)"
proof (rule same_db_scan_frame)
  note f = enqueued_fields [OF assms, of p "Some c"]
  show "same_db s (enqueued p l (Some c) s)" by (rule f)
  show "\<exists>ys. s_trail (enqueued p l (Some c) s) = s_trail s @ ys" by (simp add: f)
  show "no_decision s (enqueued p l (Some c) s)" unfolding no_decision_def f by auto
  show "scan_view (enqueued p l (Some c) s) = scan_view s"
    unfolding enqueued_def enqueue_unassigned [OF assms(1)] by (simp add: scan_view_def nvars_def)
qed

subsection \<open>One watch\<close>

lemma entails_unit:
  assumes "entails G c" "\<And>k. k \<in> set c \<Longrightarrow> k \<noteq> l \<Longrightarrow> entails G [lit_not k]"
  shows "entails G [l]"
  unfolding entails_def
proof (intro allI impI)
  fix \<sigma> assume m: "models \<sigma> G"
  then obtain k where k: "k \<in> set c" "lit_true \<sigma> k"
    using assms(1) unfolding entails_def clause_true_def by blast
  have "k = l"
  proof (rule ccontr)
    assume "k \<noteq> l"
    then have "clause_true \<sigma> [lit_not k]" using assms(2) [OF k(1)] m by (simp add: entails_def)
    with k(2) show False by (simp add: clause_true_def)
  qed
  with k show "clause_true \<sigma> [l]" by (simp add: clause_true_def)
qed

lemma root_unit:
  assumes b: "base_ok G s" and fits: "reason_fits s l (Some c)" and z: "decision_level s = 0"
  shows "entails G [l]"
proof (rule entails_unit)
  have m: "meaning_ok G s" "trail_ok s" using b by (simp_all add: base_ok_def)
  have c: "live s c" "\<And>k. k \<in> set (clause_literals s c) \<Longrightarrow> k \<noteq> l \<Longrightarrow> lit_f s k"
    using fits by (auto simp: reason_fits_def)
  show "entails G (clause_literals s c)" using m(1) liveD [OF c(1)] by (simp add: meaning_ok_def)
  fix k assume "k \<in> set (clause_literals s c)" "k \<noteq> l"
  then have k: "lit_not k \<in> set (s_trail s)" using c(2) by (simp add: lit_f_def)
  have "level_of s (lit_not k) = 0" using level_le_decision [OF m(2) k] z by simp
  with k have "lit_not k \<in> root_literals s" by (simp add: root_literals_def)
  with m(1) show "entails G [lit_not k]" by (simp add: meaning_ok_def)
qed

lemma core_parts:
  assumes "scan_core X G f h ws s"
  shows "base_ok G s" "shape_ok s" "trail_ok s" "arena_ok s" "clauses_ok s" "lit_ok s f" "lit_f s f"
    "level_of s f = decision_level s"
proof -
  show b: "base_ok G s" using assms by (simp add: scan_core_def)
  then show "shape_ok s" "trail_ok s" "arena_ok s" "clauses_ok s" by (simp_all add: base_ok_def)
  have h: "h < length (s_trail s)" "s_trail s ! h = lit_not f" "\<forall>n \<in> set (s_trail_limits s). n \<le> h"
    using assms by (simp_all add: scan_core_def)
  have t: "trail_ok s" using b by (simp add: base_ok_def)
  have m: "lit_not f \<in> set (s_trail s)" using h by (metis nth_mem)
  then show "lit_f s f" by (simp add: lit_f_def)
  show "lit_ok s f" using m t lit_ok_not [of s f] by (auto simp: trail_ok_def)
  show "level_of s f = decision_level s" using level_top [OF t h(3,1)] h(2) by simp
qed

lemma core_rearranged:
  assumes k: "scan_core X G f h ws s" and r: "rearranged s s'"
    and same: "\<And>c. live s c \<Longrightarrow> set (take 2 (clause_literals s' c)) = set (take 2 (clause_literals s c))"
  shows "scan_core X G f h ws s'" and "live s c \<Longrightarrow> watch_but X j s c \<Longrightarrow> watch_but X j s' c"
proof -
  show d: "live s c \<Longrightarrow> watch_but X j s c \<Longrightarrow> watch_but X j s' c" for c j
    using rearranged_done [OF r _ _ same] by blast
  have "list_fits s l us \<Longrightarrow> list_fits s' l us" for l us
    using rearranged_list [OF r _ same] by blast
  then show "scan_core X G f h ws s'"
    using k rearranged_base_ok [OF r] d unfolding scan_core_def rearranged_fields [OF r] by blast
qed

lemma core_frame:
  assumes k: "scan_core X G f h ws s" and r: "frame_eq s s'"
  shows "scan_core X G f h ws s'" and "watch_but X j s' c = watch_but X j s c"
proof -
  have "s_trail s' = s_trail s" "s_trail_limits s' = s_trail_limits s" using r by (simp_all add: frame_eq_def)
  then show "scan_core X G f h ws s'" "watch_but X j s' c = watch_but X j s c"
    using k unfolding scan_core_def frame_list [OF r] frame_eq_simps [OF r] frame_eq_inv [OF r] by simp_all
qed

lemma core_enqueued:
  assumes k: "scan_core X G f h ws s" and l: "lit_ok s l" "literal_value s l = 0"
    and fits: "reason_fits s l (Some c)"
  shows "scan_core X G f h ws (enqueued p l (Some c) s)"
    and "watch_but X (Suc h) s d \<Longrightarrow> watch_but X (Suc h) (enqueued p l (Some c) s) d"
proof -
  note q = core_parts [OF k]
  note f = enqueued_fields [OF l(2) q(2) l(1), of p "Some c"]
  have h: "h < length (s_trail s)" "s_trail s ! h = lit_not f" using k by (simp_all add: scan_core_def)
  show "watch_but X (Suc h) s d \<Longrightarrow> watch_but X (Suc h) (enqueued p l (Some c) s) d"
    by (rule enqueued_done [OF _ q(3,2) l]) (use h in simp_all)
  have "watch_but X h s d \<Longrightarrow> watch_but X h (enqueued p l (Some c) s) d" for d
    by (rule enqueued_done [OF _ q(3,2) l]) (use h in simp_all)
  moreover have "base_ok G (enqueued p l (Some c) s)"
    by (rule enqueued_base_ok [OF q(1) l fits]) (use root_unit [OF q(1) fits] in blast)
  moreover have "list_fits s m us \<Longrightarrow> list_fits (enqueued p l (Some c) s) m us" for m us
    by (rule enqueued_list [OF _ q(2) l])
  moreover have "watches_of (enqueued p l (Some c) s) = watches_of s"
    by (simp add: watches_of_def f fun_eq_iff)
  ultimately show "scan_core X G f h ws (enqueued p l (Some c) s)"
    using k h unfolding scan_core_def same_db_simps [OF f(4)] f by (simp add: nth_append)
qed

lemma fits_replace:
  assumes "list_fits s f (kept @ w # rest)" "watch_ok s f w'" "w_clause w' = w_clause w"
  shows "list_fits s f (kept @ [w'] @ rest)"
  using assms by (auto simp: list_fits_def)

lemma fits_occurrences:
  assumes "list_fits s f ws" "live s c"
  shows "occurrences c ws = (if f \<in> set (take 2 (clause_literals s c)) then 1 else 0)"
  using assms by (simp add: list_fits_def)

lemma fits_visited:
  assumes "list_fits s f (kept @ w # rest)" "live s (w_clause w)"
  shows "f \<in> set (take 2 (clause_literals s (w_clause w)))" "w_clause w \<notin> w_clause ` set rest"
    "w_clause w \<notin> w_clause ` set kept"
  unfolding occurrences_0 [symmetric]
  using fits_occurrences [OF assms] by (simp_all split: if_splits)

lemma fits_deleted:
  assumes "list_fits s f (kept @ w # rest)" "\<not> live s (w_clause w)"
  shows "list_fits s f (kept @ rest)"
  unfolding list_fits_def
proof (intro conjI allI impI)
  show "\<forall>u \<in> set (kept @ rest). watch_ok s f u" using assms(1) by (auto simp: list_fits_def)
  fix c assume c: "live s c"
  then have "w_clause w \<noteq> c" using assms(2) by blast
  then show "occurrences c (kept @ rest) = (if f \<in> set (take 2 (clause_literals s c)) then 1 else 0)"
    using fits_occurrences [OF assms(1) c] by simp
qed

lemma fits_removed:
  assumes "list_fits s f (kept @ w # rest)" "live s (w_clause w)"
  shows "u \<in> set (kept @ rest) \<Longrightarrow> watch_ok s f u" "occurrences (w_clause w) (kept @ rest) = 0"
    "live s d \<Longrightarrow> d \<noteq> w_clause w \<Longrightarrow>
      occurrences d (kept @ rest) = (if f \<in> set (take 2 (clause_literals s d)) then 1 else 0)"
proof -
  show "u \<in> set (kept @ rest) \<Longrightarrow> watch_ok s f u" using assms by (auto simp: list_fits_def)
  show "occurrences (w_clause w) (kept @ rest) = 0"
    using fits_occurrences [OF assms] by (simp split: if_splits)
  show "live s d \<Longrightarrow> d \<noteq> w_clause w \<Longrightarrow>
      occurrences d (kept @ rest) = (if f \<in> set (take 2 (clause_literals s d)) then 1 else 0)"
    using fits_occurrences [OF assms(1), of d] by simp
qed

text \<open>The clause under visit, with the falsified literal moved to the second place.\<close>

lemma swapped:
  assumes k: "scan_core X G f h (kept @ w # rest) s" and c: "live s (w_clause w)"
  defines "lits \<equiv> swap_first_two f (clause_literals s (w_clause w))"
  defines "s1 \<equiv> write_literals (w_clause w) lits s"
  shows "rearranged s s1" "clause_literals s1 (w_clause w) = lits"
    "live s d \<Longrightarrow> set (take 2 (clause_literals s1 d)) = set (take 2 (clause_literals s d))"
    "2 \<le> length lits" "lits ! 1 = f" "lits ! 0 \<noteq> f" "mset lits = mset (clause_literals s (w_clause w))"
    "set (take 2 lits) = {lits ! 0, f}" "distinct lits"
proof -
  let ?c = "w_clause w"
  note q = core_parts [OF k]
  have v: "valid s ?c" using c by (rule liveD)
  note ft = first_two [OF q(5) v] and ck = clauses_okD [OF q(5) v]
  have fit: "list_fits s f (kept @ w # rest)" using k by (simp add: scan_core_def)
  have f2: "f = clause_literals s ?c ! 0 \<or> f = clause_literals s ?c ! 1"
    using fits_visited(1) [OF fit c] ft(1) by simp
  have l01: "0 < length (clause_literals s ?c)" "Suc 0 < length (clause_literals s ?c)" using ck(1) by linarith+
  have len: "length lits = length (clause_literals s ?c)" by (simp add: lits_def swap_first_two_def list_swap_def)
  show two: "2 \<le> length lits" using ck(1) len by simp
  show m: "mset lits = mset (clause_literals s ?c)"
    using l01 by (simp add: lits_def swap_first_two_def)
  show f1: "lits ! 1 = f" and f0: "lits ! 0 \<noteq> f"
    using l01 ft(2) f2 by (auto simp: lits_def swap_first_two_def nth_list_swap)
  show t2: "set (take 2 lits) = {lits ! 0, f}" using take_two [OF two] f1 by simp
  have "distinct (clause_literals s ?c)" using ck(2) by (simp add: distinct_map)
  then show "distinct lits" using m mset_eq_imp_distinct_iff by blast
  show "rearranged s s1" unfolding s1_def by (rule write_literals_rearranged [OF q(4) v m])
  show same: "clause_literals s1 ?c = lits" unfolding s1_def by (rule write_literals_same [OF q(4) v len])
  have sw: "set (take 2 lits) = set (take 2 (clause_literals s ?c))"
    using t2 ft(1) f2 ft(2) l01 f1
    by (auto simp: lits_def swap_first_two_def nth_list_swap)
  show "set (take 2 (clause_literals s1 d)) = set (take 2 (clause_literals s d))" if "live s d"
  proof (cases "d = ?c")
    case True
    then show ?thesis using same sw by simp
  next
    case False
    then show ?thesis
      unfolding s1_def using write_literals_other [OF q(4) v liveD [OF that] _ len] by simp
  qed
qed

text \<open>The possible outcomes of a visit.\<close>

abbreviation kept_watch :: "watch option \<Rightarrow> watch list" where
  "kept_watch k \<equiv> (case k of None \<Rightarrow> [] | Some w \<Rightarrow> [w])"

definition visit_ok ::
  "cref set \<Rightarrow> lit list set \<Rightarrow> lit \<Rightarrow> nat \<Rightarrow> watch list \<Rightarrow> watch list \<Rightarrow> 'f solver \<Rightarrow> watch option \<times> cref option \<times> 'f solver \<Rightarrow> bool"
where
  "visit_ok X G f h kept rest s = (\<lambda>(k, conflict, s'). scan_frame s s' \<and>
     (case conflict of
        None \<Rightarrow> scan_inv X G f h (kept @ kept_watch k) rest s'
      | Some c \<Rightarrow> scan_core X G f h (kept @ kept_watch k @ rest) s' \<and> falsified f c s'))"

lemma visit_ok_frame: "scan_frame s t \<Longrightarrow> visit_ok X G f h kept rest t r \<Longrightarrow> visit_ok X G f h kept rest s r"
  by (auto simp: visit_ok_def intro: scan_frame_trans)

lemma inv_rearranged:
  assumes "scan_inv X G f h kept rest s" "rearranged s s'"
    "\<And>c. live s c \<Longrightarrow> set (take 2 (clause_literals s' c)) = set (take 2 (clause_literals s c))"
  shows "scan_inv X G f h kept rest s'"
  using assms(1) core_rearranged [OF _ assms(2,3)] rearranged_fields(16) [OF assms(2)]
  unfolding scan_inv_def by metis

lemma inv_frame:
  assumes "scan_inv X G f h kept rest s" "frame_eq s s'" shows "scan_inv X G f h kept rest s'"
  using assms(1) core_frame [OF _ assms(2)] frame_eq_simps(5) [OF assms(2)] unfolding scan_inv_def by metis

lemma core_replace:
  assumes "scan_core X G f h (kept @ w # rest) s" "watch_ok s f w'" "w_clause w' = w_clause w"
  shows "scan_core X G f h (kept @ [w'] @ rest) s"
  using assms fits_replace [of s f kept w rest w'] unfolding scan_core_def by blast

lemma visit_true:
  assumes i: "scan_inv X G f h kept (w # rest) s" and w: "watch_ok s f w'" "w_clause w' = w_clause w"
    and c: "live s (w_clause w)" and t: "t \<in> set (clause_literals s (w_clause w))" "lit_t s t"
  shows "visit_ok X G f h kept rest s (Some w', None, s)"
proof -
  have k: "scan_core X G f h (kept @ w # rest) s" using i by (simp add: scan_inv_def)
  note q = core_parts [OF k]
  have "f \<in> set (take 2 (clause_literals s (w_clause w)))"
    using k fits_visited(1) [OF _ c] by (auto simp: scan_core_def)
  then have "watch_but X (Suc h) s (w_clause w)" 
    using watch_but_true [OF q(3) t _ q(8), of h] k c by (simp add: scan_core_def)
  then have "watch_but X (Suc h) s d" if "live s d" "d \<notin> w_clause ` set rest" for d
    using i that by (cases "d = w_clause w") (simp_all add: scan_inv_def)
  with core_replace [OF k w] show ?thesis by (simp add: visit_ok_def scan_inv_def)
qed

lemma visit_conflict:
  assumes k: "scan_core X G f h (kept @ w # rest) s" and w: "watch_ok s f w'" "w_clause w' = w_clause w"
    and c: "live s (w_clause w)" and l: "\<forall>l \<in> set (clause_literals s (w_clause w)). lit_f s l"
  shows "visit_ok X G f h kept rest s (Some w', Some (w_clause w), s)"
proof -
  have "f \<in> set (take 2 (clause_literals s (w_clause w)))"
    using k fits_visited(1) [OF _ c] by (auto simp: scan_core_def)
  then have "falsified f (w_clause w) s" using c l by (simp add: falsified_def)
  with core_replace [OF k w] show ?thesis by (simp add: visit_ok_def)
qed

lemma visit_implied:
  assumes i: "scan_inv X G f h kept (w # rest) s" and w: "watch_ok s f w'" "w_clause w' = w_clause w"
    and c: "live s (w_clause w)" and t: "t \<in> set (clause_literals s (w_clause w))" "literal_value s t = 0"
    and others: "\<forall>l \<in> set (clause_literals s (w_clause w)). l \<noteq> t \<longrightarrow> lit_f s l"
  shows "visit_ok X G f h kept rest s (Some w', None, enqueued p t (Some (w_clause w)) s)"
proof -
  let ?s = "enqueued p t (Some (w_clause w)) s"
  have k: "scan_core X G f h (kept @ w # rest) s" using i by (simp add: scan_inv_def)
  note q = core_parts [OF k]
  have ok: "lit_ok s t" using clauses_okD(3) [OF q(5) liveD [OF c] t(1)] .
  note f = enqueued_fields [OF t(2) q(2) ok, of p "Some (w_clause w)"]
  note db = same_db_simps [OF f(4)]
  have fits: "reason_fits s t (Some (w_clause w))" using c t others by (simp add: reason_fits_def)
  have k': "scan_core X G f h (kept @ [w'] @ rest) ?s"
    using core_enqueued(1) [OF core_replace [OF k w] ok t(2) fits] .
  have "f \<in> set (take 2 (clause_literals s (w_clause w)))"
    using k fits_visited(1) [OF _ c] by (auto simp: scan_core_def)
  then have "watch_but X (Suc h) ?s (w_clause w)" 
  proof (intro watch_but_true [where t = t])
    show "trail_ok ?s" "level_of ?s f = decision_level ?s" using core_parts(3,8) [OF k'] .
    show "t \<in> set (clause_literals ?s (w_clause w))" "lit_t ?s t" using t(1) by (simp_all add: db f lit_t_def)
    show "h < length (s_trail ?s)" "s_trail ?s ! h = lit_not f" "watch_but X h ?s (w_clause w)"
      using k' c by (simp_all add: scan_core_def db)
  qed (simp add: db)
  then have "watch_but X (Suc h) ?s d" if "live s d" "d \<notin> w_clause ` set rest" for d
    using i that core_enqueued(2) [OF k ok t(2) fits]
    by (cases "d = w_clause w") (simp_all add: scan_inv_def)
  with k' scan_frame_enqueued [OF t(2) q(2) ok] show ?thesis by (simp add: visit_ok_def scan_inv_def db)
qed

lemma with_watches_views [simp]:
  shows "clause_literals (s\<lparr>s_watches := ws\<rparr>) = clause_literals s" "clause_deleted (s\<lparr>s_watches := ws\<rparr>) = clause_deleted s"
    "clause_learned (s\<lparr>s_watches := ws\<rparr>) = clause_learned s" "valid (s\<lparr>s_watches := ws\<rparr>) = valid s" "live (s\<lparr>s_watches := ws\<rparr>) = live s" "nvars (s\<lparr>s_watches := ws\<rparr>) = nvars s"
    "lit_ok (s\<lparr>s_watches := ws\<rparr>) = lit_ok s" "lit_t (s\<lparr>s_watches := ws\<rparr>) = lit_t s" "lit_f (s\<lparr>s_watches := ws\<rparr>) = lit_f s"
    "literal_value (s\<lparr>s_watches := ws\<rparr>) = literal_value s" "level_of (s\<lparr>s_watches := ws\<rparr>) = level_of s" "reason_of (s\<lparr>s_watches := ws\<rparr>) = reason_of s"
    "decision_level (s\<lparr>s_watches := ws\<rparr>) = decision_level s" "root_literals (s\<lparr>s_watches := ws\<rparr>) = root_literals s"
proof -
  let ?s = "s\<lparr>s_watches := ws\<rparr>"
  have d: "same_db s ?s" by (simp add: same_db_def)
  show "clause_literals ?s = clause_literals s" "clause_deleted ?s = clause_deleted s"
    "clause_learned ?s = clause_learned s" "valid ?s = valid s" "live ?s = live s"
    using same_db_simps [OF d] by (intro ext; simp)+
  show "nvars ?s = nvars s"
    "lit_ok ?s = lit_ok s" "lit_t ?s = lit_t s" "lit_f ?s = lit_f s"
    "literal_value ?s = literal_value s" "level_of ?s = level_of s" "reason_of ?s = reason_of s"
    "decision_level ?s = decision_level s" "root_literals ?s = root_literals s"
    by (auto simp: nvars_def lit_ok_def lit_t_def lit_f_def literal_value_def level_of_def
        reason_of_def decision_level_def root_literals_def fun_eq_iff)
qed

lemma with_watches_ok:
  assumes "length ws = length (s_watches s)"
  shows "base_ok G (s\<lparr>s_watches := ws\<rparr>) = base_ok G s"
    "list_fits (s\<lparr>s_watches := ws\<rparr>) = list_fits s" "watch_but X k (s\<lparr>s_watches := ws\<rparr>) = watch_but X k s"
proof -
  let ?s = "s\<lparr>s_watches := ws\<rparr>"
  have "shape_ok ?s = shape_ok s" using assms by (simp add: shape_ok_def)
  moreover have "queue_inv ?s = queue_inv s" by (simp add: queue_inv_def)
  moreover have "arena_ok ?s = arena_ok s" by (simp add: arena_ok_def)
  moreover have "clauses_ok ?s = clauses_ok s" by (simp add: clauses_ok_def)
  moreover have "trail_ok ?s = trail_ok s" by (simp add: trail_ok_def)
  moreover have "reasons_ok ?s = reasons_ok s" by (simp add: reasons_ok_def cong: option.case_cong)
  moreover have "meaning_ok G ?s = meaning_ok G s" by (simp add: meaning_ok_def)
  moreover have "coverage_ok G ?s = coverage_ok G s" by (simp add: coverage_ok_def covered_def)
  moreover have "selectors_ok ?s = selectors_ok s" by (simp add: selectors_ok_def)
  ultimately show "base_ok G ?s = base_ok G s" by (simp add: base_ok_def)
  show "list_fits ?s = list_fits s" "watch_but X k ?s = watch_but X k s"
    by (simp_all add: list_fits_def watch_ok_def watch_done_defs fun_eq_iff)
qed

lemma lit_index_bound:
  assumes "shape_ok s" "lit_ok s l" shows "lit_index l < length (s_watches s)"
proof -
  have "lit_index l div 2 < nvars s" using assms(2) by (simp add: lit_ok_def var_index_lit_var)
  then show ?thesis using assms(1) by (simp add: shape_ok_def)
qed

lemma push_watch_of:
  assumes "shape_ok s" "lit_ok s l" "lit_ok s m"
  shows "watches_of (push_watch l w s) m = (if m = l then watches_of s m @ [w] else watches_of s m)"
  using assms lit_index_bound [OF assms(1,2)]
  by (simp add: push_watch_def watches_of_def nth_list_update lit_index_eq_iff)

lemma visit_moved:
  assumes k: "scan_core X G f h (kept @ w # rest) s" and dw: "\<And>d. live s d \<Longrightarrow> d \<notin> w_clause ` set (w # rest) \<Longrightarrow> watch_but X (Suc h) s d"
    and c: "live s (Long i)" "w_clause w = Long i"
    and L: "2 < length L" "clause_literals s (Long i) = L" "L ! 1 = f"
    and j: "2 \<le> j" "j < length L" "\<not> lit_f s (L ! j)"
  shows "visit_ok X G f h kept rest s (None, None,
    push_watch (L ! j) (Watch (Long i) (L ! 0)) (write_literals (Long i) (list_swap L (Suc 0) j) s))"
proof -
  let ?c = "Long i" and ?L = "list_swap L (Suc 0) j" and ?r = "L ! j" and ?o = "L ! 0"
  let ?s2 = "write_literals ?c ?L s"
  let ?s3 = "push_watch ?r (Watch ?c ?o) ?s2"
  note q = core_parts [OF k]
  have v: "valid s ?c" using c(1) by (rule liveD)
  have dL: "distinct L" using clauses_okD(2) [OF q(5) v] L(2) by (simp add: distinct_map)
  have ne: "?r \<noteq> f" "?r \<noteq> ?o" "?o \<noteq> f"
  proof -
    have "L ! a \<noteq> L ! b" if "a < length L" "b < length L" "a \<noteq> b" for a b
      using nth_eq_iff_index_eq [OF dL that(1,2)] that(3) by simp
    note neq = this
    have "0 < length L" "1 < length L" using L(1) by linarith+
    then have "L ! j \<noteq> L ! 1" "L ! j \<noteq> L ! 0" "L ! 0 \<noteq> L ! 1"
      using j(1,2) by (intro neq; linarith)+
    then show "?r \<noteq> f" "?r \<noteq> ?o" "?o \<noteq> f" unfolding L(3) by blast+
  qed
  have lenL: "length ?L = length (clause_literals s ?c)" unfolding L(2) by simp
  have m: "mset ?L = mset (clause_literals s ?c)" unfolding L(2) using L(1) j by simp
  have r: "rearranged s ?s2" by (rule write_literals_rearranged [OF q(4) v m])
  note rf = rearranged_fields [OF r]
  have same: "clause_literals ?s2 ?c = ?L" by (rule write_literals_same [OF q(4) v lenL])
  have other: "clause_literals ?s2 d = clause_literals s d" if "live s d" "d \<noteq> ?c" for d
    by (rule write_literals_other [OF q(4) v liveD [OF that(1)] that(2) lenL])
  have t2: "set (take 2 ?L) = {?o, ?r}" "set (take 2 L) = {?o, f}"
  proof -
    have lt: "0 < length L" "1 < length L" "2 \<le> length L" using L(1) by linarith+
    show "set (take 2 ?L) = {?o, ?r}" "set (take 2 L) = {?o, f}"
      using take_two [of ?L] take_two [of L] L(3) lt j by (auto simp: nth_list_swap)
  qed
  have sets: "set ?L = set L" using L(1) j by simp
  have b2: "base_ok G ?s2" by (rule rearranged_base_ok [OF r q(1)])
  have okr: "lit_ok s ?r" using clauses_okD(3) [OF q(5) v, unfolded L(2)] j(2) by simp
  have sh2: "shape_ok ?s2" using b2 by (simp add: base_ok_def)
  have pw: "?s3 = ?s2\<lparr>s_watches := (s_watches ?s2)[lit_index ?r := s_watches ?s2 ! lit_index ?r @ [Watch ?c ?o]]\<rparr>"
    by (simp add: push_watch_def)
  have views: "live ?s3 = live s" "lit_ok ?s3 = lit_ok s" "s_trail ?s3 = s_trail s"
    "s_trail_limits ?s3 = s_trail_limits s" "base_ok G ?s3" "list_fits ?s3 = list_fits ?s2"
    "watch_but X n ?s3 = watch_but X n ?s2" for n
    unfolding pw using b2 by (simp_all add: with_watches_ok rf del: One_nat_def)
  have wok: "watch_ok s l u \<Longrightarrow> watch_ok ?s2 l u" for l u
    using rearranged_literals(1) [OF r] by (simp add: watch_ok_def rf)
  have dn: "watch_but X n ?s2 d" if d: "live s d" "n \<le> Suc h" "watch_but X (if d = ?c then h else n) s d" for n d
  proof (cases "d = ?c")
    case True
    have nr: "lit_not ?r \<notin> set (take n (s_trail s))" using j(3) by (auto simp: lit_f_def dest: in_set_takeD)
    then have "both_done n ?s2 d" unfolding True both_done_def same t2 rf by simp
    moreover have "root_done n ?s2 d" if x: "X = {}"
      unfolding True root_done_def same t2 rf sets
    proof (intro ballI impI)
      fix l assume l: "l \<in> {?o, ?r}" "lit_not l \<in> set (take n (s_trail s))" "level_of s l = 0"
      then have lo: "l = ?o" using nr by blast
      have "lit_not l \<in> set (take (Suc h) (s_trail s))"
        using l(2) set_take_subset_set_take [OF d(2), of "s_trail s"] by blast
      moreover have "take (Suc h) (s_trail s) = take h (s_trail s) @ [lit_not f]"
        using k by (simp add: scan_core_def take_Suc_conv_app_nth)
      ultimately have "lit_not l \<in> set (take h (s_trail s))" using lo ne(3) by auto
      moreover have "root_done h s ?c" using d(3) True x by (simp add: watch_but_def)
      moreover have "l \<in> set (take 2 L)" using lo t2(2) by simp
      ultimately show "\<exists>t \<in> set L. t \<in> root_literals s" using l(3) unfolding root_done_def L(2) by blast
    qed
    ultimately show ?thesis by (simp add: watch_but_def)
  next
    case False
    then show ?thesis using d unfolding watch_done_defs other [OF d(1) False] rf by simp
  qed
  have wl: "watches_of ?s3 l = (if l = ?r then watches_of s l @ [Watch ?c ?o] else watches_of s l)"
    if "lit_ok s l" for l
    using push_watch_of [OF sh2, of ?r l] okr that by (simp add: rf)
  have fit: "list_fits s f (kept @ w # rest)" using k by (simp add: scan_core_def)
  have cw: "live s (w_clause w)" using c by simp
  note rem = fits_removed [OF fit cw]
  have fits_f: "list_fits ?s2 f (kept @ rest)"
    unfolding list_fits_def rf
  proof (intro conjI allI impI)
    show "\<forall>u \<in> set (kept @ rest). watch_ok ?s2 f u" using rem(1) wok by blast
    fix d assume d: "live s d"
    show "occurrences d (kept @ rest) = (if f \<in> set (take 2 (clause_literals ?s2 d)) then 1 else 0)"
    proof (cases "d = ?c")
      case True
      then show ?thesis using rem(2) ne unfolding True c(2) same t2 by simp
    next
      case False
      then show ?thesis using rem(3) [OF d] unfolding other [OF d False] c(2) by simp
    qed
  qed
  have fits_l: "list_fits ?s2 l (watches_of ?s3 l)" if l: "lit_ok s l" "l \<noteq> f" for l
    unfolding list_fits_def rf
  proof (intro conjI allI impI)
    have lf: "list_fits s l (watches_of s l)" using k l by (simp add: scan_core_def)
    have "watch_ok ?s2 l u" if "u \<in> set (watches_of s l)" for u
      using lf that wok by (simp add: list_fits_def)
    moreover have "watch_ok ?s2 l (Watch ?c ?o)"
    proof -
      have "?o \<in> set L" using L(1) by (intro nth_mem) linarith
      then show ?thesis using v unfolding watch_ok_def watch.sel same sets rf by simp
    qed
    ultimately show "\<forall>u \<in> set (watches_of ?s3 l). watch_ok ?s2 l u" by (auto simp: wl [OF l(1)])
    fix d assume d: "live s d"
    note o = fits_occurrences [OF lf d]
    show "occurrences d (watches_of ?s3 l) = (if l \<in> set (take 2 (clause_literals ?s2 d)) then 1 else 0)"
    proof (cases "d = ?c")
      case True
      then show ?thesis using o l ne unfolding True wl [OF l(1)] same t2(1) L(2) t2(2) by auto
    next
      case False
      then show ?thesis using o unfolding other [OF d False] wl [OF l(1)] by auto
    qed
  qed
  have old: "watch_but X h s d" if "live s d" for d using k that by (simp add: scan_core_def)
  have "watch_but X h ?s2 d" if "live s d" for d using dn [OF that, of h] old [OF that] by simp
  with fits_f fits_l have "scan_core X G f h (kept @ rest) ?s3"
    using k views(5) unfolding scan_core_def views by blast
  moreover have "watch_but X (Suc h) ?s3 d" if "live s d" "d \<notin> w_clause ` set rest" for d
    unfolding views using dn [OF that(1) order_refl] old [OF that(1)] dw [OF that(1)] that(2) c(2)
    by (cases "d = ?c") simp_all
  moreover have "scan_frame s ?s3"
    using scan_frame_trans [OF scan_frame_rearranged [OF r] scan_frame_push] .
  ultimately show ?thesis by (simp add: visit_ok_def scan_inv_def views)
qed

lemma enqueue_fresh: "literal_value s l = 0 \<Longrightarrow> snd (enqueue l r s) = enqueued True l r s"
  by (simp add: enqueue_def enqueued_def)

lemma value_cases:
  assumes "trail_ok s" "lit_ok s l" "literal_value s l \<noteq> 1" "literal_value s l \<noteq> - 1"
  shows "literal_value s l = 0"
  using literal_value_iff [OF assms(1,2)] assms(3,4) by auto

lemma visit_binary_fast_ok:
  assumes i: "scan_inv X G f h kept (w # rest) s" and c: "live s (w_clause w)" "cref_is_binary (w_clause w)"
  shows "visit_ok X G f h kept rest s (visit_binary_fast w s)"
proof -
  let ?c = "w_clause w" and ?b = "w_blocker w"
  have k: "scan_core X G f h (kept @ w # rest) s" using i by (simp add: scan_inv_def)
  note q = core_parts [OF k]
  have wok: "watch_ok s f w" using k by (simp add: scan_core_def list_fits_def)
  then have b: "?b \<in> set (clause_literals s ?c)" "set (clause_literals s ?c) = {f, ?b}"
    using c by (auto simp: watch_ok_def live_def)
  have okb: "lit_ok s ?b" using clauses_okD(3) [OF q(5) liveD [OF c(1)] b(1)] .
  note val = literal_value_iff [OF q(3) okb]
  consider "literal_value s ?b = 1" | "literal_value s ?b = - 1" | "literal_value s ?b = 0"
    using value_cases [OF q(3) okb] by blast
  then show ?thesis
  proof cases
    case 1
    then show ?thesis
      using visit_true [OF i wok refl c(1) b(1)] val by (simp add: visit_binary_fast_def)
  next
    case 2
    then have "\<forall>l \<in> set (clause_literals s ?c). lit_f s l" using val q(7) b(2) by simp
    with 2 show ?thesis
      using visit_conflict [OF k wok refl c(1)] by (simp add: visit_binary_fast_def)
  next
    case 3
    have "\<forall>l \<in> set (clause_literals s ?c). l \<noteq> ?b \<longrightarrow> lit_f s l" using q(7) b(2) by auto
    with 3 show ?thesis
      using visit_implied [OF i wok refl c(1) b(1) 3] by (simp add: visit_binary_fast_def enqueue_fresh)
  qed
qed

text \<open>The first literal after the swap, and what follows from its value.\<close>

lemma swapped_watch_ok:
  assumes i: "scan_inv X G f h kept (w # rest) s" and c: "live s (w_clause w)"
  defines "lits \<equiv> swap_first_two f (clause_literals s (w_clause w))"
  defines "s1 \<equiv> write_literals (w_clause w) lits s"
  shows "scan_inv X G f h kept (w # rest) s1" "live s1 (w_clause w)" "clause_literals s1 (w_clause w) = lits"
    "watch_ok s1 f (Watch (w_clause w) (lits ! 0))" "lits ! 0 \<in> set lits" "lit_ok s1 (lits ! 0)"
    "lits ! 1 = f" "2 \<le> length lits" "scan_frame s s1" "trail_ok s1" "lit_f s1 f"
proof -
  have k: "scan_core X G f h (kept @ w # rest) s" using i by (simp add: scan_inv_def)
  note sw = swapped [OF k c, folded lits_def, folded s1_def]
  note rf = rearranged_fields [OF sw(1)] and q = core_parts [OF k]
  show i1: "scan_inv X G f h kept (w # rest) s1" using inv_rearranged [OF i sw(1,3)] .
  show c1: "live s1 (w_clause w)" using c by (simp add: rf)
  show l1: "clause_literals s1 (w_clause w) = lits" "lits ! 1 = f" "2 \<le> length lits" using sw by auto
  show m: "lits ! 0 \<in> set lits" using sw(4) by (intro nth_mem) linarith
  have "set lits = {f, lits ! 0}" if "cref_is_binary (w_clause w)"
  proof -
    have "length (clause_literals s (w_clause w)) = 2" using that by (cases "w_clause w") simp_all
    then have "length lits = 2" using mset_eq_length [OF sw(7)] by simp
    then show ?thesis using sw(8) by (auto simp: take_all)
  qed
  then show "watch_ok s1 f (Watch (w_clause w) (lits ! 0))"
    using c1 m sw(6) l1(1) by (simp add: watch_ok_def live_def)
  have k1: "scan_core X G f h (kept @ w # rest) s1" using i1 by (simp add: scan_inv_def)
  note q1 = core_parts [OF k1]
  show "lit_ok s1 (lits ! 0)" using clauses_okD(3) [OF q1(5) liveD [OF c1]] l1(1) m by simp
  show "scan_frame s s1" by (rule scan_frame_rearranged [OF sw(1)])
  show "trail_ok s1" "lit_f s1 f" using q1 by simp_all
qed

lemma visit_binary_slow_ok:
  assumes i: "scan_inv X G f h kept (w # rest) s" and c: "live s (w_clause w)" "cref_is_binary (w_clause w)"
    and nt: "literal_value s (w_blocker w) \<noteq> 1"
  shows "visit_ok X G f h kept rest s (visit_binary_slow f w s)"
proof -
  let ?c = "w_clause w"
  define lits where "lits = swap_first_two f (clause_literals s ?c)"
  define s1 where "s1 = write_literals ?c lits s"
  note sw = swapped_watch_ok [OF i c(1), folded lits_def, folded s1_def]
  have k: "scan_core X G f h (kept @ w # rest) s" using i by (simp add: scan_inv_def)
  have k1: "scan_core X G f h (kept @ w # rest) s1" using sw(1) by (simp add: scan_inv_def)
  let ?o = "lits ! 0"
  have sets: "set lits = {f, ?o}" using sw(4,2,3) c(2) by (simp add: watch_ok_def live_def)
  have bl: "w_blocker w = ?o"
  proof -
    have "watch_ok s f w" using k by (simp add: scan_core_def list_fits_def)
    then have "set (clause_literals s ?c) = {f, w_blocker w}" "w_blocker w \<noteq> f"
      using c by (auto simp: watch_ok_def live_def)
    moreover have "set (clause_literals s ?c) = set lits"
      using swapped(7) [OF k c(1)] mset_eq_setD unfolding lits_def by metis
    ultimately show ?thesis using sets by auto
  qed
  note val = literal_value_iff [OF sw(10,6)]
  have r: "rearranged s s1" using swapped(1) [OF k c(1)] unfolding s1_def lits_def .
  have nt1: "literal_value s1 ?o \<noteq> 1" using nt unfolding rearranged_fields(21) [OF r] bl .
  have e: "visit_binary_slow f w s = (if literal_value s1 ?o = - 1 then (Some (Watch ?c ?o), Some ?c, s1)
         else (Some (Watch ?c ?o), None, snd (enqueue ?o (Some ?c) s1)))"
    by (simp add: visit_binary_slow_def Let_def lits_def s1_def)
  show ?thesis
  proof (cases "literal_value s1 ?o = - 1")
    case True
    then have "\<forall>l \<in> set (clause_literals s1 ?c). lit_f s1 l" using val sw(11) sets sw(3) by simp
    then show ?thesis
      unfolding e using True visit_conflict [OF k1 sw(4) _ sw(2)] visit_ok_frame [OF sw(9)] by simp
  next
    case False
    then have v0: "literal_value s1 ?o = 0" using nt1 value_cases [OF sw(10,6)] by blast
    have "\<forall>l \<in> set (clause_literals s1 ?c). l \<noteq> ?o \<longrightarrow> lit_f s1 l" using sw(11) sets sw(3) by auto
    with False show ?thesis
      unfolding e using visit_implied [OF sw(1,4) _ sw(2) _ v0] sw(3,5) visit_ok_frame [OF sw(9)]
      by (simp add: enqueue_fresh [OF v0])
  qed
qed

lemma visit_long_ok:
  assumes i: "scan_inv X G f h kept (w # rest) s" and c: "live s (w_clause w)" "\<not> cref_is_binary (w_clause w)"
  shows "visit_ok X G f h kept rest s (visit_long f w s)"
proof -
  let ?c = "w_clause w"
  define lits where "lits = swap_first_two f (clause_literals s ?c)"
  define s1 where "s1 = write_literals ?c lits s"
  note sw = swapped_watch_ok [OF i c(1), folded lits_def, folded s1_def]
  have k1: "scan_core X G f h (kept @ w # rest) s1" using sw(1) by (simp add: scan_inv_def)
  let ?o = "lits ! 0"
  note val = literal_value_iff [OF sw(10,6)]
  have e: "visit_long f w s =
      (if literal_value s1 ?o = 1 then (Some (Watch ?c ?o), None, s1)
         else case find_replacement (s_assignments s1) lits of
           Some j \<Rightarrow> (None, None, push_watch (list_swap lits (Suc 0) j ! 1) (Watch ?c ?o)
                        (write_literals ?c (list_swap lits (Suc 0) j) s1))
         | None \<Rightarrow> if literal_value s1 ?o = - 1 then (Some (Watch ?c ?o), Some ?c, s1)
             else (Some (Watch ?c ?o), None, snd (enqueue ?o (Some ?c) (bump_clause_usage ?c s1))))"
    by (simp add: visit_long_def Let_def lits_def s1_def cong: option.case_cong)
  show ?thesis
  proof (cases "literal_value s1 ?o = 1")
    case True
    then have "visit_ok X G f h kept rest s1 (Some (Watch ?c ?o), None, s1)"
      using visit_true [OF sw(1,4) _ sw(2), of ?o] sw(3,5) val by simp
    with True show ?thesis unfolding e using visit_ok_frame [OF sw(9)] by simp
  next
    case nt: False
    show ?thesis
    proof (cases "find_replacement (s_assignments s1) lits")
      case None
      then have "value_of (s_assignments s1) (lits ! j) = - 1" if "j < length lits" "2 \<le> j" for j
        using that by (auto simp: find_replacement_def find_None_iff)
      then have far: "lit_f s1 (lits ! j)" if "j < length lits" "2 \<le> j" for j
      proof -
        have "lit_ok s1 (lits ! j)"
          using clauses_okD(3) [OF core_parts(5) [OF k1] liveD [OF sw(2)]] sw(3) that by simp
        from literal_value_iff(2) [OF sw(10) this] show ?thesis
          using \<open>\<And>j. j < length lits \<Longrightarrow> 2 \<le> j \<Longrightarrow> value_of _ _ = - 1\<close> that by (simp add: literal_value_def)
      qed
      have others: "lit_f s1 l" if l: "l \<in> set lits" "l \<noteq> ?o" for l
      proof -
        obtain j where "j < length lits" "l = lits ! j" using l(1) by (auto simp: in_set_conv_nth)
        then consider "j = 1" | "2 \<le> j" using l(2) by (cases "j = 0"; cases "j = 1") auto
        then show ?thesis using far sw(7,11) \<open>j < length lits\<close> \<open>l = lits ! j\<close> by cases auto
      qed
      show ?thesis
      proof (cases "literal_value s1 ?o = - 1")
        case True
        then have "lit_f s1 ?o" using val by simp
        then have "\<forall>l \<in> set (clause_literals s1 ?c). lit_f s1 l" using others sw(3) by metis
        from visit_conflict [OF k1 sw(4) _ sw(2) this] True None nt show ?thesis
          unfolding e using visit_ok_frame [OF sw(9)] by simp
      next
        case False
        let ?s2 = "bump_clause_usage ?c s1"
        have fr: "frame_eq s1 ?s2" by (rule frame_usage)
        note fe = frame_eq_simps [OF fr]
        have v0: "literal_value ?s2 ?o = 0" using nt False value_cases [OF sw(10,6)] by (simp add: fe)
        have i2: "scan_inv X G f h kept (w # rest) ?s2" by (rule inv_frame [OF sw(1) fr])
        have "watch_ok ?s2 f (Watch ?c ?o)" using sw(4) by (simp add: watch_ok_def fe)
        from visit_implied [OF i2 this, of ?o True] v0 sw(2,3,5) others
        have "visit_ok X G f h kept rest ?s2 (Some (Watch ?c ?o), None, enqueued True ?o (Some ?c) ?s2)"
          by (simp add: fe)
        with visit_ok_frame [OF scan_frame_trans [OF sw(9) scan_frame_usage]] nt False None show ?thesis
          unfolding e by (simp add: enqueue_fresh [OF v0])
      qed
    next
      case (Some j)
      then have j: "2 \<le> j" "j < length lits" "value_of (s_assignments s1) (lits ! j) \<noteq> - 1"
        by (auto simp: find_replacement_def find_Some_iff)
      have "lit_ok s1 (lits ! j)"
        using clauses_okD(3) [OF core_parts(5) [OF k1] liveD [OF sw(2)]] sw(3) j(2) by simp
      from literal_value_iff(2) [OF sw(10) this] have nf: "\<not> lit_f s1 (lits ! j)"
        using j(3) by (simp add: literal_value_def)
      obtain n where n: "?c = Long n" using c(2) by (cases ?c) auto
      have dw: "watch_but X (Suc h) s1 d" if "live s1 d" "d \<notin> w_clause ` set (w # rest)" for d
        using sw(1) that by (simp add: scan_inv_def)
      have "0 < length lits" "1 < length lits" using sw(8) by linarith+
      then have "list_swap lits (Suc 0) j ! 1 = lits ! j" using j by (simp add: nth_list_swap)
      moreover have "visit_ok X G f h kept rest s1 (None, None,
        push_watch (lits ! j) (Watch (Long n) (lits ! 0)) (write_literals (Long n) (list_swap lits (Suc 0) j) s1))"
        using visit_moved [OF k1 dw, of n lits j] sw(2,3,7) n j nf by simp
      ultimately show ?thesis
        unfolding e using nt Some n visit_ok_frame [OF sw(9)] by simp
    qed
  qed
qed

lemma visit_watch_ok:
  assumes i: "scan_inv X G f h kept (w # rest) s"
  shows "visit_ok X G f h kept rest s (visit_watch f w s)"
proof (cases "clause_deleted s (w_clause w)")
  case True
  then have nl: "\<not> live s (w_clause w)" by (simp add: live_def)
  have "scan_core X G f h (kept @ rest) s"
    using i fits_deleted [OF _ nl] unfolding scan_inv_def scan_core_def by blast
  moreover have "watch_but X (Suc h) s d" if "live s d" "d \<notin> w_clause ` set rest" for d
    using i that nl by (cases "d = w_clause w") (simp_all add: scan_inv_def)
  ultimately show ?thesis using True by (simp add: visit_watch_def visit_ok_def scan_inv_def)
next
  case nd: False
  have k: "scan_core X G f h (kept @ w # rest) s" using i by (simp add: scan_inv_def)
  note q = core_parts [OF k]
  have wok: "watch_ok s f w" using k by (simp add: scan_core_def list_fits_def)
  then have c: "live s (w_clause w)" using nd by (simp add: watch_ok_def live_def)
  have b: "w_blocker w \<in> set (clause_literals s (w_clause w))" using wok nd by (simp add: watch_ok_def)
  have okb: "lit_ok s (w_blocker w)" using clauses_okD(3) [OF q(5) liveD [OF c] b] .
  show ?thesis
  proof (cases "literal_value s (w_blocker w) = 1 \<and> \<not> (cref_is_binary (w_clause w) \<and> binary_fast_path (s_config s))")
    case True
    then show ?thesis
      using nd visit_true [OF i wok refl c b] literal_value_iff(1) [OF q(3) okb] by (auto simp: visit_watch_def)
  next
    case False
    then show ?thesis
      using nd visit_binary_fast_ok [OF i c] visit_binary_slow_ok [OF i c] visit_long_ok [OF i c]
      by (auto simp: visit_watch_def Let_def)
  qed
qed

subsection \<open>Scanning a list\<close>

definition scan_ok ::
  "cref set \<Rightarrow> lit list set \<Rightarrow> lit \<Rightarrow> nat \<Rightarrow> 'f solver \<Rightarrow> cref option \<times> watch list \<times> 'f solver \<Rightarrow> bool"
where
  "scan_ok X G f h s = (\<lambda>(conflict, ws, s'). scan_frame s s' \<and> scan_core X G f h ws s' \<and>
     (case conflict of
        None \<Rightarrow> (\<forall>c. live s' c \<longrightarrow> watch_but X (Suc h) s' c)
      | Some c \<Rightarrow> falsified f c s'))"

lemma scan_watches_ok:
  "scan_inv X G f h kept rest s \<Longrightarrow> scan_ok X G f h s (scan_watches f kept rest s)"
proof (induction f kept rest s rule: scan_watches.induct)
  case (1 f kept s)
  then show ?case by (simp add: scan_ok_def scan_inv_def)
next
  case (2 f kept w rest s)
  obtain k conflict s' where v: "visit_watch f w s = (k, conflict, s')" by (cases "visit_watch f w s")
  have ok: "visit_ok X G f h kept rest s (k, conflict, s')" using visit_watch_ok [OF 2(2)] v by simp
  show ?case
  proof (cases conflict)
    case None
    then have "scan_frame s s'" "scan_inv X G f h (kept @ kept_watch k) rest s'"
      using ok by (simp_all add: visit_ok_def)
    moreover from 2(1) [OF v [symmetric] refl None this(2)]
    have "scan_ok X G f h s' (scan_watches f (kept @ kept_watch k) rest s')" .
    ultimately show ?thesis
      using v None by (auto simp: scan_ok_def intro: scan_frame_trans)
  next
    case (Some c)
    with ok v show ?thesis by (simp add: visit_ok_def scan_ok_def)
  qed
qed

subsection \<open>Propagating one literal\<close>

text \<open>The whole invariant between the operations of the search.\<close>

definition inv :: "lit list set \<Rightarrow> 'f solver \<Rightarrow> bool" where
  "inv G s \<longleftrightarrow> base_ok G s \<and> watches_ok s \<and> watch_sem (s_head s) s"

text \<open>The invariant, except that nothing is said of the watched literals of the clauses of \<open>X\<close>.\<close>

definition inv_but :: "cref set \<Rightarrow> lit list set \<Rightarrow> 'f solver \<Rightarrow> bool" where
  "inv_but X G s \<longleftrightarrow> base_ok G s \<and> watches_ok s \<and> (\<forall>c. live s c \<longrightarrow> watch_but X (s_head s) s c)"

lemma inv_but_empty: "inv_but {} G s = inv G s"
  by (simp add: inv_def inv_but_def watch_sem_def)

text \<open>A false clause that the propagation has not finished with: it will be visited again.\<close>

definition pending :: "cref \<Rightarrow> 'f solver \<Rightarrow> bool" where
  "pending c s \<longleftrightarrow> live s c \<and> (\<forall>l \<in> set (clause_literals s c). lit_f s l)
     \<and> (\<exists>l \<in> set (take 2 (clause_literals s c)). lit_not l \<notin> set (take (s_head s) (s_trail s)))"

text \<open>A conflict: the clause is false, and the literal that falsified it last is at the top level.\<close>

definition conflict_at :: "cref \<Rightarrow> 'f solver \<Rightarrow> bool" where
  "conflict_at c s \<longleftrightarrow> (\<exists>f. falsified f c s \<and> level_of s f = decision_level s)"

text \<open>What propagation leaves alone.\<close>

definition prop_view where
  "prop_view s = ((s_config s, s_proof s, s_variable_count s, s_clauses s, s_binary_flags s, length (s_binaries s)),
     (s_trail_limits s, s_order s, s_activity s, s_seen s, s_consistent s, s_started s),
     (s_scope_selectors s, s_interrupt s, s_limits s, s_start_conflicts s, s_control_active s),
     (s_failed s, s_proof_input s, st_conflicts (s_stats s), nvars s))"

definition prop_frame :: "'f solver \<Rightarrow> 'f solver \<Rightarrow> bool" where
  "prop_frame s s' \<longleftrightarrow> prop_view s' = prop_view s \<and> (\<exists>ys. s_trail s' = s_trail s @ ys) \<and> no_decision s s'
     \<and> (\<forall>c. valid s c \<longrightarrow> set (clause_literals s' c) = set (clause_literals s c))"

lemma prop_frame_refl [simp]: "prop_frame s s"
  by (simp add: prop_frame_def no_decision_def)

lemma prop_frame_valid: "prop_frame s s' \<Longrightarrow> valid s' c = valid s c"
  by (cases c) (simp_all add: prop_frame_def prop_view_def)

lemma prop_frame_trans:
  assumes "prop_frame s t" "prop_frame t u" shows "prop_frame s u"
proof -
  have "no_decision s u" using assms by (simp add: prop_frame_def no_decision_def)
  then show ?thesis
    using assms(2) prop_frame_valid [OF assms(1)] assms(1) unfolding prop_frame_def by (metis append_assoc)
qed

lemma scan_prop_frame: "scan_frame s s' \<Longrightarrow> prop_frame s s'"
  by (auto simp: scan_frame_def scan_view_def prop_frame_def prop_view_def)

lemma poll_prop_frame: "prop_frame s (snd (poll_search_stop s))"
proof -
  have "same_db s (snd (poll_search_stop s))" using frame_poll [of s] by (simp add: frame_eq_def)
  from same_db_literals [OF this] show ?thesis
    by (auto simp: prop_frame_def prop_view_def poll_search_stop_def Let_def nvars_def no_decision_def reason_of_def
        split: option.split)
qed

text \<open>Fields the invariant does not depend on.\<close>

lemma head_stats_ok:
  assumes b: "base_ok G s" and h: "s_head s < length (s_trail s)"
  shows "base_ok G (s\<lparr>s_head := Suc (s_head s), s_stats := st\<rparr>)"
    "list_fits (s\<lparr>s_head := Suc (s_head s), s_stats := st\<rparr>) = list_fits s"
    "watch_but X k (s\<lparr>s_head := Suc (s_head s), s_stats := st\<rparr>) = watch_but X k s"
    "live (s\<lparr>s_head := Suc (s_head s), s_stats := st\<rparr>) = live s"
    "lit_ok (s\<lparr>s_head := Suc (s_head s), s_stats := st\<rparr>) = lit_ok s"
proof -
  let ?s = "s\<lparr>s_head := Suc (s_head s), s_stats := st\<rparr>"
  have d: "same_db s ?s" by (simp add: same_db_def)
  have db: "clause_literals ?s = clause_literals s" "clause_deleted ?s = clause_deleted s"
    "clause_learned ?s = clause_learned s" "valid ?s = valid s" "live ?s = live s"
    using same_db_simps [OF d] by (intro ext; simp)+
  have v: "nvars ?s = nvars s" "lit_ok ?s = lit_ok s" "lit_t ?s = lit_t s" "lit_f ?s = lit_f s"
    "literal_value ?s = literal_value s" "level_of ?s = level_of s" "reason_of ?s = reason_of s"
    "root_literals ?s = root_literals s"
    by (auto simp: nvars_def lit_ok_def lit_t_def lit_f_def literal_value_def level_of_def
        reason_of_def root_literals_def fun_eq_iff)
  have tr: "s_trail ?s = s_trail s" by simp
  show "live ?s = live s" "lit_ok ?s = lit_ok s" by (rule db, rule v)
  show "list_fits ?s = list_fits s" "watch_but X k ?s = watch_but X k s"
    by (intro ext; simp only: list_fits_def watch_ok_def watch_done_defs db v tr)+
  have "trail_ok ?s" using b h unfolding base_ok_def trail_ok_def v by auto
  moreover have "shape_ok ?s = shape_ok s" by (simp add: shape_ok_def v)
  moreover have "queue_inv ?s = queue_inv s" by (simp add: queue_inv_def v)
  moreover have "arena_ok ?s = arena_ok s" by (simp add: arena_ok_def)
  moreover have "clauses_ok ?s = clauses_ok s" unfolding clauses_ok_def db v ..
  moreover have "reasons_ok ?s = reasons_ok s" unfolding reasons_ok_def db v by (simp cong: option.case_cong)
  moreover have "meaning_ok G ?s = meaning_ok G s" unfolding meaning_ok_def db v by simp
  moreover have "coverage_ok G ?s = coverage_ok G s" unfolding coverage_ok_def covered_def db v by simp
  moreover have "selectors_ok ?s = selectors_ok s" unfolding selectors_ok_def v by simp
  ultimately show "base_ok G ?s" using b by (simp add: base_ok_def)
qed

lemma propagate_literal_ok:
  assumes i: "inv_but X G s" and h: "s_head s < length (s_trail s)" and e: "propagate_literal s = (conflict, s')"
  shows "prop_frame s s'" "base_ok G s'" "watches_ok s'" "s_head s' = s_head s + 1"
    "conflict = None \<Longrightarrow> inv_but X G s'"
    "X = {} \<Longrightarrow> watch_sem (s_head s) s'"
    "conflict = Some c \<Longrightarrow> conflict_at c s'"
    "s_stop_reason s' = s_stop_reason s" "s_control_active s' = s_control_active s"
    "conflict = Some c \<Longrightarrow> X = {} \<Longrightarrow> decision_level s' = 0 \<Longrightarrow> pending c s'"
proof -
  let ?h = "s_head s" and ?f = "lit_not (s_trail s ! s_head s)"
  let ?st = "(s_stats s)\<lparr>st_propagations := st_propagations (s_stats s) + 1\<rparr>"
  define t where "t = s\<lparr>s_head := Suc (s_head s), s_stats := ?st\<rparr>"
  define s1 where "s1 = t\<lparr>s_watches := (s_watches t)[lit_index ?f := []]\<rparr>"
  have parts: "base_ok G s" "watches_ok s" "\<And>c. live s c \<Longrightarrow> watch_but X ?h s c"
    using i by (simp_all add: inv_but_def)
  note ht = head_stats_ok [where s = s and G = G and st = ?st, OF parts(1) h, folded t_def]
  have sh: "shape_ok s" "trail_ok s" using parts(1) by (simp_all add: base_ok_def)
  have okf: "lit_ok s ?f" using sh(2) h by (simp add: trail_ok_def)
  note ib = lit_index_bound [OF sh(1) okf]
  have s1: "base_ok G s1" "list_fits s1 = list_fits s" "live s1 = live s" "lit_ok s1 = lit_ok s"
    "watch_but X k s1 = watch_but X k s" "s_trail s1 = s_trail s" "s_trail_limits s1 = s_trail_limits s" for k
    by (simp_all add: s1_def with_watches_ok ht) (simp_all add: t_def)
  have w1: "watches_of s1 l = (if l = ?f then [] else watches_of s l)" if "lit_ok s l" for l
    using ib by (cases "l = ?f") (simp_all add: s1_def t_def watches_of_def nth_list_update lit_index_eq_iff)
  have fits: "list_fits s l (watches_of s l)" if "lit_ok s l" for l
    using parts(2) that by (simp add: watches_ok_list)
  have lim: "\<forall>n \<in> set (s_trail_limits s). n \<le> ?h" using sh(2) by (simp add: trail_ok_def)
  have lf: "level_of s ?f = decision_level s"
    using level_top [OF sh(2) _ h] lim by simp
  have step: "watch_but X (Suc ?h) s c" if "live s c" "c \<notin> w_clause ` set (watches_of s ?f)" for c
  proof -
    have "?f \<notin> set (take 2 (clause_literals s c))"
      using fits_occurrences [OF fits [OF okf] that(1)] that(2) by (auto simp flip: occurrences_0 split: if_splits)
    then show ?thesis using watch_but_unwatched [OF sh(2) h _ lf] parts(3) that by simp
  qed
  have "scan_inv X G ?f ?h [] (watches_of s ?f) s1"
    using s1 h lim fits okf w1 parts(3) step by (auto simp: scan_inv_def scan_core_def)
  from scan_watches_ok [OF this]
  have ok: "scan_ok X G ?f ?h s1 (scan_watches ?f [] (watches_of s ?f) s1)" .
  obtain cf ws s2 where sc: "scan_watches ?f [] (watches_of s ?f) s1 = (cf, ws, s2)"
    by (cases "scan_watches ?f [] (watches_of s ?f) s1")
  have res: "conflict = cf" "s' = s2\<lparr>s_watches := (s_watches s2)[lit_index ?f := ws]\<rparr>"
    using e sc by (simp_all add: propagate_literal_def Let_def s1_def t_def watches_of_def)
  have fr: "scan_frame s1 s2" and k2: "scan_core X G ?f ?h ws s2"
    and fin: "case cf of None \<Rightarrow> \<forall>c. live s2 c \<longrightarrow> watch_but X (Suc ?h) s2 c | Some c \<Rightarrow> falsified ?f c s2"
    using ok sc by (auto simp: scan_ok_def)
  note q2 = core_parts [OF k2]
  have v': "live s' = live s2" "lit_ok s' = lit_ok s2" "list_fits s' = list_fits s2"
    "watch_but X k s' = watch_but X k s2" "level_of s' = level_of s2" "decision_level s' = decision_level s2"
    "lit_f s' = lit_f s2" "clause_literals s' = clause_literals s2" "s_trail s' = s_trail s2" for k
    by (simp_all add: res(2) with_watches_ok)
  show b': "base_ok G s'" using q2(1) by (simp add: res(2) with_watches_ok)
  have sf: "prop_frame s s1"
  proof -
    have "same_db s s1" by (simp add: s1_def t_def same_db_def)
    then show ?thesis using same_db_literals [of s s1]
      by (simp add: prop_frame_def prop_view_def s1_def t_def nvars_def no_decision_def reason_of_def)
  qed
  have "prop_frame s2 s'" by (simp add: prop_frame_def prop_view_def res(2) no_decision_def)
  then show "prop_frame s s'" using prop_frame_trans [OF prop_frame_trans [OF sf scan_prop_frame [OF fr]]] by blast
  have hd: "s_head s2 = s_head s1" "s_stop_reason s2 = s_stop_reason s1" "s_control_active s2 = s_control_active s1"
    using fr by (simp_all add: scan_frame_def scan_view_def)
  then show hd': "s_head s' = s_head s + 1" "s_stop_reason s' = s_stop_reason s"
    "s_control_active s' = s_control_active s" by (simp_all add: res(2) s1_def t_def)
  show w': "watches_ok s'"
    unfolding watches_ok_list v'
  proof (intro allI impI)
    fix l assume l: "lit_ok s2 l"
    show "list_fits s2 l (watches_of s' l)"
    proof (cases "l = ?f")
      case True
      then have "watches_of s' l = ws"
        using lit_index_bound [OF q2(2) q2(6)] by (simp add: res(2) watches_of_def)
      then show ?thesis using k2 True by (simp add: scan_core_def)
    next
      case False
      then have "watches_of s' l = watches_of s2 l"
        by (simp add: res(2) watches_of_def nth_list_update lit_index_eq_iff)
      then show ?thesis using k2 False l by (simp add: scan_core_def)
    qed
  qed
  have "watch_but X ?h s' c" if "live s' c" for c using k2 that unfolding v' by (simp add: scan_core_def)
  then show "watch_sem ?h s'" if "X = {}" using that by (simp add: watch_sem_def)
  show "inv_but X G s'" if "conflict = None"
    using that fin b' w' unfolding inv_but_def v' hd' res(1) by simp
  show "pending c s'" if c: "conflict = Some c" and x: "X = {}" and z: "decision_level s' = 0"
  proof -
    have fl: "falsified ?f c s2" using c fin res(1) by simp
    have lc: "live s2 c" and ff: "?f \<in> set (take 2 (clause_literals s2 c))"
      and af: "\<forall>l \<in> set (clause_literals s2 c). lit_f s2 l" using fl by (simp_all add: falsified_def)
    have z2: "decision_level s2 = 0" using z by (simp add: v')
    note ft = first_two [OF q2(5) liveD [OF lc]]
    obtain u where u: "u \<in> set (take 2 (clause_literals s2 c))" "u \<noteq> ?f"
      using ft(1,2) ff by (metis insertI1 insertI2)
    have uc: "u \<in> set (clause_literals s2 c)" using u(1) by (meson in_set_takeD)
    have "level_of s2 u = 0"
      using level_le_decision [OF q2(3), of "lit_not u"] af uc z2 by (simp add: lit_f_def)
    moreover have "root_done ?h s2 c" using k2 lc x by (simp add: scan_core_def watch_but_def)
    moreover have "\<not> (\<exists>t \<in> set (clause_literals s2 c). t \<in> root_literals s2)"
      using af lit_t_f [OF q2(3)] by (auto simp: root_literals_def lit_t_def)
    ultimately have "lit_not u \<notin> set (take ?h (s_trail s2))" using u(1) unfolding root_done_def by blast
    moreover have "s_trail s2 ! ?h = lit_not ?f" "?h < length (s_trail s2)" using k2 by (simp_all add: scan_core_def)
    then have "take (Suc ?h) (s_trail s2) = take ?h (s_trail s2) @ [lit_not ?f]" by (metis take_Suc_conv_app_nth)
    moreover have "lit_not u \<noteq> lit_not ?f" using u(2) unfolding lit_not_eq_iff .
    ultimately have "lit_not u \<notin> set (take (Suc ?h) (s_trail s2))" by auto
    then show ?thesis using lc af u(1) unfolding pending_def v' hd' by auto
  qed
  show "conflict_at c s'" if "conflict = Some c"
  proof -
    have "falsified ?f c s2" using that fin res(1) by simp
    then have "falsified ?f c s'" unfolding falsified_def v' .
    moreover have "level_of s' ?f = decision_level s'" unfolding v' by (rule q2(8))
    ultimately show ?thesis unfolding conflict_at_def by blast
  qed
qed

subsection \<open>Propagation to the end\<close>

lemma trail_length:
  assumes "trail_ok s" shows "length (s_trail s) \<le> nvars s"
proof -
  have d: "distinct (map lit_var (s_trail s))" and ok: "\<forall>l \<in> set (s_trail s). lit_ok s l"
    using assms by (simp_all add: trail_ok_def)
  have "inj_on var_index (set (map lit_var (s_trail s)))" by (rule inj_onI) (simp add: var_index_eq_iff)
  with d have "distinct (map var_index (map lit_var (s_trail s)))" by (simp add: distinct_map comp_inj_on)
  then have "length (s_trail s) = card (set (map var_index (map lit_var (s_trail s))))"
    by (metis distinct_card length_map)
  also have "\<dots> \<le> card {..<nvars s}" using ok by (intro card_mono) (auto simp: lit_ok_def)
  finally show ?thesis by simp
qed

lemma poll_stopped:
  "poll_search_stop s = (Some r, s') \<Longrightarrow> s_control_active s' \<and> s_stop_reason s' = Some r"
  by (auto simp: poll_search_stop_def Let_def split: if_splits option.splits)

lemma poll_continues:
  "poll_search_stop s = (None, s') \<Longrightarrow> s_control_active s \<Longrightarrow> s_stop_reason s' = None \<and> s_stop_reason s = None"
  by (auto simp: poll_search_stop_def Let_def split: if_splits option.splits)

lemma frame_inv: "frame_eq s s' \<Longrightarrow> inv G s' = inv G s"
  using frame_eq_inv [of s s'] by (simp add: inv_def frame_eq_def)

text \<open>A conflict as propagation leaves it: only the last literal may not be fully processed.\<close>

definition conflict_state :: "lit list set \<Rightarrow> cref \<Rightarrow> 'f solver \<Rightarrow> bool" where
  "conflict_state G c s \<longleftrightarrow> base_ok G s \<and> watches_ok s \<and> conflict_at c s
     \<and> (\<exists>j. watch_sem j s \<and> (\<forall>n \<in> set (s_trail_limits s). n \<le> j))"

definition prop_result_but ::
  "cref set \<Rightarrow> lit list set \<Rightarrow> 'f solver \<Rightarrow> cref option \<times> 'f solver \<Rightarrow> bool" where
  "prop_result_but X G s = (\<lambda>(conflict, s'). prop_frame s s' \<and>
     (case conflict of
        None \<Rightarrow> inv_but X G s' \<and> (s_head s' = length (s_trail s') \<or> s_control_active s' \<and> s_stop_reason s' \<noteq> None)
      | Some c \<Rightarrow> base_ok G s' \<and> watches_ok s'
          \<and> (X = {} \<longrightarrow> conflict_state G c s' \<and> (decision_level s' = 0 \<longrightarrow> pending c s'))))"

definition prop_result ::
  "lit list set \<Rightarrow> 'f solver \<Rightarrow> cref option \<times> 'f solver \<Rightarrow> bool" where
  "prop_result G s = (\<lambda>(conflict, s'). prop_frame s s' \<and>
     (case conflict of
        None \<Rightarrow> inv G s' \<and> (s_head s' = length (s_trail s') \<or> s_control_active s' \<and> s_stop_reason s' \<noteq> None)
      | Some c \<Rightarrow> conflict_state G c s' \<and> (decision_level s' = 0 \<longrightarrow> pending c s')))"

lemma prop_result_trans: "prop_frame s t \<Longrightarrow> prop_result_but X G t r \<Longrightarrow> prop_result_but X G s r"
  by (auto simp: prop_result_but_def intro: prop_frame_trans)

lemma frame_inv_but: "frame_eq s s' \<Longrightarrow> inv_but X G s' = inv_but X G s"
  using frame_eq_inv [of s s'] frame_list(2) [of s s'] frame_eq_simps(5) [of s s']
  by (simp add: inv_but_def frame_eq_def)

lemma propagate_fuel_ok:
  "inv_but X G s \<Longrightarrow> nvars s - s_head s \<le> fuel \<Longrightarrow> prop_result_but X G s (propagate_fuel fuel s)"
proof (induction fuel arbitrary: s)
  case 0
  have t: "trail_ok s" using 0 by (simp add: inv_but_def base_ok_def)
  then have "s_head s \<le> length (s_trail s)" by (simp add: trail_ok_def)
  then have "s_head s = length (s_trail s)" using 0 trail_length [OF t] by simp
  with 0 show ?case by (simp add: prop_result_but_def)
next
  case (Suc fuel)
  show ?case
  proof (cases "s_head s < length (s_trail s)")
    case False
    have "s_head s \<le> length (s_trail s)" using Suc.prems by (simp add: inv_but_def base_ok_def trail_ok_def)
    with False Suc.prems show ?thesis by (simp add: prop_result_but_def)
  next
    case h: True
    obtain stop s1 where p: "poll_search_stop s = (stop, s1)" by (cases "poll_search_stop s")
    have f: "frame_eq s s1" "prop_frame s s1" using frame_poll [of s] poll_prop_frame [of s] p by simp_all
    have i1: "inv_but X G s1" using frame_inv_but [OF f(1)] Suc.prems by simp
    have h1: "s_head s1 < length (s_trail s1)" "s_head s1 = s_head s" "nvars s1 = nvars s"
      using f h by (simp_all add: frame_eq_def nvars_def)
    show ?thesis
    proof (cases stop)
      case (Some r)
      then have "s_control_active s1 \<and> s_stop_reason s1 \<noteq> None" using poll_stopped p by blast
      with Some h p f i1 show ?thesis by (simp add: prop_result_but_def)
    next
      case None
      obtain conflict s2 where l: "propagate_literal s1 = (conflict, s2)" by (cases "propagate_literal s1")
      note q = propagate_literal_ok [OF i1 h1(1) l]
      show ?thesis
      proof (cases conflict)
        case (Some c)
        have "s_trail_limits s2 = s_trail_limits s1" using q(1) by (simp add: prop_frame_def prop_view_def)
        then have "\<forall>n \<in> set (s_trail_limits s2). n \<le> s_head s1"
          using i1 by (simp add: inv_but_def base_ok_def trail_ok_def)
        then have "X = {} \<longrightarrow> conflict_state G c s2" using q(2,3,6) q(7) [OF Some] by (auto simp: conflict_state_def)
        then show ?thesis
          using h p None l Some prop_frame_trans [OF f(2) q(1)] q(2,3) q(10) [OF Some]
          by (simp add: prop_result_but_def)
      next
        case nc: None
        have "nvars s2 = nvars s1" using q(1) by (simp add: prop_frame_def prop_view_def)
        then have "prop_result_but X G s2 (propagate_fuel fuel s2)"
          using Suc.IH [OF q(5) [OF nc]] q(4) h1 Suc.prems(2) by simp
        then show ?thesis
          using h p None l nc prop_result_trans [OF prop_frame_trans [OF f(2) q(1)]] by simp
      qed
    qed
  qed
qed

lemma propagate_but_ok: "inv_but X G s \<Longrightarrow> prop_result_but X G s (propagate s)"
  unfolding propagate_def using propagate_fuel_ok [of X G s "length (s_assignments s)"] by (simp add: nvars_def)

lemma propagate_ok: "inv G s \<Longrightarrow> prop_result G s (propagate s)"
  using propagate_but_ok [of "{}" G s]
  by (auto simp: inv_but_empty prop_result_def prop_result_but_def split: option.splits)

text \<open>A pending conflict is found again: it cannot be missed, whatever else the propagation does.\<close>

lemma pending_found:
  assumes b: "base_ok G s" "watches_ok s" and p: "pending c s" and e: "propagate s = (None, s')"
    and a: "\<not> s_control_active s"
  shows False
proof -
  define d0 where "d0 = (if c = Long 0 then Long 1 else Long 0)"
  let ?X = "insert d0 {d. \<not> both_done (s_head s) s d}"
  have "inv_but ?X G s" using b by (simp add: inv_but_def watch_but_def)
  from propagate_but_ok [OF this] have r: "prop_frame s s'" "inv_but ?X G s'"
    "s_head s' = length (s_trail s') \<or> s_control_active s'"
    unfolding e by (auto simp: prop_result_but_def)
  have pc: "live s c" "\<forall>l \<in> set (clause_literals s c). lit_f s l"
    and o: "\<exists>l \<in> set (take 2 (clause_literals s c)). lit_not l \<notin> set (take (s_head s) (s_trail s))"
    using p by (simp_all add: pending_def)
  obtain ys where f: "s_trail s' = s_trail s @ ys" "s_control_active s' = s_control_active s" "s_clauses s' = s_clauses s"
    "s_binary_flags s' = s_binary_flags s" "set (clause_literals s' c) = set (clause_literals s c)"
    using r(1) liveD [OF pc(1)] by (auto simp: prop_frame_def prop_view_def)
  have h: "s_head s' = length (s_trail s')" using r(3) a f(2) by simp
  have lc: "live s' c" using pc(1) prop_frame_valid [OF r(1), of c] f(3,4) by (cases c) (auto simp: live_def)
  have t: "trail_ok s'" using r(2) by (simp add: inv_but_def base_ok_def)
  have false: "lit_f s' l" if "l \<in> set (clause_literals s' c)" for l
    using that pc(2) by (auto simp: f lit_f_def)
  then have none: "\<not> lit_t s' l" if "l \<in> set (clause_literals s' c)" for l using that lit_t_f [OF t, of l] by blast
  have "c \<in> ?X"
  proof (rule ccontr)
    assume "c \<notin> ?X"
    then have "both_done (s_head s') s' c" using r(2) lc unfolding inv_but_def watch_but_def by blast
    then show False using false none unfolding both_done_def h by (auto simp: lit_f_def dest: in_set_takeD)
  qed
  moreover have "c \<notin> ?X" using o by (auto simp: d0_def both_done_def)
  ultimately show False by simp
qed

end
