(* ===== verification/Solver_Analyze.thy ===== *)
theory Solver_Analyze
  imports Solver_Propagate
begin

section \<open>Conflict analysis learns entailed asserting clauses\<close>

text \<open>
  From a clause that is false under the trail, with a literal of the current level in it, the
  resolution loop reaches the first unique implication point: the learned clause is entailed by
  the clauses added so far, false under the trail, and has exactly one literal of the current
  level, in its first place. Minimisation keeps all of this, the marks are cleared at the end,
  and the backtrack level is the highest level of the other literals. No step of the analysis
  panics: every literal that is resolved on has a reason.
\<close>

subsection \<open>Entailment by sets of literals\<close>

definition entails_set :: "lit list set \<Rightarrow> lit set \<Rightarrow> bool" where
  "entails_set G C \<longleftrightarrow> (\<forall>\<sigma>. models \<sigma> G \<longrightarrow> (\<exists>l \<in> C. lit_true \<sigma> l))"

lemma entails_set_iff: "entails G c \<longleftrightarrow> entails_set G (set c)"
  by (simp add: entails_def entails_set_def clause_true_def)

lemma entails_set_mono: "entails_set G C \<Longrightarrow> C \<subseteq> D \<Longrightarrow> entails_set G D"
  unfolding entails_set_def by blast

lemma entails_resolve:
  assumes "entails_set G (insert (lit_not p) C)" "entails_set G (insert p D)"
  shows "entails_set G (C \<union> D)"
  using assms unfolding entails_set_def by (metis UnCI insert_iff lit_true_not)

lemma entails_drop:
  assumes "entails_set G C" "\<And>l. l \<in> C \<Longrightarrow> l \<in> D \<or> entails G [lit_not l]"
  shows "entails_set G D"
  unfolding entails_set_def
proof (intro allI impI)
  fix \<sigma> assume m: "models \<sigma> G"
  then obtain l where l: "l \<in> C" "lit_true \<sigma> l" using assms(1) by (auto simp: entails_set_def)
  have "\<not> entails G [lit_not l]" using m l(2) by (auto simp: entails_def clause_true_def)
  then show "\<exists>l \<in> D. lit_true \<sigma> l" using assms(2) l by blast
qed

subsection \<open>Literals of the trail\<close>

lemma trail_unique:
  assumes "trail_ok s" "t \<in> set (s_trail s)" "u \<in> set (s_trail s)" "lit_var t = lit_var u"
  shows "t = u"
  using assms trail_not_both [OF assms(1,3)] by (auto simp: lit_var_eq_iff)

lemma false_unique:
  assumes "trail_ok s" "lit_f s l" "lit_f s k" "lit_var l = lit_var k" shows "l = k"
  using trail_unique [OF assms(1), of "lit_not l" "lit_not k"] assms(2-4) by (simp add: lit_f_def)

lemma root_false:
  assumes b: "base_ok G s" and l: "lit_f s l" "level_of s l = 0" shows "entails G [lit_not l]"
proof -
  have "lit_not l \<in> root_literals s" using l by (simp add: root_literals_def lit_f_def)
  with b show ?thesis by (simp add: base_ok_def meaning_ok_def)
qed

lemma frame_eq_seen: "length x = length (s_seen s) \<Longrightarrow> frame_eq s (s\<lparr>s_seen := x\<rparr>)"
  by (simp add: frame_eq_def same_db_def)

lemma bump_seen: "s_seen (bump_variable_activity F v s) = s_seen s"
  by (simp add: bump_variable_activity_def Let_def)

lemma usage_seen: "s_seen (bump_clause_usage c s) = s_seen s"
  by (simp add: bump_clause_usage_def)

subsection \<open>The resolvent\<close>

text \<open>The marked literals of the current level, as true literals of the trail.\<close>

definition current_marks :: "'f solver \<Rightarrow> 'f analysis \<Rightarrow> lit set" where
  "current_marks s a = {t \<in> set (s_trail s). level_of s t = decision_level s
     \<and> s_seen (an_solver a) ! var_index (lit_var t)}"

definition resolvent :: "'f solver \<Rightarrow> 'f analysis \<Rightarrow> lit set" where
  "resolvent s a = lit_not ` current_marks s a \<union> set (tl (an_learned a))"

definition an_ok :: "'f solver \<Rightarrow> nat \<Rightarrow> 'f analysis \<Rightarrow> bool" where
  "an_ok s i a \<longleftrightarrow>
     frame_eq s (an_solver a) \<and> an_learned a \<noteq> []
     \<and> (\<forall>l \<in> set (tl (an_learned a)). lit_f s l \<and> 0 < level_of s l \<and> level_of s l < decision_level s
          \<and> s_seen (an_solver a) ! var_index (lit_var l))
     \<and> distinct (map lit_var (tl (an_learned a)))
     \<and> current_marks s a \<subseteq> set (take i (s_trail s)) \<and> an_path_count a = card (current_marks s a)
     \<and> (\<forall>j < nvars s. s_seen (an_solver a) ! j \<longrightarrow> j \<in> (\<lambda>l. var_index (lit_var l)) ` resolvent s a)
     \<and> (\<forall>j < nvars s. s_seen (an_solver a) ! j \<longrightarrow> j \<in> var_index ` set (an_touched a))
     \<and> (\<forall>v \<in> set (an_touched a). var_index v < nvars s)"

lemma an_ok_seen:
  assumes "an_ok s i a" "j < nvars s" "s_seen (an_solver a) ! j"
  obtains k where "k \<in> resolvent s a" "j = var_index (lit_var k)"
proof -
  have "j \<in> (\<lambda>l. var_index (lit_var l)) ` resolvent s a" using assms unfolding an_ok_def by blast
  then show ?thesis using that by blast
qed

lemma finite_marks [simp]: "finite (current_marks s a)"
  by (simp add: current_marks_def)

lemma analyze_literals_ok:
  assumes b: "base_ok G s" and dl: "current = decision_level s"
  shows "an_ok s i a \<Longrightarrow> (\<forall>l \<in> set ls. resolved \<noteq> Some (lit_var l) \<longrightarrow> lit_not l \<in> set (take i (s_trail s)))
    \<Longrightarrow> an_ok s i (analyze_literals F resolved current ls a)
      \<and> resolvent s a \<subseteq> resolvent s (analyze_literals F resolved current ls a)
      \<and> (\<forall>l \<in> set ls. resolved \<noteq> Some (lit_var l) \<longrightarrow>
            level_of s l = 0 \<or> l \<in> resolvent s (analyze_literals F resolved current ls a))"
proof (induction ls arbitrary: a)
  case Nil
  then show ?case by simp
next
  case (Cons l ls)
  let ?v = "lit_var l" and ?j = "var_index (lit_var l)" and ?s = "an_solver a"
  have t: "trail_ok s" "queue_inv s" "shape_ok s" using b by (simp_all add: base_ok_def)
  have fr: "frame_eq s ?s" using Cons.prems(1) by (simp add: an_ok_def)
  have lv: "s_levels ?s ! ?j = level_of s l"
    using fr by (simp add: frame_eq_def level_of_def)
  show ?case
  proof (cases "resolved = Some ?v")
    case True
    then show ?thesis using Cons.IH [OF Cons.prems(1)] Cons.prems(2) by simp
  next
    case nr: False
    then have lt: "lit_not l \<in> set (take i (s_trail s))" using Cons.prems(2) by simp
    then have lT: "lit_not l \<in> set (s_trail s)" by (rule in_set_takeD)
    then have lf: "lit_f s l" by (simp add: lit_f_def)
    have okl: "lit_ok s l" using lT t(1) lit_ok_not [of s l] by (auto simp: trail_ok_def)
    then have j: "?j < nvars s" "?j < length (s_seen ?s)"
      using t(3) fr by (simp_all add: lit_ok_def shape_ok_def frame_eq_def)
    show ?thesis
    proof (cases "\<not> s_seen ?s ! ?j \<and> level_of s l > 0")
      case False
      then have old: "level_of s l = 0 \<or> l \<in> resolvent s a"
      proof -
        have "l \<in> resolvent s a" if sj: "s_seen ?s ! ?j"
        proof -
          obtain k where k: "k \<in> resolvent s a" "?j = var_index (lit_var k)"
            using an_ok_seen [OF Cons.prems(1) j(1) sj] by blast
          have "lit_f s k"
            using k(1) Cons.prems(1) by (auto simp: resolvent_def an_ok_def current_marks_def lit_f_def)
          with lf have "k = l" using false_unique [OF t(1)] k(2) by (simp add: var_index_eq_iff)
          with k show ?thesis by simp
        qed
        then show ?thesis using False by (cases "level_of s l = 0") simp_all
      qed
      have e: "analyze_literals F resolved current (l # ls) a = analyze_literals F resolved current ls a"
        using nr False lv by (auto simp: Let_def)
      show ?thesis
        unfolding e using Cons.IH [OF Cons.prems(1)] Cons.prems(2) old by auto
    next
      case new: True
      define s' where "s' = bump_variable_activity F ?v (?s\<lparr>s_seen := (s_seen ?s)[?j := True]\<rparr>)"
      define a' where "a' = (let x = a\<lparr>an_solver := s', an_touched := an_touched a @ [?v]\<rparr>
        in if level_of s l = current then x\<lparr>an_path_count := an_path_count a + 1\<rparr>
           else x\<lparr>an_learned := an_learned a @ [l]\<rparr>)"
      have e: "analyze_literals F resolved current (l # ls) a = analyze_literals F resolved current ls a'"
        using nr new lv by (simp add: Let_def a'_def s'_def)
      have a's: "an_solver a' = s'" "an_touched a' = an_touched a @ [?v]" by (simp_all add: a'_def Let_def)
      have seen': "s_seen s' = (s_seen ?s)[?j := True]" by (simp add: s'_def bump_seen)
      have fs: "frame_eq s (?s\<lparr>s_seen := (s_seen ?s)[?j := True]\<rparr>)"
        by (rule frame_eq_trans [OF fr]) (simp add: frame_eq_seen)
      have "frame_eq s s'"
        unfolding s'_def
        by (rule frame_eq_trans [OF fs], rule frame_bump_variable)
          (use t fs j in \<open>simp_all add: frame_eq_def queue_inv_def nvars_def\<close>)
      moreover have marks: "current_marks s a'
          = (if level_of s l = current then insert (lit_not l) (current_marks s a) else current_marks s a)"
      proof -
        have q: "s_seen s' ! var_index (lit_var t) \<longleftrightarrow> lit_var t = ?v \<or> s_seen ?s ! var_index (lit_var t)"
          for t
          using j by (auto simp: seen' nth_list_update var_index_eq_iff)
        have "lit_var u = ?v \<longleftrightarrow> u = lit_not l" if "u \<in> set (s_trail s)" for u
          using trail_unique [OF t(1) that lT] by auto
        then show ?thesis unfolding current_marks_def a's q using lT dl by auto
      qed
      moreover have "lit_not l \<notin> current_marks s a" using new by (simp add: current_marks_def)
      moreover have lrn: "an_learned a' = (if level_of s l = current then an_learned a else an_learned a @ [l])"
        by (simp add: a'_def Let_def)
      moreover have "an_path_count a' = (if level_of s l = current then an_path_count a + 1 else an_path_count a)"
        by (simp add: a'_def Let_def)
      moreover have ne: "an_learned a \<noteq> []" using Cons.prems(1) by (simp add: an_ok_def)
      moreover have "level_of s l \<le> current" using level_le_decision [OF t(1) lT] dl by simp
      moreover have res: "resolvent s a' = insert l (resolvent s a)"
        unfolding resolvent_def marks lrn using ne by auto
      moreover have "lit_var l \<notin> lit_var ` set (tl (an_learned a))"
        using Cons.prems(1) new by (auto simp: an_ok_def)
      ultimately have ok: "an_ok s i a'"
        using Cons.prems(1) lt lf new dl j
        unfolding an_ok_def a's seen'
        by (auto simp: nth_list_update split: if_splits)
      show ?thesis
        unfolding e using Cons.IH [OF ok] Cons.prems(2) res by auto
    qed
  qed
qed

subsection \<open>The resolution loop\<close>

lemma find_pivot_Some:
  "find_pivot seen ts n = Some i \<longleftrightarrow>
     i < n \<and> seen ! var_index (lit_var (ts ! i)) \<and> (\<forall>j < n. i < j \<longrightarrow> \<not> seen ! var_index (lit_var (ts ! j)))"
  by (induction n) (auto simp: less_Suc_eq)

lemma find_pivot_None:
  "find_pivot seen ts n = None \<longleftrightarrow> (\<forall>j < n. \<not> seen ! var_index (lit_var (ts ! j)))"
  by (induction n) (auto simp: less_Suc_eq)

definition learned_ok :: "lit list set \<Rightarrow> 'f solver \<Rightarrow> lit list \<Rightarrow> bool" where
  "learned_ok G s learned \<longleftrightarrow>
     learned \<noteq> [] \<and> entails G learned \<and> distinct (map lit_var learned)
     \<and> (\<forall>l \<in> set learned. lit_f s l) \<and> level_of s (hd learned) = decision_level s
     \<and> (\<forall>l \<in> set (tl learned). 0 < level_of s l \<and> level_of s l < decision_level s)"

definition marks_ok :: "'f solver \<Rightarrow> lit list \<Rightarrow> var list \<Rightarrow> 'f solver \<Rightarrow> bool" where
  "marks_ok s learned touched s' \<longleftrightarrow> frame_eq s s'
     \<and> (\<forall>j < nvars s. s_seen s' ! j \<longrightarrow> j \<in> vars_of (tl learned))
     \<and> (\<forall>j < nvars s. s_seen s' ! j \<longrightarrow> j \<in> var_index ` set touched)
     \<and> (\<forall>v \<in> set touched. var_index v < nvars s)"

definition loop_inv ::
  "lit list set \<Rightarrow> 'f solver \<Rightarrow> var option \<Rightarrow> cref \<Rightarrow> nat \<Rightarrow> 'f analysis \<Rightarrow> bool" where
  "loop_inv G s resolved c i a \<longleftrightarrow>
     an_ok s i a \<and> live s c \<and> i \<le> length (s_trail s)
     \<and> (\<forall>l \<in> set (clause_literals s c). resolved \<noteq> Some (lit_var l) \<longrightarrow> lit_not l \<in> set (take i (s_trail s)))
     \<and> entails_set G (resolvent s a \<union> {l \<in> set (clause_literals s c). resolved \<noteq> Some (lit_var l)})
     \<and> (current_marks s a \<noteq> {} \<or> resolved = None \<and> (\<exists>l \<in> set (clause_literals s c). level_of s l = decision_level s))"

lemma resolvent_current:
  assumes "an_ok s i a" "l \<in> resolvent s a" "level_of s l = decision_level s"
  shows "lit_not l \<in> current_marks s a"
  using assms by (auto simp: resolvent_def an_ok_def)

text \<open>One round: the literals of the clause, and the next pivot.\<close>

lemma loop_literals:
  fixes F :: "'f::linorder float_ops" and s :: "'f solver"
  assumes b: "base_ok G s" and i: "loop_inv G s resolved c i a" and z: "0 < decision_level s"
  defines "a1 \<equiv> analyze_literals F resolved (decision_level s) (clause_literals (an_solver a) c)
    (a\<lparr>an_solver := bump_clause_usage c (an_solver a)\<rparr>)"
  shows "an_ok s i a1" "entails_set G (resolvent s a1)" "current_marks s a1 \<noteq> {}"
proof -
  have ao: "an_ok s i a" using i by (simp add: loop_inv_def)
  have fr: "frame_eq s (an_solver a)" using ao by (simp add: an_ok_def)
  let ?a0 = "a\<lparr>an_solver := bump_clause_usage c (an_solver a)\<rparr>"
  have sn: "s_seen (bump_clause_usage c (an_solver a)) = s_seen (an_solver a)" by (rule usage_seen)
  have mk: "current_marks s ?a0 = current_marks s a" by (simp add: current_marks_def sn)
  have re: "resolvent s ?a0 = resolvent s a" by (simp add: resolvent_def mk)
  have "frame_eq s (bump_clause_usage c (an_solver a))" by (rule frame_eq_trans [OF fr frame_usage])
  then have a0: "an_ok s i ?a0" using ao unfolding an_ok_def mk re by (simp add: sn)
  have cl: "clause_literals (an_solver a) c = clause_literals s c" by (simp add: frame_eq_simps [OF fr])
  have "\<forall>l \<in> set (clause_literals s c). resolved \<noteq> Some (lit_var l) \<longrightarrow> lit_not l \<in> set (take i (s_trail s))"
    using i by (simp add: loop_inv_def)
  from analyze_literals_ok [OF b refl a0 this, of F]
  have o: "an_ok s i a1" "resolvent s a \<subseteq> resolvent s a1"
    "\<And>l. l \<in> set (clause_literals s c) \<Longrightarrow> resolved \<noteq> Some (lit_var l)
      \<Longrightarrow> level_of s l = 0 \<or> l \<in> resolvent s a1"
    unfolding a1_def cl re by blast+
  then show "an_ok s i a1" by simp
  have "lit_f s l" if "l \<in> set (clause_literals s c)" "resolved \<noteq> Some (lit_var l)" for l
    using i that by (auto simp: loop_inv_def lit_f_def dest: in_set_takeD)
  then have "l \<in> resolvent s a1 \<or> entails G [lit_not l]"
    if "l \<in> resolvent s a \<union> {l \<in> set (clause_literals s c). resolved \<noteq> Some (lit_var l)}" for l
    using that o(2) o(3) [of l] root_false [OF b, of l] by blast
  moreover have "entails_set G (resolvent s a \<union> {l \<in> set (clause_literals s c). resolved \<noteq> Some (lit_var l)})"
    using i by (simp add: loop_inv_def)
  ultimately show "entails_set G (resolvent s a1)" by (rule entails_drop [rotated])
  show "current_marks s a1 \<noteq> {}"
  proof (cases "current_marks s a = {}")
    case False
    then obtain t where t: "t \<in> current_marks s a" by blast
    then have "lit_not t \<in> resolvent s a1" using o(2) by (auto simp: resolvent_def)
    from resolvent_current [OF o(1) this] t show ?thesis by (auto simp: current_marks_def)
  next
    case True
    then obtain l where l: "resolved = None" "l \<in> set (clause_literals s c)" "level_of s l = decision_level s"
      using i by (auto simp: loop_inv_def)
    then have "l \<in> resolvent s a1" using o(3) z by force
    from resolvent_current [OF o(1) this l(3)] show ?thesis by blast
  qed
qed

lemma loop_pivot:
  assumes b: "base_ok G s" and ao: "an_ok s i a" and ne: "current_marks s a \<noteq> {}" and il: "i \<le> length (s_trail s)"
  obtains k where "find_pivot (s_seen (an_solver a)) (s_trail (an_solver a)) i = Some k" "k < i"
    "s_trail s ! k \<in> current_marks s a" "current_marks s a - {s_trail s ! k} \<subseteq> set (take k (s_trail s))"
proof -
  have fr: "frame_eq s (an_solver a)" using ao by (simp add: an_ok_def)
  have T: "s_trail (an_solver a) = s_trail s" using fr by (simp add: frame_eq_def)
  have t: "trail_ok s" using b by (simp add: base_ok_def)
  let ?seen = "s_seen (an_solver a)"
  have pos: "\<exists>m < i. s_trail s ! m = u" if "u \<in> current_marks s a" for u
  proof -
    have "u \<in> set (take i (s_trail s))" using ao that by (auto simp: an_ok_def)
    then show ?thesis by (auto simp: in_set_conv_nth)
  qed
  obtain u m where u: "u \<in> current_marks s a" "m < i" "s_trail s ! m = u" using ne pos by blast
  then have sm: "?seen ! var_index (lit_var (s_trail s ! m))" by (simp add: current_marks_def)
  then obtain k where k: "find_pivot ?seen (s_trail s) i = Some k"
    using u(2) find_pivot_None by (metis option.exhaust)
  then have kp: "k < i" "?seen ! var_index (lit_var (s_trail s ! k))"
    "\<And>j. j < i \<Longrightarrow> k < j \<Longrightarrow> \<not> ?seen ! var_index (lit_var (s_trail s ! j))"
    by (auto simp: find_pivot_Some)
  have kl: "k < length (s_trail s)" using kp il by simp
  have "m \<le> k" using kp(3) u(2) sm by force
  then have "level_of s u \<le> level_of s (s_trail s ! k)" using level_mono [OF t _ kl] u(3) by blast
  moreover have "level_of s u = decision_level s" using u(1) by (simp add: current_marks_def)
  moreover have "level_of s (s_trail s ! k) \<le> decision_level s" using level_le_decision [OF t] kl by simp
  ultimately have "s_trail s ! k \<in> current_marks s a" using kl kp(2) by (simp add: current_marks_def)
  moreover have "x \<in> set (take k (s_trail s))" if x: "x \<in> current_marks s a" "x \<noteq> s_trail s ! k" for x
  proof -
    obtain j where j: "j < i" "s_trail s ! j = x" using pos [OF x(1)] by blast
    have "?seen ! var_index (lit_var (s_trail s ! j))" using x(1) j by (simp add: current_marks_def)
    then have "j < k" using kp(3) j x(2) by (metis nat_neq_iff)
    then show ?thesis using j kl by (auto simp: in_set_conv_nth)
  qed
  ultimately show ?thesis using that [of k] k kp(1) T by auto
qed

text \<open>Unmarking the pivot.\<close>

lemma loop_unmark:
  assumes b: "base_ok G s" and ao: "an_ok s i a" and p: "p \<in> current_marks s a" and k: "s_trail s ! k = p"
    and rest: "current_marks s a - {p} \<subseteq> set (take k (s_trail s))"
  defines "a2 \<equiv> a\<lparr>an_solver := (an_solver a)\<lparr>s_seen := (s_seen (an_solver a))[var_index (lit_var p) := False]\<rparr>,
    an_path_count := an_path_count a - 1\<rparr>"
  shows "an_ok s k a2" "current_marks s a2 = current_marks s a - {p}"
    "resolvent s a = insert (lit_not p) (resolvent s a2)" "an_path_count a2 = card (current_marks s a2)"
    "an_learned a2 = an_learned a" "an_touched a2 = an_touched a"
proof -
  have t: "trail_ok s" "shape_ok s" using b by (simp_all add: base_ok_def)
  have fr: "frame_eq s (an_solver a)" using ao by (simp add: an_ok_def)
  let ?j = "var_index (lit_var p)"
  have pT: "p \<in> set (s_trail s)" "level_of s p = decision_level s" using p by (simp_all add: current_marks_def)
  have j: "?j < length (s_seen (an_solver a))"
    using pT t fr by (auto simp: trail_ok_def lit_ok_def shape_ok_def frame_eq_def)
  have sn: "s_seen (an_solver a2) ! n \<longleftrightarrow> s_seen (an_solver a) ! n \<and> n \<noteq> ?j" for n
    using j by (cases "n = ?j") (simp_all add: a2_def)
  show m: "current_marks s a2 = current_marks s a - {p}"
    unfolding current_marks_def sn using trail_unique [OF t(1) _ pT(1)] by (auto simp: var_index_eq_iff)
  show l: "an_learned a2 = an_learned a" "an_touched a2 = an_touched a" by (simp_all add: a2_def)
  show r: "resolvent s a = insert (lit_not p) (resolvent s a2)"
    unfolding resolvent_def m l using p by auto
  show c: "an_path_count a2 = card (current_marks s a2)"
    using ao p unfolding m by (simp add: a2_def an_ok_def)
  have tail: "var_index (lit_var x) \<noteq> ?j" if x: "x \<in> set (tl (an_learned a))" for x
  proof
    assume "var_index (lit_var x) = ?j"
    then have "level_of s x = level_of s p" by (simp add: level_of_def)
    with x ao pT(2) show False by (auto simp: an_ok_def)
  qed
  have "frame_eq s (an_solver a2)"
    using frame_eq_trans [OF fr frame_eq_seen [of "(s_seen (an_solver a))[?j := False]"]] by (simp add: a2_def)
  moreover have "n \<in> (\<lambda>l. var_index (lit_var l)) ` resolvent s a2"
    if n: "n < nvars s" "s_seen (an_solver a2) ! n" for n
  proof -
    have "s_seen (an_solver a) ! n" "n \<noteq> ?j" using n(2) sn by simp_all
    then obtain x where "x \<in> resolvent s a" "n = var_index (lit_var x)" using an_ok_seen [OF ao n(1)] by blast
    with \<open>n \<noteq> ?j\<close> r show ?thesis by auto
  qed
  ultimately show "an_ok s k a2"
    using ao rest tail c unfolding an_ok_def l m sn by auto
qed

lemma decision_reason:
  assumes b: "base_ok G s" and z: "0 < decision_level s" and k: "k < length (s_trail s)"
    and q: "q \<in> set (take k (s_trail s))"
    and lv: "level_of s q = decision_level s" "level_of s (s_trail s ! k) = decision_level s"
  obtains r where "reason_of s (s_trail s ! k) = Some r"
proof (cases "reason_of s (s_trail s ! k)")
  case None
  have t: "trail_ok s" "reasons_ok s" using b by (simp_all add: base_ok_def)
  have lev: "level_of s (s_trail s ! i) = length (filter (\<lambda>n. n \<le> i) (s_trail_limits s))"
    if "i < length (s_trail s)" for i
    using t(1) that by (simp add: trail_ok_def)
  have all: "\<forall>n \<in> set (s_trail_limits s). n \<le> i" if "i < length (s_trail s)" "level_of s (s_trail s ! i) = decision_level s" for i
  proof -
    have "length (filter (\<lambda>n. n \<le> i) (s_trail_limits s)) = length (s_trail_limits s)"
      using lev that by (simp add: decision_level_def)
    then show ?thesis by (metis filter_id_conv length_filter_less less_irrefl_nat)
  qed
  obtain m where m: "m < k" "s_trail s ! m = q" using q k by (auto simp: in_set_conv_nth)
  have "\<forall>n \<in> set (s_trail_limits s). n \<le> m" using all [of m] m k lv by simp
  then have "k \<notin> set (s_trail_limits s)" using m by auto
  moreover have "s_trail_limits s \<noteq> []" using z by (auto simp: decision_level_def)
  then have "\<not> (\<forall>n \<in> set (s_trail_limits s). k < n)" using all [OF k lv(2)] by (metis leD last_in_set)
  moreover have "k \<in> set (s_trail_limits s) \<or> (\<forall>n \<in> set (s_trail_limits s). k < n)"
    using t(2) k None unfolding reasons_ok_def by force
  ultimately show ?thesis by blast
qed (use that in blast)

lemma analyze_loop_ok:
  assumes b: "base_ok G s" and z: "0 < decision_level s"
  shows "loop_inv G s resolved c i a \<Longrightarrow>
    \<exists>a'. analyze_loop F (decision_level s) resolved c i a = Some a'
      \<and> learned_ok G s (an_learned a') \<and> marks_ok s (an_learned a') (an_touched a') (an_solver a')
      \<and> (\<forall>l \<in> set (tl (an_learned a')). s_seen (an_solver a') ! var_index (lit_var l))"
proof (induction i arbitrary: resolved c a rule: less_induct)
  case (less i)
  define a1 where "a1 = analyze_literals F resolved (decision_level s) (clause_literals (an_solver a) c)
    (a\<lparr>an_solver := bump_clause_usage c (an_solver a)\<rparr>)"
  note one = loop_literals [OF b less.prems z, of F, folded a1_def]
  have il: "i \<le> length (s_trail s)" using less.prems by (simp add: loop_inv_def)
  obtain k where k: "find_pivot (s_seen (an_solver a1)) (s_trail (an_solver a1)) i = Some k" "k < i"
    "s_trail s ! k \<in> current_marks s a1" "current_marks s a1 - {s_trail s ! k} \<subseteq> set (take k (s_trail s))"
    using loop_pivot [OF b one(1,3) il] .
  have fr: "frame_eq s (an_solver a1)" using one(1) by (simp add: an_ok_def)
  have T: "s_trail (an_solver a1) = s_trail s" "s_reasons (an_solver a1) = s_reasons s"
    using fr by (simp_all add: frame_eq_def)
  let ?p = "s_trail s ! k"
  define a2 where "a2 = a1\<lparr>an_solver := (an_solver a1)\<lparr>s_seen := (s_seen (an_solver a1))[var_index (lit_var ?p) := False]\<rparr>,
    an_path_count := an_path_count a1 - 1\<rparr>"
  note un = loop_unmark [OF b one(1) k(3) refl k(4), folded a2_def]
  have eq: "analyze_loop F (decision_level s) resolved c i a =
      (if an_path_count a2 = 0 then Some (a2\<lparr>an_learned := (an_learned a2)[0 := lit_not ?p]\<rparr>)
       else case reason_of s ?p of None \<Rightarrow> None
            | Some r \<Rightarrow> analyze_loop F (decision_level s) (Some (lit_var ?p)) r k a2)"
  proof -
    have "analyze_loop F (decision_level s) resolved c i a =
      (case find_pivot (s_seen (an_solver a1)) (s_trail (an_solver a1)) i of
         None \<Rightarrow> None
       | Some i \<Rightarrow>
           let pivot = s_trail (an_solver a1) ! i; v = lit_var pivot;
               a2 = a1\<lparr>an_solver := (an_solver a1)\<lparr>s_seen := (s_seen (an_solver a1))[var_index v := False]\<rparr>,
                       an_path_count := an_path_count a1 - 1\<rparr>
           in if an_path_count a2 = 0
              then Some (a2\<lparr>an_learned := (an_learned a2)[0 := lit_not pivot]\<rparr>)
              else (case s_reasons (an_solver a1) ! var_index v of
                      None \<Rightarrow> None
                    | Some r \<Rightarrow> analyze_loop F (decision_level s) (Some v) r i a2))"
      unfolding a1_def by (subst analyze_loop.simps) (simp only: Let_def)
    then show ?thesis by (simp only: k(1) [unfolded T] option.case Let_def T reason_of_def a2_def)
  qed
  have pT: "?p \<in> set (s_trail s)" "level_of s ?p = decision_level s" using k(3) by (simp_all add: current_marks_def)
  show ?case
  proof (cases "an_path_count a2 = 0")
    case True
    then have e: "current_marks s a2 = {}" using un(4) by simp
    then have m1: "current_marks s a1 = {?p}" using un(2) k(3) by blast
    have ne: "an_learned a2 \<noteq> []" using un(1) by (simp add: an_ok_def)
    define a' where "a' = a2\<lparr>an_learned := (an_learned a2)[0 := lit_not ?p]\<rparr>"
    have l': "an_learned a' = lit_not ?p # tl (an_learned a2)"
      using ne by (cases "an_learned a2") (simp_all add: a'_def)
    have r1: "resolvent s a1 = set (an_learned a')"
      unfolding un(3) l' by (simp add: resolvent_def e)
    have a2: "frame_eq s (an_solver a2)" "distinct (map lit_var (tl (an_learned a2)))"
      "\<And>l. l \<in> set (tl (an_learned a2)) \<Longrightarrow> lit_f s l \<and> 0 < level_of s l \<and> level_of s l < decision_level s
        \<and> s_seen (an_solver a2) ! var_index (lit_var l)"
      "\<And>j. j < nvars s \<Longrightarrow> s_seen (an_solver a2) ! j \<Longrightarrow> j \<in> (\<lambda>l. var_index (lit_var l)) ` resolvent s a2"
      "\<And>j. j < nvars s \<Longrightarrow> s_seen (an_solver a2) ! j \<Longrightarrow> j \<in> var_index ` set (an_touched a2)"
      "\<forall>v \<in> set (an_touched a2). var_index v < nvars s"
      using un(1) unfolding an_ok_def by blast+
    have "lit_var ?p \<noteq> lit_var l" if "l \<in> set (tl (an_learned a2))" for l
      using a2(3) [OF that] pT(2) by (auto simp: level_of_def)
    then have "learned_ok G s (an_learned a')"
      using one(2) a2(2,3) pT unfolding learned_ok_def entails_set_iff r1 [symmetric]
      by (auto simp: l' lit_f_def r1)
    moreover have "marks_ok s (an_learned a') (an_touched a') (an_solver a')"
      using a2(1,4-6) unfolding marks_ok_def l' resolvent_def e by (simp add: a'_def vars_of_def)
    moreover have "\<forall>l \<in> set (tl (an_learned a')). s_seen (an_solver a') ! var_index (lit_var l)"
      using a2(3) unfolding l' by (simp add: a'_def)
    ultimately show ?thesis unfolding eq using True a'_def by auto
  next
    case False
    then obtain q where q: "q \<in> current_marks s a2" using un(4) by fastforce
    have kl: "k < length (s_trail s)" using k(2) il by simp
    have "q \<in> set (take k (s_trail s))" "level_of s q = decision_level s"
      using q un(1) by (auto simp: an_ok_def current_marks_def)
    from decision_reason [OF b z kl this pT(2)] obtain r where r: "reason_of s ?p = Some r" .
    have ro: "reasons_ok s" "clauses_ok s" "meaning_ok G s" using b by (simp_all add: base_ok_def)
    note rd = reasons_okD [OF ro(1) kl r]
    have "distinct (map lit_var (clause_literals s r))" using clauses_okD(2) [OF ro(2) liveD [OF rd(1)]] .
    then have same: "l = ?p" if "l \<in> set (clause_literals s r)" "lit_var l = lit_var ?p" for l
      using that rd(2) by (auto simp: distinct_map inj_on_def)
    let ?R = "{l \<in> set (clause_literals s r). lit_var ?p \<noteq> lit_var l}"
    have "entails_set G (set (clause_literals s r))"
      using ro(3) liveD [OF rd(1)] by (simp add: meaning_ok_def flip: entails_set_iff)
    then have "entails_set G (insert ?p ?R)" by (rule entails_set_mono) (use same in auto)
    with one(2) have ent: "entails_set G (resolvent s a2 \<union> ?R)" unfolding un(3) by (rule entails_resolve)
    have "\<forall>l \<in> set (clause_literals s r). lit_var ?p \<noteq> lit_var l \<longrightarrow> lit_not l \<in> set (take k (s_trail s))"
      using rd(3) by auto
    then have "loop_inv G s (Some (lit_var ?p)) r k a2"
      using un(1) rd(1) kl ent q unfolding loop_inv_def by auto
    from less.IH [OF k(2) this] show ?thesis unfolding eq using False r by simp
  qed
qed

subsection \<open>Minimisation\<close>

text \<open>
  A false literal is justified by marks when it has a reason and every other literal of the
  reason is at level 0 or marked.
\<close>

definition justified :: "'f solver \<Rightarrow> bool list \<Rightarrow> lit \<Rightarrow> bool" where
  "justified s seen l \<longleftrightarrow> (\<exists>r. reason_of s l = Some r \<and> (\<forall>k \<in> set (clause_literals s r).
     lit_var k \<noteq> lit_var l \<longrightarrow> level_of s k = 0 \<or> lit_ok s k \<and> seen ! var_index (lit_var k)))"

text \<open>\<open>seen'\<close> has the marks of \<open>seen\<close> and those of the fresh literals \<open>new\<close>.\<close>

definition adds_marks :: "'f solver \<Rightarrow> lit list \<Rightarrow> bool list \<Rightarrow> bool list \<Rightarrow> bool" where
  "adds_marks s new seen seen' \<longleftrightarrow> length seen = nvars s \<and> length seen' = nvars s
     \<and> (\<forall>j < nvars s. seen' ! j \<longleftrightarrow> seen ! j \<or> j \<in> vars_of new)
     \<and> (\<forall>l \<in> set new. lit_f s l \<and> lit_ok s l \<and> \<not> seen ! var_index (lit_var l) \<and> reason_of s l \<noteq> None)
     \<and> distinct (map lit_var new)"

lemma adds_marks_refl: "length seen = nvars s \<Longrightarrow> adds_marks s [] seen seen"
  by (simp add: adds_marks_def vars_of_def)

lemma adds_marks_trans:
  assumes "adds_marks s xs a b" "adds_marks s ys b c" shows "adds_marks s (xs @ ys) a c"
proof -
  have "lit_var l \<noteq> lit_var k" if "l \<in> set xs" "k \<in> set ys" for l k
  proof
    assume e: "lit_var l = lit_var k"
    have "var_index (lit_var l) \<in> vars_of xs" using that(1) by (simp add: vars_of_def)
    then have "b ! var_index (lit_var l)" using assms(1) that(1) by (simp add: adds_marks_def lit_ok_def)
    then show False using assms(2) that(2) unfolding e by (simp add: adds_marks_def)
  qed
  then have "lit_var ` set xs \<inter> lit_var ` set ys = {}" by blast
  moreover have "\<not> a ! var_index (lit_var k)" if "k \<in> set ys" for k
    using assms that by (auto simp: adds_marks_def lit_ok_def)
  ultimately show ?thesis
    using assms unfolding adds_marks_def map_append distinct_append by (auto simp: vars_of_def)
qed

lemma adds_marks_one:
  assumes "length seen = nvars s" "lit_f s l" "lit_ok s l" "\<not> seen ! var_index (lit_var l)" "reason_of s l \<noteq> None"
  shows "adds_marks s [l] seen (seen[var_index (lit_var l) := True])"
  using assms by (auto simp: adds_marks_def vars_of_def nth_list_update lit_ok_def)

lemma adds_marks_sub: "adds_marks s new seen seen' \<Longrightarrow> j < nvars s \<Longrightarrow> seen ! j \<Longrightarrow> seen' ! j"
  by (simp add: adds_marks_def)

lemma adds_marks_justified: "adds_marks s new seen seen' \<Longrightarrow> justified s seen l \<Longrightarrow> justified s seen' l"
  unfolding justified_def lit_ok_def using adds_marks_sub by blast

lemma redundant_reason_ok:
  assumes "\<forall>k \<in> set ls. lit_ok s k \<and> (lit_var k \<noteq> v \<longrightarrow> lit_f s k)" "length seen = nvars s"
  shows "case redundant_reason s levels v ls (seen, touched, stack) of
      Inl (seen', touched') \<Rightarrow> \<exists>new. adds_marks s new seen seen' \<and> touched' = touched @ map lit_var new
    | Inr (seen', touched', stack') \<Rightarrow> \<exists>new. adds_marks s new seen seen' \<and> touched' = touched @ map lit_var new
        \<and> stack' = stack @ new
        \<and> (\<forall>k \<in> set ls. lit_var k \<noteq> v \<longrightarrow> level_of s k = 0 \<or> seen' ! var_index (lit_var k))"
  using assms
proof (induction ls arbitrary: seen touched stack)
  case Nil
  then show ?case using adds_marks_refl [of seen s] by auto
next
  case (Cons l ls)
  let ?j = "var_index (lit_var l)"
  have j: "?j < nvars s" using Cons.prems by (simp add: lit_ok_def)
  have lv: "s_levels s ! ?j = level_of s l" "s_reasons s ! ?j = reason_of s l"
    by (simp_all add: level_of_def reason_of_def)
  have rest: "\<forall>k \<in> set ls. lit_ok s k \<and> (lit_var k \<noteq> v \<longrightarrow> lit_f s k)" using Cons.prems by simp
  consider (skip) "lit_var l = v \<or> level_of s l = 0 \<or> seen ! ?j"
    | (push) "lit_var l \<noteq> v" "level_of s l \<noteq> 0" "\<not> seen ! ?j"
        "reason_of s l \<noteq> None" "levels AND abstract_level (level_of s l) \<noteq> 0"
    | (stop) "lit_var l \<noteq> v" "level_of s l \<noteq> 0" "\<not> seen ! ?j"
        "\<not> (reason_of s l \<noteq> None \<and> levels AND abstract_level (level_of s l) \<noteq> 0)"
    by blast
  then show ?case
  proof cases
    case skip
    have e: "redundant_reason s levels v (l # ls) (seen, touched, stack)
        = redundant_reason s levels v ls (seen, touched, stack)"
      using skip lv by (auto simp: Let_def)
    have "lit_var l \<noteq> v \<longrightarrow> level_of s l = 0 \<or> seen ! ?j" using skip by blast
    then show ?thesis
      unfolding e using Cons.IH [OF rest Cons.prems(2), of touched stack] j
      by (fastforce split: sum.splits dest: adds_marks_sub)
  next
    case push
    let ?seen = "seen[?j := True]"
    have e: "redundant_reason s levels v (l # ls) (seen, touched, stack)
        = redundant_reason s levels v ls (?seen, touched @ [lit_var l], stack @ [l])"
      using push lv by (simp add: Let_def)
    have one: "adds_marks s [l] seen ?seen"
      using push Cons.prems by (intro adds_marks_one) simp_all
    have sj: "?seen ! ?j" using j Cons.prems(2) by simp
    have len: "length ?seen = nvars s" using Cons.prems(2) by simp
    note ih = Cons.IH [OF rest len, of "touched @ [lit_var l]" "stack @ [l]"]
    show ?thesis
    proof (cases "redundant_reason s levels v ls (?seen, touched @ [lit_var l], stack @ [l])")
      case (Inl x)
      then obtain seen' touched' where x: "x = (seen', touched')" by (cases x)
      then obtain new where "adds_marks s new ?seen seen'" "touched' = (touched @ [lit_var l]) @ map lit_var new"
        using ih Inl by auto
      then have "adds_marks s (l # new) seen seen'" "touched' = touched @ map lit_var (l # new)"
        using adds_marks_trans [OF one] by simp_all
      then show ?thesis unfolding e Inl x by auto
    next
      case (Inr x)
      then obtain seen' touched' stack' where x: "x = (seen', touched', stack')" by (cases x)
      then obtain new where n: "adds_marks s new ?seen seen'" "touched' = (touched @ [lit_var l]) @ map lit_var new"
        "stack' = (stack @ [l]) @ new"
        "\<forall>k \<in> set ls. lit_var k \<noteq> v \<longrightarrow> level_of s k = 0 \<or> seen' ! var_index (lit_var k)"
        using ih Inr by auto
      then have "adds_marks s (l # new) seen seen'" "touched' = touched @ map lit_var (l # new)"
        "stack' = stack @ (l # new)" "seen' ! ?j"
        using adds_marks_trans [OF one] adds_marks_sub [OF n(1) j sj] by simp_all
      then show ?thesis unfolding e Inr x using n(4) by auto
    qed
  next
    case stop
    then have "redundant_reason s levels v (l # ls) (seen, touched, stack) = Inl (seen, touched)"
      using lv by (auto simp: Let_def)
    then show ?thesis using adds_marks_refl [OF Cons.prems(2)] by auto
  qed
qed

lemma unmark_nth: "j < length seen \<Longrightarrow> unmark vs seen ! j \<longleftrightarrow> seen ! j \<and> j \<notin> var_index ` set vs"
proof (induction vs arbitrary: seen)
  case (Cons v vs)
  have "unmark (v # vs) seen = unmark vs (seen[var_index v := False])" by (simp add: unmark_def)
  with Cons show ?case by (cases "var_index v = j") auto
qed (simp add: unmark_def)

lemma length_unmark [simp]: "length (unmark vs seen) = length seen"
  by (induction vs arbitrary: seen) (auto simp: unmark_def)

lemma unmark_adds:
  assumes "adds_marks s new seen seen'" shows "unmark (rev (map lit_var new)) seen' = seen"
proof (rule nth_equalityI)
  show "length (unmark (rev (map lit_var new)) seen') = length seen" using assms by (simp add: adds_marks_def)
  fix j assume "j < length (unmark (rev (map lit_var new)) seen')"
  then have "j < length seen'" "j < nvars s" using assms by (simp_all add: adds_marks_def)
  moreover have "var_index ` set (rev (map lit_var new)) = vars_of new" by (auto simp: vars_of_def)
  moreover have "\<not> seen ! j" if "j \<in> vars_of new"
    using assms that by (auto simp: adds_marks_def vars_of_def)
  ultimately show "unmark (rev (map lit_var new)) seen' ! j = seen ! j"
    using assms unmark_nth [of j seen' "rev (map lit_var new)"] by (auto simp: adds_marks_def)
qed

definition unmarked :: "bool list \<Rightarrow> nat" where
  "unmarked seen = length (filter Not seen)"

lemma adds_marks_unmarked:
  assumes "adds_marks s new seen seen'" shows "unmarked seen' + length new = unmarked seen"
proof -
  have "unmarked xs = card {j. j < length xs \<and> \<not> xs ! j}" for xs
    by (simp add: unmarked_def length_filter_conv_card)
  moreover have "{j. j < nvars s \<and> \<not> seen ! j} = {j. j < nvars s \<and> \<not> seen' ! j} \<union> vars_of new"
    using assms by (auto simp: adds_marks_def vars_of_def lit_ok_def)
  moreover have "{j. j < nvars s \<and> \<not> seen' ! j} \<inter> vars_of new = {}"
    using assms by (auto simp: adds_marks_def)
  moreover have "card (vars_of new) = length new"
  proof -
    have "inj_on var_index (set (map lit_var new))" by (rule inj_onI) (simp add: var_index_eq_iff)
    then have "distinct (map (\<lambda>l. var_index (lit_var l)) new)"
      using assms by (auto simp: adds_marks_def distinct_map inj_on_def)
    then show ?thesis by (metis distinct_card length_map list.set_map vars_of_def)
  qed
  moreover have "finite (vars_of new)" by (simp add: vars_of_def)
  ultimately show ?thesis using assms by (simp add: adds_marks_def card_Un_disjoint)
qed

text \<open>
  The depth-first search ends within its fuel. It either justifies the literal and everything it
  marked, or takes its marks back.
\<close>

lemma redundant_loop_ok:
  assumes b: "base_ok G s" and l0: "length t0 = n0"
  shows "adds_marks s new seen0 seen \<Longrightarrow> touched = t0 @ map lit_var new \<Longrightarrow>
    (\<forall>l \<in> set stack. lit_f s l \<and> lit_ok s l \<and> reason_of s l \<noteq> None) \<Longrightarrow>
    (\<forall>l \<in> P \<union> set new. l \<in> set stack \<or> justified s seen l) \<Longrightarrow>
    length stack + unmarked seen < fuel \<Longrightarrow>
    (\<exists>new' seen'. redundant_loop fuel s levels n0 (seen, touched, stack)
        = Some (True, seen', t0 @ map lit_var new')
      \<and> adds_marks s new' seen0 seen' \<and> (\<forall>l \<in> P \<union> set new'. justified s seen' l))
    \<or> redundant_loop fuel s levels n0 (seen, touched, stack) = Some (False, seen0, t0)"
proof (induction fuel arbitrary: seen touched stack new)
  case 0
  then show ?case by simp
next
  case (Suc fuel)
  show ?case
  proof (cases "stack = []")
    case True
    then show ?thesis using Suc.prems by auto
  next
    case ne: False
    let ?l = "last stack"
    have l: "lit_f s ?l" "lit_ok s ?l" "reason_of s ?l \<noteq> None" using Suc.prems(3) ne by simp_all
    then obtain r where r: "reason_of s ?l = Some r" by blast
    have t: "trail_ok s" "reasons_ok s" "clauses_ok s" using b by (simp_all add: base_ok_def)
    obtain i where i: "i < length (s_trail s)" "s_trail s ! i = lit_not ?l"
      using l(1) by (auto simp: lit_f_def in_set_conv_nth)
    then have "reason_of s (s_trail s ! i) = Some r" using r by simp
    note rd = reasons_okD [OF t(2) i(1) this, unfolded i(2)]
    note ck = clauses_okD [OF t(3) liveD [OF rd(1)]]
    have cl: "\<forall>k \<in> set (clause_literals s r). lit_ok s k \<and> (lit_var k \<noteq> lit_var ?l \<longrightarrow> lit_f s k)"
    proof (intro ballI conjI impI)
      fix k assume k: "k \<in> set (clause_literals s r)"
      show "lit_ok s k" using ck(3) [OF k] .
      assume "lit_var k \<noteq> lit_var ?l"
      then have "k \<noteq> lit_not ?l" by auto
      then have "lit_not k \<in> set (take i (s_trail s))" using rd(3) [OF k] by blast
      then show "lit_f s k" unfolding lit_f_def by (rule in_set_takeD)
    qed
    have len: "length seen = nvars s" using Suc.prems(1) by (simp add: adds_marks_def)
    note rr = redundant_reason_ok [where v = "lit_var ?l" and levels = levels and touched = touched
        and stack = "butlast stack", OF cl len]
    show ?thesis
    proof (cases "redundant_reason s levels (lit_var ?l) (clause_literals s r) (seen, touched, butlast stack)")
      case (Inl x)
      then obtain seen1 touched1 where x: "x = (seen1, touched1)" by (cases x)
      then obtain new1 where n1: "adds_marks s new1 seen seen1" "touched1 = touched @ map lit_var new1"
        using rr Inl by auto
      note n2 = adds_marks_trans [OF Suc.prems(1) n1(1)]
      have "redundant_loop (Suc fuel) s levels n0 (seen, touched, stack)
          = Some (False, unmark (rev (drop n0 touched1)) seen1, take n0 touched1)"
        using ne r Inl x by simp
      moreover have "drop n0 touched1 = map lit_var (new @ new1)" "take n0 touched1 = t0"
        using n1(2) Suc.prems(2) l0 by simp_all
      ultimately show ?thesis using unmark_adds [OF n2] by simp
    next
      case (Inr x)
      then obtain seen1 touched1 stack1 where x: "x = (seen1, touched1, stack1)" by (cases x)
      then obtain new1 where n1: "adds_marks s new1 seen seen1" "touched1 = touched @ map lit_var new1"
        "stack1 = butlast stack @ new1"
        "\<forall>k \<in> set (clause_literals s r). lit_var k \<noteq> lit_var ?l \<longrightarrow> level_of s k = 0 \<or> seen1 ! var_index (lit_var k)"
        using rr Inr by auto
      have jl: "justified s seen1 ?l" using r n1(4) cl unfolding justified_def by blast
      have m2: "adds_marks s (new @ new1) seen0 seen1" by (rule adds_marks_trans [OF Suc.prems(1) n1(1)])
      have t2: "touched1 = t0 @ map lit_var (new @ new1)" using n1(2) Suc.prems(2) by simp
      have st: "set stack = insert ?l (set (butlast stack))"
        using ne by (metis append_butlast_last_id list.simps(15) rotate1.simps(2) set_rotate1)
      have s2: "\<forall>k \<in> set stack1. lit_f s k \<and> lit_ok s k \<and> reason_of s k \<noteq> None"
        using Suc.prems(3) n1(1) st unfolding n1(3) by (auto simp: adds_marks_def)
      have p2: "\<forall>k \<in> P \<union> set (new @ new1). k \<in> set stack1 \<or> justified s seen1 k"
      proof
        fix k assume "k \<in> P \<union> set (new @ new1)"
        then consider "k \<in> set new1" | "k \<in> P \<union> set new" by auto
        then show "k \<in> set stack1 \<or> justified s seen1 k"
        proof cases
          case 2
          then have "k \<in> set stack \<or> justified s seen k" using Suc.prems(4) by blast
          then have "k = ?l \<or> k \<in> set (butlast stack) \<or> justified s seen1 k"
            using st adds_marks_justified [OF n1(1)] by blast
          then show ?thesis using jl n1(3) by auto
        qed (simp add: n1(3))
      qed
      have "length stack1 + unmarked seen1 < fuel"
        using Suc.prems(5) adds_marks_unmarked [OF n1(1)] ne unfolding n1(3) by (cases stack) simp_all
      from Suc.IH [OF m2 t2 s2 p2 this] show ?thesis
        using ne r Inr x by simp
    qed
  qed
qed

lemma literal_redundant_ok:
  assumes b: "base_ok G s" and len: "length seen = nvars s"
    and l: "lit_f s l" "lit_ok s l" "reason_of s l \<noteq> None"
  shows "(\<exists>new seen'. literal_redundant s levels l (seen, touched) = Some (True, seen', touched @ map lit_var new)
      \<and> adds_marks s new seen seen' \<and> (\<forall>k \<in> insert l (set new). justified s seen' k))
    \<or> literal_redundant s levels l (seen, touched) = Some (False, seen, touched)"
proof -
  have "unmarked seen \<le> length seen" by (simp add: unmarked_def)
  then have "length [l] + unmarked seen < length seen + 2" by simp
  from redundant_loop_ok [where P = "{l}" and touched = touched and levels = levels,
      OF b refl adds_marks_refl [OF len] _ _ _ this] l
  show ?thesis unfolding literal_redundant_def by simp
qed

text \<open>The marks during minimisation: \<open>ls\<close> are the literals of the clause that are kept or still to come.\<close>

definition tail_ok :: "'f solver \<Rightarrow> lit list \<Rightarrow> bool list \<Rightarrow> var list \<Rightarrow> bool" where
  "tail_ok s ls seen touched \<longleftrightarrow> length seen = nvars s
     \<and> (\<forall>l \<in> set ls. lit_f s l \<and> lit_ok s l)
     \<and> (\<forall>j < nvars s. seen ! j \<longrightarrow>
          (\<exists>l. lit_f s l \<and> var_index (lit_var l) = j \<and> (l \<in> set ls \<or> justified s seen l)))
     \<and> (\<forall>j < nvars s. seen ! j \<longrightarrow> j \<in> var_index ` set touched) \<and> (\<forall>v \<in> set touched. var_index v < nvars s)"

lemma tail_ok_remove:
  assumes t: "tail_ok s (ks @ l # ls) seen touched" and m: "adds_marks s new seen seen'"
    and j: "\<forall>k \<in> insert l (set new). justified s seen' k"
  shows "tail_ok s (ks @ ls) seen' (touched @ map lit_var new)"
proof -
  have "\<exists>k. lit_f s k \<and> var_index (lit_var k) = n \<and> (k \<in> set (ks @ ls) \<or> justified s seen' k)"
    if n: "n < nvars s" "seen' ! n" for n
  proof (cases "seen ! n")
    case True
    then obtain k where k: "lit_f s k" "var_index (lit_var k) = n" "k \<in> set (ks @ l # ls) \<or> justified s seen k"
      using t n(1) by (auto simp: tail_ok_def)
    then show ?thesis using j adds_marks_justified [OF m, of k] by auto
  next
    case False
    then obtain k where k: "k \<in> set new" "n = var_index (lit_var k)"
      using m n by (auto simp: adds_marks_def vars_of_def)
    then show ?thesis using m j by (auto simp: adds_marks_def)
  qed
  moreover have "n \<in> var_index ` set (touched @ map lit_var new)" if "n < nvars s" "seen' ! n" for n
    using m t that by (auto simp: adds_marks_def tail_ok_def vars_of_def)
  moreover have "\<forall>v \<in> set (touched @ map lit_var new). var_index v < nvars s"
    using m t by (auto simp: adds_marks_def tail_ok_def lit_ok_def)
  ultimately show ?thesis
    using t m unfolding tail_ok_def by (auto simp: adds_marks_def)
qed

lemma minimize_tail_ok:
  assumes b: "base_ok G s"
  shows "tail_ok s (ks @ ls) seen touched \<Longrightarrow>
    \<exists>us seen' touched'. minimize_tail s levels (u # ks) ls (seen, touched) = Some (u # ks @ us, seen', touched')
      \<and> tail_ok s (ks @ us) seen' touched' \<and> set us \<subseteq> set ls
      \<and> (distinct (map lit_var (ks @ ls)) \<longrightarrow> distinct (map lit_var (ks @ us)))
      \<and> (\<forall>j < nvars s. seen ! j \<longrightarrow> seen' ! j)"
proof (induction ls arbitrary: ks seen touched)
  case Nil
  then show ?case by auto
next
  case (Cons l ls)
  have l: "lit_f s l" "lit_ok s l" "length seen = nvars s" using Cons.prems by (simp_all add: tail_ok_def)
  have keep: ?case if e: "minimize_tail s levels (u # ks) (l # ls) (seen, touched)
      = minimize_tail s levels (u # (ks @ [l])) ls (seen, touched)"
  proof -
    have "tail_ok s ((ks @ [l]) @ ls) seen touched" using Cons.prems by simp
    from Cons.IH [OF this] obtain us seen' touched' where
      us: "minimize_tail s levels (u # (ks @ [l])) ls (seen, touched) = Some (u # (ks @ [l]) @ us, seen', touched')"
      "tail_ok s ((ks @ [l]) @ us) seen' touched'" "set us \<subseteq> set ls"
      "distinct (map lit_var ((ks @ [l]) @ ls)) \<longrightarrow> distinct (map lit_var ((ks @ [l]) @ us))"
      "\<forall>j < nvars s. seen ! j \<longrightarrow> seen' ! j" by blast
    then show ?thesis unfolding e by (intro exI [of _ "l # us"]) auto
  qed
  show ?case
  proof (cases "reason_of s l = None")
    case True
    then show ?thesis by (intro keep) simp
  next
    case r: False
    from literal_redundant_ok [where levels = levels and touched = touched, OF b l(3) l(1,2) r] show ?thesis
    proof (elim disjE exE conjE)
      fix new seen'
      assume e: "literal_redundant s levels l (seen, touched) = Some (True, seen', touched @ map lit_var new)"
        and m: "adds_marks s new seen seen'" and j: "\<forall>k \<in> insert l (set new). justified s seen' k"
      have e2: "minimize_tail s levels (u # ks) (l # ls) (seen, touched)
          = minimize_tail s levels (u # ks) ls (seen', touched @ map lit_var new)"
        using r e by simp
      from Cons.IH [OF tail_ok_remove [OF Cons.prems m j]] obtain us seen2 touched2 where
        us: "minimize_tail s levels (u # ks) ls (seen', touched @ map lit_var new) = Some (u # ks @ us, seen2, touched2)"
        "tail_ok s (ks @ us) seen2 touched2" "set us \<subseteq> set ls"
        "distinct (map lit_var (ks @ ls)) \<longrightarrow> distinct (map lit_var (ks @ us))"
        "\<forall>j < nvars s. seen' ! j \<longrightarrow> seen2 ! j" by blast
      moreover have "\<forall>j < nvars s. seen ! j \<longrightarrow> seen2 ! j" using us(5) adds_marks_sub [OF m] by blast
      ultimately show ?thesis unfolding e2 by (intro exI [of _ us]) auto
    next
      assume "literal_redundant s levels l (seen, touched) = Some (False, seen, touched)"
      then show ?thesis using r by (intro keep) simp
    qed
  qed
qed

text \<open>Justified marks follow from the kept literals, by the order of the trail.\<close>

lemma marks_follow:
  assumes b: "base_ok G s" and t: "tail_ok s ls seen touched"
    and m: "models \<sigma> G" and f: "\<forall>l \<in> set ls. \<not> lit_true \<sigma> l"
  shows "i < length (s_trail s) \<Longrightarrow> seen ! var_index (lit_var (s_trail s ! i)) \<Longrightarrow> lit_true \<sigma> (s_trail s ! i)"
proof (induction i rule: less_induct)
  case (less i)
  let ?t = "s_trail s ! i"
  have ts: "trail_ok s" "reasons_ok s" "clauses_ok s" "meaning_ok G s" using b by (simp_all add: base_ok_def)
  have tT: "?t \<in> set (s_trail s)" using less.prems by simp
  have "var_index (lit_var ?t) < nvars s" using ts(1) tT by (simp add: trail_ok_def lit_ok_def)
  then obtain l where l: "lit_f s l" "var_index (lit_var l) = var_index (lit_var ?t)"
    "l \<in> set ls \<or> justified s seen l"
    using t less.prems(2) unfolding tail_ok_def by blast
  have "lit_not l = ?t"
    using trail_unique [OF ts(1) _ tT, of "lit_not l"] l(1,2) by (simp add: lit_f_def var_index_eq_iff)
  then have lt: "l = lit_not ?t" by (metis lit_not_not)
  show ?case
  proof (cases "l \<in> set ls")
    case True
    then show ?thesis using f lt by auto
  next
    case False
    then obtain r where r: "reason_of s ?t = Some r" "\<And>k. k \<in> set (clause_literals s r) \<Longrightarrow> lit_var k \<noteq> lit_var ?t
        \<Longrightarrow> level_of s k = 0 \<or> seen ! var_index (lit_var k)"
      using l(3) lt unfolding justified_def by auto
    note rd = reasons_okD [OF ts(2) less.prems(1) r(1)]
    have "entails G (clause_literals s r)" using ts(4) liveD [OF rd(1)] by (simp add: meaning_ok_def)
    then obtain k where k: "k \<in> set (clause_literals s r)" "lit_true \<sigma> k"
      using m by (auto simp: entails_def clause_true_def)
    have "k = ?t"
    proof (rule ccontr)
      assume ne: "k \<noteq> ?t"
      have "distinct (map lit_var (clause_literals s r))" using clauses_okD(2) [OF ts(3) liveD [OF rd(1)]] .
      then have vne: "lit_var k \<noteq> lit_var ?t" using ne k(1) rd(2) by (auto simp: distinct_map inj_on_def)
      have "lit_not k \<in> set (take i (s_trail s))" using rd(3) [OF k(1) ne] .
      then obtain n where n: "n < i" "n < length (s_trail s)" "s_trail s ! n = lit_not k"
        by (auto simp: in_set_conv_nth)
      have kf: "lit_f s k" using n by (metis lit_f_def nth_mem)
      from r(2) [OF k(1) vne] show False
      proof
        assume "level_of s k = 0"
        then have "entails G [lit_not k]" using root_false [OF b kf] by blast
        then show False using m k(2) by (simp add: entails_def clause_true_def)
      next
        assume "seen ! var_index (lit_var k)"
        then have "lit_true \<sigma> (s_trail s ! n)" using less.IH [OF n(1,2)] n(3) by simp
        then show False using n(3) k(2) by simp
      qed
    qed
    with k(2) show ?thesis by simp
  qed
qed

lemma minimized_entailed:
  assumes b: "base_ok G s" and t: "tail_ok s us seen touched" and e: "entails G (u # ls)"
    and ls: "\<forall>l \<in> set ls. lit_f s l \<and> seen ! var_index (lit_var l)"
  shows "entails G (u # us)"
  unfolding entails_def clause_true_def
proof (intro allI impI, rule ccontr)
  fix \<sigma> assume m: "models \<sigma> G" and no: "\<not> (\<exists>l \<in> set (u # us). lit_true \<sigma> l)"
  obtain l where l: "l \<in> set (u # ls)" "lit_true \<sigma> l" using e m by (auto simp: entails_def clause_true_def)
  then have "l \<in> set ls" using no by auto
  then have lf: "lit_not l \<in> set (s_trail s)" "seen ! var_index (lit_var l)" using ls by (simp_all add: lit_f_def)
  then obtain i where "i < length (s_trail s)" "s_trail s ! i = lit_not l" by (auto simp: in_set_conv_nth)
  then have "lit_true \<sigma> (lit_not l)" using marks_follow [OF b t m, of i] no lf(2) by simp
  with l(2) show False by simp
qed

subsection \<open>The whole analysis\<close>

lemma highest_level_index_ok:
  assumes "2 \<le> length xs"
  shows "1 \<le> highest_level_index s xs" "highest_level_index s xs < length xs"
    "\<And>i. 1 \<le> i \<Longrightarrow> i < length xs \<Longrightarrow> level_of s (xs ! i) \<le> level_of s (xs ! highest_level_index s xs)"
proof -
  let ?f = "\<lambda>i h. if level_of s (xs ! i) > level_of s (xs ! h) then i else h"
  have step: "1 \<le> fold ?f [2..<n] 1 \<and> fold ?f [2..<n] 1 < n
      \<and> (\<forall>i. 1 \<le> i \<longrightarrow> i < n \<longrightarrow> level_of s (xs ! i) \<le> level_of s (xs ! fold ?f [2..<n] 1))"
    if "2 \<le> n" for n
    using that
  proof (induction n rule: dec_induct)
    case base
    have "i = 1" if "1 \<le> i" "i < 2" for i :: nat using that by simp
    then have "i = Suc 0" if "Suc 0 \<le> i" "i < 2" for i :: nat using that by simp
    then show ?case by (auto simp del: One_nat_def dest: \<open>\<And>i. 1 \<le> i \<Longrightarrow> i < 2 \<Longrightarrow> i = 1\<close>)
  next
    case (step n)
    have e: "[2..<Suc n] = [2..<n] @ [n]" using step.hyps(1) by simp
    let ?h = "fold ?f [2..<n] 1"
    have h: "fold ?f [2..<Suc n] 1 = ?f n ?h" unfolding e by simp
    show ?case
    proof (intro conjI allI impI)
      show "1 \<le> fold ?f [2..<Suc n] 1" "fold ?f [2..<Suc n] 1 < Suc n"
        using step unfolding h by (auto split: if_splits)
      fix i assume i: "1 \<le> i" "i < Suc n"
      have "level_of s (xs ! ?h) \<le> level_of s (xs ! ?f n ?h)" "level_of s (xs ! n) \<le> level_of s (xs ! ?f n ?h)"
        by auto
      moreover have "i < n \<Longrightarrow> level_of s (xs ! i) \<le> level_of s (xs ! ?h)" using step.IH i(1) by blast
      ultimately show "level_of s (xs ! i) \<le> level_of s (xs ! fold ?f [2..<Suc n] 1)"
        unfolding h using i(2) less_Suc_eq [of i n] by (cases "i = n") (auto intro: order_trans)
    qed
  qed
  note st = step [OF assms, folded highest_level_index_def]
  show "1 \<le> highest_level_index s xs" by (rule conjunct1 [OF st])
  show "highest_level_index s xs < length xs" by (rule conjunct1 [OF conjunct2 [OF st]])
  show "\<And>i. 1 \<le> i \<Longrightarrow> i < length xs \<Longrightarrow> level_of s (xs ! i) \<le> level_of s (xs ! highest_level_index s xs)"
    using conjunct2 [OF conjunct2 [OF st]] by blast
qed

lemma learned_ok_swap:
  assumes l: "learned_ok G s learned" and h: "1 \<le> h" "h < length learned"
  shows "learned_ok G s (list_swap learned 1 h)" "set (tl (list_swap learned 1 h)) = set (tl learned)"
proof -
  obtain u ls where e: "learned = u # ls" using l by (cases learned) (auto simp: learned_ok_def)
  have sw: "list_swap learned 1 h = u # list_swap ls 0 (h - 1)"
    using h by (cases h) (simp_all add: e list_swap_def)
  have len: "0 < length ls" "h - 1 < length ls" using h e by auto
  have m: "mset (list_swap ls 0 (h - 1)) = mset ls" using len by (intro mset_list_swap)
  then have s: "set (list_swap ls 0 (h - 1)) = set ls" by (rule mset_eq_setD)
  then show "set (tl (list_swap learned 1 h)) = set (tl learned)" unfolding sw by (simp add: e)
  have "mset (map lit_var (list_swap ls 0 (h - 1))) = mset (map lit_var ls)" using m by simp
  then have "distinct (map lit_var (list_swap ls 0 (h - 1))) = distinct (map lit_var ls)"
    by (rule mset_eq_imp_distinct_iff)
  moreover have "entails G (u # list_swap ls 0 (h - 1)) = entails G learned"
    by (rule entails_set_eq) (simp only: e s list.set)
  ultimately show "learned_ok G s (list_swap learned 1 h)"
    using l s unfolding sw unfolding e learned_ok_def by simp
qed

definition analysis_ok ::
  "lit list set \<Rightarrow> 'f solver \<Rightarrow> lit list \<times> nat \<times> nat \<times> 'f solver \<Rightarrow> bool" where
  "analysis_ok G s = (\<lambda>(learned, jump, lbd, s'). frame_eq s s' \<and> seen_clear s' \<and> learned_ok G s learned
     \<and> (if length learned = 1 then jump = 0
        else jump = level_of s (learned ! 1) \<and> (\<forall>l \<in> set (tl learned). level_of s l \<le> jump)))"

lemma analyze_minimized:
  assumes b: "base_ok G s" and l: "learned_ok G s (an_learned a)"
    and m: "marks_ok s (an_learned a) (an_touched a) (an_solver a)"
    and sn: "\<forall>l \<in> set (tl (an_learned a)). s_seen (an_solver a) ! var_index (lit_var l)"
  shows "\<exists>learned touched s1. minimize_learned_clause (an_solver a) (an_learned a) (an_touched a)
      = Some (learned, touched, s1) \<and> learned_ok G s learned \<and> frame_eq s s1
      \<and> (\<forall>j < nvars s. s_seen s1 ! j \<longrightarrow> j \<in> var_index ` set touched)"
proof -
  let ?s = "an_solver a"
  obtain u ls where e: "an_learned a = u # ls" using l by (cases "an_learned a") (auto simp: learned_ok_def)
  have fr: "frame_eq s ?s" using m by (simp add: marks_ok_def)
  have b1: "base_ok G ?s" using b frame_eq_inv [OF fr] by simp
  note fe = frame_eq_simps [OF fr]
  have sh: "shape_ok ?s" "trail_ok s" using b1 b by (simp_all add: base_ok_def)
  have lf: "\<forall>l \<in> set ls. lit_f s l \<and> lit_ok s l"
  proof
    fix l assume l': "l \<in> set ls"
    then have "lit_f s l" using l e by (simp add: learned_ok_def)
    moreover from this have "lit_ok s (lit_not l)" using sh(2) by (auto simp: lit_f_def trail_ok_def)
    ultimately show "lit_f s l \<and> lit_ok s l" by simp
  qed
  have "tail_ok ?s ([] @ ls) (s_seen ?s) (an_touched a)"
    using sh(1) lf m e unfolding tail_ok_def fe marks_ok_def by (fastforce simp: shape_ok_def fe vars_of_def)
  from minimize_tail_ok [OF b1 this, of "fold (\<lambda>l acc. acc OR abstract_level (level_of ?s l)) (tl (an_learned a)) 0" u]
  obtain us seen touched where us:
    "minimize_tail ?s (fold (\<lambda>l acc. acc OR abstract_level (level_of ?s l)) (tl (an_learned a)) 0) [u] ls
       (s_seen ?s, an_touched a) = Some (u # us, seen, touched)"
    "tail_ok ?s us seen touched" "set us \<subseteq> set ls"
    "distinct (map lit_var ls) \<longrightarrow> distinct (map lit_var us)"
    "\<forall>j < nvars ?s. s_seen ?s ! j \<longrightarrow> seen ! j"
    by auto
  have "minimize_learned_clause ?s (an_learned a) (an_touched a) = Some (u # us, touched, ?s\<lparr>s_seen := seen\<rparr>)"
    using us(1) by (simp add: minimize_learned_clause_def e)
  moreover have "entails G (u # us)"
  proof (rule minimized_entailed [OF b1 us(2), of u ls])
    show "entails G (u # ls)" using l e by (simp add: learned_ok_def)
    show "\<forall>l \<in> set ls. lit_f ?s l \<and> seen ! var_index (lit_var l)"
      using lf sn us(5) e unfolding fe by (simp add: lit_ok_def)
  qed
  then have "learned_ok G s (u # us)"
    using l us(3,4) unfolding e learned_ok_def by auto
  moreover have "length seen = length (s_seen ?s)" using us(2) sh(1) by (simp add: tail_ok_def shape_ok_def)
  then have "frame_eq s (?s\<lparr>s_seen := seen\<rparr>)" using frame_eq_trans [OF fr frame_eq_seen] by blast
  moreover have "\<forall>j < nvars s. seen ! j \<longrightarrow> j \<in> var_index ` set touched"
    using us(2) by (simp add: tail_ok_def fe)
  ultimately show ?thesis by auto
qed

lemma analyze_finish:
  assumes b: "base_ok G s" and l: "learned_ok G s learned" and f: "frame_eq s s1"
    and sn: "\<forall>j < nvars s. s_seen s1 ! j \<longrightarrow> j \<in> var_index ` set touched"
  shows "\<exists>r. (let (lbd, s2) = literal_block_distance learned s1;
                   s3 = s2\<lparr>s_seen := unmark touched (s_seen s2)\<rparr>
               in if length learned = 1 then Some (learned, 0, lbd, s3)
                  else
                    let learned' = list_swap learned 1 (highest_level_index s3 learned)
                    in Some (learned', level_of s3 (learned' ! 1), lbd, s3)) = Some r \<and> analysis_ok G s r"
proof -
  obtain lbd s2 where d: "literal_block_distance learned s1 = (lbd, s2)" by (cases "literal_block_distance learned s1")
  have f2: "frame_eq s s2" using frame_eq_trans [OF f frame_lbd [of s1 learned]] d by simp
  have sn2: "s_seen s2 = s_seen s1"
    using d by (auto simp: literal_block_distance_def next_level_mark_def Let_def split: prod.splits)
  let ?s3 = "s2\<lparr>s_seen := unmark touched (s_seen s2)\<rparr>"
  have f3: "frame_eq s ?s3" by (rule frame_eq_trans [OF f2 frame_eq_seen]) simp
  note fe = frame_eq_simps [OF f3]
  have len: "length (s_seen s2) = nvars s" using f2 b by (simp add: frame_eq_def base_ok_def shape_ok_def)
  have clear: "seen_clear ?s3"
    unfolding seen_clear_def fe using sn len by (auto simp: unmark_nth sn2)
  show ?thesis
  proof (cases "length learned = 1")
    case True
    then show ?thesis using d f3 clear l by (simp add: analysis_ok_def)
  next
    case False
    have ne: "learned \<noteq> []" using l by (simp add: learned_ok_def)
    then have two: "2 \<le> length learned" using False by (cases learned; cases "tl learned") auto
    let ?h = "highest_level_index ?s3 learned"
    note h = highest_level_index_ok [where s = ?s3, OF two]
    let ?l = "list_swap learned 1 ?h"
    note sw = learned_ok_swap [OF l h(1,2)]
    have l1: "?l ! 1 = learned ! ?h" using h two by (simp add: nth_list_swap)
    have "level_of s x \<le> level_of s (?l ! 1)" if xm: "x \<in> set (tl learned)" for x
    proof -
      obtain i where i: "i < length (tl learned)" "tl learned ! i = x"
        using xm unfolding in_set_conv_nth by blast
      then have "x = learned ! Suc i" "Suc i < length learned" using ne by (simp_all add: nth_tl)
      then show ?thesis using h(3) [of "Suc i"] unfolding l1 fe by simp
    qed
    then have "analysis_ok G s (?l, level_of ?s3 (?l ! 1), lbd, ?s3)"
      using f3 clear sw False unfolding analysis_ok_def by (simp add: fe)
    then show ?thesis using d False by (simp add: Let_def)
  qed
qed

lemma analyze_ok:
  assumes b: "base_ok G s" and c: "conflict_at c s" and z: "0 < decision_level s" and sc: "seen_clear s"
  shows "\<exists>r. analyze F c s = Some r \<and> analysis_ok G s r"
proof -
  let ?a0 = "\<lparr>an_solver = s, an_learned = [lit_positive (Var 0)], an_touched = [], an_path_count = 0\<rparr>"
  obtain f where f: "falsified f c s" "level_of s f = decision_level s" using c by (auto simp: conflict_at_def)
  have t: "trail_ok s" "meaning_ok G s" using b by (simp_all add: base_ok_def)
  have m0: "current_marks s ?a0 = {}"
    using sc t(1) by (auto simp: current_marks_def seen_clear_def trail_ok_def lit_ok_def)
  then have r0: "resolvent s ?a0 = {}" by (simp add: resolvent_def)
  have "an_ok s (length (s_trail s)) ?a0"
    using sc unfolding an_ok_def m0 r0 by (simp add: seen_clear_def)
  moreover have "entails_set G (set (clause_literals s c))"
  proof -
    have "live s c" using f(1) by (simp add: falsified_def)
    then show ?thesis using t(2) liveD by (auto simp: meaning_ok_def simp flip: entails_set_iff)
  qed
  ultimately have "loop_inv G s None c (length (s_trail s)) ?a0"
    using f r0 by (auto simp: loop_inv_def falsified_def lit_f_def dest: in_set_takeD)
  from analyze_loop_ok [OF b z this, of F] obtain a where
    a: "analyze_loop F (decision_level s) None c (length (s_trail s)) ?a0 = Some a"
    "learned_ok G s (an_learned a)" "marks_ok s (an_learned a) (an_touched a) (an_solver a)"
    "\<forall>l \<in> set (tl (an_learned a)). s_seen (an_solver a) ! var_index (lit_var l)"
    by blast
  have "\<exists>learned touched s1.
      (if minimize_learned_clauses (s_config (an_solver a)) \<and> length (an_learned a) > 1
       then minimize_learned_clause (an_solver a) (an_learned a) (an_touched a)
       else Some (an_learned a, an_touched a, an_solver a)) = Some (learned, touched, s1)
      \<and> learned_ok G s learned \<and> frame_eq s s1 \<and> (\<forall>j < nvars s. s_seen s1 ! j \<longrightarrow> j \<in> var_index ` set touched)"
    using analyze_minimized [OF b a(2-4)] a(2,3) by (auto simp: marks_ok_def)
  then obtain learned touched s1 where o:
    "(if minimize_learned_clauses (s_config (an_solver a)) \<and> length (an_learned a) > 1
       then minimize_learned_clause (an_solver a) (an_learned a) (an_touched a)
       else Some (an_learned a, an_touched a, an_solver a)) = Some (learned, touched, s1)"
    "learned_ok G s learned" "frame_eq s s1" "\<forall>j < nvars s. s_seen s1 ! j \<longrightarrow> j \<in> var_index ` set touched"
    by blast
  show ?thesis
    using analyze_finish [OF b o(2-4)] unfolding analyze_def a(1) option.case o(1) prod.case .
qed

end
