(* ===== verification/Solver_Learn.thy ===== *)
theory Solver_Learn
  imports Solver_Analyze
begin

section \<open>Adding, learning and deleting clauses\<close>

text \<open>
  A new clause is attached to the watch lists of its first two literals; a learned clause
  becomes the reason of its asserting literal after backtracking; the database reduction marks
  learned clauses as deleted that are not the reason of an assignment. Each keeps the
  invariant, so the conflict branch of the search does.
\<close>

subsection \<open>Attaching a clause\<close>

text \<open>The invariant without the coverage of the added clauses.\<close>

definition data_ok :: "lit list set \<Rightarrow> 'f solver \<Rightarrow> bool" where
  "data_ok G s \<longleftrightarrow> db_ok G s \<and> watches_ok s \<and> watch_sem (s_head s) s"

lemma inv_split: "inv G s \<longleftrightarrow> data_ok G s \<and> coverage_ok G s"
  by (auto simp: inv_def data_ok_def base_ok_split)

lemma binary_flag_bits: "BINARY_LEARNED AND BINARY_DELETED = 0" "BINARY_LEARNED AND BINARY_LEARNED \<noteq> 0"
  by (simp_all add: BINARY_LEARNED_def BINARY_DELETED_def)

lemma allocate_fields:
  assumes sh: "shape_ok s" and ar: "arena_ok s" and two: "2 \<le> length lits"
    and e: "allocate_clause F lits lbd learned s = (c, s1)"
  shows "\<not> valid s c" "valid s1 d \<longleftrightarrow> valid s d \<or> d = c"
    "valid s d \<Longrightarrow> clause_literals s1 d = clause_literals s d" "clause_literals s1 c = lits"
    "valid s d \<Longrightarrow> clause_deleted s1 d = clause_deleted s d" "\<not> clause_deleted s1 c"
    "valid s d \<Longrightarrow> clause_learned s1 d = clause_learned s d" "clause_learned s1 c = learned"
    "arena_ok s1" "shape_ok s1"
    "\<exists>cl ar bs fl bi ba us. s1 = s\<lparr>s_clauses := cl, s_arena := ar, s_binaries := bs, s_binary_flags := fl,
       s_binary_activity_index := bi, s_binary_activity := ba, s_usage_scores := us\<rparr>"
proof -
  have l2: "lits = [lits ! 0, lits ! 1]" if "length lits = 2"
    using that by (auto simp: length_Suc_conv numeral_2_eq_2)
  have sh': "length (s_binary_flags s) = length (s_binaries s)" using sh by (simp add: shape_ok_def)
  have fit: "cl_start (s_clauses s ! i) + cl_length (s_clauses s ! i) \<le> length (s_arena s)"
    if "i < length (s_clauses s)" for i using ar that by (simp add: arena_ok_def)
  have sl: "slice (s_arena s @ lits) st n = slice (s_arena s) st n" if "st + n \<le> length (s_arena s)" for st n
    using that by (simp add: slice_def)
  have all: "\<not> valid s c \<and> (valid s1 d \<longleftrightarrow> valid s d \<or> d = c)
    \<and> (valid s d \<longrightarrow> clause_literals s1 d = clause_literals s d) \<and> clause_literals s1 c = lits
    \<and> (valid s d \<longrightarrow> clause_deleted s1 d = clause_deleted s d) \<and> \<not> clause_deleted s1 c
    \<and> (valid s d \<longrightarrow> clause_learned s1 d = clause_learned s d) \<and> clause_learned s1 c = learned
    \<and> arena_ok s1 \<and> shape_ok s1
    \<and> (\<exists>cl ar bs fl bi ba us. s1 = s\<lparr>s_clauses := cl, s_arena := ar, s_binaries := bs, s_binary_flags := fl,
       s_binary_activity_index := bi, s_binary_activity := ba, s_usage_scores := us\<rparr>)" for d
  proof (cases "length lits = 2")
    case True
    define s' where "s' = s\<lparr>s_clauses := s_clauses s, s_arena := s_arena s,
        s_binaries := s_binaries s @ [(lits ! 0, lits ! 1)],
        s_binary_flags := s_binary_flags s @ [if learned then BINARY_LEARNED else 0],
        s_binary_activity_index := s_binary_activity_index s @
          [if learned then length (s_binary_activity s) else NO_BINARY_ACTIVITY],
        s_binary_activity := (if learned then s_binary_activity s @ [fl_zero F] else s_binary_activity s),
        s_usage_scores := s_usage_scores s\<rparr>"
    have s1: "s1 = s'" "c = Binary (length (s_binaries s))"
      using e True by (auto simp: allocate_clause_def s'_def)
    have "arena_ok s'" using ar by (simp add: arena_ok_def s'_def)
    moreover have "shape_ok s'" using sh by (simp add: shape_ok_def s'_def nvars_def)
    moreover have "valid s' d \<longleftrightarrow> valid s d \<or> d = Binary (length (s_binaries s))"
      by (cases d) (auto simp: s'_def)
    moreover have "valid s d \<longrightarrow> clause_literals s' d = clause_literals s d
        \<and> clause_deleted s' d = clause_deleted s d \<and> clause_learned s' d = clause_learned s d"
      using sh' by (cases d) (auto simp: s'_def nth_append)
    moreover have "clause_literals s' (Binary (length (s_binaries s))) = lits"
      using l2 [OF True] by (simp add: s'_def)
    moreover have "\<not> clause_deleted s' (Binary (length (s_binaries s)))"
      "clause_learned s' (Binary (length (s_binaries s))) = learned"
      using sh' binary_flag_bits by (simp_all add: s'_def nth_append)
    moreover have "\<exists>cl ar bs fl bi ba us. s' = s\<lparr>s_clauses := cl, s_arena := ar, s_binaries := bs,
        s_binary_flags := fl, s_binary_activity_index := bi, s_binary_activity := ba, s_usage_scores := us\<rparr>"
      unfolding s'_def by (intro exI, rule refl)
    moreover have "\<not> valid s c" by (simp add: s1)
    ultimately show ?thesis unfolding s1 by blast
  next
    case False
    define s' where "s' = s\<lparr>s_clauses := s_clauses s @ [if learned then clause_learnt F (length (s_arena s)) (length lits) lbd
            else clause_original F (length (s_arena s)) (length lits)],
        s_arena := s_arena s @ lits, s_binaries := s_binaries s, s_binary_flags := s_binary_flags s,
        s_binary_activity_index := s_binary_activity_index s, s_binary_activity := s_binary_activity s,
        s_usage_scores := s_usage_scores s @ [if learned then 1 else 0]\<rparr>"
    have s1: "s1 = s'" "c = Long (length (s_clauses s))"
      using e False by (auto simp: allocate_clause_def s'_def Let_def)
    let ?new = "if learned then clause_learnt F (length (s_arena s)) (length lits) lbd
            else clause_original F (length (s_arena s)) (length lits)"
    have nw: "cl_start ?new = length (s_arena s)" "cl_length ?new = length lits" "\<not> cl_deleted ?new"
      "cl_learned ?new = learned"
      by (simp_all add: clause_learnt_def clause_original_def)
    have "arena_ok s'"
      using ar fit nw unfolding arena_ok_def by (auto simp: s'_def nth_append less_Suc_eq trans_le_add1)
    moreover have "shape_ok s'" using sh by (simp add: shape_ok_def s'_def nvars_def)
    moreover have "valid s' d \<longleftrightarrow> valid s d \<or> d = Long (length (s_clauses s))"
      by (cases d) (auto simp: s'_def)
    moreover have "valid s d \<longrightarrow> clause_literals s' d = clause_literals s d
        \<and> clause_deleted s' d = clause_deleted s d \<and> clause_learned s' d = clause_learned s d"
      using fit sl by (cases d) (auto simp: s'_def nth_append)
    moreover have "clause_literals s' (Long (length (s_clauses s))) = lits"
      using nw by (simp add: s'_def slice_def)
    moreover have "\<not> clause_deleted s' (Long (length (s_clauses s)))"
      "clause_learned s' (Long (length (s_clauses s))) = learned"
      using nw by (simp_all add: s'_def)
    moreover have "\<exists>cl ar bs fl bi ba us. s' = s\<lparr>s_clauses := cl, s_arena := ar, s_binaries := bs,
        s_binary_flags := fl, s_binary_activity_index := bi, s_binary_activity := ba, s_usage_scores := us\<rparr>"
      unfolding s'_def by (intro exI, rule refl)
    moreover have "\<not> valid s c" by (simp add: s1)
    ultimately show ?thesis unfolding s1 by blast
  qed
  from all [of d] show "\<not> valid s c" "valid s1 d \<longleftrightarrow> valid s d \<or> d = c"
    "valid s d \<Longrightarrow> clause_literals s1 d = clause_literals s d" "clause_literals s1 c = lits"
    "valid s d \<Longrightarrow> clause_deleted s1 d = clause_deleted s d" "\<not> clause_deleted s1 c"
    "valid s d \<Longrightarrow> clause_learned s1 d = clause_learned s d" "clause_learned s1 c = learned"
    "arena_ok s1" "shape_ok s1"
    "\<exists>cl ar bs fl bi ba us. s1 = s\<lparr>s_clauses := cl, s_arena := ar, s_binaries := bs, s_binary_flags := fl,
       s_binary_activity_index := bi, s_binary_activity := ba, s_usage_scores := us\<rparr>"
    by blast+
qed

text \<open>What a new clause \<open>c\<close> with literals \<open>lits\<close> changes.\<close>

definition attached :: "cref \<Rightarrow> lit list \<Rightarrow> bool \<Rightarrow> 'f solver \<Rightarrow> 'f solver \<Rightarrow> bool" where
  "attached c lits learned s s' \<longleftrightarrow>
     \<not> valid s c \<and> (\<forall>d. valid s' d \<longleftrightarrow> valid s d \<or> d = c)
     \<and> (\<forall>d. valid s d \<longrightarrow> clause_literals s' d = clause_literals s d \<and> clause_deleted s' d = clause_deleted s d
          \<and> clause_learned s' d = clause_learned s d)
     \<and> clause_literals s' c = lits \<and> \<not> clause_deleted s' c \<and> clause_learned s' c = learned
     \<and> arena_ok s' \<and> shape_ok s'
     \<and> (\<forall>l. lit_ok s l \<longrightarrow> watches_of s' l = watches_of s l
          @ (if l = lits ! 0 then [Watch c (lits ! 1)] else if l = lits ! 1 then [Watch c (lits ! 0)] else []))
     \<and> (\<exists>cl ar bs fl bi ba us ws. s' = s\<lparr>s_clauses := cl, s_arena := ar, s_binaries := bs, s_binary_flags := fl,
       s_binary_activity_index := bi, s_binary_activity := ba, s_usage_scores := us, s_watches := ws\<rparr>)"

lemma attach_clause_attached:
  assumes sh: "shape_ok s" and ar: "arena_ok s" and two: "2 \<le> length lits"
    and ok: "\<forall>l \<in> set lits. lit_ok s l" and ne: "lits ! 0 \<noteq> lits ! 1"
    and e: "allocate_clause F lits lbd learned s = (c, s1)"
  shows "attached c lits learned s (attach_clause c s1)"
proof -
  note a = allocate_fields [OF sh ar two e]
  obtain cl ar bs fl bi ba us where s1: "s1 = s\<lparr>s_clauses := cl, s_arena := ar, s_binaries := bs, s_binary_flags := fl,
       s_binary_activity_index := bi, s_binary_activity := ba, s_usage_scores := us\<rparr>"
    using a(11) by blast
  have v1: "lit_ok s1 = lit_ok s" "watches_of s1 = watches_of s" "s_watches s1 = s_watches s"
    by (auto simp: s1 lit_ok_def nvars_def watches_of_def fun_eq_iff)
  let ?f = "lits ! 0" and ?g = "lits ! 1"
  have "0 < length lits" "1 < length lits" using two by linarith+
  then have okf: "lit_ok s ?f" "lit_ok s ?g" using ok by simp_all
  let ?s2 = "push_watch ?f (Watch c ?g) s1"
  let ?s' = "push_watch ?g (Watch c ?f) ?s2"
  have e': "attach_clause c s1 = ?s'" by (simp add: attach_clause_def Let_def a(4))
  have p2: "?s2 = s1\<lparr>s_watches := s_watches ?s2\<rparr>" "length (s_watches ?s2) = length (s_watches s1)"
    by (simp_all add: push_watch_def)
  have p3: "?s' = s1\<lparr>s_watches := s_watches ?s'\<rparr>" "length (s_watches ?s') = length (s_watches s1)"
    by (simp_all add: push_watch_def)
  have sh2: "shape_ok ?s2" "lit_ok ?s2 = lit_ok s1"
    using a(10) p2 by (simp_all add: shape_ok_def push_watch_def)
  have w: "watches_of ?s' l = watches_of s l
          @ (if l = ?f then [Watch c ?g] else if l = ?g then [Watch c ?f] else [])" if "lit_ok s l" for l
    using push_watch_of [OF sh2(1), of ?g l] push_watch_of [OF a(10), of ?f l] sh2(2) okf that ne
    by (cases "l = ?f"; cases "l = ?g") (auto simp: v1 simp del: One_nat_def)
  have sv: "shape_ok ?s'" using a(10) p3(2) by (subst p3(1)) (simp add: shape_ok_def)
  have av: "arena_ok ?s'" using a(9) by (subst p3(1)) (simp add: arena_ok_def)
  have views: "valid ?s' = valid s1" "clause_literals ?s' = clause_literals s1"
    "clause_deleted ?s' = clause_deleted s1" "clause_learned ?s' = clause_learned s1"
    by (subst p3(1), simp)+
  have "\<exists>cl ar bs fl bi ba us ws. ?s' = s\<lparr>s_clauses := cl, s_arena := ar, s_binaries := bs, s_binary_flags := fl,
       s_binary_activity_index := bi, s_binary_activity := ba, s_usage_scores := us, s_watches := ws\<rparr>"
  proof -
    have "?s' = s\<lparr>s_clauses := cl, s_arena := ar, s_binaries := bs, s_binary_flags := fl,
       s_binary_activity_index := bi, s_binary_activity := ba, s_usage_scores := us, s_watches := s_watches ?s'\<rparr>"
      by (subst p3(1)) (simp add: s1)
    then show ?thesis by blast
  qed
  then show ?thesis
    unfolding attached_def e' views using a(1-8) w sv av by simp
qed

lemma attached_fields:
  assumes "attached c lits learned s s'"
  shows "s_trail s' = s_trail s" "s_trail_limits s' = s_trail_limits s" "s_head s' = s_head s"
    "nvars s' = nvars s" "lit_ok s' = lit_ok s" "lit_t s' = lit_t s" "lit_f s' = lit_f s"
    "literal_value s' = literal_value s" "level_of s' = level_of s" "reason_of s' = reason_of s"
    "decision_level s' = decision_level s" "root_literals s' = root_literals s"
    "s_order s' = s_order s" "s_assignments s' = s_assignments s" "s_consistent s' = s_consistent s"
    "s_proof s' = s_proof s" "s_scope_selectors s' = s_scope_selectors s" "s_seen s' = s_seen s"
    "s_reasons s' = s_reasons s" "s_stats s' = s_stats s" "s_config s' = s_config s"
proof -
  obtain cl ar bs fl bi ba us ws where s': "s' = s\<lparr>s_clauses := cl, s_arena := ar, s_binaries := bs, s_binary_flags := fl,
       s_binary_activity_index := bi, s_binary_activity := ba, s_usage_scores := us, s_watches := ws\<rparr>"
    using assms unfolding attached_def by blast
  show "s_trail s' = s_trail s" "s_trail_limits s' = s_trail_limits s" "s_head s' = s_head s"
    "nvars s' = nvars s" "lit_ok s' = lit_ok s" "lit_t s' = lit_t s" "lit_f s' = lit_f s"
    "literal_value s' = literal_value s" "level_of s' = level_of s" "reason_of s' = reason_of s"
    "decision_level s' = decision_level s" "root_literals s' = root_literals s"
    "s_order s' = s_order s" "s_assignments s' = s_assignments s" "s_consistent s' = s_consistent s"
    "s_proof s' = s_proof s" "s_scope_selectors s' = s_scope_selectors s" "s_seen s' = s_seen s"
    "s_reasons s' = s_reasons s" "s_stats s' = s_stats s" "s_config s' = s_config s"
    by (auto simp: s' nvars_def lit_ok_def lit_t_def lit_f_def literal_value_def level_of_def
        reason_of_def decision_level_def root_literals_def fun_eq_iff)
qed

lemma attached_live:
  assumes "attached c lits learned s s'"
  shows "live s' d \<longleftrightarrow> live s d \<or> d = c" "live s d \<Longrightarrow> clause_literals s' d = clause_literals s d"
  using assms by (auto simp: attached_def live_def)

lemma attached_ok:
  assumes a: "attached c lits learned s s'" and b: "db_ok G s" and w: "watches_ok s"
    and lits: "2 \<le> length lits" "distinct (map lit_var lits)" "\<forall>l \<in> set lits. lit_ok s l" "entails G lits"
  shows "db_ok G s'" "watches_ok s'" "coverage_ok H s \<Longrightarrow> coverage_ok H s'"
    "live s d \<Longrightarrow> watch_done k s d \<Longrightarrow> watch_done k s' d"
proof -
  note f = attached_fields [OF a] and lv = attached_live [OF a]
  have parts: "shape_ok s" "queue_inv s" "arena_ok s" "clauses_ok s" "trail_ok s" "reasons_ok s"
    "meaning_ok G s" "selectors_ok s"
    using b by (simp_all add: db_ok_def)
  have v: "valid s' d \<longleftrightarrow> valid s d \<or> d = c" "clause_literals s' c = lits"
    "valid s d \<Longrightarrow> clause_literals s' d = clause_literals s d"
    "valid s d \<Longrightarrow> clause_deleted s' d = clause_deleted s d" "\<not> clause_deleted s' c" "\<not> valid s c"
    "valid s d \<Longrightarrow> clause_learned s' d = clause_learned s d" for d
    using a by (auto simp: attached_def)
  have "shape_ok s'" "arena_ok s'" using a by (simp_all add: attached_def)
  moreover have "queue_inv s'" using parts(2) unfolding queue_inv_def f .
  moreover have "clauses_ok s'"
    using parts(4) lits(1-3) v(2,3) unfolding clauses_ok_def v(1) f by auto
  moreover have "trail_ok s'" using parts(5) unfolding trail_ok_def f .
  moreover have "reasons_ok s'"
    unfolding reasons_ok_def f
  proof (intro allI impI)
    fix i assume i: "i < length (s_trail s)"
    show "case reason_of s (s_trail s ! i) of
          None \<Rightarrow> i \<in> set (s_trail_limits s) \<or> (\<forall>n \<in> set (s_trail_limits s). i < n)
        | Some c \<Rightarrow> live s' c \<and> s_trail s ! i \<in> set (clause_literals s' c)
            \<and> (\<forall>l \<in> set (clause_literals s' c). l \<noteq> s_trail s ! i \<longrightarrow> lit_not l \<in> set (take i (s_trail s)))"
    proof (cases "reason_of s (s_trail s ! i)")
      case None
      then show ?thesis using parts(6) i unfolding reasons_ok_def by force
    next
      case (Some q)
      note rd = reasons_okD [OF parts(6) i Some]
      show ?thesis using rd lv(1) unfolding Some option.case lv(2) [OF rd(1)] by blast
    qed
  qed
  moreover have "meaning_ok G s'" using parts(7) lits(4) v unfolding meaning_ok_def f by auto
  moreover have "selectors_ok s'" using parts(8) unfolding selectors_ok_def f .
  ultimately show "db_ok G s'" by (simp add: db_ok_def)
  have cov: "covered s d \<Longrightarrow> covered s' d" for d
  proof -
    assume "covered s d"
    then consider "\<exists>l \<in> set d. lit_not l \<in> set d" | "\<exists>l \<in> set d. l \<in> root_literals s"
      | c' where "live s c'" "\<not> clause_learned s c'" "set (clause_literals s c') = set d"
      unfolding covered_def by blast
    then show "covered s' d"
    proof cases
      case 3
      then have "live s' c'" "\<not> clause_learned s' c'" "set (clause_literals s' c') = set d"
        using lv v(7) [OF liveD [OF 3(1)]] by auto
      then show ?thesis unfolding covered_def by blast
    qed (unfold covered_def f; blast)+
  qed
  then show "coverage_ok H s \<Longrightarrow> coverage_ok H s'" unfolding coverage_ok_def f by blast
  show "live s d \<Longrightarrow> watch_done k s d \<Longrightarrow> watch_done k s' d"
    unfolding watch_done_defs f by (simp add: lv(2))
  have len: "0 < length lits" "1 < length lits" using lits(1) by linarith+
  have dl: "distinct lits" using lits(2) by (simp add: distinct_map)
  then have ne: "lits ! 0 \<noteq> lits ! 1" using nth_eq_iff_index_eq [OF dl len] by simp
  have t2: "set (take 2 lits) = {lits ! 0, lits ! 1}" using take_two [OF lits(1)] by simp
  have bin: "set lits = {lits ! 0, lits ! 1}" if "cref_is_binary c"
  proof -
    have "length (clause_literals s' c) = 2" using that by (cases c) simp_all
    then have "take 2 lits = lits" using v(2) by simp
    then show ?thesis using t2 by simp
  qed
  show "watches_ok s'"
    unfolding watches_ok_list f
  proof (intro allI impI)
    fix l assume l: "lit_ok s l"
    have fit: "list_fits s l (watches_of s l)" using w l by (simp add: watches_ok_list)
    have wo: "watches_of s' l = watches_of s l
          @ (if l = lits ! 0 then [Watch c (lits ! 1)] else if l = lits ! 1 then [Watch c (lits ! 0)] else [])"
      using a l by (simp add: attached_def)
    have old: "watch_ok s' l u" if "u \<in> set (watches_of s l)" for u
    proof -
      have "watch_ok s l u" using fit that by (simp add: list_fits_def)
      then show ?thesis using v(1,3,4) by (auto simp: watch_ok_def)
    qed
    have new: "watch_ok s' (lits ! 0) (Watch c (lits ! 1))" "watch_ok s' (lits ! 1) (Watch c (lits ! 0))"
      using v(1,2) len bin ne by (auto simp: watch_ok_def)
    have nc: "occurrences c (watches_of s l) = 0"
    proof -
      have "w_clause u \<noteq> c" if "u \<in> set (watches_of s l)" for u
        using fit that v(6) by (auto simp: list_fits_def watch_ok_def)
      then show ?thesis unfolding occurrences_0 by blast
    qed
    show "list_fits s' l (watches_of s' l)"
      unfolding list_fits_def
    proof (intro conjI allI impI)
      show "\<forall>u \<in> set (watches_of s' l). watch_ok s' l u" unfolding wo using old new by auto
      fix d assume d: "live s' d"
      show "occurrences d (watches_of s' l) = (if l \<in> set (take 2 (clause_literals s' d)) then 1 else 0)"
      proof (cases "d = c")
        case True
        then show ?thesis using nc ne unfolding True v(2) t2 wo by auto
      next
        case False
        then have ds: "live s d" using d lv(1) by blast
        show ?thesis using fits_occurrences [OF fit ds] False unfolding lv(2) [OF ds] wo by auto
      qed
    qed
  qed
qed

lemma false_lit_ok: "trail_ok s \<Longrightarrow> lit_f s l \<Longrightarrow> lit_ok s l"
  using lit_ok_not [of s l] by (force simp: trail_ok_def lit_f_def)

lemma true_lit_ok: "trail_ok s \<Longrightarrow> lit_t s l \<Longrightarrow> lit_ok s l"
  by (simp add: trail_ok_def lit_t_def)

subsection \<open>After backtracking\<close>

lemma cancel_inv:
  assumes b: "base_ok G s" and w: "watches_ok s" and j: "watch_sem j s" and k: "k < decision_level s"
    and l: "s_trail_limits s ! k \<le> j"
  shows "inv G (cancel_until k s)"
  using cancel_base_ok [OF b] cancel_watches_ok [OF b w] cancel_watch_sem [OF b j k l]
  by (simp add: inv_def)

lemma inv_cancel:
  assumes "inv G s" shows "inv G (cancel_until k s)"
proof (cases "k < decision_level s")
  case True
  have "s_trail_limits s ! k \<in> set (s_trail_limits s)" using True by (simp add: decision_level_def)
  then have "s_trail_limits s ! k \<le> s_head s" using assms by (simp add: inv_def base_ok_def trail_ok_def)
  with True assms cancel_inv show ?thesis by (auto simp: inv_def)
qed (use assms in \<open>simp add: cancel_noop\<close>)

lemma decision_level_cancel: "decision_level (cancel_until k s) = min k (decision_level s)"
  by (simp add: cancel_until_def decision_level_def Let_def)

text \<open>The literals that survive are those of the levels up to the target.\<close>

lemma cancel_keeps:
  assumes b: "base_ok G s" and k: "k < decision_level s" and l: "l \<in> set (s_trail s)"
  shows "l \<in> set (take (s_trail_limits s ! k) (s_trail s)) \<longleftrightarrow> level_of s l \<le> k"
proof -
  have t: "trail_ok s" using b by (simp add: base_ok_def)
  have srt: "sorted (s_trail_limits s)" using t by (simp add: trail_ok_def)
  have kl: "k < length (s_trail_limits s)" using k by (simp add: decision_level_def)
  obtain i where i: "i < length (s_trail s)" "s_trail s ! i = l"
    "level_of s l = length (filter (\<lambda>n. n \<le> i) (s_trail_limits s))"
    using level_cases [OF t l] by blast
  let ?m = "s_trail_limits s ! k"
  have lt: "i < ?m \<longleftrightarrow> level_of s l \<le> k"
  proof
    assume "i < ?m"
    then have "length (filter (\<lambda>n. n \<le> i) (take k (s_trail_limits s))) = level_of s l"
      using sorted_filter_take [OF srt kl] i(3) by simp
    then show "level_of s l \<le> k" by (metis length_filter_le length_take min.cobounded2 order_trans)
  next
    assume "level_of s l \<le> k"
    then show "i < ?m" using sorted_filter_bound [OF srt kl, of i] i(3) by (cases "i < ?m") simp_all
  qed
  show ?thesis
  proof
    assume "l \<in> set (take ?m (s_trail s))"
    then obtain j where j: "j < ?m" "j < length (s_trail s)" "s_trail s ! j = l" by (auto simp: in_set_conv_nth)
    have "distinct (s_trail s)" using t by (simp add: trail_ok_def distinct_map)
    then have "j = i" using j i nth_eq_iff_index_eq by metis
    then show "level_of s l \<le> k" using lt j(1) by simp
  next
    assume "level_of s l \<le> k"
    then show "l \<in> set (take ?m (s_trail s))" using lt i by (auto simp: in_set_conv_nth)
  qed
qed

lemma cancel_false:
  assumes b: "base_ok G s" and k: "k < decision_level s" and l: "lit_f s l"
  shows "level_of s l \<le> k \<Longrightarrow> lit_f (cancel_until k s) l"
    "k < level_of s l \<Longrightarrow> literal_value (cancel_until k s) l = 0"
proof -
  note f = cancel_fields [OF b k]
  have lT: "lit_not l \<in> set (s_trail s)" using l by (simp add: lit_f_def)
  note keep = cancel_keeps [OF b k lT]
  show "level_of s l \<le> k \<Longrightarrow> lit_f (cancel_until k s) l" using keep by (simp add: lit_f_def f(1))
  assume "k < level_of s l"
  then have "lit_not l \<notin> set (take (s_trail_limits s ! k) (s_trail s))" using keep by simp
  then have "lit_not l \<in> set (drop (s_trail_limits s ! k) (s_trail s))"
    using lT by (metis Un_iff append_take_drop_id set_append)
  then have "var_index (lit_var (lit_not l)) \<in> vars_of (drop (s_trail_limits s ! k) (s_trail s))"
    unfolding vars_of_def by (rule imageI)
  moreover have "lit_ok s l" using b lT lit_ok_not [of s l] by (auto simp: base_ok_def trail_ok_def)
  ultimately show "literal_value (cancel_until k s) l = 0" using f(14) by simp
qed

subsection \<open>The learned clause\<close>

lemma frame_active: "frame_eq s (s\<lparr>s_active_learned := n\<rparr>)"
  by (simp add: frame_eq_def same_db_def)

lemma data_enqueue:
  assumes i: "data_ok G s" and l: "lit_ok s l" "literal_value s l = 0" and fits: "reason_fits s l r"
    and root: "decision_level s = 0 \<longrightarrow> entails G [l]"
  shows "data_ok G (enqueued p l r s)" "coverage_ok H s \<Longrightarrow> coverage_ok H (enqueued p l r s)"
proof -
  have b: "db_ok G s" "watches_ok s" "watch_sem (s_head s) s" "shape_ok s" "trail_ok s"
    using i by (simp_all add: data_ok_def db_ok_def)
  have h: "s_head s \<le> length (s_trail s)" using b(5) by (simp add: trail_ok_def)
  show "data_ok G (enqueued p l r s)"
    using enqueued_db_ok [OF b(1) l fits root] enqueued_watches_ok [OF b(2,4) l]
      enqueued_watch_sem [OF b(3,5,4) l h] enqueued_fields(3) [OF l(2) b(4) l(1)]
    by (simp add: data_ok_def)
  show "coverage_ok H s \<Longrightarrow> coverage_ok H (enqueued p l r s)" by (rule enqueued_coverage [OF b(5,4) l])
qed

lemma inv_enqueue:
  assumes i: "inv G s" and l: "lit_ok s l" "literal_value s l = 0" and fits: "reason_fits s l r"
    and root: "decision_level s = 0 \<longrightarrow> entails G [l]"
  shows "inv G (enqueued p l r s)"
  using i data_enqueue [OF _ l fits root] by (simp add: inv_split)

text \<open>
  A new clause keeps the invariant of the others; its own part holds when its first literal is
  not false and its second one is not false at level 0.
\<close>

lemma attached_others:
  assumes a: "attached c lits learned s s'" and i: "data_ok G s" and e: "entails G lits"
    and lits: "2 \<le> length lits" "distinct (map lit_var lits)" "\<forall>l \<in> set lits. lit_ok s l"
  shows "db_ok G s'" "coverage_ok H s \<Longrightarrow> coverage_ok H s'" "watches_ok s'"
    "live s' d \<Longrightarrow> d \<noteq> c \<Longrightarrow> watch_done (s_head s) s' d"
proof -
  have b: "db_ok G s" "watches_ok s" "watch_sem (s_head s) s"
    using i by (simp_all add: data_ok_def)
  note k = attached_ok [OF a b(1,2) lits e]
  show "db_ok G s'" "coverage_ok H s \<Longrightarrow> coverage_ok H s'" "watches_ok s'" using k by simp_all
  show "watch_done (s_head s) s' d" if "live s' d" "d \<noteq> c"
  proof -
    have "live s d" using that attached_live(1) [OF a] by blast
    then show ?thesis using k(4) b(3) by (simp add: watch_sem_def)
  qed
qed

lemma data_attached:
  assumes a: "attached c lits learned s s'" and i: "data_ok G s" and e: "entails G lits"
    and lits: "2 \<le> length lits" "distinct (map lit_var lits)" "\<forall>l \<in> set lits. lit_ok s l"
    and nf: "\<not> lit_f s (lits ! 0)" "lit_f s (lits ! 1) \<Longrightarrow> 0 < level_of s (lits ! 1)"
  shows "data_ok G s'"
proof -
  note k = attached_others [OF a i e lits] and f = attached_fields [OF a]
  have "watch_done (s_head s) s' c"
  proof -
    have c: "clause_literals s' c = lits" using a by (simp add: attached_def)
    have t2: "set (take 2 lits) = {lits ! 0, lits ! 1}" using take_two [OF lits(1)] by simp
    have "lit_not (lits ! 0) \<notin> set (take n (s_trail s))" for n
      using nf(1) by (auto simp: lit_f_def dest: in_set_takeD)
    moreover have "lit_not (lits ! 1) \<in> set (take n (s_trail s)) \<Longrightarrow> level_of s (lits ! 1) \<noteq> 0" for n
      using nf(2) by (auto simp: lit_f_def dest: in_set_takeD)
    ultimately show ?thesis unfolding watch_done_defs c f t2 by blast
  qed
  then have "watch_done (s_head s) s' d" if "live s' d" for d using k(4) that by (cases "d = c") simp_all
  then show ?thesis using k(1,3) unfolding data_ok_def watch_sem_def f(3) by blast
qed

lemma inv_attached:
  assumes a: "attached c lits learned s s'" and i: "inv G s" and e: "entails G lits"
    and lits: "2 \<le> length lits" "distinct (map lit_var lits)" "\<forall>l \<in> set lits. lit_ok s l"
    and nf: "\<not> lit_f s (lits ! 0)" "lit_f s (lits ! 1) \<Longrightarrow> 0 < level_of s (lits ! 1)"
  shows "inv G s'"
  using i data_attached [OF a _ e lits nf] attached_others(2) [OF a _ e lits] by (auto simp: inv_split)

lemma add_learned_ok:
  assumes i: "inv G s" and e: "entails G learned" "learned \<noteq> []" "distinct (map lit_var learned)"
    and h: "lit_ok s (learned ! 0)" "literal_value s (learned ! 0) = 0"
    and t: "\<forall>l \<in> set (tl learned). lit_f s l \<and> 0 < level_of s l" and z: "length learned = 1 \<longleftrightarrow> decision_level s = 0"
  shows "inv G (add_learned F learned lbd s)" "s_seen (add_learned F learned lbd s) = s_seen s"
    "decision_level (add_learned F learned lbd s) = decision_level s"
proof -
  have b: "shape_ok s" "arena_ok s" "trail_ok s" "watches_ok s" using i by (simp_all add: inv_def base_ok_def)
  obtain u ls where ul: "learned = u # ls" using e(2) by (cases learned) auto
  have "inv G (add_learned F learned lbd s) \<and> s_seen (add_learned F learned lbd s) = s_seen s
    \<and> decision_level (add_learned F learned lbd s) = decision_level s"
  proof (cases "length learned = 1")
    case True
    then have z0: "decision_level s = 0" "learned = [u]" using z ul by simp_all
    have "reason_fits s u None" using z0 by (simp add: reason_fits_def decision_level_def)
    then have "inv G (enqueued True u None s)"
      using inv_enqueue [OF i, of u None] h e(1) z0 by simp
    moreover note enqueued_fields [OF h(2) b(1) h(1), of True None]
    ultimately show ?thesis
      using True h(2) ul by (simp add: add_learned_def enqueue_fresh)
  next
    case False
    have two: "2 \<le> length learned" using False ul by (cases ls) auto
    have okl: "\<forall>l \<in> set learned. lit_ok s l"
    proof
      fix l assume l: "l \<in> set learned"
      show "lit_ok s l"
      proof (cases "l = u")
        case nl: False
        then have "lit_f s l" using t l ul by simp
        then show ?thesis by (rule false_lit_ok [OF b(3)])
      qed (use h ul in simp)
    qed
    have d: "distinct learned" using e(3) by (simp add: distinct_map)
    have ne: "learned ! 0 \<noteq> learned ! 1" using d two ul by (cases ls) auto
    obtain c s1 where al: "allocate_clause F learned lbd True s = (c, s1)"
      by (cases "allocate_clause F learned lbd True s")
    let ?s2 = "attach_clause c s1"
    have at: "attached c learned True s ?s2"
      by (rule attach_clause_attached [OF b(1,2) two okl ne al])
    note f = attached_fields [OF at]
    have nf: "\<not> lit_f s (learned ! 0)" using literal_value_iff(3) [OF b(3) h(1)] h(2) by simp
    have "learned ! 1 \<in> set (tl learned)" using two ul by (cases ls) auto
    then have lv: "0 < level_of s (learned ! 1)" using t by blast
    have i2: "inv G ?s2" by (rule inv_attached [OF at i e(1) two e(3) okl nf lv])
    let ?s3 = "?s2\<lparr>s_active_learned := s_active_learned ?s2 + 1\<rparr>"
    have fr: "frame_eq ?s2 ?s3" by (rule frame_active)
    note fe = frame_eq_simps [OF fr]
    have i3: "inv G ?s3" using i2 frame_inv [OF fr] by simp
    have c: "live ?s3 c" "clause_literals ?s3 c = learned"
      using attached_live(1) [OF at, of c] at unfolding fe attached_def by blast+
    have fits: "reason_fits ?s3 (learned ! 0) (Some c)"
      using c t ul unfolding reason_fits_def fe by (auto simp: f)
    have h3: "lit_ok ?s3 (learned ! 0)" "literal_value ?s3 (learned ! 0) = 0"
      unfolding fe f using h by simp_all
    have "decision_level ?s3 \<noteq> 0" using z False unfolding fe f by simp
    then have "inv G (enqueued True (learned ! 0) (Some c) ?s3)"
      using inv_enqueue [OF i3 h3 fits] by simp
    moreover have "shape_ok ?s3" using i3 by (simp add: inv_def base_ok_def)
    note ef = enqueued_fields [OF h3(2) this h3(1), of True "Some c"]
    moreover have "s_seen ?s3 = s_seen s" by (simp add: f)
    moreover have "decision_level ?s3 = decision_level s" unfolding fe f ..
    ultimately show ?thesis
      using False al by (simp add: add_learned_def Let_def enqueue_fresh [OF h3(2)] del: One_nat_def)
  qed
  then show "inv G (add_learned F learned lbd s)" "s_seen (add_learned F learned lbd s) = s_seen s"
    "decision_level (add_learned F learned lbd s) = decision_level s" by simp_all
qed

subsection \<open>Reduction of the database\<close>

text \<open>A clause that no variable has as its reason.\<close>

definition unlocked :: "'f solver \<Rightarrow> nat \<Rightarrow> bool" where
  "unlocked s i \<longleftrightarrow> i < length (s_clauses s) \<and> cl_learned (s_clauses s ! i)
     \<and> (\<forall>v < nvars s. s_reasons s ! v \<noteq> Some (Long i))"

lemma mark_deleted_fields:
  fixes s :: "'f solver" and i :: nat
  defines "s' \<equiv> mark_clause_deleted (Long i) s"
  assumes "i < length (s_clauses s)"
  shows "s_trail s' = s_trail s" "s_trail_limits s' = s_trail_limits s" "s_head s' = s_head s"
    "nvars s' = nvars s" "lit_ok s' = lit_ok s" "lit_t s' = lit_t s" "lit_f s' = lit_f s"
    "literal_value s' = literal_value s" "level_of s' = level_of s" "reason_of s' = reason_of s"
    "decision_level s' = decision_level s" "root_literals s' = root_literals s"
    "s_order s' = s_order s" "s_assignments s' = s_assignments s" "s_consistent s' = s_consistent s"
    "s_scope_selectors s' = s_scope_selectors s" "s_seen s' = s_seen s" "s_reasons s' = s_reasons s"
    "watches_of s' = watches_of s" "valid s' = valid s" "clause_literals s' = clause_literals s"
    "clause_learned s' = clause_learned s" "clause_deleted s' d \<longleftrightarrow> clause_deleted s d \<or> d = Long i"
    "live s' d \<longleftrightarrow> live s d \<and> d \<noteq> Long i" "s_stats s' = s_stats s" "s_config s' = s_config s"
proof -
  have s': "s' = s\<lparr>s_proof := s_proof s @ [DeleteStep (clause_literals s (Long i))],
      s_clauses := (s_clauses s)[i := (s_clauses s ! i)\<lparr>cl_deleted := True\<rparr>]\<rparr>"
    by (simp add: s'_def mark_clause_deleted_def Let_def)
  show "s_trail s' = s_trail s" "s_trail_limits s' = s_trail_limits s" "s_head s' = s_head s"
    "nvars s' = nvars s" "lit_ok s' = lit_ok s" "lit_t s' = lit_t s" "lit_f s' = lit_f s"
    "literal_value s' = literal_value s" "level_of s' = level_of s" "reason_of s' = reason_of s"
    "decision_level s' = decision_level s" "root_literals s' = root_literals s"
    "s_order s' = s_order s" "s_assignments s' = s_assignments s" "s_consistent s' = s_consistent s"
    "s_scope_selectors s' = s_scope_selectors s" "s_seen s' = s_seen s" "s_reasons s' = s_reasons s"
    "watches_of s' = watches_of s" "s_stats s' = s_stats s" "s_config s' = s_config s"
    by (auto simp: s' nvars_def lit_ok_def lit_t_def lit_f_def literal_value_def level_of_def watches_of_def
        reason_of_def decision_level_def root_literals_def fun_eq_iff)
  have v: "valid s' d = valid s d" "clause_literals s' d = clause_literals s d"
    "clause_learned s' d = clause_learned s d" "clause_deleted s' d \<longleftrightarrow> clause_deleted s d \<or> d = Long i" for d
    using assms(2) by (cases d; auto simp: s' nth_list_update)+
  then show "valid s' = valid s" "clause_literals s' = clause_literals s" "clause_learned s' = clause_learned s"
    "clause_deleted s' d \<longleftrightarrow> clause_deleted s d \<or> d = Long i" "live s' d \<longleftrightarrow> live s d \<and> d \<noteq> Long i"
    by (auto simp: live_def fun_eq_iff)
qed

lemma mark_deleted_inv:
  assumes i: "inv G s" and u: "unlocked s n"
  shows "inv G (mark_clause_deleted (Long n) s)" "unlocked s m \<Longrightarrow> unlocked (mark_clause_deleted (Long n) s) m"
proof -
  let ?s = "mark_clause_deleted (Long n) s"
  have nl: "n < length (s_clauses s)" and lrn: "cl_learned (s_clauses s ! n)" using u by (simp_all add: unlocked_def)
  note f = mark_deleted_fields [OF nl]
  have parts: "shape_ok s" "queue_inv s" "arena_ok s" "clauses_ok s" "trail_ok s" "reasons_ok s"
    "meaning_ok G s" "coverage_ok G s" "selectors_ok s" "watches_ok s" "watch_sem (s_head s) s"
    using i by (simp_all add: inv_def base_ok_def)
  have e: "?s = s\<lparr>s_proof := s_proof s @ [DeleteStep (clause_literals s (Long n))],
      s_clauses := (s_clauses s)[n := (s_clauses s ! n)\<lparr>cl_deleted := True\<rparr>]\<rparr>"
    by (simp add: mark_clause_deleted_def Let_def)
  have "shape_ok ?s" using parts(1) by (simp add: e shape_ok_def nvars_def)
  moreover have "arena_ok ?s"
  proof -
    let ?C = "(s_clauses s)[n := (s_clauses s ! n)\<lparr>cl_deleted := True\<rparr>]"
    have "cl_start (?C ! j) = cl_start (s_clauses s ! j)" "cl_length (?C ! j) = cl_length (s_clauses s ! j)"
      if "j < length (s_clauses s)" for j
      using that by (cases "j = n"; simp)+
    then show ?thesis using parts(3) by (simp add: e arena_ok_def)
  qed
  moreover have "queue_inv ?s" using parts(2) unfolding queue_inv_def f .
  moreover have "clauses_ok ?s" using parts(4) unfolding clauses_ok_def f .
  moreover have "trail_ok ?s" using parts(5) unfolding trail_ok_def f .
  moreover have "reasons_ok ?s"
    unfolding reasons_ok_def f
  proof (intro allI impI)
    fix j assume j: "j < length (s_trail s)"
    show "case reason_of s (s_trail s ! j) of
          None \<Rightarrow> j \<in> set (s_trail_limits s) \<or> (\<forall>n \<in> set (s_trail_limits s). j < n)
        | Some c \<Rightarrow> (live s c \<and> c \<noteq> Long n) \<and> s_trail s ! j \<in> set (clause_literals s c)
            \<and> (\<forall>l \<in> set (clause_literals s c). l \<noteq> s_trail s ! j \<longrightarrow> lit_not l \<in> set (take j (s_trail s)))"
    proof (cases "reason_of s (s_trail s ! j)")
      case None
      then show ?thesis using parts(6) j unfolding reasons_ok_def by force
    next
      case (Some q)
      note rd = reasons_okD [OF parts(6) j Some]
      have "var_index (lit_var (s_trail s ! j)) < nvars s" using parts(5) j by (simp add: trail_ok_def lit_ok_def)
      then have "q \<noteq> Long n" using u Some by (auto simp: unlocked_def reason_of_def)
      then show ?thesis using rd unfolding Some option.case by blast
    qed
  qed
  moreover have "meaning_ok G ?s" using parts(7) unfolding meaning_ok_def f by (simp add: e)
  moreover have "coverage_ok G ?s"
  proof -
    have "covered ?s d" if c: "covered s d" for d
    proof -
      consider "\<exists>l \<in> set d. lit_not l \<in> set d" | "\<exists>l \<in> set d. l \<in> root_literals s"
        | c' where "live s c'" "\<not> clause_learned s c'" "set (clause_literals s c') = set d"
        using c unfolding covered_def by blast
      then show ?thesis
      proof cases
        case 3
        then have "c' \<noteq> Long n" using lrn by auto
        with 3 show ?thesis unfolding covered_def f by blast
      qed (unfold covered_def f; blast)+
    qed
    then show ?thesis using parts(8) unfolding coverage_ok_def f by blast
  qed
  moreover have "selectors_ok ?s" using parts(9) unfolding selectors_ok_def f .
  moreover have "watches_ok ?s" using parts(10) unfolding watches_ok_def watch_ok_def f by blast
  moreover have "watch_sem (s_head ?s) ?s" using parts(11) unfolding watch_sem_def watch_done_defs f by blast
  ultimately show "inv G ?s" by (simp add: inv_def base_ok_def)
  show "unlocked s m \<Longrightarrow> unlocked ?s m"
    unfolding unlocked_def f by (cases "m = n") (simp_all add: e)
qed

lemma locked_clauses_nth:
  assumes "i < length (s_clauses s)"
  shows "locked_clauses s ! i \<longleftrightarrow> Some (Long i) \<in> set (s_reasons s)"
proof -
  have "length xs = length (s_clauses s) \<Longrightarrow>
    fold (\<lambda>r locked. case r of Some (Long i) \<Rightarrow> locked[i := True] | _ \<Rightarrow> locked) rs xs ! i
      \<longleftrightarrow> xs ! i \<or> Some (Long i) \<in> set rs" for rs xs
  proof (induction rs arbitrary: xs)
    case (Cons r rs)
    show ?case
    proof (cases r)
      case (Some c)
      then show ?thesis using Cons assms
        by (cases c; cases "i = cref_index c") (auto simp: nth_list_update)
    qed (use Cons in auto)
  qed simp
  from this [of "replicate (length (s_clauses s)) False" "s_reasons s"] show ?thesis
    using assms by (simp add: locked_clauses_def)
qed

lemma candidates_unlocked:
  assumes sh: "shape_ok s" and c: "i \<in> set (reduction_candidates s)" shows "unlocked s i"
proof -
  have i: "i < length (s_clauses s)" "cl_learned (s_clauses s ! i)" "\<not> locked_clauses s ! i"
    using c by (auto simp: reduction_candidates_def Let_def)
  then have n: "Some (Long i) \<notin> set (s_reasons s)" using locked_clauses_nth [OF i(1)] by simp
  have "s_reasons s ! v \<noteq> Some (Long i)" if "v < nvars s" for v
  proof
    assume "s_reasons s ! v = Some (Long i)"
    moreover have "s_reasons s ! v \<in> set (s_reasons s)" using sh that by (simp add: shape_ok_def)
    ultimately show False using n by simp
  qed
  with i show ?thesis by (simp add: unlocked_def)
qed

lemma frame_stats: "frame_eq s (s\<lparr>s_stats := st\<rparr>)"
  by (simp add: frame_eq_def same_db_def)

lemma unlocked_active: "unlocked (s\<lparr>s_active_learned := n\<rparr>) = unlocked s"
  by (simp add: unlocked_def nvars_def fun_eq_iff)

lemma reduce_fold_ok:
  "inv G s \<Longrightarrow> \<forall>i \<in> set is. unlocked s i \<Longrightarrow>
    inv G (fold (\<lambda>i s. (mark_clause_deleted (Long i) s)\<lparr>s_active_learned := s_active_learned s - 1\<rparr>) is s)
    \<and> s_seen (fold (\<lambda>i s. (mark_clause_deleted (Long i) s)\<lparr>s_active_learned := s_active_learned s - 1\<rparr>) is s) = s_seen s
    \<and> s_trail_limits (fold (\<lambda>i s. (mark_clause_deleted (Long i) s)\<lparr>s_active_learned := s_active_learned s - 1\<rparr>) is s)
      = s_trail_limits s"
proof (induction "is" arbitrary: s)
  case (Cons i "is")
  let ?s = "(mark_clause_deleted (Long i) s)\<lparr>s_active_learned := s_active_learned s - 1\<rparr>"
  have u: "unlocked s i" using Cons.prems(2) by simp
  then have i: "i < length (s_clauses s)" by (simp add: unlocked_def)
  have "inv G ?s" using mark_deleted_inv(1) [OF Cons.prems(1) u] frame_inv [OF frame_active] by blast
  moreover have "\<forall>j \<in> set is. unlocked ?s j"
    using mark_deleted_inv(2) [OF Cons.prems(1) u] Cons.prems(2) by (simp add: unlocked_active)
  ultimately show ?case using Cons.IH [of ?s] mark_deleted_fields [OF i] by simp
qed simp

lemma reduce_database_ok:
  assumes i: "inv G s"
  shows "inv G (reduce_database F s)" "s_seen (reduce_database F s) = s_seen s"
    "s_trail_limits (reduce_database F s) = s_trail_limits s"
proof -
  have sh: "shape_ok s" using i by (simp add: inv_def base_ok_def)
  obtain n st where r: "reduce_database F s = (fold (\<lambda>i s. (mark_clause_deleted (Long i) s)
      \<lparr>s_active_learned := s_active_learned s - 1\<rparr>)
      (take n (rev (sort_key (\<lambda>i. cl_length (s_clauses s ! i)) (rev (reduction_candidates s))))) s)\<lparr>s_stats := st\<rparr>"
    unfolding reduce_database_def Let_def by blast
  have "\<forall>i \<in> set (take n (rev (sort_key (\<lambda>i. cl_length (s_clauses s ! i)) (rev (reduction_candidates s))))). unlocked s i"
    using candidates_unlocked [OF sh] by (auto dest: in_set_takeD)
  note k = reduce_fold_ok [OF i this]
  show "inv G (reduce_database F s)" unfolding r using k frame_inv [OF frame_stats] by blast
  show "s_seen (reduce_database F s) = s_seen s" "s_trail_limits (reduce_database F s) = s_trail_limits s"
    unfolding r using k by simp_all
qed

subsection \<open>The conflict branch\<close>

lemma steer_frames:
  "frame_eq s (observe_trail s)" "frame_eq s (observe_lbd n s)" "frame_eq s (count_conflict s)"
  "s_seen (observe_trail s) = s_seen s" "s_seen (observe_lbd n s) = s_seen s" "s_seen (count_conflict s) = s_seen s"
proof -
  show "frame_eq s (observe_trail s)" "frame_eq s (observe_lbd n s)"
    by (simp_all add: observe_trail_def observe_lbd_def Let_def frame_eq_def same_db_def)
  have since: "frame_eq t (t\<lparr>s_since_restart := m\<rparr>)" for t :: "'a solver" and m
    by (simp add: frame_eq_def same_db_def)
  let ?s1 = "s\<lparr>s_stats := (s_stats s)\<lparr>st_conflicts := st_conflicts (s_stats s) + 1\<rparr>\<rparr>"
  have s1: "frame_eq s ?s1" by (rule frame_stats)
  have "frame_eq s (if should_decay_clause_usage (st_conflicts (s_stats s) + 1)
      then decay_clause_usage_scores ?s1 else ?s1)"
    using s1 frame_eq_trans [OF s1 frame_decay_usage] by simp
  then show "frame_eq s (count_conflict s)"
    unfolding count_conflict_def Let_def by (rule frame_eq_trans [OF _ since])
  show "s_seen (observe_trail s) = s_seen s" "s_seen (observe_lbd n s) = s_seen s" "s_seen (count_conflict s) = s_seen s"
    by (simp_all add: observe_trail_def observe_lbd_def count_conflict_def decay_clause_usage_scores_def Let_def)
qed

lemma add_step_ok:
  assumes "entails G c"
  shows "base_ok G s \<Longrightarrow> base_ok G (s\<lparr>s_proof := s_proof s @ [AddStep c]\<rparr>)"
    "watches_ok (s\<lparr>s_proof := p\<rparr>) = watches_ok s" "watch_sem k (s\<lparr>s_proof := p\<rparr>) = watch_sem k s"
proof -
  let ?s = "s\<lparr>s_proof := s_proof s @ [AddStep c]\<rparr>"
  have v: "clause_literals (s\<lparr>s_proof := p\<rparr>) = clause_literals s" "clause_deleted (s\<lparr>s_proof := p\<rparr>) = clause_deleted s"
    "clause_learned (s\<lparr>s_proof := p\<rparr>) = clause_learned s" "valid (s\<lparr>s_proof := p\<rparr>) = valid s"
    "live (s\<lparr>s_proof := p\<rparr>) = live s" "nvars (s\<lparr>s_proof := p\<rparr>) = nvars s"
    "lit_ok (s\<lparr>s_proof := p\<rparr>) = lit_ok s" "lit_t (s\<lparr>s_proof := p\<rparr>) = lit_t s" "lit_f (s\<lparr>s_proof := p\<rparr>) = lit_f s"
    "literal_value (s\<lparr>s_proof := p\<rparr>) = literal_value s" "level_of (s\<lparr>s_proof := p\<rparr>) = level_of s"
    "reason_of (s\<lparr>s_proof := p\<rparr>) = reason_of s" "root_literals (s\<lparr>s_proof := p\<rparr>) = root_literals s"
    "watches_of (s\<lparr>s_proof := p\<rparr>) = watches_of s" for p
  proof -
    have d: "same_db s (s\<lparr>s_proof := p\<rparr>)" by (simp add: same_db_def)
    show "clause_literals (s\<lparr>s_proof := p\<rparr>) = clause_literals s" "clause_deleted (s\<lparr>s_proof := p\<rparr>) = clause_deleted s"
      "clause_learned (s\<lparr>s_proof := p\<rparr>) = clause_learned s" "valid (s\<lparr>s_proof := p\<rparr>) = valid s"
      "live (s\<lparr>s_proof := p\<rparr>) = live s"
      using same_db_simps [OF d] by (intro ext; simp)+
  qed (auto simp: nvars_def lit_ok_def lit_t_def lit_f_def literal_value_def level_of_def
        reason_of_def root_literals_def watches_of_def fun_eq_iff)
  show "watches_ok (s\<lparr>s_proof := p\<rparr>) = watches_ok s" "watch_sem k (s\<lparr>s_proof := p\<rparr>) = watch_sem k s"
    by (simp_all add: watches_ok_def watch_ok_def watch_sem_def watch_done_defs v)
  assume b: "base_ok G s"
  have "shape_ok ?s = shape_ok s" "queue_inv ?s = queue_inv s" "arena_ok ?s = arena_ok s"
    "clauses_ok ?s = clauses_ok s" "trail_ok ?s = trail_ok s" "reasons_ok ?s = reasons_ok s"
    "coverage_ok G ?s = coverage_ok G s" "selectors_ok ?s = selectors_ok s"
    by (simp_all add: shape_ok_def queue_inv_def arena_ok_def clauses_ok_def trail_ok_def reasons_ok_def
        coverage_ok_def covered_def selectors_ok_def v cong: option.case_cong)
  moreover have "meaning_ok G ?s" using b assms unfolding base_ok_def meaning_ok_def v by auto
  ultimately show "base_ok G ?s" using b by (simp add: base_ok_def)
qed

lemma determine_level:
  assumes "jump < decision_level s"
  shows "determine_backtrack_level jump n s < decision_level s" "jump \<le> determine_backtrack_level jump n s"
    "n = 1 \<Longrightarrow> determine_backtrack_level jump n s = jump"
  using assms by (auto simp: determine_backtrack_level_def Let_def)

lemma restart_ok:
  assumes i: "inv G s" shows "inv G (restart s)" "s_seen (restart s) = s_seen s"
proof -
  let ?t = "cancel_until 0 s"
  have t: "inv G ?t" by (rule inv_cancel [OF i])
  have f: "frame_eq ?t (restart s)"
    by (simp add: restart_def Let_def frame_eq_def same_db_def split: restart_policy.split)
  show "inv G (restart s)" using t frame_inv [OF f] by simp
  have "s_seen (restart s) = s_seen ?t" by (simp add: restart_def Let_def split: restart_policy.split)
  moreover have "s_seen ?t = s_seen s"
    using i cancel_fields(16) [of G s 0] cancel_noop [of s 0] by (cases "0 < decision_level s") (auto simp: inv_def)
  ultimately show "s_seen (restart s) = s_seen s" by simp
qed

lemma cancel_seen: "inv G s \<Longrightarrow> s_seen (cancel_until k s) = s_seen s"
  using cancel_fields(16) [of G s k] cancel_noop [of s k] by (cases "k < decision_level s") (auto simp: inv_def)

lemma seen_clear_cong: "seen_clear s \<Longrightarrow> s_seen s' = s_seen s \<Longrightarrow> nvars s' = nvars s \<Longrightarrow> seen_clear s'"
  by (simp add: seen_clear_def)

lemma inv_nvars: "inv G s \<Longrightarrow> length (s_seen s) = nvars s"
  by (simp add: inv_def base_ok_def shape_ok_def)

lemma maintain_ok:
  assumes i: "inv G s"
  shows "inv G (maintain_database F s)" "s_seen (maintain_database F s) = s_seen s"
proof -
  have fr: "frame_eq t (t\<lparr>s_next_reduction := n\<rparr>)" for t :: "'a solver" and n by (simp add: frame_eq_def same_db_def)
  show "inv G (maintain_database F s)"
    using i reduce_database_ok(1) [OF i] frame_inv [OF fr] by (simp add: maintain_database_def Let_def)
  show "s_seen (maintain_database F s) = s_seen s"
    using reduce_database_ok(2) [OF i] by (simp add: maintain_database_def Let_def)
qed

lemma decay_seen: "s_seen (decay_activities F s) = s_seen s"
  by (simp add: decay_activities_def)

end
