(* ===== verification/Solver_Loop.thy ===== *)
theory Solver_Loop
  imports Solver_Learn
begin

section \<open>The search loop answers correctly\<close>

text \<open>
  What one iteration of the search keeps beyond the invariant: the assumptions already made are
  true at their own level, the decisions of these levels are assumptions, and the fields that
  steer the search are left alone. From it: an answer \<open>Sat\<close> is a model of the clauses and the
  assumptions, an answer \<open>Unsat\<close> comes with a set of assumptions that the clauses refute, and the
  search returns when a conflict limit is set or when the interrupt flag is raised some day.
\<close>

lemma var_index_of_nat: "i < MAX_VARIABLES \<Longrightarrow> var_index (Var (of_nat i)) = i"
  by (simp add: var_index_def MAX_VARIABLES_eq unat_of_nat)

subsection \<open>What the search leaves alone\<close>

definition search_view where
  "search_view s = ((s_config s, s_variable_count s, s_started s, s_scope_selectors s),
     (s_interrupt s, s_limits s, s_start_conflicts s, s_control_active s),
     (s_cached_assumptions s, s_cached_result s, s_proof_input s, s_original_count s, nvars s))"

definition quiet_view where
  "quiet_view s = (search_view s, s_consistent s, s_failed s, st_conflicts (s_stats s))"

definition steer_view where
  "steer_view s = (quiet_view s, s_polls s, s_stop_reason s)"

lemmas view_defs = steer_view_def quiet_view_def search_view_def nvars_def

lemma steer_enqueue [simp]: "steer_view (snd (enqueue_internal b l r s)) = steer_view s"
  by (simp add: enqueue_internal_def Let_def view_defs)

lemma steer_cancel [simp]: "steer_view (cancel_until k s) = steer_view s"
proof -
  have n: "nvars (fold unassign ls s) = nvars s" for ls and s :: "'a solver"
    by (induction ls arbitrary: s) (simp_all add: unassign_def Let_def nvars_def)
  have "steer_view (fold unassign ls s) = steer_view s" for ls
  proof -
    obtain a l r h q where "fold unassign ls s
      = s\<lparr>s_assignments := a, s_levels := l, s_reasons := r, s_order := h, s_vmtf := q\<rparr>"
      using fold_unassign_frame [of ls s] by blast
    then show ?thesis using n [of ls s] by (simp add: view_defs)
  qed
  then show ?thesis by (simp add: cancel_until_def Let_def view_defs)
qed

lemma steer_fields [simp]:
  fixes s :: "'f solver"
  shows "steer_view (s\<lparr>s_seen := x\<rparr>) = steer_view s" "steer_view (s\<lparr>s_proof := p\<rparr>) = steer_view s"
  "steer_view (s\<lparr>s_active_learned := n\<rparr>) = steer_view s" "steer_view (s\<lparr>s_order := h\<rparr>) = steer_view s"
  "steer_view (s\<lparr>s_watches := ws\<rparr>) = steer_view s" "steer_view (s\<lparr>s_head := k\<rparr>) = steer_view s"
  "steer_view (push_watch l w s) = steer_view s" "steer_view (write_literals c lits s) = steer_view s"
  "steer_view (bump_clause_usage c s) = steer_view s"
  by (simp_all add: view_defs push_watch_def write_literals_def bump_clause_usage_def Let_def split: cref.split)

lemma steer_small [simp]:
  "steer_view (bump_clause_usage c s) = steer_view s" "steer_view (bump_variable_activity F v s) = steer_view s"
  "steer_view (decay_activities F s) = steer_view s" "steer_view (observe_trail s) = steer_view s"
  "steer_view (observe_lbd n s) = steer_view s" "steer_view (snd (literal_block_distance ls s)) = steer_view s"
  "steer_view (push_watch l w s) = steer_view s" "steer_view (attach_clause c s) = steer_view s"
  "steer_view (snd (allocate_clause F lits lbd learned s)) = steer_view s"
  "steer_view (mark_clause_deleted c s) = steer_view s" "steer_view (new_level s) = steer_view s"
  by (simp_all add: view_defs bump_clause_usage_def bump_variable_activity_def decay_activities_def
      observe_trail_def observe_lbd_def literal_block_distance_def next_level_mark_def push_watch_def
      attach_clause_def allocate_clause_def mark_clause_deleted_def new_level_def Let_def
      split: prod.split)

lemma analyze_literals_steer: "steer_view (an_solver (analyze_literals F r cur lits a)) = steer_view (an_solver a)"
  by (induction F r cur lits a rule: analyze_literals.induct) (auto simp: Let_def)

lemma analyze_loop_steer:
  "analyze_loop F cur r c i a = Some b \<Longrightarrow> steer_view (an_solver b) = steer_view (an_solver a)"
proof (induction F cur r c i a arbitrary: b rule: analyze_loop.induct)
  case (1 F cur r c i a)
  show ?case
    using "1.prems" by (subst (asm) analyze_loop.simps)
      (auto simp: Let_def analyze_literals_steer split: option.splits if_splits dest!: "1.IH" [rotated -1])
qed

lemma minimize_steer:
  "minimize_learned_clause s learned touched = Some (l', t', s') \<Longrightarrow> steer_view s' = steer_view s"
  by (auto simp: minimize_learned_clause_def Let_def split: option.splits)

lemma lbd_steer: "literal_block_distance ls (s :: 'f::linorder solver) = (n, s') \<Longrightarrow> steer_view s' = steer_view s"
  using steer_small(6) [of ls s] by simp

lemma analyze_steer: "analyze F c s = Some (learned, jump, lbd, s') \<Longrightarrow> steer_view s' = steer_view s"
  by (auto simp: analyze_def Let_def split: option.splits prod.splits if_splits
      dest!: analyze_loop_steer minimize_steer lbd_steer)

subsection \<open>Assumptions and decisions on the trail\<close>

definition assumed :: "lit list \<Rightarrow> 'f solver \<Rightarrow> bool" where
  "assumed as s \<longleftrightarrow>
     (\<forall>i < decision_level s. i < length as \<longrightarrow> lit_t s (as ! i) \<and> level_of s (as ! i) \<le> Suc i)"

definition decided :: "lit list \<Rightarrow> 'f solver \<Rightarrow> bool" where
  "decided as s \<longleftrightarrow>
     (\<forall>t \<in> set (s_trail s). reason_of s t = None \<longrightarrow> 0 < level_of s t \<longrightarrow> level_of s t \<le> length as
        \<longrightarrow> t \<in> set as)"

definition search_trail :: "lit list \<Rightarrow> 'f solver \<Rightarrow> bool" where
  "search_trail as s \<longleftrightarrow> assumed as s \<and> decided as s"

definition continues :: "'f solver \<Rightarrow> 'f solver \<Rightarrow> bool" where
  "continues s s' \<longleftrightarrow> s_trail_limits s' = s_trail_limits s \<and> (\<exists>ys. s_trail s' = s_trail s @ ys)
     \<and> (decision_level s = 0 \<or> no_decision s s')"

lemma search_trail_root:
  assumes "trail_ok s" "decision_level s = 0" shows "search_trail as s"
  using level_le_decision [OF assms(1)] assms(2) by (auto simp: search_trail_def assumed_def decided_def)

lemma level_prefix:
  assumes "trail_ok s" "trail_ok s'" "s_trail_limits s' = s_trail_limits s" "s_trail s' = s_trail s @ ys"
    and t: "t \<in> set (s_trail s)"
  shows "level_of s' t = level_of s t"
proof -
  obtain i where i: "i < length (s_trail s)" "s_trail s ! i = t"
    "level_of s t = length (filter (\<lambda>n. n \<le> i) (s_trail_limits s))"
    using level_cases [OF assms(1) t] by blast
  have "i < length (s_trail s')" "s_trail s' ! i = t" using i assms(4) by (simp_all add: nth_append)
  then show ?thesis using assms(2,3) i by (auto simp: trail_ok_def)
qed

lemma search_trail_continues:
  assumes "search_trail as s" "trail_ok s" "trail_ok s'" "continues s s'"
  shows "search_trail as s'"
proof (cases "decision_level s = 0")
  case True
  then have "decision_level s' = 0" using assms(4) by (simp add: continues_def decision_level_def)
  then show ?thesis by (rule search_trail_root [OF assms(3)])
next
  case False
  obtain ys where k: "s_trail_limits s' = s_trail_limits s" "s_trail s' = s_trail s @ ys" "no_decision s s'"
    using assms(4) False by (auto simp: continues_def)
  note lv = level_prefix [OF assms(2,3) k(1,2)]
  have "assumed as s'"
    using assms(1) lv unfolding search_trail_def assumed_def decision_level_def k lit_t_def by auto
  moreover have "decided as s'"
    using assms(1) lv k(3) unfolding search_trail_def decided_def no_decision_def by fastforce
  ultimately show ?thesis by (simp add: search_trail_def)
qed

lemma continues_trail_eq:
  assumes "s_trail s' = s_trail s" "s_trail_limits s' = s_trail_limits s" "s_reasons s' = s_reasons s"
  shows "continues s s'"
  using assms no_decision_same [of s' s] by (simp add: continues_def)

lemma continues_trans: "continues s t \<Longrightarrow> continues t u \<Longrightarrow> continues s u"
  unfolding continues_def no_decision_def decision_level_def by (metis append_assoc)

lemma frame_continues: "frame_eq s s' \<Longrightarrow> continues s s'"
  by (rule continues_trail_eq) (simp_all add: frame_eq_def)

lemma prop_continues: "prop_frame s s' \<Longrightarrow> continues s s'"
  by (simp add: prop_frame_def prop_view_def continues_def)

lemma search_trail_cancel:
  assumes i: "base_ok G s" and st: "search_trail as s"
  shows "search_trail as (cancel_until k s)"
proof (cases "k < decision_level s")
  case True
  note f = cancel_fields [OF i True] and keep = cancel_keeps [OF i True]
  have dl: "decision_level (cancel_until k s) = k" using True by (simp add: decision_level_cancel)
  let ?m = "s_trail_limits s ! k"
  have lv: "level_of (cancel_until k s) t = level_of s t" "reason_of (cancel_until k s) t = reason_of s t"
    if "t \<in> set (take ?m (s_trail s))" for t using f(15) [OF that] by simp_all
  have "assumed as (cancel_until k s)"
    unfolding assumed_def dl
  proof (intro allI impI)
    fix j assume j: "j < k" "j < length as"
    then have a: "as ! j \<in> set (s_trail s)" "level_of s (as ! j) \<le> Suc j"
      using st True by (simp_all add: search_trail_def assumed_def lit_t_def)
    then have "as ! j \<in> set (take ?m (s_trail s))" using keep [OF a(1)] j by simp
    then show "lit_t (cancel_until k s) (as ! j) \<and> level_of (cancel_until k s) (as ! j) \<le> Suc j"
      using lv a f(1) by (simp add: lit_t_def)
  qed
  moreover have "decided as (cancel_until k s)"
    using st lv f(1) unfolding search_trail_def decided_def by (auto dest: in_set_takeD)
  ultimately show ?thesis by (simp add: search_trail_def)
qed (use st in \<open>simp add: cancel_noop\<close>)

subsection \<open>The conflict branch\<close>

lemma add_learned_view:
  assumes i: "inv G s" and h: "lit_ok s (learned ! 0)" "literal_value s (learned ! 0) = 0"
    and z: "length learned = 1 \<longleftrightarrow> decision_level s = 0"
  shows "continues s (add_learned F learned lbd s)" "steer_view (add_learned F learned lbd s) = steer_view s"
proof -
  have r: "var_index (lit_var (learned ! 0)) < length (s_reasons s)"
    using i h(1) by (simp add: inv_def base_ok_def shape_ok_def lit_ok_def nvars_def)
  have sh: "shape_ok s" "trail_ok s" using i by (simp_all add: inv_def base_ok_def)
  have nv: "var_index (lit_var (learned ! 0)) \<noteq> var_index (lit_var t)" if "t \<in> set (s_trail s)" for t
    using not_var_in_trail [OF sh(2) h that] by (auto simp: var_index_eq_iff)
  define s0 where "s0 = (if length learned = 1 then s
    else (let (c, s1) = allocate_clause F learned lbd True s; s2 = attach_clause c s1
          in s2\<lparr>s_active_learned := s_active_learned s2 + 1\<rparr>))"
  define r0 where "r0 = (if length learned = 1 then None else Some (fst (allocate_clause F learned lbd True s)))"
  have e: "add_learned F learned lbd s = snd (enqueue (learned ! 0) r0 s0)"
    by (simp add: add_learned_def s0_def r0_def Let_def split: prod.split)
  have s0: "s_trail s0 = s_trail s" "s_trail_limits s0 = s_trail_limits s" "s_reasons s0 = s_reasons s"
    "s_assignments s0 = s_assignments s"
    by (simp_all add: s0_def allocate_clause_def attach_clause_def push_watch_def Let_def)
  obtain c s1 where al: "allocate_clause F learned lbd True s = (c, s1)" by fastforce
  have "steer_view s1 = steer_view s" using steer_small(9) [of F learned lbd True s] unfolding al snd_conv .
  then have "steer_view s0 = steer_view s" by (simp add: s0_def al Let_def)
  then show "steer_view (add_learned F learned lbd s) = steer_view s" by (simp add: e enqueue_def)
  have "literal_value s0 (learned ! 0) = 0" using h(2) s0 by (simp add: literal_value_def)
  then have f: "s_trail (add_learned F learned lbd s) = s_trail s @ [learned ! 0]"
    "s_trail_limits (add_learned F learned lbd s) = s_trail_limits s"
    "s_reasons (add_learned F learned lbd s) = (s_reasons s)[var_index (lit_var (learned ! 0)) := r0]"
    unfolding e enqueue_def using enqueue_unassigned [of s0 "learned ! 0" True r0] s0 by simp_all
  have "decision_level s = 0 \<or> no_decision s (add_learned F learned lbd s)"
    using z nv r by (auto simp: no_decision_def f reason_of_def r0_def)
  then show "continues s (add_learned F learned lbd s)" by (simp add: continues_def f)
qed

lemma maintain_view:
  "continues s (maintain_database F s)" "steer_view (maintain_database F s) = steer_view s"
proof -
  define del where "del = (\<lambda>i s :: 'a solver. (mark_clause_deleted (Long i) s)\<lparr>s_active_learned := s_active_learned s - 1\<rparr>)"
  have d: "continues s (fold del is s) \<and> steer_view (fold del is s) = steer_view s" for "is" and s :: "'a solver"
  proof (induction "is" arbitrary: s)
    case Nil
    show ?case by (simp add: continues_trail_eq)
  next
    case (Cons i "is")
    have "continues s (del i s)" by (rule continues_trail_eq) (simp_all add: del_def mark_clause_deleted_def Let_def)
    moreover have "steer_view (del i s) = steer_view s" by (simp add: del_def)
    ultimately show ?case using Cons [of "del i s"] continues_trans by auto
  qed
  have r: "continues s (reduce_database F s) \<and> steer_view (reduce_database F s) = steer_view s"
  proof -
    obtain "is" n where "reduce_database F s = (fold del is s)\<lparr>s_stats := (s_stats (fold del is s))\<lparr>st_reductions := n\<rparr>\<rparr>"
      unfolding reduce_database_def Let_def del_def by blast
    then show ?thesis using d [of s "is"] by (simp add: continues_def no_decision_def reason_of_def view_defs)
  qed
  show "continues s (maintain_database F s)" "steer_view (maintain_database F s) = steer_view s"
    using r by (simp_all add: maintain_database_def Let_def continues_def no_decision_def reason_of_def
        view_defs)
qed

lemma steer_restart: "steer_view (restart s) = steer_view s"
proof -
  have "steer_view (restart s) = steer_view (cancel_until 0 s)"
    by (simp add: restart_def Let_def view_defs split: restart_policy.split)
  then show ?thesis by simp
qed

lemma restart_level: "decision_level (restart s) = 0"
proof -
  have "s_trail_limits (restart s) = s_trail_limits (cancel_until 0 s)"
    by (simp add: restart_def Let_def split: restart_policy.split)
  then show ?thesis using decision_level_cancel [of 0 s] by (simp add: decision_level_def)
qed

lemma resolve_conflict_ok:
  assumes c: "conflict_state G c s" and z: "0 < decision_level s" and sc: "seen_clear s"
    and st: "search_trail as s"
  shows "\<exists>s'. resolve_conflict F c s = Some s' \<and> inv G s' \<and> seen_clear s' \<and> search_trail as s'
    \<and> steer_view s' = steer_view s"
proof -
  let ?o = "observe_trail s"
  have cs: "base_ok G s" "watches_ok s" "conflict_at c s" using c by (simp_all add: conflict_state_def)
  obtain j where j: "watch_sem j s" "\<forall>n \<in> set (s_trail_limits s). n \<le> j" using c by (auto simp: conflict_state_def)
  note fo = steer_frames(1) [of s] and fe = frame_eq_simps [OF steer_frames(1) [of s]]
  have o: "base_ok G ?o" "conflict_at c ?o" "0 < decision_level ?o" "seen_clear ?o"
    using cs z sc frame_eq_inv(1) [OF fo] by (simp_all add: conflict_at_def falsified_def fe seen_clear_def steer_frames)
  obtain learned jump lbd s1 where an: "analyze F c ?o = Some (learned, jump, lbd, s1)"
    and ok: "analysis_ok G ?o (learned, jump, lbd, s1)"
    using analyze_ok [OF o, of F] by auto
  have f1: "frame_eq ?o s1" and sc1: "seen_clear s1" and l: "learned_ok G ?o learned"
    and jl: "if length learned = 1 then jump = 0 else jump = level_of ?o (learned ! 1)
      \<and> (\<forall>l \<in> set (tl learned). level_of ?o l \<le> jump)"
    using ok unfolding analysis_ok_def prod.case by blast+
  let ?s2 = "observe_lbd lbd s1"
  let ?s3 = "?s2\<lparr>s_proof := s_proof ?s2 @ [AddStep learned]\<rparr>"
  have f2: "frame_eq s ?s2" by (rule frame_eq_trans [OF frame_eq_trans [OF fo f1] steer_frames(2)])
  note fe2 = frame_eq_simps [OF f2]
  have ent: "entails G learned" using l by (simp add: learned_ok_def)
  have b2: "base_ok G ?s2" "watches_ok ?s2" "watch_sem j ?s2" using cs(1,2) j(1) frame_eq_inv [OF f2] by simp_all
  note ps = add_step_ok [OF ent]
  have b3: "base_ok G ?s3" "watches_ok ?s3" "watch_sem j ?s3" using ps(1) b2 by (simp_all add: ps(2,3))
  have v3: "s_trail_limits ?s3 = s_trail_limits s" "decision_level ?s3 = decision_level s"
    "lit_f ?s3 = lit_f s" "level_of ?s3 = level_of s" "s_seen ?s3 = s_seen s1" "nvars ?s3 = nvars s"
    using f2 fe2 by (auto simp: frame_eq_def decision_level_def lit_f_def level_of_def fun_eq_iff steer_frames nvars_def)
  have l': "learned \<noteq> []" "distinct (map lit_var learned)" "\<forall>l \<in> set learned. lit_f s l"
    "level_of s (hd learned) = decision_level s"
    "\<forall>l \<in> set (tl learned). 0 < level_of s l \<and> level_of s l < decision_level s"
    using l unfolding learned_ok_def fe by simp_all
  have jump: "jump < decision_level s" "\<forall>l \<in> set (tl learned). level_of s l \<le> jump"
    "length learned = 1 \<longleftrightarrow> jump = 0"
  proof -
    show "\<forall>l \<in> set (tl learned). level_of s l \<le> jump"
      using jl unfolding fe by (cases learned) (auto split: if_splits)
    have tlm: "learned ! 1 \<in> set (tl learned)" if "length learned \<noteq> 1"
      using that l'(1) by (cases learned; cases "tl learned") auto
    show "jump < decision_level s" "length learned = 1 \<longleftrightarrow> jump = 0"
      using jl z l'(5) tlm unfolding fe by (auto split: if_splits)
  qed
  define bt where "bt = determine_backtrack_level jump (length learned) ?s3"
  note dl = determine_level [of jump ?s3 "length learned", unfolded v3(2), OF jump(1), folded bt_def]
  let ?s4 = "cancel_until bt ?s3"
  have k: "bt < decision_level ?s3" using dl(1) v3(2) by simp
  have "s_trail_limits ?s3 ! bt \<in> set (s_trail_limits s)" using k by (simp add: v3(1) decision_level_def)
  then have i4: "inv G ?s4" using cancel_inv [OF b3 k] j(2) v3(1) by simp
  have dl4: "decision_level ?s4 = bt" using k by (simp add: decision_level_cancel)
  have f4: "lit_ok ?s4 = lit_ok ?s3" "s_seen ?s4 = s_seen ?s3" "nvars ?s4 = nvars ?s3"
    using cancel_fields [OF b3(1) k] by simp_all
  have hm: "hd learned \<in> set learned" "hd learned = learned ! 0" using l'(1) by (simp_all add: hd_conv_nth)
  have hf: "lit_f ?s3 (hd learned)" using l'(3) hm v3(3) by simp
  have h0: "lit_ok ?s4 (learned ! 0)" "literal_value ?s4 (learned ! 0) = 0"
    using cancel_false(2) [OF b3(1) k hf] false_lit_ok [OF _ hf] b3(1) dl(1) l'(4) hm(2)
    by (simp_all add: f4 v3(4) base_ok_def)
  have tf: "\<forall>x \<in> set (tl learned). lit_f ?s4 x \<and> 0 < level_of ?s4 x"
  proof
    fix x assume x: "x \<in> set (tl learned)"
    then have "x \<in> set learned" by (cases learned) auto
    then have "lit_f ?s3 x" using l'(3) v3(3) by simp
    moreover have "level_of ?s3 x \<le> bt" using jump(2) x dl(2) v3(4) by fastforce
    ultimately have lf: "lit_f ?s4 x" by (rule cancel_false(1) [OF b3(1) k])
    then have "lit_not x \<in> set (take (s_trail_limits ?s3 ! bt) (s_trail ?s3))"
      unfolding lit_f_def cancel_fields(1) [OF b3(1) k] .
    from cancel_fields(15) [OF b3(1) k this] have "level_of ?s4 x = level_of s x" by (simp add: v3(4))
    then show "lit_f ?s4 x \<and> 0 < level_of ?s4 x" using lf l'(5) x by simp
  qed
  have z4: "length learned = 1 \<longleftrightarrow> decision_level ?s4 = 0"
    using jump(3) dl(2,3) unfolding dl4 by auto
  note al = add_learned_ok [OF i4 ent l'(1,2) h0 tf z4, of F lbd]
  let ?s5 = "decay_activities F (add_learned F learned lbd ?s4)"
  have i5: "inv G ?s5" using al(1) frame_inv [OF frame_decay_activities] by blast
  note m = maintain_ok [OF i5, of F]
  let ?s6 = "maintain_database F ?s5"
  have seen6: "s_seen ?s6 = s_seen s1" using m(2) al(2) f4(2) v3(5) by (simp add: decay_seen)
  have clear: "seen_clear t" if "inv G t" "s_seen t = s_seen s1" for t
  proof -
    have "base_ok G s1" using o(1) frame_eq_inv(1) [OF f1] by simp
    then have "length (s_seen s1) = nvars s1" by (simp add: base_ok_def shape_ok_def)
    then have "nvars t = nvars s1" using inv_nvars [OF that(1)] that(2) by simp
    then show ?thesis using sc1 that(2) by (simp add: seen_clear_def)
  qed
  let ?s7 = "if should_restart ?s6 \<and> decision_level ?s6 > 0 then restart ?s6 else ?s6"
  have i7: "inv G ?s7" "s_seen ?s7 = s_seen s1" using m(1) seen6 restart_ok [OF m(1)] by simp_all
  have "steer_view ?s3 = steer_view s" using analyze_steer [OF an] by simp
  then have steer: "steer_view ?s7 = steer_view s"
    using add_learned_view(2) [OF i4 h0 z4, of F lbd] maintain_view(2) [of F ?s5] by (simp add: steer_restart)
  have tr: "trail_ok t" if "inv G t" for t using that by (simp add: inv_def base_ok_def)
  have bt: "trail_ok s" "trail_ok ?s3" using cs(1) b3(1) by (simp_all add: base_ok_def)
  have "continues s ?s3" using continues_trans [OF frame_continues [OF f2]] by (simp add: continues_trail_eq)
  then have "search_trail as ?s3" using search_trail_continues [OF st bt] by blast
  then have "search_trail as ?s4" by (rule search_trail_cancel [OF b3(1)])
  moreover have "continues ?s4 ?s6"
    using continues_trans [OF continues_trans [OF add_learned_view(1) [OF i4 h0 z4, of F lbd]] maintain_view(1)]
    by (simp add: continues_trail_eq decay_activities_def)
  ultimately have "search_trail as ?s6" using search_trail_continues tr [OF i4] tr [OF m(1)] by blast
  moreover have "search_trail as (restart ?s6)"
    using search_trail_root restart_ok(1) [OF m(1)] tr restart_level by blast
  ultimately have "search_trail as ?s7" by simp
  note i7 this steer
  moreover have "resolve_conflict F c s = Some ?s7"
    by (simp add: resolve_conflict_def an Let_def flip: bt_def)
  ultimately show ?thesis using clear by blast
qed

subsection \<open>Decisions\<close>

definition searching :: "lit list set \<Rightarrow> lit list \<Rightarrow> 'f solver \<Rightarrow> bool" where
  "searching G as s \<longleftrightarrow> inv G s \<and> seen_clear s \<and> search_trail as s \<and> s_consistent s
     \<and> (\<forall>a \<in> set as. lit_ok s a)"

text \<open>What is left to do before the next conflict or an answer.\<close>

definition progress :: "lit list \<Rightarrow> 'f solver \<Rightarrow> nat" where
  "progress as s = (length as - decision_level s) + (nvars s - length (s_trail s))"

lemma searchingD:
  assumes "searching G as s"
  shows "inv G s" "base_ok G s" "shape_ok s" "trail_ok s" "queue_inv s" "watches_ok s" "seen_clear s"
    "search_trail as s" "s_consistent s" "a \<in> set as \<Longrightarrow> lit_ok s a"
  using assms by (simp_all add: searching_def inv_def base_ok_def)

lemma new_level_views [simp]:
  "decision_level (new_level s) = Suc (decision_level s)" "s_trail (new_level s) = s_trail s"
  "s_head (new_level s) = s_head s" "nvars (new_level s) = nvars s" "lit_ok (new_level s) = lit_ok s"
  "literal_value (new_level s) = literal_value s" "level_of (new_level s) = level_of s"
  "reason_of (new_level s) = reason_of s" "lit_t (new_level s) = lit_t s" "s_seen (new_level s) = s_seen s"
  by (auto simp: new_level_def decision_level_def nvars_def lit_ok_def literal_value_def level_of_def
      reason_of_def lit_t_def fun_eq_iff)

lemma searching_new_level:
  assumes s: "searching G as s" and h: "s_head s = length (s_trail s)"
  shows "inv G (new_level s)" "seen_clear (new_level s)" "s_consistent (new_level s)" "decided as (new_level s)"
    "shape_ok (new_level s)" "\<forall>i < decision_level s. i < length as \<longrightarrow>
      lit_t (new_level s) (as ! i) \<and> level_of (new_level s) (as ! i) \<le> Suc i"
proof -
  note d = searchingD [OF s]
  have w: "watch_sem (s_head s) s" using d(1) by (simp add: inv_def)
  have b: "base_ok G (new_level s)" by (rule new_level_base_ok [OF d(2) h])
  then show "inv G (new_level s)" using d(6) w by (simp add: inv_def new_level_watches)
  show "shape_ok (new_level s)" using b by (simp add: base_ok_def)
  show "seen_clear (new_level s)" using d(7) by (simp add: seen_clear_def)
  show "s_consistent (new_level s)" using d(9) by (simp add: new_level_def)
  show "decided as (new_level s)" using d(8) by (simp add: search_trail_def decided_def)
  show "\<forall>i < decision_level s. i < length as \<longrightarrow>
      lit_t (new_level s) (as ! i) \<and> level_of (new_level s) (as ! i) \<le> Suc i"
    using d(8) by (simp add: search_trail_def assumed_def)
qed

lemma searching_level_only:
  assumes s: "searching G as s" and h: "s_head s = length (s_trail s)" and t: "lit_t s (as ! decision_level s)"
    and l: "decision_level s < length as"
  shows "searching G as (new_level s)" "progress as (new_level s) < progress as s"
proof -
  note n = searching_new_level [OF s h] and d = searchingD [OF s]
  have "level_of s (as ! decision_level s) \<le> Suc (decision_level s)"
    using level_le_decision [OF d(4), of "as ! decision_level s"] t by (simp add: lit_t_def)
  then have "assumed as (new_level s)" using n(6) t by (auto simp: assumed_def less_Suc_eq)
  then show "searching G as (new_level s)" using n d(10) by (simp add: searching_def search_trail_def)
  show "progress as (new_level s) < progress as s" using l by (simp add: progress_def)
qed

text \<open>A literal enqueued at a new level: the next assumption, or a decision after all of them.\<close>

lemma searching_enqueued:
  assumes s: "searching G as s" and h: "s_head s = length (s_trail s)" and l: "lit_ok s l" "literal_value s l = 0"
    and as: "decision_level s < length as \<longrightarrow> l = as ! decision_level s"
  shows "searching G as (enqueued p l None (new_level s))"
    "progress as (enqueued p l None (new_level s)) < progress as s"
proof -
  let ?n = "new_level s" and ?e = "enqueued p l None (new_level s)"
  note n = searching_new_level [OF s h] and d = searchingD [OF s]
  have l': "lit_ok ?n l" "literal_value ?n l = 0" using l by simp_all
  note f = enqueued_fields [OF l'(2) n(5) l'(1), of p None]
  have "reason_fits ?n l None" by (simp add: reason_fits_def new_level_def)
  then have i: "inv G ?e" using inv_enqueue [OF n(1) l'] by simp
  have nv: "lit_var t \<noteq> lit_var l" if "t \<in> set (s_trail s)" for t using not_var_in_trail [OF d(4) l that] .
  have "assumed as ?e"
    unfolding assumed_def
  proof (intro allI impI)
    fix i assume i: "i < decision_level ?e" "i < length as"
    show "lit_t ?e (as ! i) \<and> level_of ?e (as ! i) \<le> Suc i"
    proof (cases "i < decision_level s")
      case True
      then have t: "lit_t s (as ! i)" "level_of s (as ! i) \<le> Suc i" using n(6) i(2) by simp_all
      then show ?thesis using nv [of "as ! i"] by (simp add: f lit_t_def)
    next
      case False
      then have id: "i = decision_level s" using i(1) by (simp add: f)
      have "as ! i = l" using as i(2) by (simp add: id)
      moreover have "level_of ?e l = Suc i" by (simp add: f(12) id)
      ultimately have "as ! i = l" "level_of ?e l = Suc i" .
      then show ?thesis by (simp add: f(1) lit_t_def)
    qed
  qed
  moreover have "decided as ?e"
    unfolding decided_def
  proof (intro ballI impI)
    fix t assume t: "t \<in> set (s_trail ?e)" "reason_of ?e t = None" "0 < level_of ?e t" "level_of ?e t \<le> length as"
    show "t \<in> set as"
    proof (cases "t = l")
      case True
      then have "decision_level s < length as" using t(4) by (simp add: f)
      then show ?thesis using as True by simp
    next
      case False
      then have "t \<in> set (s_trail s)" using t(1) by (simp add: f)
      then show ?thesis using n(4) t nv [of t] by (simp add: f decided_def)
    qed
  qed
  ultimately show "searching G as ?e"
    using i n(2,3) d(10) by (simp add: searching_def search_trail_def f seen_clear_def)
  have "trail_ok ?e" using i by (simp add: inv_def base_ok_def)
  then have "length (s_trail s) < nvars s" using trail_length [of ?e] by (simp add: f)
  then show "progress as ?e < progress as s" by (simp add: progress_def f)
qed

text \<open>Taking variables off the decision queue that are assigned, or are about to be.\<close>

lemma order_views:
  assumes q: "queue_inv s" "queue_inv (s\<lparr>s_order := h\<rparr>)"
  shows "inv G (s\<lparr>s_order := h\<rparr>) \<longleftrightarrow> inv G s"
proof -
  let ?s = "s\<lparr>s_order := h\<rparr>"
  have sd: "same_db s ?s" by (simp add: same_db_def)
  note db = same_db_simps [OF sd]
  have v: "lit_ok ?s = lit_ok s" "literal_value ?s = literal_value s" "level_of ?s = level_of s"
    "reason_of ?s = reason_of s" "lit_t ?s = lit_t s" "lit_f ?s = lit_f s" "watches_of ?s = watches_of s"
    "root_literals ?s = root_literals s" "nvars ?s = nvars s"
    by (auto simp: nvars_def lit_ok_def literal_value_def level_of_def reason_of_def lit_t_def lit_f_def
        watches_of_def root_literals_def fun_eq_iff)
  have "shape_ok ?s = shape_ok s" "arena_ok ?s = arena_ok s" by (simp_all add: shape_ok_def arena_ok_def v)
  moreover have "clauses_ok ?s = clauses_ok s" unfolding clauses_ok_def db v ..
  moreover have "trail_ok ?s = trail_ok s" "selectors_ok ?s = selectors_ok s"
    unfolding trail_ok_def selectors_ok_def v by simp_all
  moreover have "reasons_ok ?s = reasons_ok s" unfolding reasons_ok_def v db by (simp cong: option.case_cong)
  moreover have "meaning_ok G ?s = meaning_ok G s" unfolding meaning_ok_def v db by simp
  moreover have "coverage_ok G ?s = coverage_ok G s" unfolding coverage_ok_def covered_def v db by simp
  moreover have "watches_ok ?s = watches_ok s" unfolding watches_ok_def watch_ok_def v db ..
  moreover have "watch_sem k ?s = watch_sem k s" for k unfolding watch_sem_def watch_done_defs v db by simp
  ultimately show ?thesis using q by (simp add: inv_def base_ok_def)
qed

lemma queue_inv_picked:
  assumes q: "queue_inv s" and p: "pick_unassigned (s_assignments s) a (s_order s) = (r, h)"
    and e: "s_order e = h" "nvars e = nvars s"
      "\<And>v. var_index v < nvars s \<Longrightarrow> s_assignments e ! var_index v = 0
        \<Longrightarrow> s_assignments s ! var_index v = 0 \<and> r \<noteq> Some v"
  shows "queue_inv e"
proof -
  have k: "slots_ok h" "length (vo_positions h) = length (vo_positions (s_order s))"
    "case r of None \<Rightarrow> vo_vars h = {} \<and> (\<forall>v \<in> vo_vars (s_order s). s_assignments s ! var_index v \<noteq> 0)
     | Some v \<Rightarrow> v \<in> vo_vars (s_order s) \<and> s_assignments s ! var_index v = 0
         \<and> (\<forall>w \<in> vo_vars (s_order s) - vo_vars h. w = v \<or> s_assignments s ! var_index w \<noteq> 0)"
    using pick_unassigned_slots [OF _ p] q by (simp_all add: queue_inv_def)
  show ?thesis
    unfolding queue_inv_def e(1)
  proof (intro conjI allI impI)
    show "slots_ok h" "length (vo_positions h) = nvars e" using k(1,2) q e(2) by (simp_all add: queue_inv_def)
    fix v assume v: "var_index v < nvars e \<and> s_assignments e ! var_index v = 0"
    then have a: "s_assignments s ! var_index v = 0" "r \<noteq> Some v" using e(2,3) by simp_all
    have vo: "v \<in> vo_vars (s_order s)" using q v e(2) a(1) by (simp add: queue_inv_def)
    show "v \<in> vo_vars h"
    proof (cases r)
      case None
      then show ?thesis using k(3) vo a(1) by simp
    next
      case (Some u)
      then have "\<forall>w \<in> vo_vars (s_order s) - vo_vars h. w = u \<or> s_assignments s ! var_index w \<noteq> 0"
        using k(3) by simp
      then show ?thesis using vo a Some by (metis DiffI)
    qed
  qed
qed

lemma searching_decides:
  assumes s: "searching G as s" and h: "s_head s = length (s_trail s)" and l: "\<not> decision_level s < length as"
    and p: "pick_branch_literal s = (Some d, s1)"
  shows "searching G as (snd (enqueue d None ((new_level s1)\<lparr>s_stats := st\<rparr>)))"
    "progress as (snd (enqueue d None ((new_level s1)\<lparr>s_stats := st\<rparr>))) < progress as s"
proof -
  note sd = searchingD [OF s]
  obtain v q where p': "pick_unassigned (s_assignments s) (s_activity s) (s_order s) = (Some v, q)"
    "d = lit_new v (s_phase s ! var_index v)" "s1 = s\<lparr>s_order := q\<rparr>"
    using p by (auto simp: pick_branch_literal_def split: prod.splits option.splits)
  have v: "v \<in> vo_vars (s_order s)" "s_assignments s ! var_index v = 0"
    using pick_unassigned_slots [OF _ p'(1)] sd(5) by (simp_all add: queue_inv_def)
  have vb: "var_index v < nvars s"
    using v(1) sd(5) by (auto simp: queue_inv_def vo_vars_def slots_ok_def in_set_conv_nth)
  then have vl: "lit_var d = v" using p'(2) sd(3) by (simp add: shape_ok_def var_ok_def)
  have d: "lit_ok s d" "literal_value s d = 0"
    using v vb vl by (simp_all add: lit_ok_def literal_value_def value_of_def)
  let ?e = "enqueued True d None (new_level s)" and ?r = "snd (enqueue d None ((new_level s1)\<lparr>s_stats := st\<rparr>))"
  have k: "searching G as ?e" "progress as ?e < progress as s"
    using searching_enqueued [OF s h d] l by simp_all
  have r: "?r = ?e\<lparr>s_order := q, s_stats := st\<rparr>"
    using d(2) by (simp add: enqueue_def enqueued_def enqueue_internal_def p'(3) new_level_def literal_value_def
        Let_def decision_level_def)
  have asg: "s_assignments ?e = (s_assignments s)[var_index v := (if is_positive d then 1 else - 1)]"
    using d(2) vl by (simp add: enqueued_def enqueue_unassigned) (simp add: new_level_def)
  have nv: "nvars ?e = nvars s" by (simp add: nvars_def asg)
  have "queue_inv (?e\<lparr>s_order := q\<rparr>)"
  proof (rule queue_inv_picked [OF sd(5) p'(1)])
    show "s_order (?e\<lparr>s_order := q\<rparr>) = q" "nvars (?e\<lparr>s_order := q\<rparr>) = nvars s"
      using nv by (simp_all add: nvars_def)
    fix w assume w: "var_index w < nvars s" "s_assignments (?e\<lparr>s_order := q\<rparr>) ! var_index w = 0"
    then show "s_assignments s ! var_index w = 0 \<and> Some v \<noteq> Some w"
      by (cases "w = v") (auto simp: asg nvars_def nth_list_update var_index_eq_iff split: if_splits)
  qed
  then have "inv G (?e\<lparr>s_order := q\<rparr>)" using order_views searchingD(1,5) [OF k(1)] by blast
  moreover have "frame_eq (?e\<lparr>s_order := q\<rparr>) ?r" unfolding r by (simp add: frame_eq_def same_db_def)
  ultimately have i: "inv G ?r" using frame_inv by blast
  have views: "decision_level ?r = decision_level ?e" "s_trail ?r = s_trail ?e" "level_of ?r = level_of ?e"
    "reason_of ?r = reason_of ?e" "lit_t ?r = lit_t ?e" "nvars ?r = nvars ?e" "lit_ok ?r = lit_ok ?e"
    "s_seen ?r = s_seen ?e" "s_consistent ?r = s_consistent ?e"
    unfolding r by (auto simp: decision_level_def level_of_def reason_of_def lit_t_def nvars_def lit_ok_def fun_eq_iff)
  show "searching G as ?r"
    using k(1) i unfolding searching_def search_trail_def assumed_def decided_def seen_clear_def views by simp
  show "progress as ?r < progress as s" using k(2) unfolding progress_def views .
qed

subsection \<open>Models\<close>

definition valuation_of :: "bool list \<Rightarrow> valuation" where
  "valuation_of m v \<longleftrightarrow> var_index v < length m \<and> m ! var_index v"

lemma valuation_true:
  assumes t: "trail_ok s" and l: "lit_ok s l" "lit_t s l \<or> lit_f s l"
  shows "lit_true (valuation_of (map (\<lambda>v. v = 1) (s_assignments s))) l \<longleftrightarrow> lit_t s l"
proof -
  have i: "var_index (lit_var l) < length (s_assignments s)" using l(1) by (simp add: lit_ok_def nvars_def)
  have "literal_value s l = 1 \<longleftrightarrow> lit_t s l" "literal_value s l = - 1 \<longleftrightarrow> lit_f s l"
    using literal_value_iff [OF t l(1)] by simp_all
  then show ?thesis
    using i l(2) lit_t_f [OF t, of l]
    by (auto simp: lit_true_def valuation_of_def literal_value_def value_of_def split: if_splits)
qed

lemma complete_assignment_models:
  assumes i: "inv G s" and c: "s_consistent s" and h: "s_head s = length (s_trail s)"
    and all: "\<forall>i < nvars s. s_assignments s ! i \<noteq> 0"
  defines "\<sigma> \<equiv> valuation_of (map (\<lambda>v. v = 1) (s_assignments s))"
  shows "models \<sigma> G" "\<And>l. lit_t s l \<Longrightarrow> lit_true \<sigma> l"
proof -
  have b: "base_ok G s" "trail_ok s" "clauses_ok s" "coverage_ok G s" "watch_sem (length (s_trail s)) s"
    using i h by (simp_all add: inv_def base_ok_def)
  have tf: "lit_t s l \<or> lit_f s l" if "lit_ok s l" for l
  proof -
    have "literal_value s l \<noteq> 0" using all that by (simp add: literal_value_def value_of_def lit_ok_def Let_def)
    then show ?thesis using literal_value_iff(3) [OF b(2) that] by blast
  qed
  have val: "lit_true \<sigma> l \<longleftrightarrow> lit_t s l" if "lit_ok s l" for l
    unfolding \<sigma>_def by (rule valuation_true [OF b(2) that tf [OF that]])
  show lt: "\<And>l. lit_t s l \<Longrightarrow> lit_true \<sigma> l" using val true_lit_ok [OF b(2)] by blast
  have live: "\<exists>l \<in> set (clause_literals s c). lit_t s l" if c: "live s c" for c
  proof (cases "\<forall>l \<in> set (take 2 (clause_literals s c)). lit_not l \<in> set (s_trail s)")
    case True
    then show ?thesis using b(5) c unfolding watch_sem_def watch_but_def both_done_def by auto
  next
    case False
    then obtain l where l: "l \<in> set (take 2 (clause_literals s c))" "\<not> lit_f s l" by (auto simp: lit_f_def)
    then have "l \<in> set (clause_literals s c)" by (meson in_set_takeD)
    then show ?thesis using l(2) tf clauses_okD(3) [OF b(3) liveD [OF c]] by blast
  qed
  show "models \<sigma> G"
    unfolding models_def
  proof
    fix d assume d: "d \<in> G"
    then have "covered s d" using b(4) c by (simp add: coverage_ok_def)
    then consider l where "l \<in> set d" "lit_not l \<in> set d" | l where "l \<in> set d" "l \<in> root_literals s"
      | c' where "live s c'" "set (clause_literals s c') = set d"
      unfolding covered_def by blast
    then show "clause_true \<sigma> d"
    proof cases
      case 1
      then show ?thesis unfolding clause_true_def by (metis lit_true_not)
    next
      case 2
      then show ?thesis using lt by (auto simp: clause_true_def root_literals_def lit_t_def)
    next
      case 3
      then show ?thesis using live [of c'] lt unfolding clause_true_def by blast
    qed
  qed
qed

subsection \<open>Failed assumptions\<close>

lemma update_true: "j < length xs \<Longrightarrow> xs[i := True] ! j \<longleftrightarrow> xs ! j \<or> i = j"
  by (cases "i = j") simp_all

lemma mark_antecedents_nth:
  "length (mark_antecedents s v lits seen) = length seen"
  "j < length seen \<Longrightarrow> mark_antecedents s v lits seen ! j \<longleftrightarrow>
     seen ! j \<or> (\<exists>l \<in> set lits. lit_var l \<noteq> v \<and> level_of s l > 0 \<and> var_index (lit_var l) = j)"
proof -
  have "length (mark_antecedents s v lits seen) = length seen \<and> (j < length seen \<longrightarrow>
    (mark_antecedents s v lits seen ! j \<longleftrightarrow>
     seen ! j \<or> (\<exists>l \<in> set lits. lit_var l \<noteq> v \<and> level_of s l > 0 \<and> var_index (lit_var l) = j)))"
    by (induction lits arbitrary: seen) (auto simp: mark_antecedents_def update_true)
  then show "length (mark_antecedents s v lits seen) = length seen"
    "j < length seen \<Longrightarrow> mark_antecedents s v lits seen ! j \<longleftrightarrow>
     seen ! j \<or> (\<exists>l \<in> set lits. lit_var l \<noteq> v \<and> level_of s l > 0 \<and> var_index (lit_var l) = j)"
    by blast+
qed

text \<open>The literals of the trail from the first assumption on.\<close>

lemma level_positive:
  assumes t: "trail_ok s" and d: "0 < decision_level s" and i: "i < length (s_trail s)"
  shows "0 < level_of s (s_trail s ! i) \<longleftrightarrow> s_trail_limits s ! 0 \<le> i"
proof -
  obtain m ms where ms: "s_trail_limits s = m # ms" using d by (cases "s_trail_limits s") (auto simp: decision_level_def)
  have le: "level_of s (s_trail s ! i) = length (filter (\<lambda>n. n \<le> i) (s_trail_limits s))" "\<forall>n \<in> set ms. m \<le> n"
    using t i by (simp_all add: trail_ok_def ms)
  have "0 < level_of s (s_trail s ! i) \<longleftrightarrow> (\<exists>n \<in> set (m # ms). n \<le> i)"
    unfolding le(1) ms length_greater_0_conv filter_empty_conv by blast
  also have "\<dots> \<longleftrightarrow> m \<le> i" using le(2) by (auto intro: order_trans)
  finally show ?thesis by (simp add: ms)
qed

text \<open>The marked literals below index \<open>n\<close>.\<close>

definition core_marks :: "'f solver \<Rightarrow> nat \<Rightarrow> bool list \<Rightarrow> lit set" where
  "core_marks s n seen = {s_trail s ! i |i. s_trail_limits s ! 0 \<le> i \<and> i < n
     \<and> seen ! var_index (lit_var (s_trail s ! i))}"

definition core_inv :: "lit list set \<Rightarrow> lit list \<Rightarrow> nat \<Rightarrow> 'f solver \<Rightarrow> nat \<Rightarrow> bool list \<times> lit list \<Rightarrow> bool" where
  "core_inv G as e s n = (\<lambda>(seen, conflict).
     length seen = nvars s
     \<and> (\<forall>j < nvars s. seen ! j \<longrightarrow> j = e \<or> (\<exists>i < n. s_trail_limits s ! 0 \<le> i \<and> j = var_index (lit_var (s_trail s ! i))))
     \<and> entails_set G (lit_not ` core_marks s n seen \<union> set conflict)
     \<and> lit_not ` set conflict \<subseteq> set as)"

lemma core_step:
  assumes b: "base_ok G s" and st: "decided as s" and d: "0 < decision_level s" "decision_level s \<le> length as"
    and n: "s_trail_limits s ! 0 \<le> n" "n < length (s_trail s)"
    and inv: "core_inv G as e s (Suc n) (seen, conflict)"
  shows "\<exists>acc. failed_loop s (s_trail s ! n # rest) (seen, conflict) = failed_loop s rest acc \<and> core_inv G as e s n acc"
proof -
  have t: "trail_ok s" "reasons_ok s" "meaning_ok G s" using b by (simp_all add: base_ok_def)
  define p where "p = s_trail s ! n"
  define i where "i = var_index (lit_var p)"
  have pT: "p \<in> set (s_trail s)" using n by (simp add: p_def)
  have iN: "i < nvars s" using t(1) pT by (simp add: i_def trail_ok_def lit_ok_def)
  have k: "length seen = nvars s" "entails_set G (lit_not ` core_marks s (Suc n) seen \<union> set conflict)"
    "lit_not ` set conflict \<subseteq> set as"
    "\<And>j. j < nvars s \<Longrightarrow> seen ! j \<Longrightarrow> j = e \<or> (\<exists>i < Suc n. s_trail_limits s ! 0 \<le> i \<and> j = var_index (lit_var (s_trail s ! i)))"
    using inv by (simp_all add: core_inv_def)
  have ne: "var_index (lit_var (s_trail s ! q)) \<noteq> i" if "q < n" for q
  proof
    assume "var_index (lit_var (s_trail s ! q)) = i"
    then have "map lit_var (s_trail s) ! q = map lit_var (s_trail s) ! n"
      using that n by (simp add: i_def p_def var_index_eq_iff)
    then show False using t(1) that n nth_eq_iff_index_eq [of "map lit_var (s_trail s)" q n] by (simp add: trail_ok_def)
  qed
  have Suc: "core_marks s (Suc n) seen = core_marks s n seen \<union> (if seen ! i then {p} else {})"
    using n(1) by (auto simp: core_marks_def p_def i_def less_Suc_eq)
  have up: "core_marks s n (seen[i := x]) = core_marks s n seen" for x
  proof -
    have "seen[i := x] ! var_index (lit_var (s_trail s ! q)) = seen ! var_index (lit_var (s_trail s ! q))"
      if "q < n" for q using ne [OF that] by (metis nth_list_update_neq)
    then show ?thesis unfolding core_marks_def by (intro Collect_cong ex_cong1) (simp cong: conj_cong)
  qed
  show ?thesis
  proof (cases "seen ! i")
    case False
    have "j = e \<or> (\<exists>i < n. s_trail_limits s ! 0 \<le> i \<and> j = var_index (lit_var (s_trail s ! i)))"
      if j: "j < nvars s" "seen ! j" for j
    proof -
      have "j \<noteq> i" using j(2) False by blast
      then show ?thesis using k(4) [OF j] unfolding i_def p_def less_Suc_eq by blast
    qed
    then have "core_inv G as e s n (seen, conflict)" using k(1-3) Suc False by (simp add: core_inv_def)
    then show ?thesis using False by (auto simp: p_def i_def)
  next
    case True
    let ?s1 = "seen[i := False]"
    have ent: "entails_set G (insert (lit_not p) (lit_not ` core_marks s n seen \<union> set conflict))"
      using k(2) True by (simp add: Suc)
    have win: "j = e \<or> (\<exists>i < n. s_trail_limits s ! 0 \<le> i \<and> j = var_index (lit_var (s_trail s ! i)))"
      if "j < nvars s" "?s1 ! j" for j
      using k(4) [of j] that k(1) by (cases "j = i") (auto simp: less_Suc_eq i_def p_def)
    show ?thesis
    proof (cases "reason_of s p")
      case None
      have "0 < level_of s p" using level_positive [OF t(1) d(1) n(2)] n(1) by (simp add: p_def)
      moreover have "level_of s p \<le> length as" using level_le_decision [OF t(1) pT] d(2) by simp
      ultimately have "p \<in> set as" using st pT None by (auto simp: decided_def)
      then have "core_inv G as e s n (?s1, conflict @ [lit_not p])"
        using k(1,3) ent win by (simp add: core_inv_def up)
      then show ?thesis using True None by (auto simp: p_def i_def Let_def)
    next
      case (Some r)
      note rd = reasons_okD [OF t(2) n(2), folded p_def, OF Some]
      let ?R = "set (clause_literals s r)" and ?s2 = "mark_antecedents s (lit_var p) (clause_literals s r) ?s1"
      have "entails_set G (insert p (?R - {p}))"
        using t(3) liveD [OF rd(1)] rd(2) by (simp add: meaning_ok_def entails_set_iff insert_absorb)
      from entails_resolve [OF ent this]
      have res: "entails_set G (lit_not ` core_marks s n seen \<union> set conflict \<union> (?R - {p}))" .
      have s2: "?s2 ! j \<longleftrightarrow> ?s1 ! j \<or> (\<exists>l \<in> ?R. lit_var l \<noteq> lit_var p \<and> level_of s l > 0 \<and> var_index (lit_var l) = j)"
        if "j < nvars s" for j
        using mark_antecedents_nth(2) [of j ?s1] that k(1) by simp
      have ante: "\<exists>q < n. s_trail_limits s ! 0 \<le> q \<and> lit_not l = s_trail s ! q"
        if l: "l \<in> ?R" "l \<noteq> p" "level_of s l > 0" for l
      proof -
        have "lit_not l \<in> set (take n (s_trail s))" using rd(3) l by simp
        then obtain q where q: "q < n" "s_trail s ! q = lit_not l" using n(2) by (auto simp: in_set_conv_nth)
        then have "0 < level_of s (s_trail s ! q)" using l(3) by simp
        then have "s_trail_limits s ! 0 \<le> q" using level_positive [OF t(1) d(1), of q] q(1) n(2) by simp
        then show ?thesis using q by metis
      qed
      have lv: "lit_var l \<noteq> lit_var p" if "l \<in> ?R" "l \<noteq> p" for l
      proof
        assume "lit_var l = lit_var p"
        then have "lit_not l = p" using that(2) by (auto simp: lit_var_eq_iff)
        moreover have "lit_not l \<in> set (take n (s_trail s))" using rd(3) that by simp
        ultimately obtain q where "q < n" "s_trail s ! q = p" using n(2) by (auto simp: in_set_conv_nth)
        then show False using ne [of q] by (simp add: i_def)
      qed
      have "entails_set G (lit_not ` core_marks s n ?s2 \<union> set conflict)"
      proof (rule entails_drop [OF res])
        fix l assume "l \<in> lit_not ` core_marks s n seen \<union> set conflict \<union> (?R - {p})"
        then consider "l \<in> lit_not ` core_marks s n seen" | "l \<in> set conflict" | "l \<in> ?R" "l \<noteq> p" by blast
        then show "l \<in> lit_not ` core_marks s n ?s2 \<union> set conflict \<or> entails G [lit_not l]"
        proof cases
          case 1
          have "core_marks s n seen \<subseteq> core_marks s n ?s2"
          proof
            fix x assume "x \<in> core_marks s n seen"
            then have "x \<in> core_marks s n ?s1" by (simp add: up)
            then obtain q where q: "x = s_trail s ! q" "s_trail_limits s ! 0 \<le> q" "q < n" "?s1 ! var_index (lit_var x)"
              unfolding core_marks_def by blast
            have "x \<in> set (s_trail s)" using q n(2) by simp
            then have "var_index (lit_var x) < nvars s" using t(1) by (simp add: trail_ok_def lit_ok_def)
            then have "?s2 ! var_index (lit_var x)" using s2 q(4) by blast
            then show "x \<in> core_marks s n ?s2" using q unfolding core_marks_def by blast
          qed
          then show ?thesis using 1 by blast
        next
          case 3
          have lf: "lit_f s l" using rd(3) 3 by (auto simp: lit_f_def dest: in_set_takeD)
          show ?thesis
          proof (cases "level_of s l = 0")
            case True
            then show ?thesis using root_false [OF b lf] by blast
          next
            case False
            then obtain q where q: "q < n" "s_trail_limits s ! 0 \<le> q" "lit_not l = s_trail s ! q" using ante 3 by blast
            have "lit_ok s l" by (rule false_lit_ok [OF t(1) lf])
            then have "?s2 ! var_index (lit_var l)" using s2 [of "var_index (lit_var l)"] 3 lv False by (auto simp: lit_ok_def)
            moreover have "lit_var (s_trail s ! q) = lit_var l" by (metis q(3) lit_var_not)
            ultimately have "?s2 ! var_index (lit_var (s_trail s ! q))" by simp
            then have "s_trail s ! q \<in> core_marks s n ?s2" using q(1,2) unfolding core_marks_def by blast
            then have "lit_not l \<in> core_marks s n ?s2" by (simp add: q(3))
            then have "lit_not (lit_not l) \<in> lit_not ` core_marks s n ?s2" by (rule imageI)
            then show ?thesis by simp
          qed
        qed blast
      qed
      moreover have "j = e \<or> (\<exists>i < n. s_trail_limits s ! 0 \<le> i \<and> j = var_index (lit_var (s_trail s ! i)))"
        if j: "j < nvars s" "?s2 ! j" for j
      proof (cases "?s1 ! j")
        case False
        then obtain l where l: "l \<in> ?R" "lit_var l \<noteq> lit_var p" "level_of s l > 0" "var_index (lit_var l) = j"
          using s2 [OF j(1)] j(2) by blast
        then have "l \<noteq> p" by blast
        then obtain q where "q < n" "s_trail_limits s ! 0 \<le> q" "lit_not l = s_trail s ! q" using ante l by blast
        moreover from this(3) have "lit_var (s_trail s ! q) = lit_var l" by (metis lit_var_not)
        ultimately show ?thesis using l(4) by auto
      qed (use win j in blast)
      ultimately have "core_inv G as e s n (?s2, conflict)"
        using k(1,3) by (simp add: core_inv_def mark_antecedents_nth(1))
      then show ?thesis using True Some by (auto simp: p_def i_def Let_def)
    qed
  qed
qed

lemma core_loop:
  assumes b: "base_ok G s" and st: "decided as s" and d: "0 < decision_level s" "decision_level s \<le> length as"
  shows "n \<le> length (s_trail s) \<Longrightarrow> core_inv G as e s n acc \<Longrightarrow>
    (case failed_loop s (rev (drop (s_trail_limits s ! 0) (take n (s_trail s)))) acc of (seen, conflict) \<Rightarrow>
       length seen = nvars s \<and> (\<forall>j < nvars s. seen ! j \<longrightarrow> j = e) \<and> entails_set G (set conflict)
       \<and> lit_not ` set conflict \<subseteq> set as)"
proof (induction n arbitrary: acc)
  case 0
  then show ?case by (cases acc) (simp add: core_inv_def core_marks_def)
next
  case (Suc n)
  obtain seen conflict where acc: "acc = (seen, conflict)" by fastforce
  show ?case
  proof (cases "s_trail_limits s ! 0 \<le> n")
    case False
    have "core_marks s (Suc n) seen = {}" using False by (auto simp: core_marks_def)
    then show ?thesis using Suc.prems(2) False by (auto simp: acc core_inv_def)
  next
    case True
    have n: "n < length (s_trail s)" using Suc.prems(1) by simp
    have r: "rev (drop (s_trail_limits s ! 0) (take (Suc n) (s_trail s)))
        = s_trail s ! n # rev (drop (s_trail_limits s ! 0) (take n (s_trail s)))"
      using True n by (simp add: take_Suc_conv_app_nth)
    obtain acc' where "failed_loop s (s_trail s ! n # rev (drop (s_trail_limits s ! 0) (take n (s_trail s)))) acc
        = failed_loop s (rev (drop (s_trail_limits s ! 0) (take n (s_trail s)))) acc'" "core_inv G as e s n acc'"
      using core_step [OF b st d True n, of e seen conflict] Suc.prems(2) unfolding acc by blast
    then show ?thesis using Suc.IH [of acc'] n unfolding r by simp
  qed
qed

definition refutes :: "lit list set \<Rightarrow> lit list \<Rightarrow> bool" where
  "refutes G as \<longleftrightarrow> (\<forall>\<sigma>. models \<sigma> G \<longrightarrow> \<not> (\<forall>a \<in> set as. lit_true \<sigma> a))"

lemma core_filter:
  "distinct acc \<Longrightarrow>
     distinct (fold (\<lambda>a acc. if P a \<and> a \<notin> set acc then acc @ [a] else acc) as acc)
   \<and> set (fold (\<lambda>a acc. if P a \<and> a \<notin> set acc then acc @ [a] else acc) as acc) = set acc \<union> {a \<in> set as. P a}"
  by (induction as arbitrary: acc) auto

lemma failed_assumption_ok:
  assumes s: "searching G as s" and d: "decision_level s \<le> length as" and a: "a \<in> set as" "lit_f s a"
    and f: "analyze_failed_assumption a as s = (core, s1)"
  shows "set core \<subseteq> set as \<and> distinct core \<and> refutes G core \<and> (\<exists>x. s1 = s\<lparr>s_seen := x\<rparr> \<and> length x = nvars s)
    \<and> seen_clear s1"
proof -
  note sd = searchingD [OF s]
  let ?i = "var_index (lit_var a)"
  have len: "length (s_seen s) = nvars s" using sd(3) by (simp add: shape_ok_def)
  have clear: "\<not> s_seen s ! j" if "j < nvars s" for j using sd(7) that by (simp add: seen_clear_def)
  have ai: "?i < nvars s" using sd(10) [OF a(1)] by (simp add: lit_ok_def)
  let ?seen0 = "(s_seen s)[?i := True]"
  have s0: "?seen0 ! j \<longleftrightarrow> j = ?i" if "j < nvars s" for j
    using clear [OF that] that len by (auto simp: update_true)
  have root: "entails G [lit_not a]" if "level_of s a = 0" by (rule root_false [OF sd(2) a(2) that])
  obtain seen conflict where r: "(if decision_level s > 0
             then failed_loop s (rev (drop (s_trail_limits s ! 0) (s_trail s))) (?seen0, [lit_not a])
             else (?seen0, [lit_not a])) = (seen, conflict)"
    by fastforce
  have post: "length seen = nvars s \<and> (\<forall>j < nvars s. seen ! j \<longrightarrow> j = ?i) \<and> entails_set G (set conflict)
       \<and> lit_not ` set conflict \<subseteq> set as"
  proof (cases "decision_level s > 0")
    case False
    then have "level_of s a = 0" using level_le_decision [OF sd(4), of "lit_not a"] a(2) by (simp add: lit_f_def)
    then have "entails_set G {lit_not a}" using root by (simp add: entails_set_iff)
    then show ?thesis using False r a(1) s0 len by auto
  next
    case True
    have dec: "decided as s" using sd(8) by (simp add: search_trail_def)
    have "core_inv G as ?i s (length (s_trail s)) (?seen0, [lit_not a])"
    proof -
      have "entails_set G (lit_not ` core_marks s (length (s_trail s)) ?seen0 \<union> {lit_not a})"
      proof (cases "level_of s a = 0")
        case True
        then have "entails_set G {lit_not a}" using root by (simp add: entails_set_iff)
        then show ?thesis by (rule entails_set_mono) simp
      next
        case False
        obtain q where q: "q < length (s_trail s)" "s_trail s ! q = lit_not a"
          using a(2) by (auto simp: lit_f_def in_set_conv_nth)
        then have "s_trail_limits s ! 0 \<le> q" using level_positive [OF sd(4) True q(1)] False by simp
        moreover have "lit_var (s_trail s ! q) = lit_var a" by (simp add: q(2))
        then have "?seen0 ! var_index (lit_var (s_trail s ! q))" using s0 [OF ai] by simp
        ultimately have "s_trail s ! q \<in> core_marks s (length (s_trail s)) ?seen0"
          using q(1) unfolding core_marks_def by blast
        then have "lit_not (lit_not a) \<in> lit_not ` core_marks s (length (s_trail s)) ?seen0"
          unfolding q(2) by (rule imageI)
        then show ?thesis unfolding entails_set_def
          by (metis UnI1 UnI2 insertI1 lit_not_not lit_true_not)
      qed
      then show ?thesis using a(1) s0 len by (simp add: core_inv_def)
    qed
    from core_loop [OF sd(2) dec True d order_refl this] show ?thesis using r True by simp
  qed
  have core: "core = fold (\<lambda>a acc. if lit_not a \<in> set conflict \<and> a \<notin> set acc then acc @ [a] else acc) as []"
    "s1 = s\<lparr>s_seen := seen[?i := False]\<rparr>"
    using f r by (auto simp: analyze_failed_assumption_def Let_def split: prod.splits)
  have cs: "distinct core" "set core = {a \<in> set as. lit_not a \<in> set conflict}"
    using core_filter [of "[]" "\<lambda>a. lit_not a \<in> set conflict" as] by (simp_all add: core(1))
  have "refutes G core"
    unfolding refutes_def
  proof (intro allI impI notI)
    fix \<sigma> assume m: "models \<sigma> G" "\<forall>a \<in> set core. lit_true \<sigma> a"
    then obtain l where l: "l \<in> set conflict" "lit_true \<sigma> l" using post by (auto simp: entails_set_def)
    then have "lit_not l \<in> set core" using post by (auto simp: cs(2))
    then show False using m(2) l(2) lit_true_not by blast
  qed
  moreover have "seen_clear s1"
    unfolding seen_clear_def
  proof (intro allI impI)
    fix j assume "j < nvars s1"
    then have j: "j < nvars s" by (simp add: core(2) nvars_def)
    then show "\<not> s_seen s1 ! j" using post by (cases "j = ?i") (auto simp: core(2))
  qed
  ultimately show ?thesis using cs post core(2) by auto
qed

subsection \<open>The decision step\<close>

text \<open>
  What holds when the search returns, however it ends. When it is stopped right after a conflict,
  the last literal has not been processed completely: backtracking repairs this above level 0,
  and at level 0 a pending conflict remains, which the next propagation will find.
\<close>

definition settled :: "lit list set \<Rightarrow> 'f solver \<Rightarrow> bool" where
  "settled G s \<longleftrightarrow> base_ok G s \<and> watches_ok s \<and> seen_clear s \<and> (s_consistent s \<longrightarrow>
     (\<exists>j. watch_sem j s \<and> (\<forall>n \<in> set (s_trail_limits s). n \<le> j))
     \<and> (decision_level s = 0 \<longrightarrow> watch_sem (s_head s) s \<or> (\<exists>c. pending c s)))"

definition answer_ok :: "lit list set \<Rightarrow> lit list \<Rightarrow> solve_result \<Rightarrow> 'f solver \<Rightarrow> bool" where
  "answer_ok G as r s \<longleftrightarrow>
     (case r of
        Sat m \<Rightarrow> s_consistent s \<and> length m = s_variable_count s \<and> models (valuation_of m) G
          \<and> (\<forall>a \<in> set as. lit_true (valuation_of m) a)
      | Unsat \<Rightarrow> if s_consistent s
                 then set (s_failed s) \<subseteq> set as \<and> distinct (s_failed s) \<and> refutes G (s_failed s)
                 else entails G []
      | Unknown _ \<Rightarrow> s_consistent s)"

lemma inv_settled: "inv G s \<Longrightarrow> seen_clear s \<Longrightarrow> settled G s"
  unfolding inv_def settled_def base_ok_def trail_ok_def by blast

lemma searching_settled: "searching G as s \<Longrightarrow> settled G s"
  by (simp add: searching_def inv_settled)

lemma search_decide_ok:
  assumes s: "searching G as s" and h: "s_head s = length (s_trail s)"
    and e: "search_decide as s = (r, s')"
  shows "case r of
      Inr _ \<Rightarrow> searching G as s' \<and> progress as s' < progress as s \<and> steer_view s' = steer_view s
    | Inl a \<Rightarrow> answer_ok G as a s' \<and> settled G s' \<and> search_view s' = search_view s
        \<and> (a = Unsat \<and> s_consistent s' \<or> s_failed s' = s_failed s)"
proof (cases "decision_level s < length as")
  case True
  note sd = searchingD [OF s]
  let ?a = "as ! decision_level s"
  have ao: "lit_ok s ?a" using sd(10) True by simp
  note lv = literal_value_iff [OF sd(4) ao]
  consider "literal_value s ?a = 1" | "literal_value s ?a = - 1" | "literal_value s ?a = 0"
    using value_cases [OF sd(4) ao] by blast
  then show ?thesis
  proof cases
    case 1
    then show ?thesis using e True lv searching_level_only [OF s h _ True] by (auto simp: search_decide_def Let_def)
  next
    case 2
    obtain core s1 where f: "analyze_failed_assumption ?a as s = (core, s1)" by fastforce
    have d: "decision_level s \<le> length as" and am: "?a \<in> set as" "lit_f s ?a" using True 2 lv by simp_all
    from failed_assumption_ok [OF s d am f] obtain x where k: "set core \<subseteq> set as" "distinct core" "refutes G core"
      "s1 = s\<lparr>s_seen := x\<rparr>" "length x = nvars s" "seen_clear s1" by blast
    have rs: "r = Inl Unsat" "s' = s1\<lparr>s_failed := core\<rparr>"
      using e True 2 f by (simp_all add: search_decide_def Let_def)
    have "frame_eq s s1" using frame_eq_seen [of x s] k(5) sd(3) by (simp add: k(4) shape_ok_def)
    then have "frame_eq s s'" by (simp add: rs(2) frame_eq_def same_db_def)
    then have "inv G s'" using frame_inv sd(1) by blast
    moreover have "seen_clear s'" using k(6) by (simp add: rs(2) seen_clear_def nvars_def)
    moreover have "s_consistent s'" using sd(9) by (simp add: rs(2) k(4))
    ultimately show ?thesis using k(1-3) by (simp add: rs(1) answer_ok_def inv_settled) (simp add: rs(2) k(4) view_defs)
  next
    case 3
    have "snd (enqueue_internal False ?a None (new_level s)) = enqueued False ?a None (new_level s)"
      by (simp add: enqueued_def)
    moreover have "steer_view (enqueued False ?a None (new_level s)) = steer_view s"
      by (simp add: enqueued_def view_defs enqueue_internal_def Let_def) (simp add: new_level_def)
    ultimately show ?thesis
      using e True 3 searching_enqueued [OF s h ao 3, of False] by (auto simp: search_decide_def Let_def)
  qed
next
  case False
  note sd = searchingD [OF s]
  obtain p s1 where p: "pick_branch_literal s = (p, s1)" by fastforce
  show ?thesis
  proof (cases p)
    case (Some d)
    obtain q where q: "s1 = s\<lparr>s_order := q\<rparr>"
      using p by (auto simp: pick_branch_literal_def split: prod.splits option.splits)
    let ?st = "(s_stats (new_level s1))\<lparr>st_decisions := st_decisions (s_stats (new_level s1)) + 1\<rparr>"
    have rs: "r = Inr ()" "s' = snd (enqueue d None ((new_level s1)\<lparr>s_stats := ?st\<rparr>))"
      using e False p Some by (simp_all add: search_decide_def Let_def)
    have "steer_view s' = steer_view s"
      by (simp add: rs(2) enqueue_def view_defs enqueue_internal_def Let_def q) (simp add: new_level_def)
    then show ?thesis using searching_decides [OF s h False p [unfolded Some]] by (simp add: rs)
  next
    case None
    obtain q where q: "pick_unassigned (s_assignments s) (s_activity s) (s_order s) = (None, q)" "s1 = s\<lparr>s_order := q\<rparr>"
      using p None by (auto simp: pick_branch_literal_def split: prod.splits option.splits)
    have "queue_inv s1" by (rule queue_inv_picked [OF sd(5) q(1)]) (simp_all add: q(2) nvars_def)
    then have i1: "inv G s1" using order_views [OF sd(5)] sd(1) unfolding q(2) by blast
    let ?m = "map (\<lambda>v. v = 1) (s_assignments s)"
    have n1: "nvars s1 = nvars s" by (simp add: q(2) nvars_def)
    have rs: "s' = s1" "r = Inl (Sat ?m)"
      using e False p None sd(3) by (auto simp: search_decide_def q(2) shape_ok_def nvars_def)
    have nz: "\<forall>i < nvars s. s_assignments s ! i \<noteq> 0"
    proof (intro allI impI)
      fix i assume i: "i < nvars s"
      have "nvars s \<le> MAX_VARIABLES" using sd(3) by (simp add: shape_ok_def)
      then have vi: "var_index (Var (of_nat i)) = i"
        using i by (intro var_index_of_nat) simp
      have "\<forall>v \<in> vo_vars (s_order s). s_assignments s ! var_index v \<noteq> 0"
        using pick_unassigned_slots [OF _ q(1)] sd(5) by (simp add: queue_inv_def)
      moreover have "s_assignments s ! var_index (Var (of_nat i)) = 0 \<longrightarrow> Var (of_nat i) \<in> vo_vars (s_order s)"
        using sd(5) i vi by (simp add: queue_inv_def)
      ultimately show "s_assignments s ! i \<noteq> 0" using vi by metis
    qed
    note m = complete_assignment_models [OF sd(1,9) h nz]
    have "\<forall>a \<in> set as. lit_t s a"
      using sd(8) False by (auto simp: search_trail_def assumed_def in_set_conv_nth)
    then have "answer_ok G as (Sat ?m) s'"
      using m sd(3,9) by (simp add: rs answer_ok_def q(2) shape_ok_def nvars_def)
    moreover have "seen_clear s'" using sd(7) by (simp add: rs(1) q(2) seen_clear_def nvars_def)
    moreover have "search_view s' = search_view s" "s_failed s' = s_failed s" by (simp_all add: rs(1) q(2) view_defs)
    ultimately show ?thesis using i1 by (simp add: rs inv_settled)
  qed
qed

end
