(* ===== verification/Solver_Run.thy ===== *)
theory Solver_Run
  imports Solver_Loop
begin

section \<open>The search from start to answer\<close>

text \<open>
  One iteration of the search never panics; it answers correctly or makes progress: it learns
  from a conflict, or assigns a variable or opens an assumption level. Hence the search answers
  correctly, and it returns when a conflict limit is set and when the interrupt flag is raised
  at some future poll.
\<close>

subsection \<open>What propagation and polling leave alone\<close>

lemma visit_steer: "visit_watch f w s = (k, c, s') \<Longrightarrow> steer_view s' = steer_view s"
  by (auto simp: visit_watch_def visit_binary_fast_def visit_binary_slow_def visit_long_def enqueue_def Let_def
      split: if_splits option.splits)

lemma scan_steer: "steer_view (snd (snd (scan_watches f kept ws s))) = steer_view s"
proof (induction f kept ws s rule: scan_watches.induct)
  case (2 f kept w rest s)
  obtain k c s' where v: "visit_watch f w s = (k, c, s')" by (cases "visit_watch f w s") auto
  then show ?case using "2.IH" [of k "(c, s')" c s'] visit_steer [OF v] by (cases c) simp_all
qed simp

lemma literal_steer: "steer_view (snd (propagate_literal s)) = steer_view s"
proof -
  have "steer_view (t\<lparr>s_head := n, s_stats := (s_stats t)\<lparr>st_propagations := m\<rparr>, s_watches := ws\<rparr>) = steer_view t"
    for t :: "'a solver" and n m ws by (simp add: view_defs)
  then have a: "steer_view (snd (snd (scan_watches f [] ws (s\<lparr>s_head := n, s_stats := (s_stats s)\<lparr>st_propagations := m\<rparr>,
      s_watches := xs\<rparr>)))) = steer_view s" for f ws n m xs
    by (simp add: scan_steer)
  show ?thesis
    unfolding propagate_literal_def Let_def using a by (simp split: prod.split) (metis snd_conv)
qed

lemma poll_quiet: "quiet_view (snd (poll_search_stop s)) = quiet_view s"
  by (simp add: poll_search_stop_def Let_def quiet_view_def search_view_def nvars_def split: option.split)

lemma propagate_quiet: "quiet_view (snd (propagate s)) = quiet_view s"
proof -
  have "quiet_view (snd (propagate_fuel n s)) = quiet_view s" for n
  proof (induction n arbitrary: s)
    case (Suc n)
    obtain r s1 where p: "poll_search_stop s = (r, s1)" by fastforce
    obtain c s2 where l: "propagate_literal s1 = (c, s2)" by fastforce
    have "quiet_view s1 = quiet_view s" "quiet_view s2 = quiet_view s1"
      using poll_quiet [of s] literal_steer [of s1] by (simp_all add: p l steer_view_def)
    then show ?case using Suc.IH [of s2] by (simp add: p l split: option.split)
  qed simp
  then show ?thesis by (simp add: propagate_def)
qed

text \<open>Polls happen one at a time, so none is skipped: the poll that sees the flag stops the search.\<close>

definition raised_at :: "nat \<Rightarrow> 'f solver \<Rightarrow> bool" where
  "raised_at k s \<longleftrightarrow> s_control_active s \<and> s_interrupt s k \<and> s_polls s \<le> k"

lemma poll_raised:
  assumes "raised_at k s" "poll_search_stop s = (None, s')"
  shows "raised_at k s'" "s_polls s < s_polls s'"
proof -
  have c: "s_control_active s" "s_interrupt s k" "s_polls s \<le> k" using assms(1) by (simp_all add: raised_at_def)
  have "\<not> s_interrupt s (s_polls s)" "s' = s\<lparr>s_polls := s_polls s + 1, s_stop_reason := None\<rparr>"
    using assms(2) c(1) by (auto simp: poll_search_stop_def Let_def split: if_splits option.splits)
  moreover from this(1) have "s_polls s \<noteq> k" using c(2) by metis
  ultimately show "raised_at k s'" "s_polls s < s_polls s'" using c by (simp_all add: raised_at_def)
qed

lemma propagate_raised:
  assumes "raised_at k s" "propagate s = (c, s')"
  shows "s_control_active s' \<and> s_stop_reason s' \<noteq> None \<or> raised_at k s' \<and> s_polls s \<le> s_polls s'"
proof -
  have "propagate_fuel n s = (c, s') \<Longrightarrow> raised_at k s \<Longrightarrow>
    s_control_active s' \<and> s_stop_reason s' \<noteq> None \<or> raised_at k s' \<and> s_polls s \<le> s_polls s'" for n
  proof (induction n arbitrary: s)
    case (Suc n)
    obtain r s1 where p: "poll_search_stop s = (r, s1)" by fastforce
    obtain d s2 where l: "propagate_literal s1 = (d, s2)" by fastforce
    have v: "raised_at k s2 = raised_at k s1" "s_polls s2 = s_polls s1"
      using literal_steer [of s1] by (simp_all add: l view_defs raised_at_def)
    show ?case
    proof (cases "s_head s < length (s_trail s)")
      case True
      note h = True
      show ?thesis
      proof (cases r)
        case None
        note pr = poll_raised [OF Suc.prems(2) p [unfolded None]]
        show ?thesis
        proof (cases d)
          case None
          then show ?thesis using Suc.IH [of s2] Suc.prems(1) h p l \<open>r = None\<close> pr v by fastforce
        next
          case (Some x)
          then show ?thesis using Suc.prems(1) h p l \<open>r = None\<close> pr v by auto
        qed
      next
        case (Some x)
        then show ?thesis using Suc.prems(1) h p poll_stopped [of s x s1] by auto
      qed
    qed (use Suc.prems in auto)
  qed auto
  then show ?thesis using assms by (simp add: propagate_def)
qed

subsection \<open>A conflict at level 0\<close>

lemma root_false_refutes:
  assumes b: "base_ok G s" and d: "decision_level s = 0" and c: "entails H c" "G \<subseteq> H" "\<forall>l \<in> set c. lit_f s l"
  shows "entails H []"
proof -
  have t: "trail_ok s" using b by (simp add: base_ok_def)
  have "entails_set H (set c)" using c(1) by (simp add: entails_set_iff)
  then have "entails_set H {}"
  proof (rule entails_drop)
    fix l assume "l \<in> set c"
    then have f: "lit_f s l" using c(3) by blast
    have "level_of s l = 0" using level_le_decision [OF t, of "lit_not l"] f d by (simp add: lit_f_def)
    then show "l \<in> {} \<or> entails H [lit_not l]" using root_false [OF b f] entails_mono [OF c(2)] by blast
  qed
  then show ?thesis by (simp add: entails_set_iff)
qed

lemma root_conflict_refutes:
  assumes b: "base_ok G s" and d: "decision_level s = 0" and c: "live s c" "\<forall>l \<in> set (clause_literals s c). lit_f s l"
  shows "entails G []"
proof -
  have "entails G (clause_literals s c)" using b liveD [OF c(1)] by (simp add: base_ok_def meaning_ok_def)
  then show ?thesis using root_false_refutes [OF b d _ subset_refl] c(2) by blast
qed

lemma inconsistent_db:
  assumes "db_ok G s" "entails G []" "\<forall>d \<in> G. \<forall>l \<in> set d. lit_ok s l"
  shows "base_ok G (s\<lparr>s_consistent := False\<rparr>)" "watches_ok (s\<lparr>s_consistent := x\<rparr>) = watches_ok s"
    "seen_clear (s\<lparr>s_consistent := x\<rparr>) = seen_clear s"
proof -
  let ?t = "\<lambda>x. s\<lparr>s_consistent := x\<rparr>"
  have sd: "same_db s (?t x)" for x by (simp add: same_db_def)
  note db = same_db_simps [OF sd]
  have v: "lit_ok (?t x) = lit_ok s" "literal_value (?t x) = literal_value s" "level_of (?t x) = level_of s"
    "reason_of (?t x) = reason_of s" "lit_t (?t x) = lit_t s" "lit_f (?t x) = lit_f s"
    "watches_of (?t x) = watches_of s" "root_literals (?t x) = root_literals s" "nvars (?t x) = nvars s" for x
    by (auto simp: nvars_def lit_ok_def literal_value_def level_of_def reason_of_def lit_t_def lit_f_def
        watches_of_def root_literals_def fun_eq_iff)
  have "shape_ok (?t False)" "arena_ok (?t False)" "queue_inv (?t False)" "selectors_ok (?t False)"
    using assms(1) by (simp_all add: db_ok_def shape_ok_def arena_ok_def queue_inv_def selectors_ok_def v)
  moreover have "clauses_ok (?t False)" using assms(1) unfolding db_ok_def clauses_ok_def db v by blast
  moreover have "trail_ok (?t False)" using assms(1) unfolding db_ok_def trail_ok_def v by simp
  moreover have "reasons_ok (?t False)"
    using assms(1) unfolding db_ok_def reasons_ok_def v db by (simp cong: option.case_cong)
  moreover have "meaning_ok G (?t False)" using assms unfolding db_ok_def meaning_ok_def v db by simp
  moreover have "coverage_ok G (?t False)" using assms(3) unfolding coverage_ok_def v by simp
  ultimately show "base_ok G (?t False)" by (simp add: base_ok_def)
  show "watches_ok (?t x) = watches_ok s" unfolding watches_ok_def watch_ok_def v db ..
  show "seen_clear (?t x) = seen_clear s" unfolding seen_clear_def v by simp
qed

lemma inconsistent_ok:
  assumes "base_ok G s" "entails G []"
  shows "base_ok G (s\<lparr>s_consistent := False\<rparr>)" "watches_ok (s\<lparr>s_consistent := x\<rparr>) = watches_ok s"
    "seen_clear (s\<lparr>s_consistent := x\<rparr>) = seen_clear s"
proof -
  have "db_ok G s" "\<forall>d \<in> G. \<forall>l \<in> set d. lit_ok s l"
    using assms(1) by (auto simp: base_ok_split coverage_ok_def)
  from inconsistent_db [OF this(1) assms(2) this(2)]
  show "base_ok G (s\<lparr>s_consistent := False\<rparr>)" "watches_ok (s\<lparr>s_consistent := x\<rparr>) = watches_ok s"
    "seen_clear (s\<lparr>s_consistent := x\<rparr>) = seen_clear s" by blast+
qed

lemma frame_pending: "frame_eq s s' \<Longrightarrow> pending c s' = pending c s"
  using frame_eq_simps [of s s'] by (simp add: pending_def frame_eq_def)

lemma frame_conflict_state: "frame_eq s s' \<Longrightarrow> conflict_state G c s' = conflict_state G c s"
  using frame_eq_inv [of s s'] frame_eq_simps [of s s']
  by (auto simp: conflict_state_def conflict_at_def falsified_def frame_eq_def)

lemma conflict_settled:
  assumes "conflict_state G c s" "decision_level s = 0 \<Longrightarrow> pending c s" "seen_clear s"
  shows "settled G s"
  using assms unfolding conflict_state_def settled_def by blast

lemma conflict_atD:
  assumes "conflict_state G c s" shows "base_ok G s" "watches_ok s" "live s c" "\<forall>l \<in> set (clause_literals s c). lit_f s l"
  using assms by (auto simp: conflict_state_def conflict_at_def falsified_def)

subsection \<open>One iteration\<close>

definition within_limit :: "'f solver \<Rightarrow> bool" where
  "within_limit s \<longleftrightarrow> \<not> limit_reached (limit_conflicts (s_limits s)) (st_conflicts (s_stats s)) (s_start_conflicts s)"

definition step_ok ::
  "lit list set \<Rightarrow> lit list \<Rightarrow> 'f solver \<Rightarrow> (solve_result + unit) \<times> 'f solver \<Rightarrow> bool" where
  "step_ok G as s = (\<lambda>(r, s'). search_view s' = search_view s \<and>
     (case r of
        Inl a \<Rightarrow> answer_ok G as a s' \<and> settled G s' \<and> (a = Unsat \<and> s_consistent s' \<or> s_failed s' = s_failed s)
      | Inr _ \<Rightarrow> searching G as s' \<and> s_failed s' = s_failed s \<and> within_limit s
          \<and> (st_conflicts (s_stats s') = st_conflicts (s_stats s) + 1
             \<or> st_conflicts (s_stats s') = st_conflicts (s_stats s) \<and> progress as s' < progress as s)
          \<and> (\<forall>k. raised_at k s \<longrightarrow> raised_at k s' \<and> s_polls s < s_polls s')))"

lemma poll_continues_within:
  assumes "poll_search_stop s = (None, s')" "s_control_active s" shows "within_limit s"
  using assms by (auto simp: poll_search_stop_def within_limit_def Let_def split: if_splits option.splits)

lemma searching_frame:
  assumes "searching G as s" "frame_eq s s'" "s_seen s' = s_seen s"
  shows "searching G as s'"
proof -
  note d = searchingD [OF assms(1)]
  have i: "inv G s'" using frame_inv [OF assms(2)] d(1) by simp
  then have t: "trail_ok s'" by (simp add: inv_def base_ok_def)
  have "search_trail as s'" by (rule search_trail_continues [OF d(8,4) t frame_continues [OF assms(2)]])
  then show ?thesis
    using i d(7,9,10) assms(3) frame_eq_simps [OF assms(2)] assms(2)
    by (simp add: searching_def seen_clear_def frame_eq_def)
qed

lemma poll_fields:
  assumes "poll_search_stop s = (r, s')"
  shows "frame_eq s s'" "s_seen s' = s_seen s" "quiet_view s' = quiet_view s" "s_trail s' = s_trail s"
    "s_trail_limits s' = s_trail_limits s" "s_head s' = s_head s"
  using frame_poll [of s] poll_quiet [of s] assms
  by (auto simp: poll_search_stop_def Let_def split: if_splits option.splits)

lemma searching_propagated:
  assumes s: "searching G as s" and p: "prop_frame s s'" and i: "inv G s'"
  shows "searching G as s'" "progress as s' \<le> progress as s"
proof -
  note d = searchingD [OF s]
  have t: "trail_ok s'" using i by (simp add: inv_def base_ok_def)
  have f: "s_trail_limits s' = s_trail_limits s" "s_seen s' = s_seen s" "s_consistent s' = s_consistent s" "nvars s' = nvars s"
    using p by (simp_all add: prop_frame_def prop_view_def)
  obtain ys where "s_trail s' = s_trail s @ ys" using p by (auto simp: prop_frame_def)
  then show "progress as s' \<le> progress as s" by (simp add: progress_def f decision_level_def)
  have "search_trail as s'" by (rule search_trail_continues [OF d(8,4) t prop_continues [OF p]])
  then show "searching G as s'"
    using d(7,9,10) i by (simp add: searching_def seen_clear_def f lit_ok_def)
qed

lemma count_conflict_view:
  "search_view (count_conflict s) = search_view s" "s_consistent (count_conflict s) = s_consistent s"
  "st_conflicts (s_stats (count_conflict s)) = st_conflicts (s_stats s) + 1"
  "s_polls (count_conflict s) = s_polls s" "s_failed (count_conflict s) = s_failed s"
  by (simp_all add: count_conflict_def decay_clause_usage_scores_def Let_def search_view_def nvars_def)

lemma raised_view:
  "search_view s' = search_view s \<Longrightarrow> s_polls s' = s_polls s \<Longrightarrow> raised_at k s' = raised_at k s"
  by (simp add: raised_at_def search_view_def)

text \<open>Everything up to the second poll of an iteration.\<close>

lemma step_prefix:
  assumes s: "searching G as s" and a: "s_control_active s"
    and p1: "poll_search_stop s = (None, s1)" and pr: "propagate s1 = (cf, s2)" and p2: "poll_search_stop s2 = (r2, s3)"
  shows "quiet_view s3 = quiet_view s" "case cf of
      None \<Rightarrow> searching G as s3 \<and> progress as s3 \<le> progress as s \<and> (r2 = None \<longrightarrow> s_head s3 = length (s_trail s3))
    | Some c \<Rightarrow> conflict_state G c s3 \<and> (decision_level s3 = 0 \<longrightarrow> pending c s3) \<and> search_trail as s3 \<and> seen_clear s3"
    "r2 = None \<Longrightarrow> raised_at k s \<Longrightarrow> raised_at k s3 \<and> s_polls s < s_polls s3"
proof -
  note f1 = poll_fields [OF p1] and f2 = poll_fields [OF p2]
  have s1: "searching G as s1" by (rule searching_frame [OF s f1(1,2)])
  note d1 = searchingD [OF s1]
  have q2: "quiet_view s2 = quiet_view s1" using propagate_quiet [of s1] pr by simp
  then show "quiet_view s3 = quiet_view s" using f1(3) f2(3) by simp
  have ca: "s_control_active s2" using q2 f1(3) a by (simp add: quiet_view_def search_view_def)
  have res: "prop_frame s1 s2" "case cf of
      None \<Rightarrow> inv G s2 \<and> (s_head s2 = length (s_trail s2) \<or> s_control_active s2 \<and> s_stop_reason s2 \<noteq> None)
    | Some c \<Rightarrow> conflict_state G c s2 \<and> (decision_level s2 = 0 \<longrightarrow> pending c s2)"
    using propagate_ok [OF d1(1)] by (simp_all add: pr prop_result_def)
  have run: "s_stop_reason s2 = None" if "r2 = None"
    using poll_continues [of s2 s3] p2 ca that by simp
  have pg: "progress as s1 = progress as s" using f1(4,5) frame_eq_simps(6) [OF f1(1)]
    by (simp add: progress_def decision_level_def)
  show "case cf of
      None \<Rightarrow> searching G as s3 \<and> progress as s3 \<le> progress as s \<and> (r2 = None \<longrightarrow> s_head s3 = length (s_trail s3))
    | Some c \<Rightarrow> conflict_state G c s3 \<and> (decision_level s3 = 0 \<longrightarrow> pending c s3) \<and> search_trail as s3 \<and> seen_clear s3"
  proof (cases cf)
    case None
    then have i2: "inv G s2" using res(2) by simp
    note p = searching_propagated [OF s1 res(1) i2]
    have "searching G as s3" by (rule searching_frame [OF p(1) f2(1,2)])
    moreover have "progress as s3 = progress as s2"
      using f2(4,5) frame_eq_simps(6) [OF f2(1)] by (simp add: progress_def decision_level_def)
    ultimately show ?thesis using None res(2) p(2) pg run f2(4,6) by auto
  next
    case (Some c)
    then have c: "conflict_state G c s2" "decision_level s2 = 0 \<longrightarrow> pending c s2" using res(2) by simp_all
    have t: "trail_ok s2" using conflict_atD(1) [OF c(1)] by (simp add: base_ok_def)
    have "search_trail as s2" by (rule search_trail_continues [OF d1(8,4) t prop_continues [OF res(1)]])
    moreover have t3: "trail_ok s3" using conflict_atD(1) [of G c s3] c(1) frame_conflict_state [OF f2(1)] by (simp add: base_ok_def)
    ultimately have "search_trail as s3" using search_trail_continues [OF _ t t3 frame_continues [OF f2(1)]] by blast
    moreover have "seen_clear s3"
      using d1(7) res(1) f2(2) frame_eq_simps(6) [OF f2(1)] by (simp add: seen_clear_def prop_frame_def prop_view_def)
    ultimately show ?thesis
      using Some c frame_conflict_state [OF f2(1)] frame_pending [OF f2(1)] frame_eq_simps(13) [OF f2(1)] by simp
  qed
  show "raised_at k s3 \<and> s_polls s < s_polls s3" if r: "r2 = None" "raised_at k s"
  proof -
    note a1 = poll_raised [OF r(2) p1]
    have "raised_at k s2" "s_polls s1 \<le> s_polls s2" using propagate_raised [OF a1(1) pr] run [OF r(1)] by auto
    then show ?thesis using poll_raised [of k s2 s3] p2 r(1) a1(2) by simp
  qed
qed

lemma search_step_ok:
  assumes s: "searching G as s" and a: "s_control_active s"
  shows "\<exists>r. search_step F as s = Some r \<and> step_ok G as s r"
proof -
  obtain r1 s1 where p1: "poll_search_stop s = (r1, s1)" by fastforce
  obtain cf s2 where pr: "propagate s1 = (cf, s2)" by fastforce
  obtain r2 s3 where p2: "poll_search_stop s2 = (r2, s3)" by fastforce
  show ?thesis
  proof (cases r1)
    case (Some r)
    note f1 = poll_fields [OF p1]
    have s1: "searching G as s1" by (rule searching_frame [OF s f1(1,2)])
    have "step_ok G as s (Inl (Unknown r), s1)"
      using searching_settled [OF s1] searchingD(9) [OF s1] f1(3) by (simp add: step_ok_def answer_ok_def quiet_view_def)
    then show ?thesis by (simp add: search_step_def p1 Some)
  next
    case n1: None
    note pre = step_prefix [OF s a p1 [unfolded n1] pr p2]
    have q: "search_view s3 = search_view s" "s_consistent s3" "st_conflicts (s_stats s3) = st_conflicts (s_stats s)"
      "s_failed s3 = s_failed s"
      using pre(1) searchingD(9) [OF s] by (simp_all add: quiet_view_def)
    have w: "within_limit s" using poll_continues_within p1 n1 a by blast
    show ?thesis
    proof (cases r2)
      case (Some r)
      have "settled G s3"
        using pre(2) searching_settled [of G as s3] conflict_settled [of G _ s3] by (cases cf) auto
      then have "step_ok G as s (Inl (Unknown r), s3)" using q by (simp add: step_ok_def answer_ok_def)
      then show ?thesis by (simp add: search_step_def p1 n1 pr p2 Some)
    next
      case n2: None
      show ?thesis
      proof (cases cf)
        case None
        have k: "searching G as s3" "progress as s3 \<le> progress as s" "s_head s3 = length (s_trail s3)"
          using pre(2) None n2 by simp_all
        obtain r s4 where e: "search_decide as s3 = (r, s4)" by fastforce
        have "step_ok G as s (r, s4)"
        proof (cases r)
          case (Inl x)
          then show ?thesis using search_decide_ok [OF k(1,3) e] q(1,4) by (simp add: step_ok_def)
        next
          case (Inr x)
          have d: "searching G as s4" "progress as s4 < progress as s3" "steer_view s4 = steer_view s3"
            using search_decide_ok [OF k(1,3) e] Inr by simp_all
          then have v: "search_view s4 = search_view s3" "s_polls s4 = s_polls s3"
            "st_conflicts (s_stats s4) = st_conflicts (s_stats s3)" "s_failed s4 = s_failed s3"
            by (simp_all add: steer_view_def quiet_view_def)
          have "raised_at j s4 \<and> s_polls s < s_polls s4" if "raised_at j s" for j
            using pre(3) [OF n2 that] raised_view [OF v(1,2)] v(2) by simp
          moreover have "progress as s4 < progress as s" using d(2) k(2) by simp
          ultimately show ?thesis using Inr d(1) q v w by (simp add: step_ok_def)
        qed
        then show ?thesis by (simp add: search_step_def p1 n1 pr p2 n2 None e)
      next
        case (Some c)
        let ?s4 = "count_conflict s3"
        note fr = steer_frames(3) [of s3]
        have k: "conflict_state G c s3" "decision_level s3 = 0 \<longrightarrow> pending c s3" "search_trail as s3" "seen_clear s3"
          using pre(2) Some by simp_all
        have dl: "decision_level ?s4 = decision_level s3" using frame_eq_simps(13) [OF fr] .
        have c4: "conflict_state G c ?s4" using k(1) frame_conflict_state [OF fr] by simp
        have sc: "seen_clear ?s4" using k(4) frame_eq_simps(6) [OF fr] by (simp add: seen_clear_def steer_frames(6))
        show ?thesis
        proof (cases "decision_level s3 = 0")
          case True
          note cd = conflict_atD [OF c4]
          have e: "entails G []" using root_conflict_refutes [OF cd(1) _ cd(3,4)] True dl by simp
          note io = inconsistent_ok [OF cd(1) e]
          have "settled G (?s4\<lparr>s_consistent := False\<rparr>)" using io cd(2) sc by (simp add: settled_def)
          moreover have "search_view (?s4\<lparr>s_consistent := False\<rparr>) = search_view s"
            using q(1) count_conflict_view(1) [of s3] by (simp add: search_view_def nvars_def)
          moreover have "s_failed (?s4\<lparr>s_consistent := False\<rparr>) = s_failed s" by (simp add: count_conflict_view q(4))
          ultimately have "step_ok G as s (Inl Unsat, ?s4\<lparr>s_consistent := False\<rparr>)"
            using e by (simp add: step_ok_def answer_ok_def)
          then show ?thesis using True dl by (simp add: search_step_def p1 n1 pr p2 n2 Some Let_def)
        next
          case False
          have t: "trail_ok s3" "trail_ok ?s4" using conflict_atD(1) [OF k(1)] conflict_atD(1) [OF c4] by (simp_all add: base_ok_def)
          have st: "search_trail as ?s4" by (rule search_trail_continues [OF k(3) t frame_continues [OF fr]])
          obtain s5 where r: "resolve_conflict F c ?s4 = Some s5" "inv G s5" "seen_clear s5" "search_trail as s5"
            "steer_view s5 = steer_view ?s4"
            using resolve_conflict_ok [OF c4 _ sc st, of F] False dl by auto
          have v: "search_view s5 = search_view s" "s_consistent s5" "s_polls s5 = s_polls s3"
            "st_conflicts (s_stats s5) = st_conflicts (s_stats s) + 1" "s_failed s5 = s_failed s"
            using r(5) q count_conflict_view [of s3] by (simp_all add: steer_view_def quiet_view_def)
          have "lit_ok s5 x" if "x \<in> set as" for x
            using searchingD(10) [OF s that] v(1) by (simp add: lit_ok_def search_view_def)
          then have "searching G as s5" using r(2-4) v(2) by (simp add: searching_def)
          moreover have "raised_at j s5 \<and> s_polls s < s_polls s5" if "raised_at j s" for j
            using pre(3) [OF n2 that] raised_view [of s5 s3] v(1,3) q(1) by simp
          ultimately have "step_ok G as s (Inr (), s5)" using v w by (simp add: step_ok_def)
          then show ?thesis using r(1) False dl by (simp add: search_step_def p1 n1 pr p2 n2 Some Let_def)
        qed
      qed
    qed
  qed
qed

subsection \<open>The whole search\<close>

definition answered :: "lit list set \<Rightarrow> lit list \<Rightarrow> 'f solver \<Rightarrow> solve_result \<times> 'f solver \<Rightarrow> bool" where
  "answered G as s = (\<lambda>(r, s'). answer_ok G as r s' \<and> settled G s' \<and> search_view s' = search_view s
     \<and> (r = Unsat \<and> s_consistent s' \<or> s_failed s' = s_failed s))"

lemma answered_trans:
  "search_view t = search_view s \<Longrightarrow> s_failed t = s_failed s \<Longrightarrow> answered G as t x \<Longrightarrow> answered G as s x"
  by (auto simp: answered_def)

lemma search_partial:
  assumes "search F as s = Some x"
  shows "searching G as s \<longrightarrow> s_control_active s \<longrightarrow> answered G as s x"
proof (rule search.raw_induct [OF _ assms])
  fix srch F as x and s :: "'a solver"
  assume hyp: "\<And>F as t x. srch F as t = Some x \<Longrightarrow> searching G as t \<longrightarrow> s_control_active t \<longrightarrow> answered G as t x"
    and res: "(case search_step F as s of None \<Rightarrow> None | Some (Inl r, s') \<Rightarrow> Some (r, s')
        | Some (Inr b, s') \<Rightarrow> srch F as s') = Some x"
  show "searching G as s \<longrightarrow> s_control_active s \<longrightarrow> answered G as s x"
  proof (intro impI)
    assume s: "searching G as s" and a: "s_control_active s"
    obtain r t where e: "search_step F as s = Some (r, t)" and ok: "step_ok G as s (r, t)"
      using search_step_ok [OF s a, of F] by fastforce
    show "answered G as s x"
    proof (cases r)
      case (Inl y)
      then show ?thesis using res e ok by (auto simp: step_ok_def answered_def)
    next
      case (Inr y)
      then have "srch F as t = Some x" using res e by simp
      moreover have t: "searching G as t" "search_view t = search_view s" "s_failed t = s_failed s" using ok Inr by (simp_all add: step_ok_def)
      moreover have "s_control_active t" using t(2) a by (simp add: search_view_def)
      ultimately show ?thesis using hyp [of F as t x] answered_trans by blast
    qed
  qed
qed

text \<open>Why the search returns: a conflict limit, or an interrupt that is going to come.\<close>

definition bounded :: "nat \<Rightarrow> 'f solver \<Rightarrow> bool" where
  "bounded n s \<longleftrightarrow> limit_conflicts (s_limits s) = Some n"

lemma search_total_limit:
  assumes "bounded n s" "searching G as s" "s_control_active s"
  shows "\<exists>x. search F as s = Some x"
  using assms
proof (induction "(n + s_start_conflicts s - st_conflicts (s_stats s), progress as s)" arbitrary: s
    rule: wf_induct_rule [OF wf_lex_prod [OF wf_less wf_less]])
  case (1 s)
  obtain r t where e: "search_step F as s = Some (r, t)" and ok: "step_ok G as s (r, t)"
    using search_step_ok [OF "1.prems"(2,3), of F] by fastforce
  show ?case
  proof (cases r)
    case (Inl y)
    then show ?thesis using e by (simp add: search.simps [of F as s])
  next
    case (Inr y)
    then have k: "searching G as t" "search_view t = search_view s" "within_limit s"
      "st_conflicts (s_stats t) = st_conflicts (s_stats s) + 1
        \<or> st_conflicts (s_stats t) = st_conflicts (s_stats s) \<and> progress as t < progress as s"
      using ok by (simp_all add: step_ok_def)
    have v: "s_limits t = s_limits s" "s_start_conflicts t = s_start_conflicts s" "s_control_active t"
      using k(2) "1.prems"(3) by (simp_all add: search_view_def)
    have "st_conflicts (s_stats s) < n + s_start_conflicts s"
      using k(3) "1.prems"(1) by (auto simp: within_limit_def bounded_def limit_reached_def)
    then have "((n + s_start_conflicts t - st_conflicts (s_stats t), progress as t),
        (n + s_start_conflicts s - st_conflicts (s_stats s), progress as s)) \<in> less_than <*lex*> less_than"
      using k(4) v(2) by auto
    then have "\<exists>x. search F as t = Some x" using "1.hyps" [of t] "1.prems"(1) k(1) v by (simp add: bounded_def)
    then show ?thesis using e Inr by (simp add: search.simps [of F as s])
  qed
qed

lemma search_total_interrupt:
  assumes "raised_at k s" "searching G as s"
  shows "\<exists>x. search F as s = Some x"
  using assms
proof (induction "k - s_polls s" arbitrary: s rule: less_induct)
  case less
  have a: "s_control_active s" "s_polls s \<le> k" using less.prems(1) by (simp_all add: raised_at_def)
  obtain r t where e: "search_step F as s = Some (r, t)" and ok: "step_ok G as s (r, t)"
    using search_step_ok [OF less.prems(2) a(1), of F] by fastforce
  show ?case
  proof (cases r)
    case (Inl y)
    then show ?thesis using e by (simp add: search.simps [of F as s])
  next
    case (Inr y)
    then have t: "searching G as t" "raised_at k t" "s_polls s < s_polls t"
      using ok less.prems(1) by (auto simp: step_ok_def)
    then have "k - s_polls t < k - s_polls s" by (auto simp: raised_at_def)
    then have "\<exists>x. search F as t = Some x" using less.hyps t by blast
    then show ?thesis using e Inr by (simp add: search.simps [of F as s])
  qed
qed

end
