(* ===== verification/Solver_Sound.thy ===== *)
theory Solver_Sound
  imports Solver_Run
begin

section \<open>The solve call\<close>

text \<open>
  What holds of the solver between calls of its interface, and what a query answers. A model
  satisfies every clause added so far, the selectors of the open scopes and the assumptions; an
  unsatisfiable query is refuted by the clauses together with the failed assumptions it reports.
  Answers are cached, and a cached answer is still right because every change drops it.
\<close>

subsection \<open>Between calls\<close>

definition query_ok :: "lit list set \<Rightarrow> lit list \<Rightarrow> lit list \<Rightarrow> solve_result \<Rightarrow> 'f solver \<Rightarrow> bool" where
  "query_ok G selectors as r s \<longleftrightarrow>
     (case r of
        Sat m \<Rightarrow> length m = s_variable_count s \<and> models (valuation_of m) G
          \<and> (\<forall>a \<in> set (selectors @ as). lit_true (valuation_of m) a) \<and> s_failed s = []
      | Unsat \<Rightarrow> refutes G (selectors @ s_failed s) \<and> set (s_failed s) \<subseteq> set as \<and> distinct (s_failed s)
          \<and> (\<not> s_consistent s \<longrightarrow> entails G [] \<and> s_failed s = [])
      | Unknown _ \<Rightarrow> s_failed s = [])"

definition cache_ok :: "lit list set \<Rightarrow> 'f solver \<Rightarrow> bool" where
  "cache_ok G s \<longleftrightarrow>
     (case s_cached_result s of
        None \<Rightarrow> True
      | Some r \<Rightarrow> \<exists>as. s_cached_assumptions s = s_scope_selectors s @ as \<and> query_ok G (s_scope_selectors s) as r s)"

definition solver_ok :: "lit list set \<Rightarrow> 'f solver \<Rightarrow> bool" where
  "solver_ok G s \<longleftrightarrow> settled G s \<and> \<not> s_control_active s \<and> cache_ok G s
     \<and> (\<not> s_started s \<longrightarrow> s_trail_limits s = [] \<and> s_head s = 0)"

lemma refutes_mono: "refutes G as \<Longrightarrow> set as \<subseteq> set bs \<Longrightarrow> refutes G bs"
  by (auto simp: refutes_def)

lemma refutes_entails_empty: "entails G [] \<Longrightarrow> refutes G as"
  by (auto simp: refutes_def entails_def clause_true_def)

subsection \<open>At level 0\<close>

lemma frame_settled:
  assumes f: "frame_eq s s'" and sc: "s_seen s' = s_seen s"
  shows "settled G s' = settled G s"
proof -
  note e = frame_eq_simps [OF f] and i = frame_eq_inv [OF f]
  have "s_trail_limits s' = s_trail_limits s" "s_head s' = s_head s" "s_consistent s' = s_consistent s"
    using f by (simp_all add: frame_eq_def)
  then show ?thesis using sc by (simp add: settled_def i e frame_pending [OF f] seen_clear_def)
qed

lemma cancel_seen_base: "base_ok G s \<Longrightarrow> s_seen (cancel_until k s) = s_seen s"
  using cancel_fields(16) [of G s k] cancel_noop [of s k] by (cases "k < decision_level s") auto

lemma settled_cancel:
  assumes s: "settled G s"
  shows "settled G (cancel_until 0 s)" "decision_level (cancel_until 0 s) = 0"
proof -
  have b: "base_ok G s" "watches_ok s" "seen_clear s" using s by (simp_all add: settled_def)
  show "decision_level (cancel_until 0 s) = 0" by (simp add: decision_level_cancel)
  show "settled G (cancel_until 0 s)"
  proof (cases "0 < decision_level s")
    case True
    note f = cancel_fields [OF b(1) True]
    have sc: "seen_clear (cancel_until 0 s)" using b(3) by (simp add: seen_clear_def f)
    show ?thesis
    proof (cases "s_consistent s")
      case c: True
      then obtain j where j: "watch_sem j s" "\<forall>n \<in> set (s_trail_limits s). n \<le> j" using s by (auto simp: settled_def)
      have "s_trail_limits s ! 0 \<in> set (s_trail_limits s)" using True by (simp add: decision_level_def)
      then have "inv G (cancel_until 0 s)" using cancel_inv [OF b(1,2) j(1) True] j(2) by blast
      then show ?thesis using sc by (rule inv_settled)
    next
      case False
      then show ?thesis
        using cancel_base_ok [OF b(1)] cancel_watches_ok [OF b(1,2)] sc by (simp add: settled_def f(9))
    qed
  next
    case False
    then show ?thesis using s by (simp add: cancel_noop)
  qed
qed

text \<open>Propagation at level 0, outside the search: it runs to its end or finds a conflict.\<close>

lemma root_propagation:
  assumes s: "settled G s" and d: "decision_level s = 0" and c: "s_consistent s" and a: "\<not> s_control_active s"
    and e: "propagate s = (cf, s')"
  shows "base_ok G s'" "watches_ok s'" "seen_clear s'" "prop_frame s s'" "decision_level s' = 0"
    "case cf of None \<Rightarrow> inv G s' \<and> s_head s' = length (s_trail s') | Some _ \<Rightarrow> entails G []"
proof -
  have b: "base_ok G s" "watches_ok s" "seen_clear s" using s by (simp_all add: settled_def)
  have "(case cf of None \<Rightarrow> inv G s' \<and> s_head s' = length (s_trail s') | Some _ \<Rightarrow> entails G [])
    \<and> prop_frame s s' \<and> base_ok G s' \<and> watches_ok s'"
  proof (cases "watch_sem (s_head s) s")
    case True
    then have "inv G s" using b by (simp add: inv_def)
    from propagate_ok [OF this] have r: "prop_frame s s'" "case cf of
        None \<Rightarrow> inv G s' \<and> (s_head s' = length (s_trail s') \<or> s_control_active s' \<and> s_stop_reason s' \<noteq> None)
      | Some c \<Rightarrow> conflict_state G c s' \<and> (decision_level s' = 0 \<longrightarrow> pending c s')"
      by (simp_all add: e prop_result_def)
    have f: "s_control_active s' = s_control_active s" "s_trail_limits s' = s_trail_limits s"
      using r(1) by (simp_all add: prop_frame_def prop_view_def)
    show ?thesis
    proof (cases cf)
      case None
      then have i: "inv G s'" "s_head s' = length (s_trail s')" using r f a by simp_all
      then have "base_ok G s'" "watches_ok s'" by (simp_all only: inv_def)
      then show ?thesis using None i r(1) by simp
    next
      case (Some q)
      then have cs: "conflict_state G q s'" using r(2) by simp
      note k = conflict_atD [OF cs]
      have "entails G []" using root_conflict_refutes [OF k(1) _ k(3,4)] d f(2) by (simp add: decision_level_def)
      then show ?thesis using Some r(1) k(1,2) by simp
    qed
  next
    case False
    then obtain q where q: "pending q s" using s c d by (auto simp: settled_def)
    obtain x where cf: "cf = Some x" using pending_found [OF b(1,2) q _ a] e by (cases cf) auto
    define d0 where "d0 = Long 0"
    have "inv_but (insert d0 {d. \<not> both_done (s_head s) s d}) G s"
      using b by (simp add: inv_but_def watch_but_def)
    from propagate_but_ok [OF this] have "prop_frame s s'" "base_ok G s'" "watches_ok s'"
      by (simp_all add: e cf prop_result_but_def)
    moreover have "entails G []" using root_conflict_refutes [OF b(1) d, of q] q by (simp add: pending_def)
    ultimately show ?thesis using cf by simp
  qed
  then show "base_ok G s'" "watches_ok s'" "prop_frame s s'"
    "case cf of None \<Rightarrow> inv G s' \<and> s_head s' = length (s_trail s') | Some _ \<Rightarrow> entails G []" by simp_all
  then have "s_seen s' = s_seen s" "nvars s' = nvars s" "s_trail_limits s' = s_trail_limits s"
    by (simp_all add: prop_frame_def prop_view_def)
  then show "seen_clear s'" "decision_level s' = 0" using b(3) d by (simp_all add: seen_clear_def decision_level_def)
qed

lemma settled_inconsistent:
  assumes "base_ok G s" "watches_ok s" "seen_clear s" "entails G []"
  shows "settled G (s\<lparr>s_consistent := False\<rparr>)"
  using inconsistent_ok [OF assms(1,4)] assms(2,3) by (simp add: settled_def)

lemma settled_proof:
  assumes "settled G s" "entails G c"
  shows "settled G (s\<lparr>s_proof := s_proof s @ [AddStep c]\<rparr>)"
proof -
  let ?s = "s\<lparr>s_proof := s_proof s @ [AddStep c]\<rparr>"
  have v: "clause_literals ?s = clause_literals s" "live ?s = live s" "nvars ?s = nvars s" "lit_f ?s = lit_f s"
    "decision_level ?s = decision_level s"
  proof -
    have d: "same_db s ?s" by (simp add: same_db_def)
    show "clause_literals ?s = clause_literals s" "live ?s = live s"
      using same_db_simps [OF d] by (intro ext; simp)+
  qed (auto simp: nvars_def lit_f_def decision_level_def fun_eq_iff)
  have "base_ok G s" using assms(1) by (simp add: settled_def)
  then have bs: "base_ok G ?s" by (rule add_step_ok(1) [OF assms(2)])
  show ?thesis
    using assms(1) bs unfolding settled_def pending_def seen_clear_def v
    by (simp add: add_step_ok(2,3) [OF assms(2)])
qed

subsection \<open>A query\<close>

text \<open>
  The end of a query. The state before it is settled, and a consistent state answers by its
  assumptions.
\<close>

lemma finish_query_ok:
  assumes s: "settled G s" and a: "\<not> s_control_active s" and st: "s_started s"
    and q: "query = s_scope_selectors s @ as" and r: "answer_ok G query r s"
    and f: "r = Unsat \<and> s_consistent s \<or> s_failed s = []"
    and e: "finish_query as query r s = (r', s')"
  shows "r' = r" "solver_ok G s'" "query_ok G (s_scope_selectors s) as r s'" "search_view s' = search_view
    (s\<lparr>s_cached_assumptions := s_cached_assumptions s', s_cached_result := s_cached_result s'\<rparr>)"
proof -
  define s1 where "s1 = (if r = Unsat \<and> \<not> s_consistent s then s\<lparr>s_proof := s_proof s @ [AddStep []]\<rparr> else s)"
  define unk where "unk = (case r of Unknown _ \<Rightarrow> True | _ \<Rightarrow> False)"
  define s2 where "s2 = (if (r = Unsat \<and> s_consistent s1) \<or> unk then cancel_until 0 s1 else s1)"
  define s3 where "s3 = (if r = Unsat \<and> s_consistent s2
                then s2\<lparr>s_failed := filter (\<lambda>l. l \<in> set as) (s_failed s2)\<rparr>
                else if unk then s2\<lparr>s_failed := []\<rparr> else s2)"
  have s': "r' = r" "s' = (if unk then s3\<lparr>s_cached_assumptions := [], s_cached_result := None\<rparr>
          else s3\<lparr>s_cached_assumptions := query, s_cached_result := Some r\<rparr>)"
    using e unfolding finish_query_def Let_def s1_def [symmetric] unk_def [symmetric] s2_def [symmetric] s3_def [symmetric]
    by simp_all
  show "r' = r" by (rule s')
  have c: "entails G []" if "r = Unsat" "\<not> s_consistent s" using r that by (simp add: answer_ok_def)
  have k1: "settled G s1" using s settled_proof [OF s] c by (simp add: s1_def)
  have v1: "steer_view s1 = steer_view s" by (simp add: s1_def)
  have k2: "settled G s2" using k1 settled_cancel [OF k1] by (simp add: s2_def)
  have sv2: "steer_view s2 = steer_view s1" by (simp add: s2_def)
  then have v2: "search_view s2 = search_view s" "s_consistent s2 = s_consistent s" "s_failed s2 = s_failed s"
    using v1 by (simp_all add: steer_view_def quiet_view_def)
  have fr: "frame_eq s2 s'" "s_seen s' = s_seen s2"
    by (simp_all add: s'(2) s3_def frame_eq_def same_db_def)
  have k: "settled G s'" using k2 frame_settled [OF fr] by simp
  have fl: "s_failed s' = (if r = Unsat \<and> s_consistent s then filter (\<lambda>l. l \<in> set as) (s_failed s)
      else if unk then [] else s_failed s)"
    by (simp add: s'(2) s3_def v2)
  have cn: "s_consistent s' = s_consistent s" using fr(1) v2(2) by (simp add: frame_eq_def)
  show sv: "search_view s' = search_view
      (s\<lparr>s_cached_assumptions := s_cached_assumptions s', s_cached_result := s_cached_result s'\<rparr>)"
    using v2(1) by (simp add: s'(2) s3_def search_view_def nvars_def)
  show qk: "query_ok G (s_scope_selectors s) as r s'"
  proof (cases r)
    case (Sat m)
    then show ?thesis
      using r f fl sv by (simp add: query_ok_def answer_ok_def q unk_def search_view_def)
  next
    case Unsat
    show ?thesis
    proof (cases "s_consistent s")
      case True
      then have rf: "set (s_failed s) \<subseteq> set query" "distinct (s_failed s)" "refutes G (s_failed s)"
        using r Unsat by (simp_all add: answer_ok_def)
      have "refutes G (s_scope_selectors s @ filter (\<lambda>l. l \<in> set as) (s_failed s))"
        using rf(1) by (intro refutes_mono [OF rf(3)]) (auto simp: q)
      then show ?thesis using Unsat True fl rf(2) cn by (auto simp: query_ok_def)
    next
      case False
      then show ?thesis using Unsat c f fl refutes_entails_empty by (auto simp: query_ok_def unk_def)
    qed
  next
    case (Unknown u)
    then show ?thesis using fl by (simp add: query_ok_def unk_def)
  qed
  have ss: "s_scope_selectors s' = s_scope_selectors s" "s_control_active s' = s_control_active s"
    "s_started s' = s_started s"
    using sv by (simp_all add: search_view_def)
  have "cache_ok G s'"
  proof (cases unk)
    case True
    then show ?thesis by (simp add: cache_ok_def s'(2))
  next
    case False
    then have "s_cached_result s' = Some r" "s_cached_assumptions s' = s_scope_selectors s' @ as"
      using ss(1) by (simp_all add: s'(2) q)
    then show ?thesis using qk ss(1) by (simp add: cache_ok_def)
  qed
  then show "solver_ok G s'" using k a st by (simp add: solver_ok_def ss)
qed

subsection \<open>The whole call\<close>

lemma propagate_uncontrolled:
  assumes "\<not> s_control_active s" shows "steer_view (snd (propagate s)) = steer_view s"
proof -
  have "\<not> s_control_active t \<Longrightarrow> steer_view (snd (propagate_fuel n t)) = steer_view t" for n and t :: "'a solver"
  proof (induction n arbitrary: t)
    case (Suc n)
    have p: "poll_search_stop t = (None, t)" using Suc.prems by (simp add: poll_search_stop_def)
    obtain c u where l: "propagate_literal t = (c, u)" by fastforce
    have u: "steer_view u = steer_view t" using literal_steer [of t] by (simp add: l)
    then have "\<not> s_control_active u" using Suc.prems by (simp add: view_defs)
    then show ?case using Suc.IH [of u] u by (simp add: p l split: option.split)
  qed simp
  then show ?thesis using assms by (simp add: propagate_def)
qed

definition root_state :: "'f::linorder solver \<Rightarrow> 'f solver" where
  "root_state s = (if s_started s then cancel_until 0 s else s\<lparr>s_started := True\<rparr>)\<lparr>s_failed := []\<rparr>"

lemma root_state_ok:
  assumes "solver_ok G s"
  shows "settled G (root_state s)" "decision_level (root_state s) = 0" "\<not> s_control_active (root_state s)"
    "s_started (root_state s)" "s_failed (root_state s) = []" "s_consistent (root_state s) = s_consistent s"
    "s_scope_selectors (root_state s) = s_scope_selectors s" "s_polls (root_state s) = s_polls s"
    "s_interrupt (root_state s) = s_interrupt s" "nvars (root_state s) = nvars s"
proof -
  have st: "settled G s" "\<not> s_control_active s" "\<not> s_started s \<longrightarrow> s_trail_limits s = []"
    using assms by (simp_all add: solver_ok_def)
  have k: "settled G t" "decision_level t = 0" if "t = (if s_started s then cancel_until 0 s else s\<lparr>s_started := True\<rparr>)" for t
  proof -
    have fr: "frame_eq s (s\<lparr>s_started := True\<rparr>)" by (simp add: frame_eq_def same_db_def)
    show "settled G t"
      using settled_cancel(1) [OF st(1)] frame_settled [OF fr] st(1) by (simp add: that)
    show "decision_level t = 0"
      using settled_cancel(2) [OF st(1)] st(3) by (simp add: that) (simp add: decision_level_def)
  qed
  have fr: "frame_eq t (t\<lparr>s_failed := []\<rparr>)" for t :: "'a solver" by (simp add: frame_eq_def same_db_def)
  show "settled G (root_state s)" using k(1) frame_settled [OF fr] by (simp add: root_state_def)
  show "decision_level (root_state s) = 0" using k(2) by (simp add: root_state_def decision_level_def)
  have v: "steer_view (cancel_until 0 s) = steer_view s" by simp
  show "\<not> s_control_active (root_state s)"
    "s_started (root_state s)" "s_failed (root_state s) = []" "s_consistent (root_state s) = s_consistent s"
    "s_scope_selectors (root_state s) = s_scope_selectors s" "s_polls (root_state s) = s_polls s"
    "s_interrupt (root_state s) = s_interrupt s" "nvars (root_state s) = nvars s"
    using v st(2) by (auto simp: root_state_def view_defs)
qed

definition solved :: "lit list set \<Rightarrow> lit list \<Rightarrow> 'f solver \<Rightarrow> solve_result \<times> 'f solver \<Rightarrow> bool" where
  "solved G as s = (\<lambda>(r, s'). solver_ok G s' \<and> query_ok G (s_scope_selectors s) as r s'
     \<and> s_scope_selectors s' = s_scope_selectors s \<and> nvars s' = nvars s \<and> s_interrupt s' = s_interrupt s)"

text \<open>The query is bounded: a conflict limit is set, or the interrupt flag is raised some day.\<close>

definition will_stop :: "solve_limits \<Rightarrow> 'f solver \<Rightarrow> bool" where
  "will_stop limits s \<longleftrightarrow> limit_conflicts limits \<noteq> None \<or> (\<exists>k \<ge> s_polls s. s_interrupt s k)"

lemma finished:
  assumes "settled G s" "\<not> s_control_active s" "s_started s" "answer_ok G (s_scope_selectors s @ as) r s"
    "r = Unsat \<and> s_consistent s \<or> s_failed s = []" "s_scope_selectors s = s_scope_selectors s0" "nvars s = nvars s0"
    "s_interrupt s = s_interrupt s0"
  shows "solved G as s0 (finish_query as (s_scope_selectors s0 @ as) r s)"
proof -
  obtain r' s' where e: "finish_query as (s_scope_selectors s0 @ as) r s = (r', s')" by fastforce
  note k = finish_query_ok [OF assms(1-3) _ assms(4,5) e [folded assms(6)], simplified assms(6)]
  have "search_view s' = search_view (s\<lparr>s_cached_assumptions := s_cached_assumptions s', s_cached_result := s_cached_result s'\<rparr>)"
    by (rule finish_query_ok(4) [OF assms(1-3) refl assms(4,5) e [folded assms(6)]])
  then have "s_scope_selectors s' = s_scope_selectors s0" "nvars s' = nvars s0" "s_interrupt s' = s_interrupt s0"
    using assms(6-8) by (simp_all add: search_view_def nvars_def)
  moreover have "r' = r" "solver_ok G s'" "query_ok G (s_scope_selectors s0) as r s'"
    using finish_query_ok(1-3) [OF assms(1-3) refl assms(4,5) e [folded assms(6)]] assms(6) by simp_all
  ultimately show ?thesis by (simp add: solved_def e)
qed

lemma solve_ok:
  assumes s: "solver_ok G s" and as: "\<forall>a \<in> set as. var_index (lit_var a) < s_variable_count s"
  shows "solve_assuming_with_limits F as limits s = Some x \<Longrightarrow> solved G as s x"
    "will_stop limits s \<Longrightarrow> \<exists>x. solve_assuming_with_limits F as limits s = Some x"
proof -
  let ?q = "s_scope_selectors s @ as" and ?solve = "solve_assuming_with_limits F as limits s"
  have la: "list_all (\<lambda>l. var_index (lit_var l) < s_variable_count s) as" using as by (simp add: list_all_iff)
  have "(?solve = Some x \<longrightarrow> solved G as s x) \<and> (will_stop limits s \<longrightarrow> (\<exists>x. ?solve = Some x))" for x
  proof (cases "s_cached_assumptions s = ?q \<and> s_cached_result s \<noteq> None")
    case True
    then obtain r where r: "s_cached_result s = Some r" by blast
    have "query_ok G (s_scope_selectors s) as r s" using s True r by (auto simp: solver_ok_def cache_ok_def)
    then have "solved G as s (r, s)" using s by (simp add: solved_def)
    then show ?thesis using True la r by (auto simp: solve_assuming_with_limits_def Let_def)
  next
    case nc: False
    let ?s2 = "root_state s"
    note k = root_state_ok [OF s]
    obtain rc s3 where p: "(if \<not> s_consistent ?s2 then (True, ?s2)
        else case propagate ?s2 of (c, s') \<Rightarrow> (c \<noteq> None, s')) = (rc, s3)" by fastforce
    have e: "?solve =
      (if rc then Some (finish_query as ?q Unsat (s3\<lparr>s_consistent := False\<rparr>))
       else if s_interrupt s3 (s_polls s3) then Some (finish_query as ?q (Unknown Interrupted) (s3\<lparr>s_polls := s_polls s3 + 1\<rparr>))
       else case search F ?q (begin_search_control limits (s3\<lparr>s_polls := s_polls s3 + 1\<rparr>)) of
              None \<Rightarrow> None
            | Some (result, s5) \<Rightarrow> Some (finish_query as ?q result (s5\<lparr>s_control_active := False\<rparr>)))"
    proof -
      have nc': "(s_cached_assumptions s = ?q \<and> s_cached_result s \<noteq> None) = False" using nc by simp
      show ?thesis
        unfolding solve_assuming_with_limits_def Let_def root_state_def [symmetric] p nc' if_False prod.case
        using la by simp
    qed
    have s3: "base_ok G s3" "watches_ok s3" "seen_clear s3" "decision_level s3 = 0" "steer_view s3 = steer_view ?s2"
      "rc \<Longrightarrow> entails G []" "\<not> rc \<Longrightarrow> inv G s3"
    proof -
      have "base_ok G s3 \<and> watches_ok s3 \<and> seen_clear s3 \<and> decision_level s3 = 0 \<and> steer_view s3 = steer_view ?s2
        \<and> (rc \<longrightarrow> entails G []) \<and> (\<not> rc \<longrightarrow> inv G s3)"
      proof (cases "s_consistent ?s2")
        case False
        have b: "base_ok G ?s2" "watches_ok ?s2" "seen_clear ?s2" using k(1) by (simp_all add: settled_def)
        then have "entails G []" using False by (simp add: base_ok_def meaning_ok_def)
        then show ?thesis using False p b k(2) by auto
      next
        case True
        obtain c where c: "propagate ?s2 = (c, s3)" "rc = (c \<noteq> None)" using p True by (auto split: prod.splits)
        note rp = root_propagation [OF k(1,2) True k(3) c(1)]
        have "steer_view s3 = steer_view ?s2" using propagate_uncontrolled [OF k(3)] by (simp add: c(1))
        then show ?thesis using rp c(2) by (cases c) auto
      qed
      then show "base_ok G s3" "watches_ok s3" "seen_clear s3" "decision_level s3 = 0" "steer_view s3 = steer_view ?s2"
        "rc \<Longrightarrow> entails G []" "\<not> rc \<Longrightarrow> inv G s3" by blast+
    qed
    have v: "\<not> s_control_active s3" "s_started s3" "s_failed s3 = []" "s_consistent s3 = s_consistent s"
      "s_scope_selectors s3 = s_scope_selectors s" "s_polls s3 = s_polls s" "s_interrupt s3 = s_interrupt s" "nvars s3 = nvars s"
      using s3(5) k(3-10) by (simp_all add: steer_view_def quiet_view_def search_view_def)
    show ?thesis
    proof (cases rc)
      case True
      have "settled G (s3\<lparr>s_consistent := False\<rparr>)" by (rule settled_inconsistent [OF s3(1-3)]) (rule s3(6) [OF True])
      then have "solved G as s (finish_query as ?q Unsat (s3\<lparr>s_consistent := False\<rparr>))"
        using v s3(6) [OF True] by (intro finished) (simp_all add: answer_ok_def nvars_def)
      then show ?thesis using True by (auto simp: e)
    next
      case False
      have i3: "inv G s3" by (rule s3(7) [OF False])
      have cons: "s_consistent s3" using False p k(6) v(4) by (auto split: if_splits)
      let ?s4 = "s3\<lparr>s_polls := s_polls s3 + 1\<rparr>"
      show ?thesis
      proof (cases "s_interrupt s3 (s_polls s3)")
        case True
        have fr: "frame_eq s3 ?s4" by (simp add: frame_eq_def same_db_def)
        have "settled G ?s4" using inv_settled [OF i3 s3(3)] frame_settled [OF fr] by simp
        then have "solved G as s (finish_query as ?q (Unknown Interrupted) ?s4)"
          using v cons by (intro finished) (simp_all add: answer_ok_def nvars_def)
        then show ?thesis using True False by (auto simp: e)
      next
        case ni: False
        let ?b = "begin_search_control limits ?s4"
        have fr: "frame_eq s3 ?b" by (simp add: begin_search_control_def frame_eq_def same_db_def)
        have ib: "inv G ?b" using frame_inv [OF fr] i3 by simp
        then have tb: "trail_ok ?b" "selectors_ok ?b" by (simp_all add: inv_def base_ok_def)
        have vb: "nvars ?b = nvars s" "s_control_active ?b" "s_scope_selectors ?b = s_scope_selectors s"
          "s_consistent ?b" "s_failed ?b = []" "s_interrupt ?b = s_interrupt s" "s_polls ?b = s_polls s + 1"
          "s_limits ?b = limits" "s_started ?b" "s_seen ?b = s_seen s3"
          using v cons by (simp_all add: begin_search_control_def nvars_def)
        have "decision_level ?b = 0" using s3(4) frame_eq_simps(13) [OF fr] by simp
        then have "search_trail ?q ?b" by (rule search_trail_root [OF tb(1)])
        moreover have "seen_clear ?b" using s3(3) vb(1,10) v(8) by (simp add: seen_clear_def)
        moreover have "lit_ok ?b a" if "a \<in> set ?q" for a
        proof -
          have "s_variable_count s = nvars s" using s by (simp add: solver_ok_def settled_def base_ok_def shape_ok_def)
          then show ?thesis using that as tb(2) vb(1,3) by (auto simp: selectors_ok_def lit_ok_def)
        qed
        ultimately have se: "searching G ?q ?b" using ib vb(4) by (simp add: searching_def)
        have part: "solved G as s (finish_query as ?q r (s5\<lparr>s_control_active := False\<rparr>))"
          if r: "search F ?q ?b = Some (r, s5)" for r s5
        proof -
          have a: "answer_ok G ?q r s5" "settled G s5" "search_view s5 = search_view ?b"
            "r = Unsat \<and> s_consistent s5 \<or> s_failed s5 = []"
            using search_partial [OF r] se vb(2,5) by (auto simp: answered_def)
          have fr5: "frame_eq s5 (s5\<lparr>s_control_active := False\<rparr>)" by (simp add: frame_eq_def same_db_def)
          have "answer_ok G ?q r (s5\<lparr>s_control_active := False\<rparr>)"
            using a(1) by (cases r; cases "s_consistent s5") (simp_all add: answer_ok_def)
          moreover have "s_scope_selectors s5 = s_scope_selectors s" "nvars s5 = nvars s" "s_interrupt s5 = s_interrupt s"
            "s_started s5" using a(3) vb by (simp_all add: search_view_def)
          ultimately show ?thesis
            using a(2,4) frame_settled [OF fr5] by (intro finished) (simp_all add: nvars_def)
        qed
        have "\<exists>x. search F ?q ?b = Some x" if w: "will_stop limits s"
        proof (cases "limit_conflicts limits")
          case None
          then obtain j where j: "s_polls s \<le> j" "s_interrupt s j" using w by (auto simp: will_stop_def)
          then have "s_polls s \<noteq> j" using ni v(6,7) by auto
          then have "raised_at j ?b" using j vb(2,6,7) by (simp add: raised_at_def)
          then show ?thesis using search_total_interrupt se by blast
        next
          case (Some n)
          then have "bounded n ?b" using vb(8) by (simp add: bounded_def)
          then show ?thesis using search_total_limit se vb(2) by blast
        qed
        then show ?thesis using ni False part by (fastforce simp: e split: option.splits)
      qed
    qed
  qed
  then show "?solve = Some x \<Longrightarrow> solved G as s x" "will_stop limits s \<Longrightarrow> \<exists>x. ?solve = Some x" by blast+
qed

end
