(* ===== verification/Solver_Scopes.thy ===== *)
theory Solver_Scopes
  imports Solver_Sound
begin

section \<open>Adding clauses, variables and scopes\<close>

text \<open>
  The operations of the incremental interface keep \<open>solver_ok\<close>. Adding a clause adds the
  clause, guarded by the selector of the innermost scope, to the clauses the answers are about;
  the call returns \<open>False\<close> exactly when the clauses are now known to be unsatisfiable. Pushing
  opens scopes with fresh selectors, popping adds the negated selectors as unit clauses.
\<close>

subsection \<open>Growing the arrays\<close>

definition grown :: "'f::linorder float_ops \<Rightarrow> nat \<Rightarrow> 'f solver \<Rightarrow> 'f solver" where
  "grown F n s = grow_variables F n (s\<lparr>s_variable_count := n\<rparr>)"

lemma grown_views:
  assumes sh: "shape_ok s" and n: "nvars s < n" "n \<le> MAX_VARIABLES"
  shows "same_db s (grown F n s)" "s_trail (grown F n s) = s_trail s" "s_trail_limits (grown F n s) = s_trail_limits s"
    "s_head (grown F n s) = s_head s" "nvars (grown F n s) = n" "s_consistent (grown F n s) = s_consistent s"
    "s_proof (grown F n s) = s_proof s" "s_scope_selectors (grown F n s) = s_scope_selectors s"
    "s_started (grown F n s) = s_started s" "s_control_active (grown F n s) = s_control_active s"
    "s_cached_result (grown F n s) = s_cached_result s" "s_failed (grown F n s) = s_failed s"
    "s_polls (grown F n s) = s_polls s" "s_interrupt (grown F n s) = s_interrupt s"
    "lit_ok s l \<Longrightarrow> lit_ok (grown F n s) l" "lit_ok s l \<Longrightarrow> literal_value (grown F n s) l = literal_value s l"
    "lit_ok s l \<Longrightarrow> level_of (grown F n s) l = level_of s l" "lit_ok s l \<Longrightarrow> reason_of (grown F n s) l = reason_of s l"
    "lit_ok s l \<Longrightarrow> watches_of (grown F n s) l = watches_of s l"
    "\<not> lit_ok s l \<Longrightarrow> lit_ok (grown F n s) l \<Longrightarrow> literal_value (grown F n s) l = 0"
    "\<not> lit_ok s l \<Longrightarrow> lit_ok (grown F n s) l \<Longrightarrow> watches_of (grown F n s) l = []"
    "shape_ok (grown F n s)" "i < n \<Longrightarrow> s_seen (grown F n s) ! i = (i < nvars s \<and> s_seen s ! i)"
    "s_assignments (grown F n s) = resize n 0 (s_assignments s)"
proof -
  have len: "length (s_assignments s) = nvars s" "length (s_levels s) = nvars s" "length (s_reasons s) = nvars s"
    "length (s_seen s) = nvars s" "length (s_watches s) = 2 * nvars s"
    using sh by (simp_all add: shape_ok_def nvars_def)
  have g: "grown F n s = s\<lparr>s_variable_count := n, s_assignments := resize n 0 (s_assignments s),
                s_levels := resize n 0 (s_levels s),
                s_reasons := resize n None (s_reasons s),
                s_phase := resize n True (s_phase s),
                s_activity := resize n (fl_zero F) (s_activity s),
                s_seen := resize n False (s_seen s),
                s_watches := resize (n * 2) [] (s_watches s),
                s_order := vo_grow (nvars s) n (resize n (fl_zero F) (s_activity s)) (s_order s),
                s_vmtf := vmtf_grow (nvars s) n (s_vmtf s)\<rparr>"
    using n by (simp add: grown_def grow_variables_def Let_def nvars_def)
  have f: "s_assignments (grown F n s) = resize n 0 (s_assignments s)" "s_levels (grown F n s) = resize n 0 (s_levels s)"
    "s_reasons (grown F n s) = resize n None (s_reasons s)" "s_seen (grown F n s) = resize n False (s_seen s)"
    "s_watches (grown F n s) = resize (n * 2) [] (s_watches s)"
    by (simp_all add: g)
  have li: "lit_index l < 2 * m \<longleftrightarrow> var_index (lit_var l) < m" for l m
    by (auto simp: var_index_lit_var)
  show "same_db s (grown F n s)" "s_trail (grown F n s) = s_trail s" "s_trail_limits (grown F n s) = s_trail_limits s"
    "s_head (grown F n s) = s_head s" "nvars (grown F n s) = n" "s_consistent (grown F n s) = s_consistent s"
    "s_proof (grown F n s) = s_proof s" "s_scope_selectors (grown F n s) = s_scope_selectors s"
    "s_started (grown F n s) = s_started s" "s_control_active (grown F n s) = s_control_active s"
    "s_cached_result (grown F n s) = s_cached_result s" "s_failed (grown F n s) = s_failed s"
    "s_polls (grown F n s) = s_polls s" "s_interrupt (grown F n s) = s_interrupt s"
    "s_assignments (grown F n s) = resize n 0 (s_assignments s)"
    by (simp_all add: g same_db_def nvars_def)
  show "lit_ok s l \<Longrightarrow> lit_ok (grown F n s) l" "lit_ok s l \<Longrightarrow> literal_value (grown F n s) l = literal_value s l"
    "lit_ok s l \<Longrightarrow> level_of (grown F n s) l = level_of s l" "lit_ok s l \<Longrightarrow> reason_of (grown F n s) l = reason_of s l"
    "\<not> lit_ok s l \<Longrightarrow> lit_ok (grown F n s) l \<Longrightarrow> literal_value (grown F n s) l = 0"
    using n len(1-3) unfolding lit_ok_def nvars_def literal_value_def value_of_def level_of_def reason_of_def f Let_def
    by (simp_all add: nth_resize)
  show "lit_ok s l \<Longrightarrow> watches_of (grown F n s) l = watches_of s l"
    "\<not> lit_ok s l \<Longrightarrow> lit_ok (grown F n s) l \<Longrightarrow> watches_of (grown F n s) l = []"
    using n len li [of l "nvars s"] li [of l n]
    unfolding lit_ok_def nvars_def watches_of_def f by (simp_all add: nth_resize mult.commute)
  show "shape_ok (grown F n s)" using sh n by (simp add: g shape_ok_def nvars_def)
  show "i < n \<Longrightarrow> s_seen (grown F n s) ! i = (i < nvars s \<and> s_seen s ! i)"
    using len by (simp add: f nth_resize)
qed

lemma grown_queue:
  assumes sh: "shape_ok s" and q: "queue_inv s" and n: "nvars s < n" "n \<le> MAX_VARIABLES"
  shows "queue_inv (grown F n s)"
proof -
  have o: "s_order (grown F n s) = vo_grow (nvars s) n (resize n (fl_zero F) (s_activity s)) (s_order s)"
    using n by (simp add: grown_def grow_variables_def Let_def nvars_def)
  have h: "slots_ok (s_order s)" "length (vo_positions (s_order s)) = nvars s" using q by (simp_all add: queue_inv_def)
  note k = vo_grow_slots [OF h(1), of n "resize n (fl_zero F) (s_activity s)", unfolded h(2)]
  have "v \<in> vo_vars (s_order (grown F n s))"
    if v: "var_index v < n" "s_assignments (grown F n s) ! var_index v = 0" for v
  proof (cases "var_index v < nvars s")
    case True
    then have "s_assignments s ! var_index v = 0"
      using v grown_views(24) [OF sh n] by (simp add: nth_resize nvars_def)
    then show ?thesis using q True k n by (simp add: o queue_inv_def)
  qed (use k n v in \<open>simp add: o\<close>)
  then show ?thesis using k n by (simp add: queue_inv_def o grown_views(5) [OF sh n])
qed

lemma grown_ok:
  assumes b: "db_ok G s" and n: "nvars s < n" "n \<le> MAX_VARIABLES"
  shows "db_ok G (grown F n s)" "coverage_ok H s \<Longrightarrow> coverage_ok H (grown F n s)"
    "watches_ok s \<Longrightarrow> watches_ok (grown F n s)" "watch_sem k s \<Longrightarrow> watch_sem k (grown F n s)"
    "pending c (grown F n s) = pending c s" "seen_clear s \<Longrightarrow> seen_clear (grown F n s)"
proof -
  let ?s = "grown F n s"
  have parts: "shape_ok s" "queue_inv s" "arena_ok s" "clauses_ok s" "trail_ok s" "reasons_ok s"
    "meaning_ok G s" "selectors_ok s" using b by (simp_all add: db_ok_def)
  note v = grown_views [OF parts(1) n, where F = F] and db = same_db_simps [OF v(1)]
  have tl: "lit_ok s l" if "l \<in> set (s_trail s)" for l using parts(5) that by (simp add: trail_ok_def)
  have root: "root_literals ?s = root_literals s" using v(17) tl by (auto simp: root_literals_def v(2))
  have views: "lit_t ?s = lit_t s" "lit_f ?s = lit_f s" by (auto simp: lit_t_def lit_f_def v(2) fun_eq_iff)
  have "trail_ok ?s"
    unfolding trail_ok_def v(2-4) views
  proof (intro conjI allI impI ballI)
    show "distinct (map lit_var (s_trail s))" "sorted (s_trail_limits s)" "s_head s \<le> length (s_trail s)"
      using parts(5) by (simp_all add: trail_ok_def)
    show "lit_ok ?s l" if "l \<in> set (s_trail s)" for l using v(15) tl [OF that] .
    show "m \<le> s_head s" if "m \<in> set (s_trail_limits s)" for m using parts(5) that by (simp add: trail_ok_def)
    show "level_of ?s (s_trail s ! i) = length (filter (\<lambda>n. n \<le> i) (s_trail_limits s))" if "i < length (s_trail s)" for i
      using parts(5) that v(17) [OF tl, of "s_trail s ! i"] by (simp add: trail_ok_def)
    show "literal_value ?s l = (if lit_t s l then 1 else if lit_f s l then - 1 else 0)" if l: "lit_ok ?s l" for l
    proof (cases "lit_ok s l")
      case True
      then show ?thesis using parts(5) v(16) by (simp add: trail_ok_def)
    next
      case False
      then have "\<not> lit_t s l" "\<not> lit_f s l" using tl [of l] tl [of "lit_not l"] by (auto simp: lit_t_def lit_f_def)
      then show ?thesis using v(20) [OF False l] by simp
    qed
  qed
  moreover have "reasons_ok ?s"
    unfolding reasons_ok_def v(2,3) db
  proof (intro allI impI)
    fix i assume i: "i < length (s_trail s)"
    then have "reason_of ?s (s_trail s ! i) = reason_of s (s_trail s ! i)" using v(18) tl by simp
    then show "case reason_of ?s (s_trail s ! i) of
          None \<Rightarrow> i \<in> set (s_trail_limits s) \<or> (\<forall>n \<in> set (s_trail_limits s). i < n)
        | Some c \<Rightarrow> live s c \<and> s_trail s ! i \<in> set (clause_literals s c)
            \<and> (\<forall>l \<in> set (clause_literals s c). l \<noteq> s_trail s ! i \<longrightarrow> lit_not l \<in> set (take i (s_trail s)))"
      using parts(6) i unfolding reasons_ok_def by simp
  qed
  moreover have "arena_ok ?s" using parts(3) v(1) by (simp add: arena_ok_def same_db_def)
  moreover have "clauses_ok ?s" using parts(4) v(15) unfolding clauses_ok_def db by blast
  moreover have "meaning_ok G ?s" using parts(7) unfolding meaning_ok_def db root v(6,7) .
  moreover have "selectors_ok ?s" using parts(8) v(15) unfolding selectors_ok_def v(8) by blast
  ultimately show "db_ok G ?s" using v(22) grown_queue [OF parts(1,2) n] by (simp add: db_ok_def)
  show "coverage_ok H s \<Longrightarrow> coverage_ok H ?s"
    using v(15) unfolding coverage_ok_def covered_def root db v(6) by blast
  show "watches_ok ?s" if w: "watches_ok s"
    unfolding watches_ok_def
  proof (intro allI impI)
    fix l assume l: "lit_ok ?s l"
    show "(\<forall>w \<in> set (watches_of ?s l). watch_ok ?s l w)
        \<and> (\<forall>c. live ?s c \<longrightarrow> occurrences c (watches_of ?s l)
              = (if l \<in> set (take 2 (clause_literals ?s c)) then 1 else 0))"
    proof (cases "lit_ok s l")
      case True
      then show ?thesis using w unfolding watches_ok_def watch_ok_def v(19) [OF True] db by blast
    next
      case False
      then have "l \<notin> set (take 2 (clause_literals s c))" if "live s c" for c
        using clauses_okD(3) [OF parts(4) liveD [OF that]] by (auto dest: in_set_takeD)
      then show ?thesis using v(21) [OF False l] by (simp add: db)
    qed
  qed
  show "watch_sem k s \<Longrightarrow> watch_sem k ?s"
  proof -
    assume w: "watch_sem k s"
    show "watch_sem k ?s"
      unfolding watch_sem_def db
    proof (intro allI impI)
      fix c assume c: "live s c"
      have lv: "level_of ?s l = level_of s l" if "l \<in> set (clause_literals s c)" for l
        using v(17) clauses_okD(3) [OF parts(4) liveD [OF c] that] by simp
      then have lw: "level_of ?s l = level_of s l" if "l \<in> set (take 2 (clause_literals s c))" for l
        using that by (meson in_set_takeD)
      have "watch_done k s c" using w c by (simp add: watch_sem_def)
      then show "watch_done k ?s c"
        unfolding watch_done_defs db v(2) root views using lv lw by simp
    qed
  qed
  show "pending c ?s = pending c s" unfolding pending_def db views v(2,4) ..
  show "seen_clear s \<Longrightarrow> seen_clear ?s" using v(5,23) by (simp add: seen_clear_def)
qed

subsection \<open>Before a clause is added\<close>

definition idle :: "'f solver \<Rightarrow> bool" where
  "idle s \<longleftrightarrow> \<not> s_control_active s \<and> s_cached_result s = None \<and> s_failed s = []"

definition ready :: "lit list set \<Rightarrow> 'f solver \<Rightarrow> bool" where
  "ready G s \<longleftrightarrow> settled G s \<and> decision_level s = 0 \<and> idle s \<and> (\<not> s_started s \<longrightarrow> s_head s = 0)"

lemma idle_steer: "steer_view s' = steer_view s \<Longrightarrow> idle s' = idle s"
  by (simp add: idle_def view_defs)

lemma ready_solver_ok: "ready G s \<Longrightarrow> solver_ok G s"
  by (simp add: ready_def solver_ok_def idle_def cache_ok_def decision_level_def)

lemma ready_frame:
  assumes "ready G s" "frame_eq s s'" "s_seen s' = s_seen s" "idle s'" "s_started s' = s_started s"
  shows "ready G s'"
  using assms frame_settled [OF assms(2,3)] frame_eq_simps(13) [OF assms(2)]
  by (simp add: ready_def frame_eq_def)

lemma prepare_ok:
  assumes "solver_ok G s"
  shows "ready G (prepare_incremental_mutation s)" "nvars (prepare_incremental_mutation s) = nvars s"
    "s_scope_selectors (prepare_incremental_mutation s) = s_scope_selectors s"
    "s_started (prepare_incremental_mutation s) = s_started s"
    "s_consistent (prepare_incremental_mutation s) = s_consistent s"
proof -
  let ?t = "if s_started s then cancel_until 0 s else s"
  have st: "settled G s" "\<not> s_control_active s" "\<not> s_started s \<longrightarrow> s_trail_limits s = [] \<and> s_head s = 0"
    using assms by (simp_all add: solver_ok_def)
  have v: "steer_view ?t = steer_view s" by simp
  have e: "prepare_incremental_mutation s = ?t\<lparr>s_cached_result := None, s_cached_assumptions := [], s_failed := []\<rparr>"
    by (simp add: prepare_incremental_mutation_def)
  have fr: "frame_eq ?t (prepare_incremental_mutation s)" by (simp add: e frame_eq_def same_db_def)
  have k: "settled G ?t" "decision_level ?t = 0" "\<not> s_started s \<longrightarrow> s_head ?t = 0"
    using st settled_cancel [OF st(1)] by (auto simp: decision_level_def)
  have "settled G (prepare_incremental_mutation s)" using k(1) frame_settled [OF fr] by (simp add: e)
  moreover have "decision_level (prepare_incremental_mutation s) = 0" using k(2) frame_eq_simps(13) [OF fr] by simp
  moreover have "idle (prepare_incremental_mutation s)" using v st(2) by (simp add: idle_def e view_defs)
  moreover have "s_head (prepare_incremental_mutation s) = s_head ?t" by (simp add: e)
  moreover have sv: "s_started ?t = s_started s" "nvars ?t = nvars s" "s_scope_selectors ?t = s_scope_selectors s"
    "s_consistent ?t = s_consistent s"
    using v by (simp_all add: view_defs)
  ultimately show "ready G (prepare_incremental_mutation s)" using k(3) by (simp add: ready_def e)
  show "nvars (prepare_incremental_mutation s) = nvars s"
    "s_scope_selectors (prepare_incremental_mutation s) = s_scope_selectors s"
    "s_started (prepare_incremental_mutation s) = s_started s"
    "s_consistent (prepare_incremental_mutation s) = s_consistent s"
    using sv by (simp_all add: e nvars_def)
qed

lemma settledD:
  assumes "settled G s" shows "base_ok G s" "db_ok G s" "coverage_ok G s" "watches_ok s" "seen_clear s" "shape_ok s"
    "trail_ok s" "clauses_ok s" "arena_ok s"
  using assms by (simp_all add: settled_def base_ok_split db_ok_def)

lemma ready_grown:
  assumes r: "ready G s" and n: "nvars s < n" "n \<le> MAX_VARIABLES"
  shows "ready G (grown F n s)"
proof -
  have s: "settled G s" "decision_level s = 0" using r by (simp_all add: ready_def)
  note d = settledD [OF s(1)] and k = grown_ok [OF settledD(2) [OF s(1)] n, where F = F]
  note v = grown_views [OF d(6) n, where F = F]
  have "(s_consistent s \<longrightarrow> (\<exists>j. watch_sem j s \<and> (\<forall>n \<in> set (s_trail_limits s). n \<le> j))
     \<and> (watch_sem (s_head s) s \<or> (\<exists>c. pending c s)))"
    using s by (simp add: settled_def)
  then have "settled G (grown F n s)"
    using k d v(2-4,6) unfolding settled_def base_ok_split decision_level_def by metis
  then show ?thesis using r v(3,4,9,10,11,12) by (simp add: ready_def idle_def decision_level_def)
qed

lemma grow_for_literals_ok:
  assumes r: "ready G s"
  shows "ready G (grow_for_literals F lits s)" "\<forall>l \<in> set lits. lit_ok (grow_for_literals F lits s) l"
    "s_scope_selectors (grow_for_literals F lits s) = s_scope_selectors s"
    "s_started (grow_for_literals F lits s) = s_started s"
    "lit_ok s l \<Longrightarrow> lit_ok (grow_for_literals F lits s) l"
proof -
  have sh: "shape_ok s" using r settledD(6) by (auto simp: ready_def)
  have vc: "s_variable_count s = nvars s" using sh by (simp add: shape_ok_def)
  define m where "m = Max (set (map (\<lambda>l. var_index (lit_var l)) lits)) + 1"
  have le: "var_index (lit_var l) < m" if "l \<in> set lits" for l
    using that by (simp add: m_def le_imp_less_Suc)
  have mm: "m \<le> MAX_VARIABLES" if "lits \<noteq> []"
  proof -
    have "Max (set (map (\<lambda>l. var_index (lit_var l)) lits)) \<in> set (map (\<lambda>l. var_index (lit_var l)) lits)"
      using that by (intro Max_in) auto
    then show ?thesis using lit_var_ok by (auto simp: m_def var_ok_def Suc_le_eq)
  qed
  have e: "grow_for_literals F lits s = (if lits \<noteq> [] \<and> nvars s < m then grown F m s else s)"
    by (simp add: grow_for_literals_def Let_def vc grown_def m_def)
  have "ready G (grow_for_literals F lits s) \<and> (\<forall>l \<in> set lits. lit_ok (grow_for_literals F lits s) l)
    \<and> s_scope_selectors (grow_for_literals F lits s) = s_scope_selectors s
    \<and> s_started (grow_for_literals F lits s) = s_started s \<and> (lit_ok s l \<longrightarrow> lit_ok (grow_for_literals F lits s) l)" for l
  proof (cases "lits \<noteq> [] \<and> nvars s < m")
    case True
    note v = grown_views [OF sh _ mm, where F = F]
    show ?thesis using True ready_grown [OF r _ mm, of F] v le by (simp add: e lit_ok_def)
  next
    case False
    have "lit_ok s l" if "l \<in> set lits" for l using le [OF that] False that by (cases lits) (auto simp: lit_ok_def)
    then show ?thesis using False r by (auto simp: e)
  qed
  then show "ready G (grow_for_literals F lits s)" "\<forall>l \<in> set lits. lit_ok (grow_for_literals F lits s) l"
    "s_scope_selectors (grow_for_literals F lits s) = s_scope_selectors s"
    "s_started (grow_for_literals F lits s) = s_started s"
    "lit_ok s l \<Longrightarrow> lit_ok (grow_for_literals F lits s) l" by blast+
qed

subsection \<open>Duplicates and tautologies\<close>

lemma dedup_literals_ok:
  "sorted (map lit_index (kept @ ls)) \<Longrightarrow> distinct (map lit_var kept) \<Longrightarrow>
   (case dedup_literals kept ls of
      None \<Rightarrow> \<exists>l \<in> set (kept @ ls). lit_not l \<in> set (kept @ ls)
    | Some n \<Rightarrow> set n = set (kept @ ls) \<and> distinct (map lit_var n))"
proof (induction kept ls rule: dedup_literals.induct)
  case (1 kept)
  then show ?case by simp
next
  case (2 kept l ls)
  consider (same) "kept \<noteq> []" "last kept = l"
    | (taut) "kept \<noteq> []" "last kept \<noteq> l" "lit_var (last kept) = lit_var l"
    | (new) "kept = [] \<or> lit_var (last kept) \<noteq> lit_var l" by blast
  then show ?case
  proof cases
    case same
    then have "l \<in> set kept" using last_in_set by blast
    then have eq: "set (kept @ l # ls) = set (kept @ ls)" by auto
    have "sorted (map lit_index (kept @ ls))" using "2.prems"(1) by (simp add: sorted_append)
    then show ?thesis using "2.IH"(1) same "2.prems"(2) unfolding eq by simp
  next
    case taut
    then have "l = lit_not (last kept)" using lit_var_eq_iff [of l "last kept"] by auto
    moreover have "last kept \<in> set kept" using taut(1) by (rule last_in_set)
    ultimately show ?thesis using taut by auto
  next
    case new
    have "lit_var x \<noteq> lit_var l" if x: "x \<in> set kept" for x
    proof
      assume e: "lit_var x = lit_var l"
      have kn: "kept \<noteq> []" using x by auto
      have sk: "sorted (map lit_index kept)" "lit_index (last kept) \<le> lit_index l"
        using "2.prems"(1) last_in_set [OF kn] by (auto simp: sorted_append)
      obtain i where i: "i < length kept" "kept ! i = x" using x by (auto simp: in_set_conv_nth)
      have "map lit_index kept ! i \<le> map lit_index kept ! (length kept - 1)"
        using sk(1) i(1) by (intro sorted_nth_mono) auto
      then have "lit_index x \<le> lit_index (last kept)" using i kn by (simp add: last_conv_nth)
      then have "var_index (lit_var x) \<le> var_index (lit_var (last kept))"
        "var_index (lit_var (last kept)) \<le> var_index (lit_var l)"
        using sk(2) by (simp_all add: var_index_lit_var div_le_mono)
      then show False using e new kn by (simp add: var_index_eq_iff [symmetric])
    qed
    then have "lit_var l \<notin> lit_var ` set kept" by (metis imageE)
    then have d: "distinct (map lit_var (kept @ [l]))" using "2.prems"(2) by simp
    have c: "\<not> (kept \<noteq> [] \<and> last kept = l)" "\<not> (kept \<noteq> [] \<and> lit_var (last kept) = lit_var l)"
      using new by auto
    have eq: "kept @ l # ls = (kept @ [l]) @ ls" by simp
    show ?thesis
      using "2.IH"(2) [OF c "2.prems"(1) [unfolded eq] d]
      unfolding eq dedup_literals.simps(2) if_not_P [OF c(1)] if_not_P [OF c(2)] .
  qed
qed

subsection \<open>Adding a clause\<close>

lemma watch_sem_0:
  assumes "clauses_ok s" shows "watch_sem 0 s"
  unfolding watch_sem_def
proof (intro allI impI)
  fix c assume "live s c"
  note ft = first_two(1) [OF assms liveD [OF this]]
  show "watch_done 0 s c" unfolding watch_done_defs ft by (simp, blast)
qed

lemma coverage_insert:
  assumes "coverage_ok G s" "s_consistent s \<Longrightarrow> covered s d" "\<forall>l \<in> set d. lit_ok s l"
  shows "coverage_ok (insert d G) s"
  using assms by (auto simp: coverage_ok_def)

text \<open>What adding the clause \<open>d\<close> to a ready state must achieve.\<close>

definition added :: "lit list set \<Rightarrow> 'f solver \<Rightarrow> bool \<times> 'f solver \<Rightarrow> bool" where
  "added H s = (\<lambda>(r, s'). ready H s' \<and> r = s_consistent s' \<and> s_scope_selectors s' = s_scope_selectors s
     \<and> s_started s' = s_started s \<and> nvars s' = nvars s)"

lemma added_steer:
  assumes "settled H s'" "decision_level s' = 0" "idle s" "search_view s' = search_view s" "s_failed s' = s_failed s"
    "\<not> s_started s \<Longrightarrow> s_head s' = 0" "r = s_consistent s'"
  shows "added H s (r, s')"
  using assms by (simp add: added_def ready_def idle_def search_view_def)

lemma settled_data:
  assumes "data_ok H s" "coverage_ok H s" "seen_clear s" shows "settled H s"
  using inv_settled [of H s] assms by (simp add: inv_split)

lemma inconsistent_added:
  assumes "db_ok H s" "watches_ok s" "seen_clear s" "entails H []" "\<forall>d \<in> H. \<forall>l \<in> set d. lit_ok s l"
  shows "settled H (s\<lparr>s_consistent := False\<rparr>)"
  using inconsistent_db [OF assms(1,4,5)] assms(2,3) by (simp add: settled_def)

text \<open>A new unit or longer clause at level 0, none of whose literals is true.\<close>

lemma unit_added:
  assumes d: "data_ok H s" "coverage_ok G s" and z: "decision_level s = 0" and l: "lit_ok s l" "literal_value s l = 0"
    and e: "entails H [l]"
  shows "data_ok H (enqueued True l None s)" "coverage_ok (insert [l] G) (enqueued True l None s)"
proof -
  have t: "trail_ok s" "shape_ok s" using d(1) by (simp_all add: data_ok_def db_ok_def)
  have "reason_fits s l None" using z by (simp add: reason_fits_def decision_level_def)
  note k = data_enqueue [OF d(1) l this] 
  show "data_ok H (enqueued True l None s)" using k(1) e by blast
  have "l \<in> root_literals (enqueued True l None s)" using enqueued_root [OF t l] z by simp
  then have "covered (enqueued True l None s) [l]" by (simp add: covered_def)
  then show "coverage_ok (insert [l] G) (enqueued True l None s)"
    using k(2) [OF _ d(2)] e l enqueued_fields(15) [OF l(2) t(2) l(1)] by (intro coverage_insert) simp_all
qed

lemma steer_attached: "attached c lits learned s s' \<Longrightarrow> steer_view s' = steer_view s"
  unfolding attached_def by (elim conjE exE) (simp add: view_defs)

lemma clause_added:
  assumes a: "attached c lits False s s'" and d: "data_ok H s" "coverage_ok G s" and e: "entails H lits"
    and lits: "2 \<le> length lits" "distinct (map lit_var lits)" "\<forall>l \<in> set lits. lit_ok s l"
  shows "coverage_ok (insert lits G) s'"
proof (rule coverage_insert)
  show "coverage_ok G s'" using attached_others(2) [OF a d(1) e lits d(2)] .
  have "live s' c" "\<not> clause_learned s' c" "clause_literals s' c = lits"
    using a attached_live(1) [OF a, of c] by (auto simp: attached_def)
  then show "covered s' lits" by (auto simp: covered_def)
  show "\<forall>l \<in> set lits. lit_ok s' l" using lits(3) by (simp add: attached_fields(5) [OF a])
qed

lemma coverage_set_eq:
  assumes "coverage_ok (insert c G) s" "set d = set c" shows "coverage_ok (insert d G) s"
  using assms by (auto simp: coverage_ok_def covered_def)

lemma add_fresh_ok:
  assumes r: "ready G s" and fresh: "\<not> s_started s" and n: "set ls = set d" "distinct (map lit_var ls)" "\<forall>l \<in> set ls. lit_ok s l"
  shows "added (insert d G) s (add_fresh F ls s)"
proof -
  let ?H = "insert d G"
  have s: "settled G s" "decision_level s = 0" "idle s" "s_head s = 0" using r fresh by (simp_all add: ready_def)
  note k = settledD [OF s(1)]
  have db: "db_ok ?H s" using db_ok_mono [OF k(2)] by blast
  have ed: "entails ?H ls" using entails_member [of d ?H] entails_set_eq [OF n(1)] by simp
  have data: "data_ok ?H s" using db k(4) watch_sem_0 [OF k(8)] s(4) by (simp add: data_ok_def)
  have lits: "\<forall>c \<in> ?H. \<forall>l \<in> set c. lit_ok s l" using k(3) n(1,3) by (auto simp: coverage_ok_def)
  have bad: "added ?H s (False, s\<lparr>s_consistent := False\<rparr>)" if "entails ?H []"
  proof (rule added_steer [OF inconsistent_added [OF db k(4,5) that lits]])
    show "decision_level (s\<lparr>s_consistent := False\<rparr>) = 0" using s(2) by (simp add: decision_level_def)
    show "search_view (s\<lparr>s_consistent := False\<rparr>) = search_view s" by (simp add: search_view_def nvars_def)
  qed (use s in simp_all)
  consider (nil) "ls = []" | (one) l where "ls = [l]" | (more) "2 \<le> length ls" by (cases ls; cases "tl ls") auto
  then show ?thesis
  proof cases
    case nil
    then have "add_fresh F ls s = (False, s\<lparr>s_consistent := False\<rparr>)" by (simp add: add_fresh_def)
    then show ?thesis using bad ed nil by simp
  next
    case one
    have lo: "lit_ok s l" using n(3) one by simp
    note lv = literal_value_iff [OF k(7) lo]
    consider "literal_value s l = 1" | "literal_value s l = - 1" | "literal_value s l = 0"
      using value_cases [OF k(7) lo] by blast
    then show ?thesis
    proof cases
      case 1
      then have "l \<in> root_literals s" using lv level_le_decision [OF k(7), of l] s(2)
        by (auto simp: root_literals_def lit_t_def)
      then have "covered s d" using n(1) one by (auto simp: covered_def)
      then have "coverage_ok ?H s" using coverage_insert [OF k(3)] lits by blast
      then have "added ?H s (s_consistent s, s)"
        using settled_data [OF data _ k(5)] s by (intro added_steer) simp_all
      moreover have "add_fresh F ls s = (s_consistent s, s)"
        using 1 one by (simp add: add_fresh_def enqueue_def enqueue_internal_def Let_def)
      ultimately show ?thesis by simp
    next
      case 2
      then have "entails ?H []" using root_false_refutes [OF k(1) s(2) ed] one lv by auto
      moreover have "add_fresh F ls s = (False, s\<lparr>s_consistent := False\<rparr>)"
        using 2 one by (simp add: add_fresh_def enqueue_def enqueue_internal_def Let_def)
      ultimately show ?thesis using bad by simp
    next
      case 3
      let ?e = "enqueued True l None s"
      note f = enqueued_fields [OF 3 k(6) lo, of True None]
      note u = unit_added [OF data k(3) s(2) lo 3 ed [unfolded one]]
      have "settled ?H ?e"
        using u(1) coverage_set_eq [OF u(2)] n(1) one k(5) f by (intro settled_data) (simp_all add: seen_clear_def)
      moreover have en: "enqueue l None s = (True, ?e)"
        using 3 by (simp add: enqueue_def enqueued_def enqueue_internal_def Let_def)
      have "add_fresh F ls s = (s_consistent ?e, ?e)" by (simp add: add_fresh_def Let_def one en)
      moreover have "steer_view ?e = steer_view s" by (simp add: enqueued_def)
      ultimately show ?thesis
        using s f by (auto intro!: added_steer simp: steer_view_def quiet_view_def)
    qed
  next
    case more
    have dl: "distinct ls" using n(2) by (simp add: distinct_map)
    then have ne: "ls ! 0 \<noteq> ls ! 1" using more nth_eq_iff_index_eq [OF dl, of 0 1] by force
    obtain c s1 where al: "allocate_clause F ls 0 False s = (c, s1)" by fastforce
    have at: "attached c ls False s (attach_clause c s1)"
      by (rule attach_clause_attached [OF k(6,9) more n(3) ne al])
    let ?s2 = "attach_clause c s1"
    note f = attached_fields [OF at] and o = attached_others [OF at data ed more n(2,3)]
    have "data_ok ?H ?s2"
      using o watch_sem_0 [of ?s2] by (simp add: data_ok_def f s(4) db_ok_def)
    moreover have "coverage_ok ?H ?s2" using coverage_set_eq [OF clause_added [OF at data k(3) ed more n(2,3)]] n(1) by simp
    moreover have "seen_clear ?s2" using k(5) by (simp add: seen_clear_def f)
    ultimately have "settled ?H ?s2" by (rule settled_data)
    moreover have "length ls \<noteq> 0" "length ls \<noteq> 1" using more by auto
    then have "add_fresh F ls s = (s_consistent ?s2, ?s2)" using al by (simp add: add_fresh_def Let_def)
    ultimately show ?thesis
      using s f steer_attached [OF at] by (auto intro!: added_steer simp: steer_view_def quiet_view_def)
  qed
qed

text \<open>The literals in the order of \<open>add_started\<close>: the unassigned ones first.\<close>

lemma unassigned_first:
  fixes f :: "'a \<Rightarrow> nat"
  assumes "\<forall>x \<in> set xs. f x \<le> 1"
  defines "ys \<equiv> sort_key f xs" and "u \<equiv> length (takeWhile (\<lambda>x. f x = 0) (sort_key f xs))"
  shows "i < u \<Longrightarrow> f (ys ! i) = 0" "u \<le> i \<Longrightarrow> i < length ys \<Longrightarrow> f (ys ! i) = 1" "u \<le> length ys"
proof -
  show "u \<le> length ys" using length_takeWhile_le [of _ "sort_key f xs"] by (simp add: u_def ys_def)
  show "f (ys ! i) = 0" if i: "i < u"
  proof -
    let ?t = "takeWhile (\<lambda>x. f x = 0) ys"
    have il: "i < length ?t" using i by (simp add: u_def ys_def)
    have "?t ! i \<in> set ?t" by (rule nth_mem [OF il])
    from set_takeWhileD [OF this] have "f (?t ! i) = 0" by blast
    moreover have "?t ! i = ys ! i" by (rule takeWhile_nth [OF il])
    ultimately show ?thesis by argo
  qed
  assume i: "u \<le> i" "i < length ys"
  then have "length (takeWhile (\<lambda>x. f x = 0) ys) < length ys" by (simp add: u_def ys_def)
  from nth_length_takeWhile [OF this] have "f (ys ! u) \<noteq> 0" by (simp add: u_def ys_def)
  moreover have "f (ys ! u) \<le> f (ys ! i)"
  proof -
    have "sorted (map f ys)" by (simp add: ys_def)
    then have "map f ys ! u \<le> map f ys ! i" using i by (intro sorted_nth_mono) auto
    then show ?thesis using i by simp
  qed
  moreover have "f (ys ! i) \<le> 1" using assms(1) nth_mem [OF i(2)] by (simp add: ys_def)
  ultimately show "f (ys ! i) = 1" by simp
qed

text \<open>The propagation that ends the addition of a clause to a started solver.\<close>

lemma propagation_added:
  assumes i: "data_ok H s" "coverage_ok H s" "seen_clear s" and z: "decision_level s = 0" and c: "s_consistent s" "s_started s"
    and v: "steer_view s = steer_view s0" and id: "idle s0"
  shows "added H s0 (case propagate s of (Some _, t) \<Rightarrow> (False, t\<lparr>s_consistent := False\<rparr>) | (None, t) \<Rightarrow> (s_consistent t, t))"
proof -
  have ii: "idle s" using id idle_steer [OF v] by simp
  then have na: "\<not> s_control_active s" by (simp add: idle_def)
  obtain cf t where p: "propagate s = (cf, t)" by fastforce
  note k = root_propagation [OF settled_data [OF i] z c(1) na p]
  have vt: "steer_view t = steer_view s0" using propagate_uncontrolled [OF na] v by (simp add: p)
  have st: "s_started s0" using c(2) v by (simp add: view_defs)
  show ?thesis
  proof (cases cf)
    case None
    then have "settled H t" using k(3,6) by (auto intro: inv_settled)
    then show ?thesis
      using None k(5) vt st id by (auto intro!: added_steer simp: p steer_view_def quiet_view_def)
  next
    case (Some q)
    then have "settled H (t\<lparr>s_consistent := False\<rparr>)" using settled_inconsistent k(1-3,6) by simp
    moreover have "decision_level (t\<lparr>s_consistent := False\<rparr>) = 0" using k(5) by (simp add: decision_level_def)
    moreover have "search_view (t\<lparr>s_consistent := False\<rparr>) = search_view s0" "s_failed t = s_failed s0"
      using vt by (simp_all add: view_defs)
    ultimately show ?thesis using Some id st by (auto intro!: added_steer simp: p)
  qed
qed

lemma entails_insert: "set ls = set d \<Longrightarrow> entails (insert d G) ls"
  using entails_member [of d "insert d G"] entails_set_eq [of ls d] by simp

text \<open>A clause with one unassigned literal becomes its reason at once.\<close>

lemma implied_added:
  assumes at: "attached c ys False s s'" and d: "data_ok H s" and e: "entails H ys"
    and ys: "2 \<le> length ys" "distinct (map lit_var ys)" "\<forall>l \<in> set ys. lit_ok s l" and z: "decision_level s = 0"
    and l: "literal_value s' (ys ! 0) = 0" "lit_ok s' (ys ! 0)"
    and others: "\<forall>l \<in> set ys. l \<noteq> ys ! 0 \<longrightarrow> lit_f s l"
  shows "data_ok H (enqueued True (ys ! 0) (Some c) s')" "trail_ok s'" "shape_ok s'"
proof -
  let ?u = "ys ! 0" and ?e = "enqueued True (ys ! 0) (Some c) s'"
  note f = attached_fields [OF at] and o = attached_others [OF at d e ys]
  show t: "trail_ok s'" "shape_ok s'" using o(1) by (simp_all add: db_ok_def)
  have ui: "?u \<in> set ys" using ys(1) by (intro nth_mem) linarith
  have c: "live s' c" "clause_literals s' c = ys" using at attached_live(1) [OF at, of c] by (auto simp: attached_def)
  have fits: "reason_fits s' ?u (Some c)" using c others ui by (simp add: reason_fits_def f)
  have z': "decision_level s' = 0" using z by (simp add: f)
  have root: "entails H [?u]"
  proof -
    have "entails_set H (set ys)" using e by (simp add: entails_set_iff)
    then have "entails_set H {?u}"
    proof (rule entails_drop)
      fix m assume m: "m \<in> set ys"
      show "m \<in> {?u} \<or> entails H [lit_not m]"
      proof (cases "m = ?u")
        case False
        then have mf: "lit_f s m" using others m by blast
        have ts: "trail_ok s" "meaning_ok H s" using d by (simp_all add: data_ok_def db_ok_def)
        have "level_of s m = 0" using level_le_decision [OF ts(1), of "lit_not m"] mf z by (simp add: lit_f_def)
        then have "lit_not m \<in> root_literals s" using mf by (simp add: root_literals_def lit_f_def)
        then show ?thesis using ts(2) by (simp add: meaning_ok_def)
      qed simp
    qed
    then show ?thesis by (simp add: entails_set_iff)
  qed
  note ef = enqueued_fields [OF l(1) t(2) l(2), of True "Some c"] and edb = same_db_simps [OF enqueued_fields(4) [OF l(1) t(2) l(2)]]
  have h: "s_head s \<le> length (s_trail s')" using t(1) f(3) by (simp add: trail_ok_def)
  have ur: "?u \<in> root_literals ?e" using enqueued_root [OF t l(2,1)] z' by simp
  have "watch_done (s_head s) ?e c"
  proof -
    have "both_done (s_head s) ?e c"
    proof -
      have "ys ! 0 \<in> set (take 2 ys)" using take_two [OF ys(1)] by simp
      moreover have "lit_t ?e ?u" "level_of ?e ?u = 0" using ur by (auto simp: root_literals_def lit_t_def)
      ultimately show ?thesis unfolding both_done_def edb c(2) using ui by (metis le0)
    qed
    moreover have "root_done (s_head s) ?e c" unfolding root_done_def edb c(2) using ur ui by blast
    ultimately show ?thesis by (simp add: watch_but_def)
  qed
  moreover have "watch_done (s_head s) ?e x" if "live s' x" "x \<noteq> c" for x
    using enqueued_done [OF o(4) [OF that] t l(2,1) h] .
  ultimately have "watch_sem (s_head ?e) ?e"
    unfolding watch_sem_def edb by (metis ef(3) f(3))
  then show "data_ok H ?e"
    using enqueued_db_ok [OF o(1) l(2,1) fits] root enqueued_watches_ok [OF o(3) t(2) l(2,1)] by (simp add: data_ok_def)
qed

lemma add_started_ok:
  assumes r: "ready G s" and st: "s_started s" and n: "set ls = set d" "distinct (map lit_var ls)" "\<forall>l \<in> set ls. lit_ok s l"
  shows "added (insert d G) s (add_started F ls s)"
proof -
  let ?H = "insert d G"
  have s: "settled G s" "decision_level s = 0" "idle s" using r by (simp_all add: ready_def)
  note k = settledD [OF s(1)]
  have na: "\<not> s_control_active s" using s(3) by (simp add: idle_def)
  show ?thesis
  proof (cases "s_consistent s")
    case False
    have "coverage_ok ?H s" using k(3) n(1,3) False by (auto simp: coverage_ok_def)
    then have "settled ?H s" using db_ok_mono [OF k(2), of ?H] k(4,5) False by (auto simp: settled_def base_ok_split)
    then show ?thesis using False s st by (auto intro!: added_steer simp: add_started_def)
  next
    case cons: True
    obtain cf s1 where p: "propagate s = (cf, s1)" by fastforce
    note rp = root_propagation [OF s(1,2) cons na p]
    have v1: "steer_view s1 = steer_view s" using propagate_uncontrolled [OF na] by (simp add: p)
    then have f1: "nvars s1 = nvars s" "s_consistent s1" "s_started s1" "idle s1" "search_view s1 = search_view s"
      "s_failed s1 = s_failed s"
      using cons st s(3) idle_steer [OF v1] by (simp_all add: view_defs)
    have b1: "db_ok G s1" "coverage_ok G s1" using rp(1) by (simp_all add: base_ok_split)
    have H1: "db_ok ?H s1" using db_ok_mono [OF b1(1)] by blast
    have lo: "\<forall>l \<in> set ls. lit_ok s1 l" using n(3) f1(1) by (simp add: lit_ok_def)
    have lits: "\<forall>c \<in> ?H. \<forall>l \<in> set c. lit_ok s1 l" using b1(2) n(1) lo by (auto simp: coverage_ok_def)
    have bad: "added ?H s (False, s1\<lparr>s_consistent := False\<rparr>)" if "entails ?H []"
    proof (rule added_steer [OF inconsistent_added [OF H1 rp(2,3) that lits]])
      show "decision_level (s1\<lparr>s_consistent := False\<rparr>) = 0" using rp(5) by (simp add: decision_level_def)
      show "search_view (s1\<lparr>s_consistent := False\<rparr>) = search_view s" using f1(5) by (simp add: search_view_def nvars_def)
    qed (use s f1 st in simp_all)
    show ?thesis
    proof (cases cf)
      case (Some q)
      then have "entails ?H []" using rp(6) entails_mono [of G ?H] by auto
      then show ?thesis using bad cons Some by (simp add: add_started_def p)
    next
      case None
      have t1: "trail_ok s1" "shape_ok s1" "arena_ok s1" using b1(1) by (simp_all add: db_ok_def)
      have "inv G s1" using rp(6) None by simp
      then have "watch_sem (s_head s1) s1" by (simp only: inv_def)
      then have data: "data_ok ?H s1" using H1 rp(2) unfolding data_ok_def by blast
      have val: "literal_value s1 l \<in> {1, - 1, 0}" if "l \<in> set ls" for l
        using value_cases [OF t1(1)] lo that by blast
      note lv = literal_value_iff [OF t1(1)]
      show ?thesis
      proof (cases "list_ex (\<lambda>l. literal_value s1 l = 1) ls")
        case True
        then obtain l where l: "l \<in> set ls" "lit_t s1 l" using lv(1) lo by (auto simp: list_ex_iff)
        have "l \<in> root_literals s1" using level_le_decision [OF t1(1), of l] rp(5) l(2) by (auto simp: root_literals_def lit_t_def)
        then have "covered s1 d" using n(1) l(1) by (auto simp: covered_def)
        then have "settled ?H s1" using settled_data [OF data coverage_insert [OF b1(2)] rp(3)] lits by blast
        then have "added ?H s (True, s1)" using rp(5) s(3) f1 st by (intro added_steer) simp_all
        then show ?thesis using cons None True by (simp add: add_started_def p)
      next
        case nt: False
        let ?f = "\<lambda>l. if literal_value s1 l = 0 then 0 else (1 :: nat)"
        define ys where "ys = sort_key ?f ls"
        define u where "u = length (takeWhile (\<lambda>l. literal_value s1 l = 0) ys)"
        have tw: "takeWhile (\<lambda>l. literal_value s1 l = 0) ys = takeWhile (\<lambda>x. ?f x = 0) ys"
          by (intro takeWhile_cong) auto
        have le: "\<forall>x \<in> set ls. ?f x \<le> 1" by simp
        note first = unassigned_first [OF le, folded ys_def, folded tw, folded u_def]
        have uf: "i < u \<Longrightarrow> literal_value s1 (ys ! i) = 0" "u \<le> i \<Longrightarrow> i < length ys \<Longrightarrow> literal_value s1 (ys ! i) \<noteq> 0"
          "u \<le> length ys" for i
          using first(1) [of i] first(2) [of i] first(3) by (auto split: if_splits)
        have ys: "set ys = set ls" "distinct (map lit_var ys)" "length ys = length ls" "\<forall>l \<in> set ys. lit_ok s1 l"
          using n(2) lo by (simp_all add: ys_def distinct_map)
        have ey: "entails ?H ys" using entails_insert [of ys d G] n(1) ys(1) by simp
        have fls: "lit_f s1 (ys ! i)" if i: "u \<le> i" "i < length ys" for i
        proof -
          have m: "ys ! i \<in> set ls" using ys(1) nth_mem [OF i(2)] by simp
          have "literal_value s1 (ys ! i) \<noteq> 1" using nt m by (auto simp: list_ex_iff)
          then have "literal_value s1 (ys ! i) = - 1" using val [OF m] uf(2) [OF i] by simp
          then show ?thesis using lv(2) lo m by blast
        qed
        have ex: "add_started F ls s =
          (if u = 0 then (False, s1\<lparr>s_consistent := False\<rparr>)
           else case propagate (if length ys = 1 then snd (enqueue (ys ! 0) None s1)
                      else let (c, s') = allocate_clause F ys 0 False s1; s'' = attach_clause c s'
                           in if u = 1 then snd (enqueue (ys ! 0) (Some c) s'') else s'') of
             (Some _, t) \<Rightarrow> (False, t\<lparr>s_consistent := False\<rparr>) | (None, t) \<Rightarrow> (s_consistent t, t))"
          using cons None nt by (simp add: add_started_def p Let_def u_def ys_def cong: if_cong option.case_cong)
        show ?thesis
        proof (cases "u = 0")
          case True
          then have "\<forall>l \<in> set ys. lit_f s1 l" using fls by (auto simp: in_set_conv_nth)
          then have "entails ?H []" using root_false_refutes [OF rp(1,5) ey] by blast
          then show ?thesis using bad True by (simp add: ex)
        next
          case u0: False
          have l0: "0 < length ys" "literal_value s1 (ys ! 0) = 0" using uf(1,3) u0 by (cases ys, auto)
          have ok0: "lit_ok s1 (ys ! 0)" using ys(4) l0(1) by simp
          show ?thesis
          proof (cases "length ys = 1")
            case True
            then have y1: "ys = [ys ! 0]" by (cases ys) auto
            let ?e = "enqueued True (ys ! 0) None s1"
            note f = enqueued_fields [OF l0(2) t1(2) ok0, of True None]
            have "entails ?H [ys ! 0]" using ey y1 by simp
            note ua = unit_added [OF data b1(2) rp(5) ok0 l0(2) this]
            have "coverage_ok ?H ?e" using coverage_set_eq [OF ua(2)] y1 ys(1) n(1) by (metis list.set(1,2) )
            moreover have "seen_clear ?e" using rp(3) f by (simp add: seen_clear_def)
            moreover have "steer_view ?e = steer_view s" using v1 by (simp add: enqueued_def)
            ultimately show ?thesis
              using propagation_added [OF ua(1)] f rp(5) f1(2,3) s(3) u0 True
              by (simp add: ex enqueue_fresh [OF l0(2)]) (simp add: enqueued_def enqueue_unassigned [OF l0(2)])
          next
            case False
            have two: "2 \<le> length ys" using False l0(1) by linarith
            have dy: "distinct ys" using ys(2) by (simp add: distinct_map)
            have ne: "ys ! 0 \<noteq> ys ! 1" using two nth_eq_iff_index_eq [OF dy, of 0 1] by force
            obtain c s2 where al: "allocate_clause F ys 0 False s1 = (c, s2)" by fastforce
            let ?s3 = "attach_clause c s2"
            have at: "attached c ys False s1 ?s3" by (rule attach_clause_attached [OF t1(2,3) two ys(4) ne al])
            note f = attached_fields [OF at] and v3 = steer_attached [OF at]
            have cov: "coverage_ok ?H ?s3"
              using coverage_set_eq [OF clause_added [OF at data b1(2) ey two ys(2,4)]] ys(1) n(1) by simp
            have sc: "seen_clear ?s3" using rp(3) by (simp add: seen_clear_def f)
            have nf: "\<not> lit_f s1 (ys ! 0)" using lv(3) [OF ok0] l0(2) by simp
            show ?thesis
            proof (cases "u = 1")
              case False
              then have "1 < u" using u0 by simp
              then have "literal_value s1 (ys ! 1) = 0" "lit_ok s1 (ys ! 1)" using uf(1) [of 1] two ys(4) by (simp_all add: nth_mem)
              then have "\<not> lit_f s1 (ys ! 1)" using lv(3) by simp
              then have "data_ok ?H ?s3" using data_attached [OF at data ey two ys(2,4) nf] by blast
              then show ?thesis
                using propagation_added [OF _ cov sc, of s] rp(5) f1(2,3) s(3) v1 v3 u0 False \<open>length ys \<noteq> 1\<close> f al
                by (simp add: ex Let_def view_defs)
            next
              case True
              let ?e = "enqueued True (ys ! 0) (Some c) ?s3"
              have l3: "literal_value ?s3 (ys ! 0) = 0" "lit_ok ?s3 (ys ! 0)" using l0(2) ok0 by (simp_all add: f)
              have others: "\<forall>l \<in> set ys. l \<noteq> ys ! 0 \<longrightarrow> lit_f s1 l"
                using fls True by (auto simp: in_set_conv_nth) (metis One_nat_def Suc_leI neq0_conv)
              note im = implied_added [OF at data ey two ys(2,4) rp(5) l3 others]
              have "coverage_ok ?H ?e" using enqueued_coverage [OF im(2,3) l3(2,1) cov] .
              moreover have "seen_clear ?e" using sc enqueued_fields(5,17) [OF l3(1) im(3) l3(2)] by (simp add: seen_clear_def)
              ultimately show ?thesis
                using propagation_added [OF im(1), of s] rp(5) f1(2,3) s(3) v1 v3 u0 True \<open>length ys \<noteq> 1\<close> f al
                  enqueued_fields(8,16) [OF l3(1) im(3) l3(2)]
                by (simp add: ex Let_def enqueue_fresh [OF l3(1)] view_defs) (simp add: enqueued_def enqueue_unassigned [OF l3(1)])
            qed
          qed
        qed
      qed
    qed
  qed
qed

end
