(* ===== verification/Solver_Calls.thy ===== *)
theory Solver_Calls
  imports Solver_Scopes
begin

section \<open>The incremental interface\<close>

text \<open>
  The public operations between queries: adding clauses, allocating variables, opening and
  closing scopes. Every one keeps \<open>solver_ok\<close>, for the clauses added so far and the new one.
\<close>

subsection \<open>The call\<close>

text \<open>The clause that is stored: guarded by the selector of the innermost scope.\<close>

definition guarded_clause :: "bool \<Rightarrow> lit list \<Rightarrow> lit list \<Rightarrow> lit list" where
  "guarded_clause guard selectors lits =
     (if guard \<and> selectors \<noteq> [] then lits @ [lit_not (last selectors)] else lits)"

text \<open>The number of variables after growing for some literals.\<close>

definition needed :: "lit list \<Rightarrow> nat \<Rightarrow> nat" where
  "needed lits n = foldr (\<lambda>l. max (var_index (lit_var l) + 1)) lits n"

lemma needed_less: "needed lits n \<le> m \<longleftrightarrow> n \<le> m \<and> (\<forall>l \<in> set lits. var_index (lit_var l) < m)"
  by (induction lits) (auto simp: needed_def)

lemma needed_append: "n \<le> needed lits n"
  using needed_less [of lits n "needed lits n"] by simp

lemma grow_for_literals_nvars:
  assumes r: "ready G s"
  shows "nvars (grow_for_literals F lits s) = needed lits (nvars s)"
proof -
  have sh: "shape_ok s" using r settledD(6) by (auto simp: ready_def)
  have vc: "s_variable_count s = nvars s" using sh by (simp add: shape_ok_def)
  define m where "m = Max (set (map (\<lambda>l. var_index (lit_var l)) lits)) + 1"
  have e: "grow_for_literals F lits s = (if lits \<noteq> [] \<and> nvars s < m then grown F m s else s)"
    by (simp add: grow_for_literals_def Let_def vc grown_def m_def)
  show ?thesis
  proof (cases "lits = []")
    case True
    then show ?thesis by (simp add: grow_for_literals_def needed_def)
  next
    case False
    then have mx: "needed lits (nvars s) \<le> k \<longleftrightarrow> max m (nvars s) \<le> k" for k
      unfolding needed_less by (auto simp: m_def Suc_le_eq)
    then have n: "needed lits (nvars s) = max m (nvars s)" by (meson dual_order.antisym order_refl)
    have "Max (set (map (\<lambda>l. var_index (lit_var l)) lits)) \<in> set (map (\<lambda>l. var_index (lit_var l)) lits)"
      using False by (intro Max_in) auto
    then have "m \<le> MAX_VARIABLES" using lit_var_ok by (auto simp: m_def var_ok_def Suc_le_eq)
    then show ?thesis using False grown_views(5) [OF sh, of m F] by (auto simp: e n)
  qed
qed

lemma settled_covered:
  assumes "settled G s" "s_consistent s \<Longrightarrow> covered s d" "\<forall>l \<in> set d. lit_ok s l"
  shows "settled (insert d G) s"
proof -
  have "db_ok (insert d G) s" using settledD(2) [OF assms(1)] by (rule db_ok_mono) blast
  moreover have "coverage_ok (insert d G) s" using settledD(3) [OF assms(1)] assms(2,3) by (rule coverage_insert)
  ultimately show ?thesis using assms(1) by (simp add: settled_def base_ok_split)
qed

lemma add_clause_internal_ok:
  assumes s: "solver_ok G s" and e: "add_clause_internal F lits guard counted kind s = (r, s')"
  defines "d \<equiv> guarded_clause guard (s_scope_selectors s) lits"
  shows "ready (insert d G) s'" "r = s_consistent s'" "s_scope_selectors s' = s_scope_selectors s"
    "s_started s' = s_started s" "lit_ok s l \<Longrightarrow> lit_ok s' l" "\<forall>l \<in> set d. lit_ok s' l"
    "nvars s' = needed d (nvars s)"
proof -
  let ?H = "insert d G"
  define s1 where "s1 = prepare_incremental_mutation s"
  define s2 where "s2 = (if counted then s1\<lparr>s_original_count := s_original_count s1 + 1\<rparr> else s1)"
  define s3 where "s3 = grow_for_literals F d s2"
  note p = prepare_ok [OF s, folded s1_def]
  have fr: "frame_eq s1 s2" "s_seen s2 = s_seen s1" by (simp_all add: s2_def frame_eq_def same_db_def)
  have "idle s1" using p(1) by (simp add: ready_def)
  then have r2: "ready G s2" using fr by (intro ready_frame [OF p(1)]) (simp_all add: s2_def idle_def)
  have v2: "s_scope_selectors s2 = s_scope_selectors s" "s_started s2 = s_started s" "nvars s2 = nvars s"
    using p by (simp_all add: s2_def nvars_def)
  note g = grow_for_literals_ok [OF r2, where F = F and lits = d, folded s3_def]
  have d: "(if guard \<and> s_scope_selectors s2 \<noteq> [] then lits @ [lit_not (last (s_scope_selectors s2))] else lits) = d"
    by (simp add: d_def guarded_clause_def v2)
  let ?n = "dedup_literals [] (sort_key lit_index d)"
  have e': "add_clause_internal F lits guard counted kind s =
     (case ?n of None \<Rightarrow> (s_consistent s3, s3)
      | Some normalized \<Rightarrow>
          let s4 = s3\<lparr>s_proof_input := map_option (\<lambda>p. p @ [(kind, normalized)]) (s_proof_input s3)\<rparr>
          in if s_started s4 then add_started F normalized s4 else add_fresh F normalized s4)"
    unfolding add_clause_internal_def Let_def s1_def [symmetric] s2_def [symmetric] d s3_def [symmetric] ..
  have n: "case ?n of None \<Rightarrow> \<exists>l \<in> set d. lit_not l \<in> set d | Some n \<Rightarrow> set n = set d \<and> distinct (map lit_var n)"
    using dedup_literals_ok [of "[]" "sort_key lit_index d"] by (simp cong: option.case_cong)
  have "ready ?H s' \<and> r = s_consistent s' \<and> s_scope_selectors s' = s_scope_selectors s3 \<and> s_started s' = s_started s3
    \<and> nvars s' = nvars s3"
  proof (cases ?n)
    case None
    then have "covered s3 d" using n by (simp add: covered_def)
    then have "settled ?H s3" using g(1,2) by (intro settled_covered) (simp_all add: ready_def)
    then have "ready ?H s3" using g(1) by (simp add: ready_def)
    then show ?thesis using e e' None by auto
  next
    case (Some ls)
    define s4 where "s4 = s3\<lparr>s_proof_input := map_option (\<lambda>p. p @ [(kind, ls)]) (s_proof_input s3)\<rparr>"
    have f4: "frame_eq s3 s4" "s_seen s4 = s_seen s3" by (simp_all add: s4_def frame_eq_def same_db_def)
    have "idle s3" using g(1) by (simp add: ready_def)
    then have r4: "ready G s4" using f4 by (intro ready_frame [OF g(1)]) (simp_all add: s4_def idle_def)
    have l: "set ls = set d" "distinct (map lit_var ls)" using n Some by simp_all
    have v4: "nvars s4 = nvars s3" "s_scope_selectors s4 = s_scope_selectors s3" "s_started s4 = s_started s3"
      by (simp_all add: s4_def nvars_def)
    have ok: "\<forall>l \<in> set ls. lit_ok s4 l" using g(2) l(1) by (simp add: lit_ok_def v4)
    have "(r, s') = (if s_started s4 then add_started F ls s4 else add_fresh F ls s4)"
      using e e' Some by (simp add: s4_def [symmetric])
    then have "added ?H s4 (r, s')" using add_started_ok [OF r4 _ l ok] add_fresh_ok [OF r4 _ l ok] by (simp split: if_splits)
    then show ?thesis by (simp add: added_def v4)
  qed
  then show "ready ?H s'" "r = s_consistent s'" "s_scope_selectors s' = s_scope_selectors s" "s_started s' = s_started s"
    "\<forall>l \<in> set d. lit_ok s' l" "lit_ok s l \<Longrightarrow> lit_ok s' l" "nvars s' = needed d (nvars s)"
    using g v2 grow_for_literals_nvars [OF r2, of F d, folded s3_def] by (auto simp: lit_ok_def)
qed

subsection \<open>Variables and scopes\<close>

lemma initial_ok: "solver_ok {} (solver_with_config F config interrupt)"
proof -
  let ?s = "solver_with_config F config interrupt"
  have f: "s_clauses ?s = []" "s_binaries ?s = []" "s_trail ?s = []" "s_trail_limits ?s = []" "s_head ?s = 0"
    "nvars ?s = 0" "s_consistent ?s" "s_proof ?s = []" "s_scope_selectors ?s = []"
    by (simp_all add: solver_with_config_def nvars_def)
  have l: "\<not> lit_ok ?s x" for x by (simp add: lit_ok_def f)
  have v: "\<not> valid ?s c" "\<not> live ?s c" for c by (cases c; simp add: live_def f)+
  have "shape_ok ?s" by (simp add: shape_ok_def solver_with_config_def nvars_def)
  moreover have "queue_inv ?s"
    by (simp add: queue_inv_def f) (simp add: solver_with_config_def slots_ok_def vo_empty_def)
  moreover have "arena_ok ?s" "clauses_ok ?s" "reasons_ok ?s" "watches_ok ?s" "coverage_ok {} ?s"
    "selectors_ok ?s" "watch_sem 0 ?s" "seen_clear ?s"
    using v l f by (simp_all add: arena_ok_def clauses_ok_def reasons_ok_def watches_ok_def coverage_ok_def selectors_ok_def
      watch_sem_def seen_clear_def)
  moreover have "trail_ok ?s" "meaning_ok {} ?s"
    using v l f by (simp_all add: trail_ok_def meaning_ok_def root_literals_def)
  ultimately have "settled {} ?s"
    using f by (simp add: settled_def base_ok_split db_ok_def) blast
  then show ?thesis using f by (simp add: solver_ok_def cache_ok_def) (simp add: solver_with_config_def)
qed

text \<open>Growing the arrays after the preparation.\<close>

definition enlarged :: "'f::linorder float_ops \<Rightarrow> nat \<Rightarrow> 'f solver \<Rightarrow> 'f solver" where
  "enlarged F n s = grown F n (prepare_incremental_mutation s)"

lemma enlarged_ok:
  assumes s: "solver_ok G s" and n: "nvars s < n" "n \<le> MAX_VARIABLES"
  shows "ready G (enlarged F n s)" "nvars (enlarged F n s) = n" "s_scope_selectors (enlarged F n s) = s_scope_selectors s"
    "s_started (enlarged F n s) = s_started s" "s_consistent (enlarged F n s) = s_consistent s"
    "solver_ok G (enlarged F n s)"
proof -
  note p = prepare_ok [OF s]
  have sh: "shape_ok (prepare_incremental_mutation s)" using p(1) settledD(6) by (auto simp: ready_def)
  have n': "nvars (prepare_incremental_mutation s) < n" using n p(2) by simp
  note v = grown_views [OF sh n' n(2), where F = F]
  show r: "ready G (enlarged F n s)" using ready_grown [OF p(1) n' n(2)] by (simp add: enlarged_def)
  show "nvars (enlarged F n s) = n" "s_scope_selectors (enlarged F n s) = s_scope_selectors s"
    "s_started (enlarged F n s) = s_started s" "s_consistent (enlarged F n s) = s_consistent s"
    by (simp_all add: enlarged_def v p)
  show "solver_ok G (enlarged F n s)" by (rule ready_solver_ok [OF r])
qed

lemma variable_count: "solver_ok G s \<Longrightarrow> s_variable_count s = nvars s" "solver_ok G s \<Longrightarrow> nvars s \<le> MAX_VARIABLES"
  using settledD(6) by (auto simp: solver_ok_def shape_ok_def)

lemma grow_prepared:
  assumes "solver_ok G s"
  shows "grow_variables F n ((prepare_incremental_mutation s)\<lparr>s_variable_count := n\<rparr>) = enlarged F n s"
  by (simp add: enlarged_def grown_def)

lemma try_reserve_ok:
  assumes s: "solver_ok G s"
  shows "try_reserve_variables F n s =
    (if n \<le> nvars s then (Inr (), s) else if MAX_VARIABLES < n then (Inl VariableLimit, s) else (Inr (), enlarged F n s))"
  using grow_prepared [OF s, of F n] by (simp add: try_reserve_variables_def variable_count [OF s])

lemma new_variable_ok:
  assumes s: "solver_ok G s"
  shows "new_variable F s =
    (if nvars s = MAX_VARIABLES then (Inl VariableLimit, s)
     else (Inr (Var (of_nat (nvars s))), enlarged F (nvars s + 1) s))"
  using variable_count(2) [OF s] by (simp add: new_variable_def try_reserve_ok [OF s] variable_count(1) [OF s] Let_def)

text \<open>The selectors of new scopes are the new variables.\<close>

definition fresh_selectors :: "nat \<Rightarrow> nat \<Rightarrow> lit list" where
  "fresh_selectors old n = map (\<lambda>i. lit_positive (Var (of_nat i))) [old..<n]"

lemma selector_index:
  assumes "n \<le> MAX_VARIABLES" "l \<in> set (fresh_selectors old n)"
  shows "old \<le> var_index (lit_var l)" "var_index (lit_var l) < n" "is_positive l"
proof -
  obtain i where i: "old \<le> i" "i < n" "l = lit_positive (Var (of_nat i))" using assms(2) by (auto simp: fresh_selectors_def)
  let ?v = "Var (of_nat i)"
  have vi: "var_index ?v = i" using i(2) assms(1) by (intro var_index_of_nat) simp
  then have "var_ok ?v" using i(2) assms(1) by (simp add: var_ok_def)
  moreover have "l = lit_new ?v True" by (simp add: i(3) lit_new_def)
  ultimately show "old \<le> var_index (lit_var l)" "var_index (lit_var l) < n" "is_positive l" using i(1,2) vi by simp_all
qed

lemma settled_selectors:
  assumes "settled G s" "\<forall>l \<in> set ls. lit_ok s l"
  shows "settled G (s\<lparr>s_scope_selectors := ls\<rparr>)"
proof -
  let ?t = "s\<lparr>s_scope_selectors := ls\<rparr>"
  let ?u = "s\<lparr>s_scope_selectors := s_scope_selectors s\<rparr>"
  have d: "same_db s ?t" by (simp add: same_db_def)
  have v: "clause_literals ?t = clause_literals s" "valid ?t = valid s" "live ?t = live s" "clause_learned ?t = clause_learned s"
    "clause_deleted ?t = clause_deleted s"
    using same_db_simps [OF d] by (intro ext; simp)+
  have w: "nvars ?t = nvars s" "lit_ok ?t = lit_ok s" "lit_t ?t = lit_t s" "lit_f ?t = lit_f s"
    "literal_value ?t = literal_value s" "level_of ?t = level_of s" "reason_of ?t = reason_of s"
    "decision_level ?t = decision_level s" "root_literals ?t = root_literals s" "watches_of ?t = watches_of s"
    by (auto simp: nvars_def lit_ok_def lit_t_def lit_f_def literal_value_def level_of_def
        reason_of_def decision_level_def root_literals_def watches_of_def fun_eq_iff)
  have k: "base_ok G s" "watches_ok s" "seen_clear s" using assms(1) by (simp_all add: settled_def)
  have "reasons_ok ?t = reasons_ok s"
    unfolding reasons_ok_def v w by (simp cong: option.case_cong)
  moreover have "shape_ok ?t" "queue_inv ?t" "arena_ok ?t" "coverage_ok G ?t" "watches_ok ?t" "seen_clear ?t"
    using k unfolding base_ok_def shape_ok_def queue_inv_def arena_ok_def coverage_ok_def covered_def
      watches_ok_def watch_ok_def seen_clear_def v w by simp_all
  moreover have "clauses_ok ?t" "meaning_ok G ?t" "trail_ok ?t"
    using k unfolding base_ok_def clauses_ok_def meaning_ok_def trail_ok_def v w by simp_all
  moreover have "selectors_ok ?t" unfolding selectors_ok_def w using assms(2) by simp
  moreover have "watch_sem j ?t = watch_sem j s" "pending c ?t = pending c s" for j c
    unfolding watch_sem_def watch_done_defs pending_def v w by simp_all
  ultimately show ?thesis using assms(1) w(8) unfolding settled_def base_ok_def by simp
qed

lemma ready_selectors:
  assumes "ready G s" "\<forall>l \<in> set ls. lit_ok s l"
  shows "ready G (s\<lparr>s_scope_selectors := ls\<rparr>)"
  using assms settled_selectors [of G s ls] by (simp add: ready_def idle_def decision_level_def)

lemma push_levels_ok:
  assumes s: "solver_ok G s"
  shows "push_levels F levels s =
    (if levels = 0 then (Inr (), s) else if MAX_VARIABLES < nvars s + levels then (Inl VariableLimit, s)
     else (Inr (), (enlarged F (nvars s + levels) s)
       \<lparr>s_scope_selectors := s_scope_selectors s @ fresh_selectors (nvars s) (nvars s + levels)\<rparr>))"
    "nvars s + levels \<le> MAX_VARIABLES \<Longrightarrow> levels \<noteq> 0 \<Longrightarrow> ready G (snd (push_levels F levels s))"
proof -
  have vc: "s_variable_count s = nvars s" using variable_count(1) [OF s] .
  show e: "push_levels F levels s =
    (if levels = 0 then (Inr (), s) else if MAX_VARIABLES < nvars s + levels then (Inl VariableLimit, s)
     else (Inr (), (enlarged F (nvars s + levels) s)
       \<lparr>s_scope_selectors := s_scope_selectors s @ fresh_selectors (nvars s) (nvars s + levels)\<rparr>))"
  proof (cases "levels = 0 \<or> MAX_VARIABLES < nvars s + levels")
    case True
    then show ?thesis by (auto simp: push_levels_def vc)
  next
    case False
    then have "s_scope_selectors (enlarged F (nvars s + levels) s) = s_scope_selectors s"
      by (intro enlarged_ok(3) [OF s]) simp_all
    then show ?thesis
      using False by (simp add: push_levels_def vc Let_def grow_prepared [OF s] fresh_selectors_def)
  qed
  assume n: "nvars s + levels \<le> MAX_VARIABLES" "levels \<noteq> 0"
  then have n0: "nvars s < nvars s + levels" by simp
  note g = enlarged_ok [OF s n0 n(1), of F]
  have "selectors_ok s" using s settledD(2) by (auto simp: solver_ok_def db_ok_def)
  then have "\<forall>l \<in> set (s_scope_selectors s @ fresh_selectors (nvars s) (nvars s + levels)). lit_ok (enlarged F (nvars s + levels) s) l"
    using selector_index(2) [OF n(1)] by (auto simp: selectors_ok_def lit_ok_def g(2))
  from ready_selectors [OF g(1) this] show "ready G (snd (push_levels F levels s))" using n by (simp add: e)
qed

text \<open>Closing scopes asserts the negated selectors, innermost first.\<close>

definition closing :: "nat \<Rightarrow> lit list \<Rightarrow> lit list set" where
  "closing n selectors = {[lit_not l] | l. l \<in> set (drop (length selectors - n) selectors)}"

lemma pop_selectors_ok:
  assumes "ready G s" "n \<le> length (s_scope_selectors s)"
  shows "ready (G \<union> closing n (s_scope_selectors s)) (pop_selectors F n s)
    \<and> s_scope_selectors (pop_selectors F n s) = take (length (s_scope_selectors s) - n) (s_scope_selectors s)
    \<and> s_started (pop_selectors F n s) = s_started s \<and> nvars (pop_selectors F n s) = nvars s"
  using assms
proof (induction n arbitrary: G s)
  case 0
  then show ?case by (simp add: closing_def)
next
  case (Suc n)
  let ?ss = "s_scope_selectors s"
  have ne: "?ss \<noteq> []" using Suc.prems(2) by auto
  define s1 where "s1 = s\<lparr>s_scope_selectors := butlast ?ss\<rparr>"
  have "selectors_ok s" using Suc.prems(1) settledD(2) by (auto simp: ready_def db_ok_def)
  then have "\<forall>l \<in> set (butlast ?ss). lit_ok s l" by (auto simp: selectors_ok_def dest: in_set_butlastD)
  then have r1: "ready G s1" using ready_selectors [OF Suc.prems(1)] by (simp add: s1_def)
  obtain b s2 where e: "add_clause_internal F [lit_not (last ?ss)] False False AdministrativeClause s1 = (b, s2)" by fastforce
  note a = add_clause_internal_ok [OF ready_solver_ok [OF r1] e]
  have h: "guarded_clause False (s_scope_selectors s1) [lit_not (last ?ss)] = [lit_not (last ?ss)]"
    by (simp add: guarded_clause_def)
  have r2: "ready (insert [lit_not (last ?ss)] G) s2" using a(1) unfolding h .
  have ss2: "s_scope_selectors s2 = butlast ?ss" "s_started s2 = s_started s" using a(3,4) by (simp_all add: s1_def)
  have "lit_ok s (last ?ss)" using \<open>selectors_ok s\<close> ne by (simp add: selectors_ok_def)
  then have "needed [lit_not (last ?ss)] (nvars s) = nvars s" by (simp add: needed_def lit_ok_def)
  then have n2: "nvars s2 = nvars s" using a(7) unfolding h by (simp add: s1_def nvars_def)
  have p: "pop_selectors F (Suc n) s = pop_selectors F n s2" by (simp add: Let_def s1_def [symmetric] e)
  have "n \<le> length (s_scope_selectors s2)" using Suc.prems(2) ss2(1) by simp
  note ih = Suc.IH [OF r2 this]
  have split: "?ss = butlast ?ss @ [last ?ss]" using ne by simp
  have "drop (length ?ss - Suc n) ?ss = drop (length (butlast ?ss) - n) (butlast ?ss) @ [last ?ss]"
    using Suc.prems(2) by (subst split, subst drop_append) simp
  then have c: "insert [lit_not (last ?ss)] G \<union> closing n (butlast ?ss) = G \<union> closing (Suc n) ?ss"
    by (auto simp: closing_def)
  have "take (length (butlast ?ss) - n) (butlast ?ss) = take (length ?ss - Suc n) ?ss"
    using Suc.prems(2) by (simp add: butlast_conv_take min_def)
  then show ?case unfolding p using ih c ss2 n2 by simp
qed

lemma pop_levels_ok:
  assumes s: "solver_ok G s" and n: "n \<le> length (s_scope_selectors s)" "n \<noteq> 0"
  shows "fst (pop_levels F n s) = Inr ()" "ready (G \<union> closing n (s_scope_selectors s)) (snd (pop_levels F n s))"
    "s_scope_selectors (snd (pop_levels F n s)) = take (length (s_scope_selectors s) - n) (s_scope_selectors s)"
    "nvars (snd (pop_levels F n s)) = nvars s"
proof -
  note p = prepare_ok [OF s]
  have "n \<le> length (s_scope_selectors (prepare_incremental_mutation s))" using n p(3) by simp
  note k = pop_selectors_ok [OF p(1) this, of F]
  show "fst (pop_levels F n s) = Inr ()" "ready (G \<union> closing n (s_scope_selectors s)) (snd (pop_levels F n s))"
    "s_scope_selectors (snd (pop_levels F n s)) = take (length (s_scope_selectors s) - n) (s_scope_selectors s)"
    "nvars (snd (pop_levels F n s)) = nvars s"
    using n k p(2,3) by (simp_all add: pop_levels_def)
qed

end
