(* ===== verification/Solver_Session.thy ===== *)
theory Solver_Session
  imports Solver_Calls
begin

section \<open>Whole sessions\<close>

text \<open>
  A session is a sequence of calls of the incremental interface. Its abstract specification
  knows nothing of selectors, trails or watch lists: a stack of clause lists, the number of
  variables, and which of them the scopes took. The solver refines it: along every well-formed
  session each reply is one the specification allows. In particular a model satisfies exactly
  the clauses of the open scopes, an unsatisfiable answer refutes exactly those, and clauses of
  closed scopes are forgotten.
\<close>

subsection \<open>Calls and replies\<close>

datatype solver_call =
    CallAddClause "lit list"
  | CallNewVariable
  | CallReserve nat
  | CallPush nat
  | CallPop nat
  | CallSolve "lit list" solve_limits

datatype solver_reply =
    ReplyAdded bool
  | ReplyVariable var
  | ReplyDone
  | ReplyError incremental_error
  | ReplyAnswer solve_result "lit list"

fun reply_of :: "(incremental_error + unit) \<Rightarrow> solver_reply" where
  "reply_of (Inl e) = ReplyError e"
| "reply_of (Inr _) = ReplyDone"

text \<open>\<open>None\<close>: the call panics, or a query never ends.\<close>

fun perform :: "'f::linorder float_ops \<Rightarrow> solver_call \<Rightarrow> 'f solver \<Rightarrow> (solver_reply \<times> 'f solver) option" where
  "perform F (CallAddClause c) s = Some (map_prod ReplyAdded id (try_add_clause F c s))"
| "perform F CallNewVariable s =
     Some (map_prod (case_sum ReplyError ReplyVariable) id (new_variable F s))"
| "perform F (CallReserve n) s = Some (map_prod reply_of id (try_reserve_variables F n s))"
| "perform F (CallPush n) s = Some (map_prod reply_of id (push_levels F n s))"
| "perform F (CallPop n) s = Some (map_prod reply_of id (pop_levels F n s))"
| "perform F (CallSolve as limits) s =
     map_option (\<lambda>(r, s'). (ReplyAnswer r (s_failed s'), s')) (solve_assuming_with_limits F as limits s)"

subsection \<open>The specification\<close>

record session_spec =
  sp_count :: nat
  sp_taken :: "nat set"
  sp_frames :: "lit list list list"

definition sp_initial :: session_spec where
  "sp_initial = \<lparr>sp_count = 0, sp_taken = {}, sp_frames = [[]]\<rparr>"

text \<open>The literals a caller may mention: not those of variables taken by scopes.\<close>

definition sp_literal :: "session_spec \<Rightarrow> lit \<Rightarrow> bool" where
  "sp_literal T l \<longleftrightarrow> var_index (lit_var l) \<notin> sp_taken T"

fun sp_admits :: "session_spec \<Rightarrow> solver_call \<Rightarrow> bool" where
  "sp_admits T (CallAddClause c) \<longleftrightarrow> (\<forall>l \<in> set c. sp_literal T l)"
| "sp_admits T (CallSolve as limits) \<longleftrightarrow>
     (\<forall>a \<in> set as. sp_literal T a \<and> var_index (lit_var a) < sp_count T) \<and> limit_conflicts limits \<noteq> None"
| "sp_admits T _ \<longleftrightarrow> True"

fun sp_after :: "session_spec \<Rightarrow> solver_call \<Rightarrow> session_spec" where
  "sp_after T (CallAddClause c) =
     T\<lparr>sp_count := needed c (sp_count T), sp_frames := butlast (sp_frames T) @ [last (sp_frames T) @ [c]]\<rparr>"
| "sp_after T CallNewVariable = (if sp_count T = MAX_VARIABLES then T else T\<lparr>sp_count := sp_count T + 1\<rparr>)"
| "sp_after T (CallReserve n) = (if n \<le> MAX_VARIABLES then T\<lparr>sp_count := max n (sp_count T)\<rparr> else T)"
| "sp_after T (CallPush n) =
     (if MAX_VARIABLES < sp_count T + n then T
      else T\<lparr>sp_count := sp_count T + n, sp_taken := sp_taken T \<union> {sp_count T..<sp_count T + n},
             sp_frames := sp_frames T @ replicate n []\<rparr>)"
| "sp_after T (CallPop n) =
     (if n < length (sp_frames T) then T\<lparr>sp_frames := take (length (sp_frames T) - n) (sp_frames T)\<rparr> else T)"
| "sp_after T (CallSolve as limits) = T"

text \<open>A valuation satisfies the clauses of all open scopes.\<close>

definition sp_holds :: "valuation \<Rightarrow> session_spec \<Rightarrow> bool" where
  "sp_holds \<sigma> T \<longleftrightarrow> (\<forall>f \<in> set (sp_frames T). \<forall>c \<in> set f. clause_true \<sigma> c)"

text \<open>\<open>T'\<close> is the specification after the call.\<close>

fun sp_allows :: "session_spec \<Rightarrow> session_spec \<Rightarrow> solver_call \<Rightarrow> solver_reply \<Rightarrow> bool" where
  "sp_allows T T' (CallAddClause c) (ReplyAdded b) \<longleftrightarrow> b \<or> (\<forall>\<sigma>. \<not> sp_holds \<sigma> T')"
| "sp_allows T T' CallNewVariable (ReplyVariable v) \<longleftrightarrow>
     sp_count T < MAX_VARIABLES \<and> var_index v = sp_count T"
| "sp_allows T T' CallNewVariable (ReplyError e) \<longleftrightarrow> sp_count T = MAX_VARIABLES \<and> e = VariableLimit"
| "sp_allows T T' (CallReserve n) ReplyDone \<longleftrightarrow> n \<le> MAX_VARIABLES"
| "sp_allows T T' (CallReserve n) (ReplyError e) \<longleftrightarrow> MAX_VARIABLES < n \<and> e = VariableLimit"
| "sp_allows T T' (CallPush n) ReplyDone \<longleftrightarrow> sp_count T + n \<le> MAX_VARIABLES"
| "sp_allows T T' (CallPush n) (ReplyError e) \<longleftrightarrow> MAX_VARIABLES < sp_count T + n \<and> e = VariableLimit"
| "sp_allows T T' (CallPop n) ReplyDone \<longleftrightarrow> n < length (sp_frames T)"
| "sp_allows T T' (CallPop n) (ReplyError e) \<longleftrightarrow> length (sp_frames T) \<le> n \<and> e = ScopeUnderflow"
| "sp_allows T T' (CallSolve as limits) (ReplyAnswer r core) \<longleftrightarrow>
     (case r of
        Sat m \<Rightarrow> length m = sp_count T \<and> sp_holds (valuation_of m) T \<and> (\<forall>a \<in> set as. lit_true (valuation_of m) a)
      | Unsat \<Rightarrow> set core \<subseteq> set as \<and> (\<forall>\<sigma>. sp_holds \<sigma> T \<longrightarrow> \<not> (\<forall>a \<in> set core. lit_true \<sigma> a))
      | Unknown _ \<Rightarrow> core = [])"
| "sp_allows T T' _ _ \<longleftrightarrow> False"

subsection \<open>The refinement relation\<close>

text \<open>
  \<open>G\<close> is the set of clauses stored so far. Each clause of an open scope is stored with the
  negation of the selector of its scope; every other stored clause holds the negation of a
  selector whose scope is closed.
\<close>

definition scope_guard :: "lit list \<Rightarrow> nat \<Rightarrow> lit list" where
  "scope_guard selectors i = (if i = 0 then [] else [lit_not (selectors ! (i - 1))])"

definition stored :: "lit list \<Rightarrow> lit list list list \<Rightarrow> lit list set" where
  "stored selectors frames = {c @ scope_guard selectors i | c i. i < length frames \<and> c \<in> set (frames ! i)}"

definition scopes_ok :: "session_spec \<Rightarrow> lit list set \<Rightarrow> lit list \<Rightarrow> bool" where
  "scopes_ok T G selectors \<longleftrightarrow>
     length (sp_frames T) = Suc (length selectors)
     \<and> (\<forall>z \<in> set selectors. is_positive z \<and> \<not> sp_literal T z) \<and> distinct selectors
     \<and> (\<forall>i \<in> sp_taken T. i < sp_count T)
     \<and> (\<forall>f \<in> set (sp_frames T). \<forall>c \<in> set f. \<forall>l \<in> set c. sp_literal T l \<and> var_index (lit_var l) < sp_count T)
     \<and> stored selectors (sp_frames T) \<subseteq> G
     \<and> (\<forall>d \<in> G - stored selectors (sp_frames T).
          \<exists>l \<in> set d. \<not> is_positive l \<and> \<not> sp_literal T l \<and> lit_not l \<notin> set selectors)"

definition session_ok :: "session_spec \<Rightarrow> 'f solver \<Rightarrow> bool" where
  "session_ok T s \<longleftrightarrow> sp_count T = nvars s \<and> (\<exists>G. solver_ok G s \<and> scopes_ok T G (s_scope_selectors s))"

lemma storedI: "i < length fs \<Longrightarrow> c \<in> set (fs ! i) \<Longrightarrow> c @ scope_guard z i \<in> stored z fs"
  by (auto simp: stored_def)

lemma storedE:
  assumes "d \<in> stored z fs"
  obtains c i where "d = c @ scope_guard z i" "i < length fs" "c \<in> set (fs ! i)"
  using assms by (auto simp: stored_def)

lemma stored_mono:
  assumes "\<And>i c. i < length fs \<Longrightarrow> c \<in> set (fs ! i) \<Longrightarrow> i < length gs \<and> c \<in> set (gs ! i) \<and> scope_guard y i = scope_guard z i"
  shows "stored z fs \<subseteq> stored y gs"
proof
  fix d assume "d \<in> stored z fs"
  then obtain c i where "d = c @ scope_guard z i" "i < length fs" "c \<in> set (fs ! i)" by (rule storedE)
  then show "d \<in> stored y gs" using assms [of i c] storedI [of i gs c y] by simp
qed

text \<open>From the stored clauses to those of the open scopes, and back.\<close>

lemma stored_holds:
  assumes "scopes_ok T G z" "models \<sigma> G" "\<forall>l \<in> set z. lit_true \<sigma> l"
  shows "sp_holds \<sigma> T"
  unfolding sp_holds_def
proof (intro ballI)
  fix f c assume f: "f \<in> set (sp_frames T)" "c \<in> set f"
  then obtain i where i: "i < length (sp_frames T)" "sp_frames T ! i = f" by (auto simp: in_set_conv_nth)
  then have "c @ scope_guard z i \<in> G" using assms(1) f(2) storedI [of i "sp_frames T" c z] by (auto simp: scopes_ok_def)
  then have "clause_true \<sigma> (c @ scope_guard z i)" using assms(2) by (simp add: models_def)
  moreover have "\<not> clause_true \<sigma> (scope_guard z i)"
  proof (cases "i = 0")
    case False
    then have "z ! (i - 1) \<in> set z" using i(1) assms(1) by (intro nth_mem) (simp add: scopes_ok_def)
    then show ?thesis using assms(3) False by (simp add: scope_guard_def clause_true_def)
  qed (simp add: scope_guard_def clause_true_def)
  ultimately show "clause_true \<sigma> c" by (auto simp: clause_true_def)
qed

text \<open>The valuation with the open selectors true and the closed ones false.\<close>

definition with_scopes :: "session_spec \<Rightarrow> lit list \<Rightarrow> valuation \<Rightarrow> valuation" where
  "with_scopes T z \<sigma> v = (if var_index v \<in> sp_taken T then v \<in> lit_var ` set z else \<sigma> v)"

lemma with_scopes_same: "sp_literal T l \<Longrightarrow> lit_true (with_scopes T z \<sigma>) l = lit_true \<sigma> l"
  by (simp add: lit_true_def with_scopes_def sp_literal_def)

lemma with_scopes_selector:
  assumes "scopes_ok T G z" "l \<in> set z" shows "lit_true (with_scopes T z \<sigma>) l"
  using assms by (auto simp: lit_true_def with_scopes_def sp_literal_def scopes_ok_def)

lemma holds_stored:
  assumes k: "scopes_ok T G z" and h: "sp_holds \<sigma> T"
  shows "models (with_scopes T z \<sigma>) G"
  unfolding models_def
proof
  let ?\<tau> = "with_scopes T z \<sigma>"
  fix d assume d: "d \<in> G"
  show "clause_true ?\<tau> d"
  proof (cases "d \<in> stored z (sp_frames T)")
    case True
    then obtain c i where c: "d = c @ scope_guard z i" "i < length (sp_frames T)" "c \<in> set (sp_frames T ! i)"
      by (rule storedE)
    then have f: "sp_frames T ! i \<in> set (sp_frames T)" by simp
    then obtain l where l: "l \<in> set c" "lit_true \<sigma> l" using h c(3) by (auto simp: sp_holds_def clause_true_def)
    have "sp_literal T l" using k f c(3) l(1) by (auto simp: scopes_ok_def)
    then have "lit_true ?\<tau> l" using l(2) by (simp add: with_scopes_same)
    then show ?thesis using l(1) c(1) by (auto simp: clause_true_def)
  next
    case False
    then have "d \<in> G - stored z (sp_frames T)" using d by simp
    then obtain l where l: "l \<in> set d" "\<not> is_positive l" "\<not> sp_literal T l" "lit_not l \<notin> set z"
      using k unfolding scopes_ok_def by blast
    have "lit_var l \<notin> lit_var ` set z"
    proof
      assume "lit_var l \<in> lit_var ` set z"
      then obtain x where x: "x \<in> set z" "lit_var x = lit_var l" by auto
      moreover have "is_positive x" using k x(1) by (simp add: scopes_ok_def)
      ultimately have "x = lit_not l" using l(2) by (simp add: lit_eq_iff)
      then show False using l(4) x(1) by simp
    qed
    then have "lit_true ?\<tau> l" using l(2,3) by (simp add: lit_true_def with_scopes_def sp_literal_def)
    then show ?thesis using l(1) by (auto simp: clause_true_def)
  qed
qed

lemma entails_empty_spec: "scopes_ok T G z \<Longrightarrow> entails G [] \<Longrightarrow> \<not> sp_holds \<sigma> T"
  using holds_stored [of T G z \<sigma>] by (auto simp: entails_def clause_true_def)

lemma refutes_spec:
  assumes k: "scopes_ok T G z" and r: "refutes G (z @ core)" and c: "\<forall>a \<in> set core. sp_literal T a" and h: "sp_holds \<sigma> T"
  shows "\<exists>a \<in> set core. \<not> lit_true \<sigma> a"
proof (rule ccontr)
  assume "\<not> ?thesis"
  then have "\<forall>a \<in> set (z @ core). lit_true (with_scopes T z \<sigma>) a"
    using c with_scopes_selector [OF k] by (auto simp: with_scopes_same)
  then show False using r holds_stored [OF k h] unfolding refutes_def by blast
qed

subsection \<open>The calls keep the relation\<close>

lemma session_initial: "session_ok sp_initial (solver_with_config F config interrupt)"
proof -
  let ?s = "solver_with_config F config interrupt"
  have "scopes_ok sp_initial {} []" by (simp add: scopes_ok_def sp_initial_def stored_def)
  moreover have "s_scope_selectors ?s = []" "nvars ?s = 0" by (simp_all add: solver_with_config_def nvars_def)
  ultimately show ?thesis using initial_ok [of F config interrupt] by (auto simp: session_ok_def sp_initial_def)
qed

text \<open>More variables, none of them taken.\<close>

lemma scopes_more:
  assumes "scopes_ok T G z" "sp_count T \<le> n"
  shows "scopes_ok (T\<lparr>sp_count := n\<rparr>) G z"
  using assms by (force simp: scopes_ok_def sp_literal_def)

lemma stored_add:
  assumes "length fs = Suc (length z)"
  shows "stored z (butlast fs @ [last fs @ [c]]) = insert (c @ scope_guard z (length z)) (stored z fs)"
proof -
  have ne: "fs \<noteq> []" using assms by auto
  let ?gs = "butlast fs @ [last fs @ [c]]"
  have len: "length ?gs = length fs" using assms by simp
  have nth: "?gs ! i = (if i = length z then fs ! i @ [c] else fs ! i)" if "i < length fs" for i
    using that assms ne by (auto simp: nth_append nth_butlast last_conv_nth)
  have "stored z fs \<subseteq> stored z ?gs" using len nth by (intro stored_mono) auto
  moreover have "c \<in> set (?gs ! length z)" using nth [of "length z"] assms by simp
  then have "c @ scope_guard z (length z) \<in> stored z ?gs" using assms len by (intro storedI) simp_all
  moreover have "d \<in> insert (c @ scope_guard z (length z)) (stored z fs)" if d: "d \<in> stored z ?gs" for d
  proof -
    obtain x i where x: "d = x @ scope_guard z i" "i < length ?gs" "x \<in> set (?gs ! i)" using d by (rule storedE)
    then have i: "i < length fs" using len by simp
    show ?thesis
      using x nth [OF i] storedI [OF i, of x z] by (cases "i = length z \<and> x = c") (auto split: if_splits)
  qed
  ultimately show ?thesis by blast
qed

lemma guard_last: "guarded_clause True z c = c @ scope_guard z (length z)"
  by (simp add: guarded_clause_def scope_guard_def last_conv_nth)

lemma scopes_add:
  assumes k: "scopes_ok T G z" and c: "\<forall>l \<in> set c. sp_literal T l"
  shows "scopes_ok (sp_after T (CallAddClause c)) (insert (guarded_clause True z c) G) z"
proof -
  let ?fs = "sp_frames T" and ?T = "sp_after T (CallAddClause c)"
  have len: "length ?fs = Suc (length z)" using k by (simp add: scopes_ok_def)
  then have ne: "?fs \<noteq> []" by auto
  have l: "sp_literal ?T = sp_literal T" by (simp add: sp_literal_def fun_eq_iff)
  have n: "sp_count T \<le> sp_count ?T" "\<forall>l \<in> set c. var_index (lit_var l) < sp_count ?T"
    using needed_less [of c "sp_count T" "sp_count ?T"] by simp_all
  have "sp_literal T l \<and> var_index (lit_var l) < sp_count ?T" if t: "f \<in> set (sp_frames ?T)" "d \<in> set f" "l \<in> set d" for f d l
  proof (cases "d = c")
    case False
    then obtain f' where "f' \<in> set ?fs" "d \<in> set f'"
      using t(1,2) last_in_set [OF ne] by (auto dest: in_set_butlastD)
    then show ?thesis using k t(3) n(1) by (fastforce simp: scopes_ok_def)
  qed (use c n t in blast)
  moreover have "\<forall>i \<in> sp_taken ?T. i < sp_count ?T" using k n(1) by (auto simp: scopes_ok_def)
  moreover have st: "stored z (sp_frames ?T) = insert (guarded_clause True z c) (stored z ?fs)"
    using stored_add [OF len, of c] by (simp add: guard_last)
  moreover have "length (sp_frames ?T) = Suc (length z)" using len by simp
  moreover have "stored z ?fs \<subseteq> G" using k by (simp add: scopes_ok_def)
  moreover have "(\<forall>x \<in> set z. is_positive x \<and> \<not> sp_literal T x) \<and> distinct z
    \<and> (\<forall>d \<in> G - stored z ?fs. \<exists>l \<in> set d. \<not> is_positive l \<and> \<not> sp_literal T l \<and> lit_not l \<notin> set z)"
    using k by (simp add: scopes_ok_def)
  ultimately show ?thesis unfolding scopes_ok_def l st by blast
qed

lemma stored_push: "stored (z @ ys) (fs @ replicate n []) = stored z fs" if "length fs = Suc (length z)"
proof -
  let ?gs = "fs @ replicate n []"
  have nth: "?gs ! i = (if i < length fs then fs ! i else [])" if "i < length ?gs" for i
    using that by (simp add: nth_append)
  have g: "scope_guard (z @ ys) i = scope_guard z i" if "i < length fs" for i
    using that \<open>length fs = Suc (length z)\<close> by (auto simp: scope_guard_def nth_append)
  have "stored z fs \<subseteq> stored (z @ ys) ?gs" using nth g by (intro stored_mono) simp
  moreover have "stored (z @ ys) ?gs \<subseteq> stored z fs" using nth g by (intro stored_mono) (auto split: if_splits)
  ultimately show ?thesis by (rule equalityI [rotated])
qed

lemma scopes_push:
  assumes k: "scopes_ok T G z" and n: "sp_count T + n \<le> MAX_VARIABLES"
  shows "scopes_ok (T\<lparr>sp_count := sp_count T + n, sp_taken := sp_taken T \<union> {sp_count T..<sp_count T + n},
      sp_frames := sp_frames T @ replicate n []\<rparr>) G (z @ fresh_selectors (sp_count T) (sp_count T + n))"
    (is "scopes_ok ?T G (z @ ?y)")
proof -
  note ix = selector_index [OF n]
  have len: "length (sp_frames T) = Suc (length z)" using k by (simp add: scopes_ok_def)
  have below: "var_index (lit_var l) < sp_count T" if "\<not> sp_literal T l" for l
    using k that by (auto simp: scopes_ok_def sp_literal_def)
  have lit: "sp_literal ?T l \<longleftrightarrow> sp_literal T l \<and> \<not> (sp_count T \<le> var_index (lit_var l) \<and> var_index (lit_var l) < sp_count T + n)" for l
    by (auto simp: sp_literal_def)
  have "distinct ?y"
    unfolding fresh_selectors_def distinct_map
  proof (intro conjI inj_onI)
    fix i j assume ij: "i \<in> set [sp_count T..<sp_count T + n]" "j \<in> set [sp_count T..<sp_count T + n]"
      "lit_positive (Var (word_of_nat i)) = lit_positive (Var (word_of_nat j))"
    have p: "var_index (Var (of_nat k)) = k" "var_ok (Var (of_nat k))" if "k < sp_count T + n" for k
      using that n var_index_of_nat [of k] by (simp_all add: var_ok_def)
    have "lit_var (lit_new (Var (of_nat i)) True) = lit_var (lit_new (Var (of_nat j)) True)" using ij(3) by (simp add: lit_new_def)
    then show "i = j" using ij(1,2) p by (metis atLeastLessThan_iff lit_var_new set_upt)
  qed simp
  moreover have "set z \<inter> set ?y = {}" using k ix(1) below by (fastforce simp: scopes_ok_def)
  ultimately have "distinct (z @ ?y)" using k by (simp add: scopes_ok_def)
  moreover have "\<forall>x \<in> set (z @ ?y). is_positive x \<and> \<not> sp_literal ?T x" using k ix by (auto simp: scopes_ok_def lit)
  moreover have "length (sp_frames ?T) = Suc (length (z @ ?y))" using len by (simp add: fresh_selectors_def)
  moreover have "\<forall>i \<in> sp_taken ?T. i < sp_count ?T" using k by (auto simp: scopes_ok_def)
  moreover have "\<forall>f \<in> set (sp_frames ?T). \<forall>c \<in> set f. \<forall>l \<in> set c. sp_literal ?T l \<and> var_index (lit_var l) < sp_count ?T"
    using k unfolding lit scopes_ok_def by fastforce
  moreover have st: "stored (z @ ?y) (sp_frames ?T) = stored z (sp_frames T)" using stored_push [OF len] by simp
  moreover have "stored z (sp_frames T) \<subseteq> G" using k by (simp add: scopes_ok_def)
  moreover have "\<exists>l \<in> set d. \<not> is_positive l \<and> \<not> sp_literal ?T l \<and> lit_not l \<notin> set (z @ ?y)"
    if d: "d \<in> G - stored z (sp_frames T)" for d
  proof -
    obtain l where l: "l \<in> set d" "\<not> is_positive l" "\<not> sp_literal T l" "lit_not l \<notin> set z"
      using k d unfolding scopes_ok_def by blast
    have "lit_not l \<notin> set ?y" using below [OF l(3)] ix(1) [of "lit_not l" "sp_count T"] by auto
    then show ?thesis using l by (auto simp: lit)
  qed
  ultimately show ?thesis unfolding scopes_ok_def st by blast
qed

text \<open>Closing scopes: their clauses hold the negation of a closed selector.\<close>

lemma stored_pop:
  assumes "length fs = Suc (length z)"
  shows "stored (take (length z - n) z) (take (length fs - n) fs) \<subseteq> stored z fs"
    "d \<in> stored z fs - stored (take (length z - n) z) (take (length fs - n) fs) \<Longrightarrow> n \<le> length z \<Longrightarrow>
     \<exists>x \<in> set (drop (length z - n) z). lit_not x \<in> set d"
proof -
  let ?z = "take (length z - n) z" and ?fs = "take (length fs - n) fs"
  have g: "scope_guard ?z i = scope_guard z i" if "i < length ?fs" for i
    using that assms by (auto simp: scope_guard_def)
  show "stored ?z ?fs \<subseteq> stored z fs" using g assms by (intro stored_mono) auto
  assume d: "d \<in> stored z fs - stored ?z ?fs" and n: "n \<le> length z"
  then obtain c i where c: "d = c @ scope_guard z i" "i < length fs" "c \<in> set (fs ! i)" by (auto elim: storedE)
  have i: "length fs - n \<le> i"
  proof (rule ccontr)
    assume "\<not> length fs - n \<le> i"
    then have "i < length ?fs" "c \<in> set (?fs ! i)" using c by simp_all
    then show False using storedI [of i ?fs c ?z] g [of i] c(1) d by simp
  qed
  then have i': "i \<noteq> 0" "length z - n \<le> i - 1" "i - 1 < length z" using assms n c(2) by simp_all
  then have "drop (length z - n) z ! (i - 1 - (length z - n)) = z ! (i - 1)" by simp
  then have "z ! (i - 1) \<in> set (drop (length z - n) z)"
    using i' nth_mem [of "i - 1 - (length z - n)" "drop (length z - n) z"] by simp
  then show "\<exists>x \<in> set (drop (length z - n) z). lit_not x \<in> set d"
    using c(1) i'(1) by (auto simp: scope_guard_def)
qed

lemma scopes_pop:
  assumes k: "scopes_ok T G z" and n: "n \<le> length z"
  shows "scopes_ok (T\<lparr>sp_frames := take (length (sp_frames T) - n) (sp_frames T)\<rparr>) (G \<union> closing n z) (take (length z - n) z)"
    (is "scopes_ok ?T ?G ?z")
proof -
  have len: "length (sp_frames T) = Suc (length z)" using k by (simp add: scopes_ok_def)
  note st = stored_pop [OF len, where n = n]
  have lit: "sp_literal ?T = sp_literal T" by (simp add: sp_literal_def fun_eq_iff)
  have zs: "\<forall>x \<in> set z. is_positive x \<and> \<not> sp_literal T x" "distinct z" using k by (simp_all add: scopes_ok_def)
  have dropped: "x \<notin> set ?z" if "x \<in> set (drop (length z - n) z)" for x
    using that set_take_disj_set_drop_if_distinct [OF zs(2), of "length z - n" "length z - n"] by blast
  have "\<exists>l \<in> set d. \<not> is_positive l \<and> \<not> sp_literal T l \<and> lit_not l \<notin> set ?z"
    if d: "d \<in> ?G - stored ?z (sp_frames ?T)" for d
  proof (cases "d \<in> G - stored z (sp_frames T)")
    case True
    then obtain l where "l \<in> set d" "\<not> is_positive l" "\<not> sp_literal T l" "lit_not l \<notin> set z"
      using k unfolding scopes_ok_def by blast
    moreover have "set ?z \<subseteq> set z" by (rule set_take_subset)
    ultimately show ?thesis by blast
  next
    case False
    then have "\<exists>x \<in> set (drop (length z - n) z). lit_not x \<in> set d"
      using d st(2) [where d = d, OF _ n] by (auto simp: closing_def)
    then obtain x where x: "x \<in> set (drop (length z - n) z)" "lit_not x \<in> set d" by blast
    then have "is_positive x" "\<not> sp_literal T x" using zs(1) in_set_dropD [OF x(1)] by simp_all
    then show ?thesis using x(2) dropped [OF x(1)] by (intro bexI [of _ "lit_not x"]) (simp_all add: sp_literal_def)
  qed
  moreover have "length (sp_frames ?T) = Suc (length ?z)" using len n by simp
  moreover have "\<forall>x \<in> set ?z. is_positive x \<and> \<not> sp_literal T x" "distinct ?z"
    using zs by (auto dest: in_set_takeD)
  moreover have "\<forall>f \<in> set (sp_frames ?T). \<forall>c \<in> set f. \<forall>l \<in> set c. sp_literal T l \<and> var_index (lit_var l) < sp_count ?T"
    "\<forall>i \<in> sp_taken ?T. i < sp_count ?T"
    using k by (auto simp: scopes_ok_def dest: in_set_takeD)
  moreover have "stored ?z (sp_frames ?T) \<subseteq> ?G" using st(1) k by (auto simp: scopes_ok_def)
  ultimately show ?thesis unfolding scopes_ok_def lit by blast
qed

lemma session_add:
  assumes k: "session_ok T s" and a: "sp_admits T (CallAddClause c)"
  shows "\<exists>r s'. perform F (CallAddClause c) s = Some (r, s')
    \<and> sp_allows T (sp_after T (CallAddClause c)) (CallAddClause c) r \<and> session_ok (sp_after T (CallAddClause c)) s'"
proof -
  let ?z = "s_scope_selectors s" and ?T = "sp_after T (CallAddClause c)"
  obtain G where g: "sp_count T = nvars s" "solver_ok G s" "scopes_ok T G ?z" using k by (auto simp: session_ok_def)
  obtain b s' where e: "try_add_clause F c s = (b, s')" by fastforce
  let ?d = "guarded_clause True ?z c"
  note r = add_clause_internal_ok [OF g(2) e [unfolded try_add_clause_def]]
  have so: "scopes_ok ?T (insert ?d G) ?z" using scopes_add [OF g(3)] a by simp
  have "\<forall>x \<in> set ?z. var_index (lit_var x) < nvars s"
    using g(1,3) by (auto simp: scopes_ok_def sp_literal_def)
  then have "set ?z \<noteq> {} \<longrightarrow> var_index (lit_var (last ?z)) < nvars s" by auto
  then have n: "needed ?d (nvars s) = needed c (nvars s)" by (auto simp: guarded_clause_def needed_def max_def)
  have "session_ok ?T s'"
    using r(1,3,7) so n g(1) ready_solver_ok by (auto simp: session_ok_def)
  moreover have "b \<or> \<not> sp_holds \<sigma> ?T" for \<sigma>
  proof (cases b)
    case False
    have "settled (insert ?d G) s'" "\<not> s_consistent s'" using r(1,2) False by (simp_all add: ready_def)
    then have "entails (insert ?d G) []" using settledD(2) by (auto simp: db_ok_def meaning_ok_def)
    then show ?thesis using entails_empty_spec [OF so] by blast
  qed simp
  ultimately show ?thesis by (auto simp: e)
qed

lemma same_count: "sp_count T = n \<Longrightarrow> T\<lparr>sp_count := n\<rparr> = T"
  by auto

lemma session_enlarged:
  assumes k: "session_ok T s" and n: "nvars s < n" "n \<le> MAX_VARIABLES"
  shows "session_ok (T\<lparr>sp_count := n\<rparr>) (enlarged F n s)"
proof -
  obtain G where g: "sp_count T = nvars s" "solver_ok G s" "scopes_ok T G (s_scope_selectors s)"
    using k by (auto simp: session_ok_def)
  note e = enlarged_ok [OF g(2) n, of F]
  show ?thesis using e(2,3,6) scopes_more [OF g(3), of n] n(1) g(1) by (auto simp: session_ok_def)
qed

lemma session_new:
  assumes k: "session_ok T s"
  shows "\<exists>r s'. perform F CallNewVariable s = Some (r, s')
    \<and> sp_allows T (sp_after T CallNewVariable) CallNewVariable r \<and> session_ok (sp_after T CallNewVariable) s'"
proof -
  obtain G where g: "sp_count T = nvars s" "solver_ok G s" using k by (auto simp: session_ok_def)
  note n = new_variable_ok [OF g(2), of F]
  show ?thesis
  proof (cases "nvars s = MAX_VARIABLES")
    case True
    then show ?thesis using k g(1) by (simp add: n)
  next
    case False
    then have "nvars s < MAX_VARIABLES" using variable_count(2) [OF g(2)] by simp
    then show ?thesis using session_enlarged [OF k, of "nvars s + 1" F] g(1) by (simp add: n var_index_of_nat)
  qed
qed

lemma session_reserve:
  assumes k: "session_ok T s"
  shows "\<exists>r s'. perform F (CallReserve n) s = Some (r, s')
    \<and> sp_allows T (sp_after T (CallReserve n)) (CallReserve n) r \<and> session_ok (sp_after T (CallReserve n)) s'"
proof -
  obtain G where g: "sp_count T = nvars s" "solver_ok G s" using k by (auto simp: session_ok_def)
  note r = try_reserve_ok [OF g(2), of F n] and m = variable_count(2) [OF g(2)]
  consider "n \<le> nvars s" | "MAX_VARIABLES < n" | "nvars s < n" "n \<le> MAX_VARIABLES" by linarith
  then show ?thesis
  proof cases
    case 1
    then show ?thesis using k g(1) m by (simp add: r max_def same_count)
  next
    case 2
    then show ?thesis using k m by (simp add: r)
  next
    case 3
    then show ?thesis using session_enlarged [OF k 3, of F] g(1) by (simp add: r max_def)
  qed
qed

lemma session_push:
  assumes k: "session_ok T s"
  shows "\<exists>r s'. perform F (CallPush n) s = Some (r, s')
    \<and> sp_allows T (sp_after T (CallPush n)) (CallPush n) r \<and> session_ok (sp_after T (CallPush n)) s'"
proof -
  obtain G where g: "sp_count T = nvars s" "solver_ok G s" "scopes_ok T G (s_scope_selectors s)"
    using k by (auto simp: session_ok_def)
  note p = push_levels_ok [OF g(2), where F = F] and m = variable_count(2) [OF g(2)]
  consider "n = 0" | "n \<noteq> 0" "MAX_VARIABLES < nvars s + n" | "n \<noteq> 0" "nvars s + n \<le> MAX_VARIABLES" by linarith
  then show ?thesis
  proof cases
    case 1
    then show ?thesis using k g(1) m by (simp add: p(1) same_count)
  next
    case 2
    then show ?thesis using k g(1) by (simp add: p(1))
  next
    case 3
    have n: "nvars s < nvars s + n" using 3(1) by simp
    have e: "push_levels F n s = (Inr (), (enlarged F (nvars s + n) s)
       \<lparr>s_scope_selectors := s_scope_selectors s @ fresh_selectors (nvars s) (nvars s + n)\<rparr>)"
      using 3 by (simp add: p(1))
    have "solver_ok G (snd (push_levels F n s))" using p(2) [OF 3(2,1)] by (rule ready_solver_ok)
    moreover have "nvars (snd (push_levels F n s)) = nvars s + n"
      using enlarged_ok(2) [OF g(2) n 3(2), of F] by (simp add: e nvars_def)
    ultimately have "session_ok (sp_after T (CallPush n)) (snd (push_levels F n s))"
      using scopes_push [OF g(3), of n] 3 g(1) by (auto simp: session_ok_def e)
    then show ?thesis using 3 g(1) by (simp add: e)
  qed
qed

lemma session_pop:
  assumes k: "session_ok T s"
  shows "\<exists>r s'. perform F (CallPop n) s = Some (r, s')
    \<and> sp_allows T (sp_after T (CallPop n)) (CallPop n) r \<and> session_ok (sp_after T (CallPop n)) s'"
proof -
  obtain G where g: "sp_count T = nvars s" "solver_ok G s" "scopes_ok T G (s_scope_selectors s)"
    using k by (auto simp: session_ok_def)
  have len: "length (sp_frames T) = Suc (length (s_scope_selectors s))" using g(3) by (simp add: scopes_ok_def)
  consider "length (s_scope_selectors s) < n" | "n = 0" | "n \<noteq> 0" "n \<le> length (s_scope_selectors s)" by linarith
  then show ?thesis
  proof cases
    case 1
    then show ?thesis using k len by (simp add: pop_levels_def)
  next
    case 2
    then show ?thesis using k len by (simp add: pop_levels_def)
  next
    case 3
    note p = pop_levels_ok [OF g(2) 3(2,1), where F = F]
    have "session_ok (sp_after T (CallPop n)) (snd (pop_levels F n s))"
      using p(2-4) ready_solver_ok scopes_pop [OF g(3) 3(2)] g(1) 3 len by (auto simp: session_ok_def)
    moreover have "perform F (CallPop n) s = Some (ReplyDone, snd (pop_levels F n s))"
      using p(1) by (cases "pop_levels F n s") simp
    ultimately show ?thesis using 3 len by simp
  qed
qed

lemma session_solve:
  assumes k: "session_ok T s" and a: "sp_admits T (CallSolve as limits)"
  shows "\<exists>r s'. perform F (CallSolve as limits) s = Some (r, s')
    \<and> sp_allows T (sp_after T (CallSolve as limits)) (CallSolve as limits) r \<and> session_ok (sp_after T (CallSolve as limits)) s'"
proof -
  let ?z = "s_scope_selectors s"
  obtain G where g: "sp_count T = nvars s" "solver_ok G s" "scopes_ok T G ?z"
    using k by (auto simp: session_ok_def)
  have as: "\<forall>a \<in> set as. var_index (lit_var a) < s_variable_count s" using a g(1) variable_count(1) [OF g(2)] by simp
  have "will_stop limits s" using a by (simp add: will_stop_def)
  then obtain x where x: "solve_assuming_with_limits F as limits s = Some x" using solve_ok(2) [OF g(2) as] by blast
  obtain r s' where rs: "x = (r, s')" by fastforce
  have d: "solver_ok G s'" "query_ok G ?z as r s'" "s_scope_selectors s' = ?z" "nvars s' = nvars s"
    using solve_ok(1) [OF g(2) as x] rs by (simp_all add: solved_def)
  have "session_ok T s'" using d g by (auto simp: session_ok_def)
  moreover have "sp_allows T T (CallSolve as limits) (ReplyAnswer r (s_failed s'))"
  proof (cases r)
    case (Sat m)
    have "s_variable_count s' = sp_count T" using variable_count(1) [OF d(1)] d(4) g(1) by simp
    then show ?thesis using d(2) stored_holds [OF g(3), of "valuation_of m"] Sat by (auto simp: query_ok_def)
  next
    case Unsat
    then have u: "refutes G (?z @ s_failed s')" "set (s_failed s') \<subseteq> set as" using d(2) by (simp_all add: query_ok_def)
    then have "\<forall>a \<in> set (s_failed s'). sp_literal T a" using a by auto
    then show ?thesis using refutes_spec [OF g(3) u(1)] u(2) Unsat by auto
  next
    case (Unknown u)
    then show ?thesis using d(2) by (simp add: query_ok_def)
  qed
  ultimately show ?thesis by (simp add: x rs)
qed

lemma session_step:
  assumes "session_ok T s" "sp_admits T c"
  shows "\<exists>r s'. perform F c s = Some (r, s') \<and> sp_allows T (sp_after T c) c r \<and> session_ok (sp_after T c) s'"
proof (cases c)
  case (CallAddClause x)
  then show ?thesis using session_add assms by blast
next
  case CallNewVariable
  then show ?thesis using session_new assms by blast
next
  case (CallReserve n)
  then show ?thesis using session_reserve assms by blast
next
  case (CallPush n)
  then show ?thesis using session_push assms by blast
next
  case (CallPop n)
  then show ?thesis using session_pop assms by blast
next
  case (CallSolve as limits)
  then show ?thesis using session_solve assms by blast
qed

subsection \<open>Runs\<close>

text \<open>The contract of a component that answers a sequence of calls as a specification allows.\<close>

fun run_calls :: "('c \<Rightarrow> 's \<Rightarrow> ('r \<times> 's) option) \<Rightarrow> 'c list \<Rightarrow> 's \<Rightarrow> ('r list \<times> 's) option" where
  "run_calls f [] s = Some ([], s)"
| "run_calls f (c # cs) s =
     (case f c s of
        None \<Rightarrow> None
      | Some (r, s') \<Rightarrow> map_option (\<lambda>(rs, t). (r # rs, t)) (run_calls f cs s'))"

fun run_admitted :: "('t \<Rightarrow> 'c \<Rightarrow> bool) \<Rightarrow> ('t \<Rightarrow> 'c \<Rightarrow> 't) \<Rightarrow> 't \<Rightarrow> 'c list \<Rightarrow> bool" where
  "run_admitted admits after T [] \<longleftrightarrow> True"
| "run_admitted admits after T (c # cs) \<longleftrightarrow> admits T c \<and> run_admitted admits after (after T c) cs"

fun run_allowed ::
  "('t \<Rightarrow> 't \<Rightarrow> 'c \<Rightarrow> 'r \<Rightarrow> bool) \<Rightarrow> ('t \<Rightarrow> 'c \<Rightarrow> 't) \<Rightarrow> 't \<Rightarrow> 'c list \<Rightarrow> 'r list \<Rightarrow> bool" where
  "run_allowed allows after T [] [] \<longleftrightarrow> True"
| "run_allowed allows after T (c # cs) (r # rs) \<longleftrightarrow>
     allows T (after T c) c r \<and> run_allowed allows after (after T c) cs rs"
| "run_allowed allows after T _ _ \<longleftrightarrow> False"

locale call_simulation =
  fixes related :: "'t \<Rightarrow> 's \<Rightarrow> bool"
    and call :: "'c \<Rightarrow> 's \<Rightarrow> ('r \<times> 's) option"
    and admits :: "'t \<Rightarrow> 'c \<Rightarrow> bool"
    and after :: "'t \<Rightarrow> 'c \<Rightarrow> 't"
    and allows :: "'t \<Rightarrow> 't \<Rightarrow> 'c \<Rightarrow> 'r \<Rightarrow> bool"
  assumes simulates: "related T s \<Longrightarrow> admits T c \<Longrightarrow>
    \<exists>r s'. call c s = Some (r, s') \<and> allows T (after T c) c r \<and> related (after T c) s'"
begin

lemma run_simulates:
  "related T s \<Longrightarrow> run_admitted admits after T cs \<Longrightarrow>
   \<exists>rs s'. run_calls call cs s = Some (rs, s') \<and> run_allowed allows after T cs rs \<and> related (foldl after T cs) s'"
proof (induction cs arbitrary: T s)
  case (Cons c cs)
  obtain r s1 where 1: "call c s = Some (r, s1)" "allows T (after T c) c r" "related (after T c) s1"
    using simulates [of T s c] Cons.prems by auto
  obtain rs s' where "run_calls call cs s1 = Some (rs, s')" "run_allowed allows after (after T c) cs rs"
    "related (foldl after (after T c) cs) s'"
    using Cons.IH [OF 1(3)] Cons.prems(2) by auto
  then show ?case using 1 by simp
qed simp

end

interpretation sessions: call_simulation session_ok "perform F" sp_admits sp_after sp_allows for F
  by unfold_locales (rule session_step)


text \<open>A concrete instance of the floating-point operations: exact arithmetic, coarse roots and logarithms.\<close>

definition exact_floats :: "rat float_ops" where
  "exact_floats =
     \<lparr>fl_zero = 0, fl_one = 1, fl_of_nat = of_nat, fl_literal = id, fl_add = (+), fl_sub = (-), fl_mul = (*),
      fl_div = (/), fl_gt = (>), fl_log10 = (\<lambda>x. if x < 10 then 0 else 1), fl_sqrt = id, fl_floor_nat = (\<lambda>x. nat \<lfloor>x\<rfloor>)\<rparr>"


end
