(* ===== verification/Solver_Answers.thy ===== *)
theory Solver_Answers
  imports Solver_Session
begin

section \<open>What the solver promises for one call\<close>

text \<open>
  The contract of single calls on any reachable solver state: the answers of a query, that it
  returns, its proof log and its cache, and the effect of adding a clause, backtracking and
  reducing the database. \<open>solver_ok G s\<close> is the invariant between calls for the clauses \<open>G\<close> that
  were stored so far; the initial state has it and every call keeps it.
\<close>

subsection \<open>Queries\<close>

abbreviation ten_conflicts :: solve_limits where
  "ten_conflicts \<equiv> \<lparr>limit_conflicts = Some 10, limit_propagations = None\<rparr>"

abbreviation empty_solver :: "(nat \<Rightarrow> bool) \<Rightarrow> rat solver" where
  "empty_solver \<equiv> solver_with_config exact_floats default_config"



text \<open>
  C6: a query without limits returns once the interrupt flag is raised: if the flag is read as
  set at some poll that is still to come, the query ends with an answer.
\<close>

theorem interrupted_query_returns:
  assumes "solver_ok G s" "\<forall>a \<in> set as. var_index (lit_var a) < s_variable_count s"
    "s_polls s \<le> k" "s_interrupt s k"
  shows "\<exists>r s'. solve_assuming_with_limits F as \<lparr>limit_conflicts = None, limit_propagations = None\<rparr> s = Some (r, s')"
proof -
  have "will_stop \<lparr>limit_conflicts = None, limit_propagations = None\<rparr> s" using assms(3,4) by (auto simp: will_stop_def)
  then show ?thesis using solve_ok(2) [OF assms(1,2), where F = F] by fastforce
qed

theorem interrupted_query_returns_witness:
  "\<exists>r s'. solve_assuming_with_limits exact_floats [] \<lparr>limit_conflicts = None, limit_propagations = None\<rparr>
     (empty_solver (\<lambda>k. 7 \<le> k)) = Some (r, s')"
  by (rule interrupted_query_returns [OF initial_ok, where k = 7]) (simp_all add: solver_with_config_def)

text \<open>
  C4: a satisfiable answer carries a model of all stored clauses, of the selectors of the open
  scopes and of the assumptions, with a value for every variable; an unsatisfiable answer comes
  with failed assumptions, a duplicate-free part of the given ones, that the clauses refute; and
  the query keeps the invariant, the scopes and the variables.
\<close>

theorem query_sound:
  assumes "solver_ok G s" "\<forall>a \<in> set as. var_index (lit_var a) < s_variable_count s"
    "solve_assuming_with_limits F as limits s = Some (r, s')"
  shows "(case r of
        Sat m \<Rightarrow> length m = s_variable_count s \<and> models (valuation_of m) G
          \<and> (\<forall>a \<in> set (s_scope_selectors s @ as). lit_true (valuation_of m) a)
      | Unsat \<Rightarrow> set (s_failed s') \<subseteq> set as \<and> distinct (s_failed s') \<and> refutes G (s_scope_selectors s @ s_failed s')
      | Unknown _ \<Rightarrow> s_failed s' = [])
    \<and> solver_ok G s' \<and> s_scope_selectors s' = s_scope_selectors s \<and> s_variable_count s' = s_variable_count s"
proof -
  have d: "solver_ok G s'" "query_ok G (s_scope_selectors s) as r s'" "s_scope_selectors s' = s_scope_selectors s"
    "nvars s' = nvars s"
    using solve_ok(1) [OF assms] by (simp_all add: solved_def)
  have "s_variable_count s' = s_variable_count s"
    using variable_count(1) [OF d(1)] variable_count(1) [OF assms(1)] d(4) by simp
  then show ?thesis using d by (auto simp: query_ok_def split: solve_result.splits)
qed

theorem query_sound_witness:
  "\<exists>r s'. solve_assuming_with_limits exact_floats [] ten_conflicts (empty_solver (\<lambda>_. False)) = Some (r, s')
    \<and> r \<noteq> Unsat"
proof -
  let ?s = "empty_solver (\<lambda>_. False)"
  have as: "\<forall>a \<in> set []. var_index (lit_var a) < s_variable_count ?s" by simp
  obtain r s' where r: "solve_assuming_with_limits exact_floats [] ten_conflicts ?s = Some (r, s')"
    using solve_ok(2) [OF initial_ok as, where F = exact_floats and limits = ten_conflicts] by (auto simp: will_stop_def)
  have "r \<noteq> Unsat"
  proof
    assume "r = Unsat"
    then have "refutes {} (s_scope_selectors ?s @ s_failed s')" "s_failed s' = []"
      using query_sound [OF initial_ok as r] by auto
    moreover have "s_scope_selectors ?s = []" by (simp add: solver_with_config_def)
    ultimately show False by (simp add: refutes_def models_def)
  qed
  with r show ?thesis by blast
qed

subsection \<open>The proof log\<close>

lemma log_entailed: "solver_ok G s \<Longrightarrow> AddStep c \<in> set (s_proof s) \<Longrightarrow> entails G c"
  by (simp add: solver_ok_def settled_def base_ok_def meaning_ok_def)

lemma finish_logs:
  assumes "finish_query as query r s = (r', s')" "r' = Unsat" "\<not> s_consistent s'"
  shows "AddStep [] \<in> set (s_proof s')"
proof -
  have r: "r = Unsat" using assms(1,2) by (simp add: finish_query_def Let_def)
  have c: "s_consistent (cancel_until 0 s) = s_consistent s"
    using steer_cancel [of 0 s] by (simp add: steer_view_def quiet_view_def search_view_def)
  have "\<not> s_consistent s"
    using assms(1,3) r c by (auto simp: finish_query_def Let_def split: if_splits)
  then show ?thesis using assms(1) r by (auto simp: finish_query_def Let_def)
qed

text \<open>A query whose answer is not cached ends with \<open>finish_query\<close>.\<close>

lemma query_finishes:
  assumes "solve_assuming_with_limits F as limits s = Some x" "s_cached_result s = None"
  shows "\<exists>q r t. x = finish_query as q r t"
  using assms
  by (auto simp: solve_assuming_with_limits_def Let_def split: if_splits prod.splits option.splits)


definition empty_clause_solver :: "rat solver" where
  "empty_clause_solver = snd (try_add_clause exact_floats [] (empty_solver (\<lambda>_. False)))"

lemma empty_clause_added:
  "solver_ok {[]} empty_clause_solver" "\<not> s_consistent empty_clause_solver"
  "s_cached_result empty_clause_solver = None" "s_scope_selectors empty_clause_solver = []"
proof -
  obtain r where e: "add_clause_internal exact_floats [] True True FormulaClause (empty_solver (\<lambda>_. False)) = (r, empty_clause_solver)"
    by (cases "add_clause_internal exact_floats [] True True FormulaClause (empty_solver (\<lambda>_. False))")
      (simp add: empty_clause_solver_def try_add_clause_def)
  have sel: "s_scope_selectors (empty_solver (\<lambda>_. False)) = []" by (simp add: solver_with_config_def)
  note a = add_clause_internal_ok [OF initial_ok e, unfolded guarded_clause_def sel, simplified]
  show "solver_ok {[]} empty_clause_solver" using a(1) by (rule ready_solver_ok)
  show "s_scope_selectors empty_clause_solver = []" using a(3) .
  show "\<not> s_consistent empty_clause_solver" "s_cached_result empty_clause_solver = None"
    by (simp_all add: empty_clause_solver_def try_add_clause_def add_clause_internal_def Let_def prepare_incremental_mutation_def
        solver_with_config_def grow_for_literals_def add_fresh_def decision_level_def cancel_until_def)
qed

lemma empty_clause_unsat:
  "\<exists>s. solve_assuming_with_limits exact_floats [] limits empty_clause_solver = Some (Unsat, s) \<and> \<not> s_consistent s"
proof -
  have c: "s_consistent (cancel_until 0 s) = s_consistent s" for s :: "rat solver"
    using steer_cancel [of 0 s] by (simp add: steer_view_def quiet_view_def search_view_def)
  show ?thesis
    using empty_clause_added by (simp add: solve_assuming_with_limits_def Let_def finish_query_def c)
qed


subsection \<open>The answer cache\<close>

lemma finish_caches:
  assumes "finish_query as query r s = (r', s')" "\<forall>u. r' \<noteq> Unknown u"
  shows "s_cached_assumptions s' = query" "s_cached_result s' = Some r'"
proof -
  have r: "r = r'" using assms(1) by (simp add: finish_query_def Let_def)
  have "(case r of Unknown _ \<Rightarrow> True | _ \<Rightarrow> False) = False" using assms(2) r by (cases r) auto
  then show "s_cached_assumptions s' = query" "s_cached_result s' = Some r'"
    using assms(1) by (auto simp: finish_query_def Let_def r)
qed

lemma query_cached:
  assumes "solve_assuming_with_limits F as limits s = Some (r, s')" "\<forall>u. r \<noteq> Unknown u"
  shows "s_cached_assumptions s' = s_scope_selectors s @ as" "s_cached_result s' = Some r"
proof -
  have "s_cached_assumptions s' = s_scope_selectors s @ as \<and> s_cached_result s' = Some r"
  proof (cases "s_cached_assumptions s = s_scope_selectors s @ as \<and> s_cached_result s \<noteq> None")
    case True
    then show ?thesis using assms(1) by (auto simp: solve_assuming_with_limits_def Let_def split: if_splits)
  next
    case False
    then have "\<exists>q t. finish_query as (s_scope_selectors s @ as) q t = (r, s')"
      using assms(1)
      by (auto simp: solve_assuming_with_limits_def Let_def split: if_splits prod.splits option.splits)
    then show ?thesis using finish_caches assms(2) by blast
  qed
  then show "s_cached_assumptions s' = s_scope_selectors s @ as" "s_cached_result s' = Some r" by simp_all
qed

text \<open>
  C22: repeating a query that was answered gives the same answer at once and leaves the solver
  unchanged, even under different limits.
\<close>

theorem repeated_query_cached:
  assumes "solver_ok G s" "\<forall>a \<in> set as. var_index (lit_var a) < s_variable_count s"
    "solve_assuming_with_limits F as limits s = Some (r, s')" "\<forall>u. r \<noteq> Unknown u"
  shows "solve_assuming_with_limits F as limits' s' = Some (r, s')"
proof -
  have d: "solver_ok G s'" "s_scope_selectors s' = s_scope_selectors s" "nvars s' = nvars s"
    using solve_ok(1) [OF assms(1-3)] by (simp_all add: solved_def)
  have "list_all (\<lambda>l. var_index (lit_var l) < s_variable_count s') as"
    using assms(2) variable_count(1) [OF d(1)] variable_count(1) [OF assms(1)] d(3) by (simp add: list_all_iff)
  then show ?thesis using query_cached [OF assms(3,4)] d(2) by (simp add: solve_assuming_with_limits_def)
qed

theorem repeated_query_cached_witness:
  "\<exists>s. solve_assuming_with_limits exact_floats [] ten_conflicts empty_clause_solver = Some (Unsat, s)
    \<and> solve_assuming_with_limits exact_floats [] \<lparr>limit_conflicts = Some 0, limit_propagations = None\<rparr> s = Some (Unsat, s)"
proof -
  obtain s where s: "solve_assuming_with_limits exact_floats [] ten_conflicts empty_clause_solver = Some (Unsat, s)"
    using empty_clause_unsat by blast
  from repeated_query_cached [OF empty_clause_added(1) _ s] s show ?thesis by simp
qed

subsection \<open>Adding a clause\<close>

text \<open>
  C21: adding a clause keeps the invariant for the clauses with the new one (guarded by the selector
  of the open scope), at any moment of the solver's life; the reply \<open>False\<close> means that the clauses
  are contradictory from now on; the variables grow to cover the clause, and a cached answer is
  dropped.
\<close>

theorem added_clause_kept:
  assumes "solver_ok G s" "try_add_clause F c s = (r, s')"
  shows "solver_ok (insert (guarded_clause True (s_scope_selectors s) c) G) s'
    \<and> (\<not> r \<longrightarrow> entails (insert (guarded_clause True (s_scope_selectors s) c) G) [])
    \<and> nvars s' = needed (guarded_clause True (s_scope_selectors s) c) (nvars s)
    \<and> s_cached_result s' = None"
proof -
  have e: "add_clause_internal F c True True FormulaClause s = (r, s')" using assms(2) by (simp add: try_add_clause_def)
  note a = add_clause_internal_ok [OF assms(1) e]
  have "settled (insert (guarded_clause True (s_scope_selectors s) c) G) s'" "idle s'" using a(1) by (simp_all add: ready_def)
  then show ?thesis
    using ready_solver_ok [OF a(1)] a(2,7) by (auto simp: settled_def base_ok_def meaning_ok_def idle_def)
qed

theorem added_clause_kept_witness:
  "solver_ok {[]} empty_clause_solver \<and> entails {[]} []"
proof -
  obtain r where e: "try_add_clause exact_floats [] (empty_solver (\<lambda>_. False)) = (r, empty_clause_solver)"
    by (cases "try_add_clause exact_floats [] (empty_solver (\<lambda>_. False))") (simp add: empty_clause_solver_def)
  have sel: "s_scope_selectors (empty_solver (\<lambda>_. False)) = []" by (simp add: solver_with_config_def)
  from added_clause_kept [OF initial_ok e] show ?thesis
    by (simp add: guarded_clause_def sel entails_def models_def)
qed

subsection \<open>Propagation and backtracking\<close>

text \<open>
  C17: unit propagation ends with every trail literal processed (unless the search was told to
  stop) or with a clause of the database all of whose literals are false; either way it only
  adds to the trail, at the current decision level, and the watch lists stay consistent.
\<close>

theorem propagation_complete:
  assumes "inv G s" "propagate s = (conflict, s')"
  shows "(case conflict of
        None \<Rightarrow> inv G s' \<and> (s_head s' = length (s_trail s') \<or> s_stop_reason s' \<noteq> None)
      | Some c \<Rightarrow> live s' c \<and> (\<forall>l \<in> set (clause_literals s' c). lit_f s' l))
    \<and> take (length (s_trail s)) (s_trail s') = s_trail s \<and> s_trail_limits s' = s_trail_limits s \<and> base_ok G s' \<and> watches_ok s'"
proof -
  have f: "prop_frame s s'" and r: "case conflict of
        None \<Rightarrow> inv G s' \<and> (s_head s' = length (s_trail s') \<or> s_control_active s' \<and> s_stop_reason s' \<noteq> None)
      | Some c \<Rightarrow> conflict_state G c s' \<and> (decision_level s' = 0 \<longrightarrow> pending c s')"
    using propagate_ok [OF assms(1)] assms(2) by (simp_all add: prop_result_def)
  have "take (length (s_trail s)) (s_trail s') = s_trail s" "s_trail_limits s' = s_trail_limits s"
    using f by (auto simp: prop_frame_def prop_view_def)
  then show ?thesis
    using r by (auto simp: conflict_state_def conflict_at_def falsified_def inv_def split: option.splits)
qed

lemma empty_inv: "inv {} (empty_solver h)"
proof -
  have "settled {} (empty_solver h)" using initial_ok [of exact_floats default_config h] by (simp add: solver_ok_def)
  moreover have "watch_sem (s_head (empty_solver h)) (empty_solver h)"
  proof -
    have c: "s_clauses (empty_solver h) = []" "s_binaries (empty_solver h) = []" by (simp_all add: solver_with_config_def)
    have "\<not> live (empty_solver h) c" for c by (cases c) (simp_all add: live_def c)
    then show ?thesis by (simp add: watch_sem_def)
  qed
  ultimately show ?thesis by (simp add: settled_def inv_def)
qed

theorem propagation_complete_witness:
  "\<exists>s'. propagate (empty_solver (\<lambda>_. False)) = (None, s') \<and> inv {} s'"
proof -
  let ?s = "empty_solver (\<lambda>_. False)"
  obtain r s' where p: "propagate ?s = (r, s')" by fastforce
  note k = propagation_complete [OF empty_inv p]
  have "r = None"
  proof (cases r)
    case (Some c)
    then have "live s' c" "prop_frame ?s s'" using k propagate_ok [OF empty_inv, of "\<lambda>_. False"] p by (auto simp: prop_result_def)
    then have "valid ?s c" using prop_frame_valid by (auto simp: live_def)
    then show ?thesis by (cases c) (simp_all add: solver_with_config_def)
  qed
  then show ?thesis using k p by auto
qed

text \<open>
  C19: backtracking to a lower level takes back exactly the assignments of the higher levels: the
  trail becomes its part up to the level, the literals assigned at or below the level keep their
  value, level and reason, all others become unassigned, and the invariant holds again.
\<close>

theorem backtrack_exact:
  assumes "inv G s" "k < decision_level s"
  shows "s_trail (cancel_until k s) = take (s_trail_limits s ! k) (s_trail s)
    \<and> decision_level (cancel_until k s) = k
    \<and> (\<forall>l \<in> set (s_trail s). literal_value (cancel_until k s) l = (if level_of s l \<le> k then 1 else 0))
    \<and> (\<forall>l \<in> set (s_trail (cancel_until k s)). level_of (cancel_until k s) l = level_of s l
          \<and> reason_of (cancel_until k s) l = reason_of s l)
    \<and> inv G (cancel_until k s)"
proof -
  have b: "base_ok G s" and t: "trail_ok s" using assms(1) by (simp_all add: inv_def base_ok_def)
  note f = cancel_fields [OF b assms(2)]
  let ?m = "s_trail_limits s ! k"
  have "literal_value (cancel_until k s) l = (if level_of s l \<le> k then 1 else 0)" if l: "l \<in> set (s_trail s)" for l
  proof -
    have lo: "lit_ok s l" "literal_value s l = 1" using t l by (simp_all add: trail_ok_def lit_t_def)
    have d: "distinct (map lit_var (take ?m (s_trail s) @ drop ?m (s_trail s)))" using t by (simp add: trail_ok_def)
    have "var_index (lit_var l) \<in> vars_of (drop ?m (s_trail s)) \<longleftrightarrow> l \<notin> set (take ?m (s_trail s))"
    proof
      assume v: "var_index (lit_var l) \<in> vars_of (drop ?m (s_trail s))"
      show "l \<notin> set (take ?m (s_trail s))"
        using v d unfolding map_append distinct_append vars_of_def by (auto simp: var_index_eq_iff)
    next
      assume "l \<notin> set (take ?m (s_trail s))"
      then have "l \<in> set (drop ?m (s_trail s))" using l by (metis Un_iff append_take_drop_id set_append)
      then show "var_index (lit_var l) \<in> vars_of (drop ?m (s_trail s))" by (auto simp: vars_of_def)
    qed
    then show ?thesis using f(14) [OF lo(1)] lo(2) cancel_keeps [OF b assms(2) l] by simp
  qed
  then show ?thesis using f(1,15) inv_cancel [OF assms(1)] decision_level_cancel [of k s] assms(2) by simp
qed

theorem backtrack_exact_witness:
  "decision_level (new_level (empty_solver (\<lambda>_. False))) = 1
    \<and> inv {} (cancel_until 0 (new_level (empty_solver (\<lambda>_. False))))"
proof -
  let ?s = "empty_solver (\<lambda>_. False)"
  have h: "s_head ?s = 0" "s_trail ?s = []" "s_trail_limits ?s = []" by (simp_all add: solver_with_config_def)
  have "s_head (new_level ?s) = s_head ?s" by (simp add: new_level_def)
  then have "inv {} (new_level ?s)"
    using empty_inv [of "\<lambda>_. False"] h new_level_base_ok [of "{}" ?s] by (simp add: inv_def new_level_watches)
  moreover have "decision_level (new_level ?s) = 1" by (simp add: decision_level_def new_level_def h)
  ultimately show ?thesis using backtrack_exact [of "{}" "new_level ?s" 0] by simp
qed

text \<open>
  C20: reducing the learned-clause database keeps the whole invariant, so in particular no stored
  clause loses its representative and no clause that is the reason of an assignment disappears,
  and it leaves the decision levels and the marks of the analysis alone.
\<close>

theorem reduction_keeps_invariant:
  assumes "inv G s"
  shows "inv G (reduce_database F s) \<and> coverage_ok G (reduce_database F s) \<and> reasons_ok (reduce_database F s)
    \<and> s_trail_limits (reduce_database F s) = s_trail_limits s \<and> s_seen (reduce_database F s) = s_seen s"
  using reduce_database_ok [OF assms, of F] by (simp add: inv_def base_ok_def)

theorem reduction_keeps_invariant_witness:
  "inv {} (reduce_database exact_floats (empty_solver (\<lambda>_. False)))"
  using reduction_keeps_invariant [OF empty_inv] by blast

end
