(* ===== verification/Command_Line.thy ===== *)
theory Command_Line
  imports Solver_Answers Proof_Writer "HOL-Library.Sublist"
begin

section \<open>The command line\<close>

text \<open>
  The \<open>sat\<close> program of \<open>src/main.rs\<close>: its argument parser, and the run from the bytes of a DIMACS
  file to the printed answer and the exit status. Reading files, the statistics lines, the help
  text and the proof file are left to the system; the floating-point operations and the moment
  of interrupts are parameters as everywhere.
\<close>

subsection \<open>Options\<close>

datatype search_strategy =
  Evsids | Lrb | Transfer | Chb | Vmtf | Focused | ProbeEvsids | ProbeVmtf | FocusedStable

datatype trail_reuse = ReuseNever | ReuseAlways | ReuseAdaptive

text \<open>An \<open>OsString\<close>: a valid string, or bytes that \<open>to_str\<close> rejects.\<close>

datatype os_string = Utf8 string | NotUtf8 "nat list"

record options =
  op_input :: "os_string option"
  op_stats :: bool
  op_model :: bool
  op_minimize :: bool
  op_binary_minimize :: bool
  op_compact_arena :: bool
  op_eliminate :: bool
  op_factor :: bool
  op_factor_macro :: bool
  op_probe :: bool
  op_vivify :: bool
  op_subsume :: bool
  op_binary_fast_path :: bool
  op_restart_policy :: restart_policy
  op_block_restarts :: bool
  op_search_strategy :: search_strategy
  op_tiers :: bool
  op_lbd_free :: bool
  op_scan_debt :: bool
  op_nonregular :: bool
  op_shadow :: bool
  op_counterfactual :: bool
  op_promote_lbd :: bool
  op_chrono :: bool
  op_rephase :: bool
  op_trail_reuse :: trail_reuse
  op_proof :: "os_string option"

datatype action = SolveWith options | Help | Version

definition initial_options :: options where
  "initial_options =
     \<lparr>op_input = None, op_stats = False, op_model = True, op_minimize = True, op_binary_minimize = False,
      op_compact_arena = False, op_eliminate = False, op_factor = False, op_factor_macro = False,
      op_probe = False, op_vivify = False, op_subsume = False, op_binary_fast_path = True,
      op_restart_policy = Luby, op_block_restarts = True, op_search_strategy = Evsids, op_tiers = False,
      op_lbd_free = True, op_scan_debt = False, op_nonregular = False, op_shadow = False,
      op_counterfactual = False, op_promote_lbd = True, op_chrono = True, op_rephase = False,
      op_trail_reuse = ReuseNever, op_proof = None\<rparr>"

text \<open>The options without a value.\<close>

definition flags :: "(string \<times> (options \<Rightarrow> options)) list" where
  "flags =
     [(''--stats'', \<lambda>x. x\<lparr>op_stats := True\<rparr>),
      (''--no-model'', \<lambda>x. x\<lparr>op_model := False\<rparr>),
      (''--no-minimize'', \<lambda>x. x\<lparr>op_minimize := False\<rparr>),
      (''--binary-minimize'', \<lambda>x. x\<lparr>op_binary_minimize := True\<rparr>),
      (''--no-binary-minimize'', \<lambda>x. x\<lparr>op_binary_minimize := False\<rparr>),
      (''--compact-arena'', \<lambda>x. x\<lparr>op_compact_arena := True\<rparr>),
      (''--no-compact-arena'', \<lambda>x. x\<lparr>op_compact_arena := False\<rparr>),
      (''--eliminate'', \<lambda>x. x\<lparr>op_eliminate := True\<rparr>),
      (''--no-eliminate'', \<lambda>x. x\<lparr>op_eliminate := False\<rparr>),
      (''--factor'', \<lambda>x. x\<lparr>op_factor := True, op_factor_macro := False\<rparr>),
      (''--factor-macro'', \<lambda>x. x\<lparr>op_factor := True, op_factor_macro := True\<rparr>),
      (''--no-factor'', \<lambda>x. x\<lparr>op_factor := False, op_factor_macro := False\<rparr>),
      (''--probe'', \<lambda>x. x\<lparr>op_probe := True\<rparr>),
      (''--no-probe'', \<lambda>x. x\<lparr>op_probe := False\<rparr>),
      (''--vivify'', \<lambda>x. x\<lparr>op_vivify := True\<rparr>),
      (''--no-vivify'', \<lambda>x. x\<lparr>op_vivify := False\<rparr>),
      (''--subsume'', \<lambda>x. x\<lparr>op_subsume := True\<rparr>),
      (''--no-subsume'', \<lambda>x. x\<lparr>op_subsume := False\<rparr>),
      (''--no-binary-fast-path'', \<lambda>x. x\<lparr>op_binary_fast_path := False\<rparr>),
      (''--no-tiers'', \<lambda>x. x\<lparr>op_tiers := False\<rparr>),
      (''--tiers'', \<lambda>x. x\<lparr>op_tiers := True\<rparr>),
      (''--lbd-free-reduction'', \<lambda>x. x\<lparr>op_lbd_free := True\<rparr>),
      (''--no-lbd-free-reduction'', \<lambda>x. x\<lparr>op_lbd_free := False\<rparr>),
      (''--scan-debt-reduction'', \<lambda>x. x\<lparr>op_scan_debt := True\<rparr>),
      (''--no-scan-debt-reduction'', \<lambda>x. x\<lparr>op_scan_debt := False\<rparr>),
      (''--nonregular-retention'', \<lambda>x. x\<lparr>op_nonregular := True\<rparr>),
      (''--no-nonregular-retention'', \<lambda>x. x\<lparr>op_nonregular := False\<rparr>),
      (''--shadow-reactivation'', \<lambda>x. x\<lparr>op_shadow := True\<rparr>),
      (''--no-shadow-reactivation'', \<lambda>x. x\<lparr>op_shadow := False\<rparr>),
      (''--counterfactual-phase'', \<lambda>x. x\<lparr>op_counterfactual := True\<rparr>),
      (''--no-counterfactual-phase'', \<lambda>x. x\<lparr>op_counterfactual := False\<rparr>),
      (''--no-lbd-promotion'', \<lambda>x. x\<lparr>op_promote_lbd := False\<rparr>),
      (''--chrono'', \<lambda>x. x\<lparr>op_chrono := True\<rparr>),
      (''--no-chrono'', \<lambda>x. x\<lparr>op_chrono := False\<rparr>),
      (''--rephase'', \<lambda>x. x\<lparr>op_rephase := True\<rparr>),
      (''--no-rephase'', \<lambda>x. x\<lparr>op_rephase := False\<rparr>),
      (''--reuse-trail'', \<lambda>x. x\<lparr>op_trail_reuse := ReuseAlways\<rparr>),
      (''--no-reuse-trail'', \<lambda>x. x\<lparr>op_trail_reuse := ReuseNever\<rparr>)]"

text \<open>The error texts, by the branch that makes them.\<close>

datatype usage_error =
    RestartValue | ReuseValue | SearchValue | ProofPathMissing | ProofTwice | ProofPathEmpty
  | UnknownOption string | SecondInput | Requires string string | Conflicting string string

fun parse_restart_policy :: "os_string \<Rightarrow> usage_error + restart_policy" where
  "parse_restart_policy value =
     (if value = Utf8 ''lbd'' then Inr Lbd
      else if value = Utf8 ''luby'' then Inr Luby
      else Inl RestartValue)"

fun parse_restart_trail_reuse :: "os_string \<Rightarrow> usage_error + trail_reuse" where
  "parse_restart_trail_reuse value =
     (if value = Utf8 ''never'' then Inr ReuseNever
      else if value = Utf8 ''always'' then Inr ReuseAlways
      else if value = Utf8 ''adaptive'' then Inr ReuseAdaptive
      else Inl ReuseValue)"

fun parse_search_strategy :: "os_string \<Rightarrow> usage_error + search_strategy" where
  "parse_search_strategy value =
     (case map_of
        [(''evsids'', Evsids), (''lrb'', Lrb), (''transfer'', Transfer), (''chb'', Chb), (''vmtf'', Vmtf),
         (''focused'', Focused), (''probe-evsids'', ProbeEvsids), (''probe-vmtf'', ProbeVmtf),
         (''focused-stable'', FocusedStable)]
        (case value of Utf8 v \<Rightarrow> v | NotUtf8 _ \<Rightarrow> []) of
        Some strategy \<Rightarrow> Inr strategy
      | None \<Rightarrow> Inl SearchValue)"

text \<open>\<open>str::trim_start_matches\<close> takes the prefix off as often as it is there.\<close>

function trim_start_matches :: "string \<Rightarrow> string \<Rightarrow> string" where
  "trim_start_matches p s =
     (if p \<noteq> [] \<and> prefix p s then trim_start_matches p (drop (length p) s) else s)"
  by pat_completeness auto

termination by (relation "measure (\<lambda>(_, s). length s)") (auto elim!: prefixE)

declare trim_start_matches.simps [simp del]

text \<open>
  The arguments, left to right; \<open>positional\<close> holds after \<open>--\<close>. An option with a value takes the next
  argument.
\<close>

definition set_input :: "os_string \<Rightarrow> options \<Rightarrow> usage_error + options" where
  "set_input path x = (if op_input x \<noteq> None then Inl SecondInput else Inr (x\<lparr>op_input := Some path\<rparr>))"

definition set_proof :: "os_string \<Rightarrow> options \<Rightarrow> usage_error + options" where
  "set_proof path x = (if op_proof x \<noteq> None then Inl ProofTwice else Inr (x\<lparr>op_proof := Some path\<rparr>))"

function (sequential) parse_loop :: "bool \<Rightarrow> os_string list \<Rightarrow> options \<Rightarrow> usage_error + (action + options)" where
  "parse_loop positional [] x = Inr (Inr x)"
| "parse_loop False (Utf8 s # rest) x =
     (if s = ''--help'' \<or> s = ''-h'' then Inr (Inl Help)
      else if s = ''--version'' \<or> s = ''-V'' then Inr (Inl Version)
      else case map_of flags s of
        Some f \<Rightarrow> parse_loop False rest (f x)
      | None \<Rightarrow>
          if prefix ''--reuse-trail='' s then
            bindE (parse_restart_trail_reuse (Utf8 (trim_start_matches ''--reuse-trail='' s)))
              (\<lambda>v. parse_loop False rest (x\<lparr>op_trail_reuse := v\<rparr>))
          else if s = ''--restart'' then
            (case rest of
               [] \<Rightarrow> Inl RestartValue
             | value # rest' \<Rightarrow>
                 bindE (parse_restart_policy value) (\<lambda>v. parse_loop False rest' (x\<lparr>op_restart_policy := v\<rparr>)))
          else if s = ''--no-block-restarts'' then parse_loop False rest (x\<lparr>op_block_restarts := False\<rparr>)
          else if s = ''--search'' then
            (case rest of
               [] \<Rightarrow> Inl SearchValue
             | value # rest' \<Rightarrow>
                 bindE (parse_search_strategy value) (\<lambda>v. parse_loop False rest' (x\<lparr>op_search_strategy := v\<rparr>)))
          else if prefix ''--search='' s then
            bindE (parse_search_strategy (Utf8 (trim_start_matches ''--search='' s)))
              (\<lambda>v. parse_loop False rest (x\<lparr>op_search_strategy := v\<rparr>))
          else if prefix ''--restart='' s then
            bindE (parse_restart_policy (Utf8 (trim_start_matches ''--restart='' s)))
              (\<lambda>v. parse_loop False rest (x\<lparr>op_restart_policy := v\<rparr>))
          else if s = ''--proof'' then
            (case rest of
               [] \<Rightarrow> Inl ProofPathMissing
             | path # rest' \<Rightarrow> bindE (set_proof path x) (parse_loop False rest'))
          else if prefix ''--proof='' s then
            (let path = trim_start_matches ''--proof='' s
             in if path = [] then Inl ProofPathEmpty
                else bindE (set_proof (Utf8 path) x) (parse_loop False rest))
          else if s = ''--'' then parse_loop True rest x
          else if prefix ''-'' s \<and> s \<noteq> ''-'' then Inl (UnknownOption s)
          else bindE (set_input (Utf8 s) x) (parse_loop False rest))"
| "parse_loop positional (argument # rest) x = bindE (set_input argument x) (parse_loop positional rest)"
  by pat_completeness auto

termination by (relation "measure (\<lambda>(_, arguments, _). length arguments)") auto

text \<open>The combinations that are refused.\<close>

definition check_options :: "options \<Rightarrow> usage_error + options" where
  "check_options x =
     (if op_scan_debt x \<and> \<not> op_lbd_free x then Inl (Requires ''--scan-debt-reduction'' ''--lbd-free-reduction'')
      else if op_nonregular x \<and> \<not> op_lbd_free x then Inl (Requires ''--nonregular-retention'' ''--lbd-free-reduction'')
      else if op_nonregular x \<and> op_scan_debt x then Inl (Conflicting ''--nonregular-retention'' ''--scan-debt-reduction'')
      else if op_shadow x \<and> \<not> op_lbd_free x then Inl (Requires ''--shadow-reactivation'' ''--lbd-free-reduction'')
      else if op_shadow x \<and> op_scan_debt x then Inl (Conflicting ''--shadow-reactivation'' ''--scan-debt-reduction'')
      else if op_shadow x \<and> op_nonregular x then Inl (Conflicting ''--shadow-reactivation'' ''--nonregular-retention'')
      else if op_shadow x \<and> op_trail_reuse x \<noteq> ReuseNever then Inl (Requires ''--shadow-reactivation'' ''--reuse-trail=never'')
      else if op_shadow x \<and> op_compact_arena x then Inl (Conflicting ''--shadow-reactivation'' ''--compact-arena'')
      else if op_counterfactual x \<and> \<not> op_lbd_free x then Inl (Requires ''--counterfactual-phase'' ''--lbd-free-reduction'')
      else if op_counterfactual x \<and> op_scan_debt x then Inl (Conflicting ''--counterfactual-phase'' ''--scan-debt-reduction'')
      else if op_counterfactual x \<and> op_nonregular x then Inl (Conflicting ''--counterfactual-phase'' ''--nonregular-retention'')
      else if op_counterfactual x \<and> op_shadow x then Inl (Conflicting ''--counterfactual-phase'' ''--shadow-reactivation'')
      else if op_counterfactual x \<and> op_trail_reuse x \<noteq> ReuseNever then Inl (Requires ''--counterfactual-phase'' ''--reuse-trail=never'')
      else if op_counterfactual x \<and> op_compact_arena x then Inl (Conflicting ''--counterfactual-phase'' ''--compact-arena'')
      else if op_counterfactual x \<and> op_rephase x then Inl (Conflicting ''--counterfactual-phase'' ''--rephase'')
      else Inr x)"

definition parse_args :: "os_string list \<Rightarrow> usage_error + action" where
  "parse_args arguments =
     bindE (parse_loop False arguments initial_options) (\<lambda>r. case r of
       Inl action \<Rightarrow> Inr action
     | Inr x \<Rightarrow> bindE (check_options x) (\<lambda>y. Inr (SolveWith y)))"

subsection \<open>The run\<close>

definition SAT_EXIT :: nat where "SAT_EXIT = 10"

definition UNSAT_EXIT :: nat where "UNSAT_EXIT = 20"

text \<open>
  The solver configuration of the options. The strategies that the solver model leaves out must
  be at their defaults.
\<close>

definition standard_search :: "options \<Rightarrow> bool" where
  "standard_search x \<longleftrightarrow>
     x = initial_options\<lparr>op_input := op_input x, op_stats := op_stats x, op_model := op_model x, op_proof := op_proof x,
       op_minimize := op_minimize x, op_binary_fast_path := op_binary_fast_path x,
       op_restart_policy := op_restart_policy x, op_block_restarts := op_block_restarts x, op_chrono := op_chrono x\<rparr>"

definition options_config :: "options \<Rightarrow> solver_config" where
  "options_config x =
     \<lparr>minimize_learned_clauses = op_minimize x, binary_fast_path = op_binary_fast_path x,
      restart_policy = op_restart_policy x, block_lbd_restarts = op_block_restarts x,
      chronological_backtracking = op_chrono x\<rparr>"

text \<open>The standard formatting of an \<open>i64\<close>.\<close>

definition integer_text :: "int \<Rightarrow> string" where
  "integer_text n = (if n < 0 then ''-'' else []) @ decimal (nat \<bar>n\<bar>)"

fun write_values :: "nat \<Rightarrow> bool list \<Rightarrow> string option" where
  "write_values index [] = Some []"
| "write_values index (value # values) =
     (let start = (if index mod 16 = 0 then (if index > 0 then '' 0'' @ [newline] else []) @ ''v'' else []);
          variable = int (index + 1)
      in if variable > 2 ^ 63 - 1 then None
         else map_option (\<lambda>more. start @ '' '' @ integer_text (if value then variable else - variable) @ more)
                (write_values (index + 1) values))"

text \<open>\<open>None\<close> is the error \<open>model is too large\<close>.\<close>

definition write_model :: "bool list \<Rightarrow> string option" where
  "write_model m =
     (if m = [] then Some (''v 0'' @ [newline])
      else map_option (\<lambda>text. text @ '' 0'' @ [newline]) (write_values 0 m))"

datatype run_error = InputError parse_failure | ModelTooLarge

text \<open>The output of an answer, with the exit status.\<close>

definition report :: "options \<Rightarrow> solve_result \<Rightarrow> run_error + (string \<times> nat)" where
  "report x result =
     (case result of
        Sat m \<Rightarrow>
          if op_model x then
            (case write_model m of
               None \<Rightarrow> Inl ModelTooLarge
             | Some text \<Rightarrow> Inr (''s SATISFIABLE'' @ [newline] @ text, SAT_EXIT))
          else Inr (''s SATISFIABLE'' @ [newline], SAT_EXIT)
      | Unsat \<Rightarrow> Inr (''s UNSATISFIABLE'' @ [newline], UNSAT_EXIT)
      | Unknown _ \<Rightarrow> Inr (''s UNKNOWN'' @ [newline], 0))"

text \<open>
  From the bytes of the input to the answer of the solver. \<open>None\<close> is a panic, or a search that
  does not end.
\<close>

definition load_formula :: "'f::linorder float_ops \<Rightarrow> formula \<Rightarrow> 'f solver \<Rightarrow> 'f solver option" where
  "load_formula F f s =
     (case try_reserve_variables F (variable_count f) s of
        (Inl _, _) \<Rightarrow> None
      | (Inr _, s1) \<Rightarrow> Some (fold (\<lambda>c s. snd (try_add_clause F c s)) (clauses f) s1))"

definition run_solve ::
  "'f::linorder float_ops \<Rightarrow> options \<Rightarrow> (nat \<Rightarrow> bool) \<Rightarrow> string \<Rightarrow> (run_error + (string \<times> nat)) option" where
  "run_solve F x interrupt bytes =
     (case parse bytes of
        Inl e \<Rightarrow> Some (Inl (InputError e))
      | Inr f \<Rightarrow>
          Option.bind (load_formula F f (solver_with_config F (options_config x) interrupt)) (\<lambda>s.
          Option.bind (solve_assuming_with_limits F [] \<lparr>limit_conflicts = None, limit_propagations = None\<rparr> s) (\<lambda>(result, _).
          Some (report x result))))"

subsection \<open>Answers are right\<close>

lemma add_all_ok:
  assumes "solver_ok G s" "s_scope_selectors s = []" "list_all (list_all (lit_in_range (nvars s))) cs"
  shows "solver_ok (G \<union> set cs) (fold (\<lambda>c s. snd (try_add_clause F c s)) cs s)
    \<and> s_scope_selectors (fold (\<lambda>c s. snd (try_add_clause F c s)) cs s) = []
    \<and> nvars (fold (\<lambda>c s. snd (try_add_clause F c s)) cs s) = nvars s"
  using assms
proof (induction cs arbitrary: G s)
  case (Cons c cs)
  obtain r s1 where e: "add_clause_internal F c True True FormulaClause s = (r, s1)" by fastforce
  note a = add_clause_internal_ok [OF Cons.prems(1) e]
  have g: "guarded_clause True (s_scope_selectors s) c = c" by (simp add: guarded_clause_def Cons.prems(2))
  have 1: "solver_ok (insert c G) s1" using a(1) ready_solver_ok by (auto simp: g)
  have 2: "s_scope_selectors s1 = []" using a(3) Cons.prems(2) by simp
  have "needed c (nvars s) \<le> nvars s" using Cons.prems(3) by (simp add: needed_less list_all_iff lit_in_range_def)
  then have 3: "nvars s1 = nvars s" using a(7) needed_append [of "nvars s" c] by (simp add: g)
  have "list_all (list_all (lit_in_range (nvars s1))) cs" using Cons.prems(3) 3 by simp
  from Cons.IH [OF 1 2 this] show ?case using 3 e by (simp add: try_add_clause_def)
qed simp

lemma parsed_wf: "parse bytes = Inr f \<Longrightarrow> wf_formula f"
  by (erule parse_Inr) (auto simp: wf_formula_def dest: parse_clauses_in_range)

lemma load_formula_ok:
  assumes "wf_formula f"
  shows "\<exists>s. load_formula F f (solver_with_config F config interrupt) = Some s
    \<and> solver_ok (set (clauses f)) s \<and> s_scope_selectors s = [] \<and> s_variable_count s = variable_count f"
proof -
  let ?s0 = "solver_with_config F config interrupt"
  have k: "solver_ok {} ?s0" by (rule initial_ok)
  have z: "nvars ?s0 = 0" "s_scope_selectors ?s0 = []" by (simp_all add: solver_with_config_def nvars_def)
  have m: "variable_count f \<le> MAX_VARIABLES" using assms by (simp add: wf_formula_def)
  note t = try_reserve_ok [OF k, of F "variable_count f"]
  obtain s1 where s1: "try_reserve_variables F (variable_count f) ?s0 = (Inr (), s1)" "solver_ok {} s1"
    "s_scope_selectors s1 = []" "nvars s1 = variable_count f"
  proof (cases "variable_count f = 0")
    case True
    then show ?thesis using that t k z by simp
  next
    case False
    then have n: "nvars ?s0 < variable_count f" using z by simp
    note e = enlarged_ok [OF k n m, of F]
    show ?thesis using that [of "enlarged F (variable_count f) ?s0"] t n m e(2,3,6) z by simp
  qed
  let ?t = "fold (\<lambda>c s. snd (try_add_clause F c s)) (clauses f) s1"
  have "list_all (list_all (lit_in_range (nvars s1))) (clauses f)" using assms s1(4) by (simp add: wf_formula_def)
  from add_all_ok [OF s1(2,3) this, of F]
  have k: "solver_ok (set (clauses f)) ?t" "s_scope_selectors ?t = []" "nvars ?t = variable_count f"
    using s1(4) by simp_all
  then show ?thesis using s1(1) variable_count(1) [OF k(1)] by (simp add: load_formula_def)
qed



subsection \<open>The printed model\<close>

text \<open>The words of a text, as the consumers of the output see them.\<close>

fun words_from :: "string \<Rightarrow> string \<Rightarrow> string list" where
  "words_from w [] = (if w = [] then [] else [w])"
| "words_from w (c # cs) =
     (if is_ascii_whitespace c then (if w = [] then words_from [] cs else w # words_from [] cs)
      else words_from (w @ [c]) cs)"

definition value_words :: "string \<Rightarrow> string list" where
  "value_words text = filter (\<lambda>w. w \<noteq> ''v'' \<and> w \<noteq> ''0'') (words_from [] text)"

text \<open>The DIMACS literals that a model makes true.\<close>

definition model_numbers :: "nat \<Rightarrow> bool list \<Rightarrow> int list" where
  "model_numbers start m = map (\<lambda>i. if m ! i then int (start + i + 1) else - int (start + i + 1)) [0..<length m]"

lemma model_numbers_simps:
  "model_numbers i [] = []"
  "model_numbers i (v # vs) = (if v then int (i + 1) else - int (i + 1)) # model_numbers (i + 1) vs"
  by (simp_all add: model_numbers_def upt_conv_Cons map_Suc_upt [symmetric] comp_def del: upt_Suc)

lemma words_from_word: "\<not> list_ex is_ascii_whitespace u \<Longrightarrow> words_from w (u @ r) = words_from (w @ u) r"
  by (induction u arbitrary: w) auto

lemma integer_text_word:
  "\<not> list_ex is_ascii_whitespace (integer_text n)" "integer_text n \<noteq> []"
  "n \<noteq> 0 \<Longrightarrow> integer_text n \<noteq> ''0''" "integer_text n \<noteq> ''v''"
proof -
  have d: "c \<noteq> CHR ''v''" "\<not> is_ascii_whitespace c" if "c \<in> set (decimal k)" for c k
  proof -
    have "is_ascii_digit c" using decimal_digits [of k] that by (simp add: list_all_iff)
    then show "\<not> is_ascii_whitespace c" "c \<noteq> CHR ''v''" using digit_not_special(5) by (auto simp: is_ascii_digit_def)
  qed
  show "\<not> list_ex is_ascii_whitespace (integer_text n)"
    using d(2) by (auto simp: integer_text_def list_ex_iff is_ascii_whitespace_def newline_def)
  show "integer_text n \<noteq> []" by (simp add: integer_text_def)
  show "integer_text n \<noteq> ''v''" using d(1) [of _ "nat \<bar>n\<bar>"] by (cases "n < 0") (auto simp: integer_text_def)
  assume n: "n \<noteq> 0"
  show "integer_text n \<noteq> ''0''"
  proof
    assume e: "integer_text n = ''0''"
    then have "decimal (nat \<bar>n\<bar>) = ''0''" by (simp add: integer_text_def split: if_splits)
    then have "nat \<bar>n\<bar> = decimal_value ''0''" using decimal_value_decimal [of "nat \<bar>n\<bar>"] by simp
    then show False using n by (simp add: decimal_value_def digit_value_def)
  qed
qed

lemma words_from_break:
  "is_ascii_whitespace c \<Longrightarrow> words_from w (c # r) = (if w = [] then [] else [w]) @ words_from [] r"
  by simp

lemma write_values_words:
  "write_values i m = Some out \<Longrightarrow> (i = 0) = (w = []) \<Longrightarrow>
   filter (\<lambda>w. w \<noteq> ''v'' \<and> w \<noteq> ''0'') (words_from w (out @ '' 0'' @ [newline]))
     = (if w = [] then [] else filter (\<lambda>w. w \<noteq> ''v'' \<and> w \<noteq> ''0'') [w]) @ map integer_text (model_numbers i m)"
proof (induction i m arbitrary: out w rule: write_values.induct)
  case (1 i)
  then show ?case by (simp add: model_numbers_simps newline_def is_ascii_whitespace_def)
next
  case (2 i v m)
  let ?n = "if v then int (i + 1) else - int (i + 1)"
  let ?P = "\<lambda>w. w \<noteq> ''v'' \<and> w \<noteq> ''0''"
  have b: "\<not> int (i + 1) > 2 ^ 63 - 1" using 2(2) by (auto simp: Let_def)
  obtain more where more: "write_values (i + 1) m = Some more"
    "out = (if i mod 16 = 0 then (if i > 0 then '' 0'' @ [newline] else []) @ ''v'' else []) @ '' '' @ integer_text ?n @ more"
    using 2(2) b by (auto simp: Let_def)
  note it = integer_text_word [of ?n]
  have P: "?P (integer_text ?n)" using it(3,4) by simp
  have ih: "filter ?P (words_from (integer_text ?n) (more @ '' 0'' @ [newline]))
      = integer_text ?n # map integer_text (model_numbers (i + 1) m)"
    using "2.IH" [OF refl refl b more(1), of "integer_text ?n"] it(2) P by simp
  have num: "words_from [] (integer_text ?n @ r) = words_from (integer_text ?n) r" for r
    using words_from_word [OF it(1), of "[]"] by simp
  have ws: "is_ascii_whitespace (CHR '' '')" "is_ascii_whitespace newline" "\<not> is_ascii_whitespace (CHR ''v'')"
    "\<not> is_ascii_whitespace (CHR ''0'')" by (simp_all add: is_ascii_whitespace_def newline_def)
  have out: "out @ r = (if i mod 16 = 0 then (if i > 0 then '' 0'' @ [newline] else []) @ ''v'' else []) @ '' '' @ integer_text ?n @ more @ r" for r
    unfolding more(2) by simp
  show ?case
    unfolding out model_numbers_simps
    using 2(3) ws ih by (cases "i mod 16 = 0"; cases "i = 0") (simp_all add: num)
qed

text \<open>
  the printed model can be read back: its text splits into words, and those other than the line
  marks \<open>v\<close> and \<open>0\<close> are, in order, the decimal texts of the literals that the model makes true,
  one for each variable.
\<close>

theorem printed_model_complete:
  "case write_model m of
     None \<Rightarrow> 2 ^ 63 \<le> length m
   | Some out \<Rightarrow> value_words out = map integer_text (model_numbers 0 m)"
proof (cases "m = []")
  case True
  then show ?thesis by (simp add: write_model_def value_words_def model_numbers_simps is_ascii_whitespace_def newline_def)
next
  case False
  have too_large: "write_values i m = None \<Longrightarrow> 2 ^ 63 \<le> i + length m" for i m
    by (induction i m rule: write_values.induct) (auto simp: Let_def split: if_splits)
  show ?thesis
    using too_large [of 0 m] write_values_words [of 0 m _ "[]"] False
    by (auto simp: write_model_def value_words_def split: option.splits)
qed

subsection \<open>Arguments\<close>


text \<open>
  After \<open>--\<close> nothing is an option any more: the next argument, whatever it looks like, is the
  input path, and a second one is an error.
\<close>

theorem positional_arguments:
  "parse_args (Utf8 ''--'' # arguments) =
     (case arguments of
        [] \<Rightarrow> Inr (SolveWith initial_options)
      | [path] \<Rightarrow> Inr (SolveWith (initial_options\<lparr>op_input := Some path\<rparr>))
      | _ \<Rightarrow> Inl SecondInput)"
proof -
  have c: "check_options (initial_options\<lparr>op_input := p\<rparr>) = Inr (initial_options\<lparr>op_input := p\<rparr>)" for p
    by (simp add: check_options_def initial_options_def)
  have i: "op_input initial_options = None" "initial_options\<lparr>op_input := None\<rparr> = initial_options"
    by (simp_all add: initial_options_def)
  have "parse_loop False (Utf8 ''--'' # arguments) initial_options = parse_loop True arguments initial_options"
    by (simp add: flags_def)
  then show ?thesis
    using c [of None] c i by (auto simp: parse_args_def set_input_def split: list.split)
qed

end
