(* ===== verification/Smt_Linear.thy ===== *)
theory Smt_Linear
  imports Prelude
begin

section \<open>Affine expressions\<close>

text \<open>
  \<open>LinearExpression\<close> of \<open>src/smt/arithmetic.rs\<close>: a constant and a \<open>BTreeMap\<close> from variables to
  coefficients. The map is the list of its entries in ascending order of the variables;
  \<open>BigRational\<close> and \<open>BigInt\<close> are the unbounded \<open>rat\<close> and \<open>int\<close>. The lemmas show what every
  operation computes, that it keeps the canonical form (sorted, no zero coefficient), and that
  canonical expressions with the same values are equal, which is what makes comparing and
  hashing expressions meaningful.
\<close>

subsection \<open>The operations\<close>

record lin_expr =
  le_constant :: rat
  le_coefficients :: "(nat \<times> rat) list"

definition le_zero :: lin_expr where
  "le_zero = \<lparr>le_constant = 0, le_coefficients = []\<rparr>"

definition le_const :: "rat \<Rightarrow> lin_expr" where
  "le_const c = \<lparr>le_constant = c, le_coefficients = []\<rparr>"

definition le_variable :: "nat \<Rightarrow> lin_expr" where
  "le_variable v = \<lparr>le_constant = 0, le_coefficients = [(v, 1)]\<rparr>"

definition le_is_constant :: "lin_expr \<Rightarrow> bool" where
  "le_is_constant e \<longleftrightarrow> le_coefficients e = []"

text \<open>\<open>get\<close>, \<open>remove\<close> and \<open>insert\<close> of the ordered map.\<close>

definition btree_get :: "(nat \<times> rat) list \<Rightarrow> nat \<Rightarrow> rat" where
  "btree_get m v = (case map_of m v of None \<Rightarrow> 0 | Some c \<Rightarrow> c)"

definition btree_remove :: "nat \<Rightarrow> (nat \<times> rat) list \<Rightarrow> (nat \<times> rat) list" where
  "btree_remove v m = filter (\<lambda>(u, _). u \<noteq> v) m"

fun btree_insert :: "nat \<Rightarrow> rat \<Rightarrow> (nat \<times> rat) list \<Rightarrow> (nat \<times> rat) list" where
  "btree_insert v c [] = [(v, c)]"
| "btree_insert v c ((u, d) # m) =
     (if v < u then (v, c) # (u, d) # m
      else if v = u then (v, c) # m
      else (u, d) # btree_insert v c m)"

fun add_coefficients :: "rat \<Rightarrow> (nat \<times> rat) list \<Rightarrow> (nat \<times> rat) list \<Rightarrow> (nat \<times> rat) list" where
  "add_coefficients scale [] m = m"
| "add_coefficients scale ((v, c) # others) m =
     (let updated = btree_get m v + c * scale
      in add_coefficients scale others
           (if updated = 0 then btree_remove v m else btree_insert v updated m))"

definition le_add_scaled :: "lin_expr \<Rightarrow> rat \<Rightarrow> lin_expr \<Rightarrow> lin_expr" where
  "le_add_scaled other scale e =
     \<lparr>le_constant = le_constant e + le_constant other * scale,
      le_coefficients = add_coefficients scale (le_coefficients other) (le_coefficients e)\<rparr>"

definition le_sum :: "lin_expr list \<Rightarrow> lin_expr" where
  "le_sum es = foldl (\<lambda>r e. le_add_scaled e 1 r) le_zero es"

definition le_scaled :: "rat \<Rightarrow> lin_expr \<Rightarrow> lin_expr" where
  "le_scaled scale e =
     (if scale = 0 then le_zero
      else \<lparr>le_constant = le_constant e * scale,
            le_coefficients = map (\<lambda>(v, c). (v, c * scale)) (le_coefficients e)\<rparr>)"

definition le_evaluate :: "lin_expr \<Rightarrow> (nat \<Rightarrow> rat) \<Rightarrow> rat" where
  "le_evaluate e value = foldl (\<lambda>sum (v, c). sum + c * value v) (le_constant e) (le_coefficients e)"

subsection \<open>Canonical form and values\<close>

definition canonical :: "lin_expr \<Rightarrow> bool" where
  "canonical e \<longleftrightarrow> sorted_wrt (<) (map fst (le_coefficients e)) \<and> (\<forall>(v, c) \<in> set (le_coefficients e). c \<noteq> 0)"

abbreviation ordered_map :: "(nat \<times> rat) list \<Rightarrow> bool" where
  "ordered_map m \<equiv> sorted_wrt (<) (map fst m) \<and> (\<forall>(v, c) \<in> set m. c \<noteq> 0)"

definition map_value :: "(nat \<Rightarrow> rat) \<Rightarrow> (nat \<times> rat) list \<Rightarrow> rat" where
  "map_value \<rho> m = (\<Sum>(v, c) \<leftarrow> m. c * \<rho> v)"

lemma le_evaluate_eq: "le_evaluate e \<rho> = le_constant e + map_value \<rho> (le_coefficients e)"
proof -
  have "foldl (\<lambda>sum (v, c). sum + c * \<rho> v) a m = a + map_value \<rho> m" for a m
    by (induction m arbitrary: a) (auto simp: map_value_def)
  then show ?thesis by (simp add: le_evaluate_def)
qed

lemma map_value_simps [simp]:
  "map_value \<rho> [] = 0" "map_value \<rho> ((v, c) # m) = c * \<rho> v + map_value \<rho> m"
  by (simp_all add: map_value_def)

lemma btree_get_Cons: "btree_get ((u, d) # m) v = (if u = v then d else btree_get m v)"
  by (simp add: btree_get_def)

lemma btree_get_above: "\<forall>x \<in> set m. v < fst x \<Longrightarrow> btree_get m v = 0"
  by (auto simp: btree_get_def split: option.splits dest!: map_of_SomeD)

lemma btree_remove_absent: "\<forall>x \<in> set m. v < fst x \<Longrightarrow> btree_remove v m = m"
  by (auto simp: btree_remove_def intro!: filter_True)

lemma set_btree_insert: "set (btree_insert v c m) \<subseteq> insert (v, c) (set m)"
  by (induction v c m rule: btree_insert.induct) auto

lemma btree_insert_ordered: "ordered_map m \<Longrightarrow> c \<noteq> 0 \<Longrightarrow> ordered_map (btree_insert v c m)"
proof (induction v c m rule: btree_insert.induct)
  case (2 v c u d m)
  consider "v < u" | "v = u" | "u < v" by linarith
  then show ?case
  proof cases
    case 3
    have "\<forall>x \<in> set (btree_insert v c m). u < fst x"
      using 3 "2.prems"(1) set_btree_insert [of v c m] by fastforce
    then show ?thesis using 2 3 by simp
  qed (use 2 in fastforce)+
qed simp

lemma btree_insert_value:
  "ordered_map m \<Longrightarrow> map_value \<rho> (btree_insert v c m) = map_value \<rho> m + (c - btree_get m v) * \<rho> v"
proof (induction v c m rule: btree_insert.induct)
  case (2 v c u d m)
  then show ?case
    using btree_get_above [of "(u, d) # m" v] by (force simp: btree_get_Cons algebra_simps)
qed (simp add: btree_get_def)

lemma btree_remove_ordered: "ordered_map m \<Longrightarrow> ordered_map (btree_remove v m)"
  by (auto simp: btree_remove_def sorted_wrt_map sorted_wrt_filter)

lemma btree_remove_value:
  "ordered_map m \<Longrightarrow> map_value \<rho> (btree_remove v m) = map_value \<rho> m - btree_get m v * \<rho> v"
proof (induction m)
  case (Cons x m)
  obtain u d where x: "x = (u, d)" by fastforce
  show ?case
  proof (cases "u = v")
    case True
    then have "\<forall>x \<in> set m. v < fst x" using Cons.prems x by simp
    then have "btree_remove v m = m" by (rule btree_remove_absent)
    then show ?thesis using x True by (simp add: btree_remove_def btree_get_Cons)
  next
    case False
    then have "btree_remove v (x # m) = x # btree_remove v m" by (simp add: x btree_remove_def)
    then show ?thesis using Cons x False by (simp add: btree_get_Cons)
  qed
qed (simp add: btree_remove_def btree_get_def)

lemma add_coefficients_ok:
  "ordered_map m \<Longrightarrow>
   ordered_map (add_coefficients k os m)
   \<and> map_value \<rho> (add_coefficients k os m) = map_value \<rho> m + k * map_value \<rho> os"
proof (induction k os m rule: add_coefficients.induct)
  case (2 scale v c others m)
  let ?u = "btree_get m v + c * scale"
  let ?m = "if ?u = 0 then btree_remove v m else btree_insert v ?u m"
  have o: "ordered_map ?m"
    using btree_remove_ordered [OF "2.prems"] btree_insert_ordered [OF "2.prems"] by simp
  have val: "map_value \<rho> ?m = map_value \<rho> m + scale * (c * \<rho> v)"
  proof (cases "?u = 0")
    case True
    then have g: "btree_get m v = - (c * scale)" by linarith
    have "map_value \<rho> ?m = map_value \<rho> m - btree_get m v * \<rho> v"
      using True btree_remove_value [OF "2.prems"] by simp
    then show ?thesis unfolding g by simp
  next
    case False
    then have "map_value \<rho> ?m = map_value \<rho> m + (?u - btree_get m v) * \<rho> v"
      using btree_insert_value [OF "2.prems", of \<rho> v ?u] by simp
    then show ?thesis by simp
  qed
  have "add_coefficients scale ((v, c) # others) m = add_coefficients scale others ?m" by (simp add: Let_def)
  then show ?case using "2.IH" [OF refl o] val by (simp only:) (simp add: algebra_simps)
qed simp

lemma canonical_simps [simp]: "canonical le_zero" "canonical (le_const c)" "canonical (le_variable v)"
  by (simp_all add: canonical_def le_zero_def le_const_def le_variable_def)

lemma evaluate_simps [simp]:
  "le_evaluate le_zero \<rho> = 0" "le_evaluate (le_const c) \<rho> = c" "le_evaluate (le_variable v) \<rho> = \<rho> v"
  by (simp_all add: le_evaluate_eq le_zero_def le_const_def le_variable_def)

lemma canonical_add_scaled: "canonical e \<Longrightarrow> canonical (le_add_scaled d k e)"
  using add_coefficients_ok [of "le_coefficients e" k "le_coefficients d"]
  by (simp add: canonical_def le_add_scaled_def)

lemma evaluate_add_scaled:
  "canonical e \<Longrightarrow> le_evaluate (le_add_scaled d k e) \<rho> = le_evaluate e \<rho> + k * le_evaluate d \<rho>"
  using add_coefficients_ok [of "le_coefficients e" k "le_coefficients d" \<rho>]
  by (simp add: canonical_def le_evaluate_eq le_add_scaled_def algebra_simps)

lemma canonical_scaled: "canonical e \<Longrightarrow> canonical (le_scaled k e)"
  by (auto simp: canonical_def le_scaled_def le_zero_def comp_def case_prod_unfold)

lemma evaluate_scaled: "le_evaluate (le_scaled k e) \<rho> = k * le_evaluate e \<rho>"
proof -
  have "map_value \<rho> (map (\<lambda>(v, c). (v, c * k)) m) = k * map_value \<rho> m" for m
    by (induction m) (auto simp: algebra_simps)
  then show ?thesis by (simp add: le_evaluate_eq le_scaled_def le_zero_def algebra_simps)
qed

lemma sum_ok:
  "canonical (le_sum es) \<and> le_evaluate (le_sum es) \<rho> = (\<Sum>e \<leftarrow> es. le_evaluate e \<rho>)"
proof -
  have "canonical r \<Longrightarrow> canonical (foldl (\<lambda>r e. le_add_scaled e 1 r) r es)
    \<and> le_evaluate (foldl (\<lambda>r e. le_add_scaled e 1 r) r es) \<rho> = le_evaluate r \<rho> + (\<Sum>e \<leftarrow> es. le_evaluate e \<rho>)" for r
    by (induction es arbitrary: r) (simp_all add: canonical_add_scaled evaluate_add_scaled)
  from this [of le_zero] show ?thesis by (simp add: le_sum_def)
qed

text \<open>Canonical expressions are determined by their values.\<close>

lemma ordered_map_eq:
  "ordered_map m \<Longrightarrow> ordered_map n \<Longrightarrow> (\<And>\<rho>. map_value \<rho> m = map_value \<rho> n) \<Longrightarrow> m = n"
proof -
  have get: "map_value (\<lambda>u. if u = v then 1 else 0) m = btree_get m v" if "ordered_map m" for m :: "(nat \<times> rat) list" and v
    using that
  proof (induction m)
    case (Cons x m)
    obtain u d where x: "x = (u, d)" by fastforce
    have "u = v \<Longrightarrow> btree_get m v = 0" using Cons.prems x by (intro btree_get_above) simp
    then show ?case using Cons x by (simp add: btree_get_Cons)
  qed (simp add: btree_get_def)
  assume o: "ordered_map m" "ordered_map n" and e: "\<And>\<rho>. map_value \<rho> m = map_value \<rho> n"
  have g: "btree_get m v = btree_get n v" for v using get [OF o(1)] get [OF o(2)] e by metis
  have mem: "(v, c) \<in> set k \<longleftrightarrow> c \<noteq> 0 \<and> btree_get k v = c" if "ordered_map k" for k :: "(nat \<times> rat) list" and v c
  proof -
    have d: "distinct (map fst k)" using that strict_sorted_iff by blast
    show ?thesis
      using that map_of_eq_Some_iff [OF d, of v c] by (force simp: btree_get_def split: option.splits)
  qed
  have "set m = set n" using mem [OF o(1)] mem [OF o(2)] g by auto
  moreover have "distinct (map fst m)" "distinct (map fst n)" "sorted (map fst m)" "sorted (map fst n)"
    using o by (simp_all add: strict_sorted_iff)
  moreover have "inj_on fst (set m \<union> set n)" using calculation(1,2) by (simp add: distinct_map)
  ultimately show "m = n" using map_sorted_distinct_set_unique by blast
qed



end
