(* ===== verification/Smt_Terms.thy ===== *)
theory Smt_Terms
  imports Smt_Linear "HOL-Library.Sublist"
begin

section \<open>The term store\<close>

text \<open>
  \<open>TermStore\<close> of \<open>src/smt/term.rs\<close>: typed, hash-consed terms. A term is the index of its node;
  the constructors simplify, share equal nodes through \<open>interned\<close>, and never change a node that
  exists. Indices wrapped in \<open>u32\<close> newtypes (\<open>TermId\<close>, \<open>SortId\<close>, \<open>SymbolId\<close>, \<open>FunctionId\<close>, ...) are
  natural numbers, with the code's \<open>u32\<close> limits written out; hash maps are partial functions.
  Every operation takes the store and returns it with its result; on an error the store may have
  grown. \<open>Rejected\<close> is a \<open>TermError\<close>, by its message, and \<open>Panicked\<close> the panic on an exhausted
  \<open>u32\<close> index; \<open>OutOfFuel\<close> is no outcome of the code, only of the operations of the model that
  recurse with fuel.
\<close>

subsection \<open>Data\<close>

datatype sort =
    SBool
  | SBitVec nat
  | SInt
  | SReal
  | SUninterpreted nat
  | SArray nat

datatype term_kind =
    KBool bool
  | KAtom nat
  | KNot nat
  | KAnd "nat list"
  | KOr "nat list"
  | KXor nat nat
  | KIff nat nat
  | KIte nat nat nat
  | KUfConstant nat
  | KUfApplication nat "nat list"
  | KUfIte nat nat nat
  | KArithmetic nat
  | KArithmeticPredicate nat nat bool
  | KArrayConst nat
  | KArrayStore nat nat nat
  | KTheoryEquality nat nat nat
  | KBitVec "nat list"

record term_node =
  tn_sort :: nat
  tn_kind :: term_kind

record function_signature =
  fs_domain :: "sort list"
  fs_range :: sort

record application =
  ap_function :: nat
  ap_arguments :: "nat list"
  ap_result :: nat

record theory_equality =
  te_term :: nat
  te_left :: nat
  te_right :: nat

record conditional =
  ci_result :: nat
  ci_condition :: nat
  ci_then :: nat
  ci_else :: nat

record arithmetic_predicate =
  pr_term :: nat
  pr_expression :: nat
  pr_strict :: bool

record array_signature =
  as_index :: sort
  as_element :: sort
  as_select :: nat

record term_store =
  ts_nodes :: "term_node list"
  ts_interned :: "term_node \<rightharpoonup> nat"
  ts_sorts :: "sort list"
  ts_sort_ids :: "sort \<rightharpoonup> nat"
  ts_bool_sort :: nat
  ts_true :: nat
  ts_false :: nat
  ts_next_symbol :: nat
  ts_next_sort :: nat
  ts_next_value :: nat
  ts_functions :: "function_signature list"
  ts_applications :: "application list"
  ts_application_results :: "nat \<times> nat list \<rightharpoonup> nat"
  ts_application_by_result :: "nat \<rightharpoonup> nat"
  ts_application_by_bit :: "nat \<rightharpoonup> nat \<times> nat"
  ts_theory_equalities :: "theory_equality list"
  ts_theory_equality_terms :: "nat \<times> nat \<rightharpoonup> nat"
  ts_uf_ites :: "conditional list"
  ts_expressions :: "(sort \<times> lin_expr) list"
  ts_expression_ids :: "sort \<times> lin_expr \<rightharpoonup> nat"
  ts_variable_sorts :: "sort list"
  ts_predicates :: "arithmetic_predicate list"
  ts_predicate_terms :: "nat \<times> bool \<rightharpoonup> nat"
  ts_ites :: "conditional list"
  ts_ite_terms :: "nat \<times> nat \<times> nat \<times> sort \<rightharpoonup> nat"
  ts_array_sorts :: "array_signature list"
  ts_array_sort_ids :: "sort \<times> sort \<rightharpoonup> nat"
  ts_array_axioms :: "nat list"
  ts_semantic_selects :: "nat set"
  ts_semantic_select_log :: "nat list"
  ts_array_reads :: "nat \<rightharpoonup> nat list"
  ts_array_read_log :: "(nat \<times> nat) list"

definition ts_new :: term_store where
  "ts_new =
     (let t = \<lparr>tn_sort = 0, tn_kind = KBool True\<rparr>; f = \<lparr>tn_sort = 0, tn_kind = KBool False\<rparr>
      in \<lparr>ts_nodes = [t, f], ts_interned = [t \<mapsto> 0, f \<mapsto> 1], ts_sorts = [SBool], ts_sort_ids = [SBool \<mapsto> 0],
          ts_bool_sort = 0, ts_true = 0, ts_false = 1, ts_next_symbol = 0, ts_next_sort = 0,
          ts_next_value = 0, ts_functions = [], ts_applications = [],
          ts_application_results = Map.empty, ts_application_by_result = Map.empty,
          ts_application_by_bit = Map.empty, ts_theory_equalities = [],
          ts_theory_equality_terms = Map.empty, ts_uf_ites = [], ts_expressions = [],
          ts_expression_ids = Map.empty, ts_variable_sorts = [], ts_predicates = [],
          ts_predicate_terms = Map.empty, ts_ites = [], ts_ite_terms = Map.empty,
          ts_array_sorts = [], ts_array_sort_ids = Map.empty, ts_array_axioms = [],
          ts_semantic_selects = {}, ts_semantic_select_log = [], ts_array_reads = Map.empty,
          ts_array_read_log = []\<rparr>)"

subsection \<open>Operations that may fail\<close>

datatype term_error =
    ForeignTerm | NotBoolean | NotBitVector | NotArithmetic | ZeroWidth | SortLimit | WidthLimit
  | ExpressionLimit | AffineVariableLimit | FunctionLimit | ValueLimit | ArraySortLimit | UninterpretedLimit
  | ForeignExpression | ForeignFunction | ForeignArraySort | RealToInt | NonIntegral | Nonlinear
  | NonconstantDivisor | ZeroDivisor | TooFewArguments string | BranchSorts | EqualitySorts
  | ArgumentCount nat nat | ArgumentSort | ArrayElement | ArrayIndex | NotArray string
  | InvalidLiteral string | InvalidNumeral | ValueTooWide nat | ExtractRange nat nat nat
  | ZeroRepeat | WidthOverflow string | WidthTooLarge nat | WidthMismatch string nat nat
  | WidthsDiffer string | WorkLimit string nat

datatype term_failure = Rejected term_error | Panicked | OutOfFuel

type_synonym 'a term_op = "term_store \<Rightarrow> (term_failure + 'a) \<times> term_store"

definition ret :: "'a \<Rightarrow> 'a term_op" where
  "ret x s = (Inr x, s)"

definition reject :: "term_error \<Rightarrow> 'a term_op" where
  "reject e s = (Inl (Rejected e), s)"

text \<open>\<open>bind_op m f\<close> is \<open>f(m?)\<close>; \<open>asks g\<close> reads the store.\<close>

definition bind_op :: "'a term_op \<Rightarrow> ('a \<Rightarrow> 'b term_op) \<Rightarrow> 'b term_op" where
  "bind_op m f s = (case m s of (Inl e, s') \<Rightarrow> (Inl e, s') | (Inr x, s') \<Rightarrow> f x s')"

definition asks :: "(term_store \<Rightarrow> term_failure + 'a) \<Rightarrow> 'a term_op" where
  "asks g s = (g s, s)"

text \<open>\<open>iter().map(f).collect::<Result<Vec<_>, _>>()\<close>: in order, up to the first error.\<close>

fun each_op :: "('a \<Rightarrow> 'b term_op) \<Rightarrow> 'a list \<Rightarrow> 'b list term_op" where
  "each_op f [] = ret []"
| "each_op f (x # xs) = bind_op (f x) (\<lambda>y. bind_op (each_op f xs) (\<lambda>ys. ret (y # ys)))"

subsection \<open>Sorts and nodes\<close>

definition node_kind :: "term_store \<Rightarrow> nat \<Rightarrow> term_kind" where
  "node_kind s t = tn_kind (ts_nodes s ! t)"

definition sort_id_of :: "nat \<Rightarrow> term_store \<Rightarrow> term_failure + nat" where
  "sort_id_of t s =
     (if t < length (ts_nodes s) then Inr (tn_sort (ts_nodes s ! t)) else Inl (Rejected ForeignTerm))"

definition sort_of :: "nat \<Rightarrow> term_store \<Rightarrow> term_failure + sort" where
  "sort_of t s =
     (if t < length (ts_nodes s) then Inr (ts_sorts s ! tn_sort (ts_nodes s ! t))
      else Inl (Rejected ForeignTerm))"

definition require_bool :: "nat \<Rightarrow> term_store \<Rightarrow> term_failure + unit" where
  "require_bool t s =
     bindE (sort_id_of t s) (\<lambda>i. if i = ts_bool_sort s then Inr () else Inl (Rejected NotBoolean))"

definition bool_constant :: "bool \<Rightarrow> term_store \<Rightarrow> nat" where
  "bool_constant b s = (if b then ts_true s else ts_false s)"

definition sort_id_for :: "sort \<Rightarrow> nat term_op" where
  "sort_id_for so s =
     (case ts_sort_ids s so of
        Some i \<Rightarrow> (Inr i, s)
      | None \<Rightarrow>
          if so = SBitVec 0 then (Inl (Rejected ZeroWidth), s)
          else if length (ts_sorts s) > u32_max then (Inl (Rejected SortLimit), s)
          else (Inr (length (ts_sorts s)),
                s\<lparr>ts_sorts := ts_sorts s @ [so], ts_sort_ids := (ts_sort_ids s)(so \<mapsto> length (ts_sorts s))\<rparr>))"

definition intern :: "nat \<Rightarrow> term_kind \<Rightarrow> nat term_op" where
  "intern so k s =
     (let node = \<lparr>tn_sort = so, tn_kind = k\<rparr>; t = length (ts_nodes s)
      in case ts_interned s node of
           Some t \<Rightarrow> (Inr t, s)
         | None \<Rightarrow>
             if t > u32_max then (Inl Panicked, s)
             else (Inr t, s\<lparr>ts_nodes := ts_nodes s @ [node], ts_interned := (ts_interned s)(node \<mapsto> t)\<rparr>))"

definition intern_bool :: "term_kind \<Rightarrow> nat term_op" where
  "intern_bool k s = intern (ts_bool_sort s) k s"

definition fresh_symbol :: "nat term_op" where
  "fresh_symbol s =
     (if ts_next_symbol s + 1 > u32_max then (Inl Panicked, s)
      else (Inr (ts_next_symbol s), s\<lparr>ts_next_symbol := ts_next_symbol s + 1\<rparr>))"

definition fresh_bool_atom :: "(nat \<times> nat) term_op" where
  "fresh_bool_atom =
     bind_op fresh_symbol (\<lambda>a. bind_op (intern_bool (KAtom a)) (\<lambda>t. ret (a, t)))"

definition ordered_pair :: "nat \<Rightarrow> nat \<Rightarrow> nat \<times> nat" where
  "ordered_pair l r = (if l \<le> r then (l, r) else (r, l))"

subsection \<open>Boolean constructors\<close>

definition are_complements :: "term_store \<Rightarrow> nat \<Rightarrow> nat \<Rightarrow> bool" where
  "are_complements s l r \<longleftrightarrow> node_kind s l = KNot r \<or> node_kind s r = KNot l"

definition term_not :: "nat \<Rightarrow> nat term_op" where
  "term_not t s =
     (case require_bool t s of
        Inl e \<Rightarrow> (Inl e, s)
      | Inr _ \<Rightarrow>
          (case node_kind s t of
             KBool b \<Rightarrow> (Inr (bool_constant (\<not> b) s), s)
           | KNot u \<Rightarrow> (Inr u, s)
           | _ \<Rightarrow> intern_bool (KNot t) s))"

text \<open>The members of a junction, nested ones flattened; or the constant that decides it.\<close>

fun flatten_terms ::
  "bool \<Rightarrow> bool \<Rightarrow> nat list \<Rightarrow> nat list \<Rightarrow> term_store \<Rightarrow> term_failure + (bool + nat list)" where
  "flatten_terms identity conjunction [] acc s = Inr (Inr acc)"
| "flatten_terms identity conjunction (t # ts) acc s =
     bindE (require_bool t s) (\<lambda>_.
       case node_kind s t of
         KBool b \<Rightarrow>
           if b \<noteq> identity then Inr (Inl b) else flatten_terms identity conjunction ts acc s
       | KAnd us \<Rightarrow> flatten_terms identity conjunction ts (if conjunction then acc @ us else acc @ [t]) s
       | KOr us \<Rightarrow> flatten_terms identity conjunction ts (if conjunction then acc @ [t] else acc @ us) s
       | _ \<Rightarrow> flatten_terms identity conjunction ts (acc @ [t]) s)"

definition complemented :: "term_store \<Rightarrow> nat list \<Rightarrow> bool" where
  "complemented s ts \<longleftrightarrow>
     list_ex (\<lambda>t. case node_kind s t of KNot u \<Rightarrow> List.member ts u | _ \<Rightarrow> False) ts"

definition junction :: "nat list \<Rightarrow> bool \<Rightarrow> bool \<Rightarrow> nat term_op" where
  "junction ts identity conjunction s =
     (case flatten_terms identity conjunction ts [] s of
        Inl e \<Rightarrow> (Inl e, s)
      | Inr (Inl b) \<Rightarrow> (Inr (bool_constant b s), s)
      | Inr (Inr members) \<Rightarrow>
          (let flattened = remdups_adj (sort members)
           in if complemented s flattened then (Inr (bool_constant (\<not> identity) s), s)
              else if flattened = [] then (Inr (bool_constant identity s), s)
              else if length flattened = 1 then (Inr (flattened ! 0), s)
              else if conjunction then intern_bool (KAnd flattened) s
              else intern_bool (KOr flattened) s))"

definition term_and :: "nat list \<Rightarrow> nat term_op" where
  "term_and ts = junction ts True True"

definition term_or :: "nat list \<Rightarrow> nat term_op" where
  "term_or ts = junction ts False False"

definition term_xor :: "nat \<Rightarrow> nat \<Rightarrow> nat term_op" where
  "term_xor l r s =
     (case bindE (require_bool l s) (\<lambda>_. require_bool r s) of
        Inl e \<Rightarrow> (Inl e, s)
      | Inr _ \<Rightarrow>
          if l = r then (Inr (ts_false s), s)
          else if are_complements s l r then (Inr (ts_true s), s)
          else if node_kind s l = KBool False then (Inr r, s)
          else if node_kind s r = KBool False then (Inr l, s)
          else if node_kind s l = KBool True then term_not r s
          else if node_kind s r = KBool True then term_not l s
          else (case ordered_pair l r of (a, b) \<Rightarrow> intern_bool (KXor a b) s))"

definition term_iff :: "nat \<Rightarrow> nat \<Rightarrow> nat term_op" where
  "term_iff l r s =
     (case bindE (require_bool l s) (\<lambda>_. require_bool r s) of
        Inl e \<Rightarrow> (Inl e, s)
      | Inr _ \<Rightarrow>
          if l = r then (Inr (ts_true s), s)
          else if are_complements s l r then (Inr (ts_false s), s)
          else if node_kind s l = KBool True then (Inr r, s)
          else if node_kind s r = KBool True then (Inr l, s)
          else if node_kind s l = KBool False then term_not r s
          else if node_kind s r = KBool False then term_not l s
          else (case ordered_pair l r of (a, b) \<Rightarrow> intern_bool (KIff a b) s))"

text \<open>\<open>=>\<close> is right associative.\<close>

fun imply_all :: "nat list \<Rightarrow> nat \<Rightarrow> nat term_op" where
  "imply_all [] result = ret result"
| "imply_all (a # as) result =
     bind_op (term_not a) (\<lambda>n. bind_op (term_or [n, result]) (imply_all as))"

fun require_bools :: "nat list \<Rightarrow> term_store \<Rightarrow> term_failure + unit" where
  "require_bools [] s = Inr ()"
| "require_bools (t # ts) s = bindE (require_bool t s) (\<lambda>_. require_bools ts s)"

definition term_implies :: "nat list \<Rightarrow> nat term_op" where
  "term_implies ts =
     (if length ts < 2 then reject (TooFewArguments ''=>'')
      else bind_op (asks (require_bools ts)) (\<lambda>_. imply_all (rev (butlast ts)) (last ts)))"

subsection \<open>Bit-vectors and conditionals\<close>

definition bitvec_bits :: "nat \<Rightarrow> term_store \<Rightarrow> term_failure + nat list" where
  "bitvec_bits t s =
     (if t < length (ts_nodes s)
      then (case node_kind s t of KBitVec bits \<Rightarrow> Inr bits | _ \<Rightarrow> Inl (Rejected NotBitVector))
      else Inl (Rejected ForeignTerm))"

definition make_bitvec :: "nat list \<Rightarrow> nat term_op" where
  "make_bitvec bits =
     (if bits = [] then reject ZeroWidth
      else bind_op (asks (require_bools bits)) (\<lambda>_.
        if length bits > u32_max then reject WidthLimit
        else bind_op (sort_id_for (SBitVec (length bits))) (\<lambda>so. intern so (KBitVec bits))))"

subsection \<open>Meaning\<close>

text \<open>
  The Boolean value of every node under an assignment of the atoms, in the order of the nodes.
  Nodes of other sorts have no Boolean value; \<open>False\<close> stands there.
\<close>

fun kind_value :: "(nat \<Rightarrow> bool) \<Rightarrow> bool list \<Rightarrow> term_kind \<Rightarrow> bool" where
  "kind_value \<sigma> vs (KBool b) = b"
| "kind_value \<sigma> vs (KAtom a) = \<sigma> a"
| "kind_value \<sigma> vs (KTheoryEquality a _ _) = \<sigma> a"
| "kind_value \<sigma> vs (KArithmeticPredicate a _ _) = \<sigma> a"
| "kind_value \<sigma> vs (KNot t) = (\<not> vs ! t)"
| "kind_value \<sigma> vs (KAnd ts) = (\<forall>t \<in> set ts. vs ! t)"
| "kind_value \<sigma> vs (KOr ts) = (\<exists>t \<in> set ts. vs ! t)"
| "kind_value \<sigma> vs (KXor l r) = (vs ! l \<noteq> vs ! r)"
| "kind_value \<sigma> vs (KIff l r) = (vs ! l = vs ! r)"
| "kind_value \<sigma> vs (KIte c t e) = (if vs ! c then vs ! t else vs ! e)"
| "kind_value \<sigma> vs _ = False"

definition node_values :: "(nat \<Rightarrow> bool) \<Rightarrow> term_node list \<Rightarrow> bool list" where
  "node_values \<sigma> ns = foldl (\<lambda>vs n. vs @ [kind_value \<sigma> vs (tn_kind n)]) [] ns"

definition term_value :: "term_store \<Rightarrow> (nat \<Rightarrow> bool) \<Rightarrow> nat \<Rightarrow> bool" where
  "term_value s \<sigma> t = node_values \<sigma> (ts_nodes s) ! t"

fun bool_kind :: "term_kind \<Rightarrow> bool" where
  "bool_kind (KBool _) \<longleftrightarrow> True"
| "bool_kind (KAtom _) \<longleftrightarrow> True"
| "bool_kind (KTheoryEquality _ _ _) \<longleftrightarrow> True"
| "bool_kind (KArithmeticPredicate _ _ _) \<longleftrightarrow> True"
| "bool_kind (KNot _) \<longleftrightarrow> True"
| "bool_kind (KAnd _) \<longleftrightarrow> True"
| "bool_kind (KOr _) \<longleftrightarrow> True"
| "bool_kind (KXor _ _) \<longleftrightarrow> True"
| "bool_kind (KIff _ _) \<longleftrightarrow> True"
| "bool_kind (KIte _ _ _) \<longleftrightarrow> True"
| "bool_kind _ \<longleftrightarrow> False"

fun bool_children :: "term_kind \<Rightarrow> nat list" where
  "bool_children (KNot t) = [t]"
| "bool_children (KAnd ts) = ts"
| "bool_children (KOr ts) = ts"
| "bool_children (KXor l r) = [l, r]"
| "bool_children (KIff l r) = [l, r]"
| "bool_children (KIte c t e) = [c, t, e]"
| "bool_children (KBitVec bits) = bits"
| "bool_children _ = []"

fun kind_symbol :: "term_kind \<Rightarrow> nat option" where
  "kind_symbol (KAtom a) = Some a"
| "kind_symbol (KTheoryEquality a _ _) = Some a"
| "kind_symbol (KArithmeticPredicate a _ _) = Some a"
| "kind_symbol _ = None"

lemma kind_value_cong: "(\<And>c. c \<in> set (bool_children k) \<Longrightarrow> vs ! c = ws ! c) \<Longrightarrow> kind_value \<sigma> vs k = kind_value \<sigma> ws k"
  by (cases k) auto

lemma node_values_append [simp]:
  "node_values \<sigma> (ns @ [n]) = node_values \<sigma> ns @ [kind_value \<sigma> (node_values \<sigma> ns) (tn_kind n)]"
  by (simp add: node_values_def)

lemma length_node_values [simp]: "length (node_values \<sigma> ns) = length ns"
  by (induction ns rule: rev_induct) (simp_all add: node_values_def)

lemma node_values_prefix: "prefix ns ms \<Longrightarrow> t < length ns \<Longrightarrow> node_values \<sigma> ms ! t = node_values \<sigma> ns ! t"
proof -
  assume "prefix ns ms" "t < length ns"
  then obtain k where "ms = ns @ k" by (auto elim: prefixE)
  moreover have "node_values \<sigma> (ns @ k) ! t = node_values \<sigma> ns ! t"
  proof (induction k rule: rev_induct)
    case (snoc x k)
    then show ?case
      using \<open>t < length ns\<close> node_values_append [of \<sigma> "ns @ k" x] by (simp add: nth_append del: node_values_append)
  qed simp
  ultimately show ?thesis by simp
qed

subsection \<open>The invariant\<close>

definition node_ok :: "term_store \<Rightarrow> nat \<Rightarrow> term_node \<Rightarrow> bool" where
  "node_ok s i n \<longleftrightarrow>
     tn_sort n < length (ts_sorts s) \<and> (bool_kind (tn_kind n) \<longleftrightarrow> tn_sort n = 0)
     \<and> (\<forall>c \<in> set (bool_children (tn_kind n)). c < i \<and> tn_sort (ts_nodes s ! c) = 0)
     \<and> (\<forall>bits. tn_kind n = KBitVec bits \<longrightarrow> bits \<noteq> [] \<and> ts_sorts s ! tn_sort n = SBitVec (length bits))
     \<and> (\<forall>w. ts_sorts s ! tn_sort n = SBitVec w \<longrightarrow> (\<exists>bits. tn_kind n = KBitVec bits))
     \<and> (\<forall>a. kind_symbol (tn_kind n) = Some a \<longrightarrow> a < ts_next_symbol s)"

definition store_ok :: "term_store \<Rightarrow> bool" where
  "store_ok s \<longleftrightarrow>
     ts_bool_sort s = 0 \<and> ts_true s = 0 \<and> ts_false s = 1 \<and> 1 < length (ts_nodes s)
     \<and> node_kind s 0 = KBool True \<and> node_kind s 1 = KBool False
     \<and> ts_sorts s \<noteq> [] \<and> ts_sorts s ! 0 = SBool
     \<and> (\<forall>so i. ts_sort_ids s so = Some i \<longleftrightarrow> i < length (ts_sorts s) \<and> ts_sorts s ! i = so)
     \<and> (\<forall>n i. ts_interned s n = Some i \<longleftrightarrow> i < length (ts_nodes s) \<and> ts_nodes s ! i = n)
     \<and> (\<forall>i < length (ts_nodes s). node_ok s i (ts_nodes s ! i))
     \<and> length (ts_nodes s) \<le> u32_max + 1 \<and> length (ts_sorts s) \<le> u32_max + 1 \<and> ts_next_symbol s \<le> u32_max"

definition bool_term :: "term_store \<Rightarrow> nat \<Rightarrow> bool" where
  "bool_term s t \<longleftrightarrow> t < length (ts_nodes s) \<and> tn_sort (ts_nodes s ! t) = 0"

text \<open>The store only grows.\<close>

definition extends :: "term_store \<Rightarrow> term_store \<Rightarrow> bool" where
  "extends s s' \<longleftrightarrow> prefix (ts_nodes s) (ts_nodes s') \<and> prefix (ts_sorts s) (ts_sorts s')
     \<and> ts_next_symbol s \<le> ts_next_symbol s'"

lemma extends_refl [simp]: "extends s s"
  by (simp add: extends_def)

lemma extends_trans: "extends s s' \<Longrightarrow> extends s' s'' \<Longrightarrow> extends s s''"
  by (auto simp: extends_def)

lemma prefix_nth: "prefix xs ys \<Longrightarrow> i < length xs \<Longrightarrow> ys ! i = xs ! i"
  by (auto elim!: prefixE simp: nth_append)

lemma extends_node: "extends s s' \<Longrightarrow> t < length (ts_nodes s) \<Longrightarrow> t < length (ts_nodes s') \<and> ts_nodes s' ! t = ts_nodes s ! t"
  using prefix_nth [of "ts_nodes s" "ts_nodes s'" t] prefix_length_le [of "ts_nodes s" "ts_nodes s'"]
  by (auto simp: extends_def)

lemma extends_bool_term: "extends s s' \<Longrightarrow> bool_term s t \<Longrightarrow> bool_term s' t"
  using extends_node by (auto simp: bool_term_def)

lemma extends_value: "extends s s' \<Longrightarrow> t < length (ts_nodes s) \<Longrightarrow> term_value s' \<sigma> t = term_value s \<sigma> t"
  by (simp add: term_value_def extends_def node_values_prefix)

lemma store_node: "store_ok s \<Longrightarrow> t < length (ts_nodes s) \<Longrightarrow> node_ok s t (ts_nodes s ! t)"
  by (simp add: store_ok_def)

lemma bool_term_child: "store_ok s \<Longrightarrow> t < length (ts_nodes s) \<Longrightarrow> c \<in> set (bool_children (node_kind s t)) \<Longrightarrow> bool_term s c \<and> c < t"
  using store_node [of s t] by (auto simp: node_ok_def node_kind_def bool_term_def)

lemma bool_term_kind: "store_ok s \<Longrightarrow> t < length (ts_nodes s) \<Longrightarrow> bool_term s t \<longleftrightarrow> bool_kind (node_kind s t)"
  using store_node [of s t] by (auto simp: node_ok_def node_kind_def bool_term_def)

text \<open>The value of a term by its kind.\<close>

lemma term_value_kind:
  assumes s: "store_ok s" and t: "t < length (ts_nodes s)"
  shows "term_value s \<sigma> t = kind_value \<sigma> (node_values \<sigma> (ts_nodes s)) (node_kind s t)"
proof -
  let ?ns = "ts_nodes s" and ?p = "take t (ts_nodes s)"
  have "prefix (?p @ [?ns ! t]) ?ns" using t by (metis take_is_prefix take_Suc_conv_app_nth)
  from node_values_prefix [OF this, of t \<sigma>]
  have "node_values \<sigma> ?ns ! t = kind_value \<sigma> (node_values \<sigma> ?p) (tn_kind (?ns ! t))" using t by (simp add: nth_append)
  also have "\<dots> = kind_value \<sigma> (node_values \<sigma> ?ns) (tn_kind (?ns ! t))"
  proof (rule kind_value_cong)
    fix c assume "c \<in> set (bool_children (tn_kind (?ns ! t)))"
    then have "c < t" using bool_term_child [OF s t] by (simp add: node_kind_def)
    then show "node_values \<sigma> ?p ! c = node_values \<sigma> ?ns ! c"
      using t by (intro node_values_prefix [symmetric]) (simp_all add: take_is_prefix)
  qed
  finally show ?thesis by (simp add: term_value_def node_kind_def)
qed

lemma term_value_simps:
  assumes "store_ok s" "t < length (ts_nodes s)"
  shows "node_kind s t = KBool b \<Longrightarrow> term_value s \<sigma> t = b"
    "node_kind s t = KAtom a \<Longrightarrow> term_value s \<sigma> t = \<sigma> a"
    "node_kind s t = KNot u \<Longrightarrow> term_value s \<sigma> t = (\<not> term_value s \<sigma> u)"
    "node_kind s t = KAnd us \<Longrightarrow> term_value s \<sigma> t = (\<forall>u \<in> set us. term_value s \<sigma> u)"
    "node_kind s t = KOr us \<Longrightarrow> term_value s \<sigma> t = (\<exists>u \<in> set us. term_value s \<sigma> u)"
    "node_kind s t = KXor l r \<Longrightarrow> term_value s \<sigma> t = (term_value s \<sigma> l \<noteq> term_value s \<sigma> r)"
    "node_kind s t = KIff l r \<Longrightarrow> term_value s \<sigma> t = (term_value s \<sigma> l = term_value s \<sigma> r)"
    "node_kind s t = KIte c u v \<Longrightarrow> term_value s \<sigma> t = (if term_value s \<sigma> c then term_value s \<sigma> u else term_value s \<sigma> v)"
    "node_kind s t = KTheoryEquality a l r \<Longrightarrow> term_value s \<sigma> t = \<sigma> a"
    "node_kind s t = KArithmeticPredicate a x strict \<Longrightarrow> term_value s \<sigma> t = \<sigma> a"
  using term_value_kind [OF assms] by (simp_all add: term_value_def)

end
