(* ===== verification/Smt_Boolean.thy ===== *)
theory Smt_Boolean
  imports Smt_Terms
begin

section \<open>The Boolean constructors are right\<close>

text \<open>
  A constructor keeps the store well formed, only adds to it, and returns a term with the value
  of the Boolean operation under every assignment, whatever simplifications it makes. It fails
  only when the 32-bit index space is exhausted. \<open>op_ok\<close> states this for an operation, and its
  rules compose it along the code.
\<close>

subsection \<open>Operations on a well-formed store\<close>

text \<open>Failures no caller can exclude: the store is full.\<close>

fun exhausted :: "term_failure \<Rightarrow> bool" where
  "exhausted Panicked \<longleftrightarrow> True"
| "exhausted OutOfFuel \<longleftrightarrow> False"
| "exhausted (Rejected e) \<longleftrightarrow> e = SortLimit \<or> e = WidthLimit"

definition op_ok :: "'a term_op \<Rightarrow> term_store \<Rightarrow> ('a \<Rightarrow> term_store \<Rightarrow> bool) \<Rightarrow> bool" where
  "op_ok m s Q \<longleftrightarrow>
     (case m s of (r, s') \<Rightarrow> store_ok s' \<and> extends s s' \<and> (case r of Inl e \<Rightarrow> exhausted e | Inr x \<Rightarrow> Q x s'))"

lemma op_okD:
  assumes "op_ok m s Q" "m s = (r, s')"
  shows "store_ok s'" "extends s s'" "r = Inr x \<Longrightarrow> Q x s'" "r = Inl e \<Longrightarrow> exhausted e"
  using assms by (auto simp: op_ok_def)

lemma op_ok_ret: "store_ok s \<Longrightarrow> Q x s \<Longrightarrow> op_ok (ret x) s Q"
  by (simp add: op_ok_def ret_def)

lemma op_ok_conseq: "op_ok m s P \<Longrightarrow> (\<And>x s'. store_ok s' \<Longrightarrow> extends s s' \<Longrightarrow> P x s' \<Longrightarrow> Q x s') \<Longrightarrow> op_ok m s Q"
  by (auto simp: op_ok_def split: prod.splits sum.splits)

lemma op_ok_bind:
  assumes "op_ok m s P" "\<And>x s'. store_ok s' \<Longrightarrow> extends s s' \<Longrightarrow> P x s' \<Longrightarrow> op_ok (f x) s' Q"
  shows "op_ok (bind_op m f) s Q"
proof (cases "m s")
  case (Pair r s')
  show ?thesis
  proof (cases r)
    case (Inl e)
    then show ?thesis using assms(1) Pair by (simp add: op_ok_def bind_op_def)
  next
    case (Inr x)
    have k: "store_ok s'" "extends s s'" "P x s'" using op_okD [OF assms(1) Pair] Inr by simp_all
    note q = assms(2) [OF k]
    obtain r2 s2 where f: "f x s' = (r2, s2)" by fastforce
    have "bind_op m f s = (r2, s2)" using Pair Inr f by (simp add: bind_op_def)
    moreover note op_okD [OF q f]
    ultimately show ?thesis using extends_trans [OF k(2)] by (auto simp: op_ok_def split: sum.splits)
  qed
qed

lemma op_ok_asks: "store_ok s \<Longrightarrow> g s = Inr x \<Longrightarrow> Q x s \<Longrightarrow> op_ok (asks g) s Q"
  by (simp add: op_ok_def asks_def)

text \<open>A term with a given value.\<close>

definition denotes :: "term_store \<Rightarrow> nat \<Rightarrow> ((nat \<Rightarrow> bool) \<Rightarrow> bool) \<Rightarrow> bool" where
  "denotes s t f \<longleftrightarrow> bool_term s t \<and> (\<forall>\<sigma>. term_value s \<sigma> t = f \<sigma>)"

lemma denotes_extends: "denotes s t f \<Longrightarrow> extends s s' \<Longrightarrow> denotes s' t f"
  using extends_bool_term extends_value by (auto simp: denotes_def bool_term_def)

lemma denotes_self: "bool_term s t \<Longrightarrow> denotes s t (\<lambda>\<sigma>. term_value s \<sigma> t)"
  by (simp add: denotes_def)

lemma denotes_value: "denotes s t f \<Longrightarrow> term_value s \<sigma> t = f \<sigma>"
  by (simp add: denotes_def)

lemma denotes_bool: "denotes s t f \<Longrightarrow> bool_term s t"
  by (simp add: denotes_def)

lemma denotes_cong: "denotes s t f \<Longrightarrow> (\<And>\<sigma>. f \<sigma> = g \<sigma>) \<Longrightarrow> denotes s t g"
  by (simp add: denotes_def)

subsection \<open>Readers\<close>

lemma require_bool_ok: "store_ok s \<Longrightarrow> require_bool t s = Inr () \<longleftrightarrow> bool_term s t"
  by (auto simp: require_bool_def sort_id_of_def bool_term_def store_ok_def)

lemma require_bools_ok: "store_ok s \<Longrightarrow> require_bools ts s = Inr () \<longleftrightarrow> (\<forall>t \<in> set ts. bool_term s t)"
  by (induction ts) (auto simp: bindE_Inr_iff require_bool_ok)

lemma constant_ok: "store_ok s \<Longrightarrow> denotes s (bool_constant b s) (\<lambda>_. b)"
proof -
  assume s: "store_ok s"
  have l: "0 < length (ts_nodes s)" "1 < length (ts_nodes s)" using s by (auto simp: store_ok_def)
  have k: "node_kind s 0 = KBool True" "node_kind s 1 = KBool False" using s by (simp_all add: store_ok_def)
  have t: "bool_term s 0" "bool_term s 1" using bool_term_kind [OF s] l k by simp_all
  have c: "bool_constant b s = (if b then 0 else 1)" using s by (simp add: bool_constant_def store_ok_def)
  show ?thesis
    using t term_value_simps(1) [OF s l(1) k(1)] term_value_simps(1) [OF s l(2) k(2)] by (simp add: denotes_def c)
qed

lemma constant_extends: "store_ok s \<Longrightarrow> store_ok s' \<Longrightarrow> bool_constant b s' = bool_constant b s"
  by (simp add: bool_constant_def store_ok_def)

subsection \<open>Interning\<close>

lemma intern_ok:
  assumes s: "store_ok s" and n: "node_ok s (length (ts_nodes s)) \<lparr>tn_sort = so, tn_kind = k\<rparr>"
  shows "op_ok (intern so k) s (\<lambda>t s'. t < length (ts_nodes s') \<and> ts_nodes s' ! t = \<lparr>tn_sort = so, tn_kind = k\<rparr>
    \<and> ts_sorts s' = ts_sorts s)"
proof -
  let ?n = "\<lparr>tn_sort = so, tn_kind = k\<rparr>" and ?l = "length (ts_nodes s)"
  have in_iff: "ts_interned s n = Some i \<longleftrightarrow> i < ?l \<and> ts_nodes s ! i = n" for n i using s by (simp add: store_ok_def)
  show ?thesis
  proof (cases "ts_interned s ?n")
    case (Some t)
    then have "intern so k s = (Inr t, s)" by (simp add: intern_def Let_def)
    moreover have "t < ?l \<and> ts_nodes s ! t = ?n" using in_iff [of ?n t] Some by simp
    ultimately show ?thesis using s by (simp add: op_ok_def)
  next
    case None
    then have fresh: "ts_nodes s ! i \<noteq> ?n" if "i < ?l" for i using in_iff [of ?n i] that by auto
    show ?thesis
    proof (cases "?l > u32_max")
      case True
      then show ?thesis using s None by (simp add: op_ok_def intern_def Let_def)
    next
      case False
      let ?s = "s\<lparr>ts_nodes := ts_nodes s @ [?n], ts_interned := (ts_interned s)(?n \<mapsto> ?l)\<rparr>"
      have e: "intern so k s = (Inr ?l, ?s)" using None False by (simp add: intern_def Let_def)
      have ok: "node_ok ?s i n" if "node_ok s i n" "i \<le> ?l" for i n
        using that by (auto simp: node_ok_def nth_append)
      have "store_ok ?s"
        unfolding store_ok_def
      proof (intro conjI allI impI)
        fix i assume i: "i < length (ts_nodes ?s)"
        show "node_ok ?s i (ts_nodes ?s ! i)"
        proof (cases "i < ?l")
          case True
          then show ?thesis using ok [OF store_node [OF s True]] by (simp add: nth_append)
        next
          case False
          then have "i = ?l" using i by simp
          then show ?thesis using ok [OF n] by simp
        qed
      next
        fix n i
        show "(ts_interned ?s n = Some i) \<longleftrightarrow> (i < length (ts_nodes ?s) \<and> ts_nodes ?s ! i = n)"
          using in_iff [of n i] fresh by (auto simp: nth_append less_Suc_eq)
      qed (use s False in \<open>auto simp: store_ok_def node_kind_def nth_append\<close>)
      then show ?thesis by (simp add: op_ok_def e extends_def)
    qed
  qed
qed

text \<open>A Boolean node over Boolean children.\<close>

lemma intern_bool_ok:
  assumes s: "store_ok s" and k: "bool_kind k" "\<forall>c \<in> set (bool_children k). bool_term s c"
    "\<forall>a. kind_symbol k = Some a \<longrightarrow> a < ts_next_symbol s"
  shows "op_ok (intern_bool k) s (\<lambda>t s'. bool_term s' t \<and> node_kind s' t = k)"
proof -
  have b: "ts_bool_sort s = 0" "ts_sorts s \<noteq> []" "ts_sorts s ! 0 = SBool" using s by (simp_all add: store_ok_def)
  have "node_ok s (length (ts_nodes s)) \<lparr>tn_sort = 0, tn_kind = k\<rparr>"
    using k b by (cases k) (auto simp: node_ok_def bool_term_def)
  from intern_ok [OF s this] have "op_ok (intern 0 k) s (\<lambda>t s'. bool_term s' t \<and> node_kind s' t = k)"
    by (rule op_ok_conseq) (simp add: bool_term_def node_kind_def)
  then show ?thesis by (simp add: op_ok_def intern_bool_def b)
qed

lemma intern_bool_value:
  assumes s: "store_ok s" and k: "bool_kind k" "\<forall>c \<in> set (bool_children k). bool_term s c" "kind_symbol k = None"
    and v: "\<And>s' t \<sigma>. store_ok s' \<Longrightarrow> extends s s' \<Longrightarrow> t < length (ts_nodes s') \<Longrightarrow> node_kind s' t = k \<Longrightarrow> term_value s' \<sigma> t = f \<sigma>"
  shows "op_ok (intern_bool k) s (\<lambda>t s'. denotes s' t f)"
proof (rule op_ok_conseq [OF intern_bool_ok [OF s k(1,2)]])
  fix t s' assume t: "store_ok s'" "extends s s'" "bool_term s' t \<and> node_kind s' t = k"
  then have "t < length (ts_nodes s')" by (simp add: bool_term_def)
  then show "denotes s' t f" using v [OF t(1,2)] t(3) by (simp add: denotes_def)
qed (use k(3) in simp)

lemma fresh_symbol_ok:
  assumes s: "store_ok s"
  shows "op_ok fresh_symbol s (\<lambda>a s'. a = ts_next_symbol s \<and> ts_next_symbol s' = a + 1 \<and> ts_nodes s' = ts_nodes s)"
proof (cases "ts_next_symbol s + 1 > u32_max")
  case True
  then show ?thesis using s by (simp add: op_ok_def fresh_symbol_def)
next
  case False
  let ?s = "s\<lparr>ts_next_symbol := ts_next_symbol s + 1\<rparr>"
  have ok: "node_ok ?s i n" if "node_ok s i n" for i n
    using that by (auto simp: node_ok_def)
  have "store_ok ?s"
    unfolding store_ok_def
  proof (intro conjI allI impI)
    show "node_ok ?s i (ts_nodes ?s ! i)" if "i < length (ts_nodes ?s)" for i
      using ok [OF store_node [OF s]] that by simp
  qed (use s False in \<open>auto simp: store_ok_def node_kind_def\<close>)
  then show ?thesis using False by (simp add: op_ok_def fresh_symbol_def extends_def)
qed

lemma fresh_bool_atom_ok:
  assumes s: "store_ok s"
  shows "op_ok fresh_bool_atom s (\<lambda>(a, t) s'. a = ts_next_symbol s \<and> a < ts_next_symbol s' \<and> node_kind s' t = KAtom a
    \<and> denotes s' t (\<lambda>\<sigma>. \<sigma> a))"
  unfolding fresh_bool_atom_def
proof (rule op_ok_bind [OF fresh_symbol_ok [OF s]], elim conjE)
  fix a s1 assume 1: "store_ok s1" "a = ts_next_symbol s" "ts_next_symbol s1 = a + 1"
  have "op_ok (intern_bool (KAtom a)) s1 (\<lambda>t s'. bool_term s' t \<and> node_kind s' t = KAtom a)"
    using 1 by (intro intern_bool_ok) simp_all
  then show "op_ok (bind_op (intern_bool (KAtom a)) (\<lambda>t. ret (a, t))) s1
     (\<lambda>(a, t) s'. a = ts_next_symbol s \<and> a < ts_next_symbol s' \<and> node_kind s' t = KAtom a \<and> denotes s' t (\<lambda>\<sigma>. \<sigma> a))"
  proof (rule op_ok_bind, elim conjE)
    fix t s2 assume 2: "store_ok s2" "extends s1 s2" "bool_term s2 t" "node_kind s2 t = KAtom a"
    have "t < length (ts_nodes s2)" using 2(3) by (simp add: bool_term_def)
    then have "denotes s2 t (\<lambda>\<sigma>. \<sigma> a)" using 2 term_value_simps(2) [OF 2(1) _ 2(4)] by (simp add: denotes_def)
    moreover have "a < ts_next_symbol s2" using 1(3) 2(2) by (simp add: extends_def)
    ultimately show "op_ok (ret (a, t)) s2
     (\<lambda>(a, t) s'. a = ts_next_symbol s \<and> a < ts_next_symbol s' \<and> node_kind s' t = KAtom a \<and> denotes s' t (\<lambda>\<sigma>. \<sigma> a))"
      using 1(2) 2(1,4) by (intro op_ok_ret) simp_all
  qed
qed

subsection \<open>Negation, conjunction and disjunction\<close>

lemma op_ok_value: "store_ok s \<Longrightarrow> m s = (Inr x, s) \<Longrightarrow> Q x s \<Longrightarrow> op_ok m s Q"
  by (simp add: op_ok_def)

lemma denotes_kind: "store_ok s \<Longrightarrow> denotes s t f \<Longrightarrow> t < length (ts_nodes s)"
  by (simp add: denotes_def bool_term_def)

lemma term_not_ok:
  assumes s: "store_ok s" and t: "denotes s t f"
  shows "op_ok (term_not t) s (\<lambda>r s'. denotes s' r (\<lambda>\<sigma>. \<not> f \<sigma>))"
proof -
  have b: "bool_term s t" "t < length (ts_nodes s)" using t by (simp_all add: denotes_def bool_term_def)
  have v: "term_value s \<sigma> t = f \<sigma>" for \<sigma> using t by (simp add: denotes_def)
  have r: "require_bool t s = Inr ()" using require_bool_ok [OF s] b(1) by simp
  note tv = term_value_simps [OF s b(2)]
  consider (const) x where "node_kind s t = KBool x" | (neg) u where "node_kind s t = KNot u"
    | (other) "\<forall>x. node_kind s t \<noteq> KBool x" "\<forall>u. node_kind s t \<noteq> KNot u" by blast
  then show ?thesis
  proof cases
    case const
    have "denotes s (bool_constant (\<not> x) s) (\<lambda>\<sigma>. \<not> f \<sigma>)"
      using constant_ok [OF s, of "\<not> x"] tv(1) [OF const] v by (simp add: denotes_def)
    then show ?thesis using s r const by (intro op_ok_value) (simp_all add: term_not_def)
  next
    case neg
    have "bool_term s u" using bool_term_child [OF s b(2), of u] neg by simp
    then have "denotes s u (\<lambda>\<sigma>. \<not> f \<sigma>)" using tv(3) [OF neg] v by (simp add: denotes_def)
    then show ?thesis using s r neg by (intro op_ok_value) (simp_all add: term_not_def)
  next
    case other
    have "term_not t s = intern_bool (KNot t) s" using r other by (simp add: term_not_def split: term_kind.split)
    moreover have "op_ok (intern_bool (KNot t)) s (\<lambda>r s'. denotes s' r (\<lambda>\<sigma>. \<not> f \<sigma>))"
    proof (rule intern_bool_value [OF s])
      fix s' u \<sigma> assume "store_ok s'" "extends s s'" "u < length (ts_nodes s')" "node_kind s' u = KNot t"
      then show "term_value s' \<sigma> u = (\<not> f \<sigma>)"
        using term_value_simps(3) extends_value [of s s' t] b(2) v by simp
    qed (use b in simp_all)
    ultimately show ?thesis by (simp add: op_ok_def)
  qed
qed

definition junction_value :: "bool \<Rightarrow> bool list \<Rightarrow> bool" where
  "junction_value conjunction vs = (if conjunction then list_all id vs else list_ex id vs)"

lemma junction_value_simps [simp]:
  "junction_value c [] = c" "junction_value c (v # vs) = (if v = c then junction_value c vs else \<not> c)"
  "junction_value c (vs @ ws) = (if junction_value c vs = c then junction_value c ws else \<not> c)"
  by (auto simp: junction_value_def list_all_iff list_ex_iff)

lemma junction_value_set: "set vs = set ws \<Longrightarrow> junction_value c vs = junction_value c ws"
  by (simp add: junction_value_def list_all_iff list_ex_iff)

lemma junction_value_map_set: "set ts = set us \<Longrightarrow> junction_value c (map f ts) = junction_value c (map f us)"
  by (rule junction_value_set) simp

lemma flatten_terms_ok:
  assumes s: "store_ok s"
  shows "\<forall>t \<in> set ts. bool_term s t \<Longrightarrow> \<forall>t \<in> set acc. bool_term s t \<Longrightarrow>
   (case flatten_terms c c ts acc s of
      Inl e \<Rightarrow> False
    | Inr (Inl b) \<Rightarrow> b = (\<not> c) \<and> (\<forall>\<sigma>. junction_value c (map (term_value s \<sigma>) (acc @ ts)) = b)
    | Inr (Inr us) \<Rightarrow> (\<forall>t \<in> set us. bool_term s t)
        \<and> (\<forall>\<sigma>. junction_value c (map (term_value s \<sigma>) us) = junction_value c (map (term_value s \<sigma>) (acc @ ts))))"
proof (induction ts arbitrary: acc)
  case Nil
  then show ?case by simp
next
  case (Cons t ts)
  have b: "bool_term s t" "t < length (ts_nodes s)" using Cons.prems(1) by (simp_all add: bool_term_def)
  have r: "require_bool t s = Inr ()" using require_bool_ok [OF s] b(1) by simp
  note tv = term_value_simps [OF s b(2)]
  have step: ?case
    if e: "flatten_terms c c (t # ts) acc s = flatten_terms c c ts (acc @ us) s"
      and us: "\<forall>u \<in> set us. bool_term s u" "\<And>\<sigma>. junction_value c (map (term_value s \<sigma>) us) = term_value s \<sigma> t" for us
  proof -
    have "\<forall>u \<in> set (acc @ us). bool_term s u" using us(1) Cons.prems(2) by auto
    moreover have "junction_value c (map (term_value s \<sigma>) ((acc @ us) @ ts)) = junction_value c (map (term_value s \<sigma>) (acc @ t # ts))" for \<sigma>
      using us(2) [of \<sigma>] by simp
    ultimately show ?thesis using Cons.IH [of "acc @ us"] Cons.prems(1) unfolding e by (simp only: list.set) simp
  qed
  have plain: ?case if "flatten_terms c c (t # ts) acc s = flatten_terms c c ts (acc @ [t]) s"
    using step [OF that] b(1) by simp
  show ?case
  proof (cases "node_kind s t")
    case (KBool x)
    show ?thesis
    proof (cases "x = c")
      case True
      have "flatten_terms c c (t # ts) acc s = flatten_terms c c ts (acc @ []) s" using r KBool True by simp
      from step [OF this] show ?thesis using tv(1) [OF KBool] True by simp
    next
      case False
      then show ?thesis using r KBool tv(1) [OF KBool] by auto
    qed
  next
    case (KAnd us)
    show ?thesis
    proof (cases c)
      case True
      have "flatten_terms c c (t # ts) acc s = flatten_terms c c ts (acc @ us) s" using r KAnd True by simp
      moreover have "\<forall>u \<in> set us. bool_term s u" using bool_term_child [OF s b(2)] KAnd by simp
      ultimately show ?thesis
        using step tv(4) [OF KAnd] True by (simp add: junction_value_def list_all_iff)
    qed (use plain r KAnd in simp)
  next
    case (KOr us)
    show ?thesis
    proof (cases c)
      case False
      have "flatten_terms c c (t # ts) acc s = flatten_terms c c ts (acc @ us) s" using r KOr False by simp
      moreover have "\<forall>u \<in> set us. bool_term s u" using bool_term_child [OF s b(2)] KOr by simp
      ultimately show ?thesis
        using step tv(5) [OF KOr] False by (simp add: junction_value_def list_ex_iff)
    qed (use plain r KOr in simp)
  qed (use plain r in simp_all)
qed

text \<open>A complementary pair decides a junction.\<close>

lemma complemented_value:
  assumes s: "store_ok s" and us: "\<forall>u \<in> set us. bool_term s u" and c: "complemented s us"
  shows "junction_value x (map (term_value s \<sigma>) us) = (\<not> x)"
proof -
  obtain t u where t: "t \<in> set us" "node_kind s t = KNot u" "u \<in> set us"
  proof -
    obtain t where t: "t \<in> set us" "case node_kind s t of KNot u \<Rightarrow> List.member us u | _ \<Rightarrow> False"
      using c by (auto simp: complemented_def list_ex_iff)
    then show ?thesis using that by (cases "node_kind s t") (simp_all)
  qed
  have "term_value s \<sigma> t = (\<not> term_value s \<sigma> u)" using us t term_value_simps(3) [OF s _ t(2)] by (simp add: bool_term_def)
  then show ?thesis using t(1,3) by (auto simp: junction_value_def list_all_iff list_ex_iff)
qed

lemma junction_ok:
  assumes s: "store_ok s" and ts: "\<forall>t \<in> set ts. bool_term s t"
  shows "op_ok (junction ts c c) s (\<lambda>r s'. denotes s' r (\<lambda>\<sigma>. junction_value c (map (term_value s \<sigma>) ts)))"
proof -
  let ?v = "\<lambda>\<sigma>. junction_value c (map (term_value s \<sigma>) ts)"
  note f = flatten_terms_ok [OF s ts, of "[]" c]
  show ?thesis
  proof (cases "flatten_terms c c ts [] s")
    case (Inl e)
    then show ?thesis using f by simp
  next
    case (Inr r)
    show ?thesis
    proof (cases r)
      case (Inl b)
      then have "denotes s (bool_constant b s) ?v" using f Inr constant_ok [OF s, of b] by (simp add: denotes_def)
      then show ?thesis using s Inr Inl by (intro op_ok_value) (simp_all add: junction_def)
    next
      case m: (Inr us)
      define ws where "ws = remdups_adj (sort us)"
      have "set ws = set us" by (simp add: ws_def)
      then have ws: "\<forall>w \<in> set ws. bool_term s w" "\<And>\<sigma>. junction_value c (map (term_value s \<sigma>) ws) = ?v \<sigma>"
        using f Inr m junction_value_map_set [of ws us c] by simp_all
      have e: "junction ts c c s =
         (if complemented s ws then (Inr (bool_constant (\<not> c) s), s)
          else if ws = [] then (Inr (bool_constant c s), s)
          else if length ws = 1 then (Inr (ws ! 0), s)
          else if c then intern_bool (KAnd ws) s else intern_bool (KOr ws) s)"
        using Inr m by (simp add: junction_def Let_def ws_def)
      have const: "denotes s (bool_constant b s) ?v" if "\<And>\<sigma>. ?v \<sigma> = b" for b
        using constant_ok [OF s, of b] that by (simp add: denotes_def)
      consider (comp) "complemented s ws" | (none) "\<not> complemented s ws" "ws = []"
        | (one) w where "\<not> complemented s ws" "ws = [w]"
        | (more) "\<not> complemented s ws" "ws \<noteq> []" "length ws \<noteq> 1"
        by (cases ws; cases "tl ws") auto
      then show ?thesis
      proof cases
        case comp
        have "denotes s (bool_constant (\<not> c) s) ?v"
          by (rule const) (use complemented_value [OF s ws(1) comp] ws(2) in simp)
        then show ?thesis using s comp e by (intro op_ok_value) simp_all
      next
        case none
        have "denotes s (bool_constant c s) ?v" by (rule const) (use ws(2) none in simp)
        then show ?thesis using s none e by (intro op_ok_value) simp_all
      next
        case one
        have "term_value s \<sigma> w = ?v \<sigma>" for \<sigma>
          using ws(2) [of \<sigma>] one(2) by (cases c) (simp_all add: junction_value_def)
        then have "denotes s w ?v" using ws(1) one by (simp add: denotes_def)
        then show ?thesis using s one e by (intro op_ok_value) simp_all
      next
        case more
        let ?k = "if c then KAnd ws else KOr ws"
        have "op_ok (intern_bool ?k) s (\<lambda>r s'. denotes s' r ?v)"
        proof (rule intern_bool_value [OF s])
          fix s' t \<sigma> assume a: "store_ok s'" "extends s s'" "t < length (ts_nodes s')" "node_kind s' t = ?k"
          have "term_value s' \<sigma> w = term_value s \<sigma> w" if "w \<in> set ws" for w
            using extends_value [OF a(2)] ws(1) that by (simp add: bool_term_def)
          then have m: "map (term_value s' \<sigma>) ws = map (term_value s \<sigma>) ws" by simp
          have "term_value s' \<sigma> t = junction_value c (map (term_value s' \<sigma>) ws)"
            using a term_value_simps(4,5) [OF a(1,3)] by (cases c) (simp_all add: junction_value_def list_all_iff list_ex_iff)
          then show "term_value s' \<sigma> t = ?v \<sigma>" unfolding m ws(2) .
        qed (use ws(1) in \<open>simp_all split: if_splits\<close>)
        moreover have "junction ts c c s = intern_bool ?k s" using more e by simp
        ultimately show ?thesis by (simp add: op_ok_def)
      qed
    qed
  qed
qed

lemma term_and_ok:
  assumes "store_ok s" "\<forall>t \<in> set ts. bool_term s t"
  shows "op_ok (term_and ts) s (\<lambda>r s'. denotes s' r (\<lambda>\<sigma>. \<forall>t \<in> set ts. term_value s \<sigma> t))"
  using junction_ok [OF assms, of True] by (simp add: term_and_def junction_value_def list_all_iff)

lemma term_or_ok:
  assumes "store_ok s" "\<forall>t \<in> set ts. bool_term s t"
  shows "op_ok (term_or ts) s (\<lambda>r s'. denotes s' r (\<lambda>\<sigma>. \<exists>t \<in> set ts. term_value s \<sigma> t))"
  using junction_ok [OF assms, of False] by (simp add: term_or_def junction_value_def list_ex_iff)

lemma term_and2_ok:
  assumes "store_ok s" "denotes s l f" "denotes s r g"
  shows "op_ok (term_and [l, r]) s (\<lambda>t s'. denotes s' t (\<lambda>\<sigma>. f \<sigma> \<and> g \<sigma>))"
  using term_and_ok [OF assms(1), of "[l, r]"] assms(2,3) by (simp add: denotes_def)

lemma term_or2_ok:
  assumes "store_ok s" "denotes s l f" "denotes s r g"
  shows "op_ok (term_or [l, r]) s (\<lambda>t s'. denotes s' t (\<lambda>\<sigma>. f \<sigma> \<or> g \<sigma>))"
  using term_or_ok [OF assms(1), of "[l, r]"] assms(2,3) by (simp add: denotes_def)

subsection \<open>Exclusive or, equivalence and implication\<close>

lemma complements_value:
  assumes s: "store_ok s" and b: "bool_term s l" "bool_term s r" and c: "are_complements s l r"
  shows "term_value s \<sigma> l = (\<not> term_value s \<sigma> r)"
  using c term_value_simps(3) [OF s, of l r \<sigma>] term_value_simps(3) [OF s, of r l \<sigma>] b
  by (auto simp: are_complements_def bool_term_def)

lemma intern_pair:
  assumes s: "store_ok s" and b: "bool_term s l" "bool_term s r" and p: "ordered_pair l r = (a, b)"
    and k: "k = KXor \<or> k = KIff"
  shows "op_ok (intern_bool (k a b)) s
    (\<lambda>t s'. denotes s' t (\<lambda>\<sigma>. (term_value s \<sigma> l = term_value s \<sigma> r) = (k = KIff)))"
proof (rule intern_bool_value [OF s])
  have ab: "bool_term s a" "bool_term s b" "\<And>\<sigma>. (term_value s \<sigma> a = term_value s \<sigma> b) = (term_value s \<sigma> l = term_value s \<sigma> r)"
    using b p by (auto simp: ordered_pair_def split: if_splits)
  show "bool_kind (k a b)" "kind_symbol (k a b) = None" using k by auto
  show "\<forall>c \<in> set (bool_children (k a b)). bool_term s c" using k ab by auto
  fix s' t \<sigma> assume a: "store_ok s'" "extends s s'" "t < length (ts_nodes s')" "node_kind s' t = k a b"
  have v: "term_value s' \<sigma> x = term_value s \<sigma> x" if "bool_term s x" for x
    using extends_value [OF a(2)] that by (simp add: bool_term_def)
  have ne: "KXor \<noteq> KIff" by (simp add: fun_eq_iff)
  show "term_value s' \<sigma> t = ((term_value s \<sigma> l = term_value s \<sigma> r) = (k = KIff))"
    using k
  proof
    assume x: "k = KXor"
    then have "term_value s' \<sigma> t = (term_value s' \<sigma> a \<noteq> term_value s' \<sigma> b)"
      using a(4) by (intro term_value_simps(6) [OF a(1,3)]) simp
    then show ?thesis using x ne ab v by simp
  next
    assume i: "k = KIff"
    then have "term_value s' \<sigma> t = (term_value s' \<sigma> a = term_value s' \<sigma> b)"
      using a(4) by (intro term_value_simps(7) [OF a(1,3)]) simp
    then show ?thesis using i ab v by simp
  qed
qed

text \<open>Both follow one pattern; \<open>n\<close> is the neutral constant.\<close>

lemma equivalence_ok:
  assumes s: "store_ok s" and l: "denotes s l f" and r: "denotes s r g"
    and e: "m s = (if l = r then (Inr (bool_constant n s), s)
      else if are_complements s l r then (Inr (bool_constant (\<not> n) s), s)
      else if node_kind s l = KBool n then (Inr r, s)
      else if node_kind s r = KBool n then (Inr l, s)
      else if node_kind s l = KBool (\<not> n) then term_not r s
      else if node_kind s r = KBool (\<not> n) then term_not l s
      else (case ordered_pair l r of (a, b) \<Rightarrow> intern_bool ((if n then KIff else KXor) a b) s))"
  shows "op_ok m s (\<lambda>t s'. denotes s' t (\<lambda>\<sigma>. (f \<sigma> = g \<sigma>) = n))"
proof -
  let ?Q = "\<lambda>t s'. denotes s' t (\<lambda>\<sigma>. (f \<sigma> = g \<sigma>) = n)"
  have b: "bool_term s l" "bool_term s r" "l < length (ts_nodes s)" "r < length (ts_nodes s)"
    using l r by (simp_all add: denotes_def bool_term_def)
  have v: "term_value s \<sigma> l = f \<sigma>" "term_value s \<sigma> r = g \<sigma>" for \<sigma> using l r by (simp_all add: denotes_def)
  note kv = term_value_simps(1) [OF s b(3)] term_value_simps(1) [OF s b(4)]
  let ?kl = "node_kind s l" and ?kr = "node_kind s r"
  have pass: "op_ok m s ?Q" if "m s = (Inr x, s)" "denotes s x h" "\<And>\<sigma>. h \<sigma> = ((f \<sigma> = g \<sigma>) = n)" for x h
    by (rule op_ok_value [where m = m and s = s and x = x, OF s that(1)]) (rule denotes_cong [OF that(2,3)])
  have neg: "op_ok m s ?Q" if "m s = term_not x s" "denotes s x h" "\<And>\<sigma>. (\<not> h \<sigma>) = ((f \<sigma> = g \<sigma>) = n)" for x h
  proof -
    have "op_ok (term_not x) s ?Q"
      by (rule op_ok_conseq [OF term_not_ok [OF s that(2)]]) (rule denotes_cong [OF _ that(3)])
    then show ?thesis unfolding op_ok_def that(1) .
  qed
  consider (same) "l = r" | (comp) "l \<noteq> r" "are_complements s l r"
    | (a) "l \<noteq> r" "\<not> are_complements s l r" "?kl = KBool n"
    | (b) "l \<noteq> r" "\<not> are_complements s l r" "?kl \<noteq> KBool n" "?kr = KBool n"
    | (c) "l \<noteq> r" "\<not> are_complements s l r" "?kl \<noteq> KBool n" "?kr \<noteq> KBool n" "?kl = KBool (\<not> n)"
    | (d) "l \<noteq> r" "\<not> are_complements s l r" "?kl \<noteq> KBool n" "?kr \<noteq> KBool n" "?kl \<noteq> KBool (\<not> n)" "?kr = KBool (\<not> n)"
    | (other) "l \<noteq> r" "\<not> are_complements s l r" "?kl \<noteq> KBool n" "?kr \<noteq> KBool n" "?kl \<noteq> KBool (\<not> n)" "?kr \<noteq> KBool (\<not> n)"
    by blast
  then show ?thesis
  proof cases
    case same
    then have "f \<sigma> = g \<sigma>" for \<sigma> using v by metis
    then show ?thesis using same e by (intro pass [OF _ constant_ok [OF s, of n]]) simp_all
  next
    case comp
    then have "f \<sigma> = (\<not> g \<sigma>)" for \<sigma> using complements_value [OF s b(1,2)] v by simp
    then show ?thesis using comp e by (intro pass [OF _ constant_ok [OF s, of "\<not> n"]]) simp_all
  next
    case a
    have "f \<sigma> = n" for \<sigma> using kv(1) [OF a(3)] v by simp
    then have "\<And>\<sigma>. g \<sigma> = ((f \<sigma> = g \<sigma>) = n)" by auto
    moreover have "m s = (Inr r, s)" unfolding e using a by simp
    ultimately show ?thesis by (intro pass [OF _ r])
  next
    case b
    have "g \<sigma> = n" for \<sigma> using kv(2) [OF b(4)] v by simp
    then have "\<And>\<sigma>. f \<sigma> = ((f \<sigma> = g \<sigma>) = n)" by auto
    moreover have "m s = (Inr l, s)" unfolding e using b by simp
    ultimately show ?thesis by (intro pass [OF _ l])
  next
    case c
    have "f \<sigma> = (\<not> n)" for \<sigma> using kv(1) [OF c(5)] v by simp
    then have "\<And>\<sigma>. (\<not> g \<sigma>) = ((f \<sigma> = g \<sigma>) = n)" by auto
    moreover have "m s = term_not r s" unfolding e using c by simp
    ultimately show ?thesis by (intro neg [OF _ r])
  next
    case d
    have "g \<sigma> = (\<not> n)" for \<sigma> using kv(2) [OF d(6)] v by simp
    then have "\<And>\<sigma>. (\<not> f \<sigma>) = ((f \<sigma> = g \<sigma>) = n)" by auto
    moreover have "m s = term_not l s" unfolding e using d by simp
    ultimately show ?thesis by (intro neg [OF _ l])
  next
    case other
    obtain a c where p: "ordered_pair l r = (a, c)" by fastforce
    let ?k = "if n then KIff else KXor"
    have "KXor \<noteq> KIff" by (simp add: fun_eq_iff)
    then have k: "?k = KXor \<or> ?k = KIff" "(?k = KIff) = n" by auto
    have m: "m s = intern_bool (?k a c) s" using other e p by simp
    have "op_ok (intern_bool (?k a c)) s ?Q" using intern_pair [OF s b(1,2) p k(1)] unfolding k(2) v .
    then show ?thesis unfolding op_ok_def m .
  qed
qed

lemma xor_iff_ok:
  assumes s: "store_ok s" and l: "denotes s l f" and r: "denotes s r g"
  shows "op_ok (term_xor l r) s (\<lambda>t s'. denotes s' t (\<lambda>\<sigma>. f \<sigma> \<noteq> g \<sigma>))"
    "op_ok (term_iff l r) s (\<lambda>t s'. denotes s' t (\<lambda>\<sigma>. f \<sigma> = g \<sigma>))"
proof -
  have "require_bool l s = Inr ()" "require_bool r s = Inr ()"
    using require_bool_ok [OF s] denotes_bool [OF l] denotes_bool [OF r] by simp_all
  then have q: "bindE (require_bool l s) (\<lambda>_. require_bool r s) = Inr ()" by simp
  show "op_ok (term_xor l r) s (\<lambda>t s'. denotes s' t (\<lambda>\<sigma>. f \<sigma> \<noteq> g \<sigma>))"
    using equivalence_ok [OF s l r, of "term_xor l r" False] by (simp add: term_xor_def q bool_constant_def)
  show "op_ok (term_iff l r) s (\<lambda>t s'. denotes s' t (\<lambda>\<sigma>. f \<sigma> = g \<sigma>))"
    using equivalence_ok [OF s l r, of "term_iff l r" True] by (simp add: term_iff_def q bool_constant_def)
qed

lemma imply_all_ok:
  "store_ok s \<Longrightarrow> \<forall>t \<in> set as. bool_term s t \<Longrightarrow> denotes s r f \<Longrightarrow>
   op_ok (imply_all as r) s (\<lambda>t s'. denotes s' t (\<lambda>\<sigma>. (\<forall>a \<in> set as. term_value s \<sigma> a) \<longrightarrow> f \<sigma>))"
proof (induction as arbitrary: s r f)
  case Nil
  then show ?case by (simp add: op_ok_ret)
next
  case (Cons a as)
  let ?v = "term_value s"
  have n: "op_ok (term_not a) s (\<lambda>r s'. denotes s' r (\<lambda>\<sigma>. \<not> ?v \<sigma> a))"
    using Cons.prems by (intro term_not_ok denotes_self) simp_all
  show ?case
    unfolding imply_all.simps
  proof (rule op_ok_bind [OF n])
    fix x s1 assume 1: "store_ok s1" "extends s s1" "denotes s1 x (\<lambda>\<sigma>. \<not> ?v \<sigma> a)"
    have o: "op_ok (term_or [x, r]) s1 (\<lambda>t s'. denotes s' t (\<lambda>\<sigma>. \<not> ?v \<sigma> a \<or> f \<sigma>))"
      by (rule term_or2_ok [OF 1(1,3) denotes_extends [OF Cons.prems(3) 1(2)]])
    show "op_ok (bind_op (term_or [x, r]) (imply_all as)) s1
       (\<lambda>t s'. denotes s' t (\<lambda>\<sigma>. (\<forall>b \<in> set (a # as). ?v \<sigma> b) \<longrightarrow> f \<sigma>))"
    proof (rule op_ok_bind [OF o])
      fix y s2 assume 2: "store_ok s2" "extends s1 s2" "denotes s2 y (\<lambda>\<sigma>. \<not> ?v \<sigma> a \<or> f \<sigma>)"
      have e: "extends s s2" using 1(2) 2(2) extends_trans by blast
      have as: "\<forall>t \<in> set as. bool_term s2 t" using Cons.prems(2) extends_bool_term [OF e] by simp
      have "term_value s2 \<sigma> t = ?v \<sigma> t" if "t \<in> set as" for \<sigma> t
        using extends_value [OF e] Cons.prems(2) that by (simp add: bool_term_def)
      then show "op_ok (imply_all as y) s2 (\<lambda>t s'. denotes s' t (\<lambda>\<sigma>. (\<forall>b \<in> set (a # as). ?v \<sigma> b) \<longrightarrow> f \<sigma>))"
        by (intro op_ok_conseq [OF Cons.IH [OF 2(1) as 2(3)]]) (auto elim!: denotes_cong)
    qed
  qed
qed

lemma term_implies_ok:
  assumes s: "store_ok s" and ts: "\<forall>t \<in> set ts. bool_term s t" "2 \<le> length ts"
  shows "op_ok (term_implies ts) s
    (\<lambda>t s'. denotes s' t (\<lambda>\<sigma>. (\<forall>a \<in> set (butlast ts). term_value s \<sigma> a) \<longrightarrow> term_value s \<sigma> (last ts)))"
proof -
  have e: "term_implies ts = bind_op (asks (require_bools ts)) (\<lambda>_. imply_all (rev (butlast ts)) (last ts))"
    using ts(2) by (simp add: term_implies_def)
  have r: "require_bools ts s = Inr ()" using require_bools_ok [OF s] ts(1) by simp
  have l: "ts \<noteq> []" using ts(2) by auto
  have "op_ok (imply_all (rev (butlast ts)) (last ts)) s
    (\<lambda>t s'. denotes s' t (\<lambda>\<sigma>. (\<forall>a \<in> set (rev (butlast ts)). term_value s \<sigma> a) \<longrightarrow> term_value s \<sigma> (last ts)))"
    using ts l by (intro imply_all_ok s denotes_self) (auto dest: in_set_butlastD)
  then show ?thesis using r by (simp add: e op_ok_def bind_op_def asks_def)
qed

subsection \<open>The empty store\<close>

lemma ts_new_ok: "store_ok ts_new"
proof -
  have "node_ok ts_new i (ts_nodes ts_new ! i)" if "i < length (ts_nodes ts_new)" for i
  proof -
    have "i = 0 \<or> i = 1" using that by (auto simp: ts_new_def Let_def)
    then show ?thesis by (auto simp: ts_new_def Let_def node_ok_def)
  qed
  moreover have "(ts_interned ts_new n = Some i) = (i < length (ts_nodes ts_new) \<and> ts_nodes ts_new ! i = n)" for n i
    by (auto simp: ts_new_def Let_def less_Suc_eq nth_Cons')
  moreover have "(ts_sort_ids ts_new so = Some i) = (i < length (ts_sorts ts_new) \<and> ts_sorts ts_new ! i = so)" for so i
    by (auto simp: ts_new_def Let_def)
  ultimately show ?thesis unfolding store_ok_def by (auto simp: ts_new_def Let_def node_kind_def)
qed

text \<open>A store with an atom (term 2) and its negation (term 3).\<close>

definition example_store :: term_store where
  "example_store = snd (bind_op fresh_bool_atom (\<lambda>(_, a). term_not a) ts_new)"

lemma example_store_ok:
  "store_ok example_store" "bool_term example_store 3"
  "node_kind example_store 3 = KNot 2" "node_kind example_store 2 = KAtom 0"
proof -
  have a: "fresh_bool_atom ts_new = (Inr (0, 2), snd (fresh_bool_atom ts_new))"
    by (simp add: fresh_bool_atom_def bind_op_def fresh_symbol_def intern_bool_def intern_def ret_def ts_new_def Let_def)
  note f = op_okD [OF fresh_bool_atom_ok [OF ts_new_ok] a]
  have b: "bool_term (snd (fresh_bool_atom ts_new)) 2" using f(3) [OF refl] by (simp add: denotes_def)
  have e: "bind_op fresh_bool_atom (\<lambda>(_, a). term_not a) ts_new = term_not 2 (snd (fresh_bool_atom ts_new))"
    by (subst bind_op_def, subst a) simp
  note n = term_not_ok [OF f(1) denotes_self [OF b]]
  obtain r where r: "term_not 2 (snd (fresh_bool_atom ts_new)) = (r, example_store)"
    using e by (cases "term_not 2 (snd (fresh_bool_atom ts_new))") (simp add: example_store_def)
  show s: "store_ok example_store" using op_okD(1) [OF n r] .
  have "ts_nodes example_store = ts_nodes ts_new @ [\<lparr>tn_sort = 0, tn_kind = KAtom 0\<rparr>, \<lparr>tn_sort = 0, tn_kind = KNot 2\<rparr>]"
    by (simp add: example_store_def bind_op_def fresh_bool_atom_def fresh_symbol_def intern_bool_def intern_def ret_def
        ts_new_def Let_def term_not_def require_bool_def sort_id_of_def node_kind_def)
  then show "node_kind example_store 3 = KNot 2" "node_kind example_store 2 = KAtom 0" "bool_term example_store 3"
    by (simp_all add: node_kind_def bool_term_def ts_new_def Let_def)
qed

end
