(* ===== verification/Smt_Encode.thy ===== *)
theory Smt_Encode
  imports Smt_Boolean Solver_Session
begin

section \<open>The Tseitin encoder\<close>

text \<open>
  \<open>BoolEncoder\<close> of \<open>src/smt/encode.rs\<close>: every Boolean term gets a literal, and clauses that define
  it from the literals of its parts. The recursion of the code follows the nodes downwards; it
  takes fuel here, and one more than the index of the term is enough. The encoder is right in
  both directions: in every model of the clauses the literal of a term has the value of the term,
  and every model of the clauses before extends to one of the clauses after, whatever the values
  of the new atoms are.
\<close>

subsection \<open>The code\<close>

record bool_encoder =
  be_terms :: "nat \<rightharpoonup> lit"
  be_atoms :: "nat \<rightharpoonup> lit"
  be_truth :: "lit option"

definition be_default :: bool_encoder where
  "be_default = \<lparr>be_terms = Map.empty, be_atoms = Map.empty, be_truth = None\<rparr>"

text \<open>
  An encoding step returns an error or a value with the new encoder and solver. \<open>None\<close> is the
  panic on a term that is not Boolean, or the fuel running out.
\<close>

type_synonym ('a, 'f) enc_op =
  "bool_encoder \<times> 'f solver \<Rightarrow> ((incremental_error + 'a) \<times> bool_encoder \<times> 'f solver) option"

definition enc_bind :: "('a, 'f) enc_op \<Rightarrow> ('a \<Rightarrow> ('b, 'f) enc_op) \<Rightarrow> ('b, 'f) enc_op" where
  "enc_bind m f st =
     (case m st of
        None \<Rightarrow> None
      | Some (Inl e, st') \<Rightarrow> Some (Inl e, st')
      | Some (Inr x, st') \<Rightarrow> f x st')"

definition enc_ret :: "'a \<Rightarrow> ('a, 'f) enc_op" where
  "enc_ret x st = Some (Inr x, st)"

primrec enc_each :: "('t \<Rightarrow> ('a, 'f) enc_op) \<Rightarrow> 't list \<Rightarrow> ('a list, 'f) enc_op" where
  "enc_each f [] = enc_ret []"
| "enc_each f (t # ts) = enc_bind (f t) (\<lambda>x. enc_bind (enc_each f ts) (\<lambda>xs. enc_ret (x # xs)))"

definition enc_variable :: "'f::linorder float_ops \<Rightarrow> (lit, 'f) enc_op" where
  "enc_variable F = (\<lambda>(e, s).
     case new_variable F s of
       (Inl err, s') \<Rightarrow> Some (Inl err, e, s')
     | (Inr v, s') \<Rightarrow> Some (Inr (lit_positive v), e, s'))"

definition enc_clause :: "'f::linorder float_ops \<Rightarrow> lit list \<Rightarrow> (unit, 'f) enc_op" where
  "enc_clause F c = (\<lambda>(e, s). Some (Inr (), e, snd (add_encoding_clause F c s)))"

text \<open>A fresh output literal and the clauses that define it.\<close>

definition enc_gate :: "'f::linorder float_ops \<Rightarrow> (lit \<Rightarrow> lit list list) \<Rightarrow> (lit, 'f) enc_op" where
  "enc_gate F gate =
     enc_bind (enc_variable F) (\<lambda>z. enc_bind (enc_each (enc_clause F) (gate z)) (\<lambda>_. enc_ret z))"

definition and_clauses :: "lit list \<Rightarrow> lit \<Rightarrow> lit list list" where
  "and_clauses inputs z = map (\<lambda>i. [lit_not z, i]) inputs @ [z # map lit_not inputs]"

definition or_clauses :: "lit list \<Rightarrow> lit \<Rightarrow> lit list list" where
  "or_clauses inputs z = map (\<lambda>i. [lit_not i, z]) inputs @ [lit_not z # inputs]"

definition xor_clauses :: "lit \<Rightarrow> lit \<Rightarrow> lit \<Rightarrow> lit list list" where
  "xor_clauses l r z =
     [[l, r, lit_not z], [lit_not l, lit_not r, lit_not z], [l, lit_not r, z], [lit_not l, r, z]]"

definition iff_clauses :: "lit \<Rightarrow> lit \<Rightarrow> lit \<Rightarrow> lit list list" where
  "iff_clauses l r z =
     [[l, r, z], [lit_not l, lit_not r, z], [l, lit_not r, lit_not z], [lit_not l, r, lit_not z]]"

definition ite_clauses :: "lit \<Rightarrow> lit \<Rightarrow> lit \<Rightarrow> lit \<Rightarrow> lit list list" where
  "ite_clauses c t e z =
     [[lit_not c, lit_not t, z], [lit_not c, t, lit_not z], [c, lit_not e, z], [c, e, lit_not z]]"

definition truth_literal :: "'f::linorder float_ops \<Rightarrow> (lit, 'f) enc_op" where
  "truth_literal F st =
     (case be_truth (fst st) of
        Some l \<Rightarrow> Some (Inr l, st)
      | None \<Rightarrow>
          enc_bind (enc_gate F (\<lambda>z. [[z]]))
            (\<lambda>z (e, s). Some (Inr z, e\<lparr>be_truth := Some z\<rparr>, s)) st)"

definition atom_literal_for :: "'f::linorder float_ops \<Rightarrow> nat \<Rightarrow> (lit, 'f) enc_op" where
  "atom_literal_for F a st =
     (case be_atoms (fst st) a of
        Some l \<Rightarrow> Some (Inr l, st)
      | None \<Rightarrow>
          enc_bind (enc_variable F)
            (\<lambda>z (e, s). Some (Inr z, e\<lparr>be_atoms := (be_atoms e)(a \<mapsto> z)\<rparr>, s)) st)"

primrec encode :: "nat \<Rightarrow> 'f::linorder float_ops \<Rightarrow> term_store \<Rightarrow> nat \<Rightarrow> (lit, 'f) enc_op" where
  "encode 0 F terms t = (\<lambda>_. None)"
| "encode (Suc n) F terms t = (\<lambda>st.
     case be_terms (fst st) t of
       Some l \<Rightarrow> Some (Inr l, st)
     | None \<Rightarrow>
         enc_bind
           (case node_kind terms t of
              KBool b \<Rightarrow> enc_bind (truth_literal F) (\<lambda>l. enc_ret (if b then l else lit_not l))
            | KAtom a \<Rightarrow> atom_literal_for F a
            | KTheoryEquality a _ _ \<Rightarrow> atom_literal_for F a
            | KArithmeticPredicate a _ _ \<Rightarrow> atom_literal_for F a
            | KNot u \<Rightarrow> enc_bind (encode n F terms u) (\<lambda>l. enc_ret (lit_not l))
            | KAnd us \<Rightarrow> enc_bind (enc_each (encode n F terms) us) (\<lambda>ls. enc_gate F (and_clauses ls))
            | KOr us \<Rightarrow> enc_bind (enc_each (encode n F terms) us) (\<lambda>ls. enc_gate F (or_clauses ls))
            | KXor l r \<Rightarrow>
                enc_bind (encode n F terms l) (\<lambda>l'. enc_bind (encode n F terms r) (\<lambda>r'. enc_gate F (xor_clauses l' r')))
            | KIff l r \<Rightarrow>
                enc_bind (encode n F terms l) (\<lambda>l'. enc_bind (encode n F terms r) (\<lambda>r'. enc_gate F (iff_clauses l' r')))
            | KIte c u v \<Rightarrow>
                enc_bind (encode n F terms c) (\<lambda>c'. enc_bind (encode n F terms u) (\<lambda>u'.
                  enc_bind (encode n F terms v) (\<lambda>v'. enc_gate F (ite_clauses c' u' v'))))
            | _ \<Rightarrow> (\<lambda>_. None))
           (\<lambda>l (e, s). Some (Inr l, e\<lparr>be_terms := (be_terms e)(t \<mapsto> l)\<rparr>, s)) st)"

definition atom_literal :: "bool_encoder \<Rightarrow> nat \<Rightarrow> lit option" where
  "atom_literal e a = be_atoms e a"

subsection \<open>The invariant\<close>

text \<open>\<open>\<alpha>\<close> gives the atoms the values their literals have under \<open>\<sigma>\<close>.\<close>

definition agrees :: "bool_encoder \<Rightarrow> valuation \<Rightarrow> (nat \<Rightarrow> bool) \<Rightarrow> bool" where
  "agrees e \<sigma> \<alpha> \<longleftrightarrow> (\<forall>a l. be_atoms e a = Some l \<longrightarrow> \<alpha> a = lit_true \<sigma> l)"

definition enc_ok :: "term_store \<Rightarrow> lit list set \<Rightarrow> bool_encoder \<times> 'f solver \<Rightarrow> bool" where
  "enc_ok terms G = (\<lambda>(e, s). solver_ok G s
     \<and> (\<forall>t l. be_terms e t = Some l \<longrightarrow> lit_ok s l \<and> bool_term terms t
          \<and> (\<forall>\<sigma> \<alpha>. models \<sigma> G \<longrightarrow> agrees e \<sigma> \<alpha> \<longrightarrow> lit_true \<sigma> l = term_value terms \<alpha> t))
     \<and> (\<forall>a l. be_atoms e a = Some l \<longrightarrow> lit_ok s l)
     \<and> (\<forall>l. be_truth e = Some l \<longrightarrow> lit_ok s l \<and> (\<forall>\<sigma>. models \<sigma> G \<longrightarrow> lit_true \<sigma> l)))"

text \<open>From \<open>st\<close> to \<open>st'\<close> only definitions are added.\<close>

definition enc_grows :: "lit list set \<Rightarrow> bool_encoder \<times> 'f solver \<Rightarrow> lit list set \<Rightarrow> bool_encoder \<times> 'f solver \<Rightarrow> bool" where
  "enc_grows G st G' st' \<longleftrightarrow> G \<subseteq> G' \<and> be_atoms (fst st) \<subseteq>\<^sub>m be_atoms (fst st')
     \<and> nvars (snd st) \<le> nvars (snd st') \<and> s_scope_selectors (snd st') = s_scope_selectors (snd st)
     \<and> (\<forall>\<sigma> \<alpha>. models \<sigma> G \<longrightarrow> agrees (fst st) \<sigma> \<alpha> \<longrightarrow>
          (\<exists>\<sigma>'. models \<sigma>' G' \<and> agrees (fst st') \<sigma>' \<alpha> \<and> (\<forall>v. var_index v < nvars (snd st) \<longrightarrow> \<sigma>' v = \<sigma> v)))"

text \<open>
  The step \<open>m\<close> from \<open>st\<close>: it returns, the invariant holds again, and a value it returns
  satisfies \<open>Q\<close>. The only error is the variable limit.
\<close>

definition enc_does :: "term_store \<Rightarrow> lit list set \<Rightarrow> bool_encoder \<times> 'f solver \<Rightarrow> ('a, 'f) enc_op
    \<Rightarrow> ('a \<Rightarrow> lit list set \<Rightarrow> bool_encoder \<times> 'f solver \<Rightarrow> bool) \<Rightarrow> bool" where
  "enc_does terms G st m Q \<longleftrightarrow>
     (\<exists>r st' G'. m st = Some (r, st') \<and> enc_ok terms G' st' \<and> enc_grows G st G' st'
        \<and> (case r of Inl err \<Rightarrow> err = VariableLimit | Inr x \<Rightarrow> Q x G' st'))"

lemma agrees_mono: "agrees e' \<sigma> \<alpha> \<Longrightarrow> be_atoms e \<subseteq>\<^sub>m be_atoms e' \<Longrightarrow> agrees e \<sigma> \<alpha>"
  by (force simp: agrees_def map_le_def dom_def)

lemma models_mono: "models \<sigma> G' \<Longrightarrow> G \<subseteq> G' \<Longrightarrow> models \<sigma> G"
  by (auto simp: models_def)

lemma enc_grows_refl: "enc_grows G st G st"
  by (auto simp: enc_grows_def)

lemma enc_grows_extend:
  assumes "enc_grows G st G' st'" "models \<sigma> G" "agrees (fst st) \<sigma> \<alpha>"
  obtains \<sigma>' where "models \<sigma>' G'" "agrees (fst st') \<sigma>' \<alpha>" "\<And>v. var_index v < nvars (snd st) \<Longrightarrow> \<sigma>' v = \<sigma> v"
  using assms unfolding enc_grows_def by blast

lemma enc_grows_trans:
  assumes a: "enc_grows G st G1 st1" and b: "enc_grows G1 st1 G2 st2"
  shows "enc_grows G st G2 st2"
proof -
  have "\<exists>\<sigma>'. models \<sigma>' G2 \<and> agrees (fst st2) \<sigma>' \<alpha> \<and> (\<forall>v. var_index v < nvars (snd st) \<longrightarrow> \<sigma>' v = \<sigma> v)"
    if m: "models \<sigma> G" "agrees (fst st) \<sigma> \<alpha>" for \<sigma> \<alpha>
  proof -
    obtain \<sigma>1 where 1: "models \<sigma>1 G1" "agrees (fst st1) \<sigma>1 \<alpha>" "\<And>v. var_index v < nvars (snd st) \<Longrightarrow> \<sigma>1 v = \<sigma> v"
      by (rule enc_grows_extend [OF a m]) blast
    obtain \<sigma>2 where 2: "models \<sigma>2 G2" "agrees (fst st2) \<sigma>2 \<alpha>" "\<And>v. var_index v < nvars (snd st1) \<Longrightarrow> \<sigma>2 v = \<sigma>1 v"
      by (rule enc_grows_extend [OF b 1(1,2)]) blast
    have "nvars (snd st) \<le> nvars (snd st1)" using a by (simp add: enc_grows_def)
    then show ?thesis using 1(3) 2 by (intro exI [of _ \<sigma>2]) simp
  qed
  then show ?thesis
    using a b map_le_trans by (auto simp: enc_grows_def)
qed

lemma enc_does_ret: "enc_ok terms G st \<Longrightarrow> Q x G st \<Longrightarrow> enc_does terms G st (enc_ret x) Q"
  using enc_grows_refl by (fastforce simp: enc_does_def enc_ret_def)

lemma enc_does_bind:
  assumes m: "enc_does terms G st m P"
    and f: "\<And>x G' st'. enc_ok terms G' st' \<Longrightarrow> enc_grows G st G' st' \<Longrightarrow> P x G' st' \<Longrightarrow> enc_does terms G' st' (f x) Q"
  shows "enc_does terms G st (enc_bind m f) Q"
proof -
  obtain r st1 G1 where 1: "m st = Some (r, st1)" "enc_ok terms G1 st1" "enc_grows G st G1 st1"
    "case r of Inl err \<Rightarrow> err = VariableLimit | Inr x \<Rightarrow> P x G1 st1"
    using m by (auto simp: enc_does_def)
  show ?thesis
  proof (cases r)
    case (Inl err)
    then show ?thesis using 1 by (auto simp: enc_does_def enc_bind_def)
  next
    case (Inr x)
    then have "enc_does terms G1 st1 (f x) Q" using f [OF 1(2,3)] 1(4) by simp
    then obtain r2 st2 G2 where 2: "f x st1 = Some (r2, st2)" "enc_ok terms G2 st2" "enc_grows G1 st1 G2 st2"
      "case r2 of Inl err \<Rightarrow> err = VariableLimit | Inr y \<Rightarrow> Q y G2 st2"
      by (auto simp: enc_does_def)
    have "enc_bind m f st = Some (r2, st2)" using 1(1) 2(1) Inr by (simp add: enc_bind_def)
    then show ?thesis using 2 enc_grows_trans [OF 1(3) 2(3)] unfolding enc_does_def by blast
  qed
qed

lemma enc_does_conseq:
  assumes "enc_does terms G st m P"
    "\<And>x G' st'. enc_ok terms G' st' \<Longrightarrow> enc_grows G st G' st' \<Longrightarrow> P x G' st' \<Longrightarrow> Q x G' st'"
  shows "enc_does terms G st m Q"
proof -
  obtain r st' G' where 1: "m st = Some (r, st')" "enc_ok terms G' st'" "enc_grows G st G' st'"
    "case r of Inl err \<Rightarrow> err = VariableLimit | Inr x \<Rightarrow> P x G' st'"
    using assms(1) by (auto simp: enc_does_def)
  moreover have "case r of Inl err \<Rightarrow> err = VariableLimit | Inr x \<Rightarrow> Q x G' st'"
    using 1 assms(2) by (cases r) simp_all
  ultimately show ?thesis unfolding enc_does_def by blast
qed

lemma enc_does_value:
  assumes "m st = Some (Inr x, st')" "enc_ok terms G' st'" "enc_grows G st G' st'" "Q x G' st'"
  shows "enc_does terms G st m Q"
  unfolding enc_does_def using assms by (intro exI [of _ "Inr x"] exI [of _ st'] exI [of _ G']) simp

lemma enc_does_error:
  assumes "m st = Some (Inl VariableLimit, st)" "enc_ok terms G st"
  shows "enc_does terms G st m Q"
  unfolding enc_does_def using assms enc_grows_refl by (intro exI [of _ "Inl VariableLimit"] exI [of _ st] exI [of _ G]) simp

subsection \<open>Fresh variables and gates\<close>

lemma stored_range:
  assumes "solver_ok G s" "c \<in> G" "l \<in> set c" shows "lit_ok s l"
  using assms settledD(3) [of G s] unfolding solver_ok_def coverage_ok_def by blast

text \<open>Changing a variable the clauses do not mention.\<close>

lemma fresh_models:
  assumes s: "solver_ok G s" and e: "\<And>v. var_index v < nvars s \<Longrightarrow> \<tau> v = \<sigma> v"
  shows "models \<tau> G = models \<sigma> G"
proof -
  have "lit_true \<tau> l = lit_true \<sigma> l" if "c \<in> G" "l \<in> set c" for c l
    using stored_range [OF s that] e by (simp add: lit_true_def lit_ok_def)
  then show ?thesis by (auto simp: models_def clause_true_def)
qed

lemma fresh_agrees:
  assumes "enc_ok terms G (e, s)" "\<And>v. var_index v < nvars s \<Longrightarrow> \<tau> v = \<sigma> v"
  shows "agrees e \<tau> \<alpha> = agrees e \<sigma> \<alpha>"
proof -
  have "lit_true \<tau> l = lit_true \<sigma> l" if "be_atoms e a = Some l" for a l
    using assms that by (auto simp: enc_ok_def lit_true_def lit_ok_def)
  then show ?thesis by (auto simp: agrees_def)
qed

lemma new_variable_enc:
  assumes s: "solver_ok G s"
  shows "new_variable F s = (Inl VariableLimit, s) \<or>
    (\<exists>v s'. new_variable F s = (Inr v, s') \<and> solver_ok G s' \<and> var_index v = nvars s \<and> var_ok v \<and> nvars s' = Suc (nvars s)
      \<and> s_scope_selectors s' = s_scope_selectors s)"
proof (cases "nvars s = MAX_VARIABLES")
  case True
  then show ?thesis by (simp add: new_variable_ok [OF s])
next
  case False
  then have n: "nvars s < MAX_VARIABLES" using variable_count(2) [OF s] by simp
  have g: "nvars s < nvars s + 1" "nvars s + 1 \<le> MAX_VARIABLES" using n by simp_all
  note k = enlarged_ok [OF s g, of F]
  have "var_index (Var (of_nat (nvars s))) = nvars s" using n by (rule var_index_of_nat)
  then show ?thesis using False n k by (simp add: new_variable_ok [OF s] var_ok_def)
qed

lemma lit_positive_simps:
  "var_ok v \<Longrightarrow> lit_var (lit_positive v) = v" "var_ok v \<Longrightarrow> is_positive (lit_positive v)"
  using lit_var_new [of v True] is_positive_new [of v True] by (simp_all add: lit_new_def)

lemma enc_clauses_run:
  assumes "solver_ok G s" "\<forall>c \<in> set cs. \<forall>l \<in> set c. lit_ok s l"
  shows "\<exists>us s'. enc_each (enc_clause F) cs (e, s) = Some (Inr us, e, s') \<and> solver_ok (G \<union> set cs) s'
    \<and> nvars s' = nvars s \<and> s_scope_selectors s' = s_scope_selectors s"
  using assms
proof (induction cs arbitrary: G s)
  case Nil
  then show ?case by (simp add: enc_ret_def)
next
  case (Cons c cs)
  obtain b s1 where a: "add_clause_internal F c False False EncodingClause s = (b, s1)" by fastforce
  have g: "guarded_clause False (s_scope_selectors s) c = c" by (simp add: guarded_clause_def)
  note k = add_clause_internal_ok [OF Cons.prems(1) a, unfolded g]
  have "needed c (nvars s) \<le> nvars s" using Cons.prems(2) by (simp add: needed_less lit_ok_def)
  then have n: "nvars s1 = nvars s" using k(7) needed_append [of "nvars s" c] by simp
  have "\<forall>c \<in> set cs. \<forall>l \<in> set c. lit_ok s1 l" using Cons.prems(2) n by (simp add: lit_ok_def)
  from Cons.IH [OF ready_solver_ok [OF k(1)] this]
  obtain us s' where "enc_each (enc_clause F) cs (e, s1) = Some (Inr us, e, s')" "solver_ok (insert c G \<union> set cs) s'"
    "nvars s' = nvars s1" "s_scope_selectors s' = s_scope_selectors s1" by blast
  moreover have "enc_clause F c (e, s) = Some (Inr (), e, s1)" by (simp add: enc_clause_def add_encoding_clause_def a)
  ultimately show ?case using n k(3) by (simp add: enc_bind_def enc_ret_def)
qed

text \<open>A gate whose clauses say exactly that the output has a value that older variables determine.\<close>

lemma enc_gate_ok:
  assumes k: "enc_ok terms G (e, s)"
    and lits: "\<And>z c l. lit_var z \<notin> {v. lit_ok s (lit_positive v)} \<Longrightarrow> c \<in> set (gate z) \<Longrightarrow> l \<in> set c \<Longrightarrow> lit_ok s l \<or> lit_var l = lit_var z"
    and def: "\<And>\<sigma> z. (\<forall>c \<in> set (gate z). clause_true \<sigma> c) \<longleftrightarrow> lit_true \<sigma> z = val \<sigma>"
    and old: "\<And>\<sigma> \<tau>. (\<And>v. var_index v < nvars s \<Longrightarrow> \<tau> v = \<sigma> v) \<Longrightarrow> val \<tau> = val \<sigma>"
  shows "enc_does terms G (e, s) (enc_gate F gate)
    (\<lambda>z G' st'. lit_ok (snd st') z \<and> fst st' = e \<and> (\<forall>\<sigma>. models \<sigma> G' \<longrightarrow> lit_true \<sigma> z = val \<sigma>))"
proof -
  have s: "solver_ok G s" using k by (simp add: enc_ok_def)
  consider "new_variable F s = (Inl VariableLimit, s)"
    | v s1 where "new_variable F s = (Inr v, s1)" "solver_ok G s1" "var_index v = nvars s" "var_ok v"
        "nvars s1 = Suc (nvars s)" "s_scope_selectors s1 = s_scope_selectors s"
    using new_variable_enc [OF s, of F] by blast
  then show ?thesis
  proof cases
    case 1
    then have "enc_gate F gate (e, s) = Some (Inl VariableLimit, e, s)" by (simp add: enc_gate_def enc_bind_def enc_variable_def)
    then show ?thesis using k by (rule enc_does_error)
  next
    case 2
    let ?z = "lit_positive v"
    have z: "lit_var ?z = v" "is_positive ?z" using lit_positive_simps 2(4) by simp_all
    have zo: "\<not> lit_ok s ?z" using 2(3) z by (simp add: lit_ok_def)
    have "lit_ok s1 l" if "c \<in> set (gate ?z)" "l \<in> set c" for c l
      using lits [of ?z c l] that zo z 2(3,5) by (auto simp: lit_ok_def)
    then obtain us s2 where c: "enc_each (enc_clause F) (gate ?z) (e, s1) = Some (Inr us, e, s2)"
      "solver_ok (G \<union> set (gate ?z)) s2" "nvars s2 = nvars s1" "s_scope_selectors s2 = s_scope_selectors s1"
      using enc_clauses_run [OF 2(2), of "gate ?z" F e] by blast
    let ?G = "G \<union> set (gate ?z)"
    have run: "enc_gate F gate (e, s) = Some (Inr ?z, e, s2)"
      using 2(1) c(1) by (simp add: enc_gate_def enc_bind_def enc_variable_def enc_ret_def)
    have mz: "models \<sigma> ?G \<longleftrightarrow> models \<sigma> G \<and> lit_true \<sigma> ?z = val \<sigma>" for \<sigma>
      using def [of ?z \<sigma>] by (auto simp: models_def)
    have lo: "lit_ok s l \<Longrightarrow> lit_ok s2 l" for l using c(3) 2(5) by (simp add: lit_ok_def)
    have "enc_ok terms ?G (e, s2)"
      using k c(2) lo mz by (auto simp: enc_ok_def)
    moreover have "enc_grows G (e, s) ?G (e, s2)"
    proof -
      have "\<exists>\<sigma>'. models \<sigma>' ?G \<and> agrees e \<sigma>' \<alpha> \<and> (\<forall>v. var_index v < nvars s \<longrightarrow> \<sigma>' v = \<sigma> v)"
        if m: "models \<sigma> G" "agrees e \<sigma> \<alpha>" for \<sigma> \<alpha>
      proof -
        let ?\<tau> = "\<sigma>(v := val \<sigma>)"
        have same: "?\<tau> u = \<sigma> u" if "var_index u < nvars s" for u using that 2(3) by auto
        have "lit_true ?\<tau> ?z = val \<sigma>" by (simp add: lit_true_def z)
        moreover have "val ?\<tau> = val \<sigma>" by (rule old [OF same])
        ultimately have "models ?\<tau> ?G" using mz m(1) fresh_models [OF s, of ?\<tau> \<sigma>] same by simp
        moreover have "agrees e ?\<tau> \<alpha>" using m(2) fresh_agrees [OF k, of ?\<tau> \<sigma> \<alpha>] same by simp
        ultimately show ?thesis using same by blast
      qed
      then show ?thesis using c(3,4) 2(5,6) by (simp add: enc_grows_def)
    qed
    moreover have "lit_ok s2 ?z" using c(3) 2(3,5) z by (simp add: lit_ok_def)
    ultimately show ?thesis 
      by (intro enc_does_value [where m = "enc_gate F gate" and st = "(e, s)" and x = ?z and st' = "(e, s2)", OF run])
        (auto simp: mz)
  qed
qed

subsection \<open>The literal of a term\<close>

text \<open>\<open>l\<close> has the value \<open>f\<close>, a function of the atoms, in every model of the clauses.\<close>

definition lit_means :: "lit \<Rightarrow> ((nat \<Rightarrow> bool) \<Rightarrow> bool) \<Rightarrow> lit list set \<Rightarrow> bool_encoder \<times> 'f solver \<Rightarrow> bool" where
  "lit_means l f G st \<longleftrightarrow> lit_ok (snd st) l
     \<and> (\<forall>\<sigma> \<alpha>. models \<sigma> G \<longrightarrow> agrees (fst st) \<sigma> \<alpha> \<longrightarrow> lit_true \<sigma> l = f \<alpha>)"

lemma lit_means_grows: "lit_means l f G st \<Longrightarrow> enc_grows G st G' st' \<Longrightarrow> lit_means l f G' st'"
proof -
  assume m: "lit_means l f G st" and g: "enc_grows G st G' st'"
  have "G \<subseteq> G'" "be_atoms (fst st) \<subseteq>\<^sub>m be_atoms (fst st')" "nvars (snd st) \<le> nvars (snd st')"
    using g by (simp_all add: enc_grows_def)
  then show ?thesis
    using m models_mono [of _ G' G] agrees_mono [of "fst st'" _ _ "fst st"] by (auto simp: lit_means_def lit_ok_def)
qed

lemma lit_means_not: "lit_means l f G st \<Longrightarrow> lit_means (lit_not l) (\<lambda>\<alpha>. \<not> f \<alpha>) G st"
  by (auto simp: lit_means_def)

lemma lit_means_value: "lit_means l f G st \<Longrightarrow> models \<sigma> G \<Longrightarrow> agrees (fst st) \<sigma> \<alpha> \<Longrightarrow> lit_true \<sigma> l = f \<alpha>"
  by (simp add: lit_means_def)

lemma gate_means:
  assumes k: "enc_ok terms G st"
    and lits: "\<And>z c l. lit_var z \<notin> {v. lit_ok (snd st) (lit_positive v)} \<Longrightarrow> c \<in> set (gate z) \<Longrightarrow> l \<in> set c
      \<Longrightarrow> lit_ok (snd st) l \<or> lit_var l = lit_var z"
    and def: "\<And>\<sigma> z. (\<forall>c \<in> set (gate z). clause_true \<sigma> c) \<longleftrightarrow> lit_true \<sigma> z = val \<sigma>"
    and old: "\<And>\<sigma> \<tau>. (\<And>l. lit_ok (snd st) l \<Longrightarrow> lit_true \<tau> l = lit_true \<sigma> l) \<Longrightarrow> val \<tau> = val \<sigma>"
    and f: "\<And>\<sigma> \<alpha>. models \<sigma> G \<Longrightarrow> agrees (fst st) \<sigma> \<alpha> \<Longrightarrow> val \<sigma> = f \<alpha>"
  shows "enc_does terms G st (enc_gate F gate) (\<lambda>z G' st'. fst st' = fst st \<and> lit_means z f G' st'
    \<and> (\<forall>\<sigma>. models \<sigma> G' \<longrightarrow> lit_true \<sigma> z = val \<sigma>))"
proof -
  obtain e s where st: "st = (e, s)" by fastforce
  have o: "val \<tau> = val \<sigma>" if "\<And>v. var_index v < nvars s \<Longrightarrow> \<tau> v = \<sigma> v" for \<sigma> \<tau>
    by (rule old) (use that in \<open>simp add: lit_ok_def lit_true_def st\<close>)
  note g = enc_gate_ok [where F = F and gate = gate and val = val, OF k [unfolded st] lits [unfolded st snd_conv] def o]
  show ?thesis
    unfolding st
  proof (rule enc_does_conseq [OF g])
    fix z G' st' assume a: "enc_grows G (e, s) G' st'" "lit_ok (snd st') z \<and> fst st' = e \<and> (\<forall>\<sigma>. models \<sigma> G' \<longrightarrow> lit_true \<sigma> z = val \<sigma>)"
    have "G \<subseteq> G'" using a(1) by (simp add: enc_grows_def)
    then show "fst st' = fst (e, s) \<and> lit_means z f G' st' \<and> (\<forall>\<sigma>. models \<sigma> G' \<longrightarrow> lit_true \<sigma> z = val \<sigma>)"
      using a(2) f models_mono unfolding lit_means_def st by auto
  qed
qed

text \<open>The gates of the connectives.\<close>

lemma clause_true_simps [simp]:
  "clause_true \<sigma> [] = False" "clause_true \<sigma> (l # c) = (lit_true \<sigma> l \<or> clause_true \<sigma> c)"
  by (auto simp: clause_true_def)

lemma and_gate:
  "(\<forall>c \<in> set (and_clauses ls z). clause_true \<sigma> c) \<longleftrightarrow> lit_true \<sigma> z = (\<forall>l \<in> set ls. lit_true \<sigma> l)"
  by (auto simp: and_clauses_def clause_true_def)

lemma or_gate:
  "(\<forall>c \<in> set (or_clauses ls z). clause_true \<sigma> c) \<longleftrightarrow> lit_true \<sigma> z = (\<exists>l \<in> set ls. lit_true \<sigma> l)"
  by (auto simp: or_clauses_def clause_true_def)

lemma xor_gate:
  "(\<forall>c \<in> set (xor_clauses l r z). clause_true \<sigma> c) \<longleftrightarrow> lit_true \<sigma> z = (lit_true \<sigma> l \<noteq> lit_true \<sigma> r)"
  by (auto simp: xor_clauses_def)

lemma iff_gate:
  "(\<forall>c \<in> set (iff_clauses l r z). clause_true \<sigma> c) \<longleftrightarrow> lit_true \<sigma> z = (lit_true \<sigma> l = lit_true \<sigma> r)"
  by (auto simp: iff_clauses_def)

lemma ite_gate:
  "(\<forall>x \<in> set (ite_clauses c t e z). clause_true \<sigma> x) \<longleftrightarrow>
   lit_true \<sigma> z = (if lit_true \<sigma> c then lit_true \<sigma> t else lit_true \<sigma> e)"
  by (auto simp: ite_clauses_def)

lemma truth_gate: "(\<forall>c \<in> set [[z]]. clause_true \<sigma> c) \<longleftrightarrow> lit_true \<sigma> z = True"
  by simp

text \<open>All literals of the gate are inputs or the output.\<close>

lemma gate_literals:
  "x \<in> set (and_clauses ls z) \<Longrightarrow> l \<in> set x \<Longrightarrow> l \<in> set ls \<or> lit_not l \<in> set ls \<or> lit_var l = lit_var z"
  "x \<in> set (or_clauses ls z) \<Longrightarrow> l \<in> set x \<Longrightarrow> l \<in> set ls \<or> lit_not l \<in> set ls \<or> lit_var l = lit_var z"
  "x \<in> set (xor_clauses a b z) \<Longrightarrow> l \<in> set x \<Longrightarrow> l \<in> {a, b} \<or> lit_not l \<in> {a, b} \<or> lit_var l = lit_var z"
  "x \<in> set (iff_clauses a b z) \<Longrightarrow> l \<in> set x \<Longrightarrow> l \<in> {a, b} \<or> lit_not l \<in> {a, b} \<or> lit_var l = lit_var z"
  "x \<in> set (ite_clauses a b d z) \<Longrightarrow> l \<in> set x \<Longrightarrow> l \<in> {a, b, d} \<or> lit_not l \<in> {a, b, d} \<or> lit_var l = lit_var z"
  by (auto simp: and_clauses_def or_clauses_def xor_clauses_def iff_clauses_def ite_clauses_def)

text \<open>Entering a literal into a table of the encoder.\<close>

lemma enc_truth_set:
  assumes k: "enc_ok terms G (e, s)" and l: "lit_means l (\<lambda>_. True) G (e, s)" "\<forall>\<sigma>. models \<sigma> G \<longrightarrow> lit_true \<sigma> l"
  shows "enc_ok terms G (e\<lparr>be_truth := Some l\<rparr>, s)" "enc_grows G (e, s) G (e\<lparr>be_truth := Some l\<rparr>, s)"
    "lit_means l (\<lambda>_. True) G (e\<lparr>be_truth := Some l\<rparr>, s)"
proof -
  have a: "agrees (e\<lparr>be_truth := Some l\<rparr>) = agrees e" by (simp add: agrees_def fun_eq_iff)
  show "enc_ok terms G (e\<lparr>be_truth := Some l\<rparr>, s)" using k l by (simp add: enc_ok_def a lit_means_def)
  show "enc_grows G (e, s) G (e\<lparr>be_truth := Some l\<rparr>, s)" by (auto simp: enc_grows_def a)
  show "lit_means l (\<lambda>_. True) G (e\<lparr>be_truth := Some l\<rparr>, s)" using l by (simp add: lit_means_def)
qed

lemma enc_term_set:
  assumes k: "enc_ok terms G (e, s)" and t: "bool_term terms t" and l: "lit_means l (\<lambda>\<alpha>. term_value terms \<alpha> t) G (e, s)"
  shows "enc_ok terms G (e\<lparr>be_terms := (be_terms e)(t \<mapsto> l)\<rparr>, s)"
    "enc_grows G (e, s) G (e\<lparr>be_terms := (be_terms e)(t \<mapsto> l)\<rparr>, s)"
    "lit_means l (\<lambda>\<alpha>. term_value terms \<alpha> t) G (e\<lparr>be_terms := (be_terms e)(t \<mapsto> l)\<rparr>, s)"
proof -
  let ?e = "e\<lparr>be_terms := (be_terms e)(t \<mapsto> l)\<rparr>"
  have a: "agrees ?e = agrees e" by (simp add: agrees_def fun_eq_iff)
  show "enc_ok terms G (?e, s)" using k l t by (auto simp: enc_ok_def a lit_means_def)
  show "enc_grows G (e, s) G (?e, s)" by (auto simp: enc_grows_def a)
  show "lit_means l (\<lambda>\<alpha>. term_value terms \<alpha> t) G (?e, s)" using l by (simp add: lit_means_def a)
qed

lemma truth_literal_ok:
  assumes k: "enc_ok terms G st"
  shows "enc_does terms G st (truth_literal F) (\<lambda>l G' st'. lit_means l (\<lambda>_. True) G' st')"
proof (cases "be_truth (fst st)")
  case (Some l)
  have "lit_means l (\<lambda>_. True) G st" using k Some by (auto simp: enc_ok_def lit_means_def)
  moreover have "truth_literal F st = Some (Inr l, st)" using Some by (simp add: truth_literal_def)
  ultimately show ?thesis using k enc_grows_refl by (intro enc_does_value [where x = l and G' = G])
next
  case None
  let ?set = "\<lambda>z (e, s). Some (Inr z, e\<lparr>be_truth := Some z\<rparr>, s)"
  have gate: "enc_does terms G st (enc_gate F (\<lambda>z. [[z]]))
     (\<lambda>z G' st'. fst st' = fst st \<and> lit_means z (\<lambda>_. True) G' st' \<and> (\<forall>\<sigma>. models \<sigma> G' \<longrightarrow> lit_true \<sigma> z = True))"
    by (rule gate_means [OF k _ truth_gate]) auto
  have "enc_does terms G st (enc_bind (enc_gate F (\<lambda>z. [[z]])) ?set) (\<lambda>l G' st'. lit_means l (\<lambda>_. True) G' st')"
  proof (rule enc_does_bind [OF gate], elim conjE)
    fix z G' st' assume 1: "enc_ok terms G' st'" "lit_means z (\<lambda>_. True) G' st'" "\<forall>\<sigma>. models \<sigma> G' \<longrightarrow> lit_true \<sigma> z = True"
    obtain e s where st': "st' = (e, s)" by fastforce
    have "\<forall>\<sigma>. models \<sigma> G' \<longrightarrow> lit_true \<sigma> z" using 1(3) by simp
    note t = enc_truth_set [OF 1(1,2) [unfolded st'] this]
    show "enc_does terms G' st' (?set z) (\<lambda>l G' st'. lit_means l (\<lambda>_. True) G' st')"
      using t by (intro enc_does_value [where x = z and G' = G' and st' = "(e\<lparr>be_truth := Some z\<rparr>, s)"]) (simp_all add: st')
  qed
  then show ?thesis using None by (simp add: enc_does_def truth_literal_def)
qed

lemma atom_literal_ok:
  assumes k: "enc_ok terms G st"
  shows "enc_does terms G st (atom_literal_for F a) (\<lambda>l G' st'. lit_means l (\<lambda>\<alpha>. \<alpha> a) G' st')"
proof -
  obtain e s where st: "st = (e, s)" by fastforce
  have s: "solver_ok G s" using k by (simp add: enc_ok_def st)
  show ?thesis
  proof (cases "be_atoms e a")
    case (Some l)
    have "lit_means l (\<lambda>\<alpha>. \<alpha> a) G st" using k Some by (auto simp: enc_ok_def lit_means_def agrees_def st)
    moreover have "atom_literal_for F a st = Some (Inr l, st)" using Some by (simp add: atom_literal_for_def st)
    ultimately show ?thesis using k enc_grows_refl by (intro enc_does_value [where x = l and G' = G])
  next
    case None
    consider "new_variable F s = (Inl VariableLimit, s)"
      | v s1 where "new_variable F s = (Inr v, s1)" "solver_ok G s1" "var_index v = nvars s" "var_ok v"
          "nvars s1 = Suc (nvars s)" "s_scope_selectors s1 = s_scope_selectors s"
      using new_variable_enc [OF s, of F] by blast
    then show ?thesis
    proof cases
      case 1
      then have "atom_literal_for F a st = Some (Inl VariableLimit, st)"
        using None by (simp add: atom_literal_for_def enc_bind_def enc_variable_def st)
      then show ?thesis using k by (rule enc_does_error)
    next
      case 2
      let ?z = "lit_positive v" and ?e = "e\<lparr>be_atoms := (be_atoms e)(a \<mapsto> lit_positive v)\<rparr>"
      have z: "lit_var ?z = v" "is_positive ?z" using lit_positive_simps 2(4) by simp_all
      have run: "atom_literal_for F a st = Some (Inr ?z, ?e, s1)"
        using None 2(1) by (simp add: atom_literal_for_def enc_bind_def enc_variable_def st)
      have zo: "lit_ok s1 ?z" using 2(3,5) z by (simp add: lit_ok_def)
      have lo: "lit_ok s l \<Longrightarrow> lit_ok s1 l" for l using 2(5) by (simp add: lit_ok_def)
      have ag: "agrees ?e \<sigma> \<alpha> \<longleftrightarrow> agrees e \<sigma> \<alpha> \<and> \<alpha> a = lit_true \<sigma> ?z" for \<sigma> \<alpha>
        using None by (auto simp: agrees_def)
      have "enc_ok terms G (?e, s1)" using k 2(2) lo zo by (auto simp: enc_ok_def ag st)
      moreover have "enc_grows G st G (?e, s1)"
      proof -
        have "\<exists>\<sigma>'. models \<sigma>' G \<and> agrees ?e \<sigma>' \<alpha> \<and> (\<forall>u. var_index u < nvars s \<longrightarrow> \<sigma>' u = \<sigma> u)"
          if m: "models \<sigma> G" "agrees e \<sigma> \<alpha>" for \<sigma> \<alpha>
        proof -
          let ?\<tau> = "\<sigma>(v := \<alpha> a)"
          have same: "?\<tau> u = \<sigma> u" if "var_index u < nvars s" for u using that 2(3) by auto
          have "models ?\<tau> G" using m(1) fresh_models [OF s, of ?\<tau> \<sigma>] same by simp
          moreover have "agrees e ?\<tau> \<alpha>" using m(2) fresh_agrees [OF k [unfolded st], of ?\<tau> \<sigma> \<alpha>] same by simp
          moreover have "lit_true ?\<tau> ?z = \<alpha> a" by (simp add: lit_true_def z)
          ultimately show ?thesis using same ag by blast
        qed
        then show ?thesis using 2(5,6) None by (auto simp: enc_grows_def st map_le_def dom_def)
      qed
      moreover have "lit_means ?z (\<lambda>\<alpha>. \<alpha> a) G (?e, s1)" using zo by (simp add: lit_means_def ag)
      ultimately show ?thesis using run by (intro enc_does_value [where x = ?z and G' = G and st' = "(?e, s1)"])
    qed
  qed
qed

lemma enc_each_ok:
  fixes f :: "nat \<Rightarrow> (lit, 'f) enc_op"
  assumes f: "\<And>u G st. u \<in> set us \<Longrightarrow> enc_ok terms G st \<Longrightarrow>
    enc_does terms G st (f u) (\<lambda>l G' st'. lit_means l (\<lambda>\<alpha>. term_value terms \<alpha> u) G' st')"
    and k: "enc_ok terms G st"
  shows "enc_does terms G st (enc_each f us)
    (\<lambda>ls G' st'. list_all2 (\<lambda>l u. lit_means l (\<lambda>\<alpha>. term_value terms \<alpha> u) G' st') ls us)"
  using assms
proof (induction us arbitrary: G st)
  case Nil
  then show ?case by (simp add: enc_does_ret)
next
  case (Cons u us)
  let ?P = "\<lambda>G st. (\<lambda>l u. lit_means l (\<lambda>\<alpha>. term_value terms \<alpha> u) G st)"
  have "enc_does terms G st (f u) (\<lambda>l. \<lambda>G' st'. ?P G' st' l u)" using Cons.prems by simp
  then show ?case
    unfolding enc_each.simps
  proof (rule enc_does_bind)
    fix l G1 and st1 :: "bool_encoder \<times> 'f solver"
    assume 1: "enc_ok terms G1 st1" "?P G1 st1 l u"
    have "enc_does terms G1 st1 (enc_each f us) (\<lambda>ls G' st'. list_all2 (?P G' st') ls us)"
      using Cons.prems(1) 1(1) by (intro Cons.IH) simp_all
    then show "enc_does terms G1 st1 (enc_bind (enc_each f us) (\<lambda>xs. enc_ret (l # xs)))
       (\<lambda>ls G' st'. list_all2 (?P G' st') ls (u # us))"
    proof (rule enc_does_bind)
      fix ls G2 and st2 :: "bool_encoder \<times> 'f solver"
      assume 2: "enc_ok terms G2 st2" "enc_grows G1 st1 G2 st2" "list_all2 (?P G2 st2) ls us"
      then show "enc_does terms G2 st2 (enc_ret (l # ls)) (\<lambda>ls G' st'. list_all2 (?P G' st') ls (u # us))"
        using lit_means_grows [OF 1(2) 2(2)] by (intro enc_does_ret) simp_all
    qed
  qed
qed

abbreviation lit_for :: "term_store \<Rightarrow> nat \<Rightarrow> lit \<Rightarrow> lit list set \<Rightarrow> bool_encoder \<times> 'f solver \<Rightarrow> bool" where
  "lit_for terms t l \<equiv> lit_means l (\<lambda>\<alpha>. term_value terms \<alpha> t)"

lemma lit_for_ok: "lit_for terms t l G st \<Longrightarrow> lit_ok (snd st) l"
  by (simp add: lit_means_def)

lemma lit_for_list:
  assumes "list_all2 (\<lambda>l u. lit_for terms u l G st) ls us"
  shows "l \<in> set ls \<Longrightarrow> lit_ok (snd st) l"
    "models \<sigma> G \<Longrightarrow> agrees (fst st) \<sigma> \<alpha> \<Longrightarrow> map (lit_true \<sigma>) ls = map (term_value terms \<alpha>) us"
proof -
  show "lit_ok (snd st) l" if "l \<in> set ls"
    using assms that by (auto simp: list_all2_conv_all_nth in_set_conv_nth lit_means_def)
  show "map (lit_true \<sigma>) ls = map (term_value terms \<alpha>) us" if "models \<sigma> G" "agrees (fst st) \<sigma> \<alpha>"
    using assms that by (intro nth_equalityI) (auto simp: list_all2_conv_all_nth lit_means_def)
qed

lemma gate_ok:
  assumes k: "enc_ok terms G st" and i: "\<forall>l \<in> I. lit_ok (snd st) l"
    and lits: "\<And>z c l. c \<in> set (gate z) \<Longrightarrow> l \<in> set c \<Longrightarrow> l \<in> I \<or> lit_not l \<in> I \<or> lit_var l = lit_var z"
    and def: "\<And>\<sigma> z. (\<forall>c \<in> set (gate z). clause_true \<sigma> c) \<longleftrightarrow> lit_true \<sigma> z = val \<sigma>"
    and dep: "\<And>\<sigma> \<tau>. \<forall>l \<in> I. lit_true \<tau> l = lit_true \<sigma> l \<Longrightarrow> val \<tau> = val \<sigma>"
    and f: "\<And>\<sigma> \<alpha>. models \<sigma> G \<Longrightarrow> agrees (fst st) \<sigma> \<alpha> \<Longrightarrow> val \<sigma> = f \<alpha>"
  shows "enc_does terms G st (enc_gate F gate) (\<lambda>z. lit_means z f)"
proof -
  have l: "lit_ok (snd st) l \<or> lit_var l = lit_var z" if c: "c \<in> set (gate z)" "l \<in> set c" for z c l
    using lits [OF c] i lit_ok_not [of "snd st" l] by blast
  have o: "val \<tau> = val \<sigma>" if "\<And>l. lit_ok (snd st) l \<Longrightarrow> lit_true \<tau> l = lit_true \<sigma> l" for \<sigma> \<tau>
    using dep i that by simp
  show ?thesis
    by (rule enc_does_conseq [OF gate_means [where gate = gate and val = val and f = f, OF k l def o f]]) auto
qed

lemma junction_gates_ok:
  assumes k: "enc_ok terms G st" and ls: "list_all2 (\<lambda>l u. lit_for terms u l G st) ls us"
  shows "enc_does terms G st (enc_gate F (and_clauses ls)) (\<lambda>z. lit_means z (\<lambda>\<alpha>. \<forall>u \<in> set us. term_value terms \<alpha> u))"
    "enc_does terms G st (enc_gate F (or_clauses ls)) (\<lambda>z. lit_means z (\<lambda>\<alpha>. \<exists>u \<in> set us. term_value terms \<alpha> u))"
proof -
  have lo: "\<forall>l \<in> set ls. lit_ok (snd st) l" using lit_for_list(1) [OF ls] by blast
  have eq: "lit_true \<sigma> ` set ls = term_value terms \<alpha> ` set us" if "models \<sigma> G" "agrees (fst st) \<sigma> \<alpha>" for \<sigma> \<alpha>
    using lit_for_list(2) [OF ls that] by (metis list.set_map)
  have all: "(\<forall>l \<in> set ls. lit_true \<sigma> l) = (\<forall>u \<in> set us. term_value terms \<alpha> u)"
    and ex: "(\<exists>l \<in> set ls. lit_true \<sigma> l) = (\<exists>u \<in> set us. term_value terms \<alpha> u)"
    if "models \<sigma> G" "agrees (fst st) \<sigma> \<alpha>" for \<sigma> \<alpha>
  proof -
    have "(\<forall>b \<in> lit_true \<sigma> ` set ls. b) = (\<forall>b \<in> term_value terms \<alpha> ` set us. b)"
      "(\<exists>b \<in> lit_true \<sigma> ` set ls. b) = (\<exists>b \<in> term_value terms \<alpha> ` set us. b)"
      using eq [OF that] by simp_all
    then show "(\<forall>l \<in> set ls. lit_true \<sigma> l) = (\<forall>u \<in> set us. term_value terms \<alpha> u)"
      "(\<exists>l \<in> set ls. lit_true \<sigma> l) = (\<exists>u \<in> set us. term_value terms \<alpha> u)" by simp_all
  qed
  show "enc_does terms G st (enc_gate F (and_clauses ls)) (\<lambda>z. lit_means z (\<lambda>\<alpha>. \<forall>u \<in> set us. term_value terms \<alpha> u))"
    by (rule gate_ok [OF k lo gate_literals(1) and_gate]) (simp_all add: all)
  show "enc_does terms G st (enc_gate F (or_clauses ls)) (\<lambda>z. lit_means z (\<lambda>\<alpha>. \<exists>u \<in> set us. term_value terms \<alpha> u))"
    by (rule gate_ok [OF k lo gate_literals(2) or_gate]) (simp_all add: ex)
qed

lemma pair_gates_ok:
  assumes k: "enc_ok terms G st" and l: "lit_for terms u l G st" and r: "lit_for terms v r G st"
  shows "enc_does terms G st (enc_gate F (xor_clauses l r)) (\<lambda>z. lit_means z (\<lambda>\<alpha>. term_value terms \<alpha> u \<noteq> term_value terms \<alpha> v))"
    "enc_does terms G st (enc_gate F (iff_clauses l r)) (\<lambda>z. lit_means z (\<lambda>\<alpha>. term_value terms \<alpha> u = term_value terms \<alpha> v))"
proof -
  have lo: "\<forall>x \<in> {l, r}. lit_ok (snd st) x" using lit_for_ok [OF l] lit_for_ok [OF r] by simp
  note v = lit_means_value [OF l] lit_means_value [OF r]
  show "enc_does terms G st (enc_gate F (xor_clauses l r)) (\<lambda>z. lit_means z (\<lambda>\<alpha>. term_value terms \<alpha> u \<noteq> term_value terms \<alpha> v))"
    by (rule gate_ok [OF k lo gate_literals(3) xor_gate]) (simp_all add: v)
  show "enc_does terms G st (enc_gate F (iff_clauses l r)) (\<lambda>z. lit_means z (\<lambda>\<alpha>. term_value terms \<alpha> u = term_value terms \<alpha> v))"
    by (rule gate_ok [OF k lo gate_literals(4) iff_gate]) (simp_all add: v)
qed

lemma ite_gate_ok:
  assumes k: "enc_ok terms G st" and l: "lit_for terms u l G st" and r: "lit_for terms v r G st" and q: "lit_for terms w q G st"
  shows "enc_does terms G st (enc_gate F (ite_clauses l r q))
    (\<lambda>z. lit_means z (\<lambda>\<alpha>. if term_value terms \<alpha> u then term_value terms \<alpha> v else term_value terms \<alpha> w))"
proof -
  have lo: "\<forall>x \<in> {l, r, q}. lit_ok (snd st) x" using lit_for_ok [OF l] lit_for_ok [OF r] lit_for_ok [OF q] by simp
  note v = lit_means_value [OF l] lit_means_value [OF r] lit_means_value [OF q]
  show ?thesis by (rule gate_ok [OF k lo gate_literals(5) ite_gate]) (simp_all add: v)
qed

subsection \<open>The encoder\<close>

lemma encode_ok:
  fixes F :: "'f::linorder float_ops" and st :: "bool_encoder \<times> 'f solver"
  assumes ts: "store_ok terms"
  shows "t < n \<Longrightarrow> bool_term terms t \<Longrightarrow> enc_ok terms G st \<Longrightarrow>
    enc_does terms G st (encode n F terms t) (lit_for terms t)"
proof (induction n arbitrary: t G st)
  case (Suc n)
  have tl: "t < length (ts_nodes terms)" using Suc.prems(2) by (simp add: bool_term_def)
  note tv = term_value_simps [OF ts tl]
  have child: "u < n \<and> bool_term terms u" if "u \<in> set (bool_children (node_kind terms t))" for u
    using bool_term_child [OF ts tl that] Suc.prems(1) by simp
  have rec: "enc_does terms G' st' (encode n F terms u) (lit_for terms u)"
    if "u \<in> set (bool_children (node_kind terms t))" "enc_ok terms G' st'" for u G' st'
    using Suc.IH child [OF that(1)] that(2) by blast
  let ?k = "node_kind terms t"
  show ?case
  proof (cases "be_terms (fst st) t")
    case (Some l)
    have "lit_for terms t l G st" using Suc.prems(3) Some by (auto simp: enc_ok_def lit_means_def)
    then show ?thesis
      using Some Suc.prems(3) enc_grows_refl by (intro enc_does_value [where x = l and G' = G and st' = st]) simp_all
  next
    case None
    let ?body = "case ?k of
              KBool b \<Rightarrow> enc_bind (truth_literal F) (\<lambda>l. enc_ret (if b then l else lit_not l))
            | KAtom a \<Rightarrow> atom_literal_for F a
            | KTheoryEquality a _ _ \<Rightarrow> atom_literal_for F a
            | KArithmeticPredicate a _ _ \<Rightarrow> atom_literal_for F a
            | KNot u \<Rightarrow> enc_bind (encode n F terms u) (\<lambda>l. enc_ret (lit_not l))
            | KAnd us \<Rightarrow> enc_bind (enc_each (encode n F terms) us) (\<lambda>ls. enc_gate F (and_clauses ls))
            | KOr us \<Rightarrow> enc_bind (enc_each (encode n F terms) us) (\<lambda>ls. enc_gate F (or_clauses ls))
            | KXor l r \<Rightarrow>
                enc_bind (encode n F terms l) (\<lambda>l'. enc_bind (encode n F terms r) (\<lambda>r'. enc_gate F (xor_clauses l' r')))
            | KIff l r \<Rightarrow>
                enc_bind (encode n F terms l) (\<lambda>l'. enc_bind (encode n F terms r) (\<lambda>r'. enc_gate F (iff_clauses l' r')))
            | KIte c u v \<Rightarrow>
                enc_bind (encode n F terms c) (\<lambda>c'. enc_bind (encode n F terms u) (\<lambda>u'.
                  enc_bind (encode n F terms v) (\<lambda>v'. enc_gate F (ite_clauses c' u' v'))))
            | _ \<Rightarrow> (\<lambda>_. None)"
    note k = Suc.prems(3)
    have body: "enc_does terms G st ?body (lit_for terms t)"
    proof (cases ?k)
      case (KBool b)
      have "enc_does terms G st (enc_bind (truth_literal F) (\<lambda>l. enc_ret (if b then l else lit_not l))) (lit_for terms t)"
        by (rule enc_does_bind [OF truth_literal_ok [OF k]], rule enc_does_ret) (auto simp: tv(1) [OF KBool] lit_means_def)
      then show ?thesis by (simp add: KBool)
    next
      case (KAtom a)
      then show ?thesis using atom_literal_ok [OF k, of F a] by (simp add: tv(2))
    next
      case (KTheoryEquality a l r)
      then show ?thesis using atom_literal_ok [OF k, of F a] by (simp add: tv(9))
    next
      case (KArithmeticPredicate a l r)
      then show ?thesis using atom_literal_ok [OF k, of F a] by (simp add: tv(10))
    next
      case (KNot u)
      have "enc_does terms G st (enc_bind (encode n F terms u) (\<lambda>l. enc_ret (lit_not l))) (lit_for terms t)"
        by (rule enc_does_bind [OF rec [OF _ k]]) (simp_all add: KNot enc_does_ret lit_means_not tv(3) [OF KNot])
      then show ?thesis by (simp add: KNot)
    next
      case (KAnd us)
      have "enc_does terms G st (enc_bind (enc_each (encode n F terms) us) (\<lambda>ls. enc_gate F (and_clauses ls)))
         (\<lambda>z. lit_means z (\<lambda>\<alpha>. \<forall>u \<in> set us. term_value terms \<alpha> u))"
        by (rule enc_does_bind [OF enc_each_ok [OF rec k]]) (simp_all add: KAnd junction_gates_ok)
      then show ?thesis by (simp add: KAnd tv(4) [OF KAnd])
    next
      case (KOr us)
      have "enc_does terms G st (enc_bind (enc_each (encode n F terms) us) (\<lambda>ls. enc_gate F (or_clauses ls)))
         (\<lambda>z. lit_means z (\<lambda>\<alpha>. \<exists>u \<in> set us. term_value terms \<alpha> u))"
        by (rule enc_does_bind [OF enc_each_ok [OF rec k]]) (simp_all add: KOr junction_gates_ok)
      then show ?thesis by (simp add: KOr tv(5) [OF KOr])
    next
      case (KXor l r)
      have "enc_does terms G st (enc_bind (encode n F terms l) (\<lambda>l'. enc_bind (encode n F terms r) (\<lambda>r'. enc_gate F (xor_clauses l' r'))))
         (\<lambda>z. lit_means z (\<lambda>\<alpha>. term_value terms \<alpha> l \<noteq> term_value terms \<alpha> r))"
      proof (rule enc_does_bind [OF rec [OF _ k]])
        fix l' G1 and st1 :: "bool_encoder \<times> 'f solver"
        assume 1: "enc_ok terms G1 st1" "lit_for terms l l' G1 st1"
        show "enc_does terms G1 st1 (enc_bind (encode n F terms r) (\<lambda>r'. enc_gate F (xor_clauses l' r')))
         (\<lambda>z. lit_means z (\<lambda>\<alpha>. term_value terms \<alpha> l \<noteq> term_value terms \<alpha> r))"
          by (rule enc_does_bind [OF rec [OF _ 1(1)]], simp add: KXor, rule pair_gates_ok(1) [OF _ lit_means_grows [OF 1(2)]], assumption+)
      qed (simp add: KXor)
      then show ?thesis by (simp add: KXor tv(6) [OF KXor])
    next
      case (KIff l r)
      have "enc_does terms G st (enc_bind (encode n F terms l) (\<lambda>l'. enc_bind (encode n F terms r) (\<lambda>r'. enc_gate F (iff_clauses l' r'))))
         (\<lambda>z. lit_means z (\<lambda>\<alpha>. term_value terms \<alpha> l = term_value terms \<alpha> r))"
      proof (rule enc_does_bind [OF rec [OF _ k]])
        fix l' G1 and st1 :: "bool_encoder \<times> 'f solver"
        assume 1: "enc_ok terms G1 st1" "lit_for terms l l' G1 st1"
        show "enc_does terms G1 st1 (enc_bind (encode n F terms r) (\<lambda>r'. enc_gate F (iff_clauses l' r')))
         (\<lambda>z. lit_means z (\<lambda>\<alpha>. term_value terms \<alpha> l = term_value terms \<alpha> r))"
          by (rule enc_does_bind [OF rec [OF _ 1(1)]], simp add: KIff, rule pair_gates_ok(2) [OF _ lit_means_grows [OF 1(2)]], assumption+)
      qed (simp add: KIff)
      then show ?thesis by (simp add: KIff tv(7) [OF KIff])
    next
      case (KIte c u v)
      let ?Q = "\<lambda>z. lit_means z (\<lambda>\<alpha>. if term_value terms \<alpha> c then term_value terms \<alpha> u else term_value terms \<alpha> v)"
      have "enc_does terms G st (enc_bind (encode n F terms c) (\<lambda>c'. enc_bind (encode n F terms u) (\<lambda>u'.
                  enc_bind (encode n F terms v) (\<lambda>v'. enc_gate F (ite_clauses c' u' v'))))) ?Q"
      proof (rule enc_does_bind [OF rec [OF _ k]])
        fix c' G1 and st1 :: "bool_encoder \<times> 'f solver"
        assume 1: "enc_ok terms G1 st1" "lit_for terms c c' G1 st1"
        show "enc_does terms G1 st1 (enc_bind (encode n F terms u) (\<lambda>u'.
                  enc_bind (encode n F terms v) (\<lambda>v'. enc_gate F (ite_clauses c' u' v')))) ?Q"
        proof (rule enc_does_bind [OF rec [OF _ 1(1)]])
          fix u' G2 and st2 :: "bool_encoder \<times> 'f solver"
        assume 2: "enc_ok terms G2 st2" "enc_grows G1 st1 G2 st2" "lit_for terms u u' G2 st2"
          show "enc_does terms G2 st2 (enc_bind (encode n F terms v) (\<lambda>v'. enc_gate F (ite_clauses c' u' v'))) ?Q"
            by (rule enc_does_bind [OF rec [OF _ 2(1)]], simp add: KIte,
                rule ite_gate_ok [OF _ lit_means_grows [OF lit_means_grows [OF 1(2) 2(2)]] lit_means_grows [OF 2(3)]], assumption+)
        qed (simp add: KIte)
      qed (simp add: KIte)
      then show ?thesis by (simp add: KIte tv(8) [OF KIte])
    qed (use bool_term_kind [OF ts tl] Suc.prems(2) in simp_all)
    let ?memo = "\<lambda>l (e, s). Some (Inr l, e\<lparr>be_terms := (be_terms e)(t \<mapsto> l)\<rparr>, s)"
    have "enc_does terms G st (enc_bind ?body ?memo) (lit_for terms t)"
    proof (rule enc_does_bind [OF body])
      fix l G' and st' :: "bool_encoder \<times> 'f solver"
      assume 1: "enc_ok terms G' st'" "lit_for terms t l G' st'"
      obtain e s where st': "st' = (e, s)" by fastforce
      note m = enc_term_set [OF 1(1) [unfolded st'] Suc.prems(2) 1(2) [unfolded st']]
      show "enc_does terms G' st' (?memo l) (lit_for terms t)"
        using m by (intro enc_does_value [where x = l and G' = G' and st' = "(e\<lparr>be_terms := (be_terms e)(t \<mapsto> l)\<rparr>, s)"])
          (simp_all add: st')
    qed
    moreover have "encode (Suc n) F terms t st = enc_bind ?body ?memo st" using None by simp
    ultimately show ?thesis unfolding enc_does_def by presburger
  qed
qed simp

subsection \<open>Deciding a Boolean term\<close>

lemma enc_initial: "solver_ok {} s \<Longrightarrow> enc_ok terms {} (be_default, s)"
  by (simp add: enc_ok_def be_default_def)

lemma encoded_models:
  assumes "store_ok terms" "bool_term terms t" "t < n"
    "encode n F terms t (be_default, solver_with_config F config interrupt) = Some (Inr l, e, s)"
  shows "\<exists>G. solver_ok G s \<and> var_index (lit_var l) < nvars s
    \<and> (\<forall>\<sigma> \<alpha>. models \<sigma> G \<longrightarrow> agrees e \<sigma> \<alpha> \<longrightarrow> lit_true \<sigma> l = term_value terms \<alpha> t)
    \<and> (\<forall>\<alpha>. \<exists>\<sigma>. models \<sigma> G \<and> agrees e \<sigma> \<alpha>)"
proof -
  let ?st = "(be_default, solver_with_config F config interrupt)"
  have k: "enc_ok terms {} ?st" using initial_ok by (rule enc_initial)
  obtain G where G: "enc_ok terms G (e, s)" "enc_grows {} ?st G (e, s)" "lit_for terms t l G (e, s)"
    using encode_ok [OF assms(1,3,2) k, of F] assms(4) by (auto simp: enc_does_def)
  have "\<exists>\<sigma>. models \<sigma> G \<and> agrees e \<sigma> \<alpha>" for \<alpha>
  proof -
    have "models (\<lambda>_. False) {}" "agrees (fst ?st) (\<lambda>_. False) \<alpha>" by (simp_all add: models_def agrees_def be_default_def)
    then obtain \<sigma>' where "models \<sigma>' G" "agrees (fst (e, s)) \<sigma>' \<alpha>" by (rule enc_grows_extend [OF G(2)])
    then show ?thesis by auto
  qed
  then show ?thesis using G(1,3) by (intro exI [of _ G]) (auto simp: enc_ok_def lit_means_def lit_ok_def)
qed

text \<open>
  C7: encoding a Boolean term into a fresh solver never panics, and afterwards the models of the
  clauses that make the returned literal true are, read on the atoms, the assignments that make
  the term true: each such model gives one, and each such assignment comes from one.
\<close>

theorem tseitin_equisatisfiable:
  assumes "store_ok terms" "bool_term terms t" "t < n"
  shows "case encode n F terms t (be_default, solver_with_config F config interrupt) of
      None \<Rightarrow> False
    | Some (Inl _, _) \<Rightarrow> True
    | Some (Inr l, e, s) \<Rightarrow> \<exists>G. solver_ok G s \<and> var_index (lit_var l) < nvars s
        \<and> (\<forall>\<sigma> \<alpha>. models \<sigma> G \<longrightarrow> agrees e \<sigma> \<alpha> \<longrightarrow> lit_true \<sigma> l = term_value terms \<alpha> t)
        \<and> (\<forall>\<alpha>. \<exists>\<sigma>. models \<sigma> G \<and> agrees e \<sigma> \<alpha>)"
proof -
  have "enc_ok terms {} (be_default, solver_with_config F config interrupt)" using initial_ok by (rule enc_initial)
  then obtain r e s where r: "encode n F terms t (be_default, solver_with_config F config interrupt) = Some (r, e, s)"
    using encode_ok [OF assms(1,3,2), of "{}" "(be_default, solver_with_config F config interrupt)" F]
    by (auto simp: enc_does_def)
  show ?thesis
  proof (cases r)
    case (Inr l)
    from encoded_models [OF assms r [unfolded Inr]] show ?thesis by (simp add: r Inr)
  qed (simp add: r)
qed

text \<open>
  C2: the encoder and the solver together decide Boolean terms. A model of the query that assumes
  the literal of the term makes the term true when its atoms are read from their literals, and an
  unsatisfiable answer means that the term is false under every assignment.
\<close>

theorem encoded_query_decides:
  assumes "store_ok terms" "bool_term terms t" "t < n"
    "encode n F terms t (be_default, solver_with_config F config interrupt) = Some (Inr l, e, s)"
    "solve_assuming_with_limits F [l] limits s = Some (r, s')"
  shows "case r of
      Sat m \<Rightarrow> term_value terms (\<lambda>a. case be_atoms e a of None \<Rightarrow> False | Some k \<Rightarrow> lit_true (valuation_of m) k) t
    | Unsat \<Rightarrow> \<forall>\<alpha>. \<not> term_value terms \<alpha> t
    | Unknown _ \<Rightarrow> True"
proof -
  obtain G where G: "solver_ok G s" "var_index (lit_var l) < nvars s"
    "\<forall>\<sigma> \<alpha>. models \<sigma> G \<longrightarrow> agrees e \<sigma> \<alpha> \<longrightarrow> lit_true \<sigma> l = term_value terms \<alpha> t"
    "\<forall>\<alpha>. \<exists>\<sigma>. models \<sigma> G \<and> agrees e \<sigma> \<alpha>"
    using encoded_models [OF assms(1-4)] by blast
  have sel: "s_scope_selectors s = []"
  proof -
    have k: "enc_ok terms {} (be_default, solver_with_config F config interrupt)" using initial_ok by (rule enc_initial)
    show ?thesis
      using encode_ok [OF assms(1,3,2) k, of F] assms(4)
      by (auto simp: enc_does_def enc_grows_def) (simp add: solver_with_config_def)
  qed
  have as: "\<forall>a \<in> set [l]. var_index (lit_var a) < s_variable_count s" using G(2) variable_count(1) [OF G(1)] by simp
  have q: "query_ok G [] [l] r s'" using solve_ok(1) [OF G(1) as assms(5)] sel by (simp add: solved_def)
  show ?thesis
  proof (cases r)
    case (Sat m)
    let ?\<alpha> = "\<lambda>a. case be_atoms e a of None \<Rightarrow> False | Some k \<Rightarrow> lit_true (valuation_of m) k"
    have "models (valuation_of m) G" "lit_true (valuation_of m) l" using q Sat by (simp_all add: query_ok_def)
    moreover have "agrees e (valuation_of m) ?\<alpha>" by (simp add: agrees_def)
    ultimately show ?thesis using G(3) Sat by auto
  next
    case Unsat
    have "\<not> term_value terms \<alpha> t" for \<alpha>
    proof
      assume v: "term_value terms \<alpha> t"
      obtain \<sigma> where \<sigma>: "models \<sigma> G" "agrees e \<sigma> \<alpha>" using G(4) by blast
      then have "lit_true \<sigma> l" using G(3) v by blast
      then show False using q Unsat \<sigma>(1) by (auto simp: query_ok_def refutes_def)
    qed
    then show ?thesis using Unsat by simp
  qed simp
qed

lemma example_encoded:
  "\<exists>l e s. encode 4 exact_floats example_store 3
     (be_default, solver_with_config exact_floats default_config (\<lambda>_. False)) = Some (Inr l, e, s)"
proof -
  let ?s = "solver_with_config exact_floats default_config (\<lambda>_. False)"
  have s: "solver_ok {} ?s" by (rule initial_ok)
  have "nvars ?s = 0" by (simp add: solver_with_config_def nvars_def)
  then obtain v s' where v: "new_variable exact_floats ?s = (Inr v, s')"
    using new_variable_ok [OF s, of exact_floats] by (simp add: MAX_VARIABLES_eq)
  have e: "encode 4 = encode (Suc (Suc 2))" by (simp add: numeral_eq_Suc)
  show ?thesis
    unfolding e encode.simps
    by (simp add: example_store_ok(3,4) enc_bind_def enc_ret_def atom_literal_for_def enc_variable_def v be_default_def)
qed

text \<open>The encoded formula is the negation of an atom.\<close>

theorem tseitin_equisatisfiable_witness:
  "\<exists>l e s G. encode 4 exact_floats example_store 3
     (be_default, solver_with_config exact_floats default_config (\<lambda>_. False)) = Some (Inr l, e, s)
    \<and> (\<forall>\<alpha>. \<exists>\<sigma>. models \<sigma> G \<and> agrees e \<sigma> \<alpha>)"
proof -
  obtain l e s where en: "encode 4 exact_floats example_store 3
     (be_default, solver_with_config exact_floats default_config (\<lambda>_. False)) = Some (Inr l, e, s)"
    using example_encoded by blast
  have "\<exists>G. \<forall>\<alpha>. \<exists>\<sigma>. models \<sigma> G \<and> agrees e \<sigma> \<alpha>"
    using tseitin_equisatisfiable [OF example_store_ok(1,2), of 4 exact_floats default_config "\<lambda>_. False"]
    by (simp add: en) blast
  then show ?thesis using en by blast
qed

theorem encoded_query_decides_witness:
  "\<exists>l e s r s'. encode 4 exact_floats example_store 3
     (be_default, solver_with_config exact_floats default_config (\<lambda>_. False)) = Some (Inr l, e, s)
    \<and> solve_assuming_with_limits exact_floats [l] \<lparr>limit_conflicts = Some 10, limit_propagations = None\<rparr> s = Some (r, s')
    \<and> r \<noteq> Unsat"
proof -
  let ?lim = "\<lparr>limit_conflicts = Some 10, limit_propagations = None\<rparr>"
  obtain l e s where en: "encode 4 exact_floats example_store 3
     (be_default, solver_with_config exact_floats default_config (\<lambda>_. False)) = Some (Inr l, e, s)"
    using example_encoded by blast
  have k: "enc_ok example_store {} (be_default, solver_with_config exact_floats default_config (\<lambda>_. False))"
    using initial_ok by (rule enc_initial)
  obtain G where g: "solver_ok G s" "lit_ok s l"
    using encode_ok [OF example_store_ok(1) _ example_store_ok(2) k, of 4 exact_floats] en
    by (auto simp: enc_does_def enc_ok_def lit_means_def)
  have as: "\<forall>a \<in> set [l]. var_index (lit_var a) < s_variable_count s"
    using g variable_count(1) [OF g(1)] by (simp add: lit_ok_def)
  have "will_stop ?lim s" by (simp add: will_stop_def)
  then obtain r s' where r: "solve_assuming_with_limits exact_floats [l] ?lim s = Some (r, s')"
    using solve_ok(2) [OF g(1) as] by fastforce
  have "3 < length (ts_nodes example_store)" using example_store_ok(2) by (simp add: bool_term_def)
  then have v: "term_value example_store (\<lambda>_. False) 3"
    using term_value_simps(2,3) [OF example_store_ok(1)] example_store_ok(3,4) by simp
  have "r \<noteq> Unsat"
    using encoded_query_decides [OF example_store_ok(1,2) _ en r] v by auto
  then show ?thesis using en r by blast
qed

end
