(* ===== verification/Smt_Arithmetic.thy ===== *)
theory Smt_Arithmetic
  imports Smt_Boolean
begin

section \<open>Arithmetic terms\<close>

text \<open>
  The arithmetic constructors of \<open>src/smt/term.rs\<close>. An arithmetic term is an interned affine
  expression with its sort; sums, differences, scalings and constant quotients are computed on
  the expressions at once, and a comparison becomes a Boolean node about one expression, shared
  by all comparisons with the same difference.
\<close>

subsection \<open>Reading arithmetic terms\<close>

definition is_integer :: "rat \<Rightarrow> bool" where
  "is_integer q \<longleftrightarrow> q = of_int \<lfloor>q\<rfloor>"

definition arithmetic_sort :: "sort \<Rightarrow> bool" where
  "arithmetic_sort so \<longleftrightarrow> so = SInt \<or> so = SReal"

definition require_arithmetic :: "nat \<Rightarrow> term_store \<Rightarrow> term_failure + sort" where
  "require_arithmetic t s =
     bindE (sort_of t s) (\<lambda>so. if arithmetic_sort so then Inr so else Inl (Rejected NotArithmetic))"

fun common_from :: "sort \<Rightarrow> nat list \<Rightarrow> term_store \<Rightarrow> term_failure + sort" where
  "common_from result [] s = Inr result"
| "common_from result (t # ts) s =
     bindE (require_arithmetic t s) (\<lambda>so. common_from (if so = SReal then SReal else result) ts s)"

definition common_arithmetic_sort :: "nat list \<Rightarrow> term_store \<Rightarrow> term_failure + sort" where
  "common_arithmetic_sort ts s = common_from SInt ts s"

definition arithmetic_expression :: "nat \<Rightarrow> term_store \<Rightarrow> term_failure + lin_expr" where
  "arithmetic_expression e s =
     (if e < length (ts_expressions s) then Inr (snd (ts_expressions s ! e)) else Inl (Rejected ForeignExpression))"

definition arithmetic_expression_sort :: "nat \<Rightarrow> term_store \<Rightarrow> term_failure + sort" where
  "arithmetic_expression_sort e s =
     (if e < length (ts_expressions s) then Inr (fst (ts_expressions s ! e)) else Inl (Rejected ForeignExpression))"

definition arithmetic_expression_for_term :: "nat \<Rightarrow> term_store \<Rightarrow> term_failure + lin_expr" where
  "arithmetic_expression_for_term t s =
     (if t < length (ts_nodes s)
      then (case node_kind s t of KArithmetic e \<Rightarrow> arithmetic_expression e s | _ \<Rightarrow> Inl (Rejected NotArithmetic))
      else Inl Panicked)"

definition arithmetic_variable_for_term :: "nat \<Rightarrow> term_store \<Rightarrow> term_failure + nat option" where
  "arithmetic_variable_for_term t s =
     bindE (arithmetic_expression_for_term t s) (\<lambda>e.
       if le_constant e \<noteq> 0 \<or> length (le_coefficients e) \<noteq> 1 then Inr None
       else case le_coefficients e ! 0 of (v, c) \<Rightarrow> Inr (if c = 1 then Some v else None))"

definition arithmetic_expression_as :: "nat \<Rightarrow> sort \<Rightarrow> term_store \<Rightarrow> term_failure + lin_expr" where
  "arithmetic_expression_as t target s =
     bindE (require_arithmetic t s) (\<lambda>source.
       if source = SReal \<and> target = SInt then Inl (Rejected RealToInt)
       else if \<not> arithmetic_sort target then Inl (Rejected NotArithmetic)
       else arithmetic_expression_for_term t s)"

subsection \<open>Making arithmetic terms\<close>

definition intern_arithmetic_expression :: "sort \<Rightarrow> lin_expr \<Rightarrow> nat term_op" where
  "intern_arithmetic_expression so e s =
     (case ts_expression_ids s (so, e) of
        Some i \<Rightarrow> (Inr i, s)
      | None \<Rightarrow>
          (let i = length (ts_expressions s)
           in if i > u32_max then (Inl (Rejected ExpressionLimit), s)
              else (Inr i, s\<lparr>ts_expressions := ts_expressions s @ [(so, e)],
                             ts_expression_ids := (ts_expression_ids s)((so, e) \<mapsto> i)\<rparr>)))"

definition integral_expression :: "lin_expr \<Rightarrow> bool" where
  "integral_expression e \<longleftrightarrow> is_integer (le_constant e) \<and> list_all (\<lambda>(v, c). is_integer c) (le_coefficients e)"

definition make_arithmetic_term :: "sort \<Rightarrow> lin_expr \<Rightarrow> nat term_op" where
  "make_arithmetic_term so e =
     (if \<not> arithmetic_sort so then reject NotArithmetic
      else if so = SInt \<and> \<not> integral_expression e then reject NonIntegral
      else bind_op (intern_arithmetic_expression so e) (\<lambda>i.
           bind_op (sort_id_for so) (\<lambda>sid. intern sid (KArithmetic i))))"

definition fresh_arithmetic_variable :: "sort \<Rightarrow> nat term_op" where
  "fresh_arithmetic_variable so s =
     (if \<not> arithmetic_sort so then (Inl (Rejected NotArithmetic), s)
      else
        let v = length (ts_variable_sorts s)
        in if v > u32_max then (Inl (Rejected AffineVariableLimit), s)
           else make_arithmetic_term so (le_variable v) (s\<lparr>ts_variable_sorts := ts_variable_sorts s @ [so]\<rparr>))"

definition arithmetic_constant :: "sort \<Rightarrow> rat \<Rightarrow> nat term_op" where
  "arithmetic_constant so q = make_arithmetic_term so (le_const q)"

definition arithmetic_integer :: "int \<Rightarrow> nat term_op" where
  "arithmetic_integer n = arithmetic_constant SInt (of_int n)"

definition arithmetic_real :: "rat \<Rightarrow> nat term_op" where
  "arithmetic_real q = arithmetic_constant SReal q"

definition coerce_arithmetic_term :: "nat \<Rightarrow> sort \<Rightarrow> nat term_op" where
  "coerce_arithmetic_term t target =
     bind_op (asks (sort_of t)) (\<lambda>so.
       if so = target then ret t
       else bind_op (asks (arithmetic_expression_as t target)) (make_arithmetic_term target))"

definition arithmetic_to_real :: "nat \<Rightarrow> nat term_op" where
  "arithmetic_to_real t = coerce_arithmetic_term t SReal"

definition arithmetic_add :: "nat list \<Rightarrow> nat term_op" where
  "arithmetic_add ts =
     (if length ts < 2 then reject (TooFewArguments ''+'')
      else bind_op (asks (common_arithmetic_sort ts)) (\<lambda>so.
           bind_op (each_op (\<lambda>t. asks (arithmetic_expression_as t so)) ts) (\<lambda>es.
           make_arithmetic_term so (le_sum es))))"

definition arithmetic_negate :: "nat \<Rightarrow> nat term_op" where
  "arithmetic_negate t =
     bind_op (asks (require_arithmetic t)) (\<lambda>so.
     bind_op (asks (arithmetic_expression_for_term t)) (\<lambda>e.
     make_arithmetic_term so (le_scaled (- 1) e)))"

fun subtract_all :: "sort \<Rightarrow> nat list \<Rightarrow> lin_expr \<Rightarrow> term_store \<Rightarrow> term_failure + lin_expr" where
  "subtract_all so [] result s = Inr result"
| "subtract_all so (t # ts) result s =
     bindE (arithmetic_expression_as t so s) (\<lambda>e. subtract_all so ts (le_add_scaled e (- 1) result) s)"

definition arithmetic_sub :: "nat list \<Rightarrow> nat term_op" where
  "arithmetic_sub ts =
     (if ts = [] then reject (TooFewArguments ''-'')
      else if length ts = 1 then arithmetic_negate (ts ! 0)
      else bind_op (asks (common_arithmetic_sort ts)) (\<lambda>so.
           bind_op (asks (arithmetic_expression_as (ts ! 0) so)) (\<lambda>first.
           bind_op (asks (subtract_all so (tl ts) first)) (make_arithmetic_term so))))"

fun multiply_all :: "sort \<Rightarrow> nat list \<Rightarrow> rat \<Rightarrow> lin_expr option \<Rightarrow> term_store \<Rightarrow> term_failure + rat \<times> lin_expr option" where
  "multiply_all so [] scale nonconstant s = Inr (scale, nonconstant)"
| "multiply_all so (t # ts) scale nonconstant s =
     bindE (arithmetic_expression_as t so s) (\<lambda>e.
       if le_is_constant e then multiply_all so ts (scale * le_constant e) nonconstant s
       else if nonconstant \<noteq> None then Inl (Rejected Nonlinear)
       else multiply_all so ts scale (Some e) s)"

definition arithmetic_mul :: "nat list \<Rightarrow> nat term_op" where
  "arithmetic_mul ts =
     (if length ts < 2 then reject (TooFewArguments ''*'')
      else bind_op (asks (common_arithmetic_sort ts)) (\<lambda>so.
           bind_op (asks (multiply_all so ts 1 None)) (\<lambda>(scale, nonconstant).
           make_arithmetic_term so
             (case nonconstant of Some e \<Rightarrow> le_scaled scale e | None \<Rightarrow> le_const scale))))"

definition arithmetic_divide :: "nat \<Rightarrow> nat \<Rightarrow> nat term_op" where
  "arithmetic_divide n d =
     bind_op (asks (require_arithmetic n)) (\<lambda>_.
     bind_op (asks (require_arithmetic d)) (\<lambda>_.
     bind_op (asks (arithmetic_expression_for_term d)) (\<lambda>de.
       if \<not> le_is_constant de then reject NonconstantDivisor
       else if le_constant de = 0 then reject ZeroDivisor
       else bind_op (asks (arithmetic_expression_as n SReal)) (\<lambda>e.
            make_arithmetic_term SReal (le_scaled (1 / le_constant de) e)))))"

subsection \<open>Comparisons and conditionals\<close>

definition arithmetic_predicate_term :: "nat \<Rightarrow> bool \<Rightarrow> nat term_op" where
  "arithmetic_predicate_term e strict s =
     (case ts_predicate_terms s (e, strict) of
        Some t \<Rightarrow> (Inr t, s)
      | None \<Rightarrow>
          bind_op fresh_symbol (\<lambda>a.
          bind_op (intern_bool (KArithmeticPredicate a e strict)) (\<lambda>t s.
            (Inr t, s\<lparr>ts_predicate_terms := (ts_predicate_terms s)((e, strict) \<mapsto> t),
                      ts_predicates := ts_predicates s @ [\<lparr>pr_term = t, pr_expression = e, pr_strict = strict\<rparr>]\<rparr>))) s)"

definition arithmetic_comparison :: "nat \<Rightarrow> nat \<Rightarrow> bool \<Rightarrow> nat term_op" where
  "arithmetic_comparison l r strict =
     bind_op (asks (common_arithmetic_sort [l, r])) (\<lambda>so.
     bind_op (asks (arithmetic_expression_as l so)) (\<lambda>le.
     bind_op (asks (arithmetic_expression_as r so)) (\<lambda>re.
       let e = le_add_scaled re (- 1) le
       in if le_is_constant e
          then (\<lambda>s. (Inr (bool_constant (if strict then le_constant e < 0 else le_constant e \<le> 0) s), s))
          else bind_op (intern_arithmetic_expression so e) (\<lambda>i. arithmetic_predicate_term i strict))))"

definition arithmetic_le :: "nat \<Rightarrow> nat \<Rightarrow> nat term_op" where
  "arithmetic_le l r = arithmetic_comparison l r False"

definition arithmetic_lt :: "nat \<Rightarrow> nat \<Rightarrow> nat term_op" where
  "arithmetic_lt l r = arithmetic_comparison l r True"

definition arithmetic_ge :: "nat \<Rightarrow> nat \<Rightarrow> nat term_op" where
  "arithmetic_ge l r = arithmetic_comparison r l False"

definition arithmetic_gt :: "nat \<Rightarrow> nat \<Rightarrow> nat term_op" where
  "arithmetic_gt l r = arithmetic_comparison r l True"

definition arithmetic_equivalent :: "nat \<Rightarrow> nat \<Rightarrow> nat term_op" where
  "arithmetic_equivalent l r =
     bind_op (arithmetic_le l r) (\<lambda>a. bind_op (arithmetic_ge l r) (\<lambda>b. term_and [a, b]))"

definition arithmetic_ite :: "nat \<Rightarrow> nat \<Rightarrow> nat \<Rightarrow> nat term_op" where
  "arithmetic_ite c t e =
     bind_op (asks (common_arithmetic_sort [t, e])) (\<lambda>so.
     bind_op (coerce_arithmetic_term t so) (\<lambda>t'.
     bind_op (coerce_arithmetic_term e so) (\<lambda>e' s.
       case ts_ite_terms s (c, t', e', so) of
         Some result \<Rightarrow> (Inr result, s)
       | None \<Rightarrow>
           bind_op (fresh_arithmetic_variable so) (\<lambda>result s.
             (Inr result, s\<lparr>ts_ite_terms := (ts_ite_terms s)((c, t', e', so) \<mapsto> result),
                ts_ites := ts_ites s @ [\<lparr>ci_result = result, ci_condition = c, ci_then = t', ci_else = e'\<rparr>]\<rparr>)) s)))"

text \<open>\<open>ite\<close>, for all sorts.\<close>

definition ite_bool :: "nat \<Rightarrow> nat \<Rightarrow> nat \<Rightarrow> nat term_op" where
  "ite_bool c t e s =
     (case node_kind s c of
        KBool True \<Rightarrow> (Inr t, s)
      | KBool False \<Rightarrow> (Inr e, s)
      | _ \<Rightarrow>
          if t = ts_true s \<and> e = ts_false s then (Inr c, s)
          else if t = ts_false s \<and> e = ts_true s then term_not c s
          else intern_bool (KIte c t e) s)"

text \<open>The members of the pairs are Boolean, so the recursive calls of the bit-vector branch end at once.\<close>

definition ite_bit :: "nat \<Rightarrow> nat \<Rightarrow> nat \<Rightarrow> nat term_op" where
  "ite_bit c t e = (if t = e then ret t else ite_bool c t e)"

definition ite_other :: "nat \<Rightarrow> nat \<Rightarrow> nat \<Rightarrow> nat term_op" where
  "ite_other c t e =
     bind_op (asks (sort_id_of t)) (\<lambda>sid.
     bind_op (intern sid (KUfIte c t e)) (\<lambda>result s.
       (Inr result,
        if list_ex (\<lambda>x. ci_result x = result) (ts_uf_ites s) then s
        else s\<lparr>ts_uf_ites := ts_uf_ites s @
          [\<lparr>ci_result = result, ci_condition = c, ci_then = t, ci_else = e\<rparr>]\<rparr>)))"

definition term_ite :: "nat \<Rightarrow> nat \<Rightarrow> nat \<Rightarrow> nat term_op" where
  "term_ite c t e =
     bind_op (asks (require_bool c)) (\<lambda>_.
     bind_op (asks (sort_of t)) (\<lambda>so.
     bind_op (asks (sort_of e)) (\<lambda>so'.
       if arithmetic_sort so \<and> arithmetic_sort so' then
         bind_op (asks (common_arithmetic_sort [t, e])) (\<lambda>common s.
           case node_kind s c of
             KBool True \<Rightarrow> coerce_arithmetic_term t common s
           | KBool False \<Rightarrow> coerce_arithmetic_term e common s
           | _ \<Rightarrow> arithmetic_ite c t e s)
       else if so' \<noteq> so then reject BranchSorts
       else if t = e then ret t
       else case so of
         SBool \<Rightarrow> ite_bool c t e
       | SBitVec _ \<Rightarrow>
           bind_op (asks (bitvec_bits t)) (\<lambda>ts.
           bind_op (asks (bitvec_bits e)) (\<lambda>es.
           bind_op (each_op (\<lambda>(a, b). ite_bit c a b) (zip ts es)) make_bitvec))
       | _ \<Rightarrow> ite_other c t e)))"

end
