(* ===== verification/Smt_Functions.thy ===== *)
theory Smt_Functions
  imports Smt_Arithmetic
begin

section \<open>Functions, arrays and equality\<close>

text \<open>
  The rest of the constructors of \<open>src/smt/term.rs\<close>: fresh terms, function application, arrays
  and generic equality. An application of a function is one shared term for each list of
  arguments. Reading an array that was built by \<open>store\<close> adds the axiom of the read, and an
  equality of arrays the axiom of extensionality, so \<open>equivalent\<close> and \<open>select\<close> call each other;
  they carry fuel here, and the calls at Boolean and bit-vector sorts need one unit.
\<close>

subsection \<open>Fresh terms\<close>

definition MAX_BITVECTOR_WIDTH :: nat where "MAX_BITVECTOR_WIDTH = 1048576"

definition check_width :: "nat \<Rightarrow> term_failure + unit" where
  "check_width width =
     (if width = 0 then Inl (Rejected ZeroWidth)
      else if width > MAX_BITVECTOR_WIDTH then Inl (Rejected (WidthTooLarge width))
      else Inr ())"

definition fresh_bit :: "nat term_op" where
  "fresh_bit = bind_op fresh_bool_atom (\<lambda>(_, t). ret t)"

definition fresh_bitvec :: "nat \<Rightarrow> nat term_op" where
  "fresh_bitvec width =
     bind_op (asks (\<lambda>_. check_width width)) (\<lambda>_.
     bind_op (each_op (\<lambda>_. fresh_bit) [0..<width]) make_bitvec)"

definition fresh_uninterpreted_sort :: "nat term_op" where
  "fresh_uninterpreted_sort s =
     (let k = ts_next_sort s
      in if k + 1 > u32_max then (Inl (Rejected UninterpretedLimit), s)
         else bind_op (sort_id_for (SUninterpreted k)) (\<lambda>_. ret k) (s\<lparr>ts_next_sort := k + 1\<rparr>))"

definition fresh_value :: "sort \<Rightarrow> nat term_op" where
  "fresh_value so =
     bind_op (sort_id_for so) (\<lambda>sid s.
       let v = ts_next_value s
       in if v + 1 > u32_max then (Inl (Rejected ValueLimit), s)
          else intern sid (KUfConstant v) (s\<lparr>ts_next_value := v + 1\<rparr>))"

definition fresh_term :: "sort \<Rightarrow> nat term_op" where
  "fresh_term so =
     (case so of
        SBool \<Rightarrow> fresh_bit
      | SBitVec width \<Rightarrow> fresh_bitvec width
      | SInt \<Rightarrow> fresh_arithmetic_variable so
      | SReal \<Rightarrow> fresh_arithmetic_variable so
      | SUninterpreted _ \<Rightarrow> fresh_value so
      | SArray _ \<Rightarrow> fresh_value so)"

subsection \<open>Functions\<close>

definition declare_function :: "sort list \<Rightarrow> sort \<Rightarrow> nat term_op" where
  "declare_function domain rng =
     bind_op (each_op sort_id_for domain) (\<lambda>_.
     bind_op (sort_id_for rng) (\<lambda>_ s.
       let f = length (ts_functions s)
       in if f > u32_max then (Inl (Rejected FunctionLimit), s)
          else (Inr f, s\<lparr>ts_functions := ts_functions s @ [\<lparr>fs_domain = domain, fs_range = rng\<rparr>]\<rparr>)))"

definition lookup_function :: "nat \<Rightarrow> term_store \<Rightarrow> term_failure + function_signature" where
  "lookup_function f s =
     (if f < length (ts_functions s) then Inr (ts_functions s ! f) else Inl (Rejected ForeignFunction))"

fun check_arguments :: "(nat \<times> sort) list \<Rightarrow> term_store \<Rightarrow> term_failure + unit" where
  "check_arguments [] s = Inr ()"
| "check_arguments ((t, expected) # rest) s =
     bindE (sort_of t s) (\<lambda>so. if so \<noteq> expected then Inl (Rejected ArgumentSort) else check_arguments rest s)"

text \<open>The bits of a bit-vector application, by the application and their position.\<close>

fun index_bits :: "nat \<Rightarrow> nat \<Rightarrow> nat list \<Rightarrow> (nat \<rightharpoonup> nat \<times> nat) \<Rightarrow> (nat \<rightharpoonup> nat \<times> nat)" where
  "index_bits result i [] m = m"
| "index_bits result i (b # bs) m = index_bits result (i + 1) bs (m(b \<mapsto> (result, i)))"

definition record_application :: "nat \<Rightarrow> nat list \<Rightarrow> sort \<Rightarrow> nat \<Rightarrow> nat term_op" where
  "record_application f arguments rng result s =
     (let s1 = s\<lparr>ts_application_results := (ts_application_results s)((f, arguments) \<mapsto> result),
                 ts_application_by_result := (ts_application_by_result s)(result \<mapsto> length (ts_applications s))\<rparr>
      in bind_op
           (case rng of
              SBitVec _ \<Rightarrow>
                bind_op (asks (bitvec_bits result)) (\<lambda>bits s.
                  (Inr (), s\<lparr>ts_application_by_bit := index_bits result 0 bits (ts_application_by_bit s)\<rparr>))
            | _ \<Rightarrow> ret ())
           (\<lambda>_ s. (Inr result, s\<lparr>ts_applications := ts_applications s @
              [\<lparr>ap_function = f, ap_arguments = arguments, ap_result = result\<rparr>]\<rparr>)) s1)"

definition apply_function :: "nat \<Rightarrow> nat list \<Rightarrow> nat term_op" where
  "apply_function f arguments =
     bind_op (asks (lookup_function f)) (\<lambda>sig.
       if length arguments \<noteq> length (fs_domain sig)
       then reject (ArgumentCount (length (fs_domain sig)) (length arguments))
       else
         bind_op (asks (check_arguments (zip arguments (fs_domain sig)))) (\<lambda>_ s.
           case ts_application_results s (f, arguments) of
             Some result \<Rightarrow> (Inr result, s)
           | None \<Rightarrow>
               bind_op
                 (case fs_range sig of
                    SBool \<Rightarrow> fresh_bit
                  | SBitVec width \<Rightarrow> fresh_bitvec width
                  | SInt \<Rightarrow> fresh_arithmetic_variable (fs_range sig)
                  | SReal \<Rightarrow> fresh_arithmetic_variable (fs_range sig)
                  | _ \<Rightarrow> bind_op (sort_id_for (fs_range sig)) (\<lambda>sid. intern sid (KUfApplication f arguments)))
                 (record_application f arguments (fs_range sig)) s))"

subsection \<open>Arrays\<close>

definition array_sort :: "sort \<Rightarrow> sort \<Rightarrow> nat term_op" where
  "array_sort index element =
     bind_op (sort_id_for index) (\<lambda>_.
     bind_op (sort_id_for element) (\<lambda>_ s.
       case ts_array_sort_ids s (index, element) of
         Some k \<Rightarrow> (Inr k, s)
       | None \<Rightarrow>
           (let k = length (ts_array_sorts s)
            in if k > u32_max then (Inl (Rejected ArraySortLimit), s)
               else
                 bind_op (sort_id_for (SArray k)) (\<lambda>_.
                 bind_op (declare_function [SArray k, index] element) (\<lambda>f s.
                   (Inr k, s\<lparr>ts_array_sorts := ts_array_sorts s @
                               [\<lparr>as_index = index, as_element = element, as_select = f\<rparr>],
                             ts_array_sort_ids := (ts_array_sort_ids s)((index, element) \<mapsto> k)\<rparr>))) s)))"

definition lookup_array :: "nat \<Rightarrow> term_store \<Rightarrow> term_failure + array_signature" where
  "lookup_array k s =
     (if k < length (ts_array_sorts s) then Inr (ts_array_sorts s ! k) else Inl (Rejected ForeignArraySort))"

definition select_array_sort :: "nat \<Rightarrow> term_store \<Rightarrow> nat option" where
  "select_array_sort f s =
     (let k = length (takeWhile (\<lambda>sig. as_select sig \<noteq> f) (ts_array_sorts s))
      in if k < length (ts_array_sorts s) \<and> k \<le> u32_max then Some k else None)"

definition const_array :: "nat \<Rightarrow> nat \<Rightarrow> nat term_op" where
  "const_array k value =
     bind_op (asks (lookup_array k)) (\<lambda>sig.
     bind_op (asks (sort_of value)) (\<lambda>so.
       if so \<noteq> as_element sig then reject ArrayElement
       else bind_op (sort_id_for (SArray k)) (\<lambda>sid. intern sid (KArrayConst value))))"

definition array_store :: "nat \<Rightarrow> nat \<Rightarrow> nat \<Rightarrow> nat term_op" where
  "array_store array index value =
     bind_op (asks (sort_of array)) (\<lambda>so.
       case so of
         SArray k \<Rightarrow>
           bind_op (asks (lookup_array k)) (\<lambda>sig.
           bind_op (asks (sort_of index)) (\<lambda>isort.
             if isort \<noteq> as_index sig then reject ArrayIndex
             else bind_op (asks (sort_of value)) (\<lambda>vsort.
               if vsort \<noteq> as_element sig then reject ArrayElement
               else bind_op (sort_id_for (SArray k)) (\<lambda>sid. intern sid (KArrayStore array index value)))))
       | _ \<Rightarrow> reject (NotArray ''store''))"

definition register_array_read :: "nat \<Rightarrow> nat \<Rightarrow> term_store \<Rightarrow> term_store" where
  "register_array_read array index s =
     (let indices = (case ts_array_reads s array of None \<Rightarrow> [] | Some is \<Rightarrow> is)
      in if List.member indices index then s
         else s\<lparr>ts_array_reads := (ts_array_reads s)(array \<mapsto> indices @ [index]),
                ts_array_read_log := ts_array_read_log s @ [(array, index)]\<rparr>)"

definition out_of_fuel :: "'a term_op" where
  "out_of_fuel s = (Inl OutOfFuel, s)"

subsection \<open>Equality and reading arrays\<close>

definition mark_select :: "nat \<Rightarrow> term_store \<Rightarrow> term_store" where
  "mark_select result s =
     s\<lparr>ts_semantic_selects := insert result (ts_semantic_selects s),
       ts_semantic_select_log := ts_semantic_select_log s @ [result]\<rparr>"

definition add_axiom :: "nat \<Rightarrow> unit term_op" where
  "add_axiom axm s = (Inr (), s\<lparr>ts_array_axioms := ts_array_axioms s @ [axm]\<rparr>)"

definition record_equality :: "nat \<Rightarrow> nat \<Rightarrow> nat \<Rightarrow> unit term_op" where
  "record_equality l r t s =
     (Inr (), s\<lparr>ts_theory_equality_terms := (ts_theory_equality_terms s)((l, r) \<mapsto> t),
               ts_theory_equalities := ts_theory_equalities s @ [\<lparr>te_term = t, te_left = l, te_right = r\<rparr>]\<rparr>)"

fun equivalent :: "nat \<Rightarrow> nat \<Rightarrow> nat \<Rightarrow> nat term_op"
  and theory_equality_of :: "nat \<Rightarrow> nat \<Rightarrow> nat \<Rightarrow> nat term_op"
  and select :: "nat \<Rightarrow> nat \<Rightarrow> nat \<Rightarrow> nat term_op"
where
  "equivalent 0 l r = out_of_fuel"
| "equivalent (Suc n) l r =
     bind_op (asks (sort_of l)) (\<lambda>ls.
     bind_op (asks (sort_of r)) (\<lambda>rs.
       if arithmetic_sort ls \<and> arithmetic_sort rs then arithmetic_equivalent l r
       else if rs \<noteq> ls then reject EqualitySorts
       else case ls of
         SBool \<Rightarrow> term_iff l r
       | SBitVec _ \<Rightarrow>
           bind_op (asks (bitvec_bits l)) (\<lambda>lbits.
           bind_op (asks (bitvec_bits r)) (\<lambda>rbits.
           bind_op (each_op (\<lambda>(a, b). term_iff a b) (zip lbits rbits)) term_and))
       | _ \<Rightarrow> theory_equality_of n l r))"
| "theory_equality_of 0 l r = out_of_fuel"
| "theory_equality_of (Suc n) l r =
     (\<lambda>s. if l = r then (Inr (ts_true s), s)
      else let (a, b) = ordered_pair l r in
        case ts_theory_equality_terms s (a, b) of
          Some t \<Rightarrow> (Inr t, s)
        | None \<Rightarrow>
            bind_op fresh_symbol (\<lambda>symbol.
            bind_op (intern_bool (KTheoryEquality symbol a b)) (\<lambda>t.
            bind_op (record_equality a b t) (\<lambda>_.
            bind_op (asks (sort_of a)) (\<lambda>so.
              case so of
                SArray k \<Rightarrow>
                  bind_op (asks (lookup_array k)) (\<lambda>sig.
                  bind_op (fresh_term (as_index sig)) (\<lambda>witness.
                  bind_op (select n a witness) (\<lambda>lv.
                  bind_op (select n b witness) (\<lambda>rv.
                  bind_op (equivalent n lv rv) (\<lambda>values_equal.
                  bind_op (term_not values_equal) (\<lambda>differ.
                  bind_op (term_or [t, differ]) (\<lambda>axm.
                  bind_op (add_axiom axm) (\<lambda>_. ret t))))))))
              | _ \<Rightarrow> ret t)))) s)"
| "select 0 array index = out_of_fuel"
| "select (Suc n) array index =
     bind_op (asks (sort_of array)) (\<lambda>so.
       case so of
         SArray k \<Rightarrow>
           bind_op (asks (lookup_array k)) (\<lambda>sig.
           bind_op (asks (sort_of index)) (\<lambda>isort.
             if isort \<noteq> as_index sig then reject ArrayIndex
             else bind_op (\<lambda>s. apply_function (as_select sig) [array, index] (register_array_read array index s)) (\<lambda>result s.
               if result \<in> ts_semantic_selects s then (Inr result, s)
               else bind_op
                 (case node_kind s array of
                    KArrayConst value \<Rightarrow> ret (Some value)
                  | KArrayStore base stored_index stored_value \<Rightarrow>
                      bind_op (equivalent n stored_index index) (\<lambda>same.
                      bind_op (select n base index) (\<lambda>fallback.
                      bind_op (term_ite same stored_value fallback) (\<lambda>v. ret (Some v))))
                  | _ \<Rightarrow> ret None)
                 (\<lambda>value. case value of
                    None \<Rightarrow> ret result
                  | Some v \<Rightarrow> bind_op (equivalent n result v) (\<lambda>axm. bind_op (add_axiom axm) (\<lambda>_. ret result)))
                 (mark_select result s))))
       | _ \<Rightarrow> reject (NotArray ''select''))"

fun same_sorts :: "sort \<Rightarrow> bool \<Rightarrow> nat list \<Rightarrow> term_store \<Rightarrow> term_failure + unit" where
  "same_sorts first arithmetic [] s = Inr ()"
| "same_sorts first arithmetic (t # ts) s =
     (if arithmetic then same_sorts first arithmetic ts s
      else bindE (sort_of t s) (\<lambda>so. if so \<noteq> first then Inl (Rejected EqualitySorts) else same_sorts first arithmetic ts s))"

definition check_same_sorts :: "nat list \<Rightarrow> term_store \<Rightarrow> term_failure + unit" where
  "check_same_sorts ts s =
     bindE (sort_of (ts ! 0) s) (\<lambda>first.
       same_sorts first
         (arithmetic_sort first \<and> list_all (\<lambda>t. case sort_of t s of Inr so \<Rightarrow> arithmetic_sort so | Inl _ \<Rightarrow> False) (tl ts))
         (tl ts) s)"

definition term_equal :: "nat \<Rightarrow> nat list \<Rightarrow> nat term_op" where
  "term_equal n ts =
     (if length ts < 2 then reject (TooFewArguments ''='')
      else bind_op (asks (check_same_sorts ts)) (\<lambda>_.
           bind_op (each_op (equivalent n (ts ! 0)) (tl ts)) term_and))"

definition term_distinct :: "nat \<Rightarrow> nat list \<Rightarrow> nat term_op" where
  "term_distinct n ts =
     (if length ts < 2 then reject (TooFewArguments ''distinct'')
      else bind_op (asks (check_same_sorts ts)) (\<lambda>_.
           bind_op (each_op (\<lambda>(i, j). bind_op (equivalent n (ts ! i) (ts ! j)) term_not)
                      (concat (map (\<lambda>i. map (Pair i) [i + 1..<length ts]) [0..<length ts]))) term_and))"

definition share_array_reads :: "nat \<Rightarrow> nat list \<Rightarrow> unit term_op" where
  "share_array_reads n arrays s =
     (let indices = remdups_adj (sort (concat (map (\<lambda>a. case ts_array_reads s a of None \<Rightarrow> [] | Some is \<Rightarrow> is) arrays)))
      in bind_op (each_op (\<lambda>(a, i). select n a i) (concat (map (\<lambda>a. map (Pair a) indices) arrays))) (\<lambda>_. ret ()) s)"

end
