(* ===== verification/Smt_Bitvec.thy ===== *)
theory Smt_Bitvec
  imports Smt_Functions Dimacs
begin

section \<open>Bit-vector operations\<close>

text \<open>
  The lowering of bit-vectors to Boolean circuits, \<open>src/smt/bitvec.rs\<close>. A bit-vector term is the
  list of its bits, least significant first; every operation builds the circuit of its result
  bit by bit from the Boolean constructors. The loops of the code are recursions over the bits
  here, in the order in which the code makes the terms. Widths are \<open>u32\<close>; the limits on the width
  and on the quadratic operations are the code's.
\<close>

definition MAX_QUADRATIC_LOWERING_WORK :: nat where "MAX_QUADRATIC_LOWERING_WORK = 16000000"

definition check_quadratic :: "nat \<Rightarrow> string \<Rightarrow> term_failure + unit" where
  "check_quadratic width operation =
     (if width * width > MAX_QUADRATIC_LOWERING_WORK then Inl (Rejected (WorkLimit operation width)) else Inr ())"

text \<open>\<open>let result = f(...)?; self.make_bitvec(result)\<close>\<close>

abbreviation make_from :: "nat list term_op \<Rightarrow> nat term_op" where
  "make_from m \<equiv> bind_op m make_bitvec"

definition bits_of :: "nat \<Rightarrow> (nat list \<Rightarrow> 'a term_op) \<Rightarrow> 'a term_op" where
  "bits_of t f = bind_op (asks (bitvec_bits t)) f"

definition constant_bits :: "bool list \<Rightarrow> nat list term_op" where
  "constant_bits vs s = (Inr (map (\<lambda>v. bool_constant v s) vs), s)"

subsection \<open>Literals\<close>

definition bitvec_from_binary :: "string \<Rightarrow> nat term_op" where
  "bitvec_from_binary literal =
     (if \<not> prefix ''#b'' literal then reject (InvalidLiteral ''binary'')
      else let digits = drop 2 literal in
        if digits = [] \<or> \<not> list_all (\<lambda>c. c = CHR ''0'' \<or> c = CHR ''1'') digits
        then reject (InvalidLiteral ''binary'')
        else if length digits > u32_max then reject WidthLimit
        else bind_op (asks (\<lambda>_. check_width (length digits))) (\<lambda>_.
             make_from (constant_bits (map (\<lambda>c. c = CHR ''1'') (rev digits)))))"

text \<open>The value of a hexadecimal digit, \<open>None\<close> for other bytes.\<close>

definition hex_value :: "char \<Rightarrow> nat option" where
  "hex_value c =
     (let b = of_char c :: nat
      in if 48 \<le> b \<and> b \<le> 57 then Some (b - 48)
         else if 97 \<le> b \<and> b \<le> 102 then Some (b - 97 + 10)
         else if 65 \<le> b \<and> b \<le> 70 then Some (b - 65 + 10)
         else None)"

definition nibble_bits :: "nat \<Rightarrow> bool list" where
  "nibble_bits v = map (\<lambda>i. bit v i) [0..<4]"

definition bitvec_from_hexadecimal :: "string \<Rightarrow> nat term_op" where
  "bitvec_from_hexadecimal literal =
     (if \<not> prefix ''#x'' literal then reject (InvalidLiteral ''hexadecimal'')
      else let digits = drop 2 literal in
        if digits = [] \<or> \<not> list_all (\<lambda>c. hex_value c \<noteq> None) digits
        then reject (InvalidLiteral ''hexadecimal'')
        else if length digits * 4 > u32_max then reject WidthLimit
        else bind_op (asks (\<lambda>_. check_width (length digits * 4))) (\<lambda>_.
             make_from (constant_bits (concat (map (\<lambda>c. nibble_bits (the (hex_value c))) (rev digits))))))"

text \<open>One division of the decimal digits by two, from the left: the digits of the quotient and the remainder.\<close>

fun halve_digits :: "nat \<Rightarrow> nat list \<Rightarrow> nat list \<times> nat" where
  "halve_digits carry [] = ([], carry)"
| "halve_digits carry (d # ds) =
     (let current = carry * 10 + d; (ds', c) = halve_digits (current mod 2) ds
      in (current div 2 # ds', c))"

definition digits_value :: "nat list \<Rightarrow> nat" where
  "digits_value ds = foldl (\<lambda>v d. 10 * v + d) 0 ds"

lemma digits_value_Cons: "foldl (\<lambda>v d. 10 * v + d) a ds = a * 10 ^ length ds + digits_value ds"
proof (induction ds arbitrary: a)
  case (Cons d ds)
  from Cons [of "10 * a + d"] Cons [of d] show ?case by (simp add: digits_value_def algebra_simps)
qed (simp add: digits_value_def)

lemma digits_value_simps [simp]:
  "digits_value [] = 0" "digits_value (d # ds) = d * 10 ^ length ds + digits_value ds"
  using digits_value_Cons [of d ds] by (simp_all add: digits_value_def)

lemma halve_digits_value:
  "c < 2 \<Longrightarrow> 2 * digits_value (fst (halve_digits c ds)) + snd (halve_digits c ds) = c * 10 ^ length ds + digits_value ds
    \<and> length (fst (halve_digits c ds)) = length ds \<and> snd (halve_digits c ds) < 2"
proof (induction ds arbitrary: c)
  case (Cons d ds)
  let ?cur = "c * 10 + d"
  obtain ds' k where h: "halve_digits (?cur mod 2) ds = (ds', k)" by fastforce
  from Cons.IH [of "?cur mod 2"] h
  have "2 * digits_value ds' + k = ?cur mod 2 * 10 ^ length ds + digits_value ds" "length ds' = length ds" "k < 2" by simp_all
  moreover have "2 * (?cur div 2 * 10 ^ length ds) + ?cur mod 2 * 10 ^ length ds = ?cur * 10 ^ length ds"
    by (metis add_mult_distrib mult.assoc mult_div_mod_eq)
  ultimately show ?case using h by (simp add: Let_def algebra_simps)
qed simp

lemma digits_value_dropWhile [simp]: "digits_value (dropWhile (\<lambda>d. d = 0) ds) = digits_value ds"
  by (induction ds) auto

lemma digits_value_zero: "list_ex (\<lambda>d. d \<noteq> 0) ds \<Longrightarrow> 0 < digits_value ds"
  by (induction ds) auto

lemma halved_smaller:
  assumes "list_ex ((<) 0) ds" "(ds', carry) = halve_digits 0 ds"
  shows "digits_value ds' < digits_value ds"
  using digits_value_zero [of ds] halve_digits_value [of 0 ds] assms(1) assms(2) [symmetric] by simp

text \<open>The binary digits of a decimal number, least significant first.\<close>

function decimal_bits :: "nat list \<Rightarrow> bool list" where
  "decimal_bits ds =
     (if list_ex (\<lambda>d. d \<noteq> 0) ds
      then case halve_digits 0 ds of (ds', carry) \<Rightarrow> (carry \<noteq> 0) # decimal_bits (dropWhile (\<lambda>d. d = 0) ds')
      else [])"
  by pat_completeness auto

termination by (relation "measure digits_value") (auto intro: halved_smaller)

declare decimal_bits.simps [simp del]

definition bitvec_from_decimal :: "string \<Rightarrow> nat \<Rightarrow> nat term_op" where
  "bitvec_from_decimal decimal width =
     bind_op (asks (\<lambda>_. check_width width)) (\<lambda>_.
       if decimal = [] \<or> \<not> list_all is_ascii_digit decimal then reject InvalidNumeral
       else if length decimal > 1 \<and> hd decimal = CHR ''0'' then reject InvalidNumeral
       else
         let value_bits = decimal_bits (map digit_value decimal)
         in if length value_bits > width then reject (ValueTooWide width)
            else make_from (constant_bits (value_bits @ replicate (width - length value_bits) False)))"

subsection \<open>Widths and bitwise operations\<close>

definition bitvec_width :: "nat \<Rightarrow> term_store \<Rightarrow> term_failure + nat" where
  "bitvec_width t s =
     bindE (sort_of t s) (\<lambda>so. case so of SBitVec w \<Rightarrow> Inr w | _ \<Rightarrow> Inl (Rejected NotBitVector))"

definition require_same_bv_width :: "nat \<Rightarrow> nat \<Rightarrow> string \<Rightarrow> term_store \<Rightarrow> term_failure + nat" where
  "require_same_bv_width l r operation s =
     bindE (bitvec_width l s) (\<lambda>lw. bindE (bitvec_width r s) (\<lambda>rw.
       if lw = rw then Inr lw else Inl (Rejected (WidthMismatch operation lw rw))))"

definition bvnot :: "nat \<Rightarrow> nat term_op" where
  "bvnot t = bits_of t (\<lambda>bits. make_from (each_op term_not bits))"

datatype bitwise = BitAnd | BitOr | BitXor

fun bitwise_name :: "bitwise \<Rightarrow> string" where
  "bitwise_name BitAnd = ''bvand''"
| "bitwise_name BitOr = ''bvor''"
| "bitwise_name BitXor = ''bvxor''"

fun bitwise_bit :: "bitwise \<Rightarrow> nat \<Rightarrow> nat \<Rightarrow> nat term_op" where
  "bitwise_bit BitAnd l r = term_and [l, r]"
| "bitwise_bit BitOr l r = term_or [l, r]"
| "bitwise_bit BitXor l r = term_xor l r"

text \<open>The loops of \<open>fold_bitwise\<close>, \<open>bvadd\<close> and \<open>bvmul\<close> over the arguments after the first.\<close>

fun fold_arguments :: "term_error \<Rightarrow> nat \<Rightarrow> (nat list \<Rightarrow> nat list \<Rightarrow> nat list term_op) \<Rightarrow> nat list \<Rightarrow> nat list \<Rightarrow> nat list term_op" where
  "fold_arguments mismatch width f [] result = ret result"
| "fold_arguments mismatch width f (t # ts) result =
     bind_op (asks (bitvec_width t)) (\<lambda>w.
       if w \<noteq> width then reject mismatch
       else bits_of t (\<lambda>right. bind_op (f result right) (fold_arguments mismatch width f ts)))"

definition fold_bitwise :: "nat list \<Rightarrow> bitwise \<Rightarrow> nat term_op" where
  "fold_bitwise ts operation =
     (if length ts < 2 then reject (TooFewArguments (bitwise_name operation))
      else bind_op (asks (bitvec_width (ts ! 0))) (\<lambda>width.
           bits_of (ts ! 0) (\<lambda>first.
           make_from (fold_arguments (WidthsDiffer (bitwise_name operation)) width
             (\<lambda>result right. each_op (\<lambda>(l, r). bitwise_bit operation l r) (zip result right)) (tl ts) first))))"

definition bvand :: "nat list \<Rightarrow> nat term_op" where
  "bvand ts = fold_bitwise ts BitAnd"

definition bvor :: "nat list \<Rightarrow> nat term_op" where
  "bvor ts = fold_bitwise ts BitOr"

definition bvxor :: "nat list \<Rightarrow> nat term_op" where
  "bvxor ts = fold_bitwise ts BitXor"

definition bvnand :: "nat \<Rightarrow> nat \<Rightarrow> nat term_op" where
  "bvnand l r = bind_op (bvand [l, r]) bvnot"

definition bvnor :: "nat \<Rightarrow> nat \<Rightarrow> nat term_op" where
  "bvnor l r = bind_op (bvor [l, r]) bvnot"

definition bvxnor :: "nat \<Rightarrow> nat \<Rightarrow> nat term_op" where
  "bvxnor l r = bind_op (bvxor [l, r]) bvnot"

definition bvcomp :: "nat \<Rightarrow> nat \<Rightarrow> nat \<Rightarrow> nat term_op" where
  "bvcomp n l r = bind_op (term_equal n [l, r]) (\<lambda>e. make_bitvec [e])"

subsection \<open>Moving bits\<close>

definition bv_concat :: "nat \<Rightarrow> nat \<Rightarrow> nat term_op" where
  "bv_concat l r =
     bind_op (asks (bitvec_width l)) (\<lambda>lw.
     bind_op (asks (bitvec_width r)) (\<lambda>rw.
       if lw + rw > u32_max then reject (WidthOverflow ''concatenated'')
       else bind_op (asks (\<lambda>_. check_width (lw + rw))) (\<lambda>_.
            bits_of r (\<lambda>rbits. bits_of l (\<lambda>lbits. make_bitvec (rbits @ lbits))))))"

definition bv_extract :: "nat \<Rightarrow> nat \<Rightarrow> nat \<Rightarrow> nat term_op" where
  "bv_extract t high low =
     bind_op (asks (bitvec_width t)) (\<lambda>width.
       if low > high \<or> high \<ge> width then reject (ExtractRange high low width)
       else bits_of t (\<lambda>bits. make_bitvec (take (high + 1 - low) (drop low bits))))"

definition bv_repeat :: "nat \<Rightarrow> nat \<Rightarrow> nat term_op" where
  "bv_repeat t n =
     (if n = 0 then reject ZeroRepeat
      else bind_op (asks (bitvec_width t)) (\<lambda>w.
        if w * n > u32_max then reject (WidthOverflow ''repeated'')
        else bind_op (asks (\<lambda>_. check_width (w * n))) (\<lambda>_.
             bits_of t (\<lambda>bits. make_bitvec (concat (replicate n bits))))))"

text \<open>The widths here are at least those of the operand, so \<open>resize\<close> only extends.\<close>

definition zero_extend :: "nat \<Rightarrow> nat \<Rightarrow> nat term_op" where
  "zero_extend t amount =
     bind_op (asks (bitvec_width t)) (\<lambda>w.
       if w + amount > u32_max then reject (WidthOverflow ''zero-extended'')
       else bind_op (asks (\<lambda>_. check_width (w + amount))) (\<lambda>_.
            bits_of t (\<lambda>bits s. make_bitvec (resize (w + amount) (bool_constant False s) bits) s)))"

definition sign_extend :: "nat \<Rightarrow> nat \<Rightarrow> nat term_op" where
  "sign_extend t amount =
     bind_op (asks (bitvec_width t)) (\<lambda>w.
       if w + amount > u32_max then reject (WidthOverflow ''sign-extended'')
       else bind_op (asks (\<lambda>_. check_width (w + amount))) (\<lambda>_.
            bits_of t (\<lambda>bits. make_bitvec (resize (w + amount) (bits ! (w - 1)) bits))))"

text \<open>Each input bit is written to its place in the result, from the first.\<close>

fun place_bits :: "(nat \<Rightarrow> nat) \<Rightarrow> nat \<Rightarrow> nat list \<Rightarrow> nat list \<Rightarrow> nat list" where
  "place_bits f index [] bits = bits"
| "place_bits f index (b # input) bits = place_bits f (index + 1) input (bits[f index := b])"

definition rotate_by :: "nat \<Rightarrow> (nat \<Rightarrow> nat \<Rightarrow> nat \<Rightarrow> nat) \<Rightarrow> nat \<Rightarrow> nat term_op" where
  "rotate_by t f amount =
     bind_op (asks (bitvec_width t)) (\<lambda>width.
     bits_of t (\<lambda>input s.
       make_bitvec (place_bits (f width (amount mod width)) 0 input (replicate width (bool_constant False s))) s))"

definition rotate_left :: "nat \<Rightarrow> nat \<Rightarrow> nat term_op" where
  "rotate_left t amount = rotate_by t (\<lambda>width amount index. (index + amount) mod width) amount"

definition rotate_right :: "nat \<Rightarrow> nat \<Rightarrow> nat term_op" where
  "rotate_right t amount = rotate_by t (\<lambda>width amount index. (index + width - amount) mod width) amount"

subsection \<open>Circuits\<close>

fun ripple :: "(nat \<times> nat) list \<Rightarrow> nat \<Rightarrow> (nat list \<times> nat) term_op" where
  "ripple [] carry = ret ([], carry)"
| "ripple ((l, r) # pairs) carry =
     bind_op (term_xor l r) (\<lambda>pair_sum.
     bind_op (term_xor pair_sum carry) (\<lambda>sum.
     bind_op (term_and [l, r]) (\<lambda>pair_carry.
     bind_op (term_and [pair_sum, carry]) (\<lambda>propagated.
     bind_op (term_or [pair_carry, propagated]) (\<lambda>carry'.
     bind_op (ripple pairs carry') (\<lambda>(result, out). ret (sum # result, out)))))))"

definition add_bits :: "nat list \<Rightarrow> nat list \<Rightarrow> (nat list \<times> nat) term_op" where
  "add_bits l r s = ripple (zip l r) (bool_constant False s) s"

definition sum_bits :: "nat list \<Rightarrow> nat list \<Rightarrow> nat list term_op" where
  "sum_bits l r = bind_op (add_bits l r) (\<lambda>(result, _). ret result)"

text \<open>\<open>one[0]\<close> panics for no bits at all.\<close>

definition negate_bits :: "nat list \<Rightarrow> nat list term_op" where
  "negate_bits bits =
     bind_op (each_op term_not bits) (\<lambda>inverted s.
       if bits = [] then (Inl Panicked, s)
       else sum_bits inverted (bool_constant True s # replicate (length bits - 1) (bool_constant False s)) s)"

definition subtract_bits :: "nat list \<Rightarrow> nat list \<Rightarrow> nat list term_op" where
  "subtract_bits l r = bind_op (negate_bits r) (sum_bits l)"

fun partial_bits :: "nat \<Rightarrow> nat list \<Rightarrow> nat \<Rightarrow> nat list \<Rightarrow> nat list term_op" where
  "partial_bits output [] right_bit partial = ret partial"
| "partial_bits output (l # ls) right_bit partial =
     (if output \<ge> length partial then ret partial
      else bind_op (term_and [l, right_bit]) (\<lambda>b. partial_bits (output + 1) ls right_bit (partial[output := b])))"

fun multiply_rows :: "nat \<Rightarrow> nat list \<Rightarrow> nat list \<Rightarrow> nat \<Rightarrow> nat list \<Rightarrow> nat list term_op" where
  "multiply_rows index [] l width result = ret result"
| "multiply_rows index (right_bit # r) l width result =
     (if index \<ge> width then ret result
      else bind_op (\<lambda>s. partial_bits index l right_bit (replicate width (bool_constant False s)) s) (\<lambda>partial.
           bind_op (sum_bits result partial) (multiply_rows (index + 1) r l width)))"

definition multiply_bits :: "nat list \<Rightarrow> nat list \<Rightarrow> nat \<Rightarrow> nat list term_op" where
  "multiply_bits l r width s = multiply_rows 0 r l width (replicate width (bool_constant False s)) s"

fun less_from :: "(nat \<times> nat) list \<Rightarrow> nat \<Rightarrow> nat \<Rightarrow> nat term_op" where
  "less_from [] lt equal = ret lt"
| "less_from ((l, r) # pairs) lt equal =
     bind_op (term_not l) (\<lambda>not_left.
     bind_op (term_and [not_left, r]) (\<lambda>left_less.
     bind_op (term_and [equal, left_less]) (\<lambda>decisive.
     bind_op (term_or [lt, decisive]) (\<lambda>lt'.
     bind_op (term_iff l r) (\<lambda>bit_equal.
     bind_op (term_and [equal, bit_equal]) (less_from pairs lt'))))))"

definition unsigned_less_than_bits :: "nat list \<Rightarrow> nat list \<Rightarrow> nat term_op" where
  "unsigned_less_than_bits l r s = less_from (rev (zip l r)) (bool_constant False s) (bool_constant True s) s"

definition select_bits :: "nat \<Rightarrow> nat list \<Rightarrow> nat list \<Rightarrow> nat list term_op" where
  "select_bits c ts es = each_op (\<lambda>(t, e). term_ite c t e) (zip ts es)"

definition absolute_bits :: "nat list \<Rightarrow> nat \<Rightarrow> nat list term_op" where
  "absolute_bits bits sign = bind_op (negate_bits bits) (\<lambda>negated. select_bits sign negated bits)"

definition is_zero_bits :: "nat list \<Rightarrow> nat term_op" where
  "is_zero_bits bits = bind_op (each_op term_not bits) term_and"

text \<open>Long division, the dividend's bits from the most significant one.\<close>

fun divide_steps :: "nat list \<Rightarrow> nat list \<Rightarrow> nat list \<Rightarrow> nat list \<Rightarrow> (nat list \<times> nat list) term_op" where
  "divide_steps [] divisor remainder quot = ret (quot, remainder)"
| "divide_steps (b # bits) divisor remainder quot =
     (let shifted = b # butlast remainder
      in bind_op (unsigned_less_than_bits shifted divisor) (\<lambda>lt.
         bind_op (term_not lt) (\<lambda>greater_or_equal.
         bind_op (subtract_bits shifted divisor) (\<lambda>subtracted.
         bind_op (select_bits greater_or_equal subtracted shifted) (\<lambda>remainder'.
         divide_steps bits divisor remainder' (greater_or_equal # quot))))))"

definition unsigned_divide_bits :: "nat list \<Rightarrow> nat list \<Rightarrow> (nat list \<times> nat list) term_op" where
  "unsigned_divide_bits dividend divisor =
     (if length dividend > u32_max then reject WidthLimit
      else bind_op (asks (\<lambda>_. check_quadratic (length dividend) ''bit-vector division'')) (\<lambda>_ s.
        bind_op (divide_steps (rev dividend) (divisor @ [bool_constant False s])
                   (replicate (length dividend + 1) (bool_constant False s)) [])
          (\<lambda>(quot, remainder). ret (quot, butlast remainder)) s))"

subsection \<open>Arithmetic\<close>

definition with_pair :: "nat \<Rightarrow> nat \<Rightarrow> string \<Rightarrow> (nat list \<Rightarrow> nat list \<Rightarrow> 'a term_op) \<Rightarrow> 'a term_op" where
  "with_pair l r operation f =
     bind_op (asks (require_same_bv_width l r operation)) (\<lambda>_. bits_of l (\<lambda>lbits. bits_of r (f lbits)))"

definition bvneg :: "nat \<Rightarrow> nat term_op" where
  "bvneg t = bits_of t (\<lambda>bits. make_from (negate_bits bits))"

definition bvadd :: "nat list \<Rightarrow> nat term_op" where
  "bvadd ts =
     (if length ts < 2 then reject (TooFewArguments ''bvadd'')
      else bind_op (asks (bitvec_width (ts ! 0))) (\<lambda>width.
           bits_of (ts ! 0) (\<lambda>first. make_from (fold_arguments (WidthsDiffer ''bvadd'') width sum_bits (tl ts) first))))"

definition bvsub :: "nat \<Rightarrow> nat \<Rightarrow> nat term_op" where
  "bvsub l r = with_pair l r ''bvsub'' (\<lambda>lb rb. make_from (subtract_bits lb rb))"

definition bvmul :: "nat list \<Rightarrow> nat term_op" where
  "bvmul ts =
     (if length ts < 2 then reject (TooFewArguments ''bvmul'')
      else bind_op (asks (bitvec_width (ts ! 0))) (\<lambda>width.
           bind_op (asks (\<lambda>_. check_quadratic width ''bvmul'')) (\<lambda>_.
           bits_of (ts ! 0) (\<lambda>first.
           make_from (fold_arguments (WidthsDiffer ''bvmul'') width
             (\<lambda>result right. multiply_bits result right width) (tl ts) first)))))"

definition bvudiv :: "nat \<Rightarrow> nat \<Rightarrow> nat term_op" where
  "bvudiv l r = with_pair l r ''bvudiv'' (\<lambda>lb rb. bind_op (unsigned_divide_bits lb rb) (\<lambda>(q, _). make_bitvec q))"

definition bvurem :: "nat \<Rightarrow> nat \<Rightarrow> nat term_op" where
  "bvurem l r = with_pair l r ''bvurem'' (\<lambda>lb rb. bind_op (unsigned_divide_bits lb rb) (\<lambda>(_, m). make_bitvec m))"

text \<open>\<open>*bits.last()\<close> is \<open>last bits\<close>; bit-vectors are not empty.\<close>

definition bvsdiv :: "nat \<Rightarrow> nat \<Rightarrow> nat term_op" where
  "bvsdiv l r = with_pair l r ''bvsdiv'' (\<lambda>lb rb.
     bind_op (absolute_bits lb (last lb)) (\<lambda>al.
     bind_op (absolute_bits rb (last rb)) (\<lambda>ar.
     bind_op (unsigned_divide_bits al ar) (\<lambda>(quot, _).
     bind_op (term_xor (last lb) (last rb)) (\<lambda>negative.
     bind_op (negate_bits quot) (\<lambda>negated.
     make_from (select_bits negative negated quot)))))))"

definition bvsrem :: "nat \<Rightarrow> nat \<Rightarrow> nat term_op" where
  "bvsrem l r = with_pair l r ''bvsrem'' (\<lambda>lb rb.
     bind_op (absolute_bits lb (last lb)) (\<lambda>al.
     bind_op (absolute_bits rb (last rb)) (\<lambda>ar.
     bind_op (unsigned_divide_bits al ar) (\<lambda>(_, remainder).
     bind_op (negate_bits remainder) (\<lambda>negated.
     make_from (select_bits (last lb) negated remainder))))))"

definition bvsmod :: "nat \<Rightarrow> nat \<Rightarrow> nat term_op" where
  "bvsmod l r = with_pair l r ''bvsmod'' (\<lambda>lb rb.
     let ls = last lb; rs = last rb in
     bind_op (absolute_bits lb ls) (\<lambda>al.
     bind_op (absolute_bits rb rs) (\<lambda>ar.
     bind_op (unsigned_divide_bits al ar) (\<lambda>(_, unsigned_remainder).
     bind_op (is_zero_bits unsigned_remainder) (\<lambda>remainder_is_zero.
     bind_op (negate_bits unsigned_remainder) (\<lambda>negated_remainder.
     bind_op (sum_bits negated_remainder rb) (\<lambda>negative_positive.
     bind_op (sum_bits unsigned_remainder rb) (\<lambda>positive_negative.
     bind_op (term_not ls) (\<lambda>not_ls.
     bind_op (term_not rs) (\<lambda>not_rs.
     bind_op (term_and [not_ls, not_rs]) (\<lambda>both_positive.
     bind_op (term_and [ls, not_rs]) (\<lambda>dividend_negative.
     bind_op (term_and [not_ls, rs]) (\<lambda>dividend_positive.
     bind_op (select_bits dividend_positive positive_negative negated_remainder) (\<lambda>result1.
     bind_op (select_bits dividend_negative negative_positive result1) (\<lambda>result2.
     bind_op (select_bits both_positive unsigned_remainder result2) (\<lambda>result3.
     make_from (select_bits remainder_is_zero unsigned_remainder result3)))))))))))))))))"

subsection \<open>Shifts\<close>

datatype shift = ShiftLeft | LogicalRight | ArithmeticRight

fun shift_name :: "shift \<Rightarrow> string" where
  "shift_name ShiftLeft = ''bvshl''"
| "shift_name LogicalRight = ''bvlshr''"
| "shift_name ArithmeticRight = ''bvashr''"

text \<open>The bits shifted by \<open>2 ^ index\<close>; from 64 on \<open>checked_shl\<close> gives none.\<close>

definition shift_candidate :: "shift \<Rightarrow> nat \<Rightarrow> nat \<Rightarrow> nat \<Rightarrow> nat list \<Rightarrow> nat list" where
  "shift_candidate direction width fill index result =
     (if index < 64 \<and> 2 ^ index < width
      then map (\<lambda>output.
             if direction = ShiftLeft
             then (if output < 2 ^ index then fill else result ! (output - 2 ^ index))
             else (if output + 2 ^ index < width then result ! (output + 2 ^ index) else fill))
           [0..<width]
      else replicate width fill)"

fun shift_steps :: "shift \<Rightarrow> nat \<Rightarrow> nat \<Rightarrow> nat \<Rightarrow> nat list \<Rightarrow> nat list \<Rightarrow> nat list term_op" where
  "shift_steps direction width fill index [] result = ret result"
| "shift_steps direction width fill index (selector # selectors) result =
     bind_op (select_bits selector (shift_candidate direction width fill index result) result)
       (shift_steps direction width fill (index + 1) selectors)"

definition variable_shift :: "nat \<Rightarrow> nat \<Rightarrow> shift \<Rightarrow> nat term_op" where
  "variable_shift value amount direction =
     bind_op (asks (require_same_bv_width value amount (shift_name direction))) (\<lambda>width.
     bits_of amount (\<lambda>selectors. bits_of value (\<lambda>bits s.
       let fill = (if direction = ArithmeticRight then last bits else bool_constant False s)
       in make_from (shift_steps direction width fill 0 selectors bits) s)))"

definition bvshl :: "nat \<Rightarrow> nat \<Rightarrow> nat term_op" where
  "bvshl value amount = variable_shift value amount ShiftLeft"

definition bvlshr :: "nat \<Rightarrow> nat \<Rightarrow> nat term_op" where
  "bvlshr value amount = variable_shift value amount LogicalRight"

definition bvashr :: "nat \<Rightarrow> nat \<Rightarrow> nat term_op" where
  "bvashr value amount = variable_shift value amount ArithmeticRight"

subsection \<open>Comparisons\<close>

definition bvult :: "nat \<Rightarrow> nat \<Rightarrow> nat term_op" where
  "bvult l r = with_pair l r ''bvult'' unsigned_less_than_bits"

definition bvule :: "nat \<Rightarrow> nat \<Rightarrow> nat term_op" where
  "bvule l r = bind_op (bvult r l) term_not"

definition bvugt :: "nat \<Rightarrow> nat \<Rightarrow> nat term_op" where
  "bvugt l r = bvult r l"

definition bvuge :: "nat \<Rightarrow> nat \<Rightarrow> nat term_op" where
  "bvuge l r = bvule r l"

definition bvslt :: "nat \<Rightarrow> nat \<Rightarrow> nat term_op" where
  "bvslt l r = with_pair l r ''bvslt'' (\<lambda>lb rb.
     bind_op (term_xor (last lb) (last rb)) (\<lambda>signs_differ.
     bind_op (unsigned_less_than_bits lb rb) (\<lambda>lt.
     term_ite signs_differ (last lb) lt)))"

definition bvsle :: "nat \<Rightarrow> nat \<Rightarrow> nat term_op" where
  "bvsle l r = bind_op (bvslt r l) term_not"

definition bvsgt :: "nat \<Rightarrow> nat \<Rightarrow> nat term_op" where
  "bvsgt l r = bvslt r l"

definition bvsge :: "nat \<Rightarrow> nat \<Rightarrow> nat term_op" where
  "bvsge l r = bvsle r l"

subsection \<open>Overflow predicates\<close>

definition bvnego :: "nat \<Rightarrow> nat term_op" where
  "bvnego t = bits_of t (\<lambda>bits.
     bind_op (is_zero_bits (butlast bits)) (\<lambda>low_zero. term_and [last bits, low_zero]))"

definition bvuaddo :: "nat \<Rightarrow> nat \<Rightarrow> nat term_op" where
  "bvuaddo l r = with_pair l r ''bvuaddo'' (\<lambda>lb rb. bind_op (add_bits lb rb) (\<lambda>(_, carry). ret carry))"

definition bvsaddo :: "nat \<Rightarrow> nat \<Rightarrow> nat term_op" where
  "bvsaddo l r = with_pair l r ''bvsaddo'' (\<lambda>lb rb.
     bind_op (sum_bits lb rb) (\<lambda>result.
     bind_op (term_iff (last lb) (last rb)) (\<lambda>same_inputs.
     bind_op (term_xor (last lb) (last result)) (\<lambda>changed_sign.
     term_and [same_inputs, changed_sign]))))"

definition full_product :: "nat \<Rightarrow> nat \<Rightarrow> string \<Rightarrow> (nat \<Rightarrow> nat list \<Rightarrow> nat list \<Rightarrow> 'a term_op) \<Rightarrow> 'a term_op" where
  "full_product l r operation f =
     bind_op (asks (require_same_bv_width l r operation)) (\<lambda>width.
     bind_op (asks (\<lambda>_. check_quadratic width operation)) (\<lambda>_.
       if width * 2 > u32_max then reject (WidthOverflow ''full multiplication'')
       else bind_op (asks (\<lambda>_. check_width (width * 2))) (\<lambda>_.
            bits_of l (\<lambda>lb. bits_of r (f width lb)))))"

definition bvumulo :: "nat \<Rightarrow> nat \<Rightarrow> nat term_op" where
  "bvumulo l r = full_product l r ''bvumulo'' (\<lambda>width lb rb s.
     let extend = resize (width * 2) (bool_constant False s)
     in bind_op (multiply_bits (extend lb) (extend rb) (width * 2)) (\<lambda>product.
        bind_op (is_zero_bits (drop width product)) term_not) s)"

definition bvsmulo :: "nat \<Rightarrow> nat \<Rightarrow> nat term_op" where
  "bvsmulo l r = full_product l r ''bvsmulo'' (\<lambda>width lb rb.
     bind_op (multiply_bits (resize (width * 2) (last lb) lb) (resize (width * 2) (last rb) rb) (width * 2)) (\<lambda>product.
     bind_op (each_op (\<lambda>b. term_iff b (product ! (width - 1))) (drop width product)) (\<lambda>high_matches.
     bind_op (term_and high_matches) term_not)))"

definition bvusubo :: "nat \<Rightarrow> nat \<Rightarrow> nat term_op" where
  "bvusubo l r = bvult l r"

definition bvssubo :: "nat \<Rightarrow> nat \<Rightarrow> nat term_op" where
  "bvssubo l r = with_pair l r ''bvssubo'' (\<lambda>lb rb.
     bind_op (subtract_bits lb rb) (\<lambda>result.
     bind_op (term_xor (last lb) (last rb)) (\<lambda>different_inputs.
     bind_op (term_xor (last lb) (last result)) (\<lambda>changed_sign.
     term_and [different_inputs, changed_sign]))))"

definition bvsdivo :: "nat \<Rightarrow> nat \<Rightarrow> nat term_op" where
  "bvsdivo l r =
     bind_op (asks (require_same_bv_width l r ''bvsdivo'')) (\<lambda>_.
     bind_op (bvnego l) (\<lambda>minimum.
     bits_of r (\<lambda>rb.
     bind_op (each_op (\<lambda>b s. term_iff b (bool_constant True s) s) rb) (\<lambda>all_ones.
     bind_op (term_and all_ones) (\<lambda>negative_one. term_and [minimum, negative_one])))))"

end
