(* ===== verification/Smt_Circuits.thy ===== *)
theory Smt_Circuits
  imports Smt_Bitvec
begin

section \<open>The circuits compute\<close>

text \<open>
  The value of a list of bits is the number they encode, least significant first, under an
  assignment of the atoms. The lemmas give, for every circuit of the lowering, the value of its
  outputs from the values of its inputs: the adder with its carry, two's complement negation,
  subtraction, multiplication, comparison, selection, and long division.
\<close>

subsection \<open>Bits and numbers\<close>

definition bits_nat :: "bool list \<Rightarrow> nat" where
  "bits_nat vs = horner_sum of_bool 2 vs"

lemma bits_nat_simps [simp]: "bits_nat [] = 0" "bits_nat (v # vs) = of_bool v + 2 * bits_nat vs"
  by (simp_all add: bits_nat_def)

lemma bits_nat_less: "bits_nat vs < 2 ^ length vs"
  by (induction vs) auto

lemma bits_nat_append: "bits_nat (vs @ ws) = bits_nat vs + 2 ^ length vs * bits_nat ws"
  by (induction vs) (auto simp: algebra_simps)

lemma bits_nat_zero: "bits_nat vs = 0 \<longleftrightarrow> (\<forall>v \<in> set vs. \<not> v)"
  by (induction vs) auto

lemma bits_nat_replicate [simp]: "bits_nat (replicate n False) = 0" "bits_nat (replicate n True) = 2 ^ n - 1"
proof -
  show "bits_nat (replicate n False) = 0" by (simp add: bits_nat_zero)
  have "bits_nat (replicate n True) + 1 = 2 ^ n" by (induction n) auto
  then show "bits_nat (replicate n True) = 2 ^ n - 1" by simp
qed

lemma bits_nat_not: "bits_nat (map Not vs) + bits_nat vs + 1 = 2 ^ length vs"
  by (induction vs) auto

lemma bits_nat_last: "vs \<noteq> [] \<Longrightarrow> last vs \<longleftrightarrow> 2 ^ (length vs - 1) \<le> bits_nat vs"
proof (induction vs rule: rev_induct)
  case (snoc v vs)
  then show ?case using bits_nat_less [of vs] by (auto simp: bits_nat_append)
qed simp

lemma bits_nat_nth: "i < length vs \<Longrightarrow> vs ! i \<longleftrightarrow> bit (bits_nat vs) i"
  by (simp add: bits_nat_def bit_horner_sum_bit_iff)

lemma bits_nat_inj: "length vs = length ws \<Longrightarrow> bits_nat vs = bits_nat ws \<longleftrightarrow> vs = ws"
  using bits_nat_nth [of _ vs] bits_nat_nth [of _ ws] by (auto intro!: nth_equalityI)

subsection \<open>The value of terms\<close>

abbreviation truths :: "term_store \<Rightarrow> (nat \<Rightarrow> bool) \<Rightarrow> nat list \<Rightarrow> bool list" where
  "truths s \<sigma> ts \<equiv> map (term_value s \<sigma>) ts"

definition bits_ok :: "term_store \<Rightarrow> nat list \<Rightarrow> bool" where
  "bits_ok s ts \<longleftrightarrow> (\<forall>t \<in> set ts. bool_term s t)"

definition word_val :: "term_store \<Rightarrow> nat list \<Rightarrow> (nat \<Rightarrow> bool) \<Rightarrow> nat" where
  "word_val s ts \<sigma> = bits_nat (truths s \<sigma> ts)"

text \<open>\<open>ts\<close> are \<open>w\<close> Boolean terms that encode the number \<open>V \<sigma>\<close>.\<close>

definition bits_word :: "term_store \<Rightarrow> nat list \<Rightarrow> nat \<Rightarrow> ((nat \<Rightarrow> bool) \<Rightarrow> nat) \<Rightarrow> bool" where
  "bits_word s ts w V \<longleftrightarrow> bits_ok s ts \<and> length ts = w \<and> (\<forall>\<sigma>. word_val s ts \<sigma> = V \<sigma>)"

text \<open>\<open>t\<close> is a bit-vector term of width \<open>w\<close> with the value \<open>V\<close>.\<close>

definition word_term :: "term_store \<Rightarrow> nat \<Rightarrow> nat \<Rightarrow> ((nat \<Rightarrow> bool) \<Rightarrow> nat) \<Rightarrow> bool" where
  "word_term s t w V \<longleftrightarrow>
     t < length (ts_nodes s) \<and> w \<le> u32_max \<and> (\<exists>bits. node_kind s t = KBitVec bits \<and> bits_word s bits w V)"

lemma bits_ok_simps [simp]:
  "bits_ok s []" "bits_ok s (t # ts) \<longleftrightarrow> bool_term s t \<and> bits_ok s ts"
  "bits_ok s (ts @ us) \<longleftrightarrow> bits_ok s ts \<and> bits_ok s us" "bits_ok s (rev ts) \<longleftrightarrow> bits_ok s ts"
  by (auto simp: bits_ok_def)

lemma extends_truths: "extends s s' \<Longrightarrow> bits_ok s ts \<Longrightarrow> truths s' \<sigma> ts = truths s \<sigma> ts"
  using extends_value by (simp add: bits_ok_def bool_term_def)

lemma extends_bits: "extends s s' \<Longrightarrow> bits_ok s ts \<Longrightarrow> bits_ok s' ts"
  using extends_bool_term by (auto simp: bits_ok_def)

lemma extends_word_val: "extends s s' \<Longrightarrow> bits_ok s ts \<Longrightarrow> word_val s' ts \<sigma> = word_val s ts \<sigma>"
  by (simp only: word_val_def extends_truths)

lemma word_val_simps [simp]:
  "word_val s [] \<sigma> = 0" "word_val s (t # ts) \<sigma> = of_bool (term_value s \<sigma> t) + 2 * word_val s ts \<sigma>"
  "word_val s (ts @ us) \<sigma> = word_val s ts \<sigma> + 2 ^ length ts * word_val s us \<sigma>"
  by (simp_all add: word_val_def bits_nat_append)

lemma word_val_less: "word_val s ts \<sigma> < 2 ^ length ts"
  using bits_nat_less [of "truths s \<sigma> ts"] by (simp add: word_val_def)

lemma bits_word_extends: "bits_word s ts w V \<Longrightarrow> extends s s' \<Longrightarrow> bits_word s' ts w V"
  using extends_bits extends_word_val by (auto simp: bits_word_def)

lemma bits_wordD:
  assumes "bits_word s ts w V"
  shows "bits_ok s ts" "length ts = w" "word_val s ts \<sigma> = V \<sigma>" "V \<sigma> < 2 ^ w"
  using assms word_val_less [of s ts \<sigma>] by (auto simp: bits_word_def)

lemma bits_word_self: "bits_ok s ts \<Longrightarrow> bits_word s ts (length ts) (word_val s ts)"
  by (simp add: bits_word_def)

lemma bits_word_cong: "bits_word s ts w V \<Longrightarrow> (\<And>\<sigma>. V \<sigma> = V' \<sigma>) \<Longrightarrow> bits_word s ts w V'"
  by (simp add: bits_word_def)

lemma word_term_extends: "word_term s t w V \<Longrightarrow> extends s s' \<Longrightarrow> word_term s' t w V"
  using extends_node [of s s' t] bits_word_extends by (auto simp: word_term_def node_kind_def)

lemma denotes_last:
  assumes "bits_word s ts w V" "0 < w"
  shows "denotes s (last ts) (\<lambda>\<sigma>. 2 ^ (w - 1) \<le> V \<sigma>)" "ts \<noteq> []"
proof -
  show ts: "ts \<noteq> []" using assms by (auto simp: bits_word_def)
  have "last ts \<in> set ts" using ts by simp
  moreover have "term_value s \<sigma> (last ts) \<longleftrightarrow> 2 ^ (w - 1) \<le> V \<sigma>" for \<sigma>
    using bits_nat_last [of "truths s \<sigma> ts"] ts assms(1) by (simp add: last_map bits_word_def word_val_def)
  ultimately show "denotes s (last ts) (\<lambda>\<sigma>. 2 ^ (w - 1) \<le> V \<sigma>)"
    using assms(1) by (simp add: denotes_def bits_word_def bits_ok_def)
qed

lemma constant_word:
  assumes "store_ok s"
  shows "bits_word s (replicate n (bool_constant False s)) n (\<lambda>_. 0)"
    "bits_word s (map (\<lambda>v. bool_constant v s) vs) (length vs) (\<lambda>_. bits_nat vs)"
proof -
  have k: "bool_term s (bool_constant b s)" "term_value s \<sigma> (bool_constant b s) = b" for b \<sigma>
    using constant_ok [OF assms, of b] by (simp_all add: denotes_def)
  show "bits_word s (replicate n (bool_constant False s)) n (\<lambda>_. 0)"
    by (simp add: bits_word_def bits_ok_def word_val_def k)
  show "bits_word s (map (\<lambda>v. bool_constant v s) vs) (length vs) (\<lambda>_. bits_nat vs)"
    by (simp add: bits_word_def bits_ok_def word_val_def k comp_def)
qed

subsection \<open>Conditionals on bits\<close>

lemma sort_of_bool: "store_ok s \<Longrightarrow> bool_term s t \<Longrightarrow> sort_of t s = Inr SBool"
  by (simp add: sort_of_def bool_term_def store_ok_def)

lemma ite_bool_open:
  assumes "\<forall>b. node_kind s c \<noteq> KBool b"
  shows "ite_bool c t e s =
    (if t = ts_true s \<and> e = ts_false s then (Inr c, s)
     else if t = ts_false s \<and> e = ts_true s then term_not c s
     else intern_bool (KIte c t e) s)"
proof (cases "node_kind s c")
  case (KBool b)
  with assms show ?thesis by blast
qed (simp_all add: ite_bool_def)

lemma ite_bool_ok:
  assumes s: "store_ok s" and c: "denotes s c f" and t: "denotes s t g" and e: "denotes s e h"
  shows "op_ok (ite_bool c t e) s (\<lambda>r s'. denotes s' r (\<lambda>\<sigma>. if f \<sigma> then g \<sigma> else h \<sigma>))"
proof -
  let ?Q = "\<lambda>r s'. denotes s' r (\<lambda>\<sigma>. if f \<sigma> then g \<sigma> else h \<sigma>)"
  have b: "bool_term s c" "bool_term s t" "bool_term s e" using c t e by (simp_all add: denotes_def)
  have l: "c < length (ts_nodes s)" using b by (simp add: bool_term_def)
  have v: "term_value s \<sigma> c = f \<sigma>" for \<sigma> using c by (simp add: denotes_def)
  have tf: "denotes s (ts_true s) (\<lambda>_. True)" "denotes s (ts_false s) (\<lambda>_. False)"
    using constant_ok [OF s, of True] constant_ok [OF s, of False] by (simp_all add: bool_constant_def)
  note tv = term_value_simps(1) [OF s l]
  consider (true) "node_kind s c = KBool True" | (false) "node_kind s c = KBool False"
    | (self) "\<forall>b. node_kind s c \<noteq> KBool b" "t = ts_true s \<and> e = ts_false s"
    | (neg) "\<forall>b. node_kind s c \<noteq> KBool b" "\<not> (t = ts_true s \<and> e = ts_false s)" "t = ts_false s \<and> e = ts_true s"
    | (other) "\<forall>b. node_kind s c \<noteq> KBool b" "\<not> (t = ts_true s \<and> e = ts_false s)" "\<not> (t = ts_false s \<and> e = ts_true s)"
    by (metis (full_types))
  then show ?thesis
  proof cases
    case true
    have "f \<sigma>" for \<sigma> using tv [OF true] v by simp
    then show ?thesis using s t true by (intro op_ok_value) (simp_all add: ite_bool_def denotes_def)
  next
    case false
    have "\<not> f \<sigma>" for \<sigma> using tv [OF false] v by simp
    then show ?thesis using s e false by (intro op_ok_value) (simp_all add: ite_bool_def denotes_def)
  next
    case self
    have "g \<sigma>" "\<not> h \<sigma>" for \<sigma> using self t e tf by (simp_all add: denotes_def)
    then have "denotes s c (\<lambda>\<sigma>. if f \<sigma> then g \<sigma> else h \<sigma>)" using c by (simp add: denotes_def)
    then show ?thesis using s self by (intro op_ok_value) (simp_all add: ite_bool_open)
  next
    case neg
    have "\<not> g \<sigma>" "h \<sigma>" for \<sigma> using neg t e tf by (simp_all add: denotes_def)
    then have "op_ok (term_not c) s ?Q" using term_not_ok [OF s c] by simp
    moreover have "ite_bool c t e s = term_not c s"
      unfolding ite_bool_open [OF neg(1)] using neg(2,3) by simp
    ultimately show ?thesis by (simp add: op_ok_def)
  next
    case other
    have "op_ok (intern_bool (KIte c t e)) s ?Q"
    proof (rule intern_bool_value [OF s])
      fix s' u \<sigma> assume u: "store_ok s'" "extends s s'" "u < length (ts_nodes s')" "node_kind s' u = KIte c t e"
      have "term_value s' \<sigma> x = term_value s \<sigma> x" if "bool_term s x" for x
        using extends_value [OF u(2)] that by (simp add: bool_term_def)
      then show "term_value s' \<sigma> u = (if f \<sigma> then g \<sigma> else h \<sigma>)"
        using term_value_simps(8) [OF u(1,3,4), of \<sigma>] b c t e by (simp add: denotes_def)
    qed (use b in auto)
    moreover have "ite_bool c t e s = intern_bool (KIte c t e) s"
      unfolding ite_bool_open [OF other(1)] using other(2,3) by (simp only: if_False)
    ultimately show ?thesis by (simp add: op_ok_def)
  qed
qed

text \<open>On Boolean branches the general \<open>ite\<close> is the Boolean one.\<close>

lemma term_ite_bool:
  assumes "store_ok s" "bool_term s c" "bool_term s t" "bool_term s e"
  shows "term_ite c t e s = ite_bit c t e s"
  using assms require_bool_ok [of s c]
  by (simp add: term_ite_def bind_op_def asks_def sort_of_bool arithmetic_sort_def ite_bit_def)

lemma ite_bit_ok:
  assumes s: "store_ok s" and c: "denotes s c f" and t: "denotes s t g" and e: "denotes s e h"
  shows "op_ok (ite_bit c t e) s (\<lambda>r s'. denotes s' r (\<lambda>\<sigma>. if f \<sigma> then g \<sigma> else h \<sigma>))"
proof (cases "t = e")
  case True
  have "g \<sigma> = h \<sigma>" for \<sigma> using t e True by (auto simp: denotes_def)
  then have "denotes s t (\<lambda>\<sigma>. if f \<sigma> then g \<sigma> else h \<sigma>)" using t by (simp add: denotes_def)
  then show ?thesis using s True by (simp add: ite_bit_def op_ok_ret)
qed (use ite_bool_ok [OF assms] in \<open>simp add: ite_bit_def\<close>)

lemma term_ite_ok:
  assumes "store_ok s" "denotes s c f" "denotes s t g" "denotes s e h"
  shows "op_ok (term_ite c t e) s (\<lambda>r s'. denotes s' r (\<lambda>\<sigma>. if f \<sigma> then g \<sigma> else h \<sigma>))"
  using ite_bit_ok [OF assms] term_ite_bool [OF assms(1)] assms(2-4) by (simp add: op_ok_def denotes_def)

subsection \<open>Bit by bit\<close>

lemma each_op_ok:
  assumes "store_ok s"
    and "\<And>x s'. x \<in> set xs \<Longrightarrow> store_ok s' \<Longrightarrow> extends s s' \<Longrightarrow> op_ok (f x) s' (\<lambda>t s''. denotes s'' t (g x))"
  shows "op_ok (each_op f xs) s (\<lambda>ts s'. bits_ok s' ts \<and> length ts = length xs \<and> (\<forall>\<sigma>. truths s' \<sigma> ts = map (\<lambda>x. g x \<sigma>) xs))"
  using assms
proof (induction xs arbitrary: s)
  case Nil
  then show ?case by (simp add: op_ok_ret)
next
  case (Cons x xs)
  show ?case
    unfolding each_op.simps
  proof (rule op_ok_bind [OF Cons.prems(2)])
    fix t s1 assume 1: "store_ok s1" "extends s s1" "denotes s1 t (g x)"
    have "op_ok (each_op f xs) s1 (\<lambda>ts s'. bits_ok s' ts \<and> length ts = length xs \<and> (\<forall>\<sigma>. truths s' \<sigma> ts = map (\<lambda>x. g x \<sigma>) xs))"
      using Cons.prems(2) extends_trans [OF 1(2)] by (intro Cons.IH [OF 1(1)]) simp
    then show "op_ok (bind_op (each_op f xs) (\<lambda>ts. ret (t # ts))) s1
      (\<lambda>ts s'. bits_ok s' ts \<and> length ts = length (x # xs) \<and> (\<forall>\<sigma>. truths s' \<sigma> ts = map (\<lambda>x. g x \<sigma>) (x # xs)))"
    proof (rule op_ok_bind, elim conjE)
      fix ts s2 assume 2: "store_ok s2" "extends s1 s2" "bits_ok s2 ts" "length ts = length xs"
        "\<forall>\<sigma>. truths s2 \<sigma> ts = map (\<lambda>x. g x \<sigma>) xs"
      have "denotes s2 t (g x)" by (rule denotes_extends [OF 1(3) 2(2)])
      then show "op_ok (ret (t # ts)) s2
        (\<lambda>ts s'. bits_ok s' ts \<and> length ts = length (x # xs) \<and> (\<forall>\<sigma>. truths s' \<sigma> ts = map (\<lambda>x. g x \<sigma>) (x # xs)))"
        using 2 by (intro op_ok_ret) (simp_all add: denotes_def)
    qed
  qed (use Cons.prems(1) in simp_all)
qed

lemma denotes_member: "bits_ok s ts \<Longrightarrow> t \<in> set ts \<Longrightarrow> extends s s' \<Longrightarrow> denotes s' t (\<lambda>\<sigma>. term_value s \<sigma> t)"
  using denotes_extends [OF denotes_self] by (simp add: bits_ok_def)

lemma not_bits_ok:
  assumes s: "store_ok s" and t: "bits_word s ts w V"
  shows "op_ok (each_op term_not ts) s (\<lambda>r s'. bits_word s' r w (\<lambda>\<sigma>. 2 ^ w - 1 - V \<sigma>))"
proof (rule op_ok_conseq [OF each_op_ok [OF s, where g = "\<lambda>t \<sigma>. \<not> term_value s \<sigma> t"]])
  fix x s' assume "x \<in> set ts" "store_ok s'" "extends s s'"
  then show "op_ok (term_not x) s' (\<lambda>t s''. denotes s'' t (\<lambda>\<sigma>. \<not> term_value s \<sigma> x))"
    using t by (intro term_not_ok denotes_member) (auto simp: bits_word_def)
next
  fix r s' assume "bits_ok s' r \<and> length r = length ts \<and> (\<forall>\<sigma>. truths s' \<sigma> r = map (\<lambda>x. \<not> term_value s \<sigma> x) ts)"
  moreover have "bits_nat (map (\<lambda>x. \<not> term_value s \<sigma> x) ts) = 2 ^ w - 1 - V \<sigma>" for \<sigma>
    using bits_nat_not [of "truths s \<sigma> ts"] t by (simp add: bits_word_def word_val_def comp_def)
  ultimately show "bits_word s' r w (\<lambda>\<sigma>. 2 ^ w - 1 - V \<sigma>)" using t by (simp add: bits_word_def word_val_def)
qed

lemma select_bits_ok:
  assumes s: "store_ok s" and c: "denotes s c f" and t: "bits_word s ts w T" and e: "bits_word s es w E"
  shows "op_ok (select_bits c ts es) s (\<lambda>r s'. bits_word s' r w (\<lambda>\<sigma>. if f \<sigma> then T \<sigma> else E \<sigma>))"
  unfolding select_bits_def
proof (rule op_ok_conseq [OF each_op_ok [OF s, where g = "\<lambda>(t, e) \<sigma>. if f \<sigma> then term_value s \<sigma> t else term_value s \<sigma> e"]])
  fix x s' assume x: "x \<in> set (zip ts es)" "store_ok s'" "extends s s'"
  obtain a b where ab: "x = (a, b)" by fastforce
  have d: "denotes s' a (\<lambda>\<sigma>. term_value s \<sigma> a)" "denotes s' b (\<lambda>\<sigma>. term_value s \<sigma> b)"
    using denotes_member [OF bits_wordD(1) [OF t] set_zip_leftD [OF x(1) [unfolded ab]] x(3)]
      denotes_member [OF bits_wordD(1) [OF e] set_zip_rightD [OF x(1) [unfolded ab]] x(3)] by simp_all
  show "op_ok (case x of (t, e) \<Rightarrow> term_ite c t e) s'
      (\<lambda>r s''. denotes s'' r ((\<lambda>(t, e) \<sigma>. if f \<sigma> then term_value s \<sigma> t else term_value s \<sigma> e) x))"
    using term_ite_ok [OF x(2) denotes_extends [OF c x(3)] d] by (simp add: ab)
next
  fix r s' assume r: "bits_ok s' r \<and> length r = length (zip ts es)
    \<and> (\<forall>\<sigma>. truths s' \<sigma> r = map (\<lambda>x. (\<lambda>(t, e) \<sigma>. if f \<sigma> then term_value s \<sigma> t else term_value s \<sigma> e) x \<sigma>) (zip ts es))"
  have l: "length ts = w" "length es = w" using t e by (simp_all add: bits_word_def)
  have "map (\<lambda>x. (\<lambda>(t, e) \<sigma>. if f \<sigma> then term_value s \<sigma> t else term_value s \<sigma> e) x \<sigma>) (zip ts es)
      = (if f \<sigma> then truths s \<sigma> ts else truths s \<sigma> es)" for \<sigma>
    using l by (intro nth_equalityI) (auto)
  then have "word_val s' r \<sigma> = (if f \<sigma> then T \<sigma> else E \<sigma>)" for \<sigma>
    using r t e by (simp add: word_val_def bits_word_def)
  then show "bits_word s' r w (\<lambda>\<sigma>. if f \<sigma> then T \<sigma> else E \<sigma>)" using r l by (simp add: bits_word_def)
qed

subsection \<open>Addition\<close>

lemma full_adder: "(p :: nat) + 2 * q = f + g + c \<Longrightarrow> x + y = a + b + q \<Longrightarrow> p + 2 * x + 2 * y = f + 2 * a + (g + 2 * b) + c"
  by simp

lemma ripple_ok:
  "length ls = length rs \<Longrightarrow> store_ok s \<Longrightarrow> bits_ok s ls \<Longrightarrow> bits_ok s rs \<Longrightarrow> denotes s c C \<Longrightarrow>
   op_ok (ripple (zip ls rs) c) s (\<lambda>(ts, out) s'. bits_ok s' ts \<and> length ts = length ls
     \<and> (\<exists>D. denotes s' out D \<and> (\<forall>\<sigma>. word_val s' ts \<sigma> + 2 ^ length ls * of_bool (D \<sigma>)
          = word_val s ls \<sigma> + word_val s rs \<sigma> + of_bool (C \<sigma>))))"
proof (induction ls rs arbitrary: s c C rule: list_induct2)
  case Nil
  then show ?case by (auto intro!: op_ok_ret)
next
  case (Cons l ls r rs)
  let ?F = "\<lambda>\<sigma>. term_value s \<sigma> l" and ?G = "\<lambda>\<sigma>. term_value s \<sigma> r"
  let ?P = "\<lambda>\<sigma>. ?F \<sigma> \<noteq> ?G \<sigma>" and ?D = "\<lambda>\<sigma>. (?F \<sigma> \<and> ?G \<sigma>) \<or> ((?F \<sigma> \<noteq> ?G \<sigma>) \<and> C \<sigma>)"
  let ?Q = "\<lambda>(ts, out) s'. bits_ok s' ts \<and> length ts = length (l # ls)
     \<and> (\<exists>D. denotes s' out D \<and> (\<forall>\<sigma>. word_val s' ts \<sigma> + 2 ^ length (l # ls) * of_bool (D \<sigma>)
          = word_val s (l # ls) \<sigma> + word_val s (r # rs) \<sigma> + of_bool (C \<sigma>)))"
  have lr: "denotes s l ?F" "denotes s r ?G" using Cons.prems(2,3) by (auto intro: denotes_self)
  show ?case
    unfolding zip_Cons_Cons ripple.simps
  proof (rule op_ok_bind [OF xor_iff_ok(1) [OF Cons.prems(1) lr]])
    fix p s1 assume 1: "store_ok s1" "extends s s1" "denotes s1 p ?P"
    note c1 = denotes_extends [OF Cons.prems(4) 1(2)] and lr1 = lr [THEN denotes_extends, OF 1(2)]
    show "op_ok (bind_op (term_xor p c) (\<lambda>sum. bind_op (term_and [l, r]) (\<lambda>pc. bind_op (term_and [p, c]) (\<lambda>pg.
        bind_op (term_or [pc, pg]) (\<lambda>c'. bind_op (ripple (zip ls rs) c') (\<lambda>(ts, out). ret (sum # ts, out))))))) s1 ?Q"
    proof (rule op_ok_bind [OF xor_iff_ok(1) [OF 1(1,3) c1]])
      fix sm s2 assume 2: "store_ok s2" "extends s1 s2" "denotes s2 sm (\<lambda>\<sigma>. ?P \<sigma> \<noteq> C \<sigma>)"
      note p2 = denotes_extends [OF 1(3) 2(2)] and c2 = denotes_extends [OF c1 2(2)] and lr2 = lr1 [THEN denotes_extends, OF 2(2)]
      show "op_ok (bind_op (term_and [l, r]) (\<lambda>pc. bind_op (term_and [p, c]) (\<lambda>pg.
          bind_op (term_or [pc, pg]) (\<lambda>c'. bind_op (ripple (zip ls rs) c') (\<lambda>(ts, out). ret (sm # ts, out)))))) s2 ?Q"
      proof (rule op_ok_bind [OF term_and2_ok [OF 2(1) lr2]])
        fix pc s3 assume 3: "store_ok s3" "extends s2 s3" "denotes s3 pc (\<lambda>\<sigma>. ?F \<sigma> \<and> ?G \<sigma>)"
        show "op_ok (bind_op (term_and [p, c]) (\<lambda>pg. bind_op (term_or [pc, pg]) (\<lambda>c'.
            bind_op (ripple (zip ls rs) c') (\<lambda>(ts, out). ret (sm # ts, out))))) s3 ?Q"
        proof (rule op_ok_bind [OF term_and2_ok [OF 3(1) denotes_extends [OF p2 3(2)] denotes_extends [OF c2 3(2)]]])
          fix pg s4 assume 4: "store_ok s4" "extends s3 s4" "denotes s4 pg (\<lambda>\<sigma>. ?P \<sigma> \<and> C \<sigma>)"
          show "op_ok (bind_op (term_or [pc, pg]) (\<lambda>c'. bind_op (ripple (zip ls rs) c') (\<lambda>(ts, out). ret (sm # ts, out)))) s4 ?Q"
          proof (rule op_ok_bind [OF term_or2_ok [OF 4(1) denotes_extends [OF 3(3) 4(2)] 4(3)]])
            fix c' s5 assume 5: "store_ok s5" "extends s4 s5" "denotes s5 c' ?D"
            have e25: "extends s2 s5" using 3(2) 4(2) 5(2) extends_trans by blast
            have e: "extends s s5" using 1(2) 2(2) e25 extends_trans by blast
            have b: "bits_ok s ls" "bits_ok s rs" using Cons.prems(2,3) by simp_all
            note ih = Cons.IH [OF 5(1) extends_bits [OF e b(1)] extends_bits [OF e b(2)] 5(3)]
            show "op_ok (bind_op (ripple (zip ls rs) c') (\<lambda>(ts, out). ret (sm # ts, out))) s5 ?Q"
            proof (rule op_ok_bind [OF ih])
              fix x s6 assume x: "store_ok s6" "extends s5 s6" "(\<lambda>(ts, out) s'. bits_ok s' ts \<and> length ts = length ls
                \<and> (\<exists>D. denotes s' out D \<and> (\<forall>\<sigma>. word_val s' ts \<sigma> + 2 ^ length ls * of_bool (D \<sigma>)
                  = word_val s5 ls \<sigma> + word_val s5 rs \<sigma> + of_bool (?D \<sigma>)))) x s6"
              then obtain ts out D where 6: "store_ok s6" "extends s5 s6" "bits_ok s6 ts" "length ts = length ls" "denotes s6 out D"
                "\<forall>\<sigma>. word_val s6 ts \<sigma> + 2 ^ length ls * of_bool (D \<sigma>)
                  = word_val s5 ls \<sigma> + word_val s5 rs \<sigma> + of_bool (?D \<sigma>)" and xe: "x = (ts, out)"
                by (cases x) blast
              note sm6 = denotes_extends [OF 2(3) extends_trans [OF e25 6(2)]]
              have v: "word_val s6 (sm # ts) \<sigma> + 2 ^ length (l # ls) * of_bool (D \<sigma>)
                  = word_val s (l # ls) \<sigma> + word_val s (r # rs) \<sigma> + of_bool (C \<sigma>)" for \<sigma>
              proof -
                have "of_bool (?P \<sigma> \<noteq> C \<sigma>) + 2 * of_bool (?D \<sigma>) = (of_bool (?F \<sigma>) + of_bool (?G \<sigma>) + of_bool (C \<sigma>) :: nat)"
                  by (auto simp: of_bool_def)
                from full_adder [OF this 6(6) [rule_format]] show ?thesis
                  by (simp only: word_val_simps denotes_value [OF sm6] extends_word_val [OF e b(1)] extends_word_val [OF e b(2)]
                      length_Cons power_Suc mult.assoc)
              qed
              have "bits_ok s6 (sm # ts)" using 6(3) denotes_bool [OF sm6] by simp
              then have "op_ok (ret (sm # ts, out)) s6 ?Q"
                using 6(1,4,5) v by (intro op_ok_ret) (simp_all only: case_prod_conv length_Cons, blast)
              then show "op_ok (case x of (ts, out) \<Rightarrow> ret (sm # ts, out)) s6 ?Q" by (simp only: xe case_prod_conv)
            qed
          qed
        qed
      qed
    qed
  qed
qed

lemma add_bits_ok:
  assumes s: "store_ok s" and l: "bits_word s ls w A" and r: "bits_word s rs w B"
  shows "op_ok (add_bits ls rs) s (\<lambda>(ts, out) s'. bits_word s' ts w (\<lambda>\<sigma>. (A \<sigma> + B \<sigma>) mod 2 ^ w)
    \<and> denotes s' out (\<lambda>\<sigma>. 2 ^ w \<le> A \<sigma> + B \<sigma>))"
proof -
  have len: "length ls = length rs" "length ls = w" and b: "bits_ok s ls" "bits_ok s rs" using l r by (simp_all add: bits_word_def)
  have v: "word_val s ls \<sigma> = A \<sigma>" "word_val s rs \<sigma> = B \<sigma>" for \<sigma> using l r by (simp_all add: bits_word_def)
  have c: "denotes s (bool_constant False s) (\<lambda>_. False)" by (rule constant_ok [OF s])
  have "op_ok (ripple (zip ls rs) (bool_constant False s)) s (\<lambda>(ts, out) s'. bits_word s' ts w (\<lambda>\<sigma>. (A \<sigma> + B \<sigma>) mod 2 ^ w)
    \<and> denotes s' out (\<lambda>\<sigma>. 2 ^ w \<le> A \<sigma> + B \<sigma>))"
  proof (rule op_ok_conseq [OF ripple_ok [OF len(1) s b c]], clarsimp)
    fix ts out s' D assume k: "bits_ok s' ts" "length ts = length ls" "denotes s' out D"
      "\<forall>\<sigma>. word_val s' ts \<sigma> + 2 ^ length ls * of_bool (D \<sigma>) = word_val s ls \<sigma> + word_val s rs \<sigma>"
    have e: "word_val s' ts \<sigma> + 2 ^ w * of_bool (D \<sigma>) = A \<sigma> + B \<sigma>" "word_val s' ts \<sigma> < 2 ^ w" for \<sigma>
      using k(2,4) len(2) v word_val_less [of s' ts \<sigma>] by simp_all
    have "word_val s' ts \<sigma> = (A \<sigma> + B \<sigma>) mod 2 ^ w" "D \<sigma> \<longleftrightarrow> 2 ^ w \<le> A \<sigma> + B \<sigma>" for \<sigma>
    proof -
      show "word_val s' ts \<sigma> = (A \<sigma> + B \<sigma>) mod 2 ^ w" using e [of \<sigma>] by (metis mod_less mod_mult_self2)
      show "D \<sigma> \<longleftrightarrow> 2 ^ w \<le> A \<sigma> + B \<sigma>" using e [of \<sigma>] by (cases "D \<sigma>") auto
    qed
    then show "bits_word s' ts w (\<lambda>\<sigma>. (A \<sigma> + B \<sigma>) mod 2 ^ w) \<and> denotes s' out (\<lambda>\<sigma>. 2 ^ w \<le> A \<sigma> + B \<sigma>)"
      using k len(2) by (simp add: bits_word_def denotes_def)
  qed
  then show ?thesis by (simp add: op_ok_def add_bits_def)
qed

lemma sum_bits_ok:
  assumes "store_ok s" "bits_word s ls w A" "bits_word s rs w B"
  shows "op_ok (sum_bits ls rs) s (\<lambda>ts s'. bits_word s' ts w (\<lambda>\<sigma>. (A \<sigma> + B \<sigma>) mod 2 ^ w))"
  unfolding sum_bits_def
  by (rule op_ok_bind [OF add_bits_ok [OF assms]]) (auto intro: op_ok_ret)

subsection \<open>Negation and subtraction\<close>

lemma complement_mod: "(a :: nat) < m \<Longrightarrow> (m - 1 - a + 1) mod m = (m - a) mod m"
  by (simp add: Suc_diff_Suc)

lemma negate_bits_ok:
  assumes s: "store_ok s" and t: "bits_word s ts w V" and w: "0 < w"
  shows "op_ok (negate_bits ts) s (\<lambda>r s'. bits_word s' r w (\<lambda>\<sigma>. (2 ^ w - V \<sigma>) mod 2 ^ w))"
  unfolding negate_bits_def
proof (rule op_ok_bind [OF not_bits_ok [OF s t]])
  fix inv s1 assume 1: "store_ok s1" "extends s s1" "bits_word s1 inv w (\<lambda>\<sigma>. 2 ^ w - 1 - V \<sigma>)"
  let ?one = "bool_constant True s1 # replicate (length ts - 1) (bool_constant False s1)"
  have ne: "ts \<noteq> []" "length ts = w" using t w by (auto simp: bits_word_def)
  have "bits_word s1 (map (\<lambda>v. bool_constant v s1) (True # replicate (w - 1) False)) (length (True # replicate (w - 1) False))
      (\<lambda>_. bits_nat (True # replicate (w - 1) False))" by (rule constant_word(2) [OF 1(1)])
  then have one: "bits_word s1 ?one w (\<lambda>_. 1)" using w ne by simp
  have "(2 ^ w - 1 - V \<sigma> + 1) mod 2 ^ w = (2 ^ w - V \<sigma>) mod 2 ^ w" for \<sigma>
    using complement_mod [of "V \<sigma>" "2 ^ w"] bits_wordD(4) [OF t] by simp
  then have "op_ok (sum_bits inv ?one) s1 (\<lambda>r s'. bits_word s' r w (\<lambda>\<sigma>. (2 ^ w - V \<sigma>) mod 2 ^ w))"
    using sum_bits_ok [OF 1(1,3) one] by simp
  then show "op_ok (\<lambda>s. if ts = [] then (Inl Panicked, s)
      else sum_bits inv (bool_constant True s # replicate (length ts - 1) (bool_constant False s)) s) s1
      (\<lambda>r s'. bits_word s' r w (\<lambda>\<sigma>. (2 ^ w - V \<sigma>) mod 2 ^ w))"
    using ne by (simp add: op_ok_def)
qed

lemma subtract_bits_ok:
  assumes s: "store_ok s" and l: "bits_word s ls w A" and r: "bits_word s rs w B" and w: "0 < w"
  shows "op_ok (subtract_bits ls rs) s (\<lambda>ts s'. bits_word s' ts w (\<lambda>\<sigma>. (A \<sigma> + (2 ^ w - B \<sigma>)) mod 2 ^ w))"
  unfolding subtract_bits_def
proof (rule op_ok_bind [OF negate_bits_ok [OF s r w]])
  fix n s1 assume "store_ok s1" "extends s s1" "bits_word s1 n w (\<lambda>\<sigma>. (2 ^ w - B \<sigma>) mod 2 ^ w)"
  note k = this
  show "op_ok (sum_bits ls n) s1 (\<lambda>ts s'. bits_word s' ts w (\<lambda>\<sigma>. (A \<sigma> + (2 ^ w - B \<sigma>)) mod 2 ^ w))"
    using sum_bits_ok [OF k(1) bits_word_extends [OF l k(2)] k(3)] by (simp add: mod_add_right_eq)
qed

subsection \<open>Multiplication\<close>

lemma bits_nat_take: "bits_nat (take n vs) = bits_nat vs mod 2 ^ n"
  by (simp add: bits_nat_def flip: take_bit_horner_sum_bit_eq take_bit_eq_mod)

lemma truths_update: "i < length ts \<Longrightarrow> truths s \<sigma> (ts[i := t]) = (truths s \<sigma> ts)[i := term_value s \<sigma> t]"
  by (simp add: map_update)

lemma partial_bits_ok:
  "store_ok s \<Longrightarrow> bits_ok s ls \<Longrightarrow> bits_ok s p \<Longrightarrow> denotes s rb R \<Longrightarrow> out \<le> length p \<Longrightarrow>
   op_ok (partial_bits out ls rb p) s (\<lambda>q s'. bits_ok s' q \<and> length q = length p \<and>
     (\<forall>\<sigma>. truths s' \<sigma> q = take (length p) (take out (truths s \<sigma> p)
        @ map (\<lambda>l. term_value s \<sigma> l \<and> R \<sigma>) ls @ drop (out + length ls) (truths s \<sigma> p))))"
proof (induction ls arbitrary: s p out)
  case Nil
  then show ?case by (auto intro!: op_ok_ret simp flip: map_append drop_map take_map)
next
  case (Cons l ls)
  show ?case
  proof (cases "length p \<le> out")
    case True
    then show ?thesis using Cons.prems by (simp add: op_ok_ret)
  next
    case False
    let ?Q = "\<lambda>q s'. bits_ok s' q \<and> length q = length p \<and>
     (\<forall>\<sigma>. truths s' \<sigma> q = take (length p) (take out (truths s \<sigma> p)
        @ map (\<lambda>l. term_value s \<sigma> l \<and> R \<sigma>) (l # ls) @ drop (out + length (l # ls)) (truths s \<sigma> p)))"
    have dl: "denotes s l (\<lambda>\<sigma>. term_value s \<sigma> l)" using Cons.prems(2) by (simp add: denotes_self)
    have "op_ok (bind_op (term_and [l, rb]) (\<lambda>b. partial_bits (out + 1) ls rb (p[out := b]))) s ?Q"
    proof (rule op_ok_bind [OF term_and2_ok [OF Cons.prems(1) dl Cons.prems(4)]])
      fix b s1 assume 1: "store_ok s1" "extends s s1" "denotes s1 b (\<lambda>\<sigma>. term_value s \<sigma> l \<and> R \<sigma>)"
      have o: "out < length p" using False by simp
      have b: "bits_ok s1 ls" "bits_ok s1 p" using Cons.prems(2,3) extends_bits [OF 1(2)] by simp_all
      have p1: "bits_ok s1 (p[out := b])"
        using b(2) denotes_bool [OF 1(3)] set_update_subset_insert [of p out b] by (auto simp: bits_ok_def)
      have tr: "truths s1 \<sigma> (p[out := b]) = (truths s \<sigma> p)[out := term_value s \<sigma> l \<and> R \<sigma>]" for \<sigma>
        unfolding truths_update [OF o] extends_truths [OF 1(2) Cons.prems(3)] denotes_value [OF 1(3)] ..
      have tl: "map (\<lambda>l. term_value s1 \<sigma> l \<and> R \<sigma>) ls = map (\<lambda>l. term_value s \<sigma> l \<and> R \<sigma>) ls" for \<sigma>
        using extends_value [OF 1(2)] Cons.prems(2) by (simp add: bits_ok_def bool_term_def)
      have e: "take (out + 1) (truths s1 \<sigma> (p[out := b])) @ map (\<lambda>l. term_value s1 \<sigma> l \<and> R \<sigma>) ls
            @ drop (out + 1 + length ls) (truths s1 \<sigma> (p[out := b]))
          = take out (truths s \<sigma> p) @ map (\<lambda>l. term_value s \<sigma> l \<and> R \<sigma>) (l # ls) @ drop (out + length (l # ls)) (truths s \<sigma> p)" for \<sigma>
        unfolding tr tl using o by (simp add: take_Suc_conv_app_nth)
      show "op_ok (partial_bits (out + 1) ls rb (p[out := b])) s1 ?Q"
        using Cons.IH [OF 1(1) b(1) p1 denotes_extends [OF Cons.prems(4) 1(2)], of "out + 1"] o
        unfolding e by simp
    qed
    then show ?thesis using False by simp
  qed
qed

lemma partial_row_ok:
  assumes s: "store_ok s" and l: "bits_word s ls w A" and r: "denotes s rb R" and i: "i \<le> n"
  shows "op_ok (partial_bits i ls rb (replicate n (bool_constant False s))) s
    (\<lambda>q s'. bits_word s' q n (\<lambda>\<sigma>. (2 ^ i * (if R \<sigma> then A \<sigma> else 0)) mod 2 ^ n))"
proof (rule op_ok_conseq [OF partial_bits_ok [OF s bits_wordD(1) [OF l] bits_wordD(1) [OF constant_word(1) [OF s]] r]])
  let ?p = "replicate n (bool_constant False s)"
  fix q s' assume q: "bits_ok s' q \<and> length q = length ?p \<and> (\<forall>\<sigma>. truths s' \<sigma> q = take (length ?p)
     (take i (truths s \<sigma> ?p) @ map (\<lambda>l. term_value s \<sigma> l \<and> R \<sigma>) ls @ drop (i + length ls) (truths s \<sigma> ?p)))"
  have f: "truths s \<sigma> ?p = replicate n False" for \<sigma>
    using constant_ok [OF s, of False] by (simp add: denotes_def)
  have "bits_nat (map (\<lambda>l. term_value s \<sigma> l \<and> R \<sigma>) ls) = (if R \<sigma> then A \<sigma> else 0)" for \<sigma>
    using bits_wordD(3) [OF l, of \<sigma>] by (auto simp: word_val_def bits_nat_zero)
  then have v: "bits_nat (take i (replicate n False) @ map (\<lambda>l. term_value s \<sigma> l \<and> R \<sigma>) ls @ drop (i + length ls) (replicate n False))
      = 2 ^ i * (if R \<sigma> then A \<sigma> else 0)" for \<sigma>
    using i by (simp add: bits_nat_append min_absorb1)
  have "word_val s' q \<sigma> = (2 ^ i * (if R \<sigma> then A \<sigma> else 0)) mod 2 ^ n" for \<sigma>
    using q by (simp only: word_val_def f length_replicate bits_nat_take v)
  then show "bits_word s' q n (\<lambda>\<sigma>. (2 ^ i * (if R \<sigma> then A \<sigma> else 0)) mod 2 ^ n)"
    using q by (simp add: bits_word_def)
qed (use i in simp)

lemma multiply_rows_ok:
  "store_ok s \<Longrightarrow> bits_ok s rs \<Longrightarrow> bits_word s ls w A \<Longrightarrow> bits_word s res n M \<Longrightarrow>
   op_ok (multiply_rows i rs ls n res) s
     (\<lambda>q s'. bits_word s' q n (\<lambda>\<sigma>. (M \<sigma> + 2 ^ i * A \<sigma> * word_val s rs \<sigma>) mod 2 ^ n))"
proof (induction rs arbitrary: s res M i)
  case Nil
  have "M \<sigma> mod 2 ^ n = M \<sigma>" for \<sigma> using bits_wordD(4) [OF Nil.prems(4)] by simp
  then show ?case using Nil.prems by (simp add: op_ok_ret)
next
  case (Cons r rs)
  show ?case
  proof (cases "n \<le> i")
    case True
    have "(M \<sigma> + 2 ^ i * A \<sigma> * x) mod 2 ^ n = M \<sigma>" for \<sigma> x
    proof -
      have "2 ^ i = (2 ^ n * 2 ^ (i - n) :: nat)" using True by (simp flip: power_add)
      then have "(M \<sigma> + 2 ^ i * A \<sigma> * x) mod 2 ^ n = M \<sigma> mod 2 ^ n" by (simp add: mult.assoc)
      then show ?thesis using bits_wordD(4) [OF Cons.prems(4)] by simp
    qed
    then show ?thesis using True Cons.prems by (simp add: op_ok_ret)
  next
    case False
    let ?R = "\<lambda>\<sigma>. term_value s \<sigma> r"
    let ?P = "\<lambda>\<sigma>. (2 ^ i * (if ?R \<sigma> then A \<sigma> else 0)) mod 2 ^ n"
    let ?Q = "\<lambda>q s'. bits_word s' q n (\<lambda>\<sigma>. (M \<sigma> + 2 ^ i * A \<sigma> * word_val s (r # rs) \<sigma>) mod 2 ^ n)"
    have b: "bits_ok s rs" "denotes s r ?R" using Cons.prems(2) by (simp_all add: denotes_self)
    have row: "op_ok (\<lambda>s. partial_bits i ls r (replicate n (bool_constant False s)) s) s (\<lambda>q s'. bits_word s' q n ?P)"
      using partial_row_ok [OF Cons.prems(1,3) b(2), of i n] False by (simp add: op_ok_def)
    have "op_ok (bind_op (\<lambda>s. partial_bits i ls r (replicate n (bool_constant False s)) s)
        (\<lambda>p. bind_op (sum_bits res p) (multiply_rows (i + 1) rs ls n))) s ?Q"
    proof (rule op_ok_bind [OF row])
      fix p s1 assume 1: "store_ok s1" "extends s s1" "bits_word s1 p n ?P"
      show "op_ok (bind_op (sum_bits res p) (multiply_rows (i + 1) rs ls n)) s1 ?Q"
      proof (rule op_ok_bind [OF sum_bits_ok [OF 1(1) bits_word_extends [OF Cons.prems(4) 1(2)] 1(3)]])
        fix q s2 assume 2: "store_ok s2" "extends s1 s2" "bits_word s2 q n (\<lambda>\<sigma>. (M \<sigma> + ?P \<sigma>) mod 2 ^ n)"
        have e: "extends s s2" using 1(2) 2(2) extends_trans by blast
        have "((M \<sigma> + ?P \<sigma>) mod 2 ^ n + 2 ^ (i + 1) * A \<sigma> * word_val s rs \<sigma>) mod 2 ^ n
            = (M \<sigma> + 2 ^ i * A \<sigma> * word_val s (r # rs) \<sigma>) mod 2 ^ n" for \<sigma>
        proof -
          have "((M \<sigma> + ?P \<sigma>) mod 2 ^ n + 2 ^ (i + 1) * A \<sigma> * word_val s rs \<sigma>) mod 2 ^ n
            = (M \<sigma> + 2 ^ i * (if ?R \<sigma> then A \<sigma> else 0) + 2 ^ (i + 1) * A \<sigma> * word_val s rs \<sigma>) mod 2 ^ n"
            by (simp only: mod_add_left_eq mod_add_right_eq add.assoc)
          then show ?thesis by (simp add: algebra_simps)
        qed
        then show "op_ok (multiply_rows (i + 1) rs ls n q) s2 ?Q"
          using Cons.IH [OF 2(1) extends_bits [OF e b(1)] bits_word_extends [OF Cons.prems(3) e] 2(3), of "i + 1"]
            extends_word_val [OF e b(1)] by simp
      qed
    qed
    then show ?thesis using False by simp
  qed
qed

lemma multiply_bits_ok:
  assumes s: "store_ok s" and l: "bits_word s ls v A" and r: "bits_word s rs w B"
  shows "op_ok (multiply_bits ls rs n) s (\<lambda>q s'. bits_word s' q n (\<lambda>\<sigma>. (A \<sigma> * B \<sigma>) mod 2 ^ n))"
  using multiply_rows_ok [OF s bits_wordD(1) [OF r] l constant_word(1) [OF s, of n], of 0] bits_wordD(3) [OF r]
  by (simp add: op_ok_def multiply_bits_def)

subsection \<open>Comparison\<close>

lemma less_from_ok:
  "length ls = length rs \<Longrightarrow> store_ok s \<Longrightarrow> bits_ok s ls \<Longrightarrow> bits_ok s rs \<Longrightarrow> denotes s lt L \<Longrightarrow> denotes s eq E \<Longrightarrow>
   op_ok (less_from (zip ls rs) lt eq) s
     (\<lambda>t s'. denotes s' t (\<lambda>\<sigma>. L \<sigma> \<or> E \<sigma> \<and> word_val s (rev ls) \<sigma> < word_val s (rev rs) \<sigma>))"
proof (induction ls rs arbitrary: s lt eq L E rule: list_induct2)
  case Nil
  then show ?case by (simp add: op_ok_ret)
next
  case (Cons l ls r rs)
  let ?F = "\<lambda>\<sigma>. term_value s \<sigma> l" and ?G = "\<lambda>\<sigma>. term_value s \<sigma> r"
  let ?Q = "\<lambda>t s'. denotes s' t (\<lambda>\<sigma>. L \<sigma> \<or> E \<sigma> \<and> word_val s (rev (l # ls)) \<sigma> < word_val s (rev (r # rs)) \<sigma>)"
  have lr: "denotes s l ?F" "denotes s r ?G" using Cons.prems(2,3) by (auto intro: denotes_self)
  show ?case
    unfolding zip_Cons_Cons less_from.simps
  proof (rule op_ok_bind [OF term_not_ok [OF Cons.prems(1) lr(1)]])
    fix nl s1 assume 1: "store_ok s1" "extends s s1" "denotes s1 nl (\<lambda>\<sigma>. \<not> ?F \<sigma>)"
    note x1 = denotes_extends [OF _ 1(2)]
    show "op_ok (bind_op (term_and [nl, r]) (\<lambda>ll. bind_op (term_and [eq, ll]) (\<lambda>d. bind_op (term_or [lt, d]) (\<lambda>lt'.
        bind_op (term_iff l r) (\<lambda>be. bind_op (term_and [eq, be]) (less_from (zip ls rs) lt')))))) s1 ?Q"
    proof (rule op_ok_bind [OF term_and2_ok [OF 1(1,3) x1 [OF lr(2)]]])
      fix ll s2 assume 2: "store_ok s2" "extends s1 s2" "denotes s2 ll (\<lambda>\<sigma>. \<not> ?F \<sigma> \<and> ?G \<sigma>)"
      note x2 = denotes_extends [OF x1 2(2)]
      show "op_ok (bind_op (term_and [eq, ll]) (\<lambda>d. bind_op (term_or [lt, d]) (\<lambda>lt'.
          bind_op (term_iff l r) (\<lambda>be. bind_op (term_and [eq, be]) (less_from (zip ls rs) lt'))))) s2 ?Q"
      proof (rule op_ok_bind [OF term_and2_ok [OF 2(1) x2 [OF Cons.prems(5)] 2(3)]])
        fix d s3 assume 3: "store_ok s3" "extends s2 s3" "denotes s3 d (\<lambda>\<sigma>. E \<sigma> \<and> \<not> ?F \<sigma> \<and> ?G \<sigma>)"
        note x3 = denotes_extends [OF x2 3(2)]
        show "op_ok (bind_op (term_or [lt, d]) (\<lambda>lt'.
            bind_op (term_iff l r) (\<lambda>be. bind_op (term_and [eq, be]) (less_from (zip ls rs) lt')))) s3 ?Q"
        proof (rule op_ok_bind [OF term_or2_ok [OF 3(1) x3 [OF Cons.prems(4)] 3(3)]])
          fix lt' s4 assume 4: "store_ok s4" "extends s3 s4" "denotes s4 lt' (\<lambda>\<sigma>. L \<sigma> \<or> E \<sigma> \<and> \<not> ?F \<sigma> \<and> ?G \<sigma>)"
          note x4 = denotes_extends [OF x3 4(2)]
          show "op_ok (bind_op (term_iff l r) (\<lambda>be. bind_op (term_and [eq, be]) (less_from (zip ls rs) lt'))) s4 ?Q"
          proof (rule op_ok_bind [OF xor_iff_ok(2) [OF 4(1) x4 [OF lr(1)] x4 [OF lr(2)]]])
            fix be s5 assume 5: "store_ok s5" "extends s4 s5" "denotes s5 be (\<lambda>\<sigma>. ?F \<sigma> = ?G \<sigma>)"
            note x5 = denotes_extends [OF x4 5(2)]
            show "op_ok (bind_op (term_and [eq, be]) (less_from (zip ls rs) lt')) s5 ?Q"
            proof (rule op_ok_bind [OF term_and2_ok [OF 5(1) x5 [OF Cons.prems(5)] 5(3)]])
              fix eq' s6 assume 6: "store_ok s6" "extends s5 s6" "denotes s6 eq' (\<lambda>\<sigma>. E \<sigma> \<and> ?F \<sigma> = ?G \<sigma>)"
              have e: "extends s s6" using 1(2) 2(2) 3(2) 4(2) 5(2) 6(2) extends_trans by meson
              have b: "bits_ok s ls" "bits_ok s rs" using Cons.prems(2,3) by simp_all
              have v: "word_val s6 (rev ls) \<sigma> = word_val s (rev ls) \<sigma>" "word_val s6 (rev rs) \<sigma> = word_val s (rev rs) \<sigma>" for \<sigma>
                using extends_word_val [OF e] b by simp_all
              have lt6: "denotes s6 lt' (\<lambda>\<sigma>. L \<sigma> \<or> E \<sigma> \<and> \<not> ?F \<sigma> \<and> ?G \<sigma>)"
                by (rule denotes_extends [OF denotes_extends [OF 4(3) 5(2)] 6(2)])
              have ih: "op_ok (less_from (zip ls rs) lt' eq') s6 (\<lambda>t s'. denotes s' t (\<lambda>\<sigma>. (L \<sigma> \<or> E \<sigma> \<and> \<not> ?F \<sigma> \<and> ?G \<sigma>)
                  \<or> (E \<sigma> \<and> ?F \<sigma> = ?G \<sigma>) \<and> word_val s (rev ls) \<sigma> < word_val s (rev rs) \<sigma>))"
                using Cons.IH [OF 6(1) extends_bits [OF e b(1)] extends_bits [OF e b(2)] lt6 6(3)] by (simp only: v)
              have "((L \<sigma> \<or> E \<sigma> \<and> \<not> ?F \<sigma> \<and> ?G \<sigma>) \<or> (E \<sigma> \<and> ?F \<sigma> = ?G \<sigma>) \<and> word_val s (rev ls) \<sigma> < word_val s (rev rs) \<sigma>)
                  = (L \<sigma> \<or> E \<sigma> \<and> word_val s (rev (l # ls)) \<sigma> < word_val s (rev (r # rs)) \<sigma>)" for \<sigma>
                using word_val_less [of s "rev ls" \<sigma>] word_val_less [of s "rev rs" \<sigma>] Cons.hyps by auto
              then show "op_ok (less_from (zip ls rs) lt' eq') s6 ?Q" using ih by simp
            qed
          qed
        qed
      qed
    qed
  qed
qed

lemma less_than_ok:
  assumes s: "store_ok s" and l: "bits_word s ls w A" and r: "bits_word s rs w B"
  shows "op_ok (unsigned_less_than_bits ls rs) s (\<lambda>t s'. denotes s' t (\<lambda>\<sigma>. A \<sigma> < B \<sigma>))"
proof -
  have len: "length ls = length rs" using l r by (simp add: bits_word_def)
  have "op_ok (less_from (zip (rev ls) (rev rs)) (bool_constant False s) (bool_constant True s)) s
     (\<lambda>t s'. denotes s' t (\<lambda>\<sigma>. False \<or> True \<and> word_val s (rev (rev ls)) \<sigma> < word_val s (rev (rev rs)) \<sigma>))"
    using l r len by (intro less_from_ok s constant_ok) (simp_all add: bits_word_def)
  then show ?thesis
    using len by (simp add: unsigned_less_than_bits_def op_ok_def zip_rev bits_wordD(3) [OF l] bits_wordD(3) [OF r])
qed

lemma is_zero_ok:
  assumes s: "store_ok s" and t: "bits_word s ts w V"
  shows "op_ok (is_zero_bits ts) s (\<lambda>r s'. denotes s' r (\<lambda>\<sigma>. V \<sigma> = 0))"
  unfolding is_zero_bits_def
proof (rule op_ok_bind [OF not_bits_ok [OF s t]])
  fix ns s1 assume 1: "store_ok s1" "extends s s1" "bits_word s1 ns w (\<lambda>\<sigma>. 2 ^ w - 1 - V \<sigma>)"
  have "(\<forall>t \<in> set ns. term_value s1 \<sigma> t) = (V \<sigma> = 0)" for \<sigma>
  proof -
    have "bits_nat (map Not (truths s1 \<sigma> ns)) + word_val s1 ns \<sigma> + 1 = 2 ^ w"
      using bits_nat_not [of "truths s1 \<sigma> ns"] bits_wordD(2) [OF 1(3)] by (simp add: word_val_def)
    then have "bits_nat (map Not (truths s1 \<sigma> ns)) = V \<sigma>"
      using bits_wordD(3) [OF 1(3), of \<sigma>] bits_wordD(4) [OF t, of \<sigma>] by simp
    then show ?thesis using bits_nat_zero [of "map Not (truths s1 \<sigma> ns)"] by auto
  qed
  moreover have "\<forall>t \<in> set ns. bool_term s1 t" using bits_wordD(1) [OF 1(3)] by (simp add: bits_ok_def)
  ultimately show "op_ok (term_and ns) s1 (\<lambda>r s'. denotes s' r (\<lambda>\<sigma>. V \<sigma> = 0))"
    using term_and_ok [OF 1(1), of ns] by simp
qed

subsection \<open>Long division\<close>

text \<open>
  One step on numbers: the dividend read so far is \<open>q * d + r\<close>, the next bit is \<open>b\<close>, and \<open>n\<close> is
  the rest of the dividend, of \<open>m\<close> bits. By zero the quotient bits are ones and nothing is
  subtracted.
\<close>

definition div_or_ones :: "nat \<Rightarrow> nat \<Rightarrow> nat \<Rightarrow> nat" where
  "div_or_ones m a d = (if d = 0 then 2 ^ m - 1 else a div d)"

lemma division_step:
  fixes r d b n :: nat
  defines "t \<equiv> b + 2 * r"
  defines "r' \<equiv> if d \<le> t then t - d else t"
  assumes "n < 2 ^ m"
  shows "(r' * 2 ^ m + n) mod d = (r * 2 ^ Suc m + b * 2 ^ m + n) mod d"
    "div_or_ones m (r' * 2 ^ m + n) d + 2 ^ m * of_bool (d \<le> t) = div_or_ones (Suc m) (r * 2 ^ Suc m + b * 2 ^ m + n) d"
proof -
  have total: "r * 2 ^ Suc m + b * 2 ^ m + n = t * 2 ^ m + n" by (simp add: t_def algebra_simps)
  have s: "t * 2 ^ m + n = r' * 2 ^ m + n + d * (2 ^ m * of_bool (d \<le> t))"
    by (simp add: r'_def algebra_simps)
  show "(r' * 2 ^ m + n) mod d = (r * 2 ^ Suc m + b * 2 ^ m + n) mod d" unfolding total s by simp
  show "div_or_ones m (r' * 2 ^ m + n) d + 2 ^ m * of_bool (d \<le> t) = div_or_ones (Suc m) (r * 2 ^ Suc m + b * 2 ^ m + n) d"
  proof (cases "d = 0")
    case True
    then show ?thesis by (simp add: div_or_ones_def)
  next
    case False
    then show ?thesis unfolding total s by (simp add: div_or_ones_def)
  qed
qed

lemma butlast_word:
  assumes "bits_word s ts (Suc n) R" "\<And>\<sigma>. R \<sigma> < 2 ^ n"
  shows "bits_word s (butlast ts) n R"
proof -
  have "ts \<noteq> []" using assms(1) by (auto simp: bits_word_def)
  then obtain us t where ts: "ts = us @ [t]" by (metis append_butlast_last_id)
  have l: "length us = n" using assms(1) by (simp add: ts bits_word_def)
  have "word_val s us \<sigma> = R \<sigma>" for \<sigma>
  proof -
    have "word_val s us \<sigma> + 2 ^ n * of_bool (term_value s \<sigma> t) = R \<sigma>"
      using assms(1) l by (simp add: ts bits_word_def)
    then show ?thesis using assms(2) [of \<sigma>] by (cases "term_value s \<sigma> t") auto
  qed
  then show ?thesis using assms(1) l by (simp add: ts bits_word_def)
qed

lemma divide_steps_ok:
  "store_ok s \<Longrightarrow> bits_ok s bs \<Longrightarrow> bits_word s ds (Suc n) D \<Longrightarrow> bits_word s rem (Suc n) R \<Longrightarrow> bits_word s quo k Q \<Longrightarrow>
   k + length bs = n \<Longrightarrow> \<forall>\<sigma>. D \<sigma> < 2 ^ n \<and> (if D \<sigma> = 0 then R \<sigma> < 2 ^ k else R \<sigma> < D \<sigma>) \<Longrightarrow>
   op_ok (divide_steps bs ds rem quo) s (\<lambda>(q, r) s'.
     bits_word s' q n (\<lambda>\<sigma>. div_or_ones (length bs) (R \<sigma> * 2 ^ length bs + word_val s (rev bs) \<sigma>) (D \<sigma>) + 2 ^ length bs * Q \<sigma>)
     \<and> bits_word s' r (Suc n) (\<lambda>\<sigma>. (R \<sigma> * 2 ^ length bs + word_val s (rev bs) \<sigma>) mod D \<sigma>)
     \<and> (\<forall>\<sigma>. (R \<sigma> * 2 ^ length bs + word_val s (rev bs) \<sigma>) mod D \<sigma> < 2 ^ n))"
proof (induction bs arbitrary: s rem R quo Q k)
  case Nil
  have "R \<sigma> mod D \<sigma> = R \<sigma> \<and> div_or_ones 0 (R \<sigma>) (D \<sigma>) = 0 \<and> R \<sigma> < 2 ^ n" for \<sigma>
  proof (cases "D \<sigma> = 0")
    case True
    then show ?thesis using Nil.prems(6) spec [OF Nil.prems(7), of \<sigma>] by (simp add: div_or_ones_def)
  next
    case False
    then have "R \<sigma> < D \<sigma>" "D \<sigma> < 2 ^ n" using spec [OF Nil.prems(7), of \<sigma>] by simp_all
    then show ?thesis using False by (simp add: div_or_ones_def)
  qed
  then show ?case using Nil.prems by (simp add: op_ok_ret)
next
  case (Cons b bs)
  let ?m = "length bs" and ?B = "\<lambda>\<sigma>. of_bool (term_value s \<sigma> b) :: nat"
  let ?T = "\<lambda>\<sigma>. ?B \<sigma> + 2 * R \<sigma>"
  let ?R = "\<lambda>\<sigma>. if D \<sigma> \<le> ?T \<sigma> then ?T \<sigma> - D \<sigma> else ?T \<sigma>"
  let ?N = "word_val s (rev bs)"
  let ?total = "\<lambda>\<sigma>. R \<sigma> * 2 ^ length (b # bs) + word_val s (rev (b # bs)) \<sigma>"
  let ?Q = "\<lambda>(q, r) s'. bits_word s' q n (\<lambda>\<sigma>. div_or_ones (length (b # bs)) (?total \<sigma>) (D \<sigma>) + 2 ^ length (b # bs) * Q \<sigma>)
     \<and> bits_word s' r (Suc n) (\<lambda>\<sigma>. ?total \<sigma> mod D \<sigma>) \<and> (\<forall>\<sigma>. ?total \<sigma> mod D \<sigma> < 2 ^ n)"
  have bb: "bool_term s b" "bits_ok s bs" and kn: "Suc k + ?m = n" using Cons.prems(2,6) by simp_all
  have Rn: "R \<sigma> < 2 ^ n" "2 * R \<sigma> + 1 < 2 ^ Suc n" for \<sigma>
  proof -
    have "R \<sigma> < 2 ^ n"
    proof (cases "D \<sigma> = 0")
      case True
      then have "R \<sigma> < 2 ^ k" using Cons.prems(7) by simp
      also have "(2 :: nat) ^ k \<le> 2 ^ n" using kn by simp
      finally show ?thesis .
    next
      case False
      then show ?thesis using Cons.prems(7) less_trans [of "R \<sigma>" "D \<sigma>" "2 ^ n"] by simp
    qed
    then show "R \<sigma> < 2 ^ n" "2 * R \<sigma> + 1 < 2 ^ Suc n" by simp_all
  qed
  define sh where "sh = b # butlast rem"
  have shw: "bits_word s sh (Suc n) ?T"
    using butlast_word [OF Cons.prems(4) Rn(1)] bb(1) by (simp add: sh_def bits_word_def)
  have step: "\<forall>\<sigma>. D \<sigma> < 2 ^ n \<and> (if D \<sigma> = 0 then ?R \<sigma> < 2 ^ Suc k else ?R \<sigma> < D \<sigma>)"
  proof
    fix \<sigma>
    have "?B \<sigma> \<le> 1" by simp
    then show "D \<sigma> < 2 ^ n \<and> (if D \<sigma> = 0 then ?R \<sigma> < 2 ^ Suc k else ?R \<sigma> < D \<sigma>)"
      using spec [OF Cons.prems(7), of \<sigma>] by (cases "D \<sigma> = 0") auto
  qed
  have N: "?N \<sigma> < 2 ^ ?m" for \<sigma> using word_val_less [of s "rev bs" \<sigma>] by simp
  have tot: "?total \<sigma> = R \<sigma> * 2 ^ Suc ?m + ?B \<sigma> * 2 ^ ?m + ?N \<sigma>" for \<sigma> by (simp add: algebra_simps)
  show ?case
    unfolding divide_steps.simps Let_def sh_def [symmetric]
  proof (rule op_ok_bind [OF less_than_ok [OF Cons.prems(1) shw Cons.prems(3)]])
    fix lt s1 assume 1: "store_ok s1" "extends s s1" "denotes s1 lt (\<lambda>\<sigma>. ?T \<sigma> < D \<sigma>)"
    show "op_ok (bind_op (term_not lt) (\<lambda>ge. bind_op (subtract_bits sh ds) (\<lambda>sub.
        bind_op (select_bits ge sub sh) (\<lambda>rem'. divide_steps bs ds rem' (ge # quo))))) s1 ?Q"
    proof (rule op_ok_bind [OF term_not_ok [OF 1(1,3)]])
      fix ge s2 assume 2: "store_ok s2" "extends s1 s2" "denotes s2 ge (\<lambda>\<sigma>. \<not> ?T \<sigma> < D \<sigma>)"
      have e2: "extends s s2" using 1(2) 2(2) extends_trans by blast
      note sh2 = bits_word_extends [OF shw e2] and ds2 = bits_word_extends [OF Cons.prems(3) e2]
      show "op_ok (bind_op (subtract_bits sh ds) (\<lambda>sub.
          bind_op (select_bits ge sub sh) (\<lambda>rem'. divide_steps bs ds rem' (ge # quo)))) s2 ?Q"
      proof (rule op_ok_bind [OF subtract_bits_ok [OF 2(1) sh2 ds2]])
        fix sub s3 assume 3: "store_ok s3" "extends s2 s3" "bits_word s3 sub (Suc n) (\<lambda>\<sigma>. (?T \<sigma> + (2 ^ Suc n - D \<sigma>)) mod 2 ^ Suc n)"
        show "op_ok (bind_op (select_bits ge sub sh) (\<lambda>rem'. divide_steps bs ds rem' (ge # quo))) s3 ?Q"
        proof (rule op_ok_bind [OF select_bits_ok [OF 3(1) denotes_extends [OF 2(3) 3(2)] 3(3) bits_word_extends [OF sh2 3(2)]]])
          fix rem' s4 assume 4: "store_ok s4" "extends s3 s4"
            "bits_word s4 rem' (Suc n) (\<lambda>\<sigma>. if \<not> ?T \<sigma> < D \<sigma> then (?T \<sigma> + (2 ^ Suc n - D \<sigma>)) mod 2 ^ Suc n else ?T \<sigma>)"
          have e: "extends s s4" using e2 3(2) 4(2) extends_trans by blast
          have "(if \<not> ?T \<sigma> < D \<sigma> then (?T \<sigma> + (2 ^ Suc n - D \<sigma>)) mod 2 ^ Suc n else ?T \<sigma>) = ?R \<sigma>" for \<sigma>
          proof (cases "?T \<sigma> < D \<sigma>")
            case False
            have "D \<sigma> < 2 ^ n" "?T \<sigma> < 2 ^ Suc n" using Cons.prems(7) Rn(2) [of \<sigma>] by (auto simp: of_bool_def)
            then have "?T \<sigma> + (2 ^ Suc n - D \<sigma>) = 2 ^ Suc n + (?T \<sigma> - D \<sigma>)" "?T \<sigma> - D \<sigma> < 2 ^ Suc n" using False by simp_all
            then show ?thesis using False by (simp only: mod_add_self1 mod_less) simp
          qed simp
          with 4(3) have rw: "bits_word s4 rem' (Suc n) ?R" by (rule bits_word_cong)
          have ge4: "denotes s4 ge (\<lambda>\<sigma>. D \<sigma> \<le> ?T \<sigma>)"
            using denotes_extends [OF denotes_extends [OF 2(3) 3(2)] 4(2)] by (simp add: not_less)
          have qw: "bits_word s4 (ge # quo) (Suc k) (\<lambda>\<sigma>. of_bool (D \<sigma> \<le> ?T \<sigma>) + 2 * Q \<sigma>)"
            using bits_word_extends [OF Cons.prems(5) e] ge4 by (simp add: bits_word_def denotes_def)
          have v: "word_val s4 (rev bs) \<sigma> = ?N \<sigma>" for \<sigma> using extends_word_val [OF e] bb(2) by simp
          have q: "div_or_ones ?m (?R \<sigma> * 2 ^ ?m + ?N \<sigma>) (D \<sigma>) + 2 ^ ?m * (of_bool (D \<sigma> \<le> ?T \<sigma>) + 2 * Q \<sigma>)
              = div_or_ones (length (b # bs)) (?total \<sigma>) (D \<sigma>) + 2 ^ length (b # bs) * Q \<sigma>" for \<sigma>
            using division_step(2) [OF N [of \<sigma>], where b = "?B \<sigma>" and r = "R \<sigma>" and d = "D \<sigma>"] unfolding tot
            by (simp add: algebra_simps)
          have r: "(?R \<sigma> * 2 ^ ?m + ?N \<sigma>) mod D \<sigma> = ?total \<sigma> mod D \<sigma>" for \<sigma>
            unfolding tot by (rule division_step(1) [OF N])
          from Cons.IH [OF 4(1) extends_bits [OF e bb(2)] bits_word_extends [OF Cons.prems(3) e] rw qw kn step]
          show "op_ok (divide_steps bs ds rem' (ge # quo)) s4 ?Q"
            unfolding v q r .
        qed
      qed simp
    qed
  qed
qed

end
