(* ===== verification/Smt_Words.thy ===== *)
theory Smt_Words
  imports Smt_Circuits "HOL-Library.Signed_Division"
begin

section \<open>The bit-vector operations compute\<close>

text \<open>
  The bit-vector constructors return a term of the right width and value, from the values of the
  circuits: addition, subtraction, multiplication and the bitwise operations on the natural
  numbers that the bits encode, modulo \<open>2 ^ w\<close>; the signed divisions on the integers that they
  encode in two's complement; the comparisons; and the overflow predicates, by the range of the
  exact result.
\<close>

subsection \<open>Terms\<close>

lemma sort_id_for_ok:
  assumes s: "store_ok s" and so: "so \<noteq> SBitVec 0"
  shows "op_ok (sort_id_for so) s (\<lambda>i s'. i < length (ts_sorts s') \<and> ts_sorts s' ! i = so \<and> ts_nodes s' = ts_nodes s)"
proof -
  let ?l = "length (ts_sorts s)"
  have ids: "ts_sort_ids s o' = Some i \<longleftrightarrow> i < ?l \<and> ts_sorts s ! i = o'" for o' i using s by (simp add: store_ok_def)
  show ?thesis
  proof (cases "ts_sort_ids s so")
    case (Some i)
    then show ?thesis using s ids [of so i] by (simp add: op_ok_def sort_id_for_def)
  next
    case None
    then have fresh: "ts_sorts s ! i \<noteq> so" if "i < ?l" for i using ids [of so i] that by auto
    show ?thesis
    proof (cases "?l > u32_max")
      case True
      then show ?thesis using s so None by (simp add: op_ok_def sort_id_for_def)
    next
      case False
      let ?s = "s\<lparr>ts_sorts := ts_sorts s @ [so], ts_sort_ids := (ts_sort_ids s)(so \<mapsto> ?l)\<rparr>"
      have e: "sort_id_for so s = (Inr ?l, ?s)" using None False so by (simp add: sort_id_for_def)
      have ok: "node_ok ?s i n" if "node_ok s i n" for i n
        using that by (auto simp: node_ok_def nth_append)
      have "store_ok ?s"
        unfolding store_ok_def
      proof (intro conjI allI impI)
        fix i assume "i < length (ts_nodes ?s)"
        then show "node_ok ?s i (ts_nodes ?s ! i)" using store_node [OF s, of i] ok by simp
      next
        fix o' i
        show "(ts_sort_ids ?s o' = Some i) \<longleftrightarrow> (i < length (ts_sorts ?s) \<and> ts_sorts ?s ! i = o')"
          using ids [of o' i] fresh by (auto simp: nth_append less_Suc_eq)
      qed (use s False in \<open>auto simp: store_ok_def node_kind_def nth_append\<close>)
      then show ?thesis by (simp add: op_ok_def e extends_def)
    qed
  qed
qed

lemma make_bitvec_ok:
  assumes s: "store_ok s" and b: "bits_word s bits w V" and w: "0 < w"
  shows "op_ok (make_bitvec bits) s (\<lambda>t s'. word_term s' t w V)"
proof -
  have ne: "bits \<noteq> []" "length bits = w" using b w by (auto simp: bits_word_def)
  have r: "require_bools bits s = Inr ()" using b require_bools_ok [OF s, of bits] by (simp add: bits_word_def bits_ok_def)
  have "op_ok (if length bits > u32_max then reject WidthLimit
      else bind_op (sort_id_for (SBitVec (length bits))) (\<lambda>so. intern so (KBitVec bits))) s (\<lambda>t s'. word_term s' t w V)"
  proof (cases "length bits > u32_max")
    case True
    then show ?thesis using s by (simp add: op_ok_def reject_def)
  next
    case False
    have so: "SBitVec (length bits) \<noteq> SBitVec 0" using w ne by simp
    have "op_ok (bind_op (sort_id_for (SBitVec (length bits))) (\<lambda>so. intern so (KBitVec bits))) s (\<lambda>t s'. word_term s' t w V)"
    proof (rule op_ok_bind [OF sort_id_for_ok [OF s so]], elim conjE)
      fix i s1 assume 1: "store_ok s1" "extends s s1" "i < length (ts_sorts s1)" "ts_sorts s1 ! i = SBitVec (length bits)" "ts_nodes s1 = ts_nodes s"
      have "ts_sorts s1 ! 0 = SBool" using 1(1) by (simp add: store_ok_def)
      then have "i \<noteq> 0" using 1(4) by (metis sort.distinct(1))
      then have "node_ok s1 (length (ts_nodes s1)) \<lparr>tn_sort = i, tn_kind = KBitVec bits\<rparr>"
        using 1(3-5) ne b by (auto simp: node_ok_def bits_word_def bits_ok_def bool_term_def)
      then show "op_ok (intern i (KBitVec bits)) s1 (\<lambda>t s'. word_term s' t w V)"
      proof (rule op_ok_conseq [OF intern_ok [OF 1(1)]], elim conjE)
        fix t s' assume t: "extends s1 s'" "t < length (ts_nodes s')" "ts_nodes s' ! t = \<lparr>tn_sort = i, tn_kind = KBitVec bits\<rparr>"
        have "bits_word s' bits w V" using bits_word_extends [OF bits_word_extends [OF b 1(2)] t(1)] .
        then show "word_term s' t w V" using t(2,3) False ne by (auto simp: word_term_def node_kind_def)
      qed
    qed
    then show ?thesis using False by simp
  qed
  then show ?thesis using ne r by (simp add: make_bitvec_def op_ok_def bind_op_def asks_def)
qed

lemma make_from_ok:
  assumes "op_ok m s (\<lambda>bits s'. bits_word s' bits w V)" "0 < w"
  shows "op_ok (make_from m) s (\<lambda>t s'. word_term s' t w V)"
  using assms(1) by (rule op_ok_bind) (rule make_bitvec_ok [OF _ _ assms(2)])

lemma word_term_width:
  assumes s: "store_ok s" and t: "word_term s t w V"
  shows "bitvec_width t s = Inr w" "0 < w" "V \<sigma> < 2 ^ w" "w \<le> u32_max"
proof -
  obtain bits where k: "t < length (ts_nodes s)" "node_kind s t = KBitVec bits" "bits_word s bits w V"
    using t by (auto simp: word_term_def)
  then have n: "bits \<noteq> []" "ts_sorts s ! tn_sort (ts_nodes s ! t) = SBitVec (length bits)"
    using store_node [OF s k(1)] by (auto simp: node_ok_def node_kind_def)
  show "bitvec_width t s = Inr w" using n k by (simp add: bitvec_width_def sort_of_def bits_word_def)
  show "0 < w" using n k(3) by (auto simp: bits_word_def)
  show "V \<sigma> < 2 ^ w" using bits_wordD(4) [OF k(3)] .
  show "w \<le> u32_max" using t by (simp add: word_term_def)
qed

lemma word_term_cong: "word_term s t w V \<Longrightarrow> (\<And>\<sigma>. V \<sigma> = V' \<sigma>) \<Longrightarrow> word_term s t w V'"
  unfolding word_term_def using bits_word_cong by blast

lemma op_ok_asked: "g s = Inr x \<Longrightarrow> op_ok (f x) s Q \<Longrightarrow> op_ok (bind_op (asks g) f) s Q"
  by (simp add: op_ok_def bind_op_def asks_def)

lemma op_ok_width: "bitvec_width t s = Inr w \<Longrightarrow> op_ok (f w) s Q \<Longrightarrow> op_ok (bind_op (asks (bitvec_width t)) f) s Q"
  by (rule op_ok_asked)

lemma op_ok_if: "\<not> b \<Longrightarrow> op_ok m s Q \<Longrightarrow> op_ok (if b then m' else m) s Q"
  by simp

lemma bits_of_ok:
  assumes s: "store_ok s" and t: "word_term s t w V"
    and f: "\<And>bits. bits_word s bits w V \<Longrightarrow> op_ok (f bits) s Q"
  shows "op_ok (bits_of t f) s Q"
proof -
  obtain bits where "t < length (ts_nodes s)" "node_kind s t = KBitVec bits" "bits_word s bits w V"
    using t by (auto simp: word_term_def)
  then show ?thesis using f [of bits]
    by (simp add: bits_of_def op_ok_def bind_op_def asks_def bitvec_bits_def)
qed

lemma with_pair_ok:
  assumes s: "store_ok s" and l: "word_term s l w A" and r: "word_term s r w B"
    and f: "\<And>ls rs. bits_word s ls w A \<Longrightarrow> bits_word s rs w B \<Longrightarrow> op_ok (f ls rs) s Q"
  shows "op_ok (with_pair l r name f) s Q"
proof -
  have "require_same_bv_width l r name s = Inr w"
    using word_term_width(1) [OF s l] word_term_width(1) [OF s r] by (simp add: require_same_bv_width_def)
  moreover have "op_ok (bits_of l (\<lambda>lbits. bits_of r (f lbits))) s Q"
    by (intro bits_of_ok [OF s l] bits_of_ok [OF s r] f)
  ultimately show ?thesis by (simp add: with_pair_def op_ok_def bind_op_def asks_def)
qed

subsection \<open>Operations of many arguments\<close>

lemma fold_arguments_ok:
  assumes step: "\<And>s a b A B. store_ok s \<Longrightarrow> bits_word s a w A \<Longrightarrow> bits_word s b w B \<Longrightarrow>
    op_ok (f a b) s (\<lambda>r s'. bits_word s' r w (\<lambda>\<sigma>. g (A \<sigma>) (B \<sigma>)))"
  shows "store_ok s \<Longrightarrow> bits_word s r w R \<Longrightarrow> list_all2 (\<lambda>t V. word_term s t w V) ts Vs \<Longrightarrow>
    op_ok (fold_arguments e w f ts r) s (\<lambda>r s'. bits_word s' r w (\<lambda>\<sigma>. foldl (\<lambda>a V. g a (V \<sigma>)) (R \<sigma>) Vs))"
proof (induction ts arbitrary: s r R Vs)
  case Nil
  then show ?case by (simp add: op_ok_ret)
next
  case (Cons t ts)
  then obtain V Us where Vs: "Vs = V # Us" and t: "word_term s t w V" and ts: "list_all2 (\<lambda>t V. word_term s t w V) ts Us"
    by (auto simp: list_all2_Cons1)
  have "op_ok (bits_of t (\<lambda>right. bind_op (f r right) (fold_arguments e w f ts))) s
    (\<lambda>r s'. bits_word s' r w (\<lambda>\<sigma>. foldl (\<lambda>a V. g a (V \<sigma>)) (R \<sigma>) Vs))"
  proof (rule bits_of_ok [OF Cons.prems(1) t], rule op_ok_bind [OF step [OF Cons.prems(1,2)]])
    fix b s1 r1 assume 1: "store_ok s1" "extends s s1" "bits_word s1 r1 w (\<lambda>\<sigma>. g (R \<sigma>) (V \<sigma>))"
    have "list_all2 (\<lambda>t V. word_term s1 t w V) ts Us"
      using ts by (rule list_all2_mono) (rule word_term_extends [OF _ 1(2)])
    then show "op_ok (fold_arguments e w f ts r1) s1
      (\<lambda>r s'. bits_word s' r w (\<lambda>\<sigma>. foldl (\<lambda>a V. g a (V \<sigma>)) (R \<sigma>) Vs))"
      using Cons.IH [OF 1(1,3)] by (simp add: Vs)
  qed
  then show ?case using word_term_width(1) [OF Cons.prems(1) t] by (simp add: op_ok_def bind_op_def asks_def)
qed

lemma first_width: "store_ok s \<Longrightarrow> list_all2 (\<lambda>t V. word_term s t w V) ts Vs \<Longrightarrow> 2 \<le> length ts \<Longrightarrow> bitvec_width (ts ! 0) s = Inr w"
  using word_term_width(1) by (cases ts) (auto simp: list_all2_Cons1)

lemma many_arguments_ok:
  assumes s: "store_ok s" and ts: "list_all2 (\<lambda>t V. word_term s t w V) ts Vs" and n: "2 \<le> length ts"
    and step: "\<And>s a b A B. store_ok s \<Longrightarrow> bits_word s a w A \<Longrightarrow> bits_word s b w B \<Longrightarrow>
      op_ok (f a b) s (\<lambda>r s'. bits_word s' r w (\<lambda>\<sigma>. g (A \<sigma>) (B \<sigma>)))"
    and v: "\<And>V Us \<sigma>. Vs = V # Us \<Longrightarrow> V \<sigma> < 2 ^ w \<Longrightarrow> foldl (\<lambda>a V. g a (V \<sigma>)) (V \<sigma>) Us = h \<sigma>"
  shows "op_ok (bits_of (ts ! 0) (\<lambda>first. make_from (fold_arguments e w f (tl ts) first))) s (\<lambda>t s'. word_term s' t w h)"
proof -
  obtain t us V Us where [simp]: "ts = t # us" "Vs = V # Us" and t: "word_term s t w V" "list_all2 (\<lambda>t V. word_term s t w V) us Us"
    using ts n by (cases ts) (auto simp: list_all2_Cons1)
  have h: "foldl (\<lambda>a V. g a (V \<sigma>)) (V \<sigma>) Us = h \<sigma>" for \<sigma> using v word_term_width(3) [OF s t(1)] by simp
  have "op_ok (fold_arguments e w f us first) s (\<lambda>r s'. bits_word s' r w h)" if "bits_word s first w V" for first
  proof -
    have "op_ok (fold_arguments e w f us first) s (\<lambda>r s'. bits_word s' r w (\<lambda>\<sigma>. foldl (\<lambda>a V. g a (V \<sigma>)) (V \<sigma>) Us))"
      by (rule fold_arguments_ok [OF _ s that t(2)]) (rule step)
    then show ?thesis by (simp only: h)
  qed
  then have "op_ok (bits_of t (\<lambda>first. make_from (fold_arguments e w f us first))) s (\<lambda>t s'. word_term s' t w h)"
    by (intro bits_of_ok [OF s t(1)] make_from_ok word_term_width(2) [OF s t(1)])
  then show ?thesis by simp
qed

lemma foldl_sum: "foldl (\<lambda>a V. (a + V \<sigma>) mod m) (x mod m) Vs = (x + (\<Sum>V\<leftarrow>Vs. V \<sigma>)) mod (m :: nat)"
proof (induction Vs arbitrary: x)
  case (Cons V Vs)
  from Cons [of "x + V \<sigma>"] show ?case by (simp add: mod_add_left_eq add.assoc)
qed simp

lemma foldl_product: "foldl (\<lambda>a V. (a * V \<sigma>) mod m) (x mod m) Vs = (x * (\<Prod>V\<leftarrow>Vs. V \<sigma>)) mod (m :: nat)"
proof (induction Vs arbitrary: x)
  case (Cons V Vs)
  from Cons [of "x * V \<sigma>"] show ?case by (simp add: mod_mult_left_eq mult.assoc)
qed simp

lemma bvadd_ok:
  assumes s: "store_ok s" and ts: "list_all2 (\<lambda>t V. word_term s t w V) ts Vs" "2 \<le> length ts"
  shows "op_ok (bvadd ts) s (\<lambda>t s'. word_term s' t w (\<lambda>\<sigma>. (\<Sum>V\<leftarrow>Vs. V \<sigma>) mod 2 ^ w))"
proof -
  have "op_ok (bits_of (ts ! 0) (\<lambda>first. make_from (fold_arguments e w sum_bits (tl ts) first))) s
      (\<lambda>t s'. word_term s' t w (\<lambda>\<sigma>. (\<Sum>V\<leftarrow>Vs. V \<sigma>) mod 2 ^ w))" for e
  proof (rule many_arguments_ok [OF s ts, where g = "\<lambda>a b. (a + b) mod 2 ^ w"])
    show "foldl (\<lambda>a V. (a + V \<sigma>) mod 2 ^ w) (V \<sigma>) Us = (\<Sum>V\<leftarrow>Vs. V \<sigma>) mod 2 ^ w" if "Vs = V # Us" "V \<sigma> < 2 ^ w" for V Us \<sigma>
      using foldl_sum [where m = "2 ^ w" and x = "V \<sigma>" and Vs = Us and \<sigma> = \<sigma>] that by simp
  qed (rule sum_bits_ok)
  then show ?thesis unfolding bvadd_def
    using ts(2) by (intro op_ok_if op_ok_width [OF first_width [OF s ts]]) simp_all
qed

lemma bvmul_ok:
  assumes s: "store_ok s" and ts: "list_all2 (\<lambda>t V. word_term s t w V) ts Vs" "2 \<le> length ts"
  shows "w * w \<le> MAX_QUADRATIC_LOWERING_WORK \<Longrightarrow>
      op_ok (bvmul ts) s (\<lambda>t s'. word_term s' t w (\<lambda>\<sigma>. (\<Prod>V\<leftarrow>Vs. V \<sigma>) mod 2 ^ w))"
    "w * w > MAX_QUADRATIC_LOWERING_WORK \<Longrightarrow> bvmul ts s = (Inl (Rejected (WorkLimit ''bvmul'' w)), s)"
proof -
  have "op_ok (bits_of (ts ! 0) (\<lambda>first. make_from (fold_arguments e w (\<lambda>result right. multiply_bits result right w) (tl ts) first))) s
      (\<lambda>t s'. word_term s' t w (\<lambda>\<sigma>. (\<Prod>V\<leftarrow>Vs. V \<sigma>) mod 2 ^ w))" for e
  proof (rule many_arguments_ok [OF s ts, where g = "\<lambda>a b. (a * b) mod 2 ^ w"])
    show "foldl (\<lambda>a V. (a * V \<sigma>) mod 2 ^ w) (V \<sigma>) Us = (\<Prod>V\<leftarrow>Vs. V \<sigma>) mod 2 ^ w" if "Vs = V # Us" "V \<sigma> < 2 ^ w" for V Us \<sigma>
      using foldl_product [where m = "2 ^ w" and x = "V \<sigma>" and Vs = Us and \<sigma> = \<sigma>] that by simp
  qed (rule multiply_bits_ok)
  then show "w * w \<le> MAX_QUADRATIC_LOWERING_WORK \<Longrightarrow>
      op_ok (bvmul ts) s (\<lambda>t s'. word_term s' t w (\<lambda>\<sigma>. (\<Prod>V\<leftarrow>Vs. V \<sigma>) mod 2 ^ w))"
    unfolding bvmul_def using ts(2)
    by (intro op_ok_if op_ok_width [OF first_width [OF s ts]] op_ok_asked [where x = "()"]) (simp_all add: check_quadratic_def)
  show "w * w > MAX_QUADRATIC_LOWERING_WORK \<Longrightarrow> bvmul ts s = (Inl (Rejected (WorkLimit ''bvmul'' w)), s)"
    using ts(2) first_width [OF s ts] by (simp add: bvmul_def bind_op_def asks_def check_quadratic_def)
qed

subsection \<open>Bitwise operations\<close>

unbundle bit_operations_syntax

fun bitwise_value :: "bitwise \<Rightarrow> nat \<Rightarrow> nat \<Rightarrow> nat" where
  "bitwise_value BitAnd a b = a AND b"
| "bitwise_value BitOr a b = a OR b"
| "bitwise_value BitXor a b = a XOR b"

fun bitwise_bool :: "bitwise \<Rightarrow> bool \<Rightarrow> bool \<Rightarrow> bool" where
  "bitwise_bool BitAnd a b \<longleftrightarrow> a \<and> b"
| "bitwise_bool BitOr a b \<longleftrightarrow> a \<or> b"
| "bitwise_bool BitXor a b \<longleftrightarrow> a \<noteq> b"

lemma bitwise_bool_value: "length vs = length ws \<Longrightarrow> bits_nat (map2 (bitwise_bool operation) vs ws) = bitwise_value operation (bits_nat vs) (bits_nat ws)"
  by (cases operation)
    (auto intro!: bit_eqI simp: bits_nat_def bit_horner_sum_bit_iff bit_and_iff bit_or_iff bit_xor_iff)

lemma bitwise_bit_ok:
  assumes "store_ok s" "denotes s l f" "denotes s r g"
  shows "op_ok (bitwise_bit operation l r) s (\<lambda>t s'. denotes s' t (\<lambda>\<sigma>. bitwise_bool operation (f \<sigma>) (g \<sigma>)))"
  using term_and2_ok [OF assms] term_or2_ok [OF assms] xor_iff_ok(1) [OF assms] by (cases operation) simp_all

lemma bitwise_bits_ok:
  assumes s: "store_ok s" and l: "bits_word s ls w A" and r: "bits_word s rs w B"
  shows "op_ok (each_op (\<lambda>(l, r). bitwise_bit operation l r) (zip ls rs)) s
    (\<lambda>ts s'. bits_word s' ts w (\<lambda>\<sigma>. bitwise_value operation (A \<sigma>) (B \<sigma>)))"
proof (rule op_ok_conseq [OF each_op_ok [OF s, where g = "\<lambda>(a, b) \<sigma>. bitwise_bool operation (term_value s \<sigma> a) (term_value s \<sigma> b)"]])
  fix x s' assume x: "x \<in> set (zip ls rs)" "store_ok s'" "extends s s'"
  obtain a b where ab: "x = (a, b)" by fastforce
  have d: "denotes s' a (\<lambda>\<sigma>. term_value s \<sigma> a)" "denotes s' b (\<lambda>\<sigma>. term_value s \<sigma> b)"
    using denotes_member [OF bits_wordD(1) [OF l] set_zip_leftD [OF x(1) [unfolded ab]] x(3)]
      denotes_member [OF bits_wordD(1) [OF r] set_zip_rightD [OF x(1) [unfolded ab]] x(3)] by simp_all
  show "op_ok (case x of (l, r) \<Rightarrow> bitwise_bit operation l r) s'
      (\<lambda>t s''. denotes s'' t ((\<lambda>(a, b) \<sigma>. bitwise_bool operation (term_value s \<sigma> a) (term_value s \<sigma> b)) x))"
    using bitwise_bit_ok [OF x(2) d] by (simp add: ab)
next
  fix ts s' assume t: "bits_ok s' ts \<and> length ts = length (zip ls rs)
    \<and> (\<forall>\<sigma>. truths s' \<sigma> ts = map (\<lambda>x. (\<lambda>(a, b) \<sigma>. bitwise_bool operation (term_value s \<sigma> a) (term_value s \<sigma> b)) x \<sigma>) (zip ls rs))"
  have len: "length ls = w" "length rs = w" using l r by (simp_all add: bits_word_def)
  have "map (\<lambda>x. (\<lambda>(a, b) \<sigma>. bitwise_bool operation (term_value s \<sigma> a) (term_value s \<sigma> b)) x \<sigma>) (zip ls rs)
      = map2 (bitwise_bool operation) (truths s \<sigma> ls) (truths s \<sigma> rs)" for \<sigma>
    by (simp add: zip_map_map case_prod_beta comp_def)
  then have "word_val s' ts \<sigma> = bitwise_value operation (A \<sigma>) (B \<sigma>)" for \<sigma>
    using t len bitwise_bool_value [of "truths s \<sigma> ls" "truths s \<sigma> rs" operation] bits_wordD(3) [OF l] bits_wordD(3) [OF r]
    by (simp add: word_val_def)
  then show "bits_word s' ts w (\<lambda>\<sigma>. bitwise_value operation (A \<sigma>) (B \<sigma>))" using t len by (simp add: bits_word_def)
qed

lemma fold_bitwise_ok:
  assumes s: "store_ok s" and ts: "list_all2 (\<lambda>t V. word_term s t w V) ts Vs" "2 \<le> length ts"
  shows "op_ok (fold_bitwise ts operation) s
    (\<lambda>t s'. word_term s' t w (\<lambda>\<sigma>. foldl (\<lambda>a V. bitwise_value operation a (V \<sigma>)) (hd Vs \<sigma>) (tl Vs)))"
proof -
  have "op_ok (bits_of (ts ! 0) (\<lambda>first. make_from (fold_arguments e w
      (\<lambda>result right. each_op (\<lambda>(l, r). bitwise_bit operation l r) (zip result right)) (tl ts) first))) s
    (\<lambda>t s'. word_term s' t w (\<lambda>\<sigma>. foldl (\<lambda>a V. bitwise_value operation a (V \<sigma>)) (hd Vs \<sigma>) (tl Vs)))" for e
    by (rule many_arguments_ok [OF s ts, where g = "bitwise_value operation"]) (rule bitwise_bits_ok, simp_all)
  then show ?thesis unfolding fold_bitwise_def
    using ts(2) by (intro op_ok_if op_ok_width [OF first_width [OF s ts]]) simp_all
qed

lemma bvnot_ok:
  assumes s: "store_ok s" and t: "word_term s t w V"
  shows "op_ok (bvnot t) s (\<lambda>r s'. word_term s' r w (\<lambda>\<sigma>. 2 ^ w - 1 - V \<sigma>))"
  unfolding bvnot_def
  by (intro bits_of_ok [OF s t] make_from_ok not_bits_ok s word_term_width(2) [OF s t])

subsection \<open>Unsigned arithmetic\<close>

text \<open>The bit pattern of an integer, and the integer of a bit pattern in two's complement.\<close>

definition word_of :: "nat \<Rightarrow> int \<Rightarrow> nat" where
  "word_of w x = nat (x mod 2 ^ w)"

definition signed_value :: "nat \<Rightarrow> nat \<Rightarrow> int" where
  "signed_value w v = (if 2 ^ (w - 1) \<le> v then int v - 2 ^ w else int v)"

lemma int_word_of [simp]: "int (word_of w x) = x mod 2 ^ w"
  by (simp add: word_of_def)

lemma word_of_int [simp]: "word_of w (int a) = a mod 2 ^ w"
  by (simp add: word_of_def nat_mod_distrib nat_power_eq)

lemma word_of_eq_iff: "(a :: nat) = word_of w x \<longleftrightarrow> int a = x mod 2 ^ w"
  by (metis int_word_of of_nat_eq_iff)

lemma word_of_add: "(word_of w x + word_of w y) mod 2 ^ w = word_of w (x + y)"
  by (simp add: word_of_eq_iff zmod_int mod_add_eq)

lemma word_of_mult: "(word_of w x * word_of w y) mod 2 ^ w = word_of w (x * y)"
  by (rule iffD2 [OF word_of_eq_iff]) (simp add: zmod_int mod_mult_eq)

lemma word_of_neg: "v = word_of w x \<Longrightarrow> (2 ^ w - v) mod 2 ^ w = word_of w (- x)"
proof -
  assume v: "v = word_of w x"
  have "int v < 2 ^ w" by (simp add: v)
  then have "v \<le> 2 ^ w" by simp
  then show ?thesis by (simp add: word_of_eq_iff zmod_int of_nat_diff v mod_minus_eq)
qed

lemma word_of_signed: "v < 2 ^ w \<Longrightarrow> word_of w (signed_value w v) = v"
proof -
  assume "v < 2 ^ w"
  then have v: "int v < 2 ^ w" by simp
  have "(int v - 2 ^ w) mod 2 ^ w = int v mod 2 ^ w" by simp
  then have "signed_value w v mod 2 ^ w = int v" using v by (auto simp: signed_value_def)
  then show ?thesis using word_of_eq_iff [of v w "signed_value w v"] by simp
qed

lemma signed_value_less: "v < 2 ^ w \<Longrightarrow> signed_value w v < 0 \<longleftrightarrow> 2 ^ (w - 1) \<le> v"
  by (simp add: signed_value_def)

lemma signed_value_bounds:
  assumes "0 < w" "v < 2 ^ w"
  shows "- (2 ^ (w - 1)) \<le> signed_value w v" "signed_value w v < 2 ^ (w - 1)"
proof -
  have "(2 :: int) ^ w = 2 * 2 ^ (w - 1)" using assms(1) by (cases w) simp_all
  moreover have "int v < 2 ^ w" using assms(2) by simp
  moreover have "2 ^ (w - 1) \<le> v \<longleftrightarrow> 2 ^ (w - 1) \<le> int v" by simp
  ultimately show "- (2 ^ (w - 1)) \<le> signed_value w v" "signed_value w v < 2 ^ (w - 1)"
    unfolding signed_value_def by (simp_all split: if_splits)
qed

lemma bvneg_ok:
  assumes s: "store_ok s" and t: "word_term s t w V"
  shows "op_ok (bvneg t) s (\<lambda>r s'. word_term s' r w (\<lambda>\<sigma>. word_of w (- int (V \<sigma>))))"
proof -
  have "(2 ^ w - V \<sigma>) mod 2 ^ w = word_of w (- int (V \<sigma>))" for \<sigma>
    using word_term_width(3) [OF s t] by (intro word_of_neg) simp
  then have "op_ok (negate_bits bits) s (\<lambda>r s'. bits_word s' r w (\<lambda>\<sigma>. word_of w (- int (V \<sigma>))))" if "bits_word s bits w V" for bits
    using negate_bits_ok [OF s that word_term_width(2) [OF s t]] by simp
  then show ?thesis unfolding bvneg_def
    by (intro bits_of_ok [OF s t] make_from_ok word_term_width(2) [OF s t])
qed

lemma difference_value: "b < 2 ^ w \<Longrightarrow> (a + (2 ^ w - b)) mod 2 ^ w = word_of w (int a - int b)"
proof -
  assume "b < 2 ^ w"
  moreover have "int a + 2 ^ w - int b = int a - int b + 2 ^ w" by simp
  then have "(int a + 2 ^ w - int b) mod 2 ^ w = (int a - int b) mod 2 ^ w" by (simp only: mod_add_self2)
  ultimately show ?thesis by (simp only: word_of_eq_iff) (simp add: zmod_int of_nat_diff)
qed

lemma bvsub_ok:
  assumes s: "store_ok s" and l: "word_term s l w A" and r: "word_term s r w B"
  shows "op_ok (bvsub l r) s (\<lambda>t s'. word_term s' t w (\<lambda>\<sigma>. word_of w (int (A \<sigma>) - int (B \<sigma>))))"
  unfolding bvsub_def
proof (intro with_pair_ok [OF s l r] make_from_ok word_term_width(2) [OF s l])
  fix ls rs assume "bits_word s ls w A" "bits_word s rs w B"
  from subtract_bits_ok [OF s this word_term_width(2) [OF s l]]
  show "op_ok (subtract_bits ls rs) s (\<lambda>t s'. bits_word s' t w (\<lambda>\<sigma>. word_of w (int (A \<sigma>) - int (B \<sigma>))))"
    by (simp only: difference_value [OF word_term_width(3) [OF s r]])
qed

lemma unsigned_divide_ok:
  assumes s: "store_ok s" and l: "bits_word s ls w A" and r: "bits_word s rs w B" and q: "w * w \<le> MAX_QUADRATIC_LOWERING_WORK"
  shows "op_ok (unsigned_divide_bits ls rs) s (\<lambda>(q, m) s'.
    bits_word s' q w (\<lambda>\<sigma>. div_or_ones w (A \<sigma>) (B \<sigma>)) \<and> bits_word s' m w (\<lambda>\<sigma>. A \<sigma> mod B \<sigma>))"
proof (cases "length ls > u32_max")
  case True
  then show ?thesis using s by (simp add: unsigned_divide_bits_def op_ok_def reject_def)
next
  case False
  let ?Q = "\<lambda>(q, m) s'. bits_word s' q w (\<lambda>\<sigma>. div_or_ones w (A \<sigma>) (B \<sigma>)) \<and> bits_word s' m w (\<lambda>\<sigma>. A \<sigma> mod B \<sigma>)"
  have len: "length ls = w" and ok: "bits_ok s (rev ls)" using l by (simp_all add: bits_word_def)
  have d: "bits_word s (rs @ [bool_constant False s]) (Suc w) B"
    using r constant_ok [OF s, of False] by (simp add: bits_word_def denotes_def)
  have z: "bits_word s [] 0 (\<lambda>_. 0)" by (simp add: bits_word_def)
  have k: "0 + length (rev ls) = w" using len by simp
  have b: "\<forall>\<sigma>. B \<sigma> < 2 ^ w \<and> (if B \<sigma> = 0 then (0 :: nat) < 2 ^ 0 else 0 < B \<sigma>)" using bits_wordD(4) [OF r] by simp
  have "op_ok (bind_op (divide_steps (rev ls) (rs @ [bool_constant False s]) (replicate (length ls + 1) (bool_constant False s)) [])
      (\<lambda>(q, m). ret (q, butlast m))) s ?Q"
  proof (rule op_ok_bind [OF divide_steps_ok [OF s ok d _ z k b]])
    show "bits_word s (replicate (length ls + 1) (bool_constant False s)) (Suc w) (\<lambda>_. 0)"
      using constant_word(1) [OF s, of "Suc w"] len by simp
    fix x s1 assume 1: "store_ok s1" "extends s s1" "(\<lambda>(q, m) s'.
        bits_word s' q w (\<lambda>\<sigma>. div_or_ones (length (rev ls)) (0 * 2 ^ length (rev ls) + word_val s (rev (rev ls)) \<sigma>) (B \<sigma>) + 2 ^ length (rev ls) * 0)
        \<and> bits_word s' m (Suc w) (\<lambda>\<sigma>. (0 * 2 ^ length (rev ls) + word_val s (rev (rev ls)) \<sigma>) mod B \<sigma>)
        \<and> (\<forall>\<sigma>. (0 * 2 ^ length (rev ls) + word_val s (rev (rev ls)) \<sigma>) mod B \<sigma> < 2 ^ w)) x s1"
    obtain q m where x: "x = (q, m)" by fastforce
    have "bits_word s1 q w (\<lambda>\<sigma>. div_or_ones w (A \<sigma>) (B \<sigma>))" "bits_word s1 m (Suc w) (\<lambda>\<sigma>. A \<sigma> mod B \<sigma>)" "A \<sigma> mod B \<sigma> < 2 ^ w" for \<sigma>
      using 1(3) bits_wordD(3) [OF l] len by (simp_all add: x)
    then show "op_ok (case x of (q, m) \<Rightarrow> ret (q, butlast m)) s1 ?Q"
      using 1(1) butlast_word by (simp add: x op_ok_ret)
  qed
  then show ?thesis using False q len
    by (simp add: unsigned_divide_bits_def op_ok_def bind_op_def asks_def check_quadratic_def)
qed

lemma bvudiv_ok:
  assumes s: "store_ok s" and l: "word_term s l w A" and r: "word_term s r w B" and q: "w * w \<le> MAX_QUADRATIC_LOWERING_WORK"
  shows "op_ok (bvudiv l r) s (\<lambda>t s'. word_term s' t w (\<lambda>\<sigma>. if B \<sigma> = 0 then 2 ^ w - 1 else A \<sigma> div B \<sigma>))"
    "op_ok (bvurem l r) s (\<lambda>t s'. word_term s' t w (\<lambda>\<sigma>. A \<sigma> mod B \<sigma>))"
proof -
  note w = word_term_width(2) [OF s l]
  show "op_ok (bvudiv l r) s (\<lambda>t s'. word_term s' t w (\<lambda>\<sigma>. if B \<sigma> = 0 then 2 ^ w - 1 else A \<sigma> div B \<sigma>))"
    unfolding bvudiv_def
  proof (rule with_pair_ok [OF s l r])
    fix ls rs assume b: "bits_word s ls w A" "bits_word s rs w B"
    show "op_ok (bind_op (unsigned_divide_bits ls rs) (\<lambda>(q, _). make_bitvec q)) s
        (\<lambda>t s'. word_term s' t w (\<lambda>\<sigma>. if B \<sigma> = 0 then 2 ^ w - 1 else A \<sigma> div B \<sigma>))"
      by (rule op_ok_bind [OF unsigned_divide_ok [OF s b q]]) (auto simp: div_or_ones_def intro!: make_bitvec_ok w)
  qed
  show "op_ok (bvurem l r) s (\<lambda>t s'. word_term s' t w (\<lambda>\<sigma>. A \<sigma> mod B \<sigma>))"
    unfolding bvurem_def
  proof (rule with_pair_ok [OF s l r])
    fix ls rs assume b: "bits_word s ls w A" "bits_word s rs w B"
    show "op_ok (bind_op (unsigned_divide_bits ls rs) (\<lambda>(_, m). make_bitvec m)) s
        (\<lambda>t s'. word_term s' t w (\<lambda>\<sigma>. A \<sigma> mod B \<sigma>))"
      by (rule op_ok_bind [OF unsigned_divide_ok [OF s b q]]) (auto intro!: make_bitvec_ok w)
  qed
qed

subsection \<open>Signed arithmetic\<close>

lemma sign_ok:
  assumes s: "store_ok s" and t: "bits_word s ts w V" and w: "0 < w"
  shows "denotes s (last ts) (\<lambda>\<sigma>. signed_value w (V \<sigma>) < 0)"
  using denotes_last(1) [OF t w] signed_value_less bits_wordD(4) [OF t] by simp

lemma absolute_bits_ok:
  assumes s: "store_ok s" and t: "bits_word s ts w V" and w: "0 < w"
    and c: "denotes s sign (\<lambda>\<sigma>. signed_value w (V \<sigma>) < 0)"
  shows "op_ok (absolute_bits ts sign) s (\<lambda>r s'. bits_word s' r w (\<lambda>\<sigma>. nat \<bar>signed_value w (V \<sigma>)\<bar>))"
  unfolding absolute_bits_def
proof (rule op_ok_bind [OF negate_bits_ok [OF s t w]])
  fix n s1 assume 1: "store_ok s1" "extends s s1" "bits_word s1 n w (\<lambda>\<sigma>. (2 ^ w - V \<sigma>) mod 2 ^ w)"
  have "(if signed_value w (V \<sigma>) < 0 then (2 ^ w - V \<sigma>) mod 2 ^ w else V \<sigma>) = nat \<bar>signed_value w (V \<sigma>)\<bar>" for \<sigma>
  proof -
    have v: "V \<sigma> < 2 ^ w" using bits_wordD(4) [OF t] .
    show ?thesis
    proof (cases "2 ^ (w - 1) \<le> V \<sigma>")
      case True
      moreover have "(0 :: nat) < 2 ^ (w - 1)" by simp
      ultimately have "0 < V \<sigma>" by linarith
      then have "(2 ^ w - V \<sigma>) mod 2 ^ w = 2 ^ w - V \<sigma>" by simp
      moreover have "nat \<bar>int (V \<sigma>) - 2 ^ w\<bar> = 2 ^ w - V \<sigma>" using v by (simp add: nat_eq_iff of_nat_diff)
      ultimately show ?thesis using True v signed_value_less [OF v] by (simp add: signed_value_def)
    qed (use v signed_value_less [OF v] in \<open>simp add: signed_value_def\<close>)
  qed
  then show "op_ok (select_bits sign n ts) s1 (\<lambda>r s'. bits_word s' r w (\<lambda>\<sigma>. nat \<bar>signed_value w (V \<sigma>)\<bar>))"
    using select_bits_ok [OF 1(1) denotes_extends [OF c 1(2)] 1(3) bits_word_extends [OF t 1(2)]] by simp
qed

text \<open>The quotient that truncates, and the remainders with the sign of the dividend and of the divisor.\<close>

definition signed_quotient :: "nat \<Rightarrow> int \<Rightarrow> int \<Rightarrow> nat" where
  "signed_quotient w a b = (if b = 0 then (if a < 0 then 1 else 2 ^ w - 1) else word_of w (a sdiv b))"

lemma quotient_by_signs:
  assumes "0 < w" "div_or_ones w (nat \<bar>a\<bar>) (nat \<bar>b\<bar>) < 2 ^ w"
  shows "(if (a < 0) \<noteq> (b < 0) then (2 ^ w - div_or_ones w (nat \<bar>a\<bar>) (nat \<bar>b\<bar>)) mod 2 ^ w
      else div_or_ones w (nat \<bar>a\<bar>) (nat \<bar>b\<bar>)) = signed_quotient w a b"
proof (cases "b = 0")
  case True
  have "(1 :: nat) < 2 ^ w" using one_less_power [of "2 :: nat" w] assms(1) by simp
  then show ?thesis using True by (auto simp: div_or_ones_def signed_quotient_def)
next
  case False
  let ?q = "nat \<bar>a\<bar> div nat \<bar>b\<bar>"
  have q: "int ?q = \<bar>a\<bar> div \<bar>b\<bar>" "?q < 2 ^ w" using False assms(2) by (simp_all add: zdiv_int div_or_ones_def)
  have "a sdiv b = (if (a < 0) \<noteq> (b < 0) then - int ?q else int ?q)"
    using False by (auto simp: signed_divide_int_def q(1) sgn_if)
  moreover have "(2 ^ w - ?q) mod 2 ^ w = word_of w (- int ?q)" using q(2) by (intro word_of_neg) simp
  moreover have "?q = word_of w (int ?q)" using q(2) by simp
  ultimately show ?thesis using False by (simp add: div_or_ones_def signed_quotient_def del: word_of_int)
qed

lemma smod_by_sign: "a smod b = (if a < 0 then - (\<bar>a\<bar> mod \<bar>b\<bar>) else \<bar>a\<bar> mod \<bar>b\<bar>)" for a b :: int
  by (auto simp: signed_modulo_int_def sgn_if)

lemma mod_by_signs:
  fixes a b :: int
  defines "u \<equiv> \<bar>a\<bar> mod \<bar>b\<bar>"
  shows "a mod b = (if u = 0 then 0 else if 0 \<le> a \<and> 0 \<le> b then u else if a < 0 \<and> 0 \<le> b then b - u
    else if 0 \<le> a \<and> b < 0 then u + b else - u)"
proof -
  consider "0 \<le> a" "0 \<le> b" | "a < 0" "0 \<le> b" | "0 \<le> a" "b < 0" | "a < 0" "b < 0" by linarith
  then show ?thesis
  proof cases
    case 2
    then show ?thesis using zmod_zminus1_eq_if [of "- a" b] by (simp add: u_def)
  next
    case 3
    then show ?thesis using zmod_zminus2_eq_if [of a "- b"] by (simp add: u_def)
  next
    case 4
    then show ?thesis using mod_minus_minus [of a b] by (simp add: u_def)
  qed (simp add: u_def)
qed

text \<open>The division of the absolute values, which the signed operations share, followed by the rest \<open>k\<close> of the operation.\<close>

lemma divide_absolute_ok:
  assumes s: "store_ok s" and l: "bits_word s ls w A" and r: "bits_word s rs w B" and w: "0 < w"
    and q: "w * w \<le> MAX_QUADRATIC_LOWERING_WORK"
    and k: "\<And>q m s'. store_ok s' \<Longrightarrow> extends s s' \<Longrightarrow>
      bits_word s' q w (\<lambda>\<sigma>. div_or_ones w (nat \<bar>signed_value w (A \<sigma>)\<bar>) (nat \<bar>signed_value w (B \<sigma>)\<bar>)) \<Longrightarrow>
      bits_word s' m w (\<lambda>\<sigma>. nat (\<bar>signed_value w (A \<sigma>)\<bar> mod \<bar>signed_value w (B \<sigma>)\<bar>)) \<Longrightarrow> op_ok (k (q, m)) s' Q"
  shows "op_ok (bind_op (absolute_bits ls (last ls)) (\<lambda>al. bind_op (absolute_bits rs (last rs)) (\<lambda>ar. bind_op (unsigned_divide_bits al ar) k))) s Q"
proof (rule op_ok_bind [OF absolute_bits_ok [OF s l w sign_ok [OF s l w]]])
  let ?A = "\<lambda>\<sigma>. nat \<bar>signed_value w (A \<sigma>)\<bar>" and ?B = "\<lambda>\<sigma>. nat \<bar>signed_value w (B \<sigma>)\<bar>"
  fix al s1 assume 1: "store_ok s1" "extends s s1" "bits_word s1 al w ?A"
  note r1 = bits_word_extends [OF r 1(2)]
  show "op_ok (bind_op (absolute_bits rs (last rs)) (\<lambda>ar. bind_op (unsigned_divide_bits al ar) k)) s1 Q"
  proof (rule op_ok_bind [OF absolute_bits_ok [OF 1(1) r1 w sign_ok [OF 1(1) r1 w]]])
    fix ar s2 assume 2: "store_ok s2" "extends s1 s2" "bits_word s2 ar w ?B"
    show "op_ok (bind_op (unsigned_divide_bits al ar) k) s2 Q"
    proof (rule op_ok_bind [OF unsigned_divide_ok [OF 2(1) bits_word_extends [OF 1(3) 2(2)] 2(3) q]])
      fix x s3 assume 3: "store_ok s3" "extends s2 s3"
        "(\<lambda>(q, m) s'. bits_word s' q w (\<lambda>\<sigma>. div_or_ones w (?A \<sigma>) (?B \<sigma>)) \<and> bits_word s' m w (\<lambda>\<sigma>. ?A \<sigma> mod ?B \<sigma>)) x s3"
      have "?A \<sigma> mod ?B \<sigma> = nat (\<bar>signed_value w (A \<sigma>)\<bar> mod \<bar>signed_value w (B \<sigma>)\<bar>)" for \<sigma>
        by (simp add: nat_mod_distrib)
      then show "op_ok (k x) s3 Q"
        using k [OF 3(1) extends_trans [OF 1(2) extends_trans [OF 2(2) 3(2)]]] 3(3) by (cases x) simp
    qed
  qed
qed

lemma negate_select_ok:
  assumes s: "store_ok s" and t: "bits_word s ts w V" and w: "0 < w" and c: "denotes s c f"
  shows "op_ok (bind_op (negate_bits ts) (\<lambda>negated. make_from (select_bits c negated ts))) s
    (\<lambda>t s'. word_term s' t w (\<lambda>\<sigma>. if f \<sigma> then (2 ^ w - V \<sigma>) mod 2 ^ w else V \<sigma>))"
proof (rule op_ok_bind [OF negate_bits_ok [OF s t w]])
  fix n s1 assume 1: "store_ok s1" "extends s s1" "bits_word s1 n w (\<lambda>\<sigma>. (2 ^ w - V \<sigma>) mod 2 ^ w)"
  show "op_ok (make_from (select_bits c n ts)) s1 (\<lambda>t s'. word_term s' t w (\<lambda>\<sigma>. if f \<sigma> then (2 ^ w - V \<sigma>) mod 2 ^ w else V \<sigma>))"
    by (rule make_from_ok [OF select_bits_ok [OF 1(1) denotes_extends [OF c 1(2)] 1(3) bits_word_extends [OF t 1(2)]] w])
qed

lemma bvsdiv_ok:
  assumes s: "store_ok s" and l: "word_term s l w A" and r: "word_term s r w B" and q: "w * w \<le> MAX_QUADRATIC_LOWERING_WORK"
  shows "op_ok (bvsdiv l r) s (\<lambda>t s'. word_term s' t w (\<lambda>\<sigma>. signed_quotient w (signed_value w (A \<sigma>)) (signed_value w (B \<sigma>))))"
  unfolding bvsdiv_def
proof (rule with_pair_ok [OF s l r], rule divide_absolute_ok [OF s _ _ word_term_width(2) [OF s l] q], assumption, assumption, unfold prod.case)
  let ?a = "\<lambda>\<sigma>. signed_value w (A \<sigma>)" and ?b = "\<lambda>\<sigma>. signed_value w (B \<sigma>)"
  note w = word_term_width(2) [OF s l]
  fix ls rs qs m s1 assume b: "bits_word s ls w A" "bits_word s rs w B" and 1: "store_ok s1" "extends s s1"
    and q: "bits_word s1 qs w (\<lambda>\<sigma>. div_or_ones w (nat \<bar>?a \<sigma>\<bar>) (nat \<bar>?b \<sigma>\<bar>))"
  note signs = b [THEN sign_ok [OF s _ w], THEN denotes_extends, OF 1(2)]
  have v: "(if (?a \<sigma> < 0) \<noteq> (?b \<sigma> < 0) then (2 ^ w - div_or_ones w (nat \<bar>?a \<sigma>\<bar>) (nat \<bar>?b \<sigma>\<bar>)) mod 2 ^ w
      else div_or_ones w (nat \<bar>?a \<sigma>\<bar>) (nat \<bar>?b \<sigma>\<bar>)) = signed_quotient w (?a \<sigma>) (?b \<sigma>)" for \<sigma>
    by (rule quotient_by_signs [OF w bits_wordD(4) [OF q]])
  show "op_ok (bind_op (term_xor (last ls) (last rs)) (\<lambda>negative. bind_op (negate_bits qs) (\<lambda>negated.
      make_from (select_bits negative negated qs)))) s1 (\<lambda>t s'. word_term s' t w (\<lambda>\<sigma>. signed_quotient w (?a \<sigma>) (?b \<sigma>)))"
  proof (rule op_ok_bind [OF xor_iff_ok(1) [OF 1(1) signs]])
    fix c s2 assume 2: "store_ok s2" "extends s1 s2" "denotes s2 c (\<lambda>\<sigma>. (?a \<sigma> < 0) \<noteq> (?b \<sigma> < 0))"
    show "op_ok (bind_op (negate_bits qs) (\<lambda>negated. make_from (select_bits c negated qs))) s2
        (\<lambda>t s'. word_term s' t w (\<lambda>\<sigma>. signed_quotient w (?a \<sigma>) (?b \<sigma>)))"
      using negate_select_ok [OF 2(1) bits_word_extends [OF q 2(2)] w 2(3)] by (simp only: v)
  qed
qed

lemma bvsrem_ok:
  assumes s: "store_ok s" and l: "word_term s l w A" and r: "word_term s r w B" and q: "w * w \<le> MAX_QUADRATIC_LOWERING_WORK"
  shows "op_ok (bvsrem l r) s (\<lambda>t s'. word_term s' t w (\<lambda>\<sigma>. word_of w (signed_value w (A \<sigma>) smod signed_value w (B \<sigma>))))"
  unfolding bvsrem_def
proof (rule with_pair_ok [OF s l r], rule divide_absolute_ok [OF s _ _ word_term_width(2) [OF s l] q], assumption, assumption, unfold prod.case)
  let ?a = "\<lambda>\<sigma>. signed_value w (A \<sigma>)" and ?b = "\<lambda>\<sigma>. signed_value w (B \<sigma>)"
  note w = word_term_width(2) [OF s l]
  fix ls rs qs m s1 assume b: "bits_word s ls w A" and 1: "store_ok s1" "extends s s1"
    and m: "bits_word s1 m w (\<lambda>\<sigma>. nat (\<bar>?a \<sigma>\<bar> mod \<bar>?b \<sigma>\<bar>))"
  have v: "(if ?a \<sigma> < 0 then (2 ^ w - nat (\<bar>?a \<sigma>\<bar> mod \<bar>?b \<sigma>\<bar>)) mod 2 ^ w else nat (\<bar>?a \<sigma>\<bar> mod \<bar>?b \<sigma>\<bar>)) = word_of w (?a \<sigma> smod ?b \<sigma>)" for \<sigma>
  proof -
    let ?u = "\<bar>?a \<sigma>\<bar> mod \<bar>?b \<sigma>\<bar>"
    have "0 \<le> ?u" by (cases "?b \<sigma> = 0") simp_all
    then have "nat ?u = word_of w ?u" using bits_wordD(4) [OF m, of \<sigma>] word_of_int [of w "nat ?u"] by simp
    from this word_of_neg [OF this] show ?thesis by (simp only: smod_by_sign if_distrib [of "word_of w"])
  qed
  show "op_ok (bind_op (negate_bits m) (\<lambda>negated. make_from (select_bits (last ls) negated m))) s1
      (\<lambda>t s'. word_term s' t w (\<lambda>\<sigma>. word_of w (?a \<sigma> smod ?b \<sigma>)))"
    using negate_select_ok [OF 1(1) m w denotes_extends [OF sign_ok [OF s b w] 1(2)]] by (simp only: v)
qed

lemma sign_cases_ok:
  assumes s: "store_ok s" and l: "denotes s ls F" and r: "denotes s rs G"
    and k: "\<And>a b c s'. store_ok s' \<Longrightarrow> extends s s' \<Longrightarrow> denotes s' a (\<lambda>\<sigma>. \<not> F \<sigma> \<and> \<not> G \<sigma>) \<Longrightarrow>
      denotes s' b (\<lambda>\<sigma>. F \<sigma> \<and> \<not> G \<sigma>) \<Longrightarrow> denotes s' c (\<lambda>\<sigma>. \<not> F \<sigma> \<and> G \<sigma>) \<Longrightarrow> op_ok (k a b c) s' Q"
  shows "op_ok (bind_op (term_not ls) (\<lambda>n. bind_op (term_not rs) (\<lambda>m. bind_op (term_and [n, m]) (\<lambda>a.
    bind_op (term_and [ls, m]) (\<lambda>b. bind_op (term_and [n, rs]) (\<lambda>c. k a b c)))))) s Q"
proof (rule op_ok_bind [OF term_not_ok [OF s l]], rule op_ok_bind)
  fix n s1 assume 1: "store_ok s1" "extends s s1" "denotes s1 n (\<lambda>\<sigma>. \<not> F \<sigma>)"
  note l1 = denotes_extends [OF l 1(2)] and r1 = denotes_extends [OF r 1(2)]
  show "op_ok (term_not rs) s1 (\<lambda>t s'. denotes s' t (\<lambda>\<sigma>. \<not> G \<sigma>))" by (rule term_not_ok [OF 1(1) r1])
  fix m s2 assume 2: "store_ok s2" "extends s1 s2" "denotes s2 m (\<lambda>\<sigma>. \<not> G \<sigma>)"
  note l2 = denotes_extends [OF l1 2(2)] and r2 = denotes_extends [OF r1 2(2)] and n2 = denotes_extends [OF 1(3) 2(2)]
  show "op_ok (bind_op (term_and [n, m]) (\<lambda>a. bind_op (term_and [ls, m]) (\<lambda>b. bind_op (term_and [n, rs]) (\<lambda>c. k a b c)))) s2 Q"
  proof (rule op_ok_bind [OF term_and2_ok [OF 2(1) n2 2(3)]], rule op_ok_bind)
    fix a s3 assume 3: "store_ok s3" "extends s2 s3" "denotes s3 a (\<lambda>\<sigma>. \<not> F \<sigma> \<and> \<not> G \<sigma>)"
    note r3 = denotes_extends [OF r2 3(2)] and n3 = denotes_extends [OF n2 3(2)]
    show "op_ok (term_and [ls, m]) s3 (\<lambda>t s'. denotes s' t (\<lambda>\<sigma>. F \<sigma> \<and> \<not> G \<sigma>))"
      by (rule term_and2_ok [OF 3(1) denotes_extends [OF l2 3(2)] denotes_extends [OF 2(3) 3(2)]])
    fix b s4 assume 4: "store_ok s4" "extends s3 s4" "denotes s4 b (\<lambda>\<sigma>. F \<sigma> \<and> \<not> G \<sigma>)"
    note e = extends_trans [OF 1(2) extends_trans [OF 2(2) extends_trans [OF 3(2) 4(2)]]]
    show "op_ok (bind_op (term_and [n, rs]) (\<lambda>c. k a b c)) s4 Q"
    proof (rule op_ok_bind [OF term_and2_ok [OF 4(1) denotes_extends [OF n3 4(2)] denotes_extends [OF r3 4(2)]]])
      fix c s5 assume 5: "store_ok s5" "extends s4 s5" "denotes s5 c (\<lambda>\<sigma>. \<not> F \<sigma> \<and> G \<sigma>)"
      show "op_ok (k a b c) s5 Q"
        using denotes_extends [OF 3(3) extends_trans [OF 4(2) 5(2)]] denotes_extends [OF 4(3) 5(2)]
        by (intro k [OF 5(1) extends_trans [OF e 5(2)]] 5(3))
    qed
  qed
qed

text \<open>A selection among five words by four conditions.\<close>

lemma choose_word_ok:
  assumes s: "store_ok s" and c: "denotes s z Z" "denotes s p P" "denotes s n N" "denotes s d D"
    and t: "bits_word s us w U" "bits_word s nps w X" "bits_word s pns w Y" "bits_word s nus w V" and w: "0 < w"
  shows "op_ok (bind_op (select_bits d pns nus) (\<lambda>r1. bind_op (select_bits n nps r1) (\<lambda>r2. bind_op (select_bits p us r2) (\<lambda>r3.
      make_from (select_bits z us r3))))) s
    (\<lambda>t s'. word_term s' t w (\<lambda>\<sigma>. if Z \<sigma> then U \<sigma> else if P \<sigma> then U \<sigma> else if N \<sigma> then X \<sigma> else if D \<sigma> then Y \<sigma> else V \<sigma>))"
  (is "op_ok _ s (\<lambda>t s'. word_term s' t w ?V)")
proof (rule op_ok_bind [OF select_bits_ok [OF s c(4) t(3,4)]])
  fix r1 s1 assume 1: "store_ok s1" "extends s s1" "bits_word s1 r1 w (\<lambda>\<sigma>. if D \<sigma> then Y \<sigma> else V \<sigma>)"
  note c1 = c(1-3) [THEN denotes_extends, OF 1(2)] and t1 = t(1,2) [THEN bits_word_extends, OF 1(2)]
  show "op_ok (bind_op (select_bits n nps r1) (\<lambda>r2. bind_op (select_bits p us r2) (\<lambda>r3. make_from (select_bits z us r3)))) s1
      (\<lambda>t s'. word_term s' t w ?V)"
  proof (rule op_ok_bind [OF select_bits_ok [OF 1(1) c1(3) t1(2) 1(3)]])
    fix r2 s2 assume 2: "store_ok s2" "extends s1 s2" "bits_word s2 r2 w (\<lambda>\<sigma>. if N \<sigma> then X \<sigma> else if D \<sigma> then Y \<sigma> else V \<sigma>)"
    note c2 = c1 [THEN denotes_extends, OF 2(2)] and t2 = t1 [THEN bits_word_extends, OF 2(2)]
    show "op_ok (bind_op (select_bits p us r2) (\<lambda>r3. make_from (select_bits z us r3))) s2 (\<lambda>t s'. word_term s' t w ?V)"
    proof (rule op_ok_bind [OF select_bits_ok [OF 2(1) c2(2) t2(1) 2(3)]])
      fix r3 s3 assume 3: "store_ok s3" "extends s2 s3"
        "bits_word s3 r3 w (\<lambda>\<sigma>. if P \<sigma> then U \<sigma> else if N \<sigma> then X \<sigma> else if D \<sigma> then Y \<sigma> else V \<sigma>)"
      show "op_ok (make_from (select_bits z us r3)) s3 (\<lambda>t s'. word_term s' t w ?V)"
        by (rule make_from_ok [OF select_bits_ok [OF 3(1) denotes_extends [OF c2(1) 3(2)] bits_word_extends [OF t2(1) 3(2)] 3(3)] w])
    qed
  qed
qed

lemma bvsmod_value:
  assumes u: "u = \<bar>a\<bar> mod \<bar>b\<bar>" "nat u < 2 ^ w"
  shows "(if nat u = 0 then nat u else if \<not> a < 0 \<and> \<not> b < 0 then nat u
    else if a < 0 \<and> \<not> b < 0 then (word_of w (- u) + word_of w b) mod 2 ^ w
    else if \<not> a < 0 \<and> b < 0 then (nat u + word_of w b) mod 2 ^ w else word_of w (- u)) = word_of w (a mod b)"
proof -
  have nonneg: "0 \<le> u" unfolding u by (cases "b = 0") simp_all
  then have n: "nat u = word_of w u" using u(2) word_of_int [of w "nat u"] by simp
  have z: "word_of w u = 0 \<longleftrightarrow> u = 0" unfolding n [symmetric] using nonneg by simp
  have m: "a mod b = (if u = 0 then 0 else if 0 \<le> a \<and> 0 \<le> b then u else if a < 0 \<and> 0 \<le> b then b - u
    else if 0 \<le> a \<and> b < 0 then u + b else - u)" unfolding u by (rule mod_by_signs)
  have "(if u = 0 then word_of w u else if \<not> a < 0 \<and> \<not> b < 0 then word_of w u
    else if a < 0 \<and> \<not> b < 0 then word_of w (- u + b)
    else if \<not> a < 0 \<and> b < 0 then word_of w (u + b) else word_of w (- u)) = word_of w (a mod b)"
    unfolding m by (auto simp: not_less)
  then show ?thesis by (simp only: z n word_of_add)
qed

lemma bvsmod_ok:
  assumes s: "store_ok s" and l: "word_term s l w A" and r: "word_term s r w B" and q: "w * w \<le> MAX_QUADRATIC_LOWERING_WORK"
  shows "op_ok (bvsmod l r) s (\<lambda>t s'. word_term s' t w (\<lambda>\<sigma>. word_of w (signed_value w (A \<sigma>) mod signed_value w (B \<sigma>))))"
  unfolding bvsmod_def Let_def
proof (rule with_pair_ok [OF s l r], rule divide_absolute_ok [OF s _ _ word_term_width(2) [OF s l] q], assumption, assumption, unfold prod.case)
  let ?a = "\<lambda>\<sigma>. signed_value w (A \<sigma>)" and ?b = "\<lambda>\<sigma>. signed_value w (B \<sigma>)"
  let ?u = "\<lambda>\<sigma>. \<bar>?a \<sigma>\<bar> mod \<bar>?b \<sigma>\<bar>"
  let ?Q = "\<lambda>t s'. word_term s' t w (\<lambda>\<sigma>. word_of w (?a \<sigma> mod ?b \<sigma>))"
  note w = word_term_width(2) [OF s l]
  fix ls rs qs us s1 assume b: "bits_word s ls w A" "bits_word s rs w B" and 1: "store_ok s1" "extends s s1"
    and u: "bits_word s1 us w (\<lambda>\<sigma>. nat (?u \<sigma>))"
  have nonneg: "0 \<le> ?u \<sigma>" for \<sigma> by (cases "?b \<sigma> = 0") simp_all
  have neg: "(2 ^ w - nat (?u \<sigma>)) mod 2 ^ w = word_of w (- ?u \<sigma>)" for \<sigma>
    using nonneg [of \<sigma>] bits_wordD(4) [OF u, of \<sigma>] word_of_int [of w "nat (?u \<sigma>)"] by (intro word_of_neg) simp
  have bw: "word_of w (?b \<sigma>) = B \<sigma>" for \<sigma> by (rule word_of_signed [OF word_term_width(3) [OF s r]])
  note signs = b [THEN sign_ok [OF s _ w], THEN denotes_extends, OF 1(2)] and r1 = bits_word_extends [OF b(2) 1(2)]
  show "op_ok (bind_op (is_zero_bits us) (\<lambda>z. bind_op (negate_bits us) (\<lambda>nu. bind_op (sum_bits nu rs) (\<lambda>np. bind_op (sum_bits us rs) (\<lambda>pn.
      bind_op (term_not (last ls)) (\<lambda>n. bind_op (term_not (last rs)) (\<lambda>m. bind_op (term_and [n, m]) (\<lambda>both.
      bind_op (term_and [last ls, m]) (\<lambda>dn. bind_op (term_and [n, last rs]) (\<lambda>dp.
      bind_op (select_bits dp pn nu) (\<lambda>r1. bind_op (select_bits dn np r1) (\<lambda>r2. bind_op (select_bits both us r2) (\<lambda>r3.
      make_from (select_bits z us r3)))))))))))))) s1 ?Q"
  proof (rule op_ok_bind [OF is_zero_ok [OF 1(1) u]], rule op_ok_bind)
    fix z s2 assume 2: "store_ok s2" "extends s1 s2" "denotes s2 z (\<lambda>\<sigma>. nat (?u \<sigma>) = 0)"
    note u2 = bits_word_extends [OF u 2(2)] and r2 = bits_word_extends [OF r1 2(2)] and signs2 = signs [THEN denotes_extends, OF 2(2)]
    show "op_ok (negate_bits us) s2 (\<lambda>r s'. bits_word s' r w (\<lambda>\<sigma>. word_of w (- ?u \<sigma>)))"
      using negate_bits_ok [OF 2(1) u2 w] by (simp only: neg)
    fix nu s3 assume 3: "store_ok s3" "extends s2 s3" "bits_word s3 nu w (\<lambda>\<sigma>. word_of w (- ?u \<sigma>))"
    note u3 = bits_word_extends [OF u2 3(2)] and r3 = bits_word_extends [OF r2 3(2)] and signs3 = signs2 [THEN denotes_extends, OF 3(2)]
    show "op_ok (bind_op (sum_bits nu rs) (\<lambda>np. bind_op (sum_bits us rs) (\<lambda>pn.
      bind_op (term_not (last ls)) (\<lambda>n. bind_op (term_not (last rs)) (\<lambda>m. bind_op (term_and [n, m]) (\<lambda>both.
      bind_op (term_and [last ls, m]) (\<lambda>dn. bind_op (term_and [n, last rs]) (\<lambda>dp.
      bind_op (select_bits dp pn nu) (\<lambda>r1. bind_op (select_bits dn np r1) (\<lambda>r2. bind_op (select_bits both us r2) (\<lambda>r3.
      make_from (select_bits z us r3)))))))))))) s3 ?Q"
    proof (rule op_ok_bind [OF sum_bits_ok [OF 3(1,3) r3]], rule op_ok_bind)
      fix np s4 assume 4: "store_ok s4" "extends s3 s4" "bits_word s4 np w (\<lambda>\<sigma>. (word_of w (- ?u \<sigma>) + B \<sigma>) mod 2 ^ w)"
      show "op_ok (sum_bits us rs) s4 (\<lambda>ts s'. bits_word s' ts w (\<lambda>\<sigma>. (nat (?u \<sigma>) + B \<sigma>) mod 2 ^ w))"
        by (rule sum_bits_ok [OF 4(1) bits_word_extends [OF u3 4(2)] bits_word_extends [OF r3 4(2)]])
      fix pn s5 assume 5: "store_ok s5" "extends s4 s5" "bits_word s5 pn w (\<lambda>\<sigma>. (nat (?u \<sigma>) + B \<sigma>) mod 2 ^ w)"
      note e = extends_trans [OF 4(2) 5(2)]
      show "op_ok (bind_op (term_not (last ls)) (\<lambda>n. bind_op (term_not (last rs)) (\<lambda>m. bind_op (term_and [n, m]) (\<lambda>both.
        bind_op (term_and [last ls, m]) (\<lambda>dn. bind_op (term_and [n, last rs]) (\<lambda>dp.
        bind_op (select_bits dp pn nu) (\<lambda>r1. bind_op (select_bits dn np r1) (\<lambda>r2. bind_op (select_bits both us r2) (\<lambda>r3.
        make_from (select_bits z us r3)))))))))) s5 ?Q"
      proof (rule sign_cases_ok [OF 5(1) signs3 [THEN denotes_extends, OF e]])
        fix both dn dp s6 assume 6: "store_ok s6" "extends s5 s6"
          "denotes s6 both (\<lambda>\<sigma>. \<not> ?a \<sigma> < 0 \<and> \<not> ?b \<sigma> < 0)" "denotes s6 dn (\<lambda>\<sigma>. ?a \<sigma> < 0 \<and> \<not> ?b \<sigma> < 0)"
          "denotes s6 dp (\<lambda>\<sigma>. \<not> ?a \<sigma> < 0 \<and> ?b \<sigma> < 0)"
        note e6 = extends_trans [OF e 6(2)]
        have v: "(if nat (?u \<sigma>) = 0 then nat (?u \<sigma>) else if \<not> ?a \<sigma> < 0 \<and> \<not> ?b \<sigma> < 0 then nat (?u \<sigma>)
          else if ?a \<sigma> < 0 \<and> \<not> ?b \<sigma> < 0 then (word_of w (- ?u \<sigma>) + B \<sigma>) mod 2 ^ w
          else if \<not> ?a \<sigma> < 0 \<and> ?b \<sigma> < 0 then (nat (?u \<sigma>) + B \<sigma>) mod 2 ^ w else word_of w (- ?u \<sigma>))
          = word_of w (?a \<sigma> mod ?b \<sigma>)" for \<sigma>
          using bvsmod_value [OF refl bits_wordD(4) [OF u, of \<sigma>]] by (simp only: bw)
        show "op_ok (bind_op (select_bits dp pn nu) (\<lambda>r1. bind_op (select_bits dn np r1) (\<lambda>r2. bind_op (select_bits both us r2) (\<lambda>r3.
            make_from (select_bits z us r3))))) s6 ?Q"
          using choose_word_ok [OF 6(1) denotes_extends [OF 2(3) extends_trans [OF 3(2) e6]] 6(3-5) bits_word_extends [OF u3 e6]
            bits_word_extends [OF 4(3) extends_trans [OF 5(2) 6(2)]] bits_word_extends [OF 5(3) 6(2)] bits_word_extends [OF 3(3) e6] w]
          by (simp only: v)
      qed
    qed
  qed
qed

subsection \<open>Comparisons\<close>

lemma bvult_ok:
  assumes s: "store_ok s" and l: "word_term s l w A" and r: "word_term s r w B"
  shows "op_ok (bvult l r) s (\<lambda>t s'. denotes s' t (\<lambda>\<sigma>. A \<sigma> < B \<sigma>))"
  unfolding bvult_def by (intro with_pair_ok [OF s l r] less_than_ok [OF s])

lemma bvule_ok:
  assumes s: "store_ok s" and l: "word_term s l w A" and r: "word_term s r w B"
  shows "op_ok (bvule l r) s (\<lambda>t s'. denotes s' t (\<lambda>\<sigma>. A \<sigma> \<le> B \<sigma>))"
  unfolding bvule_def
  by (rule op_ok_bind [OF bvult_ok [OF s r l]]) (auto dest: term_not_ok simp: not_less)

lemma signed_less:
  assumes "a < 2 ^ w" "b < 2 ^ w"
  shows "(if (signed_value w a < 0) \<noteq> (signed_value w b < 0) then signed_value w a < 0 else a < b) \<longleftrightarrow> signed_value w a < signed_value w b"
proof -
  define m :: int where "m = 2 ^ w"
  have "signed_value w v = int v - m \<and> signed_value w v < 0 \<or> signed_value w v = int v \<and> 0 \<le> signed_value w v" "int v < m"
    if "v < 2 ^ w" for v using that by (simp_all add: signed_value_def m_def)
  from this [OF assms(1)] this [OF assms(2)] show ?thesis by (elim disjE conjE) simp_all
qed

lemma bvslt_ok:
  assumes s: "store_ok s" and l: "word_term s l w A" and r: "word_term s r w B"
  shows "op_ok (bvslt l r) s (\<lambda>t s'. denotes s' t (\<lambda>\<sigma>. signed_value w (A \<sigma>) < signed_value w (B \<sigma>)))"
  unfolding bvslt_def
proof (rule with_pair_ok [OF s l r])
  let ?a = "\<lambda>\<sigma>. signed_value w (A \<sigma>) < 0" and ?b = "\<lambda>\<sigma>. signed_value w (B \<sigma>) < 0"
  note w = word_term_width(2) [OF s l]
  fix ls rs assume b: "bits_word s ls w A" "bits_word s rs w B"
  note signs = b [THEN sign_ok [OF s _ w]]
  show "op_ok (bind_op (term_xor (last ls) (last rs)) (\<lambda>d. bind_op (unsigned_less_than_bits ls rs) (\<lambda>lt. term_ite d (last ls) lt))) s
      (\<lambda>t s'. denotes s' t (\<lambda>\<sigma>. signed_value w (A \<sigma>) < signed_value w (B \<sigma>)))"
  proof (rule op_ok_bind [OF xor_iff_ok(1) [OF s signs]], rule op_ok_bind)
    fix d s1 assume 1: "store_ok s1" "extends s s1" "denotes s1 d (\<lambda>\<sigma>. ?a \<sigma> \<noteq> ?b \<sigma>)"
    show "op_ok (unsigned_less_than_bits ls rs) s1 (\<lambda>t s'. denotes s' t (\<lambda>\<sigma>. A \<sigma> < B \<sigma>))"
      by (rule less_than_ok [OF 1(1) b [THEN bits_word_extends, OF 1(2)]])
    fix lt s2 assume 2: "store_ok s2" "extends s1 s2" "denotes s2 lt (\<lambda>\<sigma>. A \<sigma> < B \<sigma>)"
    show "op_ok (term_ite d (last ls) lt) s2 (\<lambda>t s'. denotes s' t (\<lambda>\<sigma>. signed_value w (A \<sigma>) < signed_value w (B \<sigma>)))"
      using term_ite_ok [OF 2(1) denotes_extends [OF 1(3) 2(2)] denotes_extends [OF signs(1) extends_trans [OF 1(2) 2(2)]] 2(3)]
      by (simp only: signed_less [OF bits_wordD(4) [OF b(1)] bits_wordD(4) [OF b(2)]])
  qed
qed

lemma bvsle_ok:
  assumes s: "store_ok s" and l: "word_term s l w A" and r: "word_term s r w B"
  shows "op_ok (bvsle l r) s (\<lambda>t s'. denotes s' t (\<lambda>\<sigma>. signed_value w (A \<sigma>) \<le> signed_value w (B \<sigma>)))"
  unfolding bvsle_def
  by (rule op_ok_bind [OF bvslt_ok [OF s r l]]) (auto dest: term_not_ok simp: not_less)

subsection \<open>Overflow\<close>

text \<open>The integers that \<open>w\<close> bits represent in two's complement.\<close>

definition fits_signed :: "nat \<Rightarrow> int \<Rightarrow> bool" where
  "fits_signed w x \<longleftrightarrow> - (2 ^ (w - 1)) \<le> x \<and> x < 2 ^ (w - 1)"

lemma signed_value_word_of:
  assumes "0 < w" "- (2 ^ w) \<le> x" "x < 2 ^ w"
  shows "signed_value w (word_of w x) = (if fits_signed w x then x else if x < 0 then x + 2 ^ w else x - 2 ^ w)"
proof -
  have p: "(2 :: int) ^ w = 2 * 2 ^ (w - 1)" using assms(1) by (cases w) simp_all
  have "x mod 2 ^ w = (if x < 0 then x + 2 ^ w else x)"
    using assms mod_pos_pos_trivial [of "x + 2 ^ w" "2 ^ w"] mod_pos_pos_trivial [of x "2 ^ w"] by auto
  moreover have "2 ^ (w - 1) \<le> word_of w x \<longleftrightarrow> 2 ^ (w - 1) \<le> x mod 2 ^ w"
    by (metis int_word_of of_nat_le_iff of_nat_numeral of_nat_power)
  ultimately show ?thesis using p assms by (auto simp: signed_value_def fits_signed_def)
qed

lemma overflow_signs:
  assumes w: "0 < w" and a: "a < 2 ^ w" and b: "b < 2 ^ w"
  defines "x \<equiv> signed_value w a" and "y \<equiv> signed_value w b"
  shows "((x < 0) = (y < 0) \<and> (x < 0) \<noteq> (signed_value w ((a + b) mod 2 ^ w) < 0)) \<longleftrightarrow> \<not> fits_signed w (x + y)"
    "((x < 0) \<noteq> (y < 0) \<and> (x < 0) \<noteq> (signed_value w (word_of w (int a - int b)) < 0)) \<longleftrightarrow> \<not> fits_signed w (x - y)"
proof -
  have p: "(2 :: int) ^ w = 2 * 2 ^ (w - 1)" "(0 :: int) < 2 ^ (w - 1)" using w by (cases w, simp_all)
  note bounds = signed_value_bounds [OF w a, folded x_def] signed_value_bounds [OF w b, folded y_def]
  have r: "x + y < 2 ^ w" "- (2 ^ w) \<le> x + y" "x - y < 2 ^ w" "- (2 ^ w) \<le> x - y" using bounds p by linarith+
  have "a = word_of w x" "b = word_of w y" using word_of_signed [OF a] word_of_signed [OF b] by (simp_all add: x_def y_def)
  then have e: "(a + b) mod 2 ^ w = word_of w (x + y)" "word_of w (int a - int b) = word_of w (x - y)"
    by (simp_all add: word_of_eq_iff zmod_int mod_add_eq mod_diff_eq)
  show "((x < 0) = (y < 0) \<and> (x < 0) \<noteq> (signed_value w ((a + b) mod 2 ^ w) < 0)) \<longleftrightarrow> \<not> fits_signed w (x + y)"
    unfolding e signed_value_word_of [OF w r(2,1)] using bounds p by (auto simp: fits_signed_def)
  show "((x < 0) \<noteq> (y < 0) \<and> (x < 0) \<noteq> (signed_value w (word_of w (int a - int b)) < 0)) \<longleftrightarrow> \<not> fits_signed w (x - y)"
    unfolding e signed_value_word_of [OF w r(4,3)] using bounds p by (auto simp: fits_signed_def)
qed

lemma split_word:
  assumes "bits_word s ts w V" "n \<le> w"
  shows "bits_word s (take n ts) n (\<lambda>\<sigma>. V \<sigma> mod 2 ^ n)" "bits_word s (drop n ts) (w - n) (\<lambda>\<sigma>. V \<sigma> div 2 ^ n)"
proof -
  have ts: "take n ts @ drop n ts = ts" by simp
  have ok: "bits_ok s (take n ts)" "bits_ok s (drop n ts)" using bits_wordD(1) [OF assms(1)] ts bits_ok_simps(3) by metis+
  have l: "length (take n ts) = n" using bits_wordD(2) [OF assms(1)] assms(2) by simp
  have "V \<sigma> = word_val s (take n ts) \<sigma> + 2 ^ n * word_val s (drop n ts) \<sigma>" for \<sigma>
    using word_val_simps(3) [of s "take n ts" "drop n ts" \<sigma>] bits_wordD(3) [OF assms(1)] l ts by simp
  moreover have "word_val s (take n ts) \<sigma> < 2 ^ n" for \<sigma> using word_val_less [of s "take n ts" \<sigma>] l by simp
  ultimately have "V \<sigma> mod 2 ^ n = word_val s (take n ts) \<sigma>" "V \<sigma> div 2 ^ n = word_val s (drop n ts) \<sigma>" for \<sigma> by simp_all
  then show "bits_word s (take n ts) n (\<lambda>\<sigma>. V \<sigma> mod 2 ^ n)" "bits_word s (drop n ts) (w - n) (\<lambda>\<sigma>. V \<sigma> div 2 ^ n)"
    using ok l bits_wordD(2) [OF assms(1)] by (simp_all add: bits_word_def)
qed

lemma minimum_bits: "0 < w \<Longrightarrow> v < 2 ^ w \<Longrightarrow> signed_value w v < 0 \<and> v mod 2 ^ (w - 1) = 0 \<longleftrightarrow> signed_value w v = - (2 ^ (w - 1))"
proof -
  assume "0 < w" "v < 2 ^ w"
  then obtain n where w: "w = Suc n" by (cases w) simp_all
  have v: "v < 2 * 2 ^ n" using \<open>v < 2 ^ w\<close> w by simp
  have "v mod 2 ^ n = 0 \<longleftrightarrow> v = 2 ^ n" if "2 ^ n \<le> v"
  proof -
    have "v mod 2 ^ n = v - 2 ^ n" using that v by (metis le_mod_geq mod_less less_diff_conv2 mult_2)
    then show ?thesis using that by auto
  qed
  moreover have "int v = 2 ^ n \<longleftrightarrow> v = 2 ^ n" by (metis of_nat_eq_iff of_nat_numeral of_nat_power)
  moreover have "int v \<noteq> - (2 ^ n)"
  proof -
    have "(0 :: int) < 2 ^ n" by simp
    then show ?thesis by linarith
  qed
  ultimately show ?thesis using v w by (auto simp: signed_value_def)
qed

lemma bvnego_ok:
  assumes s: "store_ok s" and t: "word_term s t w V"
  shows "op_ok (bvnego t) s (\<lambda>r s'. denotes s' r (\<lambda>\<sigma>. signed_value w (V \<sigma>) = - (2 ^ (w - 1))))"
  unfolding bvnego_def
proof (rule bits_of_ok [OF s t])
  note w = word_term_width(2) [OF s t]
  fix bits assume b: "bits_word s bits w V"
  have low: "bits_word s (butlast bits) (w - 1) (\<lambda>\<sigma>. V \<sigma> mod 2 ^ (w - 1))"
    using split_word(1) [OF b, of "w - 1"] bits_wordD(2) [OF b] by (simp add: butlast_conv_take)
  show "op_ok (bind_op (is_zero_bits (butlast bits)) (\<lambda>z. term_and [last bits, z])) s
      (\<lambda>r s'. denotes s' r (\<lambda>\<sigma>. signed_value w (V \<sigma>) = - (2 ^ (w - 1))))"
  proof (rule op_ok_bind [OF is_zero_ok [OF s low]])
    fix z s1 assume 1: "store_ok s1" "extends s s1" "denotes s1 z (\<lambda>\<sigma>. V \<sigma> mod 2 ^ (w - 1) = 0)"
    show "op_ok (term_and [last bits, z]) s1 (\<lambda>r s'. denotes s' r (\<lambda>\<sigma>. signed_value w (V \<sigma>) = - (2 ^ (w - 1))))"
      using term_and2_ok [OF 1(1) denotes_extends [OF sign_ok [OF s b w] 1(2)] 1(3)]
      by (simp only: minimum_bits [OF w word_term_width(3) [OF s t]])
  qed
qed

lemma bvuaddo_ok:
  assumes s: "store_ok s" and l: "word_term s l w A" and r: "word_term s r w B"
  shows "op_ok (bvuaddo l r) s (\<lambda>t s'. denotes s' t (\<lambda>\<sigma>. 2 ^ w \<le> A \<sigma> + B \<sigma>))"
  unfolding bvuaddo_def
proof (rule with_pair_ok [OF s l r])
  fix ls rs assume "bits_word s ls w A" "bits_word s rs w B"
  from add_bits_ok [OF s this]
  show "op_ok (bind_op (add_bits ls rs) (\<lambda>(_, carry). ret carry)) s (\<lambda>t s'. denotes s' t (\<lambda>\<sigma>. 2 ^ w \<le> A \<sigma> + B \<sigma>))"
    by (rule op_ok_bind) (auto intro: op_ok_ret)
qed

text \<open>The end of both signed overflows: the inputs are related, and the result has another sign than the first.\<close>

lemma sign_change_ok:
  assumes s: "store_ok s" and l: "denotes s a F" and r: "denotes s c H" and m: "op_ok m s (\<lambda>t s'. denotes s' t R)"
    and v: "\<And>\<sigma>. R \<sigma> \<and> F \<sigma> \<noteq> H \<sigma> \<longleftrightarrow> P \<sigma>"
  shows "op_ok (bind_op m (\<lambda>related. bind_op (term_xor a c) (\<lambda>changed. term_and [related, changed]))) s (\<lambda>t s'. denotes s' t P)"
proof (rule op_ok_bind [OF m], rule op_ok_bind)
  fix d s1 assume 1: "store_ok s1" "extends s s1" "denotes s1 d R"
  show "op_ok (term_xor a c) s1 (\<lambda>t s'. denotes s' t (\<lambda>\<sigma>. F \<sigma> \<noteq> H \<sigma>))"
    by (rule xor_iff_ok(1) [OF 1(1) denotes_extends [OF l 1(2)] denotes_extends [OF r 1(2)]])
  fix x s2 assume 2: "store_ok s2" "extends s1 s2" "denotes s2 x (\<lambda>\<sigma>. F \<sigma> \<noteq> H \<sigma>)"
  show "op_ok (term_and [d, x]) s2 (\<lambda>t s'. denotes s' t P)"
    using term_and2_ok [OF 2(1) denotes_extends [OF 1(3) 2(2)] 2(3)] by (simp only: v)
qed

lemma bvsaddo_ok:
  assumes s: "store_ok s" and l: "word_term s l w A" and r: "word_term s r w B"
  shows "op_ok (bvsaddo l r) s (\<lambda>t s'. denotes s' t (\<lambda>\<sigma>. \<not> fits_signed w (signed_value w (A \<sigma>) + signed_value w (B \<sigma>))))"
  unfolding bvsaddo_def
proof (rule with_pair_ok [OF s l r], rule op_ok_bind [OF sum_bits_ok [OF s]], assumption, assumption)
  note w = word_term_width(2) [OF s l]
  fix ls rs result s1 assume b: "bits_word s ls w A" "bits_word s rs w B"
    and 1: "store_ok s1" "extends s s1" "bits_word s1 result w (\<lambda>\<sigma>. (A \<sigma> + B \<sigma>) mod 2 ^ w)"
  note signs = b [THEN sign_ok [OF s _ w], THEN denotes_extends, OF 1(2)]
  show "op_ok (bind_op (term_iff (last ls) (last rs)) (\<lambda>same. bind_op (term_xor (last ls) (last result)) (\<lambda>changed. term_and [same, changed]))) s1
      (\<lambda>t s'. denotes s' t (\<lambda>\<sigma>. \<not> fits_signed w (signed_value w (A \<sigma>) + signed_value w (B \<sigma>))))"
    by (rule sign_change_ok [OF 1(1) signs(1) sign_ok [OF 1(1,3) w] xor_iff_ok(2) [OF 1(1) signs]
      overflow_signs(1) [OF w word_term_width(3) [OF s l] word_term_width(3) [OF s r]]])
qed

lemma bvssubo_ok:
  assumes s: "store_ok s" and l: "word_term s l w A" and r: "word_term s r w B"
  shows "op_ok (bvssubo l r) s (\<lambda>t s'. denotes s' t (\<lambda>\<sigma>. \<not> fits_signed w (signed_value w (A \<sigma>) - signed_value w (B \<sigma>))))"
  unfolding bvssubo_def
proof (rule with_pair_ok [OF s l r], rule op_ok_bind [OF subtract_bits_ok [OF s _ _ word_term_width(2) [OF s l]]], assumption, assumption)
  note w = word_term_width(2) [OF s l]
  fix ls rs result s1 assume b: "bits_word s ls w A" "bits_word s rs w B"
    and 1: "store_ok s1" "extends s s1" "bits_word s1 result w (\<lambda>\<sigma>. (A \<sigma> + (2 ^ w - B \<sigma>)) mod 2 ^ w)"
  note signs = b [THEN sign_ok [OF s _ w], THEN denotes_extends, OF 1(2)]
  have res: "bits_word s1 result w (\<lambda>\<sigma>. word_of w (int (A \<sigma>) - int (B \<sigma>)))"
    using 1(3) by (simp only: difference_value [OF word_term_width(3) [OF s r]])
  show "op_ok (bind_op (term_xor (last ls) (last rs)) (\<lambda>d. bind_op (term_xor (last ls) (last result)) (\<lambda>changed. term_and [d, changed]))) s1
      (\<lambda>t s'. denotes s' t (\<lambda>\<sigma>. \<not> fits_signed w (signed_value w (A \<sigma>) - signed_value w (B \<sigma>))))"
    by (rule sign_change_ok [OF 1(1) signs(1) sign_ok [OF 1(1) res w] xor_iff_ok(1) [OF 1(1) signs]
      overflow_signs(2) [OF w word_term_width(3) [OF s l] word_term_width(3) [OF s r]]])
qed

text \<open>Whether all bits are equal to a given one.\<close>

lemma each_equal_ok:
  assumes s: "store_ok s" and t: "bits_word s ts w V" and c: "denotes s c f"
  shows "op_ok (each_op (\<lambda>b. term_iff b c) ts) s
    (\<lambda>rs s'. bits_ok s' rs \<and> (\<forall>\<sigma>. (\<forall>r \<in> set rs. term_value s' \<sigma> r) = (V \<sigma> = (if f \<sigma> then 2 ^ w - 1 else 0))))"
proof (rule op_ok_conseq [OF each_op_ok [OF s, where g = "\<lambda>t \<sigma>. term_value s \<sigma> t = f \<sigma>"]])
  fix b s1 assume "b \<in> set ts" "store_ok s1" "extends s s1"
  then show "op_ok (term_iff b c) s1 (\<lambda>t s'. denotes s' t (\<lambda>\<sigma>. term_value s \<sigma> b = f \<sigma>))"
    using bits_wordD(1) [OF t] by (intro xor_iff_ok(2) denotes_member denotes_extends [OF c])
next
  fix rs s1 assume 1: "bits_ok s1 rs \<and> length rs = length ts \<and> (\<forall>\<sigma>. truths s1 \<sigma> rs = map (\<lambda>b. term_value s \<sigma> b = f \<sigma>) ts)"
  have "(\<forall>r \<in> set rs. term_value s1 \<sigma> r) \<longleftrightarrow> V \<sigma> = (if f \<sigma> then 2 ^ w - 1 else 0)" for \<sigma>
  proof -
    have l: "length ts = w" and v: "V \<sigma> = bits_nat (truths s \<sigma> ts)" using bits_wordD(2,3) [OF t] by (simp_all add: word_val_def)
    have "(\<forall>r \<in> set rs. term_value s1 \<sigma> r) \<longleftrightarrow> (\<forall>b \<in> set (truths s1 \<sigma> rs). b)" by auto
    also have "\<dots> \<longleftrightarrow> truths s \<sigma> ts = map (\<lambda>_. f \<sigma>) ts" using 1 by auto
    also have "\<dots> \<longleftrightarrow> truths s \<sigma> ts = replicate w (f \<sigma>)" by (simp only: map_replicate_const l)
    also have "\<dots> \<longleftrightarrow> V \<sigma> = bits_nat (replicate w (f \<sigma>))" unfolding v using l by (simp add: bits_nat_inj)
    finally show ?thesis by (cases "f \<sigma>") simp_all
  qed
  then show "bits_ok s1 rs \<and> (\<forall>\<sigma>. (\<forall>r \<in> set rs. term_value s1 \<sigma> r) = (V \<sigma> = (if f \<sigma> then 2 ^ w - 1 else 0)))"
    using 1 by simp
qed

text \<open>The constant \<open>True\<close> of the code is a term of its own at any state.\<close>

lemma each_op_cong: "store_ok s \<Longrightarrow> (\<And>x s'. store_ok s' \<Longrightarrow> f x s' = g x s') \<Longrightarrow>
  (\<And>x s'. x \<in> set xs \<Longrightarrow> store_ok s' \<Longrightarrow> extends s s' \<Longrightarrow> op_ok (g x) s' (\<lambda>_ _. True)) \<Longrightarrow> each_op f xs s = each_op g xs s"
proof (induction xs arbitrary: s)
  case (Cons x xs)
  have ok: "op_ok (g x) s (\<lambda>_ _. True)" using Cons.prems(1,3) by simp
  show ?case
  proof (cases "g x s")
    case (Pair r s1)
    note d = op_okD [OF ok Pair]
    have "each_op f xs s1 = each_op g xs s1"
      using Cons.prems(2,3) extends_trans [OF d(2)] by (intro Cons.IH [OF d(1)]) simp_all
    then show ?thesis using Pair Cons.prems(1,2) by (cases r) (simp_all add: bind_op_def)
  qed
qed simp

lemma all_true_ok:
  assumes s: "store_ok s" and t: "bits_word s ts w V"
  shows "op_ok (each_op (\<lambda>b s. term_iff b (bool_constant True s) s) ts) s
    (\<lambda>rs s'. bits_ok s' rs \<and> (\<forall>\<sigma>. (\<forall>r \<in> set rs. term_value s' \<sigma> r) = (V \<sigma> = 2 ^ w - 1)))"
proof -
  let ?c = "bool_constant True s"
  have c: "denotes s ?c (\<lambda>_. True)" by (rule constant_ok [OF s])
  have "op_ok (term_iff b ?c) s1 (\<lambda>_ _. True)" if "b \<in> set ts" "store_ok s1" "extends s s1" for b s1
    using xor_iff_ok(2) [OF that(2) denotes_member [OF bits_wordD(1) [OF t] that(1,3)] denotes_extends [OF c that(3)]]
    by (rule op_ok_conseq) simp
  then have "each_op (\<lambda>b s. term_iff b (bool_constant True s) s) ts s = each_op (\<lambda>b. term_iff b ?c) ts s"
    by (intro each_op_cong [OF s]) (simp_all add: constant_extends [OF s])
  then show ?thesis using each_equal_ok [OF s t c] by (simp add: op_ok_def)
qed

lemma bvsdivo_ok:
  assumes s: "store_ok s" and l: "word_term s l w A" and r: "word_term s r w B"
  shows "op_ok (bvsdivo l r) s (\<lambda>t s'. denotes s' t (\<lambda>\<sigma>. signed_value w (A \<sigma>) = - (2 ^ (w - 1)) \<and> B \<sigma> = 2 ^ w - 1))"
  unfolding bvsdivo_def
proof (rule op_ok_asked)
  let ?Q = "\<lambda>t s'. denotes s' t (\<lambda>\<sigma>. signed_value w (A \<sigma>) = - (2 ^ (w - 1)) \<and> B \<sigma> = 2 ^ w - 1)"
  show "require_same_bv_width l r ''bvsdivo'' s = Inr w"
    using word_term_width(1) [OF s l] word_term_width(1) [OF s r] by (simp add: require_same_bv_width_def)
  show "op_ok (bind_op (bvnego l) (\<lambda>minimum. bits_of r (\<lambda>rb. bind_op (each_op (\<lambda>b s. term_iff b (bool_constant True s) s) rb) (\<lambda>all_ones.
      bind_op (term_and all_ones) (\<lambda>negative_one. term_and [minimum, negative_one]))))) s ?Q"
  proof (rule op_ok_bind [OF bvnego_ok [OF s l]], rule bits_of_ok)
    fix n s1 assume 1: "store_ok s1" "extends s s1" "denotes s1 n (\<lambda>\<sigma>. signed_value w (A \<sigma>) = - (2 ^ (w - 1)))"
    show "store_ok s1" "word_term s1 r w B" using 1 word_term_extends [OF r] by simp_all
    fix rb assume b: "bits_word s1 rb w B"
    show "op_ok (bind_op (each_op (\<lambda>b s. term_iff b (bool_constant True s) s) rb) (\<lambda>all_ones.
        bind_op (term_and all_ones) (\<lambda>negative_one. term_and [n, negative_one]))) s1 ?Q"
    proof (rule op_ok_bind [OF all_true_ok [OF 1(1) b]], rule op_ok_bind)
      fix ones s2 assume 2: "store_ok s2" "extends s1 s2" "bits_ok s2 ones \<and> (\<forall>\<sigma>. (\<forall>t \<in> set ones. term_value s2 \<sigma> t) = (B \<sigma> = 2 ^ w - 1))"
      show "op_ok (term_and ones) s2 (\<lambda>t s'. denotes s' t (\<lambda>\<sigma>. B \<sigma> = 2 ^ w - 1))"
        using term_and_ok [OF 2(1), of ones] 2(3) by (simp add: bits_ok_def)
      fix m s3 assume 3: "store_ok s3" "extends s2 s3" "denotes s3 m (\<lambda>\<sigma>. B \<sigma> = 2 ^ w - 1)"
      show "op_ok (term_and [n, m]) s3 ?Q"
        by (rule term_and2_ok [OF 3(1) denotes_extends [OF 1(3) extends_trans [OF 2(2) 3(2)]] 3(3)])
    qed
  qed
qed

lemma sign_extended_word:
  assumes b: "bits_word s bits w V" and w: "0 < w" and n: "w \<le> n"
  shows "bits_word s (resize n (last bits) bits) n (\<lambda>\<sigma>. word_of n (signed_value w (V \<sigma>)))"
proof -
  obtain k where k: "n = w + k" using n le_Suc_ex by blast
  have l: "length bits = w" and ne: "bits \<noteq> []" using b w by (auto simp: bits_word_def)
  have d: "term_value s \<sigma> (last bits) = (2 ^ (w - 1) \<le> V \<sigma>)" "bool_term s (last bits)" for \<sigma>
    using denotes_last(1) [OF b w] by (simp_all add: denotes_def)
  have "word_val s (bits @ replicate k (last bits)) \<sigma> = word_of n (signed_value w (V \<sigma>))" for \<sigma>
  proof -
    have v: "V \<sigma> < 2 ^ w" using bits_wordD(4) [OF b] .
    have "word_val s (bits @ replicate k (last bits)) \<sigma> = V \<sigma> + 2 ^ w * (if 2 ^ (w - 1) \<le> V \<sigma> then 2 ^ k - 1 else 0)"
      using d l bits_wordD(3) [OF b] by (simp add: word_val_def bits_nat_append map_replicate_const)
    moreover have "int (V \<sigma> + 2 ^ w * (2 ^ k - 1)) = (int (V \<sigma>) - 2 ^ w) mod 2 ^ n"
    proof -
      have "int (V \<sigma> + 2 ^ w * (2 ^ k - 1)) = int (V \<sigma>) - 2 ^ w + 2 ^ n" 
      proof -
        have "int (2 ^ k - 1) = 2 ^ k - 1" by (simp add: of_nat_diff)
        then show ?thesis unfolding of_nat_add of_nat_mult by (simp add: k power_add algebra_simps)
      qed
      moreover have "(0 :: int) \<le> int (V \<sigma>) - 2 ^ w + 2 ^ n" by (metis calculation of_nat_0_le_iff)
      moreover have "int (V \<sigma>) - 2 ^ w + 2 ^ n < 2 ^ n" using v by simp
      ultimately show ?thesis by (metis mod_add_self2 mod_pos_pos_trivial)
    qed
    moreover have "V \<sigma> = word_of n (int (V \<sigma>))"
    proof -
      have "V \<sigma> < 2 ^ n" using v n by (meson less_le_trans one_le_numeral power_increasing)
      then show ?thesis by simp
    qed
    ultimately show ?thesis by (simp add: signed_value_def word_of_eq_iff del: word_of_int)
  qed
  then show ?thesis using b l n d(2) by (auto simp: bits_word_def resize_def k bits_ok_def)
qed

lemma zero_extended_word:
  assumes s: "store_ok s" and b: "bits_word s bits w V" and n: "w \<le> n"
  shows "bits_word s (resize n (bool_constant False s) bits) n V"
proof -
  have "bits_word s (replicate (n - w) (bool_constant False s)) (n - w) (\<lambda>_. 0)" by (rule constant_word(1) [OF s])
  then show ?thesis using b n by (simp add: bits_word_def resize_def)
qed

lemma full_product_ok:
  assumes s: "store_ok s" and l: "word_term s l w A" and r: "word_term s r w B"
    and q: "w * w \<le> MAX_QUADRATIC_LOWERING_WORK"
    and f: "\<And>ls rs. bits_word s ls w A \<Longrightarrow> bits_word s rs w B \<Longrightarrow> op_ok (f w ls rs) s Q"
  shows "op_ok (full_product l r name f) s Q"
proof -
  have w: "w \<le> 4000"
  proof (rule ccontr)
    assume "\<not> w \<le> 4000"
    then have "4001 * 4001 \<le> w * w" by (intro mult_le_mono) simp_all
    then show False using q by (simp add: MAX_QUADRATIC_LOWERING_WORK_def)
  qed
  have "op_ok (bits_of l (\<lambda>lb. bits_of r (f w lb))) s Q" by (intro bits_of_ok [OF s l] bits_of_ok [OF s r] f)
  moreover have "require_same_bv_width l r name s = Inr w"
    using word_term_width(1) [OF s l] word_term_width(1) [OF s r] by (simp add: require_same_bv_width_def)
  ultimately show ?thesis using w q word_term_width(2) [OF s l]
    by (simp add: full_product_def op_ok_def bind_op_def asks_def check_quadratic_def check_width_def MAX_BITVECTOR_WIDTH_def)
qed

lemma bvumulo_ok:
  assumes s: "store_ok s" and l: "word_term s l w A" and r: "word_term s r w B" and q: "w * w \<le> MAX_QUADRATIC_LOWERING_WORK"
  shows "op_ok (bvumulo l r) s (\<lambda>t s'. denotes s' t (\<lambda>\<sigma>. 2 ^ w \<le> A \<sigma> * B \<sigma>))"
  unfolding bvumulo_def
proof (rule full_product_ok [OF s l r q])
  let ?Q = "\<lambda>t s'. denotes s' t (\<lambda>\<sigma>. 2 ^ w \<le> A \<sigma> * B \<sigma>)"
  fix ls rs assume b: "bits_word s ls w A" "bits_word s rs w B"
  let ?e = "resize (w * 2) (bool_constant False s)"
  have less: "A \<sigma> * B \<sigma> < 2 ^ (w * 2)" for \<sigma>
    using mult_strict_mono [OF bits_wordD(4) [OF b(1), of \<sigma>] bits_wordD(4) [OF b(2), of \<sigma>]]
    by (simp add: power_mult_distrib power_mult power2_eq_square)
  have "op_ok (bind_op (multiply_bits (?e ls) (?e rs) (w * 2)) (\<lambda>product. bind_op (is_zero_bits (drop w product)) term_not)) s ?Q"
  proof (rule op_ok_bind [OF multiply_bits_ok [OF s zero_extended_word [OF s b(1)] zero_extended_word [OF s b(2)]]])
    fix product s1 assume 1: "store_ok s1" "extends s s1" "bits_word s1 product (w * 2) (\<lambda>\<sigma>. A \<sigma> * B \<sigma> mod 2 ^ (w * 2))"
    have "bits_word s1 (drop w product) (w * 2 - w) (\<lambda>\<sigma>. (A \<sigma> * B \<sigma>) div 2 ^ w)"
      using split_word(2) [OF 1(3), of w] less by simp
    then show "op_ok (bind_op (is_zero_bits (drop w product)) term_not) s1 ?Q"
    proof (rule op_ok_bind [OF is_zero_ok [OF 1(1)]])
      fix z s2 assume 2: "store_ok s2" "extends s1 s2" "denotes s2 z (\<lambda>\<sigma>. A \<sigma> * B \<sigma> div 2 ^ w = 0)"
      show "op_ok (term_not z) s2 ?Q" using term_not_ok [OF 2(1,3)] by (simp add: div_eq_0_iff not_less)
    qed
  qed simp_all
  then show "op_ok (\<lambda>s. let extend = resize (w * 2) (bool_constant False s)
      in bind_op (multiply_bits (extend ls) (extend rs) (w * 2)) (\<lambda>product.
         bind_op (is_zero_bits (drop w product)) term_not) s) s ?Q" by (simp add: op_ok_def Let_def)
qed

lemma top_bit: "0 < w \<Longrightarrow> bit p (w - 1) \<longleftrightarrow> 2 ^ (w - 1) \<le> p mod 2 ^ w" for p :: nat
proof -
  assume "0 < w"
  then obtain n where w: "w = Suc n" by (cases w) simp_all
  let ?q = "p div 2 ^ w" and ?r = "p mod 2 ^ w" and ?h = "2 ^ n :: nat"
  have "p = ?q * (2 * ?h) + ?r" using div_mult_mod_eq [of p "2 ^ w"] by (simp add: w)
  then have "p div ?h = (?r + ?h * (2 * ?q)) div ?h" by (metis add.commute mult.assoc mult.commute)
  then have d: "p div ?h = 2 * ?q + ?r div ?h" by simp
  have "?r < 2 * ?h" using mod_less_divisor [of "2 ^ w" p] by (simp add: w)
  then have "?r div ?h < 2" by (simp add: less_mult_imp_div_less)
  moreover have "0 < ?r div ?h \<longleftrightarrow> ?h \<le> ?r" by (simp add: div_greater_zero_iff)
  moreover from calculation have "?r div ?h = 0 \<or> ?r div ?h = 1" by linarith
  ultimately have "odd (?r div ?h) \<longleftrightarrow> ?h \<le> ?r" by auto
  then show ?thesis using d by (simp add: bit_iff_odd w)
qed

lemma high_bits_fit:
  assumes w: "0 < w" and x: "- (2 ^ (w - 1)) \<le> x" "x < 2 ^ (w - 1)" and y: "- (2 ^ (w - 1)) \<le> y" "y < 2 ^ (w - 1)"
  shows "word_of (w * 2) (x * y) div 2 ^ w = (if bit (word_of (w * 2) (x * y)) (w - 1) then 2 ^ w - 1 else 0) \<longleftrightarrow> fits_signed w (x * y)"
proof -
  define h M z :: int where "h = 2 ^ (w - 1)" and "M = 2 ^ w" and "z = x * y"
  define p where "p = word_of (w * 2) z"
  define q r where "q = int (p div 2 ^ w)" and "r = int (p mod 2 ^ w)"
  have h: "1 \<le> h" "M = 2 * h" "h \<le> h * h" using w by (cases w; simp add: h_def M_def)+
  have "\<bar>x\<bar> \<le> h" "\<bar>y\<bar> \<le> h" using x y by (simp_all add: h_def)
  then have "\<bar>z\<bar> \<le> h * h" unfolding z_def abs_mult using h by (intro mult_mono) simp_all
  then have z: "- (h * h) \<le> z" "z \<le> h * h" by linarith+
  have MM: "(2 :: int) ^ (w * 2) = M * M" "M * M = 4 * (h * h)" using h by (simp_all add: M_def power_mult power2_eq_square)
  have P: "int p = (if z < 0 then z + M * M else z)"
  proof (cases "z < 0")
    case True
    have "(z + M * M) mod (M * M) = z + M * M" using True z h MM by (intro mod_pos_pos_trivial) linarith+
    then show ?thesis using True by (simp add: p_def MM(1))
  next
    case False
    have "z mod (M * M) = z" using False z h MM by (intro mod_pos_pos_trivial) linarith+
    then show ?thesis using False by (simp add: p_def MM(1))
  qed
  have pq: "int p = M * q + r" "0 \<le> r" "r < M"
    by (simp_all add: q_def r_def M_def zdiv_int zmod_int)
  have "fits_signed w z \<longleftrightarrow> (if h \<le> r then q = M - 1 else q = 0)"
  proof -
    have e: "q = M - 1 \<Longrightarrow> M * q = M * M - M" "q = 0 \<Longrightarrow> M * q = 0"
      by (simp_all only: right_diff_distrib mult_1_right mult_zero_right)
    have f: "fits_signed w z \<longleftrightarrow> - h \<le> z \<and> z < h" by (simp add: fits_signed_def h_def)
    have q: "q = int p div M" by (simp add: q_def M_def zdiv_int)
    consider "0 \<le> z" "z < h" | "z < 0" "- h \<le> z" | "h \<le> z" | "z < - h" by linarith
    then show ?thesis
    proof cases
      case 1
      then have "q = 0" using P h unfolding q by (simp add: div_pos_pos_trivial)
      then show ?thesis using e(2) pq P f 1 h by simp
    next
      case 2
      have "q = M - 1" unfolding q
      proof (rule int_div_pos_eq)
        show "int p = M * (M - 1) + (z + M)" using P 2 by (simp add: algebra_simps)
      qed (use 2 h in linarith)+
      then show ?thesis using e(1) pq P f 2 h by auto
    next
      case 3
      have "\<not> (h \<le> r \<and> q = M - 1)" "\<not> (r < h \<and> q = 0)" using e pq P 3 z h MM by auto
      then show ?thesis using f 3 by auto
    next
      case 4
      have "\<not> (h \<le> r \<and> q = M - 1)" "\<not> (r < h \<and> q = 0)" using e pq P 4 z h MM by auto
      then show ?thesis using f 4 by auto
    qed
  qed
  moreover have "p div 2 ^ w = 2 ^ w - 1 \<longleftrightarrow> q = M - 1"
  proof -
    have "int (2 ^ w - 1) = M - 1" by (simp add: M_def of_nat_diff)
    then show ?thesis unfolding q_def by (metis of_nat_eq_iff)
  qed
  moreover have "p div 2 ^ w = 0 \<longleftrightarrow> q = 0" by (simp add: q_def)
  moreover have "2 ^ (w - 1) \<le> p mod 2 ^ w \<longleftrightarrow> h \<le> r" unfolding r_def h_def
    by (metis of_nat_le_iff of_nat_numeral of_nat_power)
  ultimately show ?thesis unfolding p_def [symmetric] z_def [symmetric] top_bit [OF w] by simp
qed

lemma bvsmulo_ok:
  assumes s: "store_ok s" and l: "word_term s l w A" and r: "word_term s r w B" and q: "w * w \<le> MAX_QUADRATIC_LOWERING_WORK"
  shows "op_ok (bvsmulo l r) s (\<lambda>t s'. denotes s' t (\<lambda>\<sigma>. \<not> fits_signed w (signed_value w (A \<sigma>) * signed_value w (B \<sigma>))))"
  unfolding bvsmulo_def
proof (rule full_product_ok [OF s l r q])
  let ?z = "\<lambda>\<sigma>. signed_value w (A \<sigma>) * signed_value w (B \<sigma>)"
  let ?Q = "\<lambda>t s'. denotes s' t (\<lambda>\<sigma>. \<not> fits_signed w (?z \<sigma>))"
  note w = word_term_width(2) [OF s l]
  fix ls rs assume b: "bits_word s ls w A" "bits_word s rs w B"
  have n: "w \<le> w * 2" by simp
  note v = word_of_mult [of "w * 2"]
  show "op_ok (bind_op (multiply_bits (resize (w * 2) (last ls) ls) (resize (w * 2) (last rs) rs) (w * 2)) (\<lambda>product.
      bind_op (each_op (\<lambda>b. term_iff b (product ! (w - 1))) (drop w product)) (\<lambda>m. bind_op (term_and m) term_not))) s ?Q"
  proof (rule op_ok_bind [OF multiply_bits_ok [OF s sign_extended_word [OF b(1) w n] sign_extended_word [OF b(2) w n]]], unfold v)
    let ?p = "\<lambda>\<sigma>. word_of (w * 2) (?z \<sigma>)"
    fix ps s1 assume 1: "store_ok s1" "extends s s1" "bits_word s1 ps (w * 2) ?p"
    have len: "length ps = w * 2" "w - 1 < length ps" using bits_wordD(2) [OF 1(3)] w by simp_all
    have c: "denotes s1 (ps ! (w - 1)) (\<lambda>\<sigma>. bit (?p \<sigma>) (w - 1))"
    proof -
      have "bit (?p \<sigma>) (w - 1) = term_value s1 \<sigma> (ps ! (w - 1))" for \<sigma>
        using bits_nat_nth [of "w - 1" "truths s1 \<sigma> ps"] bits_wordD(3) [OF 1(3), of \<sigma>] len by (simp add: word_val_def)
      then show ?thesis using bits_wordD(1) [OF 1(3)] len(2) by (simp add: denotes_def bits_ok_def)
    qed
    have d: "bits_word s1 (drop w ps) w (\<lambda>\<sigma>. ?p \<sigma> div 2 ^ w)" using split_word(2) [OF 1(3) n] by simp
    show "op_ok (bind_op (each_op (\<lambda>b. term_iff b (ps ! (w - 1))) (drop w ps)) (\<lambda>m. bind_op (term_and m) term_not)) s1 ?Q"
    proof (rule op_ok_bind [OF each_equal_ok [OF 1(1) d c]])
      fix m s2 assume 2: "store_ok s2" "extends s1 s2" "bits_ok s2 m \<and> (\<forall>\<sigma>. (\<forall>t \<in> set m. term_value s2 \<sigma> t)
        = (?p \<sigma> div 2 ^ w = (if bit (?p \<sigma>) (w - 1) then 2 ^ w - 1 else 0)))"
      have "op_ok (term_and m) s2 (\<lambda>t s'. denotes s' t (\<lambda>\<sigma>. fits_signed w (?z \<sigma>)))"
        using term_and_ok [OF 2(1), of m] 2(3) signed_value_bounds [OF w word_term_width(3) [OF s l]]
          signed_value_bounds [OF w word_term_width(3) [OF s r]] high_bits_fit [OF w] by (simp add: bits_ok_def)
      then show "op_ok (bind_op (term_and m) term_not) s2 ?Q" by (rule op_ok_bind) (rule term_not_ok)
    qed
  qed
qed

end
