(* ===== verification/Smt_Shifts.thy ===== *)
theory Smt_Shifts
  imports Smt_Words
begin

section \<open>Moving bits, shifts and literals\<close>

text \<open>
  The values of the bit-vector constructors that move bits: concatenation, extraction, extension,
  rotation, and the shifts by a variable amount, which the code lowers to a layer of selections
  for each bit of the amount. Then the values of the literals, and the properties of the whole
  lowering over a store in which the operands stand for numbers that depend on the atoms.
\<close>

subsection \<open>Concatenation, extraction and extension\<close>

lemma op_ok_unit: "c = Inr () \<Longrightarrow> op_ok (f ()) s Q \<Longrightarrow> op_ok (bind_op (asks (\<lambda>_. c)) f) s Q"
  by (rule op_ok_asked)

lemma check_width_ok: "0 < n \<Longrightarrow> n \<le> MAX_BITVECTOR_WIDTH \<Longrightarrow> check_width n = Inr ()" "n \<le> MAX_BITVECTOR_WIDTH \<Longrightarrow> n \<le> u32_max"
  by (simp_all add: check_width_def MAX_BITVECTOR_WIDTH_def)

lemma bv_concat_ok:
  assumes s: "store_ok s" and l: "word_term s l v A" and r: "word_term s r w B" and n: "v + w \<le> MAX_BITVECTOR_WIDTH"
  shows "op_ok (bv_concat l r) s (\<lambda>t s'. word_term s' t (v + w) (\<lambda>\<sigma>. A \<sigma> * 2 ^ w + B \<sigma>))"
proof -
  note wd = word_term_width(1,2) [OF s l] word_term_width(1,2) [OF s r]
  have "op_ok (bits_of r (\<lambda>rbits. bits_of l (\<lambda>lbits. make_bitvec (rbits @ lbits)))) s
      (\<lambda>t s'. word_term s' t (v + w) (\<lambda>\<sigma>. A \<sigma> * 2 ^ w + B \<sigma>))"
  proof (rule bits_of_ok [OF s r], rule bits_of_ok [OF s l])
    fix rs ls assume "bits_word s rs w B" "bits_word s ls v A"
    then have "bits_word s (rs @ ls) (v + w) (\<lambda>\<sigma>. A \<sigma> * 2 ^ w + B \<sigma>)" by (simp add: bits_word_def mult.commute)
    then show "op_ok (make_bitvec (rs @ ls)) s (\<lambda>t s'. word_term s' t (v + w) (\<lambda>\<sigma>. A \<sigma> * 2 ^ w + B \<sigma>))"
      using wd by (intro make_bitvec_ok [OF s]) simp_all
  qed
  then show ?thesis unfolding bv_concat_def
    by (intro op_ok_width [OF wd(1)] op_ok_width [OF wd(3)] op_ok_if op_ok_unit) (use wd check_width_ok [of "v + w"] n in \<open>simp_all add: not_less\<close>)
qed

lemma bv_extract_ok:
  assumes s: "store_ok s" and t: "word_term s t w V" and n: "low \<le> high" "high < w"
  shows "op_ok (bv_extract t high low) s (\<lambda>t s'. word_term s' t (high + 1 - low) (\<lambda>\<sigma>. V \<sigma> div 2 ^ low mod 2 ^ (high + 1 - low)))"
proof -
  have "op_ok (bits_of t (\<lambda>bits. make_bitvec (take (high + 1 - low) (drop low bits)))) s
    (\<lambda>t s'. word_term s' t (high + 1 - low) (\<lambda>\<sigma>. V \<sigma> div 2 ^ low mod 2 ^ (high + 1 - low)))"
  proof (rule bits_of_ok [OF s t])
    fix bits assume "bits_word s bits w V"
    from split_word(1) [OF split_word(2) [OF this, of low], of "high + 1 - low"]
    show "op_ok (make_bitvec (take (high + 1 - low) (drop low bits))) s
        (\<lambda>t s'. word_term s' t (high + 1 - low) (\<lambda>\<sigma>. V \<sigma> div 2 ^ low mod 2 ^ (high + 1 - low)))"
      using n by (intro make_bitvec_ok [OF s]) simp_all
  qed
  then show ?thesis unfolding bv_extract_def
    using word_term_width(1) [OF s t] n by (intro op_ok_width op_ok_if) (simp_all add: not_le)
qed

lemma zero_extend_ok:
  assumes s: "store_ok s" and t: "word_term s t w V" and n: "w + amount \<le> MAX_BITVECTOR_WIDTH"
  shows "op_ok (zero_extend t amount) s (\<lambda>t s'. word_term s' t (w + amount) V)"
proof -
  note wd = word_term_width(1,2) [OF s t]
  have "op_ok (bits_of t (\<lambda>bits s. make_bitvec (resize (w + amount) (bool_constant False s) bits) s)) s
      (\<lambda>t s'. word_term s' t (w + amount) V)"
  proof (rule bits_of_ok [OF s t])
    fix bits assume "bits_word s bits w V"
    from make_bitvec_ok [OF s zero_extended_word [OF s this, of "w + amount"]] wd
    show "op_ok (\<lambda>s. make_bitvec (resize (w + amount) (bool_constant False s) bits) s) s (\<lambda>t s'. word_term s' t (w + amount) V)"
      by (simp add: op_ok_def)
  qed
  then show ?thesis unfolding zero_extend_def
    by (intro op_ok_width [OF wd(1)] op_ok_if op_ok_unit) (use wd check_width_ok [of "w + amount"] n in \<open>simp_all add: not_less\<close>)
qed

lemma sign_extend_ok:
  assumes s: "store_ok s" and t: "word_term s t w V" and n: "w + amount \<le> MAX_BITVECTOR_WIDTH"
  shows "op_ok (sign_extend t amount) s (\<lambda>t s'. word_term s' t (w + amount) (\<lambda>\<sigma>. word_of (w + amount) (signed_value w (V \<sigma>))))"
proof -
  note wd = word_term_width(1,2) [OF s t]
  have "op_ok (bits_of t (\<lambda>bits. make_bitvec (resize (w + amount) (bits ! (w - 1)) bits))) s
      (\<lambda>t s'. word_term s' t (w + amount) (\<lambda>\<sigma>. word_of (w + amount) (signed_value w (V \<sigma>))))"
  proof (rule bits_of_ok [OF s t])
    fix bits assume b: "bits_word s bits w V"
    then have "bits ! (w - 1) = last bits" using wd(2) by (auto simp: bits_word_def last_conv_nth)
    with make_bitvec_ok [OF s sign_extended_word [OF b wd(2), of "w + amount"]] wd(2)
    show "op_ok (make_bitvec (resize (w + amount) (bits ! (w - 1)) bits)) s
        (\<lambda>t s'. word_term s' t (w + amount) (\<lambda>\<sigma>. word_of (w + amount) (signed_value w (V \<sigma>))))" by simp
  qed
  then show ?thesis unfolding sign_extend_def
    by (intro op_ok_width [OF wd(1)] op_ok_if op_ok_unit) (use wd check_width_ok [of "w + amount"] n in \<open>simp_all add: not_less\<close>)
qed

subsection \<open>Rotation\<close>

lemma length_place_bits [simp]: "length (place_bits f i input bits) = length bits"
  by (induction f i input bits rule: place_bits.induct) simp_all

lemma place_bits_other: "(\<And>j. i \<le> j \<Longrightarrow> j < i + length input \<Longrightarrow> f j \<noteq> k) \<Longrightarrow> place_bits f i input bits ! k = bits ! k"
proof (induction f i input bits rule: place_bits.induct)
  case (2 f i b input bits)
  have "place_bits f (i + 1) input (bits[f i := b]) ! k = bits[f i := b] ! k" using 2(2) by (intro 2(1)) simp
  moreover have "f i \<noteq> k" using 2(2) [of i] by simp
  ultimately show ?case by simp
qed simp

lemma place_bits_nth:
  "inj_on f {i..<i + length input} \<Longrightarrow> (\<And>j. j < length input \<Longrightarrow> f (i + j) < length bits) \<Longrightarrow> j < length input \<Longrightarrow>
   place_bits f i input bits ! f (i + j) = input ! j"
proof (induction f i input bits arbitrary: j rule: place_bits.induct)
  case (2 f i b input bits)
  have inj: "inj_on f {i + 1..<i + 1 + length input}" using 2(2) by (rule inj_on_subset) auto
  show ?case
  proof (cases j)
    case 0
    have "f j' \<noteq> f i" if "i + 1 \<le> j'" "j' < i + 1 + length input" for j'
      using inj_onD [OF 2(2), of j' i] that by auto
    then have "place_bits f (i + 1) input (bits[f i := b]) ! f i = bits[f i := b] ! f i" by (rule place_bits_other)
    then show ?thesis using 0 2(3) [of 0] by simp
  next
    case (Suc k)
    have "place_bits f (i + 1) input (bits[f i := b]) ! f (i + 1 + k) = input ! k"
      using 2(3) [of "Suc _"] 2(4) Suc by (intro 2(1) inj) simp_all
    then show ?thesis using Suc by simp
  qed
qed simp

text \<open>The bit at \<open>(i + n) mod w\<close> of the result is the bit at \<open>i\<close>: the list is rotated by \<open>w - n\<close>.\<close>

lemma place_bits_rotate:
  assumes "length bits = length input" "n \<le> length input"
  shows "place_bits (\<lambda>i. (i + n) mod length input) 0 input bits = rotate (length input - n) input"
proof (rule nth_equalityI)
  let ?w = "length input" and ?f = "\<lambda>i. (i + n) mod length input"
  fix k assume "k < length (place_bits ?f 0 input bits)"
  then have k: "k < ?w" using assms by simp
  let ?j = "(?w - n + k) mod ?w"
  have shifted: "?f ?j = k" using k assms(2) by (simp add: mod_add_left_eq)
  have inj: "inj_on ?f {0..<?w}"
  proof (rule eq_card_imp_inj_on)
    have "m \<in> ?f ` {0..<?w}" if "m < ?w" for m
    proof
      show "m = ?f ((?w - n + m) mod ?w)" using that assms(2) by (simp add: mod_add_left_eq)
    qed (use mod_less_divisor [OF order.strict_trans1 [OF le0 k], of "?w - n + m"] in simp)
    then have "?f ` {0..<?w} = {0..<?w}" by (auto simp: mod_less_divisor [OF order.strict_trans1 [OF le0 k]])
    then show "card (?f ` {0..<?w}) = card {0..<?w}" by simp
  qed simp
  have "place_bits ?f 0 input bits ! ?f (0 + ?j) = input ! ?j"
    using inj k assms 
    by (intro place_bits_nth) (simp_all add: mod_less_divisor [OF order.strict_trans1 [OF le0 k]])
  then show "place_bits ?f 0 input bits ! k = rotate (?w - n) input ! k" using shifted k by (simp add: nth_rotate add.commute)
qed (use assms in simp)

lemma rotated_word:
  assumes "bits_word s bits w V" "m \<le> w"
  shows "bits_word s (rotate m bits) w (\<lambda>\<sigma>. V \<sigma> div 2 ^ m + (V \<sigma> mod 2 ^ m) * 2 ^ (w - m))"
proof -
  have "rotate m bits = drop m bits @ take m bits"
    using bits_wordD(2) [OF assms(1)] assms(2) by (cases "m = w") (simp_all add: rotate_drop_take)
  then show ?thesis using split_word [OF assms] assms(2) by (simp add: bits_word_def mult.commute)
qed

lemma rotate_by_ok:
  assumes s: "store_ok s" and t: "word_term s t w V" and f: "\<And>i. f w (amount mod w) i = (i + n) mod w" "n \<le> w"
  shows "op_ok (rotate_by t f amount) s (\<lambda>t s'. word_term s' t w (\<lambda>\<sigma>. V \<sigma> div 2 ^ (w - n) + (V \<sigma> mod 2 ^ (w - n)) * 2 ^ n))"
proof -
  let ?Q = "\<lambda>t s'. word_term s' t w (\<lambda>\<sigma>. V \<sigma> div 2 ^ (w - n) + (V \<sigma> mod 2 ^ (w - n)) * 2 ^ n)"
  have "op_ok (bits_of t (\<lambda>input s. make_bitvec (place_bits (f w (amount mod w)) 0 input (replicate w (bool_constant False s))) s)) s ?Q"
  proof (rule bits_of_ok [OF s t])
    fix bits assume b: "bits_word s bits w V"
    have "place_bits (f w (amount mod w)) 0 bits (replicate w (bool_constant False s)) = rotate (w - n) bits"
      using place_bits_rotate [of "replicate w (bool_constant False s)" bits n] bits_wordD(2) [OF b] f
      by (simp add: ext [of "f w (amount mod w)" "\<lambda>i. (i + n) mod w"])
    then show "op_ok (\<lambda>s. make_bitvec (place_bits (f w (amount mod w)) 0 bits (replicate w (bool_constant False s))) s) s ?Q"
      using make_bitvec_ok [OF s rotated_word [OF b, of "w - n"] word_term_width(2) [OF s t]] f(2) by (simp add: op_ok_def)
  qed
  then show ?thesis unfolding rotate_by_def using word_term_width(1) [OF s t] by (intro op_ok_width) simp_all
qed

lemma rotate_left_ok:
  assumes s: "store_ok s" and t: "word_term s t w V"
  shows "op_ok (rotate_left t amount) s (\<lambda>t s'. word_term s' t w
      (\<lambda>\<sigma>. V \<sigma> div 2 ^ (w - amount mod w) + (V \<sigma> mod 2 ^ (w - amount mod w)) * 2 ^ (amount mod w)))"
    "op_ok (rotate_right t amount) s (\<lambda>t s'. word_term s' t w
      (\<lambda>\<sigma>. V \<sigma> div 2 ^ (amount mod w) + (V \<sigma> mod 2 ^ (amount mod w)) * 2 ^ (w - amount mod w)))"
proof -
  have n: "amount mod w \<le> w" using word_term_width(2) [OF s t] by (simp add: less_imp_le)
  show "op_ok (rotate_left t amount) s (\<lambda>t s'. word_term s' t w
      (\<lambda>\<sigma>. V \<sigma> div 2 ^ (w - amount mod w) + (V \<sigma> mod 2 ^ (w - amount mod w)) * 2 ^ (amount mod w)))"
    unfolding rotate_left_def by (rule rotate_by_ok [OF s t _ n]) simp
  have "op_ok (rotate_right t amount) s (\<lambda>t s'. word_term s' t w
      (\<lambda>\<sigma>. V \<sigma> div 2 ^ (w - (w - amount mod w)) + (V \<sigma> mod 2 ^ (w - (w - amount mod w))) * 2 ^ (w - amount mod w)))"
    unfolding rotate_right_def by (rule rotate_by_ok [OF s t]) (use n in simp_all)
  then show "op_ok (rotate_right t amount) s (\<lambda>t s'. word_term s' t w
      (\<lambda>\<sigma>. V \<sigma> div 2 ^ (amount mod w) + (V \<sigma> mod 2 ^ (amount mod w)) * 2 ^ (w - amount mod w)))" using n by simp
qed

subsection \<open>Shifts by a variable amount\<close>

fun shift_value :: "shift \<Rightarrow> nat \<Rightarrow> nat \<Rightarrow> nat \<Rightarrow> nat" where
  "shift_value ShiftLeft w n v = (v * 2 ^ n) mod 2 ^ w"
| "shift_value LogicalRight w n v = v div 2 ^ n"
| "shift_value ArithmeticRight w n v = word_of w (signed_value w v div 2 ^ n)"

definition fill_value :: "shift \<Rightarrow> nat \<Rightarrow> nat \<Rightarrow> bool" where
  "fill_value direction w v \<longleftrightarrow> direction = ArithmeticRight \<and> signed_value w v < 0"

lemma signed_value_word_of_fits:
  assumes "0 < w" "fits_signed w x"
  shows "signed_value w (word_of w x) = x"
proof -
  have "(2 :: int) ^ w = 2 * 2 ^ (w - 1)" "(0 :: int) < 2 ^ (w - 1)" using assms(1) by (cases w, simp_all)
  then show ?thesis using signed_value_word_of [OF assms(1), of x] assms(2) by (simp add: fits_signed_def)
qed

lemma div_fits:
  assumes "fits_signed w x" shows "fits_signed w (x div 2 ^ n)"
proof -
  have p: "(0 :: int) < 2 ^ n" "(1 :: int) \<le> 2 ^ n" by simp_all
  have "- (2 ^ (w - 1)) * 2 ^ n \<le> - (2 ^ (w - 1)) * (1 :: int)" using p by (intro mult_left_mono_neg) simp_all
  then have "- (2 ^ (w - 1)) * 2 ^ n \<le> x" using assms unfolding fits_signed_def by linarith
  from zdiv_mono1 [OF this p(1)] have "- (2 ^ (w - 1)) \<le> x div 2 ^ n"
    by (subst (asm) nonzero_mult_div_cancel_right) simp_all
  moreover have "x div 2 ^ n < 2 ^ (w - 1)"
  proof (cases "0 \<le> x")
    case True
    then have "x div 2 ^ n \<le> x" using p zdiv_mono2 [of x 1 "2 ^ n"] by simp
    then show ?thesis using assms by (simp add: fits_signed_def)
  next
    case False
    then have "x div 2 ^ n < 0" using p by (simp add: div_neg_pos_less0)
    also have "(0 :: int) < 2 ^ (w - 1)" by simp
    finally show ?thesis .
  qed
  ultimately show ?thesis by (simp add: fits_signed_def)
qed

lemma signed_value_fits: "0 < w \<Longrightarrow> v < 2 ^ w \<Longrightarrow> fits_signed w (signed_value w v)"
  using signed_value_bounds by (simp add: fits_signed_def)

lemma shift_value_add:
  assumes "0 < w" "v < 2 ^ w"
  shows "shift_value d w m (shift_value d w n v) = shift_value d w (n + m) v"
proof (cases d)
  case ShiftLeft
  then show ?thesis by (simp add: mod_mult_left_eq power_add mult.assoc)
next
  case LogicalRight
  then show ?thesis by (simp add: power_add div_mult2_eq)
next
  case ArithmeticRight
  have "signed_value w (word_of w (signed_value w v div 2 ^ n)) = signed_value w v div 2 ^ n"
    using assms by (intro signed_value_word_of_fits div_fits signed_value_fits)
  then show ?thesis using ArithmeticRight by (simp add: power_add zdiv_zmult2_eq)
qed

lemma shift_value_zero: "v < 2 ^ w \<Longrightarrow> shift_value d w 0 v = v"
  by (cases d) (simp_all add: word_of_signed)

lemma shift_value_less: "v < 2 ^ w \<Longrightarrow> shift_value d w n v < 2 ^ w"
  by (cases d) (auto simp: word_of_def intro: le_less_trans [OF div_le_dividend] simp: nat_less_iff)

lemma fill_value_shift:
  assumes "0 < w" "v < 2 ^ w"
  shows "fill_value d w (shift_value d w n v) = fill_value d w v"
proof (cases d)
  case ArithmeticRight
  have "signed_value w (word_of w (signed_value w v div 2 ^ n)) = signed_value w v div 2 ^ n"
    using assms by (intro signed_value_word_of_fits div_fits signed_value_fits)
  then show ?thesis using ArithmeticRight by (simp add: fill_value_def pos_imp_zdiv_neg_iff)
qed (simp_all add: fill_value_def)

text \<open>The list that the code builds for a shift by \<open>m\<close>.\<close>

lemma shifted_list:
  assumes "length result = w" "m < w"
  shows "map (\<lambda>i. if i < m then fill else result ! (i - m)) [0..<w] = replicate m fill @ take (w - m) result"
    "map (\<lambda>i. if i + m < w then result ! (i + m) else fill) [0..<w] = drop m result @ replicate m fill"
proof -
  show "map (\<lambda>i. if i < m then fill else result ! (i - m)) [0..<w] = replicate m fill @ take (w - m) result"
    using assms by (intro nth_equalityI) (simp_all add: nth_append)
  show "map (\<lambda>i. if i + m < w then result ! (i + m) else fill) [0..<w] = drop m result @ replicate m fill"
    using assms by (intro nth_equalityI) (simp_all add: nth_append less_diff_conv add.commute)
qed

lemma fill_word:
  assumes "denotes s fill F"
  shows "bits_word s (replicate n fill) n (\<lambda>\<sigma>. if F \<sigma> then 2 ^ n - 1 else 0)"
  using assms by (auto simp: bits_word_def bits_ok_def denotes_def word_val_def)

lemma append_word: "bits_word s us n U \<Longrightarrow> bits_word s vs m V \<Longrightarrow> bits_word s (us @ vs) (n + m) (\<lambda>\<sigma>. U \<sigma> + 2 ^ n * V \<sigma>)"
  by (simp add: bits_word_def)

lemma arithmetic_shift_value:
  assumes w: "0 < w" and v: "v < 2 ^ w"
  shows "m < w \<Longrightarrow> v div 2 ^ m + 2 ^ (w - m) * (if signed_value w v < 0 then 2 ^ m - 1 else 0) = word_of w (signed_value w v div 2 ^ m)"
    "w \<le> m \<Longrightarrow> (if signed_value w v < 0 then 2 ^ w - 1 else 0) = word_of w (signed_value w v div 2 ^ m)"
proof -
  have sv: "signed_value w v = (if signed_value w v < 0 then int v - 2 ^ w else int v)"
    using signed_value_less [OF v] by (simp add: signed_value_def)
  show "v div 2 ^ m + 2 ^ (w - m) * (if signed_value w v < 0 then 2 ^ m - 1 else 0) = word_of w (signed_value w v div 2 ^ m)" if "m < w"
  proof (cases "signed_value w v < 0")
    case False
    have "v div 2 ^ m < 2 ^ w" using v div_le_dividend le_less_trans by blast
    moreover have "signed_value w v div 2 ^ m = int (v div 2 ^ m)" using sv False by (simp add: zdiv_int)
    ultimately show ?thesis using False by simp
  next
    case True
    have p: "(2 :: int) ^ w = 2 ^ (w - m) * 2 ^ m" using that by (simp flip: power_add)
    have "signed_value w v div 2 ^ m = (int v - 2 ^ (w - m) * 2 ^ m) div 2 ^ m" using sv True by (simp only: if_True p)
    also have "\<dots> = int (v div 2 ^ m) - 2 ^ (w - m)"
      using div_mult_self1 [of "2 ^ m :: int" "int v" "- (2 ^ (w - m))"] by (simp add: zdiv_int)
    finally have d: "signed_value w v div 2 ^ m = int (v div 2 ^ m) - 2 ^ (w - m)" .
    have less: "v div 2 ^ m < 2 ^ (w - m)" using v that by (simp add: less_mult_imp_div_less flip: power_add)
    let ?n = "v div 2 ^ m + 2 ^ (w - m) * (2 ^ m - 1)"
    have "int (2 ^ m - 1) = 2 ^ m - 1" by (simp add: of_nat_diff)
    then have n: "int ?n = int (v div 2 ^ m) - 2 ^ (w - m) + 2 ^ w" unfolding of_nat_add of_nat_mult p by (simp add: algebra_simps)
    have "int ?n mod 2 ^ w = (int (v div 2 ^ m) - 2 ^ (w - m)) mod 2 ^ w" by (simp only: n mod_add_self2)
    moreover have "int ?n < 2 ^ w" using less unfolding n by simp
    ultimately have "int ?n = (signed_value w v div 2 ^ m) mod 2 ^ w" unfolding d using mod_pos_pos_trivial [of "int ?n" "2 ^ w"] by simp
    then show ?thesis using True by (simp only: word_of_eq_iff if_True)
  qed
  show "(if signed_value w v < 0 then 2 ^ w - 1 else 0) = word_of w (signed_value w v div 2 ^ m)" if "w \<le> m"
  proof -
    have "(2 :: int) ^ (w - 1) \<le> 2 ^ m" using that by (intro power_increasing) simp_all
    then have b: "- (2 ^ m) \<le> signed_value w v" "signed_value w v < 2 ^ m" using signed_value_bounds [OF w v] by linarith+
    have "signed_value w v div 2 ^ m = (if signed_value w v < 0 then - 1 else 0)"
    proof (cases "signed_value w v < 0")
      case True
      then have "signed_value w v div 2 ^ m = - 1" using b(1) by (intro int_div_pos_eq [where r = "signed_value w v + 2 ^ m"]) simp_all
      then show ?thesis using True by simp
    qed (use b(2) in \<open>simp add: div_pos_pos_trivial\<close>)
    moreover have "word_of w (- 1) = 2 ^ w - 1" by (simp add: word_of_def zmod_minus1 nat_diff_distrib nat_power_eq)
    moreover have "word_of w 0 = 0" by (simp add: word_of_def)
    ultimately show ?thesis by simp
  qed
qed

lemma shift_candidate_ok:
  assumes s: "store_ok s" and t: "bits_word s result w R" and w: "0 < w" "w \<le> u32_max"
    and f: "denotes s fill (\<lambda>\<sigma>. fill_value direction w (R \<sigma>))"
  shows "bits_word s (shift_candidate direction w fill index result) w (\<lambda>\<sigma>. shift_value direction w (2 ^ index) (R \<sigma>))"
proof -
  let ?m = "2 ^ index :: nat"
  note len = bits_wordD(2) [OF t] and v = bits_wordD(4) [OF t]
  have fits: "index < 64 \<and> ?m < w \<longleftrightarrow> ?m < w"
  proof -
    have "index < 64" if "?m < w"
    proof (rule ccontr)
      assume "\<not> index < 64"
      then have "(2 :: nat) ^ 64 \<le> ?m" by (intro power_increasing) simp_all
      then show False using that w(2) by simp
    qed
    then show ?thesis by blast
  qed
  show ?thesis
  proof (cases "?m < w")
    case False
    have "bits_word s (replicate w fill) w (\<lambda>\<sigma>. if fill_value direction w (R \<sigma>) then 2 ^ w - 1 else 0)" by (rule fill_word [OF f])
    moreover have "(if fill_value direction w (R \<sigma>) then 2 ^ w - 1 else 0) = shift_value direction w ?m (R \<sigma>)" for \<sigma>
    proof (cases direction)
      case ShiftLeft
      have "(2 :: nat) ^ w dvd R \<sigma> * 2 ^ ?m" using False by (intro dvd_mult le_imp_power_dvd) simp
      then show ?thesis using ShiftLeft by (simp add: fill_value_def)
    next
      case LogicalRight
      have "R \<sigma> < 2 ^ ?m" using v [of \<sigma>] False by (meson less_le_trans not_less one_le_numeral power_increasing)
      then show ?thesis using LogicalRight by (simp add: fill_value_def)
    next
      case ArithmeticRight
      then show ?thesis using arithmetic_shift_value(2) [OF w(1) v] False by (simp add: fill_value_def)
    qed
    ultimately show ?thesis using False fits by (simp add: shift_candidate_def)
  next
    case True
    have low: "bits_word s (take (w - ?m) result) (w - ?m) (\<lambda>\<sigma>. R \<sigma> mod 2 ^ (w - ?m))"
      and high: "bits_word s (drop ?m result) (w - ?m) (\<lambda>\<sigma>. R \<sigma> div 2 ^ ?m)"
      using split_word(1) [OF t] split_word(2) [OF t, of ?m] True by simp_all
    note pad = fill_word [OF f, of ?m] and lists = shifted_list [OF len True, of fill]
    show ?thesis
    proof (cases direction)
      case ShiftLeft
      have "2 ^ ?m * (R \<sigma> mod 2 ^ (w - ?m)) = R \<sigma> * 2 ^ ?m mod 2 ^ w" for \<sigma>
        using mult_mod_right [of "2 ^ ?m" "R \<sigma>" "2 ^ (w - ?m)"] True by (simp add: mult.commute flip: power_add)
      then show ?thesis using append_word [OF pad low] ShiftLeft True fits lists(1)
        by (simp add: shift_candidate_def fill_value_def)
    next
      case LogicalRight
      then show ?thesis using append_word [OF high pad] True fits lists(2)
        by (simp add: shift_candidate_def fill_value_def)
    next
      case ArithmeticRight
      then show ?thesis using append_word [OF high pad] True fits lists(2) arithmetic_shift_value(1) [OF w(1) v True]
        by (simp add: shift_candidate_def fill_value_def)
    qed
  qed
qed

lemma shift_steps_ok:
  assumes w: "0 < w" "w \<le> u32_max"
  shows "store_ok s \<Longrightarrow> bits_ok s sels \<Longrightarrow> bits_word s result w R \<Longrightarrow> denotes s fill (\<lambda>\<sigma>. fill_value d w (R \<sigma>)) \<Longrightarrow>
    op_ok (shift_steps d w fill index sels result) s
      (\<lambda>r s'. bits_word s' r w (\<lambda>\<sigma>. shift_value d w (2 ^ index * word_val s sels \<sigma>) (R \<sigma>)))"
proof (induction sels arbitrary: s result R index)
  case Nil
  then show ?case using shift_value_zero bits_wordD(4) [OF Nil.prems(3)] by (simp add: op_ok_ret)
next
  case (Cons b sels)
  let ?m = "\<lambda>\<sigma>. 2 ^ index * of_bool (term_value s \<sigma> b) :: nat"
  let ?R = "\<lambda>\<sigma>. shift_value d w (?m \<sigma>) (R \<sigma>)"
  note v = bits_wordD(4) [OF Cons.prems(3)]
  have sel: "denotes s b (\<lambda>\<sigma>. term_value s \<sigma> b)" using Cons.prems(2) by (simp add: denotes_self)
  note cand = shift_candidate_ok [OF Cons.prems(1,3) w Cons.prems(4), of index]
  show ?case unfolding shift_steps.simps
  proof (rule op_ok_bind [OF select_bits_ok [OF Cons.prems(1) sel cand Cons.prems(3)]])
    fix r s1 assume 1: "store_ok s1" "extends s s1"
      "bits_word s1 r w (\<lambda>\<sigma>. if term_value s \<sigma> b then shift_value d w (2 ^ index) (R \<sigma>) else R \<sigma>)"
    have r: "bits_word s1 r w ?R" using 1(3) by (rule bits_word_cong) (simp add: shift_value_zero [OF v])
    have f: "denotes s1 fill (\<lambda>\<sigma>. fill_value d w (?R \<sigma>))"
      using denotes_extends [OF Cons.prems(4) 1(2)] by (simp add: fill_value_shift [OF w(1) v])
    have sels: "bits_ok s1 sels" and vals: "word_val s1 sels \<sigma> = word_val s sels \<sigma>" for \<sigma>
      using extends_bits [OF 1(2)] extends_word_val [OF 1(2)] Cons.prems(2) by simp_all
    have "shift_value d w (2 ^ (index + 1) * word_val s1 sels \<sigma>) (?R \<sigma>) = shift_value d w (2 ^ index * word_val s (b # sels) \<sigma>) (R \<sigma>)" for \<sigma>
      by (simp only: shift_value_add [OF w(1) v] vals) (simp add: algebra_simps)
    with Cons.IH [OF 1(1) sels r f, of "index + 1"]
    show "op_ok (shift_steps d w fill (index + 1) sels r) s1
        (\<lambda>r s'. bits_word s' r w (\<lambda>\<sigma>. shift_value d w (2 ^ index * word_val s (b # sels) \<sigma>) (R \<sigma>)))" by (simp only:)
  qed
qed

lemma variable_shift_ok:
  assumes s: "store_ok s" and l: "word_term s l w A" and r: "word_term s r w B"
  shows "op_ok (variable_shift l r d) s (\<lambda>t s'. word_term s' t w (\<lambda>\<sigma>. shift_value d w (B \<sigma>) (A \<sigma>)))"
  unfolding variable_shift_def
proof (rule op_ok_asked)
  let ?Q = "\<lambda>t s'. word_term s' t w (\<lambda>\<sigma>. shift_value d w (B \<sigma>) (A \<sigma>))"
  note w = word_term_width(2,4) [OF s l]
  show "require_same_bv_width l r (shift_name d) s = Inr w"
    using word_term_width(1) [OF s l] word_term_width(1) [OF s r] by (simp add: require_same_bv_width_def)
  show "op_ok (bits_of r (\<lambda>selectors. bits_of l (\<lambda>bits s.
      let fill = (if d = ArithmeticRight then last bits else bool_constant False s)
      in make_from (shift_steps d w fill 0 selectors bits) s))) s ?Q"
  proof (rule bits_of_ok [OF s r], rule bits_of_ok [OF s l])
    fix sels bits assume b: "bits_word s sels w B" "bits_word s bits w A"
    let ?fill = "if d = ArithmeticRight then last bits else bool_constant False s"
    have "denotes s ?fill (\<lambda>\<sigma>. fill_value d w (A \<sigma>))"
      using sign_ok [OF s b(2) w(1)] constant_ok [OF s, of False] by (simp add: fill_value_def)
    from shift_steps_ok [OF w s bits_wordD(1) [OF b(1)] b(2) this, of 0]
    have "op_ok (shift_steps d w ?fill 0 sels bits) s (\<lambda>r s'. bits_word s' r w (\<lambda>\<sigma>. shift_value d w (B \<sigma>) (A \<sigma>)))"
      by (simp add: bits_wordD(3) [OF b(1)])
    from make_from_ok [OF this w(1)]
    show "op_ok (\<lambda>s. let fill = (if d = ArithmeticRight then last bits else bool_constant False s)
        in make_from (shift_steps d w fill 0 sels bits) s) s ?Q" by (simp add: op_ok_def Let_def)
  qed
qed

subsection \<open>Literals\<close>

lemma constant_bits_ok:
  assumes s: "store_ok s" and vs: "vs \<noteq> []"
  shows "op_ok (make_from (constant_bits vs)) s (\<lambda>t s'. word_term s' t (length vs) (\<lambda>_. bits_nat vs))"
proof (rule make_from_ok)
  show "op_ok (constant_bits vs) s (\<lambda>bits s'. bits_word s' bits (length vs) (\<lambda>_. bits_nat vs))"
    using s constant_word(2) [OF s, of vs] by (simp add: op_ok_def constant_bits_def)
qed (use vs in simp)

lemma bits_nat_rev: "bits_nat (map f (rev ds)) = foldl (\<lambda>v c. 2 * v + of_bool (f c)) 0 ds"
  by (induction ds rule: rev_induct) simp_all

lemma bitvec_from_binary_ok:
  assumes s: "store_ok s" and d: "digits \<noteq> []" "list_all (\<lambda>c. c = CHR ''0'' \<or> c = CHR ''1'') digits" "length digits \<le> MAX_BITVECTOR_WIDTH"
  shows "op_ok (bitvec_from_binary (''#b'' @ digits)) s
    (\<lambda>t s'. word_term s' t (length digits) (\<lambda>_. foldl (\<lambda>v c. 2 * v + of_bool (c = CHR ''1'')) 0 digits))"
proof -
  have c: "op_ok (make_from (constant_bits (map (\<lambda>c. c = CHR ''1'') (rev digits)))) s
      (\<lambda>t s'. word_term s' t (length digits) (\<lambda>_. foldl (\<lambda>v c. 2 * v + of_bool (c = CHR ''1'')) 0 digits))"
    using constant_bits_ok [OF s, of "map (\<lambda>c. c = CHR ''1'') (rev digits)"] d(1) by (simp add: bits_nat_rev)
  have "bitvec_from_binary (''#b'' @ digits) = bind_op (asks (\<lambda>_. check_width (length digits))) (\<lambda>_.
      make_from (constant_bits (map (\<lambda>c. c = CHR ''1'') (rev digits))))"
    using d check_width_ok(2) [OF d(3)] by (simp add: bitvec_from_binary_def Let_def)
  then show ?thesis using c d check_width_ok(1) [of "length digits"] by (simp add: op_ok_unit)
qed

lemma halved_digits:
  assumes "halve_digits 0 ds = (ds', c)"
  shows "digits_value ds = 2 * digits_value ds' + of_bool (c \<noteq> 0)"
  using halve_digits_value [of 0 ds] assms by (cases c) auto

lemma decimal_bits_value: "bits_nat (decimal_bits ds) = digits_value ds \<and> (decimal_bits ds \<noteq> [] \<longrightarrow> last (decimal_bits ds))"
proof (induction ds rule: decimal_bits.induct)
  case (1 ds)
  show ?case
  proof (cases "list_ex (\<lambda>d. d \<noteq> 0) ds")
    case False
    then have "digits_value ds = 0" by (induction ds) auto
    then show ?thesis using False by (simp add: decimal_bits.simps)
  next
    case True
    obtain ds' c where h: "halve_digits 0 ds = (ds', c)" by fastforce
    let ?ds = "dropWhile (\<lambda>d. d = 0) ds'"
    have e: "decimal_bits ds = (c \<noteq> 0) # decimal_bits ?ds" using True h by (simp add: decimal_bits.simps [of ds])
    have ih: "bits_nat (decimal_bits ?ds) = digits_value ds'" "decimal_bits ?ds \<noteq> [] \<Longrightarrow> last (decimal_bits ?ds)"
      using "1.IH" [OF True h [symmetric]] by simp_all
    have v: "digits_value ds = 2 * digits_value ds' + of_bool (c \<noteq> 0)" by (rule halved_digits [OF h])
    have "c \<noteq> 0" if "decimal_bits ?ds = []"
      using digits_value_zero [OF True] v ih(1) that by (cases "c = 0") simp_all
    then show ?thesis unfolding e using ih v by auto
  qed
qed

lemma decimal_bits_length: "length (decimal_bits ds) \<le> w \<longleftrightarrow> digits_value ds < 2 ^ w"
proof
  assume "length (decimal_bits ds) \<le> w"
  then have "(2 :: nat) ^ length (decimal_bits ds) \<le> 2 ^ w" by (intro power_increasing) simp_all
  then show "digits_value ds < 2 ^ w" using bits_nat_less [of "decimal_bits ds"] decimal_bits_value [of ds] by linarith
next
  assume less: "digits_value ds < 2 ^ w"
  show "length (decimal_bits ds) \<le> w"
  proof (cases "decimal_bits ds = []")
    case False
    then have "2 ^ (length (decimal_bits ds) - 1) \<le> digits_value ds" using bits_nat_last [OF False] decimal_bits_value [of ds] by simp
    then have "(2 :: nat) ^ (length (decimal_bits ds) - 1) < 2 ^ w" using less by (rule le_less_trans)
    then show ?thesis by simp
  qed simp
qed

lemma bits_nat_padded: "bits_nat (vs @ replicate n False) = bits_nat vs"
  by (simp add: bits_nat_append)

lemma bitvec_from_decimal_ok:
  assumes s: "store_ok s" and d: "decimal \<noteq> []" "list_all is_ascii_digit decimal" "length decimal = 1 \<or> hd decimal \<noteq> CHR ''0''"
    and w: "0 < w" "w \<le> MAX_BITVECTOR_WIDTH"
  defines "v \<equiv> digits_value (map digit_value decimal)"
  shows "v < 2 ^ w \<Longrightarrow> op_ok (bitvec_from_decimal decimal w) s (\<lambda>t s'. word_term s' t w (\<lambda>_. v))"
    "2 ^ w \<le> v \<Longrightarrow> bitvec_from_decimal decimal w s = (Inl (Rejected (ValueTooWide w)), s)"
proof -
  let ?bits = "decimal_bits (map digit_value decimal)"
  have len: "length ?bits \<le> w \<longleftrightarrow> v < 2 ^ w" unfolding v_def by (rule decimal_bits_length)
  have one: "\<not> (length decimal > 1 \<and> hd decimal = CHR ''0'')" using d(3) by auto
  have e: "bitvec_from_decimal decimal w s = (if length ?bits > w then reject (ValueTooWide w) s
      else make_from (constant_bits (?bits @ replicate (w - length ?bits) False)) s)"
    using d(1,2) one check_width_ok(1) [OF w] by (auto simp: bitvec_from_decimal_def bind_op_def asks_def Let_def)
  show "2 ^ w \<le> v \<Longrightarrow> bitvec_from_decimal decimal w s = (Inl (Rejected (ValueTooWide w)), s)"
    using e len by (simp add: reject_def)
  show "op_ok (bitvec_from_decimal decimal w) s (\<lambda>t s'. word_term s' t w (\<lambda>_. v))" if "v < 2 ^ w"
  proof -
    let ?vs = "?bits @ replicate (w - length ?bits) False"
    have vs: "?vs \<noteq> []" "length ?vs = w" "bits_nat ?vs = v"
      using len that w(1) decimal_bits_value [of "map digit_value decimal"] by (auto simp: bits_nat_padded v_def)
    have "bitvec_from_decimal decimal w s = make_from (constant_bits ?vs) s" using e len that by simp
    then show ?thesis using constant_bits_ok [OF s vs(1)] vs by (simp only: op_ok_def)
  qed
qed

subsection \<open>Fresh words\<close>

lemma fresh_bit_ok:
  assumes s: "store_ok s"
  shows "op_ok fresh_bit s (\<lambda>t s'. denotes s' t (\<lambda>\<sigma>. \<sigma> (ts_next_symbol s)) \<and> ts_next_symbol s' = ts_next_symbol s + 1)"
proof -
  have next_symbol: "ts_next_symbol s' = ts_next_symbol s + 1" if "fresh_bool_atom s = (Inr x, s')" for x s'
    using that by (auto simp: fresh_bool_atom_def fresh_symbol_def bind_op_def intern_bool_def intern_def ret_def Let_def
        split: if_splits option.splits)
  have "op_ok fresh_bool_atom s (\<lambda>(a, t) s'. denotes s' t (\<lambda>\<sigma>. \<sigma> (ts_next_symbol s)) \<and> ts_next_symbol s' = ts_next_symbol s + 1)"
    using fresh_bool_atom_ok [OF s] next_symbol by (auto simp: op_ok_def split: prod.splits sum.splits)
  then show ?thesis unfolding fresh_bit_def by (rule op_ok_bind) (auto intro: op_ok_ret)
qed

lemma fresh_bits_ok:
  "store_ok s \<Longrightarrow> op_ok (each_op (\<lambda>_. fresh_bit) xs) s (\<lambda>ts s'.
     bits_word s' ts (length xs) (\<lambda>\<sigma>. bits_nat (map (\<lambda>i. \<sigma> (ts_next_symbol s + i)) [0..<length xs])))"
proof (induction xs arbitrary: s)
  case Nil
  then show ?case by (simp add: op_ok_ret bits_word_def)
next
  case (Cons x xs)
  let ?V = "\<lambda>s n \<sigma>. bits_nat (map (\<lambda>i. \<sigma> (ts_next_symbol s + i)) [0..<n])"
  show ?case unfolding each_op.simps
  proof (rule op_ok_bind [OF fresh_bit_ok [OF Cons.prems]], elim conjE)
    fix t s1 assume 1: "store_ok s1" "denotes s1 t (\<lambda>\<sigma>. \<sigma> (ts_next_symbol s))" "ts_next_symbol s1 = ts_next_symbol s + 1"
    show "op_ok (bind_op (each_op (\<lambda>_. fresh_bit) xs) (\<lambda>ts. ret (t # ts))) s1 (\<lambda>ts s'. bits_word s' ts (length (x # xs)) (?V s (length (x # xs))))"
    proof (rule op_ok_bind [OF Cons.IH [OF 1(1)]])
      fix ts s2 assume 2: "store_ok s2" "extends s1 s2" "bits_word s2 ts (length xs) (?V s1 (length xs))"
      have "?V s (length (x # xs)) \<sigma> = of_bool (\<sigma> (ts_next_symbol s)) + 2 * ?V s1 (length xs) \<sigma>" for \<sigma> :: "nat \<Rightarrow> bool"
        using 1(3) by (simp add: upt_rec [of 0] map_Suc_upt [symmetric] comp_def del: upt_Suc)
      then have "bits_word s2 (t # ts) (length (x # xs)) (?V s (length (x # xs)))"
        using 2(3) denotes_extends [OF 1(2) 2(2)] by (simp add: bits_word_def denotes_def del: upt_Suc)
      then show "op_ok (ret (t # ts)) s2 (\<lambda>ts s'. bits_word s' ts (length (x # xs)) (?V s (length (x # xs))))"
        using 2(1) by (intro op_ok_ret)
    qed
  qed
qed

lemma fresh_bitvec_ok:
  assumes s: "store_ok s" and w: "0 < w" "w \<le> MAX_BITVECTOR_WIDTH"
  shows "op_ok (fresh_bitvec w) s (\<lambda>t s'. word_term s' t w (\<lambda>\<sigma>. bits_nat (map (\<lambda>i. \<sigma> (ts_next_symbol s + i)) [0..<w])))"
  unfolding fresh_bitvec_def
proof (rule op_ok_unit [OF check_width_ok(1) [OF w]], rule make_from_ok)
  show "op_ok (each_op (\<lambda>_. fresh_bit) [0..<w]) s
      (\<lambda>ts s'. bits_word s' ts w (\<lambda>\<sigma>. bits_nat (map (\<lambda>i. \<sigma> (ts_next_symbol s + i)) [0..<w])))"
    using fresh_bits_ok [OF s, of "[0..<w]"] by simp
qed (rule w)

text \<open>A store with two words of two bits each, terms 4 and 7.\<close>

definition one_word :: term_store where
  "one_word = snd (fresh_bitvec 2 ts_new)"

definition words_store :: term_store where
  "words_store = snd (fresh_bitvec 2 one_word)"

lemma upt_two: "[0..<2] = [0, 1]"
  by (simp add: upt_rec)

lemma words_evaluated:
  "fresh_bitvec 2 ts_new = (Inr 4, one_word)" "ts_next_symbol one_word = 2" "fresh_bitvec 2 one_word = (Inr 7, words_store)"
  by (simp_all add: one_word_def words_store_def fresh_bitvec_def fresh_bit_def check_width_def MAX_BITVECTOR_WIDTH_def
      fresh_bool_atom_def bind_op_def asks_def fresh_symbol_def intern_bool_def intern_def ret_def make_bitvec_def
      require_bool_def sort_id_of_def sort_id_for_def node_kind_def ts_new_def Let_def upt_two)

lemma words_store_ok:
  "store_ok words_store"
  "word_term words_store 4 2 (\<lambda>\<sigma>. of_bool (\<sigma> 0) + 2 * of_bool (\<sigma> 1))"
  "word_term words_store 7 2 (\<lambda>\<sigma>. of_bool (\<sigma> 2) + 2 * of_bool (\<sigma> 3))"
proof -
  have w: "(0 :: nat) < 2" "2 \<le> MAX_BITVECTOR_WIDTH" by (simp_all add: MAX_BITVECTOR_WIDTH_def)
  note a = op_okD [OF fresh_bitvec_ok [OF ts_new_ok w] words_evaluated(1)]
  note b = op_okD [OF fresh_bitvec_ok [OF a(1) w] words_evaluated(3)]
  show "store_ok words_store" by (rule b)
  have "ts_next_symbol ts_new = 0" by (simp add: ts_new_def Let_def)
  then have "word_term one_word 4 2 (\<lambda>\<sigma>. of_bool (\<sigma> 0) + 2 * of_bool (\<sigma> 1))"
    using a(3) [OF refl] by (simp add: upt_two)
  then show "word_term words_store 4 2 (\<lambda>\<sigma>. of_bool (\<sigma> 0) + 2 * of_bool (\<sigma> 1))" by (rule word_term_extends [OF _ b(2)])
  show "word_term words_store 7 2 (\<lambda>\<sigma>. of_bool (\<sigma> 2) + 2 * of_bool (\<sigma> 3))"
    using b(3) [OF refl] words_evaluated(2) by (simp add: upt_two eval_nat_numeral)
qed

subsection \<open>Properties\<close>

text \<open>C9: For words of the same width \<open>w\<close> in a well-formed store, \<open>bvadd\<close> and \<open>bvmul\<close> of two or more
  arguments return a word whose value, under every assignment of the atoms, is the sum and the
  product of the arguments modulo \<open>2 ^ w\<close>; the store stays well formed and only grows, and the only
  failures are exhausted indices. A product of a width beyond the work limit is refused with that
  error and the store unchanged.\<close>

theorem bitvector_sum_product:
  assumes "store_ok s" "list_all2 (\<lambda>t V. word_term s t w V) ts Vs" "2 \<le> length ts"
  shows "op_ok (bvadd ts) s (\<lambda>t s'. word_term s' t w (\<lambda>\<sigma>. (\<Sum>V\<leftarrow>Vs. V \<sigma>) mod 2 ^ w))
    \<and> (if w * w \<le> MAX_QUADRATIC_LOWERING_WORK
       then op_ok (bvmul ts) s (\<lambda>t s'. word_term s' t w (\<lambda>\<sigma>. (\<Prod>V\<leftarrow>Vs. V \<sigma>) mod 2 ^ w))
       else bvmul ts s = (Inl (Rejected (WorkLimit ''bvmul'' w)), s))"
  using bvadd_ok [OF assms] bvmul_ok [OF assms] by simp

theorem bitvector_sum_product_witness:
  "op_ok (bvadd [4, 7, 4]) words_store (\<lambda>t s'. word_term s' t 2
     (\<lambda>\<sigma>. (2 * (of_bool (\<sigma> 0) + 2 * of_bool (\<sigma> 1)) + (of_bool (\<sigma> 2) + 2 * of_bool (\<sigma> 3))) mod 4))
   \<and> op_ok (bvmul [4, 7, 4]) words_store (\<lambda>t s'. word_term s' t 2
     (\<lambda>\<sigma>. (of_bool (\<sigma> 0) + 2 * of_bool (\<sigma> 1)) * ((of_bool (\<sigma> 2) + 2 * of_bool (\<sigma> 3)) * (of_bool (\<sigma> 0) + 2 * of_bool (\<sigma> 1))) mod 4))"
proof -
  let ?A = "\<lambda>\<sigma> :: nat \<Rightarrow> bool. of_bool (\<sigma> 0) + 2 * of_bool (\<sigma> 1) :: nat"
  let ?B = "\<lambda>\<sigma> :: nat \<Rightarrow> bool. of_bool (\<sigma> 2) + 2 * of_bool (\<sigma> 3) :: nat"
  have ts: "list_all2 (\<lambda>t V. word_term words_store t 2 V) [4, 7, 4] [?A, ?B, ?A]" using words_store_ok by simp
  have sum: "(\<Sum>V\<leftarrow>[?A, ?B, ?A]. V \<sigma>) mod 2 ^ 2 = (2 * ?A \<sigma> + ?B \<sigma>) mod 4" for \<sigma> by (simp add: algebra_simps)
  have prod: "(\<Prod>V\<leftarrow>[?A, ?B, ?A]. V \<sigma>) mod 2 ^ 2 = ?A \<sigma> * (?B \<sigma> * ?A \<sigma>) mod 4" for \<sigma> by simp
  from bitvector_sum_product [OF words_store_ok(1) ts, unfolded sum prod] show ?thesis
    by (simp add: MAX_QUADRATIC_LOWERING_WORK_def)
qed

text \<open>C8: Below the work limit the five divisions return the values of SMT-LIB. Unsigned division by
  zero gives all ones and the remainder the dividend. The signed ones read both words in two's
  complement: \<open>bvsdiv\<close> truncates, with the quotient by zero -1 or 1 by the sign of the dividend,
  \<open>bvsrem\<close> has the sign of the dividend and \<open>bvsmod\<close> that of the divisor.\<close>

theorem bitvector_division:
  assumes "store_ok s" "word_term s l w A" "word_term s r w B" "w * w \<le> MAX_QUADRATIC_LOWERING_WORK"
  shows "op_ok (bvudiv l r) s (\<lambda>t s'. word_term s' t w (\<lambda>\<sigma>. if B \<sigma> = 0 then 2 ^ w - 1 else A \<sigma> div B \<sigma>))
    \<and> op_ok (bvurem l r) s (\<lambda>t s'. word_term s' t w (\<lambda>\<sigma>. A \<sigma> mod B \<sigma>))
    \<and> op_ok (bvsdiv l r) s (\<lambda>t s'. word_term s' t w (\<lambda>\<sigma>.
        if B \<sigma> = 0 then if signed_value w (A \<sigma>) < 0 then 1 else 2 ^ w - 1
        else word_of w (signed_value w (A \<sigma>) sdiv signed_value w (B \<sigma>))))
    \<and> op_ok (bvsrem l r) s (\<lambda>t s'. word_term s' t w (\<lambda>\<sigma>. word_of w (signed_value w (A \<sigma>) smod signed_value w (B \<sigma>))))
    \<and> op_ok (bvsmod l r) s (\<lambda>t s'. word_term s' t w (\<lambda>\<sigma>. word_of w (signed_value w (A \<sigma>) mod signed_value w (B \<sigma>))))"
proof -
  have "signed_value w (B \<sigma>) = 0 \<longleftrightarrow> B \<sigma> = 0" for \<sigma>
    using word_of_signed [OF word_term_width(3) [OF assms(1,3), of \<sigma>]] signed_value_def [of w "B \<sigma>"] by (auto simp: word_of_def)
  then have "signed_quotient w (signed_value w (A \<sigma>)) (signed_value w (B \<sigma>)) = (if B \<sigma> = 0 then if signed_value w (A \<sigma>) < 0 then 1 else 2 ^ w - 1
      else word_of w (signed_value w (A \<sigma>) sdiv signed_value w (B \<sigma>)))" for \<sigma>
    by (simp add: signed_quotient_def)
  then show ?thesis using bvudiv_ok [OF assms] bvsdiv_ok [OF assms] bvsrem_ok [OF assms] bvsmod_ok [OF assms] by simp
qed

theorem bitvector_division_witness:
  "op_ok (bvurem 4 7) words_store (\<lambda>t s'. word_term s' t 2
     (\<lambda>\<sigma>. (of_bool (\<sigma> 0) + 2 * of_bool (\<sigma> 1)) mod (of_bool (\<sigma> 2) + 2 * of_bool (\<sigma> 3))))"
  using bitvector_division [OF words_store_ok] by (simp add: MAX_QUADRATIC_LOWERING_WORK_def)

text \<open>C10: The overflow predicates hold exactly when the exact result leaves the range of the width:
  unsigned sum and product above \<open>2 ^ w - 1\<close>, unsigned difference below zero, and the signed negation,
  sum, difference and product outside \<open>-2 ^ (w - 1)\<close> to \<open>2 ^ (w - 1) - 1\<close>; \<open>bvsdivo\<close> holds for the one
  overflowing quotient, of the minimum by -1.\<close>

theorem bitvector_overflow:
  assumes "store_ok s" "word_term s l w A" "word_term s r w B" "w * w \<le> MAX_QUADRATIC_LOWERING_WORK"
  shows "op_ok (bvuaddo l r) s (\<lambda>t s'. denotes s' t (\<lambda>\<sigma>. 2 ^ w \<le> A \<sigma> + B \<sigma>))
    \<and> op_ok (bvusubo l r) s (\<lambda>t s'. denotes s' t (\<lambda>\<sigma>. int (A \<sigma>) - int (B \<sigma>) < 0))
    \<and> op_ok (bvumulo l r) s (\<lambda>t s'. denotes s' t (\<lambda>\<sigma>. 2 ^ w \<le> A \<sigma> * B \<sigma>))
    \<and> op_ok (bvnego l) s (\<lambda>t s'. denotes s' t (\<lambda>\<sigma>. signed_value w (A \<sigma>) = - (2 ^ (w - 1))))
    \<and> op_ok (bvsaddo l r) s (\<lambda>t s'. denotes s' t (\<lambda>\<sigma>. \<not> fits_signed w (signed_value w (A \<sigma>) + signed_value w (B \<sigma>))))
    \<and> op_ok (bvssubo l r) s (\<lambda>t s'. denotes s' t (\<lambda>\<sigma>. \<not> fits_signed w (signed_value w (A \<sigma>) - signed_value w (B \<sigma>))))
    \<and> op_ok (bvsmulo l r) s (\<lambda>t s'. denotes s' t (\<lambda>\<sigma>. \<not> fits_signed w (signed_value w (A \<sigma>) * signed_value w (B \<sigma>))))
    \<and> op_ok (bvsdivo l r) s (\<lambda>t s'. denotes s' t (\<lambda>\<sigma>. signed_value w (A \<sigma>) = - (2 ^ (w - 1)) \<and> signed_value w (B \<sigma>) = - 1))"
proof -
  have b: "B \<sigma> = 2 ^ w - 1 \<longleftrightarrow> signed_value w (B \<sigma>) = - 1" for \<sigma>
  proof
    note v = word_term_width(3) [OF assms(1,3), of \<sigma>]
    have m: "word_of w (- 1) = 2 ^ w - 1" by (simp add: word_of_def zmod_minus1 nat_diff_distrib nat_power_eq)
    show "B \<sigma> = 2 ^ w - 1" if "signed_value w (B \<sigma>) = - 1" using word_of_signed [OF v] that m by simp
    show "signed_value w (B \<sigma>) = - 1" if "B \<sigma> = 2 ^ w - 1"
    proof -
      have "(0 :: int) < 2 ^ (w - 1)" by simp
      then have "fits_signed w (- 1)" unfolding fits_signed_def by linarith
      from signed_value_word_of_fits [OF word_term_width(2) [OF assms(1,3)] this] show ?thesis using that m by simp
    qed
  qed
  have u: "op_ok (bvusubo l r) s (\<lambda>t s'. denotes s' t (\<lambda>\<sigma>. int (A \<sigma>) - int (B \<sigma>) < 0))"
    using bvult_ok [OF assms(1-3)] by (simp add: bvusubo_def)
  show ?thesis
    using bvuaddo_ok [OF assms(1-3)] u bvumulo_ok [OF assms] bvnego_ok [OF assms(1,2)] bvsaddo_ok [OF assms(1-3)]
      bvssubo_ok [OF assms(1-3)] bvsmulo_ok [OF assms] bvsdivo_ok [OF assms(1-3)]
    unfolding b by (intro conjI)
qed

theorem bitvector_overflow_witness:
  "op_ok (bvuaddo 4 7) words_store (\<lambda>t s'. denotes s' t
     (\<lambda>\<sigma>. 4 \<le> of_bool (\<sigma> 0) + 2 * of_bool (\<sigma> 1) + (of_bool (\<sigma> 2) + 2 * of_bool (\<sigma> 3) :: nat)))"
  using bitvector_overflow [OF words_store_ok] by (simp add: MAX_QUADRATIC_LOWERING_WORK_def)

text \<open>C23: The shifts by a term, which the code lowers to one layer of selections for each bit of the
  amount, shift by the value of the amount, also when it is the width or more: to the left modulo
  \<open>2 ^ w\<close>, to the right with zeros, and to the right with copies of the sign.\<close>

theorem bitvector_shifts:
  assumes "store_ok s" "word_term s l w A" "word_term s r w B"
  shows "op_ok (bvshl l r) s (\<lambda>t s'. word_term s' t w (\<lambda>\<sigma>. (A \<sigma> * 2 ^ B \<sigma>) mod 2 ^ w))
    \<and> op_ok (bvlshr l r) s (\<lambda>t s'. word_term s' t w (\<lambda>\<sigma>. A \<sigma> div 2 ^ B \<sigma>))
    \<and> op_ok (bvashr l r) s (\<lambda>t s'. word_term s' t w (\<lambda>\<sigma>. word_of w (signed_value w (A \<sigma>) div 2 ^ B \<sigma>)))"
  using variable_shift_ok [OF assms, of ShiftLeft] variable_shift_ok [OF assms, of LogicalRight]
    variable_shift_ok [OF assms, of ArithmeticRight] by (simp add: bvshl_def bvlshr_def bvashr_def)

theorem bitvector_shifts_witness:
  "op_ok (bvlshr 4 7) words_store (\<lambda>t s'. word_term s' t 2
     (\<lambda>\<sigma>. (of_bool (\<sigma> 0) + 2 * of_bool (\<sigma> 1)) div 2 ^ (of_bool (\<sigma> 2) + 2 * of_bool (\<sigma> 3))))"
  using bitvector_shifts [OF words_store_ok] by simp

text \<open>C24: The eight comparisons return a Boolean term that is true exactly under the assignments at
  which the words, read as naturals or in two's complement, compare so.\<close>

theorem bitvector_order:
  assumes "store_ok s" "word_term s l w A" "word_term s r w B"
  shows "op_ok (bvult l r) s (\<lambda>t s'. denotes s' t (\<lambda>\<sigma>. A \<sigma> < B \<sigma>))
    \<and> op_ok (bvule l r) s (\<lambda>t s'. denotes s' t (\<lambda>\<sigma>. A \<sigma> \<le> B \<sigma>))
    \<and> op_ok (bvugt l r) s (\<lambda>t s'. denotes s' t (\<lambda>\<sigma>. A \<sigma> > B \<sigma>))
    \<and> op_ok (bvuge l r) s (\<lambda>t s'. denotes s' t (\<lambda>\<sigma>. A \<sigma> \<ge> B \<sigma>))
    \<and> op_ok (bvslt l r) s (\<lambda>t s'. denotes s' t (\<lambda>\<sigma>. signed_value w (A \<sigma>) < signed_value w (B \<sigma>)))
    \<and> op_ok (bvsle l r) s (\<lambda>t s'. denotes s' t (\<lambda>\<sigma>. signed_value w (A \<sigma>) \<le> signed_value w (B \<sigma>)))
    \<and> op_ok (bvsgt l r) s (\<lambda>t s'. denotes s' t (\<lambda>\<sigma>. signed_value w (A \<sigma>) > signed_value w (B \<sigma>)))
    \<and> op_ok (bvsge l r) s (\<lambda>t s'. denotes s' t (\<lambda>\<sigma>. signed_value w (A \<sigma>) \<ge> signed_value w (B \<sigma>)))"
  using assms by (simp add: bvult_ok bvule_ok bvslt_ok bvsle_ok bvugt_def bvuge_def bvsgt_def bvsge_def)

theorem bitvector_order_witness:
  "op_ok (bvule 4 7) words_store (\<lambda>t s'. denotes s' t
     (\<lambda>\<sigma>. of_bool (\<sigma> 0) + 2 * of_bool (\<sigma> 1) \<le> (of_bool (\<sigma> 2) + 2 * of_bool (\<sigma> 3) :: nat)))"
  using bitvector_order [OF words_store_ok] by simp

text \<open>A decimal literal of digits without a leading zero becomes the word of its value when the
  value fits the width, and is refused, the store unchanged, exactly when it does not.\<close>

theorem decimal_literal_value:
  assumes "store_ok s" "decimal \<noteq> []" "list_all is_ascii_digit decimal" "length decimal = 1 \<or> hd decimal \<noteq> CHR ''0''"
    "0 < w" "w \<le> MAX_BITVECTOR_WIDTH"
  shows "if digits_value (map digit_value decimal) < 2 ^ w
    then op_ok (bitvec_from_decimal decimal w) s (\<lambda>t s'. word_term s' t w (\<lambda>_. digits_value (map digit_value decimal)))
    else bitvec_from_decimal decimal w s = (Inl (Rejected (ValueTooWide w)), s)"
  using bitvec_from_decimal_ok [OF assms] by simp

theorem decimal_literal_value_witness:
  "op_ok (bitvec_from_decimal ''13'' 4) ts_new (\<lambda>t s'. word_term s' t 4 (\<lambda>_. 13))
   \<and> bitvec_from_decimal ''16'' 4 ts_new = (Inl (Rejected (ValueTooWide 4)), ts_new)"
  using decimal_literal_value [OF ts_new_ok, of "''13''" 4] decimal_literal_value [OF ts_new_ok, of "''16''" 4]
  by (simp add: is_ascii_digit_def digit_value_def MAX_BITVECTOR_WIDTH_def)

text \<open>Rotating a word to the left and the result to the right by the same amount gives back its
  value, and so does the other order; extracting the two parts of a concatenation gives the parts.\<close>

theorem rotation_and_concat_inverse:
  assumes "store_ok s" "word_term s l v A" "word_term s r w B" "v + w \<le> MAX_BITVECTOR_WIDTH"
  shows "op_ok (bind_op (rotate_left l amount) (\<lambda>t. rotate_right t amount)) s (\<lambda>t s'. word_term s' t v A)
    \<and> op_ok (bind_op (rotate_right l amount) (\<lambda>t. rotate_left t amount)) s (\<lambda>t s'. word_term s' t v A)
    \<and> op_ok (bind_op (bv_concat l r) (\<lambda>t. bv_extract t (w - 1) 0)) s (\<lambda>t s'. word_term s' t w B)
    \<and> op_ok (bind_op (bv_concat l r) (\<lambda>t. bv_extract t (v + w - 1) w)) s (\<lambda>t s'. word_term s' t v A)"
proof -
  let ?k = "amount mod v"
  note p = word_term_width(2,3) [OF assms(1,2)] word_term_width(2,3) [OF assms(1,3)]
  have k: "?k \<le> v" using p(1) by (simp add: less_imp_le)
  have r: "(a div 2 ^ m + (a mod 2 ^ m) * 2 ^ n) div 2 ^ n + ((a div 2 ^ m + (a mod 2 ^ m) * 2 ^ n) mod 2 ^ n) * 2 ^ m = a"
    if "a < 2 ^ (n + m)" for a m n :: nat
  proof -
    have "a div 2 ^ m < 2 ^ n" using that by (simp add: less_mult_imp_div_less power_add)
    then show ?thesis by (simp add: mod_div_mult_eq)
  qed
  have rl: "op_ok (bind_op (rotate_left l amount) (\<lambda>t. rotate_right t amount)) s (\<lambda>t s'. word_term s' t v A)"
  proof (rule op_ok_bind [OF rotate_left_ok(1) [OF assms(1,2)]])
    fix t s1 assume 1: "store_ok s1" "word_term s1 t v (\<lambda>\<sigma>. A \<sigma> div 2 ^ (v - ?k) + (A \<sigma> mod 2 ^ (v - ?k)) * 2 ^ ?k)"
    have a: "A \<sigma> < 2 ^ (?k + (v - ?k))" for \<sigma> using p(2) k by simp
    from rotate_left_ok(2) [OF 1, of amount] show "op_ok (rotate_right t amount) s1 (\<lambda>t s'. word_term s' t v A)" by (simp only: r [OF a])
  qed
  have lr: "op_ok (bind_op (rotate_right l amount) (\<lambda>t. rotate_left t amount)) s (\<lambda>t s'. word_term s' t v A)"
  proof (rule op_ok_bind [OF rotate_left_ok(2) [OF assms(1,2)]])
    fix t s1 assume 1: "store_ok s1" "word_term s1 t v (\<lambda>\<sigma>. A \<sigma> div 2 ^ ?k + (A \<sigma> mod 2 ^ ?k) * 2 ^ (v - ?k))"
    have a: "A \<sigma> < 2 ^ (v - ?k + ?k)" for \<sigma> using p(2) k by simp
    from rotate_left_ok(1) [OF 1, of amount] show "op_ok (rotate_left t amount) s1 (\<lambda>t s'. word_term s' t v A)" by (simp only: r [OF a])
  qed
  have e: "op_ok (bind_op (bv_concat l r) (\<lambda>t. bv_extract t high low)) s (\<lambda>t s'. word_term s' t (high + 1 - low) V)"
    if "low \<le> high" "high < v + w" "\<And>\<sigma>. (A \<sigma> * 2 ^ w + B \<sigma>) div 2 ^ low mod 2 ^ (high + 1 - low) = V \<sigma>" for high low V
  proof (rule op_ok_bind [OF bv_concat_ok [OF assms]])
    fix t s1 assume 1: "store_ok s1" "word_term s1 t (v + w) (\<lambda>\<sigma>. A \<sigma> * 2 ^ w + B \<sigma>)"
    from bv_extract_ok [OF this that(1,2)] show "op_ok (bv_extract t high low) s1 (\<lambda>t s'. word_term s' t (high + 1 - low) V)"
      by (simp only: that(3))
  qed
  show ?thesis using rl lr e [of 0 "w - 1" B] e [of w "v + w - 1" A] p by (simp add: Suc_diff_Suc)
qed

theorem rotation_and_concat_inverse_witness:
  "op_ok (bind_op (rotate_left 4 5) (\<lambda>t. rotate_right t 5)) words_store
     (\<lambda>t s'. word_term s' t 2 (\<lambda>\<sigma>. of_bool (\<sigma> 0) + 2 * of_bool (\<sigma> 1)))"
  using rotation_and_concat_inverse [OF words_store_ok, of 5] by (simp add: MAX_BITVECTOR_WIDTH_def)

text \<open>The literal \<open>#b\<close> followed by binary digits, at least one and at most the width limit, is the
  word with those digits; a fresh word of a valid width has as its bits the next atoms in order.\<close>

theorem fresh_and_binary_words:
  assumes "store_ok s" "0 < w" "w \<le> MAX_BITVECTOR_WIDTH" "length digits = w" "list_all (\<lambda>c. c = CHR ''0'' \<or> c = CHR ''1'') digits"
  shows "op_ok (fresh_bitvec w) s (\<lambda>t s'. word_term s' t w (\<lambda>\<sigma>. bits_nat (map (\<lambda>i. \<sigma> (ts_next_symbol s + i)) [0..<w])))
    \<and> op_ok (bitvec_from_binary (''#b'' @ digits)) s
        (\<lambda>t s'. word_term s' t w (\<lambda>_. foldl (\<lambda>v c. 2 * v + of_bool (c = CHR ''1'')) 0 digits))"
  using fresh_bitvec_ok [OF assms(1-3)] bitvec_from_binary_ok [OF assms(1) _ assms(5)] assms(2-4) by auto

theorem fresh_and_binary_words_witness:
  "op_ok (bitvec_from_binary ''#b110'') ts_new (\<lambda>t s'. word_term s' t 3 (\<lambda>_. 6))"
  using fresh_and_binary_words [OF ts_new_ok, of 3 "''110''"] by (simp add: MAX_BITVECTOR_WIDTH_def)

end
