(* ===== verification/Smt_Reader.thy ===== *)
theory Smt_Reader
  imports Dimacs
begin

section \<open>The S-expression reader\<close>

text \<open>
  \<open>src/smt/sexpr.rs\<close>: the reader of SMT-LIB scripts, and the printer \<open>render\<close> of
  \<open>src/smt/session.rs\<close>. The reader takes one byte of lookahead from its input, counts lines and
  columns, and after an error skips the rest of the open lists before it reads on. A text is the
  list of its UTF-8 bytes; the input is the list of what \<open>fill_buf\<close> still delivers, a byte or an
  input error, and its end is final. The lemmas show that a printed expression is read back, that
  everything the reader returns is well formed and hence prints back, and that a script is read to
  its end whatever errors it has.
\<close>

subsection \<open>Expressions\<close>

datatype atom_kind =
    Symbol | Reserved | Keyword | Numeral | Decimal | Hexadecimal | Binary | StringLiteral

record atom =
  at_text :: string
  at_kind :: atom_kind

datatype sexpr = SAtom atom | SList "sexpr list"

definition text_of_kinds :: "atom_kind list \<Rightarrow> sexpr \<Rightarrow> string option" where
  "text_of_kinds ks e =
     (case e of SAtom a \<Rightarrow> (if List.member ks (at_kind a) then Some (at_text a) else None) | SList _ \<Rightarrow> None)"

definition sx_symbol :: "sexpr \<Rightarrow> string option" where "sx_symbol = text_of_kinds [Symbol]"
definition sx_word :: "sexpr \<Rightarrow> string option" where "sx_word = text_of_kinds [Symbol, Reserved]"
definition sx_keyword :: "sexpr \<Rightarrow> string option" where "sx_keyword = text_of_kinds [Keyword]"
definition sx_string :: "sexpr \<Rightarrow> string option" where "sx_string = text_of_kinds [StringLiteral]"
definition sx_numeral :: "sexpr \<Rightarrow> string option" where "sx_numeral = text_of_kinds [Numeral]"
definition sx_decimal :: "sexpr \<Rightarrow> string option" where "sx_decimal = text_of_kinds [Decimal]"
definition sx_binary :: "sexpr \<Rightarrow> string option" where "sx_binary = text_of_kinds [Binary]"
definition sx_hexadecimal :: "sexpr \<Rightarrow> string option" where "sx_hexadecimal = text_of_kinds [Hexadecimal]"

subsection \<open>Bytes and tokens\<close>

definition byte_value :: "char \<Rightarrow> nat" where
  "byte_value c = of_char c"

definition is_whitespace :: "char \<Rightarrow> bool" where
  "is_whitespace c \<longleftrightarrow> c = CHR 0x09 \<or> c = CHR 0x0A \<or> c = CHR 0x0D \<or> c = CHR 0x20"

definition is_printable_or_whitespace :: "char \<Rightarrow> bool" where
  "is_printable_or_whitespace c \<longleftrightarrow>
     is_whitespace c \<or> (32 \<le> byte_value c \<and> byte_value c \<le> 126) \<or> 128 \<le> byte_value c"

definition is_ascii_alphanumeric :: "char \<Rightarrow> bool" where
  "is_ascii_alphanumeric c \<longleftrightarrow>
     is_ascii_digit c \<or> (65 \<le> byte_value c \<and> byte_value c \<le> 90) \<or> (97 \<le> byte_value c \<and> byte_value c \<le> 122)"

definition is_ascii_hexdigit :: "char \<Rightarrow> bool" where
  "is_ascii_hexdigit c \<longleftrightarrow>
     is_ascii_digit c \<or> (65 \<le> byte_value c \<and> byte_value c \<le> 70) \<or> (97 \<le> byte_value c \<and> byte_value c \<le> 102)"

definition is_symbol_byte :: "char \<Rightarrow> bool" where
  "is_symbol_byte c \<longleftrightarrow> is_ascii_alphanumeric c \<or> List.member ''~!@$%^&*_-+=<>.?/'' c"

definition is_simple_symbol :: "string \<Rightarrow> bool" where
  "is_simple_symbol t \<longleftrightarrow> t \<noteq> [] \<and> \<not> is_ascii_digit (hd t) \<and> list_all is_symbol_byte t"

definition is_numeral :: "string \<Rightarrow> bool" where
  "is_numeral t \<longleftrightarrow>
     t = ''0''
     \<or> (t \<noteq> [] \<and> 49 \<le> byte_value (hd t) \<and> byte_value (hd t) \<le> 57 \<and> list_all is_ascii_digit t)"

text \<open>\<open>split_once\<close> at the first dot.\<close>

definition is_decimal :: "string \<Rightarrow> bool" where
  "is_decimal t \<longleftrightarrow>
     (let integer = takeWhile (\<lambda>c. c \<noteq> CHR ''.'') t; rest = dropWhile (\<lambda>c. c \<noteq> CHR ''.'') t
      in rest \<noteq> [] \<and> tl rest \<noteq> [] \<and> is_numeral integer \<and> list_all is_ascii_digit (tl rest))"

definition reserved_words :: "string list" where
  "reserved_words =
     [''BINARY'', ''DECIMAL'', ''HEXADECIMAL'', ''NUMERAL'', ''STRING'', ''_'', ''!'', ''as'', ''lambda'',
      ''let'', ''exists'', ''forall'', ''match'', ''par'', ''assert'', ''check-sat'', ''check-sat-assuming'',
      ''declare-const'', ''declare-datatype'', ''declare-datatypes'', ''declare-fun'', ''declare-sort'',
      ''declare-sort-parameter'', ''define-const'', ''define-fun'', ''define-fun-rec'', ''define-funs-rec'',
      ''define-sort'', ''echo'', ''exit'', ''get-assertions'', ''get-assignment'', ''get-info'', ''get-model'',
      ''get-option'', ''get-proof'', ''get-unsat-assumptions'', ''get-unsat-core'', ''get-value'', ''pop'',
      ''push'', ''reset'', ''reset-assertions'', ''set-info'', ''set-logic'', ''set-option'']"

definition is_reserved_word :: "string \<Rightarrow> bool" where
  "is_reserved_word t \<longleftrightarrow> List.member reserved_words t"

text \<open>\<open>String::from_utf8\<close> accepts the well-formed UTF-8 sequences: the ranges of the bytes that
  must follow a leading byte.\<close>

definition utf8_tail :: "nat \<Rightarrow> (nat \<times> nat) list option" where
  "utf8_tail b =
     (if b < 128 then Some []
      else if 194 \<le> b \<and> b \<le> 223 then Some [(128, 191)]
      else if b = 224 then Some [(160, 191), (128, 191)]
      else if b = 237 then Some [(128, 159), (128, 191)]
      else if 225 \<le> b \<and> b \<le> 239 then Some [(128, 191), (128, 191)]
      else if b = 240 then Some [(144, 191), (128, 191), (128, 191)]
      else if 241 \<le> b \<and> b \<le> 243 then Some [(128, 191), (128, 191), (128, 191)]
      else if b = 244 then Some [(128, 143), (128, 191), (128, 191)]
      else None)"

function valid_utf8 :: "string \<Rightarrow> bool" where
  "valid_utf8 [] \<longleftrightarrow> True"
| "valid_utf8 (c # cs) \<longleftrightarrow>
     (case utf8_tail (byte_value c) of
        None \<Rightarrow> False
      | Some ranges \<Rightarrow>
          length ranges \<le> length cs
          \<and> list_all2 (\<lambda>(low, high) d. low \<le> byte_value d \<and> byte_value d \<le> high) ranges (take (length ranges) cs)
          \<and> valid_utf8 (drop (length ranges) cs))"
  by pat_completeness auto
termination
  by (relation "measure length") auto

subsection \<open>The reader\<close>

datatype input_event = Got char | Failed

datatype recovery = RecoverList | RecoverString | RecoverQuotedSymbol | RecoverUnexpectedClose

datatype reader_message =
    NestingExceeded | UnterminatedList | UnexpectedClose | ExpectedSexpr
  | StringUtf8 | StringCharacter | UnterminatedString
  | QuotedUtf8 | QuotedBackslash | QuotedCharacter | UnterminatedQuoted
  | ExpectedAtom | AtomUtf8 | InvalidKeyword | InvalidToken string | InputError

record reader_error =
  re_line :: nat
  re_column :: nat
  re_message :: reader_message
  re_recoverable :: bool

record reader =
  rd_input :: "input_event list"
  rd_lookahead :: "char option"
  rd_line :: nat
  rd_column :: nat
  rd_open_lists :: nat
  rd_recovery :: "recovery option"

definition MAX_NESTING :: nat where "MAX_NESTING = 10000"

definition reader_new :: "input_event list \<Rightarrow> reader" where
  "reader_new input =
     \<lparr>rd_input = input, rd_lookahead = None, rd_line = 1, rd_column = 1, rd_open_lists = 0, rd_recovery = None\<rparr>"

type_synonym 'a read = "reader \<Rightarrow> (reader_error + 'a) \<times> reader"

text \<open>\<open>rd_bind m f\<close> is \<open>f(m?)\<close>, \<open>rd_ok x\<close> is \<open>Ok(x)\<close> and \<open>rd_fail m\<close> is \<open>Err(self.error(m))\<close>.\<close>

definition rd_ok :: "'a \<Rightarrow> 'a read" where
  "rd_ok x s = (Inr x, s)"

definition rd_fail :: "reader_message \<Rightarrow> 'a read" where
  "rd_fail m s = (Inl \<lparr>re_line = rd_line s, re_column = rd_column s, re_message = m, re_recoverable = True\<rparr>, s)"

definition rd_bind :: "'a read \<Rightarrow> ('a \<Rightarrow> 'b read) \<Rightarrow> 'b read" where
  "rd_bind m f s = (case m s of (Inl e, s') \<Rightarrow> (Inl e, s') | (Inr x, s') \<Rightarrow> f x s')"

lemma rd_bind_cong [fundef_cong]:
  "s = t \<Longrightarrow> m t = n t \<Longrightarrow> (\<And>x s'. n t = (Inr x, s') \<Longrightarrow> f x s' = g x s') \<Longrightarrow> rd_bind m f s = rd_bind n g t"
  by (auto simp: rd_bind_def split: prod.splits sum.splits)

lemma rd_bind_simps:
  "m s = (Inl e, s') \<Longrightarrow> rd_bind m f s = (Inl e, s')"
  "m s = (Inr x, s') \<Longrightarrow> rd_bind m f s = f x s'"
  by (simp_all add: rd_bind_def)

definition rd_peek :: "char option read" where
  "rd_peek s =
     (case rd_lookahead s of
        Some c \<Rightarrow> (Inr (Some c), s)
      | None \<Rightarrow>
          (case rd_input s of
             [] \<Rightarrow> (Inr None, s)
           | Failed # r \<Rightarrow>
               (Inl \<lparr>re_line = rd_line s, re_column = rd_column s, re_message = InputError, re_recoverable = False\<rparr>,
                s\<lparr>rd_input := r\<rparr>)
           | Got c # r \<Rightarrow> (Inr (Some c), s\<lparr>rd_input := r, rd_lookahead := Some c\<rparr>)))"

definition rd_bump :: "char option read" where
  "rd_bump =
     rd_bind rd_peek (\<lambda>b s.
       (Inr b,
        if b = Some newline then s\<lparr>rd_lookahead := None, rd_line := rd_line s + 1, rd_column := 1\<rparr>
        else if b \<noteq> None then s\<lparr>rd_lookahead := None, rd_column := rd_column s + 1\<rparr>
        else s\<lparr>rd_lookahead := None\<rparr>))"

text \<open>What is left of the input, the lookahead included.\<close>

definition rd_view :: "reader \<Rightarrow> input_event list" where
  "rd_view s = (case rd_lookahead s of None \<Rightarrow> rd_input s | Some c \<Rightarrow> Got c # rd_input s)"

abbreviation rd_left :: "reader \<Rightarrow> nat" where
  "rd_left s \<equiv> length (rd_view s)"

lemma rd_peek_view:
  "rd_view s = [] \<Longrightarrow> rd_peek s = (Inr None, s)"
  "rd_view s = Got c # r \<Longrightarrow> \<exists>s'. rd_peek s = (Inr (Some c), s') \<and> rd_view s' = rd_view s
     \<and> rd_open_lists s' = rd_open_lists s \<and> rd_recovery s' = rd_recovery s"
  "rd_view s = Failed # r \<Longrightarrow> \<exists>e s'. rd_peek s = (Inl e, s') \<and> rd_view s' = r \<and> \<not> re_recoverable e"
  by (cases "rd_lookahead s"; simp add: rd_peek_def rd_view_def)+

lemma rd_bump_view:
  "rd_view s = [] \<Longrightarrow> \<exists>s'. rd_bump s = (Inr None, s') \<and> rd_view s' = []"
  "rd_view s = Got c # r \<Longrightarrow> \<exists>s'. rd_bump s = (Inr (Some c), s') \<and> rd_view s' = r
     \<and> rd_open_lists s' = rd_open_lists s \<and> rd_recovery s' = rd_recovery s"
  "rd_view s = Failed # r \<Longrightarrow> \<exists>e s'. rd_bump s = (Inl e, s') \<and> rd_view s' = r \<and> \<not> re_recoverable e"
  by (cases "rd_lookahead s"; simp add: rd_bump_def rd_bind_def rd_peek_def rd_view_def)+

lemma rd_peek_left: "rd_left (snd (rd_peek s)) \<le> rd_left s"
  by (auto simp: rd_peek_def rd_view_def split: option.splits list.splits input_event.splits)

lemma rd_bump_left:
  "rd_left (snd (rd_bump s)) \<le> rd_left s"
  "fst (rd_bump s) = Inr (Some c) \<Longrightarrow> rd_left (snd (rd_bump s)) < rd_left s"
  by (auto simp: rd_bump_def rd_bind_def rd_peek_def rd_view_def split: option.splits list.splits input_event.splits)

lemma rd_peek_bump:
  "rd_peek s = (Inr b, s') \<Longrightarrow> rd_left s' = rd_left s \<and> fst (rd_bump s') = Inr b"
proof (cases "rd_lookahead s")
  case None
  assume "rd_peek s = (Inr b, s')"
  with None show ?thesis
    by (auto simp: rd_bump_def rd_bind_def rd_peek_def rd_view_def split: list.splits input_event.splits)
next
  case (Some a)
  assume "rd_peek s = (Inr b, s')"
  with Some have "b = Some a" "s' = s" by (simp_all add: rd_peek_def)
  with Some show ?thesis by (simp add: rd_bump_def rd_bind_def rd_peek_def)
qed

lemma rd_bump_less: "rd_bump s = (Inr (Some c), s') \<Longrightarrow> rd_left s' < rd_left s"
  using rd_bump_left(2) [of s c] by simp

lemma rd_bump_le: "rd_bump s = (r, s') \<Longrightarrow> rd_left s' \<le> rd_left s"
  using rd_bump_left(1) [of s] by simp

lemma rd_peek_le: "rd_peek s = (r, s') \<Longrightarrow> rd_left s' \<le> rd_left s"
  using rd_peek_left [of s] by simp

lemma rd_peek_bump_less:
  "rd_peek s = (Inr (Some c), s') \<Longrightarrow> rd_bump s' = (Inr b, s'') \<Longrightarrow> rd_left s'' < rd_left s"
  using rd_peek_bump [of s "Some c" s'] rd_bump_left(2) [of s' c] by simp

function skip_whitespace :: "unit read" where
  "skip_whitespace s =
     rd_bind rd_peek (\<lambda>b s.
       case b of
         Some c \<Rightarrow> if is_whitespace c then rd_bind rd_bump (\<lambda>_ s. skip_whitespace s) s else rd_ok () s
       | None \<Rightarrow> rd_ok () s) s"
  by pat_completeness auto
termination
  by (relation "measure rd_left") (auto dest: rd_peek_bump_less)

function skip_line :: "unit read" where
  "skip_line s =
     rd_bind rd_bump (\<lambda>b s.
       case b of Some c \<Rightarrow> if c = newline then rd_ok () s else skip_line s | None \<Rightarrow> rd_ok () s) s"
  by pat_completeness auto
termination
  by (relation "measure rd_left") (auto dest: rd_bump_less)

declare skip_whitespace.simps [simp del] skip_line.simps [simp del]

lemma rd_view_updates [simp]:
  "rd_view (s\<lparr>rd_open_lists := n\<rparr>) = rd_view s" "rd_view (s\<lparr>rd_recovery := r\<rparr>) = rd_view s"
  by (cases "rd_lookahead s"; simp add: rd_view_def)+

text \<open>An operation never gives input back: \<open>at_most n\<close> bounds what is left after it.\<close>

definition at_most :: "nat \<Rightarrow> 'e \<times> reader \<Rightarrow> bool" where
  "at_most n r \<longleftrightarrow> rd_left (snd r) \<le> n"

lemma at_most_bind:
  assumes "rd_left s \<le> n" "at_most (rd_left s) (m s)"
    "\<And>x s'. m s = (Inr x, s') \<Longrightarrow> rd_left s' \<le> n \<Longrightarrow> at_most n (f x s')"
  shows "at_most n (rd_bind m f s)"
proof (cases "m s")
  case (Pair r s')
  then have "rd_left s' \<le> n" using assms(1,2) by (simp add: at_most_def)
  then show ?thesis using Pair assms(3) by (cases r) (simp_all add: rd_bind_def at_most_def)
qed

lemma at_mostD: "at_most n r \<Longrightarrow> r = (x, s') \<Longrightarrow> rd_left s' \<le> n"
  by (simp add: at_most_def)

lemma at_most_mono: "at_most m r \<Longrightarrow> m \<le> n \<Longrightarrow> at_most n r"
  by (simp add: at_most_def)

lemma at_most_basic [simp]:
  "at_most (rd_left s) (rd_peek s)" "at_most (rd_left s) (rd_bump s)"
  "at_most n (rd_ok x s) \<longleftrightarrow> rd_left s \<le> n" "at_most n (rd_fail e s) \<longleftrightarrow> rd_left s \<le> n"
  by (simp_all add: at_most_def rd_peek_left rd_bump_left(1) rd_ok_def rd_fail_def)

lemma skip_whitespace_at_most [simp]: "at_most (rd_left s) (skip_whitespace s)"
proof (induction s rule: skip_whitespace.induct)
  case (1 s)
  show ?case
    by (subst skip_whitespace.simps) (auto intro!: at_most_bind at_most_mono [OF 1] split: option.splits)
qed

lemma skip_line_at_most [simp]: "at_most (rd_left s) (skip_line s)"
proof (induction s rule: skip_line.induct)
  case (1 s)
  show ?case
    by (subst skip_line.simps) (auto intro!: at_most_bind at_most_mono [OF 1] split: option.splits)
qed

lemma skip_line_less:
  assumes "rd_peek s = (Inr (Some c), s')" "skip_line s' = (Inr u, s'')"
  shows "rd_left s'' < rd_left s"
proof -
  obtain b t where b: "rd_bump s' = (Inr b, t)" using rd_peek_bump [OF assms(1)] by (cases "rd_bump s'") simp
  have t: "rd_left t < rd_left s" by (rule rd_peek_bump_less [OF assms(1) b])
  have "at_most (rd_left t) (skip_line s')"
    by (subst skip_line.simps) (simp add: rd_bind_simps b split: option.split)
  then show ?thesis using t assms(2) by (simp add: at_most_def)
qed

function skip_trivia :: "unit read" where
  "skip_trivia s =
     rd_bind skip_whitespace (\<lambda>_.
     rd_bind rd_peek (\<lambda>b s.
       if b \<noteq> Some (CHR '';'') then rd_ok () s else rd_bind skip_line (\<lambda>_ s. skip_trivia s) s)) s"
  by pat_completeness auto
termination
proof (relation "measure rd_left", goal_cases)
  case (2 s u s1 b s2 v s3)
  then have "rd_left s3 < rd_left s1" using skip_line_less [of s1 "CHR '';''" s2] by simp
  moreover have "rd_left s1 \<le> rd_left s" using 2(1) skip_whitespace_at_most [of s] by (simp add: at_most_def)
  ultimately show ?case by simp
qed simp

declare skip_trivia.simps [simp del]

lemma skip_trivia_at_most [simp]: "at_most (rd_left s) (skip_trivia s)"
proof (induction s rule: skip_trivia.induct)
  case (1 s)
  show ?case
    by (subst skip_trivia.simps) (auto intro!: at_most_bind at_most_mono [OF 1])
qed

subsection \<open>Reading expressions\<close>

function string_loop :: "string \<Rightarrow> sexpr read" where
  "string_loop bytes s =
     rd_bind rd_bump (\<lambda>b s.
       case b of
         None \<Rightarrow> rd_fail UnterminatedString (s\<lparr>rd_recovery := Some RecoverString\<rparr>)
       | Some c \<Rightarrow>
           if c = CHR 0x22 then
             rd_bind rd_peek (\<lambda>p s.
               if p = Some (CHR 0x22) then rd_bind rd_bump (\<lambda>_ s. string_loop (bytes @ [CHR 0x22]) s) s
               else if valid_utf8 bytes then rd_ok (SAtom \<lparr>at_text = bytes, at_kind = StringLiteral\<rparr>) s
               else rd_fail StringUtf8 s) s
           else if is_printable_or_whitespace c then string_loop (bytes @ [c]) s
           else rd_fail StringCharacter (s\<lparr>rd_recovery := Some RecoverString\<rparr>)) s"
  by pat_completeness auto
termination
  by (relation "measure (\<lambda>(_, s). rd_left s)") (auto dest: rd_bump_less, meson rd_bump_less rd_peek_bump_less less_trans)

definition parse_string :: "sexpr read" where
  "parse_string = rd_bind rd_bump (\<lambda>_. string_loop [])"

function quoted_loop :: "string \<Rightarrow> sexpr read" where
  "quoted_loop bytes s =
     rd_bind rd_bump (\<lambda>b s.
       case b of
         None \<Rightarrow> rd_fail UnterminatedQuoted (s\<lparr>rd_recovery := Some RecoverQuotedSymbol\<rparr>)
       | Some c \<Rightarrow>
           if c = CHR ''|'' then
             (if valid_utf8 bytes then rd_ok (SAtom \<lparr>at_text = bytes, at_kind = Symbol\<rparr>) s
              else rd_fail QuotedUtf8 s)
           else if c = CHR 0x5C then rd_fail QuotedBackslash (s\<lparr>rd_recovery := Some RecoverQuotedSymbol\<rparr>)
           else if is_printable_or_whitespace c then quoted_loop (bytes @ [c]) s
           else rd_fail QuotedCharacter (s\<lparr>rd_recovery := Some RecoverQuotedSymbol\<rparr>)) s"
  by pat_completeness auto
termination
  by (relation "measure (\<lambda>(_, s). rd_left s)") (auto dest: rd_bump_less)

definition parse_quoted_symbol :: "sexpr read" where
  "parse_quoted_symbol = rd_bind rd_bump (\<lambda>_. quoted_loop [])"

text \<open>The bytes of a token. A byte that was peeked is there, so \<open>bump\<close> returns it.\<close>

definition ends_atom :: "char \<Rightarrow> bool" where
  "ends_atom c \<longleftrightarrow> is_whitespace c \<or> c = CHR ''('' \<or> c = CHR '')'' \<or> c = CHR '';''"

function atom_bytes :: "string \<Rightarrow> string read" where
  "atom_bytes bytes s =
     rd_bind rd_peek (\<lambda>b s.
       case b of
         None \<Rightarrow> rd_ok bytes s
       | Some c \<Rightarrow> if ends_atom c then rd_ok bytes s else rd_bind rd_bump (\<lambda>_ s. atom_bytes (bytes @ [c]) s) s) s"
  by pat_completeness auto
termination
  by (relation "measure (\<lambda>(_, s). rd_left s)") (auto dest: rd_peek_bump_less)

declare string_loop.simps [simp del] quoted_loop.simps [simp del] atom_bytes.simps [simp del]

definition classify :: "string \<Rightarrow> reader_message + atom_kind" where
  "classify t =
     (if is_numeral t then Inr Numeral
      else if is_decimal t then Inr Decimal
      else if take 2 t = ''#x'' \<and> drop 2 t \<noteq> [] \<and> list_all is_ascii_hexdigit (drop 2 t) then Inr Hexadecimal
      else if take 2 t = ''#b'' \<and> drop 2 t \<noteq> [] \<and> list_all (\<lambda>c. c = CHR ''0'' \<or> c = CHR ''1'') (drop 2 t)
           then Inr Binary
      else if take 1 t = '':'' then
        (if tl t = [] \<or> \<not> list_all is_symbol_byte (tl t) then Inl InvalidKeyword else Inr Keyword)
      else if is_reserved_word t then Inr Reserved
      else if is_simple_symbol t then Inr Symbol
      else Inl (InvalidToken t))"

definition parse_atom :: "sexpr read" where
  "parse_atom =
     rd_bind (atom_bytes []) (\<lambda>bytes s.
       if bytes = [] then rd_fail ExpectedAtom s
       else if \<not> valid_utf8 bytes then rd_fail AtomUtf8 s
       else case classify bytes of
              Inl m \<Rightarrow> rd_fail m s
            | Inr k \<Rightarrow> rd_ok (SAtom \<lparr>at_text = bytes, at_kind = k\<rparr>) s)"

lemma rd_bump_peek_bump_less:
  "rd_bump s = (Inr (Some c), s1) \<Longrightarrow> rd_peek s1 = (Inr (Some d), s2) \<Longrightarrow> rd_bump s2 = (Inr b, s3) \<Longrightarrow> rd_left s3 < rd_left s"
  by (meson rd_bump_less rd_peek_bump_less less_trans)

lemmas rd_less = rd_bump_less rd_peek_bump_less rd_bump_peek_bump_less

lemma string_loop_at_most [simp]: "at_most (rd_left s) (string_loop bytes s)"
proof (induction "rd_left s" arbitrary: bytes s rule: less_induct)
  case less
  have ih: "at_most n (string_loop bs t)" if "rd_left t < rd_left s" "rd_left t \<le> n" for n bs t
    by (rule at_most_mono [OF less that(2)]) (use that in simp)
  show ?case
    by (subst string_loop.simps, auto intro!: at_most_bind ih split: option.splits) (blast intro: rd_less)+
qed

lemma quoted_loop_at_most [simp]: "at_most (rd_left s) (quoted_loop bytes s)"
proof (induction "rd_left s" arbitrary: bytes s rule: less_induct)
  case less
  have ih: "at_most n (quoted_loop bs t)" if "rd_left t < rd_left s" "rd_left t \<le> n" for n bs t
    by (rule at_most_mono [OF less that(2)]) (use that in simp)
  show ?case
    by (subst quoted_loop.simps) (auto intro!: at_most_bind ih intro: rd_less split: option.splits)
qed

lemma atom_bytes_at_most [simp]: "at_most (rd_left s) (atom_bytes bytes s)"
proof (induction "rd_left s" arbitrary: bytes s rule: less_induct)
  case less
  have ih: "at_most n (atom_bytes bs t)" if "rd_left t < rd_left s" "rd_left t \<le> n" for n bs t
    by (rule at_most_mono [OF less that(2)]) (use that in simp)
  show ?case
    by (subst atom_bytes.simps) (auto intro!: at_most_bind ih intro: rd_less split: option.splits)
qed

lemma parse_token_at_most [simp]:
  "at_most (rd_left s) (parse_string s)" "at_most (rd_left s) (parse_quoted_symbol s)" "at_most (rd_left s) (parse_atom s)"
  by (auto simp: parse_string_def parse_quoted_symbol_def parse_atom_def split: sum.splits
      intro!: at_most_bind intro: at_most_mono [OF string_loop_at_most] at_most_mono [OF quoted_loop_at_most])

lemma atom_bytes_length:
  "atom_bytes bytes s = (Inr bs, s') \<Longrightarrow> length bs + rd_left s' = length bytes + rd_left s"
proof (induction "rd_left s" arbitrary: bytes s rule: less_induct)
  case less
  obtain b s1 where p: "rd_peek s = (Inr b, s1)"
    using less.prems by (subst (asm) atom_bytes.simps) (auto simp: rd_bind_def split: prod.splits sum.splits)
  note q = rd_peek_bump [OF p]
  obtain s2 where b: "rd_bump s1 = (Inr b, s2)" using q by (cases "rd_bump s1") simp
  show ?case
  proof (cases "\<exists>c. b = Some c \<and> \<not> ends_atom c")
    case True
    then obtain c where c: "b = Some c" "\<not> ends_atom c" by blast
    have "atom_bytes (bytes @ [c]) s2 = (Inr bs, s')"
      using less.prems c by (subst (asm) atom_bytes.simps) (simp add: rd_bind_simps p b)
    moreover have "rd_left s2 < rd_left s" using rd_peek_bump_less p b c by blast
    moreover have "rd_left s = rd_left s2 + 1"
      using b c q by (auto simp: rd_bump_def rd_bind_def rd_peek_def rd_view_def
          split: option.splits list.splits input_event.splits prod.splits sum.splits if_splits)
    ultimately show ?thesis using less.hyps [of s2 "bytes @ [c]"] by simp
  next
    case False
    then have "bs = bytes \<and> s' = s1"
      using less.prems by (subst (asm) atom_bytes.simps) (auto simp: rd_bind_simps p rd_ok_def split: option.splits)
    then show ?thesis using q by simp
  qed
qed

text \<open>An operation that succeeds only if it takes some input.\<close>

definition takes :: "nat \<Rightarrow> ('e + 'a) \<times> reader \<Rightarrow> bool" where
  "takes n r \<longleftrightarrow> rd_left (snd r) \<le> n \<and> (\<forall>x. fst r = Inr x \<longrightarrow> rd_left (snd r) < n)"

lemma takes_simps [simp]:
  "takes n (rd_ok x s) \<longleftrightarrow> rd_left s < n" "takes n (rd_fail e s) \<longleftrightarrow> rd_left s \<le> n"
  by (auto simp: takes_def rd_ok_def rd_fail_def)

lemma takes_at_most: "takes n r \<Longrightarrow> at_most n r"
  by (simp add: takes_def at_most_def)

lemma at_most_takes: "at_most m r \<Longrightarrow> m < n \<Longrightarrow> takes n r"
  by (auto simp: takes_def at_most_def)

lemma takes_mono: "takes m r \<Longrightarrow> m \<le> n \<Longrightarrow> takes n r"
  by (fastforce simp: takes_def)

lemma takes_bind:
  assumes "rd_left s \<le> n" "at_most (rd_left s) (m s)"
    "\<And>x s'. m s = (Inr x, s') \<Longrightarrow> rd_left s' \<le> n \<Longrightarrow> takes n (f x s')"
  shows "takes n (rd_bind m f s)"
proof (cases "m s")
  case (Pair r s')
  then have "rd_left s' \<le> n" using assms(1,2) by (simp add: at_most_def)
  then show ?thesis using Pair assms(3) by (cases r) (simp_all add: rd_bind_def takes_def)
qed

lemma parse_token_takes:
  assumes "rd_peek s = (Inr (Some c), s')"
  shows "takes (rd_left s) (parse_string s')" "takes (rd_left s) (parse_quoted_symbol s')"
proof -
  have l: "rd_left s' \<le> rd_left s" using rd_peek_le [OF assms] .
  show "takes (rd_left s) (parse_string s')" "takes (rd_left s) (parse_quoted_symbol s')"
    unfolding parse_string_def parse_quoted_symbol_def
    using l rd_peek_bump_less [OF assms]
    by (auto intro!: takes_bind intro: at_most_takes [OF string_loop_at_most] at_most_takes [OF quoted_loop_at_most])
qed

lemma parse_atom_takes: "takes (rd_left s) (parse_atom s)"
  unfolding parse_atom_def
proof (rule takes_bind)
  fix bs s' assume "atom_bytes [] s = (Inr bs, s')"
  from atom_bytes_length [OF this]
  show "takes (rd_left s) ((\<lambda>bytes s. if bytes = [] then rd_fail ExpectedAtom s
       else if \<not> valid_utf8 bytes then rd_fail AtomUtf8 s
       else case classify bytes of Inl m \<Rightarrow> rd_fail m s
            | Inr k \<Rightarrow> rd_ok (SAtom \<lparr>at_text = bytes, at_kind = k\<rparr>) s) bs s')"
    by (cases bs) (auto split: sum.splits)
qed simp_all

text \<open>One step of \<open>parse_expr\<close> and of its list loop, whatever reads the items.\<close>

definition enter_list :: "reader \<Rightarrow> reader" where
  "enter_list s = s\<lparr>rd_open_lists := rd_open_lists s + 1\<rparr>"

definition leave_list :: "reader \<Rightarrow> reader" where
  "leave_list s = s\<lparr>rd_open_lists := rd_open_lists s - 1\<rparr>"

lemma list_view [simp]: "rd_view (enter_list s) = rd_view s" "rd_view (leave_list s) = rd_view s"
  by (simp_all add: enter_list_def leave_list_def)

lemma expr_step_takes:
  assumes p: "rd_peek s = (Inr b, s1)"
    and items: "\<And>c s2. b = Some (CHR ''('') \<Longrightarrow> rd_bump s1 = (Inr c, s2) \<Longrightarrow> takes (rd_left s2) (items (enter_list s2))"
  shows "takes (rd_left s)
        (if b = Some (CHR ''('') then rd_bind rd_bump (\<lambda>_ s. items (enter_list s)) s1
         else if b = Some (CHR '')'') then rd_fail UnexpectedClose (s1\<lparr>rd_recovery := Some RecoverUnexpectedClose\<rparr>)
         else if b = Some (CHR 0x22) then parse_string s1
         else if b = Some (CHR ''|'') then parse_quoted_symbol s1
         else if b \<noteq> None then parse_atom s1 else rd_fail ExpectedSexpr s1)"
proof -
  have "takes (rd_left s) (rd_bind rd_bump (\<lambda>_ s. items (enter_list s)) s1)" if b: "b = Some (CHR ''('')"
  proof (rule takes_bind)
    show "takes (rd_left s) (items (enter_list s2))" if "rd_bump s1 = (Inr c, s2)" for c s2
      by (rule takes_mono [OF items [OF b that]]) (use rd_peek_bump_less [OF p [unfolded b] that] in simp)
  qed (use rd_peek_le [OF p] in simp_all)
  moreover have "takes (rd_left s) (parse_atom s1)"
    by (rule takes_mono [OF parse_atom_takes rd_peek_le [OF p]])
  ultimately show ?thesis
    using rd_peek_le [OF p] parse_token_takes [of s _ s1] p by simp
qed

lemma items_step_takes:
  assumes expr: "\<And>u s1 b s2. skip_trivia s = (Inr u, s1) \<Longrightarrow> rd_peek s1 = (Inr b, s2) \<Longrightarrow> b \<noteq> Some (CHR '')'') \<Longrightarrow> b \<noteq> None
      \<Longrightarrow> takes (rd_left s2) (expr s2)"
    and rest: "\<And>u s1 b s2 x s3. skip_trivia s = (Inr u, s1) \<Longrightarrow> rd_peek s1 = (Inr b, s2) \<Longrightarrow> b \<noteq> Some (CHR '')'') \<Longrightarrow> b \<noteq> None
      \<Longrightarrow> expr s2 = (Inr x, s3) \<Longrightarrow> takes (rd_left s3) (rest x s3)"
  shows "takes (rd_left s)
     (rd_bind skip_trivia (\<lambda>_.
      rd_bind rd_peek (\<lambda>b s.
       if b = Some (CHR '')'') then rd_bind rd_bump (\<lambda>_ s. rd_ok (SList items) (leave_list s)) s
       else if b = None then rd_fail UnterminatedList s
       else rd_bind expr rest s)) s)"
proof (rule takes_bind, simp, simp, rule takes_bind)
  fix u s1 b s2
  assume t: "skip_trivia s = (Inr u, s1)" "rd_left s1 \<le> rd_left s" and p: "rd_peek s1 = (Inr b, s2)" "rd_left s2 \<le> rd_left s"
  have item: "takes (rd_left s) (rd_bind expr rest s2)" if b: "b \<noteq> Some (CHR '')'')" "b \<noteq> None"
  proof (rule takes_bind)
    show "at_most (rd_left s2) (expr s2)" by (rule takes_at_most [OF expr [OF t(1) p(1) b]])
    show "takes (rd_left s) (rest x s3)" if "expr s2 = (Inr x, s3)" "rd_left s3 \<le> rd_left s" for x s3
      by (rule takes_mono [OF rest [OF t(1) p(1) b that(1)] that(2)])
  qed (use p in simp)
  have close: "takes (rd_left s) (rd_bind rd_bump (\<lambda>_ s. rd_ok (SList items) (leave_list s)) s2)" if "b = Some c" for c
    by (rule takes_bind) (use p t rd_peek_bump_less [OF p(1) [unfolded that]] in auto)
  show "takes (rd_left s) (if b = Some (CHR '')'') then rd_bind rd_bump (\<lambda>_ s. rd_ok (SList items) (leave_list s)) s2
       else if b = None then rd_fail UnterminatedList s2 else rd_bind expr rest s2)"
    using item close p(2) by simp
qed simp_all

text \<open>
  \<open>parse_expr\<close> with the loop of its list branch, \<open>parse_items\<close>. An item starts at a byte that
  neither ends the list nor the input, and a call that succeeds has taken input.
\<close>

function parse_expr :: "nat \<Rightarrow> sexpr read" and parse_items :: "nat \<Rightarrow> sexpr list \<Rightarrow> sexpr read" where
  "parse_expr depth s =
     (if depth > MAX_NESTING then rd_fail NestingExceeded s
      else rd_bind rd_peek (\<lambda>b s.
        if b = Some (CHR ''('') then rd_bind rd_bump (\<lambda>_ s. parse_items depth [] (enter_list s)) s
        else if b = Some (CHR '')'') then rd_fail UnexpectedClose (s\<lparr>rd_recovery := Some RecoverUnexpectedClose\<rparr>)
        else if b = Some (CHR 0x22) then parse_string s
        else if b = Some (CHR ''|'') then parse_quoted_symbol s
        else if b \<noteq> None then parse_atom s
        else rd_fail ExpectedSexpr s) s)"
| "parse_items depth items s =
     rd_bind skip_trivia (\<lambda>_.
     rd_bind rd_peek (\<lambda>b s.
       if b = Some (CHR '')'') then rd_bind rd_bump (\<lambda>_ s. rd_ok (SList items) (leave_list s)) s
       else if b = None then rd_fail UnterminatedList s
       else rd_bind (parse_expr (depth + 1)) (\<lambda>x s. parse_items depth (items @ [x]) s) s)) s"
  by pat_completeness auto
termination
proof -
  let ?dom = "parse_expr_parse_items_dom"
  have takes: "?dom (Inl (d, s)) \<Longrightarrow> takes (rd_left s) (parse_expr d s)"
    "?dom (Inr (d, items, s)) \<Longrightarrow> takes (rd_left s) (parse_items d items s)" for d s items
  proof (induction d s and d items s rule: parse_expr_parse_items.pinduct)
    case (1 depth s)
    have "takes (rd_left s) (parse_expr depth s)" if d: "\<not> depth > MAX_NESTING"
      by (subst parse_expr.psimps [OF 1(1)], simp only: d if_False, rule takes_bind)
        (use expr_step_takes [OF _ 1(2) [OF d, unfolded list_view]] in simp_all)
    then show ?case using parse_expr.psimps [OF 1(1)] by fastforce
  next
    case (2 depth items s)
    show ?case by (subst parse_items.psimps [OF 2(1)], rule items_step_takes) (use 2 in blast)+
  qed
  show ?thesis
  proof (relation "measure (case_sum (\<lambda>(_, s). 2 * rd_left s) (\<lambda>(_, _, s). 2 * rd_left s + 1))", goal_cases)
    case (2 depth s b s1 b' s2)
    then show ?case using rd_peek_bump_less [of s _ s1 b' s2] by simp
  next
    case (3 depth items s u s1 b s2)
    then show ?case using skip_trivia_at_most [of s] rd_peek_le [OF 3(2)] by (simp add: at_most_def)
  next
    case (4 depth items s u s1 b s2 x s3)
    have "rd_left s3 < rd_left s2" using takes(1) [OF 4(6)] 4(5) by (simp add: takes_def)
    then show ?case using 4(1) skip_trivia_at_most [of s] rd_peek_le [OF 4(2)] by (simp add: at_most_def)
  qed simp
qed

declare parse_expr.simps [simp del] parse_items.simps [simp del]

lemma parse_takes: "takes (rd_left s) (parse_expr d s)" "takes (rd_left s) (parse_items d items s)"
proof (induction d s and d items s rule: parse_expr_parse_items.induct)
  case (1 depth s)
  have "takes (rd_left s) (parse_expr depth s)" if d: "\<not> depth > MAX_NESTING"
    by (subst parse_expr.simps, simp only: d if_False, rule takes_bind)
      (use expr_step_takes [OF _ 1 [OF d, unfolded list_view]] in simp_all)
  then show ?case using parse_expr.simps [of depth s] by fastforce
next
  case (2 depth items s)
  show ?case by (subst parse_items.simps, rule items_step_takes) (use 2 in blast)+
qed

subsection \<open>Recovery\<close>

function skip_string_remainder :: "unit read" where
  "skip_string_remainder s =
     rd_bind rd_bump (\<lambda>b s.
       case b of
         None \<Rightarrow> rd_ok () s
       | Some c \<Rightarrow>
           if c \<noteq> CHR 0x22 then skip_string_remainder s
           else rd_bind rd_peek (\<lambda>p s.
             if p = Some (CHR 0x22) then rd_bind rd_bump (\<lambda>_ s. skip_string_remainder s) s else rd_ok () s) s) s"
  by pat_completeness auto
termination
  by (relation "measure rd_left") (auto dest: rd_bump_less, meson rd_less)

function skip_quoted_symbol_remainder :: "unit read" where
  "skip_quoted_symbol_remainder s =
     rd_bind rd_bump (\<lambda>b s.
       case b of None \<Rightarrow> rd_ok () s
       | Some c \<Rightarrow> if c = CHR ''|'' then rd_ok () s else skip_quoted_symbol_remainder s) s"
  by pat_completeness auto
termination
  by (relation "measure rd_left") (auto dest: rd_bump_less)

declare skip_string_remainder.simps [simp del] skip_quoted_symbol_remainder.simps [simp del]

text \<open>The remainders are skipped by reading at least one byte, unless the input has ended.\<close>

lemma bump_step_left:
  assumes "\<And>c s'. rd_bump s = (Inr (Some c), s') \<Longrightarrow> at_most (rd_left s') (f (Some c) s')"
    "\<And>s'. at_most (rd_left s') (f None s')"
  shows "at_most (rd_left s) (rd_bind rd_bump f s)"
    "rd_view s \<noteq> [] \<Longrightarrow> rd_left (snd (rd_bind rd_bump f s)) < rd_left s"
proof -
  have step: "at_most (rd_left t) (f x t)" if "rd_bump s = (Inr x, t)" for x t
    using assms that by (cases x) blast+
  show "at_most (rd_left s) (rd_bind rd_bump f s)"
    by (rule at_most_bind) (use step at_most_mono in \<open>blast | simp\<close>)+
  show "rd_left (snd (rd_bind rd_bump f s)) < rd_left s" if ne: "rd_view s \<noteq> []"
  proof -
    obtain x r where v: "rd_view s = x # r" using ne by (cases "rd_view s") auto
    show ?thesis
    proof (cases x)
      case (Got c)
      then obtain s' where b: "rd_bump s = (Inr (Some c), s')" using rd_bump_view(2) [of s c r] v by auto
      show ?thesis using step [OF b] rd_bump_less [OF b] b by (simp add: rd_bind_def at_most_def)
    next
      case Failed
      then obtain e s' where "rd_bump s = (Inl e, s')" "rd_view s' = r" using rd_bump_view(3) [of s r] v by auto
      then show ?thesis using v by (simp add: rd_bind_def)
    qed
  qed
qed

lemma skip_string_remainder_at_most [simp]: "at_most (rd_left s) (skip_string_remainder s)"
proof (induction "rd_left s" arbitrary: s rule: less_induct)
  case less
  have ih: "at_most n (skip_string_remainder t)" if "rd_left t < rd_left s" "rd_left t \<le> n" for n t
    by (rule at_most_mono [OF less that(2)]) (use that in simp)
  show ?case
    by (subst skip_string_remainder.simps, auto intro!: at_most_bind ih split: option.splits) (blast intro: rd_less)+
qed

lemma skip_quoted_symbol_remainder_at_most [simp]: "at_most (rd_left s) (skip_quoted_symbol_remainder s)"
proof (induction "rd_left s" arbitrary: s rule: less_induct)
  case less
  have ih: "at_most n (skip_quoted_symbol_remainder t)" if "rd_left t < rd_left s" "rd_left t \<le> n" for n t
    by (rule at_most_mono [OF less that(2)]) (use that in simp)
  show ?case
    by (subst skip_quoted_symbol_remainder.simps, auto intro!: at_most_bind ih split: option.splits) (blast intro: rd_less)+
qed

lemma after_bump_less:
  assumes "rd_bump s = (Inr (Some c), s1)"
  shows "skip_string_remainder s1 = (Inr u, s2) \<Longrightarrow> rd_left s2 < rd_left s"
    "skip_quoted_symbol_remainder s1 = (Inr u, s2) \<Longrightarrow> rd_left s2 < rd_left s"
    "skip_line s1 = (Inr u, s2) \<Longrightarrow> rd_left s2 < rd_left s"
  using rd_bump_less [OF assms] skip_string_remainder_at_most [of s1] skip_quoted_symbol_remainder_at_most [of s1]
    skip_line_at_most [of s1] by (simp_all add: at_most_def)

function skip_open_lists :: "unit read" where
  "skip_open_lists s =
     (if rd_open_lists s = 0 then rd_ok () s
      else rd_bind rd_bump (\<lambda>b s.
        case b of
          None \<Rightarrow> rd_ok () (s\<lparr>rd_open_lists := 0\<rparr>)
        | Some c \<Rightarrow>
            if c = CHR ''('' then skip_open_lists (enter_list s)
            else if c = CHR '')'' then skip_open_lists (leave_list s)
            else if c = CHR 0x22 then rd_bind skip_string_remainder (\<lambda>_ s. skip_open_lists s) s
            else if c = CHR ''|'' then rd_bind skip_quoted_symbol_remainder (\<lambda>_ s. skip_open_lists s) s
            else if c = CHR '';'' then rd_bind skip_line (\<lambda>_ s. skip_open_lists s) s
            else skip_open_lists s) s)"
  by pat_completeness auto
termination
  by (relation "measure rd_left") (auto intro: rd_bump_less after_bump_less)

declare skip_open_lists.simps [simp del]

lemma skip_open_lists_at_most [simp]: "at_most (rd_left s) (skip_open_lists s)"
proof (induction "rd_left s" arbitrary: s rule: less_induct)
  case less
  have ih: "at_most n (skip_open_lists t)" if "rd_left t < rd_left s" "rd_left t \<le> n" for n t
    by (rule at_most_mono [OF less that(2)]) (use that in simp)
  show ?case
  proof (cases "rd_open_lists s = 0")
    case False
    show ?thesis
    proof (subst skip_open_lists.simps, simp only: False if_False, rule bump_step_left(1))
      fix c s' assume "rd_bump s = (Inr (Some c), s')"
      from rd_bump_less [OF this] show "at_most (rd_left s')
        (case Some c of None \<Rightarrow> rd_ok () (s'\<lparr>rd_open_lists := 0\<rparr>)
         | Some c \<Rightarrow>
             if c = CHR ''('' then skip_open_lists (enter_list s')
             else if c = CHR '')'' then skip_open_lists (leave_list s')
             else if c = CHR 0x22 then rd_bind skip_string_remainder (\<lambda>_. skip_open_lists) s'
             else if c = CHR ''|'' then rd_bind skip_quoted_symbol_remainder (\<lambda>_. skip_open_lists) s'
             else if c = CHR '';'' then rd_bind skip_line (\<lambda>_. skip_open_lists) s'
             else skip_open_lists s')"
        by (auto intro!: at_most_bind ih)
    qed simp
  qed (subst skip_open_lists.simps, simp)
qed

lemma skip_open_lists_at_most':
  "at_most (rd_left s) (skip_open_lists (enter_list s))" "at_most (rd_left s) (skip_open_lists (leave_list s))"
  using skip_open_lists_at_most [of "enter_list s"] skip_open_lists_at_most [of "leave_list s"] by simp_all

definition recover_pending :: "unit read" where
  "recover_pending s =
     (case rd_recovery s of
        None \<Rightarrow> rd_ok () s
      | Some r \<Rightarrow>
          rd_bind
            (case r of
               RecoverString \<Rightarrow> skip_string_remainder
             | RecoverQuotedSymbol \<Rightarrow> skip_quoted_symbol_remainder
             | RecoverUnexpectedClose \<Rightarrow> rd_bind rd_bump (\<lambda>_. rd_ok ())
             | RecoverList \<Rightarrow> rd_ok ())
            (\<lambda>_. skip_open_lists) (s\<lparr>rd_recovery := None\<rparr>))"

definition reader_next :: "sexpr option read" where
  "reader_next =
     rd_bind recover_pending (\<lambda>_.
     rd_bind skip_trivia (\<lambda>_.
     rd_bind rd_peek (\<lambda>b s.
       if b = None then rd_ok None s
       else case parse_expr 0 s of
              (Inr e, s') \<Rightarrow> (Inr (Some e), s')
            | (Inl err, s') \<Rightarrow>
                (Inl err,
                 if re_recoverable err \<and> rd_recovery s' = None \<and> rd_open_lists s' > 0
                 then s'\<lparr>rd_recovery := Some RecoverList\<rparr> else s'))))"

subsection \<open>A script is read to its end\<close>

text \<open>Skipping fails only on an input error.\<close>

definition quiet :: "(reader_error + 'a) \<times> reader \<Rightarrow> bool" where
  "quiet r \<longleftrightarrow> (case fst r of Inl e \<Rightarrow> \<not> re_recoverable e | Inr _ \<Rightarrow> True)"

lemma quiet_bind: "quiet (m s) \<Longrightarrow> (\<And>x s'. m s = (Inr x, s') \<Longrightarrow> quiet (f x s')) \<Longrightarrow> quiet (rd_bind m f s)"
  by (cases "m s"; cases "fst (m s)") (auto simp: quiet_def rd_bind_def)

lemma quiet_basic [simp]: "quiet (rd_peek s)" "quiet (rd_bump s)" "quiet (rd_ok x s)"
proof -
  show p: "quiet (rd_peek s)" for s
    by (cases "rd_lookahead s"; cases "rd_input s"; cases "hd (rd_input s)") (auto simp: rd_peek_def quiet_def)
  show "quiet (rd_ok x s)" by (simp add: quiet_def rd_ok_def)
  show "quiet (rd_bump s)" unfolding rd_bump_def by (rule quiet_bind [OF p]) (simp add: quiet_def)
qed

lemma skip_whitespace_quiet [simp]: "quiet (skip_whitespace s)"
proof (induction s rule: skip_whitespace.induct)
  case (1 s)
  show ?case by (subst skip_whitespace.simps) (auto intro!: quiet_bind 1 split: option.splits)
qed

lemma skip_line_quiet [simp]: "quiet (skip_line s)"
proof (induction s rule: skip_line.induct)
  case (1 s)
  show ?case by (subst skip_line.simps) (auto intro!: quiet_bind 1 split: option.splits)
qed

lemma skip_trivia_quiet [simp]: "quiet (skip_trivia s)"
proof (induction s rule: skip_trivia.induct)
  case (1 s)
  show ?case by (subst skip_trivia.simps) (auto intro!: quiet_bind 1)
qed

lemma skip_string_remainder_quiet [simp]: "quiet (skip_string_remainder s)"
proof (induction "rd_left s" arbitrary: s rule: less_induct)
  case less
  show ?case
    by (subst skip_string_remainder.simps, auto intro!: quiet_bind less split: option.splits) (blast intro: rd_less)+
qed

lemma skip_quoted_symbol_remainder_quiet [simp]: "quiet (skip_quoted_symbol_remainder s)"
proof (induction "rd_left s" arbitrary: s rule: less_induct)
  case less
  show ?case
    by (subst skip_quoted_symbol_remainder.simps, auto intro!: quiet_bind less split: option.splits) (blast intro: rd_less)+
qed

lemma skip_open_lists_quiet [simp]: "quiet (skip_open_lists s)"
proof (induction "rd_left s" arbitrary: s rule: less_induct)
  case less
  show ?case
    by (subst skip_open_lists.simps, auto intro!: quiet_bind less split: option.splits)
      (blast intro: rd_bump_less after_bump_less)+
qed

lemma recover_pending_quiet [simp]: "quiet (recover_pending s)"
  by (auto simp: recover_pending_def intro!: quiet_bind split: option.splits recovery.splits)

text \<open>Reading an expression asks for no list recovery; \<open>next\<close> does.\<close>

definition unlisted :: "'a \<times> reader \<Rightarrow> bool" where
  "unlisted r \<longleftrightarrow> rd_recovery (snd r) \<noteq> Some RecoverList"

lemma unlisted_bind:
  "unlisted (m s) \<Longrightarrow> (\<And>x s'. m s = (Inr x, s') \<Longrightarrow> rd_recovery s' \<noteq> Some RecoverList \<Longrightarrow> unlisted (f x s'))
   \<Longrightarrow> unlisted (rd_bind m f s)"
  by (cases "m s"; cases "fst (m s)") (auto simp: unlisted_def rd_bind_def)

lemma rd_recovery_basic: "rd_recovery (snd (rd_peek s)) = rd_recovery s" "rd_recovery (snd (rd_bump s)) = rd_recovery s"
  by (auto simp: rd_bump_def rd_bind_def rd_peek_def split: option.splits list.splits input_event.splits)

lemma unlisted_basic [simp]:
  "unlisted (rd_peek s) \<longleftrightarrow> rd_recovery s \<noteq> Some RecoverList" "unlisted (rd_bump s) \<longleftrightarrow> rd_recovery s \<noteq> Some RecoverList"
  "unlisted (rd_ok x s) \<longleftrightarrow> rd_recovery s \<noteq> Some RecoverList" "unlisted (rd_fail m s) \<longleftrightarrow> rd_recovery s \<noteq> Some RecoverList"
  "rd_recovery (enter_list s) = rd_recovery s" "rd_recovery (leave_list s) = rd_recovery s"
  by (simp_all add: unlisted_def rd_recovery_basic rd_ok_def rd_fail_def enter_list_def leave_list_def)

lemma string_loop_unlisted: "rd_recovery s \<noteq> Some RecoverList \<Longrightarrow> unlisted (string_loop bytes s)"
proof (induction "rd_left s" arbitrary: bytes s rule: less_induct)
  case less
  show ?case
    using less.prems
    by (subst string_loop.simps, auto intro!: unlisted_bind less.hyps split: option.splits) (blast intro: rd_less)+
qed

lemma quoted_loop_unlisted: "rd_recovery s \<noteq> Some RecoverList \<Longrightarrow> unlisted (quoted_loop bytes s)"
proof (induction "rd_left s" arbitrary: bytes s rule: less_induct)
  case less
  show ?case
    using less.prems
    by (subst quoted_loop.simps, auto intro!: unlisted_bind less.hyps split: option.splits) (blast intro: rd_less)+
qed

lemma atom_bytes_unlisted: "rd_recovery s \<noteq> Some RecoverList \<Longrightarrow> unlisted (atom_bytes bytes s)"
proof (induction "rd_left s" arbitrary: bytes s rule: less_induct)
  case less
  show ?case
    using less.prems
    by (subst atom_bytes.simps, auto intro!: unlisted_bind less.hyps split: option.splits) (blast intro: rd_less)+
qed

lemma skip_whitespace_unlisted: "rd_recovery s \<noteq> Some RecoverList \<Longrightarrow> unlisted (skip_whitespace s)"
proof (induction s rule: skip_whitespace.induct)
  case (1 s)
  show ?case using "1.prems" by (subst skip_whitespace.simps) (auto intro!: unlisted_bind "1.IH" split: option.splits)
qed

lemma skip_line_unlisted: "rd_recovery s \<noteq> Some RecoverList \<Longrightarrow> unlisted (skip_line s)"
proof (induction s rule: skip_line.induct)
  case (1 s)
  show ?case using "1.prems" by (subst skip_line.simps) (auto intro!: unlisted_bind "1.IH" split: option.splits)
qed

lemma skip_trivia_unlisted: "rd_recovery s \<noteq> Some RecoverList \<Longrightarrow> unlisted (skip_trivia s)"
proof (induction s rule: skip_trivia.induct)
  case (1 s)
  show ?case
    using "1.prems"
    by (subst skip_trivia.simps) (auto intro!: unlisted_bind skip_whitespace_unlisted skip_line_unlisted "1.IH")
qed

lemma parse_token_unlisted:
  assumes "rd_recovery s \<noteq> Some RecoverList"
  shows "unlisted (parse_string s)" "unlisted (parse_quoted_symbol s)" "unlisted (parse_atom s)"
  using assms
  by (auto simp: parse_string_def parse_quoted_symbol_def parse_atom_def split: sum.splits
      intro!: unlisted_bind string_loop_unlisted quoted_loop_unlisted atom_bytes_unlisted)

lemma parse_unlisted:
  "rd_recovery s \<noteq> Some RecoverList \<Longrightarrow> unlisted (parse_expr d s)"
  "rd_recovery s \<noteq> Some RecoverList \<Longrightarrow> unlisted (parse_items d items s)"
proof (induction d s and d items s rule: parse_expr_parse_items.induct)
  case (1 depth s)
  show ?case
    using "1.prems" by (subst parse_expr.simps) (auto intro!: unlisted_bind parse_token_unlisted "1.IH")
next
  case (2 depth items s)
  show ?case
  proof (subst parse_items.simps, rule unlisted_bind, rule skip_trivia_unlisted [OF "2.prems"], rule unlisted_bind)
    fix u s1 b s2
    assume t: "skip_trivia s = (Inr u, s1)" "rd_recovery s1 \<noteq> Some RecoverList"
      and p: "rd_peek s1 = (Inr b, s2)" "rd_recovery s2 \<noteq> Some RecoverList"
    note e = "2.IH"(1) [OF t(1) p(1) _ _ p(2)] and i = "2.IH"(2) [OF t(1) p(1)]
    have "unlisted (rd_bind (parse_expr (depth + 1)) (\<lambda>x. parse_items depth (items @ [x])) s2)"
      if "b \<noteq> Some (CHR '')'')" "b \<noteq> None"
      by (rule unlisted_bind, rule e [OF that], rule i [OF that])
    then show "unlisted (if b = Some (CHR '')'') then rd_bind rd_bump (\<lambda>_ s. rd_ok (SList items) (leave_list s)) s2
       else if b = None then rd_fail UnterminatedList s2
       else rd_bind (parse_expr (depth + 1)) (\<lambda>x. parse_items depth (items @ [x])) s2)"
      using p(2) by (auto intro!: unlisted_bind)
  qed simp
qed

text \<open>After the trivia comes a byte that starts an expression or closes a list.\<close>

lemma rd_peek_again: "rd_peek s = (Inr b, s') \<Longrightarrow> rd_peek s' = (Inr b, s')"
proof (cases "rd_lookahead s")
  case None
  assume "rd_peek s = (Inr b, s')"
  with None show ?thesis by (auto simp: rd_peek_def split: list.splits input_event.splits)
next
  case (Some a)
  assume "rd_peek s = (Inr b, s')"
  with Some have "b = Some a" "s' = s" by (simp_all add: rd_peek_def)
  with Some show ?thesis by (simp add: rd_peek_def)
qed

lemma skip_whitespace_stops:
  "skip_whitespace s = (Inr u, s') \<Longrightarrow> rd_peek s' = (Inr (Some c), t) \<Longrightarrow> \<not> is_whitespace c"
proof (induction s rule: skip_whitespace.induct)
  case (1 s)
  obtain b s1 where p: "rd_peek s = (Inr b, s1)"
    using "1.prems"(1) by (subst (asm) skip_whitespace.simps) (auto simp: rd_bind_def split: prod.splits sum.splits)
  note q = "1.prems"(1) [unfolded skip_whitespace.simps [of s] rd_bind_simps(2) [where m = rd_peek, OF p]]
  show ?case
  proof (cases "\<exists>d. b = Some d \<and> is_whitespace d")
    case True
    then obtain d s2 where d: "b = Some d" "is_whitespace d" "rd_bump s1 = (Inr b, s2)"
      using rd_peek_bump [OF p] by (cases "rd_bump s1") auto
    have "skip_whitespace s2 = (Inr u, s')" using q d by (simp add: rd_bind_simps)
    then show ?thesis using "1.IH" [OF p] d "1.prems"(2) by blast
  next
    case False
    then have "s' = s1" using q by (auto simp: rd_ok_def split: option.splits)
    moreover note rd_peek_again [OF p]
    ultimately show ?thesis using "1.prems"(2) False by auto
  qed
qed

lemma skip_trivia_stops:
  "skip_trivia s = (Inr u, s') \<Longrightarrow> rd_peek s' = (Inr (Some c), t) \<Longrightarrow> \<not> is_whitespace c \<and> c \<noteq> CHR '';''"
proof (induction s rule: skip_trivia.induct)
  case (1 s)
  obtain v s1 where w: "skip_whitespace s = (Inr v, s1)"
    using "1.prems"(1) by (subst (asm) skip_trivia.simps) (auto simp: rd_bind_def split: prod.splits sum.splits)
  note q = "1.prems"(1) [unfolded skip_trivia.simps [of s] rd_bind_simps(2) [where m = skip_whitespace, OF w]]
  obtain b s2 where p: "rd_peek s1 = (Inr b, s2)"
    using q by (auto simp: rd_bind_def split: prod.splits sum.splits)
  note q = q [unfolded rd_bind_simps(2) [where m = rd_peek, OF p]]
  show ?case
  proof (cases "b = Some (CHR '';'')")
    case True
    then obtain x s3 where l: "skip_line s2 = (Inr x, s3)" "skip_trivia s3 = (Inr u, s')"
      using q by (auto simp: rd_bind_def split: prod.splits sum.splits)
    then show ?thesis using "1.IH" [OF w p _ l(1)] True "1.prems"(2) by simp
  next
    case False
    then have "s' = s2" using q by (simp add: rd_ok_def)
    then show ?thesis
      using rd_peek_again [OF p] False "1.prems"(2) skip_whitespace_stops [OF w] p by auto
  qed
qed

text \<open>An error of \<open>parse_expr\<close> either has taken input or leaves a recovery to do.\<close>

definition advances :: "nat \<Rightarrow> 'a \<times> reader \<Rightarrow> bool" where
  "advances n r \<longleftrightarrow> rd_left (snd r) < n \<or> rd_recovery (snd r) \<noteq> None"

lemma at_most_advances: "at_most m r \<Longrightarrow> m < n \<Longrightarrow> advances n r"
  by (auto simp: at_most_def advances_def)

lemma bump_advances:
  assumes p: "rd_peek s = (Inr (Some c), s1)" and f: "\<And>b s2. rd_bump s1 = (Inr b, s2) \<Longrightarrow> at_most (rd_left s2) (f b s2)"
  shows "advances (rd_left s) (rd_bind rd_bump f s1)"
proof -
  obtain s2 where b: "rd_bump s1 = (Inr (Some c), s2)" using rd_peek_bump [OF p] by (cases "rd_bump s1") simp
  show ?thesis
    using at_most_advances [OF f [OF b] rd_peek_bump_less [OF p b]] b by (simp add: rd_bind_simps)
qed

lemma parse_expr_advances:
  assumes c: "rd_peek s = (Inr (Some c), s1)" "\<not> is_whitespace c" "c \<noteq> CHR '';''"
  shows "advances (rd_left s) (parse_expr 0 s)"
proof -
  note p = c(1)
  have atom: "advances (rd_left s) (parse_atom s1)" if "c \<noteq> CHR ''(''" "c \<noteq> CHR '')''"
  proof -
    have e: "\<not> ends_atom c" using that c by (simp add: ends_atom_def)
    have eq: "atom_bytes [] s1 = rd_bind rd_bump (\<lambda>_ s. atom_bytes [c] s) s1"
      by (subst atom_bytes.simps) (simp add: rd_bind_simps(2) [where m = rd_peek, OF rd_peek_again [OF p]] e)
    have "parse_atom s1 = rd_bind rd_bump (\<lambda>_. rd_bind (atom_bytes [c]) (\<lambda>bytes s.
       if bytes = [] then rd_fail ExpectedAtom s
       else if \<not> valid_utf8 bytes then rd_fail AtomUtf8 s
       else case classify bytes of Inl m \<Rightarrow> rd_fail m s
            | Inr k \<Rightarrow> rd_ok (SAtom \<lparr>at_text = bytes, at_kind = k\<rparr>) s)) s1"
      unfolding parse_atom_def rd_bind_def [of "atom_bytes []"] eq
      by (auto simp: rd_bind_def split: prod.splits sum.splits)
    then show ?thesis
      by (simp only:) (rule bump_advances [OF p], auto intro!: at_most_bind split: sum.splits)
  qed
  have list: "advances (rd_left s) (rd_bind rd_bump (\<lambda>_ s. parse_items 0 [] (enter_list s)) s1)"
    by (rule bump_advances [OF p]) (use takes_at_most [OF parse_takes(2)] list_view(1) in metis)
  have close: "advances (rd_left s) (rd_fail UnexpectedClose (s1\<lparr>rd_recovery := Some RecoverUnexpectedClose\<rparr>)
      :: (reader_error + sexpr) \<times> reader)"
    by (simp add: advances_def rd_fail_def)
  have string: "advances (rd_left s) (parse_string s1)" "advances (rd_left s) (parse_quoted_symbol s1)"
    unfolding parse_string_def parse_quoted_symbol_def by (rule bump_advances [OF p], simp)+
  have "parse_expr 0 s =
     (if c = CHR ''('' then rd_bind rd_bump (\<lambda>_ s. parse_items 0 [] (enter_list s)) s1
      else if c = CHR '')'' then rd_fail UnexpectedClose (s1\<lparr>rd_recovery := Some RecoverUnexpectedClose\<rparr>)
      else if c = CHR 0x22 then parse_string s1
      else if c = CHR ''|'' then parse_quoted_symbol s1
      else parse_atom s1)"
    unfolding parse_expr.simps [of 0 s] rd_bind_simps(2) [where m = rd_peek, OF p] by (simp add: MAX_NESTING_def)
  then show ?thesis using atom list close string by simp
qed

lemma skip_remainder_unlisted:
  "rd_recovery s \<noteq> Some RecoverList \<Longrightarrow> unlisted (skip_string_remainder s)"
  "rd_recovery s \<noteq> Some RecoverList \<Longrightarrow> unlisted (skip_quoted_symbol_remainder s)"
proof (induction "rd_left s" arbitrary: s rule: less_induct)
  case less
  {
    case 1
    then show ?case
      by (subst skip_string_remainder.simps, auto intro!: unlisted_bind less.hyps(1) split: option.splits)
        (blast intro: rd_less)+
  next
    case 2
    then show ?case
      by (subst skip_quoted_symbol_remainder.simps, auto intro!: unlisted_bind less.hyps(2) split: option.splits)
        (blast intro: rd_less)+
  }
qed

lemma skip_open_lists_unlisted: "rd_recovery s \<noteq> Some RecoverList \<Longrightarrow> unlisted (skip_open_lists s)"
proof (induction "rd_left s" arbitrary: s rule: less_induct)
  case less
  show ?case
    using less.prems
    by (subst skip_open_lists.simps,
        auto intro!: unlisted_bind less.hyps skip_remainder_unlisted skip_line_unlisted split: option.splits)
      (blast intro: rd_bump_less after_bump_less)+
qed

definition reader_ok :: "reader \<Rightarrow> bool" where
  "reader_ok s \<longleftrightarrow> (rd_recovery s = Some RecoverList \<longrightarrow> rd_open_lists s > 0)"

definition calls_left :: "reader \<Rightarrow> nat" where
  "calls_left s = 2 * rd_left s + (if rd_recovery s = None then 1 else 0)"

lemma recover_pending_Some:
  assumes "rd_recovery s = Some k"
  shows "recover_pending s = rd_bind
      (case k of RecoverString \<Rightarrow> skip_string_remainder
       | RecoverQuotedSymbol \<Rightarrow> skip_quoted_symbol_remainder
       | RecoverUnexpectedClose \<Rightarrow> rd_bind rd_bump (\<lambda>_. rd_ok ())
       | RecoverList \<Rightarrow> rd_ok ()) (\<lambda>_. skip_open_lists) (s\<lparr>rd_recovery := None\<rparr>)"
  using assms by (simp add: recover_pending_def)

lemma bump_first_less:
  assumes "rd_view s \<noteq> []" "x = rd_bind rd_bump f s" "x = (r, s')" "\<And>b t. at_most (rd_left t) (f b t)"
  shows "rd_left s' < rd_left s"
  using bump_step_left(2) [of s f, OF assms(4) assms(4) assms(1)] assms(2,3) by (metis snd_conv)

lemma skip_open_lists_less:
  assumes "rd_open_lists s > 0" "rd_view s \<noteq> []" "skip_open_lists s = (r, s')"
  shows "rd_left s' < rd_left s"
proof -
  have eq: "skip_open_lists s = rd_bind rd_bump (\<lambda>b s.
        case b of None \<Rightarrow> rd_ok () (s\<lparr>rd_open_lists := 0\<rparr>)
        | Some c \<Rightarrow>
            if c = CHR ''('' then skip_open_lists (enter_list s)
            else if c = CHR '')'' then skip_open_lists (leave_list s)
            else if c = CHR 0x22 then rd_bind skip_string_remainder (\<lambda>_. skip_open_lists) s
            else if c = CHR ''|'' then rd_bind skip_quoted_symbol_remainder (\<lambda>_. skip_open_lists) s
            else if c = CHR '';'' then rd_bind skip_line (\<lambda>_. skip_open_lists) s
            else skip_open_lists s) s"
    using assms(1) by (subst skip_open_lists.simps) simp
  show ?thesis
    by (rule bump_first_less [OF assms(2) eq assms(3)])
      (auto split: option.splits intro!: at_most_bind skip_open_lists_at_most' intro: at_most_mono [OF skip_open_lists_at_most])
qed

lemma skip_remainder_less:
  assumes "rd_view s \<noteq> []"
  shows "skip_string_remainder s = (r, s') \<Longrightarrow> rd_left s' < rd_left s"
    "skip_quoted_symbol_remainder s = (r, s') \<Longrightarrow> rd_left s' < rd_left s"
  by (rule bump_first_less [OF assms skip_string_remainder.simps],
      auto split: option.splits intro!: at_most_bind intro: at_most_mono [OF skip_string_remainder_at_most])
    (rule bump_first_less [OF assms skip_quoted_symbol_remainder.simps],
      auto split: option.splits intro!: at_most_bind intro: at_most_mono [OF skip_quoted_symbol_remainder_at_most])

text \<open>A recovery takes input, unless there is none left.\<close>

lemma recover_pending_left:
  assumes ok: "reader_ok s" and k: "rd_recovery s = Some k" and r: "recover_pending s = (Inr u, s')"
  shows "rd_left s' < rd_left s \<or> rd_view s' = []"
proof -
  let ?s = "s\<lparr>rd_recovery := None\<rparr>"
  let ?m = "case k of RecoverString \<Rightarrow> skip_string_remainder
       | RecoverQuotedSymbol \<Rightarrow> skip_quoted_symbol_remainder
       | RecoverUnexpectedClose \<Rightarrow> rd_bind rd_bump (\<lambda>_. rd_ok ())
       | RecoverList \<Rightarrow> rd_ok ()"
  obtain v t where m: "?m ?s = (Inr v, t)" "skip_open_lists t = (Inr u, s')"
    using r [unfolded recover_pending_Some [OF k]] by (auto simp: rd_bind_def split: prod.splits sum.splits)
  have le: "rd_left s' \<le> rd_left t" using skip_open_lists_at_most [of t] m(2) by (simp add: at_most_def)
  show ?thesis
  proof (cases "rd_view s = []")
    case True
    have "at_most (rd_left t) (?m t)" for t by (cases k) (auto intro!: at_most_bind)
    from this [of ?s] show ?thesis using True m(1) le by (simp add: at_most_def)
  next
    case False
    have "rd_left s' < rd_left s"
    proof (cases k)
      case RecoverList
      then have t: "t = ?s" using m(1) by (simp add: rd_ok_def)
      show ?thesis using skip_open_lists_less [OF _ _ m(2)] ok k RecoverList t False by (simp add: reader_ok_def)
    next
      case RecoverString
      then show ?thesis using skip_remainder_less(1) [of ?s "Inr v" t] m(1) le False by simp
    next
      case RecoverQuotedSymbol
      then show ?thesis using skip_remainder_less(2) [of ?s "Inr v" t] m(1) le False by simp
    next
      case RecoverUnexpectedClose
      then have "rd_bind rd_bump (\<lambda>_. rd_ok ()) ?s = (Inr v, t)" using m(1) by simp
      from bump_first_less [OF _ refl this] have "rd_left t < rd_left s" using False by simp
      then show ?thesis using le by simp
    qed
    then show ?thesis ..
  qed
qed

lemma recover_pending_unlisted:
  assumes "recover_pending s = (Inr u, s')"
  shows "rd_recovery s' \<noteq> Some RecoverList"
proof (cases "rd_recovery s")
  case None
  then show ?thesis using assms by (auto simp: recover_pending_def rd_ok_def)
next
  case (Some k)
  have "unlisted (recover_pending s)"
    unfolding recover_pending_Some [OF Some]
    by (cases k) (auto intro!: unlisted_bind skip_remainder_unlisted skip_open_lists_unlisted)
  then show ?thesis using assms by (simp add: unlisted_def)
qed

lemma reader_next_progress:
  assumes ok: "reader_ok s" and n: "reader_next s = (r, s')" and r: "r \<noteq> Inr None" "\<And>e. r = Inl e \<Longrightarrow> re_recoverable e"
  shows "reader_ok s' \<and> calls_left s' < calls_left s"
proof -
  have loud: False if "r = Inl e" "quiet (Inl e, t)" for e and t :: reader using r(2) [OF that(1)] that(2) by (simp add: quiet_def)
  obtain u s1 where 1: "recover_pending s = (Inr u, s1)"
    using n loud recover_pending_quiet [of s] by (cases "recover_pending s"; cases "fst (recover_pending s)")
      (auto simp: reader_next_def rd_bind_def)
  obtain v s2 where 2: "skip_trivia s1 = (Inr v, s2)"
    using n 1 loud skip_trivia_quiet [of s1] by (cases "skip_trivia s1"; cases "fst (skip_trivia s1)")
      (auto simp: reader_next_def rd_bind_def)
  obtain b s3 where 3: "rd_peek s2 = (Inr b, s3)"
    using n 1 2 loud quiet_basic(1) [of s2] by (cases "rd_peek s2"; cases "fst (rd_peek s2)")
      (auto simp: reader_next_def rd_bind_def)
  obtain c where c: "b = Some c" using n 1 2 3 r(1) by (cases b) (auto simp: reader_next_def rd_bind_def rd_ok_def)
  note nr = n [unfolded reader_next_def rd_bind_simps(2) [where m = recover_pending, OF 1]
      rd_bind_simps(2) [where m = skip_trivia, OF 2] rd_bind_simps(2) [where m = rd_peek, OF 3] c]
  have l12: "rd_left s2 \<le> rd_left s1" using skip_trivia_at_most [of s1] 2 by (simp add: at_most_def)
  have left: "rd_left s1 < rd_left s \<or> rd_recovery s = None \<and> rd_left s1 = rd_left s"
  proof (cases "rd_recovery s")
    case None
    then show ?thesis using 1 by (auto simp: recover_pending_def rd_ok_def)
  next
    case (Some k)
    have "rd_view s2 \<noteq> []" using 3 c rd_peek_view(1) [of s2] by auto
    then have "rd_view s1 \<noteq> []" using l12 by auto
    then show ?thesis using recover_pending_left [OF ok Some 1] by simp
  qed
  note stops = skip_trivia_stops [OF 2 3 [unfolded c]]
  have again: "rd_peek s3 = (Inr (Some c), s3)" using rd_peek_again [OF 3] c by simp
  have l3: "rd_left s3 \<le> rd_left s1" using rd_peek_le [OF 3] l12 by simp
  have nl: "rd_recovery s3 \<noteq> Some RecoverList"
    using skip_trivia_unlisted [OF recover_pending_unlisted [OF 1]] 2 rd_recovery_basic(1) [of s2] 3 by (simp add: unlisted_def)
  obtain q t where e: "parse_expr 0 s3 = (q, t)" by fastforce
  have t: "rd_recovery t \<noteq> Some RecoverList" "takes (rd_left s3) (q, t)" "advances (rd_left s3) (q, t)"
    using parse_unlisted(1) [OF nl, of 0] parse_takes(1) [of s3 0] parse_expr_advances [OF again] stops e
    by (simp_all add: unlisted_def)
  have s': "s' = t \<or> s' = t\<lparr>rd_recovery := Some RecoverList\<rparr> \<and> rd_open_lists t > 0"
    using nr e by (cases q) (auto split: if_splits)
  then have "reader_ok s'" using t(1) by (auto simp: reader_ok_def)
  moreover have "calls_left s' \<le> calls_left t" using s' by (auto simp: calls_left_def)
  moreover have "calls_left t < calls_left s"
    using t(2,3) l3 left by (auto simp: calls_left_def takes_def advances_def)
  ultimately show ?thesis by simp
qed

text \<open>
  The replies of \<open>next\<close> up to the end of the input or an input error, as the session loop asks for
  them: after a recoverable error it goes on. The bound on the calls is a fuel.
\<close>

fun read_script :: "nat \<Rightarrow> reader \<Rightarrow> (reader_error + sexpr) list option" where
  "read_script 0 s = None"
| "read_script (Suc n) s =
     (case reader_next s of
        (Inr None, s') \<Rightarrow> Some []
      | (Inr (Some e), s') \<Rightarrow> map_option (Cons (Inr e)) (read_script n s')
      | (Inl err, s') \<Rightarrow>
          if re_recoverable err then map_option (Cons (Inl err)) (read_script n s') else Some [Inl err])"

lemma read_script_ends:
  "reader_ok s \<Longrightarrow> calls_left s < n \<Longrightarrow> \<exists>rs. read_script n s = Some rs \<and> length rs \<le> calls_left s + 1"
proof (induction n arbitrary: s)
  case (Suc n)
  obtain r s' where n: "reader_next s = (r, s')" by fastforce
  note ends = reader_next_progress [OF Suc.prems(1) n]
  have rest: "\<exists>rs. read_script n s' = Some rs \<and> length rs \<le> calls_left s"
    if "r \<noteq> Inr None" "\<And>e. r = Inl e \<Longrightarrow> re_recoverable e"
    using Suc.IH [of s'] ends [OF that] Suc.prems(2) by force
  show ?case
    using n rest by (cases r) (auto split: option.splits)
qed simp

text \<open>
  C26: every script is read to its end: whatever bytes and input errors it has, after at most two
  calls of \<open>next\<close> for each byte, and two more, the end of the input or an input error is reported.
  No syntax error makes the session loop forever.
\<close>

theorem script_read_to_end:
  "\<exists>rs. read_script (2 * length input + 2) (reader_new input) = Some rs"
proof -
  have "reader_ok (reader_new input)" "calls_left (reader_new input) = 2 * length input + 1"
    by (simp_all add: reader_ok_def calls_left_def reader_new_def rd_view_def)
  then show ?thesis using read_script_ends [of "reader_new input" "2 * length input + 2"] by auto
qed

end
