(* ===== verification/Smt_Render.thy ===== *)
theory Smt_Render
  imports Smt_Reader
begin

section \<open>Printing expressions\<close>

text \<open>
  \<open>render\<close>, \<open>quote_string\<close> and \<open>quote_symbol\<close> of \<open>src/smt/session.rs\<close>, which print expressions in
  the responses, and the proof that the reader reads back what they print: strings with doubled
  quotes, symbols between bars where they are no simple symbols, and lists at any depth that the
  reader allows.
\<close>

subsection \<open>The printer\<close>

definition quote_string :: "string \<Rightarrow> string" where
  "quote_string t = [CHR 0x22] @ concat (map (\<lambda>c. if c = CHR 0x22 then [c, c] else [c]) t) @ [CHR 0x22]"

definition quote_symbol :: "string \<Rightarrow> string" where
  "quote_symbol t =
     (let simple = t \<noteq> [] \<and> \<not> is_reserved_word t \<and> \<not> is_ascii_digit (hd t)
        \<and> list_all (\<lambda>c. is_ascii_alphanumeric c \<or> List.member ''~!@$%^&*_-+=<>.?/'' c) t
      in if simple then t else ''|'' @ t @ ''|'')"

text \<open>\<open>join(" ")\<close>.\<close>

fun join_spaces :: "string list \<Rightarrow> string" where
  "join_spaces [] = []"
| "join_spaces [t] = t"
| "join_spaces (t # ts) = t @ '' '' @ join_spaces ts"

fun render :: "sexpr \<Rightarrow> string" where
  "render (SAtom a) =
     (case at_kind a of
        StringLiteral \<Rightarrow> quote_string (at_text a)
      | Symbol \<Rightarrow> quote_symbol (at_text a)
      | _ \<Rightarrow> at_text a)"
| "render (SList items) = ''('' @ join_spaces (map render items) @ '')''"

subsection \<open>What the reader returns is well formed\<close>

definition wf_atom :: "atom \<Rightarrow> bool" where
  "wf_atom a \<longleftrightarrow> valid_utf8 (at_text a) \<and>
     (case at_kind a of
        StringLiteral \<Rightarrow> list_all is_printable_or_whitespace (at_text a)
      | Symbol \<Rightarrow> list_all (\<lambda>c. is_printable_or_whitespace c \<and> c \<noteq> CHR ''|'' \<and> c \<noteq> CHR 0x5C) (at_text a)
      | k \<Rightarrow> classify (at_text a) = Inr k)"

fun well_formed :: "sexpr \<Rightarrow> bool" where
  "well_formed (SAtom a) \<longleftrightarrow> wf_atom a"
| "well_formed (SList items) \<longleftrightarrow> (\<forall>e \<in> set items. well_formed e)"

fun nesting :: "sexpr \<Rightarrow> nat" where
  "nesting (SAtom _) = 0"
| "nesting (SList items) = foldr max (map (\<lambda>e. nesting e + 1) items) 0"

lemma foldr_max_le: "foldr max ms 0 \<le> n \<longleftrightarrow> (\<forall>m \<in> set ms. m \<le> n)" for n :: nat
  by (induction ms) auto

lemma nesting_list: "nesting (SList items) \<le> n \<longleftrightarrow> (\<forall>e \<in> set items. nesting e + 1 \<le> n)"
  by (simp add: foldr_max_le del: foldr_map)

lemma symbol_byte_range: "is_symbol_byte c \<Longrightarrow> 33 \<le> byte_value c \<and> byte_value c \<le> 126"
  by (auto simp: is_symbol_byte_def is_ascii_alphanumeric_def is_ascii_digit_def byte_value_def)

lemma symbol_byte_plain:
  assumes "is_symbol_byte c"
  shows "\<not> ends_atom c" "c \<noteq> CHR 0x22" "c \<noteq> CHR ''|''" "c \<noteq> CHR 0x5C" "c \<noteq> CHR '';''" "\<not> is_whitespace c"
    "c \<noteq> CHR ''('' \<and> c \<noteq> CHR '')''" "c \<noteq> CHR ''#''" "c \<noteq> CHR '':''" "is_printable_or_whitespace c"
  using assms symbol_byte_range [OF assms]
  by (auto simp: is_symbol_byte_def is_ascii_alphanumeric_def is_ascii_digit_def byte_value_def ends_atom_def
      is_whitespace_def is_printable_or_whitespace_def)

lemma digit_symbol_byte: "is_ascii_digit c \<Longrightarrow> is_symbol_byte c"
  by (simp add: is_symbol_byte_def is_ascii_alphanumeric_def)

lemma reserved_symbol_bytes: "list_all (list_all is_symbol_byte) reserved_words"
  by (simp add: reserved_words_def is_symbol_byte_def is_ascii_alphanumeric_def is_ascii_digit_def byte_value_def)

text \<open>The bytes of a token that is no symbol.\<close>

definition token_byte :: "char \<Rightarrow> bool" where
  "token_byte c \<longleftrightarrow> is_symbol_byte c \<or> c = CHR ''#'' \<or> c = CHR '':''"

lemma token_byte_plain:
  assumes "token_byte c"
  shows "\<not> ends_atom c" "c \<noteq> CHR 0x22" "c \<noteq> CHR ''|''" "c \<noteq> CHR '';''" "\<not> is_whitespace c"
    "c \<noteq> CHR ''(''" "c \<noteq> CHR '')''"
  using assms symbol_byte_plain [of c] by (auto simp: token_byte_def ends_atom_def is_whitespace_def)

lemma numeral_bytes: "is_numeral t \<Longrightarrow> t \<noteq> [] \<and> list_all is_ascii_digit t"
  by (auto simp: is_numeral_def is_ascii_digit_def)

lemma list_all_token: "list_all is_ascii_digit t \<Longrightarrow> list_all token_byte t" "list_all is_symbol_byte t \<Longrightarrow> list_all token_byte t"
  by (auto simp: token_byte_def list_all_iff digit_symbol_byte)

lemma decimal_bytes: "is_decimal t \<Longrightarrow> t \<noteq> [] \<and> list_all token_byte t"
proof -
  assume d: "is_decimal t"
  let ?i = "takeWhile (\<lambda>c. c \<noteq> CHR ''.'') t" and ?r = "dropWhile (\<lambda>c. c \<noteq> CHR ''.'') t"
  have r: "?r \<noteq> []" "is_numeral ?i" "list_all is_ascii_digit (tl ?r)" using d by (simp_all add: is_decimal_def Let_def)
  have "hd ?r = CHR ''.''" using hd_dropWhile [OF r(1)] by simp
  moreover have dot: "token_byte (CHR ''.'')" by (simp add: token_byte_def is_symbol_byte_def)
  ultimately have "?r = CHR ''.'' # tl ?r" using r(1) by (cases ?r) auto
  then have "list_all token_byte ?r"
    using list_all_token(1) [OF r(3)] dot by (metis list.pred_inject(2))
  moreover have "list_all token_byte ?i" using numeral_bytes [OF r(2)] list_all_token(1) by blast
  ultimately have "list_all token_byte t" using list_all_append [of token_byte ?i ?r] takeWhile_dropWhile_id by metis
  then show ?thesis using r(1) by auto
qed

lemma reserved_bytes: "is_reserved_word t \<Longrightarrow> list_all is_symbol_byte t"
  using reserved_symbol_bytes by (simp add: is_reserved_word_def list_all_iff)

lemma prefix2_bytes: "take 2 t = [a, b] \<Longrightarrow> t = a # b # drop 2 t"
  by (metis append_Cons append_Nil append_take_drop_id)

lemma hexdigit_symbol_byte: "is_ascii_hexdigit c \<Longrightarrow> is_symbol_byte c"
  by (auto simp: is_ascii_hexdigit_def is_symbol_byte_def is_ascii_alphanumeric_def)

lemma classify_bytes: "classify t = Inr k \<Longrightarrow> t \<noteq> [] \<Longrightarrow> list_all token_byte t"
proof -
  assume k: "classify t = Inr k" and t: "t \<noteq> []"
  consider "is_numeral t" | "is_decimal t" | "take 2 t = ''#x''" "list_all is_ascii_hexdigit (drop 2 t)"
    | "take 2 t = ''#b''" "list_all (\<lambda>c. c = CHR ''0'' \<or> c = CHR ''1'') (drop 2 t)"
    | "take 1 t = '':''" "list_all is_symbol_byte (tl t)" | "is_reserved_word t" | "is_simple_symbol t"
    using k unfolding classify_def by (auto split: if_splits)
  then show ?thesis
  proof cases
    case 1
    then show ?thesis using numeral_bytes list_all_token by blast
  next
    case 2
    then show ?thesis using decimal_bytes by blast
  next
    case 3
    have "list_all token_byte (drop 2 t)"
      using 3(2) hexdigit_symbol_byte by (auto simp: token_byte_def list_all_iff)
    moreover have "is_symbol_byte (CHR ''x'')" by (simp add: is_symbol_byte_def is_ascii_alphanumeric_def byte_value_def)
    ultimately show ?thesis using prefix2_bytes [OF 3(1)] by (metis list.pred_inject(2) token_byte_def)
  next
    case 4
    have b: "is_ascii_digit (CHR ''0'')" "is_ascii_digit (CHR ''1'')" "is_symbol_byte (CHR ''b'')"
      by (simp_all add: is_symbol_byte_def is_ascii_alphanumeric_def is_ascii_digit_def byte_value_def)
    have "list_all is_ascii_digit (drop 2 t)"
      by (rule list.pred_mono_strong [OF 4(2)]) (use b in auto)
    then have "list_all token_byte (drop 2 t)" by (rule list_all_token)
    moreover have "token_byte (CHR ''#'')" "token_byte (CHR ''b'')" using b(3) by (simp_all add: token_byte_def)
    ultimately show ?thesis by (subst prefix2_bytes [OF 4(1)]) simp
  next
    case 5
    have "t = CHR '':'' # tl t" using 5(1) by (cases t) auto
    then show ?thesis using list_all_token(2) [OF 5(2)] by (metis list.pred_inject(2) token_byte_def)
  qed (auto dest: reserved_bytes simp: is_simple_symbol_def list_all_token)
qed

definition yields :: "('a \<Rightarrow> bool) \<Rightarrow> ('e + 'a) \<times> reader \<Rightarrow> bool" where
  "yields P r \<longleftrightarrow> (\<forall>x. fst r = Inr x \<longrightarrow> P x)"

lemma yields_bind: "(\<And>x s'. m s = (Inr x, s') \<Longrightarrow> yields P (f x s')) \<Longrightarrow> yields P (rd_bind m f s)"
  by (cases "m s"; cases "fst (m s)") (auto simp: yields_def rd_bind_def)

lemma yields_basic [simp]: "yields P (rd_ok x s) \<longleftrightarrow> P x" "yields P (rd_fail m s)"
  by (auto simp: yields_def rd_ok_def rd_fail_def)

lemma string_loop_yields:
  "list_all is_printable_or_whitespace bytes \<Longrightarrow> yields well_formed (string_loop bytes s)"
proof (induction "rd_left s" arbitrary: bytes s rule: less_induct)
  case less
  have q: "is_printable_or_whitespace (CHR 0x22)" by (simp add: is_printable_or_whitespace_def byte_value_def)
  show ?case
    using less.prems
    by (subst string_loop.simps, auto intro!: yields_bind less.hyps simp: wf_atom_def q split: option.splits)
      (blast intro: rd_less)+
qed

lemma quoted_loop_yields:
  "list_all (\<lambda>c. is_printable_or_whitespace c \<and> c \<noteq> CHR ''|'' \<and> c \<noteq> CHR 0x5C) bytes
   \<Longrightarrow> yields well_formed (quoted_loop bytes s)"
proof (induction "rd_left s" arbitrary: bytes s rule: less_induct)
  case less
  show ?case
    using less.prems
    by (subst quoted_loop.simps, auto intro!: yields_bind less.hyps simp: wf_atom_def split: option.splits)
      (blast intro: rd_less)+
qed

lemma classify_Symbol: "classify t = Inr Symbol \<Longrightarrow> is_simple_symbol t"
  by (auto simp: classify_def split: if_splits)

lemma classify_StringLiteral: "classify t \<noteq> Inr StringLiteral"
  by (auto simp: classify_def)

lemma parse_atom_yields: "yields well_formed (parse_atom s)"
  unfolding parse_atom_def
proof (rule yields_bind)
  fix t s'
  have "wf_atom \<lparr>at_text = t, at_kind = k\<rparr>" if k: "classify t = Inr k" and t: "valid_utf8 t" for k
  proof (cases "k = Symbol")
    case True
    then have "list_all is_symbol_byte t" using classify_Symbol k by (simp add: is_simple_symbol_def)
    then show ?thesis using True t symbol_byte_plain by (auto simp: wf_atom_def list_all_iff)
  next
    case False
    then show ?thesis using k t classify_StringLiteral [of t] by (cases k) (simp_all add: wf_atom_def)
  qed
  then show "yields well_formed (if t = [] then rd_fail ExpectedAtom s'
       else if \<not> valid_utf8 t then rd_fail AtomUtf8 s'
       else case classify t of Inl m \<Rightarrow> rd_fail m s'
            | Inr k \<Rightarrow> rd_ok (SAtom \<lparr>at_text = t, at_kind = k\<rparr>) s')"
    by (auto split: sum.splits)
qed

text \<open>An expression at depth \<open>d\<close> is well formed and does not exceed the nesting limit.\<close>

definition fits :: "nat \<Rightarrow> sexpr \<Rightarrow> bool" where
  "fits d e \<longleftrightarrow> well_formed e \<and> d + nesting e \<le> MAX_NESTING"

lemma fits_simps [simp]:
  "fits d (SAtom a) \<longleftrightarrow> wf_atom a \<and> d \<le> MAX_NESTING"
  "fits d (SList items) \<longleftrightarrow> d \<le> MAX_NESTING \<and> (\<forall>e \<in> set items. fits (d + 1) e)"
proof -
  show "fits d (SAtom a) \<longleftrightarrow> wf_atom a \<and> d \<le> MAX_NESTING" by (simp add: fits_def)
  have "d + nesting (SList items) \<le> MAX_NESTING
    \<longleftrightarrow> d \<le> MAX_NESTING \<and> (\<forall>e \<in> set items. d + 1 + nesting e \<le> MAX_NESTING)"
  proof (cases "d \<le> MAX_NESTING")
    case True
    then have "d + nesting (SList items) \<le> MAX_NESTING \<longleftrightarrow> nesting (SList items) \<le> MAX_NESTING - d" by linarith
    also have "\<dots> \<longleftrightarrow> (\<forall>e \<in> set items. nesting e + 1 \<le> MAX_NESTING - d)" by (rule nesting_list)
    also have "\<dots> \<longleftrightarrow> (\<forall>e \<in> set items. d + 1 + nesting e \<le> MAX_NESTING)" using True by (intro ball_cong refl) linarith
    finally show ?thesis using True by simp
  qed simp
  then show "fits d (SList items) \<longleftrightarrow> d \<le> MAX_NESTING \<and> (\<forall>e \<in> set items. fits (d + 1) e)"
    unfolding fits_def by auto
qed

lemma token_yields_fits:
  assumes "d \<le> MAX_NESTING"
  shows "yields (fits d) (parse_string s)" "yields (fits d) (parse_quoted_symbol s)" "yields (fits d) (parse_atom s)"
proof -
  have up: "yields (fits d) r" if "yields well_formed r" "\<And>e. fst r = Inr e \<Longrightarrow> \<exists>a. e = SAtom a" for r :: "(reader_error + sexpr) \<times> reader"
    using that assms by (fastforce simp: yields_def)
  have atomic: "yields (\<lambda>e. \<exists>a. e = SAtom a) (string_loop bytes s)" "yields (\<lambda>e. \<exists>a. e = SAtom a) (quoted_loop bytes s)" for bytes s
  proof (induction "rd_left s" arbitrary: bytes s rule: less_induct)
    case less
    {
      case 1
      show ?case
        by (subst string_loop.simps, auto intro!: yields_bind less(1) split: option.splits) (blast intro: rd_less)+
    next
      case 2
      show ?case
        by (subst quoted_loop.simps, auto intro!: yields_bind less(2) split: option.splits) (blast intro: rd_less)+
    }
  qed
  show "yields (fits d) (parse_string s)" unfolding parse_string_def
    by (rule yields_bind, rule up [OF string_loop_yields]) (use atomic(1) in \<open>auto simp: yields_def\<close>)
  show "yields (fits d) (parse_quoted_symbol s)" unfolding parse_quoted_symbol_def
    by (rule yields_bind, rule up [OF quoted_loop_yields]) (use atomic(2) in \<open>auto simp: yields_def\<close>)
  show "yields (fits d) (parse_atom s)"
  proof (rule up [OF parse_atom_yields])
    fix e assume "fst (parse_atom s) = Inr e"
    moreover have "yields (\<lambda>e. \<exists>a. e = SAtom a) (parse_atom s)"
      unfolding parse_atom_def by (rule yields_bind) (auto split: sum.splits)
    ultimately show "\<exists>a. e = SAtom a" by (simp add: yields_def)
  qed
qed

lemma parse_yields:
  "yields (fits d) (parse_expr d s)"
  "d \<le> MAX_NESTING \<Longrightarrow> \<forall>e \<in> set items. fits (d + 1) e \<Longrightarrow> yields (fits d) (parse_items d items s)"
proof (induction d s and d items s rule: parse_expr_parse_items.induct)
  case (1 d s)
  show ?case
  proof (cases "d > MAX_NESTING")
    case False
    then show ?thesis
      by (subst parse_expr.simps) (auto intro!: yields_bind token_yields_fits "1.IH")
  qed (subst parse_expr.simps, simp)
next
  case (2 d items s)
  show ?case
  proof (subst parse_items.simps, rule yields_bind, rule yields_bind)
    fix u s1 b s2
    assume t: "skip_trivia s = (Inr u, s1)" and p: "rd_peek s1 = (Inr b, s2)"
    have "yields (fits d) (rd_bind (parse_expr (d + 1)) (\<lambda>x. parse_items d (items @ [x])) s2)"
      if b: "b \<noteq> Some (CHR '')'')" "b \<noteq> None"
    proof (rule yields_bind)
      fix x s3 assume x: "parse_expr (d + 1) s2 = (Inr x, s3)"
      have "fits (d + 1) x" using "2.IH"(1) [OF t p b] x by (simp add: yields_def)
      then show "yields (fits d) (parse_items d (items @ [x]) s3)"
        using "2.prems" by (intro "2.IH"(2) [OF t p b x]) auto
    qed
    then show "yields (fits d) (if b = Some (CHR '')'') then rd_bind rd_bump (\<lambda>_ s. rd_ok (SList items) (leave_list s)) s2
       else if b = None then rd_fail UnterminatedList s2
       else rd_bind (parse_expr (d + 1)) (\<lambda>x. parse_items d (items @ [x])) s2)"
      using "2.prems" by (auto intro!: yields_bind)
  qed
qed

lemma reader_next_fits:
  assumes "reader_next s = (Inr (Some e), s')"
  shows "fits 0 e"
proof -
  have "\<exists>t. parse_expr 0 t = (Inr e, s')"
    using assms by (auto simp: reader_next_def rd_bind_def rd_ok_def split: prod.splits sum.splits if_splits)
  then obtain t where "parse_expr 0 t = (Inr e, s')" ..
  then show ?thesis using parse_yields(1) [of 0 t] by (simp add: yields_def)
qed

subsection \<open>Reading back what was printed\<close>

definition same_lists :: "reader \<Rightarrow> reader \<Rightarrow> bool" where
  "same_lists s s' \<longleftrightarrow> rd_open_lists s' = rd_open_lists s \<and> rd_recovery s' = rd_recovery s"

lemma same_lists_trans: "same_lists s t \<Longrightarrow> same_lists t u \<Longrightarrow> same_lists s u"
  by (simp add: same_lists_def)

lemma same_lists_refl [simp]: "same_lists s s"
  by (simp add: same_lists_def)

abbreviation got :: "string \<Rightarrow> input_event list" where
  "got \<equiv> map Got"

text \<open>The input goes on with the end, or with a byte that ends an atom.\<close>

definition ends :: "input_event list \<Rightarrow> bool" where
  "ends r \<longleftrightarrow> r = [] \<or> (\<exists>c r'. r = Got c # r' \<and> ends_atom c)"

lemma peek_reads:
  assumes "rd_view s = Got c # r"
  obtains s' where "rd_peek s = (Inr (Some c), s')" "rd_view s' = Got c # r" "same_lists s s'"
  using rd_peek_view(2) [OF assms] assms by (auto simp: same_lists_def)

lemma bump_reads:
  assumes "rd_view s = Got c # r"
  obtains s' where "rd_bump s = (Inr (Some c), s')" "rd_view s' = r" "same_lists s s'"
  using rd_bump_view(2) [OF assms] by (auto simp: same_lists_def)

lemma peek_ends:
  assumes "rd_view s = r" "ends r"
  obtains b s' where "rd_peek s = (Inr b, s')" "rd_view s' = r" "same_lists s s'" "\<And>c. b = Some c \<Longrightarrow> ends_atom c"
proof (cases "r = []")
  case True
  then show ?thesis using that [of None s] rd_peek_view(1) [of s] assms(1) by simp
next
  case False
  then obtain c r' where r: "r = Got c # r'" "ends_atom c" using assms(2) by (auto simp: ends_def)
  obtain s' where "rd_peek s = (Inr (Some c), s')" "rd_view s' = r" "same_lists s s'"
    using peek_reads [of s c r'] assms(1) r by metis
  then show ?thesis using that [of "Some c" s'] r by simp
qed

lemma string_loop_reads:
  assumes "list_all is_printable_or_whitespace t" "valid_utf8 (acc @ t)" "ends rest"
    "rd_view s = got (concat (map (\<lambda>c. if c = CHR 0x22 then [c, c] else [c]) t)) @ Got (CHR 0x22) # rest"
  shows "\<exists>s'. string_loop acc s = (Inr (SAtom \<lparr>at_text = acc @ t, at_kind = StringLiteral\<rparr>), s')
    \<and> rd_view s' = rest \<and> same_lists s s'"
  using assms
proof (induction t arbitrary: acc s)
  case Nil
  obtain s1 where 1: "rd_bump s = (Inr (Some (CHR 0x22)), s1)" "rd_view s1 = rest" "same_lists s s1"
    using bump_reads [of s "CHR 0x22" rest] Nil.prems(4) by auto
  obtain b s2 where 2: "rd_peek s1 = (Inr b, s2)" "rd_view s2 = rest" "same_lists s1 s2" "\<And>c. b = Some c \<Longrightarrow> ends_atom c"
    using peek_ends [OF 1(2) Nil.prems(3)] by blast
  have "b \<noteq> Some (CHR 0x22)" using 2(4) by (auto simp: ends_atom_def is_whitespace_def)
  then show ?case
    using 1 2 Nil.prems(2) same_lists_trans [OF 1(3) 2(3)]
    by (subst string_loop.simps) (simp add: rd_bind_simps(2) [where m = rd_bump, OF 1(1)] rd_bind_simps(2) [where m = rd_peek, OF 2(1)] rd_ok_def)
next
  case (Cons c t)
  show ?case
  proof (cases "c = CHR 0x22")
    case True
    let ?r = "got (concat (map (\<lambda>c. if c = CHR 0x22 then [c, c] else [c]) t)) @ Got (CHR 0x22) # rest"
    have v: "rd_view s = Got (CHR 0x22) # Got (CHR 0x22) # ?r" using Cons.prems(4) True by simp
    obtain s1 where 1: "rd_bump s = (Inr (Some (CHR 0x22)), s1)" "rd_view s1 = Got (CHR 0x22) # ?r" "same_lists s s1"
      using bump_reads [OF v] by blast
    obtain s2 where 2: "rd_peek s1 = (Inr (Some (CHR 0x22)), s2)" "rd_view s2 = Got (CHR 0x22) # ?r" "same_lists s1 s2"
      using peek_reads [OF 1(2)] by blast
    obtain s3 where 3: "rd_bump s2 = (Inr (Some (CHR 0x22)), s3)" "rd_view s3 = ?r" "same_lists s2 s3"
      using bump_reads [OF 2(2)] by blast
    have "string_loop acc s = string_loop (acc @ [CHR 0x22]) s3"
      by (subst string_loop.simps) (simp add: rd_bind_simps(2) [where m = rd_bump, OF 1(1)]
          rd_bind_simps(2) [where m = rd_peek, OF 2(1)] rd_bind_simps(2) [where m = rd_bump, OF 3(1)])
    moreover have "same_lists s s3" using 1(3) 2(3) 3(3) same_lists_trans by blast
    ultimately show ?thesis
      using Cons.IH [of "acc @ [CHR 0x22]" s3] Cons.prems(1,2,3) 3(2) True same_lists_trans by fastforce
  next
    case False
    let ?r = "got (concat (map (\<lambda>c. if c = CHR 0x22 then [c, c] else [c]) t)) @ Got (CHR 0x22) # rest"
    have v: "rd_view s = Got c # ?r" using Cons.prems(4) False by simp
    obtain s1 where 1: "rd_bump s = (Inr (Some c), s1)" "rd_view s1 = ?r" "same_lists s s1"
      using bump_reads [OF v] by blast
    have "string_loop acc s = string_loop (acc @ [c]) s1"
      using False Cons.prems(1) by (subst string_loop.simps) (simp add: rd_bind_simps(2) [where m = rd_bump, OF 1(1)])
    then show ?thesis
      using Cons.IH [of "acc @ [c]" s1] Cons.prems(1,2,3) 1(2,3) same_lists_trans by fastforce
  qed
qed

lemma quoted_loop_reads:
  assumes "list_all (\<lambda>c. is_printable_or_whitespace c \<and> c \<noteq> CHR ''|'' \<and> c \<noteq> CHR 0x5C) t" "valid_utf8 (acc @ t)"
    "rd_view s = got t @ Got (CHR ''|'') # rest"
  shows "\<exists>s'. quoted_loop acc s = (Inr (SAtom \<lparr>at_text = acc @ t, at_kind = Symbol\<rparr>), s')
    \<and> rd_view s' = rest \<and> same_lists s s'"
  using assms
proof (induction t arbitrary: acc s)
  case Nil
  obtain s1 where 1: "rd_bump s = (Inr (Some (CHR ''|'')), s1)" "rd_view s1 = rest" "same_lists s s1"
    using bump_reads [of s "CHR ''|''" rest] Nil.prems(3) by auto
  then show ?case
    using Nil.prems(2) by (subst quoted_loop.simps) (simp add: rd_bind_simps(2) [where m = rd_bump, OF 1(1)] rd_ok_def)
next
  case (Cons c t)
  obtain s1 where 1: "rd_bump s = (Inr (Some c), s1)" "rd_view s1 = got t @ Got (CHR ''|'') # rest" "same_lists s s1"
    using bump_reads [of s c] Cons.prems(3) by auto
  have "quoted_loop acc s = quoted_loop (acc @ [c]) s1"
    using Cons.prems(1) by (subst quoted_loop.simps) (simp add: rd_bind_simps(2) [where m = rd_bump, OF 1(1)])
  then show ?case
    using Cons.IH [of "acc @ [c]" s1] Cons.prems(1,2) 1(2,3) same_lists_trans by fastforce
qed

lemma atom_bytes_reads:
  assumes "list_all (\<lambda>c. \<not> ends_atom c) t" "ends rest" "rd_view s = got t @ rest"
  shows "\<exists>s'. atom_bytes acc s = (Inr (acc @ t), s') \<and> rd_view s' = rest \<and> same_lists s s'"
  using assms
proof (induction t arbitrary: acc s)
  case Nil
  obtain b s1 where 1: "rd_peek s = (Inr b, s1)" "rd_view s1 = rest" "same_lists s s1" "\<And>c. b = Some c \<Longrightarrow> ends_atom c"
    using peek_ends [of s rest] Nil.prems(2,3) by auto
  then show ?case
    by (subst atom_bytes.simps) (auto simp: rd_bind_simps(2) [where m = rd_peek, OF 1(1)] rd_ok_def split: option.split)
next
  case (Cons c t)
  have v: "rd_view s = Got c # got t @ rest" using Cons.prems(3) by simp
  obtain s1 where 1: "rd_peek s = (Inr (Some c), s1)" "rd_view s1 = Got c # got t @ rest" "same_lists s s1"
    using peek_reads [OF v] by blast
  obtain s2 where 2: "rd_bump s1 = (Inr (Some c), s2)" "rd_view s2 = got t @ rest" "same_lists s1 s2"
    using bump_reads [OF 1(2)] by blast
  have "atom_bytes acc s = atom_bytes (acc @ [c]) s2"
    using Cons.prems(1) by (subst atom_bytes.simps) (simp add: rd_bind_simps(2) [where m = rd_peek, OF 1(1)]
        rd_bind_simps(2) [where m = rd_bump, OF 2(1)])
  moreover have "same_lists s s2" using 1(3) 2(3) same_lists_trans by blast
  ultimately show ?case
    using Cons.IH [of s2 "acc @ [c]"] Cons.prems(1,2) 2(2) same_lists_trans by fastforce
qed

lemma classify_nonempty: "classify t = Inr k \<Longrightarrow> t \<noteq> []"
  by (auto simp: classify_def is_numeral_def is_decimal_def is_reserved_word_def reserved_words_def is_simple_symbol_def)

lemma classify_simple:
  assumes "is_simple_symbol t" "\<not> is_reserved_word t"
  shows "classify t = Inr Symbol"
proof -
  have t: "t \<noteq> []" "\<not> is_ascii_digit (hd t)" "list_all is_symbol_byte t" using assms(1) by (simp_all add: is_simple_symbol_def)
  obtain c cs where c: "t = c # cs" "is_symbol_byte c" using t by (cases t) auto
  have n: "\<not> is_numeral u" if "u \<noteq> [] \<Longrightarrow> hd u = hd t" for u
    using numeral_bytes [of u] that t(2) by (cases u) auto
  have "\<not> is_decimal t"
  proof
    let ?i = "takeWhile (\<lambda>c. c \<noteq> CHR ''.'') t"
    assume "is_decimal t"
    moreover have "\<not> is_numeral ?i" by (rule n) (use c in \<open>auto split: if_splits\<close>)
    ultimately show False by (simp add: is_decimal_def Let_def)
  qed
  moreover have "c \<noteq> CHR ''#''" "c \<noteq> CHR '':''" using symbol_byte_plain [OF c(2)] by simp_all
  ultimately show ?thesis using assms n [of t] c(1) by (auto simp: classify_def)
qed

lemma quote_symbol_eq:
  "quote_symbol t = (if is_simple_symbol t \<and> \<not> is_reserved_word t then t else ''|'' @ t @ ''|'')"
proof -
  have "list_all (\<lambda>c. is_ascii_alphanumeric c \<or> List.member ''~!@$%^&*_-+=<>.?/'' c) t = list_all is_symbol_byte t"
    unfolding is_symbol_byte_def ..
  then show ?thesis unfolding quote_symbol_def Let_def is_simple_symbol_def by (intro if_cong refl) argo
qed

lemma quote_symbol_cases:
  obtains "quote_symbol t = t" "classify t = Inr Symbol" | "quote_symbol t = ''|'' @ t @ ''|''"
proof (cases "is_simple_symbol t \<and> \<not> is_reserved_word t")
  case True
  then show ?thesis using that(1) classify_simple [of t] by (simp add: quote_symbol_eq)
next
  case False
  then show ?thesis using that(2) by (simp only: quote_symbol_eq if_False)
qed

lemma parse_atom_reads:
  assumes t: "classify t = Inr k" "valid_utf8 t" "ends rest" "rd_view s = got t @ rest"
  shows "\<exists>s'. parse_atom s = (Inr (SAtom \<lparr>at_text = t, at_kind = k\<rparr>), s') \<and> rd_view s' = rest \<and> same_lists s s'"
proof -
  have n: "t \<noteq> []" using classify_nonempty [OF t(1)] .
  have "list_all (\<lambda>c. \<not> ends_atom c) t"
    by (rule list.pred_mono_strong [OF classify_bytes [OF t(1) n]]) (rule token_byte_plain(1))
  from atom_bytes_reads [OF this t(3,4), of "[]"] obtain s'
    where "atom_bytes [] s = (Inr t, s')" "rd_view s' = rest" "same_lists s s'" by auto
  then show ?thesis using n t(1,2) by (simp add: parse_atom_def rd_bind_def rd_ok_def)
qed

text \<open>\<open>parse_expr\<close> by the byte that comes.\<close>

lemma parse_expr_at:
  assumes "d \<le> MAX_NESTING" "rd_peek s = (Inr (Some c), s1)"
  shows "c = CHR ''('' \<Longrightarrow> parse_expr d s = rd_bind rd_bump (\<lambda>_ s. parse_items d [] (enter_list s)) s1"
    "c = CHR 0x22 \<Longrightarrow> parse_expr d s = parse_string s1"
    "c = CHR ''|'' \<Longrightarrow> parse_expr d s = parse_quoted_symbol s1"
    "c \<noteq> CHR ''('' \<Longrightarrow> c \<noteq> CHR '')'' \<Longrightarrow> c \<noteq> CHR 0x22 \<Longrightarrow> c \<noteq> CHR ''|'' \<Longrightarrow> parse_expr d s = parse_atom s1"
  using assms(1)
  by (simp_all add: parse_expr.simps [of d s] rd_bind_simps(2) [where m = rd_peek, OF assms(2)] del: parse_expr.simps)

lemma parse_token_reads:
  assumes d: "d \<le> MAX_NESTING" and k: "classify t = Inr k" "valid_utf8 t" "ends rest" "rd_view s = got t @ rest"
  shows "\<exists>s'. parse_expr d s = (Inr (SAtom \<lparr>at_text = t, at_kind = k\<rparr>), s') \<and> rd_view s' = rest \<and> same_lists s s'"
proof -
  have n: "t \<noteq> []" by (rule classify_nonempty [OF k(1)])
  then obtain c cs where c: "t = c # cs" "token_byte c" using classify_bytes [OF k(1)] by (cases t) auto
  obtain s1 where 1: "rd_peek s = (Inr (Some c), s1)" "rd_view s1 = got t @ rest" "same_lists s s1"
    using peek_reads [of s c "got cs @ rest"] k(4) c(1) by auto
  have "parse_expr d s = parse_atom s1" using token_byte_plain [OF c(2)] by (intro parse_expr_at(4) [OF d 1(1)])
  then show ?thesis using parse_atom_reads [OF k(1-3) 1(2)] same_lists_trans [OF 1(3)] by auto
qed

lemma parse_atom_expr_reads:
  assumes a: "wf_atom a" "d \<le> MAX_NESTING" and r: "ends rest" "rd_view s = got (render (SAtom a)) @ rest"
  shows "\<exists>s'. parse_expr d s = (Inr (SAtom a), s') \<and> rd_view s' = rest \<and> same_lists s s'"
proof -
  obtain t k where at: "a = \<lparr>at_text = t, at_kind = k\<rparr>" by (cases a)
  have u: "valid_utf8 t" using a(1) at by (simp add: wf_atom_def)
  consider (string) "k = StringLiteral" | (quoted) "k = Symbol" "quote_symbol t = ''|'' @ t @ ''|''"
    | (token) "render (SAtom a) = t" "classify t = Inr k"
    using a(1) at quote_symbol_cases [of t] by (cases k) (auto simp: wf_atom_def)
  then show ?thesis
  proof cases
    case string
    let ?q = "got (concat (map (\<lambda>c. if c = CHR 0x22 then [c, c] else [c]) t)) @ Got (CHR 0x22) # rest"
    have v: "rd_view s = Got (CHR 0x22) # ?q" using r(2) string at by (simp add: quote_string_def)
    obtain s1 where 1: "rd_peek s = (Inr (Some (CHR 0x22)), s1)" "rd_view s1 = Got (CHR 0x22) # ?q" "same_lists s s1"
      using peek_reads [OF v] by blast
    obtain s2 where 2: "rd_bump s1 = (Inr (Some (CHR 0x22)), s2)" "rd_view s2 = ?q" "same_lists s1 s2"
      using bump_reads [OF 1(2)] by blast
    have "parse_expr d s = string_loop [] s2"
      using parse_expr_at(2) [OF a(2) 1(1)] by (simp add: parse_string_def rd_bind_simps(2) [where m = rd_bump, OF 2(1)])
    moreover have "list_all is_printable_or_whitespace t" using a(1) at string by (simp add: wf_atom_def)
    moreover have "same_lists s s2" using 1(3) 2(3) same_lists_trans by blast
    ultimately show ?thesis
      using string_loop_reads [of t "[]" rest s2] u r(1) 2(2) string at same_lists_trans by fastforce
  next
    case quoted
    have v: "rd_view s = Got (CHR ''|'') # got t @ Got (CHR ''|'') # rest" using r(2) quoted at by simp
    obtain s1 where 1: "rd_peek s = (Inr (Some (CHR ''|'')), s1)" "rd_view s1 = rd_view s" "same_lists s s1"
      using peek_reads [OF v] v by metis
    obtain s2 where 2: "rd_bump s1 = (Inr (Some (CHR ''|'')), s2)" "rd_view s2 = got t @ Got (CHR ''|'') # rest" "same_lists s1 s2"
      using bump_reads [of s1] 1(2) v by metis
    have "parse_expr d s = quoted_loop [] s2"
      using parse_expr_at(3) [OF a(2) 1(1)] by (simp add: parse_quoted_symbol_def rd_bind_simps(2) [where m = rd_bump, OF 2(1)])
    moreover have "list_all (\<lambda>c. is_printable_or_whitespace c \<and> c \<noteq> CHR ''|'' \<and> c \<noteq> CHR 0x5C) t"
      using a(1) at quoted by (simp add: wf_atom_def)
    moreover have "same_lists s s2" using 1(3) 2(3) same_lists_trans by blast
    ultimately show ?thesis
      using quoted_loop_reads [of t "[]" s2 rest] u 2(2) quoted at same_lists_trans by fastforce
  next
    case token
    then show ?thesis using parse_token_reads [OF a(2) token(2) u r(1)] r(2) at by simp
  qed
qed

lemma skip_whitespace_reads:
  assumes "list_all is_whitespace w" "rd_view s = got w @ Got c # r" "\<not> is_whitespace c"
  shows "\<exists>s'. skip_whitespace s = (Inr (), s') \<and> rd_view s' = Got c # r \<and> same_lists s s'"
  using assms
proof (induction w arbitrary: s)
  case Nil
  obtain s1 where 1: "rd_peek s = (Inr (Some c), s1)" "rd_view s1 = Got c # r" "same_lists s s1"
    using peek_reads [of s c r] Nil.prems(2) by auto
  then show ?case
    using Nil.prems(3)
    by (subst skip_whitespace.simps) (simp add: rd_bind_simps(2) [where m = rd_peek, OF 1(1)] rd_ok_def)
next
  case (Cons b w)
  have v: "rd_view s = Got b # got w @ Got c # r" using Cons.prems(2) by simp
  obtain s1 where 1: "rd_peek s = (Inr (Some b), s1)" "rd_view s1 = Got b # got w @ Got c # r" "same_lists s s1"
    using peek_reads [OF v] by blast
  obtain s2 where 2: "rd_bump s1 = (Inr (Some b), s2)" "rd_view s2 = got w @ Got c # r" "same_lists s1 s2"
    using bump_reads [OF 1(2)] by blast
  have "skip_whitespace s = skip_whitespace s2"
    using Cons.prems(1) by (subst skip_whitespace.simps) (simp add: rd_bind_simps(2) [where m = rd_peek, OF 1(1)]
        rd_bind_simps(2) [where m = rd_bump, OF 2(1)])
  moreover have "same_lists s s2" using 1(3) 2(3) same_lists_trans by blast
  ultimately show ?case using Cons.IH [OF _ 2(2) Cons.prems(3)] Cons.prems(1) same_lists_trans by fastforce
qed

lemma skip_trivia_reads:
  assumes "list_all is_whitespace w" "rd_view s = got w @ Got c # r" "\<not> is_whitespace c" "c \<noteq> CHR '';''"
  obtains s' where "skip_trivia s = (Inr (), s')" "rd_view s' = Got c # r" "same_lists s s'"
proof -
  obtain s1 where 1: "skip_whitespace s = (Inr (), s1)" "rd_view s1 = Got c # r" "same_lists s s1"
    using skip_whitespace_reads [OF assms(1-3)] by blast
  obtain s2 where 2: "rd_peek s1 = (Inr (Some c), s2)" "rd_view s2 = Got c # r" "same_lists s1 s2"
    using peek_reads [OF 1(2)] by blast
  have "skip_trivia s = (Inr (), s2)"
    using assms(4) by (subst skip_trivia.simps) (simp add: rd_bind_simps(2) [where m = skip_whitespace, OF 1(1)]
        rd_bind_simps(2) [where m = rd_peek, OF 2(1)] rd_ok_def)
  then show ?thesis using that 2(2) same_lists_trans [OF 1(3) 2(3)] by blast
qed

text \<open>A printed expression starts with a byte that starts an expression.\<close>

lemma render_starts:
  assumes "well_formed e"
  obtains c cs where "render e = c # cs" "\<not> is_whitespace c" "c \<noteq> CHR '';''" "c \<noteq> CHR '')''"
proof (cases e)
  case (SList items)
  then show ?thesis using that [of "CHR ''(''"] by (simp add: is_whitespace_def)
next
  case (SAtom a)
  obtain t k where at: "a = \<lparr>at_text = t, at_kind = k\<rparr>" by (cases a)
  have w: "wf_atom a" using assms SAtom by simp
  consider (string) "k = StringLiteral" | (quoted) "render e = ''|'' @ t @ ''|''" | (token) "render e = t" "classify t = Inr k"
    using w at SAtom quote_symbol_cases [of t] by (cases k) (auto simp: wf_atom_def)
  then show ?thesis
  proof cases
    case string
    then show ?thesis using that [of "CHR 0x22"] at SAtom by (simp add: quote_string_def is_whitespace_def)
  next
    case quoted
    then show ?thesis using that [of "CHR ''|''"] by (simp add: is_whitespace_def)
  next
    case token
    then obtain c cs where "t = c # cs" "token_byte c"
      using classify_nonempty [OF token(2)] classify_bytes [OF token(2)] by (cases t) auto
    then show ?thesis using that [of c cs] token(1) token_byte_plain by simp
  qed
qed

definition tail_text :: "sexpr list \<Rightarrow> string" where
  "tail_text es = concat (map (\<lambda>e. '' '' @ render e) es)"

lemma tail_text_simps [simp]: "tail_text [] = []" "tail_text (e # es) = CHR '' '' # render e @ tail_text es"
  by (simp_all add: tail_text_def)

lemma join_spaces_tail: "join_spaces (map render (e # es)) = render e @ tail_text es"
  by (induction es arbitrary: e) simp_all

lemma ends_tail: "ends (got (tail_text es) @ Got (CHR '')'') # r)"
  by (cases es) (auto simp: ends_def ends_atom_def is_whitespace_def)

lemma parse_items_close:
  assumes "rd_view s = Got (CHR '')'') # rest"
  shows "\<exists>s'. parse_items d acc s = (Inr (SList acc), s') \<and> rd_view s' = rest \<and> same_lists (leave_list s) s'"
proof -
  obtain s1 where 1: "skip_trivia s = (Inr (), s1)" "rd_view s1 = Got (CHR '')'') # rest" "same_lists s s1"
    using skip_trivia_reads [of "[]" s "CHR '')''" rest] assms by (auto simp: is_whitespace_def)
  obtain s2 where 2: "rd_peek s1 = (Inr (Some (CHR '')'')), s2)" "rd_view s2 = Got (CHR '')'') # rest" "same_lists s1 s2"
    using peek_reads [OF 1(2)] by blast
  obtain s3 where 3: "rd_bump s2 = (Inr (Some (CHR '')'')), s3)" "rd_view s3 = rest" "same_lists s2 s3"
    using bump_reads [OF 2(2)] by blast
  have "parse_items d acc s = (Inr (SList acc), leave_list s3)"
    by (subst parse_items.simps) (simp add: rd_bind_simps(2) [where m = skip_trivia, OF 1(1)]
        rd_bind_simps(2) [where m = rd_peek, OF 2(1)] rd_bind_simps(2) [where m = rd_bump, OF 3(1)] rd_ok_def)
  then show ?thesis using 1(3) 2(3) 3(2,3) by (auto simp: same_lists_def leave_list_def)
qed

lemma same_lists_leave: "same_lists s t \<Longrightarrow> same_lists (leave_list t) u \<Longrightarrow> same_lists (leave_list s) u"
  by (simp add: same_lists_def leave_list_def)

lemma parse_items_reads:
  assumes ih: "\<And>e d s rest. e \<in> set es \<Longrightarrow> fits d e \<Longrightarrow> ends rest \<Longrightarrow> rd_view s = got (render e) @ rest \<Longrightarrow>
      \<exists>s'. parse_expr d s = (Inr e, s') \<and> rd_view s' = rest \<and> same_lists s s'"
    and fit: "\<forall>e \<in> set es. fits (d + 1) e"
    and v: "rd_view s = got (if es = [] then [] else w @ render (hd es) @ tail_text (tl es)) @ Got (CHR '')'') # rest"
      "list_all is_whitespace w"
  shows "\<exists>s'. parse_items d acc s = (Inr (SList (acc @ es)), s') \<and> rd_view s' = rest \<and> same_lists (leave_list s) s'"
  using assms
proof (induction es arbitrary: acc s w)
  case Nil
  then show ?case using parse_items_close [of s rest d acc] by simp
next
  case (Cons e es)
  let ?r = "got (tail_text es) @ Got (CHR '')'') # rest"
  have wf: "well_formed e" using Cons.prems(2) by (simp add: fits_def)
  obtain c cs where c: "render e = c # cs" "\<not> is_whitespace c" "c \<noteq> CHR '';''" "c \<noteq> CHR '')''" by (rule render_starts [OF wf])
  have v: "rd_view s = got w @ Got c # got cs @ ?r" using Cons.prems(3) c(1) by simp
  obtain s1 where 1: "skip_trivia s = (Inr (), s1)" "rd_view s1 = Got c # got cs @ ?r" "same_lists s s1"
    using skip_trivia_reads [OF Cons.prems(4) v c(2,3)] by blast
  obtain s2 where 2: "rd_peek s1 = (Inr (Some c), s2)" "rd_view s2 = Got c # got cs @ ?r" "same_lists s1 s2"
    using peek_reads [OF 1(2)] by blast
  have "fits (d + 1) e" using Cons.prems(2) by simp
  from Cons.prems(1) [OF _ this ends_tail, of s2] obtain s3
    where 3: "parse_expr (d + 1) s2 = (Inr e, s3)" "rd_view s3 = ?r" "same_lists s2 s3" using 2(2) c(1) by auto
  have "parse_items d acc s = parse_items d (acc @ [e]) s3"
    using c(4) 3(1) by (subst parse_items.simps) (simp add: rd_bind_simps(2) [where m = skip_trivia, OF 1(1)]
        rd_bind_simps(2) [where m = rd_peek, OF 2(1)] rd_bind_simps(2) [where m = "parse_expr (Suc d)"])
  moreover have "\<exists>s'. parse_items d (acc @ [e]) s3 = (Inr (SList ((acc @ [e]) @ es)), s') \<and> rd_view s' = rest
      \<and> same_lists (leave_list s3) s'"
    using Cons.prems(2) 3(2)
    by (intro Cons.IH [where w = "'' ''"] Cons.prems(1)) (auto simp: is_whitespace_def neq_Nil_conv)
  moreover have "same_lists s s3" using 1(3) 2(3) 3(3) same_lists_trans by blast
  ultimately show ?case using same_lists_leave by fastforce
qed

lemma parse_expr_reads:
  "fits d e \<Longrightarrow> ends rest \<Longrightarrow> rd_view s = got (render e) @ rest \<Longrightarrow>
   \<exists>s'. parse_expr d s = (Inr e, s') \<and> rd_view s' = rest \<and> same_lists s s'"
proof (induction e arbitrary: d s rest)
  case (SAtom a)
  then show ?case using parse_atom_expr_reads [of a d rest s] by simp
next
  case (SList es)
  let ?t = "if es = [] then [] else [] @ render (hd es) @ tail_text (tl es)"
  have j: "join_spaces (map render es) = ?t" by (cases es) (simp_all only: join_spaces_tail, simp_all)
  have v: "rd_view s = Got (CHR ''('') # got ?t @ Got (CHR '')'') # rest" using SList.prems(3) unfolding render.simps j by simp
  obtain s1 where 1: "rd_peek s = (Inr (Some (CHR ''('')), s1)" "rd_view s1 = rd_view s" "same_lists s s1"
    using peek_reads [OF v] v by metis
  obtain s2 where 2: "rd_bump s1 = (Inr (Some (CHR ''('')), s2)" "rd_view s2 = got ?t @ Got (CHR '')'') # rest" "same_lists s1 s2"
    using bump_reads [of s1] 1(2) v by metis
  have "parse_expr d s = parse_items d [] (enter_list s2)"
    using parse_expr_at(1) [OF _ 1(1), of d] SList.prems(1) by (simp add: rd_bind_simps(2) [where m = rd_bump, OF 2(1)])
  moreover have "\<exists>s'. parse_items d [] (enter_list s2) = (Inr (SList ([] @ es)), s') \<and> rd_view s' = rest
      \<and> same_lists (leave_list (enter_list s2)) s'"
    using SList.prems(1) 2(2) by (intro parse_items_reads [where w = "[]"] SList.IH) auto
  moreover have "same_lists (leave_list (enter_list s2)) s' = same_lists s s'" for s'
    using 1(3) 2(3) by (simp add: same_lists_def leave_list_def enter_list_def)
  ultimately show ?case by simp
qed

subsection \<open>Scripts\<close>

lemma next_reads:
  assumes "rd_recovery s = None" "list_all is_whitespace w" "rd_view s = got w @ got (render e) @ rest" "fits 0 e" "ends rest"
  shows "\<exists>s'. reader_next s = (Inr (Some e), s') \<and> rd_view s' = rest \<and> rd_recovery s' = None"
proof -
  have wf: "well_formed e" using assms(4) by (simp add: fits_def)
  obtain c cs where c: "render e = c # cs" "\<not> is_whitespace c" "c \<noteq> CHR '';''" by (rule render_starts [OF wf])
  have v: "rd_view s = got w @ Got c # got cs @ rest" using assms(3) c(1) by simp
  obtain s1 where 1: "skip_trivia s = (Inr (), s1)" "rd_view s1 = Got c # got cs @ rest" "same_lists s s1"
    using skip_trivia_reads [OF assms(2) v c(2,3)] by blast
  obtain s2 where 2: "rd_peek s1 = (Inr (Some c), s2)" "rd_view s2 = Got c # got cs @ rest" "same_lists s1 s2"
    using peek_reads [OF 1(2)] by blast
  obtain s3 where 3: "parse_expr 0 s2 = (Inr e, s3)" "rd_view s3 = rest" "same_lists s2 s3"
    using parse_expr_reads [OF assms(4,5), of s2] 2(2) c(1) by auto
  have "recover_pending s = (Inr (), s)" using assms(1) by (simp add: recover_pending_def rd_ok_def)
  then have "reader_next s = (Inr (Some e), s3)"
    by (simp add: reader_next_def rd_bind_simps(2) [where m = recover_pending] rd_bind_simps(2) [where m = skip_trivia, OF 1(1)]
        rd_bind_simps(2) [where m = rd_peek, OF 2(1)] 3(1))
  then show ?thesis using 1(3) 2(3) 3(2,3) assms(1) by (simp add: same_lists_def)
qed

lemma next_at_end:
  assumes "rd_recovery s = None" "list_all is_whitespace w" "rd_view s = got w"
  shows "\<exists>s'. reader_next s = (Inr None, s')"
proof -
  have "\<exists>s'. skip_whitespace s = (Inr (), s') \<and> rd_view s' = []" using assms(2,3)
  proof (induction w arbitrary: s)
    case Nil
    then show ?case
      by (subst skip_whitespace.simps) (simp add: rd_bind_simps(2) [where m = rd_peek] rd_peek_view(1) rd_ok_def)
  next
    case (Cons b w)
    have v: "rd_view s = Got b # got w" using Cons.prems(2) by simp
    obtain s1 where 1: "rd_peek s = (Inr (Some b), s1)" "rd_view s1 = Got b # got w" using peek_reads [OF v] by blast
    obtain s2 where 2: "rd_bump s1 = (Inr (Some b), s2)" "rd_view s2 = got w" using bump_reads [OF 1(2)] by blast
    have "skip_whitespace s = skip_whitespace s2"
      using Cons.prems(1) by (subst skip_whitespace.simps) (simp add: rd_bind_simps(2) [where m = rd_peek, OF 1(1)]
          rd_bind_simps(2) [where m = rd_bump, OF 2(1)])
    then show ?case using Cons.IH [OF _ 2(2)] Cons.prems(1) by simp
  qed
  then obtain s1 where 1: "skip_whitespace s = (Inr (), s1)" "rd_view s1 = []" by blast
  have p: "rd_peek s1 = (Inr None, s1)" by (rule rd_peek_view(1) [OF 1(2)])
  have t: "skip_trivia s = (Inr (), s1)"
    by (subst skip_trivia.simps) (simp add: rd_bind_simps(2) [where m = skip_whitespace, OF 1(1)]
        rd_bind_simps(2) [where m = rd_peek, OF p] rd_ok_def)
  have "recover_pending s = (Inr (), s)" using assms(1) by (simp add: recover_pending_def rd_ok_def)
  then show ?thesis
    by (simp add: reader_next_def rd_bind_simps(2) [where m = recover_pending] rd_bind_simps(2) [where m = skip_trivia, OF t]
        rd_bind_simps(2) [where m = rd_peek, OF p] rd_ok_def)
qed

definition print_script :: "sexpr list \<Rightarrow> string" where
  "print_script es = concat (map (\<lambda>e. render e @ [newline]) es)"

lemma read_script_printed:
  assumes "\<forall>e \<in> set es. fits 0 e" "rd_recovery s = None" "list_all is_whitespace w" "rd_view s = got (w @ print_script es)"
  shows "read_script (length es + 1) s = Some (map Inr es)"
  using assms
proof (induction es arbitrary: s w)
  case Nil
  then have "\<exists>s'. reader_next s = (Inr None, s')" by (intro next_at_end [where w = w]) (simp_all add: print_script_def)
  then show ?case by auto
next
  case (Cons e es)
  let ?r = "got (newline # print_script es)"
  have "ends ?r" by (simp add: ends_def ends_atom_def is_whitespace_def newline_def)
  from next_reads [OF Cons.prems(2,3) _ _ this, of e] Cons.prems(1,4) obtain s1
    where 1: "reader_next s = (Inr (Some e), s1)" "rd_view s1 = ?r" "rd_recovery s1 = None"
    by (auto simp: print_script_def)
  have "read_script (length es + 1) s1 = Some (map Inr es)"
    using Cons.prems(1) 1(2,3) by (intro Cons.IH [where w = "[newline]"]) (simp_all add: is_whitespace_def newline_def)
  then show ?case using 1(1) by simp
qed

text \<open>
  C25: a printed script is read back: the reader returns the expressions that were printed, in order,
  then the end, for every list of well-formed expressions within the nesting limit. So strings with
  quotes in them, symbols that are reserved words or hold any printable byte, and the tokens of every
  kind survive, and no two neighbours run together.
\<close>

theorem printed_script_read_back:
  assumes "\<forall>e \<in> set es. well_formed e \<and> nesting e \<le> MAX_NESTING"
  shows "read_script (length es + 1) (reader_new (map Got (print_script es))) = Some (map Inr es)"
  using assms
  by (intro read_script_printed [where w = "[]"]) (simp_all add: fits_def reader_new_def rd_view_def)

definition example_script :: "sexpr list" where
  "example_script =
     [SList [SAtom \<lparr>at_text = ''assert'', at_kind = Reserved\<rparr>, SAtom \<lparr>at_text = ''let'', at_kind = Symbol\<rparr>],
      SList [SAtom \<lparr>at_text = ''echo'', at_kind = Reserved\<rparr>, SAtom \<lparr>at_text = [CHR ''a'', CHR 0x22], at_kind = StringLiteral\<rparr>]]"

lemma example_script_ok: "\<forall>e \<in> set example_script. well_formed e \<and> nesting e \<le> MAX_NESTING"
  by (simp add: example_script_def wf_atom_def MAX_NESTING_def utf8_tail_def byte_value_def classify_def is_numeral_def
      is_decimal_def is_reserved_word_def reserved_words_def is_printable_or_whitespace_def is_ascii_digit_def)

theorem printed_script_read_back_witness:
  "read_script 3 (reader_new (map Got (print_script example_script))) = Some (map Inr example_script)"
  using printed_script_read_back [OF example_script_ok] by (simp add: example_script_def numeral_eq_Suc)

text \<open>
  C29: whatever the reader returns prints back: an expression that \<open>next\<close> returned, on any input and in
  any state, is read again from its printed form. In particular the reader only returns expressions
  that the printer can write, and printing is injective on them.
\<close>

theorem returned_expression_prints_back:
  assumes "reader_next s = (Inr (Some e), s')"
  shows "fst (reader_next (reader_new (map Got (render e)))) = Inr (Some e)"
proof -
  have "ends []" by (simp add: ends_def)
  from next_reads [of "reader_new (map Got (render e))" "[]" e "[]", OF _ _ _ reader_next_fits [OF assms] this]
  show ?thesis by (auto simp: reader_new_def rd_view_def)
qed

theorem returned_expression_prints_back_witness:
  "fst (reader_next (reader_new (map Got (render (hd example_script))))) = Inr (Some (hd example_script))"
proof -
  let ?s = "reader_new (map Got (print_script example_script))"
  have "\<exists>s'. reader_next ?s = (Inr (Some (hd example_script)), s') \<and> rd_view s' = got (newline # print_script (tl example_script))
    \<and> rd_recovery s' = None"
    using example_script_ok
    by (intro next_reads [where w = "[]"])
      (simp_all add: fits_def reader_new_def rd_view_def print_script_def example_script_def ends_def ends_atom_def is_whitespace_def newline_def)
  then show ?thesis using returned_expression_prints_back by blast
qed

end
