(* ===== verification/Smt_Labels.thy ===== *)
theory Smt_Labels
  imports Smt_Reader
begin

section \<open>Inline labels\<close>

text \<open>
  The commands of an SMT-LIB session may label terms where they stand, with \<open>(! t :named n)\<close>.
  Before a command runs, \<open>strip_inline_definitions\<close> of \<open>src/smt/session.rs\<close> takes the labels out:
  it returns the command without annotations and the labelled terms in the order in which they must
  be defined, inner terms before outer ones. A label must not be repeated in a command, nor used
  before its definition. \<open>HashSet\<close>s are sets. The lemmas compare the passes of the code, which carry
  their results along, with the definitions \<open>erase\<close> and \<open>labelled\<close> by recursion on the term.
\<close>

subsection \<open>Errors and shapes\<close>

datatype shape = ListShape | SymbolShape | WordShape | KeywordShape | StringShape

datatype command_error =
    MustBe shape string
  | WrongArity string nat nat
  | AnnotationNeedsTerm
  | AnnotationNeedsAttribute
  | SeveralNames
  | AttributeNeedsValue string
  | RepeatedLabel string
  | UsedBeforeDefinition string

definition expect_list :: "sexpr \<Rightarrow> string \<Rightarrow> command_error + sexpr list" where
  "expect_list e role = (case e of SList items \<Rightarrow> Inr items | SAtom _ \<Rightarrow> Inl (MustBe ListShape role))"

definition expect :: "shape \<Rightarrow> (sexpr \<Rightarrow> string option) \<Rightarrow> sexpr \<Rightarrow> string \<Rightarrow> command_error + string" where
  "expect sh view e role = (case view e of Some t \<Rightarrow> Inr t | None \<Rightarrow> Inl (MustBe sh role))"

definition expect_symbol :: "sexpr \<Rightarrow> string \<Rightarrow> command_error + string" where
  "expect_symbol = expect SymbolShape sx_symbol"

definition expect_word :: "sexpr \<Rightarrow> string \<Rightarrow> command_error + string" where
  "expect_word = expect WordShape sx_word"

definition expect_keyword :: "sexpr \<Rightarrow> string \<Rightarrow> command_error + string" where
  "expect_keyword = expect KeywordShape sx_keyword"

definition expect_string :: "sexpr \<Rightarrow> string \<Rightarrow> command_error + string" where
  "expect_string = expect StringShape sx_string"

definition expect_arity :: "sexpr list \<Rightarrow> nat \<Rightarrow> string \<Rightarrow> command_error + unit" where
  "expect_arity items expected name =
     (if length items = expected then Inr () else Inl (WrongArity name expected (length items)))"

lemma expect_list_Inr: "expect_list e role = Inr items \<longleftrightarrow> e = SList items"
  by (auto simp: expect_list_def split: sexpr.splits)

lemma expect_arity_Inr: "expect_arity items n name = Inr u \<longleftrightarrow> length items = n"
  by (simp add: expect_arity_def)

lemma bindE_cong [fundef_cong]:
  "r = r' \<Longrightarrow> (\<And>a. r' = Inr a \<Longrightarrow> f a = g a) \<Longrightarrow> bindE r f = bindE r' g"
  by (cases r') auto

subsection \<open>Annotations\<close>

text \<open>The attributes from a position on, with the name found before.\<close>

fun scan_attributes :: "sexpr list \<Rightarrow> string option \<Rightarrow> command_error + string option" where
  "scan_attributes [] name = Inr name"
| "scan_attributes (item # rest) name =
     bindE (expect_keyword item ''annotation attribute'') (\<lambda>keyword.
       if keyword = '':named'' then
         (if name \<noteq> None then Inl SeveralNames
          else case rest of
            [] \<Rightarrow> Inl (AttributeNeedsValue '':named'')
          | v # rest' \<Rightarrow> bindE (expect_symbol v ''inline label'') (\<lambda>n. scan_attributes rest' (Some n)))
       else if keyword = '':pattern'' then
         (case rest of
            [] \<Rightarrow> Inl (AttributeNeedsValue '':pattern'')
          | v # rest' \<Rightarrow> bindE (expect_list v ''annotation pattern'') (\<lambda>_. scan_attributes rest' name))
       else
         (case rest of
            [] \<Rightarrow> scan_attributes [] name
          | v # rest' \<Rightarrow> if sx_keyword v = None then scan_attributes rest' name else scan_attributes (v # rest') name))"

definition annotation_name :: "sexpr \<Rightarrow> command_error + string option" where
  "annotation_name e =
     (case e of
        SAtom _ \<Rightarrow> Inr None
      | SList items \<Rightarrow>
          if items = [] \<or> sx_word (hd items) \<noteq> Some ''!'' then Inr None
          else if length items < 2 then Inl AnnotationNeedsTerm
          else if length items = 2 then Inl AnnotationNeedsAttribute
          else scan_attributes (drop 2 items) None)"

subsection \<open>Collecting the names\<close>

definition push_name :: "string option \<Rightarrow> string list \<Rightarrow> string list" where
  "push_name n names = (case n of None \<Rightarrow> names | Some x \<Rightarrow> names @ [x])"

lemma nth_size: "i < length xs \<Longrightarrow> size (xs ! i) < Suc (size_list size xs)"
  by (meson less_Suc_eq nth_mem size_list_estimation' order_refl le_imp_less_Suc)

function collect_names :: "sexpr \<Rightarrow> string list \<Rightarrow> command_error + string list"
  and collect_all :: "sexpr list \<Rightarrow> string list \<Rightarrow> command_error + string list"
  and collect_bindings :: "sexpr list \<Rightarrow> string list \<Rightarrow> command_error + string list" where
  "collect_names (SAtom a) names = Inr names"
| "collect_names (SList []) names = Inr names"
| "collect_names (SList (head # arguments)) names =
     (if sx_word head = Some ''!'' then
        (if arguments = [] then Inl AnnotationNeedsTerm
         else bindE (collect_names (arguments ! 0) names) (\<lambda>names.
              bindE (annotation_name (SList (head # arguments))) (\<lambda>n. Inr (push_name n names))))
      else if sx_word head = Some ''let'' then
        bindE (expect_arity arguments 2 ''let'') (\<lambda>_.
        bindE (expect_list (arguments ! 0) ''let bindings'') (\<lambda>bindings.
        bindE (collect_bindings bindings names) (\<lambda>names. collect_names (arguments ! 1) names)))
      else collect_all arguments names)"
| "collect_all [] names = Inr names"
| "collect_all (e # es) names = bindE (collect_names e names) (\<lambda>names. collect_all es names)"
| "collect_bindings [] names = Inr names"
| "collect_bindings (b # bs) names =
     bindE (expect_list b ''let binding'') (\<lambda>pair.
     bindE (expect_arity pair 2 ''let binding'') (\<lambda>_.
     bindE (collect_names (pair ! 1) names) (\<lambda>names. collect_bindings bs names)))"
  by pat_completeness auto
termination
proof (relation "measure (case_sum (\<lambda>(e, _). size e)
    (case_sum (\<lambda>(es, _). Suc (size_list size es)) (\<lambda>(bs, _). Suc (size_list size bs))))", goal_cases)
  case (2 head arguments names)
  then show ?case using nth_size [of 0 arguments] by simp
next
  case (3 head arguments names u bindings)
  then show ?case using nth_size [of 0 arguments] by (simp add: expect_arity_Inr expect_list_Inr)
next
  case (4 head arguments names u bindings names')
  then show ?case using nth_size [of 1 arguments] by (simp add: expect_arity_Inr)
next
  case (8 b bs names pair u)
  then show ?case using nth_size [of 1 pair] by (simp add: expect_arity_Inr expect_list_Inr)
qed simp_all

subsection \<open>Taking the labels out\<close>

type_synonym strip_state = "string set \<times> (string \<times> sexpr) list"

text \<open>The labels available so far, and the definitions made.\<close>

definition define_label :: "string option \<Rightarrow> sexpr \<Rightarrow> strip_state \<Rightarrow> strip_state" where
  "define_label n t st =
     (case n of None \<Rightarrow> st | Some x \<Rightarrow> (insert x (fst st), snd st @ [(x, t)]))"

function strip_term :: "string set \<Rightarrow> string set list \<Rightarrow> sexpr \<Rightarrow> strip_state \<Rightarrow> command_error + sexpr \<times> strip_state"
  and strip_all :: "string set \<Rightarrow> string set list \<Rightarrow> sexpr list \<Rightarrow> strip_state \<Rightarrow> command_error + sexpr list \<times> strip_state"
  and strip_bindings :: "string set \<Rightarrow> string set list \<Rightarrow> sexpr list \<Rightarrow> strip_state
      \<Rightarrow> command_error + (sexpr list \<times> string set) \<times> strip_state" where
  "strip_term all locals (SAtom a) st =
     (case sx_symbol (SAtom a) of
        Some s \<Rightarrow>
          if s \<in> all \<and> s \<notin> fst st \<and> \<not> list_ex (\<lambda>scope. s \<in> scope) locals then Inl (UsedBeforeDefinition s)
          else Inr (SAtom a, st)
      | None \<Rightarrow> Inr (SAtom a, st))"
| "strip_term all locals (SList []) st = Inr (SList [], st)"
| "strip_term all locals (SList (head # arguments)) st =
     (if sx_word head = Some ''!'' then
        (if arguments = [] then Inl AnnotationNeedsTerm
         else bindE (strip_term all locals (arguments ! 0) st) (\<lambda>(t, st).
              bindE (annotation_name (SList (head # arguments))) (\<lambda>n. Inr (t, define_label n t st))))
      else if sx_word head = Some ''let'' then
        bindE (expect_arity arguments 2 ''let'') (\<lambda>_.
        bindE (expect_list (arguments ! 0) ''let bindings'') (\<lambda>bindings.
        bindE (strip_bindings all locals bindings st) (\<lambda>((bindings', names), st).
        bindE (strip_term all (locals @ [names]) (arguments ! 1) st) (\<lambda>(body, st).
        Inr (SList [head, SList bindings', body], st)))))
      else bindE (strip_all all locals arguments st) (\<lambda>(arguments', st). Inr (SList (head # arguments'), st)))"
| "strip_all all locals [] st = Inr ([], st)"
| "strip_all all locals (e # es) st =
     bindE (strip_term all locals e st) (\<lambda>(t, st).
     bindE (strip_all all locals es st) (\<lambda>(ts, st). Inr (t # ts, st)))"
| "strip_bindings all locals [] st = Inr (([], {}), st)"
| "strip_bindings all locals (b # bs) st =
     bindE (expect_list b ''let binding'') (\<lambda>pair.
     bindE (expect_arity pair 2 ''let binding'') (\<lambda>_.
     bindE (expect_symbol (pair ! 0) ''let variable'') (\<lambda>name.
     bindE (strip_term all locals (pair ! 1) st) (\<lambda>(v, st).
     bindE (strip_bindings all locals bs st) (\<lambda>((bs', names), st).
     Inr ((SList [pair ! 0, v] # bs', insert name names), st))))))"
  by pat_completeness auto
termination
proof (relation "measure (case_sum (\<lambda>(_, _, e, _). size e)
    (case_sum (\<lambda>(_, _, es, _). Suc (size_list size es)) (\<lambda>(_, _, bs, _). Suc (size_list size bs))))", goal_cases)
  case (2 all locals head arguments st)
  then show ?case using nth_size [of 0 arguments] by simp
next
  case (3 all locals head arguments st u bindings)
  then show ?case using nth_size [of 0 arguments] by (simp add: expect_arity_Inr expect_list_Inr)
next
  case (4 all locals head arguments st u)
  then show ?case using nth_size [of 1 arguments] by (simp add: expect_arity_Inr)
next
  case (8 all locals b bs st pair u)
  then show ?case using nth_size [of 1 pair] by (simp add: expect_arity_Inr expect_list_Inr)
qed simp_all

subsection \<open>Commands\<close>

text \<open>The terms of a command that may hold labels, each with its local names.\<close>

fun parameter_names :: "sexpr list \<Rightarrow> command_error + string set" where
  "parameter_names [] = Inr {}"
| "parameter_names (p # ps) =
     bindE (expect_list p ''function parameter'') (\<lambda>fields.
     bindE (expect_arity fields 2 ''function parameter'') (\<lambda>_.
     bindE (expect_symbol (fields ! 0) ''parameter name'') (\<lambda>n.
     bindE (parameter_names ps) (\<lambda>names. Inr (insert n names)))))"

definition inline_term_contexts :: "string \<Rightarrow> sexpr list \<Rightarrow> command_error + (sexpr \<times> string set list) list" where
  "inline_term_contexts command arguments =
     (if command = ''assert'' \<and> length arguments = 1 then Inr [(arguments ! 0, [])]
      else if command = ''define-const'' \<and> length arguments = 3 then Inr [(arguments ! 2, [])]
      else if command = ''define-fun'' \<and> length arguments = 4 then
        bindE (expect_list (arguments ! 1) ''function parameters'') (\<lambda>parameters.
        bindE (parameter_names parameters) (\<lambda>names. Inr [(arguments ! 3, [names])]))
      else if command = ''check-sat-assuming'' \<and> length arguments = 1 then
        bindE (expect_list (arguments ! 0) ''assumption list'') (\<lambda>es. Inr (map (\<lambda>e. (e, [])) es))
      else if command = ''get-value'' \<and> length arguments = 1 then
        bindE (expect_list (arguments ! 0) ''get-value term list'') (\<lambda>es. Inr (map (\<lambda>e. (e, [])) es))
      else Inr [])"

fun first_repeated :: "string list \<Rightarrow> string set \<Rightarrow> string option" where
  "first_repeated [] seen = None"
| "first_repeated (n # ns) seen = (if n \<in> seen then Some n else first_repeated ns (insert n seen))"

fun strip_contexts :: "string set \<Rightarrow> (sexpr \<times> string set list) list \<Rightarrow> strip_state
    \<Rightarrow> command_error + sexpr list \<times> strip_state" where
  "strip_contexts all [] st = Inr ([], st)"
| "strip_contexts all ((e, locals) # cs) st =
     bindE (strip_term all locals e st) (\<lambda>(t, st).
     bindE (strip_contexts all cs st) (\<lambda>(ts, st). Inr (t # ts, st)))"

definition replace_terms :: "string \<Rightarrow> sexpr list \<Rightarrow> sexpr list \<Rightarrow> sexpr list" where
  "replace_terms name items terms =
     (if name = ''assert'' \<and> length items = 2 then items[1 := terms ! 0]
      else if name = ''define-const'' \<and> length items = 4 then items[3 := terms ! 0]
      else if name = ''define-fun'' \<and> length items = 5 then items[4 := terms ! 0]
      else if (name = ''check-sat-assuming'' \<or> name = ''get-value'') \<and> length items = 2 then items[1 := SList terms]
      else items)"

definition strip_inline_definitions :: "sexpr \<Rightarrow> command_error + sexpr \<times> (string \<times> sexpr) list \<times> string option" where
  "strip_inline_definitions command =
     (case command of
        SAtom _ \<Rightarrow> Inr (command, [], None)
      | SList [] \<Rightarrow> Inr (command, [], None)
      | SList (head # arguments) \<Rightarrow>
          (case sx_word head of
             None \<Rightarrow> Inr (command, [], None)
           | Some name \<Rightarrow>
               bindE (inline_term_contexts name arguments) (\<lambda>contexts.
                 if contexts = [] then Inr (command, [], None)
                 else bindE (collect_all (map fst contexts) []) (\<lambda>names.
                   case first_repeated names {} of
                     Some n \<Rightarrow> Inl (RepeatedLabel n)
                   | None \<Rightarrow>
                       bindE (if name = ''assert'' \<and> length arguments = 1 then annotation_name (arguments ! 0) else Inr None) (\<lambda>label.
                       bindE (strip_contexts (set names) contexts ({}, [])) (\<lambda>(terms, st).
                       Inr (SList (replace_terms name (head # arguments) terms), snd st, label)))))))"

subsection \<open>Erasing annotations\<close>

text \<open>
  A term without its annotations, and its labelled subterms with inner ones first. Both recurse on
  the term alone. The bindings of a \<open>let\<close> are pairs of a variable and a term.
\<close>

definition binding_variable :: "sexpr \<Rightarrow> sexpr" where
  "binding_variable b = (case b of SList [x, v] \<Rightarrow> x | _ \<Rightarrow> b)"

definition binding_value :: "sexpr \<Rightarrow> sexpr" where
  "binding_value b = (case b of SList [x, v] \<Rightarrow> v | _ \<Rightarrow> b)"

definition list_items :: "sexpr \<Rightarrow> sexpr list" where
  "list_items e = (case e of SList items \<Rightarrow> items | SAtom _ \<Rightarrow> [])"

definition named :: "sexpr \<Rightarrow> string option" where
  "named e = (case annotation_name e of Inl _ \<Rightarrow> None | Inr n \<Rightarrow> n)"

lemma binding_simps [simp]:
  "binding_variable (SList [x, v]) = x" "binding_value (SList [x, v]) = v" "list_items (SList items) = items"
  by (simp_all add: binding_variable_def binding_value_def list_items_def)

lemma binding_value_size: "size (binding_value b) \<le> size b"
  by (auto simp: binding_value_def split: sexpr.split list.split)

lemma list_items_size: "size_list size (list_items e) < Suc (size e)"
  by (cases e) (simp_all add: list_items_def)

lemma subterm_size:
  "length es = 2 \<Longrightarrow> b \<in> set (list_items (es ! 0)) \<Longrightarrow> size (binding_value b) < size (SList (head # es))"
  "i < length es \<Longrightarrow> size (es ! i) < size (SList (head # es))"
  "e \<in> set es \<Longrightarrow> size e < size (SList (head # es))"
proof -
  show m: "size e < size (SList (head # es))" if "e \<in> set es" for e
    using size_list_estimation' [OF that order_refl, of size] by simp
  then show "size (es ! i) < size (SList (head # es))" if "i < length es" using that by simp
  show "size (binding_value b) < size (SList (head # es))" if "length es = 2" "b \<in> set (list_items (es ! 0))"
  proof -
    have "size b \<le> size_list size (list_items (es ! 0))" by (rule size_list_estimation' [OF that(2) order_refl])
    then have "size (binding_value b) \<le> size (es ! 0)"
      using binding_value_size [of b] list_items_size [of "es ! 0"] by linarith
    also have "\<dots> < size (SList (head # es))" using m [of "es ! 0"] that(1) by simp
    finally show ?thesis .
  qed
qed

function erase :: "sexpr \<Rightarrow> sexpr" where
  "erase (SAtom a) = SAtom a"
| "erase (SList []) = SList []"
| "erase (SList (head # es)) =
     (if sx_word head = Some ''!'' \<and> es \<noteq> [] then erase (es ! 0)
      else if sx_word head = Some ''let'' \<and> length es = 2 then
        SList [head, SList (map (\<lambda>b. SList [binding_variable b, erase (binding_value b)]) (list_items (es ! 0))), erase (es ! 1)]
      else SList (head # map erase es))"
  by pat_completeness auto
termination
  by (relation "measure size") (simp_all only: in_measure wf_measure subterm_size length_greater_0_conv, simp_all add: subterm_size del: sexpr.size)

function labelled :: "sexpr \<Rightarrow> (string \<times> sexpr) list" where
  "labelled (SAtom a) = []"
| "labelled (SList []) = []"
| "labelled (SList (head # es)) =
     (if sx_word head = Some ''!'' \<and> es \<noteq> [] then
        labelled (es ! 0) @ (case named (SList (head # es)) of None \<Rightarrow> [] | Some n \<Rightarrow> [(n, erase (es ! 0))])
      else if sx_word head = Some ''let'' \<and> length es = 2 then
        concat (map (\<lambda>b. labelled (binding_value b)) (list_items (es ! 0))) @ labelled (es ! 1)
      else concat (map labelled es))"
  by pat_completeness auto
termination
  by (relation "measure size") (simp_all only: in_measure wf_measure subterm_size length_greater_0_conv, simp_all add: subterm_size del: sexpr.size)

abbreviation label_names :: "sexpr \<Rightarrow> string list" where
  "label_names e \<equiv> map fst (labelled e)"

lemma annotation_named: "annotation_name e = Inr n \<Longrightarrow> named e = n"
  by (simp add: named_def)

lemma pair_binding: "expect_list b r = Inr pair \<Longrightarrow> length pair = 2 \<Longrightarrow> b = SList [pair ! 0, pair ! 1]"
  by (auto simp: expect_list_Inr length_Suc_conv numeral_2_eq_2)

lemma collect_labels:
  "collect_names e names = Inr ns \<Longrightarrow> ns = names @ label_names e"
  "collect_all es names = Inr ns \<Longrightarrow> ns = names @ map fst (concat (map labelled es))"
  "collect_bindings bs names = Inr ns \<Longrightarrow> ns = names @ map fst (concat (map (\<lambda>b. labelled (binding_value b)) bs))"
proof (induction e names and es names and bs names arbitrary: ns and ns and ns
    rule: collect_names_collect_all_collect_bindings.induct)
  case (3 head es names)
  show ?case
  proof (cases "sx_word head = Some ''!''")
    case True
    then obtain ms n where m: "collect_names (es ! 0) names = Inr ms" "annotation_name (SList (head # es)) = Inr n" "es \<noteq> []"
        "ns = push_name n ms"
      using "3.prems" by (auto simp: bindE_Inr_iff split: if_splits)
    then have "ms = names @ label_names (es ! 0)" using "3.IH"(1) True by blast
    then show ?thesis using True m annotation_named [OF m(2)] by (auto simp: push_name_def split: option.splits)
  next
    case False
    show ?thesis
    proof (cases "sx_word head = Some ''let''")
      case True
      then obtain bs ms where m: "length es = 2" "es ! 0 = SList bs" "collect_bindings bs names = Inr ms" "collect_names (es ! 1) ms = Inr ns"
        using "3.prems" False by (auto simp: bindE_Inr_iff expect_arity_Inr expect_list_Inr)
      have "ms = names @ map fst (concat (map (\<lambda>b. labelled (binding_value b)) bs))"
        using "3.IH"(2) False True m(1-3) by (auto simp: expect_arity_Inr expect_list_Inr)
      moreover have "ns = ms @ label_names (es ! 1)"
        using "3.IH"(3) False True m by (auto simp: expect_arity_Inr expect_list_Inr)
      ultimately show ?thesis using True m by simp
    next
      case nolet: False
      then show ?thesis using "3.IH"(4) "3.prems" False by simp
    qed
  qed
next
  case (7 b bs names)
  then obtain pair ms where m: "b = SList pair" "length pair = 2" "collect_names (pair ! 1) names = Inr ms" "collect_bindings bs ms = Inr ns"
    by (auto simp: bindE_Inr_iff expect_arity_Inr expect_list_Inr)
  then have "ms = names @ label_names (pair ! 1)" "ns = ms @ map fst (concat (map (\<lambda>b. labelled (binding_value b)) bs))"
    using "7.IH" by (auto simp: expect_arity_Inr expect_list_Inr)
  moreover have "b = SList [pair ! 0, pair ! 1]" using m(1,2) by (intro pair_binding) (simp_all add: expect_list_Inr)
  ultimately show ?case by simp
qed (fastforce simp: bindE_Inr_iff)+

definition strips_to :: "sexpr list \<Rightarrow> (string \<times> sexpr) list \<Rightarrow> strip_state \<Rightarrow> sexpr list \<times> strip_state \<Rightarrow> bool" where
  "strips_to es ds st r \<longleftrightarrow>
     fst r = es \<and> fst (snd r) = fst st \<union> set (map fst ds) \<and> snd (snd r) = snd st @ ds"

lemma strips_to_simps [simp]:
  "strips_to es ds st (ts, st') \<longleftrightarrow> ts = es \<and> fst st' = fst st \<union> set (map fst ds) \<and> snd st' = snd st @ ds"
  by (simp add: strips_to_def)

definition erase_binding :: "sexpr \<Rightarrow> sexpr" where
  "erase_binding b = SList [binding_variable b, erase (binding_value b)]"

lemma strip_erases:
  "strip_term all locals e st = Inr (t, st') \<Longrightarrow> strips_to [erase e] (labelled e) st ([t], st')"
  "strip_all all locals es st = Inr (ts, st') \<Longrightarrow> strips_to (map erase es) (concat (map labelled es)) st (ts, st')"
  "strip_bindings all locals bs st = Inr ((bs', names), st') \<Longrightarrow>
   strips_to (map erase_binding bs) (concat (map (\<lambda>b. labelled (binding_value b)) bs)) st (bs', st')"
proof (induction all locals e st and all locals es st and all locals bs st
    arbitrary: t st' and ts st' and bs' names st' rule: strip_term_strip_all_strip_bindings.induct)
  case (1 all locals a st)
  then show ?case by (auto split: option.splits if_splits)
next
  case (3 all locals head es st)
  show ?case
  proof (cases "sx_word head = Some ''!''")
    case True
    then obtain st1 n where m: "strip_term all locals (es ! 0) st = Inr (t, st1)" "annotation_name (SList (head # es)) = Inr n" "es \<noteq> []"
        "st' = define_label n t st1"
      using "3.prems" by (auto simp: bindE_Inr_iff split: if_splits)
    then have "strips_to [erase (es ! 0)] (labelled (es ! 0)) st ([t], st1)" using "3.IH"(1) True by blast
    then show ?thesis using True m annotation_named [OF m(2)] by (auto simp: define_label_def split: option.splits)
  next
    case False
    show ?thesis
    proof (cases "sx_word head = Some ''let''")
      case True
      then obtain bs cs names st1 body where m: "length es = 2" "es ! 0 = SList bs"
          "strip_bindings all locals bs st = Inr ((cs, names), st1)"
          "strip_term all (locals @ [names]) (es ! 1) st1 = Inr (body, st')" "t = SList [head, SList cs, body]"
        using "3.prems" False by (auto simp: bindE_Inr_iff expect_arity_Inr expect_list_Inr)
      have "strips_to (map erase_binding bs) (concat (map (\<lambda>b. labelled (binding_value b)) bs)) st (cs, st1)"
        using "3.IH"(2) False True m(1-3) by (auto simp: expect_arity_Inr expect_list_Inr)
      moreover have "strips_to [erase (es ! 1)] (labelled (es ! 1)) st1 ([body], st')"
        using "3.IH"(3) False True m(1-4) by (auto simp: expect_arity_Inr expect_list_Inr)
      ultimately show ?thesis using True m by (auto simp: erase_binding_def [abs_def])
    next
      case nolet: False
      then obtain ts where "strip_all all locals es st = Inr (ts, st')" "t = SList (head # ts)"
        using "3.prems" False by (auto simp: bindE_Inr_iff)
      then show ?thesis using "3.IH"(4) nolet False by auto
    qed
  qed
next
  case (5 all locals e es st)
  then obtain x st1 xs where "strip_term all locals e st = Inr (x, st1)" "strip_all all locals es st1 = Inr (xs, st')" "ts = x # xs"
    by (auto simp: bindE_Inr_iff)
  then show ?case using "5.IH" by auto
next
  case (7 all locals b bs st)
  then obtain pair name v st1 cs ns where m: "b = SList pair" "length pair = 2" "expect_symbol (pair ! 0) ''let variable'' = Inr name"
      "strip_term all locals (pair ! 1) st = Inr (v, st1)" "strip_bindings all locals bs st1 = Inr ((cs, ns), st')"
      "bs' = SList [pair ! 0, v] # cs"
    by (auto simp: bindE_Inr_iff expect_arity_Inr expect_list_Inr)
  have "strips_to [erase (pair ! 1)] (labelled (pair ! 1)) st ([v], st1)"
    using "7.IH"(1) m(1-4) by (auto simp: expect_arity_Inr expect_list_Inr)
  moreover have "strips_to (map erase_binding bs) (concat (map (\<lambda>b. labelled (binding_value b)) bs)) st1 (cs, st')"
    using "7.IH"(2) m(1-5) by (auto simp: expect_arity_Inr expect_list_Inr)
  moreover have "b = SList [pair ! 0, pair ! 1]" using m(1,2) by (intro pair_binding) (simp_all add: expect_list_Inr)
  ultimately show ?case using m(6) by (auto simp: erase_binding_def)
qed auto

lemma strip_contexts_erase:
  "strip_contexts all cs st = Inr (ts, st') \<Longrightarrow>
   strips_to (map (erase \<circ> fst) cs) (concat (map (labelled \<circ> fst) cs)) st (ts, st')"
proof (induction all cs st arbitrary: ts st' rule: strip_contexts.induct)
  case (2 all e locals cs st)
  then obtain t st1 us where m: "strip_term all locals e st = Inr (t, st1)" "strip_contexts all cs st1 = Inr (us, st')" "ts = t # us"
    by (auto simp: bindE_Inr_iff)
  show ?case using strip_erases(1) [OF m(1)] "2.IH" [OF m(1) refl m(2)] m(3) by auto
qed simp

lemma first_repeated_None: "first_repeated ns seen = None \<longleftrightarrow> distinct ns \<and> set ns \<inter> seen = {}"
  by (induction ns seen rule: first_repeated.induct) auto

subsection \<open>The order of the definitions\<close>

text \<open>The symbols that a term uses, operators aside, and the names that its \<open>let\<close>s bind.\<close>

function uses :: "sexpr \<Rightarrow> string list" where
  "uses (SAtom a) = (case sx_symbol (SAtom a) of None \<Rightarrow> [] | Some s \<Rightarrow> [s])"
| "uses (SList []) = []"
| "uses (SList (head # es)) =
     (if sx_word head = Some ''let'' \<and> length es = 2
      then concat (map (\<lambda>b. uses (binding_value b)) (list_items (es ! 0))) @ uses (es ! 1)
      else concat (map uses es))"
  by pat_completeness auto
termination
  by (relation "measure size") (simp_all add: subterm_size del: sexpr.size)

function binders :: "sexpr \<Rightarrow> string list" where
  "binders (SAtom a) = []"
| "binders (SList []) = []"
| "binders (SList (head # es)) =
     (if sx_word head = Some ''!'' \<and> es \<noteq> [] then binders (es ! 0)
      else if sx_word head = Some ''let'' \<and> length es = 2
      then concat (map (\<lambda>b. (case sx_symbol (binding_variable b) of None \<Rightarrow> [] | Some s \<Rightarrow> [s]) @ binders (binding_value b)) (list_items (es ! 0)))
        @ binders (es ! 1)
      else concat (map binders es))"
  by pat_completeness auto
termination
  by (relation "measure size") (simp_all only: in_measure wf_measure subterm_size length_greater_0_conv, simp_all add: subterm_size del: sexpr.size)

text \<open>Every definition uses only the labels that come before it, and names from \<open>L\<close>.\<close>

fun in_order :: "string set \<Rightarrow> string set \<Rightarrow> string set \<Rightarrow> (string \<times> sexpr) list \<Rightarrow> bool" where
  "in_order all L A [] \<longleftrightarrow> True"
| "in_order all L A ((n, t) # ds) \<longleftrightarrow> set (uses t) \<inter> all \<subseteq> A \<union> L \<and> in_order all L (insert n A) ds"

lemma in_order_append:
  "in_order all L A (ds @ es) \<longleftrightarrow> in_order all L A ds \<and> in_order all L (A \<union> set (map fst ds)) es"
  by (induction all L A ds rule: in_order.induct) auto

lemma in_order_nth:
  "in_order all L A ds \<Longrightarrow> i < length ds \<Longrightarrow> set (uses (snd (ds ! i))) \<inter> all \<subseteq> A \<union> set (map fst (take i ds)) \<union> L"
proof (induction all L A ds arbitrary: i rule: in_order.induct)
  case (2 all L A n t ds)
  then show ?case by (cases i) auto
qed simp

abbreviation binding_binders :: "sexpr list \<Rightarrow> string set" where
  "binding_binders bs \<equiv> (\<Union>b \<in> set bs. set_option (sx_symbol (binding_variable b)) \<union> set (binders (binding_value b)))"

lemma binders_let:
  "sx_word head = Some ''let'' \<Longrightarrow> length es = 2 \<Longrightarrow> es ! 0 = SList bs \<Longrightarrow>
   set (binders (SList (head # es))) = binding_binders bs \<union> set (binders (es ! 1))"
  by (auto split: option.splits)

lemma uses_erased_let:
  "sx_word head = Some ''let'' \<Longrightarrow>
   uses (SList [head, SList (map erase_binding bs), t]) = concat (map (\<lambda>b. uses (erase (binding_value b))) bs) @ uses t"
  by (simp add: erase_binding_def comp_def)

lemma strip_in_order:
  "strip_term all locals e st = Inr (t, st') \<Longrightarrow> \<Union>(set locals) \<union> set (binders e) \<subseteq> L \<Longrightarrow>
   set (uses (erase e)) \<inter> all \<subseteq> fst st' \<union> L \<and> in_order all L (fst st) (labelled e)"
  "strip_all all locals es st = Inr (ts, st') \<Longrightarrow> \<Union>(set locals) \<union> (\<Union>e \<in> set es. set (binders e)) \<subseteq> L \<Longrightarrow>
   (\<Union>e \<in> set es. set (uses (erase e))) \<inter> all \<subseteq> fst st' \<union> L \<and> in_order all L (fst st) (concat (map labelled es))"
  "strip_bindings all locals bs st = Inr ((bs', names), st') \<Longrightarrow> \<Union>(set locals) \<union> binding_binders bs \<subseteq> L \<Longrightarrow>
   names \<subseteq> L \<and> (\<Union>b \<in> set bs. set (uses (erase (binding_value b)))) \<inter> all \<subseteq> fst st' \<union> L
   \<and> in_order all L (fst st) (concat (map (\<lambda>b. labelled (binding_value b)) bs))"
proof (induction all locals e st and all locals es st and all locals bs st
    arbitrary: t st' and ts st' and bs' names st' rule: strip_term_strip_all_strip_bindings.induct)
  case (1 all locals a st)
  then show ?case by (auto simp: list_ex_iff split: option.splits if_splits)
next
  case (3 all locals head es st)
  show ?case
  proof (cases "sx_word head = Some ''!''")
    case True
    then obtain st1 n where m: "strip_term all locals (es ! 0) st = Inr (t, st1)" "annotation_name (SList (head # es)) = Inr n" "es \<noteq> []"
        "st' = define_label n t st1"
      using "3.prems"(1) by (auto simp: bindE_Inr_iff split: if_splits)
    then have "set (uses (erase (es ! 0))) \<inter> all \<subseteq> fst st1 \<union> L \<and> in_order all L (fst st) (labelled (es ! 0))"
      using "3.IH"(1) True "3.prems"(2) by simp
    moreover have "fst st1 = fst st \<union> set (label_names (es ! 0))" using strip_erases(1) [OF m(1)] by simp
    ultimately show ?thesis
      using True m annotation_named [OF m(2)] by (auto simp: define_label_def in_order_append split: option.splits)
  next
    case False
    show ?thesis
    proof (cases "sx_word head = Some ''let''")
      case True
      then obtain bs cs names st1 body where m: "length es = 2" "es ! 0 = SList bs"
          "strip_bindings all locals bs st = Inr ((cs, names), st1)"
          "strip_term all (locals @ [names]) (es ! 1) st1 = Inr (body, st')"
        using "3.prems"(1) False by (auto simp: bindE_Inr_iff expect_arity_Inr expect_list_Inr)
      have L: "\<Union>(set locals) \<union> binding_binders bs \<subseteq> L" "set (binders (es ! 1)) \<subseteq> L"
        using "3.prems"(2) binders_let [OF True m(1,2)] by auto
      let ?ub = "\<Union>b \<in> set bs. set (uses (erase (binding_value b)))" and ?lb = "concat (map (\<lambda>b. labelled (binding_value b)) bs)"
      have b: "names \<subseteq> L" "?ub \<inter> all \<subseteq> fst st1 \<union> L" "in_order all L (fst st) ?lb"
        using "3.IH"(2) False True m(1-3) L by (auto simp: expect_arity_Inr expect_list_Inr)
      have e: "set (uses (erase (es ! 1))) \<inter> all \<subseteq> fst st' \<union> L" "in_order all L (fst st1) (labelled (es ! 1))"
        using "3.IH"(3) False True m(1-4) L b(1) by (simp_all add: expect_arity_Inr expect_list_Inr)
      have st1: "fst st1 = fst st \<union> set (map fst ?lb)" "fst st1 \<subseteq> fst st'"
        using strip_erases(3) [OF m(3)] strip_erases(1) [OF m(4)] by simp_all
      have "erase (SList (head # es)) = SList [head, SList (map erase_binding bs), erase (es ! 1)]"
        using True m by (simp add: erase_binding_def [abs_def])
      then have "set (uses (erase (SList (head # es)))) = ?ub \<union> set (uses (erase (es ! 1)))"
        using uses_erased_let [OF True] by simp
      moreover have "?ub \<inter> all \<subseteq> fst st' \<union> L" using b(2) st1(2) by blast
      moreover have "labelled (SList (head # es)) = ?lb @ labelled (es ! 1)" using True m by simp
      moreover have "in_order all L (fst st) (?lb @ labelled (es ! 1))"
        unfolding in_order_append using b(3) e(2) st1(1) by simp
      ultimately show ?thesis using e(1) by (metis Int_Un_distrib2 Un_least)
    next
      case nolet: False
      then obtain ts where "strip_all all locals es st = Inr (ts, st')"
        using "3.prems"(1) False by (auto simp: bindE_Inr_iff)
      then show ?thesis using "3.IH"(4) nolet False "3.prems"(2) by auto
    qed
  qed
next
  case (5 all locals e es st)
  then obtain x st1 xs where m: "strip_term all locals e st = Inr (x, st1)" "strip_all all locals es st1 = Inr (xs, st')"
    by (auto simp: bindE_Inr_iff)
  have st1: "fst st1 = fst st \<union> set (label_names e)" "fst st1 \<subseteq> fst st'"
    using strip_erases(1) [OF m(1)] strip_erases(2) [OF m(2)] by simp_all
  have e: "set (uses (erase e)) \<inter> all \<subseteq> fst st1 \<union> L" "in_order all L (fst st) (labelled e)"
    using "5.IH"(1) [OF m(1)] "5.prems"(2) by simp_all
  have "set (uses (erase e)) \<inter> all \<subseteq> fst st' \<union> L" using e(1) st1(2) by blast
  moreover have "(\<Union>e \<in> set es. set (uses (erase e))) \<inter> all \<subseteq> fst st' \<union> L \<and> in_order all L (fst st1) (concat (map labelled es))"
    using "5.IH"(2) [OF m(1) refl m(2)] "5.prems"(2) by simp
  ultimately show ?case using e(2) st1(1) by (simp add: in_order_append Int_Un_distrib2)
next
  case (7 all locals b bs st)
  then obtain pair name v st1 cs ns where m: "b = SList pair" "length pair = 2" "expect_symbol (pair ! 0) ''let variable'' = Inr name"
      "strip_term all locals (pair ! 1) st = Inr (v, st1)" "strip_bindings all locals bs st1 = Inr ((cs, ns), st')"
      "names = insert name ns"
    by (auto simp: bindE_Inr_iff expect_arity_Inr expect_list_Inr)
  have p: "b = SList [pair ! 0, pair ! 1]" using m(1,2) by (intro pair_binding) (simp_all add: expect_list_Inr)
  then have bb: "binding_variable b = pair ! 0" "binding_value b = pair ! 1" by (metis binding_simps(1), metis binding_simps(2) p)
  have "sx_symbol (pair ! 0) = Some name" using m(3) by (auto simp: expect_symbol_def expect_def split: option.splits)
  then have n: "name \<in> L" using "7.prems"(2) bb by auto
  have st1: "fst st1 = fst st \<union> set (label_names (pair ! 1))" "fst st1 \<subseteq> fst st'"
    using strip_erases(1) [OF m(4)] strip_erases(3) [OF m(5)] by simp_all
  have e: "set (uses (erase (pair ! 1))) \<inter> all \<subseteq> fst st1 \<union> L" "in_order all L (fst st) (labelled (pair ! 1))"
    using "7.IH"(1) m(1-4) "7.prems"(2) bb by (auto simp: expect_arity_Inr expect_list_Inr)
  have "set (uses (erase (pair ! 1))) \<inter> all \<subseteq> fst st' \<union> L" using e(1) st1(2) by blast
  moreover have "ns \<subseteq> L \<and> (\<Union>b \<in> set bs. set (uses (erase (binding_value b)))) \<inter> all \<subseteq> fst st' \<union> L
      \<and> in_order all L (fst st1) (concat (map (\<lambda>b. labelled (binding_value b)) bs))"
    using "7.IH"(2) m(1-5) "7.prems"(2) by (auto simp: expect_arity_Inr expect_list_Inr)
  ultimately show ?case using m(6) bb n e(2) st1(1) by (simp add: in_order_append Int_Un_distrib2)
qed simp_all

lemma strip_contexts_in_order:
  "strip_contexts all cs st = Inr (ts, st') \<Longrightarrow> (\<forall>(e, locals) \<in> set cs. \<Union>(set locals) \<union> set (binders e) \<subseteq> L) \<Longrightarrow>
   in_order all L (fst st) (concat (map (labelled \<circ> fst) cs))"
proof (induction all cs st arbitrary: ts st' rule: strip_contexts.induct)
  case (2 all e locals cs st)
  then obtain t st1 us where m: "strip_term all locals e st = Inr (t, st1)" "strip_contexts all cs st1 = Inr (us, st')"
    by (auto simp: bindE_Inr_iff)
  have "in_order all L (fst st) (labelled e)" using strip_in_order(1) [OF m(1)] "2.prems"(2) by simp
  moreover have "in_order all L (fst st1) (concat (map (labelled \<circ> fst) cs))"
    using "2.IH" [OF m(1) refl m(2)] "2.prems"(2) by (simp add: comp_def)
  moreover have "fst st1 = fst st \<union> set (label_names e)" using strip_erases(1) [OF m(1)] by simp
  ultimately show ?case by (simp add: in_order_append comp_def)
qed simp

subsection \<open>The properties\<close>

text \<open>The terms of a command that may hold labels, and the names that are local to them.\<close>

definition command_contexts :: "sexpr \<Rightarrow> (sexpr \<times> string set list) list" where
  "command_contexts command =
     (case command of
        SList (head # arguments) \<Rightarrow>
          (case sx_word head of
             Some name \<Rightarrow> (case inline_term_contexts name arguments of Inr cs \<Rightarrow> cs | Inl _ \<Rightarrow> [])
           | None \<Rightarrow> [])
      | _ \<Rightarrow> [])"

definition command_terms :: "sexpr \<Rightarrow> sexpr list" where
  "command_terms command = map fst (command_contexts command)"

definition local_names :: "sexpr \<Rightarrow> string set" where
  "local_names command = (\<Union>(e, locals) \<in> set (command_contexts command). \<Union>(set locals) \<union> set (binders e))"

lemma strip_inline_cases:
  assumes "strip_inline_definitions c = Inr (c', ds, l)"
  obtains "command_contexts c = []" "ds = []" "c' = c"
  | head arguments name st where "c = SList (head # arguments)" "sx_word head = Some name"
    "inline_term_contexts name arguments = Inr (command_contexts c)"
    "strip_contexts (set (map fst (concat (map labelled (command_terms c))))) (command_contexts c) ({}, [])
       = Inr (map erase (command_terms c), st)"
    "ds = concat (map labelled (command_terms c))" "distinct (map fst ds)"
    "c' = SList (replace_terms name (head # arguments) (map erase (command_terms c)))"
proof -
  show ?thesis
  proof (cases "command_contexts c = []")
    case True
    have "ds = [] \<and> c' = c"
      using assms True
      by (auto simp: strip_inline_definitions_def command_contexts_def bindE_Inr_iff split: sexpr.splits list.splits option.splits if_splits)
    then show ?thesis using that(1) True by blast
  next
    case False
    then obtain head arguments name where c: "c = SList (head # arguments)" "sx_word head = Some name"
        "inline_term_contexts name arguments = Inr (command_contexts c)"
      by (auto simp: command_contexts_def split: sexpr.splits list.splits option.splits sum.splits)
    then obtain names terms st where s: "collect_all (command_terms c) [] = Inr names" "first_repeated names {} = None"
        "strip_contexts (set names) (command_contexts c) ({}, []) = Inr (terms, st)" "ds = snd st"
        "c' = SList (replace_terms name (head # arguments) terms)"
      using assms False unfolding strip_inline_definitions_def command_terms_def
      by (auto simp: bindE_Inr_iff split: option.splits)
    have n: "names = map fst (concat (map labelled (command_terms c)))" using collect_labels(2) [OF s(1)] by simp
    have t: "terms = map erase (command_terms c)" "snd st = concat (map labelled (command_terms c))"
      using strip_contexts_erase [OF s(3)] by (simp_all add: command_terms_def comp_def)
    show ?thesis
      using that(2) [of head arguments name st] c s t n by (simp add: first_repeated_None)
  qed
qed

lemma replaced_terms:
  assumes "inline_term_contexts name arguments = Inr cs" "cs \<noteq> []" "length ts = length cs" "sx_word head = Some name"
  shows "command_terms (SList (replace_terms name (head # arguments) ts)) = ts"
proof -
  have one: "length ts = Suc 0 \<Longrightarrow> [ts ! 0] = ts" by (cases ts) auto
  from assms show ?thesis
    by (auto simp: inline_term_contexts_def replace_terms_def command_terms_def command_contexts_def comp_def bindE_Inr_iff
        expect_list_Inr expect_list_def nth_Cons' intro: one split: if_splits sexpr.splits)
qed

text \<open>
  C27: stripping finds exactly the labels of a command: the definitions are the labelled subterms of
  its terms, annotations erased, inner ones before outer ones and left before right, under distinct
  names; and the terms of the new command are the old ones without annotations.
\<close>

theorem inline_labels_found:
  assumes "strip_inline_definitions c = Inr (c', ds, l)"
  shows "ds = concat (map labelled (command_terms c)) \<and> distinct (map fst ds)
    \<and> command_terms c' = map erase (command_terms c)"
  using assms
proof (cases rule: strip_inline_cases)
  case 1
  then show ?thesis by (simp add: command_terms_def)
next
  case (2 head arguments name st)
  show ?thesis
  proof (cases "command_contexts c = []")
    case True
    then have "command_terms c' = command_terms c"
      using 2 assms by (auto simp: strip_inline_definitions_def)
    then show ?thesis using True 2 by (simp add: command_terms_def)
  next
    case False
    have "command_terms (SList (replace_terms name (head # arguments) (map erase (command_terms c)))) = map erase (command_terms c)"
      by (rule replaced_terms [OF 2(3) False _ 2(2)]) (simp add: command_terms_def)
    then show ?thesis using 2 by simp
  qed
qed

text \<open>
  C28: the definitions come in an order in which each can be made: unless a label is also the name of
  a variable bound in the command, every label that a definition uses is defined before it.
\<close>

theorem inline_labels_in_order:
  assumes "strip_inline_definitions c = Inr (c', ds, l)" "set (map fst ds) \<inter> local_names c = {}" "i < length ds"
  shows "set (uses (snd (ds ! i))) \<inter> set (map fst ds) \<subseteq> set (map fst (take i ds))"
  using assms(1)
proof (cases rule: strip_inline_cases)
  case 1
  then show ?thesis using assms(3) by simp
next
  case (2 head arguments name st)
  have ds: "concat (map (labelled \<circ> fst) (command_contexts c)) = ds" using 2(5) by (simp add: command_terms_def comp_def)
  have all: "set (map fst (concat (map labelled (command_terms c)))) = set (map fst ds)" using 2(5) by simp
  have "in_order (set (map fst ds)) (local_names c) {} ds"
    using strip_contexts_in_order [OF 2(4) [unfolded all], of "local_names c"] by (force simp: local_names_def ds)
  then have "set (uses (snd (ds ! i))) \<inter> set (map fst ds) \<subseteq> {} \<union> set (map fst (take i ds)) \<union> local_names c"
    by (rule in_order_nth) (rule assms(3))
  then show ?thesis using assms(2) by blast
qed


text \<open>
  An example: the nested labels of \<open>(assert (! (and (! p :named a) q) :named b))\<close>.
\<close>

definition symbol_atom :: "string \<Rightarrow> sexpr" where
  "symbol_atom t = SAtom \<lparr>at_text = t, at_kind = Symbol\<rparr>"

definition word_atom :: "string \<Rightarrow> sexpr" where
  "word_atom t = SAtom \<lparr>at_text = t, at_kind = Reserved\<rparr>"

definition label_term :: "sexpr \<Rightarrow> string \<Rightarrow> sexpr" where
  "label_term t n = SList [word_atom ''!'', t, SAtom \<lparr>at_text = '':named'', at_kind = Keyword\<rparr>, symbol_atom n]"

definition nested_example :: sexpr where
  "nested_example = SList [word_atom ''assert'',
     label_term (SList [symbol_atom ''and'', label_term (symbol_atom ''p'') ''a'', symbol_atom ''q'']) ''b'']"

lemmas strip_eval =
  strip_inline_definitions_def inline_term_contexts_def replace_terms_def annotation_name_def define_label_def push_name_def
  expect_list_def expect_def expect_symbol_def expect_keyword_def expect_arity_def sx_word_def sx_symbol_def sx_keyword_def
  text_of_kinds_def symbol_atom_def word_atom_def label_term_def

lemma nested_example_stripped:
  "strip_inline_definitions nested_example =
     Inr (SList [word_atom ''assert'', SList [symbol_atom ''and'', symbol_atom ''p'', symbol_atom ''q'']],
          [(''a'', symbol_atom ''p''), (''b'', SList [symbol_atom ''and'', symbol_atom ''p'', symbol_atom ''q''])], Some ''b'')"
  by (simp add: nested_example_def strip_eval)

theorem inline_labels_found_witness:
  "concat (map labelled (command_terms nested_example)) =
     [(''a'', symbol_atom ''p''), (''b'', SList [symbol_atom ''and'', symbol_atom ''p'', symbol_atom ''q''])]"
  using inline_labels_found [OF nested_example_stripped] by simp

theorem inline_labels_in_order_witness:
  "set (uses (SList [symbol_atom ''and'', symbol_atom ''p'', symbol_atom ''q''])) \<inter> {''a'', ''b''} \<subseteq> {''a''}"
proof -
  have "local_names nested_example = {}"
    by (simp add: local_names_def command_contexts_def nested_example_def strip_eval)
  then show ?thesis using inline_labels_in_order [OF nested_example_stripped, of 1] by simp
qed


end
