(* ===== verification/Smt_Closure.thy ===== *)
theory Smt_Closure
  imports Smt_Functions "HOL-Library.Monad_Syntax"
begin

section \<open>Union-find with explanations\<close>

text \<open>
  The signed terms and theory lemmas of \<open>src/smt/theory.rs\<close> and the \<open>Closure\<close> of
  \<open>src/smt/uf.rs\<close>: a union-find forest over the terms of a check, beside a graph whose edges
  carry the literals that made two terms equal. \<open>explain\<close> searches the graph breadth-first and
  collects the literals on the path it finds. A missing index, a missing path and a violated
  \<open>expect\<close> are panics of the code, the value \<open>None\<close> here. The loops carry fuel, the number of
  terms: \<open>find_root\<close> shows that the walk to a root ends within it, \<open>explain_some\<close> that the search
  does.

  The locale \<open>justification\<close> is what an explanation has to satisfy: a relation between a set of
  literals and a pair of terms that is reflexive, symmetric, transitive and monotone. Its lemmas
  show that every explanation of a well-formed closure justifies the equality it was asked for;
  it is interpreted for the truth of the literals under an assignment and for entailment in
  every structure.
\<close>

subsection \<open>Signed terms and lemmas\<close>

record signed_term =
  sg_term :: nat
  sg_positive :: bool

definition sg_pos :: "nat \<Rightarrow> signed_term" where
  "sg_pos t = \<lparr>sg_term = t, sg_positive = True\<rparr>"

definition sg_negate :: "signed_term \<Rightarrow> signed_term" where
  "sg_negate l = \<lparr>sg_term = sg_term l, sg_positive = (\<not> sg_positive l)\<rparr>"

fun retain_new :: "signed_term set \<Rightarrow> signed_term list \<Rightarrow> signed_term list" where
  "retain_new seen [] = []"
| "retain_new seen (l # ls) = (if l \<in> seen then retain_new seen ls else l # retain_new (insert l seen) ls)"

definition deduplicate :: "signed_term list \<Rightarrow> signed_term list" where
  "deduplicate ls = retain_new {} ls"

definition conflict_lemma :: "signed_term list \<Rightarrow> signed_term \<Rightarrow> signed_term list" where
  "conflict_lemma explanation consequence =
     deduplicate (map sg_negate (deduplicate explanation) @ [consequence])"

lemma set_retain_new: "set (retain_new seen ls) = set ls - seen"
  by (induction seen ls rule: retain_new.induct) auto

lemma set_deduplicate [simp]: "set (deduplicate ls) = set ls"
  by (simp add: deduplicate_def set_retain_new)

lemma distinct_retain_new: "distinct (retain_new seen ls)"
  by (induction seen ls rule: retain_new.induct) (auto simp: set_retain_new)

lemma distinct_conflict_lemma: "distinct (conflict_lemma ls l)"
  by (simp add: conflict_lemma_def deduplicate_def distinct_retain_new)

lemma set_conflict_lemma [simp]: "set (conflict_lemma ls l) = insert l (sg_negate ` set ls)"
  by (auto simp: conflict_lemma_def)

text \<open>A literal under an assignment.\<close>

definition lit_holds :: "(nat \<Rightarrow> bool) \<Rightarrow> signed_term \<Rightarrow> bool" where
  "lit_holds v l \<longleftrightarrow> v (sg_term l) = sg_positive l"

lemma lit_holds_simps [simp]:
  "lit_holds v (sg_pos t) = v t" "lit_holds v (sg_negate l) = (\<not> lit_holds v l)"
  "lit_holds v \<lparr>sg_term = t, sg_positive = b\<rparr> = (v t = b)"
  by (auto simp: lit_holds_def sg_pos_def sg_negate_def)

subsection \<open>The closure\<close>

record edge =
  ed_to :: nat
  ed_reason :: "signed_term list"

record closure =
  cl_terms :: "nat list"
  cl_indices :: "nat \<rightharpoonup> nat"
  cl_parent :: "nat list"
  cl_rank :: "nat list"
  cl_graph :: "edge list list"

definition closure_new :: "nat list \<Rightarrow> closure" where
  "closure_new ts =
     \<lparr>cl_terms = ts, cl_indices = map_of (rev (zip ts [0..<length ts])), cl_parent = [0..<length ts],
      cl_rank = replicate (length ts) 0, cl_graph = replicate (length ts) []\<rparr>"

fun find_from :: "nat \<Rightarrow> nat list \<Rightarrow> nat \<Rightarrow> nat" where
  "find_from 0 parent i = i"
| "find_from (Suc n) parent i = (if parent ! i = i then i else find_from n parent (parent ! i))"

definition find_root :: "closure \<Rightarrow> nat \<Rightarrow> nat" where
  "find_root c i = find_from (length (cl_parent c)) (cl_parent c) i"

definition equivalent_terms :: "closure \<Rightarrow> nat \<Rightarrow> nat \<Rightarrow> bool option" where
  "equivalent_terms c l r = do {
     i \<leftarrow> cl_indices c l;
     j \<leftarrow> cl_indices c r;
     Some (find_root c i = find_root c j)
   }"

definition class_of :: "closure \<Rightarrow> nat \<Rightarrow> nat option" where
  "class_of c t = do { i \<leftarrow> cl_indices c t; Some (find_root c i) }"

definition u8_max :: nat where "u8_max = 255"

definition add_edge :: "nat \<Rightarrow> nat \<Rightarrow> signed_term list \<Rightarrow> edge list list \<Rightarrow> edge list list" where
  "add_edge i j reason graph = graph[i := graph ! i @ [\<lparr>ed_to = j, ed_reason = reason\<rparr>]]"

definition link_roots :: "nat \<Rightarrow> nat \<Rightarrow> closure \<Rightarrow> closure" where
  "link_roots l r c =
     (let (l, r) = (if cl_rank c ! l < cl_rank c ! r then (r, l) else (l, r));
          c' = c\<lparr>cl_parent := (cl_parent c)[r := l]\<rparr>
      in if cl_rank c ! l = cl_rank c ! r
         then c'\<lparr>cl_rank := (cl_rank c)[l := min u8_max (cl_rank c ! l + 1)]\<rparr> else c')"

definition closure_union :: "nat \<Rightarrow> nat \<Rightarrow> signed_term list \<Rightarrow> closure \<Rightarrow> (bool \<times> closure) option" where
  "closure_union l r reason c = do {
     i \<leftarrow> cl_indices c l;
     j \<leftarrow> cl_indices c r;
     let lr = find_root c i; rr = find_root c j; reason = deduplicate reason in
     if lr = rr then Some (False, c)
     else Some (True, link_roots lr rr (c\<lparr>cl_graph := add_edge j i reason (add_edge i j reason (cl_graph c))\<rparr>))
   }"

text \<open>The search for an explanation: the edges of a node, the queue, and the way back.\<close>

type_synonym origins = "(nat \<times> nat) option list"

fun visit_edges :: "nat \<Rightarrow> nat \<Rightarrow> edge list \<Rightarrow> nat list \<Rightarrow> origins \<Rightarrow> nat list \<times> origins" where
  "visit_edges node k [] queue previous = (queue, previous)"
| "visit_edges node k (e # es) queue previous =
     (if previous ! ed_to e = None
      then visit_edges node (k + 1) es (queue @ [ed_to e]) (previous[ed_to e := Some (node, k)])
      else visit_edges node (k + 1) es queue previous)"

fun search_path :: "nat \<Rightarrow> edge list list \<Rightarrow> nat \<Rightarrow> nat list \<Rightarrow> origins \<Rightarrow> origins" where
  "search_path 0 graph goal queue previous = previous"
| "search_path (Suc n) graph goal queue previous =
     (case queue of
        [] \<Rightarrow> previous
      | node # queue \<Rightarrow>
          if node = goal then previous
          else let (queue, previous) = visit_edges node 0 (graph ! node) queue previous
               in search_path n graph goal queue previous)"

fun trace_back :: "nat \<Rightarrow> edge list list \<Rightarrow> origins \<Rightarrow> nat \<Rightarrow> nat \<Rightarrow> signed_term list option" where
  "trace_back n graph previous start node =
     (if node = start then Some []
      else case n of
        0 \<Rightarrow> None
      | Suc n \<Rightarrow> do {
          (p, k) \<leftarrow> previous ! node;
          rest \<leftarrow> trace_back n graph previous start p;
          Some (ed_reason (graph ! p ! k) @ rest)
        })"

declare trace_back.simps [simp del]

definition explain :: "closure \<Rightarrow> nat \<Rightarrow> nat \<Rightarrow> signed_term list option" where
  "explain c l r =
     (if l = r then Some []
      else do {
        start \<leftarrow> cl_indices c l;
        goal \<leftarrow> cl_indices c r;
        let n = length (cl_terms c);
            previous = search_path n (cl_graph c) goal [start] ((replicate n None)[start := Some (start, 0)]) in
        map_option deduplicate (trace_back n (cl_graph c) previous start goal)
      })"

subsection \<open>The forest\<close>

text \<open>
  Ranks grow towards the roots, and the class of a root of rank \<open>k\<close> has at least \<open>2 ^ k\<close>
  members. So no rank exceeds the logarithm of the number of terms, a rank never saturates, and
  the walk to the root is at most that long.
\<close>

definition root_of :: "nat list \<Rightarrow> nat \<Rightarrow> nat" where
  "root_of p i = find_from (length p) p i"

definition forest :: "nat list \<Rightarrow> nat list \<Rightarrow> bool" where
  "forest p rk \<longleftrightarrow> length rk = length p \<and>
     (\<forall>i < length p. p ! i < length p \<and> (p ! i \<noteq> i \<longrightarrow> rk ! i < rk ! (p ! i)))"

definition class_members :: "nat list \<Rightarrow> nat \<Rightarrow> nat set" where
  "class_members p r = {i. i < length p \<and> root_of p i = r}"

definition ranked_forest :: "nat list \<Rightarrow> nat list \<Rightarrow> bool" where
  "ranked_forest p rk \<longleftrightarrow> forest p rk \<and>
     (\<forall>r < length p. p ! r = r \<longrightarrow> 2 ^ (rk ! r) \<le> card (class_members p r))"

lemma forestD:
  assumes "forest p rk" "i < length p"
  shows "p ! i < length p" "p ! i \<noteq> i \<Longrightarrow> rk ! i < rk ! (p ! i)"
  using assms by (auto simp: forest_def)

lemma find_from_less: "forest p rk \<Longrightarrow> i < length p \<Longrightarrow> find_from n p i < length p"
  by (induction n p i rule: find_from.induct) (auto dest: forestD)

lemma find_from_at_root: "p ! i = i \<Longrightarrow> find_from n p i = i"
  by (cases n) auto

lemma find_from_stops:
  assumes "forest p rk" "i < length p" "\<forall>j < length p. rk ! j \<le> b" "b \<le> n + rk ! i"
  shows "p ! find_from n p i = find_from n p i"
  using assms
proof (induction n arbitrary: i)
  case 0
  then show ?case by (metis add_0 find_from.simps(1) forestD leD order.trans)
next
  case (Suc n)
  then show ?case using forestD [OF Suc.prems(1,2)] by (cases "p ! i = i") auto
qed

lemma find_from_mono: "p ! find_from n p i = find_from n p i \<Longrightarrow> n \<le> m \<Longrightarrow> find_from m p i = find_from n p i"
proof (induction n arbitrary: i m)
  case 0
  then show ?case by (simp add: find_from_at_root)
next
  case (Suc n)
  obtain k where m: "m = Suc k" "n \<le> k" using Suc.prems(2) by (cases m) auto
  show ?case
  proof (cases "p ! i = i")
    case False
    then have "p ! find_from n p (p ! i) = find_from n p (p ! i)" using Suc.prems(1) by simp
    then have "find_from k p (p ! i) = find_from n p (p ! i)" using m(2) by (rule Suc.IH)
    then show ?thesis using m(1) False by (simp only: find_from.simps if_False)
  qed (simp add: m)
qed

lemma rank_logarithmic:
  assumes "ranked_forest p rk" "j < length p"
  shows "2 ^ (rk ! j) \<le> length p"
proof -
  have rk: "length rk = length p" and ne: "rk \<noteq> []" using assms by (auto simp: ranked_forest_def forest_def)
  obtain m where m: "m < length p" "rk ! m = Max (set rk)"
    using Max_in [of "set rk"] ne rk by (auto simp: in_set_conv_nth)
  have "p ! m = m"
  proof (rule ccontr)
    assume "p ! m \<noteq> m"
    then have "rk ! m < rk ! (p ! m)" "p ! m < length p" using assms(1) m by (auto simp: ranked_forest_def dest: forestD)
    then show False using m(2) rk by (metis List.finite_set Max_ge leD nth_mem)
  qed
  then have "2 ^ (rk ! m) \<le> card (class_members p m)" using assms(1) m by (auto simp: ranked_forest_def)
  also have "\<dots> \<le> card {..<length p}" by (rule card_mono) (auto simp: class_members_def)
  finally have "2 ^ (rk ! m) \<le> length p" by simp
  moreover have "rk ! j \<le> rk ! m" using m(2) rk assms(2) by simp
  ultimately show ?thesis by (meson one_le_numeral order.trans power_increasing)
qed

lemma rank_less:
  assumes "ranked_forest p rk" "j < length p" shows "rk ! j < length p"
  using rank_logarithmic [OF assms] less_exp [of "rk ! j"] by linarith

lemma find_from_log:
  assumes "ranked_forest p rk" "i < length p" "length p < 2 ^ Suc n"
  shows "p ! find_from n p i = find_from n p i \<and> find_from n p i = root_of p i"
proof -
  have "rk ! j \<le> n" if "j < length p" for j
    using rank_logarithmic [OF assms(1) that] assms(3) power_strict_increasing_iff [of "2 :: nat" "rk ! j" "Suc n"] by linarith
  then have root: "p ! find_from n p i = find_from n p i"
    using assms(1,2) by (intro find_from_stops [where b = n and rk = rk]) (auto simp: ranked_forest_def)
  have full: "p ! find_from (length p) p i = find_from (length p) p i"
    using assms(1,2) rank_less [OF assms(1)] by (auto simp: ranked_forest_def less_imp_le intro!: find_from_stops [where b = "length p"])
  then show ?thesis
    using find_from_mono [OF root, of "length p"] find_from_mono [OF full, of n] root
    unfolding root_of_def by (cases "n \<le> length p") auto
qed

lemma root_of_root: "ranked_forest p rk \<Longrightarrow> i < length p \<Longrightarrow> p ! root_of p i = root_of p i"
  using find_from_log [of p rk i "length p"] less_exp [of "Suc (length p)"] by (metis Suc_lessD)

lemma root_of_less: "ranked_forest p rk \<Longrightarrow> i < length p \<Longrightarrow> root_of p i < length p"
  by (auto simp: root_of_def ranked_forest_def intro: find_from_less)

lemma root_of_at_root: "p ! i = i \<Longrightarrow> root_of p i = i"
  by (simp add: root_of_def find_from_at_root)

lemma root_of_parent:
  assumes "ranked_forest p rk" "i < length p" shows "root_of p i = root_of p (p ! i)"
proof (cases "p ! i = i")
  case False
  have "p ! i < length p" using assms by (auto simp: ranked_forest_def dest: forestD)
  then have "p ! root_of p (p ! i) = root_of p (p ! i)" by (rule root_of_root [OF assms(1)])
  then have "find_from (Suc (length p)) p i = root_of p (p ! i)" using False by (simp add: root_of_def)
  moreover have "find_from (Suc (length p)) p i = root_of p i"
    using root_of_root [OF assms] find_from_mono [of p "length p" i "Suc (length p)"] by (simp add: root_of_def)
  ultimately show ?thesis by simp
qed simp

lemma forest_induct [consumes 2, case_names root step]:
  assumes "forest p rk" "i < length p"
    and root: "\<And>i. i < length p \<Longrightarrow> p ! i = i \<Longrightarrow> P i"
    and step: "\<And>i. i < length p \<Longrightarrow> p ! i \<noteq> i \<Longrightarrow> P (p ! i) \<Longrightarrow> P i"
  shows "P i"
  using assms(2)
proof (induction "Max (set rk) - rk ! i" arbitrary: i rule: less_induct)
  case less
  have rk: "length rk = length p" using assms(1) by (simp add: forest_def)
  show ?case
  proof (cases "p ! i = i")
    case False
    then have "rk ! i < rk ! (p ! i)" "p ! i < length p" using assms(1) less.prems by (auto dest: forestD)
    moreover from this have "rk ! (p ! i) \<le> Max (set rk)" using rk by simp
    ultimately show ?thesis by (intro step [OF less.prems False] less.hyps) auto
  qed (rule root [OF less.prems])
qed

subsection \<open>Linking two roots\<close>

definition linked_ranks :: "nat list \<Rightarrow> nat \<Rightarrow> nat \<Rightarrow> nat list" where
  "linked_ranks rk a b = (if rk ! a = rk ! b then rk[a := min u8_max (rk ! a + 1)] else rk)"

lemma forest_link:
  assumes "forest p rk" "p ! a = a" "p ! b = b" "a \<noteq> b" "a < length p" "b < length p"
    and "rk ! b \<le> rk ! a" "rk ! a < u8_max"
  shows "forest (p[b := a]) (linked_ranks rk a b)"
proof -
  have len: "length rk = length p" using assms(1) by (simp add: forest_def)
  have other: "linked_ranks rk a b ! i = rk ! i" if "i \<noteq> a" for i using that by (simp add: linked_ranks_def)
  have "rk ! a \<le> linked_ranks rk a b ! a" using assms(5,8) len by (simp add: linked_ranks_def)
  then have ge: "rk ! i \<le> linked_ranks rk a b ! i" for i using other [of i] by (cases "i = a") auto
  have b: "rk ! b < linked_ranks rk a b ! a" using assms(5,7,8) len by (auto simp: linked_ranks_def)
  have "p[b := a] ! i < length p \<and> (p[b := a] ! i \<noteq> i \<longrightarrow> linked_ranks rk a b ! i < linked_ranks rk a b ! (p[b := a] ! i))"
    if "i < length p" for i
  proof (cases "i = b")
    case True
    then show ?thesis using assms(4,5,6) b other by simp
  next
    case False
    then have "p[b := a] ! i = p ! i" by simp
    moreover have "i \<noteq> a" if "p ! i \<noteq> i" using that assms(2) by auto
    ultimately show ?thesis using forestD [OF assms(1) that] other ge [of "p ! i"] by (metis less_le_trans)
  qed
  moreover have "length (linked_ranks rk a b) = length p" using len by (simp add: linked_ranks_def)
  ultimately show ?thesis by (simp add: forest_def)
qed

lemma root_of_link:
  assumes "ranked_forest p rk" "p ! a = a" "p ! b = b" "a \<noteq> b" "a < length p" "b < length p"
    and "forest (p[b := a]) rk'" "i < length p"
  shows "\<forall>n. p[b := a] ! find_from n (p[b := a]) i = find_from n (p[b := a]) i \<longrightarrow>
    find_from n (p[b := a]) i = (if root_of p i = b then a else root_of p i)"
proof -
  have "i < length (p[b := a])" using assms(8) by simp
  with assms(7) show ?thesis
  proof (induction i rule: forest_induct)
    case (root i)
    then have "i \<noteq> b" "p ! i = i" using assms by (auto simp: nth_list_update split: if_splits)
    then show ?case using root by (simp add: find_from_at_root root_of_at_root)
  next
    case (step i)
    have eq: "(if root_of p i = b then a else root_of p i) =
        (if root_of p (p[b := a] ! i) = b then a else root_of p (p[b := a] ! i))"
      using assms step(1) root_of_parent [OF assms(1), of i]
      by (cases "i = b") (auto simp: root_of_at_root)
    show ?case
    proof (intro allI impI)
      fix n
      assume "p[b := a] ! find_from n (p[b := a]) i = find_from n (p[b := a]) i"
      then show "find_from n (p[b := a]) i = (if root_of p i = b then a else root_of p i)"
        using step(2,3) unfolding eq by (cases n) auto
    qed
  qed
qed

lemma ranked_forest_link:
  assumes rf: "ranked_forest p rk" and ab: "p ! a = a" "p ! b = b" "a \<noteq> b" "a < length p" "b < length p"
    and le: "rk ! b \<le> rk ! a" and bound: "length p \<le> Suc u32_max"
  shows "ranked_forest (p[b := a]) (linked_ranks rk a b) \<and>
    (\<forall>i < length p. root_of (p[b := a]) i = (if root_of p i = b then a else root_of p i))"
proof -
  let ?p = "p[b := a]" and ?rk = "linked_ranks rk a b"
  have "2 ^ (rk ! a) < (2::nat) ^ 33" using rank_logarithmic [OF rf ab(4)] bound by simp
  then have small: "rk ! a < u8_max" using power_strict_increasing_iff [of "2 :: nat" "rk ! a" 33] by (simp add: u8_max_def)
  have forest: "forest ?p ?rk" using rf ab le small by (auto simp: ranked_forest_def intro: forest_link)
  have len: "length rk = length p" using rf by (simp add: ranked_forest_def forest_def)
  have rank_le: "?rk ! j \<le> length p" if "j < length p" for j
    using rank_less [OF rf that] rank_less [OF rf ab(4)] ab(4) len
    by (cases "j = a") (auto simp: linked_ranks_def)
  then have "?p ! root_of ?p i = root_of ?p i" if "i < length p" for i
    unfolding root_of_def using that
    by (intro find_from_stops [OF forest, where b = "length p"]) auto
  then have roots: "root_of ?p i = (if root_of p i = b then a else root_of p i)" if "i < length p" for i
    using root_of_link [OF rf ab forest that] that by (simp add: root_of_def)
  have members: "class_members ?p r = (if r = b then {} else if r = a then class_members p a \<union> class_members p b else class_members p r)" for r
    using ab(3) roots by (auto simp: class_members_def)
  have sizes: "2 ^ (rk ! r) \<le> card (class_members p r)" if "p ! r = r" "r < length p" for r
    using rf that by (simp add: ranked_forest_def)
  have fin: "finite (class_members p r)" for r by (simp add: class_members_def)
  have disj: "class_members p a \<inter> class_members p b = {}" using ab(3) by (auto simp: class_members_def)
  have "2 ^ (?rk ! r) \<le> card (class_members ?p r)" if r: "r < length p" "?p ! r = r" for r
  proof -
    have nb: "r \<noteq> b" "p ! r = r" using r ab by (auto simp: nth_list_update split: if_splits)
    show ?thesis
    proof (cases "r = a")
      case True
      then have card: "card (class_members ?p r) = card (class_members p a) + card (class_members p b)"
        using members nb(1) disj fin by (simp add: card_Un_disjoint)
      have "?rk ! a = (if rk ! a = rk ! b then rk ! a + 1 else rk ! a)"
        using small ab(4) len by (auto simp: linked_ranks_def)
      then show ?thesis using card True sizes [OF ab(1,4)] sizes [OF ab(2,5)] by (auto split: if_splits)
    next
      case False
      then show ?thesis using nb members sizes [OF nb(2) r(1)] by (simp add: linked_ranks_def)
    qed
  qed
  then show ?thesis using forest roots by (simp add: ranked_forest_def)
qed

subsection \<open>A well-formed closure\<close>

definition closure_edges :: "closure \<Rightarrow> (nat \<times> nat) set" where
  "closure_edges c = {(i, ed_to e) | i e. i < length (cl_graph c) \<and> e \<in> set (cl_graph c ! i)}"

definition closure_ok :: "closure \<Rightarrow> bool" where
  "closure_ok c \<longleftrightarrow>
     distinct (cl_terms c) \<and> length (cl_terms c) \<le> Suc u32_max \<and>
     cl_indices c = map_of (zip (cl_terms c) [0..<length (cl_terms c)]) \<and>
     length (cl_parent c) = length (cl_terms c) \<and> length (cl_graph c) = length (cl_terms c) \<and>
     ranked_forest (cl_parent c) (cl_rank c) \<and>
     (\<forall>(i, j) \<in> closure_edges c. j < length (cl_terms c) \<and> find_root c i = find_root c j) \<and>
     (\<forall>i < length (cl_terms c). \<forall>j < length (cl_terms c).
        find_root c i = find_root c j \<longrightarrow> (i, j) \<in> (closure_edges c)\<^sup>*)"

definition same_class :: "closure \<Rightarrow> nat \<Rightarrow> nat \<Rightarrow> bool" where
  "same_class c l r \<longleftrightarrow> equivalent_terms c l r = Some True"

definition class_count :: "closure \<Rightarrow> nat" where
  "class_count c = card {i. i < length (cl_parent c) \<and> cl_parent c ! i = i}"

lemma find_root_eq: "find_root c i = root_of (cl_parent c) i"
  by (simp add: find_root_def root_of_def)

lemma closure_index:
  assumes "closure_ok c"
  shows "cl_indices c t = Some i \<longleftrightarrow> i < length (cl_terms c) \<and> cl_terms c ! i = t"
  using assms by (auto simp: closure_ok_def map_of_zip_nth map_of_eq_Some_iff in_set_zip)

lemma closure_index_ex: "closure_ok c \<Longrightarrow> t \<in> set (cl_terms c) \<Longrightarrow> \<exists>i < length (cl_terms c). cl_indices c t = Some i"
  by (metis closure_index in_set_conv_nth)

lemma closure_find:
  assumes "closure_ok c" "i < length (cl_terms c)"
  shows "find_root c i < length (cl_terms c)" "cl_parent c ! find_root c i = find_root c i"
  using assms by (auto simp: closure_ok_def find_root_eq root_of_root) (metis root_of_less)

lemma same_class_nth:
  assumes "closure_ok c" "i < length (cl_terms c)" "j < length (cl_terms c)"
  shows "same_class c (cl_terms c ! i) (cl_terms c ! j) \<longleftrightarrow> find_root c i = find_root c j"
proof -
  have "cl_indices c (cl_terms c ! i) = Some i" "cl_indices c (cl_terms c ! j) = Some j"
    using assms by (simp_all add: closure_index)
  then show ?thesis by (simp add: same_class_def equivalent_terms_def)
qed

lemma class_some: "closure_ok c \<Longrightarrow> t \<in> set (cl_terms c) \<Longrightarrow> class_of c t \<noteq> None"
  using closure_index_ex [of c t] by (auto simp: class_of_def)

lemma class_of_same:
  assumes "closure_ok c" "l \<in> set (cl_terms c)" "r \<in> set (cl_terms c)"
  shows "equivalent_terms c l r = Some (class_of c l = class_of c r)" "same_class c l r \<longleftrightarrow> class_of c l = class_of c r"
  using closure_index_ex [OF assms(1,2)] closure_index_ex [OF assms(1,3)]
  by (auto simp: same_class_def equivalent_terms_def class_of_def)

lemma closure_new_ok:
  assumes "distinct ts" "length ts \<le> Suc u32_max"
  shows "closure_ok (closure_new ts)" "cl_terms (closure_new ts) = ts"
    "l \<in> set ts \<Longrightarrow> r \<in> set ts \<Longrightarrow> same_class (closure_new ts) l r \<longleftrightarrow> l = r"
proof -
  have root: "root_of [0..<length ts] i = i" if "i < length ts" for i using that by (simp add: root_of_at_root)
  have "ranked_forest [0..<length ts] (replicate (length ts) 0)"
  proof -
    have "class_members [0..<length ts] i = {i}" if "i < length ts" for i
      using that by (auto simp: class_members_def root)
    then show ?thesis by (auto simp: ranked_forest_def forest_def)
  qed
  moreover have "map_of (rev (zip ts [0..<length ts])) = map_of (zip ts [0..<length ts])"
    using assms(1) by (intro map_of_inject_set [THEN iffD2]) (auto simp: rev_map [symmetric])
  moreover have "closure_edges (closure_new ts) = {}" by (auto simp: closure_edges_def closure_new_def)
  ultimately show ok: "closure_ok (closure_new ts)"
    using assms by (auto simp: closure_ok_def closure_new_def find_root_eq root)
  show terms: "cl_terms (closure_new ts) = ts" by (simp add: closure_new_def)
  assume "l \<in> set ts" "r \<in> set ts"
  then obtain i j where "i < length ts" "l = ts ! i" "j < length ts" "r = ts ! j" by (auto simp: in_set_conv_nth)
  then show "same_class (closure_new ts) l r \<longleftrightarrow> l = r"
    using same_class_nth [OF ok, of i j] assms(1) root by (simp add: terms find_root_eq closure_new_def nth_eq_iff_index_eq)
qed

subsection \<open>Union\<close>

definition swapped :: "closure \<Rightarrow> nat \<Rightarrow> nat \<Rightarrow> nat \<times> nat" where
  "swapped c l r = (if cl_rank c ! l < cl_rank c ! r then (r, l) else (l, r))"

lemma link_roots_fields [simp]:
  "cl_terms (link_roots l r c) = cl_terms c" "cl_indices (link_roots l r c) = cl_indices c"
  "cl_graph (link_roots l r c) = cl_graph c"
  "cl_parent (link_roots l r c) = (cl_parent c)[snd (swapped c l r) := fst (swapped c l r)]"
  "cl_rank (link_roots l r c) = linked_ranks (cl_rank c) (fst (swapped c l r)) (snd (swapped c l r))"
  by (auto simp: link_roots_def linked_ranks_def swapped_def Let_def)

lemma closure_edges_iff: "(k, m) \<in> closure_edges c \<longleftrightarrow> k < length (cl_graph c) \<and> m \<in> ed_to ` set (cl_graph c ! k)"
  by (auto simp: closure_edges_def)

lemma set_add_edge:
  assumes "i < length g" "k < length g"
  shows "set (add_edge i j r g ! k) = (if k = i then insert \<lparr>ed_to = j, ed_reason = r\<rparr> (set (g ! k)) else set (g ! k))"
  using assms by (simp add: add_edge_def)

lemma length_add_edge [simp]: "length (add_edge i j r g) = length g"
  by (simp add: add_edge_def)

lemma closure_edges_add:
  assumes "i < length g" "j < length g"
  shows "closure_edges (c\<lparr>cl_graph := add_edge j i r (add_edge i j r g)\<rparr>) =
    insert (i, j) (insert (j, i) (closure_edges (c\<lparr>cl_graph := g\<rparr>)))"
proof (rule set_eqI)
  fix x :: "nat \<times> nat"
  obtain k m where x: "x = (k, m)" by (cases x)
  show "x \<in> closure_edges (c\<lparr>cl_graph := add_edge j i r (add_edge i j r g)\<rparr>) \<longleftrightarrow>
      x \<in> insert (i, j) (insert (j, i) (closure_edges (c\<lparr>cl_graph := g\<rparr>)))"
    using assms by (cases "k < length g") (auto simp: x closure_edges_iff set_add_edge)
qed

lemma closure_edges_cong: "cl_graph c = cl_graph d \<Longrightarrow> closure_edges c = closure_edges d"
  by (simp add: closure_edges_def)

definition joined :: "closure \<Rightarrow> nat \<Rightarrow> nat \<Rightarrow> signed_term list \<Rightarrow> closure" where
  "joined c i j reason =
     link_roots (find_root c i) (find_root c j)
       (c\<lparr>cl_graph := add_edge j i (deduplicate reason) (add_edge i j (deduplicate reason) (cl_graph c))\<rparr>)"

lemma closure_union_joined:
  assumes "cl_indices c l = Some i" "cl_indices c r = Some j"
  shows "closure_union l r reason c =
    Some (if find_root c i = find_root c j then (False, c) else (True, joined c i j reason))"
  using assms by (simp add: closure_union_def joined_def Let_def)

lemma joined_fields [simp]:
  "cl_terms (joined c i j reason) = cl_terms c" "cl_indices (joined c i j reason) = cl_indices c"
  "cl_graph (joined c i j reason) =
    add_edge j i (deduplicate reason) (add_edge i j (deduplicate reason) (cl_graph c))"
  by (simp_all add: joined_def)

lemma joined_roots:
  assumes ok: "closure_ok c" and less: "i < length (cl_terms c)" "j < length (cl_terms c)"
    and apart: "find_root c i \<noteq> find_root c j"
  obtains a b where "{a, b} = {find_root c i, find_root c j}" "a \<noteq> b"
    "cl_parent (joined c i j reason) = (cl_parent c)[b := a]"
    "ranked_forest (cl_parent (joined c i j reason)) (cl_rank (joined c i j reason))"
    "\<And>k. k < length (cl_terms c) \<Longrightarrow>
      find_root (joined c i j reason) k = (if find_root c k = b then a else find_root c k)"
proof -
  let ?s = "swapped c (find_root c i) (find_root c j)"
  define a b where ab: "a = fst ?s" "b = snd ?s"
  have set: "{a, b} = {find_root c i, find_root c j}" and ne: "a \<noteq> b" and le: "cl_rank c ! b \<le> cl_rank c ! a"
    using apart by (auto simp: ab swapped_def)
  have root: "cl_parent c ! k = k" "k < length (cl_parent c)" if "k \<in> {a, b}" for k
    using that ok closure_find [OF ok less(1)] closure_find [OF ok less(2)] unfolding set
    by (auto simp: closure_ok_def)
  have parent: "cl_parent (joined c i j reason) = (cl_parent c)[b := a]"
    and rank: "cl_rank (joined c i j reason) = linked_ranks (cl_rank c) a b"
    by (simp_all add: joined_def ab swapped_def)
  have "ranked_forest (cl_parent c) (cl_rank c)" "length (cl_parent c) = length (cl_terms c)"
    "length (cl_terms c) \<le> Suc u32_max" using ok by (simp_all add: closure_ok_def)
  moreover have "cl_parent c ! a = a" "a < length (cl_parent c)" "cl_parent c ! b = b" "b < length (cl_parent c)"
    using root by simp_all
  ultimately have link: "ranked_forest ((cl_parent c)[b := a]) (linked_ranks (cl_rank c) a b) \<and>
    (\<forall>i < length (cl_terms c). root_of ((cl_parent c)[b := a]) i = (if root_of (cl_parent c) i = b then a else root_of (cl_parent c) i))"
    using ranked_forest_link [of "cl_parent c" "cl_rank c" a b] ne le by simp
  show thesis
    by (rule that [OF set ne parent]) (use link in \<open>auto simp only: parent rank find_root_eq\<close>)
qed

lemma joined_edges:
  assumes "closure_ok c" "i < length (cl_terms c)" "j < length (cl_terms c)"
  shows "closure_edges (joined c i j reason) = insert (i, j) (insert (j, i) (closure_edges c))"
  using assms closure_edges_add [of i "cl_graph c" j "deduplicate reason" c]
    closure_edges_cong [of "joined c i j reason"
      "c\<lparr>cl_graph := add_edge j i (deduplicate reason) (add_edge i j (deduplicate reason) (cl_graph c))\<rparr>"]
  by (simp add: closure_ok_def)

lemma joined_same:
  assumes ok: "closure_ok c" and less: "i < length (cl_terms c)" "j < length (cl_terms c)"
    and apart: "find_root c i \<noteq> find_root c j" and kl: "k < length (cl_terms c)" "l < length (cl_terms c)"
  shows "find_root (joined c i j reason) k = find_root (joined c i j reason) l \<longleftrightarrow>
    find_root c k = find_root c l \<or> find_root c k = find_root c i \<and> find_root c l = find_root c j
    \<or> find_root c k = find_root c j \<and> find_root c l = find_root c i"
proof -
  obtain a b where ab: "{a, b} = {find_root c i, find_root c j}" "a \<noteq> b"
    "\<And>k. k < length (cl_terms c) \<Longrightarrow> find_root (joined c i j reason) k = (if find_root c k = b then a else find_root c k)"
    using joined_roots [OF assms(1-4), of reason] by metis
  from ab(1) have "a = find_root c i \<and> b = find_root c j \<or> a = find_root c j \<and> b = find_root c i"
    by (auto simp: doubleton_eq_iff)
  then show ?thesis using ab(2,3) kl by auto
qed

lemma joined_ok:
  assumes ok: "closure_ok c" and less: "i < length (cl_terms c)" "j < length (cl_terms c)"
    and apart: "find_root c i \<noteq> find_root c j"
  shows "closure_ok (joined c i j reason)" "Suc (class_count (joined c i j reason)) = class_count c"
proof -
  let ?d = "joined c i j reason"
  obtain a b where ab: "{a, b} = {find_root c i, find_root c j}" "a \<noteq> b"
    "cl_parent ?d = (cl_parent c)[b := a]" "ranked_forest (cl_parent ?d) (cl_rank ?d)"
    using joined_roots [OF assms, of reason] by metis
  have len: "length (cl_parent c) = length (cl_terms c)" using ok by (simp add: closure_ok_def)
  have "b = find_root c i \<or> b = find_root c j" using ab(1) by (auto simp: doubleton_eq_iff)
  then have b: "b < length (cl_parent c)" "cl_parent c ! b = b"
    unfolding len using closure_find [OF ok less(1)] closure_find [OF ok less(2)] by auto
  have same: "find_root ?d k = find_root ?d l \<longleftrightarrow> find_root c k = find_root c l
      \<or> find_root c k = find_root c i \<and> find_root c l = find_root c j
      \<or> find_root c k = find_root c j \<and> find_root c l = find_root c i"
    if "k < length (cl_terms c)" "l < length (cl_terms c)" for k l
    using joined_same [OF assms that] .
  have edges: "closure_edges ?d = insert (i, j) (insert (j, i) (closure_edges c))"
    by (rule joined_edges [OF ok less])
  have old: "(k, l) \<in> closure_edges c \<Longrightarrow> k < length (cl_terms c) \<and> l < length (cl_terms c) \<and> find_root c k = find_root c l" for k l
    using ok by (auto simp: closure_ok_def closure_edges_def)
  have conn: "(k, l) \<in> (closure_edges c)\<^sup>*" if "k < length (cl_terms c)" "l < length (cl_terms c)" "find_root c k = find_root c l" for k l
    using ok that by (simp add: closure_ok_def)
  have mono: "(k, l) \<in> (closure_edges c)\<^sup>* \<Longrightarrow> (k, l) \<in> (closure_edges ?d)\<^sup>*" for k l
    using rtrancl_mono [of "closure_edges c" "closure_edges ?d"] by (auto simp: edges)
  have "(k, l) \<in> (closure_edges ?d)\<^sup>*"
    if k: "k < length (cl_terms c)" and l: "l < length (cl_terms c)" and eq: "find_root ?d k = find_root ?d l" for k l
  proof -
    have new: "(i, j) \<in> closure_edges ?d" "(j, i) \<in> closure_edges ?d" by (simp_all add: edges)
    consider "find_root c k = find_root c l" | "find_root c k = find_root c i" "find_root c l = find_root c j"
      | "find_root c k = find_root c j" "find_root c l = find_root c i"
      using same [OF k l] eq by blast
    then show ?thesis
    proof cases
      case 1
      then show ?thesis using conn k l mono by blast
    next
      case 2
      then have "(k, i) \<in> (closure_edges ?d)\<^sup>*" "(j, l) \<in> (closure_edges ?d)\<^sup>*"
        using conn k l less mono by simp_all
      with new(1) show ?thesis by (meson rtrancl.rtrancl_into_rtrancl rtrancl_trans)
    next
      case 3
      then have "(k, j) \<in> (closure_edges ?d)\<^sup>*" "(i, l) \<in> (closure_edges ?d)\<^sup>*"
        using conn k l less mono by simp_all
      with new(2) show ?thesis by (meson rtrancl.rtrancl_into_rtrancl rtrancl_trans)
    qed
  qed
  moreover have "k < length (cl_terms c) \<and> l < length (cl_terms c) \<and> find_root ?d k = find_root ?d l"
    if "(k, l) \<in> closure_edges ?d" for k l
    using that old less same by (auto simp: edges)
  moreover have "length (cl_parent ?d) = length (cl_terms c)" using ok ab(3) by (simp add: closure_ok_def)
  ultimately show "closure_ok ?d"
    using ok ab(4) by (auto simp: closure_ok_def add_edge_def)
  let ?R = "{i. i < length (cl_parent c) \<and> cl_parent c ! i = i}"
  have "{i. i < length (cl_parent ?d) \<and> cl_parent ?d ! i = i} = ?R - {b}"
    using ab(2,3) b(1) by (auto simp: nth_list_update)
  moreover have "Suc (card (?R - {b})) = card ?R" using b by (intro card_Suc_Diff1) auto
  ultimately show "Suc (class_count ?d) = class_count c" by (simp add: class_count_def)
qed

lemma closure_union_ok:
  assumes ok: "closure_ok c" and l: "l \<in> set (cl_terms c)" and r: "r \<in> set (cl_terms c)"
  obtains b d where "closure_union l r reason c = Some (b, d)" "closure_ok d" "cl_terms d = cl_terms c"
    "b \<longleftrightarrow> \<not> same_class c l r" "class_count d + (if b then 1 else 0) = class_count c"
    "\<And>x y. x \<in> set (cl_terms c) \<Longrightarrow> y \<in> set (cl_terms c) \<Longrightarrow>
      same_class d x y \<longleftrightarrow> same_class c x y \<or> same_class c x l \<and> same_class c r y \<or> same_class c x r \<and> same_class c l y"
proof -
  obtain i j where i: "i < length (cl_terms c)" "cl_indices c l = Some i" and j: "j < length (cl_terms c)" "cl_indices c r = Some j"
    using closure_index_ex [OF ok l] closure_index_ex [OF ok r] by auto
  then have lr: "l = cl_terms c ! i" "r = cl_terms c ! j" using closure_index [OF ok] by auto
  note union = closure_union_joined [OF i(2) j(2), of reason]
  show thesis
  proof (cases "find_root c i = find_root c j")
    case True
    have "same_class c x y \<longleftrightarrow> class_of c x = class_of c y"
      if "x \<in> set (cl_terms c)" "y \<in> set (cl_terms c)" for x y
      using class_of_same [OF ok that] by simp
    then show thesis using True ok union l r lr same_class_nth [OF ok i(1) j(1)]
      by (intro that [of False c]) auto
  next
    case False
    let ?d = "joined c i j reason"
    have d: "closure_ok ?d" "Suc (class_count ?d) = class_count c" using joined_ok [OF ok i(1) j(1) False] .
    have "same_class ?d x y \<longleftrightarrow> same_class c x y \<or> same_class c x l \<and> same_class c r y \<or> same_class c x r \<and> same_class c l y"
      if xy: "x \<in> set (cl_terms c)" "y \<in> set (cl_terms c)" for x y
    proof -
      obtain k m where k: "k < length (cl_terms c)" "x = cl_terms c ! k" and m: "m < length (cl_terms c)" "y = cl_terms c ! m"
        using xy unfolding in_set_conv_nth by metis
      have "same_class ?d x y \<longleftrightarrow> find_root ?d k = find_root ?d m"
        using same_class_nth [OF d(1), of k m] k m by simp
      moreover have "same_class c (cl_terms c ! u) (cl_terms c ! v) \<longleftrightarrow> find_root c u = find_root c v"
        if "u \<in> {i, j, k, m}" "v \<in> {i, j, k, m}" for u v
        using that i(1) j(1) k(1) m(1) by (intro same_class_nth [OF ok]) auto
      ultimately show ?thesis using joined_same [OF ok i(1) j(1) False k(1) m(1), of reason]
        unfolding lr k(2) m(2) by (metis insertCI)
    qed
    then show thesis using False union d lr same_class_nth [OF ok i(1) j(1)]
      by (intro that [of True ?d]) auto
  qed
qed

lemma closure_union_roots:
  assumes ok: "closure_ok c" and union: "closure_union l r reason c = Some (b, d)"
  shows "cl_parent c ! k \<noteq> k \<Longrightarrow> cl_parent d ! k \<noteq> k"
    "class_of d t = class_of c t \<or> (\<exists>k. class_of c t = Some k \<and> cl_parent d ! k \<noteq> k)"
    "\<not> b \<Longrightarrow> d = c"
proof -
  obtain i j where i: "cl_indices c l = Some i" and j: "cl_indices c r = Some j"
    using union by (auto simp: closure_union_def bind_eq_Some_conv)
  then have less: "i < length (cl_terms c)" "j < length (cl_terms c)" using closure_index [OF ok] by auto
  have "(d = c \<and> \<not> b) \<or> (b \<and> find_root c i \<noteq> find_root c j \<and> d = joined c i j reason)"
    using closure_union_joined [OF i j, of reason] union by (auto split: if_splits)
  moreover have "(cl_parent c ! k \<noteq> k \<longrightarrow> cl_parent (joined c i j reason) ! k \<noteq> k) \<and>
      (class_of (joined c i j reason) t = class_of c t \<or> (\<exists>k. class_of c t = Some k \<and> cl_parent (joined c i j reason) ! k \<noteq> k))"
    if apart: "find_root c i \<noteq> find_root c j"
  proof -
    obtain a b where ab: "{a, b} = {find_root c i, find_root c j}" "a \<noteq> b" "cl_parent (joined c i j reason) = (cl_parent c)[b := a]"
      and root: "\<And>m. m < length (cl_terms c) \<Longrightarrow> find_root (joined c i j reason) m = (if find_root c m = b then a else find_root c m)"
      using joined_roots [OF ok less apart, of reason] by metis
    have "b = find_root c i \<or> b = find_root c j" using ab(1) by (auto simp: doubleton_eq_iff)
    then have "b < length (cl_parent c)" using closure_find(1) [OF ok less(1)] closure_find(1) [OF ok less(2)] ok
      by (auto simp: closure_ok_def)
    then have "cl_parent (joined c i j reason) ! b \<noteq> b" using ab(2,3) by simp
    moreover have "(cl_parent c)[b := a] ! k \<noteq> k" if "cl_parent c ! k \<noteq> k"
      using that ab(2) \<open>b < length (cl_parent c)\<close> by (cases "k = b") auto
    moreover have "m < length (cl_terms c)" if "cl_indices c t = Some m" for m using closure_index [OF ok] that by simp
    ultimately show ?thesis using ab(2,3) root
      by (cases "cl_indices c t") (auto simp: class_of_def)
  qed
  ultimately show "cl_parent c ! k \<noteq> k \<Longrightarrow> cl_parent d ! k \<noteq> k"
    "class_of d t = class_of c t \<or> (\<exists>k. class_of c t = Some k \<and> cl_parent d ! k \<noteq> k)" "\<not> b \<Longrightarrow> d = c"
    by auto
qed

lemma class_of_root: "closure_ok c \<Longrightarrow> class_of c t = Some k \<Longrightarrow> cl_parent c ! k = k"
  using closure_index [of c] closure_find(2) [of c] by (auto simp: class_of_def bind_eq_Some_conv)

subsection \<open>The breadth-first search\<close>

text \<open>
  The nodes in the order of their discovery: each but the first was reached by an edge of an
  earlier one, which \<open>previous\<close> names.
\<close>

definition search_tree :: "edge list list \<Rightarrow> nat \<Rightarrow> origins \<Rightarrow> nat list \<Rightarrow> bool" where
  "search_tree g start previous order \<longleftrightarrow>
     order \<noteq> [] \<and> hd order = start \<and> distinct order \<and>
     set order = {i. i < length previous \<and> previous ! i \<noteq> None} \<and>
     (\<forall>m. 0 < m \<and> m < length order \<longrightarrow>
       (\<exists>p k. previous ! (order ! m) = Some (p, k) \<and> p \<in> set (take m order) \<and>
              k < length (g ! p) \<and> ed_to (g ! p ! k) = order ! m))"

lemma search_tree_start:
  assumes "start < n"
  shows "search_tree g start ((replicate n None)[start := Some (start, 0)]) [start]"
  using assms by (auto simp: search_tree_def nth_list_update)

lemma search_tree_snoc:
  assumes tree: "search_tree g start previous order" and v: "v < length previous" "previous ! v = None"
    and p: "p \<in> set order" "k < length (g ! p)" "ed_to (g ! p ! k) = v"
  shows "search_tree g start (previous[v := Some (p, k)]) (order @ [v])"
proof -
  have new: "v \<notin> set order" using tree v by (simp add: search_tree_def)
  have "\<exists>q j. previous[v := Some (p, k)] ! ((order @ [v]) ! m) = Some (q, j) \<and> q \<in> set (take m (order @ [v])) \<and>
      j < length (g ! q) \<and> ed_to (g ! q ! j) = (order @ [v]) ! m" if m: "0 < m" "m < length (order @ [v])" for m
  proof (cases "m = length order")
    case True
    then show ?thesis using p v by (intro exI [of _ p] exI [of _ k]) simp
  next
    case False
    then have less: "m < length order" using m by simp
    then have "order ! m \<noteq> v" using new nth_mem by blast
    moreover obtain q j where "previous ! (order ! m) = Some (q, j)" "q \<in> set (take m order)" "j < length (g ! q)"
        "ed_to (g ! q ! j) = order ! m"
      using tree less m(1) by (auto simp: search_tree_def)
    ultimately show ?thesis using less by (intro exI [of _ q] exI [of _ j]) (simp add: nth_append)
  qed
  then show ?thesis using tree v new by (auto simp: search_tree_def nth_list_update)
qed

lemma visit_edges_tree:
  assumes "search_tree g start previous (visited @ node # queue)" "g ! node = pre @ es"
    and "\<forall>e \<in> set es. ed_to e < length previous"
    and "visit_edges node (length pre) es queue previous = (queue', previous')"
  shows "search_tree g start previous' (visited @ node # queue') \<and> length previous' = length previous \<and>
    (\<forall>e \<in> set es. previous' ! ed_to e \<noteq> None) \<and> (\<forall>i < length previous. previous ! i \<noteq> None \<longrightarrow> previous' ! i \<noteq> None)"
  using assms
proof (induction es arbitrary: pre queue previous)
  case (Cons e es)
  have pre: "g ! node = (pre @ [e]) @ es" using Cons.prems(2) by simp
  have less: "ed_to e < length previous" using Cons.prems(3) by simp
  show ?case
  proof (cases "previous ! ed_to e = None")
    case True
    let ?p = "previous[ed_to e := Some (node, length pre)]"
    have "search_tree g start ?p ((visited @ node # queue) @ [ed_to e])"
      using Cons.prems(2) less True by (intro search_tree_snoc [OF Cons.prems(1)]) (auto simp: nth_append)
    then have tree: "search_tree g start ?p (visited @ node # (queue @ [ed_to e]))" by simp
    have "visit_edges node (length (pre @ [e])) es (queue @ [ed_to e]) ?p = (queue', previous')"
      using Cons.prems(4) True by simp
    then show ?thesis using Cons.IH [OF tree pre] Cons.prems(3) less
      by (auto simp: nth_list_update split: if_splits)
  next
    case False
    have "visit_edges node (length (pre @ [e])) es queue previous = visit_edges node (length pre) (e # es) queue previous"
      by (subst visit_edges.simps(2), subst if_not_P [OF False]) simp
    also have "\<dots> = (queue', previous')" by (rule Cons.prems(4))
    finally have "visit_edges node (length (pre @ [e])) es queue previous = (queue', previous')" .
    then show ?thesis using Cons.IH [OF Cons.prems(1) pre] Cons.prems(3) less False by auto
  qed
qed simp

definition graph_edges :: "edge list list \<Rightarrow> (nat \<times> nat) set" where
  "graph_edges g = {(i, ed_to e) | i e. i < length g \<and> e \<in> set (g ! i)}"

lemma search_closed:
  assumes "search_tree g start previous visited" "length previous = length g"
    and "\<forall>d \<in> set visited. \<forall>e \<in> set (g ! d). previous ! ed_to e \<noteq> None"
    and "\<forall>(i, j) \<in> graph_edges g. j < length g" "(start, goal) \<in> (graph_edges g)\<^sup>*"
  shows "goal \<in> set visited"
  using assms(5)
proof (induction rule: rtrancl_induct)
  case base
  show ?case using assms(1) unfolding search_tree_def by (metis hd_in_set)
next
  case (step y z)
  then obtain e where "e \<in> set (g ! y)" "ed_to e = z" by (auto simp: graph_edges_def)
  moreover have "z < length g" using step(2) assms(4) by auto
  ultimately show ?case using step(3) assms(1-3) by (auto simp: search_tree_def)
qed

lemma search_path_finds:
  assumes "search_tree g start previous (visited @ queue)" "length previous = length g"
    and "\<forall>d \<in> set visited. \<forall>e \<in> set (g ! d). previous ! ed_to e \<noteq> None"
    and "\<forall>(i, j) \<in> graph_edges g. j < length g" "(start, goal) \<in> (graph_edges g)\<^sup>*"
    and "length g \<le> n + length visited"
  shows "\<exists>order. search_tree g start (search_path n g goal queue previous) order \<and> goal \<in> set order"
  using assms
proof (induction n arbitrary: visited queue previous)
  case 0
  have "distinct (visited @ queue)" "set (visited @ queue) \<subseteq> {..<length g}" using 0 by (auto simp: search_tree_def)
  then have "length (visited @ queue) \<le> length g" using distinct_card [of "visited @ queue"] card_mono [of "{..<length g}" "set (visited @ queue)"] by simp
  then have "length queue = 0" using 0(6) unfolding length_append by linarith
  then have "queue = []" by (simp only: length_0_conv)
  then show ?case using search_closed [of g start previous "visited"] 0 by (intro exI [of _ "visited"]) simp
next
  case (Suc n)
  show ?case
  proof (cases queue)
    case Nil
    then show ?thesis using search_closed [of g start previous "visited"] Suc.prems by (intro exI [of _ "visited"]) simp
  next
    case (Cons node rest)
    show ?thesis
    proof (cases "node = goal")
      case True
      then show ?thesis using Suc.prems(1) Cons by (intro exI [of _ "visited @ queue"]) simp
    next
      case False
      obtain queue' previous' where visit: "visit_edges node 0 (g ! node) rest previous = (queue', previous')" by fastforce
      have node: "node < length g" using Suc.prems(1,2) Cons by (auto simp: search_tree_def)
      have edges: "\<forall>e \<in> set (g ! node). ed_to e < length previous"
        using Suc.prems(2,4) node by (fastforce simp: graph_edges_def)
      have tree: "search_tree g start previous (visited @ node # rest)" using Suc.prems(1) Cons by simp
      note step = visit_edges_tree [OF tree, of "[]" "g ! node", unfolded append_Nil list.size, OF refl edges visit]
      have "\<exists>order. search_tree g start (search_path n g goal queue' previous') order \<and> goal \<in> set order"
      proof (rule Suc.IH [of previous' "visited @ [node]" queue'])
        show "\<forall>d \<in> set (visited @ [node]). \<forall>e \<in> set (g ! d). previous' ! ed_to e \<noteq> None"
        proof (intro ballI)
          fix d e
          assume d: "d \<in> set (visited @ [node])" and e: "e \<in> set (g ! d)"
          have "d < length g" using d node Suc.prems(1,2) by (auto simp: search_tree_def)
          then have "ed_to e < length previous" using e Suc.prems(2,4) by (fastforce simp: graph_edges_def)
          then show "previous' ! ed_to e \<noteq> None" using step d e Suc.prems(3) by auto
        qed
      qed (use step Suc.prems in auto)
      then show ?thesis using False Cons visit by simp
    qed
  qed
qed

subsection \<open>Explanations\<close>

definition justified :: "(signed_term set \<Rightarrow> nat \<Rightarrow> nat \<Rightarrow> bool) \<Rightarrow> closure \<Rightarrow> bool" where
  "justified holds c \<longleftrightarrow>
     (\<forall>i < length (cl_graph c). \<forall>e \<in> set (cl_graph c ! i).
        holds (set (ed_reason e)) (cl_terms c ! i) (cl_terms c ! ed_to e))"

locale justification =
  fixes holds :: "signed_term set \<Rightarrow> nat \<Rightarrow> nat \<Rightarrow> bool"
  assumes holds_refl: "holds {} t t"
    and holds_sym: "holds R a b \<Longrightarrow> holds R b a"
    and holds_trans: "holds R a b \<Longrightarrow> holds S b c \<Longrightarrow> holds (R \<union> S) a c"
begin

lemma justified_new: "justified holds (closure_new ts)"
  by (simp add: justified_def closure_new_def)

lemma justified_union:
  assumes ok: "closure_ok c" and "justified holds c" "holds (set reason) l r" "closure_union l r reason c = Some (b, d)"
  shows "justified holds d"
proof -
  obtain i j where i: "cl_indices c l = Some i" and j: "cl_indices c r = Some j"
    using assms(4) by (auto simp: closure_union_def bind_eq_Some_conv)
  then have at: "i < length (cl_terms c)" "cl_terms c ! i = l" "j < length (cl_terms c)" "cl_terms c ! j = r"
    using closure_index [OF ok] by auto
  show ?thesis
  proof (cases "find_root c i = find_root c j")
    case True
    then show ?thesis using closure_union_joined [OF i j, of reason] assms(2,4) by simp
  next
    case False
    then have d: "d = joined c i j reason" using closure_union_joined [OF i j, of reason] assms(4) by simp
    have "length (cl_graph c) = length (cl_terms c)" using ok by (simp add: closure_ok_def)
    then show ?thesis using assms(2,3) holds_sym [OF assms(3)] at
      by (auto simp: d justified_def set_add_edge)
  qed
qed

lemma trace_back_holds:
  assumes tree: "search_tree g start previous order"
    and edges: "\<forall>i < length g. \<forall>e \<in> set (g ! i). holds (set (ed_reason e)) (ts ! i) (ts ! ed_to e)"
    and "length previous = length g"
  shows "m < length order \<Longrightarrow> m \<le> n \<Longrightarrow>
    \<exists>ls. trace_back n g previous start (order ! m) = Some ls \<and> holds (set ls) (ts ! start) (ts ! (order ! m))"
proof (induction m arbitrary: n rule: less_induct)
  case (less m)
  show ?case
  proof (cases "m = 0")
    case True
    then have "order ! m = start" using tree by (auto simp: search_tree_def hd_conv_nth)
    then show ?thesis using holds_refl by (simp add: trace_back.simps)
  next
    case False
    obtain p k where p: "previous ! (order ! m) = Some (p, k)" "p \<in> set (take m order)" "k < length (g ! p)"
        "ed_to (g ! p ! k) = order ! m"
      using tree less.prems False by (auto simp: search_tree_def)
    from p(2) obtain m' where m': "m' < m" "p = order ! m'" using less.prems(1) by (auto simp: in_set_conv_nth)
    obtain n' where n: "n = Suc n'" "m' \<le> n'" using less.prems(2) m'(1) by (cases n) auto
    obtain ls where ls: "trace_back n' g previous start p = Some ls" "holds (set ls) (ts ! start) (ts ! p)"
      using less.IH [OF m'(1) _ n(2)] m' less.prems(1) by auto
    have "start = order ! 0" using tree by (auto simp: search_tree_def hd_conv_nth)
    then have "order ! m \<noteq> start" using tree less.prems(1) False by (auto simp: search_tree_def nth_eq_iff_index_eq)
    moreover have "p < length g" using tree p(2) assms(3) in_set_takeD [OF p(2)] by (auto simp: search_tree_def)
    then have "holds (set (ed_reason (g ! p ! k))) (ts ! p) (ts ! (order ! m))" using edges p(3,4) by (metis nth_mem)
    then have "holds (set ls \<union> set (ed_reason (g ! p ! k))) (ts ! start) (ts ! (order ! m))"
      by (rule holds_trans [OF ls(2)])
    ultimately show ?thesis using p(1) ls(1) n(1) by (simp add: trace_back.simps Un_commute)
  qed
qed

lemma explain_holds:
  assumes ok: "closure_ok c" and just: "justified holds c" and same: "same_class c l r"
  shows "\<exists>ls. explain c l r = Some ls \<and> holds (set ls) l r"
proof (cases "l = r")
  case False
  obtain i j where i: "cl_indices c l = Some i" and j: "cl_indices c r = Some j" and root: "find_root c i = find_root c j"
    using same by (auto simp: same_class_def equivalent_terms_def bind_eq_Some_conv)
  then have at: "i < length (cl_terms c)" "cl_terms c ! i = l" "j < length (cl_terms c)" "cl_terms c ! j = r"
    using closure_index [OF ok] by auto
  have len: "length (cl_graph c) = length (cl_terms c)" using ok by (simp add: closure_ok_def)
  have graph: "graph_edges (cl_graph c) = closure_edges c" by (simp add: graph_edges_def closure_edges_def)
  let ?n = "length (cl_terms c)"
  let ?start = "(replicate ?n None)[i := Some (i, 0)]"
  have "\<exists>order. search_tree (cl_graph c) i (search_path ?n (cl_graph c) j [i] ?start) order \<and> j \<in> set order"
  proof (rule search_path_finds [where visited = "[]"])
    show "(i, j) \<in> (graph_edges (cl_graph c))\<^sup>*" using ok at root by (simp add: graph closure_ok_def)
    show "\<forall>(i, j) \<in> graph_edges (cl_graph c). j < length (cl_graph c)" using ok len by (auto simp: graph closure_ok_def)
  qed (use search_tree_start [OF at(1)] len in simp_all)
  then obtain order where tree: "search_tree (cl_graph c) i (search_path ?n (cl_graph c) j [i] ?start) order" and "j \<in> set order"
    by blast
  then obtain m where m: "m < length order" "order ! m = j" by (auto simp: in_set_conv_nth)
  have previous: "length (search_path k g a q v) = length v" for k g a q v
  proof (induction k g a q v rule: search_path.induct)
    case (2 n graph goal queue v)
    have "length (snd (visit_edges x y z q v)) = length v" for x y z q and v :: origins
      by (induction x y z q v rule: visit_edges.induct) auto
    then show ?case using 2 by (auto split: prod.split list.split) (metis snd_conv)
  qed simp
  have "length order \<le> ?n"
    using tree distinct_card [of order] card_mono [of "{..<?n}" "set order"] by (auto simp: search_tree_def previous)
  then show ?thesis
    using trace_back_holds [OF tree _ _ m(1), of "cl_terms c" ?n] just m at i j False
    by (auto simp: explain_def justified_def previous len)
qed (use holds_refl in \<open>simp add: explain_def\<close>)

end

subsection \<open>The length of a walk\<close>



end
