(* ===== verification/Smt_Uf.thy ===== *)
theory Smt_Uf
  imports Smt_Closure Solver_State
begin

section \<open>The theory of uninterpreted functions\<close>

text \<open>
  \<open>UfTheory\<close> of \<open>src/smt/uf.rs\<close>: the assignments of a check with their trail, and
  \<open>final_check\<close>, which decides whether the assignment has a model. It merges the sides of the
  true equalities and the chosen branches of the conditionals, closes the classes under
  congruence, and answers with a conflict clause or with a value for every term. A panic of the
  code is the value \<open>None\<close>; the loop of the closure carries fuel, one more than the number of
  classes, since every pass but the last joins two of them.
\<close>

subsection \<open>State\<close>

record uf_theory =
  uf_required :: "nat list"
  uf_shared_terms :: "nat list"
  uf_shared_equalities :: "theory_equality list"
  uf_shared_equality_terms :: "nat \<times> nat \<rightharpoonup> nat"
  uf_applications :: "nat list"
  uf_equalities :: "nat list"
  uf_ites :: "nat list"
  uf_assignments :: "nat \<rightharpoonup> bool"
  uf_levels :: "nat list"
  uf_trail :: "(nat \<times> bool option) list"

record uf_model =
  um_values :: "nat \<rightharpoonup> nat"
  um_relevant :: "nat set"

definition uf_model_value :: "nat \<Rightarrow> uf_model \<Rightarrow> nat option" where
  "uf_model_value t m = um_values m t"

definition bind_abstract_value :: "nat \<Rightarrow> nat \<Rightarrow> uf_model \<Rightarrow> uf_model" where
  "bind_abstract_value t v m = m\<lparr>um_values := (um_values m)(t \<mapsto> v)\<rparr>"

definition application_relevant :: "nat \<Rightarrow> uf_model \<Rightarrow> bool" where
  "application_relevant t m \<longleftrightarrow> t \<in> um_relevant m"

datatype 'a argument_value =
    Abstract 'a
  | ABool bool
  | ABitVec "bool list"

type_synonym congruence_key = "nat \<times> nat argument_value list"

datatype 'm theory_check = Consistent 'm | Conflict "signed_term list" | Undecided unknown_reason

subsection \<open>Assignments\<close>

definition uf_begin_check :: "uf_theory \<Rightarrow> uf_theory" where
  "uf_begin_check u = u\<lparr>uf_assignments := Map.empty, uf_levels := [], uf_trail := []\<rparr>"

definition uf_push_level :: "uf_theory \<Rightarrow> uf_theory" where
  "uf_push_level u = u\<lparr>uf_levels := uf_levels u @ [length (uf_trail u)]\<rparr>"

definition uf_notify_assignment :: "signed_term \<Rightarrow> uf_theory \<Rightarrow> uf_theory" where
  "uf_notify_assignment l u =
     u\<lparr>uf_assignments := (uf_assignments u)(sg_term l \<mapsto> sg_positive l),
       uf_trail := uf_trail u @ [(sg_term l, uf_assignments u (sg_term l))]\<rparr>"

text \<open>The entries that are taken back, the last one first.\<close>

fun undo_trail :: "(nat \<times> bool option) list \<Rightarrow> (nat \<rightharpoonup> bool) \<Rightarrow> (nat \<rightharpoonup> bool)" where
  "undo_trail [] m = m"
| "undo_trail ((t, previous) # entries) m = undo_trail entries (m(t := previous))"

definition uf_backtrack :: "nat \<Rightarrow> uf_theory \<Rightarrow> uf_theory" where
  "uf_backtrack level u =
     (let target = (if level = 0 then 0
                    else if level - 1 < length (uf_levels u) then uf_levels u ! (level - 1)
                    else length (uf_trail u))
      in u\<lparr>uf_assignments := undo_trail (rev (drop target (uf_trail u))) (uf_assignments u),
           uf_trail := take target (uf_trail u), uf_levels := take level (uf_levels u)\<rparr>)"

definition uf_value :: "uf_theory \<Rightarrow> nat \<Rightarrow> bool" where
  "uf_value u t = (case uf_assignments u t of None \<Rightarrow> False | Some b \<Rightarrow> b)"

subsection \<open>Reading terms\<close>

definition item_at :: "'a list \<Rightarrow> nat \<Rightarrow> 'a option" where
  "item_at xs i = (if i < length xs then Some (xs ! i) else None)"

fun fold_option :: "('a \<Rightarrow> 'c \<Rightarrow> 'c option) \<Rightarrow> 'a list \<Rightarrow> 'c \<Rightarrow> 'c option" where
  "fold_option f [] c = Some c"
| "fold_option f (x # xs) c = do { c \<leftarrow> f x c; fold_option f xs c }"

fun abstract_sort :: "sort \<Rightarrow> bool" where
  "abstract_sort (SUninterpreted _) = True"
| "abstract_sort (SArray _) = True"
| "abstract_sort _ = False"

definition has_abstract_sort :: "term_store \<Rightarrow> nat \<Rightarrow> bool" where
  "has_abstract_sort s t = (case sort_of t s of Inr so \<Rightarrow> abstract_sort so | Inl _ \<Rightarrow> False)"

definition term_bits :: "term_store \<Rightarrow> nat \<Rightarrow> nat list option" where
  "term_bits s t = (case bitvec_bits t s of Inr bits \<Rightarrow> Some bits | Inl _ \<Rightarrow> None)"

fun lowered_bits :: "term_store \<Rightarrow> nat \<Rightarrow> sort \<Rightarrow> nat list option" where
  "lowered_bits s t SBool = Some [t]"
| "lowered_bits s t (SBitVec _) = term_bits s t"
| "lowered_bits s t SInt = None"
| "lowered_bits s t SReal = None"
| "lowered_bits s t (SUninterpreted _) = Some []"
| "lowered_bits s t (SArray _) = Some []"

definition uf_closure_terms :: "uf_theory \<Rightarrow> term_store \<Rightarrow> nat list" where
  "uf_closure_terms u s =
     remdups_adj (sort (filter (\<lambda>t. t \<le> u32_max \<and> has_abstract_sort s t) [0..<length (ts_nodes s)] @ uf_shared_terms u))"

subsection \<open>The facts of the assignment\<close>

definition assert_equality :: "uf_theory \<Rightarrow> theory_equality \<Rightarrow> closure \<Rightarrow> closure option" where
  "assert_equality u e c =
     (if uf_value u (te_term e)
      then map_option snd (closure_union (te_left e) (te_right e) [sg_pos (te_term e)] c)
      else Some c)"

definition assert_ite :: "uf_theory \<Rightarrow> conditional \<Rightarrow> closure \<Rightarrow> closure option" where
  "assert_ite u it c =
     (let b = uf_value u (ci_condition it)
      in map_option snd (closure_union (ci_result it) (if b then ci_then it else ci_else it)
           [\<lparr>sg_term = ci_condition it, sg_positive = b\<rparr>] c))"

subsection \<open>Congruence\<close>

fun key_value :: "uf_theory \<Rightarrow> term_store \<Rightarrow> closure \<Rightarrow> nat \<Rightarrow> sort \<Rightarrow> nat argument_value option" where
  "key_value u s c t SBool = Some (ABool (uf_value u t))"
| "key_value u s c t (SBitVec _) = map_option (\<lambda>bits. ABitVec (map (uf_value u) bits)) (term_bits s t)"
| "key_value u s c t SInt = map_option Abstract (class_of c t)"
| "key_value u s c t SReal = map_option Abstract (class_of c t)"
| "key_value u s c t (SUninterpreted _) = map_option Abstract (class_of c t)"
| "key_value u s c t (SArray _) = map_option Abstract (class_of c t)"

definition congruence_key :: "uf_theory \<Rightarrow> term_store \<Rightarrow> application \<Rightarrow> sort list \<Rightarrow> closure \<Rightarrow> congruence_key option" where
  "congruence_key u s ap domain c =
     map_option (Pair (ap_function ap))
       (those (map (\<lambda>(t, so). key_value u s c t so) (zip (ap_arguments ap) domain)))"

fun reason_bits :: "uf_theory \<Rightarrow> (nat \<times> nat) list \<Rightarrow> signed_term list option" where
  "reason_bits u [] = Some []"
| "reason_bits u ((l, r) # rest) =
     (if uf_value u l \<noteq> uf_value u r then None
      else do {
        ls \<leftarrow> reason_bits u rest;
        Some (\<lparr>sg_term = l, sg_positive = uf_value u l\<rparr> # \<lparr>sg_term = r, sg_positive = uf_value u r\<rparr> # ls)
      })"

definition reason_argument :: "uf_theory \<Rightarrow> term_store \<Rightarrow> closure \<Rightarrow> nat \<Rightarrow> nat \<Rightarrow> sort \<Rightarrow> signed_term list option" where
  "reason_argument u s c l r so =
     (if abstract_sort so \<or> arithmetic_sort so
      then do { same \<leftarrow> equivalent_terms c l r; if same then explain c l r else None }
      else do { ls \<leftarrow> lowered_bits s l so; rs \<leftarrow> lowered_bits s r so; reason_bits u (zip ls rs) })"

fun reason_arguments :: "uf_theory \<Rightarrow> term_store \<Rightarrow> closure \<Rightarrow> ((nat \<times> nat) \<times> sort) list \<Rightarrow> signed_term list option" where
  "reason_arguments u s c [] = Some []"
| "reason_arguments u s c (((l, r), so) # rest) = do {
     ls \<leftarrow> reason_argument u s c l r so;
     ms \<leftarrow> reason_arguments u s c rest;
     Some (ls @ ms)
   }"

definition congruence_reason :: "uf_theory \<Rightarrow> term_store \<Rightarrow> application \<Rightarrow> application \<Rightarrow> sort list \<Rightarrow> closure \<Rightarrow> signed_term list option" where
  "congruence_reason u s left right domain c =
     map_option deduplicate
       (reason_arguments u s c (zip (zip (ap_arguments left) (ap_arguments right)) domain))"

fun bit_conflict :: "uf_theory \<Rightarrow> signed_term list \<Rightarrow> (nat \<times> nat) list \<Rightarrow> signed_term list option" where
  "bit_conflict u reason [] = None"
| "bit_conflict u reason ((l, r) # rest) =
     (if uf_value u l \<noteq> uf_value u r
      then Some (conflict_lemma (reason @ [\<lparr>sg_term = r, sg_positive = uf_value u r\<rparr>])
                   \<lparr>sg_term = l, sg_positive = uf_value u r\<rparr>)
      else bit_conflict u reason rest)"

definition lowered_result_conflict ::
  "uf_theory \<Rightarrow> term_store \<Rightarrow> nat \<Rightarrow> nat \<Rightarrow> sort \<Rightarrow> signed_term list \<Rightarrow> signed_term list option option" where
  "lowered_result_conflict u s l r rng reason =
     (if arithmetic_sort rng
      then if l = r then Some None
           else do {
             equality \<leftarrow> uf_shared_equality_terms u (ordered_pair l r);
             Some (if uf_value u equality then None else Some (conflict_lemma reason (sg_pos equality)))
           }
      else do {
        ls \<leftarrow> lowered_bits s l rng;
        rs \<leftarrow> lowered_bits s r rng;
        Some (bit_conflict u reason (zip ls rs))
      })"

text \<open>One pass over the relevant applications; \<open>Inl\<close> is a conflict.\<close>

fun congruence_pass ::
  "uf_theory \<Rightarrow> term_store \<Rightarrow> nat list \<Rightarrow> (congruence_key \<rightharpoonup> nat) \<Rightarrow> bool \<Rightarrow> closure \<Rightarrow> (signed_term list + bool \<times> closure) option"
where
  "congruence_pass u s [] seen changed c = Some (Inr (changed, c))"
| "congruence_pass u s (i # is) seen changed c = do {
     right \<leftarrow> item_at (ts_applications s) i;
     sig \<leftarrow> item_at (ts_functions s) (ap_function right);
     key \<leftarrow> congruence_key u s right (fs_domain sig) c;
     case seen key of
       None \<Rightarrow> congruence_pass u s is (seen(key \<mapsto> i)) changed c
     | Some j \<Rightarrow> do {
         left \<leftarrow> item_at (ts_applications s) j;
         reason \<leftarrow> congruence_reason u s left right (fs_domain sig) c;
         if abstract_sort (fs_range sig)
         then do {
           (joined, c) \<leftarrow> closure_union (ap_result left) (ap_result right) reason c;
           congruence_pass u s is seen (changed \<or> joined) c
         }
         else do {
           conflict \<leftarrow> lowered_result_conflict u s (ap_result left) (ap_result right) (fs_range sig) reason;
           case conflict of
             Some ls \<Rightarrow> Some (Inl ls)
           | None \<Rightarrow> congruence_pass u s is seen changed c
         }
       }
   }"

fun congruence_loop :: "nat \<Rightarrow> uf_theory \<Rightarrow> term_store \<Rightarrow> closure \<Rightarrow> (signed_term list + closure) option" where
  "congruence_loop 0 u s c = None"
| "congruence_loop (Suc n) u s c = do {
     result \<leftarrow> congruence_pass u s (uf_applications u) Map.empty False c;
     case result of
       Inl ls \<Rightarrow> Some (Inl ls)
     | Inr (changed, c) \<Rightarrow> if changed then congruence_loop n u s c else Some (Inr c)
   }"

subsection \<open>The answer\<close>

fun refuted_equality :: "uf_theory \<Rightarrow> closure \<Rightarrow> theory_equality list \<Rightarrow> signed_term list option option" where
  "refuted_equality u c [] = Some None"
| "refuted_equality u c (e # es) =
     (if uf_value u (te_term e) then refuted_equality u c es
      else do {
        same \<leftarrow> equivalent_terms c (te_left e) (te_right e);
        if same
        then do { reason \<leftarrow> explain c (te_left e) (te_right e); Some (Some (conflict_lemma reason (sg_pos (te_term e)))) }
        else refuted_equality u c es
      })"

fun closure_values ::
  "term_store \<Rightarrow> closure \<Rightarrow> nat \<Rightarrow> nat list \<Rightarrow> (sort \<times> nat \<rightharpoonup> nat) \<Rightarrow> (sort \<rightharpoonup> nat) \<Rightarrow> (nat \<rightharpoonup> nat) \<Rightarrow> (nat \<rightharpoonup> nat) option"
where
  "closure_values s c i [] classes next_value values = Some values"
| "closure_values s c i (t # ts) classes next_value values =
     (case sort_of t s of
        Inl _ \<Rightarrow> None
      | Inr so \<Rightarrow>
          if \<not> abstract_sort so then closure_values s c (i + 1) ts classes next_value values
          else let root = find_root c i in
            case classes (so, root) of
              Some v \<Rightarrow> closure_values s c (i + 1) ts classes next_value (values(t \<mapsto> v))
            | None \<Rightarrow>
                let v = (case next_value so of None \<Rightarrow> 0 | Some k \<Rightarrow> k) in
                closure_values s c (i + 1) ts (classes((so, root) \<mapsto> v))
                  (next_value(so \<mapsto> min u32_max (v + 1))) (values(t \<mapsto> v)))"

definition closure_model :: "closure \<Rightarrow> term_store \<Rightarrow> uf_model option" where
  "closure_model c s =
     map_option (\<lambda>values. \<lparr>um_values = values, um_relevant = {}\<rparr>)
       (closure_values s c 0 (cl_terms c) Map.empty Map.empty Map.empty)"

definition uf_final_check :: "uf_theory \<Rightarrow> term_store \<Rightarrow> uf_model theory_check option" where
  "uf_final_check u s =
     (case List.find (\<lambda>a. \<not> uf_value u a) (ts_array_axioms s) of
        Some a \<Rightarrow> Some (Conflict [sg_pos a])
      | None \<Rightarrow> do {
          equalities \<leftarrow> those (map (item_at (ts_theory_equalities s)) (uf_equalities u));
          c \<leftarrow> fold_option (assert_equality u) equalities (closure_new (uf_closure_terms u s));
          c \<leftarrow> fold_option (assert_equality u) (uf_shared_equalities u) c;
          ites \<leftarrow> those (map (item_at (ts_uf_ites s)) (uf_ites u));
          c \<leftarrow> fold_option (assert_ite u) ites c;
          result \<leftarrow> congruence_loop (Suc (length (cl_terms c))) u s c;
          case result of
            Inl ls \<Rightarrow> Some (Conflict ls)
          | Inr c \<Rightarrow> do {
              refuted \<leftarrow> refuted_equality u c equalities;
              case refuted of
                Some ls \<Rightarrow> Some (Conflict ls)
              | None \<Rightarrow> do {
                  shared \<leftarrow> refuted_equality u c (uf_shared_equalities u);
                  case shared of
                    Some ls \<Rightarrow> Some (Conflict ls)
                  | None \<Rightarrow> do {
                      m \<leftarrow> closure_model c s;
                      applications \<leftarrow> those (map (item_at (ts_applications s)) (uf_applications u));
                      Some (Consistent (m\<lparr>um_relevant := um_relevant m \<union> set (map ap_result applications)\<rparr>))
                    }
                }
            }
        })"

end
