(* ===== verification/Smt_Uf_Decision.thy ===== *)
theory Smt_Uf_Decision
  imports Smt_Uf "HOL-Library.Code_Target_Nat"
begin

section \<open>The check decides equality with uninterpreted functions\<close>

text \<open>
  What \<open>final_check\<close> of \<open>src/smt/uf.rs\<close> promises. A structure gives every term a value and every
  function a meaning, such that the equalities, conditionals, applications and array axioms that
  the check looks at come out right. The lemmas show that the check never panics and that its
  loops end, that a conflict clause is true in every structure and false under the assignment,
  and that a consistent answer is a structure with the assigned truth values.
\<close>

subsection \<open>Structures\<close>

definition bits_of :: "term_store \<Rightarrow> nat \<Rightarrow> nat list" where
  "bits_of s t = (case term_bits s t of Some bits \<Rightarrow> bits | None \<Rightarrow> [])"

fun datum :: "term_store \<Rightarrow> (nat \<Rightarrow> bool) \<Rightarrow> (nat \<Rightarrow> 'a) \<Rightarrow> nat \<Rightarrow> sort \<Rightarrow> 'a argument_value" where
  "datum s v den t SBool = ABool (v t)"
| "datum s v den t (SBitVec _) = ABitVec (map v (bits_of s t))"
| "datum s v den t SInt = Abstract (den t)"
| "datum s v den t SReal = Abstract (den t)"
| "datum s v den t (SUninterpreted _) = Abstract (den t)"
| "datum s v den t (SArray _) = Abstract (den t)"

abbreviation app_at :: "term_store \<Rightarrow> nat \<Rightarrow> application" where
  "app_at s i \<equiv> ts_applications s ! i"

abbreviation app_domain :: "term_store \<Rightarrow> nat \<Rightarrow> sort list" where
  "app_domain s i \<equiv> fs_domain (ts_functions s ! ap_function (app_at s i))"

abbreviation app_range :: "term_store \<Rightarrow> nat \<Rightarrow> sort" where
  "app_range s i \<equiv> fs_range (ts_functions s ! ap_function (app_at s i))"

definition argument_data :: "term_store \<Rightarrow> (nat \<Rightarrow> bool) \<Rightarrow> (nat \<Rightarrow> 'a) \<Rightarrow> nat \<Rightarrow> 'a argument_value list" where
  "argument_data s v den i = map (\<lambda>(t, so). datum s v den t so) (zip (ap_arguments (app_at s i)) (app_domain s i))"

definition result_datum :: "term_store \<Rightarrow> (nat \<Rightarrow> bool) \<Rightarrow> (nat \<Rightarrow> 'a) \<Rightarrow> nat \<Rightarrow> 'a argument_value" where
  "result_datum s v den i = datum s v den (ap_result (app_at s i)) (app_range s i)"

definition uf_facts :: "uf_theory \<Rightarrow> term_store \<Rightarrow> theory_equality list" where
  "uf_facts u s = map ((!) (ts_theory_equalities s)) (uf_equalities u) @ uf_shared_equalities u"

definition uf_choices :: "uf_theory \<Rightarrow> term_store \<Rightarrow> conditional list" where
  "uf_choices u s = map ((!) (ts_uf_ites s)) (uf_ites u)"

definition chosen :: "(nat \<Rightarrow> bool) \<Rightarrow> conditional \<Rightarrow> nat" where
  "chosen v it = (if v (ci_condition it) then ci_then it else ci_else it)"

definition uf_structure ::
  "uf_theory \<Rightarrow> term_store \<Rightarrow> (nat \<Rightarrow> bool) \<Rightarrow> (nat \<Rightarrow> 'a) \<Rightarrow> (nat \<Rightarrow> 'a argument_value list \<Rightarrow> 'a argument_value) \<Rightarrow> bool"
where
  "uf_structure u s v den F \<longleftrightarrow>
     (\<forall>a \<in> set (ts_array_axioms s). v a) \<and>
     (\<forall>e \<in> set (uf_facts u s). v (te_term e) \<longleftrightarrow> den (te_left e) = den (te_right e)) \<and>
     (\<forall>it \<in> set (uf_choices u s). den (ci_result it) = den (chosen v it)) \<and>
     (\<forall>i \<in> set (uf_applications u). result_datum s v den i = F (ap_function (app_at s i)) (argument_data s v den i))"

subsection \<open>Well-formed checks\<close>

fun value_ok :: "nat set \<Rightarrow> term_store \<Rightarrow> nat \<Rightarrow> sort \<Rightarrow> bool" where
  "value_ok T s t SBool = True"
| "value_ok T s t (SBitVec w) = (case term_bits s t of Some bits \<Rightarrow> length bits = w | None \<Rightarrow> False)"
| "value_ok T s t SInt = (t \<in> T)"
| "value_ok T s t SReal = (t \<in> T)"
| "value_ok T s t (SUninterpreted _) = (t \<in> T)"
| "value_ok T s t (SArray _) = (t \<in> T)"

definition application_ok :: "nat set \<Rightarrow> term_store \<Rightarrow> nat \<Rightarrow> bool" where
  "application_ok T s i \<longleftrightarrow>
     i < length (ts_applications s) \<and> ap_function (app_at s i) < length (ts_functions s) \<and>
     length (ap_arguments (app_at s i)) = length (app_domain s i) \<and>
     list_all2 (value_ok T s) (ap_arguments (app_at s i)) (app_domain s i) \<and>
     value_ok T s (ap_result (app_at s i)) (app_range s i)"

definition results_shared :: "uf_theory \<Rightarrow> term_store \<Rightarrow> nat \<Rightarrow> nat \<Rightarrow> bool" where
  "results_shared u s i j \<longleftrightarrow>
     (let l = ap_result (app_at s i); r = ap_result (app_at s j)
      in list_ex (\<lambda>e. uf_shared_equality_terms u (ordered_pair l r) = Some (te_term e) \<and>
                      ordered_pair l r = (te_left e, te_right e)) (uf_shared_equalities u))"

definition uf_ok :: "uf_theory \<Rightarrow> term_store \<Rightarrow> bool" where
  "uf_ok u s \<longleftrightarrow>
     (let T = set (uf_closure_terms u s) in
      length (uf_closure_terms u s) \<le> u32_max \<and>
      (\<forall>t \<in> T. t < length (ts_nodes s)) \<and>
      (\<forall>i \<in> set (uf_equalities u). i < length (ts_theory_equalities s)) \<and>
      (\<forall>e \<in> set (uf_facts u s). te_left e \<in> T \<and> te_right e \<in> T) \<and>
      (\<forall>i \<in> set (uf_ites u). i < length (ts_uf_ites s)) \<and>
      (\<forall>it \<in> set (uf_choices u s). ci_result it \<in> T \<and> ci_then it \<in> T \<and> ci_else it \<in> T) \<and>
      (\<forall>i \<in> set (uf_applications u). application_ok T s i) \<and>
      (\<forall>i \<in> set (uf_applications u). \<forall>j \<in> set (uf_applications u).
         ap_function (app_at s i) = ap_function (app_at s j) \<longrightarrow> arithmetic_sort (app_range s i) \<longrightarrow>
         ap_result (app_at s i) \<noteq> ap_result (app_at s j) \<longrightarrow> results_shared u s i j))"

subsection \<open>Loops that keep an invariant\<close>

lemma those_Some: "those xs = Some ys \<longleftrightarrow> xs = map Some ys"
  by (induction xs arbitrary: ys) (auto split: option.splits)

lemma map_eq_map_Some: "map f xs = map Some ys \<longleftrightarrow> list_all2 (\<lambda>x y. f x = Some y) xs ys"
  by (simp add: list_all2_map1 list_all2_map2 flip: list.rel_eq)

lemma those_item_at: "\<forall>i \<in> set is. i < length xs \<Longrightarrow> those (map (item_at xs) is) = Some (map ((!) xs) is)"
  by (simp add: those_Some item_at_def)

lemma fold_option_rule:
  assumes "\<And>x c. x \<in> set xs \<Longrightarrow> I c \<Longrightarrow> \<exists>d. f x c = Some d \<and> I d \<and> le c d \<and> Q x d"
    and refl: "\<And>c. le c c" and trans: "\<And>c d e. le c d \<Longrightarrow> le d e \<Longrightarrow> le c e"
    and stable: "\<And>x c d. Q x c \<Longrightarrow> le c d \<Longrightarrow> Q x d"
    and "I c"
  shows "\<exists>d. fold_option f xs c = Some d \<and> I d \<and> le c d \<and> (\<forall>x \<in> set xs. Q x d)"
  using assms(1,5)
proof (induction xs arbitrary: c)
  case Nil
  then show ?case using refl by simp
next
  case (Cons x xs)
  obtain d where d: "f x c = Some d" "I d" "le c d" "Q x d" using Cons.prems by (metis list.set_intros(1))
  obtain e where "fold_option f xs d = Some e" "I e" "le d e" "\<forall>x \<in> set xs. Q x e"
    using Cons.IH [OF _ d(2)] Cons.prems(1) by (metis list.set_intros(2))
  then show ?case using d trans stable by auto
qed

subsection \<open>The invariant of the closure\<close>

definition entails :: "(nat \<Rightarrow> bool) \<Rightarrow> (nat \<Rightarrow> bool) \<Rightarrow> (nat \<Rightarrow> 'a) \<Rightarrow> signed_term set \<Rightarrow> nat \<Rightarrow> nat \<Rightarrow> bool" where
  "entails w v den R l r \<longleftrightarrow>
     (\<forall>x \<in> R. lit_holds w x) \<and> ((\<forall>x \<in> R. lit_holds v x) \<longrightarrow> den l = den r)"

interpretation reasons: justification "entails w v den" for w v den
  by unfold_locales (auto simp: entails_def)

definition closure_state :: "uf_theory \<Rightarrow> term_store \<Rightarrow> (nat \<Rightarrow> bool) \<Rightarrow> (nat \<Rightarrow> 'a) \<Rightarrow> closure \<Rightarrow> bool" where
  "closure_state u s v den c \<longleftrightarrow>
     closure_ok c \<and> cl_terms c = uf_closure_terms u s \<and> justified (entails (uf_value u) v den) c"

definition refines :: "closure \<Rightarrow> closure \<Rightarrow> bool" where
  "refines c d \<longleftrightarrow> cl_terms d = cl_terms c \<and>
     (\<forall>x \<in> set (cl_terms c). \<forall>y \<in> set (cl_terms c). same_class c x y \<longrightarrow> same_class d x y)"

lemma refines_refl: "refines c c"
  by (simp add: refines_def)

lemma refines_trans: "refines c d \<Longrightarrow> refines d e \<Longrightarrow> refines c e"
  by (simp add: refines_def)

lemma same_class_sym: "same_class c x y \<longleftrightarrow> same_class c y x"
  by (auto simp: same_class_def equivalent_terms_def bind_eq_Some_conv)

lemma closure_state_union:
  assumes st: "closure_state u s v den c" and l: "l \<in> set (uf_closure_terms u s)" and r: "r \<in> set (uf_closure_terms u s)"
    and reason: "entails (uf_value u) v den (set reason) l r"
  obtains b d where "closure_union l r reason c = Some (b, d)" "closure_state u s v den d" "refines c d"
    "same_class d l r" "class_count d + (if b then 1 else 0) = class_count c"
proof -
  have ok: "closure_ok c" and terms: "cl_terms c = uf_closure_terms u s" using st by (simp_all add: closure_state_def)
  obtain b d where d: "closure_union l r reason c = Some (b, d)" "closure_ok d" "cl_terms d = cl_terms c"
    "class_count d + (if b then 1 else 0) = class_count c"
    and same: "\<And>x y. x \<in> set (cl_terms c) \<Longrightarrow> y \<in> set (cl_terms c) \<Longrightarrow>
      same_class d x y \<longleftrightarrow> same_class c x y \<or> same_class c x l \<and> same_class c r y \<or> same_class c x r \<and> same_class c l y"
    using closure_union_ok [OF ok, of l r reason] l r terms by metis
  have "same_class c l l" "same_class c r r" using class_of_same(2) [OF ok] l r terms by simp_all
  then have "same_class d l r" using same l r terms by simp
  moreover have "closure_state u s v den d"
    using reasons.justified_union [OF ok _ reason d(1)] st d by (simp add: closure_state_def)
  ultimately show thesis using d same by (intro that) (auto simp: refines_def)
qed

text \<open>What the positive facts of a structure give; the first part of a structure.\<close>

definition positive_facts :: "uf_theory \<Rightarrow> term_store \<Rightarrow> (nat \<Rightarrow> bool) \<Rightarrow> (nat \<Rightarrow> 'a) \<Rightarrow> bool" where
  "positive_facts u s v den \<longleftrightarrow>
     (\<forall>e \<in> set (uf_facts u s). v (te_term e) \<longrightarrow> den (te_left e) = den (te_right e)) \<and>
     (\<forall>it \<in> set (uf_choices u s). den (ci_result it) = den (chosen v it)) \<and>
     (\<forall>i \<in> set (uf_applications u). \<forall>j \<in> set (uf_applications u).
        ap_function (app_at s i) = ap_function (app_at s j) \<longrightarrow> abstract_sort (app_range s i) \<longrightarrow>
        argument_data s v den i = argument_data s v den j \<longrightarrow>
        den (ap_result (app_at s i)) = den (ap_result (app_at s j)))"

lemma datum_abstract: "abstract_sort so \<or> arithmetic_sort so \<Longrightarrow> datum s v den t so = Abstract (den t)"
  by (cases so) (auto simp: arithmetic_sort_def)

lemma structure_positive: "uf_structure u s v den F \<Longrightarrow> positive_facts u s v den"
  by (auto simp: uf_structure_def positive_facts_def result_datum_def datum_abstract)
     (metis argument_value.inject(1) datum_abstract)

lemma trivial_positive: "positive_facts u s v (\<lambda>_. ())"
  by (simp add: positive_facts_def)

lemma assert_equality_state:
  assumes "uf_ok u s" "positive_facts u s v den" "e \<in> set (uf_facts u s)" "closure_state u s v den c"
  shows "\<exists>d. assert_equality u e c = Some d \<and> closure_state u s v den d \<and> refines c d \<and>
    (te_left e \<in> set (cl_terms d) \<and> te_right e \<in> set (cl_terms d) \<and>
     (uf_value u (te_term e) \<longrightarrow> same_class d (te_left e) (te_right e)))"
proof -
  have mem: "te_left e \<in> set (uf_closure_terms u s)" "te_right e \<in> set (uf_closure_terms u s)"
    using assms(1,3) by (auto simp: uf_ok_def Let_def)
  show ?thesis
  proof (cases "uf_value u (te_term e)")
    case True
    have "entails (uf_value u) v den (set [sg_pos (te_term e)]) (te_left e) (te_right e)"
      using True assms(2,3) by (simp add: entails_def positive_facts_def)
    then obtain b d where "closure_union (te_left e) (te_right e) [sg_pos (te_term e)] c = Some (b, d)"
      "closure_state u s v den d" "refines c d" "same_class d (te_left e) (te_right e)"
      using closure_state_union [OF assms(4) mem] by metis
    then show ?thesis using True mem by (auto simp: assert_equality_def closure_state_def)
  next
    case False
    then show ?thesis using assms(4) mem by (simp add: assert_equality_def refines_refl closure_state_def)
  qed
qed

lemma assert_ite_state:
  assumes "uf_ok u s" "positive_facts u s v den" "it \<in> set (uf_choices u s)" "closure_state u s v den c"
  shows "\<exists>d. assert_ite u it c = Some d \<and> closure_state u s v den d \<and> refines c d \<and>
    (ci_result it \<in> set (cl_terms d) \<and> chosen (uf_value u) it \<in> set (cl_terms d) \<and>
     same_class d (ci_result it) (chosen (uf_value u) it))"
proof -
  have mem: "ci_result it \<in> set (uf_closure_terms u s)" "chosen (uf_value u) it \<in> set (uf_closure_terms u s)"
    using assms(1,3) by (auto simp: uf_ok_def Let_def chosen_def)
  let ?b = "uf_value u (ci_condition it)"
  have "entails (uf_value u) v den (set [\<lparr>sg_term = ci_condition it, sg_positive = ?b\<rparr>]) (ci_result it) (chosen (uf_value u) it)"
    using assms(2,3) by (auto simp: entails_def positive_facts_def chosen_def)
  then obtain b d where d: "closure_union (ci_result it) (chosen (uf_value u) it) [\<lparr>sg_term = ci_condition it, sg_positive = ?b\<rparr>] c = Some (b, d)"
    "closure_state u s v den d" "refines c d" "same_class d (ci_result it) (chosen (uf_value u) it)"
    using closure_state_union [OF assms(4) mem] by metis
  then have "assert_ite u it c = Some d" by (simp add: assert_ite_def chosen_def)
  then show ?thesis using d mem by (auto simp: closure_state_def)
qed

subsection \<open>Values and reasons\<close>

lemma reason_bits_ok:
  "map (uf_value u) ls = map (uf_value u) rs \<Longrightarrow>
   \<exists>xs. reason_bits u (zip ls rs) = Some xs \<and> (\<forall>x \<in> set xs. lit_holds (uf_value u) x) \<and>
     ((\<forall>x \<in> set xs. lit_holds v x) \<longrightarrow> map v ls = map v rs)"
proof (induction ls arbitrary: rs)
  case (Cons l ls)
  then obtain r rs' where rs: "rs = r # rs'" "uf_value u l = uf_value u r" "map (uf_value u) ls = map (uf_value u) rs'" by auto
  obtain xs where "reason_bits u (zip ls rs') = Some xs" "\<forall>x \<in> set xs. lit_holds (uf_value u) x"
    "(\<forall>x \<in> set xs. lit_holds v x) \<longrightarrow> map v ls = map v rs'"
    using Cons.IH [OF rs(3)] by blast
  then show ?case using rs(1,2) by auto
qed simp

definition same_datum :: "uf_theory \<Rightarrow> term_store \<Rightarrow> (nat \<Rightarrow> bool) \<Rightarrow> (nat \<Rightarrow> 'a) \<Rightarrow> signed_term set \<Rightarrow> nat \<Rightarrow> nat \<Rightarrow> sort \<Rightarrow> bool" where
  "same_datum u s v den R l r so \<longleftrightarrow>
     (\<forall>x \<in> R. lit_holds (uf_value u) x) \<and> ((\<forall>x \<in> R. lit_holds v x) \<longrightarrow> datum s v den l so = datum s v den r so)"

lemma classes_reason:
  assumes st: "closure_state u s v den c" and "l \<in> set (uf_closure_terms u s)" "r \<in> set (uf_closure_terms u s)"
    and "class_of c l = class_of c r"
  shows "\<exists>ls. (do { same \<leftarrow> equivalent_terms c l r; if same then explain c l r else None }) = Some ls \<and>
    entails (uf_value u) v den (set ls) l r"
proof -
  have ok: "closure_ok c" "justified (entails (uf_value u) v den) c" and terms: "cl_terms c = uf_closure_terms u s"
    using st by (simp_all add: closure_state_def)
  note cls = class_of_same [OF ok(1), of l r]
  have "same_class c l r" "equivalent_terms c l r = Some True" using cls assms(2-4) terms by simp_all
  then show ?thesis using reasons.explain_holds [OF ok] by simp
qed

lemma key_value_abstract: "abstract_sort so \<or> arithmetic_sort so \<Longrightarrow> key_value u s c t so = map_option Abstract (class_of c t)"
  by (cases so) (auto simp: arithmetic_sort_def)

lemma value_ok_abstract: "abstract_sort so \<or> arithmetic_sort so \<Longrightarrow> value_ok T s t so \<longleftrightarrow> t \<in> T"
  by (cases so) (auto simp: arithmetic_sort_def)

lemma map_Abstract_eq [simp]: "map_option Abstract x = map_option Abstract y \<longleftrightarrow> x = y"
  by (cases x; cases y) auto

lemma reason_argument_ok:
  assumes st: "closure_state u s v den c" and ok: "value_ok (set (uf_closure_terms u s)) s l so" "value_ok (set (uf_closure_terms u s)) s r so"
    and same: "key_value u s c l so = key_value u s c r so"
  shows "\<exists>ls. reason_argument u s c l r so = Some ls \<and> same_datum u s v den (set ls) l r so"
proof (cases "abstract_sort so \<or> arithmetic_sort so")
  case True
  then have mem: "l \<in> set (uf_closure_terms u s)" "r \<in> set (uf_closure_terms u s)" and cls: "class_of c l = class_of c r"
    using ok same by (auto simp: value_ok_abstract key_value_abstract)
  show ?thesis
    using classes_reason [OF st mem cls] True
    by (auto simp: reason_argument_def same_datum_def entails_def datum_abstract)
next
  case False
  then consider "so = SBool" | w where "so = SBitVec w" by (cases so) (auto simp: arithmetic_sort_def)
  then show ?thesis
  proof cases
    case 1
    then show ?thesis using reason_bits_ok [of u "[l]" "[r]" v] same
      by (auto simp: reason_argument_def same_datum_def arithmetic_sort_def)
  next
    case 2
    then obtain ls rs where "term_bits s l = Some ls" "term_bits s r = Some rs" using ok by (auto split: option.splits)
    then show ?thesis using 2 reason_bits_ok [of u ls rs v] same
      by (auto simp: reason_argument_def same_datum_def arithmetic_sort_def bits_of_def)
  qed
qed

lemma reason_arguments_ok:
  assumes st: "closure_state u s v den c"
    and "length ls = length rs" "length rs = length sos"
    and "\<forall>((l, r), so) \<in> set (zip (zip ls rs) sos).
      value_ok (set (uf_closure_terms u s)) s l so \<and> value_ok (set (uf_closure_terms u s)) s r so \<and>
      key_value u s c l so = key_value u s c r so"
  shows "\<exists>xs. reason_arguments u s c (zip (zip ls rs) sos) = Some xs \<and> (\<forall>x \<in> set xs. lit_holds (uf_value u) x) \<and>
    ((\<forall>x \<in> set xs. lit_holds v x) \<longrightarrow>
      map (\<lambda>(t, so). datum s v den t so) (zip ls sos) = map (\<lambda>(t, so). datum s v den t so) (zip rs sos))"
  using assms(2-4)
proof (induction ls rs sos rule: list_induct3)
  case (Cons l ls r rs so sos)
  obtain xs where "reason_arguments u s c (zip (zip ls rs) sos) = Some xs" "\<forall>x \<in> set xs. lit_holds (uf_value u) x"
    "(\<forall>x \<in> set xs. lit_holds v x) \<longrightarrow>
      map (\<lambda>(t, so). datum s v den t so) (zip ls sos) = map (\<lambda>(t, so). datum s v den t so) (zip rs sos)"
    using Cons.IH Cons.prems by auto
  moreover obtain ys where "reason_argument u s c l r so = Some ys" "same_datum u s v den (set ys) l r so"
    using reason_argument_ok [OF st, of l so r] Cons.prems by auto
  ultimately show ?case by (auto simp: same_datum_def)
qed simp

definition result_values :: "uf_theory \<Rightarrow> term_store \<Rightarrow> closure \<Rightarrow> nat \<Rightarrow> nat argument_value option" where
  "result_values u s c i = key_value u s c (ap_result (app_at s i)) (app_range s i)"

definition key_at :: "uf_theory \<Rightarrow> term_store \<Rightarrow> closure \<Rightarrow> nat \<Rightarrow> congruence_key option" where
  "key_at u s c i = congruence_key u s (app_at s i) (app_domain s i) c"

lemma key_at_iff:
  "key_at u s c i = Some (f, as) \<longleftrightarrow> f = ap_function (app_at s i) \<and>
     map (\<lambda>(t, so). key_value u s c t so) (zip (ap_arguments (app_at s i)) (app_domain s i)) = map Some as"
  by (auto simp: key_at_def congruence_key_def those_Some)

lemma key_value_some:
  assumes "closure_ok c" "value_ok (set (cl_terms c)) s t so" shows "key_value u s c t so \<noteq> None"
proof (cases "abstract_sort so \<or> arithmetic_sort so")
  case True
  then show ?thesis using assms class_some [OF assms(1)] by (simp add: key_value_abstract value_ok_abstract)
next
  case False
  then show ?thesis using assms(2) by (cases so) (auto simp: arithmetic_sort_def split: option.splits)
qed

lemma application_value_ok:
  assumes "application_ok T s i" "(t, so) \<in> set (zip (ap_arguments (app_at s i)) (app_domain s i))"
  shows "value_ok T s t so"
  using assms by (auto simp: application_ok_def list_all2_iff)

lemma key_at_some:
  assumes "closure_ok c" "application_ok (set (cl_terms c)) s i"
  obtains as where "key_at u s c i = Some (ap_function (app_at s i), as)"
proof -
  let ?zs = "zip (ap_arguments (app_at s i)) (app_domain s i)"
  have "map (\<lambda>(t, so). key_value u s c t so) ?zs = map Some (map (\<lambda>(t, so). the (key_value u s c t so)) ?zs)"
    using key_value_some [OF assms(1) application_value_ok [OF assms(2)]] by auto
  then show thesis using that unfolding key_at_iff by blast
qed

text \<open>
  The keys of a pass stay usable when classes are joined: a key that no longer describes its
  application names a class whose representative has gone.
\<close>

definition value_fits :: "uf_theory \<Rightarrow> term_store \<Rightarrow> closure \<Rightarrow> nat \<times> sort \<Rightarrow> nat argument_value \<Rightarrow> bool" where
  "value_fits u s c p a \<longleftrightarrow> key_value u s c (fst p) (snd p) = Some a \<or> (\<exists>k. a = Abstract k \<and> cl_parent c ! k \<noteq> k)"

definition seen_ok :: "uf_theory \<Rightarrow> term_store \<Rightarrow> closure \<Rightarrow> (congruence_key \<rightharpoonup> nat) \<Rightarrow> bool" where
  "seen_ok u s c seen \<longleftrightarrow>
     (\<forall>f as j. seen (f, as) = Some j \<longrightarrow> j \<in> set (uf_applications u) \<and> ap_function (app_at s j) = f \<and>
        list_all2 (value_fits u s c) (zip (ap_arguments (app_at s j)) (app_domain s j)) as)"

lemma value_fits_union:
  assumes ok: "closure_ok c" and union: "closure_union l r reason c = Some (b, d)" and "value_fits u s c p a"
  shows "value_fits u s d p a"
proof (cases "abstract_sort (snd p) \<or> arithmetic_sort (snd p)")
  case True
  have "class_of d (fst p) = class_of c (fst p) \<or> (\<exists>k. class_of c (fst p) = Some k \<and> cl_parent d ! k \<noteq> k)"
    by (rule closure_union_roots(2) [OF ok union])
  then show ?thesis using assms(3) True closure_union_roots(1) [OF ok union]
    by (auto simp: value_fits_def key_value_abstract)
next
  case False
  then have "key_value u s d (fst p) (snd p) = key_value u s c (fst p) (snd p)" by (cases "snd p") (auto simp: arithmetic_sort_def)
  then show ?thesis using assms(3) closure_union_roots(1) [OF ok union] by (auto simp: value_fits_def)
qed

lemma seen_ok_union:
  assumes "closure_ok c" "closure_union l r reason c = Some (b, d)" "seen_ok u s c seen"
  shows "seen_ok u s d seen"
proof -
  have "list_all2 (value_fits u s d) ps as" if "list_all2 (value_fits u s c) ps as" for ps as
    using that by (rule list_all2_mono) (rule value_fits_union [OF assms(1,2)])
  then show ?thesis using assms(3) unfolding seen_ok_def by blast
qed

lemma key_value_root: "closure_ok c \<Longrightarrow> key_value u s c t so = Some (Abstract k) \<Longrightarrow> cl_parent c ! k = k"
  by (cases so) (auto dest: class_of_root)

lemma seen_same_values:
  assumes ok: "closure_ok c" and seen: "seen_ok u s c seen" and key: "key_at u s c i = Some key" "seen key = Some j"
  shows "j \<in> set (uf_applications u)" "ap_function (app_at s j) = ap_function (app_at s i)" "key_at u s c j = Some key"
proof -
  obtain f as where fas: "key = (f, as)" by (cases key)
  have f: "f = ap_function (app_at s i)" and vals: "map (\<lambda>(t, so). key_value u s c t so) (zip (ap_arguments (app_at s i)) (app_domain s i)) = map Some as"
    using key(1) by (simp_all add: fas key_at_iff)
  have j: "j \<in> set (uf_applications u)" "ap_function (app_at s j) = f"
    "list_all2 (value_fits u s c) (zip (ap_arguments (app_at s j)) (app_domain s j)) as"
    using seen key(2) by (auto simp: seen_ok_def fas)
  show "j \<in> set (uf_applications u)" "ap_function (app_at s j) = ap_function (app_at s i)" using j f by simp_all
  have "\<forall>a \<in> set as. \<exists>t so. key_value u s c t so = Some a"
  proof
    fix a assume "a \<in> set as"
    then have "Some a \<in> set (map Some as)" by simp
    then have "Some a \<in> set (map (\<lambda>(t, so). key_value u s c t so) (zip (ap_arguments (app_at s i)) (app_domain s i)))"
      by (simp only: vals)
    then obtain t so where "Some a = key_value u s c t so" by auto
    then show "\<exists>t so. key_value u s c t so = Some a" by metis
  qed
  then have roots: "cl_parent c ! k = k" if "Abstract k \<in> set as" for k using key_value_root [OF ok] that by blast
  have "list_all2 (\<lambda>p a. key_value u s c (fst p) (snd p) = Some a) (zip (ap_arguments (app_at s j)) (app_domain s j)) as"
    using j(3) by (rule list.rel_mono_strong) (auto simp: value_fits_def roots)
  then have "map (\<lambda>(t, so). key_value u s c t so) (zip (ap_arguments (app_at s j)) (app_domain s j)) = map Some as"
    by (simp add: map_eq_map_Some case_prod_beta)
  then show "key_at u s c j = Some key" using j(2) by (simp add: fas key_at_iff)
qed

lemma congruence_reason_ok:
  assumes st: "closure_state u s v den c"
    and apps: "application_ok (set (uf_closure_terms u s)) s i" "application_ok (set (uf_closure_terms u s)) s j"
    and same: "ap_function (app_at s j) = ap_function (app_at s i)" "key_at u s c i = key_at u s c j" "key_at u s c i = Some key"
  shows "\<exists>xs. congruence_reason u s (app_at s j) (app_at s i) (app_domain s i) c = Some xs \<and>
    (\<forall>x \<in> set xs. lit_holds (uf_value u) x) \<and>
    ((\<forall>x \<in> set xs. lit_holds v x) \<longrightarrow> argument_data s v den i = argument_data s v den j)"
proof -
  let ?ls = "ap_arguments (app_at s j)" and ?rs = "ap_arguments (app_at s i)" and ?sos = "app_domain s i"
  obtain f as where fas: "key = (f, as)" by (cases key)
  have keys: "map (\<lambda>(t, so). key_value u s c t so) (zip ?rs ?sos) = map Some as"
    "map (\<lambda>(t, so). key_value u s c t so) (zip ?ls ?sos) = map Some as"
    using same key_at_iff [of u s c i f as] key_at_iff [of u s c j f as] by (simp_all add: fas)
  have len: "length ?ls = length ?rs" "length ?rs = length ?sos" using apps same(1) by (simp_all add: application_ok_def)
  have "value_ok (set (uf_closure_terms u s)) s (?ls ! k) (?sos ! k) \<and> value_ok (set (uf_closure_terms u s)) s (?rs ! k) (?sos ! k)
      \<and> key_value u s c (?ls ! k) (?sos ! k) = key_value u s c (?rs ! k) (?sos ! k)" if "k < length ?sos" for k
  proof -
    have "map (\<lambda>(t, so). key_value u s c t so) (zip ?rs ?sos) ! k = map (\<lambda>(t, so). key_value u s c t so) (zip ?ls ?sos) ! k"
      using keys by simp
    then show ?thesis using that len apps same(1) by (auto simp: application_ok_def list_all2_conv_all_nth)
  qed
  then have "\<forall>((l, r), so) \<in> set (zip (zip ?ls ?rs) ?sos). value_ok (set (uf_closure_terms u s)) s l so
      \<and> value_ok (set (uf_closure_terms u s)) s r so \<and> key_value u s c l so = key_value u s c r so"
    using len by (auto simp: set_zip)
  from reason_arguments_ok [OF st len this]
  obtain xs where "reason_arguments u s c (zip (zip ?ls ?rs) ?sos) = Some xs" "\<forall>x \<in> set xs. lit_holds (uf_value u) x"
    "(\<forall>x \<in> set xs. lit_holds v x) \<longrightarrow>
      map (\<lambda>(t, so). datum s v den t so) (zip ?ls ?sos) = map (\<lambda>(t, so). datum s v den t so) (zip ?rs ?sos)"
    by blast
  then show ?thesis using same(1) by (simp add: congruence_reason_def argument_data_def)
qed

subsection \<open>Conflicts\<close>

definition refutes ::
  "uf_theory \<Rightarrow> term_store \<Rightarrow> (nat \<Rightarrow> bool) \<Rightarrow> (nat \<Rightarrow> 'a) \<Rightarrow> (nat \<Rightarrow> 'a argument_value list \<Rightarrow> 'a argument_value) \<Rightarrow> signed_term list \<Rightarrow> bool"
where
  "refutes u s v den F ls \<longleftrightarrow>
     (\<forall>x \<in> set ls. \<not> lit_holds (uf_value u) x) \<and> (uf_structure u s v den F \<longrightarrow> (\<exists>x \<in> set ls. lit_holds v x))"

lemma refutes_lemma:
  assumes "\<forall>x \<in> set reason. lit_holds (uf_value u) x" "\<not> lit_holds (uf_value u) l"
    and "uf_structure u s v den F \<Longrightarrow> \<forall>x \<in> set reason. lit_holds v x \<Longrightarrow> lit_holds v l"
  shows "refutes u s v den F (conflict_lemma reason l)"
  using assms by (auto simp: refutes_def)

lemma bit_conflict_ok:
  assumes "\<forall>x \<in> set reason. lit_holds (uf_value u) x"
    and "uf_structure u s v den F \<Longrightarrow> \<forall>x \<in> set reason. lit_holds v x \<Longrightarrow> \<forall>(l, r) \<in> set zs. v l = v r"
  shows "case bit_conflict u reason zs of Some ls \<Rightarrow> refutes u s v den F ls
    | None \<Rightarrow> \<forall>(l, r) \<in> set zs. uf_value u l = uf_value u r"
  using assms(2)
proof (induction zs)
  case (Cons z zs)
  obtain l r where z: "z = (l, r)" by (cases z)
  show ?case
  proof (cases "uf_value u l = uf_value u r")
    case True
    then show ?thesis using Cons by (auto simp: z split: option.splits)
  next
    case False
    have "refutes u s v den F (conflict_lemma (reason @ [\<lparr>sg_term = r, sg_positive = uf_value u r\<rparr>]) \<lparr>sg_term = l, sg_positive = uf_value u r\<rparr>)"
      using assms(1) False Cons.prems by (intro refutes_lemma) (auto simp: z)
    then show ?thesis using False by (simp add: z)
  qed
qed simp

lemma key_value_datum:
  assumes "value_ok (set (cl_terms c)) s t so" "closure_ok c"
  shows "key_value u s c t so = Some (datum s (uf_value u) (\<lambda>t. the (class_of c t)) t so)"
proof (cases "abstract_sort so \<or> arithmetic_sort so")
  case True
  then show ?thesis using assms class_some [OF assms(2)] by (auto simp: key_value_abstract value_ok_abstract datum_abstract)
next
  case False
  then show ?thesis using assms(1) by (cases so) (auto simp: arithmetic_sort_def bits_of_def split: option.splits)
qed

text \<open>Two applications with equal arguments and results of a lowered or arithmetic sort.\<close>

lemma lowered_result_ok:
  assumes uf: "uf_ok u s" and st: "closure_state u s v den c"
    and i: "i \<in> set (uf_applications u)" and j: "j \<in> set (uf_applications u)"
    and f: "ap_function (app_at s j) = ap_function (app_at s i)" and lowered: "\<not> abstract_sort (app_range s i)"
    and shared: "\<forall>e \<in> set (uf_facts u s). uf_value u (te_term e) \<longrightarrow> same_class c (te_left e) (te_right e)"
    and reason: "\<forall>x \<in> set reason. lit_holds (uf_value u) x"
    and args: "(\<forall>x \<in> set reason. lit_holds v x) \<longrightarrow> argument_data s v den i = argument_data s v den j"
  shows "\<exists>r. lowered_result_conflict u s (ap_result (app_at s j)) (ap_result (app_at s i)) (app_range s i) reason = Some r \<and>
    (case r of Some ls \<Rightarrow> refutes u s v den F ls | None \<Rightarrow> result_values u s c j = result_values u s c i)"
proof -
  let ?l = "ap_result (app_at s j)" and ?r = "ap_result (app_at s i)"
  have results: "uf_structure u s v den F \<Longrightarrow> \<forall>x \<in> set reason. lit_holds v x \<Longrightarrow> result_datum s v den i = result_datum s v den j"
    using i j f args by (auto simp: uf_structure_def)
  have ok: "value_ok (set (uf_closure_terms u s)) s ?l (app_range s i)" "value_ok (set (uf_closure_terms u s)) s ?r (app_range s i)"
    using uf i j f by (auto simp: uf_ok_def Let_def application_ok_def)
  show ?thesis
  proof (cases "arithmetic_sort (app_range s i)")
    case True
    show ?thesis
    proof (cases "?l = ?r")
      case False
      obtain e where e: "e \<in> set (uf_shared_equalities u)" "uf_shared_equality_terms u (ordered_pair ?l ?r) = Some (te_term e)"
        "ordered_pair ?l ?r = (te_left e, te_right e)"
      proof -
        have "arithmetic_sort (app_range s j)" using True f by simp
        then have "results_shared u s j i" using uf i j f False unfolding uf_ok_def Let_def by blast
        then show thesis using that by (auto simp: results_shared_def list_ex_iff Let_def)
      qed
      have fact: "e \<in> set (uf_facts u s)" using e(1) by (simp add: uf_facts_def)
      have pair: "te_left e = ?l \<and> te_right e = ?r \<or> te_left e = ?r \<and> te_right e = ?l"
        using e(3) by (auto simp: ordered_pair_def split: if_splits)
      have "result_values u s c j = result_values u s c i" if "uf_value u (te_term e)"
      proof -
        have "same_class c ?l ?r" using shared fact that pair same_class_sym by metis
        moreover have "?l \<in> set (cl_terms c)" "?r \<in> set (cl_terms c)" "closure_ok c"
          using ok True st by (auto simp: value_ok_abstract closure_state_def)
        ultimately have "class_of c ?l = class_of c ?r" using class_of_same(2) by metis
        then show ?thesis using True f by (simp add: result_values_def key_value_abstract)
      qed
      moreover have "refutes u s v den F (conflict_lemma reason (sg_pos (te_term e)))" if "\<not> uf_value u (te_term e)"
      proof (rule refutes_lemma [OF reason])
        assume str: "uf_structure u s v den F" and "\<forall>x \<in> set reason. lit_holds v x"
        then have "den ?l = den ?r" using results True f by (simp add: result_datum_def datum_abstract)
        then have "den (te_left e) = den (te_right e)" using pair by auto
        then show "lit_holds v (sg_pos (te_term e))" using str fact by (simp add: uf_structure_def)
      qed (use that in simp)
      ultimately show ?thesis using True False e(2) by (auto simp: lowered_result_conflict_def)
    qed (use True f in \<open>simp add: lowered_result_conflict_def result_values_def\<close>)
  next
    case False
    obtain ls rs where bits: "lowered_bits s ?l (app_range s i) = Some ls" "lowered_bits s ?r (app_range s i) = Some rs" "length ls = length rs"
      and data: "\<And>w. datum s w den ?l (app_range s i) = datum s w den ?r (app_range s i) \<longleftrightarrow> map w ls = map w rs"
      and vals: "map (uf_value u) ls = map (uf_value u) rs \<longrightarrow> key_value u s c ?l (app_range s i) = key_value u s c ?r (app_range s i)"
      using ok lowered False by (cases "app_range s i") (auto simp: arithmetic_sort_def bits_of_def split: option.splits)
    have "uf_structure u s v den F \<Longrightarrow> \<forall>x \<in> set reason. lit_holds v x \<Longrightarrow> map v ls = map v rs"
      using results data f unfolding result_datum_def by metis
    then have zs: "uf_structure u s v den F \<Longrightarrow> \<forall>x \<in> set reason. lit_holds v x \<Longrightarrow> \<forall>(l, r) \<in> set (zip ls rs). v l = v r"
      using bits(3) by (auto simp: set_zip list_eq_iff_nth_eq)
    have "map (uf_value u) ls = map (uf_value u) rs" if "\<forall>(l, r) \<in> set (zip ls rs). uf_value u l = uf_value u r"
      using that bits(3) by (auto simp: set_zip list_eq_iff_nth_eq)
    then show ?thesis using bit_conflict_ok [OF reason, of s v den F "zip ls rs", OF zs] bits False vals f
      by (auto simp: lowered_result_conflict_def result_values_def split: option.splits)
  qed
qed

subsection \<open>A pass\<close>

definition facts_joined :: "uf_theory \<Rightarrow> term_store \<Rightarrow> closure \<Rightarrow> bool" where
  "facts_joined u s c \<longleftrightarrow>
     (\<forall>e \<in> set (uf_facts u s). uf_value u (te_term e) \<longrightarrow> same_class c (te_left e) (te_right e)) \<and>
     (\<forall>it \<in> set (uf_choices u s). same_class c (ci_result it) (chosen (uf_value u) it))"

lemma facts_joined_refines:
  assumes "uf_ok u s" "cl_terms c = uf_closure_terms u s" "refines c d" "facts_joined u s c"
  shows "facts_joined u s d"
  using assms by (auto simp: facts_joined_def refines_def uf_ok_def Let_def chosen_def)

text \<open>The applications of a pass that ended without joining two classes.\<close>

definition pass_agrees :: "uf_theory \<Rightarrow> term_store \<Rightarrow> closure \<Rightarrow> (congruence_key \<rightharpoonup> nat) \<Rightarrow> nat list \<Rightarrow> bool" where
  "pass_agrees u s c seen is \<longleftrightarrow>
     (\<exists>seen'. seen \<subseteq>\<^sub>m seen' \<and> (\<forall>i \<in> set is. \<exists>key j. key_at u s c i = Some key \<and> seen' key = Some j \<and>
        result_values u s c j = result_values u s c i))"

definition pass_result ::
  "uf_theory \<Rightarrow> term_store \<Rightarrow> (nat \<Rightarrow> bool) \<Rightarrow> (nat \<Rightarrow> 'a) \<Rightarrow> (nat \<Rightarrow> 'a argument_value list \<Rightarrow> 'a argument_value)
   \<Rightarrow> closure \<Rightarrow> (congruence_key \<rightharpoonup> nat) \<Rightarrow> nat list \<Rightarrow> bool \<Rightarrow> signed_term list + bool \<times> closure \<Rightarrow> bool"
where
  "pass_result u s v den F c seen is changed r =
     (case r of
        Inl ls \<Rightarrow> refutes u s v den F ls
      | Inr (changed', d) \<Rightarrow>
          closure_state u s v den d \<and> refines c d \<and> class_count d \<le> class_count c \<and>
          (changed' \<longrightarrow> changed \<or> class_count d < class_count c) \<and>
          (\<not> changed' \<longrightarrow> d = c \<and> \<not> changed \<and> pass_agrees u s c seen is))"

lemma pass_agrees_cons:
  assumes "pass_agrees u s c seen is" "key_at u s c i = Some key" "seen key = Some j" "result_values u s c j = result_values u s c i"
  shows "pass_agrees u s c seen (i # is)"
proof -
  obtain seen' where "seen \<subseteq>\<^sub>m seen'" "\<forall>i \<in> set is. \<exists>key j. key_at u s c i = Some key \<and> seen' key = Some j \<and>
      result_values u s c j = result_values u s c i" using assms(1) unfolding pass_agrees_def by blast
  moreover from this(1) have "seen' key = Some j" using assms(3) by (metis domI map_le_def)
  ultimately show ?thesis using assms(2,4) unfolding pass_agrees_def by (intro exI [of _ seen']) (metis set_ConsD)
qed

lemma pass_agrees_new:
  assumes "pass_agrees u s c (seen(key \<mapsto> i)) is" "key_at u s c i = Some key" "seen key = None"
  shows "pass_agrees u s c seen (i # is)"
proof -
  obtain seen' where le: "seen(key \<mapsto> i) \<subseteq>\<^sub>m seen'" and rest: "\<forall>i \<in> set is. \<exists>key j. key_at u s c i = Some key \<and> seen' key = Some j \<and>
      result_values u s c j = result_values u s c i" using assms(1) unfolding pass_agrees_def by blast
  have at: "seen' key = Some i" using le by (metis domI fun_upd_same map_le_def)
  have all: "\<exists>key j. key_at u s c k = Some key \<and> seen' key = Some j \<and> result_values u s c j = result_values u s c k"
    if "k \<in> set (i # is)" for k
  proof (cases "k = i")
    case True
    then show ?thesis using assms(2) at by blast
  next
    case False
    then show ?thesis using that rest by (metis set_ConsD)
  qed
  have "seen \<subseteq>\<^sub>m seen(key \<mapsto> i)" using assms(3) by (metis domIff fun_upd_other map_le_def)
  then have "seen \<subseteq>\<^sub>m seen'" using le by (rule map_le_trans)
  then show ?thesis unfolding pass_agrees_def by (intro exI [of _ seen'] conjI ballI all)
qed

lemma seen_ok_insert:
  assumes "seen_ok u s c seen" "key_at u s c i = Some key" "i \<in> set (uf_applications u)"
  shows "seen_ok u s c (seen(key \<mapsto> i))"
proof -
  obtain f as where fas: "key = (f, as)" by (cases key)
  have "f = ap_function (app_at s i)"
    "list_all2 (\<lambda>p a. key_value u s c (fst p) (snd p) = Some a) (zip (ap_arguments (app_at s i)) (app_domain s i)) as"
    using assms(2) by (simp_all add: fas key_at_iff map_eq_map_Some case_prod_beta)
  moreover from this(2) have "list_all2 (value_fits u s c) (zip (ap_arguments (app_at s i)) (app_domain s i)) as"
    by (rule list_all2_mono) (simp add: value_fits_def)
  ultimately have new: "i \<in> set (uf_applications u) \<and> ap_function (app_at s i) = f \<and>
      list_all2 (value_fits u s c) (zip (ap_arguments (app_at s i)) (app_domain s i)) as" using assms(3) by simp
  show ?thesis unfolding seen_ok_def
  proof (intro allI impI)
    fix g bs j
    assume j: "(seen(key \<mapsto> i)) (g, bs) = Some j"
    show "j \<in> set (uf_applications u) \<and> ap_function (app_at s j) = g \<and>
      list_all2 (value_fits u s c) (zip (ap_arguments (app_at s j)) (app_domain s j)) bs"
    proof (cases "(g, bs) = key")
      case True
      then have "g = f" "bs = as" "j = i" using j by (auto simp: fas)
      then show ?thesis using new by blast
    next
      case False
      then have "seen (g, bs) = Some j" using j fun_upd_other [OF False, of seen "Some i"] by simp
      then show ?thesis using assms(1) unfolding seen_ok_def by blast
    qed
  qed
qed

lemma congruence_pass_ok:
  assumes "uf_ok u s" "positive_facts u s v den" "facts_joined u s c" "closure_state u s v den c" "seen_ok u s c seen"
    "set is \<subseteq> set (uf_applications u)"
  shows "\<exists>r. congruence_pass u s is seen changed c = Some r \<and> pass_result u s v den F c seen is changed r"
  using assms(3-6)
proof (induction "is" arbitrary: c seen changed)
  case Nil
  then show ?case by (auto simp: pass_result_def refines_refl pass_agrees_def intro: exI [of _ seen])
next
  case (Cons i "is")
  note st = Cons.prems(2)
  have ok: "closure_ok c" "cl_terms c = uf_closure_terms u s" using st by (simp_all add: closure_state_def)
  have i: "i \<in> set (uf_applications u)" "set is \<subseteq> set (uf_applications u)" using Cons.prems(4) by simp_all
  have app: "application_ok (set (uf_closure_terms u s)) s k" if "k \<in> set (uf_applications u)" for k
    using assms(1) that by (simp add: uf_ok_def Let_def)
  have at: "item_at (ts_applications s) k = Some (app_at s k)" if "k \<in> set (uf_applications u)" for k
    using app [OF that] by (simp add: application_ok_def item_at_def)
  have sig: "item_at (ts_functions s) (ap_function (app_at s i)) = Some (ts_functions s ! ap_function (app_at s i))"
    using app [OF i(1)] by (simp add: application_ok_def item_at_def)
  obtain key where key: "key_at u s c i = Some key" using key_at_some [OF ok(1), of s i] app [OF i(1)] ok(2) by metis
  note key' = key [unfolded key_at_def]
  show ?case
  proof (cases "seen key")
    case None
    obtain r where r: "congruence_pass u s is (seen(key \<mapsto> i)) changed c = Some r" "pass_result u s v den F c (seen(key \<mapsto> i)) is changed r"
      using Cons.IH [OF Cons.prems(1) st seen_ok_insert [OF Cons.prems(3) key i(1)] i(2)] by metis
    have "pass_result u s v den F c seen (i # is) changed r"
      using r(2) pass_agrees_new [of u s c seen key i "is", OF _ key None] by (auto simp: pass_result_def split: sum.splits prod.splits)
    then show ?thesis using at [OF i(1)] sig key' None r(1) by simp
  next
    case (Some j)
    note same = seen_same_values [OF ok(1) Cons.prems(3) key Some]
    obtain reason where reason: "congruence_reason u s (app_at s j) (app_at s i) (app_domain s i) c = Some reason"
      "\<forall>x \<in> set reason. lit_holds (uf_value u) x"
      "(\<forall>x \<in> set reason. lit_holds v x) \<longrightarrow> argument_data s v den i = argument_data s v den j"
      using congruence_reason_ok [OF st app [OF i(1)] app [OF same(1)] same(2) _ key] key same(3) by metis
    show ?thesis
    proof (cases "abstract_sort (app_range s i)")
      case True
      have mem: "ap_result (app_at s j) \<in> set (uf_closure_terms u s)" "ap_result (app_at s i) \<in> set (uf_closure_terms u s)"
        using app [OF i(1)] app [OF same(1)] True same(2) by (simp_all add: application_ok_def value_ok_abstract)
      have "entails (uf_value u) v den (set reason) (ap_result (app_at s j)) (ap_result (app_at s i))"
        using reason(2,3) assms(2) same(1,2) i(1) True unfolding entails_def positive_facts_def by metis
      then obtain b d where d: "closure_union (ap_result (app_at s j)) (ap_result (app_at s i)) reason c = Some (b, d)"
        "closure_state u s v den d" "refines c d" "same_class d (ap_result (app_at s j)) (ap_result (app_at s i))"
        "class_count d + (if b then 1 else 0) = class_count c"
        using closure_state_union [OF st mem] by metis
      obtain r where r: "congruence_pass u s is seen (changed \<or> b) d = Some r" "pass_result u s v den F d seen is (changed \<or> b) r"
        using Cons.IH [OF facts_joined_refines [OF assms(1) ok(2) d(3) Cons.prems(1)] d(2) seen_ok_union [OF ok(1) d(1) Cons.prems(3)] i(2)] by metis
      have unchanged: "d = c" if "\<not> b" using closure_union_roots(3) [OF ok(1) d(1) that] .
      have agree: "result_values u s c j = result_values u s c i" if "\<not> b"
        using d(4) class_of_same(2) [OF ok(1), of "ap_result (app_at s j)" "ap_result (app_at s i)"] mem ok(2) unchanged [OF that] True same(2)
        by (simp add: result_values_def key_value_abstract)
      have "pass_result u s v den F c seen (i # is) changed r"
      proof (cases r)
        case (Inr p)
        obtain changed' e where p: "p = (changed', e)" by (cases p)
        have "closure_state u s v den e \<and> refines d e \<and> class_count e \<le> class_count d \<and>
            (changed' \<longrightarrow> (changed \<or> b) \<or> class_count e < class_count d) \<and>
            (\<not> changed' \<longrightarrow> e = d \<and> \<not> (changed \<or> b) \<and> pass_agrees u s d seen is)"
          using r(2) Inr p by (simp add: pass_result_def)
        then show ?thesis
          using d(3,5) unchanged agree refines_trans [OF d(3), of e] pass_agrees_cons [of u s c seen "is" i key j, OF _ key Some]
          by (cases b) (auto simp: Inr p pass_result_def)
      qed (use r(2) in \<open>simp add: pass_result_def\<close>)
      then show ?thesis using at [OF i(1)] sig key' Some at [OF same(1)] reason(1) True d(1) r(1) by simp
    next
      case False
      obtain conflict where conflict: "lowered_result_conflict u s (ap_result (app_at s j)) (ap_result (app_at s i)) (app_range s i) reason = Some conflict"
        "case conflict of Some ls \<Rightarrow> refutes u s v den F ls | None \<Rightarrow> result_values u s c j = result_values u s c i"
        using lowered_result_ok [OF assms(1) st i(1) same(1,2) False _ reason(2,3)] Cons.prems(1) by (metis facts_joined_def)
      show ?thesis
      proof (cases conflict)
        case None
        obtain r where r: "congruence_pass u s is seen changed c = Some r" "pass_result u s v den F c seen is changed r"
          using Cons.IH [OF Cons.prems(1) st Cons.prems(3) i(2)] by metis
        have "pass_result u s v den F c seen (i # is) changed r"
          using r(2) pass_agrees_cons [of u s c seen "is" i key j, OF _ key Some] conflict(2) None by (auto simp: pass_result_def split: sum.splits prod.splits)
        then show ?thesis using at [OF i(1)] sig key' Some at [OF same(1)] reason(1) False conflict(1) None r(1) by simp
      next
        case (Some ls)
        then show ?thesis using at [OF i(1)] sig key' \<open>seen key = Some j\<close> at [OF same(1)] reason(1) False conflict
          by (simp add: pass_result_def)
      qed
    qed
  qed
qed

subsection \<open>The loop and the negative facts\<close>

definition congruent :: "uf_theory \<Rightarrow> term_store \<Rightarrow> closure \<Rightarrow> bool" where
  "congruent u s c \<longleftrightarrow>
     (\<forall>i \<in> set (uf_applications u). \<forall>j \<in> set (uf_applications u).
        key_at u s c i = key_at u s c j \<longrightarrow> result_values u s c i = result_values u s c j)"

lemma pass_agrees_congruent: "pass_agrees u s c seen (uf_applications u) \<Longrightarrow> congruent u s c"
  unfolding pass_agrees_def congruent_def by (metis option.inject)

lemma congruence_loop_ok:
  assumes "uf_ok u s" "positive_facts u s v den"
  shows "facts_joined u s c \<Longrightarrow> closure_state u s v den c \<Longrightarrow> class_count c < n \<Longrightarrow>
    \<exists>r. congruence_loop n u s c = Some r \<and>
      (case r of Inl ls \<Rightarrow> refutes u s v den F ls
       | Inr d \<Rightarrow> closure_state u s v den d \<and> facts_joined u s d \<and> congruent u s d)"
proof (induction n arbitrary: c)
  case (Suc n)
  have terms: "cl_terms c = uf_closure_terms u s" using Suc.prems(2) by (simp add: closure_state_def)
  obtain r where r: "congruence_pass u s (uf_applications u) Map.empty False c = Some r"
    "pass_result u s v den F c Map.empty (uf_applications u) False r"
    using congruence_pass_ok [OF assms Suc.prems(1,2), of Map.empty "uf_applications u" False F] by (auto simp: seen_ok_def)
  show ?case
  proof (cases r)
    case (Inl ls)
    then show ?thesis using r by (simp add: pass_result_def)
  next
    case (Inr p)
    obtain changed d where p: "p = (changed, d)" by (cases p)
    have d: "closure_state u s v den d" "refines c d" "changed \<longrightarrow> class_count d < class_count c"
      "\<not> changed \<longrightarrow> d = c \<and> pass_agrees u s c Map.empty (uf_applications u)"
      using r(2) Inr p by (auto simp: pass_result_def)
    have facts: "facts_joined u s d" by (rule facts_joined_refines [OF assms(1) terms d(2) Suc.prems(1)])
    show ?thesis
    proof (cases changed)
      case True
      then have "class_count d < n" using d(3) Suc.prems(3) by simp
      from Suc.IH [OF facts d(1) this] show ?thesis using r(1) Inr p True by simp
    next
      case False
      then show ?thesis using r(1) Inr p d facts pass_agrees_congruent by auto
    qed
  qed
qed simp

lemma refuted_equality_ok:
  assumes "uf_ok u s" "closure_state u s v den c"
  shows "set es \<subseteq> set (uf_facts u s) \<Longrightarrow>
    \<exists>r. refuted_equality u c es = Some r \<and>
      (case r of Some ls \<Rightarrow> refutes u s v den F ls
       | None \<Rightarrow> \<forall>e \<in> set es. \<not> uf_value u (te_term e) \<longrightarrow> \<not> same_class c (te_left e) (te_right e))"
proof (induction es)
  case (Cons e es)
  have ok: "closure_ok c" "justified (entails (uf_value u) v den) c" "cl_terms c = uf_closure_terms u s"
    using assms(2) by (simp_all add: closure_state_def)
  have fact: "e \<in> set (uf_facts u s)" using Cons.prems by simp
  have mem: "te_left e \<in> set (cl_terms c)" "te_right e \<in> set (cl_terms c)"
    using assms(1) fact ok(3) by (auto simp: uf_ok_def Let_def)
  note same = class_of_same [OF ok(1) mem]
  show ?case
  proof (cases "\<not> uf_value u (te_term e) \<and> same_class c (te_left e) (te_right e)")
    case True
    obtain ls where ls: "explain c (te_left e) (te_right e) = Some ls" "entails (uf_value u) v den (set ls) (te_left e) (te_right e)"
      using reasons.explain_holds [OF ok(1,2)] True by blast
    have "refutes u s v den F (conflict_lemma ls (sg_pos (te_term e)))"
      using ls(2) True fact by (intro refutes_lemma) (auto simp: entails_def uf_structure_def)
    then show ?thesis using True same ls(1) by simp
  next
    case False
    have "refuted_equality u c (e # es) = refuted_equality u c es"
      using False same by (cases "uf_value u (te_term e)") auto
    then show ?thesis using Cons False by (auto split: option.splits)
  qed
qed simp

subsection \<open>The values of the classes\<close>

definition value_key :: "term_store \<Rightarrow> closure \<Rightarrow> nat \<Rightarrow> sort \<times> nat" where
  "value_key s c t = (ts_sorts s ! tn_sort (ts_nodes s ! t), the (class_of c t))"

definition values_inv ::
  "term_store \<Rightarrow> closure \<Rightarrow> nat list \<Rightarrow> (sort \<times> nat \<rightharpoonup> nat) \<Rightarrow> (sort \<rightharpoonup> nat) \<Rightarrow> (nat \<rightharpoonup> nat) \<Rightarrow> bool"
where
  "values_inv s c visited classes next_value values \<longleftrightarrow>
     (\<forall>t \<in> set visited. has_abstract_sort s t \<longrightarrow> (\<exists>v. values t = Some v \<and> classes (value_key s c t) = Some v)) \<and>
     (\<forall>so k l v. classes (so, k) = Some v \<longrightarrow> classes (so, l) = Some v \<longrightarrow> k = l) \<and>
     (\<forall>so k v. classes (so, k) = Some v \<longrightarrow> (\<exists>n. next_value so = Some n \<and> v < n)) \<and>
     (\<forall>so n. next_value so = Some n \<longrightarrow> n \<le> length visited)"

lemma values_inv_step:
  assumes inv: "values_inv s c visited classes next_value values" and t: "t \<notin> set visited" "has_abstract_sort s t"
    and small: "length visited < u32_max" and key: "value_key s c t = (so, k0)"
  shows "classes (so, k0) = Some v \<Longrightarrow> values_inv s c (visited @ [t]) classes next_value (values(t \<mapsto> v))"
    and "classes (so, k0) = None \<Longrightarrow> v = (case next_value so of None \<Rightarrow> 0 | Some k \<Rightarrow> k) \<Longrightarrow>
      values_inv s c (visited @ [t]) (classes((so, k0) \<mapsto> v)) (next_value(so \<mapsto> min u32_max (v + 1))) (values(t \<mapsto> v))"
proof -
  show "values_inv s c (visited @ [t]) classes next_value (values(t \<mapsto> v))" if "classes (so, k0) = Some v"
    using inv t that key unfolding values_inv_def by (auto intro: le_SucI)
  assume new: "classes (so, k0) = None" and v: "v = (case next_value so of None \<Rightarrow> 0 | Some k \<Rightarrow> k)"
  have "v \<le> length visited" using inv v by (auto simp: values_inv_def split: option.splits)
  then have next_eq: "min u32_max (v + 1) = Suc v" using small by simp
  have fresh: "w < v" if w: "classes (so, k) = Some w" for k w
  proof -
    obtain n where "next_value so = Some n" "w < n" using inv w unfolding values_inv_def by blast
    then show ?thesis using v by simp
  qed
  have keys: "value_key s c x \<noteq> (so, k0)" if "x \<in> set visited" "has_abstract_sort s x" for x
    using inv that new by (auto simp: values_inv_def)
  show "values_inv s c (visited @ [t]) (classes((so, k0) \<mapsto> v)) (next_value(so \<mapsto> min u32_max (v + 1))) (values(t \<mapsto> v))"
    unfolding values_inv_def next_eq
  proof (intro conjI)
    show "\<forall>x \<in> set (visited @ [t]). has_abstract_sort s x \<longrightarrow>
        (\<exists>w. (values(t \<mapsto> v)) x = Some w \<and> (classes((so, k0) \<mapsto> v)) (value_key s c x) = Some w)"
      using inv t key keys unfolding values_inv_def by auto
    show "\<forall>so' k l w. (classes((so, k0) \<mapsto> v)) (so', k) = Some w \<longrightarrow> (classes((so, k0) \<mapsto> v)) (so', l) = Some w \<longrightarrow> k = l"
      using inv fresh unfolding values_inv_def by (auto split: if_splits)
    show "\<forall>so' k w. (classes((so, k0) \<mapsto> v)) (so', k) = Some w \<longrightarrow> (\<exists>n. (next_value(so \<mapsto> Suc v)) so' = Some n \<and> w < n)"
      using inv fresh unfolding values_inv_def by (auto intro: less_SucI split: if_splits)
    show "\<forall>so' n. (next_value(so \<mapsto> Suc v)) so' = Some n \<longrightarrow> n \<le> length (visited @ [t])"
      using inv \<open>v \<le> length visited\<close> unfolding values_inv_def by (auto intro: le_SucI)
  qed
qed

lemma closure_values_ok:
  assumes "closure_ok c" "length (cl_terms c) \<le> u32_max" "\<forall>t \<in> set (cl_terms c). t < length (ts_nodes s)"
  shows "cl_terms c = visited @ ts \<Longrightarrow> values_inv s c visited classes next_value given \<Longrightarrow>
    \<exists>m classes' next'. closure_values s c (length visited) ts classes next_value given = Some m \<and>
      values_inv s c (cl_terms c) classes' next' m"
proof (induction ts arbitrary: visited classes next_value given)
  case (Cons t ts)
  have t: "t \<in> set (cl_terms c)" "t \<notin> set visited" "cl_terms c = (visited @ [t]) @ ts" "length visited < u32_max"
    using Cons.prems(1) assms(1,2) by (auto simp: closure_ok_def)
  let ?so = "ts_sorts s ! tn_sort (ts_nodes s ! t)" and ?root = "find_root c (length visited)"
  have so: "sort_of t s = Inr ?so" using assms(3) t(1) by (simp add: sort_of_def)
  have "cl_indices c t = Some (length visited)" using closure_index [OF assms(1)] Cons.prems(1) by simp
  then have key: "value_key s c t = (?so, ?root)" by (simp add: value_key_def class_of_def)
  note IH = Cons.IH [OF t(3), unfolded length_append_singleton]
  show ?case
  proof (cases "abstract_sort ?so")
    case False
    then have "values_inv s c (visited @ [t]) classes next_value given"
      using Cons.prems(2) so by (auto simp: values_inv_def has_abstract_sort_def intro: le_SucI)
    from IH [OF this] show ?thesis using so False by simp
  next
    case True
    then have has: "has_abstract_sort s t" using so by (simp add: has_abstract_sort_def)
    note step = values_inv_step [OF Cons.prems(2) t(2) has t(4) key]
    show ?thesis
    proof (cases "classes (?so, ?root)")
      case None
      define v where v: "v = (case next_value ?so of None \<Rightarrow> 0 | Some k \<Rightarrow> k)"
      have "closure_values s c (length visited) (t # ts) classes next_value given =
          closure_values s c (Suc (length visited)) ts (classes((?so, ?root) \<mapsto> v)) (next_value(?so \<mapsto> min u32_max (v + 1))) (given(t \<mapsto> v))"
        using so True None by (simp add: Let_def v)
      moreover have "values_inv s c (visited @ [t]) (classes((?so, ?root) \<mapsto> v)) (next_value(?so \<mapsto> min u32_max (v + 1))) (given(t \<mapsto> v))"
        by (rule step(2) [OF None v])
      ultimately show ?thesis using IH by metis
    next
      case (Some v)
      have "closure_values s c (length visited) (t # ts) classes next_value given =
          closure_values s c (Suc (length visited)) ts classes next_value (given(t \<mapsto> v))"
        using so True Some by (simp add: Let_def)
      moreover have "values_inv s c (visited @ [t]) classes next_value (given(t \<mapsto> v))"
        by (rule step(1) [OF Some])
      ultimately show ?thesis using IH by metis
    qed
  qed
qed auto

definition values_follow_classes :: "term_store \<Rightarrow> closure \<Rightarrow> uf_model \<Rightarrow> bool" where
  "values_follow_classes s c m \<longleftrightarrow>
     (\<forall>l \<in> set (cl_terms c). has_abstract_sort s l \<longrightarrow> um_values m l \<noteq> None) \<and>
     (\<forall>l \<in> set (cl_terms c). \<forall>r \<in> set (cl_terms c). has_abstract_sort s l \<longrightarrow> sort_of l s = sort_of r s \<longrightarrow>
        (um_values m l = um_values m r \<longleftrightarrow> class_of c l = class_of c r))"

lemma closure_model_ok:
  assumes ok: "closure_ok c" and small: "length (cl_terms c) \<le> u32_max" and nodes: "\<forall>t \<in> set (cl_terms c). t < length (ts_nodes s)"
  shows "\<exists>m. closure_model c s = Some m \<and> values_follow_classes s c m"
proof -
  have "values_inv s c [] Map.empty Map.empty Map.empty" by (simp add: values_inv_def)
  then obtain m classes next_value where m: "closure_values s c 0 (cl_terms c) Map.empty Map.empty Map.empty = Some m"
    and inv: "values_inv s c (cl_terms c) classes next_value m"
    using closure_values_ok [OF assms, of "[]" "cl_terms c" Map.empty Map.empty Map.empty] by auto
  have val: "\<exists>v. m t = Some v \<and> classes (value_key s c t) = Some v" if "t \<in> set (cl_terms c)" "has_abstract_sort s t" for t
    using inv that unfolding values_inv_def by blast
  have "m l = m r \<longleftrightarrow> class_of c l = class_of c r"
    if l: "l \<in> set (cl_terms c)" "has_abstract_sort s l" and r: "r \<in> set (cl_terms c)" and same: "sort_of l s = sort_of r s" for l r
  proof -
    have has: "has_abstract_sort s r" using l(2) same by (simp add: has_abstract_sort_def)
    obtain v w where v: "m l = Some v" "classes (value_key s c l) = Some v" and w: "m r = Some w" "classes (value_key s c r) = Some w"
      using val [OF l] val [OF r has] by blast
    obtain so k k' where k: "value_key s c l = (so, k)" "value_key s c r = (so, k')" "class_of c l = Some k" "class_of c r = Some k'"
      using same nodes l(1) r class_some [OF ok l(1)] class_some [OF ok r] by (auto simp: value_key_def sort_of_def)
    have "k = k'" if "v = w" using inv v(2) w(2) that unfolding k values_inv_def by blast
    then show ?thesis using v w k by auto
  qed
  then have "values_follow_classes s c \<lparr>um_values = m, um_relevant = {}\<rparr>"
    unfolding values_follow_classes_def using val by (simp only: uf_model.simps) blast
  then show ?thesis using m by (simp add: closure_model_def)
qed

subsection \<open>The check\<close>

text \<open>A closure that answers every fact of the check; what a consistent answer rests on.\<close>

definition closure_answers :: "uf_theory \<Rightarrow> term_store \<Rightarrow> closure \<Rightarrow> bool" where
  "closure_answers u s c \<longleftrightarrow>
     closure_ok c \<and> cl_terms c = uf_closure_terms u s \<and> facts_joined u s c \<and> congruent u s c \<and>
     (\<forall>a \<in> set (ts_array_axioms s). uf_value u a) \<and>
     (\<forall>e \<in> set (uf_facts u s). \<not> uf_value u (te_term e) \<longrightarrow> \<not> same_class c (te_left e) (te_right e))"

definition class_value :: "closure \<Rightarrow> nat \<Rightarrow> nat" where
  "class_value c t = the (class_of c t)"

lemma closure_answers_structure:
  assumes uf: "uf_ok u s" and ans: "closure_answers u s c"
  shows "\<exists>F. uf_structure u s (uf_value u) (class_value c) F"
proof -
  have ok: "closure_ok c" and terms: "cl_terms c = uf_closure_terms u s" using ans by (simp_all add: closure_answers_def)
  have app: "application_ok (set (cl_terms c)) s i" if "i \<in> set (uf_applications u)" for i
    using uf that terms by (simp add: uf_ok_def Let_def)
  have same: "same_class c l r \<longleftrightarrow> class_value c l = class_value c r" if "l \<in> set (cl_terms c)" "r \<in> set (cl_terms c)" for l r
    using class_of_same(2) [OF ok that] class_some [OF ok that(1)] class_some [OF ok that(2)] by (auto simp: class_value_def)
  note datum = key_value_datum [OF _ ok, of s _ _ u, folded class_value_def]
  have key: "key_at u s c i = Some (ap_function (app_at s i), argument_data s (uf_value u) (class_value c) i)"
    if "i \<in> set (uf_applications u)" for i
    using datum application_value_ok [OF app [OF that]] by (auto simp: key_at_iff argument_data_def)
  have result: "result_values u s c i = Some (result_datum s (uf_value u) (class_value c) i)" if "i \<in> set (uf_applications u)" for i
    using datum app [OF that] by (simp add: result_values_def result_datum_def application_ok_def)
  define pick where "pick f ds = (SOME i. i \<in> set (uf_applications u) \<and> ap_function (app_at s i) = f
      \<and> argument_data s (uf_value u) (class_value c) i = ds)" for f ds
  define F where "F f ds = result_datum s (uf_value u) (class_value c) (pick f ds)" for f ds
  have "result_datum s (uf_value u) (class_value c) i = F (ap_function (app_at s i)) (argument_data s (uf_value u) (class_value c) i)"
    if i: "i \<in> set (uf_applications u)" for i
  proof -
    let ?P = "\<lambda>k. k \<in> set (uf_applications u) \<and> ap_function (app_at s k) = ap_function (app_at s i) \<and>
        argument_data s (uf_value u) (class_value c) k = argument_data s (uf_value u) (class_value c) i"
    define k where "k = pick (ap_function (app_at s i)) (argument_data s (uf_value u) (class_value c) i)"
    have k: "?P k" unfolding k_def pick_def by (rule someI [of ?P i]) (use i in simp)
    then have "key_at u s c i = key_at u s c k" using key i by simp
    moreover have "congruent u s c" using ans by (simp add: closure_answers_def)
    ultimately have "result_values u s c i = result_values u s c k" using i k unfolding congruent_def by blast
    then have "result_datum s (uf_value u) (class_value c) i = result_datum s (uf_value u) (class_value c) k"
      using result [OF i] result [of k] k by simp
    then show ?thesis unfolding F_def k_def .
  qed
  moreover have "uf_value u (te_term e) \<longleftrightarrow> class_value c (te_left e) = class_value c (te_right e)" if e: "e \<in> set (uf_facts u s)" for e
  proof -
    have "te_left e \<in> set (cl_terms c)" "te_right e \<in> set (cl_terms c)" using uf e terms by (auto simp: uf_ok_def Let_def)
    then show ?thesis using same ans e by (auto simp: closure_answers_def facts_joined_def)
  qed
  moreover have "class_value c (ci_result it) = class_value c (chosen (uf_value u) it)" if it: "it \<in> set (uf_choices u s)" for it
  proof -
    have "ci_result it \<in> set (cl_terms c)" "chosen (uf_value u) it \<in> set (cl_terms c)"
      using uf it terms by (auto simp: uf_ok_def Let_def chosen_def)
    then show ?thesis using same ans it by (auto simp: closure_answers_def facts_joined_def)
  qed
  ultimately have "uf_structure u s (uf_value u) (class_value c) F"
    using ans by (simp add: uf_structure_def closure_answers_def)
  then show ?thesis by blast
qed

definition check_promise ::
  "uf_theory \<Rightarrow> term_store \<Rightarrow> (nat \<Rightarrow> bool) \<Rightarrow> (nat \<Rightarrow> 'a) \<Rightarrow> (nat \<Rightarrow> 'a argument_value list \<Rightarrow> 'a argument_value)
   \<Rightarrow> uf_model theory_check \<Rightarrow> bool"
where
  "check_promise u s v den F r =
     (case r of
        Conflict ls \<Rightarrow> refutes u s v den F ls
      | Consistent m \<Rightarrow> \<exists>c. closure_answers u s c \<and> values_follow_classes s c m \<and>
          um_relevant m = (\<lambda>i. ap_result (app_at s i)) ` set (uf_applications u)
      | Undecided _ \<Rightarrow> False)"

lemma distinct_closure_terms: "distinct (uf_closure_terms u s)"
proof -
  have "distinct (remdups_adj xs)" if "sorted xs" for xs :: "nat list"
    using that by (induction xs rule: remdups_adj.induct) (auto simp: order_antisym)
  then show ?thesis by (simp add: uf_closure_terms_def)
qed

lemma initial_closure:
  assumes "uf_ok u s"
  shows "closure_state u s v den (closure_new (uf_closure_terms u s))"
proof -
  note distinct_closure_terms [of u s]
  moreover have "length (uf_closure_terms u s) \<le> Suc u32_max" using assms by (simp add: uf_ok_def Let_def)
  ultimately show ?thesis using closure_new_ok reasons.justified_new by (simp add: closure_state_def)
qed

lemma facts_asserted:
  assumes "uf_ok u s" "positive_facts u s v den"
  shows "\<exists>c1 c2 c3. fold_option (assert_equality u) (map ((!) (ts_theory_equalities s)) (uf_equalities u)) (closure_new (uf_closure_terms u s)) = Some c1 \<and>
    fold_option (assert_equality u) (uf_shared_equalities u) c1 = Some c2 \<and>
    fold_option (assert_ite u) (uf_choices u s) c2 = Some c3 \<and> closure_state u s v den c3 \<and> facts_joined u s c3"
proof -
  let ?joined = "\<lambda>e d. te_left e \<in> set (cl_terms d) \<and> te_right e \<in> set (cl_terms d) \<and>
     (uf_value u (te_term e) \<longrightarrow> same_class d (te_left e) (te_right e))"
  let ?same = "\<lambda>it d. ci_result it \<in> set (cl_terms d) \<and> chosen (uf_value u) it \<in> set (cl_terms d) \<and>
     same_class d (ci_result it) (chosen (uf_value u) it)"
  have stable: "?joined e d \<Longrightarrow> refines d d' \<Longrightarrow> ?joined e d'" for e d d' by (simp add: refines_def)
  have stable_ite: "?same it d \<Longrightarrow> refines d d' \<Longrightarrow> ?same it d'" for it d d' by (simp add: refines_def)
  have eqs: "\<exists>d. fold_option (assert_equality u) es c = Some d \<and> closure_state u s v den d \<and> refines c d \<and> (\<forall>e \<in> set es. ?joined e d)"
    if "set es \<subseteq> set (uf_facts u s)" "closure_state u s v den c" for es c
    by (rule fold_option_rule [where I = "closure_state u s v den" and le = refines and Q = ?joined])
       (use that assert_equality_state [OF assms] refines_refl refines_trans stable in blast)+
  have "\<exists>d. fold_option (assert_ite u) its c = Some d \<and> closure_state u s v den d \<and> refines c d \<and> (\<forall>it \<in> set its. ?same it d)"
    if "set its \<subseteq> set (uf_choices u s)" "closure_state u s v den c" for its c
    by (rule fold_option_rule [where I = "closure_state u s v den" and le = refines and Q = ?same])
       (use that assert_ite_state [OF assms] refines_refl refines_trans stable_ite in blast)+
  note ites = this
  obtain c1 where c1: "fold_option (assert_equality u) (map ((!) (ts_theory_equalities s)) (uf_equalities u)) (closure_new (uf_closure_terms u s)) = Some c1"
    "closure_state u s v den c1" "\<forall>e \<in> set (map ((!) (ts_theory_equalities s)) (uf_equalities u)). ?joined e c1"
    using eqs [OF _ initial_closure [OF assms(1)], of "map ((!) (ts_theory_equalities s)) (uf_equalities u)"]
    by (simp only: uf_facts_def set_append Un_upper1) blast
  obtain c2 where c2: "fold_option (assert_equality u) (uf_shared_equalities u) c1 = Some c2" "closure_state u s v den c2" "refines c1 c2"
    "\<forall>e \<in> set (uf_shared_equalities u). ?joined e c2"
    using eqs [OF _ c1(2), of "uf_shared_equalities u"] by (simp only: uf_facts_def set_append Un_upper2) blast
  obtain c3 where c3: "fold_option (assert_ite u) (uf_choices u s) c2 = Some c3" "closure_state u s v den c3" "refines c2 c3"
    "\<forall>it \<in> set (uf_choices u s). ?same it c3"
    using ites [OF order.refl c2(2)] by blast
  have joined1: "?joined e c3" if "e \<in> set (map ((!) (ts_theory_equalities s)) (uf_equalities u))" for e
    using stable [OF bspec [OF c1(3) that] refines_trans [OF c2(3) c3(3)]] .
  have joined2: "?joined e c3" if "e \<in> set (uf_shared_equalities u)" for e
    using stable [OF bspec [OF c2(4) that] c3(3)] .
  have "facts_joined u s c3" unfolding facts_joined_def uf_facts_def set_append using joined1 joined2 c3(4) by blast
  then show ?thesis using c1(1) c2(1) c3 by blast
qed

lemma class_count_le: "closure_ok c \<Longrightarrow> class_count c \<le> length (cl_terms c)"
  unfolding class_count_def closure_ok_def by (metis (no_types, lifting) card_Collect_less_nat card_mono finite_Collect_less_nat mem_Collect_eq subsetI)

lemma uf_final_check_promise:
  assumes uf: "uf_ok u s" and pos: "positive_facts u s v den"
  shows "\<exists>r. uf_final_check u s = Some r \<and> check_promise u s v den F r"
proof (cases "List.find (\<lambda>a. \<not> uf_value u a) (ts_array_axioms s)")
  case (Some a)
  then have "a \<in> set (ts_array_axioms s)" "\<not> uf_value u a" by (auto simp: find_Some_iff in_set_conv_nth)
  then have "refutes u s v den F [sg_pos a]" by (simp add: refutes_def uf_structure_def)
  then show ?thesis using Some by (simp add: uf_final_check_def check_promise_def)
next
  case None
  then have axioms: "\<forall>a \<in> set (ts_array_axioms s). uf_value u a" by (auto simp: find_None_iff)
  have eqs: "those (map (item_at (ts_theory_equalities s)) (uf_equalities u)) = Some (map ((!) (ts_theory_equalities s)) (uf_equalities u))"
    using uf by (intro those_item_at) (simp add: uf_ok_def Let_def)
  have ites: "those (map (item_at (ts_uf_ites s)) (uf_ites u)) = Some (uf_choices u s)"
    unfolding uf_choices_def using uf by (intro those_item_at) (simp add: uf_ok_def Let_def)
  have apps: "those (map (item_at (ts_applications s)) (uf_applications u)) = Some (map (app_at s) (uf_applications u))"
    using uf by (intro those_item_at) (simp add: uf_ok_def Let_def application_ok_def)
  obtain c1 c2 c3 where asserted: "fold_option (assert_equality u) (map ((!) (ts_theory_equalities s)) (uf_equalities u)) (closure_new (uf_closure_terms u s)) = Some c1"
    "fold_option (assert_equality u) (uf_shared_equalities u) c1 = Some c2"
    "fold_option (assert_ite u) (uf_choices u s) c2 = Some c3" and st: "closure_state u s v den c3" and facts: "facts_joined u s c3"
    using facts_asserted [OF uf pos] by blast
  have "class_count c3 < Suc (length (cl_terms c3))" using class_count_le [of c3] st by (simp add: closure_state_def)
  then obtain r where loop: "congruence_loop (Suc (length (cl_terms c3))) u s c3 = Some r"
    "case r of Inl ls \<Rightarrow> refutes u s v den F ls
       | Inr d \<Rightarrow> closure_state u s v den d \<and> facts_joined u s d \<and> congruent u s d"
    using congruence_loop_ok [OF uf pos facts st, of _ F] by metis
  note run = None eqs ites apps asserted loop(1)
  show ?thesis
  proof (cases r)
    case (Inl ls)
    then show ?thesis using run loop(2) by (simp add: uf_final_check_def check_promise_def del: congruence_loop.simps)
  next
    case (Inr d)
    then have d: "closure_state u s v den d" "facts_joined u s d" "congruent u s d" using loop(2) by simp_all
    obtain x where x: "refuted_equality u d (map ((!) (ts_theory_equalities s)) (uf_equalities u)) = Some x"
      "case x of Some ls \<Rightarrow> refutes u s v den F ls
       | None \<Rightarrow> \<forall>e \<in> set (map ((!) (ts_theory_equalities s)) (uf_equalities u)). \<not> uf_value u (te_term e) \<longrightarrow> \<not> same_class d (te_left e) (te_right e)"
      using refuted_equality_ok [OF uf d(1), of "map ((!) (ts_theory_equalities s)) (uf_equalities u)" F]
      unfolding uf_facts_def set_append by blast
    obtain y where y: "refuted_equality u d (uf_shared_equalities u) = Some y"
      "case y of Some ls \<Rightarrow> refutes u s v den F ls
       | None \<Rightarrow> \<forall>e \<in> set (uf_shared_equalities u). \<not> uf_value u (te_term e) \<longrightarrow> \<not> same_class d (te_left e) (te_right e)"
      using refuted_equality_ok [OF uf d(1), of "uf_shared_equalities u" F] unfolding uf_facts_def set_append by blast
    have ok: "closure_ok d" "cl_terms d = uf_closure_terms u s" using d(1) by (simp_all add: closure_state_def)
    obtain m where m: "closure_model d s = Some m" "values_follow_classes s d m"
      using closure_model_ok [OF ok(1), of s] uf ok(2) by (auto simp: uf_ok_def Let_def)
    have m': "values_follow_classes s d (m\<lparr>um_relevant := R\<rparr>)" for R using m(2) by (simp add: values_follow_classes_def)
    have "um_relevant m = {}" using m(1) by (auto simp: closure_model_def)
    note answer = run Inr x y m m' this ok d axioms
    show ?thesis
    proof (cases x)
      case (Some ls)
      then show ?thesis using answer by (simp add: uf_final_check_def check_promise_def del: congruence_loop.simps)
    next
      case x_None: None
      show ?thesis
      proof (cases y)
        case (Some ls)
        then show ?thesis using answer x_None by (simp add: uf_final_check_def check_promise_def del: congruence_loop.simps)
      next
        case y_None: None
        have "closure_answers u s d"
          using x(2) y(2) ok d axioms unfolding x_None y_None closure_answers_def uf_facts_def by auto
        then have "\<exists>c. closure_answers u s c \<and> values_follow_classes s c (m\<lparr>um_relevant := R\<rparr>)" for R using m' by blast
        then show ?thesis using answer x_None y_None
          by (simp add: uf_final_check_def check_promise_def image_image del: congruence_loop.simps)
      qed
    qed
  qed
qed

subsection \<open>The trail\<close>

datatype uf_step = Push | Notify signed_term

fun uf_run_step :: "uf_step \<Rightarrow> uf_theory \<Rightarrow> uf_theory" where
  "uf_run_step Push u = uf_push_level u"
| "uf_run_step (Notify l) u = uf_notify_assignment l u"

lemma uf_steps_extend:
  "\<exists>entries levels m. fold uf_run_step steps u =
       u\<lparr>uf_trail := uf_trail u @ entries, uf_levels := uf_levels u @ levels, uf_assignments := m\<rparr> \<and>
     undo_trail (rev entries) m = uf_assignments u"
proof (induction steps rule: rev_induct)
  case Nil
  show ?case by (intro exI [of _ "[]"] exI [of _ "uf_assignments u"]) simp
next
  case (snoc x steps)
  then obtain entries levels m where IH: "fold uf_run_step steps u =
      u\<lparr>uf_trail := uf_trail u @ entries, uf_levels := uf_levels u @ levels, uf_assignments := m\<rparr>"
    "undo_trail (rev entries) m = uf_assignments u" by blast
  show ?case
  proof (cases x)
    case Push
    then show ?thesis using IH
      by (intro exI [of _ entries] exI [of _ "levels @ [length (uf_trail u) + length entries]"] exI [of _ m]) (simp add: uf_push_level_def)
  next
    case (Notify l)
    then show ?thesis using IH
      by (intro exI [of _ "entries @ [(sg_term l, m (sg_term l))]"] exI [of _ levels] exI [of _ "m(sg_term l \<mapsto> sg_positive l)"])
         (cases u; simp add: uf_notify_assignment_def del: fun_upd_apply)
  qed
qed

subsection \<open>Properties\<close>

text \<open>
  The check of the tests: two equalities between three constants, and the applications of one
  function to the first and the last of them.
\<close>

definition uf_example_store :: term_store where
  "uf_example_store = snd (bind_op fresh_uninterpreted_sort (\<lambda>k. let so = SUninterpreted k in
     bind_op (fresh_term so) (\<lambda>a. bind_op (fresh_term so) (\<lambda>b. bind_op (fresh_term so) (\<lambda>c.
     bind_op (declare_function [so] so) (\<lambda>f.
     bind_op (apply_function f [a]) (\<lambda>fa. bind_op (apply_function f [c]) (\<lambda>fc.
     bind_op (equivalent 2 a b) (\<lambda>ab. bind_op (equivalent 2 b c) (\<lambda>bc.
     bind_op (equivalent 2 fa fc) (\<lambda>d. ret (ab, bc, d))))))))))) ts_new)"

definition uf_example :: "bool \<Rightarrow> uf_theory" where
  "uf_example b =
     \<lparr>uf_required = [7, 8, 9], uf_shared_terms = [], uf_shared_equalities = [], uf_shared_equality_terms = Map.empty,
      uf_applications = [0, 1], uf_equalities = [0, 1, 2], uf_ites = [],
      uf_assignments = [7 \<mapsto> True, 8 \<mapsto> True, 9 \<mapsto> b], uf_levels = [], uf_trail = []\<rparr>"

lemma uf_example_ok: "uf_ok (uf_example False) uf_example_store" "uf_ok (uf_example True) uf_example_store"
  by code_simp+

lemma uf_example_conflict:
  "uf_final_check (uf_example False) uf_example_store =
     Some (Conflict [sg_negate (sg_pos 8), sg_negate (sg_pos 7), sg_pos 9])"
proof -
  have "case uf_final_check (uf_example False) uf_example_store of
      Some (Conflict ls) \<Rightarrow> ls = [sg_negate (sg_pos 8), sg_negate (sg_pos 7), sg_pos 9] | _ \<Rightarrow> False" by code_simp
  then show ?thesis by (auto split: option.splits theory_check.splits)
qed

text \<open>
  C11: The check decides the theory of equality with uninterpreted functions. On every well-formed
  check it ends without a panic, never without an answer; and it answers \<open>Consistent\<close> exactly when
  some structure makes the equalities true that are assigned true, the others false, every
  conditional equal to its chosen branch and every function a function.
\<close>

theorem uf_check_decides:
  assumes "uf_ok u s"
  shows "\<exists>r. uf_final_check u s = Some r \<and> (\<forall>x. r \<noteq> Undecided x) \<and>
    ((\<exists>m. r = Consistent m) \<longleftrightarrow> (\<exists>(den :: nat \<Rightarrow> nat) F. uf_structure u s (uf_value u) den F))"
proof -
  obtain r where r: "uf_final_check u s = Some r"
    using uf_final_check_promise [OF assms trivial_positive] by blast
  show ?thesis
  proof (cases r)
    case (Consistent m)
    then have "\<exists>c. closure_answers u s c"
      using uf_final_check_promise [OF assms trivial_positive, of _ undefined] r by (auto simp: check_promise_def)
    then obtain F c where "uf_structure u s (uf_value u) (class_value c) F"
      using closure_answers_structure [OF assms] by blast
    then show ?thesis using r Consistent by blast
  next
    case (Conflict ls)
    have "\<not> uf_structure u s (uf_value u) den F" for den :: "nat \<Rightarrow> nat" and F
      using uf_final_check_promise [OF assms structure_positive, of "uf_value u" den F F] r Conflict
      by (auto simp: check_promise_def refutes_def)
    then show ?thesis using r Conflict by simp
  next
    case (Undecided x)
    then show ?thesis using uf_final_check_promise [OF assms trivial_positive, of _ undefined] r by (auto simp: check_promise_def)
  qed
qed

lemma uf_check_decides_witness:
  "\<exists>r. uf_final_check (uf_example False) uf_example_store = Some r \<and> (\<forall>x. r \<noteq> Undecided x) \<and>
    ((\<exists>m. r = Consistent m) \<longleftrightarrow>
     (\<exists>(den :: nat \<Rightarrow> nat) F. uf_structure (uf_example False) uf_example_store (uf_value (uf_example False)) den F))"
  by (rule uf_check_decides) (rule uf_example_ok)

text \<open>
  C12: A conflict of the check is a clause of the theory, true in every structure whatever truth
  values it gives, and every literal of it is false under the assignment, so that learning it
  excludes the assignment and nothing else.
\<close>

theorem uf_conflict_valid:
  assumes "uf_ok u s" "uf_final_check u s = Some (Conflict ls)"
  shows "(\<forall>x \<in> set ls. \<not> lit_holds (uf_value u) x) \<and>
    (\<forall>v (den :: nat \<Rightarrow> 'a) F. uf_structure u s v den F \<longrightarrow> (\<exists>x \<in> set ls. lit_holds v x))"
proof (intro conjI allI impI)
  have "refutes u s v (\<lambda>_. ()) F ls" for v F
    using uf_final_check_promise [OF assms(1) trivial_positive, of v F] assms(2) by (simp add: check_promise_def)
  then show "\<forall>x \<in> set ls. \<not> lit_holds (uf_value u) x" by (simp add: refutes_def)
  fix v F and den :: "nat \<Rightarrow> 'a"
  assume str: "uf_structure u s v den F"
  then show "\<exists>x \<in> set ls. lit_holds v x"
    using uf_final_check_promise [OF assms(1) structure_positive [OF str], of F] assms(2)
    by (simp add: check_promise_def refutes_def)
qed

lemma uf_conflict_valid_witness:
  "\<exists>x \<in> set [sg_negate (sg_pos 8), sg_negate (sg_pos 7), sg_pos 9]. lit_holds (\<lambda>t. t \<noteq> 7) x"
proof -
  have "uf_structure (uf_example False) uf_example_store (\<lambda>t. t \<noteq> 7) (\<lambda>t. if t = 3 \<or> t = 4 then 1 else (0 :: nat)) (\<lambda>_ _. Abstract 0)"
    by code_simp
  then show ?thesis using uf_conflict_valid [OF uf_example_ok(1) uf_example_conflict] by blast
qed

text \<open>
  C13: A consistent answer is a model. There is a structure with the assigned truth values whose
  elements the reported values name: two terms of one uninterpreted or array sort get the same
  number exactly when they are equal in the structure.
\<close>

theorem uf_model_separates:
  assumes "uf_ok u s" "uf_final_check u s = Some (Consistent m)"
  shows "\<exists>(den :: nat \<Rightarrow> nat) F. uf_structure u s (uf_value u) den F \<and>
    (\<forall>l \<in> set (uf_closure_terms u s). \<forall>r \<in> set (uf_closure_terms u s).
       has_abstract_sort s l \<longrightarrow> sort_of l s = sort_of r s \<longrightarrow>
       um_values m l \<noteq> None \<and> (um_values m l = um_values m r \<longleftrightarrow> den l = den r))"
proof -
  obtain c where c: "closure_answers u s c" "values_follow_classes s c m"
    using uf_final_check_promise [OF assms(1) trivial_positive, of _ undefined] assms(2) by (auto simp: check_promise_def)
  have ok: "closure_ok c" "cl_terms c = uf_closure_terms u s" using c(1) by (simp_all add: closure_answers_def)
  have "class_of c l = class_of c r \<longleftrightarrow> class_value c l = class_value c r"
    if "l \<in> set (uf_closure_terms u s)" "r \<in> set (uf_closure_terms u s)" for l r
    using class_some [OF ok(1), of l] class_some [OF ok(1), of r] that ok(2) by (auto simp: class_value_def)
  then show ?thesis
    using closure_answers_structure [OF assms(1) c(1)] c(2) ok(2) unfolding values_follow_classes_def by metis
qed

lemma uf_model_separates_witness:
  "\<exists>m (den :: nat \<Rightarrow> nat) F. uf_final_check (uf_example True) uf_example_store = Some (Consistent m) \<and>
    uf_structure (uf_example True) uf_example_store (uf_value (uf_example True)) den F"
proof -
  have "case uf_final_check (uf_example True) uf_example_store of Some (Consistent _) \<Rightarrow> True | _ \<Rightarrow> False" by code_simp
  then obtain m where m: "uf_final_check (uf_example True) uf_example_store = Some (Consistent m)"
    by (auto split: option.splits theory_check.splits)
  show ?thesis using uf_model_separates [OF uf_example_ok(2) m] m by blast
qed

text \<open>
  Taking back a level undoes everything notified since the level was pushed, whatever levels
  were pushed in between; taking back all levels of a check leaves the empty assignment.
\<close>

lemma uf_backtrack_restores:
  "uf_backtrack (Suc (length (uf_levels u))) (fold uf_run_step steps (uf_push_level u)) = uf_push_level u \<and>
   uf_backtrack 0 (fold uf_run_step steps (uf_begin_check u)) = uf_begin_check u"
proof -
  obtain es ls m where "fold uf_run_step steps (uf_push_level u) =
      (uf_push_level u)\<lparr>uf_trail := uf_trail u @ es, uf_levels := (uf_levels u @ [length (uf_trail u)]) @ ls, uf_assignments := m\<rparr>"
    "undo_trail (rev es) m = uf_assignments u"
    using uf_steps_extend [of steps "uf_push_level u"] by (auto simp: uf_push_level_def)
  moreover obtain fs ks n where "fold uf_run_step steps (uf_begin_check u) =
      (uf_begin_check u)\<lparr>uf_trail := fs, uf_levels := ks, uf_assignments := n\<rparr>" "undo_trail (rev fs) n = Map.empty"
    using uf_steps_extend [of steps "uf_begin_check u"] by (auto simp: uf_begin_check_def)
  ultimately show ?thesis by (simp add: uf_backtrack_def uf_push_level_def uf_begin_check_def)
qed

end
