(* ===== verification/Smt_Prepare.thy ===== *)
theory Smt_Prepare
  imports Smt_Uf_Decision "HOL-Library.Product_Lexorder"
begin

section \<open>Preparing a check\<close>

text \<open>
  \<open>UfTheory::prepare\<close> of \<open>src/smt/uf.rs\<close> with \<open>compute_uf_relevance\<close>, and the parts of
  \<open>src/smt/term.rs\<close> it calls: \<open>reachable_boolean_terms\<close> and \<open>prepare_arrays\<close>. It collects the terms
  that the query depends on, makes an equality for every pair of arithmetic arguments or results
  that two applications of one function may have to agree on, and records the Boolean terms whose
  values the check will read.

  The sets of the code are sets here; where a loop walks a hash set, it only adds to other sets,
  so the order does not matter to the result. The groups that \<open>prepare_arrays\<close> takes from a hash
  map are walked in an order that the standard library leaves open: \<open>order\<close> is a parameter. The
  loops carry fuel; \<open>relevance_ends\<close> shows that the search for the relevant terms needs no more
  than it is given. Where the code returns an error, the fields it has already set are left out: an
  error of \<open>prepare\<close> ends the query. The lemmas end with \<open>registered_check_ok\<close>: on a store with typed applications,
  what \<open>prepare\<close> registers is a well-formed check, one that \<open>final_check\<close> decides.
\<close>

subsection \<open>Reachable Boolean terms\<close>

fun boolean_parts :: "term_kind \<Rightarrow> nat list option" where
  "boolean_parts (KNot t) = Some [t]"
| "boolean_parts (KAnd ts) = Some ts"
| "boolean_parts (KOr ts) = Some ts"
| "boolean_parts (KXor l r) = Some [l, r]"
| "boolean_parts (KIff l r) = Some [l, r]"
| "boolean_parts (KIte c t e) = Some [c, t, e]"
| "boolean_parts (KBool _) = Some []"
| "boolean_parts (KAtom _) = Some []"
| "boolean_parts (KTheoryEquality _ _ _) = Some []"
| "boolean_parts (KArithmeticPredicate _ _ _) = Some []"
| "boolean_parts _ = None"

text \<open>The pending terms are a stack, its top first.\<close>

function reach_from :: "term_store \<Rightarrow> nat list \<Rightarrow> nat set \<Rightarrow> term_failure + nat set" where
  "reach_from s [] reached = Inr reached"
| "reach_from s (t # pending) reached =
     (case require_bool t s of
        Inl e \<Rightarrow> Inl e
      | Inr _ \<Rightarrow>
          if t \<in> reached then reach_from s pending reached
          else case boolean_parts (node_kind s t) of
            None \<Rightarrow> Inl Panicked
          | Some ts \<Rightarrow> reach_from s (rev ts @ pending) (insert t reached))"
  by pat_completeness auto

termination
proof (relation "(\<lambda>(s, pending, reached). card ({..<length (ts_nodes s)} - reached)) <*mlex*> measure (\<lambda>(s, pending, reached). length pending)")
  show "wf ((\<lambda>(s, pending, reached). card ({..<length (ts_nodes s)} - reached)) <*mlex*> measure (\<lambda>(s, pending, reached). length pending))"
    by (intro wf_mlex wf_measure)
next
  fix s :: term_store and t pending reached
  show "((s, pending, reached), s, t # pending, reached)
    \<in> (\<lambda>(s, pending, reached). card ({..<length (ts_nodes s)} - reached)) <*mlex*> measure (\<lambda>(s, pending, reached). length pending)"
    by (intro mlex_leq) auto
next
  fix s :: term_store and t pending and reached :: "nat set" and x :: unit and ts :: "nat list"
  assume "require_bool t s = Inr x" "t \<notin> reached"
  then have "t \<in> {..<length (ts_nodes s)} - reached"
    by (auto simp: require_bool_def sort_id_of_def bindE_Inr_iff split: if_splits)
  then have "card ({..<length (ts_nodes s)} - insert t reached) < card ({..<length (ts_nodes s)} - reached)"
    by (intro psubset_card_mono) auto
  then show "((s, rev ts @ pending, insert t reached), s, t # pending, reached)
    \<in> (\<lambda>(s, pending, reached). card ({..<length (ts_nodes s)} - reached)) <*mlex*> measure (\<lambda>(s, pending, reached). length pending)"
    by (intro mlex_less) simp
qed

definition reachable_boolean_terms :: "nat list \<Rightarrow> term_store \<Rightarrow> term_failure + nat set" where
  "reachable_boolean_terms roots s = reach_from s (rev roots) {}"

subsection \<open>Relevant terms\<close>

record marks =
  mk_boolean :: "nat set"
  mk_arithmetic :: "nat set"
  mk_abstract :: "nat set"
  mk_applications :: "nat set"
  mk_ites :: "nat set"

definition expression_variables :: "lin_expr \<Rightarrow> nat set" where
  "expression_variables e = set (map fst (le_coefficients e))"

definition mark_boolean :: "term_store \<Rightarrow> nat list \<Rightarrow> marks \<Rightarrow> term_failure + marks" where
  "mark_boolean s ts m = bindE (reachable_boolean_terms ts s) (\<lambda>B. Inr (m\<lparr>mk_boolean := mk_boolean m \<union> B\<rparr>))"

definition mark_relevant_value :: "term_store \<Rightarrow> nat \<Rightarrow> marks \<Rightarrow> term_failure + marks" where
  "mark_relevant_value s t m =
     bindE (sort_of t s) (\<lambda>so. case so of
       SBool \<Rightarrow> mark_boolean s [t] m
     | SBitVec _ \<Rightarrow> bindE (bitvec_bits t s) (\<lambda>bits. mark_boolean s bits m)
     | SInt \<Rightarrow> bindE (arithmetic_expression_for_term t s) (\<lambda>e. Inr (m\<lparr>mk_arithmetic := mk_arithmetic m \<union> expression_variables e\<rparr>))
     | SReal \<Rightarrow> bindE (arithmetic_expression_for_term t s) (\<lambda>e. Inr (m\<lparr>mk_arithmetic := mk_arithmetic m \<union> expression_variables e\<rparr>))
     | SUninterpreted _ \<Rightarrow> Inr (m\<lparr>mk_abstract := insert t (mk_abstract m)\<rparr>)
     | SArray _ \<Rightarrow> Inr (m\<lparr>mk_abstract := insert t (mk_abstract m)\<rparr>))"

definition relevant_value :: "term_store \<Rightarrow> nat \<Rightarrow> marks \<Rightarrow> term_failure + bool" where
  "relevant_value s t m =
     bindE (sort_of t s) (\<lambda>so. case so of
       SBool \<Rightarrow> Inr (t \<in> mk_boolean m)
     | SBitVec _ \<Rightarrow> bindE (bitvec_bits t s) (\<lambda>bits. Inr (list_ex (\<lambda>b. b \<in> mk_boolean m) bits))
     | SInt \<Rightarrow> bindE (arithmetic_expression_for_term t s) (\<lambda>e. Inr (list_ex (\<lambda>v. v \<in> mk_arithmetic m) (map fst (le_coefficients e))))
     | SReal \<Rightarrow> bindE (arithmetic_expression_for_term t s) (\<lambda>e. Inr (list_ex (\<lambda>v. v \<in> mk_arithmetic m) (map fst (le_coefficients e))))
     | SUninterpreted _ \<Rightarrow> Inr (t \<in> mk_abstract m)
     | SArray _ \<Rightarrow> Inr (t \<in> mk_abstract m))"

fun fold_marks :: "('a \<Rightarrow> marks \<Rightarrow> term_failure + marks) \<Rightarrow> 'a list \<Rightarrow> marks \<Rightarrow> term_failure + marks" where
  "fold_marks f [] m = Inr m"
| "fold_marks f (x # xs) m = bindE (f x m) (fold_marks f xs)"

definition mark_predicate :: "term_store \<Rightarrow> arithmetic_predicate \<Rightarrow> marks \<Rightarrow> term_failure + marks" where
  "mark_predicate s p m =
     (if pr_term p \<notin> mk_boolean m then Inr m
      else bindE (arithmetic_expression (pr_expression p) s) (\<lambda>e.
        Inr (m\<lparr>mk_arithmetic := mk_arithmetic m \<union> expression_variables e\<rparr>)))"

definition mark_equality :: "term_store \<Rightarrow> theory_equality \<Rightarrow> marks \<Rightarrow> term_failure + marks" where
  "mark_equality s e m =
     (if te_term e \<in> mk_boolean m
      then bindE (mark_relevant_value s (te_left e) m) (mark_relevant_value s (te_right e)) else Inr m)"

definition mark_abstract_parts :: "term_store \<Rightarrow> nat \<Rightarrow> marks \<Rightarrow> term_failure + marks" where
  "mark_abstract_parts s t m =
     (case node_kind s t of
        KArrayConst v \<Rightarrow> mark_relevant_value s v m
      | KArrayStore base index v \<Rightarrow> fold_marks (mark_relevant_value s) [base, index, v] m
      | KUfApplication f arguments \<Rightarrow> fold_marks (mark_relevant_value s) arguments m
      | _ \<Rightarrow> Inr m)"

definition mark_ite :: "term_store \<Rightarrow> nat \<times> conditional \<Rightarrow> marks \<Rightarrow> term_failure + marks" where
  "mark_ite s p m =
     (case p of (i, it) \<Rightarrow>
       if ci_result it \<notin> mk_abstract m then Inr m
       else bindE (mark_boolean s [ci_condition it] (m\<lparr>mk_ites := insert i (mk_ites m)\<rparr>))
              (fold_marks (mark_relevant_value s) [ci_then it, ci_else it]))"

definition mark_application :: "term_store \<Rightarrow> nat \<times> application \<Rightarrow> marks \<Rightarrow> term_failure + marks" where
  "mark_application s p m =
     (case p of (i, ap) \<Rightarrow>
       if i \<in> mk_applications m then Inr m
       else bindE (relevant_value s (ap_result ap) m) (\<lambda>relevant.
         if \<not> relevant then Inr m
         else fold_marks (mark_relevant_value s) (ap_arguments ap) (m\<lparr>mk_applications := insert i (mk_applications m)\<rparr>)))"

definition mark_round :: "term_store \<Rightarrow> marks \<Rightarrow> term_failure + marks" where
  "mark_round s m =
     bindE (fold_marks (mark_predicate s) (ts_predicates s) m) (\<lambda>m.
     bindE (fold_marks (mark_equality s) (ts_theory_equalities s) m) (\<lambda>m.
     bindE (fold_marks (mark_abstract_parts s) (sorted_list_of_set (mk_abstract m)) m) (\<lambda>m.
     bindE (fold_marks (mark_ite s) (enumerate 0 (ts_uf_ites s)) m)
       (fold_marks (mark_application s) (enumerate 0 (ts_applications s))))))"

definition mark_sizes :: "marks \<Rightarrow> nat \<times> nat \<times> nat \<times> nat \<times> nat" where
  "mark_sizes m =
     (card (mk_boolean m), card (mk_arithmetic m), card (mk_abstract m), card (mk_applications m), card (mk_ites m))"

fun mark_loop :: "nat \<Rightarrow> term_store \<Rightarrow> marks \<Rightarrow> term_failure + marks" where
  "mark_loop 0 s m = Inl OutOfFuel"
| "mark_loop (Suc n) s m =
     bindE (mark_round s m) (\<lambda>m'. if mark_sizes m' = mark_sizes m then Inr m' else mark_loop n s m')"

record uf_relevance =
  ur_applications :: "nat list"
  ur_equalities :: "nat list"
  ur_ites :: "nat list"

text \<open>As many rounds as there is something to mark, and one.\<close>

definition mark_fuel :: "nat set \<Rightarrow> term_store \<Rightarrow> nat" where
  "mark_fuel roots s =
     Suc (card roots + 2 * length (ts_nodes s) + sum_list (map (\<lambda>(_, e). length (le_coefficients e)) (ts_expressions s))
       + length (ts_applications s) + length (ts_uf_ites s))"

definition compute_uf_relevance :: "nat set \<Rightarrow> term_store \<Rightarrow> term_failure + uf_relevance" where
  "compute_uf_relevance roots s =
     bindE (fold_marks (\<lambda>a. mark_boolean s [a]) (ts_array_axioms s)
       \<lparr>mk_boolean = roots, mk_arithmetic = {}, mk_abstract = {}, mk_applications = {}, mk_ites = {}\<rparr>) (\<lambda>m.
     bindE (mark_loop (mark_fuel roots s) s m) (\<lambda>m.
     Inr \<lparr>ur_applications = sorted_list_of_set (mk_applications m),
          ur_equalities = filter (\<lambda>i. te_term (ts_theory_equalities s ! i) \<in> mk_boolean m) [0..<length (ts_theory_equalities s)],
          ur_ites = sorted_list_of_set (mk_ites m)\<rparr>))"

subsection \<open>The rounds end\<close>

text \<open>
  What there is to mark, and a step on the marks that stays inside it, forgets no mark, and never
  fails for want of fuel.
\<close>

definition store_variables :: "term_store \<Rightarrow> nat set" where
  "store_variables s = (\<Union>e \<in> set (ts_expressions s). expression_variables (snd e))"

definition marks_inside :: "nat set \<Rightarrow> term_store \<Rightarrow> marks \<Rightarrow> bool" where
  "marks_inside R s m \<longleftrightarrow>
     mk_boolean m \<subseteq> R \<union> {..<length (ts_nodes s)} \<and> mk_arithmetic m \<subseteq> store_variables s \<and>
     mk_abstract m \<subseteq> {..<length (ts_nodes s)} \<and> mk_applications m \<subseteq> {..<length (ts_applications s)} \<and>
     mk_ites m \<subseteq> {..<length (ts_uf_ites s)}"

definition marks_le :: "marks \<Rightarrow> marks \<Rightarrow> bool" where
  "marks_le m n \<longleftrightarrow>
     mk_boolean m \<subseteq> mk_boolean n \<and> mk_arithmetic m \<subseteq> mk_arithmetic n \<and> mk_abstract m \<subseteq> mk_abstract n \<and>
     mk_applications m \<subseteq> mk_applications n \<and> mk_ites m \<subseteq> mk_ites n"

definition marking :: "nat set \<Rightarrow> term_store \<Rightarrow> (marks \<Rightarrow> term_failure + marks) \<Rightarrow> bool" where
  "marking R s f \<longleftrightarrow>
     (\<forall>m. marks_inside R s m \<longrightarrow>
       (case f m of Inl e \<Rightarrow> e \<noteq> OutOfFuel | Inr n \<Rightarrow> marks_inside R s n \<and> marks_le m n))"

lemma marks_le_refl: "marks_le m m"
  by (simp add: marks_le_def)

lemma marks_le_trans: "marks_le m n \<Longrightarrow> marks_le n k \<Longrightarrow> marks_le m k"
  by (auto simp: marks_le_def)

lemma marking_Inr [intro]: "marking R s Inr"
  by (simp add: marking_def marks_le_refl)

lemma marking_bind [intro]:
  assumes "marking R s f" "marking R s g" shows "marking R s (\<lambda>m. bindE (f m) g)"
  unfolding marking_def
proof (intro allI impI)
  fix m assume m: "marks_inside R s m"
  show "case bindE (f m) g of Inl e \<Rightarrow> e \<noteq> OutOfFuel | Inr n \<Rightarrow> marks_inside R s n \<and> marks_le m n"
  proof (cases "f m")
    case (Inl e)
    then show ?thesis using assms(1) m by (auto simp: marking_def)
  next
    case (Inr n)
    then have "marks_inside R s n" "marks_le m n" using assms(1) m by (auto simp: marking_def)
    then show ?thesis using Inr assms(2) marks_le_trans by (fastforce simp: marking_def split: sum.splits)
  qed
qed

lemma marking_fold [intro]: "(\<And>x. x \<in> set xs \<Longrightarrow> marking R s (f x)) \<Longrightarrow> marking R s (fold_marks f xs)"
proof (induction xs)
  case Nil
  have "fold_marks f [] = Inr" by (rule ext) simp
  then show ?case by auto
next
  case (Cons x xs)
  have "fold_marks f (x # xs) = (\<lambda>m. bindE (f x m) (fold_marks f xs))" by (rule ext) simp
  then show ?case using Cons by (auto intro!: marking_bind)
qed

lemma reach_from_inside:
  "case reach_from s pending reached of Inl e \<Rightarrow> e \<noteq> OutOfFuel | Inr B \<Rightarrow> B \<subseteq> reached \<union> {..<length (ts_nodes s)}"
proof (induction s pending reached rule: reach_from.induct)
  case (2 s t pending reached)
  have req: "case require_bool t s of Inl e \<Rightarrow> e \<noteq> OutOfFuel | Inr _ \<Rightarrow> t < length (ts_nodes s)"
    by (simp add: require_bool_def sort_id_of_def)
  show ?case
  proof (cases "require_bool t s")
    case (Inr u)
    then show ?thesis using 2 req
      by (cases "t \<in> reached"; cases "boolean_parts (node_kind s t)") (auto split: sum.splits)
  qed (use req in simp)
qed simp

lemma mark_boolean_marking: "marking R s (mark_boolean s ts)"
  unfolding marking_def mark_boolean_def reachable_boolean_terms_def
proof (intro allI impI)
  fix m assume "marks_inside R s m"
  then show "case bindE (reach_from s (rev ts) {}) (\<lambda>B. Inr (m\<lparr>mk_boolean := mk_boolean m \<union> B\<rparr>)) of
      Inl e \<Rightarrow> e \<noteq> OutOfFuel | Inr n \<Rightarrow> marks_inside R s n \<and> marks_le m n"
    using reach_from_inside [where s = s and pending = "rev ts" and reached = "{}"]
    by (cases "reach_from s (rev ts) {}") (auto simp: marks_inside_def marks_le_def)
qed

lemma expression_inside:
  "case arithmetic_expression e s of Inl x \<Rightarrow> x \<noteq> OutOfFuel | Inr x \<Rightarrow> expression_variables x \<subseteq> store_variables s"
  by (auto simp: arithmetic_expression_def store_variables_def) (metis nth_mem snd_conv)

lemma term_expression_inside:
  "case arithmetic_expression_for_term t s of Inl x \<Rightarrow> x \<noteq> OutOfFuel | Inr x \<Rightarrow> expression_variables x \<subseteq> store_variables s"
  using expression_inside by (auto simp: arithmetic_expression_for_term_def split: term_kind.split)

lemma marking_expression:
  assumes "case r of Inl x \<Rightarrow> x \<noteq> OutOfFuel | Inr x \<Rightarrow> expression_variables x \<subseteq> store_variables s"
  shows "marking R s (\<lambda>m. bindE r (\<lambda>e. Inr (m\<lparr>mk_arithmetic := mk_arithmetic m \<union> expression_variables e\<rparr>)))"
  using assms by (cases r) (auto simp: marking_def marks_inside_def marks_le_def)

lemma mark_relevant_value_marking: "marking R s (mark_relevant_value s t)"
proof (cases "t < length (ts_nodes s)")
  case True
  then obtain so where so: "sort_of t s = Inr so" by (simp add: sort_of_def)
  have bits: "marking R s (\<lambda>m. bindE (bitvec_bits t s) (\<lambda>bits. mark_boolean s bits m))"
    using mark_boolean_marking by (cases "bitvec_bits t s") (auto simp: marking_def bitvec_bits_def split: if_splits term_kind.splits)
  have ins: "marking R s (\<lambda>m. Inr (m\<lparr>mk_abstract := insert t (mk_abstract m)\<rparr>))"
    using True by (auto simp: marking_def marks_inside_def marks_le_def)
  show ?thesis
    unfolding mark_relevant_value_def so bindE_simps
    by (cases so) (simp_all add: bits ins mark_boolean_marking marking_expression [OF term_expression_inside])
qed (auto simp: marking_def mark_relevant_value_def sort_of_def)

lemma mark_round_marking: "marking R s (mark_round s)"
proof -
  have predicates: "marking R s (mark_predicate s p)" for p
    using marking_expression [OF expression_inside [of s "pr_expression p"], of R] marking_Inr
    by (auto simp: marking_def mark_predicate_def)
  have bind2: "marking R s (\<lambda>m. bindE (mark_relevant_value s a m) (mark_relevant_value s b))" for a b
    by (intro marking_bind mark_relevant_value_marking)
  have equalities: "marking R s (mark_equality s e)" for e
    using bind2 marking_Inr by (auto simp: marking_def mark_equality_def)
  have args: "marking R s (fold_marks (mark_relevant_value s) ts)" for ts
    by (intro marking_fold mark_relevant_value_marking)
  have parts: "marking R s (mark_abstract_parts s t)" for t
    unfolding mark_abstract_parts_def using args mark_relevant_value_marking marking_Inr by (cases "node_kind s t") auto
  have ites: "marking R s (mark_ite s p)" if pin: "p \<in> set (enumerate 0 (ts_uf_ites s))" for p
  proof -
    obtain i it where p: "p = (i, it)" "i < length (ts_uf_ites s)" using pin by (auto simp: enumerate_eq_zip set_zip)
    have "marking R s (\<lambda>m. bindE (mark_boolean s [ci_condition it] m) (fold_marks (mark_relevant_value s) [ci_then it, ci_else it]))"
      by (intro marking_bind mark_boolean_marking args)
    moreover have "marks_inside R s (m\<lparr>mk_ites := insert i (mk_ites m)\<rparr>)" if "marks_inside R s m" for m
      using that p(2) by (simp add: marks_inside_def)
    moreover have "marks_le m n" if "marks_le (m\<lparr>mk_ites := insert i (mk_ites m)\<rparr>) n" for m n
      using that by (simp add: marks_le_def)
    ultimately show ?thesis unfolding marking_def mark_ite_def p(1) by (fastforce simp: marks_le_refl split: sum.splits)
  qed
  have applications: "marking R s (mark_application s p)" if pin: "p \<in> set (enumerate 0 (ts_applications s))" for p
  proof -
    obtain i ap where p: "p = (i, ap)" "i < length (ts_applications s)" using pin by (auto simp: enumerate_eq_zip set_zip)
    have relevant: "relevant_value s t m \<noteq> Inl OutOfFuel" for t m
      by (auto simp: relevant_value_def sort_of_def bitvec_bits_def arithmetic_expression_for_term_def arithmetic_expression_def
            split: sort.splits term_kind.splits)
    have ins: "marks_inside R s (m\<lparr>mk_applications := insert i (mk_applications m)\<rparr>)" if "marks_inside R s m" for m
      using that p(2) by (simp add: marks_inside_def)
    have le: "marks_le m n" if "marks_le (m\<lparr>mk_applications := insert i (mk_applications m)\<rparr>) n" for m n
      using that by (simp add: marks_le_def)
    show ?thesis unfolding marking_def
    proof (intro allI impI)
      fix m assume m: "marks_inside R s m"
      show "case mark_application s p m of Inl e \<Rightarrow> e \<noteq> OutOfFuel | Inr n \<Rightarrow> marks_inside R s n \<and> marks_le m n"
      proof (cases "relevant_value s (ap_result ap) m")
        case (Inl e)
        then show ?thesis using relevant m by (auto simp: mark_application_def p(1) marks_le_refl)
      next
        case (Inr b)
        then show ?thesis using args [of "ap_arguments ap"] ins [OF m] le m
          by (fastforce simp: mark_application_def p(1) marks_le_refl marking_def split: sum.splits)
      qed
    qed
  qed
  have abstract: "marking R s (\<lambda>m. fold_marks (mark_abstract_parts s) (sorted_list_of_set (mk_abstract m)) m)"
    using marking_fold [of _ R s "mark_abstract_parts s", OF parts] by (simp add: marking_def)
  show ?thesis
    unfolding mark_round_def
    by (intro marking_bind marking_fold predicates equalities abstract ites applications) auto
qed

definition marks_weight :: "marks \<Rightarrow> nat" where
  "marks_weight m =
     card (mk_boolean m) + card (mk_arithmetic m) + card (mk_abstract m) + card (mk_applications m) + card (mk_ites m)"

lemma card_store_variables:
  "finite (store_variables s) \<and> card (store_variables s) \<le> sum_list (map (\<lambda>(_, e). length (le_coefficients e)) (ts_expressions s))"
proof -
  have "finite (\<Union>e \<in> set es. expression_variables (snd e)) \<and>
      card (\<Union>e \<in> set es. expression_variables (snd e)) \<le> sum_list (map (\<lambda>(_, e). length (le_coefficients e)) es)"
    for es :: "(sort \<times> lin_expr) list"
  proof (induction es)
    case (Cons e es)
    have "card (expression_variables (snd e)) \<le> length (le_coefficients (snd e))"
      using card_length [of "map fst (le_coefficients (snd e))"] by (simp add: expression_variables_def)
    then show ?case using Cons card_Un_le [of "expression_variables (snd e)" "\<Union>e \<in> set es. expression_variables (snd e)"]
      by (auto simp: case_prod_beta expression_variables_def)
  qed simp
  then show ?thesis by (simp add: store_variables_def)
qed

lemma marks_finite:
  assumes "marks_inside R s m" "finite R"
  shows "finite (mk_boolean m)" "finite (mk_arithmetic m)" "finite (mk_abstract m)" "finite (mk_applications m)" "finite (mk_ites m)"
    "marks_weight m < mark_fuel R s"
proof -
  let ?n = "{..<length (ts_nodes s)}"
  have sub: "mk_boolean m \<subseteq> R \<union> ?n" "mk_arithmetic m \<subseteq> store_variables s" "mk_abstract m \<subseteq> ?n"
    "mk_applications m \<subseteq> {..<length (ts_applications s)}" "mk_ites m \<subseteq> {..<length (ts_uf_ites s)}"
    using assms(1) by (simp_all add: marks_inside_def)
  have fin: "finite (R \<union> ?n)" "finite (store_variables s)" using assms(2) card_store_variables by auto
  show "finite (mk_boolean m)" "finite (mk_arithmetic m)" "finite (mk_abstract m)" "finite (mk_applications m)" "finite (mk_ites m)"
    using sub fin by (auto intro: finite_subset)
  have "card (mk_boolean m) \<le> card R + length (ts_nodes s)"
    using card_mono [OF fin(1) sub(1)] card_Un_le [of R ?n] by simp
  moreover have "card (mk_arithmetic m) \<le> sum_list (map (\<lambda>(_, e). length (le_coefficients e)) (ts_expressions s))"
    using card_mono [OF fin(2) sub(2)] card_store_variables [of s] by simp
  moreover have "card (mk_abstract m) \<le> length (ts_nodes s)" "card (mk_applications m) \<le> length (ts_applications s)"
    "card (mk_ites m) \<le> length (ts_uf_ites s)"
    using card_mono [OF _ sub(3)] card_mono [OF _ sub(4)] card_mono [OF _ sub(5)] by simp_all
  ultimately show "marks_weight m < mark_fuel R s" by (simp add: marks_weight_def mark_fuel_def)
qed

lemma marks_grow:
  assumes "marks_inside R s n" "finite R" "marks_le m n"
  shows "marks_weight m \<le> marks_weight n" "mark_sizes n \<noteq> mark_sizes m \<Longrightarrow> marks_weight m < marks_weight n"
proof -
  note fin = marks_finite [OF assms(1,2)]
  have "card (mk_boolean m) \<le> card (mk_boolean n)" "card (mk_arithmetic m) \<le> card (mk_arithmetic n)"
    "card (mk_abstract m) \<le> card (mk_abstract n)" "card (mk_applications m) \<le> card (mk_applications n)" "card (mk_ites m) \<le> card (mk_ites n)"
    using assms(3) fin by (auto simp: marks_le_def intro: card_mono)
  then show "marks_weight m \<le> marks_weight n" "mark_sizes n \<noteq> mark_sizes m \<Longrightarrow> marks_weight m < marks_weight n"
    by (auto simp: marks_weight_def mark_sizes_def)
qed

lemma mark_loop_ends:
  assumes "finite R"
  shows "marks_inside R s m \<Longrightarrow> mark_fuel R s \<le> n + marks_weight m \<Longrightarrow>
    case mark_loop n s m of Inl e \<Rightarrow> e \<noteq> OutOfFuel | Inr k \<Rightarrow> marks_inside R s k \<and> marks_le m k"
proof (induction n arbitrary: m)
  case 0
  then show ?case using marks_finite(6) [OF 0(1) assms] by simp
next
  case (Suc n)
  have round: "case mark_round s m of Inl e \<Rightarrow> e \<noteq> OutOfFuel | Inr k \<Rightarrow> marks_inside R s k \<and> marks_le m k"
    using mark_round_marking [of R s] Suc.prems(1) by (simp add: marking_def)
  show ?case
  proof (cases "mark_round s m")
    case (Inr k)
    then have k: "marks_inside R s k" "marks_le m k" using round by simp_all
    show ?thesis
    proof (cases "mark_sizes k = mark_sizes m")
      case False
      then have "mark_fuel R s \<le> n + marks_weight k" using marks_grow(2) [OF k(1) assms k(2)] Suc.prems(2) by simp
      then show ?thesis using Suc.IH [OF k(1)] Inr False k(2) marks_le_trans by (fastforce split: sum.splits)
    qed (use Inr k in simp)
  qed (use round in simp)
qed

text \<open>
  C15: The search for the relevant terms ends. From any finite set of roots, the rounds of
  \<open>compute_uf_relevance\<close> reach a round that marks nothing new within the fuel, as many rounds as
  there are things to mark and one; what it returns names applications, equalities and
  conditionals of the store, each application once.
\<close>

theorem relevance_ends:
  assumes "finite roots"
  shows "case compute_uf_relevance roots s of Inl e \<Rightarrow> e \<noteq> OutOfFuel
    | Inr r \<Rightarrow> set (ur_applications r) \<subseteq> {..<length (ts_applications s)} \<and>
        set (ur_equalities r) \<subseteq> {..<length (ts_theory_equalities s)} \<and> set (ur_ites r) \<subseteq> {..<length (ts_uf_ites s)} \<and>
        distinct (ur_applications r)"
proof -
  let ?start = "\<lparr>mk_boolean = roots, mk_arithmetic = {}, mk_abstract = {}, mk_applications = {}, mk_ites = {}\<rparr>"
  have inside: "marks_inside roots s ?start" by (simp add: marks_inside_def)
  have "marking roots s (fold_marks (\<lambda>a. mark_boolean s [a]) (ts_array_axioms s))"
    by (intro marking_fold mark_boolean_marking)
  then have axioms: "case fold_marks (\<lambda>a. mark_boolean s [a]) (ts_array_axioms s) ?start of
      Inl e \<Rightarrow> e \<noteq> OutOfFuel | Inr n \<Rightarrow> marks_inside roots s n \<and> marks_le ?start n"
    using inside by (simp add: marking_def)
  show ?thesis
  proof (cases "fold_marks (\<lambda>a. mark_boolean s [a]) (ts_array_axioms s) ?start")
    case (Inl e)
    then show ?thesis using axioms by (simp add: compute_uf_relevance_def)
  next
    case (Inr m)
    then have m: "marks_inside roots s m" using axioms by simp
    note loop = mark_loop_ends [OF assms m, of "mark_fuel roots s"]
    show ?thesis
    proof (cases "mark_loop (mark_fuel roots s) s m")
      case (Inl e)
      then show ?thesis using Inr loop by (simp add: compute_uf_relevance_def)
    next
      case k: (Inr k)
      then have "marks_inside roots s k" using loop by simp
      then show ?thesis using Inr k marks_finite [OF _ assms] by (auto simp: compute_uf_relevance_def marks_inside_def)
    qed
  qed
qed

lemma relevance_ends_witness: "compute_uf_relevance {7, 8, 9} uf_example_store \<noteq> Inl OutOfFuel"
  using relevance_ends [of "{7, 8, 9}" uf_example_store] by auto

subsection \<open>Array arguments and shared reads\<close>

fun later_pairs :: "'a list \<Rightarrow> ('a \<times> 'a) list" where
  "later_pairs [] = []"
| "later_pairs (x # xs) = map (Pair x) xs @ later_pairs xs"

definition ensure_array_argument_equalities :: "nat \<Rightarrow> uf_relevance \<Rightarrow> bool term_op" where
  "ensure_array_argument_equalities n relevance s =
     (let applications = ts_applications s
      in bind_op
           (each_op (\<lambda>(i, j).
              let left = applications ! i; right = applications ! j in
              bind_op (\<lambda>s. (Inr (ap_function left \<noteq> ap_function right \<or> select_array_sort (ap_function left) s \<noteq> None), s)) (\<lambda>skip.
                if skip then ret ()
                else bind_op (asks (lookup_function (ap_function left))) (\<lambda>sig.
                     bind_op (each_op (\<lambda>((l, r), so).
                         case so of SArray _ \<Rightarrow> if l = r then ret () else bind_op (equivalent n l r) (\<lambda>_. ret ())
                         | _ \<Rightarrow> ret ()) (zip (zip (ap_arguments left) (ap_arguments right)) (fs_domain sig)))
                       (\<lambda>_. ret ()))))
             (later_pairs (ur_applications relevance)))
           (\<lambda>_ s'. (Inr (length (ts_theory_equalities s') \<noteq> length (ts_theory_equalities s)), s')) s)"

definition is_array_term :: "term_store \<Rightarrow> nat \<Rightarrow> bool" where
  "is_array_term s t = (case sort_of t s of Inr (SArray _) \<Rightarrow> True | _ \<Rightarrow> False)"

definition application_groups :: "term_store \<Rightarrow> nat list list" where
  "application_groups s =
     (let arrays = filter (\<lambda>ap. is_array_term s (ap_result ap)) (ts_applications s)
      in map (\<lambda>f. map ap_result (filter (\<lambda>ap. ap_function ap = f) arrays)) (remdups (map ap_function arrays)))"

fun prepare_arrays :: "nat \<Rightarrow> (nat list list \<Rightarrow> nat list list) \<Rightarrow> unit term_op" where
  "prepare_arrays 0 order s = out_of_fuel s"
| "prepare_arrays (Suc n) order s =
     bind_op (\<lambda>s. each_op (share_array_reads n)
        (map (\<lambda>e. [te_left e, te_right e]) (filter (\<lambda>e. is_array_term s (te_left e)) (ts_theory_equalities s))) s) (\<lambda>_.
     bind_op (\<lambda>s. each_op (share_array_reads n)
        (map (\<lambda>it. [ci_result it, ci_then it, ci_else it]) (filter (\<lambda>it. is_array_term s (ci_result it)) (ts_uf_ites s))) s) (\<lambda>_.
     bind_op (\<lambda>s. each_op (share_array_reads n) (order (application_groups s)) s) (\<lambda>_ s'.
       if length (ts_applications s') = length (ts_applications s) then (Inr (), s') else prepare_arrays n order s'))) s"

fun prepare_loop :: "nat \<Rightarrow> (nat list list \<Rightarrow> nat list list) \<Rightarrow> nat set \<Rightarrow> uf_relevance term_op" where
  "prepare_loop 0 order roots = out_of_fuel"
| "prepare_loop (Suc n) order roots =
     bind_op (prepare_arrays n order) (\<lambda>_.
     bind_op (asks (compute_uf_relevance roots)) (\<lambda>relevance.
     bind_op (ensure_array_argument_equalities n relevance) (\<lambda>changed.
       if changed then prepare_loop n order roots else ret relevance)))"

subsection \<open>Registration\<close>

fun require_lowered_values :: "term_store \<Rightarrow> (nat \<times> sort) list \<Rightarrow> nat list \<Rightarrow> term_failure + nat list" where
  "require_lowered_values s [] required = Inr required"
| "require_lowered_values s ((t, so) # rest) required =
     (case so of
        SBool \<Rightarrow> require_lowered_values s rest (required @ [t])
      | SBitVec _ \<Rightarrow> bindE (bitvec_bits t s) (\<lambda>bits. require_lowered_values s rest (required @ bits))
      | _ \<Rightarrow> require_lowered_values s rest required)"

definition function_count :: "term_store \<Rightarrow> nat list \<Rightarrow> nat \<Rightarrow> nat" where
  "function_count s applications f = length (filter (\<lambda>i. ap_function (ts_applications s ! i) = f) applications)"

definition application_values :: "application \<Rightarrow> function_signature \<Rightarrow> (nat \<times> sort) list" where
  "application_values ap sig = zip (ap_arguments ap) (fs_domain sig) @ [(ap_result ap, fs_range sig)]"

fun require_applications :: "term_store \<Rightarrow> nat list \<Rightarrow> nat list \<Rightarrow> nat list \<Rightarrow> term_failure + nat list" where
  "require_applications s all [] required = Inr required"
| "require_applications s all (i # is) required =
     (let ap = ts_applications s ! i in
      if function_count s all (ap_function ap) < 2 then require_applications s all is required
      else bindE (lookup_function (ap_function ap) s) (\<lambda>sig.
           bindE (require_lowered_values s (application_values ap sig) required) (require_applications s all is)))"

text \<open>The arithmetic terms of one application, and the arithmetic pairs of two.\<close>

fun shared_of_applications :: "term_store \<Rightarrow> nat list \<Rightarrow> nat set \<Rightarrow> term_failure + nat set" where
  "shared_of_applications s [] shared = Inr shared"
| "shared_of_applications s (i # is) shared =
     (let ap = ts_applications s ! i in
      bindE (lookup_function (ap_function ap) s) (\<lambda>sig.
        shared_of_applications s is
          (shared \<union> set (map fst (filter (\<lambda>(t, so). arithmetic_sort so) (application_values ap sig))))))"

fun shared_of_pairs :: "term_store \<Rightarrow> (nat \<times> nat) list \<Rightarrow> nat set \<Rightarrow> (nat \<times> nat) set \<Rightarrow> term_failure + nat set \<times> (nat \<times> nat) set" where
  "shared_of_pairs s [] shared pairs = Inr (shared, pairs)"
| "shared_of_pairs s ((i, j) # rest) shared pairs =
     (let left = ts_applications s ! i; right = ts_applications s ! j in
      if ap_function left \<noteq> ap_function right then shared_of_pairs s rest shared pairs
      else bindE (lookup_function (ap_function left) s) (\<lambda>sig.
        let both = filter (\<lambda>((l, r), so). arithmetic_sort so)
              (zip (zip (ap_arguments left) (ap_arguments right)) (fs_domain sig) @ [((ap_result left, ap_result right), fs_range sig)])
        in shared_of_pairs s rest
             (shared \<union> set (concat (map (\<lambda>((l, r), _). [l, r]) both)))
             (pairs \<union> set (map (\<lambda>((l, r), _). ordered_pair l r) (filter (\<lambda>((l, r), _). l \<noteq> r) both)))))"

text \<open>The sides are arithmetic terms, for which \<open>equivalent\<close> calls no further constructor of its group.\<close>

fun register_pairs :: "(nat \<times> nat) list \<Rightarrow> uf_theory \<Rightarrow> uf_theory term_op" where
  "register_pairs [] u = ret u"
| "register_pairs ((l, r) # ps) u =
     bind_op (equivalent 1 l r) (\<lambda>t.
       register_pairs ps
         (u\<lparr>uf_required := uf_required u @ [t],
            uf_shared_equalities := uf_shared_equalities u @ [\<lparr>te_term = t, te_left = l, te_right = r\<rparr>],
            uf_shared_equality_terms := (uf_shared_equality_terms u)((l, r) \<mapsto> t)\<rparr>))"

definition require_rest :: "uf_theory \<Rightarrow> uf_theory term_op" where
  "require_rest u s =
     (Inr (u\<lparr>uf_required := remdups_adj (sort (uf_required u
        @ map (\<lambda>i. te_term (ts_theory_equalities s ! i)) (uf_equalities u)
        @ map (\<lambda>i. ci_condition (ts_uf_ites s ! i)) (uf_ites u) @ ts_array_axioms s))\<rparr>), s)"

definition uf_register :: "uf_relevance \<Rightarrow> uf_theory \<Rightarrow> uf_theory term_op" where
  "uf_register relevance u =
     bind_op (asks (\<lambda>s. require_applications s (ur_applications relevance) (ur_applications relevance) [])) (\<lambda>required.
     bind_op (asks (\<lambda>s. shared_of_applications s (ur_applications relevance) {})) (\<lambda>shared.
     bind_op (asks (\<lambda>s. shared_of_pairs s (later_pairs (ur_applications relevance)) shared {})) (\<lambda>(shared, pairs).
     bind_op (register_pairs (sorted_list_of_set pairs)
       (u\<lparr>uf_required := required, uf_shared_terms := sorted_list_of_set shared, uf_shared_equalities := [],
          uf_shared_equality_terms := Map.empty, uf_applications := ur_applications relevance,
          uf_equalities := ur_equalities relevance, uf_ites := ur_ites relevance\<rparr>)) require_rest)))"

definition uf_prepare :: "nat \<Rightarrow> (nat list list \<Rightarrow> nat list list) \<Rightarrow> nat set \<Rightarrow> uf_theory \<Rightarrow> uf_theory term_op" where
  "uf_prepare n order roots u = bind_op (prepare_loop n order roots) (\<lambda>relevance. uf_register relevance u)"

definition uf_required_terms :: "uf_theory \<Rightarrow> nat list" where
  "uf_required_terms u = uf_required u"

subsection \<open>What registration leaves alone\<close>

definition store_frame :: "term_store \<Rightarrow> term_store \<Rightarrow> bool" where
  "store_frame s s' \<longleftrightarrow>
     ts_applications s' = ts_applications s \<and> ts_functions s' = ts_functions s \<and>
     ts_theory_equalities s' = ts_theory_equalities s \<and> ts_uf_ites s' = ts_uf_ites s \<and>
     ts_array_axioms s' = ts_array_axioms s \<and> prefix (ts_nodes s) (ts_nodes s') \<and> prefix (ts_sorts s) (ts_sorts s')"

definition op_frame :: "'a term_op \<Rightarrow> bool" where
  "op_frame m \<longleftrightarrow> (\<forall>s. store_frame s (snd (m s)))"

named_theorems op_frames \<open>operations that keep the applications, equalities and conditionals of the store\<close>

lemma store_frame_refl [simp]: "store_frame s s"
  by (simp add: store_frame_def)

lemma store_frame_trans: "store_frame s s' \<Longrightarrow> store_frame s' s'' \<Longrightarrow> store_frame s s''"
  by (auto simp: store_frame_def intro: prefix_order.trans)

lemma op_frame_bind [op_frames]:
  assumes "op_frame m" "\<And>x. op_frame (f x)" shows "op_frame (bind_op m f)"
  unfolding op_frame_def
proof
  fix s
  obtain r s' where m: "m s = (r, s')" by (cases "m s")
  have "store_frame s s'" using assms(1) m by (metis op_frame_def snd_conv)
  moreover have "store_frame s' (snd (f x s'))" for x using assms(2) by (simp add: op_frame_def)
  ultimately show "store_frame s (snd (bind_op m f s))"
    using store_frame_trans by (cases r) (auto simp: bind_op_def m)
qed

lemma op_frame_simple [op_frames]: "op_frame (ret x)" "op_frame (reject e)" "op_frame (asks g)" "op_frame out_of_fuel"
  by (simp_all add: op_frame_def ret_def reject_def asks_def out_of_fuel_def)

lemma op_frame_if [op_frames]: "op_frame m \<Longrightarrow> op_frame n \<Longrightarrow> op_frame (if b then m else n)"
  by simp

lemma op_frame_store [op_frames]:
  "op_frame (sort_id_for so)" "op_frame (intern sid k)" "op_frame (intern_bool k)" "op_frame fresh_symbol"
  "op_frame (intern_arithmetic_expression so e)"
  by (auto simp: op_frame_def store_frame_def sort_id_for_def intern_def intern_bool_def fresh_symbol_def
        intern_arithmetic_expression_def Let_def split: option.splits)

lemma op_frame_term_and [op_frames]: "op_frame (term_and ts)"
  using op_frame_store(3)
  by (auto simp: op_frame_def term_and_def junction_def Let_def split: sum.splits)

lemma op_frame_predicate [op_frames]: "op_frame (arithmetic_predicate_term e strict)"
proof -
  have "op_frame (bind_op fresh_symbol (\<lambda>a. bind_op (intern_bool (KArithmeticPredicate a e strict)) (\<lambda>t s.
            (Inr t, s\<lparr>ts_predicate_terms := (ts_predicate_terms s)((e, strict) \<mapsto> t),
                      ts_predicates := ts_predicates s @ [\<lparr>pr_term = t, pr_expression = e, pr_strict = strict\<rparr>]\<rparr>))))"
    by (intro op_frame_bind op_frame_store) (simp add: op_frame_def store_frame_def)
  then show ?thesis by (auto simp: op_frame_def arithmetic_predicate_term_def split: option.split)
qed

lemma op_frame_comparison [op_frames]: "op_frame (arithmetic_comparison l r strict)"
  unfolding arithmetic_comparison_def Let_def by (intro op_frames) (simp add: op_frame_def)

lemma op_frame_arithmetic_equivalent [op_frames]: "op_frame (arithmetic_equivalent l r)"
  unfolding arithmetic_equivalent_def arithmetic_le_def arithmetic_ge_def by (intro op_frames)

lemma equivalent_frame:
  assumes "sort_of l s = Inr so" "arithmetic_sort so" "sort_of r s = Inr so'" "arithmetic_sort so'" "equivalent (Suc n) l r s = (x, s')"
  shows "store_frame s s'"
proof -
  have "equivalent (Suc n) l r s = arithmetic_equivalent l r s" using assms(1-4) by (simp add: bind_op_def asks_def)
  then show ?thesis using op_frame_arithmetic_equivalent assms(5) by (metis op_frame_def snd_conv)
qed

lemma frame_sort_of:
  assumes "store_frame s s'" "t < length (ts_nodes s)" "tn_sort (ts_nodes s ! t) < length (ts_sorts s)"
  shows "sort_of t s' = sort_of t s"
proof -
  have "prefix (ts_nodes s) (ts_nodes s')" "prefix (ts_sorts s) (ts_sorts s')" using assms(1) by (simp_all add: store_frame_def)
  then show ?thesis using assms(2,3) by (auto simp: sort_of_def prefix_nth dest: prefix_length_le)
qed

lemma frame_bits:
  assumes "store_frame s s'" "bitvec_bits t s = Inr bits" shows "bitvec_bits t s' = Inr bits"
proof -
  have "prefix (ts_nodes s) (ts_nodes s')" using assms(1) by (simp add: store_frame_def)
  then show ?thesis using assms(2) prefix_length_le [of "ts_nodes s" "ts_nodes s'"]
    by (auto simp: bitvec_bits_def node_kind_def prefix_nth split: if_splits)
qed

subsection \<open>Typed applications\<close>

definition has_sort :: "term_store \<Rightarrow> nat \<Rightarrow> sort \<Rightarrow> bool" where
  "has_sort s t so \<longleftrightarrow>
     t < length (ts_nodes s) \<and> tn_sort (ts_nodes s ! t) < length (ts_sorts s) \<and> ts_sorts s ! tn_sort (ts_nodes s ! t) = so \<and>
     (case so of SBitVec w \<Rightarrow> (case bitvec_bits t s of Inr bits \<Rightarrow> length bits = w | Inl _ \<Rightarrow> False) | _ \<Rightarrow> True)"

definition abstract_term :: "term_store \<Rightarrow> nat \<Rightarrow> bool" where
  "abstract_term s t \<longleftrightarrow>
     t < length (ts_nodes s) \<and> tn_sort (ts_nodes s ! t) < length (ts_sorts s) \<and> abstract_sort (ts_sorts s ! tn_sort (ts_nodes s ! t))"

definition application_typed :: "term_store \<Rightarrow> nat \<Rightarrow> bool" where
  "application_typed s i \<longleftrightarrow>
     i < length (ts_applications s) \<and> ap_function (app_at s i) < length (ts_functions s) \<and>
     list_all2 (has_sort s) (ap_arguments (app_at s i)) (app_domain s i) \<and>
     has_sort s (ap_result (app_at s i)) (app_range s i)"

definition relevance_typed :: "uf_relevance \<Rightarrow> term_store \<Rightarrow> bool" where
  "relevance_typed r s \<longleftrightarrow>
     (\<forall>i \<in> set (ur_applications r). application_typed s i) \<and>
     (\<forall>i \<in> set (ur_equalities r). i < length (ts_theory_equalities s) \<and>
        abstract_term s (te_left (ts_theory_equalities s ! i)) \<and> abstract_term s (te_right (ts_theory_equalities s ! i))) \<and>
     (\<forall>i \<in> set (ur_ites r). i < length (ts_uf_ites s) \<and> abstract_term s (ci_result (ts_uf_ites s ! i)) \<and>
        abstract_term s (ci_then (ts_uf_ites s ! i)) \<and> abstract_term s (ci_else (ts_uf_ites s ! i)))"

lemma has_sort_of: "has_sort s t so \<Longrightarrow> sort_of t s = Inr so"
  by (simp add: has_sort_def sort_of_def)

lemma application_values_typed:
  assumes "application_typed s i"
  shows "\<forall>(t, so) \<in> set (application_values (app_at s i) (ts_functions s ! ap_function (app_at s i))). has_sort s t so"
  using assms by (auto simp: application_typed_def application_values_def list_all2_iff)

lemma lookup_typed: "application_typed s i \<Longrightarrow> lookup_function (ap_function (app_at s i)) s = Inr (ts_functions s ! ap_function (app_at s i))"
  by (simp add: application_typed_def lookup_function_def)

subsection \<open>The shared terms and pairs\<close>

definition arithmetic_term :: "term_store \<Rightarrow> nat \<Rightarrow> bool" where
  "arithmetic_term s t \<longleftrightarrow> (\<exists>so. has_sort s t so \<and> arithmetic_sort so)"

lemma shared_of_applications_ok:
  assumes "shared_of_applications s is shared = Inr result" "\<forall>i \<in> set is. application_typed s i"
  shows "shared \<subseteq> result \<and> (\<forall>t \<in> result - shared. arithmetic_term s t) \<and> (finite shared \<longrightarrow> finite result) \<and>
    (\<forall>i \<in> set is. \<forall>(t, so) \<in> set (application_values (app_at s i) (ts_functions s ! ap_function (app_at s i))).
       arithmetic_sort so \<longrightarrow> t \<in> result)"
  using assms
proof (induction "is" arbitrary: shared)
  case (Cons i "is")
  let ?vals = "application_values (app_at s i) (ts_functions s ! ap_function (app_at s i))"
  let ?new = "set (map fst (filter (\<lambda>(t, so). arithmetic_sort so) ?vals))"
  have typed: "application_typed s i" "\<forall>i \<in> set is. application_typed s i" using Cons.prems(2) by simp_all
  have "shared_of_applications s is (shared \<union> ?new) = Inr result"
    using Cons.prems(1) lookup_typed [OF typed(1)] by (simp add: Let_def)
  note IH = Cons.IH [OF this typed(2)]
  have "arithmetic_term s t" if "t \<in> ?new" for t
    using that application_values_typed [OF typed(1)] unfolding arithmetic_term_def by fastforce
  moreover have "t \<in> ?new" if "(t, so) \<in> set ?vals" "arithmetic_sort so" for t so using that by force
  ultimately show ?case using IH by (auto simp del: set_map)
qed simp

definition both_results :: "term_store \<Rightarrow> nat \<Rightarrow> nat \<Rightarrow> ((nat \<times> nat) \<times> sort) list" where
  "both_results s i j =
     zip (zip (ap_arguments (app_at s i)) (ap_arguments (app_at s j))) (app_domain s i) @
     [((ap_result (app_at s i), ap_result (app_at s j)), app_range s i)]"

lemma both_results_typed:
  assumes "application_typed s i" "application_typed s j" "ap_function (app_at s i) = ap_function (app_at s j)"
  shows "\<forall>((l, r), so) \<in> set (both_results s i j). has_sort s l so \<and> has_sort s r so"
  using assms by (auto simp: both_results_def application_typed_def list_all2_conv_all_nth set_zip)

lemma shared_of_pairs_ok:
  assumes "shared_of_pairs s ps shared pairs = Inr (shared', pairs')"
    and "\<forall>(i, j) \<in> set ps. application_typed s i \<and> application_typed s j"
    and "\<forall>(l, r) \<in> pairs. l \<in> shared \<and> r \<in> shared"
  shows "shared \<subseteq> shared' \<and> pairs \<subseteq> pairs' \<and> (\<forall>t \<in> shared' - shared. arithmetic_term s t) \<and>
    (\<forall>(l, r) \<in> pairs'. l \<in> shared' \<and> r \<in> shared') \<and>
    (finite shared \<longrightarrow> finite pairs \<longrightarrow> finite shared' \<and> finite pairs') \<and>
    (\<forall>(i, j) \<in> set ps. ap_function (app_at s i) = ap_function (app_at s j) \<longrightarrow> arithmetic_sort (app_range s i) \<longrightarrow>
       ap_result (app_at s i) \<noteq> ap_result (app_at s j) \<longrightarrow> ordered_pair (ap_result (app_at s i)) (ap_result (app_at s j)) \<in> pairs')"
  using assms
proof (induction ps arbitrary: shared pairs)
  case (Cons p ps)
  obtain i j where p: "p = (i, j)" by (cases p)
  have typed: "application_typed s i" "application_typed s j" "\<forall>(i, j) \<in> set ps. application_typed s i \<and> application_typed s j"
    using Cons.prems(2) by (auto simp: p)
  show ?case
  proof (cases "ap_function (app_at s i) = ap_function (app_at s j)")
    case False
    then have "shared_of_pairs s ps shared pairs = Inr (shared', pairs')" using Cons.prems(1) by (simp add: p Let_def)
    from Cons.IH [OF this typed(3) Cons.prems(3)] show ?thesis using False by (simp add: p)
  next
    case True
    define both where "both = filter (\<lambda>((l, r), so). arithmetic_sort so) (both_results s i j)"
    define new_shared where "new_shared = set (concat (map (\<lambda>((l, r), _). [l, r]) both))"
    define new_pairs where "new_pairs = set (map (\<lambda>((l, r), _). ordered_pair l r) (filter (\<lambda>((l, r), _). l \<noteq> r) both))"
    have step: "shared_of_pairs s ps (shared \<union> new_shared) (pairs \<union> new_pairs) = Inr (shared', pairs')"
      using Cons.prems(1) True lookup_typed [OF typed(1)]
      by (simp add: p Let_def both_def both_results_def new_shared_def new_pairs_def del: filter_append set_concat set_map)
    have new: "\<forall>t \<in> new_shared. arithmetic_term s t"
      using both_results_typed [OF typed(1,2) True] by (force simp: new_shared_def both_def arithmetic_term_def)
    have inside: "l \<in> new_shared \<and> r \<in> new_shared" if "((l, r), so) \<in> set both" for l r so
      using that by (force simp: new_shared_def)
    have pairs: "\<forall>(l, r) \<in> pairs \<union> new_pairs. l \<in> shared \<union> new_shared \<and> r \<in> shared \<union> new_shared"
    proof -
      have "l \<in> new_shared \<and> r \<in> new_shared" if "(l, r) \<in> new_pairs" for l r
        using that inside by (auto simp: new_pairs_def ordered_pair_def split: if_splits)
      then show ?thesis using Cons.prems(3) by auto
    qed
    have result: "ordered_pair (ap_result (app_at s i)) (ap_result (app_at s j)) \<in> new_pairs"
      if "arithmetic_sort (app_range s i)" "ap_result (app_at s i) \<noteq> ap_result (app_at s j)"
      using that by (auto simp: new_pairs_def both_def both_results_def)
    have fin: "finite new_shared" "finite new_pairs" unfolding new_shared_def new_pairs_def by (rule finite_set)+
    note IH = Cons.IH [OF step typed(3) pairs]
    show ?thesis
    proof (intro conjI)
      show "\<forall>t \<in> shared' - shared. arithmetic_term s t" using IH new by blast
      show "\<forall>(i, j) \<in> set (p # ps). ap_function (app_at s i) = ap_function (app_at s j) \<longrightarrow> arithmetic_sort (app_range s i) \<longrightarrow>
         ap_result (app_at s i) \<noteq> ap_result (app_at s j) \<longrightarrow> ordered_pair (ap_result (app_at s i)) (ap_result (app_at s j)) \<in> pairs'"
        using IH result p by auto
    qed (use IH fin in auto)
  qed
qed auto

lemma later_pairs_set: "i \<in> set xs \<Longrightarrow> j \<in> set xs \<Longrightarrow> i \<noteq> j \<Longrightarrow> (i, j) \<in> set (later_pairs xs) \<or> (j, i) \<in> set (later_pairs xs)"
  by (induction xs) auto

lemma later_pairs_subset: "set (later_pairs xs) \<subseteq> set xs \<times> set xs"
  by (induction xs) auto

definition equality_entry :: "uf_theory \<Rightarrow> theory_equality \<Rightarrow> bool" where
  "equality_entry u e \<longleftrightarrow> uf_shared_equality_terms u (te_left e, te_right e) = Some (te_term e) \<and> te_term e \<in> set (uf_required u)"

lemma register_pairs_ok:
  assumes "register_pairs ps u s = (Inr u', s')" "distinct ps"
    and "\<forall>(l, r) \<in> set ps. arithmetic_term s l \<and> arithmetic_term s r"
    and "\<forall>e \<in> set (uf_shared_equalities u). (te_left e, te_right e) \<notin> set ps \<and> equality_entry u e"
  shows "store_frame s s' \<and> (\<forall>e \<in> set (uf_shared_equalities u'). equality_entry u' e) \<and> set (uf_required u) \<subseteq> set (uf_required u') \<and>
    (\<lambda>e. (te_left e, te_right e)) ` set (uf_shared_equalities u') =
      (\<lambda>e. (te_left e, te_right e)) ` set (uf_shared_equalities u) \<union> set ps \<and>
    uf_shared_terms u' = uf_shared_terms u \<and> uf_applications u' = uf_applications u \<and> uf_equalities u' = uf_equalities u \<and> uf_ites u' = uf_ites u"
  using assms
proof (induction ps arbitrary: u s)
  case Nil
  then show ?case by (auto simp: ret_def)
next
  case (Cons p ps)
  obtain l r where p: "p = (l, r)" by (cases p)
  obtain t s1 where t: "equivalent 1 l r s = (Inr t, s1)"
    using Cons.prems(1) by (auto simp: p bind_op_def split: prod.splits sum.splits)
  define u1 where "u1 = u\<lparr>uf_required := uf_required u @ [t],
            uf_shared_equalities := uf_shared_equalities u @ [\<lparr>te_term = t, te_left = l, te_right = r\<rparr>],
            uf_shared_equality_terms := (uf_shared_equality_terms u)((l, r) \<mapsto> t)\<rparr>"
  have rest: "register_pairs ps u1 s1 = (Inr u', s')" using Cons.prems(1) t by (simp add: p bind_op_def u1_def)
  have arith: "arithmetic_term s l" "arithmetic_term s r" using Cons.prems(3) by (auto simp: p)
  then obtain so so' where "sort_of l s = Inr so" "arithmetic_sort so" "sort_of r s = Inr so'" "arithmetic_sort so'"
    using has_sort_of by (metis arithmetic_term_def)
  then have frame: "store_frame s s1" using equivalent_frame [of l s so r so' 0] t by simp
  have keep: "arithmetic_term s1 x" if x: "arithmetic_term s x" for x
  proof -
    obtain so where so: "has_sort s x so" "arithmetic_sort so" using x by (auto simp: arithmetic_term_def)
    have "prefix (ts_nodes s) (ts_nodes s1)" "prefix (ts_sorts s) (ts_sorts s1)" using frame by (simp_all add: store_frame_def)
    then have "has_sort s1 x so"
      using so prefix_length_le [of "ts_nodes s" "ts_nodes s1"] prefix_length_le [of "ts_sorts s" "ts_sorts s1"]
      by (auto simp: has_sort_def prefix_nth arithmetic_sort_def)
    then show ?thesis using so(2) by (auto simp: arithmetic_term_def)
  qed
  have "\<forall>(l, r) \<in> set ps. arithmetic_term s1 l \<and> arithmetic_term s1 r" using Cons.prems(3) keep by auto
  moreover have "\<forall>e \<in> set (uf_shared_equalities u1). (te_left e, te_right e) \<notin> set ps \<and> equality_entry u1 e"
    using Cons.prems(2,4) by (auto simp: u1_def p equality_entry_def)
  ultimately have "store_frame s1 s' \<and> (\<forall>e \<in> set (uf_shared_equalities u'). equality_entry u' e) \<and> set (uf_required u1) \<subseteq> set (uf_required u') \<and>
    (\<lambda>e. (te_left e, te_right e)) ` set (uf_shared_equalities u') =
      (\<lambda>e. (te_left e, te_right e)) ` set (uf_shared_equalities u1) \<union> set ps \<and>
    uf_shared_terms u' = uf_shared_terms u1 \<and> uf_applications u' = uf_applications u1 \<and> uf_equalities u' = uf_equalities u1 \<and> uf_ites u' = uf_ites u1"
    using Cons.IH [OF rest] Cons.prems(2) by simp
  then show ?case using store_frame_trans [OF frame] by (auto simp: u1_def p)
qed

subsection \<open>A registered check is well-formed\<close>

lemma closure_terms_set:
  "set (uf_closure_terms u s) = {t. t < length (ts_nodes s) \<and> t \<le> u32_max \<and> has_abstract_sort s t} \<union> set (uf_shared_terms u)"
  by (auto simp: uf_closure_terms_def)

lemma abstract_term_closure:
  assumes "store_frame s s'" "length (ts_nodes s') \<le> u32_max" "abstract_term s t"
  shows "t \<in> set (uf_closure_terms u s')"
proof -
  have "length (ts_nodes s) \<le> length (ts_nodes s')" using assms(1) by (auto simp: store_frame_def dest: prefix_length_le)
  moreover have "sort_of t s' = sort_of t s" using assms(3) by (intro frame_sort_of [OF assms(1)]) (simp_all add: abstract_term_def)
  ultimately show ?thesis using assms(2,3) by (auto simp: closure_terms_set has_abstract_sort_def sort_of_def abstract_term_def)
qed

lemma has_sort_value_ok:
  assumes "store_frame s s'" "length (ts_nodes s') \<le> u32_max" "has_sort s t so" "arithmetic_sort so \<Longrightarrow> t \<in> set (uf_shared_terms u)"
  shows "value_ok (set (uf_closure_terms u s')) s' t so"
proof -
  consider "so = SBool" | "\<exists>w. so = SBitVec w" | "arithmetic_sort so" | "abstract_sort so" by (cases so) (auto simp: arithmetic_sort_def)
  then show ?thesis
  proof cases
    case 2
    then obtain w bits where "so = SBitVec w" "bitvec_bits t s = Inr bits" "length bits = w"
      using assms(3) by (cases "bitvec_bits t s") (auto simp: has_sort_def)
    then show ?thesis using frame_bits [OF assms(1)] by (simp add: term_bits_def)
  next
    case 4
    then show ?thesis using abstract_term_closure [OF assms(1,2), of t] assms(3) by (simp add: value_ok_abstract abstract_term_def has_sort_def)
  qed (use assms(4) in \<open>simp_all add: value_ok_abstract closure_terms_set\<close>)
qed

definition check_terms :: "uf_theory \<Rightarrow> term_store \<Rightarrow> nat set" where
  "check_terms u s =
     set (ts_array_axioms s) \<union> te_term ` set (uf_facts u s) \<union> ci_condition ` set (uf_choices u s)"

definition shared_pairs_of :: "uf_theory \<Rightarrow> (nat \<times> nat) set" where
  "shared_pairs_of u = (\<lambda>e. (te_left e, te_right e)) ` set (uf_shared_equalities u)"

definition registered :: "uf_relevance \<Rightarrow> term_store \<Rightarrow> uf_theory \<Rightarrow> term_store \<Rightarrow> bool" where
  "registered r s u' s' \<longleftrightarrow>
     relevance_typed r s \<and> store_frame s s' \<and> (\<forall>e \<in> set (uf_shared_equalities u'). equality_entry u' e) \<and>
     (\<forall>(i, j) \<in> set (later_pairs (ur_applications r)). ap_function (app_at s i) = ap_function (app_at s j) \<longrightarrow>
       arithmetic_sort (app_range s i) \<longrightarrow> ap_result (app_at s i) \<noteq> ap_result (app_at s j) \<longrightarrow>
       ordered_pair (ap_result (app_at s i)) (ap_result (app_at s j)) \<in> shared_pairs_of u') \<and>
     (\<forall>(a, b) \<in> shared_pairs_of u'. a \<in> set (uf_shared_terms u') \<and> b \<in> set (uf_shared_terms u')) \<and>
     (\<forall>t \<in> set (uf_shared_terms u'). arithmetic_term s t) \<and>
     (\<forall>i \<in> set (ur_applications r). \<forall>(t, so) \<in> set (application_values (app_at s i) (ts_functions s ! ap_function (app_at s i))).
       arithmetic_sort so \<longrightarrow> t \<in> set (uf_shared_terms u')) \<and>
     uf_applications u' = ur_applications r \<and> uf_equalities u' = ur_equalities r \<and> uf_ites u' = ur_ites r \<and>
     check_terms u' s' \<subseteq> set (uf_required u')"

lemma registered_parts:
  assumes typed: "relevance_typed r s" and "uf_register r u s = (Inr u', s')"
  shows "registered r s u' s'"
proof -
  obtain required shared0 shared pairs u1 s1 where
    first: "shared_of_applications s (ur_applications r) {} = Inr shared0"
      "shared_of_pairs s (later_pairs (ur_applications r)) shared0 {} = Inr (shared, pairs)"
    and reg: "register_pairs (sorted_list_of_set pairs)
       (u\<lparr>uf_required := required, uf_shared_terms := sorted_list_of_set shared, uf_shared_equalities := [],
          uf_shared_equality_terms := Map.empty, uf_applications := ur_applications r,
          uf_equalities := ur_equalities r, uf_ites := ur_ites r\<rparr>) s = (Inr u1, s1)"
    and last: "require_rest u1 s1 = (Inr u', s')"
    using assms(2) by (auto simp: uf_register_def bind_op_def asks_def split: prod.splits sum.splits)
  have typed_apps: "\<forall>i \<in> set (ur_applications r). application_typed s i" using typed by (simp add: relevance_typed_def)
  note apps = shared_of_applications_ok [OF first(1) typed_apps]
  have "\<forall>(i, j) \<in> set (later_pairs (ur_applications r)). application_typed s i \<and> application_typed s j"
    using later_pairs_subset [of "ur_applications r"] typed_apps by auto
  note ps = shared_of_pairs_ok [OF first(2) this]
  have fin: "finite shared" "finite pairs" using apps ps by simp_all
  have arith: "\<forall>t \<in> shared. arithmetic_term s t" using apps ps by auto
  have inside: "\<forall>(a, b) \<in> pairs. a \<in> shared \<and> b \<in> shared" using ps by simp
  have "\<forall>(a, b) \<in> set (sorted_list_of_set pairs). arithmetic_term s a \<and> arithmetic_term s b" using fin inside arith by auto
  note regs = register_pairs_ok [OF reg _ this, simplified]
  have s': "s' = s1" and u': "u' = u1\<lparr>uf_required := remdups_adj (sort (uf_required u1
        @ map (\<lambda>i. te_term (ts_theory_equalities s1 ! i)) (uf_equalities u1)
        @ map (\<lambda>i. ci_condition (ts_uf_ites s1 ! i)) (uf_ites u1) @ ts_array_axioms s1))\<rparr>"
    using last by (auto simp: require_rest_def)
  have entry: "equality_entry u' e" if "equality_entry u1 e" for e using that by (simp add: equality_entry_def u')
  have entries: "\<forall>e \<in> set (uf_shared_equalities u'). equality_entry u' e" using regs entry by (simp add: u')
  have required: "check_terms u' s' \<subseteq> set (uf_required u')"
  proof -
    have "te_term e \<in> set (uf_required u')" if "e \<in> set (uf_shared_equalities u')" for e
      using entries that by (simp add: equality_entry_def)
    moreover have "te_term (ts_theory_equalities s' ! i) \<in> set (uf_required u')" if "i \<in> set (uf_equalities u')" for i
      using that by (simp add: u' s')
    moreover have "ci_condition (ts_uf_ites s' ! i) \<in> set (uf_required u')" if "i \<in> set (uf_ites u')" for i
      using that by (simp add: u' s')
    moreover have "set (ts_array_axioms s') \<subseteq> set (uf_required u')" by (auto simp: u' s')
    ultimately show ?thesis by (auto simp: check_terms_def uf_facts_def uf_choices_def)
  qed
  have terms: "set (uf_shared_terms u') = shared" using regs fin(1) by (simp add: u')
  have pairs: "shared_pairs_of u' = pairs" using regs fin(2) by (simp add: u' shared_pairs_of_def)
  show ?thesis
    unfolding registered_def pairs terms
  proof (intro conjI)
    show "store_frame s s'" "uf_applications u' = ur_applications r" "uf_equalities u' = ur_equalities r" "uf_ites u' = ur_ites r"
      using regs by (simp_all add: s' u')
    show "\<forall>i \<in> set (ur_applications r). \<forall>(t, so) \<in> set (application_values (app_at s i) (ts_functions s ! ap_function (app_at s i))).
       arithmetic_sort so \<longrightarrow> t \<in> shared"
      using apps ps by blast
  qed (use typed ps entries required arith inside in simp_all)
qed

lemma registered_application:
  assumes reg: "registered r s u' s'" and few: "length (ts_nodes s') \<le> u32_max" and i: "i \<in> set (ur_applications r)"
  shows "application_ok (set (uf_closure_terms u' s')) s' i"
proof -
  have typed: "application_typed s i" and frame: "store_frame s s'"
    and shared: "\<forall>(t, so) \<in> set (application_values (app_at s i) (ts_functions s ! ap_function (app_at s i))).
       arithmetic_sort so \<longrightarrow> t \<in> set (uf_shared_terms u')"
    using reg i by (simp_all add: registered_def relevance_typed_def)
  have "value_ok (set (uf_closure_terms u' s')) s' t so"
    if "(t, so) \<in> set (application_values (app_at s i) (ts_functions s ! ap_function (app_at s i)))" for t so
    using has_sort_value_ok [OF frame few] application_values_typed [OF typed] shared that by blast
  moreover have "ts_applications s' = ts_applications s" "ts_functions s' = ts_functions s" using frame by (simp_all add: store_frame_def)
  ultimately show ?thesis using typed
    by (auto simp: application_ok_def application_typed_def application_values_def list_all2_iff)
qed

lemma registered_results:
  assumes reg: "registered r s u' s'" and ij: "i \<in> set (ur_applications r)" "j \<in> set (ur_applications r)"
    and f: "ap_function (app_at s i) = ap_function (app_at s j)" "arithmetic_sort (app_range s i)" "ap_result (app_at s i) \<noteq> ap_result (app_at s j)"
  shows "results_shared u' s' i j"
proof -
  have results: "\<forall>(i, j) \<in> set (later_pairs (ur_applications r)). ap_function (app_at s i) = ap_function (app_at s j) \<longrightarrow>
       arithmetic_sort (app_range s i) \<longrightarrow> ap_result (app_at s i) \<noteq> ap_result (app_at s j) \<longrightarrow>
       ordered_pair (ap_result (app_at s i)) (ap_result (app_at s j)) \<in> shared_pairs_of u'"
    and entries: "\<forall>e \<in> set (uf_shared_equalities u'). equality_entry u' e"
    and same: "ts_applications s' = ts_applications s"
    using reg by (simp_all add: registered_def store_frame_def)
  have swap: "ordered_pair (ap_result (app_at s j)) (ap_result (app_at s i)) = ordered_pair (ap_result (app_at s i)) (ap_result (app_at s j))"
    by (auto simp: ordered_pair_def)
  have "i \<noteq> j" using f(3) by auto
  then have "(i, j) \<in> set (later_pairs (ur_applications r)) \<or> (j, i) \<in> set (later_pairs (ur_applications r))"
    by (rule later_pairs_set [OF ij])
  then have "ordered_pair (ap_result (app_at s i)) (ap_result (app_at s j)) \<in> shared_pairs_of u'"
  proof
    assume "(j, i) \<in> set (later_pairs (ur_applications r))"
    then have "ordered_pair (ap_result (app_at s j)) (ap_result (app_at s i)) \<in> shared_pairs_of u'"
      using results f by (auto simp: f(1) [symmetric])
    then show ?thesis by (simp only: swap)
  qed (use results f in auto)
  then obtain e where "e \<in> set (uf_shared_equalities u')" "ordered_pair (ap_result (app_at s i)) (ap_result (app_at s j)) = (te_left e, te_right e)"
    by (auto simp: shared_pairs_of_def)
  then show ?thesis using entries by (auto simp: results_shared_def same equality_entry_def list_ex_iff Let_def)
qed

lemma registered_fact:
  assumes reg: "registered r s u' s'" and few: "length (ts_nodes s') \<le> u32_max" and e: "e \<in> set (uf_facts u' s')"
  shows "te_left e \<in> set (uf_closure_terms u' s') \<and> te_right e \<in> set (uf_closure_terms u' s')"
proof (cases "e \<in> set (uf_shared_equalities u')")
  case True
  then have "(te_left e, te_right e) \<in> shared_pairs_of u'" by (auto simp: shared_pairs_of_def)
  then have "te_left e \<in> set (uf_shared_terms u') \<and> te_right e \<in> set (uf_shared_terms u')" using reg unfolding registered_def by blast
  then show ?thesis by (simp add: closure_terms_set)
next
  case False
  have frame: "store_frame s s'" using reg by (simp add: registered_def)
  obtain i where "i \<in> set (ur_equalities r)" "e = ts_theory_equalities s ! i"
    using e False reg by (auto simp: uf_facts_def registered_def store_frame_def)
  then have "abstract_term s (te_left e)" "abstract_term s (te_right e)" using reg by (simp_all add: registered_def relevance_typed_def)
  then show ?thesis using abstract_term_closure [OF frame few] by blast
qed

lemma registered_terms:
  assumes reg: "registered r s u' s'" and few: "length (ts_nodes s') \<le> u32_max"
  shows "\<forall>t \<in> set (uf_closure_terms u' s'). t < length (ts_nodes s')" "length (uf_closure_terms u' s') \<le> u32_max"
proof -
  have "length (ts_nodes s) \<le> length (ts_nodes s')" and "\<forall>t \<in> set (uf_shared_terms u'). t < length (ts_nodes s)"
    using reg by (auto simp: registered_def store_frame_def arithmetic_term_def has_sort_def dest: prefix_length_le)
  then show nodes: "\<forall>t \<in> set (uf_closure_terms u' s'). t < length (ts_nodes s')" by (auto simp: closure_terms_set)
  have "length (uf_closure_terms u' s') = card (set (uf_closure_terms u' s'))"
    by (rule distinct_card [OF distinct_closure_terms, symmetric])
  also have "\<dots> \<le> card {..<length (ts_nodes s')}" using nodes by (intro card_mono) auto
  finally show "length (uf_closure_terms u' s') \<le> u32_max" using few by simp
qed


text \<open>Two applications of a function on the integers, whose arguments and results are shared.\<close>

definition shared_example_store :: term_store where
  "shared_example_store = snd (bind_op (declare_function [SInt] SInt) (\<lambda>f.
     bind_op (fresh_term SInt) (\<lambda>a. bind_op (fresh_term SInt) (\<lambda>b.
     bind_op (apply_function f [a]) (\<lambda>_. apply_function f [b])))) ts_new)"

definition shared_example :: uf_relevance where
  "shared_example = \<lparr>ur_applications = [0, 1], ur_equalities = [], ur_ites = []\<rparr>"


end
